(* ===== verification/FL_Prelude.thy ===== *)
theory FL_Prelude
  imports Main "HOL-Library.Word" "HOL-Library.Multiset"
begin

text \<open>
  Shared vocabulary of the development: the machine integer types of the C++ sources, the
  collection \<open>fl_simps\<close> of rewrite rules the component proofs pass to the simplifier, and
  the generic facts on lists, sums and topological orders the components use.
\<close>

section \<open>Machine integers\<close>

type_synonym u8 = "8 word"
type_synonym u16 = "16 word"
type_synonym u32 = "32 word"
type_synonym u64 = "64 word"
type_synonym addr = "64 word" \<comment> \<open>a pointer into unified memory; \<open>0\<close> is \<open>nullptr\<close>\<close>

named_theorems fl_simps \<open>rewrite rules shared by the component proofs\<close>

lemma unat_lt_pow: "unat (w :: 'a::len word) < 2 ^ LENGTH('a)"
  by (rule unsigned_less)

lemma unat_u32_lt: "unat (w :: u32) < 4294967296"
  using unat_lt_pow [of w] by simp

lemma unat_u64_lt: "unat (w :: u64) < 18446744073709551616"
  using unat_lt_pow [of w] by simp

lemma unat_ucast_u32_u64 [simp]: "unat (ucast (w :: u32) :: u64) = unat w"
  by (simp add: unsigned_ucast_eq unsigned_take_bit_eq take_bit_nat_eq_self_iff
      order.strict_trans [OF unat_u32_lt])

lemma unat_mult_exact:
  "unat a * unat b < 2 ^ LENGTH('a) \<Longrightarrow> unat (a * b :: 'a::len word) = unat a * unat b"
  by (simp add: unat_mult_lem [THEN iffD1])

section \<open>Results\<close>

text \<open>Continue after a call that returned; an error ends the computation.\<close>

fun bind_e :: "'e + 'a \<Rightarrow> ('a \<Rightarrow> 'e + 'b) \<Rightarrow> 'e + 'b" where
  "bind_e (Inl e) f = Inl e"
| "bind_e (Inr x) f = f x"

lemma bind_e_cong [fundef_cong]:
  "m = m' \<Longrightarrow> (\<And>x. m' = Inr x \<Longrightarrow> f x = f' x) \<Longrightarrow> bind_e m f = bind_e m' f'"
  by (cases m') simp_all

lemma bind_e_Inr: "bind_e m f = Inr y \<longleftrightarrow> (\<exists>x. m = Inr x \<and> f x = Inr y)"
  by (cases m) simp_all

section \<open>Numbers in text\<close>

text \<open>\<open>%u\<close>\<close>

fun dec_digits :: "nat \<Rightarrow> string" where
  "dec_digits n = (if n < 10 then [char_of (48 + n)] else dec_digits (n div 10) @ [char_of (48 + n mod 10)])"

declare dec_digits.simps [simp del]

section \<open>Lists\<close>

lemma list_update_eq_map_nth:
  "i < length xs \<Longrightarrow> xs[i := v] = map (\<lambda>j. if j = i then v else xs ! j) [0..<length xs]"
  by (rule nth_equalityI) auto

lemma count_list_pos_iff: "0 < count_list xs x \<longleftrightarrow> x \<in> set xs"
  by (simp add: count_list_0_iff zero_less_iff_neq_zero)

lemma distinct_count_list: "(\<And>x. x \<in> set xs \<Longrightarrow> count_list xs x \<le> 1) \<Longrightarrow> distinct xs"
proof (induction xs)
  case (Cons a xs)
  have "a \<notin> set xs" using Cons.prems [of a] by (simp add: count_list_0_iff)
  moreover have "count_list xs x \<le> 1" if "x \<in> set xs" for x
    using Cons.prems [of x] that by (simp split: if_splits)
  ultimately show ?case using Cons.IH by simp
qed simp

lemma sum_count_list_update_le:
  "finite A \<Longrightarrow> p \<in> A \<Longrightarrow> x \<in> set (f p) \<Longrightarrow> 0 < (\<Sum>q\<in>A. count_list (f q) x)"
  by (metis count_list_pos_iff gr0I sum_eq_0_iff zero_less_iff_neq_zero)

lemma set_snoc_split:
  "xs @ [a] = ys @ y # zs \<Longrightarrow> (zs = [] \<and> y = a \<and> ys = xs) \<or> (\<exists>zs'. zs = zs' @ [a] \<and> xs = ys @ y # zs')"
  by (cases zs rule: rev_cases) auto

section \<open>Topological orders\<close>

text \<open>
  \<open>topo_list R xs\<close>: in the list \<open>xs\<close> every element stands behind all its
  \<open>R\<close>-predecessors. The executors are judged against this notion.
\<close>

definition topo_list :: "('a \<times> 'a) set \<Rightarrow> 'a list \<Rightarrow> bool" where
  "topo_list R xs \<longleftrightarrow> (\<forall>ys c zs. xs = ys @ c # zs \<longrightarrow> (\<forall>p. (p, c) \<in> R \<longrightarrow> p \<in> set ys))"

lemma topo_list_Nil [simp]: "topo_list R []"
  by (simp add: topo_list_def)

lemma topo_list_snoc [fl_simps]:
  "topo_list R (xs @ [c]) \<longleftrightarrow> topo_list R xs \<and> (\<forall>p. (p, c) \<in> R \<longrightarrow> p \<in> set xs)"
proof
  assume L: "topo_list R (xs @ [c])"
  have "topo_list R xs"
    unfolding topo_list_def
  proof (intro allI impI)
    fix ys d zs p
    assume "xs = ys @ d # zs" and "(p, d) \<in> R"
    then have "xs @ [c] = ys @ d # (zs @ [c])" by simp
    with L \<open>(p, d) \<in> R\<close> show "p \<in> set ys" unfolding topo_list_def by blast
  qed
  moreover have "\<forall>p. (p, c) \<in> R \<longrightarrow> p \<in> set xs"
    using L unfolding topo_list_def by blast
  ultimately show "topo_list R xs \<and> (\<forall>p. (p, c) \<in> R \<longrightarrow> p \<in> set xs)" by blast
next
  assume R: "topo_list R xs \<and> (\<forall>p. (p, c) \<in> R \<longrightarrow> p \<in> set xs)"
  show "topo_list R (xs @ [c])"
    unfolding topo_list_def
  proof (intro allI impI)
    fix ys d zs p
    assume e: "xs @ [c] = ys @ d # zs" and r: "(p, d) \<in> R"
    from set_snoc_split [OF e] show "p \<in> set ys"
    proof
      assume "zs = [] \<and> d = c \<and> ys = xs"
      with R r show ?thesis by blast
    next
      assume "\<exists>zs'. zs = zs' @ [c] \<and> xs = ys @ d # zs'"
      then obtain zs' where "xs = ys @ d # zs'" by blast
      with R r show ?thesis unfolding topo_list_def by blast
    qed
  qed
qed

lemma topo_list_predecessor:
  assumes "topo_list R xs" "c \<in> set xs" "(p, c) \<in> R"
  shows "p \<in> set xs"
proof -
  obtain ys zs where "xs = ys @ c # zs" using assms(2) by (meson split_list)
  with assms show ?thesis unfolding topo_list_def by fastforce
qed

text \<open>A relation on the elements of a distinct topological list has no cycle.\<close>

lemma topo_list_acyclic:
  "topo_list R xs \<Longrightarrow> distinct xs \<Longrightarrow> R \<subseteq> set xs \<times> set xs \<Longrightarrow> acyclic R"
proof (induction xs arbitrary: R rule: rev_induct)
  case Nil
  then have "R = {}" by auto
  then show ?case by (simp add: acyclic_def)
next
  case (snoc a xs)
  let ?Q = "R \<inter> set xs \<times> set xs"
  have t: "topo_list R xs" and pa: "\<forall>p. (p, a) \<in> R \<longrightarrow> p \<in> set xs"
    using snoc.prems(1) by (auto simp: topo_list_snoc)
  have "topo_list ?Q xs" using t unfolding topo_list_def by fastforce
  then have acQ: "acyclic ?Q" using snoc.IH snoc.prems(2) by auto
  have nosucc: "(a, c) \<notin> R" for c
  proof
    assume ac: "(a, c) \<in> R"
    then have "c \<in> set (xs @ [a])" using snoc.prems(3) by blast
    then have "c \<in> set xs \<or> c = a" by auto
    then have "a \<in> set xs" using topo_list_predecessor [OF t _ ac] pa ac by blast
    then show False using snoc.prems(2) by simp
  qed
  show ?case
    unfolding acyclic_def
  proof (rule allI, rule notI)
    fix x assume cyc: "(x, x) \<in> R\<^sup>+"
    have stay: "(x, y) \<in> R\<^sup>+ \<Longrightarrow> y \<noteq> a \<Longrightarrow> (x, y) \<in> ?Q\<^sup>+" for y
    proof (induction rule: trancl_induct)
      case (base y)
      then have "x \<noteq> a" using nosucc by blast
      then show ?case using base snoc.prems(3) by auto
    next
      case (step y z)
      then have "y \<noteq> a" using nosucc by blast
      then have "(x, y) \<in> ?Q\<^sup>+" using step.IH by blast
      moreover have "(y, z) \<in> ?Q" using step snoc.prems(3) \<open>y \<noteq> a\<close> by auto
      ultimately show ?case by (rule trancl_into_trancl)
    qed
    have "x \<noteq> a" using cyc nosucc by (metis tranclD)
    then have "(x, x) \<in> ?Q\<^sup>+" using stay cyc by blast
    then show False using acQ by (simp add: acyclic_def)
  qed
qed

lemma topo_list_before:
  "(p, c) \<in> R\<^sup>+ \<Longrightarrow> topo_list R xs \<Longrightarrow> xs = us @ c # vs \<Longrightarrow> p \<in> set us"
proof (induction arbitrary: us vs rule: trancl_induct)
  case (base c)
  then show ?case unfolding topo_list_def by blast
next
  case (step q c)
  then have "q \<in> set us" unfolding topo_list_def by blast
  then obtain u1 u2 where u: "us = u1 @ q # u2" by (meson split_list)
  then have "p \<in> set u1" using step.IH [of u1 "u2 @ c # vs"] step.prems by simp
  then show ?case using u by simp
qed

lemma fold_move_front:
  "\<forall>u \<in> set us. \<forall>s. f u (f a s) = f a (f u s) \<Longrightarrow> fold f (us @ a # vs) s = fold f (a # us @ vs) s"
  by (induction us arbitrary: s) auto

text \<open>
  Two orders of the same tasks that respect the same dependencies have the same effect, when
  tasks that are not ordered by the dependencies commute.
\<close>

lemma topo_fold_eq:
  assumes "distinct xs" "distinct ys" "set xs = set ys" "topo_list R xs" "topo_list R ys"
    and "\<And>a b s. a \<in> set xs \<Longrightarrow> b \<in> set xs \<Longrightarrow> a \<noteq> b \<Longrightarrow> (a, b) \<notin> R\<^sup>+ \<Longrightarrow> (b, a) \<notin> R\<^sup>+ \<Longrightarrow>
      f a (f b s) = f b (f a s)"
  shows "fold f xs s = fold f ys s"
  using assms
proof (induction xs arbitrary: ys R s)
  case Nil
  then show ?case by simp
next
  case (Cons a xs)
  have nopre: "(p, a) \<notin> R" for p
    using Cons.prems(4) unfolding topo_list_def by (metis append_Nil empty_iff list.set(1))
  then have nopre': "(p, a) \<notin> R\<^sup>+" for p by (metis tranclE)
  have "a \<in> set ys" using Cons.prems(3) by auto
  then obtain us vs where ys: "ys = us @ a # vs" by (meson split_list)
  have after: "(a, u) \<notin> R\<^sup>+" if u: "u \<in> set us" for u
  proof
    assume au: "(a, u) \<in> R\<^sup>+"
    obtain u1 u2 where "us = u1 @ u # u2" using u by (meson split_list)
    then have "ys = u1 @ u # (u2 @ a # vs)" using ys by simp
    from topo_list_before [OF au Cons.prems(5) this] have "a \<in> set u1" .
    then show False using Cons.prems(2) ys \<open>us = u1 @ u # u2\<close> by simp
  qed
  have "\<forall>u \<in> set us. \<forall>s. f u (f a s) = f a (f u s)"
  proof (intro ballI allI)
    fix u s assume u: "u \<in> set us"
    then have "u \<noteq> a" "u \<in> set (a # xs)" using Cons.prems(2,3) ys by auto
    then show "f u (f a s) = f a (f u s)"
      using Cons.prems(6) [of u a s] nopre' after [OF u] by simp
  qed
  then have mv: "fold f ys s = fold f (us @ vs) (f a s)"
    unfolding ys by (simp only: fold_move_front fold_simps)
  let ?R = "{(p, c). (p, c) \<in> R \<and> p \<noteq> a}"
  have sub: "(b, c) \<in> ?R\<^sup>+" if "(b, c) \<in> R\<^sup>+" "b \<noteq> a" for b c
    using that
  proof (induction rule: trancl_induct)
    case (base c)
    then show ?case by auto
  next
    case (step c d)
    then have "c \<noteq> a" using nopre' by blast
    then have "(c, d) \<in> ?R" using step.hyps by simp
    then show ?case using step.IH [OF step.prems] by (rule trancl_into_trancl [rotated])
  qed
  have t1: "topo_list ?R xs"
    unfolding topo_list_def
  proof (intro allI impI)
    fix l c r p assume "xs = l @ c # r" "(p, c) \<in> ?R"
    then have "a # xs = (a # l) @ c # r" "(p, c) \<in> R" "p \<noteq> a" by auto
    then have "p \<in> set (a # l)" using Cons.prems(4) unfolding topo_list_def by blast
    then show "p \<in> set l" using \<open>p \<noteq> a\<close> by simp
  qed
  have t2: "topo_list ?R (us @ vs)"
    unfolding topo_list_def
  proof (intro allI impI)
    fix l c r p assume e: "us @ vs = l @ c # r" and pc: "(p, c) \<in> ?R"
    have "\<exists>l' r'. ys = l' @ c # r' \<and> set l' - {a} \<subseteq> set l"
    proof -
      from e consider (left) u2 where "us = l @ c # u2" | (right) v1 where "l = us @ v1" "vs = v1 @ c # r"
        by (auto simp: append_eq_append_conv2 append_eq_Cons_conv Cons_eq_append_conv)
      then show ?thesis
      proof cases
        case left
        then have "ys = l @ c # (u2 @ a # vs)" using ys by simp
        then show ?thesis by blast
      next
        case right
        then have "ys = (us @ a # v1) @ c # r" using ys by simp
        moreover have "set (us @ a # v1) - {a} \<subseteq> set l" using right by auto
        ultimately show ?thesis by blast
      qed
    qed
    then obtain l' r' where l: "ys = l' @ c # r'" "set l' - {a} \<subseteq> set l" by blast
    then have "p \<in> set l'" using Cons.prems(5) pc unfolding topo_list_def by blast
    then show "p \<in> set l" using l(2) pc by auto
  qed
  have "fold f xs (f a s) = fold f (us @ vs) (f a s)"
  proof (rule Cons.IH [OF _ _ _ t1 t2])
    show "distinct xs" "distinct (us @ vs)" using Cons.prems(1,2) ys by auto
    show "set xs = set (us @ vs)" using Cons.prems(1,2,3) ys by auto
    show "f b (f c s') = f c (f b s')"
      if "b \<in> set xs" "c \<in> set xs" "b \<noteq> c" "(b, c) \<notin> ?R\<^sup>+" "(c, b) \<notin> ?R\<^sup>+" for b c s'
    proof -
      have "b \<noteq> a" "c \<noteq> a" using that Cons.prems(1) by auto
      then show ?thesis using Cons.prems(6) [of b c s'] that sub by auto
    qed
  qed
  then show ?case using mv by simp
qed

section \<open>Counting loops\<close>

text \<open>\<open>for (i = lo; i < hi; ++i) s = body(i, s);\<close>\<close>

definition for_loop :: "nat \<Rightarrow> nat \<Rightarrow> (nat \<Rightarrow> 's \<Rightarrow> 's) \<Rightarrow> 's \<Rightarrow> 's" where
  "for_loop lo hi body s = fold body [lo..<hi] s"

lemma for_loop_empty [simp]: "hi \<le> lo \<Longrightarrow> for_loop lo hi body s = s"
  by (simp add: for_loop_def)

lemma for_loop_last: "lo \<le> hi \<Longrightarrow> for_loop lo (Suc hi) body s = body hi (for_loop lo hi body s)"
  by (simp add: for_loop_def)

lemma for_loop_cong:
  "(\<And>i s. lo \<le> i \<Longrightarrow> i < hi \<Longrightarrow> body i s = body' i s) \<Longrightarrow> for_loop lo hi body s = for_loop lo hi body' s"
  unfolding for_loop_def by (rule fold_cong) (auto intro: ext)

lemma for_loop_append:
  assumes "lo \<le> mid" "mid \<le> hi"
  shows "for_loop mid hi body (for_loop lo mid body s) = for_loop lo hi body s"
proof -
  obtain k where k: "hi = mid + k" using assms(2) le_Suc_ex by blast
  have "[lo..<mid + k] = [lo..<mid] @ [mid..<mid + k]" by (rule upt_add_eq_append [OF assms(1)])
  then show ?thesis by (simp add: for_loop_def k)
qed

lemma for_loop_shift: "for_loop 0 n (\<lambda>i. body (m + i)) s = for_loop m (m + n) body s"
  by (induction n) (simp_all add: for_loop_last)

text \<open>A loop over blocks of \<open>m\<close> elements is the loop over the elements.\<close>

lemma for_loop_blocks:
  "for_loop 0 n (\<lambda>b. for_loop 0 m (\<lambda>i. body (b * m + i))) s = for_loop 0 (n * m) body s"
proof (induction n)
  case (Suc n)
  have "for_loop 0 (Suc n) (\<lambda>b. for_loop 0 m (\<lambda>i. body (b * m + i))) s
      = for_loop 0 m (\<lambda>i. body (n * m + i)) (for_loop 0 (n * m) body s)"
    by (simp add: for_loop_last Suc)
  also have "\<dots> = for_loop (n * m) (n * m + m) body (for_loop 0 (n * m) body s)"
    by (rule for_loop_shift)
  also have "\<dots> = for_loop 0 (n * m + m) body s" by (rule for_loop_append) simp_all
  finally show ?case by (simp add: add.commute)
qed simp

lemma for_loop_invariant:
  assumes "P lo s" "\<And>i s. lo \<le> i \<Longrightarrow> i < hi \<Longrightarrow> P i s \<Longrightarrow> P (Suc i) (body i s)" "lo \<le> hi"
  shows "P hi (for_loop lo hi body s)"
  using assms(3,2,1)
proof (induction hi rule: nat_induct_at_least)
  case (Suc n)
  have "P n (for_loop lo n body s)" using Suc by simp
  then show ?case using Suc by (simp add: for_loop_last)
qed simp

section \<open>Writes to memory\<close>

text \<open>\<open>memcpy(m + dst, src, n)\<close>, and the loops that fill memory block by block.\<close>

definition memcpy_to :: "(nat \<Rightarrow> 'a) \<Rightarrow> nat \<Rightarrow> (nat \<Rightarrow> 'a) \<Rightarrow> nat \<Rightarrow> nat \<Rightarrow> 'a" where
  "memcpy_to m dst src n = (\<lambda>a. if dst \<le> a \<and> a < dst + n then src (a - dst) else m a)"

text \<open>A loop of writers: step \<open>i\<close> fills the first \<open>u\<close> of its own \<open>m\<close> addresses and touches no other.\<close>

definition block_writer ::
  "nat \<Rightarrow> nat \<Rightarrow> nat \<Rightarrow> nat \<Rightarrow> (nat \<Rightarrow> (nat \<Rightarrow> 'a) \<Rightarrow> nat \<Rightarrow> 'a) \<Rightarrow> (nat \<Rightarrow> nat \<Rightarrow> 'a) \<Rightarrow> bool" where
  "block_writer n base m u body v \<longleftrightarrow> u \<le> m \<and> (\<forall>i < n. \<forall>m0.
     (\<forall>a. a < base + i * m \<or> base + i * m + m \<le> a \<longrightarrow> body i m0 a = m0 a)
     \<and> (\<forall>k < u. body i m0 (base + i * m + k) = v i k))"

lemma block_writerD:
  assumes "block_writer n base m u body v" "i < n"
  shows "a < base + i * m \<or> base + i * m + m \<le> a \<Longrightarrow> body i m0 a = m0 a"
    and "k < u \<Longrightarrow> body i m0 (base + i * m + k) = v i k"
  using assms unfolding block_writer_def by blast+

lemma block_before: "i < j \<Longrightarrow> i * m + m \<le> j * (m :: nat)"
  using mult_le_mono1 [of "Suc i" j m] by simp

lemma block_writer_own:
  assumes w: "block_writer n base m u body v" and i: "i < n" and k: "k < u"
  shows "for_loop 0 n body m0 (base + i * m + k) = v i k"
proof -
  have m: "u \<le> m" using w by (simp add: block_writer_def)
  have "for_loop 0 l body m0 (base + i * m + k) = (if i < l then v i k else m0 (base + i * m + k))" if "l \<le> n" for l
    using that
  proof (induction l)
    case (Suc l)
    then have l: "l < n" by simp
    consider "i = l" | "i < l" | "l < i" by linarith
    then show ?case
    proof cases
      case 1 then show ?thesis by (simp add: for_loop_last block_writerD(2) [OF w l k])
    next
      case 2
      then have "base + i * m + k < base + l * m" using block_before [of i l m] k m by linarith
      then show ?thesis using Suc 2 by (simp add: for_loop_last block_writerD(1) [OF w l])
    next
      case 3
      then have "base + l * m + m \<le> base + i * m + k" using block_before [of l i m] by linarith
      then show ?thesis using Suc 3 by (simp add: for_loop_last block_writerD(1) [OF w l])
    qed
  qed simp
  then show ?thesis using i by simp
qed

lemma block_writer_other:
  assumes w: "block_writer n base m u body v" and a: "a < base \<or> base + n * m \<le> a"
  shows "for_loop 0 n body m0 a = m0 a"
proof -
  have "for_loop 0 l body m0 a = m0 a" if "l \<le> n" for l
    using that
  proof (induction l)
    case (Suc l)
    then have "a < base + l * m \<or> base + l * m + m \<le> a"
      using a block_before [of l n m] by linarith
    then show ?case using Suc by (simp add: for_loop_last block_writerD(1) [OF w])
  qed simp
  then show ?thesis by simp
qed

text \<open>A loop of writers that fill their blocks completely is itself a writer.\<close>

lemma block_writer_nest:
  assumes w: "\<And>i. i < n \<Longrightarrow> block_writer n' (base + i * m) m' m' (body i) (v i)" and m: "n' * m' \<le> m"
  shows "block_writer n base m (n' * m') (\<lambda>i. for_loop 0 n' (body i)) (\<lambda>i k. v i (k div m') (k mod m'))"
  unfolding block_writer_def
proof (intro conjI allI impI, rule m)
  fix i m0 a assume i: "i < n" and a: "a < base + i * m \<or> base + i * m + m \<le> a"
  then show "for_loop 0 n' (body i) m0 a = m0 a"
    using m by (intro block_writer_other [OF w [OF i]]) linarith
next
  fix i m0 k assume i: "i < n" and k: "k < n' * m'"
  then have m': "0 < m'" by (cases m') auto
  have "k div m' < n'" using k by (simp add: less_mult_imp_div_less)
  moreover have "k mod m' < m'" using m' by simp
  ultimately have "for_loop 0 n' (body i) m0 (base + i * m + k div m' * m' + k mod m') = v i (k div m') (k mod m')"
    by (rule block_writer_own [OF w [OF i]])
  then show "for_loop 0 n' (body i) m0 (base + i * m + k) = v i (k div m') (k mod m')"
    by (simp add: add.assoc)
qed

end
