(* ===== verification/FL_Queue.thy ===== *)
theory FL_Queue
  imports FL_Prelude
begin

unbundle bit_operations_syntax

text \<open>
  The bounded ready queue of \<open>src/runtime/queue.h\<close> run by one thread at a time, at the width of
  its cursors: \<open>head\<close>, \<open>tail\<close> and the cell sequence numbers are 32-bit words that wrap. An
  operation is a retry loop, so it is a \<open>partial_function\<close>: \<open>None\<close> would be a loop that never
  ends, and the refinement to a bounded FIFO list shows it always returns. The interleaving of
  many threads is the subject of the theory \<open>FL_Queue_Steps\<close>.
\<close>

section \<open>State\<close>

definition kQueueEmpty :: u32 where
  "kQueueEmpty = 0xFFFFFFFF"

text \<open>A cell is its sequence number and its value.\<close>

type_synonym queue_cell = "u32 \<times> u32"

record queue =
  q_cells :: "queue_cell list"
  q_mask :: u32
  q_fence_light :: bool
  q_head :: u32
  q_tail :: u32

definition queue_init :: "u32 \<Rightarrow> queue" where
  "queue_init capacity_pow2 =
     \<lparr>q_cells = map (\<lambda>i. (of_nat i, kQueueEmpty)) [0..<unat capacity_pow2],
      q_mask = capacity_pow2 - 1, q_fence_light = False, q_head = 0, q_tail = 0\<rparr>"

definition cell_ix :: "queue \<Rightarrow> u32 \<Rightarrow> nat" where
  "cell_ix q pos = unat (pos AND q_mask q)"

definition cell_seq :: "queue \<Rightarrow> u32 \<Rightarrow> u32" where
  "cell_seq q pos = fst (q_cells q ! cell_ix q pos)"

definition cell_val :: "queue \<Rightarrow> u32 \<Rightarrow> u32" where
  "cell_val q pos = snd (q_cells q ! cell_ix q pos)"

definition set_cell :: "queue \<Rightarrow> u32 \<Rightarrow> queue_cell \<Rightarrow> queue" where
  "set_cell q pos x = q\<lparr>q_cells := (q_cells q)[cell_ix q pos := x]\<rparr>"

definition set_seq :: "queue \<Rightarrow> u32 \<Rightarrow> u32 \<Rightarrow> queue" where
  "set_seq q pos sq = set_cell q pos (sq, cell_val q pos)"

section \<open>Operations\<close>

text \<open>\<open>push\<close>: the difference \<open>seq - pos\<close> is read as a signed 32-bit number.\<close>

partial_function (option) push_loop :: "queue \<Rightarrow> u32 \<Rightarrow> u32 \<Rightarrow> (queue \<times> bool) option" where
  "push_loop q v pos =
     (let dif = sint (cell_seq q pos - pos) in
      if dif = 0 then
        (if q_head q = pos
         then Some (set_cell (q\<lparr>q_head := pos + 1\<rparr>) pos (pos + 1, v), True)
         else push_loop q v (q_head q))
      else if dif < 0 then Some (q, False)
      else push_loop q v (q_head q))"

definition queue_push :: "queue \<Rightarrow> u32 \<Rightarrow> (queue \<times> bool) option" where
  "queue_push q v = push_loop q v (q_head q)"

partial_function (option) pop_loop :: "queue \<Rightarrow> u32 \<Rightarrow> (queue \<times> u32 option) option" where
  "pop_loop q pos =
     (let dif = sint (cell_seq q pos - (pos + 1)) in
      if dif = 0 then
        (if q_tail q = pos
         then Some (set_seq (q\<lparr>q_tail := pos + 1\<rparr>) pos (pos + q_mask q + 1), Some (cell_val q pos))
         else pop_loop q (q_tail q))
      else if dif < 0 then Some (q, None)
      else pop_loop q (q_tail q))"

definition queue_pop :: "queue \<Rightarrow> (queue \<times> u32 option) option" where
  "queue_pop q = pop_loop q (q_tail q)"

text \<open>The readiness scan of \<open>pop_bulk\<close>: \<open>while (m < maxn) { if (seq != pos+m+1) break; ++m; }\<close>.\<close>

function bulk_scan :: "queue \<Rightarrow> u32 \<Rightarrow> nat \<Rightarrow> nat \<Rightarrow> nat" where
  "bulk_scan q pos maxn m =
     (if m < maxn \<and> cell_seq q (pos + of_nat m) = pos + of_nat m + 1
      then bulk_scan q pos maxn (Suc m) else m)"
  by pat_completeness auto
termination by (relation "measure (\<lambda>(q, pos, maxn, m). maxn - m)") auto

declare bulk_scan.simps [simp del]

text \<open>Read and recycle the claimed cells one by one, as \<open>pop_bulk\<close> does.\<close>

fun bulk_take :: "queue \<Rightarrow> u32 \<Rightarrow> nat \<Rightarrow> queue \<times> u32 list" where
  "bulk_take q pos 0 = (q, [])"
| "bulk_take q pos (Suc m) =
     (let v = cell_val q pos;
          (q', vs) = bulk_take (set_seq q pos (pos + q_mask q + 1)) (pos + 1) m
      in (q', v # vs))"

text \<open>Read them all, then recycle them all, as \<open>pop_bulk_light\<close> does.\<close>

fun bulk_recycle :: "queue \<Rightarrow> u32 \<Rightarrow> nat \<Rightarrow> queue" where
  "bulk_recycle q pos 0 = q"
| "bulk_recycle q pos (Suc m) = bulk_recycle (set_seq q pos (pos + q_mask q + 1)) (pos + 1) m"

definition bulk_read :: "queue \<Rightarrow> u32 \<Rightarrow> nat \<Rightarrow> u32 list" where
  "bulk_read q pos m = map (\<lambda>i. cell_val q (pos + of_nat i)) [0..<m]"

partial_function (option) pop_bulk_light :: "queue \<Rightarrow> nat \<Rightarrow> (queue \<times> u32 list) option" where
  "pop_bulk_light q maxn =
     (let pos = q_tail q; m = bulk_scan q pos maxn 0 in
      if m = 0 then
        (if sint (cell_seq q pos - (pos + 1)) < 0 then Some (q, []) else pop_bulk_light q maxn)
      else let q1 = q\<lparr>q_tail := pos + of_nat m\<rparr> in
        Some (bulk_recycle q1 pos m, bulk_read q1 pos m))"

partial_function (option) pop_bulk_fenced :: "queue \<Rightarrow> nat \<Rightarrow> (queue \<times> u32 list) option" where
  "pop_bulk_fenced q maxn =
     (let pos = q_tail q; m = bulk_scan q pos maxn 0 in
      if m = 0 then
        (if sint (cell_seq q pos - (pos + 1)) < 0 then Some (q, []) else pop_bulk_fenced q maxn)
      else Some (bulk_take (q\<lparr>q_tail := pos + of_nat m\<rparr>) pos m))"

definition queue_pop_bulk :: "queue \<Rightarrow> nat \<Rightarrow> (queue \<times> u32 list) option" where
  "queue_pop_bulk q maxn =
     (if q_fence_light q then pop_bulk_light q maxn else pop_bulk_fenced q maxn)"

section \<open>The abstraction to a bounded list\<close>

definition queue_len :: "queue \<Rightarrow> nat" where
  "queue_len q = unat (q_head q - q_tail q)"

definition queue_cap :: "queue \<Rightarrow> nat" where
  "queue_cap q = length (q_cells q)"

definition queue_list :: "queue \<Rightarrow> u32 list" where
  "queue_list q = map (\<lambda>i. cell_val q (q_tail q + of_nat i)) [0..<queue_len q]"

text \<open>
  The state between operations: a capacity \<open>2 ^ k\<close> with \<open>1 \<le> k \<le> 31\<close>, at most that many
  values, the cells of \<open>[tail, head)\<close> published and the rest free for the next lap. All cursor
  arithmetic is modulo \<open>2 ^ 32\<close>.
\<close>

definition queue_ok :: "nat \<Rightarrow> queue \<Rightarrow> bool" where
  "queue_ok k q \<longleftrightarrow> 1 \<le> k \<and> k \<le> 31 \<and> q_mask q = mask k \<and> length (q_cells q) = 2 ^ k
     \<and> queue_len q \<le> 2 ^ k
     \<and> (\<forall>i < 2 ^ k. cell_seq q (q_tail q + of_nat i) =
          (if i < queue_len q then q_tail q + of_nat i + 1 else q_tail q + of_nat i))"

definition queue_inv :: "queue \<Rightarrow> bool" where
  "queue_inv q \<longleftrightarrow> (\<exists>k. queue_ok k q)"

lemma queue_okD:
  assumes "queue_ok k q"
  shows "1 \<le> k" "k \<le> 31" "q_mask q = mask k" "length (q_cells q) = 2 ^ k" "queue_cap q = 2 ^ k"
    "queue_len q \<le> 2 ^ k"
    "\<And>i. i < queue_len q \<Longrightarrow> cell_seq q (q_tail q + of_nat i) = q_tail q + of_nat i + 1"
    "\<And>i. queue_len q \<le> i \<Longrightarrow> i < 2 ^ k \<Longrightarrow> cell_seq q (q_tail q + of_nat i) = q_tail q + of_nat i"
    "2 ^ k \<le> (2147483648 :: nat)"
proof -
  show "2 ^ k \<le> (2147483648 :: nat)"
    using power_increasing [of k 31 "2 :: nat"] assms by (simp add: queue_ok_def)
qed (use assms in \<open>auto simp: queue_ok_def queue_cap_def\<close>)

lemma cell_ix_mod:
  assumes "queue_ok k q"
  shows "cell_ix q pos = unat pos mod 2 ^ k"
proof -
  have "cell_ix q pos = unat (take_bit k pos)"
    unfolding cell_ix_def queue_okD(3) [OF assms] by (simp only: take_bit_eq_mask)
  also have "\<dots> = take_bit k (unat pos)"
    using queue_okD(2) [OF assms] by (simp only: unsigned_take_bit_eq)
  finally show ?thesis by (simp only: take_bit_eq_mod)
qed

lemma unat_add_mod_pow:
  assumes "k \<le> 32"
  shows "unat ((a :: u32) + of_nat i) mod 2 ^ k = (unat a + i) mod 2 ^ k"
proof -
  have d: "(2 :: nat) ^ k dvd 2 ^ 32" using assms by (rule le_imp_power_dvd)
  have "unat (a + of_nat i) = (unat a + i) mod 2 ^ 32"
    by (simp add: unat_word_ariths unat_of_nat mod_simps)
  then show ?thesis using mod_mod_cancel [OF d] by metis
qed

lemma cell_ix_add:
  assumes "queue_ok k q"
  shows "cell_ix q (a + of_nat i) = (unat a + i) mod 2 ^ k"
  using unat_add_mod_pow [of k a i] queue_okD(2) [OF assms]
  by (simp only: cell_ix_mod [OF assms])

lemma cell_ix_lt: "queue_ok k q \<Longrightarrow> cell_ix q pos < length (q_cells q)"
  by (simp add: cell_ix_mod queue_okD)

lemma mod_window_inj:
  assumes "(a + i) mod m = (a + j) mod m" "i < m" "j < (m :: nat)"
  shows "i = j"
proof -
  have *: "j' = i'" if "(a + i') mod m = (a + j') mod m" "i' \<le> j'" "j' < m" for i' j'
  proof -
    have "m dvd (a + j') - (a + i')" using that(1,2) by (metis add_left_mono mod_eq_dvd_iff_nat)
    then have "m dvd j' - i'" by simp
    moreover have "j' - i' < m" using that(3) by simp
    ultimately show ?thesis using that(2) by (metis diff_is_0_eq dvd_imp_le le_antisym leD not_gr0)
  qed
  show ?thesis using *[of i j] *[of j i] assms by (metis nat_le_linear)
qed

section \<open>Cells of the window\<close>

lemma queue_sel_update [simp]:
  "cell_ix (q\<lparr>q_tail := t\<rparr>) p = cell_ix q p" "cell_ix (q\<lparr>q_head := h\<rparr>) p = cell_ix q p"
  "cell_ix (set_cell q p' x) p = cell_ix q p" "cell_ix (set_seq q p' sq) p = cell_ix q p"
  "cell_seq (q\<lparr>q_tail := t\<rparr>) p = cell_seq q p" "cell_seq (q\<lparr>q_head := h\<rparr>) p = cell_seq q p"
  "cell_val (q\<lparr>q_tail := t\<rparr>) p = cell_val q p" "cell_val (q\<lparr>q_head := h\<rparr>) p = cell_val q p"
  "q_head (set_cell q p' x) = q_head q" "q_tail (set_cell q p' x) = q_tail q"
  "q_mask (set_cell q p' x) = q_mask q" "q_fence_light (set_cell q p' x) = q_fence_light q"
  "length (q_cells (set_cell q p' x)) = length (q_cells q)"
  "set_cell (q\<lparr>q_tail := t\<rparr>) p' x = (set_cell q p' x)\<lparr>q_tail := t\<rparr>"
  "set_seq (q\<lparr>q_tail := t\<rparr>) p' sq = (set_seq q p' sq)\<lparr>q_tail := t\<rparr>"
  "set_cell (q\<lparr>q_head := h\<rparr>) p' x = (set_cell q p' x)\<lparr>q_head := h\<rparr>"
  by (simp_all add: cell_ix_def cell_seq_def cell_val_def set_cell_def set_seq_def)

lemma cell_of_set_cell:
  assumes "cell_ix q p' < length (q_cells q)"
  shows "cell_seq (set_cell q p' x) p = (if cell_ix q p = cell_ix q p' then fst x else cell_seq q p)"
    "cell_val (set_cell q p' x) p = (if cell_ix q p = cell_ix q p' then snd x else cell_val q p)"
  using assms by (auto simp: cell_seq_def cell_val_def cell_ix_def set_cell_def nth_list_update)

lemma cell_ix_window:
  assumes "queue_ok k q" "i < 2 ^ k" "j < 2 ^ k"
  shows "cell_ix q (a + of_nat i) = cell_ix q (a + of_nat j) \<longleftrightarrow> i = j"
  using mod_window_inj [of "unat a" i "2 ^ k" j] assms by (auto simp: cell_ix_add)

lemma cell_ix_lap:
  assumes "queue_ok k q"
  shows "cell_ix q (a + of_nat (2 ^ k)) = cell_ix q a"
  using cell_ix_add [OF assms, of a "2 ^ k"] cell_ix_mod [OF assms, of a] by simp

lemma unat_of_nat_small: "n \<le> 2147483648 \<Longrightarrow> unat (of_nat n :: u32) = n"
  by (simp add: unat_of_nat)

lemma queue_head_eq: "q_head q = q_tail q + of_nat (queue_len q)"
  by (simp add: queue_len_def)

lemma queue_head_seq:
  assumes "queue_ok k q"
  shows "cell_seq q (q_head q) =
    (if queue_len q < 2 ^ k then q_head q else q_tail q + 1)"
proof (cases "queue_len q < 2 ^ k")
  case True
  then show ?thesis using queue_okD(8) [OF assms, of "queue_len q"] by (simp add: queue_head_eq)
next
  case False
  then have l: "queue_len q = 2 ^ k" using queue_okD(6) [OF assms] by simp
  have "cell_ix q (q_head q) = cell_ix q (q_tail q)"
    using cell_ix_lap [OF assms] by (simp only: queue_head_eq l)
  then have "cell_seq q (q_head q) = cell_seq q (q_tail q)" by (simp add: cell_seq_def)
  then show ?thesis using queue_okD(7) [OF assms, of 0] l by simp
qed

lemma queue_tail_seq:
  assumes "queue_ok k q"
  shows "cell_seq q (q_tail q) = (if 0 < queue_len q then q_tail q + 1 else q_tail q)"
  using queue_okD(7) [OF assms, of 0] queue_okD(8) [OF assms, of 0] by simp

lemma sint_full_dif:
  assumes "1 \<le> k" "k \<le> 31"
  shows "sint (1 - of_nat (2 ^ k) :: u32) < 0"
proof -
  have b: "2 ^ k \<le> (2147483648 :: nat)" "2 \<le> (2 ^ k :: nat)"
    using power_increasing [of k 31 "2 :: nat"] power_increasing [of 1 k "2 :: nat"] assms by auto
  have c: "(2 :: int) ^ k \<le> 2147483648" "2 \<le> (2 :: int) ^ k"
    using b by (metis of_nat_le_iff of_nat_numeral of_nat_power)+
  have "(1 - of_nat (2 ^ k) :: u32) = word_of_int (1 - int (2 ^ k))" by simp
  then have "sint (1 - of_nat (2 ^ k) :: u32) = signed_take_bit 31 (1 - int (2 ^ k))"
    by (simp only: signed_of_int) simp
  also have "\<dots> = 1 - int (2 ^ k)"
    by (rule signed_take_bit_int_eq_self) (use c in simp_all)
  finally show ?thesis using c by simp
qed

section \<open>Each operation refines the list operation\<close>

text \<open>The states an operation leaves, characterised by their window.\<close>

lemma queue_okI:
  assumes "queue_ok k q" "q_mask q' = q_mask q" "length (q_cells q') = length (q_cells q)"
    and "queue_len q' \<le> 2 ^ k"
    and "\<And>i. i < 2 ^ k \<Longrightarrow> cell_seq q' (q_tail q' + of_nat i) =
      (if i < queue_len q' then q_tail q' + of_nat i + 1 else q_tail q' + of_nat i)"
  shows "queue_ok k q'"
  using assms by (simp add: queue_ok_def)

lemma queue_push_full:
  assumes "queue_ok k q" "queue_len q = 2 ^ k"
  shows "queue_push q v = Some (q, False)"
proof -
  have s: "cell_seq q (q_head q) - q_head q = 1 - of_nat (2 ^ k)"
    using queue_head_seq [OF assms(1)] assms(2) by (simp add: queue_head_eq)
  have neg: "sint (cell_seq q (q_head q) - q_head q) < 0"
    unfolding s by (rule sint_full_dif) (use queue_okD [OF assms(1)] in auto)
  then have nz: "\<not> sint (cell_seq q (q_head q) - q_head q) = 0" by linarith
  show ?thesis
    unfolding queue_push_def by (subst push_loop.simps) (simp only: Let_def neg nz if_True if_False)
qed

definition pushed_state :: "queue \<Rightarrow> u32 \<Rightarrow> queue" where
  "pushed_state q v = set_cell (q\<lparr>q_head := q_head q + 1\<rparr>) (q_head q) (q_head q + 1, v)"

lemma queue_push_room:
  assumes "queue_ok k q" "queue_len q < 2 ^ k"
  shows "queue_push q v = Some (pushed_state q v, True)"
proof -
  have "cell_seq q (q_head q) - q_head q = 0" using queue_head_seq [OF assms(1)] assms(2) by simp
  then show ?thesis
    unfolding queue_push_def pushed_state_def by (subst push_loop.simps) (simp add: Let_def)
qed

lemma pushed_state_ok:
  assumes ok: "queue_ok k q" and room: "queue_len q < 2 ^ k"
  shows "queue_ok k (pushed_state q v)" "queue_list (pushed_state q v) = queue_list q @ [v]"
proof -
  let ?q = "pushed_state q v" and ?n = "queue_len q"
  have n31: "Suc ?n \<le> 2147483648" using room queue_okD(9) [OF ok] by linarith
  have sel: "q_tail ?q = q_tail q" "q_mask ?q = q_mask q" "length (q_cells ?q) = length (q_cells q)"
    "q_head ?q = q_head q + 1"
    by (simp_all add: pushed_state_def)
  have "q_head ?q - q_tail ?q = of_nat (Suc ?n)" by (simp add: sel queue_head_eq [of q])
  then have len: "queue_len ?q = Suc ?n" unfolding queue_len_def [of ?q]
    using unat_of_nat_small [OF n31] by simp
  have ix: "cell_ix q (q_tail q + of_nat i) = cell_ix q (q_head q) \<longleftrightarrow> i = ?n" if "i < 2 ^ k" for i
    using cell_ix_window [OF ok that room] by (simp add: queue_head_eq)
  have seq: "cell_seq ?q (q_tail q + of_nat i) = (if i = ?n then q_head q + 1 else cell_seq q (q_tail q + of_nat i))"
   and val: "cell_val ?q (q_tail q + of_nat i) = (if i = ?n then v else cell_val q (q_tail q + of_nat i))"
    if "i < 2 ^ k" for i
    unfolding pushed_state_def using cell_ix_lt [OF ok] ix [OF that]
    by (simp_all add: cell_of_set_cell)
  show "queue_ok k ?q"
  proof (rule queue_okI [OF ok sel(2,3)])
    show "queue_len ?q \<le> 2 ^ k" using len room by simp
    fix i :: nat assume i: "i < 2 ^ k"
    consider "i < ?n" | "i = ?n" | "?n < i" by linarith
    then show "cell_seq ?q (q_tail ?q + of_nat i) =
      (if i < queue_len ?q then q_tail ?q + of_nat i + 1 else q_tail ?q + of_nat i)"
    proof cases
      case 2
      then show ?thesis using seq [OF i] by (simp add: sel len queue_head_eq)
    qed (use seq [OF i] queue_okD(7,8) [OF ok] i in \<open>simp_all add: sel len\<close>)
  qed
  show "queue_list ?q = queue_list q @ [v]"
    using val room by (simp add: queue_list_def len sel)
qed

lemma queue_pop_empty:
  assumes "queue_ok k q" "queue_len q = 0"
  shows "queue_pop q = Some (q, None)"
proof -
  have s: "cell_seq q (q_tail q) - (q_tail q + 1) = - 1"
    using queue_tail_seq [OF assms(1)] assms(2) by simp
  show ?thesis
    unfolding queue_pop_def by (subst pop_loop.simps) (simp add: Let_def s)
qed

definition popped_state :: "queue \<Rightarrow> queue" where
  "popped_state q = (set_seq q (q_tail q) (q_tail q + q_mask q + 1))\<lparr>q_tail := q_tail q + 1\<rparr>"

lemma queue_pop_some:
  assumes "queue_ok k q" "0 < queue_len q"
  shows "queue_pop q = Some (popped_state q, Some (cell_val q (q_tail q)))"
proof -
  have "cell_seq q (q_tail q) - (q_tail q + 1) = 0"
    using queue_tail_seq [OF assms(1)] assms(2) by simp
  then show ?thesis
    unfolding queue_pop_def popped_state_def by (subst pop_loop.simps) (simp add: Let_def)
qed

lemma mask_plus_one: "k \<le> 31 \<Longrightarrow> (mask k :: u32) + 1 = of_nat (2 ^ k)"
  by (simp add: mask_eq_exp_minus_1)

lemma popped_state_ok:
  assumes ok: "queue_ok k q" and ne: "0 < queue_len q"
  shows "queue_ok k (popped_state q)" "queue_list q = cell_val q (q_tail q) # queue_list (popped_state q)"
proof -
  let ?q = "popped_state q" and ?n = "queue_len q"
  have n31: "?n \<le> 2147483648" using queue_okD(6,9) [OF ok] by linarith
  have sel: "q_tail ?q = q_tail q + 1" "q_mask ?q = q_mask q" "length (q_cells ?q) = length (q_cells q)"
    "q_head ?q = q_head q"
    by (simp_all add: popped_state_def set_seq_def)
  have "q_head ?q - q_tail ?q = of_nat (?n - 1)"
    using ne by (simp add: sel queue_head_eq [of q] of_nat_diff)
  then have len: "queue_len ?q = ?n - 1" unfolding queue_len_def [of ?q]
    using unat_of_nat_small [of "?n - 1"] n31 by simp
  have nxt: "q_tail q + 1 + of_nat i = q_tail q + of_nat (Suc i)" for i by simp
  have mk: "q_tail q + q_mask q + 1 = q_tail q + of_nat (2 ^ k)"
    using mask_plus_one [of k] queue_okD(2,3) [OF ok] by (simp add: add.assoc)
  have seq: "cell_seq ?q p = (if cell_ix q p = cell_ix q (q_tail q) then q_tail q + of_nat (2 ^ k) else cell_seq q p)"
   and val: "cell_val ?q p = cell_val q p" for p
    unfolding popped_state_def set_seq_def using cell_ix_lt [OF ok, of "q_tail q"]
    by (simp_all add: cell_of_set_cell) (simp_all add: mk [simplified] cell_val_def)
  have ix: "cell_ix q (q_tail q + of_nat (Suc i)) = cell_ix q (q_tail q) \<longleftrightarrow> Suc i = 2 ^ k" if "i < 2 ^ k" for i
  proof (cases "Suc i = 2 ^ k")
    case True
    then show ?thesis using cell_ix_lap [OF ok, of "q_tail q"] by simp
  next
    case False
    then show ?thesis using cell_ix_window [OF ok, of "Suc i" 0 "q_tail q"] that by simp
  qed
  show "queue_ok k ?q"
  proof (rule queue_okI [OF ok sel(2,3)])
    show "queue_len ?q \<le> 2 ^ k" using len queue_okD(6) [OF ok] by simp
    fix i :: nat assume i: "i < 2 ^ k"
    show "cell_seq ?q (q_tail ?q + of_nat i) =
      (if i < queue_len ?q then q_tail ?q + of_nat i + 1 else q_tail ?q + of_nat i)"
    proof (cases "Suc i = 2 ^ k")
      case True
      then have "\<not> i < queue_len ?q" using len ne queue_okD(6) [OF ok] by simp
      moreover have "cell_seq ?q (q_tail q + of_nat (Suc i)) = q_tail q + of_nat (Suc i)"
        using ix [OF i] True seq by simp
      ultimately show ?thesis by (simp only: sel nxt if_False)
    next
      case False
      then have si: "Suc i < 2 ^ k" using i by simp
      have "cell_seq ?q (q_tail q + of_nat (Suc i)) = cell_seq q (q_tail q + of_nat (Suc i))"
        using ix [OF i] False seq by simp
      also have "\<dots> = (if Suc i < ?n then q_tail q + of_nat (Suc i) + 1 else q_tail q + of_nat (Suc i))"
        using queue_okD(7,8) [OF ok, of "Suc i"] si by (simp del: of_nat_Suc)
      finally show ?thesis using len by (simp only: sel nxt) (simp add: less_diff_conv)
    qed
  qed
  have "queue_list q = map (\<lambda>i. cell_val q (q_tail q + of_nat i)) (0 # [Suc 0..<?n])"
    using ne by (simp add: queue_list_def upt_conv_Cons)
  also have "[Suc 0..<?n] = map Suc [0..<?n - 1]" using ne by (simp add: map_Suc_upt)
  finally show "queue_list q = cell_val q (q_tail q) # queue_list ?q"
    by (simp add: queue_list_def len sel nxt val o_def add.assoc)
qed

section \<open>Bulk claims\<close>

lemma bulk_scan_ready:
  assumes ok: "queue_ok k q"
  shows "m \<le> queue_len q \<Longrightarrow> bulk_scan q (q_tail q) maxn m = max m (min maxn (queue_len q))"
proof (induction "maxn - m" arbitrary: m)
  case 0
  then show ?case by (subst bulk_scan.simps) auto
next
  case (Suc d)
  show ?case
  proof (cases "m < queue_len q")
    case True
    then have "cell_seq q (q_tail q + of_nat m) = q_tail q + of_nat m + 1"
      by (rule queue_okD(7) [OF ok])
    then have "bulk_scan q (q_tail q) maxn m = bulk_scan q (q_tail q) maxn (Suc m)"
      using Suc.hyps by (subst bulk_scan.simps) simp
    also have "\<dots> = max (Suc m) (min maxn (queue_len q))" using Suc True by simp
    finally show ?thesis using True Suc.hyps by auto
  next
    case False
    then have m: "m = queue_len q" using Suc.prems by simp
    have "cell_seq q (q_head q) \<noteq> q_head q + 1"
    proof (cases "queue_len q < 2 ^ k")
      case True
      then show ?thesis using queue_head_seq [OF ok] by simp
    next
      case False
      then have l: "queue_len q = 2 ^ k" using queue_okD(6) [OF ok] by simp
      have "(of_nat (2 ^ k) :: u32) \<noteq> 0"
        using unat_of_nat_small [OF queue_okD(9) [OF ok]] by (metis power_not_zero unat_0 zero_neq_numeral)
      then show ?thesis using queue_head_seq [OF ok] l by (simp add: queue_head_eq)
    qed
    then have "bulk_scan q (q_tail q) maxn m = m"
      by (subst bulk_scan.simps) (simp add: m queue_head_eq)
    then show ?thesis using m by simp
  qed
qed

lemma bulk_take_tail:
  "bulk_take (q\<lparr>q_tail := t\<rparr>) p m = (let (q', vs) = bulk_take q p m in (q'\<lparr>q_tail := t\<rparr>, vs))"
  by (induction m arbitrary: q p) (simp_all add: Let_def split_beta)

lemma bulk_recycle_take: "bulk_recycle q p m = fst (bulk_take q p m)"
  by (induction m arbitrary: q p) (simp_all add: Let_def split_beta)

lemma bulk_take_spec:
  "queue_ok k q \<Longrightarrow> m \<le> queue_len q \<Longrightarrow>
    (case bulk_take q (q_tail q) m of (q', vs) \<Rightarrow>
       queue_ok k (q'\<lparr>q_tail := q_tail q + of_nat m\<rparr>)
       \<and> vs = take m (queue_list q)
       \<and> queue_list (q'\<lparr>q_tail := q_tail q + of_nat m\<rparr>) = drop m (queue_list q))"
proof (induction m arbitrary: q)
  case 0
  have "q\<lparr>q_tail := q_tail q\<rparr> = q" by simp
  then show ?case using 0 by simp
next
  case (Suc m)
  let ?p = "popped_state q" and ?s = "set_seq q (q_tail q) (q_tail q + q_mask q + 1)"
  have ne: "0 < queue_len q" using Suc.prems by simp
  note pop = popped_state_ok [OF Suc.prems(1) ne]
  have "length (queue_list q) = Suc (length (queue_list ?p))" using pop(2) by simp
  then have "m \<le> queue_len ?p" using Suc.prems(2) by (simp add: queue_list_def)
  note ih = Suc.IH [OF pop(1) this]
  obtain q' vs where b: "bulk_take ?s (q_tail q + 1) m = (q', vs)" by fastforce
  have "bulk_take ?p (q_tail ?p) m = (q'\<lparr>q_tail := q_tail q + 1\<rparr>, vs)"
    using bulk_take_tail [where q = ?s and t = "q_tail q + 1" and p = "q_tail q + 1" and m = m] b by (simp add: popped_state_def)
  then show ?case using ih b pop(2) by (simp add: popped_state_def add.assoc)
qed

lemma queue_list_length [simp]: "length (queue_list q) = queue_len q"
  by (simp add: queue_list_def)

definition bulk_state :: "queue \<Rightarrow> nat \<Rightarrow> queue" where
  "bulk_state q m = fst (bulk_take (q\<lparr>q_tail := q_tail q + of_nat m\<rparr>) (q_tail q) m)"

lemma bulk_state_ok:
  assumes "queue_ok k q" "m \<le> queue_len q"
  shows "queue_ok k (bulk_state q m)" "queue_list (bulk_state q m) = drop m (queue_list q)"
    "snd (bulk_take (q\<lparr>q_tail := q_tail q + of_nat m\<rparr>) (q_tail q) m) = take m (queue_list q)"
  using bulk_take_spec [OF assms]
  by (auto simp: bulk_state_def bulk_take_tail Let_def split_beta)

lemma bulk_read_take:
  "m \<le> queue_len q \<Longrightarrow> bulk_read (q\<lparr>q_tail := t\<rparr>) (q_tail q) m = take m (queue_list q)"
  by (simp add: bulk_read_def queue_list_def take_map)

lemma tail_dif_neg:
  assumes "queue_ok k q" "queue_len q = 0"
  shows "sint (cell_seq q (q_tail q) - (q_tail q + 1)) < 0"
  using queue_tail_seq [OF assms(1)] assms(2) by simp

text \<open>Both variants return at once with the same values when asked for at least one.\<close>

lemma pop_bulk_both:
  assumes ok: "queue_ok k q" and n: "0 < maxn"
  shows "pop_bulk_fenced q maxn = Some (bulk_state q (min maxn (queue_len q)), take maxn (queue_list q))"
    "pop_bulk_light q maxn = Some (bulk_state q (min maxn (queue_len q)), take maxn (queue_list q))"
proof -
  let ?m = "min maxn (queue_len q)"
  have sc: "bulk_scan q (q_tail q) maxn 0 = ?m" using bulk_scan_ready [OF ok, of 0 maxn] by simp
  have tk: "take ?m (queue_list q) = take maxn (queue_list q)" by (simp add: min_def)
  have bt: "bulk_take (q\<lparr>q_tail := q_tail q + of_nat ?m\<rparr>) (q_tail q) ?m = (bulk_state q ?m, take maxn (queue_list q))"
    using bulk_state_ok(3) [OF ok, of ?m] tk by (simp add: bulk_state_def prod_eq_iff)
  have z: "bulk_state q 0 = q" by (simp add: bulk_state_def)
  show "pop_bulk_fenced q maxn = Some (bulk_state q ?m, take maxn (queue_list q))"
  proof (cases "queue_len q = 0")
    case True
    then show ?thesis using tail_dif_neg [OF ok True] z
      by (subst pop_bulk_fenced.simps) (simp add: Let_def sc queue_list_def)
  next
    case False
    then have "?m \<noteq> 0" using n by simp
    then show ?thesis by (subst pop_bulk_fenced.simps) (simp only: Let_def sc bt if_False)
  qed
  show "pop_bulk_light q maxn = Some (bulk_state q ?m, take maxn (queue_list q))"
  proof (cases "queue_len q = 0")
    case True
    then show ?thesis using tail_dif_neg [OF ok True] z
      by (subst pop_bulk_light.simps) (simp add: Let_def sc queue_list_def)
  next
    case False
    then have "?m \<noteq> 0" using n by simp
    moreover have "bulk_read (q\<lparr>q_tail := q_tail q + of_nat ?m\<rparr>) (q_tail q) ?m = take maxn (queue_list q)"
      using bulk_read_take [of ?m q] tk by simp
    ultimately show ?thesis
      by (subst pop_bulk_light.simps) (simp only: Let_def sc bt if_False bulk_recycle_take fst_conv)
  qed
qed

section \<open>The contract of a bounded FIFO\<close>

text \<open>
  A script of operations, run on any implementation (the three operations are arguments) and on
  a plain list of bounded length.
\<close>

datatype 'a qop = Push_Op 'a | Pop_Op | Bulk_Op nat
datatype 'a qout = Pushed bool | Popped "'a option" | Taken "'a list"

fun run_script :: "('q \<Rightarrow> 'a \<Rightarrow> ('q \<times> bool) option) \<Rightarrow> ('q \<Rightarrow> ('q \<times> 'a option) option) \<Rightarrow>
    ('q \<Rightarrow> nat \<Rightarrow> ('q \<times> 'a list) option) \<Rightarrow> 'q \<Rightarrow> 'a qop list \<Rightarrow> ('q \<times> 'a qout list) option" where
  "run_script enq deq deqs q [] = Some (q, [])"
| "run_script enq deq deqs q (opr # rest) =
     (case (case opr of
              Push_Op v \<Rightarrow> map_option (map_prod id Pushed) (enq q v)
            | Pop_Op \<Rightarrow> map_option (map_prod id Popped) (deq q)
            | Bulk_Op n \<Rightarrow> map_option (map_prod id Taken) (deqs q n)) of
        None \<Rightarrow> None
      | Some (q', out) \<Rightarrow> map_option (map_prod id ((#) out)) (run_script enq deq deqs q' rest))"

fun list_step :: "nat \<Rightarrow> 'a list \<Rightarrow> 'a qop \<Rightarrow> 'a list \<times> 'a qout" where
  "list_step cap xs (Push_Op v) = (if length xs < cap then (xs @ [v], Pushed True) else (xs, Pushed False))"
| "list_step cap xs Pop_Op = (case xs of [] \<Rightarrow> ([], Popped None) | x # ys \<Rightarrow> (ys, Popped (Some x)))"
| "list_step cap xs (Bulk_Op n) = (drop n xs, Taken (take n xs))"

fun list_script :: "nat \<Rightarrow> 'a list \<Rightarrow> 'a qop list \<Rightarrow> 'a list \<times> 'a qout list" where
  "list_script cap xs [] = (xs, [])"
| "list_script cap xs (opr # rest) =
     (let (ys, out) = list_step cap xs opr; (zs, outs) = list_script cap ys rest in (zs, out # outs))"

text \<open>What a script put in and took out, read off its outcomes.\<close>

fun accepted :: "'a qop list \<Rightarrow> 'a qout list \<Rightarrow> 'a list" where
  "accepted (Push_Op v # ops) (Pushed True # outs) = v # accepted ops outs"
| "accepted (opr # ops) (out # outs) = accepted ops outs"
| "accepted _ _ = []"

fun delivered :: "'a qout list \<Rightarrow> 'a list" where
  "delivered [] = []"
| "delivered (Popped (Some v) # outs) = v # delivered outs"
| "delivered (Taken vs # outs) = vs @ delivered outs"
| "delivered (out # outs) = delivered outs"

definition bulk_positive :: "'a qop list \<Rightarrow> bool" where
  "bulk_positive ops \<longleftrightarrow> Bulk_Op 0 \<notin> set ops"

lemma append_eq_append_take_drop:
  "(xs @ A = take n xs @ B) \<longleftrightarrow> drop n xs @ A = B"
  by (metis append.assoc append_take_drop_id same_append_eq)

lemma list_script_fifo:
  "list_script cap xs ops = (ys, outs) \<Longrightarrow> xs @ accepted ops outs = delivered outs @ ys"
proof (induction ops arbitrary: xs outs)
  case Nil
  then show ?case by simp
next
  case (Cons opr ops)
  obtain ws out where st: "list_step cap xs opr = (ws, out)" by fastforce
  obtain zs outs' where sc: "list_script cap ws ops = (zs, outs')" by fastforce
  have e: "outs = out # outs'" "ys = zs" using Cons.prems st sc by auto
  have ih: "ws @ accepted ops outs' = delivered outs' @ ys" using Cons.IH [of ws outs'] sc e by simp
  show ?case using st ih e
    by (cases opr; cases out) (auto split: if_splits list.splits simp: append_eq_append_take_drop)
qed

lemma list_script_bounded:
  "length xs \<le> cap \<Longrightarrow> length (fst (list_script cap xs ops)) \<le> cap"
proof (induction ops arbitrary: xs)
  case (Cons opr ops)
  have "length (fst (list_step cap xs opr)) \<le> cap"
    using Cons.prems by (cases opr) (auto split: list.splits)
  then show ?case using Cons.IH by (simp add: split_beta Let_def)
qed simp

locale bounded_fifo =
  fixes inv :: "'q \<Rightarrow> bool" and contents :: "'q \<Rightarrow> 'a list" and capacity :: "'q \<Rightarrow> nat"
    and enq :: "'q \<Rightarrow> 'a \<Rightarrow> ('q \<times> bool) option"
    and deq :: "'q \<Rightarrow> ('q \<times> 'a option) option"
    and deqs :: "'q \<Rightarrow> nat \<Rightarrow> ('q \<times> 'a list) option"
  assumes bounded: "inv q \<Longrightarrow> length (contents q) \<le> capacity q"
    and enq_law: "inv q \<Longrightarrow> \<exists>q'. enq q v = Some (q', length (contents q) < capacity q) \<and> inv q'
      \<and> capacity q' = capacity q
      \<and> contents q' = (if length (contents q) < capacity q then contents q @ [v] else contents q)"
    and deq_law: "inv q \<Longrightarrow> \<exists>q'. deq q = Some (q', if contents q = [] then None else Some (hd (contents q)))
      \<and> inv q' \<and> capacity q' = capacity q \<and> contents q' = tl (contents q)"
    and deqs_law: "inv q \<Longrightarrow> 0 < n \<Longrightarrow> \<exists>q'. deqs q n = Some (q', take n (contents q)) \<and> inv q'
      \<and> capacity q' = capacity q \<and> contents q' = drop n (contents q)"
begin

text \<open>Every script returns and does what the bounded list does.\<close>

lemma script_refines:
  assumes "inv q" "bulk_positive ops"
  shows "\<exists>q' outs. run_script enq deq deqs q ops = Some (q', outs) \<and> inv q' \<and> capacity q' = capacity q
    \<and> list_script (capacity q) (contents q) ops = (contents q', outs)"
  using assms
proof (induction ops arbitrary: q)
  case Nil
  then show ?case by simp
next
  case (Cons opr ops)
  have pos: "bulk_positive ops" using Cons.prems(2) by (simp add: bulk_positive_def)
  obtain q1 out where one: "(case opr of
              Push_Op v \<Rightarrow> map_option (map_prod id Pushed) (enq q v)
            | Pop_Op \<Rightarrow> map_option (map_prod id Popped) (deq q)
            | Bulk_Op n \<Rightarrow> map_option (map_prod id Taken) (deqs q n)) = Some (q1, out)"
      "inv q1" "capacity q1 = capacity q" "list_step (capacity q) (contents q) opr = (contents q1, out)"
  proof (cases opr)
    case (Push_Op v)
    then show thesis using enq_law [OF Cons.prems(1), of v] that by fastforce
  next
    case Pop_Op
    obtain q1 where "deq q = Some (q1, if contents q = [] then None else Some (hd (contents q)))"
      "inv q1" "capacity q1 = capacity q" "contents q1 = tl (contents q)"
      using deq_law [OF Cons.prems(1)] by blast
    then show thesis using that [of q1] Pop_Op by (cases "contents q") auto
  next
    case (Bulk_Op n)
    then have "0 < n" using Cons.prems(2) by (auto simp: bulk_positive_def)
    then show thesis using deqs_law [OF Cons.prems(1), of n] that Bulk_Op by fastforce
  qed
  obtain q2 outs where two: "run_script enq deq deqs q1 ops = Some (q2, outs)" "inv q2"
      "capacity q2 = capacity q1" "list_script (capacity q1) (contents q1) ops = (contents q2, outs)"
    using Cons.IH [OF one(2) pos] by blast
  show ?case using one two by simp
qed

text \<open>Nothing is lost, invented, duplicated or reordered.\<close>

lemma script_fifo:
  assumes "inv q" "bulk_positive ops"
  shows "\<exists>q' outs. run_script enq deq deqs q ops = Some (q', outs) \<and> inv q'
    \<and> contents q @ accepted ops outs = delivered outs @ contents q'
    \<and> length (contents q') \<le> capacity q"
proof -
  obtain q' outs where r: "run_script enq deq deqs q ops = Some (q', outs)" "inv q'"
      "capacity q' = capacity q" "list_script (capacity q) (contents q) ops = (contents q', outs)"
    using script_refines [OF assms] by blast
  have "contents q @ accepted ops outs = delivered outs @ contents q'"
    by (rule list_script_fifo [OF r(4)])
  then show ?thesis using r bounded [OF r(2)] by auto
qed

end

section \<open>The queue provides the contract\<close>

lemma queue_cap_of_ok: "queue_ok k q \<Longrightarrow> queue_cap q = 2 ^ k"
  by (rule queue_okD(5))

lemma queue_push_law:
  assumes "queue_inv q"
  shows "\<exists>q'. queue_push q v = Some (q', length (queue_list q) < queue_cap q) \<and> queue_inv q'
      \<and> queue_cap q' = queue_cap q
      \<and> queue_list q' = (if length (queue_list q) < queue_cap q then queue_list q @ [v] else queue_list q)"
proof -
  obtain k where ok: "queue_ok k q" using assms by (auto simp: queue_inv_def)
  show ?thesis
  proof (cases "queue_len q < 2 ^ k")
    case True
    then show ?thesis
      using queue_push_room [OF ok True] pushed_state_ok [OF ok True] queue_cap_of_ok ok
      by (auto simp: queue_inv_def)
  next
    case False
    then have "queue_len q = 2 ^ k" using queue_okD(6) [OF ok] by simp
    then show ?thesis using queue_push_full [OF ok] assms queue_cap_of_ok [OF ok] by simp
  qed
qed

lemma queue_pop_law:
  assumes "queue_inv q"
  shows "\<exists>q'. queue_pop q = Some (q', if queue_list q = [] then None else Some (hd (queue_list q)))
      \<and> queue_inv q' \<and> queue_cap q' = queue_cap q \<and> queue_list q' = tl (queue_list q)"
proof -
  obtain k where ok: "queue_ok k q" using assms by (auto simp: queue_inv_def)
  show ?thesis
  proof (cases "queue_len q = 0")
    case True
    then have "queue_list q = []" by (simp add: queue_list_def)
    then show ?thesis using queue_pop_empty [OF ok True] assms by simp
  next
    case False
    then have ne: "0 < queue_len q" by simp
    show ?thesis
      using queue_pop_some [OF ok ne] popped_state_ok [OF ok ne] queue_cap_of_ok ok
      by (auto simp: queue_inv_def)
  qed
qed

lemma queue_bulk_law:
  assumes "queue_inv q" "0 < n"
  shows "\<exists>q'. queue_pop_bulk q n = Some (q', take n (queue_list q)) \<and> queue_inv q'
      \<and> queue_cap q' = queue_cap q \<and> queue_list q' = drop n (queue_list q)"
proof -
  obtain k where ok: "queue_ok k q" using assms by (auto simp: queue_inv_def)
  let ?m = "min n (queue_len q)"
  have "queue_ok k (bulk_state q ?m)" and "queue_list (bulk_state q ?m) = drop ?m (queue_list q)"
    using bulk_state_ok [OF ok] by simp_all
  moreover have "drop ?m (queue_list q) = drop n (queue_list q)" by (simp add: min_def)
  ultimately show ?thesis
    using pop_bulk_both [OF ok assms(2)] queue_cap_of_ok ok
    by (auto simp: queue_pop_bulk_def queue_inv_def)
qed

interpretation vq: bounded_fifo queue_inv queue_list queue_cap queue_push queue_pop queue_pop_bulk
proof unfold_locales
  show "length (queue_list q) \<le> queue_cap q" if "queue_inv q" for q
    using that queue_okD(5,6) by (auto simp: queue_inv_def)
qed (simp_all only: queue_push_law queue_pop_law queue_bulk_law)

lemma queue_init_inv:
  assumes "1 \<le> k" "k \<le> 31"
  shows "queue_inv (queue_init (2 ^ k))" "queue_list (queue_init (2 ^ k)) = []"
    "queue_cap (queue_init (2 ^ k)) = 2 ^ k"
proof -
  let ?q = "queue_init (2 ^ k)"
  have p31: "2 ^ k \<le> (2147483648 :: nat)"
    using power_increasing [of k 31 "2 :: nat"] assms by simp
  have u: "unat (2 ^ k :: u32) = 2 ^ k"
    using unat_of_nat_small [OF p31] by simp
  have len: "queue_len ?q = 0" by (simp add: queue_len_def queue_init_def)
  have mk: "q_mask ?q = mask k" by (simp add: queue_init_def mask_eq_exp_minus_1)
  have ix: "cell_ix ?q (of_nat i) = i" if "i < 2 ^ k" for i
  proof -
    have "unat (of_nat i :: u32) = i" using that p31 by (intro unat_of_nat_small) linarith
    then show ?thesis using that assms unfolding cell_ix_def mk
      by (simp only: take_bit_eq_mask [symmetric] unsigned_take_bit_eq) (simp add: take_bit_eq_mod)
  qed
  have "cell_seq ?q (of_nat i) = of_nat i" if "i < 2 ^ k" for i
    using ix [OF that] that by (simp add: cell_seq_def) (simp add: queue_init_def u)
  then have "queue_ok k ?q"
    unfolding queue_ok_def len mk using assms by (simp add: queue_init_def u)
  then show "queue_inv ?q" "queue_cap ?q = 2 ^ k"
    by (auto simp: queue_inv_def dest: queue_okD(5))
  show "queue_list ?q = []" by (simp add: queue_list_def len)
qed

section \<open>Properties\<close>


text \<open>A queue of two cells whose cursors are about to wrap around.\<close>

definition wrap_queue :: queue where
  "wrap_queue = \<lparr>q_cells = [(0xFFFFFFFF, 7), (0xFFFFFFFF, 3)], q_mask = 1, q_fence_light = False,
     q_head = 0xFFFFFFFF, q_tail = 0xFFFFFFFE\<rparr>"

lemma wrap_queue_inv: "queue_inv wrap_queue"
proof -
  have "queue_ok 1 wrap_queue"
    by (simp add: queue_ok_def wrap_queue_def queue_len_def cell_seq_def cell_ix_def mask_eq_exp_minus_1
        less_Suc_eq numeral_2_eq_2 All_less_Suc)
  then show ?thesis by (auto simp: queue_inv_def)
qed

text \<open>From a freshly initialised queue of any power-of-two capacity, the values delivered
  followed by the values still queued are the accepted values in their order, and never more than
  the capacity are queued: no loss, no duplication, no reordering.\<close>

theorem queue_fifo_from_init:
  assumes "1 \<le> k" "k \<le> 31" "bulk_positive ops"
  shows "\<exists>q' outs. run_script queue_push queue_pop queue_pop_bulk (queue_init (2 ^ k)) ops = Some (q', outs)
    \<and> accepted ops outs = delivered outs @ queue_list q' \<and> length (queue_list q') \<le> 2 ^ k"
  using vq.script_fifo [OF queue_init_inv(1) [OF assms(1,2)] assms(3)] queue_init_inv(2,3) [OF assms(1,2)]
  by auto

text \<open>The fence-light bulk pop computes the same state and the same values as the plain one.\<close>

theorem pop_bulk_light_equals_fenced:
  assumes "queue_inv q" "0 < maxn"
  shows "pop_bulk_light q maxn = pop_bulk_fenced q maxn"
  using assms pop_bulk_both by (auto simp: queue_inv_def)

section \<open>Witnesses\<close>


lemma queue_fifo_from_init_witness:
  "\<exists>q' outs. run_script queue_push queue_pop queue_pop_bulk (queue_init (2 ^ 16)) [Push_Op 5, Push_Op 6, Pop_Op] = Some (q', outs)
    \<and> accepted [Push_Op 5, Push_Op 6, Pop_Op] outs = delivered outs @ queue_list q'"
proof -
  have "bulk_positive [Push_Op 5, Push_Op 6, Pop_Op]" by (simp add: bulk_positive_def)
  from queue_fifo_from_init [of 16, OF _ _ this] show ?thesis by auto
qed

lemma pop_bulk_light_equals_fenced_witness:
  "pop_bulk_light wrap_queue 3 = pop_bulk_fenced wrap_queue 3"
  by (rule pop_bulk_light_equals_fenced [OF wrap_queue_inv]) simp

end
