(* ===== verification/FL_Queue_Steps.thy ===== *)
theory FL_Queue_Steps
  imports FL_Queue
begin

text \<open>
  The ready queue of \<open>src/runtime/queue.h\<close> under many threads: a step relation whose steps are
  the single shared-memory accesses of \<open>push\<close>, \<open>pop\<close> and \<open>pop_bulk\<close> (both fence variants),
  interleaved arbitrarily. Memory is sequentially consistent. Cursors and sequence numbers are
  natural numbers here; \<open>wrap_dif_exact\<close> shows that the signed 32-bit difference the code tests
  is the true difference as long as the two numbers are less than \<open>2 ^ 31\<close> apart, which is the
  case unless a thread sleeps through \<open>2 ^ 31\<close> operations between a load and its test.

  Two components of the state record history: \<open>pushed\<close> lists the values in the order in which
  producers claimed positions, \<open>taken\<close> the positions and values consumers read.
\<close>

lemma wrap_dif_exact:
  assumes "a < b + 2147483648" "b < a + 2147483648"
  shows "sint (of_nat a - of_nat b :: u32) = int a - int b"
proof -
  have "(of_nat a - of_nat b :: u32) = word_of_int (int a - int b)" by simp
  then have "sint (of_nat a - of_nat b :: u32) = signed_take_bit 31 (int a - int b)"
    by (simp only: signed_of_int) simp
  also have "\<dots> = int a - int b"
    by (rule signed_take_bit_int_eq_self) (use assms in simp_all)
  finally show ?thesis .
qed

section \<open>States and steps\<close>

text \<open>
  Where a thread stands. \<open>PushSaw v pos q\<close> and \<open>PopSaw pos q\<close> have loaded the cell's sequence
  number \<open>q\<close>; \<open>BulkScan l pos maxn m\<close> has found \<open>m\<close> cells ready; \<open>Hold l pos m r s vs\<close> owns the
  cells \<open>[pos, pos + m)\<close>, has read \<open>r\<close> of them into \<open>vs\<close> and recycled \<open>s\<close>. The flag \<open>l\<close> is
  \<open>fence_light\<close>.
\<close>

datatype qpc =
    Idle
  | PushAt u32 nat
  | PushSaw u32 nat nat
  | PushWon u32 nat
  | PushWrote u32 nat
  | PopAt nat
  | PopSaw nat nat
  | BulkScan bool nat nat nat
  | BulkChk bool nat nat
  | BulkCas bool nat nat nat
  | Hold bool nat nat nat nat "u32 list"

record 't qstate =
  sq :: "nat \<Rightarrow> nat"
  vl :: "nat \<Rightarrow> u32"
  qhead :: nat
  qtail :: nat
  pc :: "'t \<Rightarrow> qpc"
  pushed :: "u32 list"
  taken :: "(nat \<times> u32) list"

definition qstart :: "nat \<Rightarrow> 't qstate" where
  "qstart N = \<lparr>sq = (\<lambda>i. i), vl = (\<lambda>_. kQueueEmpty), qhead = 0, qtail = 0, pc = (\<lambda>_. Idle),
     pushed = [], taken = []\<rparr>"

definition goto :: "'t \<Rightarrow> qpc \<Rightarrow> 't qstate \<Rightarrow> 't qstate" where
  "goto t c s = s\<lparr>pc := (pc s)(t := c)\<rparr>"

text \<open>The steps that change shared memory.\<close>

definition claim_push :: "'t \<Rightarrow> u32 \<Rightarrow> nat \<Rightarrow> 't qstate \<Rightarrow> 't qstate" where
  "claim_push t v pos s = goto t (PushWon v pos) (s\<lparr>qhead := pos + 1, pushed := pushed s @ [v]\<rparr>)"

definition write_val :: "nat \<Rightarrow> 't \<Rightarrow> u32 \<Rightarrow> nat \<Rightarrow> 't qstate \<Rightarrow> 't qstate" where
  "write_val N t v pos s = goto t (PushWrote v pos) (s\<lparr>vl := (vl s)(pos mod N := v)\<rparr>)"

definition publish :: "nat \<Rightarrow> 't \<Rightarrow> nat \<Rightarrow> 't qstate \<Rightarrow> 't qstate" where
  "publish N t pos s = goto t Idle (s\<lparr>sq := (sq s)(pos mod N := pos + 1)\<rparr>)"

definition claim_pop :: "'t \<Rightarrow> bool \<Rightarrow> nat \<Rightarrow> nat \<Rightarrow> 't qstate \<Rightarrow> 't qstate" where
  "claim_pop t l pos m s = goto t (Hold l pos m 0 0 []) (s\<lparr>qtail := pos + m\<rparr>)"

definition read_val :: "nat \<Rightarrow> 't \<Rightarrow> bool \<Rightarrow> nat \<Rightarrow> nat \<Rightarrow> nat \<Rightarrow> nat \<Rightarrow> u32 list \<Rightarrow> 't qstate \<Rightarrow> 't qstate" where
  "read_val N t l pos m r c vs s =
     (let v = vl s ((pos + r) mod N) in
      goto t (Hold l pos m (Suc r) c (vs @ [v])) (s\<lparr>taken := taken s @ [(pos + r, v)]\<rparr>))"

definition recycle :: "nat \<Rightarrow> 't \<Rightarrow> bool \<Rightarrow> nat \<Rightarrow> nat \<Rightarrow> nat \<Rightarrow> nat \<Rightarrow> u32 list \<Rightarrow> 't qstate \<Rightarrow> 't qstate" where
  "recycle N t l pos m r c vs s =
     goto t (if Suc c = m then Idle else Hold l pos m r (Suc c) vs)
       (s\<lparr>sq := (sq s)((pos + c) mod N := pos + c + N)\<rparr>)"

inductive qstep :: "nat \<Rightarrow> 't qstate \<Rightarrow> 't qstate \<Rightarrow> bool" for N :: nat where
  push_call: "pc s t = Idle \<Longrightarrow> qstep N s (goto t (PushAt v (qhead s)) s)"
| push_load: "pc s t = PushAt v pos \<Longrightarrow> qstep N s (goto t (PushSaw v pos (sq s (pos mod N))) s)"
| push_win: "pc s t = PushSaw v pos pos \<Longrightarrow> qhead s = pos \<Longrightarrow> qstep N s (claim_push t v pos s)"
| push_lose: "pc s t = PushSaw v pos pos \<Longrightarrow> qhead s \<noteq> pos \<Longrightarrow> qstep N s (goto t (PushAt v (qhead s)) s)"
| push_full: "pc s t = PushSaw v pos q \<Longrightarrow> q < pos \<Longrightarrow> qstep N s (goto t Idle s)"
| push_reload: "pc s t = PushSaw v pos q \<Longrightarrow> pos < q \<Longrightarrow> qstep N s (goto t (PushAt v (qhead s)) s)"
| push_write: "pc s t = PushWon v pos \<Longrightarrow> qstep N s (write_val N t v pos s)"
| push_publish: "pc s t = PushWrote v pos \<Longrightarrow> qstep N s (publish N t pos s)"
| pop_call: "pc s t = Idle \<Longrightarrow> qstep N s (goto t (PopAt (qtail s)) s)"
| pop_load: "pc s t = PopAt pos \<Longrightarrow> qstep N s (goto t (PopSaw pos (sq s (pos mod N))) s)"
| pop_win: "pc s t = PopSaw pos (pos + 1) \<Longrightarrow> qtail s = pos \<Longrightarrow> qstep N s (claim_pop t False pos 1 s)"
| pop_lose: "pc s t = PopSaw pos (pos + 1) \<Longrightarrow> qtail s \<noteq> pos \<Longrightarrow> qstep N s (goto t (PopAt (qtail s)) s)"
| pop_empty: "pc s t = PopSaw pos q \<Longrightarrow> q < pos + 1 \<Longrightarrow> qstep N s (goto t Idle s)"
| pop_reload: "pc s t = PopSaw pos q \<Longrightarrow> pos + 1 < q \<Longrightarrow> qstep N s (goto t (PopAt (qtail s)) s)"
| bulk_call: "pc s t = Idle \<Longrightarrow> qstep N s (goto t (BulkScan l (qtail s) maxn 0) s)"
| bulk_hit: "pc s t = BulkScan l pos maxn m \<Longrightarrow> m < maxn \<Longrightarrow> sq s ((pos + m) mod N) = pos + m + 1 \<Longrightarrow>
    qstep N s (goto t (BulkScan l pos maxn (Suc m)) s)"
| bulk_stop: "pc s t = BulkScan l pos maxn m \<Longrightarrow> m = maxn \<or> sq s ((pos + m) mod N) \<noteq> pos + m + 1 \<Longrightarrow>
    qstep N s (goto t (if m = 0 then BulkChk l pos maxn else BulkCas l pos maxn m) s)"
| bulk_empty: "pc s t = BulkChk l pos maxn \<Longrightarrow> sq s (pos mod N) < pos + 1 \<Longrightarrow> qstep N s (goto t Idle s)"
| bulk_retry: "pc s t = BulkChk l pos maxn \<Longrightarrow> \<not> sq s (pos mod N) < pos + 1 \<Longrightarrow>
    qstep N s (goto t (BulkScan l (qtail s) maxn 0) s)"
| bulk_win: "pc s t = BulkCas l pos maxn m \<Longrightarrow> qtail s = pos \<Longrightarrow> qstep N s (claim_pop t l pos m s)"
| bulk_lose: "pc s t = BulkCas l pos maxn m \<Longrightarrow> qtail s \<noteq> pos \<Longrightarrow>
    qstep N s (goto t (BulkScan l (qtail s) maxn 0) s)"
| hold_read: "pc s t = Hold l pos m r c vs \<Longrightarrow> r < m \<Longrightarrow> l \<or> r = c \<Longrightarrow> qstep N s (read_val N t l pos m r c vs s)"
| hold_recycle: "pc s t = Hold l pos m r c vs \<Longrightarrow> c < r \<Longrightarrow> l \<longrightarrow> r = m \<Longrightarrow>
    qstep N s (recycle N t l pos m r c vs s)"

abbreviation qreach :: "nat \<Rightarrow> 't qstate \<Rightarrow> bool" where
  "qreach N \<equiv> (qstep N)\<^sup>*\<^sup>* (qstart N)"

section \<open>The invariant\<close>

text \<open>A producer holds the position it claimed and has not published, a consumer the positions
  it claimed and has not recycled; it still has to read those behind its read count.\<close>

definition p_holds :: "qpc \<Rightarrow> nat \<Rightarrow> bool" where
  "p_holds c p \<longleftrightarrow> (\<exists>v. c = PushWon v p \<or> c = PushWrote v p)"

definition c_holds :: "qpc \<Rightarrow> nat \<Rightarrow> bool" where
  "c_holds c p \<longleftrightarrow> (\<exists>l pos m r k vs. c = Hold l pos m r k vs \<and> pos + k \<le> p \<and> p < pos + m)"

definition unread :: "qpc \<Rightarrow> nat \<Rightarrow> bool" where
  "unread c p \<longleftrightarrow> (\<exists>l pos m r k vs. c = Hold l pos m r k vs \<and> pos + r \<le> p \<and> p < pos + m)"

lemma holds_simps [simp]:
  "p_holds Idle p = False" "p_holds (PushAt v pos) p = False" "p_holds (PushSaw v pos q) p = False"
  "p_holds (PushWon v pos) p = (p = pos)" "p_holds (PushWrote v pos) p = (p = pos)"
  "p_holds (PopAt pos) p = False" "p_holds (PopSaw pos q) p = False" "p_holds (BulkScan l pos mx m) p = False"
  "p_holds (BulkChk l pos mx) p = False" "p_holds (BulkCas l pos mx m) p = False"
  "p_holds (Hold l pos m r k vs) p = False"
  "c_holds Idle p = False" "c_holds (PushAt v pos) p = False" "c_holds (PushSaw v pos q) p = False"
  "c_holds (PushWon v pos) p = False" "c_holds (PushWrote v pos) p = False"
  "c_holds (PopAt pos) p = False" "c_holds (PopSaw pos q) p = False" "c_holds (BulkScan l pos mx m) p = False"
  "c_holds (BulkChk l pos mx) p = False" "c_holds (BulkCas l pos mx m) p = False"
  "c_holds (Hold l pos m r k vs) p = (pos + k \<le> p \<and> p < pos + m)"
  "unread Idle p = False" "unread (PushAt v pos) p = False" "unread (PushSaw v pos q) p = False"
  "unread (PushWon v pos) p = False" "unread (PushWrote v pos) p = False"
  "unread (PopAt pos) p = False" "unread (PopSaw pos q) p = False" "unread (BulkScan l pos mx m) p = False"
  "unread (BulkChk l pos mx) p = False" "unread (BulkCas l pos mx m) p = False"
  "unread (Hold l pos m r k vs) p = (pos + r \<le> p \<and> p < pos + m)"
  by (auto simp: p_holds_def c_holds_def unread_def)

text \<open>What a thread may rely on about what it has seen: sequence numbers only grow.\<close>

fun seen_ok :: "nat \<Rightarrow> 't qstate \<Rightarrow> qpc \<Rightarrow> bool" where
  "seen_ok N s (PushSaw v pos q) = (q \<le> sq s (pos mod N))"
| "seen_ok N s (PopSaw pos q) = (q \<le> sq s (pos mod N))"
| "seen_ok N s (BulkScan l pos mx m) = (\<forall>i < m. pos + i + 1 \<le> sq s ((pos + i) mod N))"
| "seen_ok N s (BulkCas l pos mx m) = (0 < m \<and> (\<forall>i < m. pos + i + 1 \<le> sq s ((pos + i) mod N)))"
| "seen_ok N s (PushWon v pos) = (pushed s ! pos = v)"
| "seen_ok N s (PushWrote v pos) = (pushed s ! pos = v \<and> vl s (pos mod N) = v)"
| "seen_ok N s (Hold l pos m r k vs) =
    (k \<le> r \<and> r \<le> m \<and> k < m \<and> pos + m \<le> qtail s \<and> vs = map (\<lambda>p. pushed s ! p) [pos..<pos + r])"
| "seen_ok N s c = True"

definition full_cell :: "nat \<Rightarrow> 't qstate \<Rightarrow> nat \<Rightarrow> bool" where
  "full_cell N s p \<longleftrightarrow> sq s (p mod N) = p + 1 \<and> vl s (p mod N) = pushed s ! p \<and> (\<forall>t. \<not> p_holds (pc s t) p)"

definition busy_cell :: "nat \<Rightarrow> 't qstate \<Rightarrow> nat \<Rightarrow> bool" where
  "busy_cell N s p \<longleftrightarrow> sq s (p mod N) = p \<and> (\<exists>t. p_holds (pc s t) p)"

definition free_cell :: "nat \<Rightarrow> 't qstate \<Rightarrow> nat \<Rightarrow> bool" where
  "free_cell N s p \<longleftrightarrow> sq s (p mod N) = p \<and> (\<forall>t. N \<le> p \<longrightarrow> \<not> c_holds (pc s t) (p - N))"

definition held_cell :: "nat \<Rightarrow> 't qstate \<Rightarrow> nat \<Rightarrow> bool" where
  "held_cell N s p \<longleftrightarrow> N \<le> p \<and> sq s (p mod N) = p - N + 1 \<and> vl s (p mod N) = pushed s ! (p - N)
     \<and> (\<exists>t. c_holds (pc s t) (p - N))"

definition qinv :: "nat \<Rightarrow> 't qstate \<Rightarrow> bool" where
  "qinv N s \<longleftrightarrow> qtail s \<le> qhead s \<and> qhead s \<le> qtail s + N \<and> length (pushed s) = qhead s
    \<and> (\<forall>p. qtail s \<le> p \<longrightarrow> p < qhead s \<longrightarrow> full_cell N s p \<or> busy_cell N s p)
    \<and> (\<forall>p. qhead s \<le> p \<longrightarrow> p < qtail s + N \<longrightarrow> free_cell N s p \<or> held_cell N s p)
    \<and> (\<forall>t p. p_holds (pc s t) p \<longrightarrow> qtail s \<le> p \<and> p < qhead s \<and> sq s (p mod N) = p)
    \<and> (\<forall>t t' p. p_holds (pc s t) p \<longrightarrow> p_holds (pc s t') p \<longrightarrow> t = t')
    \<and> (\<forall>t p. c_holds (pc s t) p \<longrightarrow> p < qtail s \<and> qhead s \<le> p + N)
    \<and> (\<forall>t t' p. c_holds (pc s t) p \<longrightarrow> c_holds (pc s t') p \<longrightarrow> t = t')
    \<and> (\<forall>t. seen_ok N s (pc s t))
    \<and> distinct (map fst (taken s))
    \<and> (\<forall>(p, v) \<in> set (taken s). p < qtail s \<and> v = pushed s ! p)
    \<and> (\<forall>p. p < qtail s \<longrightarrow> p \<in> fst ` set (taken s) \<longleftrightarrow> (\<forall>t. \<not> unread (pc s t) p))"

lemma goto_sel [simp]:
  "pc (goto t c s) u = (if u = t then c else pc s u)"
  "sq (goto t c s) = sq s" "vl (goto t c s) = vl s" "qhead (goto t c s) = qhead s"
  "qtail (goto t c s) = qtail s" "pushed (goto t c s) = pushed s" "taken (goto t c s) = taken s"
  by (auto simp: goto_def)

lemma qinvD:
  assumes "qinv N s"
  shows "qtail s \<le> qhead s" "qhead s \<le> qtail s + N" "length (pushed s) = qhead s"
    "\<And>p. qtail s \<le> p \<Longrightarrow> p < qhead s \<Longrightarrow> full_cell N s p \<or> busy_cell N s p"
    "\<And>p. qhead s \<le> p \<Longrightarrow> p < qtail s + N \<Longrightarrow> free_cell N s p \<or> held_cell N s p"
    "\<And>t p. p_holds (pc s t) p \<Longrightarrow> qtail s \<le> p \<and> p < qhead s \<and> sq s (p mod N) = p"
    "\<And>t t' p. p_holds (pc s t) p \<Longrightarrow> p_holds (pc s t') p \<Longrightarrow> t = t'"
    "\<And>t p. c_holds (pc s t) p \<Longrightarrow> p < qtail s \<and> qhead s \<le> p + N"
    "\<And>t t' p. c_holds (pc s t) p \<Longrightarrow> c_holds (pc s t') p \<Longrightarrow> t = t'"
    "\<And>t. seen_ok N s (pc s t)"
    "distinct (map fst (taken s))"
    "\<And>p v. (p, v) \<in> set (taken s) \<Longrightarrow> p < qtail s \<and> v = pushed s ! p"
    "\<And>p. p < qtail s \<Longrightarrow> p \<in> fst ` set (taken s) \<longleftrightarrow> (\<forall>t. \<not> unread (pc s t) p)"
proof -
  note q = assms [unfolded qinv_def]
  show "\<And>p v. (p, v) \<in> set (taken s) \<Longrightarrow> p < qtail s \<and> v = pushed s ! p" using q by fast
qed (use assms [unfolded qinv_def] in blast)+

lemma qinvI:
  assumes "qtail s \<le> qhead s" "qhead s \<le> qtail s + N" "length (pushed s) = qhead s"
    "\<And>p. qtail s \<le> p \<Longrightarrow> p < qhead s \<Longrightarrow> full_cell N s p \<or> busy_cell N s p"
    "\<And>p. qhead s \<le> p \<Longrightarrow> p < qtail s + N \<Longrightarrow> free_cell N s p \<or> held_cell N s p"
    "\<And>t p. p_holds (pc s t) p \<Longrightarrow> qtail s \<le> p \<and> p < qhead s \<and> sq s (p mod N) = p"
    "\<And>t t' p. p_holds (pc s t) p \<Longrightarrow> p_holds (pc s t') p \<Longrightarrow> t = t'"
    "\<And>t p. c_holds (pc s t) p \<Longrightarrow> p < qtail s \<and> qhead s \<le> p + N"
    "\<And>t t' p. c_holds (pc s t) p \<Longrightarrow> c_holds (pc s t') p \<Longrightarrow> t = t'"
    "\<And>t. seen_ok N s (pc s t)"
    "distinct (map fst (taken s))"
    "\<And>p v. (p, v) \<in> set (taken s) \<Longrightarrow> p < qtail s \<and> v = pushed s ! p"
    "\<And>p. p < qtail s \<Longrightarrow> p \<in> fst ` set (taken s) \<longleftrightarrow> (\<forall>t. \<not> unread (pc s t) p)"
  shows "qinv N s"
proof -
  have "\<forall>(p, v) \<in> set (taken s). p < qtail s \<and> v = pushed s ! p" using assms(12) by fast
  then show ?thesis
    unfolding qinv_def
    using assms(1-3) assms(4) assms(5) assms(6) assms(7) assms(8) assms(9) assms(10) assms(11) assms(13)
    by (intro conjI allI impI) blast+
qed

lemma window_cell:
  assumes "a \<le> p" "p < a + N" "a \<le> p'" "p' < a + (N :: nat)"
  shows "p mod N = p' mod N \<longleftrightarrow> p = p'"
proof
  assume "p mod N = p' mod N"
  then have "p - a = p' - a" using mod_window_inj [of a "p - a" N "p' - a"] assms by simp
  then show "p = p'" using assms by linarith
qed simp

lemma lap_cell [simp]: "(p + N) mod N = p mod (N :: nat)"
  by simp

text \<open>Losing a lap never confuses the sequence numbers: they only grow.\<close>

lemma seen_ok_mono:
  assumes "seen_ok N s c" "\<And>i. sq s i \<le> sq s' i" "qtail s \<le> qtail s'"
    and "\<And>l pos m r k vs p. c = Hold l pos m r k vs \<Longrightarrow> p < pos + r \<Longrightarrow> pushed s' ! p = pushed s ! p"
    and "\<And>p. p_holds c p \<Longrightarrow> pushed s' ! p = pushed s ! p \<and> (vl s' (p mod N) = vl s (p mod N))"
  shows "seen_ok N s' c"
proof (cases c)
  case (Hold l pos m r k vs)
  then show ?thesis using assms(1,3) assms(4) [OF Hold] by (auto intro!: map_cong)
qed (use assms(1) assms(5) assms(2) in \<open>auto intro: order_trans\<close>)

section \<open>Every step keeps the invariant\<close>

lemma qinv_goto:
  assumes inv: "qinv N s"
    and old: "\<And>p. \<not> p_holds (pc s t) p" "\<And>p. \<not> c_holds (pc s t) p" "\<And>p. \<not> unread (pc s t) p"
    and new: "\<And>p. \<not> p_holds c p" "\<And>p. \<not> c_holds c p" "\<And>p. \<not> unread c p" "seen_ok N s c"
  shows "qinv N (goto t c s)"
proof -
  let ?s = "goto t c s"
  note I = qinvD [OF inv]
  have P: "p_holds (pc ?s u) p = p_holds (pc s u) p" for u p using old(1) new(1) by simp
  have C: "c_holds (pc ?s u) p = c_holds (pc s u) p" for u p using old(2) new(2) by simp
  have U: "unread (pc ?s u) p = unread (pc s u) p" for u p using old(3) new(3) by simp
  have F: "full_cell N ?s p = full_cell N s p" "busy_cell N ?s p = busy_cell N s p"
    "free_cell N ?s p = free_cell N s p" "held_cell N ?s p = held_cell N s p" for p
    unfolding full_cell_def busy_cell_def free_cell_def held_cell_def P C by simp_all
  have S: "seen_ok N ?s (pc ?s u)" for u
    by (rule seen_ok_mono [of N s]) (use new(4) I(10) in auto)
  show ?thesis
    by (rule qinvI; (unfold P C U F)?) (use I(1-9) I(11-13) S in \<open>simp_all only: goto_sel\<close>)
qed

text \<open>A claim succeeds only on the cell at the cursor, and what the thread saw is then still so.\<close>

lemma seen_free:
  assumes inv: "qinv N s" and N: "2 \<le> N" and saw: "qhead s \<le> sq s (qhead s mod N)"
  shows "qhead s < qtail s + N" "free_cell N s (qhead s)"
proof -
  note I = qinvD [OF inv]
  show room: "qhead s < qtail s + N"
  proof (rule ccontr)
    assume "\<not> qhead s < qtail s + N"
    then have h: "qhead s = qtail s + N" using I(2) by simp
    have "full_cell N s (qtail s) \<or> busy_cell N s (qtail s)" using I(4) [of "qtail s"] h N by simp
    then have "sq s (qtail s mod N) \<le> qtail s + 1" by (auto simp: full_cell_def busy_cell_def)
    then show False using saw h N by simp
  qed
  have "\<not> held_cell N s (qhead s)" using saw N by (auto simp: held_cell_def)
  then show "free_cell N s (qhead s)" using I(5) [OF le_refl room] by blast
qed

lemma seen_full:
  assumes inv: "qinv N s" and N: "2 \<le> N"
    and saw: "\<forall>i < m. qtail s + i + 1 \<le> sq s ((qtail s + i) mod N)"
  shows "qtail s + m \<le> qhead s" "\<And>i. i < m \<Longrightarrow> full_cell N s (qtail s + i)"
proof -
  note I = qinvD [OF inv]
  have low: "sq s (p mod N) \<le> p" if "qhead s \<le> p" "p < qtail s + N" for p
    using I(5) [OF that] N by (auto simp: free_cell_def held_cell_def)
  show le: "qtail s + m \<le> qhead s"
  proof (rule ccontr)
    assume "\<not> qtail s + m \<le> qhead s"
    then have m: "qhead s - qtail s < m" using I(1) by simp
    show False
    proof (cases "qhead s < qtail s + N")
      case True
      have "qhead s + 1 \<le> sq s (qhead s mod N)" using saw m I(1) by (metis add_diff_inverse_nat leD)
      then show False using low [OF le_refl True] by simp
    next
      case False
      then have "qhead s = qtail s + N" using I(2) by simp
      then have "qtail s + N + 1 \<le> sq s (qtail s mod N)" using saw m by force
      moreover have "sq s (qtail s mod N) \<le> qtail s + 1"
        using I(4) [of "qtail s"] \<open>qhead s = qtail s + N\<close> N by (auto simp: full_cell_def busy_cell_def)
      ultimately show False using N by simp
    qed
  qed
  fix i assume i: "i < m"
  have "full_cell N s (qtail s + i) \<or> busy_cell N s (qtail s + i)" using I(4) le i by simp
  moreover have "\<not> busy_cell N s (qtail s + i)" using saw i by (auto simp: busy_cell_def)
  ultimately show "full_cell N s (qtail s + i)" by blast
qed

lemma qinv_claim_push:
  assumes inv: "qinv N s" and N: "2 \<le> N" and at: "pc s t = PushSaw v pos pos" "qhead s = pos"
  shows "qinv N (claim_push t v pos s)"
proof -
  let ?s = "claim_push t v pos s"
  note I = qinvD [OF inv]
  have "qhead s \<le> sq s (qhead s mod N)" using I(10) [of t] at by simp
  note fr = seen_free [OF inv N this]
  have sel: "qhead ?s = pos + 1" "qtail ?s = qtail s" "sq ?s = sq s" "vl ?s = vl s" "taken ?s = taken s"
    "pushed ?s = pushed s @ [v]" "pc ?s = (pc s)(t := PushWon v pos)"
    by (simp_all add: claim_push_def goto_def)
  have old: "pushed ?s ! p = pushed s ! p" if "p < pos" for p
    using that I(3) at by (simp add: sel nth_append)
  have P: "p_holds (pc ?s u) p \<longleftrightarrow> (if u = t then p = pos else p_holds (pc s u) p)" for u p by (simp add: sel)
  have P0: "\<not> p_holds (pc s t) p" for p using at by simp
  have C: "c_holds (pc ?s u) p = c_holds (pc s u) p" and U: "unread (pc ?s u) p = unread (pc s u) p" for u p
    by (simp_all add: sel at)
  have hp: "p_holds (pc s u) p \<Longrightarrow> p < pos" for u p using I(6) at by blast
  show ?thesis
  proof (rule qinvI; (unfold sel(2,5) C U)?)
    show "qtail s \<le> qhead ?s" "qhead ?s \<le> qtail s + N" "length (pushed ?s) = qhead ?s"
      using I(1,2,3) fr(1) at by (simp_all add: sel)
    show "full_cell N ?s p \<or> busy_cell N ?s p" if "qtail s \<le> p" "p < qhead ?s" for p
    proof (cases "p = pos")
      case True
      then show ?thesis using fr(2) at P by (auto simp: busy_cell_def free_cell_def sel)
    next
      case False
      then have lt: "p < pos" using that by (simp add: sel)
      have "full_cell N s p \<or> busy_cell N s p" using I(4) that lt at by blast
      moreover have "p_holds (pc ?s u) p = p_holds (pc s u) p" for u using P [of u p] False P0 by simp
      ultimately show ?thesis using old [OF lt] by (simp add: full_cell_def busy_cell_def sel(3,4))
    qed
    show "free_cell N ?s p \<or> held_cell N ?s p" if "qhead ?s \<le> p" "p < qtail s + N" for p
    proof -
      have "free_cell N s p \<or> held_cell N s p" using I(5) that at by (simp add: sel)
      moreover have "p - N < pos" if "N \<le> p" using that \<open>p < qtail s + N\<close> I(1) at by linarith
      ultimately show ?thesis using old C by (auto simp: free_cell_def held_cell_def sel(3,4))
    qed
    show "qtail s \<le> p \<and> p < qhead ?s \<and> sq ?s (p mod N) = p" if "p_holds (pc ?s u) p" for u p
      using that I(6) [of u p] I(1) at fr(2) unfolding P by (auto simp: sel free_cell_def split: if_splits)
    show "u = u'" if "p_holds (pc ?s u) p" "p_holds (pc ?s u') p" for u u' p
      using that I(7) [of u p u'] hp [of u p] hp [of u' p] unfolding P by (auto split: if_splits)
    show "p < qtail s \<and> qhead ?s \<le> p + N" if "c_holds (pc s u) p" for u p
    proof -
      have "p < qtail s" "qhead s \<le> p + N" using I(8) [OF that] by auto
      moreover have "qhead s \<noteq> p + N" using fr(2) that unfolding free_cell_def
        by (metis add_diff_cancel_right' le_add2)
      ultimately show ?thesis using at by (simp add: sel)
    qed
    show "seen_ok N ?s (pc ?s u)" for u
    proof (cases "u = t")
      case True
      then show ?thesis using I(3) at by (simp add: sel nth_append)
    next
      case False
      have "seen_ok N ?s (pc s u)"
      proof (rule seen_ok_mono [of N s])
        show "pushed ?s ! p = pushed s ! p" if "pc s u = Hold l q m r k vs" "p < q + r" for l q m r k vs p
          using I(10) [of u] that I(1) at old by simp
        show "pushed ?s ! p = pushed s ! p \<and> vl ?s (p mod N) = vl s (p mod N)" if "p_holds (pc s u) p" for p
          using hp [OF that] old by (simp add: sel)
      qed (use I(10) in \<open>simp_all add: sel\<close>)
      then show ?thesis using False by (simp add: sel)
    qed
    show "p < qtail s \<and> v' = pushed ?s ! p" if "(p, v') \<in> set (taken s)" for p v'
      using I(12) [OF that] old I(1) at by simp
  qed (use I(9,11,13) in blast)+
qed

lemma qinv_write:
  assumes inv: "qinv N s" and at: "pc s t = PushWon v pos"
  shows "qinv N (write_val N t v pos s)"
proof -
  let ?s = "write_val N t v pos s"
  note I = qinvD [OF inv]
  have sel: "qhead ?s = qhead s" "qtail ?s = qtail s" "sq ?s = sq s" "vl ?s = (vl s)(pos mod N := v)"
    "taken ?s = taken s" "pushed ?s = pushed s" "pc ?s = (pc s)(t := PushWrote v pos)"
    by (simp_all add: write_val_def goto_def)
  have P: "p_holds (pc ?s u) p = p_holds (pc s u) p" and C: "c_holds (pc ?s u) p = c_holds (pc s u) p"
    and U: "unread (pc ?s u) p = unread (pc s u) p" for u p
    by (simp_all add: sel at)
  have pt: "p_holds (pc s t) pos" using at by simp
  then have w: "qtail s \<le> pos" "pos < qhead s" using I(6) by blast+
  have other: "vl ?s (p mod N) = vl s (p mod N)" if "qtail s \<le> p" "p < qtail s + N" "p \<noteq> pos" for p
    using window_cell [of "qtail s" p N pos] that w I(2) by (simp add: sel)
  show ?thesis
  proof (rule qinvI; (unfold sel(1,2,3,5,6) P C U)?)
    show "full_cell N ?s p \<or> busy_cell N ?s p" if "qtail s \<le> p" "p < qhead s" for p
    proof (cases "p = pos")
      case True
      then show ?thesis using I(6) [OF pt] pt P by (auto simp: busy_cell_def sel(3))
    next
      case False
      then show ?thesis using I(4) [OF that] other [of p] that I(2) P
        by (auto simp: full_cell_def busy_cell_def sel(3,6))
    qed
    show "free_cell N ?s p \<or> held_cell N ?s p" if "qhead s \<le> p" "p < qtail s + N" for p
      using I(5) [OF that] other [of p] that w I(1) C
      by (auto simp: free_cell_def held_cell_def sel(3,6))
    show "seen_ok N ?s (pc ?s u)" for u
    proof (cases "u = t")
      case True
      then show ?thesis using I(10) [of t] at by (simp add: sel)
    next
      case False
      have "seen_ok N ?s (pc s u)"
      proof (rule seen_ok_mono [of N s])
        show "pushed ?s ! p = pushed s ! p \<and> vl ?s (p mod N) = vl s (p mod N)" if "p_holds (pc s u) p" for p
        proof -
          have "p \<noteq> pos" using that pt I(7) False by blast
          then show ?thesis using other I(6) [OF that] I(2) by (simp add: sel)
        qed
      qed (use I(10) in \<open>simp_all add: sel\<close>)
      then show ?thesis using False by (simp add: sel)
    qed
  qed (use I in blast)+
qed

lemma qinv_publish:
  assumes inv: "qinv N s" and at: "pc s t = PushWrote v pos"
  shows "qinv N (publish N t pos s)"
proof -
  let ?s = "publish N t pos s"
  note I = qinvD [OF inv]
  have sel: "qhead ?s = qhead s" "qtail ?s = qtail s" "sq ?s = (sq s)(pos mod N := pos + 1)" "vl ?s = vl s"
    "taken ?s = taken s" "pushed ?s = pushed s" "pc ?s = (pc s)(t := Idle)"
    by (simp_all add: publish_def goto_def)
  have pt: "p_holds (pc s t) pos" using at by simp
  then have w: "qtail s \<le> pos" "pos < qhead s" "sq s (pos mod N) = pos" using I(6) by blast+
  have P: "p_holds (pc ?s u) p \<longleftrightarrow> p_holds (pc s u) p \<and> p \<noteq> pos" for u p
  proof (cases "u = t")
    case True
    then show ?thesis using at by (simp add: sel)
  next
    case False
    then have "\<not> p_holds (pc s u) pos" using I(7) [OF pt, of u] by blast
    then show ?thesis using False by (auto simp: sel)
  qed
  have C: "c_holds (pc ?s u) p = c_holds (pc s u) p" and U: "unread (pc ?s u) p = unread (pc s u) p" for u p
    by (simp_all add: sel at)
  have other: "sq ?s (p mod N) = sq s (p mod N)" if "qtail s \<le> p" "p < qtail s + N" "p \<noteq> pos" for p
    using window_cell [of "qtail s" p N pos] that w I(2) by (simp add: sel)
  have vlp: "vl s (pos mod N) = pushed s ! pos" using I(10) [of t] at by simp
  show ?thesis
  proof (rule qinvI; (unfold sel(1,2,4,5,6) C U)?)
    show "full_cell N ?s p \<or> busy_cell N ?s p" if "qtail s \<le> p" "p < qhead s" for p
    proof (cases "p = pos")
      case True
      then show ?thesis using vlp P by (auto simp: full_cell_def sel(3,4,6))
    next
      case False
      then show ?thesis using I(4) [OF that] other [of p] that I(2) P
        by (auto simp: full_cell_def busy_cell_def sel(4,6))
    qed
    show "free_cell N ?s p \<or> held_cell N ?s p" if "qhead s \<le> p" "p < qtail s + N" for p
      using I(5) [OF that] other [of p] that w I(1) C
      by (auto simp: free_cell_def held_cell_def sel(4,6))
    show "qtail s \<le> p \<and> p < qhead s \<and> sq ?s (p mod N) = p" if "p_holds (pc ?s u) p" for u p
      using that I(6) [of u p] other [of p] I(2) unfolding P by auto
    show "u = u'" if "p_holds (pc ?s u) p" "p_holds (pc ?s u') p" for u u' p
      using that I(7) unfolding P by blast
    show "seen_ok N ?s (pc ?s u)" for u
    proof (cases "u = t")
      case False
      have "seen_ok N ?s (pc s u)"
        by (rule seen_ok_mono [of N s]) (use I(10) w(3) in \<open>simp_all add: sel\<close>)
      then show ?thesis using False by (simp add: sel)
    qed (simp add: sel)
  qed (use I in blast)+
qed

lemma qinv_claim_pop:
  assumes inv: "qinv N s" and N: "2 \<le> N" and m: "0 < m" and pos: "qtail s = pos"
    and old: "\<And>p. \<not> p_holds (pc s t) p" "\<And>p. \<not> c_holds (pc s t) p" "\<And>p. \<not> unread (pc s t) p"
    and saw: "\<forall>i < m. pos + i + 1 \<le> sq s ((pos + i) mod N)"
  shows "qinv N (claim_pop t l pos m s)"
proof -
  let ?s = "claim_pop t l pos m s"
  note I = qinvD [OF inv]
  note full = seen_full [OF inv N, unfolded pos, OF saw]
  have sel: "qhead ?s = qhead s" "qtail ?s = pos + m" "sq ?s = sq s" "vl ?s = vl s"
    "taken ?s = taken s" "pushed ?s = pushed s" "pc ?s = (pc s)(t := Hold l pos m 0 0 [])"
    by (simp_all add: claim_pop_def goto_def)
  have P: "p_holds (pc ?s u) p = p_holds (pc s u) p" for u p using old by (simp add: sel)
  have C: "c_holds (pc ?s u) p \<longleftrightarrow> (if u = t then pos \<le> p \<and> p < pos + m else c_holds (pc s u) p)" for u p
    by (simp add: sel)
  have U: "unread (pc ?s u) p \<longleftrightarrow> (if u = t then pos \<le> p \<and> p < pos + m else unread (pc s u) p)" for u p
    by (simp add: sel)
  have infull: "full_cell N s p" if "pos \<le> p" "p < pos + m" for p
    using full(2) [of "p - pos"] that by simp
  have mN: "pos + m \<le> pos + N" using full(1) I(2) pos by simp
  have cpos: "c_holds (pc s u) p \<Longrightarrow> p < pos" for u p using I(8) pos by blast
  have unr: "unread (pc s u) p \<Longrightarrow> p < pos" for u p
    using I(10) [of u] pos by (cases "pc s u") auto
  show ?thesis
  proof (rule qinvI; (unfold sel(1,3,4,5,6) P)?)
    show "qtail ?s \<le> qhead s" "qhead s \<le> qtail ?s + N" using full(1) I(2) pos by (simp_all add: sel)
    show "full_cell N ?s p \<or> busy_cell N ?s p" if "qtail ?s \<le> p" "p < qhead s" for p
      using I(4) [of p] that pos P by (auto simp: full_cell_def busy_cell_def sel(2,3,4,6))
    show "free_cell N ?s p \<or> held_cell N ?s p" if a: "qhead s \<le> p" "p < qtail ?s + N" for p
    proof (cases "p < pos + N")
      case True
      then have "free_cell N s p \<or> held_cell N s p" using I(5) a(1) pos by blast
      moreover have "c_holds (pc ?s u) (p - N) = c_holds (pc s u) (p - N)" if "N \<le> p" for u
        using C old(2) True that by auto
      ultimately show ?thesis by (auto simp: free_cell_def held_cell_def sel(3,4,6))
    next
      case False
      then have p: "pos \<le> p - N" "p - N < pos + m" "N \<le> p" using a by (simp_all add: sel)
      have "p mod N = (p - N) mod N" using p(3) by (metis le_add_diff_inverse2 lap_cell)
      moreover have "c_holds (pc ?s t) (p - N)" using C p by simp
      ultimately have "held_cell N ?s p"
        using infull [OF p(1,2)] p(3) unfolding held_cell_def full_cell_def sel(3,4,6) by metis
      then show ?thesis by blast
    qed
    show "qtail ?s \<le> p \<and> p < qhead s \<and> sq s (p mod N) = p" if h: "p_holds (pc s u) p" for u p
    proof -
      have "\<not> full_cell N s p" using h by (auto simp: full_cell_def)
      then have "\<not> (pos \<le> p \<and> p < pos + m)" using infull by blast
      then show ?thesis using I(6) [OF h] pos by (simp add: sel)
    qed
    show "p < qtail ?s \<and> qhead s \<le> p + N" if "c_holds (pc ?s u) p" for u p
    proof (cases "u = t")
      case True
      then show ?thesis using that I(2) pos unfolding C by (simp add: sel)
    next
      case False
      then show ?thesis using that I(8) [of u p] pos unfolding C by (simp add: sel)
    qed
    show "u = u'" if "c_holds (pc ?s u) p" "c_holds (pc ?s u') p" for u u' p
      using that I(9) [of u p u'] cpos [of u p] cpos [of u' p] unfolding C by (auto split: if_splits)
    show "seen_ok N ?s (pc ?s u)" for u
    proof (cases "u = t")
      case False
      have "seen_ok N ?s (pc s u)"
        by (rule seen_ok_mono [of N s]) (use I(10) pos in \<open>simp_all add: sel\<close>)
      then show ?thesis using False by (simp add: sel)
    qed (use m in \<open>simp add: sel\<close>)
    show "p < qtail ?s \<and> v = pushed s ! p" if "(p, v) \<in> set (taken s)" for p v
      using I(12) [OF that] pos by (simp add: sel)
    show "p \<in> fst ` set (taken s) \<longleftrightarrow> (\<forall>u. \<not> unread (pc ?s u) p)" if "p < qtail ?s" for p
    proof (cases "p < pos")
      case True
      then have "unread (pc ?s u) p = unread (pc s u) p" for u using U [of u p] old(3) [of p] by auto
      then show ?thesis using I(13) [of p] True pos by simp
    next
      case False
      then have "unread (pc ?s t) p" using U [of t p] that by (simp add: sel)
      moreover have "p \<notin> fst ` set (taken s)" using I(12) False pos by fastforce
      ultimately show ?thesis by blast
    qed
  qed (use I in blast)+
qed

lemma held_value:
  assumes inv: "qinv N s" and N: "0 < N" and h: "c_holds (pc s t) p"
  shows "vl s (p mod N) = pushed s ! p" "sq s (p mod N) = p + 1"
proof -
  note I = qinvD [OF inv]
  have b: "p < qtail s" "qhead s \<le> p + N" using I(8) [OF h] by auto
  have "\<not> free_cell N s (p + N)" using h by (auto simp: free_cell_def)
  moreover have "free_cell N s (p + N) \<or> held_cell N s (p + N)" using I(5) [of "p + N"] b by simp
  ultimately show "vl s (p mod N) = pushed s ! p" "sq s (p mod N) = p + 1"
    by (simp_all add: held_cell_def)
qed

lemma unread_holds: "qinv N s \<Longrightarrow> unread (pc s u) p \<Longrightarrow> c_holds (pc s u) p"
  using qinvD(10) [of N s u] by (cases "pc s u") auto

lemma qinv_read:
  assumes inv: "qinv N s" and N: "0 < N" and at: "pc s t = Hold l pos m r k vs" and r: "r < m"
  shows "qinv N (read_val N t l pos m r k vs s)"
proof -
  let ?s = "read_val N t l pos m r k vs s"
  note I = qinvD [OF inv]
  have ok: "k \<le> r" "pos + m \<le> qtail s" "vs = map (\<lambda>p. pushed s ! p) [pos..<pos + r]" "k < m"
    using I(10) [of t] at by simp_all
  have v: "vl s ((pos + r) mod N) = pushed s ! (pos + r)"
    using held_value(1) [OF inv N, of t "pos + r"] at ok r by simp
  have sel: "qhead ?s = qhead s" "qtail ?s = qtail s" "sq ?s = sq s" "vl ?s = vl s"
    "taken ?s = taken s @ [(pos + r, pushed s ! (pos + r))]" "pushed ?s = pushed s"
    "pc ?s = (pc s)(t := Hold l pos m (Suc r) k (vs @ [pushed s ! (pos + r)]))"
    by (simp_all add: read_val_def goto_def v Let_def)
  have P: "p_holds (pc ?s u) p = p_holds (pc s u) p" and C: "c_holds (pc ?s u) p = c_holds (pc s u) p" for u p
    by (simp_all add: sel at)
  have ut: "unread (pc s t) (pos + r)" using at r by simp
  have U: "unread (pc ?s u) p \<longleftrightarrow> unread (pc s u) p \<and> p \<noteq> pos + r" for u p
  proof (cases "u = t")
    case True
    then show ?thesis using at by (auto simp: sel)
  next
    case False
    then have "\<not> unread (pc s u) (pos + r)"
      using I(9) [of t "pos + r" u] unread_holds [OF inv] ut by blast
    then show ?thesis using False by (auto simp: sel)
  qed
  have F: "full_cell N ?s p = full_cell N s p" "busy_cell N ?s p = busy_cell N s p"
    "free_cell N ?s p = free_cell N s p" "held_cell N ?s p = held_cell N s p" for p
    unfolding full_cell_def busy_cell_def free_cell_def held_cell_def P C sel(3,4,6) by simp_all
  have lt: "pos + r < qtail s" using ok(2) r by simp
  have new: "pos + r \<notin> fst ` set (taken s)" using I(13) [OF lt] ut by blast
  show ?thesis
  proof (rule qinvI; (unfold sel(1-4,6) P C F)?)
    show "seen_ok N ?s (pc ?s u)" for u
    proof (cases "u = t")
      case True
      then show ?thesis using ok(1,2,4) r by (simp add: sel) (simp add: ok(3))
    next
      case False
      have "seen_ok N ?s (pc s u)"
        by (rule seen_ok_mono [of N s]) (use I(10) in \<open>simp_all add: sel\<close>)
      then show ?thesis using False by (simp add: sel)
    qed
    show "distinct (map fst (taken ?s))" using I(11) new by (simp add: sel)
    show "p < qtail s \<and> x = pushed s ! p" if "(p, x) \<in> set (taken ?s)" for p x
    proof (cases "(p, x) \<in> set (taken s)")
      case True
      then show ?thesis by (rule I(12))
    next
      case False
      then show ?thesis using that lt by (simp add: sel)
    qed
    show "p \<in> fst ` set (taken ?s) \<longleftrightarrow> (\<forall>u. \<not> unread (pc ?s u) p)" if "p < qtail s" for p
      using I(13) [OF that] unfolding U by (simp add: sel) blast
  qed (use I in blast)+
qed

lemma qinv_recycle:
  assumes inv: "qinv N s" and N: "2 \<le> N" and at: "pc s t = Hold l pos m r k vs" and kr: "k < r"
  shows "qinv N (recycle N t l pos m r k vs s)"
proof -
  let ?s = "recycle N t l pos m r k vs s" and ?c = "pos + k"
  note I = qinvD [OF inv]
  have ok: "k \<le> r" "r \<le> m" "pos + m \<le> qtail s" "vs = map (\<lambda>p. pushed s ! p) [pos..<pos + r]" "k < m"
    using I(10) [of t] at by simp_all
  have sel: "qhead ?s = qhead s" "qtail ?s = qtail s" "sq ?s = (sq s)(?c mod N := ?c + N)" "vl ?s = vl s"
    "taken ?s = taken s" "pushed ?s = pushed s"
    "pc ?s = (pc s)(t := if Suc k = m then Idle else Hold l pos m r (Suc k) vs)"
    by (simp_all add: recycle_def goto_def)
  have ct: "c_holds (pc s t) ?c" using at ok by simp
  have b: "?c < qtail s" "qhead s \<le> ?c + N" using I(8) [OF ct] by auto
  have sqc: "sq s (?c mod N) = ?c + 1" using held_value(2) [OF inv _ ct] N by simp
  have P: "p_holds (pc ?s u) p = p_holds (pc s u) p" for u p by (simp add: sel at)
  have U: "unread (pc ?s u) p = unread (pc s u) p" for u p
    using kr ok(2) by (auto simp: sel at)
  have C: "c_holds (pc ?s u) p \<longleftrightarrow> c_holds (pc s u) p \<and> p \<noteq> ?c" for u p
  proof (cases "u = t")
    case True
    then show ?thesis using at ok(1,2,5) by (auto simp: sel)
  next
    case False
    then have "\<not> c_holds (pc s u) ?c" using I(9) [OF ct, of u] by blast
    then show ?thesis using False by (auto simp: sel)
  qed
  have other: "sq ?s (p mod N) = sq s (p mod N)" if "qtail s \<le> p" "p < qtail s + N" "p \<noteq> ?c + N" for p
    using window_cell [of "qtail s" p N "?c + N"] that b I(1) by (simp add: sel)
  show ?thesis
  proof (rule qinvI; (unfold sel(1,2,4,5,6) P U)?)
    show "full_cell N ?s p \<or> busy_cell N ?s p" if "qtail s \<le> p" "p < qhead s" for p
      using I(4) [OF that] other [of p] that I(2) b P
      by (auto simp: full_cell_def busy_cell_def sel(4,6))
    show "free_cell N ?s p \<or> held_cell N ?s p" if "qhead s \<le> p" "p < qtail s + N" for p
    proof (cases "p = ?c + N")
      case True
      then show ?thesis using C by (simp add: free_cell_def sel(3))
    next
      case False
      have "free_cell N s p \<or> held_cell N s p" by (rule I(5) [OF that])
      moreover have "c_holds (pc ?s u) (p - N) = c_holds (pc s u) (p - N)" if "N \<le> p" for u
        using C [of u "p - N"] False that by auto
      moreover have "sq ?s (p mod N) = sq s (p mod N)" using other [of p] that I(1) False by simp
      ultimately show ?thesis by (auto simp: free_cell_def held_cell_def sel(4,6))
    qed
    show "qtail s \<le> p \<and> p < qhead s \<and> sq ?s (p mod N) = p" if "p_holds (pc s u) p" for u p
      using I(6) [OF that] other [of p] I(2) b by auto
    show "p < qtail s \<and> qhead s \<le> p + N" if "c_holds (pc ?s u) p" for u p
      using that I(8) unfolding C by blast
    show "u = u'" if "c_holds (pc ?s u) p" "c_holds (pc ?s u') p" for u u' p
      using that I(9) unfolding C by blast
    show "seen_ok N ?s (pc ?s u)" for u
    proof (cases "u = t")
      case True
      then show ?thesis using ok(2,3,5) kr by (simp add: sel) (simp add: ok(4))
    next
      case False
      have "seen_ok N ?s (pc s u)"
        by (rule seen_ok_mono [of N s]) (use I(10) sqc N in \<open>simp_all add: sel\<close>)
      then show ?thesis using False by (simp add: sel)
    qed
  qed (use I in blast)+
qed

lemma qinv_start: "0 < N \<Longrightarrow> qinv N (qstart N)"
  by (rule qinvI) (simp_all add: qstart_def free_cell_def)

theorem qinv_step:
  assumes step: "qstep N s s'" and inv: "qinv N s" and N: "2 \<le> N"
  shows "qinv N s'"
  using step
proof cases
  case (push_win t v pos)
  then show ?thesis using qinv_claim_push [OF inv N] by simp
next
  case (push_write t v pos)
  then show ?thesis using qinv_write [OF inv] by simp
next
  case (push_publish t v pos)
  then show ?thesis using qinv_publish [OF inv] by simp
next
  case (pop_win t pos)
  then have "\<forall>i < 1. pos + i + 1 \<le> sq s ((pos + i) mod N)" using qinvD(10) [OF inv, of t] by simp
  then show ?thesis using qinv_claim_pop [OF inv N, of 1 pos t False] pop_win by simp
next
  case (bulk_hit t l pos maxn m)
  have "seen_ok N s (BulkScan l pos maxn m)" using qinvD(10) [OF inv, of t] bulk_hit by simp
  then have "seen_ok N s (BulkScan l pos maxn (Suc m))" using bulk_hit by (auto simp: less_Suc_eq)
  then show ?thesis using qinv_goto [OF inv, of t] bulk_hit by simp
next
  case (bulk_stop t l pos maxn m)
  have "seen_ok N s (BulkScan l pos maxn m)" using qinvD(10) [OF inv, of t] bulk_stop by simp
  then show ?thesis using qinv_goto [OF inv, of t] bulk_stop by simp
next
  case (bulk_win t l pos maxn m)
  have "seen_ok N s (BulkCas l pos maxn m)" using qinvD(10) [OF inv, of t] bulk_win by simp
  then show ?thesis using qinv_claim_pop [OF inv N, of m pos t l] bulk_win by simp
next
  case (hold_read t l pos m r c vs)
  then show ?thesis using qinv_read [OF inv] N by simp
next
  case (hold_recycle t l pos m r c vs)
  then show ?thesis using qinv_recycle [OF inv N] by simp
qed (use qinv_goto [OF inv] in simp)+

lemma qinv_reach: "qreach N s \<Longrightarrow> 2 \<le> N \<Longrightarrow> qinv N s"
  by (induction rule: rtranclp_induct) (auto intro: qinv_start qinv_step)

section \<open>Properties\<close>


text \<open>When every thread is outside the queue, the values delivered are exactly those claimed
  first, and the cells between the cursors hold exactly the rest in the order of their claims:
  nothing is lost.\<close>

theorem queue_quiescent_conserves:
  assumes "qreach N s" "2 \<le> N" "\<forall>t. pc s t = Idle"
  shows "mset (map snd (taken s)) = mset (take (qtail s) (pushed s))
    \<and> map (\<lambda>p. vl s (p mod N)) [qtail s..<qhead s] = drop (qtail s) (pushed s)"
proof
  note I = qinvD [OF qinv_reach [OF assms(1,2)]]
  have "set (map fst (taken s)) = {0..<qtail s}"
  proof -
    have "\<And>p. p \<in> fst ` set (taken s) \<Longrightarrow> p < qtail s" using I(12) by fastforce
    moreover have "\<And>p. p < qtail s \<Longrightarrow> p \<in> fst ` set (taken s)" using I(13) assms(3) by simp
    ultimately show ?thesis by (simp add: set_eq_iff) blast
  qed
  then have "mset (map fst (taken s)) = mset [0..<qtail s]"
    using set_eq_iff_mset_eq_distinct [OF I(11) distinct_upt] by (metis set_upt)
  moreover have "map snd (taken s) = map ((!) (pushed s)) (map fst (taken s))"
    using I(12) by (auto simp: map_eq_conv)
  moreover have "map ((!) (pushed s)) [0..<qtail s] = take (qtail s) (pushed s)"
    using I(1,3) by (intro nth_equalityI) simp_all
  ultimately show "mset (map snd (taken s)) = mset (take (qtail s) (pushed s))" by (metis mset_map)
  show "map (\<lambda>p. vl s (p mod N)) [qtail s..<qhead s] = drop (qtail s) (pushed s)"
  proof (rule nth_equalityI)
    show "length (map (\<lambda>p. vl s (p mod N)) [qtail s..<qhead s]) = length (drop (qtail s) (pushed s))"
      using I(3) by simp
    fix i assume "i < length (map (\<lambda>p. vl s (p mod N)) [qtail s..<qhead s])"
    then have i: "qtail s + i < qhead s" by simp
    have "full_cell N s (qtail s + i)"
      using I(4) [of "qtail s + i"] i assms(3) by (auto simp: busy_cell_def)
    moreover have "[qtail s..<qhead s] ! i = qtail s + i" using i by (rule nth_upt)
    ultimately show "map (\<lambda>p. vl s (p mod N)) [qtail s..<qhead s] ! i = drop (qtail s) (pushed s) ! i"
      using i I(3) by (simp only: full_cell_def nth_map length_upt nth_drop less_diff_conv add.commute)
  qed
qed

text \<open>A consumer that has claimed a run of cells reads the values of exactly those positions,
  in the order in which producers claimed them, and no other thread holds a cell of the run it has
  not recycled yet.\<close>

theorem queue_claims_exclusive:
  assumes "qreach N s" "2 \<le> N" "pc s t = Hold l pos m r k vs"
  shows "vs = map (\<lambda>p. pushed s ! p) [pos..<pos + r] \<and> pos + m \<le> length (pushed s)
    \<and> (\<forall>t' p. t' \<noteq> t \<longrightarrow> pos + k \<le> p \<longrightarrow> p < pos + m \<longrightarrow> \<not> c_holds (pc s t') p)"
proof -
  note I = qinvD [OF qinv_reach [OF assms(1,2)]]
  have "vs = map (\<lambda>p. pushed s ! p) [pos..<pos + r]" "pos + m \<le> length (pushed s)"
    using I(10) [of t] I(1,3) assms(3) by simp_all
  moreover have "\<not> c_holds (pc s t') p" if "t' \<noteq> t" "pos + k \<le> p" "p < pos + m" for t' p
    using I(9) [of t p t'] that assms(3) by auto
  ultimately show ?thesis by blast
qed

section \<open>Witnesses\<close>

text \<open>Thread \<open>0\<close> pushes \<open>42\<close> while thread \<open>1\<close> has already looked at the empty queue; thread \<open>1\<close> then pops it.\<close>

definition demo0 :: "int qstate" where
  "demo0 = qstart 2"

definition demo1 :: "int qstate" where
  "demo1 = goto 0 (PushAt 42 0) demo0"

definition demo2 :: "int qstate" where
  "demo2 = goto 1 (PopAt 0) demo1"

definition demo3 :: "int qstate" where
  "demo3 = goto 0 (PushSaw 42 0 0) demo2"

definition demo4 :: "int qstate" where
  "demo4 = claim_push 0 42 0 demo3"

definition demo5 :: "int qstate" where
  "demo5 = write_val 2 0 42 0 demo4"

definition demo6 :: "int qstate" where
  "demo6 = publish 2 0 0 demo5"

definition demo7 :: "int qstate" where
  "demo7 = goto 1 (PopSaw 0 1) demo6"

definition demo8 :: "int qstate" where
  "demo8 = claim_pop 1 False 0 1 demo7"

definition demo9 :: "int qstate" where
  "demo9 = read_val 2 1 False 0 1 0 0 [] demo8"

definition demo10 :: "int qstate" where
  "demo10 = recycle 2 1 False 0 1 1 0 [42] demo9"

lemmas qstate_simps = goto_def claim_push_def write_val_def publish_def claim_pop_def read_val_def
  recycle_def qstart_def Let_def

text \<open>What the later steps need to know of each state.\<close>

lemma demo0_sel [simp]:
  "pc demo0 0 = Idle" "pc demo0 1 = Idle" "qhead demo0 = 0" "qtail demo0 = 0" "pushed demo0 = []" "taken demo0 = []" "sq demo0 0 = 0"
  by (simp_all add: demo0_def qstate_simps)

lemma demo1_sel [simp]:
  "pc demo1 0 = PushAt 42 0" "pc demo1 1 = Idle" "qhead demo1 = 0" "qtail demo1 = 0" "pushed demo1 = []" "taken demo1 = []" "sq demo1 0 = 0"
  by (simp_all add: demo1_def qstate_simps)

lemma demo2_sel [simp]:
  "pc demo2 0 = PushAt 42 0" "pc demo2 1 = PopAt 0" "qhead demo2 = 0" "qtail demo2 = 0" "pushed demo2 = []" "taken demo2 = []" "sq demo2 0 = 0"
  by (simp_all add: demo2_def qstate_simps)

lemma demo3_sel [simp]:
  "pc demo3 0 = PushSaw 42 0 0" "pc demo3 1 = PopAt 0" "qhead demo3 = 0" "qtail demo3 = 0" "pushed demo3 = []" "taken demo3 = []" "sq demo3 0 = 0"
  by (simp_all add: demo3_def qstate_simps)

lemma demo4_sel [simp]:
  "pc demo4 0 = PushWon 42 0" "pc demo4 1 = PopAt 0" "qhead demo4 = 1" "qtail demo4 = 0" "pushed demo4 = [42]" "taken demo4 = []" "sq demo4 0 = 0"
  by (simp_all add: demo4_def qstate_simps)

lemma demo5_sel [simp]:
  "pc demo5 0 = PushWrote 42 0" "pc demo5 1 = PopAt 0" "qhead demo5 = 1" "qtail demo5 = 0" "pushed demo5 = [42]" "taken demo5 = []" "sq demo5 0 = 0" "vl demo5 0 = 42"
  by (simp_all add: demo5_def qstate_simps)

lemma demo6_sel [simp]:
  "pc demo6 0 = Idle" "pc demo6 1 = PopAt 0" "qhead demo6 = 1" "qtail demo6 = 0" "pushed demo6 = [42]" "taken demo6 = []" "sq demo6 0 = 1" "vl demo6 0 = 42"
  by (simp_all add: demo6_def qstate_simps)

lemma demo7_sel [simp]:
  "pc demo7 0 = Idle" "pc demo7 1 = PopSaw 0 1" "qhead demo7 = 1" "qtail demo7 = 0" "pushed demo7 = [42]" "taken demo7 = []" "sq demo7 0 = 1" "vl demo7 0 = 42"
  by (simp_all add: demo7_def qstate_simps)

lemma demo8_sel [simp]:
  "pc demo8 0 = Idle" "pc demo8 1 = Hold False 0 1 0 0 []" "qhead demo8 = 1" "qtail demo8 = 1" "pushed demo8 = [42]" "taken demo8 = []" "sq demo8 0 = 1" "vl demo8 0 = 42"
  by (simp_all add: demo8_def qstate_simps)

lemma demo9_sel [simp]:
  "pc demo9 0 = Idle" "pc demo9 1 = Hold False 0 1 1 0 [42]" "qhead demo9 = 1" "qtail demo9 = 1" "pushed demo9 = [42]" "taken demo9 = [(0, 42)]" "sq demo9 0 = 1" "vl demo9 0 = 42"
  by (simp_all add: demo9_def qstate_simps)

lemma demo10_sel [simp]:
  "pc demo10 0 = Idle" "pc demo10 1 = Idle" "qhead demo10 = 1" "qtail demo10 = 1" "pushed demo10 = [42]" "taken demo10 = [(0, 42)]" "sq demo10 0 = 2" "vl demo10 0 = 42"
  by (simp_all add: demo10_def qstate_simps)

lemma demo10_idle [simp]: "pc demo10 t = Idle"
  by (simp add: demo0_def demo1_def demo2_def demo3_def demo4_def demo5_def demo6_def demo7_def demo8_def demo9_def demo10_def qstate_simps)

lemma demo_reach: "qreach 2 demo9" "qreach 2 demo10"
proof -
  note r = rtranclp.rtrancl_into_rtrancl [of "qstep 2"]
  have r0: "qreach 2 demo0" by (simp add: demo0_def)
  have "qstep 2 demo0 demo1" unfolding demo1_def using push_call [of demo0 0 2 42] by simp
  note r1 = r [OF r0 this]
  have "qstep 2 demo1 demo2" unfolding demo2_def using pop_call [of demo1 1 2] by simp
  note r2 = r [OF r1 this]
  have "qstep 2 demo2 demo3" unfolding demo3_def using push_load [of demo2 0 42 0 2] by simp
  note r3 = r [OF r2 this]
  have "qstep 2 demo3 demo4" unfolding demo4_def using push_win [of demo3 0 42 0 2] by simp
  note r4 = r [OF r3 this]
  have "qstep 2 demo4 demo5" unfolding demo5_def using push_write [of demo4 0 42 0 2] by simp
  note r5 = r [OF r4 this]
  have "qstep 2 demo5 demo6" unfolding demo6_def using push_publish [of demo5 0 42 0 2] by simp
  note r6 = r [OF r5 this]
  have "qstep 2 demo6 demo7" unfolding demo7_def using pop_load [of demo6 1 0 2] by simp
  note r7 = r [OF r6 this]
  have "qstep 2 demo7 demo8" unfolding demo8_def using pop_win [of demo7 1 0 2] by simp
  note r8 = r [OF r7 this]
  have "qstep 2 demo8 demo9" unfolding demo9_def using hold_read [of demo8 1 False 0 1 0 0 "[]" 2] by simp
  note r9 = r [OF r8 this]
  have "qstep 2 demo9 demo10" unfolding demo10_def using hold_recycle [of demo9 1 False 0 1 1 0 "[42]" 2] by simp
  note r10 = r [OF r9 this]
  show "qreach 2 demo9" "qreach 2 demo10" by (rule r9, rule r10)
qed


lemma queue_quiescent_conserves_witness:
  "mset (map snd (taken demo10)) = mset (take (qtail demo10) (pushed demo10))"
  by (rule queue_quiescent_conserves [THEN conjunct1, OF demo_reach(2)])
    simp_all

lemma queue_claims_exclusive_witness:
  "[42] = map (\<lambda>p. pushed demo9 ! p) [0..<0 + 1] \<and> 0 + 1 \<le> length (pushed demo9)"
  proof -
  have "pc demo9 1 = Hold False 0 1 1 0 [42]" by simp
  from queue_claims_exclusive [OF demo_reach(1) _ this] show ?thesis by simp
qed

end
