(* ===== verification/FL_Task.thy ===== *)
theory FL_Task
  imports FL_Prelude
begin

text \<open>
  The task vocabulary of \<open>include/fastllm/fastllm.h\<close> and the weight-format geometry of
  \<open>src/runtime/quants.h\<close>: engines, task kinds, weight formats, the \<open>Task\<close> record and the
  row-size functions every layer of the program agrees on.
\<close>

section \<open>Enumerations\<close>

datatype engine = GPU | CPU | ANY

text \<open>
  \<open>TaskKind\<close> has an 8-bit underlying type, so a value outside the thirteen enumerators can
  be stored in it; \<open>BAD_KIND n\<close> is the value \<open>13 + n\<close>.
\<close>

datatype task_kind =
    STREAM_DOT | MERGE | SIGNAL | ACT_Q8 | STREAM_DOT_IDX
  | RMSNORM | ADD2 | ROPE_DS2 | KV_APPEND | ATTN_HEAD | ROUTER_SEL | SILU_MUL | WMERGE
  | BAD_KIND nat

definition kNumTaskKinds :: nat where
  "kNumTaskKinds = 13"

fun kind_code :: "task_kind \<Rightarrow> nat" where
  "kind_code STREAM_DOT = 0"
| "kind_code MERGE = 1"
| "kind_code SIGNAL = 2"
| "kind_code ACT_Q8 = 3"
| "kind_code STREAM_DOT_IDX = 4"
| "kind_code RMSNORM = 5"
| "kind_code ADD2 = 6"
| "kind_code ROPE_DS2 = 7"
| "kind_code KV_APPEND = 8"
| "kind_code ATTN_HEAD = 9"
| "kind_code ROUTER_SEL = 10"
| "kind_code SILU_MUL = 11"
| "kind_code WMERGE = 12"
| "kind_code (BAD_KIND n) = 13 + n"

text \<open>\<open>t.kind >= TaskKind::RMSNORM\<close>: the decode operations.\<close>

definition is_decode_op :: "task_kind \<Rightarrow> bool" where
  "is_decode_op k \<longleftrightarrow> kind_code RMSNORM \<le> kind_code k"

definition is_dot :: "task_kind \<Rightarrow> bool" where
  "is_dot k \<longleftrightarrow> k = STREAM_DOT \<or> k = STREAM_DOT_IDX"

datatype fmt = F32 | Q8_0 | Q5_0 | Q4_K | Q6_K | IQ2_XXS | IQ3_XXS

fun fmt_code :: "fmt \<Rightarrow> nat" where
  "fmt_code F32 = 0"
| "fmt_code Q8_0 = 1"
| "fmt_code Q5_0 = 2"
| "fmt_code Q4_K = 3"
| "fmt_code Q6_K = 4"
| "fmt_code IQ2_XXS = 5"
| "fmt_code IQ3_XXS = 6"

lemma kind_code_inject [simp]: "kind_code a = kind_code b \<longleftrightarrow> a = b"
  by (cases a; cases b) auto

lemma fmt_code_inject [simp]: "fmt_code a = fmt_code b \<longleftrightarrow> a = b"
  by (cases a; cases b) auto

lemma is_decode_op_iff [fl_simps]:
  "is_decode_op k \<longleftrightarrow> k \<notin> {STREAM_DOT, MERGE, SIGNAL, ACT_Q8, STREAM_DOT_IDX}"
  by (cases k) (auto simp: is_decode_op_def)

section \<open>Format geometry\<close>

fun fl_fmt_is_codebook :: "fmt \<Rightarrow> bool" where
  "fl_fmt_is_codebook f = (f = IQ2_XXS \<or> f = IQ3_XXS)"

fun fl_blk_elems :: "fmt \<Rightarrow> u32" where
  "fl_blk_elems F32 = 1"
| "fl_blk_elems Q8_0 = 32"
| "fl_blk_elems Q5_0 = 32"
| "fl_blk_elems Q4_K = 256"
| "fl_blk_elems Q6_K = 256"
| "fl_blk_elems IQ2_XXS = 256"
| "fl_blk_elems IQ3_XXS = 256"

fun fl_blk_bytes :: "fmt \<Rightarrow> u32" where
  "fl_blk_bytes F32 = 4"
| "fl_blk_bytes Q8_0 = 34"
| "fl_blk_bytes Q5_0 = 22"
| "fl_blk_bytes Q4_K = 144"
| "fl_blk_bytes Q6_K = 210"
| "fl_blk_bytes IQ2_XXS = 66"
| "fl_blk_bytes IQ3_XXS = 98"

definition fl_row_bytes :: "fmt \<Rightarrow> u32 \<Rightarrow> u64" where
  "fl_row_bytes f cols = ucast (cols div fl_blk_elems f) * ucast (fl_blk_bytes f)"

lemma unat_fl_blk_bytes_le: "unat (fl_blk_bytes f) \<le> 210"
  by (cases f) simp_all

lemma fl_blk_elems_pos [simp]: "fl_blk_elems f \<noteq> 0"
  by (cases f) simp_all

lemma fl_blk_elems_cases: "unat (fl_blk_elems f) \<in> {1, 32, 256}"
  by (cases f) simp_all

text \<open>The product is exact: the 64-bit multiplication of two 32-bit factors never wraps.\<close>

lemma unat_fl_row_bytes:
  "unat (fl_row_bytes f cols) = unat cols div unat (fl_blk_elems f) * unat (fl_blk_bytes f)"
proof -
  let ?n = "unat cols div unat (fl_blk_elems f)"
  have n: "?n < 2 ^ 32"
    by (rule le_less_trans [OF div_le_dividend]) (simp add: unat_u32_lt)
  have "?n * unat (fl_blk_bytes f) \<le> 2 ^ 32 * 210"
    using n unat_fl_blk_bytes_le [of f] by (intro mult_le_mono) auto
  then have "?n * unat (fl_blk_bytes f) < 2 ^ 64"
    by (rule le_less_trans) simp
  then show ?thesis
    by (simp add: fl_row_bytes_def unat_mult_exact unat_div)
qed

section \<open>Tasks\<close>

text \<open>
  \<open>struct Task\<close>. The consumer array with its count \<open>n_consumers\<close> is the list of its first
  \<open>n_consumers\<close> entries; task ids and dependency counts are the values of the \<open>uint32_t\<close>
  and \<open>int32_t\<close> fields.
\<close>

definition kMaxConsumers :: nat where
  "kMaxConsumers = 6"

definition kMaxDotCols :: nat where
  "kMaxDotCols = 16"

record task =
  t_id :: nat
  t_kind :: task_kind
  t_affinity :: engine
  t_fmt :: fmt
  t_consumers :: "nat list"
  t_w :: addr
  t_w_bytes :: u64
  t_x :: addr
  t_y :: addr
  t_rows :: u32
  t_cols :: u32
  t_dep_init :: int
  t_dep_count :: int
  t_epoch :: u32
  t_handoff_ts :: u64
  t_aux :: addr
  t_aux2 :: u64
  t_nx :: u32
  t_xstride :: u32
  t_ystride :: u32

text \<open>\<open>Task t{}\<close>: every field zero but \<open>nx = 1\<close> (zero is GPU, STREAM\_DOT and F32).\<close>

definition task0 :: task where
  "task0 = \<lparr>t_id = 0, t_kind = STREAM_DOT, t_affinity = GPU, t_fmt = F32, t_consumers = [],
    t_w = 0, t_w_bytes = 0, t_x = 0, t_y = 0, t_rows = 0, t_cols = 0, t_dep_init = 0,
    t_dep_count = 0, t_epoch = 0, t_handoff_ts = 0, t_aux = 0, t_aux2 = 0,
    t_nx = 1, t_xstride = 0, t_ystride = 0\<rparr>"

end
