(* ===== verification/FL_Worklist.thy ===== *)
theory FL_Worklist
  imports FL_Task
begin

text \<open>
  The ready-stack worklist that \<open>GraphImpl::freeze\<close> and \<open>run_serial\<close>
  (\<open>src/runtime/graph.cpp\<close>) both run, and the interface \<open>task_graph\<close> of the graph that
  they and the runtime rely on: consumer ids lie in the table and the initial dependency
  counts are the in-degrees. Inside the locale stands Kahn's algorithm, proved once.
\<close>

section \<open>The ready stack\<close>

text \<open>
  \<open>if (--deps[c] == 0) ready.push_back(c)\<close> over the consumers of a task. The stack is a list
  whose head is \<open>ready.back()\<close>. A consumer id outside the table is skipped here; the graph
  invariant below shows that \<open>edge\<close> never stores one.
\<close>

fun dec_deps :: "nat list \<Rightarrow> int list \<Rightarrow> nat list \<Rightarrow> int list \<times> nat list" where
  "dec_deps [] deps ready = (deps, ready)"
| "dec_deps (c # cs) deps ready =
     (if c < length deps
      then dec_deps cs (deps[c := deps ! c - 1])
             (if deps ! c - 1 = 0 then c # ready else ready)
      else dec_deps cs deps ready)"

definition positive_deps :: "int list \<Rightarrow> nat set" where
  "positive_deps deps = {i. i < length deps \<and> 0 < deps ! i}"

lemma finite_positive_deps [simp]: "finite (positive_deps deps)"
  by (simp add: positive_deps_def)

lemma dec_deps_measure:
  "dec_deps cs deps ready = (deps', ready') \<Longrightarrow>
    card (positive_deps deps') + length ready' \<le> card (positive_deps deps) + length ready"
proof (induction cs arbitrary: deps ready)
  case Nil
  then show ?case by simp
next
  case (Cons c cs)
  show ?case
  proof (cases "c < length deps")
    case True
    let ?d = "deps[c := deps ! c - 1]"
    let ?r = "if deps ! c - 1 = 0 then c # ready else ready"
    have "card (positive_deps ?d) + length ?r \<le> card (positive_deps deps) + length ready"
    proof (cases "deps ! c = 1")
      case one: True
      then have e: "positive_deps ?d = positive_deps deps - {c}"
        using True by (auto simp: positive_deps_def nth_list_update)
      have "c \<in> positive_deps deps" using True one by (simp add: positive_deps_def)
      then have "card (positive_deps deps) = Suc (card (positive_deps ?d))"
        unfolding e by (metis card_Suc_Diff1 finite_positive_deps)
      then show ?thesis using one by simp
    next
      case False
      have "positive_deps ?d \<subseteq> positive_deps deps"
        using True by (auto simp: positive_deps_def nth_list_update split: if_splits)
      then have "card (positive_deps ?d) \<le> card (positive_deps deps)"
        by (rule card_mono [OF finite_positive_deps])
      then show ?thesis using False by simp
    qed
    moreover have "card (positive_deps deps') + length ready' \<le> card (positive_deps ?d) + length ?r"
      using Cons.prems True by (intro Cons.IH) simp
    ultimately show ?thesis by linarith
  next
    case False
    with Cons show ?thesis by simp
  qed
qed

text \<open>
  \<open>while (!ready.empty()) { id = ready.back(); ready.pop_back(); ...; for each consumer ... }\<close>
  with the loop body's other effect on the state \<open>s\<close> given by \<open>visit\<close>.
\<close>

function drain ::
  "(nat \<Rightarrow> nat list) \<Rightarrow> (nat \<Rightarrow> 's \<Rightarrow> 's) \<Rightarrow> int list \<Rightarrow> nat list \<Rightarrow> 's \<Rightarrow> 's" where
  "drain cons visit deps [] s = s"
| "drain cons visit deps (n # ready) s =
     drain cons visit (fst (dec_deps (cons n) deps ready)) (snd (dec_deps (cons n) deps ready))
       (visit n s)"
  by pat_completeness auto
termination
proof (relation "measure (\<lambda>(cons, visit, deps, ready, s). card (positive_deps deps) + length ready)")
  fix cons :: "nat \<Rightarrow> nat list" and visit :: "nat \<Rightarrow> 's \<Rightarrow> 's" and deps n ready s
  have "card (positive_deps (fst (dec_deps (cons n) deps ready)))
      + length (snd (dec_deps (cons n) deps ready)) \<le> card (positive_deps deps) + length ready"
    by (rule dec_deps_measure) simp
  then show "((cons, visit, fst (dec_deps (cons n) deps ready), snd (dec_deps (cons n) deps ready),
      visit n s), cons, visit, deps, n # ready, s)
    \<in> measure (\<lambda>(cons, visit, deps, ready, s). card (positive_deps deps) + length ready)"
    by simp
qed simp

text \<open>\<open>for i: deps[i] = dep_init; if (deps[i] == 0) ready.push_back(i)\<close>.\<close>

definition initial_ready :: "int list \<Rightarrow> nat list" where
  "initial_ready deps = rev (filter (\<lambda>i. deps ! i = 0) [0..<length deps])"

definition visit_order :: "(nat \<Rightarrow> nat list) \<Rightarrow> int list \<Rightarrow> nat list" where
  "visit_order cons deps = drain cons (\<lambda>n l. l @ [n]) deps (initial_ready deps) []"

lemma drain_snoc:
  fixes visit :: "nat \<Rightarrow> nat list \<Rightarrow> nat list" and s :: "nat list"
  shows "drain cons (\<lambda>n l. l @ [n]) deps ready l = l @ drain cons (\<lambda>n l. l @ [n]) deps ready []"
proof (induction cons visit deps ready s arbitrary: l rule: drain.induct)
  case (1 cons visit deps s)
  show ?case by simp
next
  case (2 cons visit deps n ready s)
  let ?run = "drain cons (\<lambda>n l. l @ [n]) (fst (dec_deps (cons n) deps ready))
    (snd (dec_deps (cons n) deps ready))"
  have "?run (l @ [n]) = (l @ [n]) @ ?run []" and "?run ([] @ [n]) = ([] @ [n]) @ ?run []"
    by (rule "2.IH")+
  then show ?case by simp
qed

text \<open>Whatever the loop body does, it is done once per visited task, in visiting order.\<close>

lemma drain_fold:
  "drain cons visit deps ready s = fold visit (drain cons (\<lambda>n l. l @ [n]) deps ready []) s"
proof (induction cons visit deps ready s rule: drain.induct)
  case (1 cons visit deps s)
  show ?case by simp
next
  case (2 cons visit deps n ready s)
  have "drain cons (\<lambda>n l. l @ [n]) deps (n # ready) [] =
    n # drain cons (\<lambda>n l. l @ [n]) (fst (dec_deps (cons n) deps ready))
      (snd (dec_deps (cons n) deps ready)) []"
    using drain_snoc [of cons _ _ "[n]"] by simp
  then show ?case using "2.IH" by simp
qed

lemma dec_deps_spec:
  "dec_deps cs deps ready = (deps', ready') \<Longrightarrow> set cs \<subseteq> {..<length deps} \<Longrightarrow>
    length deps' = length deps
    \<and> (\<forall>c < length deps. deps' ! c = deps ! c - int (count_list cs c))
    \<and> (\<exists>new. ready' = new @ ready \<and> distinct new
        \<and> set new = {c \<in> set cs. 0 < deps ! c \<and> deps ! c \<le> int (count_list cs c)})"
proof (induction cs arbitrary: deps ready)
  case Nil
  then show ?case by simp
next
  case (Cons c cs)
  let ?d = "deps[c := deps ! c - 1]"
  let ?r = "if deps ! c - 1 = 0 then c # ready else ready"
  have c: "c < length deps" and cs: "set cs \<subseteq> {..<length ?d}" using Cons.prems(2) by auto
  have "dec_deps cs ?d ?r = (deps', ready')" using Cons.prems(1) c by simp
  from Cons.IH [OF this cs] obtain new where IH: "length deps' = length deps"
    "\<And>x. x < length deps \<Longrightarrow> deps' ! x = ?d ! x - int (count_list cs x)"
    "ready' = new @ ?r" "distinct new"
    "set new = {x \<in> set cs. 0 < ?d ! x \<and> ?d ! x \<le> int (count_list cs x)}"
    by auto
  define new' where "new' = (if deps ! c - 1 = 0 then new @ [c] else new)"
  have pos: "1 \<le> count_list cs c \<Longrightarrow> c \<in> set cs" by (cases "c \<in> set cs") (auto simp: count_list_0_iff)
  have "x \<in> set new' \<longleftrightarrow> x \<in> set (c # cs) \<and> 0 < deps ! x \<and> deps ! x \<le> int (count_list (c # cs) x)" for x
  proof (cases "x = c")
    case True
    have "x \<in> set new \<longleftrightarrow> x \<in> set cs \<and> 1 < deps ! x \<and> deps ! x \<le> int (count_list (c # cs) x)"
      unfolding IH(5) using c True by auto
    moreover have "x \<in> set new' \<longleftrightarrow> deps ! c = 1 \<or> x \<in> set new"
      using True unfolding new'_def by auto
    moreover have "1 < deps ! x \<Longrightarrow> deps ! x \<le> int (count_list (c # cs) x) \<Longrightarrow> x \<in> set cs"
      using True pos by simp
    ultimately show ?thesis using True by auto
  next
    case False
    have "x \<in> set new' \<longleftrightarrow> x \<in> set new" using False unfolding new'_def by simp
    also have "\<dots> \<longleftrightarrow> x \<in> set (c # cs) \<and> 0 < deps ! x \<and> deps ! x \<le> int (count_list (c # cs) x)"
      unfolding IH(5) using False by simp
    finally show ?thesis .
  qed
  then have "set new' = {x \<in> set (c # cs). 0 < deps ! x \<and> deps ! x \<le> int (count_list (c # cs) x)}"
    by blast
  moreover have "distinct new'" "ready' = new' @ ready"
    using IH(3-5) c unfolding new'_def by auto
  moreover have "\<forall>x < length deps. deps' ! x = deps ! x - int (count_list (c # cs) x)"
    using IH(2) c by (auto simp: nth_list_update)
  ultimately show ?case using IH(1) by blast
qed

section \<open>The interface the executors use\<close>

text \<open>
  The edge relation of a table given by its size and its consumer lists, and how many of the
  edges into \<open>c\<close> start at a task outside \<open>done\<close>.
\<close>

definition edges_of :: "nat \<Rightarrow> (nat \<Rightarrow> nat list) \<Rightarrow> (nat \<times> nat) set" where
  "edges_of n cons = {(p, c). p < n \<and> c \<in> set (cons p)}"

definition pending_in :: "nat \<Rightarrow> (nat \<Rightarrow> nat list) \<Rightarrow> nat set \<Rightarrow> nat \<Rightarrow> nat" where
  "pending_in n cons D c = (\<Sum>p\<in>{..<n} - D. count_list (cons p) c)"

lemma pending_in_insert:
  assumes "x < n" "x \<notin> D"
  shows "pending_in n cons D c = count_list (cons x) c + pending_in n cons (insert x D) c"
proof -
  have e: "{..<n} - D = insert x ({..<n} - insert x D)" using assms by auto
  show ?thesis unfolding pending_in_def by (subst e, subst sum.insert) auto
qed

lemma pending_in_0_iff:
  "pending_in n cons D c = 0 \<longleftrightarrow> (\<forall>p < n. c \<in> set (cons p) \<longrightarrow> p \<in> D)"
  unfolding pending_in_def by (subst sum_eq_0_iff) (simp, auto simp: count_list_0_iff)

lemma pending_in_snoc:
  assumes "p < n"
  shows "pending_in n (cons(p := cons p @ [c])) {} x = pending_in n cons {} x + (if x = c then 1 else 0)"
proof -
  have e: "{..<n} = insert p ({..<n} - {p})" using assms by auto
  have "(\<Sum>q\<in>{..<n} - {p}. count_list ((cons(p := cons p @ [c])) q) x)
      = (\<Sum>q\<in>{..<n} - {p}. count_list (cons q) x)"
    by (rule sum.cong) auto
  then show ?thesis
    unfolding pending_in_def Diff_empty by (subst (1 2) e, subst (1 2) sum.insert) auto
qed

lemma pending_in_cong:
  "(\<And>p. p < n \<Longrightarrow> f p = g p) \<Longrightarrow> pending_in n f D c = pending_in n g D c"
  unfolding pending_in_def by (rule sum.cong) auto

text \<open>
  What \<open>freeze\<close>, \<open>run_serial\<close> and the runtime need of a graph: consumer ids lie in the
  table, and the initial dependency count of a task is the number of edges into it.
\<close>

locale task_graph =
  fixes inv :: "'g \<Rightarrow> bool"
    and size :: "'g \<Rightarrow> nat"
    and consumers :: "'g \<Rightarrow> nat \<Rightarrow> nat list"
    and dep_init :: "'g \<Rightarrow> nat \<Rightarrow> int"
  assumes consumers_in: "inv g \<Longrightarrow> p < size g \<Longrightarrow> c \<in> set (consumers g p) \<Longrightarrow> c < size g"
    and dep_init_count:
      "inv g \<Longrightarrow> c < size g \<Longrightarrow> dep_init g c = int (pending_in (size g) (consumers g) {} c)"
begin

definition deps0 :: "'g \<Rightarrow> int list" where
  "deps0 g = map (dep_init g) [0..<size g]"

definition edges :: "'g \<Rightarrow> (nat \<times> nat) set" where
  "edges g = edges_of (size g) (consumers g)"

definition order :: "'g \<Rightarrow> nat list" where
  "order g = visit_order (consumers g) (deps0 g)"

text \<open>The loop invariant of Kahn's algorithm.\<close>

definition kahn_inv :: "'g \<Rightarrow> nat list \<Rightarrow> int list \<Rightarrow> nat list \<Rightarrow> bool" where
  "kahn_inv g visited deps ready \<longleftrightarrow>
     length deps = size g \<and> distinct (visited @ ready) \<and> set (visited @ ready) \<subseteq> {..<size g}
     \<and> (\<forall>c < size g. deps ! c = int (pending_in (size g) (consumers g) (set visited) c))
     \<and> (\<forall>c < size g. c \<in> set (visited @ ready) \<longleftrightarrow> deps ! c = 0)
     \<and> topo_list (edges g) visited"

lemma kahn_inv_init: "inv g \<Longrightarrow> kahn_inv g [] (deps0 g) (initial_ready (deps0 g))"
  by (auto simp: kahn_inv_def deps0_def initial_ready_def dep_init_count)

lemma kahn_inv_step:
  assumes g: "inv g" and K: "kahn_inv g visited deps (n # ready)"
    and d: "dec_deps (consumers g n) deps ready = (deps', ready')"
  shows "kahn_inv g (visited @ [n]) deps' ready'"
proof -
  let ?S = "size g" and ?C = "consumers g"
  have n: "n < ?S" "n \<notin> set visited" "n \<notin> set ready" and len: "length deps = ?S"
    and zero: "deps ! n = 0" and dist: "distinct (visited @ ready)"
    and sub: "set (visited @ ready) \<subseteq> {..<?S}"
    and iff: "\<And>c. c < ?S \<Longrightarrow> c \<in> set (visited @ n # ready) \<longleftrightarrow> deps ! c = 0"
    and pend: "\<And>c. c < ?S \<Longrightarrow> deps ! c = int (pending_in ?S ?C (set visited) c)"
    and topo: "topo_list (edges g) visited"
    using K unfolding kahn_inv_def by auto
  have "set (?C n) \<subseteq> {..<length deps}" using consumers_in [OF g n(1)] len by auto
  from dec_deps_spec [OF d this] obtain new where len': "length deps' = ?S"
    and val: "\<And>c. c < ?S \<Longrightarrow> deps' ! c = deps ! c - int (count_list (?C n) c)"
    and new: "ready' = new @ ready" "distinct new"
      "set new = {c \<in> set (?C n). 0 < deps ! c \<and> deps ! c \<le> int (count_list (?C n) c)}"
    using len by auto
  have pend': "deps' ! c = int (pending_in ?S ?C (set (visited @ [n])) c)" if "c < ?S" for c
    using val [OF that] pend [OF that] pending_in_insert [OF n(1,2), of ?C c] by simp
  have new_lt: "set new \<subseteq> {..<?S}" using new(3) consumers_in [OF g n(1)] by auto
  have disj: "c \<notin> set (visited @ n # ready)" if "c \<in> set new" for c
  proof -
    have "c < ?S" "0 < deps ! c" using that new(3) new_lt by auto
    then show ?thesis using iff by force
  qed
  have iff': "c \<in> set ((visited @ [n]) @ ready') \<longleftrightarrow> deps' ! c = 0" if c: "c < ?S" for c
  proof (cases "deps ! c = 0")
    case True
    have "pending_in ?S ?C (set visited) c = 0" using pend [OF c] True by simp
    then have "deps' ! c = 0"
      using pend' [OF c] pending_in_insert [OF n(1,2), of ?C c] by simp
    then show ?thesis using True iff [OF c] new(1) by auto
  next
    case False
    have "0 < deps ! c" using pend [OF c] False by simp
    moreover have "0 \<le> deps' ! c" using pend' [OF c] by simp
    ultimately have "deps' ! c = 0 \<longleftrightarrow> c \<in> set new"
      unfolding new(3) using val [OF c] count_list_pos_iff [of "?C n" c] by auto
    then show ?thesis using False iff [OF c] new(1) by auto
  qed
  have "pending_in ?S ?C (set visited) n = 0" using pend [OF n(1)] zero by simp
  then have "\<forall>p. (p, n) \<in> edges g \<longrightarrow> p \<in> set visited"
    by (auto simp: pending_in_0_iff edges_def edges_of_def)
  then have topo': "topo_list (edges g) (visited @ [n])" using topo by (simp add: topo_list_snoc)
  have "distinct ((visited @ [n]) @ ready')"
    using dist n new(1,2) disj by auto
  moreover have "set ((visited @ [n]) @ ready') \<subseteq> {..<?S}"
    using sub n new(1) new_lt by auto
  ultimately show ?thesis
    using len' pend' iff' topo' unfolding kahn_inv_def by blast
qed

lemma kahn_inv_drain:
  "inv g \<Longrightarrow> kahn_inv g visited deps ready \<Longrightarrow>
    \<exists>deps'. kahn_inv g (drain (consumers g) (\<lambda>n l. l @ [n]) deps ready visited) deps' []"
proof (induction "consumers g" "\<lambda>n l. l @ [n :: nat]" deps ready visited rule: drain.induct)
  case (1 deps visited)
  then show ?case by auto
next
  case (2 deps n ready visited)
  have "kahn_inv g (visited @ [n]) (fst (dec_deps (consumers g n) deps ready))
      (snd (dec_deps (consumers g n) deps ready))"
    using 2 by (intro kahn_inv_step) auto
  then show ?case using "2.hyps" "2.prems"(1) by simp
qed

lemma order_inv: "inv g \<Longrightarrow> \<exists>deps. kahn_inv g (order g) deps []"
  unfolding order_def visit_order_def by (intro kahn_inv_drain kahn_inv_init) auto

lemma order_distinct: "inv g \<Longrightarrow> distinct (order g)"
  using order_inv by (fastforce simp: kahn_inv_def)

lemma order_subset: "inv g \<Longrightarrow> set (order g) \<subseteq> {..<size g}"
  using order_inv by (fastforce simp: kahn_inv_def)

lemma order_topo: "inv g \<Longrightarrow> topo_list (edges g) (order g)"
  using order_inv by (fastforce simp: kahn_inv_def)

lemma edges_subset: "inv g \<Longrightarrow> edges g \<subseteq> {..<size g} \<times> {..<size g}"
  using consumers_in by (auto simp: edges_def edges_of_def)

text \<open>Every task is visited exactly when the graph has no cycle.\<close>

lemma order_complete_iff_acyclic:
  assumes g: "inv g"
  shows "length (order g) = size g \<longleftrightarrow> acyclic (edges g)"
proof
  assume "length (order g) = size g"
  then have "card (set (order g)) = size g" using order_distinct [OF g] by (simp add: distinct_card)
  then have "set (order g) = {..<size g}"
    using order_subset [OF g] by (intro card_subset_eq) auto
  then show "acyclic (edges g)"
    using topo_list_acyclic [OF order_topo [OF g] order_distinct [OF g]] edges_subset [OF g] by simp
next
  assume ac: "acyclic (edges g)"
  obtain deps where K: "kahn_inv g (order g) deps []" using order_inv [OF g] by blast
  let ?R = "{..<size g} - set (order g)"
  have "finite (edges g)" using edges_subset [OF g] by (rule finite_subset) simp
  then have wf: "wf (edges g)" using ac by (rule finite_acyclic_wf)
  have "?R = {}"
  proof (rule ccontr)
    assume "?R \<noteq> {}"
    then obtain z where z: "z \<in> ?R" and min: "\<And>y. (y, z) \<in> edges g \<Longrightarrow> y \<notin> ?R"
      using wfE_min [OF wf] by (metis ex_in_conv)
    have "deps ! z \<noteq> 0" using z K unfolding kahn_inv_def by auto
    then have "pending_in (size g) (consumers g) (set (order g)) z \<noteq> 0"
      using z K unfolding kahn_inv_def by auto
    then obtain p where "p < size g" "z \<in> set (consumers g p)" "p \<notin> set (order g)"
      by (auto simp: pending_in_0_iff)
    then show False using min [of p] by (auto simp: edges_def edges_of_def)
  qed
  then have "set (order g) = {..<size g}" using order_subset [OF g] by blast
  then show "length (order g) = size g" using distinct_card [OF order_distinct [OF g]] by simp
qed

lemma order_set:
  assumes g: "inv g" and ac: "acyclic (edges g)"
  shows "set (order g) = {..<size g}"
proof (rule card_subset_eq)
  show "card (set (order g)) = card {..<size g}"
    using order_complete_iff_acyclic [OF g] ac distinct_card [OF order_distinct [OF g]] by simp
qed (use order_subset [OF g] in auto)

text \<open>A task with no consumer that is the only one of its kind comes last.\<close>

lemma order_last_is_sink:
  assumes g: "inv g" and ac: "acyclic (edges g)" and ne: "0 < size g"
  shows "order g \<noteq> [] \<and> consumers g (last (order g)) = []"
proof -
  have set: "set (order g) = {..<size g}" by (rule order_set [OF g ac])
  have ne: "order g \<noteq> []"
  proof
    assume "order g = []"
    then have "{..<size g} = {}" using set by simp
    then show False using assms(3) by (simp add: lessThan_empty_iff)
  qed
  let ?l = "last (order g)"
  have l: "?l < size g" using ne set by (metis last_in_set lessThan_iff)
  have False if c: "c \<in> set (consumers g ?l)" for c
  proof -
    have "c < size g" using consumers_in [OF g l c] .
    then obtain ys zs where sp: "order g = ys @ c # zs" using set by (metis lessThan_iff split_list)
    have "(?l, c) \<in> edges g" using l c by (simp add: edges_def edges_of_def)
    then have "?l \<in> set ys" using order_topo [OF g] sp unfolding topo_list_def by blast
    moreover have "?l \<in> set (c # zs)" using sp by simp
    ultimately show False using order_distinct [OF g] sp by auto
  qed
  then show ?thesis using ne by (metis list.set_intros(1) neq_Nil_conv)
qed

end

end
