(* ===== verification/FL_Graph.thy ===== *)
theory FL_Graph
  imports FL_Worklist
begin

text \<open>
  \<open>GraphImpl\<close> of \<open>src/runtime/graph.cpp\<close>: the builder operations \<open>add\<close> and \<open>edge\<close>, the
  validation in \<open>freeze\<close>, and the serial reference executor \<open>run_serial\<close>. \<open>die\<close>
  (print and abort) is an error value. The state is the table of added tasks (its length is
  \<open>n_\<close>), the capacity \<open>max_\<close>, \<open>terminal_\<close> and \<open>frozen_\<close>.
\<close>

section \<open>State and errors\<close>

record graph =
  g_tasks :: "task list"
  g_max :: nat
  g_terminal :: nat
  g_frozen :: bool

datatype graph_error =
    AddAfterFreeze | CapacityExceeded
  | EdgeAfterFreeze | BadEdge | FanOutExceeded
  | CycleInGraph | NotOneSink | TerminalNotSignal
  | UnknownKind | DecodeOpNoAux | IdxNoSlot | ColsNotBlockMultiple | WBytesMismatch

definition graph_create :: "nat \<Rightarrow> graph" where
  "graph_create max_tasks = \<lparr>g_tasks = [], g_max = max_tasks, g_terminal = 0, g_frozen = False\<rparr>"

definition graph_size :: "graph \<Rightarrow> nat" where
  "graph_size g = length (g_tasks g)"

definition graph_consumers :: "graph \<Rightarrow> nat \<Rightarrow> nat list" where
  "graph_consumers g p = t_consumers (g_tasks g ! p)"

definition graph_dep_init :: "graph \<Rightarrow> nat \<Rightarrow> int" where
  "graph_dep_init g c = t_dep_init (g_tasks g ! c)"

section \<open>Building\<close>

definition graph_add :: "graph \<Rightarrow> task \<Rightarrow> graph_error + (graph \<times> nat)" where
  "graph_add g t =
     (if g_frozen g then Inl AddAfterFreeze
      else if g_max g \<le> graph_size g then Inl CapacityExceeded
      else let n = graph_size g;
               d = t\<lparr>t_id := n, t_consumers := [], t_dep_init := 0, t_dep_count := 0,
                     t_epoch := 0, t_handoff_ts := 0\<rparr>
           in Inr (g\<lparr>g_tasks := g_tasks g @ [d]\<rparr>, n))"

definition push_consumer :: "nat \<Rightarrow> task \<Rightarrow> task" where
  "push_consumer c t = t\<lparr>t_consumers := t_consumers t @ [c]\<rparr>"

definition inc_dep_init :: "task \<Rightarrow> task" where
  "inc_dep_init t = t\<lparr>t_dep_init := t_dep_init t + 1\<rparr>"

definition graph_edge :: "graph \<Rightarrow> nat \<Rightarrow> nat \<Rightarrow> graph_error + graph" where
  "graph_edge g p c =
     (if g_frozen g then Inl EdgeAfterFreeze
      else if graph_size g \<le> p \<or> graph_size g \<le> c \<or> p = c then Inl BadEdge
      else if kMaxConsumers \<le> length (t_consumers (g_tasks g ! p)) then Inl FanOutExceeded
      else let ts = (g_tasks g)[p := push_consumer c (g_tasks g ! p)]
           in Inr (g\<lparr>g_tasks := ts[c := inc_dep_init (ts ! c)]\<rparr>))"

section \<open>Freezing\<close>

text \<open>The three counters the validation loop keeps beside its worklist.\<close>

record freeze_scan =
  fz_seen :: nat
  fz_sinks :: nat
  fz_terminal :: nat

definition freeze_visit :: "graph \<Rightarrow> nat \<Rightarrow> freeze_scan \<Rightarrow> freeze_scan" where
  "freeze_visit g n s =
     (let s1 = s\<lparr>fz_seen := fz_seen s + 1\<rparr>
      in if graph_consumers g n = []
         then s1\<lparr>fz_sinks := fz_sinks s1 + 1, fz_terminal := n\<rparr> else s1)"

definition table_deps :: "graph \<Rightarrow> int list" where
  "table_deps g = map t_dep_init (g_tasks g)"

definition freeze_scan_of :: "graph \<Rightarrow> freeze_scan" where
  "freeze_scan_of g =
     drain (graph_consumers g) (freeze_visit g) (table_deps g) (initial_ready (table_deps g))
       \<lparr>fz_seen = 0, fz_sinks = 0, fz_terminal = g_terminal g\<rparr>"

text \<open>The per-task checks, in the order of the loop body.\<close>

definition task_check :: "task \<Rightarrow> graph_error option" where
  "task_check t =
     (if t_kind t \<noteq> STREAM_DOT \<and> t_kind t \<noteq> STREAM_DOT_IDX then
        (if kNumTaskKinds \<le> kind_code (t_kind t) then Some UnknownKind
         else if is_decode_op (t_kind t) \<and> t_aux t = 0 then Some DecodeOpNoAux
         else None)
      else if t_kind t = STREAM_DOT_IDX \<and> (t_aux t = 0 \<or> t_aux2 t = 0) then Some IdxNoSlot
      else if t_cols t mod fl_blk_elems (t_fmt t) \<noteq> 0 then Some ColsNotBlockMultiple
      else if t_w_bytes t \<noteq> ucast (t_rows t) * fl_row_bytes (t_fmt t) (t_cols t)
        then Some WBytesMismatch
      else None)"

fun first_error :: "task list \<Rightarrow> graph_error option" where
  "first_error [] = None"
| "first_error (t # ts) = (case task_check t of Some e \<Rightarrow> Some e | None \<Rightarrow> first_error ts)"

definition graph_freeze :: "graph \<Rightarrow> graph_error + graph" where
  "graph_freeze g =
     (if g_frozen g then Inr g
      else let s = freeze_scan_of g in
        if fz_seen s \<noteq> graph_size g then Inl CycleInGraph
        else if fz_sinks s \<noteq> 1 then Inl NotOneSink
        else if t_kind (g_tasks g ! fz_terminal s) \<noteq> SIGNAL then Inl TerminalNotSignal
        else (case first_error (g_tasks g) of
                Some e \<Rightarrow> Inl e
              | None \<Rightarrow> Inr (g\<lparr>g_terminal := fz_terminal s, g_frozen := True\<rparr>)))"

section \<open>The serial executor\<close>

text \<open>
  \<open>run_serial\<close> with the effect of \<open>exec_task_scalar_host\<close> on memory as the parameter
  \<open>exec\<close>. Of \<open>RunMetrics\<close> the deterministic fields are kept (tiles, streamed bytes and
  per-kind counts, at their 64-bit width); the clock readings are not.
\<close>

record serial_metrics =
  m_tiles :: u64
  m_bytes :: u64
  m_kind_n :: "u64 list"

definition serial_metrics0 :: serial_metrics where
  "serial_metrics0 = \<lparr>m_tiles = 0, m_bytes = 0, m_kind_n = replicate kNumTaskKinds 0\<rparr>"

definition count_task :: "task \<Rightarrow> serial_metrics \<Rightarrow> serial_metrics" where
  "count_task t m =
     (let k = kind_code (t_kind t) in
      m\<lparr>m_tiles := m_tiles m + 1,
        m_bytes := m_bytes m + (if is_dot (t_kind t) then t_w_bytes t else 0),
        m_kind_n := (m_kind_n m)[k := m_kind_n m ! k + 1]\<rparr>)"

definition serial_visit ::
  "(task \<Rightarrow> 'm \<Rightarrow> 'm) \<Rightarrow> graph \<Rightarrow> nat \<Rightarrow> 'm \<times> serial_metrics \<Rightarrow> 'm \<times> serial_metrics" where
  "serial_visit exec g n s =
     (let t = g_tasks g ! n in (exec t (fst s), count_task t (snd s)))"

definition run_serial :: "(task \<Rightarrow> 'm \<Rightarrow> 'm) \<Rightarrow> graph \<Rightarrow> 'm \<Rightarrow> 'm \<times> serial_metrics" where
  "run_serial exec g mem =
     drain (graph_consumers g) (serial_visit exec g) (table_deps g)
       (initial_ready (table_deps g)) (mem, serial_metrics0)"

section \<open>The table invariant\<close>

definition graph_edges :: "graph \<Rightarrow> (nat \<times> nat) set" where
  "graph_edges g = edges_of (graph_size g) (graph_consumers g)"

definition graph_sinks :: "graph \<Rightarrow> nat set" where
  "graph_sinks g = {n. n < graph_size g \<and> graph_consumers g n = []}"

definition graph_inv :: "graph \<Rightarrow> bool" where
  "graph_inv g \<longleftrightarrow>
     graph_size g \<le> g_max g
     \<and> (\<forall>p < graph_size g. t_id (g_tasks g ! p) = p \<and> length (graph_consumers g p) \<le> kMaxConsumers
          \<and> (\<forall>c \<in> set (graph_consumers g p). c < graph_size g \<and> c \<noteq> p))
     \<and> (\<forall>c < graph_size g.
          graph_dep_init g c = int (pending_in (graph_size g) (graph_consumers g) {} c))"

interpretation gr: task_graph graph_inv graph_size graph_consumers graph_dep_init
  by unfold_locales (auto simp: graph_inv_def)

lemma gr_deps0 [fl_simps]: "gr.deps0 g = table_deps g"
  by (rule nth_equalityI) (auto simp: gr.deps0_def table_deps_def graph_size_def graph_dep_init_def)

lemma gr_edges [fl_simps]: "gr.edges g = graph_edges g"
  by (simp add: gr.edges_def graph_edges_def)

lemma gr_order: "gr.order g = visit_order (graph_consumers g) (table_deps g)"
  by (simp add: gr.order_def gr_deps0)

lemma graph_create_inv: "graph_inv (graph_create n)"
  by (simp add: graph_inv_def graph_create_def graph_size_def)

lemma graph_add_inv:
  assumes g: "graph_inv g" and a: "graph_add g t = Inr (g', n)"
  shows "graph_inv g' \<and> n = graph_size g \<and> graph_size g' = Suc n"
proof -
  define d where "d = t\<lparr>t_id := graph_size g, t_consumers := [], t_dep_init := 0, t_dep_count := 0,
    t_epoch := 0, t_handoff_ts := 0\<rparr>"
  have d: "t_id d = graph_size g" "t_consumers d = []" "t_dep_init d = 0" by (simp_all add: d_def)
  have g': "g' = g\<lparr>g_tasks := g_tasks g @ [d]\<rparr>" and n: "n = graph_size g"
    and max: "graph_size g < g_max g"
    using a by (auto simp: graph_add_def Let_def d_def split: if_splits)
  have s: "graph_size g' = Suc (graph_size g)" using g' by (simp add: graph_size_def)
  have old: "graph_consumers g' p = graph_consumers g p" "graph_dep_init g' p = graph_dep_init g p"
    "t_id (g_tasks g' ! p) = t_id (g_tasks g ! p)" if "p < graph_size g" for p
    using that g' by (auto simp: graph_consumers_def graph_dep_init_def graph_size_def nth_append)
  have new: "graph_consumers g' (graph_size g) = []" "graph_dep_init g' (graph_size g) = 0"
    "t_id (g_tasks g' ! graph_size g) = graph_size g"
    using g' d by (auto simp: graph_consumers_def graph_dep_init_def graph_size_def)
  have pend: "pending_in (Suc (graph_size g)) (graph_consumers g') {} c
      = pending_in (graph_size g) (graph_consumers g) {} c" for c
  proof -
    have "pending_in (Suc (graph_size g)) (graph_consumers g') {} c
        = pending_in (graph_size g) (graph_consumers g') {} c"
      by (simp add: pending_in_def lessThan_Suc new(1))
    also have "\<dots> = pending_in (graph_size g) (graph_consumers g) {} c"
      by (rule pending_in_cong) (rule old(1))
    finally show ?thesis .
  qed
  have "pending_in (graph_size g) (graph_consumers g) {} (graph_size g) = 0"
    unfolding pending_in_0_iff using g by (fastforce simp: graph_inv_def)
  then have "graph_inv g'"
    using g old new max unfolding graph_inv_def s pend
    by (auto simp: less_Suc_eq g' graph_size_def)
  then show ?thesis using n s by simp
qed

lemma graph_edge_parts:
  assumes e: "graph_edge g p c = Inr g'"
  shows "p < graph_size g" "c < graph_size g" "p \<noteq> c" "graph_size g' = graph_size g"
    "length (graph_consumers g p) < kMaxConsumers" "g_max g' = g_max g"
    "graph_consumers g' = (\<lambda>q. if q = p then graph_consumers g p @ [c] else graph_consumers g q)"
    "\<And>q. q < graph_size g \<Longrightarrow> graph_dep_init g' q = graph_dep_init g q + (if q = c then 1 else 0)"
    "\<And>q. q < graph_size g \<Longrightarrow> t_id (g_tasks g' ! q) = t_id (g_tasks g ! q)"
    "\<not> g_frozen g" "\<not> g_frozen g'"
proof -
  let ?ts = "(g_tasks g)[p := push_consumer c (g_tasks g ! p)]"
  show *: "p < graph_size g" "c < graph_size g" "p \<noteq> c" "\<not> g_frozen g"
    "length (graph_consumers g p) < kMaxConsumers"
    using e by (auto simp: graph_edge_def graph_consumers_def split: if_splits)
  have g': "g' = g\<lparr>g_tasks := ?ts[c := inc_dep_init (?ts ! c)]\<rparr>"
    using e by (auto simp: graph_edge_def Let_def split: if_splits)
  show "graph_size g' = graph_size g" "g_max g' = g_max g" "\<not> g_frozen g'"
    using g' * by (auto simp: graph_size_def)
  show "graph_consumers g' = (\<lambda>q. if q = p then graph_consumers g p @ [c] else graph_consumers g q)"
  proof
    fix q
    show "graph_consumers g' q = (if q = p then graph_consumers g p @ [c] else graph_consumers g q)"
      using * unfolding g' by (cases "q = c"; cases "q = p")
        (auto simp: graph_consumers_def graph_size_def push_consumer_def inc_dep_init_def)
  qed
  fix q assume q: "q < graph_size g"
  show "graph_dep_init g' q = graph_dep_init g q + (if q = c then 1 else 0)"
    "t_id (g_tasks g' ! q) = t_id (g_tasks g ! q)"
    using * q unfolding g' by (cases "q = c"; cases "q = p";
        auto simp: graph_dep_init_def graph_size_def push_consumer_def inc_dep_init_def)+
qed

lemma graph_edge_inv:
  assumes g: "graph_inv g" and e: "graph_edge g p c = Inr g'"
  shows "graph_inv g'"
proof -
  note f = graph_edge_parts [OF e]
  have "pending_in (graph_size g) (graph_consumers g') {} x
      = pending_in (graph_size g) (graph_consumers g) {} x + (if x = c then 1 else 0)" for x
    using pending_in_snoc [OF f(1), of "graph_consumers g" c x] by (simp add: f(7) fun_upd_def)
  then show ?thesis
    using g f(1-3,5,8,9) unfolding graph_inv_def f(4,6) by (auto simp: f(7))
qed

lemma graph_edge_edges:
  "graph_edge g p c = Inr g' \<Longrightarrow> graph_edges g' = insert (p, c) (graph_edges g)"
  using graph_edge_parts [of g p c g'] by (auto simp: graph_edges_def edges_of_def split: if_splits)

section \<open>What \<open>freeze\<close> accepts\<close>

lemma freeze_scan_fold:
  "freeze_scan_of g = fold (freeze_visit g) (gr.order g)
     \<lparr>fz_seen = 0, fz_sinks = 0, fz_terminal = g_terminal g\<rparr>"
  unfolding freeze_scan_of_def gr_order visit_order_def by (rule drain_fold)

lemma fold_freeze_visit:
  "fold (freeze_visit g) xs s =
     \<lparr>fz_seen = fz_seen s + length xs,
      fz_sinks = fz_sinks s + length (filter (\<lambda>n. graph_consumers g n = []) xs),
      fz_terminal = last (fz_terminal s # filter (\<lambda>n. graph_consumers g n = []) xs)\<rparr>"
  by (induction xs arbitrary: s) (auto simp: freeze_visit_def Let_def)

lemma first_error_None_iff: "first_error ts = None \<longleftrightarrow> (\<forall>t \<in> set ts. task_check t = None)"
  by (induction ts) (auto split: option.splits)

lemma freeze_scan_acyclic:
  assumes g: "graph_inv g" and ac: "acyclic (graph_edges g)"
  shows "fz_sinks (freeze_scan_of g) = card (graph_sinks g)"
    and "graph_sinks g = {s} \<Longrightarrow> fz_terminal (freeze_scan_of g) = s"
proof -
  let ?f = "filter (\<lambda>n. graph_consumers g n = []) (gr.order g)"
  have "distinct (gr.order g)" by (rule gr.order_distinct [OF g])
  moreover have "set (gr.order g) = {..<graph_size g}"
    using gr.order_set [OF g] ac by (simp add: gr_edges)
  ultimately have f: "distinct ?f" "set ?f = graph_sinks g" by (auto simp: graph_sinks_def)
  then show "fz_sinks (freeze_scan_of g) = card (graph_sinks g)"
    using distinct_card [OF f(1)] by (simp add: freeze_scan_fold fold_freeze_visit)
  assume s: "graph_sinks g = {s}"
  then have "?f \<noteq> []" by (metis f(2) list.set(1) insert_not_empty)
  then have "last ?f \<in> {s}" using f s by (metis last_in_set)
  then show "fz_terminal (freeze_scan_of g) = s"
    using \<open>?f \<noteq> []\<close> by (simp add: freeze_scan_fold fold_freeze_visit)
qed

lemma freeze_scan_seen:
  "graph_inv g \<Longrightarrow> fz_seen (freeze_scan_of g) = graph_size g \<longleftrightarrow> acyclic (graph_edges g)"
  using gr.order_complete_iff_acyclic by (simp add: freeze_scan_fold fold_freeze_visit gr_edges)

lemma card_1_the_elem: "card A = 1 \<Longrightarrow> A = {the_elem A}"
  by (metis card_1_singletonE the_elem_eq)

text \<open>Any sequence of builder calls, stopping at the first \<open>die\<close>.\<close>

datatype build_op = Add task | Edge nat nat

fun graph_build :: "graph \<Rightarrow> build_op list \<Rightarrow> graph_error + graph" where
  "graph_build g [] = Inr g"
| "graph_build g (Add t # ops) =
     (case graph_add g t of Inl e \<Rightarrow> Inl e | Inr (g', n) \<Rightarrow> graph_build g' ops)"
| "graph_build g (Edge p c # ops) =
     (case graph_edge g p c of Inl e \<Rightarrow> Inl e | Inr g' \<Rightarrow> graph_build g' ops)"

lemma graph_build_inv: "graph_build g ops = Inr g' \<Longrightarrow> graph_inv g \<Longrightarrow> graph_inv g'"
  by (induction g ops rule: graph_build.induct)
    (auto split: sum.splits dest: graph_add_inv graph_edge_inv)

text \<open>C1: However a graph is built with \<open>add\<close> and \<open>edge\<close>, the table invariant holds: ids are
  positions, at most \<open>kMaxConsumers\<close> consumers per task, all of them other tasks of the table,
  and \<open>dep_init\<close> of every task is the number of edges into it.\<close>

theorem build_keeps_invariant:
  "graph_build (graph_create max_tasks) ops = Inr g \<Longrightarrow> graph_inv g"
  by (rule graph_build_inv [OF _ graph_create_inv])

definition demo_ops :: "build_op list" where
  "demo_ops = [Add (task0\<lparr>t_kind := MERGE\<rparr>), Add (task0\<lparr>t_kind := MERGE\<rparr>), Add (task0\<lparr>t_kind := SIGNAL\<rparr>),
     Edge 0 1, Edge 0 2, Edge 1 2]"

definition demo_graph :: graph where
  "demo_graph = (case graph_build (graph_create 4) demo_ops of Inr g \<Rightarrow> g | Inl _ \<Rightarrow> graph_create 0)"

lemma demo_build: "graph_build (graph_create 4) demo_ops = Inr demo_graph"
  unfolding demo_graph_def demo_ops_def by code_simp

theorem build_keeps_invariant_witness: "graph_inv demo_graph"
  by (rule build_keeps_invariant [OF demo_build])

lemma graph_freeze_cases:
  assumes g: "graph_inv g" and nf: "\<not> g_frozen g"
  shows "graph_freeze g =
    (if \<not> acyclic (graph_edges g) then Inl CycleInGraph
     else if card (graph_sinks g) \<noteq> 1 then Inl NotOneSink
     else if t_kind (g_tasks g ! the_elem (graph_sinks g)) \<noteq> SIGNAL then Inl TerminalNotSignal
     else (case first_error (g_tasks g) of Some e \<Rightarrow> Inl e
           | None \<Rightarrow> Inr (g\<lparr>g_terminal := the_elem (graph_sinks g), g_frozen := True\<rparr>)))"
proof (cases "acyclic (graph_edges g) \<and> card (graph_sinks g) = 1")
  case True
  note ac = conjunct1 [OF True] and one = card_1_the_elem [OF conjunct2 [OF True]]
  show ?thesis
    using True nf freeze_scan_seen [OF g] freeze_scan_acyclic(1) [OF g ac]
      freeze_scan_acyclic(2) [OF g ac one]
    by (auto simp: graph_freeze_def Let_def split: option.splits)
next
  case False
  then show ?thesis
    using nf freeze_scan_seen [OF g] freeze_scan_acyclic(1) [OF g]
    by (auto simp: graph_freeze_def Let_def)
qed

text \<open>C2: \<open>freeze\<close> decides exactly what it documents: on a graph still under construction it
  dies with the cycle error iff the edges have a cycle, then with the sink error iff the number
  of tasks without consumers is not one, then iff that task is no \<open>SIGNAL\<close>, then with the first
  failing per-task check; otherwise it records the unique sink as the terminal.\<close>

theorem graph_freeze_spec:
  assumes g: "graph_inv g" and nf: "\<not> g_frozen g"
  shows "graph_freeze g =
    (if \<not> acyclic (graph_edges g) then Inl CycleInGraph
     else if card (graph_sinks g) \<noteq> 1 then Inl NotOneSink
     else if t_kind (g_tasks g ! the_elem (graph_sinks g)) \<noteq> SIGNAL then Inl TerminalNotSignal
     else (case first_error (g_tasks g) of Some e \<Rightarrow> Inl e
           | None \<Rightarrow> Inr (g\<lparr>g_terminal := the_elem (graph_sinks g), g_frozen := True\<rparr>)))"
  by (rule graph_freeze_cases [OF assms])

lemma demo_graph_inv: "graph_inv demo_graph"
  by (rule graph_build_inv [OF demo_build graph_create_inv])

theorem graph_freeze_spec_witness:
  "graph_freeze demo_graph = Inr (demo_graph\<lparr>g_terminal := 2, g_frozen := True\<rparr>)
    \<and> acyclic (graph_edges demo_graph)"
proof -
  have nf: "\<not> g_frozen demo_graph" by code_simp
  have r: "graph_freeze demo_graph = Inr (demo_graph\<lparr>g_terminal := 2, g_frozen := True\<rparr>)"
    by code_simp
  show ?thesis using graph_freeze_spec [OF demo_graph_inv nf] r by (auto split: if_splits)
qed

section \<open>What \<open>run_serial\<close> does\<close>

lemma run_serial_fold:
  "run_serial exec g mem = fold (serial_visit exec g) (gr.order g) (mem, serial_metrics0)"
  unfolding run_serial_def gr_order visit_order_def by (rule drain_fold)

lemma fold_serial_visit:
  "fold (serial_visit exec g) xs s =
     (fold (\<lambda>n. exec (g_tasks g ! n)) xs (fst s), fold (\<lambda>n. count_task (g_tasks g ! n)) xs (snd s))"
  by (induction xs arbitrary: s) (auto simp: serial_visit_def Let_def)

lemma m_tiles_fold:
  "m_tiles (fold (\<lambda>n. count_task (g_tasks g ! n)) xs m) = m_tiles m + of_nat (length xs)"
  by (induction xs arbitrary: m) (auto simp: count_task_def Let_def)

lemma m_bytes_fold:
  "m_bytes (fold (\<lambda>n. count_task (g_tasks g ! n)) xs m) =
     m_bytes m + (\<Sum>n\<leftarrow>xs. if is_dot (t_kind (g_tasks g ! n)) then t_w_bytes (g_tasks g ! n) else 0)"
  by (induction xs arbitrary: m) (auto simp: count_task_def Let_def add.assoc)

text \<open>A frozen graph: built, then accepted by \<open>freeze\<close>.\<close>

definition frozen_graph :: "graph \<Rightarrow> bool" where
  "frozen_graph g \<longleftrightarrow> graph_inv g \<and> acyclic (graph_edges g) \<and> graph_sinks g = {g_terminal g}
     \<and> t_kind (g_tasks g ! g_terminal g) = SIGNAL \<and> (\<forall>t \<in> set (g_tasks g). task_check t = None)
     \<and> g_frozen g"

lemma freeze_tables [simp]:
  "graph_size (g\<lparr>g_terminal := a, g_frozen := b\<rparr>) = graph_size g"
  "graph_consumers (g\<lparr>g_terminal := a, g_frozen := b\<rparr>) = graph_consumers g"
  by (simp_all add: graph_size_def graph_consumers_def fun_eq_iff)

lemma freeze_fields [simp]:
  "graph_edges (g\<lparr>g_terminal := a, g_frozen := b\<rparr>) = graph_edges g"
  "graph_sinks (g\<lparr>g_terminal := a, g_frozen := b\<rparr>) = graph_sinks g"
  "graph_inv (g\<lparr>g_terminal := a, g_frozen := b\<rparr>) = graph_inv g"
  by (simp_all add: graph_edges_def graph_sinks_def graph_inv_def graph_dep_init_def)

lemma freeze_gives_frozen:
  assumes g: "graph_inv g" "\<not> g_frozen g" and f: "graph_freeze g = Inr g'"
  shows "frozen_graph g' \<and> g_tasks g' = g_tasks g"
proof -
  have c: "acyclic (graph_edges g)" "card (graph_sinks g) = 1"
    "t_kind (g_tasks g ! the_elem (graph_sinks g)) = SIGNAL" "first_error (g_tasks g) = None"
    "g' = g\<lparr>g_terminal := the_elem (graph_sinks g), g_frozen := True\<rparr>"
    using f unfolding graph_freeze_cases [OF g] by (auto split: if_splits option.splits)
  then show ?thesis
    using g card_1_the_elem [OF c(2)] by (auto simp: frozen_graph_def first_error_None_iff)
qed

lemma frozen_terminal_lt: "frozen_graph g \<Longrightarrow> g_terminal g < graph_size g"
  by (auto simp: frozen_graph_def graph_sinks_def set_eq_iff)

lemma frozen_order:
  assumes "frozen_graph g"
  shows "distinct (gr.order g)" "set (gr.order g) = {..<graph_size g}"
    "topo_list (graph_edges g) (gr.order g)" "gr.order g \<noteq> []" "last (gr.order g) = g_terminal g"
proof -
  have g: "graph_inv g" and ac: "acyclic (gr.edges g)" and s: "graph_sinks g = {g_terminal g}"
    using assms by (auto simp: frozen_graph_def gr_edges)
  have "0 < graph_size g" using frozen_terminal_lt [OF assms] by simp
  from gr.order_last_is_sink [OF g ac this]
  have l: "gr.order g \<noteq> []" "graph_consumers g (last (gr.order g)) = []" by auto
  then have "last (gr.order g) \<in> graph_sinks g"
    using gr.order_set [OF g ac] by (auto simp: graph_sinks_def dest: last_in_set)
  then show "last (gr.order g) = g_terminal g" using s by simp
  show "distinct (gr.order g)" "set (gr.order g) = {..<graph_size g}"
    "topo_list (graph_edges g) (gr.order g)" "gr.order g \<noteq> []"
    using gr.order_distinct [OF g] gr.order_set [OF g ac] gr.order_topo [OF g] l
    by (simp_all add: gr_edges)
qed

text \<open>C3: On every graph \<open>freeze\<close> accepted, \<open>run_serial\<close> executes every task exactly once, each
  after all its producers and the terminal last, and counts one tile per task.\<close>

theorem run_serial_topological:
  assumes "graph_inv g" and "\<not> g_frozen g" and "graph_freeze g = Inr g'"
  shows "\<exists>xs. distinct xs \<and> set xs = {..<graph_size g'} \<and> topo_list (graph_edges g') xs
    \<and> xs \<noteq> [] \<and> last xs = g_terminal g'
    \<and> fst (run_serial exec g' mem) = fold (\<lambda>n. exec (g_tasks g' ! n)) xs mem
    \<and> m_tiles (snd (run_serial exec g' mem)) = of_nat (graph_size g')"
proof (intro exI conjI)
  have f: "frozen_graph g'" using freeze_gives_frozen [OF assms] by simp
  show "distinct (gr.order g')" "set (gr.order g') = {..<graph_size g'}"
    "topo_list (graph_edges g') (gr.order g')" "gr.order g' \<noteq> []" "last (gr.order g') = g_terminal g'"
    by (rule frozen_order [OF f])+
  have "length (gr.order g') = graph_size g'"
    using distinct_card [OF frozen_order(1) [OF f]] frozen_order(2) [OF f] by simp
  then show "m_tiles (snd (run_serial exec g' mem)) = of_nat (graph_size g')"
    by (simp add: run_serial_fold fold_serial_visit m_tiles_fold serial_metrics0_def)
qed (simp add: run_serial_fold fold_serial_visit)

theorem run_serial_topological_witness:
  "\<exists>xs. distinct xs \<and> set xs = {..<3} \<and> xs \<noteq> [] \<and> last xs = 2
    \<and> fst (run_serial (\<lambda>t m. m @ [t_id t]) (demo_graph\<lparr>g_terminal := 2, g_frozen := True\<rparr>) []) =
      fold (\<lambda>n m. m @ [t_id (g_tasks demo_graph ! n)]) xs []"
proof -
  have nf: "\<not> g_frozen demo_graph" by code_simp
  have r: "graph_freeze demo_graph = Inr (demo_graph\<lparr>g_terminal := 2, g_frozen := True\<rparr>)"
    by code_simp
  have n: "graph_size demo_graph = 3" by code_simp
  show ?thesis
    using run_serial_topological [OF demo_graph_inv nf r, of "\<lambda>t m. m @ [t_id t]" "[]"] n by auto
qed

end
