(* ===== verification/FL_Routing.thy ===== *)
theory FL_Routing
  imports FL_Graph
begin

text \<open>
  Which queue a ready task goes to (\<open>fl_task_queue\<close>, \<open>fl_publish\<close> of
  \<open>src/runtime/runtime_internal.h\<close>), which queues an executor looks at and in which order
  (\<open>RuntimeImpl::worker\<close> of \<open>src/runtime/runtime.cpp\<close>, the kernel \<open>executor\<close> of
  \<open>src/runtime/gpu_exec.cu\<close>), how the configuration fields they read are set up by the
  constructor and by \<open>start\<close>, and the handoff clock of the metrics.
\<close>

unbundle bit_operations_syntax

section \<open>Configuration\<close>

definition kMaxGpuBlocks :: nat where "kMaxGpuBlocks = 64"
definition kMaxHandoff :: nat where "kMaxHandoff = 8192"
definition kGpuMaxBatch :: nat where "kGpuMaxBatch = 16"
definition kQueueCapacity :: nat where "kQueueCapacity = 65536"

text \<open>The fields of \<open>RuntimeConfig\<close> that steer the executors.\<close>

record runtime_config =
  cf_cpu_threads :: nat
  cf_gpu_blocks :: int
  cf_gpu_threads :: int
  cf_gpu_enabled :: bool
  cf_collect_handoff :: bool
  cf_fast_kernels :: bool
  cf_gpu_batch :: int
  cf_int8_dots :: bool

text \<open>
  The environment overrides, as the numbers the code parses (\<open>None\<close>: variable unset).
  A flag read with \<open>atoi(e) ? 1 : 0\<close> is on when set to a nonzero number.
\<close>

record runtime_env =
  ev_fence_light :: "int option"
  ev_i8_gpu_mask :: "u32 option"
  ev_i8_cpu_mask :: "u32 option"
  ev_i8k_gpu_mask :: "u32 option"
  ev_i8k_cpu_mask :: "u32 option"
  ev_no_steal :: "int option"
  ev_perblock_q :: "int option"
  ev_perblock_chunk :: "int option"
  ev_gpu_blocks :: "int option"
  ev_gpu_threads :: "int option"

definition env_flag :: "int option \<Rightarrow> bool" where
  "env_flag e = (case e of None \<Rightarrow> False | Some v \<Rightarrow> v \<noteq> 0)"

text \<open>The configuration mirror in \<open>RtShared\<close> that both engines read.\<close>

record shared_config =
  sc_cpu_threads :: nat
  sc_gpu_enabled :: bool
  sc_gpu_blocks :: nat
  sc_collect_handoff :: bool
  sc_fast_kernels :: bool
  sc_fence_light :: bool
  sc_gpu_batch :: nat
  sc_int8_dots :: bool
  sc_i8_gpu_mask :: u32
  sc_i8_cpu_mask :: u32
  sc_i8k_gpu_mask :: u32
  sc_i8k_cpu_mask :: u32
  sc_no_steal :: bool
  sc_perblock_q :: bool
  sc_perblock_chunk :: nat

text \<open>The per-format mask bits \<open>1u << (int)fmt\<close> and the default masks of \<open>kernels.h\<close>.\<close>

definition fmt_bit :: "fmt \<Rightarrow> u32" where
  "fmt_bit f = push_bit (fmt_code f) 1"

definition kI8MaskCpuDefault :: u32 where
  "kI8MaskCpuDefault = fmt_bit Q8_0 OR fmt_bit Q5_0 OR fmt_bit Q4_K OR fmt_bit Q6_K"

definition kI8MaskGpuDefault :: u32 where
  "kI8MaskGpuDefault = fmt_bit Q8_0 OR fmt_bit Q5_0 OR fmt_bit Q4_K OR fmt_bit IQ2_XXS OR fmt_bit IQ3_XXS"

definition kI8KMaskCpuDefault :: u32 where
  "kI8KMaskCpuDefault = fmt_bit Q4_K OR fmt_bit Q6_K"

definition kI8KMaskGpuDefault :: u32 where
  "kI8KMaskGpuDefault = fmt_bit Q4_K"

definition fmt_masked :: "u32 \<Rightarrow> fmt \<Rightarrow> bool" where
  "fmt_masked m f \<longleftrightarrow> drop_bit (fmt_code f) m AND 1 \<noteq> 0"

definition codebook_bits :: u32 where
  "codebook_bits = fmt_bit IQ2_XXS OR fmt_bit IQ3_XXS"

text \<open>
  The constructor \<open>RuntimeImpl\<close>; \<open>cuda\<close> says whether the build has \<open>FASTLLM_CUDA\<close>. The
  zeroed \<open>RtShared\<close> has \<open>gpu_blocks = 0\<close> until \<open>start\<close> launches the grid.
\<close>

definition runtime_setup :: "bool \<Rightarrow> runtime_config \<Rightarrow> runtime_env \<Rightarrow> shared_config" where
  "runtime_setup cuda cfg env =
    (let gpu = cf_gpu_enabled cfg \<and> cuda;
         gm = (case ev_i8_gpu_mask env of None \<Rightarrow> kI8MaskGpuDefault | Some m \<Rightarrow> m);
         cm = (case ev_i8_cpu_mask env of None \<Rightarrow> kI8MaskCpuDefault | Some m \<Rightarrow> m) AND NOT codebook_bits;
         gk = (case ev_i8k_gpu_mask env of None \<Rightarrow> kI8KMaskGpuDefault | Some m \<Rightarrow> m);
         ck = (case ev_i8k_cpu_mask env of None \<Rightarrow> kI8KMaskCpuDefault | Some m \<Rightarrow> m)
     in \<lparr>sc_cpu_threads = cf_cpu_threads cfg, sc_gpu_enabled = gpu, sc_gpu_blocks = 0,
         sc_collect_handoff = cf_collect_handoff cfg, sc_fast_kernels = cf_fast_kernels cfg,
         sc_fence_light = env_flag (ev_fence_light env),
         sc_gpu_batch = nat (max 1 (min (cf_gpu_batch cfg) (int kGpuMaxBatch))),
         sc_int8_dots = cf_int8_dots cfg,
         sc_i8_gpu_mask = (if cf_int8_dots cfg then gm else 0),
         sc_i8_cpu_mask = (if cf_int8_dots cfg then cm else 0),
         sc_i8k_gpu_mask = (if cf_int8_dots cfg then gk else 0),
         sc_i8k_cpu_mask = (if cf_int8_dots cfg then ck else 0),
         sc_no_steal = env_flag (ev_no_steal env),
         sc_perblock_q = (env_flag (ev_perblock_q env) \<and> gpu),
         sc_perblock_chunk = (case ev_perblock_chunk env of None \<Rightarrow> 1
           | Some v \<Rightarrow> if 0 < v then nat (v mod 4294967296) else 1)\<rparr>)"

text \<open>
  The launch geometry: \<open>start\<close> chooses blocks and threads, \<open>gpu_start\<close> halves the width while
  the driver reports no resident block (\<open>resident\<close>, a driver query, is a parameter) and clamps
  the grid to what the driver can keep resident and to \<open>kMaxGpuBlocks\<close>.
\<close>

definition launch_blocks :: "runtime_config \<Rightarrow> runtime_env \<Rightarrow> int \<Rightarrow> int" where
  "launch_blocks cfg env default_blocks =
    (let b0 = (if 0 < cf_gpu_blocks cfg then cf_gpu_blocks cfg else default_blocks);
         b1 = (case ev_gpu_blocks env of None \<Rightarrow> b0 | Some v \<Rightarrow> if 0 < v then v else b0)
     in min b1 (int kMaxGpuBlocks))"

definition launch_threads :: "runtime_config \<Rightarrow> runtime_env \<Rightarrow> int" where
  "launch_threads cfg env =
    (let t0 = cf_gpu_threads cfg;
         t1 = (case ev_gpu_threads env of None \<Rightarrow> t0 | Some v \<Rightarrow> if 0 < v then v else t0);
         t2 = (if t1 < 256 then 256 else t1);
         t3 = (if 1024 < t2 then 1024 else t2)
     in t3 AND NOT 31)"

function gpu_fallback :: "(int \<Rightarrow> int) \<Rightarrow> int \<Rightarrow> int" where
  "gpu_fallback resident threads =
     (if resident threads \<le> 0 \<and> 256 < threads then gpu_fallback resident (threads div 2) else threads)"
  by pat_completeness auto
termination by (relation "measure (\<lambda>(_, t). nat t)") auto

declare gpu_fallback.simps [simp del]

definition gpu_start :: "(int \<Rightarrow> int) \<Rightarrow> int \<Rightarrow> int \<Rightarrow> int \<times> int" where
  "gpu_start resident blocks threads =
    (let th = gpu_fallback resident threads; cap = resident th;
         b1 = (if 0 < cap \<and> cap < blocks then cap else blocks);
         b2 = (if int kMaxGpuBlocks < b1 then int kMaxGpuBlocks else b1)
     in (b2, th))"

section \<open>Routing\<close>

definition fl_task_queue :: "task \<Rightarrow> bool \<Rightarrow> nat" where
  "fl_task_queue t gpu_enabled =
    (if is_decode_op (t_kind t) then 2
     else if fl_fmt_is_codebook (t_fmt t) then (if gpu_enabled then 3 else 1)
     else if t_affinity t = GPU then 0
     else if t_affinity t = CPU then 1
     else if gpu_enabled then 0 else 1)"

text \<open>The four shared queues and the per-block rings.\<close>

datatype qid = Q nat | Ring nat

definition publish_queue :: "shared_config \<Rightarrow> task \<Rightarrow> nat \<Rightarrow> bool \<Rightarrow> qid" where
  "publish_queue sc t tid from_gpu =
    (let cq = fl_task_queue t (from_gpu \<or> sc_gpu_enabled sc);
         nb = (if sc_perblock_q sc then sc_gpu_blocks sc else 0);
         ch = (if sc_perblock_chunk sc = 0 then 1 else sc_perblock_chunk sc)
     in if cq = 0 \<and> nb \<noteq> 0 then Ring (tid div ch mod nb) else Q cq)"

datatype agent = Cpu nat | Gpu nat

text \<open>The queues an executor tries, in order, when it looks for work; \<open>rr\<close> is its rotating cursor.\<close>

definition probe_list :: "shared_config \<Rightarrow> agent \<Rightarrow> nat \<Rightarrow> qid list" where
  "probe_list sc a rr =
    (case a of
       Cpu i \<Rightarrow> [Q 2, Q 1] @
         (if sc_no_steal sc then []
          else if sc_perblock_q sc then map (\<lambda>k. Ring ((rr + k) mod sc_gpu_blocks sc)) [0..<sc_gpu_blocks sc]
          else [Q 0])
     | Gpu b \<Rightarrow> [Q 3, if sc_perblock_q sc then Ring b else Q 0] @
         (if sc_perblock_q sc \<and> \<not> sc_no_steal sc
          then map (\<lambda>i. Ring ((rr + i) mod sc_gpu_blocks sc)) [1..<sc_gpu_blocks sc] else []) @
         (if sc_no_steal sc then [] else [Q 1]))"

text \<open>The cursor after a claim: a CPU worker moves past the ring it robbed, a block stays on it.\<close>

definition next_cursor :: "agent \<Rightarrow> qid \<Rightarrow> nat \<Rightarrow> nat" where
  "next_cursor a q rr =
    (case (a, q) of
       (Cpu i, Ring b) \<Rightarrow> b + 1
     | (Gpu c, Ring b) \<Rightarrow> if b = c then rr else b
     | _ \<Rightarrow> rr)"

definition executors :: "shared_config \<Rightarrow> agent set" where
  "executors sc = Cpu ` {..<sc_cpu_threads sc} \<union> (if sc_gpu_enabled sc then Gpu ` {..<sc_gpu_blocks sc} else {})"

section \<open>The handoff clock\<close>

definition kTsGpuBit :: u64 where "kTsGpuBit = 1"

text \<open>The stamp a publisher writes, if any: only for publishes that cross the engines.\<close>

definition publish_stamp :: "shared_config \<Rightarrow> task \<Rightarrow> nat \<Rightarrow> bool \<Rightarrow> u64 \<Rightarrow> u64 option" where
  "publish_stamp sc t tid from_gpu now =
    (let cq = fl_task_queue t (from_gpu \<or> sc_gpu_enabled sc) in
     if \<not> sc_collect_handoff sc then None
     else case publish_queue sc t tid from_gpu of
       Ring r \<Rightarrow> if \<not> from_gpu \<and> sc_gpu_enabled sc then Some (now AND NOT kTsGpuBit) else None
     | Q q \<Rightarrow> if from_gpu then (if cq \<noteq> 0 then Some (now OR kTsGpuBit) else None)
              else if cq = 0 \<and> sc_gpu_enabled sc then Some (now AND NOT kTsGpuBit) else None)"

definition to_cpu_domain :: "u64 \<Rightarrow> u64 \<Rightarrow> u64" where
  "to_cpu_domain offset ts =
    (if ts AND kTsGpuBit \<noteq> 0 then (ts AND NOT kTsGpuBit) - offset else ts)"

text \<open>\<open>record_handoff\<close> on the sample count and the sample array.\<close>

definition record_handoff :: "u64 \<Rightarrow> u64 \<Rightarrow> u64 \<Rightarrow> nat \<times> u64 list \<Rightarrow> nat \<times> u64 list" where
  "record_handoff offset enable_ts claim_ts s =
    (let ec = to_cpu_domain offset enable_ts; idx = fst s in
     if claim_ts \<le> ec then s
     else (idx + 1, if idx < kMaxHandoff then (snd s)[idx := claim_ts - ec] else snd s))"

section \<open>Lemmas\<close>

lemma bit_fmt_bit: "bit (fmt_bit f) n \<longleftrightarrow> n = fmt_code f"
proof -
  have "fmt_code f < 32" by (cases f) simp_all
  then show ?thesis unfolding fmt_bit_def bit_push_bit_iff by (auto simp: bit_1_iff)
qed

lemma fmt_masked_iff: "fmt_masked m f \<longleftrightarrow> bit m (fmt_code f)"
  by (simp add: fmt_masked_def bit_iff_odd_drop_bit and_one_eq mod2_eq_if)

text \<open>Whatever the configuration and the environment say, no codebook format is ever enabled in
  the CPU int8 mask, and without \<open>int8_dots\<close> no format is enabled in any mask.\<close>

theorem cpu_mask_never_codebook:
  "(fl_fmt_is_codebook f \<longrightarrow> \<not> fmt_masked (sc_i8_cpu_mask (runtime_setup cuda cfg env)) f)
   \<and> (\<not> cf_int8_dots cfg \<longrightarrow> \<not> fmt_masked (sc_i8_cpu_mask (runtime_setup cuda cfg env)) f
        \<and> \<not> fmt_masked (sc_i8k_cpu_mask (runtime_setup cuda cfg env)) f
        \<and> \<not> fmt_masked (sc_i8_gpu_mask (runtime_setup cuda cfg env)) f
        \<and> \<not> fmt_masked (sc_i8k_gpu_mask (runtime_setup cuda cfg env)) f)"
proof (intro conjI impI)
  assume "fl_fmt_is_codebook f"
  then have "bit codebook_bits (fmt_code f)"
    by (cases f) (simp_all add: codebook_bits_def bit_or_iff bit_fmt_bit)
  then show "\<not> fmt_masked (sc_i8_cpu_mask (runtime_setup cuda cfg env)) f"
    by (simp add: runtime_setup_def Let_def fmt_masked_iff bit_and_iff bit_not_iff)
qed (simp_all add: runtime_setup_def Let_def fmt_masked_iff)

text \<open>
  What the configuration must be for every queue to have a consumer: a worker pool, a launched
  grid when the GPU is enabled, and no stealing ban without a GPU.
\<close>

definition routing_ok :: "shared_config \<Rightarrow> bool" where
  "routing_ok sc \<longleftrightarrow> 0 < sc_cpu_threads sc
     \<and> (if sc_gpu_enabled sc then 0 < sc_gpu_blocks sc else \<not> sc_no_steal sc \<and> \<not> sc_perblock_q sc)"

lemma fl_task_queue_cases: "fl_task_queue t gpu \<in> {0, 1, 2, 3}"
  by (simp add: fl_task_queue_def)

lemma fl_task_queue_3: "fl_task_queue t gpu = 3 \<Longrightarrow> gpu"
  by (simp add: fl_task_queue_def split: if_splits)

lemma publish_queue_cases:
  fixes t tid from_gpu sc
  defines "cq \<equiv> fl_task_queue t (from_gpu \<or> sc_gpu_enabled sc)"
  obtains "publish_queue sc t tid from_gpu = Q cq" "cq \<noteq> 0 \<or> \<not> sc_perblock_q sc \<or> sc_gpu_blocks sc = 0"
  | b where "publish_queue sc t tid from_gpu = Ring b" "b < sc_gpu_blocks sc" "sc_perblock_q sc" "cq = 0"
proof (cases "cq = 0 \<and> sc_perblock_q sc \<and> sc_gpu_blocks sc \<noteq> 0")
  case True
  show thesis
    by (rule that(2) [of "tid div (if sc_perblock_chunk sc = 0 then 1 else sc_perblock_chunk sc) mod sc_gpu_blocks sc"])
      (use True in \<open>simp_all add: publish_queue_def Let_def cq_def [symmetric]\<close>)
next
  case False
  show thesis by (rule that(1)) (use False in \<open>auto simp: publish_queue_def Let_def cq_def [symmetric]\<close>)
qed

lemma queue_has_consumer:
  assumes "routing_ok sc" "from_gpu \<longrightarrow> sc_gpu_enabled sc"
  shows "\<exists>a \<in> executors sc. \<forall>rr. publish_queue sc t tid from_gpu \<in> set (probe_list sc a rr)"
proof -
  let ?cq = "fl_task_queue t (from_gpu \<or> sc_gpu_enabled sc)" and ?q = "publish_queue sc t tid from_gpu"
  have c0: "Cpu 0 \<in> executors sc" using assms(1) by (simp add: routing_ok_def executors_def)
  show ?thesis
  proof (cases rule: publish_queue_cases [of sc t tid from_gpu])
    case 1
    consider "?cq = 1 \<or> ?cq = 2" | "?cq = 3" | "?cq = 0"
      using fl_task_queue_cases [of t "from_gpu \<or> sc_gpu_enabled sc"] by auto
    then show ?thesis
    proof cases
      case a: 1
      then show ?thesis by (intro bexI [OF _ c0]) (auto simp: probe_list_def 1)
    next
      case a: 2
      then have "sc_gpu_enabled sc" using fl_task_queue_3 assms(2) by blast
      then have "Gpu 0 \<in> executors sc" using assms(1) by (simp add: routing_ok_def executors_def)
      then show ?thesis by (rule bexI [rotated]) (simp add: probe_list_def 1 a)
    next
      case a: 3
      show ?thesis
      proof (cases "sc_gpu_enabled sc")
        case True
        then have "Gpu 0 \<in> executors sc" "\<not> sc_perblock_q sc"
          using assms(1) 1(2) a by (auto simp: routing_ok_def executors_def)
        then show ?thesis by (intro bexI [of _ "Gpu 0"]) (simp_all add: probe_list_def 1 a)
      next
        case False
        then have "\<not> sc_no_steal sc" "\<not> sc_perblock_q sc" using assms(1) by (simp_all add: routing_ok_def)
        then show ?thesis by (intro bexI [OF _ c0]) (simp add: probe_list_def 1 a)
      qed
    qed
  next
    case (2 b)
    then have "sc_gpu_enabled sc" using assms(1) by (auto simp: routing_ok_def split: if_splits)
    then have "Gpu b \<in> executors sc" using 2 by (simp add: executors_def)
    then show ?thesis using 2 by (intro bexI [of _ "Gpu b"]) (simp_all add: probe_list_def)
  qed
qed

text \<open>Under such a configuration, the queue every publisher chooses for a task is looked at by
  some executor, whatever its rotating cursor: no published task is orphaned.\<close>

theorem published_task_served:
  assumes "routing_ok sc" "from_gpu \<longrightarrow> sc_gpu_enabled sc"
  shows "\<exists>a \<in> executors sc. \<forall>rr. publish_queue sc t tid from_gpu \<in> set (probe_list sc a rr)"
  using assms by (rule queue_has_consumer)

text \<open>The width fallback terminates, and the launched grid never exceeds the request, the 64
  per-block slots or, once a width fits, what the driver can keep resident.\<close>

theorem gpu_start_shape:
  assumes "gpu_start resident blocks threads = (b, th)"
  shows "b \<le> blocks \<and> b \<le> int kMaxGpuBlocks \<and> (0 < resident th \<longrightarrow> b \<le> resident th)
    \<and> (0 < resident th \<or> th \<le> 256) \<and> (\<exists>k. th = threads div 2 ^ k)"
proof -
  have f: "(0 < resident (gpu_fallback resident t) \<or> gpu_fallback resident t \<le> 256)
    \<and> (\<exists>k. gpu_fallback resident t = t div 2 ^ k)" for t
  proof (induction resident t rule: gpu_fallback.induct)
    case (1 resident t)
    show ?case
    proof (cases "resident t \<le> 0 \<and> 256 < t")
      case True
      have e: "gpu_fallback resident t = gpu_fallback resident (t div 2)"
        using True by (subst gpu_fallback.simps) simp
      obtain k where "gpu_fallback resident (t div 2) = t div 2 div 2 ^ k" using 1 True by blast
      then have "gpu_fallback resident t = t div 2 ^ Suc k" by (simp add: e zdiv_zmult2_eq)
      moreover have "0 < resident (gpu_fallback resident t) \<or> gpu_fallback resident t \<le> 256"
        unfolding e using 1 True by blast
      ultimately show ?thesis by blast
    next
      case False
      then have "gpu_fallback resident t = t" by (subst gpu_fallback.simps) auto
      then show ?thesis using False by (metis div_by_1 not_less power_0)
    qed
  qed
  have th: "th = gpu_fallback resident threads" using assms by (auto simp: gpu_start_def Let_def)
  show ?thesis
    using assms f [of threads] unfolding th [symmetric] by (auto simp: gpu_start_def Let_def th [symmetric])
qed

text \<open>A stamp written by a publisher, read back in the CPU clock domain, is the publisher's
  time in that domain, to the even nanosecond.\<close>

theorem publish_stamp_domain:
  assumes "publish_stamp sc t tid from_gpu now = Some ts"
  shows "to_cpu_domain offset ts =
    (if from_gpu then (now AND NOT kTsGpuBit) - offset else now AND NOT kTsGpuBit)"
proof -
  have b: "(x AND kTsGpuBit \<noteq> 0) \<longleftrightarrow> bit x 0" for x :: u64
    by (simp add: kTsGpuBit_def and_one_eq bit_0 mod2_eq_if)
  have c: "(now OR kTsGpuBit) AND NOT kTsGpuBit = now AND NOT kTsGpuBit"
    by (rule bit_word_eqI) (auto simp: bit_simps)
  have "\<not> bit (now AND NOT kTsGpuBit) 0" "bit (now OR kTsGpuBit) 0"
    by (simp_all add: bit_and_iff bit_or_iff bit_not_iff kTsGpuBit_def bit_1_iff)
  then show ?thesis
    using assms by (auto simp: publish_stamp_def to_cpu_domain_def b c Let_def split: if_splits qid.splits)
qed

section \<open>Witnesses\<close>

definition default_config :: runtime_config where
  "default_config = \<lparr>cf_cpu_threads = 12, cf_gpu_blocks = 0, cf_gpu_threads = 1024, cf_gpu_enabled = True,
     cf_collect_handoff = True, cf_fast_kernels = False, cf_gpu_batch = 1, cf_int8_dots = False\<rparr>"

definition empty_env :: runtime_env where
  "empty_env = \<lparr>ev_fence_light = None, ev_i8_gpu_mask = None, ev_i8_cpu_mask = None,
     ev_i8k_gpu_mask = None, ev_i8k_cpu_mask = None, ev_no_steal = None, ev_perblock_q = None,
     ev_perblock_chunk = None, ev_gpu_blocks = None, ev_gpu_threads = None\<rparr>"

definition demo_shared :: shared_config where
  "demo_shared = (runtime_setup True default_config empty_env)\<lparr>sc_gpu_blocks := 20, sc_perblock_q := True\<rparr>"

lemma cpu_mask_never_codebook_witness:
  "\<not> fmt_masked (sc_i8_cpu_mask (runtime_setup True (default_config\<lparr>cf_int8_dots := True\<rparr>)
     (empty_env\<lparr>ev_i8_cpu_mask := Some 0xFF\<rparr>))) IQ2_XXS"
  using cpu_mask_never_codebook by simp

lemma published_task_served_witness:
  "\<exists>a \<in> executors demo_shared. \<forall>rr. publish_queue demo_shared task0 21 True \<in> set (probe_list demo_shared a rr)
    \<and> publish_queue demo_shared task0 21 True = Ring 1"
proof -
  have ok: "routing_ok demo_shared" and g: "True \<longrightarrow> sc_gpu_enabled demo_shared" by code_simp+
  have "publish_queue demo_shared task0 21 True = Ring 1" by code_simp
  with published_task_served [OF ok g, of task0 21] show ?thesis by blast
qed

lemma gpu_start_shape_witness:
  "gpu_start (\<lambda>t. if t \<le> 512 then 20 else 0) 100 1024 = (20, 512) \<and> (20 :: int) \<le> int kMaxGpuBlocks"
proof -
  have "gpu_start (\<lambda>t. if t \<le> 512 then 20 else 0) 100 1024 = (20, 512)" by code_simp
  with gpu_start_shape [OF this] show ?thesis by simp
qed

lemma publish_stamp_domain_witness:
  "to_cpu_domain 5 1001 = (1000 AND NOT kTsGpuBit) - 5"
proof -
  have "publish_stamp demo_shared (task0\<lparr>t_kind := RMSNORM\<rparr>) 3 True 1000 = Some 1001" by code_simp
  from publish_stamp_domain [OF this] show ?thesis by simp
qed

end
