(* ===== verification/FL_Runtime.thy ===== *)
theory FL_Runtime
  imports FL_Routing
begin

text \<open>
  One \<open>run()\<close> of the runtime as a step relation: the host thread publishing the roots and
  waiting (\<open>RuntimeImpl::run\<close>), the CPU workers (\<open>worker\<close>, \<open>exec_and_publish\<close>) and the GPU
  blocks (the kernel \<open>executor\<close> of \<open>gpu_exec.cu\<close>), interleaved arbitrarily. A step is one access
  to the shared state: one queue operation, one task execution, one dependency decrement, one
  store to \<open>done\_flag\<close> or \<open>n\_done\<close>.

  The queues are the bounded FIFO lists that the theory \<open>FL_Queue\<close> shows them to be. The effect
  of a task on memory is a parameter, as in \<open>run_serial\<close>. \<open>run_flag\<close> stays set: \<open>stop\<close> is called
  by the thread that calls \<open>run\<close>. The only ghost component is \<open>r_log\<close>, the tasks executed so far.
\<close>

section \<open>State\<close>

text \<open>
  Where an executor stands: it looks through a list of queues; it runs the tasks \<open>todo\<close> of its
  claim after \<open>ex\<close>; it notifies consumers (each with the number of its decrements still owed);
  it pushes a consumer that became ready.
\<close>

datatype apc =
    Parked
  | Probing "qid list"
  | Running "nat list" "nat list"
  | Epilogue "nat list" "(nat \<times> nat) list"
  | Pushing "nat list" nat "(nat \<times> nat) list"

datatype hpc = HPub nat | HWait | HRet

record 'm rt =
  r_active :: bool
  r_done :: bool
  r_ndone :: nat
  r_dep :: "int list"
  r_q :: "qid \<Rightarrow> nat list"
  r_pc :: "agent \<Rightarrow> apc"
  r_rr :: "agent \<Rightarrow> nat"
  r_host :: hpc
  r_mem :: 'm
  r_log :: "nat list"

text \<open>The state \<open>run\<close> sets up before it publishes the first root.\<close>

definition rt_start :: "graph \<Rightarrow> 'm \<Rightarrow> (agent \<Rightarrow> nat) \<Rightarrow> 'm rt" where
  "rt_start g mem rr =
     \<lparr>r_active = True, r_done = False, r_ndone = 0, r_dep = table_deps g, r_q = (\<lambda>_. []),
      r_pc = (\<lambda>_. Parked), r_rr = rr, r_host = HPub 0, r_mem = mem, r_log = []\<rparr>"

section \<open>Steps\<close>

text \<open>\<open>fl_publish\<close> by the host or a worker, and by an executor \<open>a\<close>; they agree on the queue.\<close>

definition route :: "shared_config \<Rightarrow> graph \<Rightarrow> nat \<Rightarrow> qid" where
  "route sc g c = publish_queue sc (g_tasks g ! c) c False"

definition push_target :: "shared_config \<Rightarrow> graph \<Rightarrow> agent \<Rightarrow> nat \<Rightarrow> qid" where
  "push_target sc g a c = publish_queue sc (g_tasks g ! c) c (case a of Cpu _ \<Rightarrow> False | Gpu _ \<Rightarrow> True)"

lemma push_target_eq: "a \<in> executors sc \<Longrightarrow> push_target sc g a c = route sc g c"
  by (auto simp: push_target_def route_def executors_def publish_queue_def split: if_splits)

text \<open>The GPU epilogue merges the decrements of a batch per consumer; a CPU worker makes them one
  by one.\<close>

fun bump :: "nat \<Rightarrow> (nat \<times> nat) list \<Rightarrow> (nat \<times> nat) list" where
  "bump c [] = [(c, 1)]"
| "bump c ((d, k) # xs) = (if d = c then (d, Suc k) # xs else (d, k) # bump c xs)"

definition epilogue_decs :: "graph \<Rightarrow> agent \<Rightarrow> nat list \<Rightarrow> (nat \<times> nat) list" where
  "epilogue_decs g a ids =
     (let cs = concat (map (graph_consumers g) ids) in
      case a of Cpu _ \<Rightarrow> map (\<lambda>c. (c, 1)) cs | Gpu _ \<Rightarrow> fold bump cs [])"

definition set_pc :: "agent \<Rightarrow> apc \<Rightarrow> 'm rt \<Rightarrow> 'm rt" where
  "set_pc a p s = s\<lparr>r_pc := (r_pc s)(a := p)\<rparr>"

definition enqueue :: "qid \<Rightarrow> nat \<Rightarrow> 'm rt \<Rightarrow> 'm rt" where
  "enqueue q c s = s\<lparr>r_q := (r_q s)(q := r_q s q @ [c])\<rparr>"

definition claim :: "agent \<Rightarrow> qid \<Rightarrow> nat \<Rightarrow> 'm rt \<Rightarrow> 'm rt" where
  "claim a q m s =
     set_pc a (Running (take m (r_q s q)) [])
       (s\<lparr>r_q := (r_q s)(q := drop m (r_q s q)),
          r_rr := (r_rr s)(a := next_cursor a q (r_rr s a))\<rparr>)"

definition exec_one :: "(task \<Rightarrow> 'm \<Rightarrow> 'm) \<Rightarrow> graph \<Rightarrow> agent \<Rightarrow> nat \<Rightarrow> nat list \<Rightarrow> nat list \<Rightarrow> 'm rt \<Rightarrow> 'm rt" where
  "exec_one exec g a x todo ex s =
     set_pc a (Running todo (ex @ [x]))
       (s\<lparr>r_mem := exec (g_tasks g ! x) (r_mem s), r_log := r_log s @ [x]\<rparr>)"

definition end_exec :: "graph \<Rightarrow> agent \<Rightarrow> nat list \<Rightarrow> 'm rt \<Rightarrow> 'm rt" where
  "end_exec g a ex s =
     set_pc a (Epilogue ex (epilogue_decs g a ex)) (s\<lparr>r_done := r_done s \<or> g_terminal g \<in> set ex\<rparr>)"

definition dec_one :: "agent \<Rightarrow> nat list \<Rightarrow> nat \<Rightarrow> nat \<Rightarrow> (nat \<times> nat) list \<Rightarrow> 'm rt \<Rightarrow> 'm rt" where
  "dec_one a ids c k ds s =
     set_pc a (if r_dep s ! c = int k then Pushing ids c ds else Epilogue ids ds)
       (s\<lparr>r_dep := (r_dep s)[c := r_dep s ! c - int k]\<rparr>)"

definition push_one :: "shared_config \<Rightarrow> graph \<Rightarrow> agent \<Rightarrow> nat list \<Rightarrow> nat \<Rightarrow> (nat \<times> nat) list \<Rightarrow> 'm rt \<Rightarrow> 'm rt" where
  "push_one sc g a ids c ds s = set_pc a (Epilogue ids ds) (enqueue (push_target sc g a c) c s)"

definition finish :: "agent \<Rightarrow> nat list \<Rightarrow> 'm rt \<Rightarrow> 'm rt" where
  "finish a ids s = set_pc a Parked (s\<lparr>r_ndone := r_ndone s + length ids\<rparr>)"

definition batch_of :: "shared_config \<Rightarrow> agent \<Rightarrow> nat" where
  "batch_of sc a = (case a of Cpu _ \<Rightarrow> 1 | Gpu _ \<Rightarrow> sc_gpu_batch sc)"

text \<open>
  A CPU worker only looks for work while \<open>active\<close> is set; a GPU block always does. A push waits
  for room; a bulk claim takes between one and \<open>gpu_batch\<close> tasks.
\<close>

inductive rt_step :: "shared_config \<Rightarrow> (task \<Rightarrow> 'm \<Rightarrow> 'm) \<Rightarrow> graph \<Rightarrow> 'm rt \<Rightarrow> 'm rt \<Rightarrow> bool"
  for sc exec g where
  host_push: "r_host s = HPub i \<Longrightarrow> i < graph_size g \<Longrightarrow> graph_dep_init g i = 0 \<Longrightarrow>
    length (r_q s (route sc g i)) < kQueueCapacity \<Longrightarrow>
    rt_step sc exec g s ((enqueue (route sc g i) i s)\<lparr>r_host := HPub (Suc i)\<rparr>)"
| host_skip: "r_host s = HPub i \<Longrightarrow> i < graph_size g \<Longrightarrow> graph_dep_init g i \<noteq> 0 \<Longrightarrow>
    rt_step sc exec g s (s\<lparr>r_host := HPub (Suc i)\<rparr>)"
| host_wait: "r_host s = HPub i \<Longrightarrow> \<not> i < graph_size g \<Longrightarrow> rt_step sc exec g s (s\<lparr>r_host := HWait\<rparr>)"
| host_return: "r_host s = HWait \<Longrightarrow> r_done s \<Longrightarrow> r_ndone s = graph_size g \<Longrightarrow>
    rt_step sc exec g s (s\<lparr>r_host := HRet, r_active := False\<rparr>)"
| probe: "a \<in> executors sc \<Longrightarrow> r_pc s a = Parked \<Longrightarrow> r_active s \<or> (\<exists>b. a = Gpu b) \<Longrightarrow>
    rt_step sc exec g s (set_pc a (Probing (probe_list sc a (r_rr s a))) s)"
| probe_empty: "r_pc s a = Probing (q # qs) \<Longrightarrow> r_q s q = [] \<Longrightarrow>
    rt_step sc exec g s (set_pc a (Probing qs) s)"
| probe_none: "r_pc s a = Probing [] \<Longrightarrow> rt_step sc exec g s (set_pc a Parked s)"
| claim: "r_pc s a = Probing (q # qs) \<Longrightarrow> 0 < m \<Longrightarrow> m \<le> length (r_q s q) \<Longrightarrow> m \<le> batch_of sc a \<Longrightarrow>
    rt_step sc exec g s (claim a q m s)"
| exec_one: "r_pc s a = Running (x # todo) ex \<Longrightarrow> rt_step sc exec g s (exec_one exec g a x todo ex s)"
| end_exec: "r_pc s a = Running [] ex \<Longrightarrow> rt_step sc exec g s (end_exec g a ex s)"
| dec_one: "r_pc s a = Epilogue ids ((c, k) # ds) \<Longrightarrow> rt_step sc exec g s (dec_one a ids c k ds s)"
| push_one: "r_pc s a = Pushing ids c ds \<Longrightarrow> length (r_q s (push_target sc g a c)) < kQueueCapacity \<Longrightarrow>
    rt_step sc exec g s (push_one sc g a ids c ds s)"
| finish: "r_pc s a = Epilogue ids [] \<Longrightarrow> rt_step sc exec g s (finish a ids s)"

abbreviation rt_reach :: "shared_config \<Rightarrow> (task \<Rightarrow> 'm \<Rightarrow> 'm) \<Rightarrow> graph \<Rightarrow> 'm rt \<Rightarrow> 'm rt \<Rightarrow> bool" where
  "rt_reach sc exec g \<equiv> (rt_step sc exec g)\<^sup>*\<^sup>*"

section \<open>Accounting\<close>

text \<open>Decrements of \<open>c\<close> an executor still owes, tokens for \<open>c\<close> it holds, and tasks it has executed
  but not yet counted in \<open>n\_done\<close>.\<close>

fun owed :: "graph \<Rightarrow> apc \<Rightarrow> nat \<Rightarrow> nat" where
  "owed g (Running todo ex) c = count_list (concat (map (graph_consumers g) ex)) c"
| "owed g (Epilogue ids ds) c = (\<Sum>(d, k)\<leftarrow>ds. if d = c then k else 0)"
| "owed g (Pushing ids x ds) c = (\<Sum>(d, k)\<leftarrow>ds. if d = c then k else 0)"
| "owed g _ c = 0"

fun token :: "apc \<Rightarrow> nat \<Rightarrow> nat" where
  "token (Running todo ex) c = count_list todo c"
| "token (Pushing ids x ds) c = (if x = c then 1 else 0)"
| "token _ c = 0"

fun uncounted :: "apc \<Rightarrow> nat" where
  "uncounted (Running todo ex) = length ex"
| "uncounted (Epilogue ids ds) = length ids"
| "uncounted (Pushing ids x ds) = length ids"
| "uncounted _ = 0"

text \<open>The roots the host has not published yet.\<close>

fun host_token :: "graph \<Rightarrow> hpc \<Rightarrow> nat \<Rightarrow> nat" where
  "host_token g (HPub i) c = (if i \<le> c \<and> graph_dep_init g c = 0 then 1 else 0)"
| "host_token g _ c = 0"

lemma owed_bump: "(\<Sum>(d, k)\<leftarrow>bump x ds. if d = c then k else 0) =
    (\<Sum>(d, k)\<leftarrow>ds. if d = c then k else 0) + (if x = c then 1 else 0 :: nat)"
  by (induction x ds rule: bump.induct) auto

lemma owed_fold_bump: "(\<Sum>(d, k)\<leftarrow>fold bump cs ds. if d = c then k else 0) =
    (\<Sum>(d, k)\<leftarrow>ds. if d = c then k else 0) + (count_list cs c :: nat)"
  by (induction cs arbitrary: ds) (auto simp: owed_bump)

lemma owed_epilogue: "owed g (Epilogue ids (epilogue_decs g a ids)) c =
    count_list (concat (map (graph_consumers g) ids)) c"
proof -
  have "(\<Sum>(d, k)\<leftarrow>map (\<lambda>c. (c, 1)) cs. if d = c then k else 0) = (count_list cs c :: nat)" for cs
    by (induction cs) auto
  then show ?thesis
    by (cases a) (simp_all add: epilogue_decs_def Let_def owed_fold_bump)
qed

definition decs_pos :: "(nat \<times> nat) list \<Rightarrow> bool" where
  "decs_pos ds \<longleftrightarrow> (\<forall>d k. (d, k) \<in> set ds \<longrightarrow> 0 < k)"

lemma decs_pos_simps [simp]:
  "decs_pos []" "decs_pos ((c, k) # ds) \<longleftrightarrow> 0 < k \<and> decs_pos ds"
  by (auto simp: decs_pos_def)

lemma bump_pos: "decs_pos ds \<Longrightarrow> decs_pos (bump c ds)"
  by (induction c ds rule: bump.induct) auto

lemma bump_fst: "fst ` set (bump c ds) = insert c (fst ` set ds)"
  by (induction c ds rule: bump.induct) auto

lemma fold_bump_ok:
  "decs_pos ds \<Longrightarrow> decs_pos (fold bump cs ds) \<and> fst ` set (fold bump cs ds) = set cs \<union> fst ` set ds"
proof (induction cs arbitrary: ds)
  case (Cons c cs)
  then show ?case using Cons.IH [OF bump_pos [OF Cons.prems]] by (simp add: bump_fst)
qed simp

lemma epilogue_decs_ok:
  "decs_pos (epilogue_decs g a ids)
   \<and> fst ` set (epilogue_decs g a ids) = set (concat (map (graph_consumers g) ids))"
proof (cases a)
  case (Cpu i)
  have "decs_pos (map (\<lambda>c. (c, 1)) cs)" for cs by (induction cs) auto
  then show ?thesis using Cpu by (simp add: epilogue_decs_def Let_def image_image)
next
  case (Gpu b)
  show ?thesis
    using fold_bump_ok [of "[]" "concat (map (graph_consumers g) ids)"] Gpu
    by (simp add: epilogue_decs_def Let_def)
qed

section \<open>The invariant of a run\<close>

fun pc_ok :: "nat \<Rightarrow> nat list \<Rightarrow> apc \<Rightarrow> bool" where
  "pc_ok n log (Running todo ex) \<longleftrightarrow> todo @ ex \<noteq> [] \<and> set todo \<subseteq> {..<n} \<and> set ex \<subseteq> set log"
| "pc_ok n log (Epilogue ids ds) \<longleftrightarrow> ids \<noteq> [] \<and> set ids \<subseteq> set log \<and> fst ` set ds \<subseteq> {..<n} \<and> decs_pos ds"
| "pc_ok n log (Pushing ids x ds) \<longleftrightarrow> x < n \<and> ids \<noteq> [] \<and> set ids \<subseteq> set log \<and> fst ` set ds \<subseteq> {..<n} \<and> decs_pos ds"
| "pc_ok n log _ \<longleftrightarrow> True"

fun holds_terminal :: "nat \<Rightarrow> apc \<Rightarrow> bool" where
  "holds_terminal t (Running todo ex) \<longleftrightarrow> t \<in> set ex"
| "holds_terminal t _ \<longleftrightarrow> False"

definition owed_sum :: "shared_config \<Rightarrow> graph \<Rightarrow> (agent \<Rightarrow> apc) \<Rightarrow> nat \<Rightarrow> nat" where
  "owed_sum sc g pc c = (\<Sum>a\<in>executors sc. owed g (pc a) c)"

definition token_sum :: "shared_config \<Rightarrow> (agent \<Rightarrow> apc) \<Rightarrow> nat \<Rightarrow> nat" where
  "token_sum sc pc c = (\<Sum>a\<in>executors sc. token (pc a) c)"

definition uncounted_sum :: "shared_config \<Rightarrow> (agent \<Rightarrow> apc) \<Rightarrow> nat" where
  "uncounted_sum sc pc = (\<Sum>a\<in>executors sc. uncounted (pc a))"

definition rt_inv :: "shared_config \<Rightarrow> (task \<Rightarrow> 'm \<Rightarrow> 'm) \<Rightarrow> graph \<Rightarrow> 'm \<Rightarrow> 'm rt \<Rightarrow> bool" where
  "rt_inv sc exec g mem0 s \<longleftrightarrow>
     length (r_dep s) = graph_size g
     \<and> (\<forall>c < graph_size g. r_dep s ! c =
          int (pending_in (graph_size g) (graph_consumers g) (set (r_log s)) c + owed_sum sc g (r_pc s) c))
     \<and> (\<forall>c < graph_size g. count_list (r_q s (route sc g c)) c + token_sum sc (r_pc s) c
          + count_list (r_log s) c + host_token g (r_host s) c = (if r_dep s ! c = 0 then 1 else 0))
     \<and> (\<forall>q. \<forall>c \<in> set (r_q s q). c < graph_size g \<and> route sc g c = q)
     \<and> (\<forall>a. a \<notin> executors sc \<longrightarrow> r_pc s a = Parked)
     \<and> (\<forall>a. pc_ok (graph_size g) (r_log s) (r_pc s a))
     \<and> set (r_log s) \<subseteq> {..<graph_size g}
     \<and> r_ndone s + uncounted_sum sc (r_pc s) = length (r_log s)
     \<and> topo_list (graph_edges g) (r_log s)
     \<and> r_mem s = fold (\<lambda>n. exec (g_tasks g ! n)) (r_log s) mem0
     \<and> (r_done s \<longrightarrow> g_terminal g \<in> set (r_log s))
     \<and> (g_terminal g \<in> set (r_log s) \<longrightarrow> r_done s \<or> (\<exists>a. holds_terminal (g_terminal g) (r_pc s a)))
     \<and> (r_host s = HRet \<longrightarrow> r_done s \<and> r_ndone s = graph_size g)
     \<and> (r_active s \<longleftrightarrow> r_host s \<noteq> HRet)"

lemma rt_invD:
  assumes "rt_inv sc exec g mem0 s"
  shows "length (r_dep s) = graph_size g"
    "\<And>c. c < graph_size g \<Longrightarrow> r_dep s ! c =
          int (pending_in (graph_size g) (graph_consumers g) (set (r_log s)) c + owed_sum sc g (r_pc s) c)"
    "\<And>c. c < graph_size g \<Longrightarrow> count_list (r_q s (route sc g c)) c + token_sum sc (r_pc s) c
          + count_list (r_log s) c + host_token g (r_host s) c = (if r_dep s ! c = 0 then 1 else 0)"
    "\<And>q c. c \<in> set (r_q s q) \<Longrightarrow> c < graph_size g \<and> route sc g c = q"
    "\<And>a. a \<notin> executors sc \<Longrightarrow> r_pc s a = Parked"
    "\<And>a. pc_ok (graph_size g) (r_log s) (r_pc s a)"
    "set (r_log s) \<subseteq> {..<graph_size g}"
    "r_ndone s + uncounted_sum sc (r_pc s) = length (r_log s)"
    "topo_list (graph_edges g) (r_log s)"
    "r_mem s = fold (\<lambda>n. exec (g_tasks g ! n)) (r_log s) mem0"
    "r_done s \<Longrightarrow> g_terminal g \<in> set (r_log s)"
    "g_terminal g \<in> set (r_log s) \<Longrightarrow> r_done s \<or> (\<exists>a. holds_terminal (g_terminal g) (r_pc s a))"
    "r_host s = HRet \<Longrightarrow> r_done s \<and> r_ndone s = graph_size g"
    "r_active s \<longleftrightarrow> r_host s \<noteq> HRet"
  using assms unfolding rt_inv_def by blast+

lemma finite_executors [simp]: "finite (executors sc)"
  by (simp add: executors_def)

lemma sum_pc_upd:
  fixes f :: "apc \<Rightarrow> nat"
  assumes "a \<in> executors sc"
  shows "(\<Sum>b\<in>executors sc. f ((pc(a := p)) b)) + f (pc a) = (\<Sum>b\<in>executors sc. f (pc b)) + f p"
proof -
  have "(\<Sum>b\<in>executors sc - {a}. f ((pc(a := p)) b)) = (\<Sum>b\<in>executors sc - {a}. f (pc b))"
    by (rule sum.cong) auto
  then show ?thesis
    using sum.remove [OF finite_executors assms, of "\<lambda>b. f ((pc(a := p)) b)"]
      sum.remove [OF finite_executors assms, of "\<lambda>b. f (pc b)"] by simp
qed

lemma sum_pc_same:
  fixes f :: "apc \<Rightarrow> nat"
  assumes "f p = f (pc a)"
  shows "(\<Sum>b\<in>executors sc. f ((pc(a := p)) b)) = (\<Sum>b\<in>executors sc. f (pc b))"
  by (rule sum.cong) (use assms in auto)

lemma sum_pc_ge:
  fixes f :: "apc \<Rightarrow> nat"
  assumes "a \<in> executors sc"
  shows "f (pc a) \<le> (\<Sum>b\<in>executors sc. f (pc b))"
  using sum.remove [OF finite_executors assms, of "\<lambda>b. f (pc b)"] by simp

lemma owed_upd:
  "a \<in> executors sc \<Longrightarrow> owed_sum sc g (pc(a := p)) c + owed g (pc a) c = owed_sum sc g pc c + owed g p c"
  unfolding owed_sum_def by (rule sum_pc_upd)

lemma token_upd:
  "a \<in> executors sc \<Longrightarrow> token_sum sc (pc(a := p)) c + token (pc a) c = token_sum sc pc c + token p c"
  unfolding token_sum_def by (rule sum_pc_upd)

lemma uncounted_upd:
  "a \<in> executors sc \<Longrightarrow> uncounted_sum sc (pc(a := p)) + uncounted (pc a) = uncounted_sum sc pc + uncounted p"
  unfolding uncounted_sum_def by (rule sum_pc_upd)

lemma owed_ge: "a \<in> executors sc \<Longrightarrow> owed g (pc a) c \<le> owed_sum sc g pc c"
  unfolding owed_sum_def by (rule sum_pc_ge)

lemma token_ge: "a \<in> executors sc \<Longrightarrow> token (pc a) c \<le> token_sum sc pc c"
  unfolding token_sum_def by (rule sum_pc_ge)

lemma set_pc_sel [simp]:
  "r_pc (set_pc a p s) = (r_pc s)(a := p)" "r_dep (set_pc a p s) = r_dep s" "r_q (set_pc a p s) = r_q s"
  "r_host (set_pc a p s) = r_host s" "r_mem (set_pc a p s) = r_mem s" "r_log (set_pc a p s) = r_log s"
  "r_done (set_pc a p s) = r_done s" "r_ndone (set_pc a p s) = r_ndone s" "r_active (set_pc a p s) = r_active s"
  "r_rr (set_pc a p s) = r_rr s"
  by (simp_all add: set_pc_def)

lemma enqueue_sel [simp]:
  "r_pc (enqueue q c s) = r_pc s" "r_dep (enqueue q c s) = r_dep s"
  "r_q (enqueue q c s) = (r_q s)(q := r_q s q @ [c])"
  "r_host (enqueue q c s) = r_host s" "r_mem (enqueue q c s) = r_mem s" "r_log (enqueue q c s) = r_log s"
  "r_done (enqueue q c s) = r_done s" "r_ndone (enqueue q c s) = r_ndone s" "r_active (enqueue q c s) = r_active s"
  "r_rr (enqueue q c s) = r_rr s"
  by (simp_all add: enqueue_def)

text \<open>A task somebody holds a token for is ready: its producers have run, it has not.\<close>

lemma token_ready:
  assumes inv: "rt_inv sc exec g mem0 s" and a: "a \<in> executors sc" and c: "c < graph_size g"
    and t: "0 < token (r_pc s a) c"
  shows "r_dep s ! c = 0" "c \<notin> set (r_log s)" "host_token g (r_host s) c = 0"
    "c \<notin> set (r_q s (route sc g c))" "token (r_pc s a) c = 1"
    "\<And>p. (p, c) \<in> graph_edges g \<Longrightarrow> p \<in> set (r_log s)"
proof -
  note I = rt_invD [OF inv]
  have "token (r_pc s a) c \<le> token_sum sc (r_pc s) c" by (rule token_ge [OF a])
  then show z: "r_dep s ! c = 0" "c \<notin> set (r_log s)" "host_token g (r_host s) c = 0"
    "c \<notin> set (r_q s (route sc g c))" "token (r_pc s a) c = 1"
    using I(3) [OF c] t by (auto simp: count_list_0_iff [symmetric] split: if_splits)
  have "pending_in (graph_size g) (graph_consumers g) (set (r_log s)) c = 0" using I(2) [OF c] z(1) by simp
  then show "p \<in> set (r_log s)" if "(p, c) \<in> graph_edges g" for p
    using that by (auto simp: pending_in_0_iff graph_edges_def edges_of_def)
qed

lemma rt_log_distinct:
  assumes "rt_inv sc exec g mem0 s"
  shows "distinct (r_log s)"
proof (rule distinct_count_list)
  note I = rt_invD [OF assms]
  fix c assume "c \<in> set (r_log s)"
  then have "c < graph_size g" using I(7) by blast
  from I(3) [OF this] show "count_list (r_log s) c \<le> 1" by (simp split: if_splits)
qed

lemma rt_invI:
  assumes "length (r_dep s) = graph_size g"
    "\<And>c. c < graph_size g \<Longrightarrow> r_dep s ! c =
          int (pending_in (graph_size g) (graph_consumers g) (set (r_log s)) c + owed_sum sc g (r_pc s) c)"
    "\<And>c. c < graph_size g \<Longrightarrow> count_list (r_q s (route sc g c)) c + token_sum sc (r_pc s) c
          + count_list (r_log s) c + host_token g (r_host s) c = (if r_dep s ! c = 0 then 1 else 0)"
    "\<And>q c. c \<in> set (r_q s q) \<Longrightarrow> c < graph_size g \<and> route sc g c = q"
    "\<And>a. a \<notin> executors sc \<Longrightarrow> r_pc s a = Parked"
    "\<And>a. pc_ok (graph_size g) (r_log s) (r_pc s a)"
    "set (r_log s) \<subseteq> {..<graph_size g}"
    "r_ndone s + uncounted_sum sc (r_pc s) = length (r_log s)"
    "topo_list (graph_edges g) (r_log s)"
    "r_mem s = fold (\<lambda>n. exec (g_tasks g ! n)) (r_log s) mem0"
    "r_done s \<Longrightarrow> g_terminal g \<in> set (r_log s)"
    "g_terminal g \<in> set (r_log s) \<Longrightarrow> r_done s \<or> (\<exists>a. holds_terminal (g_terminal g) (r_pc s a))"
    "r_host s = HRet \<Longrightarrow> r_done s \<and> r_ndone s = graph_size g"
    "r_active s \<longleftrightarrow> r_host s \<noteq> HRet"
  shows "rt_inv sc exec g mem0 s"
  unfolding rt_inv_def using assms by blast

text \<open>A step that only moves an executor between points where it holds nothing.\<close>

lemma rt_inv_move:
  assumes inv: "rt_inv sc exec g mem0 s" and a: "a \<in> executors sc"
    and old: "\<And>c. owed g (r_pc s a) c = 0" "\<And>c. token (r_pc s a) c = 0" "uncounted (r_pc s a) = 0"
      "\<not> holds_terminal (g_terminal g) (r_pc s a)"
    and new: "\<And>c. owed g p c = 0" "\<And>c. token p c = 0" "uncounted p = 0" "pc_ok (graph_size g) (r_log s) p"
  shows "rt_inv sc exec g mem0 (set_pc a p s)"
proof -
  note I = rt_invD [OF inv]
  have O: "owed_sum sc g ((r_pc s)(a := p)) c = owed_sum sc g (r_pc s) c" for c
    using owed_upd [OF a, of g "r_pc s" p c] old new by simp
  have T: "token_sum sc ((r_pc s)(a := p)) c = token_sum sc (r_pc s) c" for c
    using token_upd [OF a, of "r_pc s" p c] old new by simp
  have U: "uncounted_sum sc ((r_pc s)(a := p)) = uncounted_sum sc (r_pc s)"
    using uncounted_upd [OF a, of "r_pc s" p] old new by simp
  show ?thesis
  proof (rule rt_invI; unfold set_pc_sel O T U)
    show "((r_pc s)(a := p)) b = Parked" if "b \<notin> executors sc" for b
      using that a I(5) by auto
    show "pc_ok (graph_size g) (r_log s) (((r_pc s)(a := p)) b)" for b
      using I(6) new(4) by simp
    show "r_done s \<or> (\<exists>b. holds_terminal (g_terminal g) (((r_pc s)(a := p)) b))"
      if "g_terminal g \<in> set (r_log s)"
      using I(12) [OF that] old(4) by (metis fun_upd_other)
  qed (fact I(1) | rule I(2), assumption | rule I(3), assumption | rule I(4), assumption | fact I(7-10)
       | rule I(11), assumption | rule I(13), assumption | fact I(14))+
qed

lemma rt_inv_claim:
  assumes inv: "rt_inv sc exec g mem0 s" and at: "r_pc s a = Probing (q # qs)"
    and m: "0 < m" "m \<le> length (r_q s q)"
  shows "rt_inv sc exec g mem0 (claim a q m s)"
proof -
  let ?s = "claim a q m s" and ?p = "Running (take m (r_q s q)) []"
  note I = rt_invD [OF inv]
  have a: "a \<in> executors sc" using I(5) at by force
  have sel: "r_pc ?s = (r_pc s)(a := ?p)" "r_dep ?s = r_dep s" "r_q ?s = (r_q s)(q := drop m (r_q s q))"
    "r_host ?s = r_host s" "r_mem ?s = r_mem s" "r_log ?s = r_log s" "r_done ?s = r_done s"
    "r_ndone ?s = r_ndone s" "r_active ?s = r_active s"
    by (simp_all add: claim_def)
  have O: "owed_sum sc g ((r_pc s)(a := ?p)) c = owed_sum sc g (r_pc s) c" for c
    using owed_upd [OF a, of g "r_pc s" ?p c] at by simp
  have U: "uncounted_sum sc ((r_pc s)(a := ?p)) = uncounted_sum sc (r_pc s)"
    using uncounted_upd [OF a, of "r_pc s" ?p] at by simp
  have T: "token_sum sc ((r_pc s)(a := ?p)) c = token_sum sc (r_pc s) c + count_list (take m (r_q s q)) c" for c
    using token_upd [OF a, of "r_pc s" ?p c] at by simp
  have C: "count_list (r_q ?s (route sc g c)) c + token_sum sc ((r_pc s)(a := ?p)) c
      = count_list (r_q s (route sc g c)) c + token_sum sc (r_pc s) c" for c
  proof (cases "route sc g c = q")
    case True
    have "count_list (r_q s q) c = count_list (take m (r_q s q)) c + count_list (drop m (r_q s q)) c"
      by (metis append_take_drop_id count_list_append)
    then show ?thesis using True by (simp add: sel T)
  next
    case False
    then have "c \<notin> set (take m (r_q s q))" using I(4) in_set_takeD by metis
    then show ?thesis using False by (simp add: sel T)
  qed
  show ?thesis
  proof (rule rt_invI; (unfold sel(1,2,4-9) O U)?)
    show "count_list (r_q ?s (route sc g c)) c + token_sum sc ((r_pc s)(a := ?p)) c + count_list (r_log s) c
        + host_token g (r_host s) c = (if r_dep s ! c = 0 then 1 else 0)" if "c < graph_size g" for c
      using I(3) [OF that] C by simp
    show "c < graph_size g \<and> route sc g c = q'" if "c \<in> set (r_q ?s q')" for q' c
      using that I(4) by (auto simp: sel dest: in_set_dropD split: if_splits)
    show "((r_pc s)(a := ?p)) b = Parked" if "b \<notin> executors sc" for b using that a I(5) by auto
    show "pc_ok (graph_size g) (r_log s) (((r_pc s)(a := ?p)) b)" for b
      using I(6) I(4) m by (auto dest: in_set_takeD)
    show "r_done s \<or> (\<exists>b. holds_terminal (g_terminal g) (((r_pc s)(a := ?p)) b))"
      if "g_terminal g \<in> set (r_log s)"
      using I(12) [OF that] at by (metis fun_upd_other holds_terminal.simps(3))
  qed (fact I(1) | rule I(2), assumption | fact I(7-10)
       | rule I(11), assumption | rule I(13), assumption | fact I(14))+
qed

lemma rt_inv_exec:
  assumes inv: "rt_inv sc exec g mem0 s" and at: "r_pc s a = Running (x # todo) ex"
  shows "rt_inv sc exec g mem0 (exec_one exec g a x todo ex s)"
proof -
  let ?s = "exec_one exec g a x todo ex s" and ?p = "Running todo (ex @ [x])"
  note I = rt_invD [OF inv]
  have a: "a \<in> executors sc" using I(5) at by force
  have x: "x < graph_size g" using I(6) [of a] at by simp
  note R = token_ready [OF inv a x]
  have tx: "0 < token (r_pc s a) x" using at by simp
  have sel: "r_pc ?s = (r_pc s)(a := ?p)" "r_dep ?s = r_dep s" "r_q ?s = r_q s"
    "r_host ?s = r_host s" "r_mem ?s = exec (g_tasks g ! x) (r_mem s)" "r_log ?s = r_log s @ [x]"
    "r_done ?s = r_done s" "r_ndone ?s = r_ndone s" "r_active ?s = r_active s"
    by (simp_all add: exec_one_def)
  have O: "owed_sum sc g ((r_pc s)(a := ?p)) c = owed_sum sc g (r_pc s) c + count_list (graph_consumers g x) c" for c
    using owed_upd [OF a, of g "r_pc s" ?p c] at by simp
  have U: "uncounted_sum sc ((r_pc s)(a := ?p)) = Suc (uncounted_sum sc (r_pc s))"
    using uncounted_upd [OF a, of "r_pc s" ?p] at by simp
  have T: "token_sum sc ((r_pc s)(a := ?p)) c + (if c = x then 1 else 0) = token_sum sc (r_pc s) c" for c
    using token_upd [OF a, of "r_pc s" ?p c] at by (simp split: if_splits)
  show ?thesis
  proof (rule rt_invI; (unfold sel(1-5,7-9))?)
    show "r_dep s ! c = int (pending_in (graph_size g) (graph_consumers g) (set (r_log ?s)) c
        + owed_sum sc g ((r_pc s)(a := ?p)) c)" if "c < graph_size g" for c
      using I(2) [OF that] pending_in_insert [OF x R(2) [OF tx], of "graph_consumers g" c]
      by (simp add: sel O)
    show "count_list (r_q s (route sc g c)) c + token_sum sc ((r_pc s)(a := ?p)) c + count_list (r_log ?s) c
        + host_token g (r_host s) c = (if r_dep s ! c = 0 then 1 else 0)" if "c < graph_size g" for c
      using I(3) [OF that] T [of c] by (simp add: sel split: if_splits)
    show "((r_pc s)(a := ?p)) b = Parked" if "b \<notin> executors sc" for b using that a I(5) by auto
    show "pc_ok (graph_size g) (r_log ?s) (((r_pc s)(a := ?p)) b)" for b
    proof (cases "b = a")
      case True
      then show ?thesis using I(6) [of a] at by (auto simp: sel)
    next
      case False
      then show ?thesis using I(6) [of b] by (cases "r_pc s b") (auto simp: sel)
    qed
    show "set (r_log ?s) \<subseteq> {..<graph_size g}" using I(7) x by (simp add: sel)
    show "r_ndone s + uncounted_sum sc ((r_pc s)(a := ?p)) = length (r_log ?s)" using I(8) U by (simp add: sel)
    show "topo_list (graph_edges g) (r_log ?s)" using I(9) R(6) [OF tx] by (simp add: sel topo_list_snoc)
    show "exec (g_tasks g ! x) (r_mem s) = fold (\<lambda>n. exec (g_tasks g ! n)) (r_log ?s) mem0"
      using I(10) by (simp add: sel)
    show "g_terminal g \<in> set (r_log ?s)" if "r_done s" using I(11) [OF that] by (simp add: sel)
    show "r_done s \<or> (\<exists>b. holds_terminal (g_terminal g) (((r_pc s)(a := ?p)) b))"
      if t: "g_terminal g \<in> set (r_log ?s)"
    proof (cases "g_terminal g = x")
      case True
      then have "holds_terminal (g_terminal g) (((r_pc s)(a := ?p)) a)" by simp
      then show ?thesis by blast
    next
      case False
      then have "g_terminal g \<in> set (r_log s)" using t by (simp add: sel)
      then consider "r_done s" | b where "holds_terminal (g_terminal g) (r_pc s b)" using I(12) by blast
      then show ?thesis
      proof cases
        case (2 b)
        then have "holds_terminal (g_terminal g) (((r_pc s)(a := ?p)) b)" using at by auto
        then show ?thesis by blast
      qed blast
    qed
  qed (fact I(1) | rule I(4), assumption | rule I(13), assumption | fact I(14))+
qed

lemma frozen_consumers_lt:
  "frozen_graph g \<Longrightarrow> p < graph_size g \<Longrightarrow> c \<in> set (graph_consumers g p) \<Longrightarrow> c < graph_size g"
  by (auto simp: frozen_graph_def graph_inv_def)

lemma rt_inv_end_exec:
  assumes inv: "rt_inv sc exec g mem0 s" and g: "frozen_graph g" and at: "r_pc s a = Running [] ex"
  shows "rt_inv sc exec g mem0 (end_exec g a ex s)"
proof -
  let ?s = "end_exec g a ex s" and ?p = "Epilogue ex (epilogue_decs g a ex)"
  note I = rt_invD [OF inv]
  have a: "a \<in> executors sc" using I(5) at by force
  have ex: "set ex \<subseteq> set (r_log s)" "ex \<noteq> []" using I(6) [of a] at by simp_all
  have sel: "r_pc ?s = (r_pc s)(a := ?p)" "r_dep ?s = r_dep s" "r_q ?s = r_q s"
    "r_host ?s = r_host s" "r_mem ?s = r_mem s" "r_log ?s = r_log s"
    "r_done ?s \<longleftrightarrow> r_done s \<or> g_terminal g \<in> set ex" "r_ndone ?s = r_ndone s" "r_active ?s = r_active s"
    by (simp_all add: end_exec_def)
  have O: "owed_sum sc g ((r_pc s)(a := ?p)) c = owed_sum sc g (r_pc s) c" for c
    using owed_upd [OF a, of g "r_pc s" ?p c] at owed_epilogue [of g ex a c] by simp
  have T: "token_sum sc ((r_pc s)(a := ?p)) c = token_sum sc (r_pc s) c" for c
    using token_upd [OF a, of "r_pc s" ?p c] at by simp
  have U: "uncounted_sum sc ((r_pc s)(a := ?p)) = uncounted_sum sc (r_pc s)"
    using uncounted_upd [OF a, of "r_pc s" ?p] at by simp
  show ?thesis
  proof (rule rt_invI; (unfold sel(1-6,8,9) O T U)?)
    show "((r_pc s)(a := ?p)) b = Parked" if "b \<notin> executors sc" for b using that a I(5) by auto
    show "pc_ok (graph_size g) (r_log s) (((r_pc s)(a := ?p)) b)" for b
    proof (cases "b = a")
      case True
      have "d < graph_size g" if "d \<in> set (concat (map (graph_consumers g) ex))" for d
        using that ex(1) I(7) frozen_consumers_lt [OF g] by fastforce
      then have "fst ` set (epilogue_decs g a ex) \<subseteq> {..<graph_size g}"
        using epilogue_decs_ok [of g a ex] by auto
      then show ?thesis using True ex epilogue_decs_ok [of g a ex] by simp
    qed (use I(6) in simp)
    show "g_terminal g \<in> set (r_log s)" if "r_done ?s" using that I(11) ex(1) by (auto simp: sel)
    show "r_done ?s \<or> (\<exists>b. holds_terminal (g_terminal g) (((r_pc s)(a := ?p)) b))"
      if t: "g_terminal g \<in> set (r_log s)"
    proof -
      consider "r_done s" | b where "holds_terminal (g_terminal g) (r_pc s b)" using I(12) [OF t] by blast
      then show ?thesis
      proof cases
        case (2 b)
        show ?thesis
        proof (cases "b = a")
          case True
          then show ?thesis using 2 at by (simp add: sel)
        next
          case False
          then have "holds_terminal (g_terminal g) (((r_pc s)(a := ?p)) b)" using 2 by simp
          then show ?thesis by blast
        qed
      qed (simp add: sel)
    qed
    show "r_done ?s \<and> r_ndone s = graph_size g" if "r_host s = HRet" using I(13) [OF that] by (simp add: sel)
  qed (fact I(1) | rule I(2), assumption | rule I(3), assumption | rule I(4), assumption | fact I(7-10) | fact I(14))+
qed

lemma rt_inv_dec:
  assumes inv: "rt_inv sc exec g mem0 s" and at: "r_pc s a = Epilogue ids ((c, k) # ds)"
  shows "rt_inv sc exec g mem0 (dec_one a ids c k ds s)"
proof -
  let ?s = "dec_one a ids c k ds s" and ?z = "r_dep s ! c = int k"
  let ?p = "if ?z then Pushing ids c ds else Epilogue ids ds"
  note I = rt_invD [OF inv]
  have a: "a \<in> executors sc" using I(5) at by force
  have ok: "c < graph_size g" "0 < k" "ids \<noteq> []" "set ids \<subseteq> set (r_log s)" "fst ` set ds \<subseteq> {..<graph_size g}" "decs_pos ds"
    using I(6) [of a] at by simp_all
  have sel: "r_pc ?s = (r_pc s)(a := ?p)" "r_dep ?s = (r_dep s)[c := r_dep s ! c - int k]" "r_q ?s = r_q s"
    "r_host ?s = r_host s" "r_mem ?s = r_mem s" "r_log ?s = r_log s" "r_done ?s = r_done s"
    "r_ndone ?s = r_ndone s" "r_active ?s = r_active s"
    by (simp_all add: dec_one_def)
  have O: "owed_sum sc g ((r_pc s)(a := ?p)) d + (if d = c then k else 0) = owed_sum sc g (r_pc s) d" for d
    using owed_upd [OF a, of g "r_pc s" ?p d] at by (auto split: if_splits)
  have T: "token_sum sc ((r_pc s)(a := ?p)) d = token_sum sc (r_pc s) d + (if ?z \<and> d = c then 1 else 0)" for d
    using token_upd [OF a, of "r_pc s" ?p d] at by (auto split: if_splits)
  have U: "uncounted_sum sc ((r_pc s)(a := ?p)) = uncounted_sum sc (r_pc s)"
    using uncounted_upd [OF a, of "r_pc s" ?p] at by (auto split: if_splits)
  have "owed g (r_pc s a) c \<le> owed_sum sc g (r_pc s) c" by (rule owed_ge [OF a])
  then have ge: "int k \<le> r_dep s ! c" using I(2) [OF ok(1)] at by simp
  have dep: "r_dep ?s ! d = (if d = c then r_dep s ! c - int k else r_dep s ! d)" for d
    using ok(1) I(1) by (simp add: sel nth_list_update)
  show ?thesis
  proof (rule rt_invI; (unfold sel(1,3-9) U)?)
    show "length (r_dep ?s) = graph_size g" using I(1) by (simp add: sel)
    show "r_dep ?s ! d = int (pending_in (graph_size g) (graph_consumers g) (set (r_log s)) d
        + owed_sum sc g ((r_pc s)(a := ?p)) d)" if "d < graph_size g" for d
      using I(2) [OF that] O [of d] by (auto simp: dep split: if_splits)
    show "count_list (r_q s (route sc g d)) d + token_sum sc ((r_pc s)(a := ?p)) d + count_list (r_log s) d
        + host_token g (r_host s) d = (if r_dep ?s ! d = 0 then 1 else 0)" if "d < graph_size g" for d
      using I(3) [OF that] ge ok(2) by (auto simp: dep T)
    show "((r_pc s)(a := ?p)) b = Parked" if "b \<notin> executors sc" for b using that a I(5) by auto
    show "pc_ok (graph_size g) (r_log s) (((r_pc s)(a := ?p)) b)" for b using I(6) ok by simp
    show "r_done s \<or> (\<exists>b. holds_terminal (g_terminal g) (((r_pc s)(a := ?p)) b))"
      if "g_terminal g \<in> set (r_log s)"
    proof -
      have "\<not> holds_terminal (g_terminal g) (r_pc s a)" using at by simp
      then show ?thesis using I(12) [OF that] by (metis fun_upd_other)
    qed
  qed (rule I(4), assumption | fact I(7-10) | rule I(11), assumption | rule I(13), assumption | fact I(14))+
qed

lemma count_enqueue:
  assumes "route sc g c = q"
  shows "count_list (((r_q s)(q := r_q s q @ [c])) (route sc g d)) d
    = count_list (r_q s (route sc g d)) d + (if d = c then 1 else 0)"
  using assms by simp

lemma rt_inv_push:
  assumes inv: "rt_inv sc exec g mem0 s" and at: "r_pc s a = Pushing ids c ds"
  shows "rt_inv sc exec g mem0 (push_one sc g a ids c ds s)"
proof -
  let ?s = "push_one sc g a ids c ds s" and ?p = "Epilogue ids ds"
  note I = rt_invD [OF inv]
  have a: "a \<in> executors sc" using I(5) at by force
  note tgt = push_target_eq [OF a, of g c]
  have ok: "c < graph_size g" "ids \<noteq> []" "set ids \<subseteq> set (r_log s)" "fst ` set ds \<subseteq> {..<graph_size g}" "decs_pos ds"
    using I(6) [of a] at by simp_all
  have sel: "r_pc ?s = (r_pc s)(a := ?p)" "r_dep ?s = r_dep s"
    "r_q ?s = (r_q s)(route sc g c := r_q s (route sc g c) @ [c])"
    "r_host ?s = r_host s" "r_mem ?s = r_mem s" "r_log ?s = r_log s" "r_done ?s = r_done s"
    "r_ndone ?s = r_ndone s" "r_active ?s = r_active s"
    by (simp_all add: push_one_def tgt)
  have O: "owed_sum sc g ((r_pc s)(a := ?p)) d = owed_sum sc g (r_pc s) d" for d
    using owed_upd [OF a, of g "r_pc s" ?p d] at by simp
  have T: "token_sum sc ((r_pc s)(a := ?p)) d + (if d = c then 1 else 0) = token_sum sc (r_pc s) d" for d
    using token_upd [OF a, of "r_pc s" ?p d] at by (simp split: if_splits)
  have U: "uncounted_sum sc ((r_pc s)(a := ?p)) = uncounted_sum sc (r_pc s)"
    using uncounted_upd [OF a, of "r_pc s" ?p] at by simp
  show ?thesis
  proof (rule rt_invI; (unfold sel(1,2,4-9) O U)?)
    show "count_list (r_q ?s (route sc g d)) d + token_sum sc ((r_pc s)(a := ?p)) d + count_list (r_log s) d
        + host_token g (r_host s) d = (if r_dep s ! d = 0 then 1 else 0)" if "d < graph_size g" for d
      unfolding sel(3) count_enqueue [OF refl] using I(3) [OF that] T [of d] by simp
    show "d < graph_size g \<and> route sc g d = q" if "d \<in> set (r_q ?s q)" for q d
      using that I(4) ok(1) by (auto simp: sel(3) split: if_splits)
    show "((r_pc s)(a := ?p)) b = Parked" if "b \<notin> executors sc" for b using that a I(5) by auto
    show "pc_ok (graph_size g) (r_log s) (((r_pc s)(a := ?p)) b)" for b using I(6) ok by simp
    show "r_done s \<or> (\<exists>b. holds_terminal (g_terminal g) (((r_pc s)(a := ?p)) b))"
      if "g_terminal g \<in> set (r_log s)"
    proof -
      have "\<not> holds_terminal (g_terminal g) (r_pc s a)" using at by simp
      then show ?thesis using I(12) [OF that] by (metis fun_upd_other)
    qed
  qed (fact I(1) | rule I(2), assumption | fact I(7-10) | rule I(11), assumption | rule I(13), assumption | fact I(14))+
qed

lemma rt_inv_finish:
  assumes inv: "rt_inv sc exec g mem0 s" and at: "r_pc s a = Epilogue ids []"
  shows "rt_inv sc exec g mem0 (finish a ids s)"
proof -
  let ?s = "finish a ids s" and ?p = Parked
  note I = rt_invD [OF inv]
  have a: "a \<in> executors sc" using I(5) at by force
  have sel: "r_pc ?s = (r_pc s)(a := ?p)" "r_dep ?s = r_dep s" "r_q ?s = r_q s"
    "r_host ?s = r_host s" "r_mem ?s = r_mem s" "r_log ?s = r_log s" "r_done ?s = r_done s"
    "r_ndone ?s = r_ndone s + length ids" "r_active ?s = r_active s"
    by (simp_all add: finish_def)
  have O: "owed_sum sc g ((r_pc s)(a := ?p)) d = owed_sum sc g (r_pc s) d" for d
    using owed_upd [OF a, of g "r_pc s" ?p d] at by simp
  have T: "token_sum sc ((r_pc s)(a := ?p)) d = token_sum sc (r_pc s) d" for d
    using token_upd [OF a, of "r_pc s" ?p d] at by simp
  have U: "uncounted_sum sc ((r_pc s)(a := ?p)) + length ids = uncounted_sum sc (r_pc s)"
    using uncounted_upd [OF a, of "r_pc s" ?p] at by simp
  show ?thesis
  proof (rule rt_invI; (unfold sel(1-7,9) O T)?)
    show "((r_pc s)(a := ?p)) b = Parked" if "b \<notin> executors sc" for b using that a I(5) by auto
    show "pc_ok (graph_size g) (r_log s) (((r_pc s)(a := ?p)) b)" for b using I(6) by simp
    show "r_ndone ?s + uncounted_sum sc ((r_pc s)(a := ?p)) = length (r_log s)" using I(8) U by (simp add: sel)
    show "r_done s \<or> (\<exists>b. holds_terminal (g_terminal g) (((r_pc s)(a := ?p)) b))"
      if "g_terminal g \<in> set (r_log s)"
    proof -
      have "\<not> holds_terminal (g_terminal g) (r_pc s a)" using at by simp
      then show ?thesis using I(12) [OF that] by (metis fun_upd_other)
    qed
    show "r_done s \<and> r_ndone ?s = graph_size g" if "r_host s = HRet"
    proof -
      have "length (r_log s) \<le> graph_size g"
        using distinct_card [OF rt_log_distinct [OF inv]] card_mono [OF _ I(7)] by simp
      then have "length ids = 0" using I(13) [OF that] I(8) U by linarith
      then have "r_ndone ?s = r_ndone s" by (simp only: sel(8) add_0_right)
      then show ?thesis using I(13) [OF that] by simp
    qed
  qed (fact I(1) | rule I(2), assumption | rule I(3), assumption | rule I(4), assumption | fact I(7,9,10)
    | rule I(11), assumption | fact I(14))+
qed

lemma rt_inv_start:
  assumes g: "graph_inv g"
  shows "rt_inv sc exec g mem0 (rt_start g mem0 rr)"
proof (rule rt_invI)
  have d: "r_dep (rt_start g mem0 rr) ! c = graph_dep_init g c" if "c < graph_size g" for c
    using that by (simp add: rt_start_def table_deps_def graph_size_def graph_dep_init_def)
  show "r_dep (rt_start g mem0 rr) ! c = int (pending_in (graph_size g) (graph_consumers g)
      (set (r_log (rt_start g mem0 rr))) c + owed_sum sc g (r_pc (rt_start g mem0 rr)) c)"
    if "c < graph_size g" for c
    using d [OF that] g that by (simp add: graph_inv_def rt_start_def owed_sum_def)
  show "count_list (r_q (rt_start g mem0 rr) (route sc g c)) c + token_sum sc (r_pc (rt_start g mem0 rr)) c
      + count_list (r_log (rt_start g mem0 rr)) c + host_token g (r_host (rt_start g mem0 rr)) c
      = (if r_dep (rt_start g mem0 rr) ! c = 0 then 1 else 0)" if "c < graph_size g" for c
    using d [OF that] by (simp add: rt_start_def token_sum_def)
qed (simp_all add: rt_start_def table_deps_def graph_size_def uncounted_sum_def)

lemma rt_inv_host:
  assumes inv: "rt_inv sc exec g mem0 s" and at: "r_host s = HPub i" and i: "i < graph_size g"
  shows "graph_dep_init g i = 0 \<Longrightarrow> rt_inv sc exec g mem0 ((enqueue (route sc g i) i s)\<lparr>r_host := HPub (Suc i)\<rparr>)"
    and "graph_dep_init g i \<noteq> 0 \<Longrightarrow> rt_inv sc exec g mem0 (s\<lparr>r_host := HPub (Suc i)\<rparr>)"
proof -
  note I = rt_invD [OF inv]
  have H: "host_token g (HPub (Suc i)) d + (if d = i \<and> graph_dep_init g i = 0 then 1 else 0)
      = host_token g (HPub i) d" for d by (auto simp: not_less_eq_eq dest: le_antisym)
  show "rt_inv sc exec g mem0 (s\<lparr>r_host := HPub (Suc i)\<rparr>)" if nz: "graph_dep_init g i \<noteq> 0"
    by (rule rt_invI) (use I at H nz in auto)
  show "rt_inv sc exec g mem0 ((enqueue (route sc g i) i s)\<lparr>r_host := HPub (Suc i)\<rparr>)" (is "rt_inv _ _ _ _ ?s")
    if z: "graph_dep_init g i = 0"
  proof (rule rt_invI)
    show "count_list (r_q ?s (route sc g d)) d + token_sum sc (r_pc ?s) d + count_list (r_log ?s) d
        + host_token g (r_host ?s) d = (if r_dep ?s ! d = 0 then 1 else 0)" if "d < graph_size g" for d
    proof -
      have "count_list (r_q ?s (route sc g d)) d = count_list (r_q s (route sc g d)) d + (if d = i then 1 else 0)"
        using count_enqueue [OF refl, of s sc g i d] by simp
      then show ?thesis using I(3) [OF that] H [of d] at z by simp
    qed
    show "d < graph_size g \<and> route sc g d = q" if "d \<in> set (r_q ?s q)" for q d
      using that I(4) i by (auto split: if_splits)
  qed (use I at in auto)
qed

theorem rt_inv_step:
  assumes step: "rt_step sc exec g s s'" and inv: "rt_inv sc exec g mem0 s" and g: "frozen_graph g"
  shows "rt_inv sc exec g mem0 s'"
  using step
proof cases
  case (host_push i)
  then show ?thesis using rt_inv_host(1) [OF inv] by blast
next
  case (host_skip i)
  then show ?thesis using rt_inv_host(2) [OF inv] by blast
next
  case (host_wait i)
  note I = rt_invD [OF inv]
  show ?thesis unfolding host_wait(1) by (rule rt_invI) (use I host_wait in auto)
next
  case host_return
  note I = rt_invD [OF inv]
  show ?thesis unfolding host_return(1) by (rule rt_invI) (use I host_return in auto)
next
  case (probe a)
  then show ?thesis using rt_inv_move [OF inv probe(2)] by simp
next
  case (probe_empty a q qs)
  then have "a \<in> executors sc" using rt_invD(5) [OF inv, of a] by force
  then show ?thesis using rt_inv_move [OF inv] probe_empty by simp
next
  case (probe_none a)
  then have "a \<in> executors sc" using rt_invD(5) [OF inv, of a] by force
  then show ?thesis using rt_inv_move [OF inv] probe_none by simp
next
  case (claim a q qs m)
  then show ?thesis using rt_inv_claim [OF inv] by simp
next
  case (exec_one a x todo ex)
  then show ?thesis using rt_inv_exec [OF inv] by simp
next
  case (end_exec a ex)
  then show ?thesis using rt_inv_end_exec [OF inv g] by simp
next
  case (dec_one a ids c k ds)
  then show ?thesis using rt_inv_dec [OF inv] by simp
next
  case (push_one a ids c ds)
  then show ?thesis using rt_inv_push [OF inv] by simp
next
  case (finish a ids)
  then show ?thesis using rt_inv_finish [OF inv] by simp
qed

lemma rt_inv_reach:
  assumes "rt_reach sc exec g (rt_start g mem0 rr) s" "frozen_graph g"
  shows "rt_inv sc exec g mem0 s"
  using assms(1)
proof (induction rule: rtranclp_induct)
  case base
  show ?case using rt_inv_start assms(2) by (auto simp: frozen_graph_def)
next
  case (step s s')
  show ?case by (rule rt_inv_step [OF step.hyps(2) step.IH assms(2)])
qed

end
