(* ===== verification/FL_Progress.thy ===== *)
theory FL_Progress
  imports FL_Runtime
begin

text \<open>
  What the runtime promises to the caller of \<open>run\<close>: every task executes exactly once and after
  its producers, \<open>run\<close> returns with all executors quiescent and every task done, the result is
  that of \<open>run_serial\<close>, and from every reachable state the run can still return when each queue
  has a consumer. Also the configuration for which it cannot.
\<close>

section \<open>From every state the run can finish\<close>

fun pc_weight :: "graph \<Rightarrow> apc \<Rightarrow> nat" where
  "pc_weight g (Running todo ex) = 2 * length (concat (map (graph_consumers g) ex)) + 3"
| "pc_weight g (Epilogue ids ds) = 2 * length ds + 1"
| "pc_weight g (Pushing ids c ds) = 2 * length ds + 2"
| "pc_weight g _ = 0"

fun host_weight :: "graph \<Rightarrow> hpc \<Rightarrow> nat" where
  "host_weight g (HPub i) = 2 + (graph_size g - i)"
| "host_weight g HWait = 1"
| "host_weight g HRet = 0"

definition weight_sum :: "shared_config \<Rightarrow> graph \<Rightarrow> (agent \<Rightarrow> apc) \<Rightarrow> nat" where
  "weight_sum sc g pc = (\<Sum>a\<in>executors sc. pc_weight g (pc a))"

definition rt_less :: "shared_config \<Rightarrow> graph \<Rightarrow> ('m rt \<times> 'm rt) set" where
  "rt_less sc g = measures [\<lambda>s. graph_size g - length (r_log s), \<lambda>s. weight_sum sc g (r_pc s),
     \<lambda>s. host_weight g (r_host s)]"

lemma weight_upd:
  "a \<in> executors sc \<Longrightarrow> weight_sum sc g (pc(a := p)) + pc_weight g (pc a) = weight_sum sc g pc + pc_weight g p"
  unfolding weight_sum_def by (rule sum_pc_upd)

lemma weight_less:
  "a \<in> executors sc \<Longrightarrow> pc_weight g p < pc_weight g (r_pc s a) \<Longrightarrow>
    weight_sum sc g ((r_pc s)(a := p)) < weight_sum sc g (r_pc s)"
  using weight_upd [of a sc g "r_pc s" p] by linarith

lemma rt_less_iff:
  "(s', s) \<in> rt_less sc g \<longleftrightarrow>
     (graph_size g - length (r_log s') < graph_size g - length (r_log s)
      \<or> graph_size g - length (r_log s') = graph_size g - length (r_log s)
        \<and> (weight_sum sc g (r_pc s') < weight_sum sc g (r_pc s)
           \<or> weight_sum sc g (r_pc s') = weight_sum sc g (r_pc s)
             \<and> host_weight g (r_host s') < host_weight g (r_host s)))"
  by (auto simp: rt_less_def)

lemma length_bump: "length (bump c ds) \<le> Suc (length ds)"
  by (induction c ds rule: bump.induct) auto

lemma length_epilogue_decs: "length (epilogue_decs g a ids) \<le> length (concat (map (graph_consumers g) ids))"
proof -
  have "length (fold bump cs ds) \<le> length ds + length cs" for cs and ds :: "(nat \<times> nat) list"
  proof (induction cs arbitrary: ds)
    case (Cons c cs)
    show ?case using Cons [of "bump c ds"] length_bump [of c ds] by simp
  qed simp
  from this [of "concat (map (graph_consumers g) ids)" "[]"] show ?thesis
    by (cases a) (simp_all add: epilogue_decs_def Let_def)
qed

text \<open>A queue always has room for a task that is not in it: it holds distinct tasks.\<close>

lemma queue_room:
  assumes inv: "rt_inv sc exec g mem0 s" and n: "graph_size g \<le> kQueueCapacity"
    and c: "c < graph_size g" "c \<notin> set (r_q s q)"
  shows "length (r_q s q) < kQueueCapacity"
proof -
  note I = rt_invD [OF inv]
  have "distinct (r_q s q)"
  proof (rule distinct_count_list)
    fix d assume "d \<in> set (r_q s q)"
    then have "d < graph_size g" "route sc g d = q" using I(4) by auto
    with I(3) [of d] show "count_list (r_q s q) d \<le> 1" by (simp split: if_splits)
  qed
  then have "length (r_q s q) = card (set (r_q s q))" by (simp add: distinct_card)
  also have "\<dots> \<le> card ({..<graph_size g} - {c})" by (rule card_mono) (use I(4) c in auto)
  also have "\<dots> < graph_size g" using c(1) by simp
  finally show ?thesis using n by simp
qed

lemma log_length_le: "rt_inv sc exec g mem0 s \<Longrightarrow> length (r_log s) \<le> graph_size g"
  using distinct_card [OF rt_log_distinct, of sc exec g mem0 s]
    card_mono [OF _ rt_invD(7), of g sc exec mem0 s] by simp

text \<open>An executor that holds work can go on.\<close>

definition at_work :: "apc \<Rightarrow> bool" where
  "at_work p \<longleftrightarrow> (case p of Parked \<Rightarrow> False | Probing _ \<Rightarrow> False | _ \<Rightarrow> True)"

lemma work_step:
  assumes inv: "rt_inv sc exec g mem0 s" and g: "frozen_graph g" and n: "graph_size g \<le> kQueueCapacity"
    and w: "at_work (r_pc s a)"
  shows "\<exists>s'. rt_step sc exec g s s' \<and> (s', s) \<in> rt_less sc g"
proof -
  note I = rt_invD [OF inv]
  have a: "a \<in> executors sc" using I(5) [of a] w by (cases "a \<in> executors sc") (auto simp: at_work_def)
  show ?thesis
  proof (cases "r_pc s a")
    case (Running todo ex)
    show ?thesis
    proof (cases todo)
      case Nil
      have "length (epilogue_decs g a ex) \<le> length (concat (map (graph_consumers g) ex))"
        by (rule length_epilogue_decs)
      then have "pc_weight g (Epilogue ex (epilogue_decs g a ex)) < pc_weight g (r_pc s a)"
        using Running by simp
      from weight_less [OF a this] have "(end_exec g a ex s, s) \<in> rt_less sc g"
        by (simp add: rt_less_iff end_exec_def)
      then show ?thesis using rt_step.end_exec [of s a ex] Running Nil by blast
    next
      case (Cons x xs)
      then have st: "rt_step sc exec g s (exec_one exec g a x xs ex s)" using rt_step.exec_one Running by blast
      have "length (r_log (exec_one exec g a x xs ex s)) \<le> graph_size g"
        by (rule log_length_le [OF rt_inv_step [OF st inv g]])
      then have "(exec_one exec g a x xs ex s, s) \<in> rt_less sc g"
        by (simp add: rt_less_iff exec_one_def) linarith
      then show ?thesis using st by blast
    qed
  next
    case (Epilogue ids ds)
    show ?thesis
    proof (cases ds)
      case Nil
      then have "pc_weight g Parked < pc_weight g (r_pc s a)" using Epilogue by simp
      from weight_less [OF a this] have "(finish a ids s, s) \<in> rt_less sc g"
        by (simp add: rt_less_iff finish_def)
      then show ?thesis using rt_step.finish [of s a ids] Epilogue Nil by blast
    next
      case (Cons d ds')
      obtain c k where d: "d = (c, k)" by fastforce
      let ?p = "if r_dep s ! c = int k then Pushing ids c ds' else Epilogue ids ds'"
      have "pc_weight g ?p < pc_weight g (r_pc s a)" using Epilogue Cons by simp
      from weight_less [OF a this] have "(dec_one a ids c k ds' s, s) \<in> rt_less sc g"
        by (simp add: rt_less_iff dec_one_def)
      then show ?thesis using rt_step.dec_one [of s a ids c k ds'] Epilogue Cons d by blast
    qed
  next
    case (Pushing ids c ds)
    have c: "c < graph_size g" using I(6) [of a] Pushing by simp
    have "c \<notin> set (r_q s (route sc g c))" using token_ready(4) [OF inv a c] Pushing by simp
    then have "length (r_q s (push_target sc g a c)) < kQueueCapacity"
      using queue_room [OF inv n c] push_target_eq [OF a] by simp
    then have st: "rt_step sc exec g s (push_one sc g a ids c ds s)" using rt_step.push_one Pushing by blast
    have "pc_weight g (Epilogue ids ds) < pc_weight g (r_pc s a)" using Pushing by simp
    from weight_less [OF a this] have "(push_one sc g a ids c ds s, s) \<in> rt_less sc g"
      by (simp add: rt_less_iff push_one_def)
    then show ?thesis using st by blast
  qed (use w in \<open>simp_all add: at_work_def\<close>)
qed

lemma host_step:
  assumes inv: "rt_inv sc exec g mem0 s" and n: "graph_size g \<le> kQueueCapacity" and h: "r_host s = HPub i"
  shows "\<exists>s'. rt_step sc exec g s s' \<and> (s', s) \<in> rt_less sc g"
proof (cases "i < graph_size g")
  case False
  then show ?thesis using rt_step.host_wait [OF h False] h by (intro exI conjI) (auto simp: rt_less_iff)
next
  case True
  note I = rt_invD [OF inv]
  show ?thesis
  proof (cases "graph_dep_init g i = 0")
    case False
    then show ?thesis
      using rt_step.host_skip [OF h True False, of sc exec] h True by (intro exI conjI) (auto simp: rt_less_iff)
  next
    case z: True
    have "count_list (r_q s (route sc g i)) i = 0"
      using I(3) [OF True] h z by (simp split: if_splits)
    then have "i \<notin> set (r_q s (route sc g i))" by (simp add: count_list_0_iff)
    from rt_step.host_push [OF h True z queue_room [OF inv n True this], of exec] show ?thesis
      using h True by (intro exI conjI) (auto simp: rt_less_iff)
  qed
qed

lemma rt_inv_path:
  assumes "rt_reach sc exec g s s'" "rt_inv sc exec g mem0 s" "frozen_graph g"
  shows "rt_inv sc exec g mem0 s'"
  using assms(1)
proof (induction rule: rtranclp_induct)
  case base
  show ?case by (rule assms(2))
next
  case (step s s')
  show ?case by (rule rt_inv_step [OF step.hyps(2) step.IH assms(3)])
qed

text \<open>An executor looking through queues finds a task or parks having changed nothing.\<close>

lemma probe_path:
  assumes "r_pc s a = Probing qs" "1 \<le> batch_of sc a"
  shows "\<exists>s'. rt_reach sc exec g s s' \<and> r_log s' = r_log s \<and>
    ((\<exists>x xs. r_pc s' a = Running (x # xs) [])
     \<or> (s' = set_pc a Parked s \<and> (\<forall>q \<in> set qs. r_q s q = [])))"
  using assms(1)
proof (induction qs arbitrary: s)
  case Nil
  then have "rt_step sc exec g s (set_pc a Parked s)" by (rule rt_step.probe_none)
  then show ?case by (intro exI [of _ "set_pc a Parked s"]) simp
next
  case (Cons q qs)
  show ?case
  proof (cases "r_q s q")
    case Nil
    let ?s = "set_pc a (Probing qs) s"
    have st: "rt_step sc exec g s ?s" by (rule rt_step.probe_empty [OF Cons.prems Nil])
    have "r_pc ?s a = Probing qs" by simp
    from Cons.IH [OF this] obtain s' where s': "rt_reach sc exec g ?s s'" "r_log s' = r_log ?s"
      "(\<exists>x xs. r_pc s' a = Running (x # xs) []) \<or> (s' = set_pc a Parked ?s \<and> (\<forall>q \<in> set qs. r_q ?s q = []))"
      by blast
    have "set_pc a Parked ?s = set_pc a Parked s" by (simp add: set_pc_def)
    then show ?thesis
      using s' st Nil by (intro exI [of _ s']) (auto intro: converse_rtranclp_into_rtranclp)
  next
    case (Cons x xs)
    have "rt_step sc exec g s (claim a q 1 s)"
      by (rule rt_step.claim [OF \<open>r_pc s a = Probing (q # qs)\<close>]) (use Cons assms(2) in simp_all)
    moreover have "r_pc (claim a q 1 s) a = Running (x # []) []" "r_log (claim a q 1 s) = r_log s"
      using Cons by (simp_all add: claim_def)
    ultimately show ?thesis by (intro exI [of _ "claim a q 1 s"]) auto
  qed
qed

lemma probe_path_hit:
  assumes a: "a \<in> executors sc" and b: "1 \<le> batch_of sc a" and act: "r_active s"
    and idle: "\<not> at_work (r_pc s a)" and q: "r_q s q \<noteq> []" "\<forall>rr. q \<in> set (probe_list sc a rr)"
  shows "\<exists>s'. rt_reach sc exec g s s' \<and> r_log s' = r_log s \<and> (\<exists>x xs. r_pc s' a = Running (x # xs) [])"
proof -
  have parked: ?thesis if sp: "rt_reach sc exec g s sp" "r_log sp = r_log s" "r_pc sp a = Parked"
      "r_active sp" "r_q sp q \<noteq> []" for sp
  proof -
    let ?s = "set_pc a (Probing (probe_list sc a (r_rr sp a))) sp"
    have st: "rt_step sc exec g sp ?s" using rt_step.probe [OF a sp(3)] sp(4) by blast
    have "r_pc ?s a = Probing (probe_list sc a (r_rr sp a))" by simp
    from probe_path [OF this b, of exec g] obtain s' where s': "rt_reach sc exec g ?s s'" "r_log s' = r_log ?s"
      "(\<exists>x xs. r_pc s' a = Running (x # xs) [])
       \<or> (s' = set_pc a Parked ?s \<and> (\<forall>q \<in> set (probe_list sc a (r_rr sp a)). r_q ?s q = []))" by blast
    have "r_q ?s q \<noteq> []" using sp(5) by simp
    then have "\<exists>x xs. r_pc s' a = Running (x # xs) []" using s'(3) q(2) by blast
    then show ?thesis
      using s'(1,2) st sp(1,2) by (intro exI [of _ s']) (auto intro: rtranclp_trans converse_rtranclp_into_rtranclp)
  qed
  show ?thesis
  proof (cases "r_pc s a")
    case Parked
    then show ?thesis using parked [of s] act q(1) by simp
  next
    case (Probing qs)
    from probe_path [OF Probing b, of exec g] obtain s' where s': "rt_reach sc exec g s s'" "r_log s' = r_log s"
      "(\<exists>x xs. r_pc s' a = Running (x # xs) []) \<or> s' = set_pc a Parked s" by blast
    show ?thesis
    proof (cases "\<exists>x xs. r_pc s' a = Running (x # xs) []")
      case True
      then show ?thesis using s' by blast
    next
      case False
      then have "s' = set_pc a Parked s" using s'(3) by blast
      then show ?thesis using parked [of s'] s'(1) act q(1) by simp
    qed
  qed (use idle in \<open>simp_all add: at_work_def\<close>)
qed

lemma idle_sums:
  assumes "\<forall>a. \<not> at_work (r_pc s a)"
  shows "owed_sum sc g (r_pc s) c = 0" "token_sum sc (r_pc s) c = 0" "uncounted_sum sc (r_pc s) = 0"
proof -
  have z: "owed g (r_pc s a) c = 0" "token (r_pc s a) c = 0" "uncounted (r_pc s a) = 0" for a
    using assms by (cases "r_pc s a"; auto simp: at_work_def split: apc.splits)+
  show "owed_sum sc g (r_pc s) c = 0" "token_sum sc (r_pc s) c = 0" "uncounted_sum sc (r_pc s) = 0"
    by (simp_all add: owed_sum_def token_sum_def uncounted_sum_def z)
qed

text \<open>With everybody idle, a task that has not run and whose producers have waits in its queue.\<close>

lemma idle_ready_queued:
  assumes inv: "rt_inv sc exec g mem0 s" and idle: "\<forall>a. \<not> at_work (r_pc s a)" and h: "r_host s = HWait"
    and c: "c < graph_size g" "c \<notin> set (r_log s)"
    and pre: "\<forall>p. (p, c) \<in> graph_edges g \<longrightarrow> p \<in> set (r_log s)"
  shows "r_q s (route sc g c) \<noteq> []"
proof -
  note I = rt_invD [OF inv]
  have "pending_in (graph_size g) (graph_consumers g) (set (r_log s)) c = 0"
    using pre by (auto simp: pending_in_0_iff graph_edges_def edges_of_def)
  then have "r_dep s ! c = 0" using I(2) [OF c(1)] idle_sums(1) [OF idle] by simp
  then have "count_list (r_q s (route sc g c)) c = 1"
    using I(3) [OF c(1)] idle_sums(2) [OF idle] h c(2) by (simp add: count_list_0_iff [THEN iffD2])
  then show ?thesis by auto
qed

lemma minimal_unexecuted:
  assumes g: "frozen_graph g" and c: "c < graph_size g" "c \<notin> D"
  shows "\<exists>c < graph_size g. c \<notin> D \<and> (\<forall>p. (p, c) \<in> graph_edges g \<longrightarrow> p \<in> D)"
proof -
  have sub: "graph_edges g \<subseteq> {..<graph_size g} \<times> {..<graph_size g}"
    using frozen_consumers_lt [OF g] by (auto simp: graph_edges_def edges_of_def)
  then have "finite (graph_edges g)" by (rule finite_subset) simp
  then have "wf (graph_edges g)" using g by (intro finite_acyclic_wf) (simp_all add: frozen_graph_def)
  then obtain z where z: "z \<in> {..<graph_size g} - D" "\<And>y. (y, z) \<in> graph_edges g \<Longrightarrow> y \<notin> {..<graph_size g} - D"
    using c by (elim wfE_min [where x = c and Q = "{..<graph_size g} - D"]) auto
  then show ?thesis using sub by (intro exI [of _ z]) auto
qed

text \<open>The scheduler's part: queues are served and batches are not empty.\<close>

definition sched_ok :: "shared_config \<Rightarrow> graph \<Rightarrow> bool" where
  "sched_ok sc g \<longleftrightarrow> routing_ok sc \<and> 1 \<le> sc_gpu_batch sc \<and> graph_size g \<le> kQueueCapacity"

lemma progress:
  assumes inv: "rt_inv sc exec g mem0 s" and g: "frozen_graph g" and ok: "sched_ok sc g" and h: "r_host s \<noteq> HRet"
  shows "\<exists>s'. rt_reach sc exec g s s' \<and> rt_inv sc exec g mem0 s' \<and> (s', s) \<in> rt_less sc g"
proof -
  note I = rt_invD [OF inv]
  have n: "graph_size g \<le> kQueueCapacity" and r: "routing_ok sc" using ok by (simp_all add: sched_ok_def)
  have one: ?thesis if "\<exists>s'. rt_step sc exec g s s' \<and> (s', s) \<in> rt_less sc g"
    using that rt_inv_step [OF _ inv g] by blast
  consider (work) a where "at_work (r_pc s a)" | (pub) i where "r_host s = HPub i"
    | (idle) "\<forall>a. \<not> at_work (r_pc s a)" "r_host s = HWait"
    using h by (cases "r_host s") auto
  then show ?thesis
  proof cases
    case work
    then show ?thesis by (intro one work_step [OF inv g n])
  next
    case pub
    then show ?thesis by (intro one host_step [OF inv n])
  next
    case idle
    show ?thesis
    proof (cases "set (r_log s) = {..<graph_size g}")
      case True
      have "r_ndone s = length (r_log s)" using I(8) idle_sums(3) [OF idle(1)] by simp
      also have "\<dots> = graph_size g" using distinct_card [OF rt_log_distinct [OF inv]] True by simp
      finally have nd: "r_ndone s = graph_size g" .
      have "\<not> holds_terminal (g_terminal g) (r_pc s a)" for a
        using idle(1) by (cases "r_pc s a") (auto simp: at_work_def split: apc.splits dest: spec [of _ a])
      then have "r_done s" using I(12) frozen_terminal_lt [OF g] True by auto
      from rt_step.host_return [OF idle(2) this nd, of sc exec] show ?thesis
        using idle(2) by (intro one exI conjI) (auto simp: rt_less_iff)
    next
      case False
      then obtain c0 where "c0 < graph_size g" "c0 \<notin> set (r_log s)" using I(7) by auto
      from minimal_unexecuted [OF g this] obtain c where c: "c < graph_size g" "c \<notin> set (r_log s)"
        "\<forall>p. (p, c) \<in> graph_edges g \<longrightarrow> p \<in> set (r_log s)" by blast
      have q: "r_q s (route sc g c) \<noteq> []" by (rule idle_ready_queued [OF inv idle c])
      obtain a where a: "a \<in> executors sc" "\<forall>rr. route sc g c \<in> set (probe_list sc a rr)"
        using queue_has_consumer [OF r, of False] unfolding route_def by blast
      have b: "1 \<le> batch_of sc a" using ok by (auto simp: batch_of_def sched_ok_def split: agent.splits)
      have act: "r_active s" using I(14) idle(2) by simp
      from probe_path_hit [OF a(1) b act _ q a(2), of exec g] idle(1) obtain s1 x xs where
        s1: "rt_reach sc exec g s s1" "r_log s1 = r_log s" "r_pc s1 a = Running (x # xs) []" by blast
      have inv1: "rt_inv sc exec g mem0 s1"
        by (rule rt_inv_path [OF s1(1) inv g])
      have st: "rt_step sc exec g s1 (exec_one exec g a x xs [] s1)" by (rule rt_step.exec_one [OF s1(3)])
      have inv2: "rt_inv sc exec g mem0 (exec_one exec g a x xs [] s1)" by (rule rt_inv_step [OF st inv1 g])
      have "r_log (exec_one exec g a x xs [] s1) = r_log s @ [x]" using s1(2) by (simp add: exec_one_def)
      with log_length_le [OF inv2] have "(exec_one exec g a x xs [] s1, s) \<in> rt_less sc g"
        by (simp add: rt_less_iff) linarith
      then show ?thesis using s1(1) st inv2 by (meson rtranclp.rtrancl_into_rtrancl)
    qed
  qed
qed

lemma can_finish:
  assumes g: "frozen_graph g" and ok: "sched_ok sc g" and inv: "rt_inv sc exec g mem0 s"
  shows "\<exists>s'. rt_reach sc exec g s s' \<and> rt_inv sc exec g mem0 s' \<and> r_host s' = HRet"
  using inv
proof (induction s rule: wf_induct_rule [OF wf_measures, of "[\<lambda>s. graph_size g - length (r_log s),
    \<lambda>s. weight_sum sc g (r_pc s), \<lambda>s. host_weight g (r_host s)]"])
  case (1 s)
  show ?case
  proof (cases "r_host s = HRet")
    case True
    then show ?thesis using 1(2) by blast
  next
    case False
    from progress [OF 1(2) g ok False] obtain s1 where
      s1: "rt_reach sc exec g s s1" "rt_inv sc exec g mem0 s1" "(s1, s) \<in> rt_less sc g" by blast
    from 1(1) [OF s1(3) [unfolded rt_less_def] s1(2)] s1(1) show ?thesis by (meson rtranclp_trans)
  qed
qed

section \<open>A run that returned\<close>

lemma returned_complete:
  assumes inv: "rt_inv sc exec g mem0 s" and g: "frozen_graph g" and h: "r_host s = HRet"
  shows "set (r_log s) = {..<graph_size g}" "uncounted_sum sc (r_pc s) = 0"
    "\<And>c. c < graph_size g \<Longrightarrow> token_sum sc (r_pc s) c = 0" "\<And>q. r_q s q = []"
    "\<And>c. c < graph_size g \<Longrightarrow> r_dep s ! c = 0"
proof -
  note I = rt_invD [OF inv]
  have l: "length (r_log s) = graph_size g" and u: "uncounted_sum sc (r_pc s) = 0"
    using I(8) I(13) [OF h] log_length_le [OF inv] by simp_all
  show "uncounted_sum sc (r_pc s) = 0" by (rule u)
  show all: "set (r_log s) = {..<graph_size g}"
    using card_subset_eq [OF _ I(7)] distinct_card [OF rt_log_distinct [OF inv]] l by simp
  have one: "0 < count_list (r_log s) c" if "c < graph_size g" for c
    using that all by (simp add: count_list_pos_iff)
  show "token_sum sc (r_pc s) c = 0" "r_dep s ! c = 0" if "c < graph_size g" for c
    using I(3) [OF that] one [OF that] by (auto split: if_splits)
  show "r_q s q = []" for q
  proof (rule ccontr)
    assume "r_q s q \<noteq> []"
    then obtain c where "c \<in> set (r_q s q)" by (meson last_in_set)
    then have c: "c < graph_size g" "route sc g c = q" "0 < count_list (r_q s q) c"
      using I(4) by (auto simp: count_list_pos_iff)
    then show False using I(3) [OF c(1)] one [OF c(1)] by (simp split: if_splits)
  qed
qed

lemma returned_idle:
  assumes inv: "rt_inv sc exec g mem0 s" and g: "frozen_graph g" and h: "r_host s = HRet"
  shows "\<not> at_work (r_pc s a)"
proof (cases "a \<in> executors sc")
  case True
  note I = rt_invD [OF inv] and R = returned_complete [OF assms]
  have "uncounted (r_pc s a) \<le> uncounted_sum sc (r_pc s)"
    unfolding uncounted_sum_def by (rule sum_pc_ge [OF True])
  then have u: "uncounted (r_pc s a) = 0" using R(2) by simp
  have t: "token (r_pc s a) c = 0" if "c < graph_size g" for c
    using token_ge [OF True, of "r_pc s" c] R(3) [OF that] by simp
  show ?thesis
  proof (cases "r_pc s a")
    case (Running todo ex)
    then have "ex = []" using u by simp
    moreover have "todo = []"
    proof (rule ccontr)
      assume "todo \<noteq> []"
      then have "hd todo \<in> set todo" by simp
      moreover have "set todo \<subseteq> {..<graph_size g}" using I(6) [of a] Running by simp
      ultimately have "hd todo \<in> set todo" "hd todo < graph_size g" by auto
      then show False using t [of "hd todo"] Running by (simp add: count_list_0_iff)
    qed
    ultimately show ?thesis using I(6) [of a] Running by simp
  qed (use u I(6) [of a] in \<open>simp_all add: at_work_def\<close>)
qed (use rt_invD(5) [OF inv] in \<open>simp add: at_work_def\<close>)

section \<open>Properties\<close>

text \<open>C6: In every interleaving and at every moment of a run of a frozen graph, no task has executed
  twice, every executed task came after all its producers, and memory is the result of executing
  the logged tasks in that order.\<close>

theorem run_executes_topologically:
  assumes "frozen_graph g" "rt_reach sc exec g (rt_start g mem0 rr) s"
  shows "distinct (r_log s) \<and> set (r_log s) \<subseteq> {..<graph_size g} \<and> topo_list (graph_edges g) (r_log s)
    \<and> r_mem s = fold (\<lambda>n. exec (g_tasks g ! n)) (r_log s) mem0"
proof -
  note inv = rt_inv_reach [OF assms(2,1)]
  show ?thesis using rt_invD(7,9,10) [OF inv] rt_log_distinct [OF inv] by blast
qed

text \<open>C7: When \<open>run\<close> returns, every task has executed, all queues are empty, all dependency counts
  are zero and no executor holds a task or owes a notification: the counters may be reset.\<close>

theorem run_return_quiescent:
  assumes "frozen_graph g" "rt_reach sc exec g (rt_start g mem0 rr) s" "r_host s = HRet"
  shows "set (r_log s) = {..<graph_size g} \<and> (\<forall>q. r_q s q = [])
    \<and> (\<forall>c < graph_size g. r_dep s ! c = 0)
    \<and> (\<forall>a. r_pc s a = Parked \<or> (\<exists>qs. r_pc s a = Probing qs))"
proof -
  note inv = rt_inv_reach [OF assms(2,1)]
  have "r_pc s a = Parked \<or> (\<exists>qs. r_pc s a = Probing qs)" for a
    using returned_idle [OF inv assms(1,3), of a] by (cases "r_pc s a") (simp_all add: at_work_def)
  then show ?thesis using returned_complete [OF inv assms(1,3)] by blast
qed

text \<open>C8: When tasks that no dependency path orders commute, every returned run leaves the memory
  that the serial executor leaves.\<close>

theorem run_equals_serial:
  assumes "frozen_graph g" "rt_reach sc exec g (rt_start g mem0 rr) s" "r_host s = HRet"
    and "\<forall>a < graph_size g. \<forall>b < graph_size g. a \<noteq> b \<longrightarrow> (a, b) \<notin> (graph_edges g)\<^sup>+ \<longrightarrow> (b, a) \<notin> (graph_edges g)\<^sup>+ \<longrightarrow>
      (\<forall>m. exec (g_tasks g ! a) (exec (g_tasks g ! b) m) = exec (g_tasks g ! b) (exec (g_tasks g ! a) m))"
  shows "r_mem s = fst (run_serial exec g mem0)"
proof -
  note inv = rt_inv_reach [OF assms(2,1)] and O = frozen_order [OF assms(1)]
  note I = rt_invD [OF inv] and all = returned_complete(1) [OF inv assms(1,3)]
  have "fold (\<lambda>n. exec (g_tasks g ! n)) (r_log s) mem0 = fold (\<lambda>n. exec (g_tasks g ! n)) (gr.order g) mem0"
    by (rule topo_fold_eq [OF rt_log_distinct [OF inv] O(1) _ I(9) O(3)]) (use all O(2) assms(4) in auto)
  then show ?thesis by (simp add: I(10) run_serial_fold fold_serial_visit)
qed

text \<open>C9: With a worker, a nonempty batch size, a graph no larger than the queues and a consumer for
  every queue, every state a run can reach can be continued to its return: no interleaving stalls.\<close>

theorem run_can_return:
  assumes "frozen_graph g" "sched_ok sc g" "rt_reach sc exec g (rt_start g mem0 rr) s"
  shows "\<exists>s'. rt_reach sc exec g s s' \<and> r_host s' = HRet"
  using can_finish [OF assms(1,2) rt_inv_reach [OF assms(3,1)]] by blast

text \<open>The tasks of the GPU queue, with stealing forbidden and no GPU.\<close>

fun avoids_gpu_queue :: "shared_config \<Rightarrow> graph \<Rightarrow> apc \<Rightarrow> bool" where
  "avoids_gpu_queue sc g (Probing qs) \<longleftrightarrow> Q 0 \<notin> set qs"
| "avoids_gpu_queue sc g (Running todo ex) \<longleftrightarrow> (\<forall>x \<in> set todo. route sc g x \<noteq> Q 0)"
| "avoids_gpu_queue sc g _ \<longleftrightarrow> True"

lemma stuck_step:
  assumes st: "rt_step sc exec g s s'" and c: "sc_no_steal sc" "\<not> sc_gpu_enabled sc"
    and inv: "rt_inv sc exec g mem0 s"
    and s: "\<forall>a. avoids_gpu_queue sc g (r_pc s a)" "\<forall>x \<in> set (r_log s). route sc g x \<noteq> Q 0"
  shows "(\<forall>a. avoids_gpu_queue sc g (r_pc s' a)) \<and> (\<forall>x \<in> set (r_log s'). route sc g x \<noteq> Q 0)"
  using st
proof cases
  case (probe a)
  then have "Q 0 \<notin> set (probe_list sc a rr)" for rr
    using c by (cases a) (auto simp: executors_def probe_list_def)
  then show ?thesis using s probe by simp
next
  case (probe_empty a q qs)
  then have "avoids_gpu_queue sc g (Probing (q # qs))" using s(1) by metis
  then show ?thesis using s probe_empty by simp
next
  case (claim a q qs m)
  then have "avoids_gpu_queue sc g (Probing (q # qs))" using s(1) by metis
  then have "q \<noteq> Q 0" by auto
  then have "\<forall>x \<in> set (take m (r_q s q)). route sc g x \<noteq> Q 0"
    using rt_invD(4) [OF inv] by (metis in_set_takeD)
  then show ?thesis using s claim by (simp add: claim_def)
next
  case (exec_one a x todo ex)
  then have "avoids_gpu_queue sc g (Running (x # todo) ex)" using s(1) by metis
  then show ?thesis using s exec_one by (simp add: exec_one_def)
qed (use s in \<open>simp_all add: end_exec_def dec_one_def push_one_def finish_def\<close>)

text \<open>C10: With \<open>FASTLLM\_NO\_STEAL\<close> set on a run without GPU, a graph that has a GPU-affine dot
  never returns: its queue has no consumer, and the watchdog aborts the process.\<close>

theorem no_steal_without_gpu_never_returns:
  assumes "frozen_graph g" "sc_no_steal sc" "\<not> sc_gpu_enabled sc" "c < graph_size g" "route sc g c = Q 0"
    and "rt_reach sc exec g (rt_start g mem0 rr) s"
  shows "r_host s \<noteq> HRet"
proof
  have "(\<forall>a. avoids_gpu_queue sc g (r_pc s a)) \<and> (\<forall>x \<in> set (r_log s). route sc g x \<noteq> Q 0)"
    using assms(6)
  proof (induction rule: rtranclp_induct)
    case base
    show ?case by (simp add: rt_start_def)
  next
    case (step s s')
    show ?case
      by (rule stuck_step [OF step.hyps(2) assms(2,3) rt_inv_reach [OF step.hyps(1) assms(1)]])
        (use step.IH in blast)+
  qed
  moreover assume "r_host s = HRet"
  then have "c \<in> set (r_log s)"
    using returned_complete(1) [OF rt_inv_reach [OF assms(6,1)] assms(1)] assms(4) by simp
  ultimately show False using assms(5) by blast
qed

section \<open>Witnesses\<close>

definition demo_frozen :: graph where
  "demo_frozen = demo_graph\<lparr>g_terminal := 2, g_frozen := True\<rparr>"

definition cpu_only :: shared_config where
  "cpu_only = runtime_setup False default_config empty_env"

definition cpu_only_strict :: shared_config where
  "cpu_only_strict = runtime_setup False default_config (empty_env\<lparr>ev_no_steal := Some 1\<rparr>)"

definition add_id :: "task \<Rightarrow> nat \<Rightarrow> nat" where
  "add_id t m = m + t_id t"

lemma demo_frozen_ok: "frozen_graph demo_frozen"
proof -
  have nf: "\<not> g_frozen demo_graph" by code_simp
  have "graph_freeze demo_graph = Inr demo_frozen" unfolding demo_frozen_def by code_simp
  then show ?thesis using freeze_gives_frozen [OF demo_graph_inv nf] by simp
qed

lemma demo_frozen_size: "graph_size demo_frozen = 3"
  by code_simp

lemma cpu_only_ok: "sched_ok cpu_only demo_frozen"
  by (simp add: sched_ok_def demo_frozen_size kQueueCapacity_def routing_ok_def cpu_only_def runtime_setup_def
      Let_def default_config_def empty_env_def env_flag_def kGpuMaxBatch_def)

lemma demo_returns:
  "\<exists>s. rt_reach cpu_only add_id demo_frozen (rt_start demo_frozen 0 (\<lambda>_. 0)) s \<and> r_host s = HRet"
  using can_finish [OF demo_frozen_ok cpu_only_ok rt_inv_start] demo_frozen_ok
  by (meson frozen_graph_def)

lemma run_executes_topologically_witness:
  "\<exists>s. rt_reach cpu_only add_id demo_frozen (rt_start demo_frozen 0 (\<lambda>_. 0)) s \<and> r_host s = HRet
    \<and> distinct (r_log s) \<and> topo_list (graph_edges demo_frozen) (r_log s)"
proof -
  obtain s where s: "rt_reach cpu_only add_id demo_frozen (rt_start demo_frozen 0 (\<lambda>_. 0)) s" "r_host s = HRet"
    using demo_returns by blast
  show ?thesis
    by (rule exI [of _ s]) (use s run_executes_topologically [OF demo_frozen_ok s(1)] in simp)
qed

lemma run_return_quiescent_witness:
  "\<exists>s. rt_reach cpu_only add_id demo_frozen (rt_start demo_frozen 0 (\<lambda>_. 0)) s
    \<and> set (r_log s) = {..<3} \<and> (\<forall>q. r_q s q = [])"
proof -
  obtain s where s: "rt_reach cpu_only add_id demo_frozen (rt_start demo_frozen 0 (\<lambda>_. 0)) s" "r_host s = HRet"
    using demo_returns by blast
  show ?thesis
    by (rule exI [of _ s]) (use s run_return_quiescent [OF demo_frozen_ok s] demo_frozen_size in simp)
qed

lemma run_equals_serial_witness:
  "\<exists>s. rt_reach cpu_only add_id demo_frozen (rt_start demo_frozen 0 (\<lambda>_. 0)) s \<and> r_host s = HRet \<and> r_mem s = 3"
proof -
  obtain s where s: "rt_reach cpu_only add_id demo_frozen (rt_start demo_frozen 0 (\<lambda>_. 0)) s" "r_host s = HRet"
    using demo_returns by blast
  have "r_mem s = fst (run_serial add_id demo_frozen 0)"
    by (rule run_equals_serial [OF demo_frozen_ok s]) (simp add: add_id_def)
  moreover have "fst (run_serial add_id demo_frozen 0) = 3" by code_simp
  ultimately show ?thesis using s by auto
qed

lemma run_can_return_witness:
  "\<exists>s'. rt_reach cpu_only add_id demo_frozen (rt_start demo_frozen 0 (\<lambda>_. 0)) s' \<and> r_host s' = HRet"
  by (rule run_can_return [OF demo_frozen_ok cpu_only_ok rtranclp.rtrancl_refl])

lemma no_steal_without_gpu_never_returns_witness:
  "\<not> (\<exists>s. rt_reach cpu_only_strict add_id demo_frozen (rt_start demo_frozen 0 (\<lambda>_. 0)) s \<and> r_host s = HRet)"
proof -
  have c: "sc_no_steal cpu_only_strict" "\<not> sc_gpu_enabled cpu_only_strict" "route cpu_only_strict demo_frozen 0 = Q 0"
    by code_simp+
  have "(0 :: nat) < graph_size demo_frozen" by (simp add: demo_frozen_size)
  note never = no_steal_without_gpu_never_returns [OF demo_frozen_ok c(1,2) this c(3)]
  show ?thesis
  proof (rule notI, elim exE conjE)
    fix s assume "rt_reach cpu_only_strict add_id demo_frozen (rt_start demo_frozen 0 (\<lambda>_. 0)) s" "r_host s = HRet"
    then show False using never [of add_id 0 "\<lambda>_. 0" s] by simp
  qed
qed

end
