(* ===== verification/FL_Parking.thy ===== *)
theory FL_Parking
  imports FL_Prelude
begin

text \<open>
  Parking of the CPU workers (\<open>src/src/runtime/runtime.cpp\<close>, \<open>start\<close>, \<open>run\<close>, \<open>stop\<close> and
  \<open>worker\<close>). A worker that finds no run in flight spins for a while and then sleeps on a condition
  variable; \<open>run\<close> and \<open>stop\<close> change a flag outside the mutex, bump the generation counter under it
  and notify. The model has one step per load, store, lock, unlock and notification, a program
  counter per worker and one for the host, and lets the condition variable wake a worker for no
  reason. What a worker does between claiming a task and coming back to the head of its loop is one
  step here (\<open>FL_Runtime\<close> has it in detail), and the host may end a run at any moment, which allows
  more than the code does. Memory is sequentially consistent.

  The theorems: no notification is lost, whatever the interleaving; once a run is in flight every
  worker comes to scan the queues, and once \<open>stop\<close> joins every worker leaves its loop, in a bounded
  number of steps of the workers and without a deadlock.
\<close>

section \<open>The state\<close>

datatype worker_pc =
    No_thread                 \<comment> \<open>not spawned, or joined and cleared\<close>
  | Load_run_flag             \<comment> \<open>head of the loop\<close>
  | Load_active
  | Scan_queues               \<comment> \<open>pop the queues, execute and publish, \<open>continue\<close>\<close>
  | Spin_clock                \<comment> \<open>test of the idle window\<close>
  | Spin_active
  | Spin_run_flag
  | Park_lock                 \<comment> \<open>constructor of \<open>unique_lock\<close>\<close>
  | Park_snapshot
  | Pred_gen u64              \<comment> \<open>the predicate of the wait, one load each\<close>
  | Pred_active u64
  | Pred_run_flag u64
  | Wait_release u64          \<comment> \<open>predicate false, about to release the mutex and block\<close>
  | Asleep u64
  | Woken u64                 \<comment> \<open>notified, reacquiring the mutex\<close>
  | Park_unlock               \<comment> \<open>predicate true, end of the scope of the lock\<close>
  | Exited

datatype host_pc =
    Host_idle
  | Host_spawn nat            \<comment> \<open>in \<open>start\<close>, threads below this one spawned\<close>
  | Run_lock | Run_bump | Run_notify
  | Run_wait                  \<comment> \<open>publish the roots, wait for the end of the run\<close>
  | Stop_lock | Stop_bump | Stop_notify
  | Stop_join nat             \<comment> \<open>threads below this one joined\<close>

datatype mutex = Unlocked | By_host | By_worker nat

datatype host_call = Call_start | Call_run | Call_stop

record park =
  pk_run_flag :: bool
  pk_active :: bool
  pk_started :: bool
  pk_wake_gen :: u64
  pk_mu :: mutex
  pk_workers :: "nat \<Rightarrow> worker_pc"
  pk_host :: host_pc

definition park_init :: park where
  "park_init = \<lparr>pk_run_flag = False, pk_active = False, pk_started = False, pk_wake_gen = 0,
     pk_mu = Unlocked, pk_workers = (\<lambda>_. No_thread), pk_host = Host_idle\<rparr>"

section \<open>The steps\<close>

definition pk_goto :: "nat \<Rightarrow> worker_pc \<Rightarrow> park \<Rightarrow> park" where
  "pk_goto w pc s = s\<lparr>pk_workers := (pk_workers s)(w := pc)\<rparr>"

definition lock_worker :: "nat \<Rightarrow> worker_pc \<Rightarrow> park \<Rightarrow> park option" where
  "lock_worker w pc s = (if pk_mu s = Unlocked then Some (pk_goto w pc (s\<lparr>pk_mu := By_worker w\<rparr>)) else None)"

text \<open>
  One step of worker \<open>w\<close>; \<open>None\<close> when it cannot step. The flag is what the environment chooses: at
  \<open>Spin_clock\<close> that the idle window is still open, at \<open>Asleep\<close> a spurious wake-up.
\<close>

fun worker_step :: "nat \<Rightarrow> bool \<Rightarrow> park \<Rightarrow> park option" where
  "worker_step w e s = (case pk_workers s w of
     No_thread \<Rightarrow> None
   | Load_run_flag \<Rightarrow> Some (pk_goto w (if pk_run_flag s then Load_active else Exited) s)
   | Load_active \<Rightarrow> Some (pk_goto w (if pk_active s then Scan_queues else Spin_clock) s)
   | Scan_queues \<Rightarrow> Some (pk_goto w Load_run_flag s)
   | Spin_clock \<Rightarrow> Some (pk_goto w (if e then Spin_active else Park_lock) s)
   | Spin_active \<Rightarrow> Some (pk_goto w (if pk_active s then Load_run_flag else Spin_run_flag) s)
   | Spin_run_flag \<Rightarrow> Some (pk_goto w (if \<not> pk_run_flag s then Load_run_flag else Spin_clock) s)
   | Park_lock \<Rightarrow> lock_worker w Park_snapshot s
   | Park_snapshot \<Rightarrow> Some (pk_goto w (Pred_gen (pk_wake_gen s)) s)
   | Pred_gen gen \<Rightarrow> Some (pk_goto w (if pk_wake_gen s \<noteq> gen then Park_unlock else Pred_active gen) s)
   | Pred_active gen \<Rightarrow> Some (pk_goto w (if pk_active s then Park_unlock else Pred_run_flag gen) s)
   | Pred_run_flag gen \<Rightarrow> Some (pk_goto w (if \<not> pk_run_flag s then Park_unlock else Wait_release gen) s)
   | Wait_release gen \<Rightarrow> Some (pk_goto w (Asleep gen) (s\<lparr>pk_mu := Unlocked\<rparr>))
   | Asleep gen \<Rightarrow> (if e then Some (pk_goto w (Woken gen) s) else None)
   | Woken gen \<Rightarrow> lock_worker w (Pred_gen gen) s
   | Park_unlock \<Rightarrow> Some (pk_goto w Load_run_flag (s\<lparr>pk_mu := Unlocked\<rparr>))
   | Exited \<Rightarrow> None)"

fun woken :: "worker_pc \<Rightarrow> worker_pc" where
  "woken (Asleep gen) = Woken gen"
| "woken pc = pc"

definition notify_all :: "park \<Rightarrow> park" where
  "notify_all s = s\<lparr>pk_workers := woken \<circ> pk_workers s\<rparr>"

definition host_to :: "host_pc \<Rightarrow> park \<Rightarrow> park" where
  "host_to pc s = s\<lparr>pk_host := pc\<rparr>"

definition lock_host :: "host_pc \<Rightarrow> park \<Rightarrow> park option" where
  "lock_host pc s = (if pk_mu s = Unlocked then Some (host_to pc (s\<lparr>pk_mu := By_host\<rparr>)) else None)"

definition bump_gen :: "park \<Rightarrow> park" where
  "bump_gen s = s\<lparr>pk_wake_gen := pk_wake_gen s + 1, pk_mu := Unlocked\<rparr>"

definition start_call :: "park \<Rightarrow> park" where
  "start_call s = (if pk_started s then s else host_to (Host_spawn 0) (s\<lparr>pk_run_flag := True\<rparr>))"

definition start_spawn :: "nat \<Rightarrow> nat \<Rightarrow> park \<Rightarrow> park" where
  "start_spawn n i s = (if i < n then host_to (Host_spawn (Suc i)) (pk_goto i Load_run_flag s)
     else host_to Host_idle (s\<lparr>pk_started := True\<rparr>))"

definition run_call :: "park \<Rightarrow> park" where
  "run_call s = host_to Run_lock (s\<lparr>pk_active := True\<rparr>)"

definition run_end :: "park \<Rightarrow> park" where
  "run_end s = host_to Host_idle (s\<lparr>pk_active := False\<rparr>)"

definition stop_call :: "park \<Rightarrow> park" where
  "stop_call s = (if \<not> pk_started s then s else host_to Stop_lock (s\<lparr>pk_run_flag := False\<rparr>))"

definition stop_join :: "nat \<Rightarrow> nat \<Rightarrow> park \<Rightarrow> park option" where
  "stop_join n i s = (if i < n then (if pk_workers s i = Exited then Some (host_to (Stop_join (Suc i)) s) else None)
     else Some (host_to Host_idle (s\<lparr>pk_workers := \<lambda>_. No_thread, pk_started := False\<rparr>)))"

text \<open>One step of the host, with \<open>n\<close> threads configured; \<open>c\<close> is the call an idle host makes next.\<close>

fun pool_host_step :: "nat \<Rightarrow> host_call \<Rightarrow> park \<Rightarrow> park option" where
  "pool_host_step n c s = (case pk_host s of
     Host_idle \<Rightarrow> Some (case c of Call_start \<Rightarrow> start_call s | Call_run \<Rightarrow> run_call s | Call_stop \<Rightarrow> stop_call s)
   | Host_spawn i \<Rightarrow> Some (start_spawn n i s)
   | Run_lock \<Rightarrow> lock_host Run_bump s
   | Run_bump \<Rightarrow> Some (host_to Run_notify (bump_gen s))
   | Run_notify \<Rightarrow> Some (host_to Run_wait (notify_all s))
   | Run_wait \<Rightarrow> Some (run_end s)
   | Stop_lock \<Rightarrow> lock_host Stop_bump s
   | Stop_bump \<Rightarrow> Some (host_to Stop_notify (bump_gen s))
   | Stop_notify \<Rightarrow> Some (host_to (Stop_join 0) (notify_all s))
   | Stop_join i \<Rightarrow> stop_join n i s)"

lemmas pool_host_step_simps = pool_host_step.simps start_call_def start_spawn_def run_call_def run_end_def
  stop_call_def stop_join_def

inductive park_step :: "nat \<Rightarrow> park \<Rightarrow> park \<Rightarrow> bool" for n where
  by_host: "pool_host_step n c s = Some t \<Longrightarrow> park_step n s t"
| by_worker: "worker_step w e s = Some t \<Longrightarrow> park_step n s t"

definition park_reach :: "nat \<Rightarrow> park \<Rightarrow> bool" where
  "park_reach n s \<longleftrightarrow> (park_step n)\<^sup>*\<^sup>* park_init s"

declare worker_step.simps [simp del] pool_host_step.simps [simp del]

section \<open>The invariant\<close>

fun holds_mutex :: "worker_pc \<Rightarrow> bool" where
  "holds_mutex Park_snapshot = True"
| "holds_mutex (Pred_gen gen) = True"
| "holds_mutex (Pred_active gen) = True"
| "holds_mutex (Pred_run_flag gen) = True"
| "holds_mutex (Wait_release gen) = True"
| "holds_mutex Park_unlock = True"
| "holds_mutex _ = False"

text \<open>The host is inside a call that has changed a flag and has not notified yet.\<close>

fun must_notify :: "host_pc \<Rightarrow> bool" where
  "must_notify Run_lock = True"
| "must_notify Run_bump = True"
| "must_notify Run_notify = True"
| "must_notify Stop_lock = True"
| "must_notify Stop_bump = True"
| "must_notify Stop_notify = True"
| "must_notify _ = False"

text \<open>The host has changed a flag and has not taken the mutex yet.\<close>

definition must_lock :: "host_pc \<Rightarrow> bool" where
  "must_lock pc \<longleftrightarrow> pc = Run_lock \<or> pc = Stop_lock"

fun wait_ok :: "bool \<Rightarrow> bool \<Rightarrow> host_pc \<Rightarrow> worker_pc \<Rightarrow> bool" where
  "wait_ok act run h (Pred_run_flag gen) = (act \<longrightarrow> must_lock h)"
| "wait_ok act run h (Wait_release gen) = (act \<or> \<not> run \<longrightarrow> must_lock h)"
| "wait_ok act run h (Asleep gen) = (act \<or> \<not> run \<longrightarrow> must_notify h)"
| "wait_ok act run h Exited = (\<not> run)"
| "wait_ok act run h _ = True"

text \<open>What the position of the host says of the flags and of the threads that exist.\<close>

fun host_ok :: "nat \<Rightarrow> host_pc \<Rightarrow> bool \<Rightarrow> bool \<Rightarrow> bool \<Rightarrow> nat \<Rightarrow> bool" where
  "host_ok n Host_idle run act st k = (\<not> act \<and> run = st \<and> k = (if st then n else 0))"
| "host_ok n (Host_spawn i) run act st k = (\<not> act \<and> run \<and> \<not> st \<and> i \<le> n \<and> k = i)"
| "host_ok n Stop_lock run act st k = (\<not> act \<and> \<not> run \<and> st \<and> k = n)"
| "host_ok n Stop_bump run act st k = (\<not> act \<and> \<not> run \<and> st \<and> k = n)"
| "host_ok n Stop_notify run act st k = (\<not> act \<and> \<not> run \<and> st \<and> k = n)"
| "host_ok n (Stop_join i) run act st k = (\<not> act \<and> \<not> run \<and> st \<and> k = n)"
| "host_ok n _ run act st k = (act \<and> run = st \<and> k = (if st then n else 0))"

definition host_owns :: "host_pc \<Rightarrow> bool" where
  "host_owns pc \<longleftrightarrow> pc = Run_bump \<or> pc = Stop_bump"

definition threads :: "(nat \<Rightarrow> worker_pc) \<Rightarrow> nat set" where
  "threads ws = {w. ws w \<noteq> No_thread}"

fun joined :: "host_pc \<Rightarrow> (nat \<Rightarrow> worker_pc) \<Rightarrow> bool" where
  "joined (Stop_join i) ws = (\<forall>w < i. ws w = Exited)"
| "joined _ ws = True"

definition park_inv :: "nat \<Rightarrow> park \<Rightarrow> bool" where
  "park_inv n s \<longleftrightarrow>
     (\<exists>k. host_ok n (pk_host s) (pk_run_flag s) (pk_active s) (pk_started s) k \<and>
          threads (pk_workers s) = {..<k}) \<and>
     (\<forall>w. pk_mu s = By_worker w \<longleftrightarrow> holds_mutex (pk_workers s w)) \<and>
     (pk_mu s = By_host \<longleftrightarrow> host_owns (pk_host s)) \<and>
     joined (pk_host s) (pk_workers s) \<and>
     (\<forall>w. wait_ok (pk_active s) (pk_run_flag s) (pk_host s) (pk_workers s w))"

lemma threads_upd [simp]: "ws w \<noteq> No_thread \<Longrightarrow> pc \<noteq> No_thread \<Longrightarrow> threads (ws(w := pc)) = threads ws"
  by (auto simp: threads_def)

lemma threads_spawn [simp]: "pc \<noteq> No_thread \<Longrightarrow> threads ws = {..<i} \<Longrightarrow> threads (ws(i := pc)) = {..<Suc i}"
  by (auto simp: threads_def set_eq_iff less_Suc_eq)

lemma threads_none [simp]: "threads (\<lambda>_. No_thread) = {..<0}"
  by (simp add: threads_def)

lemma pk_goto_sel [simp]:
  "pk_workers (pk_goto w pc s) = (pk_workers s)(w := pc)"
  "pk_run_flag (pk_goto w pc s) = pk_run_flag s" "pk_active (pk_goto w pc s) = pk_active s"
  "pk_started (pk_goto w pc s) = pk_started s" "pk_wake_gen (pk_goto w pc s) = pk_wake_gen s"
  "pk_mu (pk_goto w pc s) = pk_mu s" "pk_host (pk_goto w pc s) = pk_host s"
  by (simp_all add: pk_goto_def)

lemma host_to_sel [simp]:
  "pk_workers (host_to pc s) = pk_workers s" "pk_host (host_to pc s) = pc"
  "pk_run_flag (host_to pc s) = pk_run_flag s" "pk_active (host_to pc s) = pk_active s"
  "pk_started (host_to pc s) = pk_started s" "pk_wake_gen (host_to pc s) = pk_wake_gen s"
  "pk_mu (host_to pc s) = pk_mu s"
  by (simp_all add: host_to_def)

lemma woken_simps [simp]:
  "woken pc = No_thread \<longleftrightarrow> pc = No_thread"
  "holds_mutex (woken pc) = holds_mutex pc"
  "woken pc \<noteq> Asleep gen"
  by (cases pc; simp)+

lemma threads_woken [simp]: "threads (woken \<circ> ws) = threads ws"
  by (simp add: threads_def)

lemma joined_upd [simp]: "ws w \<noteq> Exited \<Longrightarrow> joined h ws \<Longrightarrow> joined h (ws(w := pc))"
  by (cases h) auto

lemma joined_trivial: "(\<And>i. h \<noteq> Stop_join i) \<Longrightarrow> joined h ws"
  by (cases h) auto

lemma park_invD:
  assumes "park_inv n s"
  shows "\<exists>k. host_ok n (pk_host s) (pk_run_flag s) (pk_active s) (pk_started s) k \<and>
      threads (pk_workers s) = {..<k}"
    and "pk_mu s = By_worker w \<longleftrightarrow> holds_mutex (pk_workers s w)"
    and "pk_mu s = By_host \<longleftrightarrow> host_owns (pk_host s)"
    and "wait_ok (pk_active s) (pk_run_flag s) (pk_host s) (pk_workers s w)"
    and "joined (pk_host s) (pk_workers s)"
  using assms unfolding park_inv_def by blast+

lemma park_inv_goto:
  assumes inv: "park_inv n s" and w: "pk_workers s w \<noteq> No_thread" "pk_workers s w \<noteq> Exited" "pc \<noteq> No_thread"
    and mu: "holds_mutex pc = holds_mutex (pk_workers s w)"
    and ok: "wait_ok (pk_active s) (pk_run_flag s) (pk_host s) pc"
  shows "park_inv n (pk_goto w pc s)"
  using inv w mu ok unfolding park_inv_def by simp

lemma park_inv_lock:
  assumes inv: "park_inv n s" and w: "pk_workers s w \<noteq> No_thread" "pk_workers s w \<noteq> Exited" "pc \<noteq> No_thread"
    and mu: "holds_mutex pc"
    and ok: "wait_ok (pk_active s) (pk_run_flag s) (pk_host s) pc"
    and t: "lock_worker w pc s = Some t"
  shows "park_inv n t"
proof -
  from t have free: "pk_mu s = Unlocked" and t': "t = pk_goto w pc (s\<lparr>pk_mu := By_worker w\<rparr>)"
    by (auto simp: lock_worker_def split: if_splits)
  from inv free have no: "\<not> holds_mutex (pk_workers s v)" for v
    using park_invD(2) [OF inv, of v] by simp
  from inv free have nh: "\<not> host_owns (pk_host s)"
    using park_invD(3) [OF inv] by simp
  show ?thesis using inv w mu ok no nh unfolding park_inv_def t' by auto
qed

lemma park_inv_unlock:
  assumes inv: "park_inv n s" and w: "holds_mutex (pk_workers s w)" "pc \<noteq> No_thread"
    and mu: "\<not> holds_mutex pc"
    and ok: "wait_ok (pk_active s) (pk_run_flag s) (pk_host s) pc"
  shows "park_inv n (pk_goto w pc (s\<lparr>pk_mu := Unlocked\<rparr>))"
proof -
  have own: "pk_mu s = By_worker w" using park_invD(2) [OF inv, of w] w(1) by simp
  then have "v \<noteq> w \<Longrightarrow> \<not> holds_mutex (pk_workers s v)" for v
    using park_invD(2) [OF inv, of v] by simp
  moreover have "pk_workers s w \<noteq> No_thread" "pk_workers s w \<noteq> Exited" using w(1) by auto
  moreover have "\<not> host_owns (pk_host s)" using park_invD(3) [OF inv] own by simp
  ultimately show ?thesis using inv w(2) mu ok unfolding park_inv_def by simp
qed

lemma must_lock_notify: "must_lock h \<Longrightarrow> must_notify h"
  by (auto simp: must_lock_def)

lemma park_inv_worker:
  assumes inv: "park_inv n s" and t: "worker_step w e s = Some t"
  shows "park_inv n t"
proof -
  have ok: "wait_ok (pk_active s) (pk_run_flag s) (pk_host s) (pk_workers s w)"
    by (rule park_invD(4) [OF inv])
  show ?thesis
    using t ok
    by (cases "pk_workers s w")
      (auto simp: worker_step.simps must_lock_notify split: if_splits
        intro!: park_inv_goto [OF inv] park_inv_unlock [OF inv]
        elim!: park_inv_lock [OF inv, rotated -1])
qed

text \<open>When the host moves and leaves the mutex and the workers alone, only the waits have to be checked.\<close>

lemma park_inv_host_move:
  assumes inv: "park_inv n s"
    and same: "pk_workers t = pk_workers s" "pk_mu t = pk_mu s" "host_owns (pk_host t) = host_owns (pk_host s)"
    and host: "\<And>k. host_ok n (pk_host s) (pk_run_flag s) (pk_active s) (pk_started s) k \<Longrightarrow>
      host_ok n (pk_host t) (pk_run_flag t) (pk_active t) (pk_started t) k"
    and join: "joined (pk_host t) (pk_workers s)"
    and wait: "\<And>pc. pc \<in> range (pk_workers s) \<Longrightarrow> wait_ok (pk_active s) (pk_run_flag s) (pk_host s) pc \<Longrightarrow>
      wait_ok (pk_active t) (pk_run_flag t) (pk_host t) pc"
  shows "park_inv n t"
  using inv host join wait unfolding park_inv_def same by blast

lemma wait_ok_flag_set: "wait_ok act run h pc \<Longrightarrow> must_lock h' \<Longrightarrow> (run' \<Longrightarrow> run) \<Longrightarrow> wait_ok act' run' h' pc"
  by (cases pc) (auto simp: must_lock_def)

lemma wait_ok_locked: "wait_ok act run h pc \<Longrightarrow> must_lock h \<Longrightarrow> \<not> holds_mutex pc \<Longrightarrow> must_notify h' \<Longrightarrow>
    wait_ok act run h' pc"
  by (cases pc) (auto simp: must_lock_def)

lemma wait_ok_quiet: "wait_ok act run h pc \<Longrightarrow> run \<Longrightarrow> wait_ok False True h' pc"
  by (cases pc) auto

lemma wait_ok_woken: "wait_ok act run h pc \<Longrightarrow> must_lock h' \<or> \<not> must_lock h \<Longrightarrow> wait_ok act run h' (woken pc)"
  by (cases pc) auto

lemma park_inv_lock_host:
  assumes inv: "park_inv n s" and t: "lock_host pc s = Some t"
    and h: "must_lock (pk_host s)" "host_owns pc" "must_notify pc"
    and host: "\<And>k. host_ok n (pk_host s) (pk_run_flag s) (pk_active s) (pk_started s) k \<Longrightarrow>
      host_ok n pc (pk_run_flag s) (pk_active s) (pk_started s) k"
  shows "park_inv n t"
proof -
  from t have free: "pk_mu s = Unlocked" and t': "t = host_to pc (s\<lparr>pk_mu := By_host\<rparr>)"
    by (auto simp: lock_host_def split: if_splits)
  have no: "\<not> holds_mutex (pk_workers s v)" for v
    using park_invD(2) [OF inv, of v] free by simp
  have "wait_ok (pk_active s) (pk_run_flag s) pc (pk_workers s v)" for v
    by (rule wait_ok_locked [OF park_invD(4) [OF inv] h(1) no h(3)])
  moreover have "joined pc (pk_workers s)" using h(2) by (auto simp: host_owns_def)
  ultimately show ?thesis
    using no host h(2) park_invD(1) [OF inv] unfolding park_inv_def t' by auto
qed

lemma park_inv_bump:
  assumes inv: "park_inv n s" and own: "host_owns (pk_host s)" and h: "must_notify pc" "\<not> host_owns pc"
    and host: "\<And>k. host_ok n (pk_host s) (pk_run_flag s) (pk_active s) (pk_started s) k \<Longrightarrow>
      host_ok n pc (pk_run_flag s) (pk_active s) (pk_started s) k"
  shows "park_inv n (host_to pc (bump_gen s))"
proof -
  have mu: "pk_mu s = By_host" using park_invD(3) [OF inv] own by simp
  have no: "\<not> holds_mutex (pk_workers s v)" for v
    using park_invD(2) [OF inv, of v] mu by simp
  have "wait_ok (pk_active s) (pk_run_flag s) pc (pk_workers s v)" for v
    using park_invD(4) [OF inv, of v] no [of v] h(1) by (cases "pk_workers s v") auto
  moreover have "joined pc (pk_workers s)" using h(1) by (auto intro: joined_trivial)
  ultimately show ?thesis
    using no host h(2) park_invD(1) [OF inv] unfolding park_inv_def bump_gen_def by auto
qed

lemma park_inv_notify:
  assumes inv: "park_inv n s" and h: "\<not> must_lock (pk_host s)" "\<not> host_owns (pk_host s)" "\<not> host_owns pc"
    and host: "\<And>k. host_ok n (pk_host s) (pk_run_flag s) (pk_active s) (pk_started s) k \<Longrightarrow>
      host_ok n pc (pk_run_flag s) (pk_active s) (pk_started s) k"
    and join: "\<And>ws. joined pc ws"
  shows "park_inv n (host_to pc (notify_all s))"
proof -
  have "wait_ok (pk_active s) (pk_run_flag s) pc (woken (pk_workers s v))" for v
    by (rule wait_ok_woken [OF park_invD(4) [OF inv]]) (use h in simp)
  then show ?thesis
    using inv h(2,3) host join unfolding park_inv_def notify_all_def by auto
qed

lemma park_inv_init: "park_inv n park_init"
  by (simp add: park_inv_def park_init_def host_owns_def)

lemma no_threads: "threads ws = {..<0} \<Longrightarrow> ws w = No_thread"
  by (auto simp: threads_def)

lemma park_inv_idle:
  assumes inv: "park_inv n s" and h: "pk_host s = Host_idle" and t: "pool_host_step n c s = Some t"
  shows "park_inv n t"
proof (cases c)
  case Call_start
  show ?thesis
  proof (cases "pk_started s")
    case False
    then have "threads (pk_workers s) = {..<0}" using park_invD(1) [OF inv] h by auto
    then have none: "pk_workers s w = No_thread" for w by (rule no_threads)
    have "park_inv n (host_to (Host_spawn 0) (s\<lparr>pk_run_flag := True\<rparr>))"
      by (rule park_inv_host_move [OF inv]) (use h False none in \<open>auto simp: host_owns_def\<close>)
    then show ?thesis using t h Call_start False by (simp add: pool_host_step_simps)
  qed (use t h Call_start inv in \<open>simp add: pool_host_step_simps\<close>)
next
  case Call_run
  have "park_inv n (host_to Run_lock (s\<lparr>pk_active := True\<rparr>))"
    by (rule park_inv_host_move [OF inv])
      (use h in \<open>auto simp: host_owns_def must_lock_def elim: wait_ok_flag_set\<close>)
  then show ?thesis using t h Call_run by (simp add: pool_host_step_simps)
next
  case Call_stop
  have "park_inv n (host_to Stop_lock (s\<lparr>pk_run_flag := False\<rparr>))" if "pk_started s"
    by (rule park_inv_host_move [OF inv])
      (use h that in \<open>auto simp: host_owns_def must_lock_def elim: wait_ok_flag_set\<close>)
  then show ?thesis using t h Call_stop inv by (auto simp: pool_host_step_simps split: if_splits)
qed

lemma park_inv_spawn:
  assumes inv: "park_inv n s" and h: "pk_host s = Host_spawn i" and t: "pool_host_step n c s = Some t"
  shows "park_inv n t"
proof -
  have free: "threads (pk_workers s) = {..<i}" and fl: "i \<le> n" "\<not> pk_active s" "pk_run_flag s" "\<not> pk_started s"
    using park_invD(1) [OF inv] h by auto
  have i: "pk_workers s i = No_thread" using free by (auto simp: threads_def)
  have mu: "pk_mu s \<noteq> By_host" "pk_mu s \<noteq> By_worker i"
    using park_invD(2) [OF inv, of i] park_invD(3) [OF inv] h i by (auto simp: host_owns_def)
  have ok: "wait_ok False True h' (pk_workers s w)" for h' w
    by (rule wait_ok_quiet [OF park_invD(4) [OF inv] fl(3)])
  show ?thesis
  proof (cases "i < n")
    case True
    then have t': "t = host_to (Host_spawn (Suc i)) (pk_goto i Load_run_flag s)"
      using t h by (simp add: pool_host_step_simps)
    show ?thesis
      using True fl free mu ok park_invD(2) [OF inv] unfolding park_inv_def t' by (auto simp: host_owns_def)
  next
    case False
    then have "i = n" "t = host_to Host_idle (s\<lparr>pk_started := True\<rparr>)"
      using fl t h by (simp_all add: pool_host_step_simps)
    with fl free ok h show ?thesis
      by (auto simp: host_owns_def intro!: park_inv_host_move [OF inv])
  qed
qed

lemma park_inv_end_run:
  assumes inv: "park_inv n s" and h: "pk_host s = Run_wait" and t: "pool_host_step n c s = Some t"
  shows "park_inv n t"
proof -
  have t': "t = host_to Host_idle (s\<lparr>pk_active := False\<rparr>)" using t h by (simp add: pool_host_step_simps)
  have w: "wait_ok False (pk_run_flag s) Host_idle (pk_workers s w)" for w
  proof (cases "pk_run_flag s")
    case True
    then show ?thesis using wait_ok_quiet [OF park_invD(4) [OF inv]] by simp
  next
    case False
    then have "threads (pk_workers s) = {..<0}" using park_invD(1) [OF inv] h by auto
    then show ?thesis by (simp only: no_threads wait_ok.simps)
  qed
  show ?thesis
    unfolding t' by (rule park_inv_host_move [OF inv]) (use h w in \<open>auto simp: host_owns_def\<close>)
qed

lemma park_inv_join:
  assumes inv: "park_inv n s" and h: "pk_host s = Stop_join i" and t: "pool_host_step n c s = Some t"
  shows "park_inv n t"
proof (cases "i < n")
  case True
  then have ex: "pk_workers s i = Exited" and t': "t = host_to (Stop_join (Suc i)) s"
    using t h by (simp_all add: pool_host_step_simps split: if_splits)
  have "wait_ok act run (Stop_join (Suc i)) pc = wait_ok act run (Stop_join i) pc" for act run pc
    by (cases pc) (auto simp: must_lock_def)
  moreover have "joined (Stop_join (Suc i)) (pk_workers s)"
    using ex park_invD(5) [OF inv] h by (simp add: less_Suc_eq)
  ultimately show ?thesis
    unfolding t' by (intro park_inv_host_move [OF inv]) (simp_all add: h host_owns_def)
next
  case False
  then have t': "t = host_to Host_idle (s\<lparr>pk_workers := \<lambda>_. No_thread, pk_started := False\<rparr>)"
    using t h by (simp add: pool_host_step_simps)
  have fl: "threads (pk_workers s) = {..<n}" "\<not> pk_active s" "\<not> pk_run_flag s" and ex: "w < i \<Longrightarrow> pk_workers s w = Exited" for w
    using park_invD(1) [OF inv] park_invD(5) [OF inv] h by auto
  have "\<not> holds_mutex (pk_workers s w)" for w
  proof (cases "w < n")
    case True
    with False ex [of w] show ?thesis by simp
  next
    case F: False
    then have "pk_workers s w = No_thread" using fl(1) by (auto simp: threads_def)
    then show ?thesis by simp
  qed
  then show ?thesis
    using fl park_invD(2) [OF inv] park_invD(3) [OF inv] h unfolding park_inv_def t'
    by (auto simp: host_owns_def)
qed

lemma park_inv_host:
  assumes inv: "park_inv n s" and t: "pool_host_step n c s = Some t"
  shows "park_inv n t"
proof (cases "pk_host s")
  case Host_idle
  then show ?thesis using park_inv_idle [OF inv _ t] by simp
next
  case (Host_spawn i)
  then show ?thesis using park_inv_spawn [OF inv _ t] by simp
next
  case Run_lock
  then have "lock_host Run_bump s = Some t" using t by (simp add: pool_host_step_simps)
  from park_inv_lock_host [OF inv this] show ?thesis
    using Run_lock by (simp add: must_lock_def host_owns_def)
next
  case Run_bump
  have "park_inv n (host_to Run_notify (bump_gen s))"
    by (rule park_inv_bump [OF inv]) (simp_all add: Run_bump host_owns_def)
  then show ?thesis using t Run_bump by (simp add: pool_host_step_simps)
next
  case Run_notify
  have "park_inv n (host_to Run_wait (notify_all s))"
    by (rule park_inv_notify [OF inv]) (simp_all add: Run_notify host_owns_def must_lock_def)
  then show ?thesis using t Run_notify by (simp add: pool_host_step_simps)
next
  case Run_wait
  then show ?thesis using park_inv_end_run [OF inv _ t] by simp
next
  case Stop_lock
  then have "lock_host Stop_bump s = Some t" using t by (simp add: pool_host_step_simps)
  from park_inv_lock_host [OF inv this] show ?thesis
    using Stop_lock by (simp add: must_lock_def host_owns_def)
next
  case Stop_bump
  have "park_inv n (host_to Stop_notify (bump_gen s))"
    by (rule park_inv_bump [OF inv]) (simp_all add: Stop_bump host_owns_def)
  then show ?thesis using t Stop_bump by (simp add: pool_host_step_simps)
next
  case Stop_notify
  have "park_inv n (host_to (Stop_join 0) (notify_all s))"
    by (rule park_inv_notify [OF inv]) (simp_all add: Stop_notify host_owns_def must_lock_def)
  then show ?thesis using t Stop_notify by (simp add: pool_host_step_simps)
next
  case (Stop_join i)
  then show ?thesis using park_inv_join [OF inv _ t] by simp
qed

lemma park_reach_inv: "park_reach n s \<Longrightarrow> park_inv n s"
  unfolding park_reach_def
proof (induction rule: rtranclp_induct)
  case base
  show ?case by (rule park_inv_init)
next
  case (step s t)
  then show ?case by (auto elim!: park_step.cases intro: park_inv_host park_inv_worker)
qed

section \<open>No notification is lost\<close>

text \<open>C11: no wake-up is lost. In every reachable state of the pool, whatever the interleaving of the
  host and the workers and whatever spurious wake-ups occur, a worker that is asleep on the
  condition variable while a run is in flight or the pool is being stopped still has a notification
  coming: the host is inside the call that changed the flag and has not notified yet. So in the wait
  of \<open>run\<close> and in the joins of \<open>stop\<close> nobody is asleep. This needs the flags in the predicate of the
  wait: the host stores them before it takes the mutex, and a worker may take the mutex after the
  counter is bumped and snapshot the new generation.\<close>

theorem no_lost_wakeup:
  assumes "park_reach n s" and "pk_workers s w = Asleep gen" and "pk_active s \<or> \<not> pk_run_flag s"
  shows "must_notify (pk_host s)"
  using park_invD(4) [OF park_reach_inv [OF assms(1)], of w] assms(2,3) by simp

section \<open>The pool wakes and stops\<close>

text \<open>
  A schedule of workers, each with its choice at the clock and at a spurious wake-up, in which a
  worker that has arrived at \<open>goal\<close> rests; \<open>None\<close> when the schedule names a worker that cannot step.
\<close>

fun worker_run :: "worker_pc \<Rightarrow> (nat \<times> bool) list \<Rightarrow> park \<Rightarrow> park option" where
  "worker_run goal [] s = Some s"
| "worker_run goal ((w, e) # sched) s = (if pk_workers s w = goal then None
     else case worker_step w e s of None \<Rightarrow> None | Some t \<Rightarrow> worker_run goal sched t)"

lemma worker_run_snoc: "worker_run goal sched s = Some t \<Longrightarrow>
    worker_run goal (sched @ [(w, e)]) s = worker_run goal [(w, e)] t"
  by (induction goal sched s rule: worker_run.induct) (auto split: if_splits option.splits)

lemma lock_worker_others: "lock_worker w pc s = Some t \<Longrightarrow> v \<noteq> w \<Longrightarrow>
    pk_workers t v = pk_workers s v \<and> pk_host t = pk_host s"
  by (auto simp: lock_worker_def split: if_splits)

lemma worker_step_others:
  "worker_step w e s = Some t \<Longrightarrow> v \<noteq> w \<Longrightarrow> pk_workers t v = pk_workers s v"
  by (cases "pk_workers s w") (auto simp: worker_step.simps dest: lock_worker_others split: if_splits)

lemma worker_step_host: "worker_step w e s = Some t \<Longrightarrow> pk_host t = pk_host s"
  by (cases "pk_workers s w") (auto simp: worker_step.simps lock_worker_def split: if_splits)

lemma holder_steps: "holds_mutex (pk_workers s w) \<Longrightarrow> worker_step w e s \<noteq> None"
  by (cases "pk_workers s w") (auto simp: worker_step.simps)

lemma blocked_cases:
  assumes "worker_step w e s = None" and "pk_workers s w \<noteq> No_thread" "pk_workers s w \<noteq> Exited"
  shows "(\<exists>gen. pk_workers s w = Asleep gen) \<or> pk_mu s \<noteq> Unlocked"
  using assms by (cases "pk_workers s w") (auto simp: worker_step.simps lock_worker_def split: if_splits)

text \<open>
  A phase of the pool: a set of states the workers' steps keep, in which every thread exists, nobody
  sleeps, the host does not hold the mutex, and every step that is not taken from the goal brings
  its worker closer to it.
\<close>

locale pool_phase =
  fixes n :: nat and phase :: "park \<Rightarrow> bool" and goal :: worker_pc and rank :: "worker_pc \<Rightarrow> nat"
  assumes phase_inv: "phase s \<Longrightarrow> park_inv n s"
    and phase_threads: "phase s \<Longrightarrow> threads (pk_workers s) = {..<n}"
    and phase_awake: "phase s \<Longrightarrow> pk_workers s w \<noteq> Asleep gen"
    and phase_mutex: "phase s \<Longrightarrow> pk_mu s \<noteq> By_host"
    and phase_step: "phase s \<Longrightarrow> worker_step w e s = Some t \<Longrightarrow> phase t"
    and phase_rank: "phase s \<Longrightarrow> pk_workers s w \<noteq> goal \<Longrightarrow> worker_step w e s = Some t \<Longrightarrow>
      rank (pk_workers t w) < rank (pk_workers s w)"
    and phase_exit: "phase s \<Longrightarrow> pk_workers s w = Exited \<Longrightarrow> goal = Exited"
    and goal_free: "\<not> holds_mutex goal"
    and rank_bound: "rank pc \<le> 9"
begin

definition total :: "park \<Rightarrow> nat" where
  "total s = (\<Sum>w<n. rank (pk_workers s w))"

lemma stepper_lt:
  assumes "phase s" and "worker_step w e s = Some t"
  shows "w < n"
proof -
  have "pk_workers s w \<noteq> No_thread" using assms(2) by (auto simp: worker_step.simps)
  then have "w \<in> threads (pk_workers s)" by (simp add: threads_def)
  then show ?thesis using phase_threads [OF assms(1)] by simp
qed

lemma total_less:
  assumes ph: "phase s" and g: "pk_workers s w \<noteq> goal" and t: "worker_step w e s = Some t"
  shows "total t < total s"
  unfolding total_def
proof (rule sum_strict_mono_ex1)
  show "\<forall>v\<in>{..<n}. rank (pk_workers t v) \<le> rank (pk_workers s v)"
    using phase_rank [OF ph g t] worker_step_others [OF t] by (metis less_imp_le order_refl)
  show "\<exists>v\<in>{..<n}. rank (pk_workers t v) < rank (pk_workers s v)"
    using phase_rank [OF ph g t] stepper_lt [OF ph t] by blast
qed simp

lemma run_total: "phase s \<Longrightarrow> worker_run goal sched s = Some t \<Longrightarrow> phase t \<and> length sched + total t \<le> total s"
proof (induction sched arbitrary: s)
  case (Cons we sched)
  obtain w e where we: "we = (w, e)" by (cases we)
  with Cons.prems obtain u where g: "pk_workers s w \<noteq> goal" and u: "worker_step w e s = Some u"
    and run: "worker_run goal sched u = Some t"
    by (auto split: if_splits option.splits)
  from Cons.IH [OF phase_step [OF Cons.prems(1) u] run] total_less [OF Cons.prems(1) g u]
  show ?case by simp
qed simp

lemma run_length: "phase s \<Longrightarrow> worker_run goal sched s = Some t \<Longrightarrow> length sched \<le> 9 * n"
proof -
  assume "phase s" and "worker_run goal sched s = Some t"
  then have "length sched \<le> total s" using run_total by fastforce
  also have "total s \<le> of_nat (card {..<n}) * 9"
    unfolding total_def by (rule sum_bounded_above) (rule rank_bound)
  finally show ?thesis by simp
qed

lemma pool_progress:
  assumes ph: "phase s" and w: "w < n" "pk_workers s w \<noteq> goal"
  shows "\<exists>v e. worker_run goal [(v, e)] s \<noteq> None"
proof -
  have alive: "pk_workers s w \<noteq> No_thread" "pk_workers s w \<noteq> Exited"
    using phase_threads [OF ph] phase_exit [OF ph] w by (auto simp: threads_def)
  show ?thesis
  proof (cases "worker_step w True s")
    case None
    then obtain v where v: "pk_mu s = By_worker v"
      using blocked_cases [OF None alive] phase_awake [OF ph] phase_mutex [OF ph] by (cases "pk_mu s") auto
    then have h: "holds_mutex (pk_workers s v)" using park_invD(2) [OF phase_inv [OF ph]] by simp
    then have "pk_workers s v \<noteq> goal" using goal_free by auto
    with holder_steps [OF h, of True] have "worker_run goal [(v, True)] s \<noteq> None" by auto
    then show ?thesis by blast
  next
    case (Some t)
    then have "worker_run goal [(w, True)] s \<noteq> None" using w(2) by simp
    then show ?thesis by blast
  qed
qed

lemma settles:
  assumes "phase s" and "worker_run goal sched s = Some t"
  shows "length sched \<le> 9 * n \<and> ((\<forall>w<n. pk_workers t w = goal) \<or>
    (\<exists>w e. worker_run goal (sched @ [(w, e)]) s \<noteq> None))"
proof -
  have "phase t" using run_total assms by blast
  then have "\<exists>v e. worker_run goal [(v, e)] t \<noteq> None" if "w < n" "pk_workers t w \<noteq> goal" for w
    using pool_progress that by blast
  then show ?thesis
    unfolding worker_run_snoc [OF assms(2)] using run_length [OF assms] by blast
qed

end

subsection \<open>While a run is in flight\<close>

fun scan_rank :: "worker_pc \<Rightarrow> nat" where
  "scan_rank Load_active = 1"
| "scan_rank Load_run_flag = 2"
| "scan_rank Spin_active = 3"
| "scan_rank Park_unlock = 3"
| "scan_rank (Pred_active gen) = 4"
| "scan_rank (Pred_gen gen) = 5"
| "scan_rank Park_snapshot = 6"
| "scan_rank (Woken gen) = 6"
| "scan_rank Park_lock = 7"
| "scan_rank Spin_clock = 8"
| "scan_rank Spin_run_flag = 9"
| "scan_rank _ = 0"

definition in_run :: "nat \<Rightarrow> park \<Rightarrow> bool" where
  "in_run n s \<longleftrightarrow> park_inv n s \<and> pk_host s = Run_wait \<and> pk_started s"

lemma worker_step_started: "worker_step w e s = Some t \<Longrightarrow> pk_started t = pk_started s"
  by (cases "pk_workers s w") (auto simp: worker_step.simps lock_worker_def split: if_splits)

lemma in_runD:
  assumes "in_run n s"
  shows "park_inv n s" "pk_active s" "pk_run_flag s" "threads (pk_workers s) = {..<n}" "pk_mu s \<noteq> By_host"
    "wait_ok True True Run_wait (pk_workers s w)"
proof -
  show inv: "park_inv n s" using assms by (simp add: in_run_def)
  show fl: "pk_active s" "pk_run_flag s" "threads (pk_workers s) = {..<n}"
    using park_invD(1) [OF inv] assms by (auto simp: in_run_def)
  show "pk_mu s \<noteq> By_host" using park_invD(3) [OF inv] assms by (simp add: in_run_def host_owns_def)
  show "wait_ok True True Run_wait (pk_workers s w)"
    using park_invD(4) [OF inv, of w] fl assms by (simp add: in_run_def)
qed

interpretation scan: pool_phase n "in_run n" Scan_queues scan_rank for n
proof unfold_locales
  fix s t w e gen and pc :: worker_pc
  assume s: "in_run n s"
  note d = in_runD [OF s]
  show "park_inv n s" "threads (pk_workers s) = {..<n}" "pk_mu s \<noteq> By_host" by (rule d)+
  show "pk_workers s w \<noteq> Asleep gen" using d(6) [of w] by auto
  show "pk_workers s w = Exited \<Longrightarrow> Scan_queues = Exited" using d(6) [of w] by auto
  show "in_run n t" if "worker_step w e s = Some t"
    using s that park_inv_worker [OF d(1) that] by (simp add: in_run_def worker_step_host worker_step_started)
  show "scan_rank (pk_workers t w) < scan_rank (pk_workers s w)"
    if "pk_workers s w \<noteq> Scan_queues" "worker_step w e s = Some t"
    using that d(2,3) d(6) [of w]
    by (cases "pk_workers s w") (auto simp: worker_step.simps lock_worker_def must_lock_def split: if_splits)
next
  fix pc :: worker_pc
  show "scan_rank pc \<le> 9" by (cases pc) auto
qed simp

subsection \<open>While the pool is being joined\<close>

fun exit_rank :: "worker_pc \<Rightarrow> nat" where
  "exit_rank Load_run_flag = 1"
| "exit_rank Scan_queues = 2"
| "exit_rank Spin_run_flag = 2"
| "exit_rank Park_unlock = 2"
| "exit_rank Spin_active = 3"
| "exit_rank (Pred_run_flag gen) = 3"
| "exit_rank (Pred_active gen) = 4"
| "exit_rank (Pred_gen gen) = 5"
| "exit_rank Park_snapshot = 6"
| "exit_rank (Woken gen) = 6"
| "exit_rank Park_lock = 7"
| "exit_rank Spin_clock = 8"
| "exit_rank Load_active = 9"
| "exit_rank _ = 0"

definition in_join :: "nat \<Rightarrow> park \<Rightarrow> bool" where
  "in_join n s \<longleftrightarrow> park_inv n s \<and> (\<exists>i. pk_host s = Stop_join i)"

lemma in_joinD:
  assumes "in_join n s"
  shows "park_inv n s" "\<not> pk_active s" "\<not> pk_run_flag s" "threads (pk_workers s) = {..<n}" "pk_mu s \<noteq> By_host"
    "\<exists>i. wait_ok False False (Stop_join i) (pk_workers s w)"
proof -
  show inv: "park_inv n s" using assms by (simp add: in_join_def)
  obtain i where h: "pk_host s = Stop_join i" using assms by (auto simp: in_join_def)
  show fl: "\<not> pk_active s" "\<not> pk_run_flag s" "threads (pk_workers s) = {..<n}"
    using park_invD(1) [OF inv] unfolding h by auto
  show "pk_mu s \<noteq> By_host" using park_invD(3) [OF inv] by (simp add: h host_owns_def)
  show "\<exists>i. wait_ok False False (Stop_join i) (pk_workers s w)"
    using park_invD(4) [OF inv, of w] fl unfolding h by auto
qed

interpretation leave: pool_phase n "in_join n" Exited exit_rank for n
proof unfold_locales
  fix s t w e gen
  assume s: "in_join n s"
  note d = in_joinD [OF s]
  show "park_inv n s" "threads (pk_workers s) = {..<n}" "pk_mu s \<noteq> By_host" by (rule d)+
  show "pk_workers s w \<noteq> Asleep gen" using d(6) [of w] by auto
  show "in_join n t" if "worker_step w e s = Some t"
    using s that park_inv_worker [OF d(1) that] by (simp add: in_join_def worker_step_host)
  show "exit_rank (pk_workers t w) < exit_rank (pk_workers s w)"
    if "pk_workers s w \<noteq> Exited" "worker_step w e s = Some t"
    using that d(2,3) d(6) [of w]
    by (cases "pk_workers s w") (auto simp: worker_step.simps lock_worker_def must_lock_def split: if_splits)
next
  fix pc :: worker_pc
  show "exit_rank pc \<le> 9" by (cases pc) auto
qed simp_all

subsection \<open>The theorem\<close>

text \<open>Where the host waits for the workers: to find the queues in \<open>run\<close>, to leave in \<open>stop\<close>.\<close>

definition pool_goal :: "host_pc \<Rightarrow> worker_pc" where
  "pool_goal h = (if h = Run_wait then Scan_queues else Exited)"

text \<open>C12: the parked pool wakes and stops. Take any reachable state in which the host waits in \<open>run\<close> on
  a started pool or joins the threads in \<open>stop\<close>, with the workers anywhere in their loops (running,
  spinning, about to sleep, asleep until the notification just sent). Along every schedule of the
  workers, in which those that have reached the queues (in \<open>stop\<close>, left the loop) rest, at most nine
  steps per worker are taken; and a schedule that cannot be continued leaves all of them at the
  queues (all of them out of the loop), so nobody blocks for good on the mutex or the condition
  variable.\<close>

theorem pool_wakes_and_stops:
  assumes reach: "park_reach n s" and h: "pk_host s = Run_wait \<and> pk_started s \<or> pk_host s = Stop_join i"
    and run: "worker_run (pool_goal (pk_host s)) sched s = Some t"
  shows "length sched \<le> 9 * n \<and> ((\<forall>w<n. pk_workers t w = pool_goal (pk_host s)) \<or>
    (\<exists>w e. worker_run (pool_goal (pk_host s)) (sched @ [(w, e)]) s \<noteq> None))"
  using h
proof
  assume h: "pk_host s = Run_wait \<and> pk_started s"
  then have g: "pool_goal (pk_host s) = Scan_queues" and p: "in_run n s"
    using park_reach_inv [OF reach] by (simp_all add: pool_goal_def in_run_def)
  from p run show ?thesis unfolding g by (rule scan.settles)
next
  assume h: "pk_host s = Stop_join i"
  then have g: "pool_goal (pk_host s) = Exited" and p: "in_join n s"
    using park_reach_inv [OF reach] by (simp_all add: pool_goal_def in_join_def)
  from p run show ?thesis unfolding g by (rule leave.settles)
qed

section \<open>Concrete executions\<close>

fun park_script :: "nat \<Rightarrow> (host_call + nat \<times> bool) list \<Rightarrow> park \<Rightarrow> park option" where
  "park_script n [] s = Some s"
| "park_script n (a # as) s =
     (case (case a of Inl c \<Rightarrow> pool_host_step n c s | Inr (w, e) \<Rightarrow> worker_step w e s) of
        None \<Rightarrow> None | Some t \<Rightarrow> park_script n as t)"

lemma park_script_reach: "park_script n as s = Some t \<Longrightarrow> (park_step n)\<^sup>*\<^sup>* s t"
proof (induction n as s rule: park_script.induct)
  case (2 n a as s)
  then obtain u where "(case a of Inl c \<Rightarrow> pool_host_step n c s | Inr (w, e) \<Rightarrow> worker_step w e s) = Some u"
    and run: "park_script n as u = Some t"
    by (auto split: option.splits)
  then have "park_step n s u"
    by (auto split: sum.splits intro: by_host by_worker)
  moreover have "(park_step n)\<^sup>*\<^sup>* u t" using 2 \<open>_ = Some u\<close> run by simp
  ultimately show ?case by (rule converse_rtranclp_into_rtranclp)
qed simp

text \<open>One worker parks; the host then calls \<open>run\<close>.\<close>

definition park_demo :: "(host_call + nat \<times> bool) list" where
  "park_demo = replicate 3 (Inl Call_start) @ replicate 9 (Inr (0, False)) @ [Inl Call_run]"

definition asleep_park :: park where
  "asleep_park = park_init\<lparr>pk_run_flag := True, pk_active := True, pk_started := True,
     pk_workers := (\<lambda>_. No_thread)(0 := Asleep 0), pk_host := Run_lock\<rparr>"

definition woken_park :: park where
  "woken_park = asleep_park\<lparr>pk_wake_gen := 1, pk_workers := (\<lambda>_. No_thread)(0 := Woken 0), pk_host := Run_wait\<rparr>"

lemmas park_exec = worker_step.simps pool_host_step_simps lock_worker_def lock_host_def pk_goto_def host_to_def
  bump_gen_def notify_all_def park_init_def asleep_park_def woken_park_def

lemma asleep_park_reach: "park_reach 1 asleep_park"
  unfolding park_reach_def
  by (rule park_script_reach [of 1 park_demo]) (simp add: park_demo_def eval_nat_numeral park_exec)

lemma woken_park_reach: "park_reach 1 woken_park"
proof -
  have "park_script 1 (replicate 3 (Inl Call_run)) asleep_park = Some woken_park"
    by (simp add: eval_nat_numeral park_exec fun_upd_def comp_def fun_eq_iff)
  from park_script_reach [OF this] asleep_park_reach show ?thesis
    unfolding park_reach_def by (rule rtranclp_trans [rotated])
qed

theorem no_lost_wakeup_witness:
  "park_reach 1 asleep_park \<and> pk_workers asleep_park 0 = Asleep 0 \<and> pk_active asleep_park \<and>
   must_notify (pk_host asleep_park)"
proof -
  have a: "pk_workers asleep_park 0 = Asleep 0" "pk_active asleep_park \<or> \<not> pk_run_flag asleep_park"
    by (simp_all add: asleep_park_def)
  from no_lost_wakeup [OF asleep_park_reach a] a(1) asleep_park_reach show ?thesis
    by (simp add: asleep_park_def)
qed

theorem pool_wakes_and_stops_witness:
  "\<exists>t. worker_run Scan_queues (replicate 5 (0, False)) woken_park = Some t \<and> length (replicate 5 (0 :: nat, False)) \<le> 9 * 1 \<and>
     ((\<forall>w<1. pk_workers t w = Scan_queues) \<or>
      (\<exists>w e. worker_run Scan_queues (replicate 5 (0, False) @ [(w, e)]) woken_park \<noteq> None))"
proof -
  obtain t where t: "worker_run Scan_queues (replicate 5 (0, False)) woken_park = Some t"
    by (simp add: eval_nat_numeral park_exec)
  have g: "pool_goal (pk_host woken_park) = Scan_queues"
    and h: "pk_host woken_park = Run_wait \<and> pk_started woken_park \<or> pk_host woken_park = Stop_join 0"
    by (simp_all add: pool_goal_def woken_park_def asleep_park_def)
  from pool_wakes_and_stops [OF woken_park_reach h, unfolded g, OF t] t show ?thesis by blast
qed

end
