(* ===== verification/FL_Float.thy ===== *)
theory FL_Float
  imports FL_Prelude
begin

text \<open>
  The IEEE arithmetic the sources use, on bit patterns: \<open>float\<close> is a 32-bit word, a result is
  the exact result rounded to nearest, ties to even. Exact values are signed dyadic numbers
  \<open>m * 2 ^ e\<close>. A NaN result is the default quiet NaN; payloads and signs of NaNs are not
  modelled. Then the half conversions of \<open>src/runtime/quants.h\<close>, with their correctness.
\<close>

unbundle bit_operations_syntax

type_synonym f32 = u32
type_synonym f16 = u16

section \<open>Values\<close>

text \<open>\<open>FNum s m e\<close> is \<open>m * 2 ^ e\<close>, negated if \<open>s\<close>.\<close>

datatype fval = FNan | FInf bool | FNum bool int int

definition f32_dec :: "f32 \<Rightarrow> fval" where
  "f32_dec w =
    (let s = bit w 31; b = uint (take_bit 31 w); E = b div 2 ^ 23; M = b mod 2 ^ 23
     in if E = 255 then (if M = 0 then FInf s else FNan)
        else if E = 0 then FNum s M (-149) else FNum s (M + 2 ^ 23) (E - 150))"

definition f16_dec :: "f16 \<Rightarrow> fval" where
  "f16_dec w =
    (let s = bit w 15; b = uint (take_bit 15 w); E = b div 2 ^ 10; M = b mod 2 ^ 10
     in if E = 31 then (if M = 0 then FInf s else FNan)
        else if E = 0 then FNum s M (-24) else FNum s (M + 2 ^ 10) (E - 25))"

text \<open>\<open>m div 2 ^ k\<close> rounded to nearest, ties to even.\<close>

definition rne_shift :: "int \<Rightarrow> nat \<Rightarrow> int" where
  "rne_shift m k =
    (let q = m div 2 ^ k; r = m mod 2 ^ k
     in if 2 ^ k < 2 * r \<or> 2 * r = 2 ^ k \<and> odd q then q + 1 else q)"

function bit_len :: "int \<Rightarrow> int" where
  "bit_len n = (if n \<le> 0 then 0 else 1 + bit_len (n div 2))"
  by pat_completeness auto
termination by (relation "measure nat") auto

declare bit_len.simps [simp del]

text \<open>
  The magnitude bits of \<open>m * 2 ^ e\<close> in a format with \<open>mb\<close> mantissa bits and smallest exponent
  \<open>qmin\<close>: rounded at exponent \<open>q\<close>, the mantissa carries into the exponent field by itself.
\<close>

definition mag_enc :: "nat \<Rightarrow> int \<Rightarrow> int \<Rightarrow> int \<Rightarrow> int" where
  "mag_enc mb qmin m e =
    (if m = 0 then 0
     else let q = max (e + bit_len m - int (Suc mb)) qmin;
              n = (if q \<le> e then m * 2 ^ nat (e - q) else rne_shift m (nat (q - e)))
          in (q - qmin) * 2 ^ mb + n)"

definition f32_sign_bit :: "bool \<Rightarrow> u32" where
  "f32_sign_bit s = (if s then 0x80000000 else 0)"

definition f32_enc :: "bool \<Rightarrow> int \<Rightarrow> int \<Rightarrow> f32" where
  "f32_enc s m e = (let b = mag_enc 23 (-149) m e in f32_sign_bit s OR of_int (min b 0x7F800000))"

definition f16_enc :: "bool \<Rightarrow> int \<Rightarrow> int \<Rightarrow> f16" where
  "f16_enc s m e = (let b = mag_enc 10 (-24) m e in (if s then 0x8000 else 0) OR of_int (min b 0x7C00))"

definition f32_nan :: f32 where "f32_nan = 0x7FC00000"
definition f32_inf :: "bool \<Rightarrow> f32" where "f32_inf s = f32_sign_bit s OR 0x7F800000"

section \<open>Operations\<close>

text \<open>The sum of two dyadic numbers; an exact zero is negative only if both summands are.\<close>

definition dyadic_add :: "bool \<Rightarrow> int \<Rightarrow> int \<Rightarrow> bool \<Rightarrow> int \<Rightarrow> int \<Rightarrow> f32" where
  "dyadic_add s1 m1 e1 s2 m2 e2 =
    (let e = min e1 e2;
         v1 = m1 * 2 ^ nat (e1 - e); v2 = m2 * 2 ^ nat (e2 - e);
         v = (if s1 then - v1 else v1) + (if s2 then - v2 else v2)
     in if v = 0 then f32_sign_bit (s1 \<and> s2) else f32_enc (v < 0) \<bar>v\<bar> e)"

definition f32_add :: "f32 \<Rightarrow> f32 \<Rightarrow> f32" where
  "f32_add a b =
    (case (f32_dec a, f32_dec b) of
       (FNum s1 m1 e1, FNum s2 m2 e2) \<Rightarrow> dyadic_add s1 m1 e1 s2 m2 e2
     | (FInf s1, FInf s2) \<Rightarrow> if s1 = s2 then f32_inf s1 else f32_nan
     | (FInf s1, FNum _ _ _) \<Rightarrow> f32_inf s1
     | (FNum _ _ _, FInf s2) \<Rightarrow> f32_inf s2
     | _ \<Rightarrow> f32_nan)"

definition f32_neg :: "f32 \<Rightarrow> f32" where "f32_neg a = a XOR 0x80000000"
definition f32_abs :: "f32 \<Rightarrow> f32" where "f32_abs a = a AND 0x7FFFFFFF"
definition f32_sub :: "f32 \<Rightarrow> f32 \<Rightarrow> f32" where "f32_sub a b = f32_add a (f32_neg b)"

definition f32_mul :: "f32 \<Rightarrow> f32 \<Rightarrow> f32" where
  "f32_mul a b =
    (case (f32_dec a, f32_dec b) of
       (FNum s1 m1 e1, FNum s2 m2 e2) \<Rightarrow> f32_enc (s1 \<noteq> s2) (m1 * m2) (e1 + e2)
     | (FInf s1, FInf s2) \<Rightarrow> f32_inf (s1 \<noteq> s2)
     | (FInf s1, FNum s2 m2 _) \<Rightarrow> if m2 = 0 then f32_nan else f32_inf (s1 \<noteq> s2)
     | (FNum s1 m1 _, FInf s2) \<Rightarrow> if m1 = 0 then f32_nan else f32_inf (s1 \<noteq> s2)
     | _ \<Rightarrow> f32_nan)"

text \<open>\<open>fmaf a b c\<close>: the product is not rounded.\<close>

definition f32_fma :: "f32 \<Rightarrow> f32 \<Rightarrow> f32 \<Rightarrow> f32" where
  "f32_fma a b c =
    (case (f32_dec a, f32_dec b) of
       (FNum s1 m1 e1, FNum s2 m2 e2) \<Rightarrow>
         (case f32_dec c of
            FNum s3 m3 e3 \<Rightarrow> dyadic_add (s1 \<noteq> s2) (m1 * m2) (e1 + e2) s3 m3 e3
          | FInf s3 \<Rightarrow> f32_inf s3
          | FNan \<Rightarrow> f32_nan)
     | _ \<Rightarrow> f32_add (f32_mul a b) c)"

text \<open>A quotient to 27 bits and more, the last bit sticky: then rounding it is rounding the exact
  quotient.\<close>

definition f32_div :: "f32 \<Rightarrow> f32 \<Rightarrow> f32" where
  "f32_div a b =
    (case (f32_dec a, f32_dec b) of
       (FNum s1 m1 e1, FNum s2 m2 e2) \<Rightarrow>
         if m2 = 0 then (if m1 = 0 then f32_nan else f32_inf (s1 \<noteq> s2))
         else let k = nat (27 + bit_len m2); q = (m1 * 2 ^ k) div m2; r = (m1 * 2 ^ k) mod m2
              in f32_enc (s1 \<noteq> s2) (2 * q + (if r = 0 then 0 else 1)) (e1 - e2 - int k - 1)
     | (FInf s1, FNum s2 _ _) \<Rightarrow> f32_inf (s1 \<noteq> s2)
     | (FNum s1 _ _, FInf s2) \<Rightarrow> f32_sign_bit (s1 \<noteq> s2)
     | _ \<Rightarrow> f32_nan)"

definition f32_lt :: "f32 \<Rightarrow> f32 \<Rightarrow> bool" where
  "f32_lt a b =
    (case (f32_dec a, f32_dec b) of
       (FNum s1 m1 e1, FNum s2 m2 e2) \<Rightarrow>
         (let e = min e1 e2; v1 = m1 * 2 ^ nat (e1 - e); v2 = m2 * 2 ^ nat (e2 - e)
          in (if s1 then - v1 else v1) < (if s2 then - v2 else v2))
     | (FInf s1, FInf s2) \<Rightarrow> s1 \<and> \<not> s2
     | (FInf s1, FNum _ _ _) \<Rightarrow> s1
     | (FNum _ _ _, FInf s2) \<Rightarrow> \<not> s2
     | _ \<Rightarrow> False)"

definition f32_of_int :: "int \<Rightarrow> f32" where
  "f32_of_int i = f32_enc (i < 0) \<bar>i\<bar> 0"

text \<open>\<open>roundf\<close>: to the nearest integer, halves away from zero.\<close>

definition f32_roundf :: "f32 \<Rightarrow> f32" where
  "f32_roundf a =
    (case f32_dec a of
       FNum s m e \<Rightarrow>
         if 0 \<le> e then a
         else f32_enc s ((m + 2 ^ (nat (- e) - 1)) div 2 ^ nat (- e)) 0
     | _ \<Rightarrow> a)"

text \<open>A conversion to an integer type: \<open>None\<close> where the C++ conversion is undefined.\<close>

definition f32_to_int :: "int \<Rightarrow> int \<Rightarrow> f32 \<Rightarrow> int option" where
  "f32_to_int lo hi a =
    (case f32_dec a of
       FNum s m e \<Rightarrow>
         (let t = (if 0 \<le> e then m * 2 ^ nat e else m div 2 ^ nat (- e));
              v = (if s then - t else t)
          in if lo \<le> v \<and> v \<le> hi then Some v else None)
     | _ \<Rightarrow> None)"

section \<open>The half conversions of the sources\<close>

text \<open>The renormalisation loop \<open>do { m <<= 1; ++e; } while (!(m & 0x400));\<close>, after its first
  pass: \<open>m\<close> stays below 2048, so the test is \<open>m < 1024\<close>.\<close>

function renorm :: "int \<Rightarrow> int \<Rightarrow> int \<times> int" where
  "renorm m e = (if m \<le> 0 \<or> 1024 \<le> m then (m, e) else renorm (2 * m) (e + 1))"
  by pat_completeness auto
termination by (relation "measure (\<lambda>(m, e). nat (1024 - m))") auto

declare renorm.simps [simp del]

definition fl_half2float :: "f16 \<Rightarrow> f32" where
  "fl_half2float h =
    (let sign = push_bit 16 (ucast (h AND 0x8000) :: u32);
         em = (ucast (h AND 0x7FFF) :: u32)
     in if 0x7C00 \<le> em then sign OR 0x7F800000 OR push_bit 13 (em AND 0x03FF)
        else if 0x0400 \<le> em then sign OR push_bit 13 (em + 0x1C000)
        else if em = 0 then sign
        else let (m, e) = renorm (2 * uint em) 0
             in sign OR push_bit 23 (112 - of_int e) OR push_bit 13 (of_int m AND 0x03FF))"

definition fl_float2half :: "f32 \<Rightarrow> f16" where
  "fl_float2half u =
    (let sign = drop_bit 16 u AND 0x8000; em = u AND 0x7FFFFFFF
     in if 0x47800000 \<le> em then ucast (sign OR (if 0x7F800000 < em then 0x7E00 else 0x7C00))
        else if em < 0x38800000 then
          (let shift = 126 - drop_bit 23 em
           in if 24 < shift then ucast sign
              else let m = (em AND 0x7FFFFF) OR 0x800000; k = unat shift;
                       h = drop_bit k m; rem = m AND (push_bit k 1 - 1); half = push_bit (k - 1) 1;
                       h' = (if half < rem \<or> rem = half \<and> h AND 1 \<noteq> 0 then h + 1 else h)
                   in ucast (sign OR h'))
        else (let h = push_bit 10 (drop_bit 23 em - 112) OR (drop_bit 13 em AND 0x3FF);
                  rem = em AND 0x1FFF;
                  h' = (if 0x1000 < rem \<or> rem = 0x1000 \<and> h AND 1 \<noteq> 0 then h + 1 else h)
              in ucast (sign OR h')))"

section \<open>Encoding inverts decoding\<close>

lemma bit_len_less: "0 \<le> m \<Longrightarrow> m < 2 ^ k \<Longrightarrow> bit_len m \<le> int k"
proof (induction k arbitrary: m)
  case 0
  then show ?case by (subst bit_len.simps) simp
next
  case (Suc k)
  then have "bit_len (m div 2) \<le> int k" by (intro Suc.IH) auto
  then show ?case by (subst bit_len.simps) simp
qed

lemma bit_len_nonneg: "0 \<le> bit_len m"
proof (induction m rule: bit_len.induct)
  case (1 n)
  then show ?case by (subst bit_len.simps) simp
qed

lemma bit_len_ge: "2 ^ k \<le> m \<Longrightarrow> int k < bit_len m"
proof (induction k arbitrary: m)
  case 0
  then show ?case using bit_len_nonneg [of "m div 2"] by (subst bit_len.simps) simp
next
  case (Suc k)
  then have "int k < bit_len (m div 2)" by (intro Suc.IH) auto
  moreover have "0 < m" using Suc.prems by (meson less_le_trans zero_less_numeral zero_less_power)
  ultimately show ?case by (subst bit_len.simps) simp
qed

lemma bit_len_eq: "2 ^ k \<le> m \<Longrightarrow> m < 2 ^ Suc k \<Longrightarrow> bit_len m = int k + 1"
  using bit_len_ge [of k m] bit_len_less [of m "Suc k"]
  by (smt (verit) of_nat_Suc zero_less_power)

lemma bit_len_scale: "0 < m \<Longrightarrow> bit_len (m * 2 ^ k) = bit_len m + int k"
proof (induction k)
  case (Suc k)
  have "bit_len (m * 2 ^ Suc k) = 1 + bit_len (m * 2 ^ Suc k div 2)"
    using Suc.prems mult_pos_pos [of m "2 ^ Suc k"] by (subst bit_len.simps) (simp add: not_le [symmetric])
  also have "m * 2 ^ Suc k div 2 = m * 2 ^ k" by simp
  finally show ?case using Suc by simp
qed simp

lemma rne_shift_0 [simp]: "rne_shift m 0 = m"
  by (simp add: rne_shift_def)

lemma rne_shift_exact: "rne_shift (m * 2 ^ k) k = m"
  by (simp add: rne_shift_def Let_def)

lemma rne_shift_scale: "rne_shift (m * 2 ^ k) (j + k) = rne_shift m j"
proof -
  have d: "m * 2 ^ k div 2 ^ (j + k) = m div 2 ^ j" by (simp add: power_add)
  have r: "m * 2 ^ k mod 2 ^ (j + k) = (m mod 2 ^ j) * 2 ^ k" by (simp add: power_add mult_mod_left)
  have a: "2 ^ (j + k) < 2 * ((m mod 2 ^ j) * 2 ^ k) \<longleftrightarrow> 2 ^ j < 2 * (m mod 2 ^ j)"
    using mult_less_cancel_right_pos [of "2 ^ k :: int" "2 ^ j" "2 * (m mod 2 ^ j)"]
    by (simp add: power_add mult.assoc)
  have b: "2 * ((m mod 2 ^ j) * 2 ^ k) = 2 ^ (j + k) \<longleftrightarrow> 2 * (m mod 2 ^ j) = 2 ^ j"
    using mult_right_cancel [of "2 ^ k :: int" "2 * (m mod 2 ^ j)" "2 ^ j"]
    by (simp add: power_add mult.assoc)
  show ?thesis unfolding rne_shift_def Let_def d r a b ..
qed

text \<open>The encoding depends on the value only, not on how it is written as \<open>m * 2 ^ e\<close>.\<close>

lemma mag_enc_scale:
  assumes "0 \<le> m"
  shows "mag_enc mb qmin (m * 2 ^ k) (e - int k) = mag_enc mb qmin m e"
proof (cases "m = 0")
  case False
  then have pos: "0 < m" using assms by simp
  define q where "q = max (e + bit_len m - int (Suc mb)) qmin"
  have q: "max (e - int k + bit_len (m * 2 ^ k) - int (Suc mb)) qmin = q"
    using bit_len_scale [OF pos] by (simp add: q_def)
  have "(if q \<le> e - int k then m * 2 ^ k * 2 ^ nat (e - int k - q) else rne_shift (m * 2 ^ k) (nat (q - (e - int k))))
      = (if q \<le> e then m * 2 ^ nat (e - q) else rne_shift m (nat (q - e)))"
  proof -
    consider "q \<le> e - int k" | "e - int k < q" "q \<le> e" | "e < q" by linarith
    then show ?thesis
    proof cases
      case 1
      have "k + nat (e - int k - q) = nat (e - q)" using 1 by simp
      then show ?thesis using 1 by (simp add: mult.assoc power_add [symmetric])
    next
      case 2
      have "nat (q - (e - int k)) + nat (e - q) = k" using 2 by linarith
      then have "m * 2 ^ k = (m * 2 ^ nat (e - q)) * 2 ^ nat (q - (e - int k))"
        by (metis add.commute mult.assoc power_add)
      then show ?thesis using 2 by (simp only: rne_shift_exact) simp
    next
      case 3
      have "nat (q - (e - int k)) = nat (q - e) + k" using 3 by linarith
      then show ?thesis using 3 by (simp only: rne_shift_scale) simp
    qed
  qed
  then show ?thesis using False unfolding mag_enc_def Let_def q q_def [symmetric] by simp
qed (simp add: mag_enc_def)

lemma mag_enc_subnormal:
  assumes "0 \<le> M" "M < 2 ^ mb"
  shows "mag_enc mb qmin M qmin = M"
proof -
  have "bit_len M \<le> int mb" by (rule bit_len_less [OF assms])
  then show ?thesis by (simp add: mag_enc_def Let_def max_def)
qed

lemma mag_enc_normal:
  assumes "0 \<le> M" "M < 2 ^ mb" "1 \<le> E"
  shows "mag_enc mb qmin (M + 2 ^ mb) (E + qmin - 1) = E * 2 ^ mb + M"
proof -
  have "bit_len (M + 2 ^ mb) = int mb + 1" by (rule bit_len_eq) (use assms in simp_all)
  moreover have "0 < M + 2 ^ mb" using assms(1) by (simp add: add_nonneg_pos)
  ultimately show ?thesis using assms by (simp add: mag_enc_def Let_def max_def algebra_simps)
qed

lemma f32_sign_bit_push: "f32_sign_bit s = push_bit 31 (of_bool s)"
  by (simp add: f32_sign_bit_def)

lemma sign_take_bit: "f32_sign_bit (bit w 31) OR take_bit 31 w = w"
proof (rule bit_word_eqI)
  fix n assume "n < LENGTH(32)"
  then have n: "n < 32" by simp
  show "bit (f32_sign_bit (bit w 31) OR take_bit 31 w) n = bit w n"
  proof (cases "n = 31")
    case True
    then show ?thesis by (simp add: f32_sign_bit_push bit_or_iff bit_push_bit_iff bit_take_bit_iff bit_of_bool_iff)
  next
    case False
    then show ?thesis using n by (simp add: f32_sign_bit_push bit_or_iff bit_push_bit_iff bit_take_bit_iff)
  qed
qed

lemma uint_take_bit_less: "uint (take_bit k (w :: 'a::len word)) < 2 ^ k" "0 \<le> uint (take_bit k w)"
  by (simp_all add: unsigned_take_bit_eq take_bit_int_less_exp)

lemma f32_enc_dec:
  assumes "f32_dec w = FNum s m e"
  shows "f32_enc s m e = w"
proof -
  let ?b = "uint (take_bit 31 w)"
  let ?E = "?b div 2 ^ 23" and ?M = "?b mod 2 ^ 23"
  have b: "0 \<le> ?b" "?b < 2 ^ 31"
    using uint_take_bit_less [of 31 w] by simp_all
  have E0: "0 \<le> ?E" using b(1) by (simp add: pos_imp_zdiv_nonneg_iff)
  have E: "?E \<noteq> 255" "s = bit w 31"
    using assms by (auto simp: f32_dec_def Let_def split: if_splits)
  have "?E < 256" using b(2) by (simp add: div_less_iff_less_mult)
  then have "?b div 2 ^ 23 < 255" using E(1) by linarith
  then have lt: "?b \<le> 0x7F800000" by (simp add: div_less_iff_less_mult)
  have mag: "mag_enc 23 (-149) m e = ?b"
  proof (cases "?E = 0")
    case True
    then have "m = ?M" "e = -149" "?M = ?b" using assms E b by (auto simp: f32_dec_def Let_def)
    then show ?thesis using mag_enc_subnormal [of ?M 23 "-149"] by simp
  next
    case False
    then have "1 \<le> ?E" using E0 by linarith
    moreover have "m = ?M + 2 ^ 23" "e = ?E + -149 - 1" using assms E False by (auto simp: f32_dec_def Let_def)
    ultimately show ?thesis using mag_enc_normal [of ?M 23 ?E "-149"] by simp
  qed
  show ?thesis
    unfolding f32_enc_def Let_def mag E(2) using lt sign_take_bit by (simp add: min_def)
qed

section \<open>Half precision\<close>

lemma int_push_or:
  assumes "0 \<le> b" "b < 2 ^ k"
  shows "push_bit k (a :: int) OR b = a * 2 ^ k + b"
proof -
  have tb: "take_bit k b = b" using assms by (simp add: take_bit_int_eq_self)
  have "push_bit k a + b = push_bit k a OR b"
  proof (rule disjunctive_add)
    fix n
    have "bit b n \<Longrightarrow> n < k" using bit_take_bit_iff [of k b n] by (simp add: tb)
    then show "\<not> bit (push_bit k a) n \<or> \<not> bit b n" by (auto simp: bit_push_bit_iff_int)
  qed
  then show ?thesis by (simp add: push_bit_eq_mult)
qed

lemma uint_of_int_small: "0 \<le> b \<Longrightarrow> b < 2 ^ LENGTH('a) \<Longrightarrow> uint (of_int b :: 'a::len word) = b"
  by (simp add: unsigned_of_int take_bit_int_eq_self)

text \<open>The fields of a float given by its sign and its other 31 bits.\<close>

definition fields32 :: "bool \<Rightarrow> int \<Rightarrow> fval" where
  "fields32 s b =
    (let E = b div 2 ^ 23; M = b mod 2 ^ 23
     in if E = 255 then (if M = 0 then FInf s else FNan)
        else if E = 0 then FNum s M (-149) else FNum s (M + 2 ^ 23) (E - 150))"

lemma take_bit_sign_or:
  assumes "0 \<le> b" "b < 2 ^ 31"
  shows "take_bit 31 (f32_sign_bit s OR of_int b) = (of_int b :: u32)"
    and "bit (f32_sign_bit s OR of_int b :: u32) 31 = s"
proof -
  have tb: "take_bit 31 b = b" using assms by (simp add: take_bit_int_eq_self)
  have nb: "bit b n \<Longrightarrow> n < 31" for n using bit_take_bit_iff [of 31 b n] by (simp add: tb)
  show "take_bit 31 (f32_sign_bit s OR of_int b) = (of_int b :: u32)"
  proof (rule bit_word_eqI)
    fix n assume "n < LENGTH(32)"
    then show "bit (take_bit 31 (f32_sign_bit s OR of_int b) :: u32) n = bit (of_int b :: u32) n"
      using nb [of n] by (cases "n = 31") (auto simp: f32_sign_bit_push bit_simps)
  qed
  show "bit (f32_sign_bit s OR of_int b :: u32) 31 = s"
    using nb [of 31] by (auto simp: f32_sign_bit_push bit_simps)
qed

lemma f32_dec_fields:
  assumes "0 \<le> b" "b < 2 ^ 31"
  shows "f32_dec (f32_sign_bit s OR of_int b) = fields32 s b"
proof -
  have "uint (of_int b :: u32) = b" using assms by (intro uint_of_int_small) simp_all
  then show ?thesis using take_bit_sign_or [OF assms] by (simp add: f32_dec_def fields32_def Let_def)
qed

lemma renorm_spec:
  assumes "0 < m" "m < 2048" "renorm m e = (m', e')"
  shows "\<exists>k. e' = e + int k \<and> m' = m * 2 ^ k \<and> 1024 \<le> m' \<and> m' < 2048"
  using assms
proof (induction m e rule: renorm.induct)
  case (1 m e)
  show ?case
  proof (cases "1024 \<le> m")
    case True
    then have "renorm m e = (m, e)" by (subst renorm.simps) simp
    then show ?thesis using 1(3,4) True by (intro exI [of _ 0]) simp
  next
    case False
    then have "renorm m e = renorm (2 * m) (e + 1)" using 1(2) by (subst renorm.simps) simp
    then obtain k where "e' = e + 1 + int k" "m' = 2 * m * 2 ^ k" "1024 \<le> m'" "m' < 2048"
      using 1(1) 1(2,4) False by fastforce
    then show ?thesis by (intro exI [of _ "Suc k"]) simp
  qed
qed

lemma and_mask15: "(h :: u16) AND 0x7FFF = take_bit 15 h"
proof -
  have "mask 15 = (0x7FFF :: u16)" by (simp add: mask_eq_exp_minus_1)
  then show ?thesis by (simp only: take_bit_eq_mask)
qed

lemma ucast_and_7FFF: "(ucast (h AND 0x7FFF :: u16) :: u32) = of_int (uint (take_bit 15 h))"
  by (simp only: and_mask15 ucast_eq)

lemma ucast_and_8000: "push_bit 16 (ucast (h AND 0x8000 :: u16) :: u32) = f32_sign_bit (bit h 15)"
proof -
  have e: "(0x8000 :: u16) = push_bit 15 1" by simp
  have "h AND push_bit 15 1 = (if bit h 15 then push_bit 15 1 else 0)"
  proof (rule bit_word_eqI)
    fix n assume n: "n < LENGTH(16)"
    have "bit (h AND push_bit 15 1) n = (bit h n \<and> n = 15)"
      using n unfolding bit_and_iff bit_push_bit_iff bit_1_iff by auto
    moreover have "bit (push_bit 15 1 :: u16) n = (n = 15)"
      using n unfolding bit_push_bit_iff bit_1_iff by auto
    ultimately show "bit (h AND push_bit 15 1) n = bit (if bit h 15 then push_bit 15 1 else 0 :: u16) n"
      by (cases "bit h 15") auto
  qed
  then show ?thesis unfolding e by (simp add: f32_sign_bit_def)
qed

text \<open>The 31 magnitude bits \<open>fl_half2float\<close> produces.\<close>

definition half_bits :: "int \<Rightarrow> int" where
  "half_bits em =
    (if 0x7C00 \<le> em then 255 * 2 ^ 23 + em mod 1024 * 2 ^ 13
     else if 0x0400 \<le> em then (em + 0x1C000) * 2 ^ 13
     else if em = 0 then 0
     else case renorm (2 * em) 0 of (m, e) \<Rightarrow> (112 - e) * 2 ^ 23 + m mod 1024 * 2 ^ 13)"

lemma half_renorm:
  assumes "0 < em" "em < 0x400" "renorm (2 * em) 0 = (m, e)"
  shows "\<exists>k. e = int k \<and> k \<le> 9 \<and> m = em * 2 ^ Suc k \<and> 1024 \<le> m \<and> m < 2048"
proof -
  obtain k where k: "e = int k" "m = 2 * em * 2 ^ k" "1024 \<le> m" "m < 2048"
    using renorm_spec [OF _ _ assms(3)] assms(1,2) by auto
  have "k \<le> 9"
  proof (rule ccontr)
    assume "\<not> k \<le> 9"
    then have "(2 :: int) ^ 10 \<le> 2 ^ k" by (intro power_increasing) simp_all
    moreover have "2 * 2 ^ k \<le> 2 * em * 2 ^ k" using assms(1) by simp
    ultimately show False using k by simp
  qed
  with k show ?thesis by auto
qed

lemma half_bits_range:
  assumes "0 \<le> em" "em < 2 ^ 15"
  shows "0 \<le> half_bits em" "half_bits em < 2 ^ 31"
proof -
  have "0 \<le> half_bits em \<and> half_bits em < 2 ^ 31"
  proof (cases "0 < em \<and> em < 0x400")
    case True
    obtain m e where r: "renorm (2 * em) 0 = (m, e)" by fastforce
    then obtain k where "e = int k" "k \<le> 9" "1024 \<le> m" "m < 2048" using half_renorm [OF _ _ r] True by blast
    moreover have "0 \<le> m mod 1024" "m mod 1024 < 1024" by simp_all
    ultimately show ?thesis using True by (simp add: half_bits_def r)
  next
    case False
    have "0 \<le> em mod 1024" "em mod 1024 < 1024" by simp_all
    then show ?thesis using False assms by (auto simp: half_bits_def)
  qed
  then show "0 \<le> half_bits em" "half_bits em < 2 ^ 31" by simp_all
qed

lemma of_int_and_mask10: "(of_int b AND 0x3FF :: u32) = of_int (b mod 1024)"
proof -
  have "(of_int b AND 0x3FF :: u32) = of_int (b AND 0x3FF)" by (simp add: of_int_and_eq)
  also have "b AND 0x3FF = take_bit 10 b" by (simp add: take_bit_eq_mask mask_eq_exp_minus_1)
  finally show ?thesis by (simp add: take_bit_eq_mod)
qed

lemma push_or_u32:
  assumes "0 \<le> b" "b < 2 ^ k"
  shows "push_bit k (of_int a :: u32) OR of_int b = of_int (a * 2 ^ k + b)"
proof -
  have "push_bit k (of_int a :: u32) OR of_int b = of_int (push_bit k a) OR of_int b"
    by (simp only: push_bit_of_int)
  also have "\<dots> = of_int (push_bit k a OR b)" by (simp only: of_int_or_eq)
  also have "push_bit k a OR b = a * 2 ^ k + b" by (rule int_push_or [OF assms])
  finally show ?thesis .
qed

lemma fl_half2float_bits:
  "fl_half2float h = f32_sign_bit (bit h 15) OR of_int (half_bits (uint (take_bit 15 h)))"
proof -
  define B where "B = uint (take_bit 15 h)"
  have B: "0 \<le> B" "B < 2 ^ 15" using uint_take_bit_less [of 15 h] by (simp_all add: B_def)
  have uB: "uint (of_int B :: u32) = B" using B by (intro uint_of_int_small) simp_all
  have c: "0x7C00 \<le> (of_int B :: u32) \<longleftrightarrow> 0x7C00 \<le> B" "0x0400 \<le> (of_int B :: u32) \<longleftrightarrow> 0x0400 \<le> B"
    "(of_int B :: u32) = 0 \<longleftrightarrow> B = 0"
    using uB by (simp_all add: word_le_def word_uint_eq_iff)
  have mk: "0 \<le> x mod 1024 * 2 ^ 13" "x mod 1024 * 2 ^ 13 < 2 ^ 23" for x :: int
  proof -
    have "0 \<le> x mod 1024" "x mod 1024 < 1024" by simp_all
    then show "0 \<le> x mod 1024 * 2 ^ 13" "x mod 1024 * 2 ^ 13 < 2 ^ 23" by simp_all
  qed
  have p13: "push_bit 13 (of_int x AND 0x3FF :: u32) = of_int (x mod 1024 * 2 ^ 13)" for x
    by (simp add: of_int_and_mask10 push_bit_eq_mult)
  consider (inf) "0x7C00 \<le> B" | (norm) "0x0400 \<le> B" "B < 0x7C00" | (zero) "B = 0" | (sub) "0 < B" "B < 0x400"
    using B(1) by linarith
  then show ?thesis
  proof cases
    case inf
    have "(0x7F800000 :: u32) OR of_int (B mod 1024 * 2 ^ 13) = of_int (255 * 2 ^ 23 + B mod 1024 * 2 ^ 13)"
      using push_or_u32 [OF mk, of 255 B] by simp
    then show ?thesis
      unfolding fl_half2float_def Let_def ucast_and_8000 ucast_and_7FFF B_def [symmetric] half_bits_def p13
      using inf by (simp only: c if_True or.assoc)
  next
    case norm
    have "push_bit 13 ((of_int B :: u32) + 0x1C000) = of_int ((B + 0x1C000) * 2 ^ 13)"
      by (simp add: push_bit_eq_mult)
    then show ?thesis
      unfolding fl_half2float_def Let_def ucast_and_8000 ucast_and_7FFF B_def [symmetric] half_bits_def
      using norm by (simp only: c if_True if_False not_le [symmetric])
  next
    case zero
    then show ?thesis
      unfolding fl_half2float_def Let_def ucast_and_8000 ucast_and_7FFF B_def [symmetric] half_bits_def
      by simp
  next
    case sub
    obtain m e where r: "renorm (2 * B) 0 = (m, e)" by fastforce
    have "push_bit 23 (112 - of_int e :: u32) OR of_int (m mod 1024 * 2 ^ 13) = of_int ((112 - e) * 2 ^ 23 + m mod 1024 * 2 ^ 13)"
      using push_or_u32 [OF mk, of "112 - e" m] by simp
    then show ?thesis
      unfolding fl_half2float_def Let_def ucast_and_8000 ucast_and_7FFF B_def [symmetric] half_bits_def uB r p13 split
      using sub by (simp only: c or.assoc) simp
  qed
qed

text \<open>Two decoded values are the same real (with the same sign of zero), or the same special.\<close>

fun fval_same :: "fval \<Rightarrow> fval \<Rightarrow> bool" where
  "fval_same (FNum s m e) (FNum s' m' e') \<longleftrightarrow>
     s = s' \<and> m * 2 ^ nat (e - min e e') = m' * 2 ^ nat (e' - min e e')"
| "fval_same (FInf s) (FInf s') \<longleftrightarrow> s = s'"
| "fval_same FNan FNan \<longleftrightarrow> True"
| "fval_same _ _ \<longleftrightarrow> False"

lemma fields32_split:
  assumes "0 \<le> M" "M < 2 ^ 23"
  shows "fields32 s (E * 2 ^ 23 + M) =
    (if E = 255 then (if M = 0 then FInf s else FNan)
     else if E = 0 then FNum s M (-149) else FNum s (M + 2 ^ 23) (E - 150))"
proof -
  have "(E * 2 ^ 23 + M) div 2 ^ 23 = E" "(E * 2 ^ 23 + M) mod 2 ^ 23 = M" using assms by simp_all
  then show ?thesis by (simp only: fields32_def Let_def)
qed

lemma half_fields_same:
  assumes "0 \<le> B" "B < 2 ^ 15"
  shows "fval_same (fields32 s (half_bits B))
    (let E = B div 2 ^ 10; M = B mod 2 ^ 10
     in if E = 31 then (if M = 0 then FInf s else FNan)
        else if E = 0 then FNum s M (-24) else FNum s (M + 2 ^ 10) (E - 25))"
proof -
  define E M where "E = B div 1024" and "M = B mod 1024"
  have B: "B = E * 1024 + M" by (simp add: E_def M_def)
  have M: "0 \<le> M" "M < 1024" by (simp_all add: M_def)
  then have M13: "0 \<le> M * 2 ^ 13" "M * 2 ^ 13 < 2 ^ 23" by simp_all
  consider (inf) "E = 31" | (norm) "1 \<le> E" "E \<le> 30" | (zero) "E = 0" "M = 0" | (sub) "E = 0" "0 < M"
    using assms B M by (simp, linarith)
  then show ?thesis
  proof cases
    case inf
    then have "0x7C00 \<le> B" using B M by linarith
    then have "half_bits B = 255 * 2 ^ 23 + M * 2 ^ 13" by (simp add: half_bits_def M_def)
    then have "fields32 s (half_bits B) = (if M = 0 then FInf s else FNan)"
      using fields32_split [OF M13, of s 255] by (simp only:) simp
    then show ?thesis using inf by (simp add: E_def [symmetric] M_def [symmetric])
  next
    case norm
    then have "\<not> 0x7C00 \<le> B" "0x400 \<le> B" using B M by linarith+
    then have "half_bits B = (B + 0x1C000) * 2 ^ 13" by (simp add: half_bits_def)
    then have "half_bits B = (E + 112) * 2 ^ 23 + M * 2 ^ 13" unfolding B by (simp add: algebra_simps)
    then have "fields32 s (half_bits B) = FNum s (M * 2 ^ 13 + 2 ^ 23) (E - 38)"
      using fields32_split [OF M13, of s "E + 112"] norm by (simp only:) simp
    then show ?thesis using norm by (simp add: E_def [symmetric] M_def [symmetric] min_def)
  next
    case zero
    then have "half_bits B = 0" using B by (simp add: half_bits_def)
    then show ?thesis using zero B by (simp add: fields32_def)
  next
    case sub
    obtain m e where r: "renorm (2 * M) 0 = (m, e)" by fastforce
    obtain k where k: "e = int k" "k \<le> 9" "m = M * 2 ^ Suc k" "1024 \<le> m" "m < 2048"
      using half_renorm [OF sub(2) _ r] M by auto
    have md: "m mod 1024 = m - 1024"
      using k(4,5) mod_pos_pos_trivial [of "m - 1024" 1024] by (simp only: minus_mod_self2)
    have hb: "half_bits B = (112 - int k) * 2 ^ 23 + (m - 1024) * 2 ^ 13"
    proof -
      have "B = M" using sub B by simp
      then show ?thesis using sub M r k(1) by (simp add: half_bits_def md)
    qed
    have rng: "0 \<le> (m - 1024) * 2 ^ 13" "(m - 1024) * 2 ^ 13 < 2 ^ 23" using k(4,5) by simp_all
    have dec: "fields32 s (half_bits B) = FNum s (m * 2 ^ 13) (- 38 - int k)"
      using k(2) unfolding hb fields32_split [OF rng] by (simp add: algebra_simps)
    have "M * 2 ^ nat (14 + int k) = m * 2 ^ 13"
      by (simp add: k(3) nat_add_distrib power_add)
    then show ?thesis using sub k(2) unfolding dec
      by (simp add: E_def [symmetric] M_def [symmetric] min_def algebra_simps)
  qed
qed

lemma half2float_same: "fval_same (f32_dec (fl_half2float h)) (f16_dec h)"
proof -
  let ?B = "uint (take_bit 15 h)"
  have B: "0 \<le> ?B" "?B < 2 ^ 15" using uint_take_bit_less [of 15 h] by simp_all
  show ?thesis
    unfolding fl_half2float_bits f32_dec_fields [OF half_bits_range [OF B]] f16_dec_def Let_def
    using half_fields_same [OF B, of "bit h 15"] by (simp only: Let_def)
qed

section \<open>Rounding to half\<close>

lemma drop_bit_u32:
  assumes "0 \<le> b" "b < 2 ^ 32"
  shows "drop_bit k (of_int b :: u32) = of_int (b div 2 ^ k)"
proof -
  have u: "uint (of_int b :: u32) = b" using assms by (intro uint_of_int_small) simp_all
  have "b div 2 ^ k \<le> b div 1" using assms(1) by (intro zdiv_mono2) simp_all
  then have "uint (of_int (b div 2 ^ k) :: u32) = b div 2 ^ k"
    using assms by (intro uint_of_int_small) (simp_all add: pos_imp_zdiv_nonneg_iff)
  moreover have "uint (drop_bit k (of_int b :: u32)) = drop_bit k (uint (of_int b :: u32))"
    using assms by (simp add: unsigned_drop_bit_eq u take_bit_int_eq_self)
  then have "uint (drop_bit k (of_int b :: u32)) = b div 2 ^ k"
    by (simp only: u drop_bit_eq_div)
  ultimately show ?thesis by (simp only: word_uint_eq_iff)
qed

lemma and_mask_u32: "(of_int b :: u32) AND mask k = of_int (b mod 2 ^ k)"
proof -
  have "(of_int b :: u32) AND mask k = of_int b AND of_int (mask k)" by (simp only: of_int_mask_eq)
  also have "\<dots> = of_int (b AND mask k)" by (simp only: of_int_and_eq)
  finally show ?thesis by (simp only: take_bit_eq_mask [symmetric] take_bit_eq_mod)
qed

lemma less_u32:
  assumes "0 \<le> a" "a < 2 ^ 32" "0 \<le> b" "b < 2 ^ 32"
  shows "(of_int a :: u32) < of_int b \<longleftrightarrow> a < b" "(of_int a :: u32) = of_int b \<longleftrightarrow> a = b"
proof -
  have "uint (of_int a :: u32) = a" "uint (of_int b :: u32) = b"
    using assms by (intro uint_of_int_small; simp)+
  then show "(of_int a :: u32) < of_int b \<longleftrightarrow> a < b" "(of_int a :: u32) = of_int b \<longleftrightarrow> a = b"
    by (simp_all only: word_less_def word_uint_eq_iff)
qed

lemma odd_u32: "(of_int h AND 1 :: u32) \<noteq> 0 \<longleftrightarrow> odd h"
proof -
  have "(of_int h AND 1 :: u32) = of_int h AND of_int 1" by simp
  also have "\<dots> = of_int (h AND 1)" by (simp only: of_int_and_eq)
  also have "h AND 1 = h mod 2" by (simp add: and_one_eq)
  also have "of_int (h mod 2) = (0 :: u32) \<longleftrightarrow> h mod 2 = 0"
    using less_u32(2) [of "h mod 2" 0] by simp
  finally show ?thesis by (simp add: odd_iff_mod_2_eq_one)
qed

lemma round_u32:
  assumes "0 \<le> m" "m < 2 ^ 24" "even c" "1 \<le> k" "k \<le> 24"
  shows "(if (of_int (2 ^ (k - 1)) :: u32) < of_int (m mod 2 ^ k) \<or>
             (of_int (m mod 2 ^ k) :: u32) = of_int (2 ^ (k - 1)) \<and> (of_int (c + m div 2 ^ k) AND 1 :: u32) \<noteq> 0
          then of_int (c + m div 2 ^ k) + 1 else (of_int (c + m div 2 ^ k) :: u32))
    = of_int (c + rne_shift m k)"
proof -
  obtain j where j: "k = Suc j" using assms(4) by (cases k) auto
  have p: "(2 :: int) ^ k \<le> 2 ^ 24" using assms(5) by (intro power_increasing) simp_all
  have r: "0 \<le> m mod 2 ^ k" "m mod 2 ^ k < 2 ^ k" by simp_all
  have "m mod 2 ^ k < 2 ^ 24" using r(2) p by linarith
  then have r32: "m mod 2 ^ k < 2 ^ 32" by simp
  have r33: "(2 :: int) ^ (k - 1) < 2 ^ 32" using p unfolding j by simp
  have c1: "(of_int (2 ^ (k - 1)) :: u32) < of_int (m mod 2 ^ k) \<longleftrightarrow> 2 ^ k < 2 * (m mod 2 ^ k)"
    using less_u32(1) [OF _ r33 r(1) r32] by (simp add: j)
  have c2: "(of_int (m mod 2 ^ k) :: u32) = of_int (2 ^ (k - 1)) \<longleftrightarrow> 2 * (m mod 2 ^ k) = 2 ^ k"
    using less_u32(2) [OF r(1) r32 _ r33] by (simp add: j)
  have c3: "odd (c + m div 2 ^ k) \<longleftrightarrow> odd (m div 2 ^ k)" using assms(3) by simp
  show ?thesis unfolding c1 c2 odd_u32 c3 rne_shift_def Let_def by (simp add: add.assoc)
qed

text \<open>The 15 magnitude bits \<open>fl_float2half\<close> produces.\<close>

definition float_mag :: "int \<Rightarrow> int" where
  "float_mag b =
    (let E = b div 2 ^ 23; M = b mod 2 ^ 23
     in if 0x47800000 \<le> b then (if 0x7F800000 < b then 0x7E00 else 0x7C00)
        else if b < 0x38800000 then
          (if E < 102 then 0 else rne_shift (M + 2 ^ 23) (nat (126 - E)))
        else (E - 112) * 1024 + rne_shift M 13)"

lemma and_mask31: "(u :: u32) AND 0x7FFFFFFF = take_bit 31 u"
proof -
  have "mask 31 = (0x7FFFFFFF :: u32)" by (simp add: mask_eq_exp_minus_1)
  then show ?thesis by (simp only: take_bit_eq_mask)
qed

lemma float_sign_half: "drop_bit 16 (u :: u32) AND 0x8000 = (if bit u 31 then 0x8000 else 0)"
proof -
  have e: "(0x8000 :: u32) = push_bit 15 1" by simp
  show ?thesis unfolding e
  proof (rule bit_word_eqI)
    fix n assume n: "n < LENGTH(32)"
    have "bit (drop_bit 16 u AND push_bit 15 1) n = (bit u 31 \<and> n = 15)"
      using n unfolding bit_and_iff bit_push_bit_iff bit_1_iff bit_drop_bit_eq by auto
    moreover have "bit (push_bit 15 1 :: u32) n = (n = 15)"
      using n unfolding bit_push_bit_iff bit_1_iff by auto
    ultimately show "bit (drop_bit 16 u AND push_bit 15 1) n = bit (if bit u 31 then push_bit 15 1 else 0 :: u32) n"
      by (cases "bit u 31") auto
  qed
qed

lemma ucast_sign_or:
  "(ucast ((if s then 0x8000 else 0 :: u32) OR of_int x) :: u16) = (if s then 0x8000 else 0) OR of_int x"
proof -
  have "(ucast (of_int x :: u32) :: u16) = of_int x"
    by (simp add: unsigned_of_int word_of_int_eq_iff)
  then show ?thesis by (simp add: unsigned_or_eq)
qed

lemma sub_arith:
  assumes "0 \<le> M" "M < 2 ^ 23"
  shows "(of_int M :: u32) OR 0x800000 = of_int (M + 2 ^ 23)"
proof -
  have "(of_int M :: u32) OR 0x800000 = push_bit 23 (of_int 1) OR of_int M" by (simp add: or.commute)
  also have "\<dots> = of_int (1 * 2 ^ 23 + M)" by (rule push_or_u32 [OF assms])
  finally show ?thesis by (simp add: add.commute)
qed

lemma fl_float2half_bits:
  "fl_float2half u = (if bit u 31 then 0x8000 else 0) OR of_int (float_mag (uint (take_bit 31 u)))"
proof -
  define B where "B = uint (take_bit 31 u)"
  define E M where "E = B div 2 ^ 23" and "M = B mod 2 ^ 23"
  have B: "0 \<le> B" "B < 2 ^ 31" using uint_take_bit_less [of 31 u] by (simp_all add: B_def)
  have B32: "B < 2 ^ 32" using B by simp
  have em: "u AND 0x7FFFFFFF = of_int B" by (simp only: and_mask31 B_def) simp
  have E: "0 \<le> E" "E < 256" using B by (simp_all add: E_def pos_imp_zdiv_nonneg_iff div_less_iff_less_mult)
  have M: "0 \<le> M" "M < 2 ^ 23" by (simp_all add: M_def)
  have BE: "B = E * 2 ^ 23 + M" by (simp add: E_def M_def)
  have d23: "drop_bit 23 (of_int B :: u32) = of_int E" by (simp only: drop_bit_u32 [OF B(1) B32] E_def)
  have mk: "(0x7FFFFF :: u32) = mask 23" "(0x1FFF :: u32) = mask 13" "(0x3FF :: u32) = mask 10"
    by (simp_all add: mask_eq_exp_minus_1)
  have l1: "0x47800000 \<le> (of_int B :: u32) \<longleftrightarrow> 0x47800000 \<le> B" "(of_int B :: u32) < 0x38800000 \<longleftrightarrow> B < 0x38800000"
    "0x7F800000 < (of_int B :: u32) \<longleftrightarrow> 0x7F800000 < B"
    using less_u32(1) [of B "0x47800000"] less_u32(1) [of B "0x38800000"] less_u32(1) [of "0x7F800000" B] B
    by (simp_all flip: not_less)
  consider (big) "0x47800000 \<le> B" | (sub) "B < 0x38800000" | (norm) "\<not> 0x47800000 \<le> B" "\<not> B < 0x38800000"
    by linarith
  then show ?thesis
  proof cases
    case big
    have "ucast ((if bit u 31 then 0x8000 else 0 :: u32) OR (if 0x7F800000 < B then 0x7E00 else 0x7C00))
        = (if bit u 31 then 0x8000 else 0 :: u16) OR of_int (if 0x7F800000 < B then 0x7E00 else 0x7C00)"
      by (simp add: unsigned_or_eq)
    then show ?thesis
      unfolding fl_float2half_def Let_def em float_sign_half B_def [symmetric] float_mag_def l1
      using big by (simp only: if_True)
  next
    case sub
    have E113: "E < 113" using sub BE M by simp
    have sh: "126 - (of_int E :: u32) = of_int (126 - E)" by simp
    have s24: "24 < (of_int (126 - E) :: u32) \<longleftrightarrow> E < 102"
      using less_u32(1) [of 24 "126 - E"] E E113 by simp
    show ?thesis
    proof (cases "E < 102")
      case True
      have "(ucast (if bit u 31 then 0x8000 else 0 :: u32) :: u16) = (if bit u 31 then 0x8000 else 0)" by simp
      then show ?thesis
        unfolding fl_float2half_def Let_def em float_sign_half B_def [symmetric] float_mag_def l1 d23 sh s24
          E_def [symmetric]
        using sub True by simp
    next
      case False
      define k where "k = nat (126 - E)"
      have "uint (of_int (126 - E) :: u32) = 126 - E" using False E113 by (intro uint_of_int_small) simp_all
      then have "unat (of_int (126 - E) :: u32) = k" by (simp only: unat_eq_nat_uint k_def)
      with False E113 have k: "1 \<le> k" "k \<le> 24" "unat (of_int (126 - E) :: u32) = k"
        by (simp_all add: k_def)
      have m: "0 \<le> M + 2 ^ 23" "M + 2 ^ 23 < 2 ^ 24" using M by simp_all
      have md: "((of_int B :: u32) AND 0x7FFFFF) OR 0x800000 = of_int (M + 2 ^ 23)"
        by (simp only: mk(1) and_mask_u32 M_def [symmetric] sub_arith [OF M])
      have dk: "drop_bit k (of_int (M + 2 ^ 23) :: u32) = of_int (0 + (M + 2 ^ 23) div 2 ^ k)"
        using m by (subst drop_bit_u32) simp_all
      have rk: "(of_int (M + 2 ^ 23) :: u32) AND (push_bit k 1 - 1) = of_int ((M + 2 ^ 23) mod 2 ^ k)"
        by (simp only: and_mask_u32 [symmetric] mask_eq_exp_minus_1 push_bit_eq_mult mult_1)
      have hk: "push_bit (k - 1) (1 :: u32) = of_int (2 ^ (k - 1))" by (simp add: push_bit_eq_mult)
      show ?thesis
        unfolding fl_float2half_def Let_def em float_sign_half B_def [symmetric] float_mag_def l1 d23 sh s24
          E_def [symmetric] M_def [symmetric] k(3) md dk rk hk
          round_u32 [OF m even_zero k(1,2)] ucast_sign_or k_def [symmetric]
        using sub False by simp
    qed
  next
    case norm
    have Ek: "113 \<le> E" "E \<le> 142" using norm BE M by simp_all
    have h: "push_bit 10 (of_int E - 112 :: u32) OR (drop_bit 13 (of_int B) AND 0x3FF)
        = of_int ((E - 112) * 1024 + M div 2 ^ 13)"
    proof -
      have "drop_bit 13 (of_int B :: u32) AND 0x3FF = of_int (B div 2 ^ 13 mod 2 ^ 10)"
        by (simp only: drop_bit_u32 [OF B(1) B32] mk(3) and_mask_u32)
      also have "B div 2 ^ 13 mod 2 ^ 10 = M div 2 ^ 13"
      proof -
        have "B div 2 ^ 13 = E * 2 ^ 10 + M div 2 ^ 13" unfolding BE by simp
        moreover have "0 \<le> M div 2 ^ 13" "M div 2 ^ 13 < 2 ^ 10"
          using M by (simp_all add: pos_imp_zdiv_nonneg_iff div_less_iff_less_mult)
        ultimately show ?thesis by simp
      qed
      finally have lo: "drop_bit 13 (of_int B :: u32) AND 0x3FF = of_int (M div 2 ^ 13)" .
      have "0 \<le> M div 2 ^ 13" "M div 2 ^ 13 < 2 ^ 10"
        using M by (simp_all add: pos_imp_zdiv_nonneg_iff div_less_iff_less_mult)
      from push_or_u32 [OF this, of "E - 112"] show ?thesis unfolding lo by simp
    qed
    have rm: "(of_int B :: u32) AND 0x1FFF = of_int (M mod 2 ^ 13)"
    proof -
      have "B mod 2 ^ 13 = M mod 2 ^ 13" unfolding BE by (simp add: mod_add_eq [symmetric])
      then show ?thesis by (simp only: mk(2) and_mask_u32)
    qed
    have hf: "(0x1000 :: u32) = of_int (2 ^ (13 - 1))" by simp
    have m: "0 \<le> M" "M < 2 ^ 24" "even ((E - 112) * 1024)" using M by simp_all
    show ?thesis
      unfolding fl_float2half_def Let_def em float_sign_half B_def [symmetric] float_mag_def l1 d23
        E_def [symmetric] M_def [symmetric] h rm hf
      using norm round_u32 [OF m, of 13] by (simp only: if_False ucast_sign_or)
  qed
qed

lemma rne_shift_small:
  assumes "0 \<le> m" "2 * m < 2 ^ k"
  shows "rne_shift m k = 0"
proof -
  have "m < 2 ^ k" using assms by simp
  then show ?thesis using assms by (simp add: rne_shift_def Let_def)
qed

lemma rne_shift_ge: "m div 2 ^ k \<le> rne_shift m k"
  by (simp add: rne_shift_def Let_def)

lemma rne_shift_add:
  assumes "even c"
  shows "rne_shift (m + c * 2 ^ k) k = rne_shift m k + c"
proof -
  have "(m + c * 2 ^ k) div 2 ^ k = m div 2 ^ k + c" "(m + c * 2 ^ k) mod 2 ^ k = m mod 2 ^ k" by simp_all
  then show ?thesis using assms by (simp add: rne_shift_def Let_def)
qed

lemma rne_shift_le:
  assumes "0 \<le> m" "m < c * 2 ^ k"
  shows "rne_shift m k \<le> c"
proof -
  have "m div 2 ^ k < c"
  proof (rule ccontr)
    assume "\<not> m div 2 ^ k < c"
    then have "c * 2 ^ k \<le> m div 2 ^ k * 2 ^ k" by simp
    also have "\<dots> \<le> m" using pos_mod_sign [of "2 ^ k" m] div_mult_mod_eq [of m "2 ^ k"]
      by (metis le_add_same_cancel1 zero_less_numeral zero_less_power)
    finally show False using assms(2) by simp
  qed
  then show ?thesis by (simp add: rne_shift_def Let_def)
qed

lemma mag_enc_half_normal:
  assumes "0 \<le> M" "M < 2 ^ 23" "1 \<le> E"
  shows "mag_enc 10 (-24) (M + 2 ^ 23) (E - 150) =
    (if 113 \<le> E then (E - 112) * 1024 + rne_shift M 13 else rne_shift (M + 2 ^ 23) (nat (126 - E)))"
proof -
  have bl: "bit_len (M + 2 ^ 23) = 24" using bit_len_eq [of 23 "M + 2 ^ 23"] assms by simp
  have pos: "M + 8388608 \<noteq> 0" using assms by simp
  have split: "rne_shift (M + 8388608) 13 = rne_shift M 13 + 1024" using rne_shift_add [of 1024 M 13] by simp
  show ?thesis
  proof (cases "113 \<le> E")
    case True
    then have q: "max (E - 150 + 24 - int (Suc 10)) (-24) = E - 137" by simp
    show ?thesis using True unfolding mag_enc_def bl Let_def q by (simp add: split pos algebra_simps)
  next
    case False
    then have q: "max (E - 150 + 24 - int (Suc 10)) (-24) = -24" by simp
    show ?thesis using False unfolding mag_enc_def bl Let_def q by (simp add: pos)
  qed
qed

lemma float_mag_enc:
  assumes "f32_dec u = FNum s m e"
  shows "min (mag_enc 10 (-24) m e) 0x7C00 = float_mag (uint (take_bit 31 u))"
proof -
  define B where "B = uint (take_bit 31 u)"
  define E M where "E = B div 2 ^ 23" and "M = B mod 2 ^ 23"
  have B: "0 \<le> B" "B < 2 ^ 31" using uint_take_bit_less [of 31 u] by (simp_all add: B_def)
  have E: "0 \<le> E" "E < 256" using B by (simp_all add: E_def pos_imp_zdiv_nonneg_iff div_less_iff_less_mult)
  have M: "0 \<le> M" "M < 2 ^ 23" by (simp_all add: M_def)
  have BE: "B = E * 2 ^ 23 + M" by (simp add: E_def M_def)
  have fm: "float_mag B =
     (if 0x47800000 \<le> B then (if 0x7F800000 < B then 0x7E00 else 0x7C00)
      else if B < 0x38800000 then (if E < 102 then 0 else rne_shift (M + 2 ^ 23) (nat (126 - E)))
      else (E - 112) * 1024 + rne_shift M 13)"
    unfolding float_mag_def Let_def E_def M_def ..
  have E255: "E \<noteq> 255" and me: "(m, e) = (if E = 0 then (M, -149) else (M + 2 ^ 23, E - 150))"
    using assms by (auto simp: f32_dec_def Let_def B_def [symmetric] E_def M_def split: if_splits)
  consider (zero) "E = 0" | (tiny) "1 \<le> E" "E < 102" | (sub) "102 \<le> E" "E < 113"
    | (norm) "113 \<le> E" "E \<le> 142" | (big) "143 \<le> E" "E \<le> 254"
    using E E255 by linarith
  then have "min (mag_enc 10 (-24) m e) 0x7C00 = float_mag B"
  proof cases
    case zero
    have bl: "bit_len M \<le> 23" using bit_len_less [of M 23] M by simp
    then have q: "max (- 149 + bit_len M - int (Suc 10)) (-24) = -24" by simp
    have "rne_shift M 125 = 0" using M by (intro rne_shift_small) simp_all
    then have "mag_enc 10 (-24) M (-149) = 0" unfolding mag_enc_def Let_def q by simp
    moreover have "\<not> 0x47800000 \<le> B" "B < 0x38800000" using zero M BE by simp_all
    then have "float_mag B = 0" unfolding fm using zero by simp
    ultimately show ?thesis using me zero by simp
  next
    case tiny
    have "(2 :: int) ^ 25 \<le> 2 ^ nat (126 - E)" using tiny by (intro power_increasing) simp_all
    then have "rne_shift (M + 2 ^ 23) (nat (126 - E)) = 0" using M by (intro rne_shift_small) simp_all
    moreover have "\<not> 0x47800000 \<le> B" "B < 0x38800000" using tiny M BE by simp_all
    then have "float_mag B = 0" unfolding fm using tiny by simp
    ultimately show ?thesis using me tiny mag_enc_half_normal [OF M tiny(1)] by simp
  next
    case sub
    have b: "\<not> 0x47800000 \<le> B" "B < 0x38800000" using sub M BE by simp_all
    have "(2 :: int) ^ 14 \<le> 2 ^ nat (126 - E)" using sub by (intro power_increasing) simp_all
    then have "rne_shift (M + 2 ^ 23) (nat (126 - E)) \<le> 0x400"
      using M by (intro rne_shift_le) simp_all
    then show ?thesis using me sub b mag_enc_half_normal [OF M, of E]
      by (simp add: fm)
  next
    case norm
    have b: "\<not> 0x47800000 \<le> B" "\<not> B < 0x38800000" using norm M BE by simp_all
    have "rne_shift M 13 \<le> 1024" using M by (intro rne_shift_le) simp_all
    then show ?thesis using me norm b mag_enc_half_normal [OF M, of E]
      by (simp add: fm)
  next
    case big
    have b: "0x47800000 \<le> B" "B \<le> 0x7F800000" using big M BE by simp_all
    have "0 \<le> rne_shift M 13"
      using rne_shift_ge [of M 13] M pos_imp_zdiv_nonneg_iff [of "2 ^ 13" M] by simp
    then show ?thesis using me big b mag_enc_half_normal [OF M, of E]
      by (simp add: fm)
  qed
  then show ?thesis unfolding B_def .
qed

lemma float2half_spec:
  "fl_float2half u =
    (case f32_dec u of
       FNum s m e \<Rightarrow> f16_enc s m e
     | FInf s \<Rightarrow> (if s then 0x8000 else 0) OR 0x7C00
     | FNan \<Rightarrow> (if bit u 31 then 0x8000 else 0) OR 0x7E00)"
proof (cases "f32_dec u")
  case (FNum s m e)
  have "s = bit u 31" using FNum by (auto simp: f32_dec_def Let_def split: if_splits)
  then show ?thesis using float_mag_enc [OF FNum] fl_float2half_bits [of u]
    by (simp add: FNum f16_enc_def)
next
  case (FInf s)
  have d: "s = bit u 31" "uint (take_bit 31 u) div 2 ^ 23 = 255" "uint (take_bit 31 u) mod 2 ^ 23 = 0"
    using FInf by (auto simp: f32_dec_def Let_def split: if_splits)
  have "uint (take_bit 31 u) = 0x7F800000"
    using d div_mult_mod_eq [of "uint (take_bit 31 u)" "2 ^ 23"] by simp
  then show ?thesis using d fl_float2half_bits [of u] by (simp add: FInf float_mag_def)
next
  case FNan
  have d: "uint (take_bit 31 u) div 2 ^ 23 = 255" "uint (take_bit 31 u) mod 2 ^ 23 \<noteq> 0"
    using FNan by (auto simp: f32_dec_def Let_def split: if_splits)
  have "0 < uint (take_bit 31 u) mod 2 ^ 23"
    using d(2) pos_mod_sign [of "2 ^ 23" "uint (take_bit 31 u)"] by (simp add: less_le)
  then have "0x7F800000 < uint (take_bit 31 u)"
    using d div_mult_mod_eq [of "uint (take_bit 31 u)" "2 ^ 23"] by simp
  then show ?thesis using fl_float2half_bits [of u] by (simp add: FNan float_mag_def)
qed

section \<open>Comparison as an integer order\<close>

lemma f32_dec_nonneg: "f32_dec w = FNum s m e \<Longrightarrow> 0 \<le> m"
  using uint_take_bit_less [of 31 w] by (auto simp: f32_dec_def Let_def split: if_splits)

text \<open>Every finite float is an integer multiple of the least subnormal; the infinities are beyond.\<close>

definition f32_key :: "f32 \<Rightarrow> int" where
  "f32_key a = (case f32_dec a of
     FNum s m e \<Rightarrow> (if s then - m else m) * 2 ^ nat (e + 149)
   | FInf s \<Rightarrow> if s then - (2 ^ 400) else 2 ^ 400
   | FNan \<Rightarrow> 0)"

definition f32_ok :: "f32 \<Rightarrow> bool" where "f32_ok a \<longleftrightarrow> f32_dec a \<noteq> FNan"

lemma f32_dec_range:
  assumes "f32_dec w = FNum s m e"
  shows "0 \<le> m" "m < 2 ^ 24" "-149 \<le> e" "e \<le> 104"
proof -
  let ?b = "uint (take_bit 31 w)"
  have b: "0 \<le> ?b" "?b < 2 ^ 31" using uint_take_bit_less [of 31 w] by simp_all
  have E: "0 \<le> ?b div 2 ^ 23" "?b div 2 ^ 23 < 256"
    using b by (simp_all add: pos_imp_zdiv_nonneg_iff div_less_iff_less_mult)
  have M: "0 \<le> ?b mod 2 ^ 23" "?b mod 2 ^ 23 < 2 ^ 23" by simp_all
  have "?b div 2 ^ 23 \<noteq> 255 \<and> (m, e) = (if ?b div 2 ^ 23 = 0 then (?b mod 2 ^ 23, -149) else (?b mod 2 ^ 23 + 2 ^ 23, ?b div 2 ^ 23 - 150))"
    using assms by (auto simp: f32_dec_def Let_def split: if_splits)
  then show "0 \<le> m" "m < 2 ^ 24" "-149 \<le> e" "e \<le> 104"
    using E M by (auto split: if_splits)
qed

lemma dyadic_key:
  assumes "-149 \<le> e0" "e0 \<le> e"
  shows "(v :: int) * 2 ^ nat (e + 149) = v * 2 ^ nat (e - e0) * 2 ^ nat (e0 + 149)"
proof -
  have "nat (e + 149) = nat (e - e0) + nat (e0 + 149)" using assms by simp
  then show ?thesis by (simp add: power_add)
qed

lemma key_abs_less:
  assumes "f32_dec a = FNum s m e"
  shows "\<bar>f32_key a\<bar> < 2 ^ 400"
proof -
  note r = f32_dec_range [OF assms]
  have "(2 :: int) ^ nat (e + 149) \<le> 2 ^ 253" using r by (intro power_increasing) simp_all
  then have "m * 2 ^ nat (e + 149) \<le> 2 ^ 24 * 2 ^ 253" using r by (intro mult_mono) simp_all
  also have "\<dots> < (2 :: int) ^ 400" by simp
  finally have "m * 2 ^ nat (e + 149) < 2 ^ 400" .
  moreover have "0 \<le> m * 2 ^ nat (e + 149)" using r by simp
  ultimately show ?thesis by (cases s) (simp_all add: f32_key_def assms)
qed

lemma f32_lt_key:
  assumes "f32_ok a" "f32_ok b"
  shows "f32_lt a b \<longleftrightarrow> f32_key a < f32_key b"
proof (cases "f32_dec a")
  case a: (FNum s1 m1 e1)
  show ?thesis
  proof (cases "f32_dec b")
    case b: (FNum s2 m2 e2)
    define e where "e = min e1 e2"
    have e: "-149 \<le> e" "e \<le> e1" "e \<le> e2" using f32_dec_range [OF a] f32_dec_range [OF b] by (simp_all add: e_def)
    define v1 where "v1 = (if s1 then - (m1 * 2 ^ nat (e1 - e)) else m1 * 2 ^ nat (e1 - e))"
    define v2 where "v2 = (if s2 then - (m2 * 2 ^ nat (e2 - e)) else m2 * 2 ^ nat (e2 - e))"
    have "f32_key a = v1 * 2 ^ nat (e + 149)" "f32_key b = v2 * 2 ^ nat (e + 149)"
      by (simp_all add: f32_key_def a b v1_def v2_def dyadic_key [OF e(1,2)] dyadic_key [OF e(1,3)])
    moreover have "f32_lt a b \<longleftrightarrow> v1 < v2" by (simp add: f32_lt_def a b Let_def e_def v1_def v2_def)
    ultimately show ?thesis by simp
  next
    case (FInf s)
    moreover have "- (2 ^ 400) < f32_key a" "f32_key a < 2 ^ 400"
      using key_abs_less [OF a] by (simp_all only: abs_less_iff) linarith+
    ultimately show ?thesis by (cases s) (simp_all add: f32_lt_def a f32_key_def [of b])
  qed (use assms in \<open>simp add: f32_ok_def\<close>)
next
  case a: (FInf s)
  show ?thesis
  proof (cases "f32_dec b")
    case b: (FNum s2 m2 e2)
    moreover have "- (2 ^ 400) < f32_key b" "f32_key b < 2 ^ 400"
      using key_abs_less [OF b] by (simp_all only: abs_less_iff) linarith+
    ultimately show ?thesis using a by (cases s) (simp_all add: f32_lt_def f32_key_def [of a])
  next
    case (FInf s)
    then show ?thesis by (simp add: f32_lt_def a f32_key_def)
  qed (use assms in \<open>simp add: f32_ok_def\<close>)
qed (use assms in \<open>simp add: f32_ok_def\<close>)

lemma f32_lt_ok: "f32_lt a b \<Longrightarrow> f32_ok a \<and> f32_ok b"
  by (auto simp: f32_lt_def f32_ok_def split: fval.splits)

text \<open>Multiplying by one is exact.\<close>

lemma f32_mul_one:
  assumes "f32_ok a"
  shows "f32_mul 0x3F800000 a = a"
proof -
  have d: "f32_dec 0x3F800000 = FNum False (2 ^ 23) (-23)" by code_simp
  show ?thesis
  proof (cases "f32_dec a")
    case (FNum s m e)
    have "f32_enc s (2 ^ 23 * m) (-23 + e) = f32_enc s m e"
      using mag_enc_scale [of m 23 "-149" 23 e] f32_dec_range(1) [OF FNum]
      by (simp add: f32_enc_def mult.commute)
    then show ?thesis using f32_enc_dec [OF FNum] by (simp add: f32_mul_def d FNum)
  next
    case (FInf s)
    have e: "s = bit a 31" "uint (take_bit 31 a) div 2 ^ 23 = 255" "uint (take_bit 31 a) mod 2 ^ 23 = 0"
      using FInf by (auto simp: f32_dec_def Let_def split: if_splits)
    have "uint (take_bit 31 a) = 0x7F800000" using e div_mult_mod_eq [of "uint (take_bit 31 a)" "2 ^ 23"] by simp
    then have "take_bit 31 a = 0x7F800000" by (metis word_of_int_uint word_of_int_numeral)
    then have "f32_inf s = a" using sign_take_bit [of a] e(1) by (simp add: f32_inf_def)
    then show ?thesis by (simp add: f32_mul_def d FInf)
  qed (use assms in \<open>simp add: f32_ok_def\<close>)
qed

section \<open>The conversions, as properties\<close>

lemma f16_dec_nonneg: "f16_dec w = FNum s m e \<Longrightarrow> 0 \<le> m"
  using uint_take_bit_less [of 15 w] by (auto simp: f16_dec_def Let_def split: if_splits)

lemma mag_enc_same:
  assumes "fval_same (FNum s m e) (FNum s' m' e')" "0 \<le> m" "0 \<le> m'"
  shows "mag_enc mb qmin m e = mag_enc mb qmin m' e'"
proof -
  let ?k = "nat (e - min e e')" and ?k' = "nat (e' - min e e')"
  have "mag_enc mb qmin m e = mag_enc mb qmin (m * 2 ^ ?k) (e - int ?k)"
    by (rule mag_enc_scale [OF assms(2), symmetric])
  also have "m * 2 ^ ?k = m' * 2 ^ ?k'" using assms(1) by simp
  also have "e - int ?k = e' - int ?k'" by (simp add: min_def)
  also have "mag_enc mb qmin (m' * 2 ^ ?k') (e' - int ?k') = mag_enc mb qmin m' e'"
    by (rule mag_enc_scale [OF assms(3)])
  finally show ?thesis .
qed

lemma sign_take_bit16: "(if bit (w :: u16) 15 then 0x8000 else 0) OR take_bit 15 w = w"
proof -
  have e: "(if bit w 15 then 0x8000 else 0) = (push_bit 15 (of_bool (bit w 15)) :: u16)" by simp
  show ?thesis unfolding e
  proof (rule bit_word_eqI)
    fix n assume "n < LENGTH(16)"
    then have n: "n < 16" by simp
    show "bit (push_bit 15 (of_bool (bit w 15)) OR take_bit 15 w) n = bit w n"
      using n unfolding bit_or_iff bit_push_bit_iff bit_take_bit_iff
      by (cases "n = 15") (auto simp: bit_of_bool_iff)
  qed
qed

lemma f16_enc_dec:
  assumes "f16_dec w = FNum s m e"
  shows "f16_enc s m e = w"
proof -
  let ?b = "uint (take_bit 15 w)"
  let ?E = "?b div 2 ^ 10" and ?M = "?b mod 2 ^ 10"
  have b: "0 \<le> ?b" "?b < 2 ^ 15" using uint_take_bit_less [of 15 w] by simp_all
  have E0: "0 \<le> ?E" using b(1) by (simp add: pos_imp_zdiv_nonneg_iff)
  have E: "?E \<noteq> 31" "s = bit w 15"
    using assms by (auto simp: f16_dec_def Let_def split: if_splits)
  have "?E < 32" using b(2) by (simp add: div_less_iff_less_mult)
  then have "?b div 2 ^ 10 < 31" using E(1) by linarith
  then have lt: "?b \<le> 0x7C00" by (simp add: div_less_iff_less_mult)
  have mag: "mag_enc 10 (-24) m e = ?b"
  proof (cases "?E = 0")
    case True
    then have "m = ?M" "e = -24" "?M = ?b" using assms E b by (auto simp: f16_dec_def Let_def)
    then show ?thesis using mag_enc_subnormal [of ?M 10 "-24"] by simp
  next
    case False
    then have "1 \<le> ?E" using E0 by linarith
    moreover have "m = ?M + 2 ^ 10" "e = ?E + -24 - 1" using assms E False by (auto simp: f16_dec_def Let_def)
    ultimately show ?thesis using mag_enc_normal [of ?M 10 ?E "-24"] by simp
  qed
  show ?thesis
    unfolding f16_enc_def Let_def mag E(2) using lt sign_take_bit16 [of w] by (simp add: min_def)
qed

lemma half_roundtrip:
  assumes "f16_dec h = FNum s m e"
  shows "fl_float2half (fl_half2float h) = h"
proof -
  obtain s' m' e' where f: "f32_dec (fl_half2float h) = FNum s' m' e'"
    using half2float_same [of h] unfolding assms by (cases "f32_dec (fl_half2float h)") auto
  have same: "fval_same (FNum s' m' e') (FNum s m e)" using half2float_same [of h] unfolding assms f .
  have "mag_enc 10 (-24) m' e' = mag_enc 10 (-24) m e"
    by (rule mag_enc_same [OF same f32_dec_nonneg [OF f] f16_dec_nonneg [OF assms]])
  moreover have "s' = s" using same by simp
  ultimately have "f16_enc s' m' e' = f16_enc s m e" by (simp add: f16_enc_def)
  then show ?thesis using f16_enc_dec [OF assms] by (simp add: float2half_spec f)
qed

text \<open>Reading a half gives exactly its value as a float: the decoded mantissa and exponent are
  the same real with the same sign, subnormals renormalised; infinities and NaNs stay what they
  are.\<close>

theorem half2float_exact: "fval_same (f32_dec (fl_half2float h)) (f16_dec h)"
  by (rule half2float_same)

text \<open>C14: \<open>fl_float2half\<close> is rounding to nearest, ties to even, in all its branches: the
  half it returns is the encoding of the exact value of its argument (subnormal results,
  underflow to a signed zero and overflow to infinity included), and it keeps infinities and
  NaNs.\<close>

theorem float2half_rounds_to_nearest_even:
  "fl_float2half u =
    (case f32_dec u of
       FNum s m e \<Rightarrow> f16_enc s m e
     | FInf s \<Rightarrow> (if s then 0x8000 else 0) OR 0x7C00
     | FNan \<Rightarrow> (if bit u 31 then 0x8000 else 0) OR 0x7E00)"
  by (rule float2half_spec)

text \<open>Converting a finite half to float and back gives the half again, bit for bit.\<close>

theorem half_float_half_id: "f16_dec h = FNum s m e \<Longrightarrow> fl_float2half (fl_half2float h) = h"
  by (rule half_roundtrip)

theorem half_float_half_id_witness:
  "fl_float2half (fl_half2float 0x8003) = 0x8003 \<and> fl_half2float 0x8003 = 0xB4400000"
proof
  have "f16_dec 0x8003 = FNum True 3 (-24)" by code_simp
  then show "fl_float2half (fl_half2float 0x8003) = 0x8003" by (rule half_float_half_id)
  show "fl_half2float 0x8003 = 0xB4400000" by code_simp
qed

end
