(* ===== verification/FL_Quants.thy ===== *)
theory FL_Quants
  imports FL_Task FL_Float FL_IqTables
begin

text \<open>
  The weight formats of \<open>src/runtime/quants.h\<close>: the block layouts as byte offsets of a row, and
  the canonical scalar dot of a row with a vector, format by format. A row is the function from
  byte offsets to bytes, a vector the function from indices to floats; multi-byte fields are
  little-endian. The float operations are those of \<open>FL_Float\<close>: the build disables
  contraction, so every product and sum rounds.
\<close>

section \<open>Reading a block\<close>

type_synonym bytes = "nat \<Rightarrow> u8"
type_synonym fvec = "nat \<Rightarrow> f32"

definition rd16 :: "bytes \<Rightarrow> nat \<Rightarrow> u16" where
  "rd16 p o' = ucast (p o') OR push_bit 8 (ucast (p (o' + 1)))"

definition rd32 :: "bytes \<Rightarrow> nat \<Rightarrow> u32" where
  "rd32 p o' = ucast (p o') OR push_bit 8 (ucast (p (o' + 1))) OR push_bit 16 (ucast (p (o' + 2)))
     OR push_bit 24 (ucast (p (o' + 3)))"

definition fl_of_i8 :: "u8 \<Rightarrow> f32" where "fl_of_i8 b = f32_of_int (sint b)"
definition fl_of_u8 :: "u8 \<Rightarrow> f32" where "fl_of_u8 b = f32_of_int (uint b)"

text \<open>The scales and minimums of a Q4\_K block, pair by pair and all at once.\<close>

definition fl_q4k_scale_min :: "nat \<Rightarrow> bytes \<Rightarrow> u8 \<times> u8" where
  "fl_q4k_scale_min j s =
    (if j < 4 then (s j AND 63, s (j + 4) AND 63)
     else ((s (j + 4) AND 0xF) OR push_bit 4 (drop_bit 6 (s (j - 4))),
           drop_bit 4 (s (j + 4)) OR push_bit 4 (drop_bit 6 (s j))))"

definition fl_q4k_scales_all :: "bytes \<Rightarrow> u8 list \<times> u8 list" where
  "fl_q4k_scales_all s =
    (let st = for_loop 0 4 (\<lambda>j (d8, m8). (d8[j := s j AND 63], m8[j := s (j + 4) AND 63]))
                (replicate 8 0, replicate 8 0)
     in for_loop 4 8 (\<lambda>j (d8, m8).
          (d8[j := (s (j + 4) AND 0xF) OR push_bit 4 (drop_bit 6 (s (j - 4)))],
           m8[j := drop_bit 4 (s (j + 4)) OR push_bit 4 (drop_bit 6 (s j))])) st)"

section \<open>The canonical dots\<close>

definition fl_dot_row_q8_0 :: "bytes \<Rightarrow> fvec \<Rightarrow> nat \<Rightarrow> f32" where
  "fl_dot_row_q8_0 row x cols =
    for_loop 0 (cols div 32) (\<lambda>b acc.
      let B = (\<lambda>i. row (b * 34 + i)); d = fl_half2float (rd16 B 0)
      in for_loop 0 32 (\<lambda>i acc.
           f32_add acc (f32_mul (f32_mul d (fl_of_i8 (B (2 + i)))) (x (b * 32 + i)))) acc) 0"

definition q5_lo :: "bytes \<Rightarrow> nat \<Rightarrow> int" where
  "q5_lo B j = (let xh = (ucast (push_bit 4 (drop_bit j (rd32 B 2)) AND 0x10) :: u8)
     in uint ((B (6 + j) AND 0x0F) OR xh) - 16)"

definition q5_hi :: "bytes \<Rightarrow> nat \<Rightarrow> int" where
  "q5_hi B j = (let xh = (ucast (drop_bit (j + 12) (rd32 B 2) AND 0x10) :: u8)
     in uint (drop_bit 4 (B (6 + j)) OR xh) - 16)"

definition fl_dot_row_q5_0 :: "bytes \<Rightarrow> fvec \<Rightarrow> nat \<Rightarrow> f32" where
  "fl_dot_row_q5_0 row x cols =
    for_loop 0 (cols div 32) (\<lambda>b acc.
      let B = (\<lambda>i. row (b * 22 + i)); d = fl_half2float (rd16 B 0);
          acc = for_loop 0 16 (\<lambda>j acc.
            f32_add acc (f32_mul (f32_mul d (f32_of_int (q5_lo B j))) (x (b * 32 + j)))) acc
      in for_loop 0 16 (\<lambda>j acc.
           f32_add acc (f32_mul (f32_mul d (f32_of_int (q5_hi B j))) (x (b * 32 + 16 + j)))) acc) 0"

definition fl_dot_row_q4_K :: "bytes \<Rightarrow> fvec \<Rightarrow> nat \<Rightarrow> f32" where
  "fl_dot_row_q4_K row x cols =
    for_loop 0 (cols div 256) (\<lambda>sb acc.
      let B = (\<lambda>i. row (sb * 144 + i)); d = fl_half2float (rd16 B 0); dmin = fl_half2float (rd16 B 2);
          scales = (\<lambda>i. B (4 + i))
      in for_loop 0 4 (\<lambda>jj acc.
           let q = (\<lambda>l. B (16 + 32 * jj + l)); is = 2 * jj; xb = (\<lambda>l. x (sb * 256 + 64 * jj + l));
               (sc, mn) = fl_q4k_scale_min is scales;
               d1 = f32_mul d (fl_of_u8 sc); m1 = f32_mul dmin (fl_of_u8 mn);
               (sc, mn) = fl_q4k_scale_min (is + 1) scales;
               d2 = f32_mul d (fl_of_u8 sc); m2 = f32_mul dmin (fl_of_u8 mn);
               acc = for_loop 0 32 (\<lambda>l acc.
                 f32_add acc (f32_mul (f32_sub (f32_mul d1 (fl_of_u8 (q l AND 0xF))) m1) (xb l))) acc
           in for_loop 0 32 (\<lambda>l acc.
                f32_add acc (f32_mul (f32_sub (f32_mul d2 (fl_of_u8 (drop_bit 4 (q l)))) m2) (xb (32 + l)))) acc)
         acc) 0"

text \<open>The 6-bit weight at offset \<open>l\<close> of span \<open>s\<close> of a half block whose pointers are \<open>ql\<close>, \<open>qh\<close>.\<close>

definition q6_bits :: "bytes \<Rightarrow> bytes \<Rightarrow> nat \<Rightarrow> nat \<Rightarrow> int" where
  "q6_bits ql qh s l =
    (let lb = ql ((s mod 2) * 32 + l)
     in uint ((if s < 2 then lb AND 0xF else drop_bit 4 lb) OR push_bit 4 (drop_bit (2 * s) (qh l) AND 3)))"

definition fl_dot_row_q6_K :: "bytes \<Rightarrow> fvec \<Rightarrow> nat \<Rightarrow> f32" where
  "fl_dot_row_q6_K row x cols =
    for_loop 0 (cols div 256) (\<lambda>sb acc.
      let B = (\<lambda>i. row (sb * 210 + i)); d = fl_half2float (rd16 B 208); xb = (\<lambda>i. x (sb * 256 + i))
      in for_loop 0 2 (\<lambda>h acc.
           let n = 128 * h; ql = (\<lambda>i. B (64 * h + i)); qh = (\<lambda>i. B (128 + 32 * h + i));
               sc = (\<lambda>i. B (192 + 8 * h + i));
               term = (\<lambda>s l. f32_mul (f32_mul (f32_mul d (fl_of_i8 (sc (l div 16 + 2 * s))))
                          (f32_of_int (q6_bits ql qh s l - 32))) (xb (n + l + 32 * s)));
               acc = for_loop 0 32 (\<lambda>l acc. f32_add acc (term 0 l)) acc;
               acc = for_loop 0 32 (\<lambda>l acc. f32_add acc (term 1 l)) acc;
               acc = for_loop 0 32 (\<lambda>l acc. f32_add acc (term 2 l)) acc
           in for_loop 0 32 (\<lambda>l acc. f32_add acc (term 3 l)) acc)
         acc) 0"

definition fl_half_const :: f32 where "fl_half_const = 0x3F000000" \<comment> \<open>\<open>0.5f\<close>\<close>
definition fl_quarter_const :: f32 where "fl_quarter_const = 0x3E800000" \<comment> \<open>\<open>0.25f\<close>\<close>

definition iq_signed :: "u8 \<Rightarrow> nat \<Rightarrow> f32 \<Rightarrow> f32" where
  "iq_signed s j v = (if s AND fl_kIqSignMask j \<noteq> 0 then f32_neg v else v)"

definition fl_dot_row_iq2_xxs :: "bytes \<Rightarrow> fvec \<Rightarrow> nat \<Rightarrow> f32" where
  "fl_dot_row_iq2_xxs row x cols =
    for_loop 0 (cols div 256) (\<lambda>sb acc.
      let B = (\<lambda>i. row (sb * 66 + i)); d = fl_half2float (rd16 B 0); xb = (\<lambda>i. x (sb * 256 + i))
      in for_loop 0 8 (\<lambda>ib32 acc.
           let q = (\<lambda>i. rd16 B (2 + 2 * (4 * ib32 + i)));
               w0 = (ucast (q 0) OR push_bit 16 (ucast (q 1)) :: u32);
               w1 = (ucast (q 2) OR push_bit 16 (ucast (q 3)) :: u32);
               db = f32_mul (f32_mul d (f32_add fl_half_const (f32_of_int (uint (drop_bit 28 w1))))) fl_quarter_const
           in for_loop 0 4 (\<lambda>l acc.
                let g = fl_kIq2xxsGrid (unat (drop_bit (8 * l) w0 AND 0xFF));
                    s = fl_kIqSigns (unat (drop_bit (7 * l) w1 AND 127))
                in for_loop 0 8 (\<lambda>j acc.
                     let v = fl_of_u8 (ucast (drop_bit (8 * j) g))
                     in f32_add acc (f32_mul (f32_mul db (iq_signed s j v)) (xb (ib32 * 32 + l * 8 + j)))) acc)
              acc) acc) 0"

definition fl_dot_row_iq3_xxs :: "bytes \<Rightarrow> fvec \<Rightarrow> nat \<Rightarrow> f32" where
  "fl_dot_row_iq3_xxs row x cols =
    for_loop 0 (cols div 256) (\<lambda>sb acc.
      let B = (\<lambda>i. row (sb * 98 + i)); d = fl_half2float (rd16 B 0); qs = (\<lambda>i. B (2 + i));
          ss = (\<lambda>i. qs (64 + i)); xb = (\<lambda>i. x (sb * 256 + i))
      in for_loop 0 8 (\<lambda>ib32 acc.
           let w1 = for_loop 0 4 (\<lambda>b w. w OR push_bit (8 * b) (ucast (ss (4 * ib32 + b)))) (0 :: u32);
               db = f32_mul (f32_mul d (f32_add fl_half_const (f32_of_int (uint (drop_bit 28 w1))))) fl_half_const
           in for_loop 0 4 (\<lambda>l acc.
                let g1 = fl_kIq3xxsGrid (unat (qs (8 * ib32 + 2 * l + 0)));
                    g2 = fl_kIq3xxsGrid (unat (qs (8 * ib32 + 2 * l + 1)));
                    s = fl_kIqSigns (unat (drop_bit (7 * l) w1 AND 127))
                in for_loop 0 4 (\<lambda>j acc.
                     let v1 = fl_of_u8 (ucast (drop_bit (8 * j) g1)); v2 = fl_of_u8 (ucast (drop_bit (8 * j) g2));
                         acc = f32_add acc (f32_mul (f32_mul db (iq_signed s j v1)) (xb (ib32 * 32 + l * 8 + j)))
                     in f32_add acc (f32_mul (f32_mul db (iq_signed s (j + 4) v2)) (xb (ib32 * 32 + l * 8 + j + 4)))) acc)
              acc) acc) 0"

definition fl_dot_row_f32 :: "bytes \<Rightarrow> fvec \<Rightarrow> nat \<Rightarrow> f32" where
  "fl_dot_row_f32 row x cols = for_loop 0 cols (\<lambda>c acc. f32_add acc (f32_mul (rd32 row (4 * c)) (x c))) 0"

fun fl_dot_row_any :: "fmt \<Rightarrow> bytes \<Rightarrow> fvec \<Rightarrow> nat \<Rightarrow> f32" where
  "fl_dot_row_any F32 = fl_dot_row_f32"
| "fl_dot_row_any Q8_0 = fl_dot_row_q8_0"
| "fl_dot_row_any Q5_0 = fl_dot_row_q5_0"
| "fl_dot_row_any Q4_K = fl_dot_row_q4_K"
| "fl_dot_row_any Q6_K = fl_dot_row_q6_K"
| "fl_dot_row_any IQ2_XXS = fl_dot_row_iq2_xxs"
| "fl_dot_row_any IQ3_XXS = fl_dot_row_iq3_xxs"

section \<open>Dequantisation, element by element\<close>

text \<open>The value of element \<open>i\<close> of a block, and of element \<open>c\<close> of a row.\<close>

definition dq_q8_0 :: "bytes \<Rightarrow> nat \<Rightarrow> f32" where
  "dq_q8_0 B i = f32_mul (fl_half2float (rd16 B 0)) (fl_of_i8 (B (2 + i)))"

definition dq_q5_0 :: "bytes \<Rightarrow> nat \<Rightarrow> f32" where
  "dq_q5_0 B i = f32_mul (fl_half2float (rd16 B 0))
     (f32_of_int (if i < 16 then q5_lo B i else q5_hi B (i - 16)))"

definition dq_q4_K :: "bytes \<Rightarrow> nat \<Rightarrow> f32" where
  "dq_q4_K B i =
    (let g = i div 32; (sc, mn) = fl_q4k_scale_min g (\<lambda>k. B (4 + k)); b = B (16 + 32 * (g div 2) + i mod 32);
         q = (if even g then b AND 0xF else drop_bit 4 b)
     in f32_sub (f32_mul (f32_mul (fl_half2float (rd16 B 0)) (fl_of_u8 sc)) (fl_of_u8 q))
          (f32_mul (fl_half2float (rd16 B 2)) (fl_of_u8 mn)))"

definition dq_q6_K :: "bytes \<Rightarrow> nat \<Rightarrow> f32" where
  "dq_q6_K B i =
    (let h = i div 128; s = i mod 128 div 32; l = i mod 32
     in f32_mul (f32_mul (fl_half2float (rd16 B 208)) (fl_of_i8 (B (192 + 8 * h + (l div 16 + 2 * s)))))
          (f32_of_int (q6_bits (\<lambda>k. B (64 * h + k)) (\<lambda>k. B (128 + 32 * h + k)) s l - 32)))"

definition iq_scale :: "f32 \<Rightarrow> f32 \<Rightarrow> u32 \<Rightarrow> f32" where
  "iq_scale d k w1 = f32_mul (f32_mul d (f32_add fl_half_const (f32_of_int (uint (drop_bit 28 w1))))) k"

definition iq_sign_byte :: "u32 \<Rightarrow> nat \<Rightarrow> u8" where
  "iq_sign_byte w1 l = fl_kIqSigns (unat (drop_bit (7 * l) w1 AND 127))"

definition dq_iq2_xxs :: "bytes \<Rightarrow> nat \<Rightarrow> f32" where
  "dq_iq2_xxs B i =
    (let ib32 = i div 32; l = i mod 32 div 8; j = i mod 8;
         q = (\<lambda>k. rd16 B (2 + 2 * (4 * ib32 + k)));
         w0 = (ucast (q 0) OR push_bit 16 (ucast (q 1)) :: u32);
         w1 = (ucast (q 2) OR push_bit 16 (ucast (q 3)) :: u32);
         g = fl_kIq2xxsGrid (unat (drop_bit (8 * l) w0 AND 0xFF))
     in f32_mul (iq_scale (fl_half2float (rd16 B 0)) fl_quarter_const w1)
          (iq_signed (iq_sign_byte w1 l) j (fl_of_u8 (ucast (drop_bit (8 * j) g)))))"

definition dq_iq3_xxs :: "bytes \<Rightarrow> nat \<Rightarrow> f32" where
  "dq_iq3_xxs B i =
    (let ib32 = i div 32; l = i mod 32 div 8; j = i mod 8;
         w1 = for_loop 0 4 (\<lambda>b w. w OR push_bit (8 * b) (ucast (B (2 + (64 + (4 * ib32 + b)))))) (0 :: u32);
         g = fl_kIq3xxsGrid (unat (B (2 + (8 * ib32 + 2 * l + j div 4))))
     in f32_mul (iq_scale (fl_half2float (rd16 B 0)) fl_half_const w1)
          (iq_signed (iq_sign_byte w1 l) j (fl_of_u8 (ucast (drop_bit (8 * (j mod 4)) g)))))"

fun dq_block :: "fmt \<Rightarrow> bytes \<Rightarrow> nat \<Rightarrow> f32" where
  "dq_block F32 = (\<lambda>B i. rd32 B 0)"
| "dq_block Q8_0 = dq_q8_0"
| "dq_block Q5_0 = dq_q5_0"
| "dq_block Q4_K = dq_q4_K"
| "dq_block Q6_K = dq_q6_K"
| "dq_block IQ2_XXS = dq_iq2_xxs"
| "dq_block IQ3_XXS = dq_iq3_xxs"

definition dq_elem :: "fmt \<Rightarrow> bytes \<Rightarrow> nat \<Rightarrow> f32" where
  "dq_elem f row c =
    (let n = unat (fl_blk_elems f)
     in dq_block f (\<lambda>i. row (c div n * unat (fl_blk_bytes f) + i)) (c mod n))"

text \<open>Dequantise the row, then multiply and accumulate in the order of a list of indices.\<close>

definition dot_order :: "nat list \<Rightarrow> fvec \<Rightarrow> fvec \<Rightarrow> f32 \<Rightarrow> f32" where
  "dot_order cs w x acc = fold (\<lambda>c acc. f32_add acc (f32_mul (w c) (x c))) cs acc"

definition dot_asc :: "fvec \<Rightarrow> fvec \<Rightarrow> nat \<Rightarrow> f32" where
  "dot_asc w x n = dot_order [0..<n] w x 0"

lemma dot_asc_loop: "dot_asc w x n = for_loop 0 n (\<lambda>c acc. f32_add acc (f32_mul (w c) (x c))) 0"
  by (simp add: dot_asc_def dot_order_def for_loop_def)

lemma dot_asc_blocks:
  "dot_asc w x (n * m) = for_loop 0 n (\<lambda>b. for_loop 0 m (\<lambda>i acc.
     f32_add acc (f32_mul (w (b * m + i)) (x (b * m + i))))) 0"
  unfolding dot_asc_loop by (rule for_loop_blocks [symmetric])

lemma block_div_mod: "i < m \<Longrightarrow> (b * m + i) div m = b" "i < m \<Longrightarrow> (b * m + i) mod m = (i :: nat)"
  by simp_all

text \<open>The dot of a row whose block bodies are ascending dots is ascending.\<close>

lemma dot_asc_row:
  assumes n: "n = unat (fl_blk_elems f)"
    and body: "\<And>b acc. body b acc = for_loop 0 n (\<lambda>i acc.
      f32_add acc (f32_mul (dq_block f (\<lambda>k. row (b * unat (fl_blk_bytes f) + k)) i) (x (b * n + i)))) acc"
  shows "for_loop 0 nb body 0 = dot_asc (dq_elem f row) x (nb * n)"
  unfolding dot_asc_blocks
  by (intro for_loop_cong) (auto simp: body dq_elem_def Let_def n [symmetric] intro!: for_loop_cong)

lemma for_loop_two: "for_loop 0 2 f s = f 1 (f 0 s)"
  by (simp add: for_loop_def upt_conv_Cons)

lemma for_loop_four: "for_loop 0 4 f s = f 3 (f 2 (f 1 (f 0 s)))"
  by (simp add: for_loop_def upt_conv_Cons eval_nat_numeral)

lemma for_loop_split_blocks:
  "N = n * m \<Longrightarrow> for_loop 0 N body s = for_loop 0 n (\<lambda>b. for_loop 0 m (\<lambda>i. body (b * m + i))) s"
  by (simp add: for_loop_blocks)

lemma q8_0_asc: "fl_dot_row_q8_0 row x cols = dot_asc (dq_elem Q8_0 row) x (cols div 32 * 32)"
  unfolding fl_dot_row_q8_0_def
  by (rule dot_asc_row) (simp_all add: dq_q8_0_def Let_def)

lemma for_loop_congs:
  "s = s' \<Longrightarrow> (\<And>i a. lo \<le> i \<Longrightarrow> i < hi \<Longrightarrow> body i a = body' i a) \<Longrightarrow>
     for_loop lo hi body s = for_loop lo hi body' s'"
  by (simp only:) (rule for_loop_cong)

lemma f32_add_congs: "w = w' \<Longrightarrow> y = y' \<Longrightarrow> f32_add a (f32_mul w y) = f32_add a (f32_mul w' y')"
  by simp

lemma f32_add_congs2:
  "a = a' \<Longrightarrow> w = w' \<Longrightarrow> y = y' \<Longrightarrow> f32_add a (f32_mul w y) = f32_add a' (f32_mul w' y')"
  by simp

lemma q5_0_asc: "fl_dot_row_q5_0 row x cols = dot_asc (dq_elem Q5_0 row) x (cols div 32 * 32)"
  unfolding fl_dot_row_q5_0_def
proof (rule dot_asc_row, goal_cases)
  case (2 b acc)
  show ?case
    unfolding for_loop_split_blocks [of 32 2 16, simplified] for_loop_two Let_def
    by (intro for_loop_congs f32_add_congs) (simp_all add: dq_q5_0_def add.assoc)
qed simp

lemma dq_q4_K_even:
  "l < 32 \<Longrightarrow> dq_q4_K B (jj * 64 + (0 * 32 + l)) =
     f32_sub (f32_mul (f32_mul (fl_half2float (rd16 B 0)) (fl_of_u8 (fst (fl_q4k_scale_min (2 * jj) (\<lambda>k. B (4 + k))))))
               (fl_of_u8 (B (16 + 32 * jj + l) AND 0xF)))
       (f32_mul (fl_half2float (rd16 B 2)) (fl_of_u8 (snd (fl_q4k_scale_min (2 * jj) (\<lambda>k. B (4 + k))))))"
proof -
  assume l: "l < 32"
  have "(jj * 64 + (0 * 32 + l)) div 32 = 2 * jj" "(jj * 64 + (0 * 32 + l)) mod 32 = l"
    using block_div_mod [OF l, of "2 * jj"] by (simp_all add: algebra_simps)
  then show ?thesis by (simp only: dq_q4_K_def Let_def split_def) simp
qed

lemma dq_q4_K_odd:
  "l < 32 \<Longrightarrow> dq_q4_K B (jj * 64 + (1 * 32 + l)) =
     f32_sub (f32_mul (f32_mul (fl_half2float (rd16 B 0)) (fl_of_u8 (fst (fl_q4k_scale_min (2 * jj + 1) (\<lambda>k. B (4 + k))))))
               (fl_of_u8 (drop_bit 4 (B (16 + 32 * jj + l)))))
       (f32_mul (fl_half2float (rd16 B 2)) (fl_of_u8 (snd (fl_q4k_scale_min (2 * jj + 1) (\<lambda>k. B (4 + k))))))"
proof -
  assume l: "l < 32"
  have "(jj * 64 + (1 * 32 + l)) div 32 = 2 * jj + 1" "(jj * 64 + (1 * 32 + l)) mod 32 = l"
    using block_div_mod [OF l, of "2 * jj + 1"] by (simp_all add: algebra_simps)
  moreover have "(2 * jj + 1) div 2 = jj" "odd (2 * jj + 1)" by simp_all
  ultimately show ?thesis by (simp only: dq_q4_K_def Let_def split_def if_False)
qed

lemma q4_K_asc: "fl_dot_row_q4_K row x cols = dot_asc (dq_elem Q4_K row) x (cols div 256 * 256)"
  unfolding fl_dot_row_q4_K_def
proof (rule dot_asc_row, goal_cases)
  case (2 b acc)
  show ?case
    unfolding for_loop_split_blocks [of 256 4 64, simplified] for_loop_split_blocks [of 64 2 32, simplified]
      for_loop_two Let_def split_def dq_block.simps fl_blk_bytes.simps
    by (intro for_loop_congs f32_add_congs refl arg_cong [where f = x])
       (simp_all only: dq_q4_K_even dq_q4_K_odd, simp_all)
qed simp

lemma dq_q6_K_at:
  "s < 4 \<Longrightarrow> l < 32 \<Longrightarrow> dq_q6_K B (h * 128 + (s * 32 + l)) =
     f32_mul (f32_mul (fl_half2float (rd16 B 208)) (fl_of_i8 (B (192 + 8 * h + (l div 16 + 2 * s)))))
          (f32_of_int (q6_bits (\<lambda>k. B (64 * h + k)) (\<lambda>k. B (128 + 32 * h + k)) s l - 32))"
proof -
  assume s: "s < 4" and l: "l < 32"
  have r: "s * 32 + l < 128" using s l by simp
  have "(h * 128 + (s * 32 + l)) div 128 = h" "(h * 128 + (s * 32 + l)) mod 128 = s * 32 + l"
    by (rule block_div_mod [OF r])+
  moreover have "(s * 32 + l) div 32 = s" by (rule block_div_mod [OF l])
  moreover have "(h * 128 + (s * 32 + l)) mod 32 = l"
    using block_div_mod(2) [OF l, of "4 * h + s"] by (simp add: algebra_simps)
  ultimately show ?thesis by (simp only: dq_q6_K_def Let_def)
qed

lemma q6_K_asc: "fl_dot_row_q6_K row x cols = dot_asc (dq_elem Q6_K row) x (cols div 256 * 256)"
  unfolding fl_dot_row_q6_K_def
proof (rule dot_asc_row, goal_cases)
  case (2 b acc)
  show ?case
    unfolding for_loop_split_blocks [of 256 2 128, simplified] for_loop_split_blocks [of 128 4 32, simplified]
      for_loop_four Let_def dq_block.simps fl_blk_bytes.simps
    by (intro for_loop_congs f32_add_congs refl arg_cong [where f = x])
       (simp_all only: dq_q6_K_at, simp_all)
qed simp

lemma iq_index:
  assumes "j < 8" "l < 4"
  shows "(a * 32 + (l * 8 + j)) div 32 = a" "(a * 32 + (l * 8 + j)) mod 32 div 8 = l" "(a * 32 + (l * 8 + j)) mod 8 = (j :: nat)"
proof -
  have r: "l * 8 + j < 32" using assms by simp
  show "(a * 32 + (l * 8 + j)) div 32 = a" by (rule block_div_mod [OF r])
  show "(a * 32 + (l * 8 + j)) mod 32 div 8 = l"
    unfolding block_div_mod(2) [OF r] by (rule block_div_mod [OF assms(1)])
  show "(a * 32 + (l * 8 + j)) mod 8 = j"
    using block_div_mod(2) [OF assms(1), of "4 * a + l"] by (simp add: algebra_simps)
qed

lemma iq2_asc: "fl_dot_row_iq2_xxs row x cols = dot_asc (dq_elem IQ2_XXS row) x (cols div 256 * 256)"
  unfolding fl_dot_row_iq2_xxs_def
proof (rule dot_asc_row, goal_cases)
  case (2 b acc)
  show ?case
    unfolding for_loop_split_blocks [of 256 8 32, simplified] for_loop_split_blocks [of 32 4 8, simplified]
      Let_def dq_block.simps fl_blk_bytes.simps
    by (intro for_loop_congs f32_add_congs refl arg_cong [where f = x])
       (simp_all only: dq_iq2_xxs_def iq_index Let_def iq_scale_def iq_sign_byte_def, simp_all)
qed simp

text \<open>IQ3\_XXS takes the two grid words of an octet in turn: its order is not ascending.\<close>

definition iq3_order :: "nat \<Rightarrow> nat list" where
  "iq3_order n = concat (map (\<lambda>c. map ((+) (8 * c)) [0, 4, 1, 5, 2, 6, 3, 7]) [0..<n div 8])"

lemma dot_order_concat:
  "dot_order (concat (map g cs)) w x acc = fold (\<lambda>c acc. dot_order (g c) w x acc) cs acc"
  by (induction cs arbitrary: acc) (simp_all add: dot_order_def)

lemma iq3_order_loop:
  "dot_order (iq3_order n) w x acc =
     for_loop 0 (n div 8) (\<lambda>c acc. dot_order (map ((+) (8 * c)) [0, 4, 1, 5, 2, 6, 3, 7]) w x acc) acc"
  unfolding iq3_order_def dot_order_concat for_loop_def ..

lemma dq_iq3_at:
  assumes "j < 8" "l < 4" "a < 8"
  shows "dq_elem IQ3_XXS row (8 * (b * 32 + (a * 4 + l)) + j) =
    (let B = (\<lambda>i. row (b * 98 + i));
         w1 = for_loop 0 4 (\<lambda>k w. w OR push_bit (8 * k) (ucast (B (2 + (64 + (4 * a + k)))))) (0 :: u32);
         g = fl_kIq3xxsGrid (unat (B (2 + (8 * a + 2 * l + j div 4))))
     in f32_mul (iq_scale (fl_half2float (rd16 B 0)) fl_half_const w1)
          (iq_signed (iq_sign_byte w1 l) j (fl_of_u8 (ucast (drop_bit (8 * (j mod 4)) g)))))"
proof -
  have e: "8 * (b * 32 + (a * 4 + l)) + j = b * 256 + (a * 32 + (l * 8 + j))" by simp
  have r: "a * 32 + (l * 8 + j) < 256" using assms by simp
  have u: "unat (fl_blk_elems IQ3_XXS) = 256" "unat (fl_blk_bytes IQ3_XXS) = 98" by simp_all
  show ?thesis
    by (simp only: e dq_elem_def Let_def u dq_block.simps dq_iq3_xxs_def block_div_mod [OF r]
        iq_index [OF assms(1,2)])
qed

lemma for_loop_numeral_split:
  "for_loop 0 (nb * 32) f s = for_loop 0 nb (\<lambda>b. for_loop 0 8 (\<lambda>a. for_loop 0 4 (\<lambda>l. f (b * 32 + (a * 4 + l))))) s"
  unfolding for_loop_blocks [symmetric, of nb 32] for_loop_split_blocks [of 32 8 4, simplified] ..

lemma iq3_permuted:
  "fl_dot_row_iq3_xxs row x cols = dot_order (iq3_order (cols div 256 * 256)) (dq_elem IQ3_XXS row) x 0"
proof -
  have n: "cols div 256 * 256 div 8 = cols div 256 * 32" by simp
  show ?thesis
    unfolding iq3_order_loop n for_loop_numeral_split
    unfolding fl_dot_row_iq3_xxs_def Let_def for_loop_four [of "\<lambda>j acc. f32_add (f32_add acc (_ j)) (_ j)"]
    unfolding dot_order_def list.map fold_simps
    by (intro for_loop_congs f32_add_congs2 refl arg_cong [where f = x])
       (simp_all only: dq_iq3_at Let_def iq_scale_def iq_sign_byte_def, simp_all)
qed

text \<open>Every order visits each element of the row once.\<close>

lemma iq3_order_mset: "mset (iq3_order (8 * n)) = mset [0..<8 * n]"
proof (induction n)
  case (Suc n)
  have "[0..<8 * Suc n] = [0..<8 * n] @ [8 * n..<8 * n + 8]"
    using upt_add_eq_append [of 0 "8 * n" 8] by (simp add: add.commute)
  moreover have "mset (map ((+) (8 * n)) [0, 4, 1, 5, 2, 6, 3, 7]) = mset [8 * n..<8 * n + 8]"
    by (simp add: upt_conv_Cons eval_nat_numeral)
  moreover have "iq3_order (8 * Suc n) = iq3_order (8 * n) @ map ((+) (8 * n)) [0, 4, 1, 5, 2, 6, 3, 7]"
    unfolding iq3_order_def by simp
  ultimately show ?case using Suc by (simp only: mset_append)
qed (simp add: iq3_order_def)

definition row_order :: "fmt \<Rightarrow> nat \<Rightarrow> nat list" where
  "row_order f n = (if f = IQ3_XXS then iq3_order n else [0..<n])"

definition row_elems :: "fmt \<Rightarrow> nat \<Rightarrow> nat" where
  "row_elems f cols = cols div unat (fl_blk_elems f) * unat (fl_blk_elems f)"

lemma dot_row_any_order:
  "fl_dot_row_any f row x cols = dot_order (row_order f (row_elems f cols)) (dq_elem f row) x 0"
proof (cases f)
  case F32
  have "fl_dot_row_f32 row x cols = dot_asc (dq_elem F32 row) x cols"
    unfolding fl_dot_row_f32_def dot_asc_loop by (simp add: dq_elem_def mult.commute rd32_def)
  then show ?thesis by (simp add: F32 row_order_def row_elems_def dot_asc_def)
qed (simp_all add: q8_0_asc q5_0_asc q4_K_asc q6_K_asc iq2_asc iq3_permuted dot_asc_def row_order_def row_elems_def)

lemma row_order_mset: "mset (row_order f (row_elems f cols)) = mset [0..<row_elems f cols]"
proof (cases "f = IQ3_XXS")
  case True
  have "row_elems f cols = 8 * (cols div 256 * 32)" by (simp add: True row_elems_def)
  then show ?thesis using True iq3_order_mset [of "cols div 256 * 32"] by (simp only: row_order_def refl if_True)
qed (simp add: row_order_def)

lemma q4k_scales_all_eq:
  "fl_q4k_scales_all s = (map (\<lambda>j. fst (fl_q4k_scale_min j s)) [0..<8], map (\<lambda>j. snd (fl_q4k_scale_min j s)) [0..<8])"
  unfolding fl_q4k_scales_all_def for_loop_def fl_q4k_scale_min_def
  by (simp add: upt_conv_Cons eval_nat_numeral Let_def)

text \<open>C15: The canonical dot of every format dequantises the row element by element and then
  multiplies and accumulates in a fixed order that visits each element of the complete blocks
  once: ascending for every format except IQ3\_XXS, which alternates the two halves of each
  octet. The dequantised value is a function of the element alone.\<close>

theorem dot_row_is_dequant_then_dot:
  "fl_dot_row_any f row x cols = dot_order (row_order f (row_elems f cols)) (dq_elem f row) x 0
   \<and> mset (row_order f (row_elems f cols)) = mset [0..<row_elems f cols]"
  using dot_row_any_order row_order_mset by blast

text \<open>Decoding the eight scale and minimum pairs of a Q4\_K block at once gives the values
  of decoding them pair by pair.\<close>

theorem q4k_scales_all_is_pairwise:
  "fl_q4k_scales_all s = (map (\<lambda>j. fst (fl_q4k_scale_min j s)) [0..<8], map (\<lambda>j. snd (fl_q4k_scale_min j s)) [0..<8])"
  by (rule q4k_scales_all_eq)

end
