(* ===== verification/FL_Quants_I8.thy ===== *)
theory FL_Quants_I8
  imports FL_Quants
begin

text \<open>
  The int8 path of \<open>src/runtime/quants.h\<close>: the activation block quantisers, the layout of the
  activation buffer, and the scalar reference dots over Q8\_1 and Q8\_K blocks. \<open>int8_t\<close>,
  \<open>int16_t\<close> and \<open>int\<close> values are integers; the bounds that keep them in range are proved below.
\<close>

section \<open>Activation blocks\<close>

record blk_q8_1 =
  q1_d :: f16
  q1_s :: f16
  q1_qs :: "int list"

record blk_q8_K =
  qK_d :: f32
  qK_bsums :: "int list"
  qK_qs :: "int list"

definition f32_127 :: f32 where "f32_127 = 0x42FE0000"

definition block_amax :: "nat \<Rightarrow> fvec \<Rightarrow> f32" where
  "block_amax n x = for_loop 0 n (\<lambda>i amax. let a = f32_abs (x i) in if f32_lt amax a then a else amax) 0"

text \<open>One quantised element; \<open>None\<close> where the conversion to an integer is undefined.\<close>

definition quant_elem :: "f32 \<Rightarrow> f32 \<Rightarrow> int option" where
  "quant_elem iv x =
    (let q = f32_roundf (f32_mul x iv);
         q = (if f32_lt f32_127 q then f32_127 else q);
         q = (if f32_lt q (f32_neg f32_127) then f32_neg f32_127 else q)
     in f32_to_int (-128) 127 q)"

definition block_id :: "f32 \<Rightarrow> f32" where
  "block_id amax = (if f32_lt 0 amax then f32_div f32_127 amax else 0)"

text \<open>A run of elements with their sum.\<close>

definition quant_run :: "f32 \<Rightarrow> fvec \<Rightarrow> nat \<Rightarrow> nat \<Rightarrow> int list \<Rightarrow> (int list \<times> int) option" where
  "quant_run iv x lo n qs =
    for_loop 0 n (\<lambda>i st. case st of None \<Rightarrow> None
      | Some (qs, tot) \<Rightarrow> (case quant_elem iv (x (lo + i)) of None \<Rightarrow> None
          | Some q \<Rightarrow> Some (qs @ [q], tot + q))) (Some (qs, 0))"

definition fl_quantize_q8_1_block :: "fvec \<Rightarrow> blk_q8_1 option" where
  "fl_quantize_q8_1_block x =
    (let amax = block_amax 32 x; d = f32_div amax f32_127
     in case quant_run (block_id amax) x 0 32 [] of None \<Rightarrow> None
        | Some (qs, tot) \<Rightarrow>
            Some \<lparr>q1_d = fl_float2half d, q1_s = fl_float2half (f32_mul d (f32_of_int tot)), q1_qs = qs\<rparr>)"

definition fl_quantize_q8_K_block :: "fvec \<Rightarrow> blk_q8_K option" where
  "fl_quantize_q8_K_block x =
    (let amax = block_amax 256 x; d = f32_div amax f32_127; iv = block_id amax
     in case for_loop 0 16 (\<lambda>g st. case st of None \<Rightarrow> None
          | Some (qs, bsums) \<Rightarrow> (case quant_run iv x (g * 16) 16 qs of None \<Rightarrow> None
              | Some (qs, bs) \<Rightarrow> Some (qs, bsums @ [bs]))) (Some ([], [])) of
          None \<Rightarrow> None
        | Some (qs, bsums) \<Rightarrow> Some \<lparr>qK_d = d, qK_bsums = bsums, qK_qs = qs\<rparr>)"

section \<open>Layout of an activation buffer\<close>

definition align16 :: "u64 \<Rightarrow> u64" where
  "align16 n = (n + 15) AND NOT 15"

definition fl_xq_bytes :: "u32 \<Rightarrow> u64" where
  "fl_xq_bytes cols = (ucast cols div 32) * 36"

definition fl_xq_of :: "addr \<Rightarrow> u32 \<Rightarrow> addr" where
  "fl_xq_of x cols = x + align16 (ucast cols * 4)"

definition fl_xqk_of :: "addr \<Rightarrow> u32 \<Rightarrow> addr" where
  "fl_xqk_of x cols = (let f32 = align16 (ucast cols * 4); q81 = align16 (fl_xq_bytes cols) in x + f32 + q81)"

definition fl_x_alloc_bytes :: "u32 \<Rightarrow> u64" where
  "fl_x_alloc_bytes cols =
    (let f32 = align16 (ucast cols * 4); q81 = align16 (fl_xq_bytes cols)
     in f32 + q81 + (ucast cols div 256) * 292)"

text \<open>The two appendices an \<open>ACT_Q8\<close> task writes, with the addresses they start at.\<close>

definition blocks_of :: "(fvec \<Rightarrow> 'b option) \<Rightarrow> nat \<Rightarrow> fvec \<Rightarrow> nat \<Rightarrow> 'b list option" where
  "blocks_of quant m x n =
    for_loop 0 n (\<lambda>b st. case st of None \<Rightarrow> None
      | Some bs \<Rightarrow> (case quant (\<lambda>i. x (b * m + i)) of None \<Rightarrow> None | Some o' \<Rightarrow> Some (bs @ [o']))) (Some [])"

definition fl_exec_act_q8 :: "task \<Rightarrow> fvec \<Rightarrow> ((addr \<times> blk_q8_1 list) \<times> (addr \<times> blk_q8_K list)) option" where
  "fl_exec_act_q8 t x =
    (case blocks_of fl_quantize_q8_1_block 32 x (unat (t_cols t) div 32) of None \<Rightarrow> None
     | Some o1 \<Rightarrow> (case blocks_of fl_quantize_q8_K_block 256 x (unat (t_cols t) div 256) of None \<Rightarrow> None
         | Some oK \<Rightarrow> Some ((t_y t, o1), (fl_xqk_of (t_x t) (t_cols t), oK))))"

section \<open>Reference dots\<close>

definition fl_idot32 :: "(nat \<Rightarrow> int) \<Rightarrow> (nat \<Rightarrow> int) \<Rightarrow> int" where
  "fl_idot32 a b = for_loop 0 32 (\<lambda>i s. s + a i * b i) 0"

definition fl_fold4 :: "f32 list \<Rightarrow> f32" where
  "fl_fold4 a = f32_add (f32_add (a ! 0) (a ! 1)) (f32_add (a ! 2) (a ! 3))"

text \<open>\<open>a4[t & 3] = fmaf(p, q, a4[t & 3])\<close>\<close>

definition fma4 :: "nat \<Rightarrow> f32 \<Rightarrow> f32 \<Rightarrow> f32 list \<Rightarrow> f32 list" where
  "fma4 t p q a4 = (let k = t mod 4 in a4[k := f32_fma p q (a4 ! k)])"

definition acc4 :: "f32 list" where "acc4 = [0, 0, 0, 0]"

type_synonym q81_vec = "nat \<Rightarrow> blk_q8_1"
type_synonym q8K_vec = "nat \<Rightarrow> blk_q8_K"

definition fl_dot_i8_q8_0 :: "bytes \<Rightarrow> q81_vec \<Rightarrow> nat \<Rightarrow> f32" where
  "fl_dot_i8_q8_0 row xq cols =
    fl_fold4 (for_loop 0 (cols div 32) (\<lambda>b a4.
      let W = (\<lambda>i. row (b * 34 + i))
      in fma4 b (f32_mul (fl_half2float (rd16 W 0)) (fl_half2float (q1_d (xq b))))
           (f32_of_int (fl_idot32 (\<lambda>i. sint (W (2 + i))) (\<lambda>i. q1_qs (xq b) ! i))) a4) acc4)"

definition q5_bits_lo :: "bytes \<Rightarrow> nat \<Rightarrow> int" where
  "q5_bits_lo W j = uint ((ucast (W (6 + j) AND 0x0F) :: u32) OR (push_bit 4 (drop_bit j (rd32 W 2)) AND 0x10))"

definition q5_bits_hi :: "bytes \<Rightarrow> nat \<Rightarrow> int" where
  "q5_bits_hi W j = uint ((ucast (drop_bit 4 (W (6 + j))) :: u32) OR (drop_bit (j + 12) (rd32 W 2) AND 0x10))"

definition q5_int :: "bytes \<Rightarrow> (nat \<Rightarrow> int) \<Rightarrow> int" where
  "q5_int W q =
    (let idot = for_loop 0 16 (\<lambda>j s. s + (q5_bits_lo W j * q j + q5_bits_hi W j * q (16 + j))) 0;
         isum = for_loop 0 32 (\<lambda>i s. s + q i) 0
     in idot - 16 * isum)"

definition fl_dot_i8_q5_0 :: "bytes \<Rightarrow> q81_vec \<Rightarrow> nat \<Rightarrow> f32" where
  "fl_dot_i8_q5_0 row xq cols =
    fl_fold4 (for_loop 0 (cols div 32) (\<lambda>b a4.
      let W = (\<lambda>i. row (b * 22 + i))
      in fma4 b (f32_mul (fl_half2float (rd16 W 0)) (fl_half2float (q1_d (xq b))))
           (f32_of_int (q5_int W (\<lambda>i. q1_qs (xq b) ! i))) a4) acc4)"

text \<open>The integer sums of a 32-element group of a Q4\_K block.\<close>

definition q4_bits :: "bytes \<Rightarrow> nat \<Rightarrow> nat \<Rightarrow> int" where
  "q4_bits W g i = (let q = W (16 + (g div 2) * 32 + i) in uint (if odd g then drop_bit 4 q else q AND 0x0F))"

definition q4_idot :: "bytes \<Rightarrow> (nat \<Rightarrow> int) \<Rightarrow> nat \<Rightarrow> int" where
  "q4_idot W xg g = for_loop 0 32 (\<lambda>i s. s + q4_bits W g i * xg i) 0"

definition fl_dot_i8_q4_K :: "bytes \<Rightarrow> q81_vec \<Rightarrow> nat \<Rightarrow> f32" where
  "fl_dot_i8_q4_K row xq cols =
    fl_fold4 (for_loop 0 (cols div 256) (\<lambda>sb a4.
      let W = (\<lambda>i. row (sb * 144 + i)); d = fl_half2float (rd16 W 0); dmin = fl_half2float (rd16 W 2)
      in for_loop 0 8 (\<lambda>g a4.
           let (sc, mn) = fl_q4k_scale_min g (\<lambda>i. W (4 + i));
               xg = (\<lambda>i. q1_qs (xq (sb * 8 + g)) ! i);
               idot = q4_idot W xg g; isum = for_loop 0 32 (\<lambda>i s. s + xg i) 0;
               dx = fl_half2float (q1_d (xq (sb * 8 + g)));
               a4 = fma4 g (f32_mul (f32_mul d (fl_of_u8 sc)) dx) (f32_of_int idot) a4
           in fma4 g (f32_mul (f32_neg (f32_mul dmin (fl_of_u8 mn))) dx) (f32_of_int isum) a4) a4) acc4)"

text \<open>The sums of the 16-element group \<open>k16\<close> of span \<open>s\<close> of half \<open>h\<close> of a Q6\_K block.\<close>

definition q6_idot :: "bytes \<Rightarrow> (nat \<Rightarrow> int) \<Rightarrow> nat \<Rightarrow> nat \<Rightarrow> nat \<Rightarrow> int" where
  "q6_idot W xg h s k16 =
    (let ql = (\<lambda>i. W (h * 64 + i)); qh = (\<lambda>i. W (128 + h * 32 + i))
     in for_loop 0 16 (\<lambda>i t. let e = k16 * 16 + i in t + q6_bits ql qh s e * xg e) 0)"

definition q6_scale :: "bytes \<Rightarrow> nat \<Rightarrow> nat \<Rightarrow> nat \<Rightarrow> int" where
  "q6_scale W h s k16 = sint (W (192 + h * 8 + (2 * s + k16)))"

definition fl_dot_i8_q6_K :: "bytes \<Rightarrow> q81_vec \<Rightarrow> nat \<Rightarrow> f32" where
  "fl_dot_i8_q6_K row xq cols =
    fl_fold4 (for_loop 0 (cols div 256) (\<lambda>sb a4.
      let W = (\<lambda>i. row (sb * 210 + i)); d = fl_half2float (rd16 W 208)
      in for_loop 0 2 (\<lambda>h. for_loop 0 4 (\<lambda>s a4.
           let xg = (\<lambda>i. q1_qs (xq (sb * 8 + h * 4 + s)) ! i);
               dx = fl_half2float (q1_d (xq (sb * 8 + h * 4 + s)))
           in for_loop 0 2 (\<lambda>k16 a4.
                let idot = q6_idot W xg h s k16;
                    isum = for_loop 0 16 (\<lambda>i t. t + xg (k16 * 16 + i)) 0;
                    t = q6_scale W h s k16 * (idot - 32 * isum); ti = h * 8 + s * 2 + k16
                in fma4 ti (f32_mul d dx) (f32_of_int t) a4) a4)) a4) acc4)"

definition q4k_iacc :: "bytes \<Rightarrow> blk_q8_K \<Rightarrow> nat \<Rightarrow> int \<times> int" where
  "q4k_iacc W xk n =
    for_loop 0 n (\<lambda>g (iacc, imins).
      let (sc, mn) = fl_q4k_scale_min g (\<lambda>i. W (4 + i));
          idot = q4_idot W (\<lambda>i. qK_qs xk ! (g * 32 + i)) g
      in (iacc + uint sc * idot, imins + uint mn * (qK_bsums xk ! (2 * g) + qK_bsums xk ! (2 * g + 1)))) (0, 0)"

definition fl_dot_i8k_q4_K :: "bytes \<Rightarrow> q8K_vec \<Rightarrow> nat \<Rightarrow> f32" where
  "fl_dot_i8k_q4_K row xk cols =
    fl_fold4 (for_loop 0 (cols div 256) (\<lambda>sb a4.
      let W = (\<lambda>i. row (sb * 144 + i)); d = fl_half2float (rd16 W 0); dmin = fl_half2float (rd16 W 2);
          dk = qK_d (xk sb); (iacc, imins) = q4k_iacc W (xk sb) 8;
          a4 = fma4 sb (f32_mul d dk) (f32_of_int iacc) a4
      in fma4 sb (f32_neg (f32_mul dmin dk)) (f32_of_int imins) a4) acc4)"

text \<open>\<open>iacc\<close> after the first \<open>n\<close> of the sixteen groups \<open>(h, s, k16)\<close> of a Q6\_K block.\<close>

definition q6k_term :: "bytes \<Rightarrow> blk_q8_K \<Rightarrow> nat \<Rightarrow> nat \<Rightarrow> nat \<Rightarrow> int" where
  "q6k_term W xk h s k16 =
    (let idot = q6_idot W (\<lambda>i. qK_qs xk ! ((h * 4 + s) * 32 + i)) h s k16;
         bs = qK_bsums xk ! (2 * (h * 4 + s) + k16)
     in q6_scale W h s k16 * (idot - 32 * bs))"

definition q6k_iacc :: "bytes \<Rightarrow> blk_q8_K \<Rightarrow> int" where
  "q6k_iacc W xk =
    for_loop 0 2 (\<lambda>h. for_loop 0 4 (\<lambda>s. for_loop 0 2 (\<lambda>k16 iacc. iacc + q6k_term W xk h s k16))) 0"

definition fl_dot_i8k_q6_K :: "bytes \<Rightarrow> q8K_vec \<Rightarrow> nat \<Rightarrow> f32" where
  "fl_dot_i8k_q6_K row xk cols =
    fl_fold4 (for_loop 0 (cols div 256) (\<lambda>sb a4.
      let W = (\<lambda>i. row (sb * 210 + i)); d = fl_half2float (rd16 W 208); dk = qK_d (xk sb)
      in fma4 sb (f32_mul d dk) (f32_of_int (q6k_iacc W (xk sb))) a4) acc4)"

fun fl_dot_i8k_any :: "fmt \<Rightarrow> bytes \<Rightarrow> q8K_vec \<Rightarrow> nat \<Rightarrow> f32" where
  "fl_dot_i8k_any Q4_K = fl_dot_i8k_q4_K"
| "fl_dot_i8k_any Q6_K = fl_dot_i8k_q6_K"
| "fl_dot_i8k_any _ = (\<lambda>_ _ _. 0)"

fun fl_dot_i8_any :: "fmt \<Rightarrow> bytes \<Rightarrow> q81_vec \<Rightarrow> nat \<Rightarrow> f32" where
  "fl_dot_i8_any Q8_0 = fl_dot_i8_q8_0"
| "fl_dot_i8_any Q5_0 = fl_dot_i8_q5_0"
| "fl_dot_i8_any Q4_K = fl_dot_i8_q4_K"
| "fl_dot_i8_any Q6_K = fl_dot_i8_q6_K"
| "fl_dot_i8_any _ = (\<lambda>_ _ _. 0)"

section \<open>Quantised elements\<close>

lemma rne_shift_nonneg: "0 \<le> m \<Longrightarrow> 0 \<le> rne_shift m k"
  using rne_shift_ge [of m k] pos_imp_zdiv_nonneg_iff [of "2 ^ k" m] by simp

lemma mag_enc_nonneg: "0 \<le> m \<Longrightarrow> 0 \<le> mag_enc mb qmin m e"
  by (simp add: mag_enc_def Let_def rne_shift_nonneg)

lemma f32_dec_enc:
  assumes "0 \<le> m"
  shows "\<exists>m' e'. 0 \<le> m' \<and> f32_dec (f32_enc s m e) \<in> {FNum s m' e', FInf s}"
proof -
  define b where "b = min (mag_enc 23 (-149) m e) 0x7F800000"
  have b: "0 \<le> b" "b \<le> 0x7F800000" using mag_enc_nonneg [OF assms] by (simp_all add: b_def)
  have d: "f32_dec (f32_enc s m e) = fields32 s b"
    unfolding f32_enc_def Let_def b_def [symmetric] by (rule f32_dec_fields) (use b in simp_all)
  have m: "0 \<le> b mod 2 ^ 23" "b = b div 2 ^ 23 * 2 ^ 23 + b mod 2 ^ 23" by simp_all
  show ?thesis
  proof (cases "b div 2 ^ 23 = 255")
    case True
    then have "b mod 2 ^ 23 = 0" using m b by simp
    then show ?thesis using True by (intro exI [of _ 0]) (simp add: d fields32_def)
  next
    case False
    then show ?thesis using m(1)
      by (cases "b div 2 ^ 23 = 0")
        (intro exI [of _ "b mod 2 ^ 23"] exI [of _ "-149"],
          simp add: d fields32_def Let_def,
         intro exI [of _ "b mod 2 ^ 23 + 2 ^ 23"] exI [of _ "b div 2 ^ 23 - 150"],
          simp add: d fields32_def Let_def)
  qed
qed

definition is_num :: "f32 \<Rightarrow> bool" where
  "is_num a = (case f32_dec a of FNum _ _ _ \<Rightarrow> True | _ \<Rightarrow> False)"

lemma is_numE: "is_num a \<Longrightarrow> (\<And>s m e. f32_dec a = FNum s m e \<Longrightarrow> 0 \<le> m \<Longrightarrow> thesis) \<Longrightarrow> thesis"
  unfolding is_num_def using f32_dec_nonneg [of a] by (cases "f32_dec a") auto

lemma f32_dec_enc_not_nan: "0 \<le> m \<Longrightarrow> f32_dec (f32_enc s m e) \<noteq> FNan"
  using f32_dec_enc [of m s e] by auto

lemma mul_not_nan:
  assumes "is_num a" "is_num b"
  shows "f32_dec (f32_mul a b) \<noteq> FNan"
proof -
  obtain s m e where a: "f32_dec a = FNum s m e" "0 \<le> m" using assms(1) by (rule is_numE)
  obtain s' m' e' where b: "f32_dec b = FNum s' m' e'" "0 \<le> m'" using assms(2) by (rule is_numE)
  have "f32_mul a b = f32_enc (s \<noteq> s') (m * m') (e + e')" by (simp add: f32_mul_def a b)
  then show ?thesis using f32_dec_enc_not_nan a b by simp
qed

lemma roundf_not_nan: "f32_dec a \<noteq> FNan \<Longrightarrow> f32_dec (f32_roundf a) \<noteq> FNan"
proof (cases "f32_dec a")
  case (FNum s m e)
  have "0 \<le> (m + 2 ^ (nat (- e) - 1)) div 2 ^ nat (- e)"
    using f32_dec_nonneg [OF FNum] by (intro pos_imp_zdiv_nonneg_iff [THEN iffD2]) simp_all
  then show ?thesis using FNum f32_dec_enc_not_nan by (simp add: f32_roundf_def)
qed (simp_all add: f32_roundf_def)

lemma dec_127: "f32_dec f32_127 = FNum False 16646144 (-17)" "f32_dec (f32_neg f32_127) = FNum True 16646144 (-17)"
  by code_simp+

text \<open>The truncation of a value that is not beyond 127 in magnitude.\<close>

lemma trunc_le_127:
  assumes "0 \<le> (m :: int)" "m * 2 ^ nat (e - min e (-17)) \<le> 16646144 * 2 ^ nat (-17 - min e (-17))"
  shows "(if 0 \<le> e then m * 2 ^ nat e else m div 2 ^ nat (- e)) \<le> 127"
proof (cases "0 \<le> e")
  case True
  then have "nat (e - min e (-17)) = nat e + 17" "nat (-17 - min e (-17)) = 0" by (simp_all add: min_def nat_add_distrib)
  then have "(m * 2 ^ nat e) * 2 ^ 17 \<le> 127 * 2 ^ 17" using assms(2) by (simp add: power_add mult.assoc)
  then show ?thesis using True by simp
next
  case False
  have "m \<le> 127 * 2 ^ nat (- e)"
  proof (cases "-17 \<le> e")
    case True
    then have k: "nat (e - min e (-17)) + nat (- e) = 17" "nat (-17 - min e (-17)) = 0"
      using False by (simp_all add: min_def, arith)
    have "m * 2 ^ 17 = m * 2 ^ nat (e - min e (-17)) * 2 ^ nat (- e)"
      unfolding k(1) [symmetric] power_add by (simp add: mult.assoc)
    also have "\<dots> \<le> 16646144 * 2 ^ nat (- e)"
      by (rule mult_right_mono) (use assms(2) k(2) in simp_all)
    finally show ?thesis by simp
  next
    case lt: False
    then have k: "nat (e - min e (-17)) = 0" "nat (-17 - min e (-17)) + 17 = nat (- e)" by (simp_all add: min_def)
    have "m \<le> 127 * 2 ^ (nat (-17 - min e (-17)) + 17)" using assms(2) k(1) by (simp add: power_add)
    then show ?thesis by (simp only: k(2))
  qed
  then have "m div 2 ^ nat (- e) \<le> 127 * 2 ^ nat (- e) div 2 ^ nat (- e)" by (intro zdiv_mono1) simp_all
  then show ?thesis using False by simp
qed

lemma to_int_clamped:
  assumes nn: "f32_dec q \<noteq> FNan" and hi: "\<not> f32_lt f32_127 q" and lo: "\<not> f32_lt q (f32_neg f32_127)"
  shows "\<exists>v. f32_to_int (-128) 127 q = Some v \<and> \<bar>v\<bar> \<le> 127"
proof (cases "f32_dec q")
  case (FInf s)
  then show ?thesis using hi lo by (simp add: f32_lt_def dec_127)
next
  case (FNum s m e)
  have m: "0 \<le> m" by (rule f32_dec_nonneg [OF FNum])
  have v: "m * 2 ^ nat (e - min e (-17)) \<le> 16646144 * 2 ^ nat (-17 - min e (-17))"
    using hi lo by (cases s) (simp_all add: f32_lt_def FNum dec_127 Let_def min.commute)
  let ?t = "if 0 \<le> e then m * 2 ^ nat e else m div 2 ^ nat (- e)"
  have t: "?t \<le> 127" by (rule trunc_le_127 [OF m v])
  have "0 \<le> ?t" using m by (simp add: pos_imp_zdiv_nonneg_iff)
  then have "\<bar>if s then - ?t else ?t\<bar> \<le> 127" using t by (cases s) simp_all
  moreover have "f32_to_int (-128) 127 q = Some (if s then - ?t else ?t)"
  proof -
    have "-128 \<le> (if s then - ?t else ?t) \<and> (if s then - ?t else ?t) \<le> 127"
      using \<open>0 \<le> ?t\<close> t by (cases s) simp_all
    then show ?thesis unfolding f32_to_int_def FNum fval.case Let_def by (rule if_P)
  qed
  ultimately show ?thesis by blast
qed (use nn in simp)

lemma quant_elem_ok:
  assumes "is_num x" "is_num iv"
  shows "\<exists>v. quant_elem iv x = Some v \<and> \<bar>v\<bar> \<le> 127"
proof -
  define q0 where "q0 = f32_roundf (f32_mul x iv)"
  define q1 where "q1 = (if f32_lt f32_127 q0 then f32_127 else q0)"
  define q2 where "q2 = (if f32_lt q1 (f32_neg f32_127) then f32_neg f32_127 else q1)"
  have c: "\<not> f32_lt f32_127 f32_127" "\<not> f32_lt f32_127 (f32_neg f32_127)"
    "\<not> f32_lt (f32_neg f32_127) (f32_neg f32_127)" by code_simp+
  have n0: "f32_dec q0 \<noteq> FNan" unfolding q0_def by (rule roundf_not_nan [OF mul_not_nan [OF assms]])
  then have n1: "f32_dec q1 \<noteq> FNan" by (simp add: q1_def dec_127)
  then have "f32_dec q2 \<noteq> FNan" by (simp add: q2_def dec_127)
  moreover have "\<not> f32_lt f32_127 q1" using c by (simp add: q1_def)
  then have "\<not> f32_lt f32_127 q2" using c by (simp add: q2_def)
  moreover have "\<not> f32_lt q2 (f32_neg f32_127)" using c by (simp add: q2_def)
  ultimately have "\<exists>v. f32_to_int (-128) 127 q2 = Some v \<and> \<bar>v\<bar> \<le> 127" by (rule to_int_clamped)
  then show ?thesis unfolding quant_elem_def Let_def q0_def [symmetric] q1_def [symmetric] q2_def [symmetric] .
qed

definition qval :: "f32 \<Rightarrow> f32 \<Rightarrow> int" where "qval iv x = the (quant_elem iv x)"

lemma quant_run_ok:
  assumes "is_num iv" "\<forall>i<n. is_num (x (lo + i))"
  shows "quant_run iv x lo n qs =
    Some (qs @ map (\<lambda>i. qval iv (x (lo + i))) [0..<n], sum_list (map (\<lambda>i. qval iv (x (lo + i))) [0..<n]))"
  using assms(2)
proof (induction n)
  case (Suc n)
  obtain v where "quant_elem iv (x (lo + n)) = Some v" using quant_elem_ok [OF _ assms(1)] Suc.prems by blast
  then show ?case using Suc by (simp add: quant_run_def for_loop_last qval_def)
qed (simp add: quant_run_def)

lemma qval_bound: "is_num x \<Longrightarrow> is_num iv \<Longrightarrow> \<bar>qval iv x\<bar> \<le> 127"
  using quant_elem_ok [of x iv] by (auto simp: qval_def)

definition block_fin :: "nat \<Rightarrow> fvec \<Rightarrow> bool" where
  "block_fin n x \<longleftrightarrow> list_all (\<lambda>i. is_num (x i)) [0..<n] \<and> is_num (block_id (block_amax n x))"

definition qs_ok :: "nat \<Rightarrow> int list \<Rightarrow> bool" where
  "qs_ok n qs \<longleftrightarrow> length qs = n \<and> list_all (\<lambda>q. \<bar>q\<bar> \<le> 127) qs"

lemma quantize_q8_1_ok:
  assumes "block_fin 32 x"
  shows "\<exists>b. fl_quantize_q8_1_block x = Some b \<and> qs_ok 32 (q1_qs b)
    \<and> q1_d b = fl_float2half (f32_div (block_amax 32 x) f32_127)
    \<and> q1_s b = fl_float2half (f32_mul (f32_div (block_amax 32 x) f32_127) (f32_of_int (sum_list (q1_qs b))))"
proof -
  let ?iv = "block_id (block_amax 32 x)"
  have iv: "is_num ?iv" and x: "\<forall>i<32. is_num (x (0 + i))"
    using assms by (simp_all add: block_fin_def list_all_iff)
  have "list_all (\<lambda>q. \<bar>q\<bar> \<le> 127) (map (\<lambda>i. qval ?iv (x (0 + i))) [0..<32])"
    using qval_bound [OF _ iv] x by (simp add: list_all_iff)
  then show ?thesis
    unfolding fl_quantize_q8_1_block_def Let_def quant_run_ok [where lo = 0 and n = 32 and x = x, OF iv x] qs_ok_def by simp
qed

text \<open>The group sums of a Q8\_K block are the sums of its quantised elements.\<close>

definition q8K_ok :: "blk_q8_K \<Rightarrow> bool" where
  "q8K_ok b \<longleftrightarrow> qs_ok 256 (qK_qs b) \<and> length (qK_bsums b) = 16
    \<and> list_all (\<lambda>g. qK_bsums b ! g = (\<Sum>i<16. qK_qs b ! (16 * g + i))) [0..<16]"

lemma quantize_q8_K_run:
  assumes iv: "is_num iv" and x: "\<forall>i<16 * n. is_num (x i)"
  shows "for_loop 0 n (\<lambda>g st. case st of None \<Rightarrow> None
          | Some (qs, bsums) \<Rightarrow> (case quant_run iv x (g * 16) 16 qs of None \<Rightarrow> None
              | Some (qs, bs) \<Rightarrow> Some (qs, bsums @ [bs]))) (Some ([], []))
    = Some (map (\<lambda>i. qval iv (x i)) [0..<16 * n],
        map (\<lambda>g. \<Sum>i<16. qval iv (x (16 * g + i))) [0..<n])"
  using x
proof (induction n)
  case (Suc n)
  have r: "quant_run iv x (n * 16) 16 qs =
    Some (qs @ map (\<lambda>i. qval iv (x (n * 16 + i))) [0..<16], sum_list (map (\<lambda>i. qval iv (x (n * 16 + i))) [0..<16]))" for qs
    by (rule quant_run_ok [OF iv]) (simp add: Suc.prems)
  have "map ((+) (n * 16)) [0..<16] = [n * 16..<n * 16 + 16]" by (rule nth_equalityI) simp_all
  then have "[0..<16 * Suc n] = [0..<16 * n] @ map ((+) (n * 16)) [0..<16]"
    using upt_add_eq_append [of 0 "16 * n" 16] by (simp add: add.commute mult.commute)
  then show ?case using Suc
    by (simp add: for_loop_last r mult.commute interv_sum_list_conv_sum_set_nat atLeast0LessThan comp_def)
qed simp

lemma quantize_q8_K_ok:
  assumes "block_fin 256 x"
  shows "\<exists>b. fl_quantize_q8_K_block x = Some b \<and> q8K_ok b \<and> qK_d b = f32_div (block_amax 256 x) f32_127"
proof -
  let ?iv = "block_id (block_amax 256 x)"
  have iv: "is_num ?iv" and x: "\<forall>i<16 * 16. is_num (x i)"
    using assms by (simp_all add: block_fin_def list_all_iff)
  have "list_all (\<lambda>q. \<bar>q\<bar> \<le> 127) (map (\<lambda>i. qval ?iv (x i)) [0..<256])"
    using qval_bound [OF _ iv] x by (simp add: list_all_iff)
  moreover have "list_all (\<lambda>g. map (\<lambda>g. \<Sum>i<16. qval ?iv (x (16 * g + i))) [0..<16] ! g
      = (\<Sum>i<16. map (\<lambda>i. qval ?iv (x i)) [0..<256] ! (16 * g + i))) [0..<16]"
    by (simp add: list_all_iff)
  moreover note run = quantize_q8_K_run [where n = 16 and x = x, OF iv x]
  ultimately show ?thesis
    unfolding fl_quantize_q8_K_block_def Let_def q8K_ok_def qs_ok_def by (subst run) simp
qed

section \<open>Integer sums\<close>

lemma for_loop_sum: "for_loop 0 n (\<lambda>i s. s + f i) a = a + (\<Sum>i<n. f i :: int)"
  by (induction n) (simp_all add: for_loop_last add.assoc)

lemma sum_abs_le:
  assumes "\<And>i. i < n \<Longrightarrow> \<bar>f i\<bar> \<le> B"
  shows "\<bar>\<Sum>i<n. f i :: int\<bar> \<le> int n * B"
proof -
  have "\<bar>\<Sum>i<n. f i\<bar> \<le> (\<Sum>i<n. \<bar>f i\<bar>)" by (rule sum_abs)
  also have "\<dots> \<le> (\<Sum>i<n. B)" by (rule sum_mono) (simp add: assms)
  finally show ?thesis by simp
qed

lemma abs_mult_le: "\<bar>a\<bar> \<le> A \<Longrightarrow> \<bar>b\<bar> \<le> B \<Longrightarrow> \<bar>a * b :: int\<bar> \<le> A * B"
  by (simp add: abs_mult mult_mono)

lemma abs_add_le: "\<bar>a\<bar> \<le> A \<Longrightarrow> \<bar>b\<bar> \<le> B \<Longrightarrow> \<bar>a + b :: int\<bar> \<le> A + B"
  by linarith

lemma qs_ok_nth: "qs_ok n qs \<Longrightarrow> i < n \<Longrightarrow> \<bar>qs ! i\<bar> \<le> 127"
  by (auto simp: qs_ok_def list_all_length)

text \<open>A byte none of whose bits from \<open>k\<close> on is set is below \<open>2 ^ k\<close>.\<close>

lemma u8_bits_less:
  assumes "\<And>n. k \<le> n \<Longrightarrow> n < 8 \<Longrightarrow> \<not> bit (w :: u8) n"
  shows "0 \<le> uint w \<and> uint w < 2 ^ k"
proof -
  have "take_bit k w = w"
  proof (rule bit_word_eqI)
    fix n assume "n < LENGTH(8)"
    then show "bit (take_bit k w) n = bit w n" using assms [of n] by (simp add: bit_take_bit_iff) linarith
  qed
  then show ?thesis using uint_take_bit_less [of k w] by simp
qed

lemma nat_4_8: "4 \<le> n \<Longrightarrow> n < 8 \<Longrightarrow> n = 4 \<or> n = 5 \<or> n = 6 \<or> n = (7 :: nat)"
  by arith

lemma q4_bits_range: "0 \<le> q4_bits W g i \<and> q4_bits W g i < 16"
proof -
  have "0 \<le> uint (if odd g then drop_bit 4 q else q AND 0x0F) \<and> uint (if odd g then drop_bit 4 q else q AND 0x0F) < 2 ^ 4"
    for q :: u8
    by (rule u8_bits_less, drule (1) nat_4_8) (auto simp: bit_and_iff bit_drop_bit_eq dest: bit_imp_le_length)
  then show ?thesis by (simp add: q4_bits_def Let_def)
qed

lemma q6_bits_range: "0 \<le> q6_bits ql qh s l \<and> q6_bits ql qh s l < 64"
proof -
  have "0 \<le> uint ((if s < 2 then lb AND 0xF else drop_bit 4 lb) OR push_bit 4 (h AND 3))
    \<and> uint ((if s < 2 then lb AND 0xF else drop_bit 4 lb) OR push_bit 4 (h AND 3)) < 2 ^ 6" for lb h :: u8
  proof (rule u8_bits_less)
    fix n :: nat assume "6 \<le> n" "n < 8"
    then have "n = 6 \<or> n = 7" by arith
    then show "\<not> bit ((if s < 2 then lb AND 0xF else drop_bit 4 lb) OR push_bit 4 (h AND 3)) n"
      by (auto simp: bit_or_iff bit_and_iff bit_drop_bit_eq bit_push_bit_iff dest: bit_imp_le_length)
  qed
  then show ?thesis by (simp add: q6_bits_def Let_def)
qed

lemma u8_high_bits: "8 \<le> n \<Longrightarrow> \<not> bit (w :: u8) n"
  using bit_imp_le_length [of w n] by auto

lemma u8_6bit:
  "0 \<le> uint ((a :: u8) AND 63) \<and> uint (a AND 63) < 2 ^ 6"
  "0 \<le> uint ((a AND 0xF) OR push_bit 4 (drop_bit 6 (b :: u8))) \<and> uint ((a AND 0xF) OR push_bit 4 (drop_bit 6 b)) < 2 ^ 6"
  "0 \<le> uint (drop_bit 4 a OR push_bit 4 (drop_bit 6 b)) \<and> uint (drop_bit 4 a OR push_bit 4 (drop_bit 6 b)) < 2 ^ 6"
proof -
  have n67: "6 \<le> n \<Longrightarrow> n < 8 \<Longrightarrow> n = 6 \<or> n = (7 :: nat)" for n by arith
  note bits = bit_or_iff bit_and_iff bit_drop_bit_eq bit_push_bit_iff u8_high_bits
  show "0 \<le> uint (a AND 63) \<and> uint (a AND 63) < 2 ^ 6"
    by (rule u8_bits_less, drule (1) n67) (auto simp: bits)
  show "0 \<le> uint ((a AND 0xF) OR push_bit 4 (drop_bit 6 b)) \<and> uint ((a AND 0xF) OR push_bit 4 (drop_bit 6 b)) < 2 ^ 6"
    by (rule u8_bits_less, drule (1) n67) (auto simp: bits)
  show "0 \<le> uint (drop_bit 4 a OR push_bit 4 (drop_bit 6 b)) \<and> uint (drop_bit 4 a OR push_bit 4 (drop_bit 6 b)) < 2 ^ 6"
    by (rule u8_bits_less, drule (1) n67) (auto simp: bits)
qed

lemma scale_min_range:
  assumes "fl_q4k_scale_min j s = (sc, mn)"
  shows "0 \<le> uint sc \<and> uint sc < 64" "0 \<le> uint mn \<and> uint mn < 64"
  using assms u8_6bit [simplified] unfolding fl_q4k_scale_min_def by (auto split: if_splits)

lemma i8_range: "- 128 \<le> sint (w :: u8) \<and> sint w \<le> 127"
  using sint_range_size [of w] by (simp add: word_size)

section \<open>The accumulators of the Q8\_K dots\<close>

lemma q4_idot_sum: "q4_idot W xg g = (\<Sum>i<32. q4_bits W g i * xg i)"
  unfolding q4_idot_def for_loop_sum by simp

lemma q6_idot_sum:
  "q6_idot W xg h s k16 = (\<Sum>i<16. q6_bits (\<lambda>i. W (h * 64 + i)) (\<lambda>i. W (128 + h * 32 + i)) s (k16 * 16 + i) * xg (k16 * 16 + i))"
  unfolding q6_idot_def Let_def for_loop_sum by simp

lemma q8K_ok_nth:
  assumes "q8K_ok b"
  shows "i < 256 \<Longrightarrow> \<bar>qK_qs b ! i\<bar> \<le> 127" "g < 16 \<Longrightarrow> qK_bsums b ! g = (\<Sum>i<16. qK_qs b ! (16 * g + i))"
    "g < 16 \<Longrightarrow> \<bar>qK_bsums b ! g\<bar> \<le> 2032"
proof -
  show q: "\<bar>qK_qs b ! i\<bar> \<le> 127" if "i < 256" for i
    using assms that unfolding q8K_ok_def by (intro qs_ok_nth) auto
  show s: "qK_bsums b ! g = (\<Sum>i<16. qK_qs b ! (16 * g + i))" if "g < 16" for g
    using assms that by (auto simp: q8K_ok_def list_all_iff)
  show "\<bar>qK_bsums b ! g\<bar> \<le> 2032" if "g < 16"
    unfolding s [OF that] using sum_abs_le [of 16 "\<lambda>i. qK_qs b ! (16 * g + i)" 127] q that by simp
qed

lemma q4_idot_bound: "(\<And>i. i < 32 \<Longrightarrow> \<bar>xg i\<bar> \<le> 127) \<Longrightarrow> \<bar>q4_idot W xg g\<bar> \<le> 60960"
proof -
  assume x: "\<And>i. i < 32 \<Longrightarrow> \<bar>xg i\<bar> \<le> 127"
  have "\<bar>q4_bits W g i * xg i\<bar> \<le> 15 * 127" if "i < 32" for i
    using q4_bits_range [of W g i] x [OF that] by (intro abs_mult_le) auto
  then show ?thesis unfolding q4_idot_sum using sum_abs_le [of 32 _ "15 * 127"] by fastforce
qed

text \<open>The partial accumulators of a Q4\_K block, group by group.\<close>

lemma q4k_iacc_bound:
  assumes "q8K_ok xk"
  shows "n \<le> 8 \<Longrightarrow> \<bar>fst (q4k_iacc W xk n)\<bar> \<le> int n * 3840480 \<and> \<bar>snd (q4k_iacc W xk n)\<bar> \<le> int n * 256032"
proof (induction n)
  case (Suc n)
  obtain sc mn where d: "fl_q4k_scale_min n (\<lambda>i. W (4 + i)) = (sc, mn)" by fastforce
  obtain a b where ab: "q4k_iacc W xk n = (a, b)" by fastforce
  have "\<bar>q4_idot W (\<lambda>i. qK_qs xk ! (n * 32 + i)) n\<bar> \<le> 60960"
    using Suc.prems by (intro q4_idot_bound q8K_ok_nth [OF assms]) auto
  then have 1: "\<bar>uint sc * q4_idot W (\<lambda>i. qK_qs xk ! (n * 32 + i)) n\<bar> \<le> 63 * 60960"
    using scale_min_range(1) [OF d] by (intro abs_mult_le) auto
  have "\<bar>qK_bsums xk ! (2 * n)\<bar> \<le> 2032" "\<bar>qK_bsums xk ! (2 * n + 1)\<bar> \<le> 2032"
    using Suc.prems by (intro q8K_ok_nth [OF assms]; simp)+
  then have "\<bar>qK_bsums xk ! (2 * n) + qK_bsums xk ! (2 * n + 1)\<bar> \<le> 4064" by linarith
  then have 2: "\<bar>uint mn * (qK_bsums xk ! (2 * n) + qK_bsums xk ! (2 * n + 1))\<bar> \<le> 63 * 4064"
    using scale_min_range(2) [OF d] by (intro abs_mult_le) auto
  have "q4k_iacc W xk (Suc n) =
    (a + uint sc * q4_idot W (\<lambda>i. qK_qs xk ! (n * 32 + i)) n, b + uint mn * (qK_bsums xk ! (2 * n) + qK_bsums xk ! (2 * n + 1)))"
    using ab d unfolding q4k_iacc_def by (simp add: for_loop_last)
  moreover have "\<bar>a\<bar> \<le> int n * 3840480" "\<bar>b\<bar> \<le> int n * 256032" using Suc ab by simp_all
  ultimately show ?case using abs_add_le [of a "int n * 3840480", OF _ 1] abs_add_le [of b "int n * 256032", OF _ 2]
    by simp
qed (simp add: q4k_iacc_def)

text \<open>Folding the offset 32 through the group sums is multiplying by the centred weights.\<close>

lemma q6k_term_centred:
  assumes "q8K_ok xk" "h < 2" "s < 4" "k < 2"
  shows "q6k_term W xk h s k = q6_scale W h s k *
    (\<Sum>i<16. (q6_bits (\<lambda>i. W (h * 64 + i)) (\<lambda>i. W (128 + h * 32 + i)) s (k * 16 + i) - 32)
       * qK_qs xk ! ((h * 4 + s) * 32 + (k * 16 + i)))"
proof -
  have g: "2 * (h * 4 + s) + k < 16" using assms by simp
  have ix: "16 * (2 * (h * 4 + s) + k) + i = (h * 4 + s) * 32 + (k * 16 + i)" for i by simp
  show ?thesis
    unfolding q6k_term_def Let_def q6_idot_sum q8K_ok_nth(2) [OF assms(1) g] ix
    by (simp add: left_diff_distrib sum_subtractf sum_distrib_left)
qed

lemma q6k_term_bound:
  assumes "q8K_ok xk" "h < 2" "s < 4" "k < 2"
  shows "\<bar>q6k_term W xk h s k\<bar> \<le> 8323072"
proof -
  let ?t = "\<lambda>i. (q6_bits (\<lambda>i. W (h * 64 + i)) (\<lambda>i. W (128 + h * 32 + i)) s (k * 16 + i) - 32)
       * qK_qs xk ! ((h * 4 + s) * 32 + (k * 16 + i))"
  have "\<bar>?t i\<bar> \<le> 32 * 127" if "i < 16" for i
  proof (rule abs_mult_le)
    show "\<bar>q6_bits (\<lambda>i. W (h * 64 + i)) (\<lambda>i. W (128 + h * 32 + i)) s (k * 16 + i) - 32\<bar> \<le> 32"
      using q6_bits_range [of "\<lambda>i. W (h * 64 + i)" "\<lambda>i. W (128 + h * 32 + i)" s "k * 16 + i"] by linarith
    show "\<bar>qK_qs xk ! ((h * 4 + s) * 32 + (k * 16 + i))\<bar> \<le> 127"
      using assms that by (intro q8K_ok_nth [OF assms(1)]) simp
  qed
  then have "\<bar>\<Sum>i<16. ?t i\<bar> \<le> int 16 * (32 * 127)" by (rule sum_abs_le)
  then have "\<bar>q6_scale W h s k * (\<Sum>i<16. ?t i)\<bar> \<le> 128 * (int 16 * (32 * 127))"
    using i8_range [of "W (192 + h * 8 + (2 * s + k))"] by (intro abs_mult_le) (auto simp: q6_scale_def)
  then show ?thesis unfolding q6k_term_centred [OF assms] by simp
qed

lemma q6k_iacc_sum:
  "q6k_iacc W xk = (\<Sum>h<2. \<Sum>s<4. \<Sum>k<2. q6k_term W xk h s k)"
proof -
  have "q6k_iacc W xk = for_loop 0 2 (\<lambda>h a. for_loop 0 4 (\<lambda>s a. a + (\<Sum>k<2. q6k_term W xk h s k)) a) 0"
    unfolding q6k_iacc_def for_loop_sum ..
  then show ?thesis unfolding for_loop_sum by simp
qed

lemma q6k_iacc_bound: "q8K_ok xk \<Longrightarrow> \<bar>q6k_iacc W xk\<bar> \<le> 133169152"
proof -
  assume ok: "q8K_ok xk"
  have *: "\<bar>\<Sum>k<2. q6k_term W xk h s k\<bar> \<le> int 2 * 8323072" if "h < 2" "s < 4" for h s
    by (rule sum_abs_le) (rule q6k_term_bound [OF ok that])
  have "\<bar>\<Sum>s<4. \<Sum>k<2. q6k_term W xk h s k\<bar> \<le> int 4 * (int 2 * 8323072)" if "h < 2" for h
    by (rule sum_abs_le) (rule *, rule that)
  then have "\<bar>\<Sum>h<2. \<Sum>s<4. \<Sum>k<2. q6k_term W xk h s k\<bar> \<le> int 2 * (int 4 * (int 2 * 8323072))"
    by (rule sum_abs_le)
  then show ?thesis by (simp add: q6k_iacc_sum)
qed

section \<open>Layout\<close>

lemma align16_unat:
  assumes "unat n + 15 < 2 ^ 64"
  shows "unat (align16 n) = (unat n + 15) div 16 * 16"
proof -
  have m: "(15 :: u64) = mask 4" by (simp add: mask_eq_exp_minus_1)
  have "x AND NOT (mask 4) = push_bit 4 (drop_bit 4 x)" for x :: u64
    by (rule bit_word_eqI) (auto simp: bit_and_iff bit_not_iff bit_mask_iff bit_push_bit_iff bit_drop_bit_eq)
  then have "align16 n = push_bit 4 (drop_bit 4 (n + 15))" unfolding align16_def by (subst (2) m) simp
  then have e: "align16 n = (n + 15) div 16 * 16" by (simp add: push_bit_eq_mult drop_bit_eq_div mult.commute)
  have u: "unat (n + 15) = unat n + 15" using assms by (simp add: unat_word_ariths)
  have "(unat n + 15) div 16 * 16 \<le> unat n + 15" by simp
  then have "unat ((n + 15) div 16) * unat (16 :: u64) < 2 ^ 64"
    using assms by (simp add: unat_div u)
  then show ?thesis unfolding e by (simp add: unat_mult_exact unat_div u)
qed

lemma align16_bounds:
  assumes "unat n + 15 < 2 ^ 64"
  shows "unat n \<le> unat (align16 n)" "unat (align16 n) \<le> unat n + 15" "unat (align16 n) mod 16 = 0"
proof -
  have "(unat n + 15) div 16 * 16 + (unat n + 15) mod 16 = unat n + 15" "(unat n + 15) mod 16 < 16" by simp_all
  then show "unat n \<le> unat (align16 n)" "unat (align16 n) \<le> unat n + 15" "unat (align16 n) mod 16 = 0"
    unfolding align16_unat [OF assms] by linarith+ simp
qed

text \<open>The regions of an activation buffer at offset \<open>0\<close>, as natural numbers.\<close>

lemma x_layout:
  fixes cols :: u32
  defines "f \<equiv> unat (fl_xq_of 0 cols)" and "k \<equiv> unat (fl_xqk_of 0 cols)"
  shows "4 * unat cols \<le> f" "f + unat cols div 32 * 36 \<le> k" "k + unat cols div 256 * 292 = unat (fl_x_alloc_bytes cols)"
    "f mod 16 = 0" "k mod 16 = 0" "unat (fl_x_alloc_bytes cols) < 2 ^ 40"
proof -
  have c: "unat cols < 2 ^ 32" using unat_u32_lt [of cols] by simp
  have u4: "unat (ucast cols * 4 :: u64) = unat cols * 4"
    using c unat_mult_exact [of "ucast cols :: u64" 4] by simp
  have ud: "unat (ucast cols div 32 :: u64) = unat cols div 32" "unat (ucast cols div 256 :: u64) = unat cols div 256"
    by (simp_all add: unat_div)
  have u36: "unat (fl_xq_bytes cols) = unat cols div 32 * 36"
    using c unat_mult_exact [of "ucast cols div 32 :: u64" 36] by (simp add: fl_xq_bytes_def ud)
  have u292: "unat ((ucast cols div 256) * 292 :: u64) = unat cols div 256 * 292"
    using c unat_mult_exact [of "ucast cols div 256 :: u64" 292] by (simp add: ud)
  have a: "unat (ucast cols * 4 :: u64) + 15 < 2 ^ 64" "unat (fl_xq_bytes cols) + 15 < 2 ^ 64"
    using c by (simp_all add: u4 u36)
  note A = align16_bounds [OF a(1)] and Q = align16_bounds [OF a(2)]
  have d: "unat cols div 32 < 2 ^ 27" "unat cols div 256 < 2 ^ 24" using c by simp_all
  have k: "k = f + unat (align16 (fl_xq_bytes cols))"
    using A(2) Q(2) c d by (simp add: k_def f_def fl_xqk_of_def fl_xq_of_def Let_def unat_word_ariths u4 u36)
  have al: "unat (fl_x_alloc_bytes cols) = k + unat cols div 256 * 292"
    using A(2) Q(2) c d by (simp add: k f_def fl_x_alloc_bytes_def fl_xq_of_def Let_def unat_word_ariths u4 u36 u292)
  show "4 * unat cols \<le> f" "f mod 16 = 0" using A(1,3) by (simp_all add: f_def fl_xq_of_def u4)
  show "f + unat cols div 32 * 36 \<le> k" using Q(1) by (simp add: k u36)
  show "k mod 16 = 0" using A(3) Q(3) by (simp add: k f_def fl_xq_of_def mod_add_eq [symmetric])
  show "k + unat cols div 256 * 292 = unat (fl_x_alloc_bytes cols)" by (simp add: al)
  show "unat (fl_x_alloc_bytes cols) < 2 ^ 40" using A(2) Q(2) c d by (simp add: al k f_def fl_xq_of_def u4 u36)
qed

section \<open>The int8 path, as properties\<close>

text \<open>On a block of finite floats whose inverse scale is finite the quantisers have no
  undefined conversion: every element becomes an integer of magnitude at most 127, the Q8\_1
  scale is the half nearest to amax / 127, and the sixteen group sums of a Q8\_K block are
  exactly the sums of its quantised elements.\<close>

theorem quantizers_defined:
  assumes "block_fin 32 x" "block_fin 256 y"
  shows "(\<exists>b. fl_quantize_q8_1_block x = Some b \<and> qs_ok 32 (q1_qs b)
      \<and> q1_d b = fl_float2half (f32_div (block_amax 32 x) f32_127))
    \<and> (\<exists>b. fl_quantize_q8_K_block y = Some b \<and> q8K_ok b \<and> qK_d b = f32_div (block_amax 256 y) f32_127)"
  using quantize_q8_1_ok [OF assms(1)] quantize_q8_K_ok [OF assms(2)] by blast

text \<open>The quantisers divide 127 by the largest magnitude; when that is so small that the
  quotient is infinite, an element zero becomes zero times infinity and the conversion of the
  resulting NaN to \<open>int8_t\<close> is undefined.\<close>

definition tiny_block :: fvec where "tiny_block i = (if i = 0 then 0x00400000 else 0)"

theorem quantize_tiny_block_undefined:
  "is_num (tiny_block 0) \<and> fl_quantize_q8_1_block tiny_block = None"
proof
  show "is_num (tiny_block 0)" by code_simp
  have amax: "block_amax 32 tiny_block = 0x00400000" by code_simp
  have iv: "block_id 0x00400000 = 0x7F800000" by code_simp
  have q0: "quant_elem 0x7F800000 0x00400000 = Some 127" by code_simp
  have q1: "quant_elem 0x7F800000 0 = None" by code_simp
  have "quant_run 0x7F800000 tiny_block 0 (Suc (Suc n)) [] = None" for n
  proof (induction n)
    case 0
    show ?case by (simp add: quant_run_def for_loop_last tiny_block_def q0 q1)
  next
    case (Suc n)
    then show ?case by (simp add: quant_run_def for_loop_last)
  qed
  from this [of 30] have "quant_run 0x7F800000 tiny_block 0 32 [] = None" by simp
  then show "fl_quantize_q8_1_block tiny_block = None"
    by (simp add: fl_quantize_q8_1_block_def Let_def amax iv)
qed

text \<open>C16: On a Q8\_K block with exact group sums no accumulator of the integer dots leaves the
  range of \<open>int32_t\<close>, whatever the weight bytes: not after any number of Q4\_K groups, and not in
  any Q6\_K term or total.\<close>

theorem i8k_accumulators_in_range:
  assumes "q8K_ok xk" "n \<le> 8" "h < 2" "s < 4" "k < 2"
  shows "\<bar>fst (q4k_iacc W xk n)\<bar> \<le> 30723840 \<and> \<bar>snd (q4k_iacc W xk n)\<bar> \<le> 2048256
    \<and> \<bar>q6k_term W xk h s k\<bar> \<le> 8323072 \<and> \<bar>q6k_iacc W xk\<bar> \<le> 133169152"
proof -
  have "int n * 3840480 \<le> 30723840" "int n * 256032 \<le> 2048256" using assms(2) by simp_all
  then show ?thesis
    using q4k_iacc_bound [OF assms(1,2), of W] q6k_term_bound [OF assms(1,3,4,5), of W] q6k_iacc_bound [OF assms(1), of W]
    by linarith
qed

text \<open>The Q6\_K integer dot subtracts the offset 32 of the weights through the stored group
  sums; with exact sums the result is the integer dot of the centred six-bit weights with the
  quantised activations, scaled group by group.\<close>

theorem q6k_offset_through_sums:
  assumes "q8K_ok xk"
  shows "q6k_iacc W xk = (\<Sum>h<2. \<Sum>s<4. \<Sum>k<2. q6_scale W h s k *
    (\<Sum>i<16. (q6_bits (\<lambda>i. W (h * 64 + i)) (\<lambda>i. W (128 + h * 32 + i)) s (k * 16 + i) - 32)
       * qK_qs xk ! ((h * 4 + s) * 32 + (k * 16 + i))))"
  unfolding q6k_iacc_sum using q6k_term_centred [OF assms] by (intro sum.cong refl) simp

definition demo_q8K :: blk_q8_K where
  "demo_q8K = \<lparr>qK_d = 0x3F800000, qK_bsums = replicate 16 (-2032), qK_qs = replicate 256 (-127)\<rparr>"

lemma demo_q8K_ok: "q8K_ok demo_q8K"
  by (simp add: q8K_ok_def qs_ok_def demo_q8K_def list_all_iff)

lemma ones_fin: "block_fin 32 (\<lambda>_. 0x3F800000)" "block_fin 256 (\<lambda>_. 0x3F800000)"
proof -
  have amax: "block_amax n (\<lambda>_. 0x3F800000) = (if n = 0 then 0 else 0x3F800000)" for n
  proof (induction n)
    case (Suc n)
    have "f32_abs 0x3F800000 = 0x3F800000" "f32_lt 0 0x3F800000" "\<not> f32_lt 0x3F800000 0x3F800000" by code_simp+
    then show ?case using Suc by (simp add: block_amax_def for_loop_last Let_def)
  qed (simp add: block_amax_def)
  have "is_num 0x3F800000" "is_num (block_id 0x3F800000)" by code_simp+
  then show "block_fin 32 (\<lambda>_. 0x3F800000)" "block_fin 256 (\<lambda>_. 0x3F800000)"
    by (simp_all add: block_fin_def amax list_all_iff)
qed

theorem quantizers_defined_witness:
  "\<exists>b. fl_quantize_q8_K_block (\<lambda>_. 0x3F800000) = Some b \<and> q8K_ok b \<and> qK_d b = f32_div (block_amax 256 (\<lambda>_. 0x3F800000)) f32_127"
  using quantizers_defined [OF ones_fin] by blast

theorem i8k_accumulators_in_range_witness:
  "\<bar>fst (q4k_iacc (\<lambda>_. 0xFF) demo_q8K 8)\<bar> \<le> 30723840"
  using i8k_accumulators_in_range [OF demo_q8K_ok, of 8 0 0 0 "\<lambda>_. 0xFF"] by simp

theorem q6k_offset_through_sums_witness:
  "q6k_iacc (\<lambda>_. 0) demo_q8K = 0"
  unfolding q6k_offset_through_sums [OF demo_q8K_ok] by (simp add: q6_scale_def)

text \<open>The activation buffer holds the floats, the Q8\_1 blocks and the Q8\_K blocks in disjoint
  regions, in this order and inside the allocated size; both appendices start on 16 bytes and
  no size computation wraps.\<close>

theorem activation_layout_disjoint:
  "4 * unat cols \<le> unat (fl_xq_of 0 cols)
   \<and> unat (fl_xq_of 0 cols) + unat cols div 32 * 36 \<le> unat (fl_xqk_of 0 cols)
   \<and> unat (fl_xqk_of 0 cols) + unat cols div 256 * 292 = unat (fl_x_alloc_bytes cols)
   \<and> unat (fl_xq_of 0 cols) mod 16 = 0 \<and> unat (fl_xqk_of 0 cols) mod 16 = 0
   \<and> unat (fl_x_alloc_bytes cols) < 2 ^ 40"
  using x_layout [of cols] by blast

end
