(* ===== verification/FL_Simd.thy ===== *)
theory FL_Simd
  imports FL_Quants_I8
begin

text \<open>
  The NEON int8 kernels of \<open>src/runtime/kernels.h\<close>, on vectors as functions from lanes: 16 bytes,
  16 signed bytes, or 4 sums. The intrinsics the kernels use are defined lane by lane; 32-bit
  sums are integers, in range by the bounds of \<open>FL_Quants_I8\<close>. Every kernel is proved equal to
  the scalar reference of \<open>src/runtime/quants.h\<close> whose order it claims to reproduce.
\<close>

section \<open>Intrinsics\<close>

type_synonym u8x16 = "nat \<Rightarrow> u8"
type_synonym s8x16 = "nat \<Rightarrow> int"
type_synonym s32x4 = "nat \<Rightarrow> int"

definition vld1q :: "(nat \<Rightarrow> 'a) \<Rightarrow> nat \<Rightarrow> nat \<Rightarrow> 'a" where "vld1q p o' = (\<lambda>l. p (o' + l))"
definition vdupq :: "'a \<Rightarrow> nat \<Rightarrow> 'a" where "vdupq v = (\<lambda>_. v)"
definition vandq :: "u8x16 \<Rightarrow> u8x16 \<Rightarrow> u8x16" where "vandq a b = (\<lambda>l. a l AND b l)"
definition vorrq :: "u8x16 \<Rightarrow> u8x16 \<Rightarrow> u8x16" where "vorrq a b = (\<lambda>l. a l OR b l)"
definition vshrq_n :: "u8x16 \<Rightarrow> nat \<Rightarrow> u8x16" where "vshrq_n a n = (\<lambda>l. drop_bit n (a l))"
definition vshlq_n :: "u8x16 \<Rightarrow> nat \<Rightarrow> u8x16" where "vshlq_n a n = (\<lambda>l. push_bit n (a l))"
definition vreinterpretq_s8 :: "u8x16 \<Rightarrow> s8x16" where "vreinterpretq_s8 a = (\<lambda>l. sint (a l))"

definition vdotq :: "s32x4 \<Rightarrow> s8x16 \<Rightarrow> s8x16 \<Rightarrow> s32x4" where
  "vdotq acc a b = (\<lambda>l. acc l + a (4 * l) * b (4 * l) + a (4 * l + 1) * b (4 * l + 1)
     + a (4 * l + 2) * b (4 * l + 2) + a (4 * l + 3) * b (4 * l + 3))"

definition vaddvq :: "s32x4 \<Rightarrow> int" where "vaddvq s = s 0 + s 1 + s 2 + s 3"

lemma sum_lessThan_add: "(\<Sum>i<m + n. f i :: int) = (\<Sum>i<m. f i) + (\<Sum>i<n. f (m + i))" for m n :: nat
  by (induction n) (simp_all add: add.assoc)

lemma vaddvq_vdotq: "vaddvq (vdotq acc a b) = vaddvq acc + (\<Sum>i<16. a i * b i)"
  by (simp add: vaddvq_def vdotq_def eval_nat_numeral)

lemma vaddvq_zero [simp]: "vaddvq (vdupq 0) = 0"
  by (simp add: vaddvq_def vdupq_def)

text \<open>The 32-element dot the kernels form from two halves.\<close>

definition vdot32 :: "s8x16 \<Rightarrow> s8x16 \<Rightarrow> s8x16 \<Rightarrow> s8x16 \<Rightarrow> int" where
  "vdot32 w0 x0 w1 x1 = vaddvq (vdotq (vdotq (vdupq 0) w0 x0) w1 x1)"

lemma vdot32_sum:
  "vdot32 (\<lambda>l. w l) (vld1q x o') (\<lambda>l. w (16 + l)) (vld1q x (o' + 16)) = (\<Sum>i<32. w i * x (o' + i))"
proof -
  have "(\<Sum>i<16 + 16. w i * x (o' + i)) = (\<Sum>i<16. w i * x (o' + i)) + (\<Sum>i<16. w (16 + i) * x (o' + (16 + i)))"
    by (rule sum_lessThan_add)
  then show ?thesis unfolding vdot32_def vaddvq_vdotq vaddvq_zero by (simp add: vld1q_def add.assoc)
qed

lemma sint_small: "uint (w :: u8) < 2 ^ 7 \<Longrightarrow> sint w = uint w"
  unfolding sint_uint by (rule signed_take_bit_int_eq_self) (simp_all add: order_trans [OF _ uint_ge_0])

section \<open>Single-column kernels\<close>

definition dot_i8_q8_0_neon :: "bytes \<Rightarrow> q81_vec \<Rightarrow> nat \<Rightarrow> f32" where
  "dot_i8_q8_0_neon row xq cols =
    fl_fold4 (for_loop 0 (cols div 32) (\<lambda>b a4.
      let W = (\<lambda>i. row (b * 34 + i)); qs = (\<lambda>i. sint (W (2 + i))); x = (\<lambda>i. q1_qs (xq b) ! i);
          s = vdot32 (vld1q qs 0) (vld1q x 0) (vld1q qs 16) (vld1q x 16)
      in fma4 b (f32_mul (fl_half2float (rd16 W 0)) (fl_half2float (q1_d (xq b)))) (f32_of_int s) a4) acc4)"

text \<open>The two unpacked halves of the nibbles of 64-element chunk \<open>c\<close>: low and high.\<close>

definition q4_lo :: "bytes \<Rightarrow> nat \<Rightarrow> nat \<Rightarrow> s8x16" where
  "q4_lo W c half = vreinterpretq_s8 (vandq (vld1q W (16 + 32 * c + 16 * half)) (vdupq 0x0F))"
definition q4_hi :: "bytes \<Rightarrow> nat \<Rightarrow> nat \<Rightarrow> s8x16" where
  "q4_hi W c half = vreinterpretq_s8 (vshrq_n (vld1q W (16 + 32 * c + 16 * half)) 4)"

definition dot_i8_q4_K_neon_v1 :: "bytes \<Rightarrow> q81_vec \<Rightarrow> nat \<Rightarrow> f32" where
  "dot_i8_q4_K_neon_v1 row xq cols =
    fl_fold4 (for_loop 0 (cols div 256) (\<lambda>sb a4.
      let W = (\<lambda>i. row (sb * 144 + i)); d = fl_half2float (rd16 W 0); dmin = fl_half2float (rd16 W 2)
      in for_loop 0 8 (\<lambda>g a4.
           let (sc, mn) = fl_q4k_scale_min g (\<lambda>i. W (4 + i));
               w0 = (if odd g then q4_hi W (g div 2) 0 else q4_lo W (g div 2) 0);
               w1 = (if odd g then q4_hi W (g div 2) 1 else q4_lo W (g div 2) 1);
               x = (\<lambda>i. q1_qs (xq (sb * 8 + g)) ! i); ones = vdupq 1;
               idot = vdot32 w0 (vld1q x 0) w1 (vld1q x 16);
               isum = vdot32 ones (vld1q x 0) ones (vld1q x 16);
               dx = fl_half2float (q1_d (xq (sb * 8 + g)));
               a4 = fma4 g (f32_mul (f32_mul d (fl_of_u8 sc)) dx) (f32_of_int idot) a4
           in fma4 g (f32_mul (f32_neg (f32_mul dmin (fl_of_u8 mn))) dx) (f32_of_int isum) a4) a4) acc4)"

text \<open>The second version takes the block sums and scales the caller computed once per tile.\<close>

definition act_xsum :: "q81_vec \<Rightarrow> nat \<Rightarrow> int" where
  "act_xsum xq b = (let x = (\<lambda>i. q1_qs (xq b) ! i); ones = vdupq 1 in vdot32 ones (vld1q x 0) ones (vld1q x 16))"

definition dot_i8_q4_K_neon_v2 :: "bytes \<Rightarrow> q81_vec \<Rightarrow> (nat \<Rightarrow> int) \<Rightarrow> (nat \<Rightarrow> f32) \<Rightarrow> nat \<Rightarrow> f32" where
  "dot_i8_q4_K_neon_v2 row xq xsum xd cols =
    fl_fold4 (for_loop 0 (cols div 256) (\<lambda>sb a4.
      let W = (\<lambda>i. row (sb * 144 + i)); d = fl_half2float (rd16 W 0); dmin = fl_half2float (rd16 W 2);
          (sc8, mn8) = fl_q4k_scales_all (\<lambda>i. W (4 + i))
      in for_loop 0 4 (\<lambda>c a4.
           let b0 = sb * 8 + 2 * c; b1 = b0 + 1;
               xa = (\<lambda>i. q1_qs (xq b0) ! i); xb = (\<lambda>i. q1_qs (xq b1) ! i);
               ilo = vdot32 (q4_lo W c 0) (vld1q xa 0) (q4_lo W c 1) (vld1q xa 16);
               ihi = vdot32 (q4_hi W c 0) (vld1q xb 0) (q4_hi W c 1) (vld1q xb 16);
               a4 = fma4 (2 * c) (f32_mul (f32_mul d (fl_of_u8 (sc8 ! (2 * c)))) (xd b0)) (f32_of_int ilo) a4;
               a4 = fma4 (2 * c) (f32_mul (f32_neg (f32_mul dmin (fl_of_u8 (mn8 ! (2 * c))))) (xd b0)) (f32_of_int (xsum b0)) a4;
               a4 = fma4 (2 * c + 1) (f32_mul (f32_mul d (fl_of_u8 (sc8 ! (2 * c + 1)))) (xd b1)) (f32_of_int ihi) a4
           in fma4 (2 * c + 1) (f32_mul (f32_neg (f32_mul dmin (fl_of_u8 (mn8 ! (2 * c + 1))))) (xd b1)) (f32_of_int (xsum b1)) a4)
         a4) acc4)"

text \<open>The sixteen six-bit weights of group \<open>k16\<close> of span \<open>s\<close> of half \<open>h\<close>.\<close>

definition q6_high :: "nat \<Rightarrow> u8x16 \<Rightarrow> u8x16" where
  "q6_high s hv =
    (if s = 0 then vandq hv (vdupq 0x03) else if s = 1 then vandq (vshrq_n hv 2) (vdupq 0x03)
     else if s = 2 then vandq (vshrq_n hv 4) (vdupq 0x03) else vshrq_n hv 6)"

definition q6_unpack :: "bytes \<Rightarrow> nat \<Rightarrow> nat \<Rightarrow> nat \<Rightarrow> s8x16" where
  "q6_unpack W h s k16 =
    (let lb = vld1q W (h * 64 + ((s mod 2) * 32 + k16 * 16)); hv = vld1q W (128 + h * 32 + k16 * 16);
         nib = (if s < 2 then vandq lb (vdupq 0x0F) else vshrq_n lb 4)
     in vreinterpretq_s8 (vorrq nib (vshlq_n (q6_high s hv) 4)))"

definition dot_i8_q6_K_neon :: "bytes \<Rightarrow> q81_vec \<Rightarrow> nat \<Rightarrow> f32" where
  "dot_i8_q6_K_neon row xq cols =
    fl_fold4 (for_loop 0 (cols div 256) (\<lambda>sb a4.
      let W = (\<lambda>i. row (sb * 210 + i)); d = fl_half2float (rd16 W 208)
      in for_loop 0 2 (\<lambda>h. for_loop 0 4 (\<lambda>s a4.
           let xg = (\<lambda>i. q1_qs (xq (sb * 8 + h * 4 + s)) ! i);
               dx = fl_half2float (q1_d (xq (sb * 8 + h * 4 + s)))
           in for_loop 0 2 (\<lambda>k16 a4.
                let xv = vld1q xg (k16 * 16);
                    idot = vaddvq (vdotq (vdupq 0) (q6_unpack W h s k16) xv);
                    isum = vaddvq (vdotq (vdupq 0) (vdupq 1) xv);
                    t = q6_scale W h s k16 * (idot - 32 * isum); ti = h * 8 + s * 2 + k16
                in fma4 ti (f32_mul d dx) (f32_of_int t) a4) a4)) a4) acc4)"

text \<open>What chunk \<open>c\<close> of a Q4\_K block adds to the two integer accumulators of a Q8\_K column.\<close>

definition q4k_chunk :: "bytes \<Rightarrow> blk_q8_K \<Rightarrow> u8 list \<Rightarrow> u8 list \<Rightarrow> nat \<Rightarrow> int \<times> int \<Rightarrow> int \<times> int" where
  "q4k_chunk W xk sc8 mn8 c = (\<lambda>(iacc, imins).
    let xs = (\<lambda>i. qK_qs xk ! i); bs = (\<lambda>g. qK_bsums xk ! g);
        ilo = vdot32 (q4_lo W c 0) (vld1q xs (c * 64)) (q4_lo W c 1) (vld1q xs (c * 64 + 16));
        ihi = vdot32 (q4_hi W c 0) (vld1q xs (c * 64 + 32)) (q4_hi W c 1) (vld1q xs (c * 64 + 48))
    in (iacc + (uint (sc8 ! (2 * c)) * ilo + uint (sc8 ! (2 * c + 1)) * ihi),
        imins + (uint (mn8 ! (2 * c)) * (bs (4 * c) + bs (4 * c + 1))
               + uint (mn8 ! (2 * c + 1)) * (bs (4 * c + 2) + bs (4 * c + 3)))))"

definition dot_i8k_q4_K_neon :: "bytes \<Rightarrow> q8K_vec \<Rightarrow> nat \<Rightarrow> f32" where
  "dot_i8k_q4_K_neon row xk cols =
    fl_fold4 (for_loop 0 (cols div 256) (\<lambda>sb a4.
      let W = (\<lambda>i. row (sb * 144 + i)); d = fl_half2float (rd16 W 0); dmin = fl_half2float (rd16 W 2);
          dk = qK_d (xk sb); (sc8, mn8) = fl_q4k_scales_all (\<lambda>i. W (4 + i));
          (iacc, imins) = for_loop 0 4 (q4k_chunk W (xk sb) sc8 mn8) (0, 0);
          a4 = fma4 sb (f32_mul d dk) (f32_of_int iacc) a4
      in fma4 sb (f32_neg (f32_mul dmin dk)) (f32_of_int imins) a4) acc4)"

definition q6k_group :: "bytes \<Rightarrow> blk_q8_K \<Rightarrow> nat \<Rightarrow> nat \<Rightarrow> nat \<Rightarrow> int \<Rightarrow> int" where
  "q6k_group W xk h s k16 iacc =
    (let xv = vld1q (\<lambda>i. qK_qs xk ! i) ((h * 4 + s) * 32 + k16 * 16);
         idot = vaddvq (vdotq (vdupq 0) (q6_unpack W h s k16) xv); bs = qK_bsums xk ! (2 * (h * 4 + s) + k16)
     in iacc + q6_scale W h s k16 * (idot - 32 * bs))"

definition dot_i8k_q6_K_neon :: "bytes \<Rightarrow> q8K_vec \<Rightarrow> nat \<Rightarrow> f32" where
  "dot_i8k_q6_K_neon row xk cols =
    fl_fold4 (for_loop 0 (cols div 256) (\<lambda>sb a4.
      let W = (\<lambda>i. row (sb * 210 + i)); d = fl_half2float (rd16 W 208); dk = qK_d (xk sb);
          iacc = for_loop 0 2 (\<lambda>h. for_loop 0 4 (\<lambda>s. for_loop 0 2 (q6k_group W (xk sb) h s))) 0
      in fma4 sb (f32_mul d dk) (f32_of_int iacc) a4) acc4)"

fun dot_row_i8k :: "fmt \<Rightarrow> bytes \<Rightarrow> q8K_vec \<Rightarrow> nat \<Rightarrow> f32" where
  "dot_row_i8k Q4_K = dot_i8k_q4_K_neon"
| "dot_row_i8k Q6_K = dot_i8k_q6_K_neon"
| "dot_row_i8k f = fl_dot_i8k_any f"

fun dot_row_i8 :: "fmt \<Rightarrow> bytes \<Rightarrow> q81_vec \<Rightarrow> nat \<Rightarrow> f32" where
  "dot_row_i8 Q8_0 = dot_i8_q8_0_neon"
| "dot_row_i8 Q4_K = dot_i8_q4_K_neon_v1"
| "dot_row_i8 Q6_K = dot_i8_q6_K_neon"
| "dot_row_i8 f = fl_dot_i8_any f"

section \<open>The single-column kernels are their references\<close>

lemma nibble_sint:
  "sint (b AND 0xF) = uint (b AND 0xF)" "sint (drop_bit 4 b) = uint (drop_bit 4 b)" for b :: u8
proof -
  have "0 \<le> uint (b AND 0xF) \<and> uint (b AND 0xF) < 2 ^ 4"
    by (rule u8_bits_less, drule (1) nat_4_8) (auto simp: bit_and_iff)
  then show "sint (b AND 0xF) = uint (b AND 0xF)" by (intro sint_small) simp
  have "0 \<le> uint (drop_bit 4 b) \<and> uint (drop_bit 4 b) < 2 ^ 4"
    by (rule u8_bits_less, drule (1) nat_4_8) (auto simp: bit_drop_bit_eq u8_high_bits)
  then show "sint (drop_bit 4 b) = uint (drop_bit 4 b)" by (intro sint_small) simp
qed

lemma q4_lo_bits: "q4_lo W c half = (\<lambda>l. q4_bits W (2 * c) (16 * half + l))"
  by (rule ext) (simp add: q4_lo_def q4_bits_def vreinterpretq_s8_def vandq_def vld1q_def vdupq_def nibble_sint mult.commute add.assoc)

lemma q4_hi_bits: "q4_hi W c half = (\<lambda>l. q4_bits W (2 * c + 1) (16 * half + l))"
  by (rule ext) (simp add: q4_hi_def q4_bits_def vreinterpretq_s8_def vshrq_n_def vld1q_def nibble_sint mult.commute add.assoc)

lemma q4_lo_dot:
  "vdot32 (q4_lo W c 0) (vld1q x o') (q4_lo W c 1) (vld1q x (o' + 16)) = q4_idot W (\<lambda>i. x (o' + i)) (2 * c)"
  unfolding q4_lo_bits q4_idot_sum by (simp add: vdot32_sum [symmetric])

lemma q4_hi_dot:
  "vdot32 (q4_hi W c 0) (vld1q x o') (q4_hi W c 1) (vld1q x (o' + 16)) = q4_idot W (\<lambda>i. x (o' + i)) (2 * c + 1)"
  unfolding q4_hi_bits q4_idot_sum by (simp add: vdot32_sum [symmetric])

lemma ones_dot: "vdot32 (vdupq 1) (vld1q x 0) (vdupq 1) (vld1q x 16) = for_loop 0 32 (\<lambda>i s. s + x i) 0"
  unfolding for_loop_sum using vdot32_sum [of "\<lambda>_. 1" x 0] by (simp add: vdupq_def)

lemma q6_sint:
  "sint (uw OR push_bit 4 (drop_bit k hb AND 3)) = uint (uw OR push_bit 4 (drop_bit k hb AND 3))"
  if "uw = lb AND 0xF \<or> uw = drop_bit 4 lb" for uw lb hb :: u8
proof (rule sint_small)
  have "0 \<le> uint (uw OR push_bit 4 (drop_bit k hb AND 3)) \<and> uint (uw OR push_bit 4 (drop_bit k hb AND 3)) < 2 ^ 6"
  proof (rule u8_bits_less)
    fix n :: nat assume "6 \<le> n" "n < 8"
    then have "n = 6 \<or> n = 7" by arith
    then show "\<not> bit (uw OR push_bit 4 (drop_bit k hb AND 3)) n"
      using that by (auto simp: bit_or_iff bit_and_iff bit_drop_bit_eq bit_push_bit_iff u8_high_bits)
  qed
  then show "uint (uw OR push_bit 4 (drop_bit k hb AND 3)) < 2 ^ 7" by simp
qed

lemma drop_6_and_3: "drop_bit 6 (b :: u8) AND 3 = drop_bit 6 b"
proof (rule bit_eqI)
  fix n :: nat
  have "n = 0 \<or> n = 1 \<or> 8 \<le> 6 + n" by arith
  then show "bit (drop_bit 6 b AND 3) n = bit (drop_bit 6 b) n"
    by (auto simp: bit_and_iff bit_drop_bit_eq u8_high_bits)
qed

lemma q6_high_and_3: "s < 4 \<Longrightarrow> q6_high s hv = (\<lambda>l. drop_bit (2 * s) (hv l) AND 3)"
proof -
  assume "s < 4"
  then have "s = 0 \<or> s = 1 \<or> s = 2 \<or> s = 3" by arith
  then show ?thesis
    by (auto simp: q6_high_def vandq_def vdupq_def vshrq_n_def drop_6_and_3)
qed

lemma q6_unpack_bits:
  "s < 4 \<Longrightarrow> q6_unpack W h s k16 = (\<lambda>l. q6_bits (\<lambda>i. W (h * 64 + i)) (\<lambda>i. W (128 + h * 32 + i)) s (k16 * 16 + l))"
  by (rule ext)
    (simp add: q6_unpack_def Let_def q6_high_and_3 vreinterpretq_s8_def vorrq_def vandq_def vdupq_def vshrq_n_def
      vshlq_n_def vld1q_def q6_bits_def q6_sint [OF disjI1, OF refl, simplified] q6_sint [OF disjI2, OF refl, simplified] add.assoc)

lemma q6_dot:
  "s < 4 \<Longrightarrow> vaddvq (vdotq (vdupq 0) (q6_unpack W h s k16) (vld1q x (o' + k16 * 16))) = q6_idot W (\<lambda>i. x (o' + i)) h s k16"
  unfolding vaddvq_vdotq vaddvq_zero q6_idot_sum by (simp add: q6_unpack_bits vld1q_def add.assoc)

lemma ones_dot16: "vaddvq (vdotq (vdupq 0) (vdupq 1) (vld1q x o')) = for_loop 0 16 (\<lambda>i t. t + x (o' + i)) 0"
  unfolding vaddvq_vdotq vaddvq_zero for_loop_sum by (simp add: vdupq_def vld1q_def)

lemma q8_dot: "vdot32 (vld1q w 0) (vld1q x 0) (vld1q w 16) (vld1q x 16) = fl_idot32 w x"
  unfolding fl_idot32_def for_loop_sum using vdot32_sum [of w x 0] by (simp add: vld1q_def)

subsection \<open>Q8\_1 columns\<close>

lemma q8_0_neon: "dot_i8_q8_0_neon = fl_dot_i8_q8_0"
  by (intro ext) (simp add: dot_i8_q8_0_neon_def fl_dot_i8_q8_0_def Let_def q8_dot)

lemma q4_group_dot:
  "vdot32 (if odd g then q4_hi W (g div 2) 0 else q4_lo W (g div 2) 0) (vld1q x 0)
     (if odd g then q4_hi W (g div 2) 1 else q4_lo W (g div 2) 1) (vld1q x 16) = q4_idot W x g"
  using q4_lo_dot [of W "g div 2" x 0] q4_hi_dot [of W "g div 2" x 0] by simp

lemma q4_K_neon_v1: "dot_i8_q4_K_neon_v1 = fl_dot_i8_q4_K"
  by (intro ext) (simp add: dot_i8_q4_K_neon_v1_def fl_dot_i8_q4_K_def Let_def q4_group_dot ones_dot split_def)

lemma act_xsum_eq: "act_xsum xq b = for_loop 0 32 (\<lambda>i s. s + q1_qs (xq b) ! i) 0"
  by (simp add: act_xsum_def Let_def ones_dot)

lemma q6_K_neon: "dot_i8_q6_K_neon = fl_dot_i8_q6_K"
  unfolding dot_i8_q6_K_neon_def fl_dot_i8_q6_K_def Let_def
  by (intro ext arg_cong [where f = fl_fold4] for_loop_cong)
    (simp add: ones_dot16 q6_dot [where o' = 0, simplified])

lemma for_loop_pairs8: "for_loop 0 8 f s = for_loop 0 4 (\<lambda>c s. f (2 * c + 1) (f (2 * c) s)) s"
proof -
  have "for_loop 0 8 f s = for_loop 0 4 (\<lambda>b. for_loop 0 2 (\<lambda>i. f (b * 2 + i))) s"
    using for_loop_blocks [of 4 2 f s] by simp
  also have "\<dots> = for_loop 0 4 (\<lambda>c s. f (2 * c + 1) (f (2 * c) s)) s"
    by (rule for_loop_cong) (simp add: for_loop_two mult.commute)
  finally show ?thesis .
qed

lemma q4k_scales_nth:
  assumes "g < 8"
  shows "fl_q4k_scale_min g S = (fst (fl_q4k_scales_all S) ! g, snd (fl_q4k_scales_all S) ! g)"
  using assms by (simp add: q4k_scales_all_eq)

lemma q4_K_neon_v2:
  assumes "\<And>b. b < cols div 256 * 8 \<Longrightarrow> xsum b = act_xsum xq b"
    "\<And>b. b < cols div 256 * 8 \<Longrightarrow> xd b = fl_half2float (q1_d (xq b))"
  shows "dot_i8_q4_K_neon_v2 row xq xsum xd cols = fl_dot_i8_q4_K row xq cols"
proof -
  define body where "body sb g a4 =
    (let W = (\<lambda>i. row (sb * 144 + i)); d = fl_half2float (rd16 W 0); dmin = fl_half2float (rd16 W 2); 
         (sc, mn) = fl_q4k_scale_min g (\<lambda>i. W (4 + i));
         xg = (\<lambda>i. q1_qs (xq (sb * 8 + g)) ! i);
         idot = q4_idot W xg g; isum = for_loop 0 32 (\<lambda>i s. s + xg i) 0;
         dx = fl_half2float (q1_d (xq (sb * 8 + g)));
         a4 = fma4 g (f32_mul (f32_mul d (fl_of_u8 sc)) dx) (f32_of_int idot) a4
     in fma4 g (f32_mul (f32_neg (f32_mul dmin (fl_of_u8 mn))) dx) (f32_of_int isum) a4)" for sb g a4
  have ref: "fl_dot_i8_q4_K row xq cols = fl_fold4 (for_loop 0 (cols div 256) (\<lambda>sb. for_loop 0 8 (body sb)) acc4)"
    unfolding fl_dot_i8_q4_K_def Let_def
    by (intro arg_cong [where f = fl_fold4] for_loop_cong) (simp add: body_def Let_def)
  show ?thesis
    unfolding ref for_loop_pairs8 dot_i8_q4_K_neon_v2_def Let_def case_prod_beta
  proof (intro arg_cong [where f = fl_fold4] for_loop_cong, goal_cases)
    case (1 sb s c t)
    then have b: "sb * 8 + 2 * c < cols div 256 * 8" "sb * 8 + 2 * c + 1 < cols div 256 * 8" by simp_all
    have c: "2 * c < 8" "2 * c + 1 < 8" using 1 by simp_all
    show ?case
      unfolding body_def Let_def case_prod_beta assms(1) [OF b(1)] assms(1) [OF b(2)] assms(2) [OF b(1)] assms(2) [OF b(2)] 
        act_xsum_eq
      using q4k_scales_nth [OF c(1)] q4k_scales_nth [OF c(2)]
      by (simp add: q4_lo_dot [where o' = 0, simplified] q4_hi_dot [where o' = 0, simplified] ac_simps)
  qed
qed

lemma q4k_chunks:
  "for_loop 0 4 (q4k_chunk W xk (fst (fl_q4k_scales_all (\<lambda>i. W (4 + i)))) (snd (fl_q4k_scales_all (\<lambda>i. W (4 + i))))) (0, 0)
    = q4k_iacc W xk 8"
proof -
  define body where "body = (\<lambda>g (iacc :: int, imins :: int).
      let (sc, mn) = fl_q4k_scale_min g (\<lambda>i. W (4 + i));
          idot = q4_idot W (\<lambda>i. qK_qs xk ! (g * 32 + i)) g
      in (iacc + uint sc * idot, imins + uint mn * (qK_bsums xk ! (2 * g) + qK_bsums xk ! (2 * g + 1))))"
  have ref: "q4k_iacc W xk 8 = for_loop 0 8 body (0, 0)"
    by (simp add: q4k_iacc_def body_def)
  show ?thesis
    unfolding ref for_loop_pairs8
  proof (rule for_loop_cong)
    fix c :: nat and s :: "int \<times> int" assume "c < 4"
    then have c: "2 * c < 8" "2 * c + 1 < 8" by simp_all
    show "q4k_chunk W xk (fst (fl_q4k_scales_all (\<lambda>i. W (4 + i)))) (snd (fl_q4k_scales_all (\<lambda>i. W (4 + i)))) c s
      = body (2 * c + 1) (body (2 * c) s)"
      using q4k_scales_nth [OF c(1), of "\<lambda>i. W (4 + i)"] q4k_scales_nth [OF c(2), of "\<lambda>i. W (4 + i)"]
        q4_lo_dot [of W c "\<lambda>i. qK_qs xk ! i" "c * 64"] q4_hi_dot [of W c "\<lambda>i. qK_qs xk ! i" "c * 64 + 32"]
      by (cases s) (simp add: q4k_chunk_def body_def Let_def algebra_simps numeral_3_eq_3)
  qed
qed

lemma q4_K_i8k_neon: "dot_i8k_q4_K_neon = fl_dot_i8k_q4_K"
  unfolding dot_i8k_q4_K_neon_def fl_dot_i8k_q4_K_def Let_def case_prod_beta q4k_chunks ..

lemma q6k_groups:
  "for_loop 0 2 (\<lambda>h. for_loop 0 4 (\<lambda>s. for_loop 0 2 (q6k_group W xk h s))) 0 = q6k_iacc W xk"
  unfolding q6k_iacc_def
proof (intro for_loop_cong, goal_cases)
  case (1 h a s b k t)
  then show ?case
    using q6_dot [of s W h k "\<lambda>i. qK_qs xk ! i" "(h * 4 + s) * 32"] by (simp add: q6k_group_def q6k_term_def Let_def)
qed

lemma q6_K_i8k_neon: "dot_i8k_q6_K_neon = fl_dot_i8k_q6_K"
  unfolding dot_i8k_q6_K_neon_def fl_dot_i8k_q6_K_def Let_def q6k_groups ..

end
