(* ===== verification/FL_Simd_Mc.thy ===== *)
theory FL_Simd_Mc
  imports FL_Simd
begin

text \<open>
  The multi-column int8 kernels of \<open>src/runtime/kernels.h\<close>: one weight row is unpacked once and
  dotted against \<open>nx\<close> activation columns, and the matrix-multiply kernel that takes two rows and
  pairs of columns. The per-column arrays of a kernel are functions from the column number. Every
  kernel is proved to give, column by column, what the single-column kernel gives.
\<close>

section \<open>Loops over columns\<close>

text \<open>\<open>for (p = 0; p < nx; ++p)\<close> over an array of per-column states.\<close>

definition for_cols :: "nat \<Rightarrow> (nat \<Rightarrow> 's \<Rightarrow> 's) \<Rightarrow> (nat \<Rightarrow> 's) \<Rightarrow> nat \<Rightarrow> 's" where
  "for_cols nx f S = for_loop 0 nx (\<lambda>p S. S(p := f p (S p))) S"

lemma for_cols_at: "for_cols nx f S p = (if p < nx then f p (S p) else S p)"
  unfolding for_cols_def
proof (induction nx)
  case (Suc n)
  then show ?case by (cases "p = n") (auto simp: for_loop_last)
qed simp

text \<open>A step on the array of columns that is a step on each of them.\<close>

definition per_col :: "nat \<Rightarrow> ((nat \<Rightarrow> 's) \<Rightarrow> nat \<Rightarrow> 's) \<Rightarrow> (nat \<Rightarrow> 's \<Rightarrow> 's) \<Rightarrow> bool" where
  "per_col nx F g \<longleftrightarrow> (\<forall>S p. p < nx \<longrightarrow> F S p = g p (S p))"

lemma per_colD: "per_col nx F g \<Longrightarrow> p < nx \<Longrightarrow> F S p = g p (S p)"
  by (simp add: per_col_def)

lemma per_col_for_cols [intro]: "per_col nx (for_cols nx f) f"
  by (simp add: per_col_def for_cols_at)

lemma per_col_comp [intro]: "per_col nx F f \<Longrightarrow> per_col nx G g \<Longrightarrow> per_col nx (\<lambda>S. G (F S)) (\<lambda>p s. g p (f p s))"
  by (simp add: per_col_def)

lemma per_col_loop [intro]:
  assumes "\<And>i. lo \<le> i \<Longrightarrow> i < hi \<Longrightarrow> per_col nx (F i) (f i)"
  shows "per_col nx (for_loop lo hi F) (\<lambda>p. for_loop lo hi (\<lambda>i. f i p))"
  unfolding per_col_def
proof (intro allI impI)
  fix S p assume p: "p < nx"
  show "for_loop lo hi F S p = for_loop lo hi (\<lambda>i. f i p) (S p)"
    using assms
  proof (induction hi)
    case (Suc n)
    then show ?case
      by (cases "lo \<le> n") (simp_all add: for_loop_last per_colD [OF Suc.prems p])
  qed simp
qed

text \<open>The shape of a kernel's block: reset the columns, accumulate, fold into the totals.\<close>

lemma per_col_block:
  "per_col nx B b \<Longrightarrow> per_col nx (\<lambda>S. for_cols nx fin (B (for_cols nx reset S))) (\<lambda>p s. fin p (b p (reset p s)))"
  by (simp add: per_col_def for_cols_at)

section \<open>Unpack-sharing kernels\<close>

definition dot_i8k_q4_K_neon_mc :: "bytes \<Rightarrow> (nat \<Rightarrow> q8K_vec) \<Rightarrow> nat \<Rightarrow> nat \<Rightarrow> f32 list" where
  "dot_i8k_q4_K_neon_mc row xk nx cols =
    (let S = for_loop 0 (cols div 256) (\<lambda>sb S.
       let W = (\<lambda>i. row (sb * 144 + i)); d = fl_half2float (rd16 W 0); dmin = fl_half2float (rd16 W 2);
           (sc8, mn8) = fl_q4k_scales_all (\<lambda>i. W (4 + i));
           S = for_cols nx (\<lambda>p (a4, _, _). (a4, 0, 0)) S;
           S = for_loop 0 4 (\<lambda>c. for_cols nx (\<lambda>p (a4, ii). (a4, q4k_chunk W (xk p sb) sc8 mn8 c ii))) S
       in for_cols nx (\<lambda>p (a4, iacc, imins).
            let dk = qK_d (xk p sb); a4 = fma4 sb (f32_mul d dk) (f32_of_int iacc) a4;
                a4 = fma4 sb (f32_neg (f32_mul dmin dk)) (f32_of_int imins) a4
            in (a4, iacc, imins)) S) (\<lambda>p. (acc4, 0, 0))
     in map (\<lambda>p. fl_fold4 (fst (S p))) [0..<nx])"

definition dot_i8k_q6_K_neon_mc :: "bytes \<Rightarrow> (nat \<Rightarrow> q8K_vec) \<Rightarrow> nat \<Rightarrow> nat \<Rightarrow> f32 list" where
  "dot_i8k_q6_K_neon_mc row xk nx cols =
    (let S = for_loop 0 (cols div 256) (\<lambda>sb S.
       let W = (\<lambda>i. row (sb * 210 + i)); d = fl_half2float (rd16 W 208);
           S = for_cols nx (\<lambda>p (a4, _). (a4, 0)) S;
           S = for_loop 0 2 (\<lambda>h. for_loop 0 4 (\<lambda>s. for_loop 0 2 (\<lambda>k16.
                 for_cols nx (\<lambda>p (a4, iacc). (a4, q6k_group W (xk p sb) h s k16 iacc))))) S
       in for_cols nx (\<lambda>p (a4, iacc). (fma4 sb (f32_mul d (qK_d (xk p sb))) (f32_of_int iacc) a4, iacc)) S)
       (\<lambda>p. (acc4, 0))
     in map (\<lambda>p. fl_fold4 (fst (S p))) [0..<nx])"

definition dot_i8_q8_0_neon_mc :: "bytes \<Rightarrow> (nat \<Rightarrow> q81_vec) \<Rightarrow> nat \<Rightarrow> nat \<Rightarrow> f32 list" where
  "dot_i8_q8_0_neon_mc row xq nx cols =
    (let S = for_loop 0 (cols div 32) (\<lambda>b.
       let W = (\<lambda>i. row (b * 34 + i)); qs = (\<lambda>i. sint (W (2 + i))); dw = fl_half2float (rd16 W 0)
       in for_cols nx (\<lambda>p a4.
            let x = (\<lambda>i. q1_qs (xq p b) ! i); s = vdot32 (vld1q qs 0) (vld1q x 0) (vld1q qs 16) (vld1q x 16)
            in fma4 b (f32_mul dw (fl_half2float (q1_d (xq p b)))) (f32_of_int s) a4)) (\<lambda>p. acc4)
     in map (\<lambda>p. fl_fold4 (S p)) [0..<nx])"

lemma q8_0_neon_mc: "dot_i8_q8_0_neon_mc row xq nx cols = map (\<lambda>p. dot_i8_q8_0_neon row (xq p) cols) [0..<nx]"
proof -
  define f where "f b p a4 =
    (let W = (\<lambda>i. row (b * 34 + i)); qs = (\<lambda>i. sint (W (2 + i))); x = (\<lambda>i. q1_qs (xq p b) ! i);
         s = vdot32 (vld1q qs 0) (vld1q x 0) (vld1q qs 16) (vld1q x 16)
     in fma4 b (f32_mul (fl_half2float (rd16 W 0)) (fl_half2float (q1_d (xq p b)))) (f32_of_int s) a4)" for b p a4
  have mc: "dot_i8_q8_0_neon_mc row xq nx cols =
      map (\<lambda>p. fl_fold4 (for_loop 0 (cols div 32) (\<lambda>b. for_cols nx (f b)) (\<lambda>p. acc4) p)) [0..<nx]"
    unfolding dot_i8_q8_0_neon_mc_def f_def Let_def ..
  have sc: "dot_i8_q8_0_neon row (xq p) cols = fl_fold4 (for_loop 0 (cols div 32) (\<lambda>b. f b p) acc4)" for p
    unfolding dot_i8_q8_0_neon_def f_def Let_def ..
  have "per_col nx (for_loop 0 (cols div 32) (\<lambda>b. for_cols nx (f b))) (\<lambda>p. for_loop 0 (cols div 32) (\<lambda>b. f b p))"
    by (intro per_col_loop per_col_for_cols)
  then show ?thesis unfolding mc sc by (intro map_cong refl) (simp add: per_colD)
qed

text \<open>Loops over pairs: one component rides along, or one component is followed.\<close>

lemma loop_snd: "for_loop lo hi (\<lambda>i (a, x). (a, f i x)) (a, x) = (a, for_loop lo hi f x)"
  by (induction hi) (auto simp: for_loop_def)

lemma loop_snd_fun: "for_loop lo hi (\<lambda>i (a, x). (a, f i x)) = (\<lambda>(a, x). (a, for_loop lo hi f x))"
  by (intro ext) (auto simp: loop_snd)

lemma loop_fst:
  assumes "\<And>i s. fst (g i s) = h i (fst s)"
  shows "fst (for_loop lo hi g s) = for_loop lo hi h (fst s)"
  by (induction hi) (auto simp: for_loop_def assms)

lemma q4_K_neon_mc: "dot_i8k_q4_K_neon_mc row xk nx cols = map (\<lambda>p. dot_i8k_q4_K_neon row (xk p) cols) [0..<nx]"
proof -
  define W where "W sb = (\<lambda>i. row (sb * 144 + i))" for sb
  define sc where "sc sb = fst (fl_q4k_scales_all (\<lambda>i. W sb (4 + i)))" for sb
  define mn where "mn sb = snd (fl_q4k_scales_all (\<lambda>i. W sb (4 + i)))" for sb
  define reset where "reset = (\<lambda>(p :: nat) (a4 :: f32 list, u :: int, v :: int). (a4, 0 :: int, 0 :: int))"
  define chunk where "chunk sb c = (\<lambda>p (a4 :: f32 list, ii). (a4, q4k_chunk (W sb) (xk p sb) (sc sb) (mn sb) c ii))" for sb c
  define fin where "fin sb = (\<lambda>p (a4, iacc :: int, imins :: int).
    (fma4 sb (f32_neg (f32_mul (fl_half2float (rd16 (W sb) 2)) (qK_d (xk p sb)))) (f32_of_int imins)
      (fma4 sb (f32_mul (fl_half2float (rd16 (W sb) 0)) (qK_d (xk p sb))) (f32_of_int iacc) a4), iacc, imins))" for sb
  define step where "step sb p s = fin sb p (for_loop 0 4 (\<lambda>c. chunk sb c p) (reset p s))" for sb p s
  have mc: "dot_i8k_q4_K_neon_mc row xk nx cols =
      map (\<lambda>p. fl_fold4 (fst (for_loop 0 (cols div 256)
        (\<lambda>sb S. for_cols nx (fin sb) (for_loop 0 4 (\<lambda>c. for_cols nx (chunk sb c)) (for_cols nx reset S)))
        (\<lambda>p. (acc4, 0, 0)) p))) [0..<nx]"
    unfolding dot_i8k_q4_K_neon_mc_def fin_def chunk_def reset_def sc_def mn_def W_def Let_def case_prod_beta ..
  have "per_col nx (for_loop 0 (cols div 256)
        (\<lambda>sb S. for_cols nx (fin sb) (for_loop 0 4 (\<lambda>c. for_cols nx (chunk sb c)) (for_cols nx reset S))))
      (\<lambda>p. for_loop 0 (cols div 256) (\<lambda>sb. step sb p))"
    unfolding step_def
    by (rule per_col_loop, rule per_col_block, rule per_col_loop, rule per_col_for_cols)
  note this [THEN per_colD]
  moreover have "fst (for_loop 0 (cols div 256) (\<lambda>sb. step sb p) s) = for_loop 0 (cols div 256)
      (\<lambda>sb a4. fst (fin sb p (a4, for_loop 0 4 (q4k_chunk (W sb) (xk p sb) (sc sb) (mn sb)) (0, 0)))) (fst s)" for p s
  proof (rule loop_fst)
    fix sb s'
    show "fst (step sb p s') = fst (fin sb p (fst s', for_loop 0 4 (q4k_chunk (W sb) (xk p sb) (sc sb) (mn sb)) (0, 0)))"
      by (simp add: step_def reset_def chunk_def loop_snd case_prod_beta [of _ s'])
  qed
  moreover have "dot_i8k_q4_K_neon row (xk p) cols = fl_fold4 (for_loop 0 (cols div 256)
      (\<lambda>sb a4. fst (fin sb p (a4, for_loop 0 4 (q4k_chunk (W sb) (xk p sb) (sc sb) (mn sb)) (0, 0)))) acc4)" for p
    unfolding dot_i8k_q4_K_neon_def fin_def sc_def mn_def W_def Let_def case_prod_beta fst_conv snd_conv ..
  ultimately show ?thesis unfolding mc by (intro map_cong refl) simp
qed

lemma q6_K_neon_mc: "dot_i8k_q6_K_neon_mc row xk nx cols = map (\<lambda>p. dot_i8k_q6_K_neon row (xk p) cols) [0..<nx]"
proof -
  define W where "W sb = (\<lambda>i. row (sb * 210 + i))" for sb
  define reset where "reset = (\<lambda>(p :: nat) (a4 :: f32 list, u :: int). (a4, 0 :: int))"
  define grp where "grp sb h s k16 = (\<lambda>p (a4 :: f32 list, iacc). (a4, q6k_group (W sb) (xk p sb) h s k16 iacc))" for sb h s k16
  define fin where "fin sb = (\<lambda>p (a4, iacc :: int).
    (fma4 sb (f32_mul (fl_half2float (rd16 (W sb) 208)) (qK_d (xk p sb))) (f32_of_int iacc) a4, iacc))" for sb
  define groups where "groups sb p s =
    for_loop 0 2 (\<lambda>h. for_loop 0 4 (\<lambda>s. for_loop 0 2 (\<lambda>k16. grp sb h s k16 p))) s" for sb p s
  define step where "step sb p s = fin sb p (groups sb p (reset p s))" for sb p s
  define isum where "isum sb p = for_loop 0 2 (\<lambda>h. for_loop 0 4 (\<lambda>s. for_loop 0 2 (q6k_group (W sb) (xk p sb) h s))) 0" for sb p
  have mc: "dot_i8k_q6_K_neon_mc row xk nx cols =
      map (\<lambda>p. fl_fold4 (fst (for_loop 0 (cols div 256)
        (\<lambda>sb S. for_cols nx (fin sb) (for_loop 0 2 (\<lambda>h. for_loop 0 4 (\<lambda>s. for_loop 0 2 (\<lambda>k16. for_cols nx (grp sb h s k16))))
          (for_cols nx reset S))) (\<lambda>p. (acc4, 0)) p))) [0..<nx]"
    unfolding dot_i8k_q6_K_neon_mc_def fin_def grp_def reset_def W_def Let_def case_prod_beta ..
  have "per_col nx (for_loop 0 (cols div 256)
        (\<lambda>sb S. for_cols nx (fin sb) (for_loop 0 2 (\<lambda>h. for_loop 0 4 (\<lambda>s. for_loop 0 2 (\<lambda>k16. for_cols nx (grp sb h s k16))))
          (for_cols nx reset S)))) (\<lambda>p. for_loop 0 (cols div 256) (\<lambda>sb. step sb p))"
    unfolding step_def groups_def
    by (rule per_col_loop, rule per_col_block, (rule per_col_loop)+, rule per_col_for_cols)
  note this [THEN per_colD]
  moreover have "fst (for_loop 0 (cols div 256) (\<lambda>sb. step sb p) s) =
      for_loop 0 (cols div 256) (\<lambda>sb a4. fst (fin sb p (a4, isum sb p))) (fst s)" for p s
    by (rule loop_fst)
      (simp add: step_def groups_def grp_def loop_snd_fun reset_def isum_def case_prod_beta [where p = "_ :: f32 list \<times> int"])
  moreover have "dot_i8k_q6_K_neon row (xk p) cols =
      fl_fold4 (for_loop 0 (cols div 256) (\<lambda>sb a4. fst (fin sb p (a4, isum sb p))) acc4)" for p
    unfolding dot_i8k_q6_K_neon_def fin_def isum_def W_def Let_def case_prod_beta fst_conv snd_conv ..
  ultimately show ?thesis unfolding mc by (intro map_cong refl) simp
qed

section \<open>The matrix-multiply kernel\<close>

text \<open>\<open>vmmlaq_s32\<close>: lane \<open>2 i + j\<close> gains the dot of row \<open>i\<close> of \<open>a\<close> with row \<open>j\<close> of \<open>b\<close>, rows of eight.\<close>

definition vmmlaq :: "s32x4 \<Rightarrow> s8x16 \<Rightarrow> s8x16 \<Rightarrow> s32x4" where
  "vmmlaq acc a b = (\<lambda>l. acc l + (\<Sum>k<8. a (8 * (l div 2) + k) * b (8 * (l mod 2) + k)))"

definition vget_low :: "(nat \<Rightarrow> 'a) \<Rightarrow> nat \<Rightarrow> 'a" where "vget_low v = (\<lambda>l. v l)"
definition vget_high :: "(nat \<Rightarrow> 'a) \<Rightarrow> nat \<Rightarrow> 'a" where "vget_high v = (\<lambda>l. v (8 + l))"
definition vcombine :: "(nat \<Rightarrow> 'a) \<Rightarrow> (nat \<Rightarrow> 'a) \<Rightarrow> nat \<Rightarrow> 'a" where
  "vcombine lo hi = (\<lambda>l. if l < 8 then lo l else hi (l - 8))"

lemma vmmlaq_lane:
  "i < 2 \<Longrightarrow> j < 2 \<Longrightarrow> vmmlaq acc a b (2 * i + j) = acc (2 * i + j) + (\<Sum>k<8. a (8 * i + k) * b (8 * j + k))"
  by (simp add: vmmlaq_def)

text \<open>The activation planes: columns \<open>2 cp\<close> and \<open>2 cp + 1\<close> in alternating groups of eight bytes.\<close>

definition act_group :: "blk_q8_K \<Rightarrow> blk_q8_K \<Rightarrow> nat \<Rightarrow> nat \<Rightarrow> (nat \<Rightarrow> int) \<Rightarrow> nat \<Rightarrow> int" where
  "act_group A B d g xi =
    (let a = (\<lambda>i. qK_qs A ! i); b = (\<lambda>i. qK_qs B ! i);
         xi = memcpy_to xi (d + g * 16) (\<lambda>i. a (g * 8 + i)) 8
     in memcpy_to xi (d + g * 16 + 8) (\<lambda>i. b (g * 8 + i)) 8)"

definition fl_interleave_act_q8k :: "(nat \<Rightarrow> q8K_vec) \<Rightarrow> nat \<Rightarrow> nat \<Rightarrow> (nat \<Rightarrow> int) \<Rightarrow> nat \<Rightarrow> int" where
  "fl_interleave_act_q8k xk nx cols xi =
    for_loop 0 ((nx + 1) div 2) (\<lambda>cp. let dst = cp * cols * 2; A = xk (2 * cp); B = xk (2 * cp + 1)
      in for_loop 0 (cols div 256) (\<lambda>sb. let d = dst + sb * 512 in for_loop 0 32 (act_group (A sb) (B sb) d))) xi"

text \<open>What the planes hold: byte \<open>k\<close> of the 512 of block \<open>sb\<close> of the pair \<open>A\<close>, \<open>B\<close>.\<close>

definition plane :: "q8K_vec \<Rightarrow> q8K_vec \<Rightarrow> nat \<Rightarrow> nat \<Rightarrow> int" where
  "plane A B sb k = qK_qs ((if k mod 16 < 8 then A else B) sb) ! ((k div 16) * 8 + k mod 8)"

definition interleaved :: "(nat \<Rightarrow> q8K_vec) \<Rightarrow> nat \<Rightarrow> nat \<Rightarrow> (nat \<Rightarrow> int) \<Rightarrow> bool" where
  "interleaved xk nx cols xi \<longleftrightarrow> (\<forall>cp < nx div 2. \<forall>sb < cols div 256. \<forall>k < 512.
     xi (cp * cols * 2 + sb * 512 + k) = plane (xk (2 * cp)) (xk (2 * cp + 1)) sb k)"

lemma act_group_other: "a < d + g * 16 \<or> d + g * 16 + 16 \<le> a \<Longrightarrow> act_group A B d g xi a = xi a"
  by (auto simp: act_group_def memcpy_to_def)

lemma act_group_own: "r < 16 \<Longrightarrow> act_group (A sb) (B sb) d g xi (d + g * 16 + r) = plane A B sb (g * 16 + r)"
proof -
  assume r: "r < 16"
  have m: "(g * 16 + r) mod 8 = r mod 8" using mod_mult_self3 [of "2 * g" 8 r] by (simp add: mult.commute)
  have "(g * 16 + r) mod 16 = r" "(g * 16 + r) div 16 = g" "r < 8 \<Longrightarrow> r mod 8 = r" "\<not> r < 8 \<Longrightarrow> r mod 8 = r - 8"
    using r by (simp_all add: le_mod_geq)
  then show ?thesis using r by (cases "r < 8") (simp_all add: act_group_def memcpy_to_def plane_def m)
qed

lemma act_group_writer: "block_writer 32 d 16 16 (act_group (A sb) (B sb) d) (\<lambda>g r. plane A B sb (g * 16 + r))"
  unfolding block_writer_def by (simp add: act_group_other act_group_own)

lemma act_block_writer:
  "block_writer n dst 512 512 (\<lambda>sb. for_loop 0 32 (act_group (A sb) (B sb) (dst + sb * 512))) (plane A B)"
  unfolding block_writer_def
proof (intro conjI allI impI, rule le_refl)
  fix sb xi a
  assume "a < dst + sb * 512 \<or> dst + sb * 512 + 512 \<le> a"
  then show "for_loop 0 32 (act_group (A sb) (B sb) (dst + sb * 512)) xi a = xi a"
    by (intro block_writer_other [OF act_group_writer]) simp
next
  fix sb xi and k :: nat
  assume "k < 512"
  then have k: "k div 16 < 32" "k mod 16 < 16" by (simp_all add: less_mult_imp_div_less)
  show "for_loop 0 32 (act_group (A sb) (B sb) (dst + sb * 512)) xi (dst + sb * 512 + k) = plane A B sb k"
    using block_writer_own [OF act_group_writer k, where base = "dst + sb * 512"] by (simp add: add.assoc)
qed

lemma interleave_act: "interleaved xk nx cols (fl_interleave_act_q8k xk nx cols xi)"
proof -
  define A where "A cp = xk (2 * cp)" for cp
  define B where "B cp = xk (2 * cp + 1)" for cp
  define col where "col cp = for_loop 0 (cols div 256)
    (\<lambda>sb. for_loop 0 32 (act_group (A cp sb) (B cp sb) (cp * cols * 2 + sb * 512)))" for cp
  have sz: "cols div 256 * 512 \<le> cols * 2" using div_times_less_eq_dividend [of cols 256] by linarith
  have "block_writer ((nx + 1) div 2) 0 (cols * 2) (cols div 256 * 512) col (\<lambda>cp k. plane (A cp) (B cp) (k div 512) (k mod 512))"
    unfolding block_writer_def
  proof (intro conjI allI impI, rule sz)
    fix cp xi a
    assume "a < 0 + cp * (cols * 2) \<or> 0 + cp * (cols * 2) + cols * 2 \<le> a"
    then show "col cp xi a = xi a"
      unfolding col_def using sz by (intro block_writer_other [OF act_block_writer]) (simp add: mult.assoc, linarith)
  next
    fix cp xi and k :: nat
    assume "k < cols div 256 * 512"
    then have k: "k div 512 < cols div 256" "k mod 512 < 512" by (simp_all add: less_mult_imp_div_less)
    show "col cp xi (0 + cp * (cols * 2) + k) = plane (A cp) (B cp) (k div 512) (k mod 512)"
      unfolding col_def using block_writer_own [OF act_block_writer k] by (simp add: add.assoc mult.assoc)
  qed
  note w = block_writer_own [OF this]
  have "fl_interleave_act_q8k xk nx cols xi (cp * cols * 2 + sb * 512 + k) = plane (A cp) (B cp) sb k"
    if "cp < nx div 2" "sb < cols div 256" "k < 512" for cp sb k
  proof -
    have "sb * 512 + k < cols div 256 * 512" using that block_before [of sb "cols div 256" 512] by linarith
    then show ?thesis
      using w [of cp "sb * 512 + k"] that
      unfolding fl_interleave_act_q8k_def Let_def col_def [abs_def] A_def B_def
      by (simp add: add.assoc mult.assoc)
  qed
  then show ?thesis unfolding interleaved_def A_def B_def by blast
qed

text \<open>The four row-pair operands of the low or high nibbles against the four groups of a plane.\<close>

definition mmla_tile :: "s8x16 \<Rightarrow> s8x16 \<Rightarrow> s8x16 \<Rightarrow> s8x16 \<Rightarrow> (nat \<Rightarrow> int) \<Rightarrow> nat \<Rightarrow> s32x4" where
  "mmla_tile r00 r01 r10 r11 xi b =
    (let A0 = vcombine (vget_low r00) (vget_low r10); A1 = vcombine (vget_high r00) (vget_high r10);
         A2 = vcombine (vget_low r01) (vget_low r11); A3 = vcombine (vget_high r01) (vget_high r11);
         t = vmmlaq (vdupq 0) A0 (vld1q xi b); t = vmmlaq t A1 (vld1q xi (b + 16));
         t = vmmlaq t A2 (vld1q xi (b + 32))
     in vmmlaq t A3 (vld1q xi (b + 48)))"

definition mmla_acc :: "u8 list \<Rightarrow> u8 list \<Rightarrow> nat \<Rightarrow> int \<Rightarrow> int \<Rightarrow> int \<Rightarrow> int \<Rightarrow> f32 list \<times> int \<times> int \<Rightarrow> f32 list \<times> int \<times> int" where
  "mmla_acc sc mn c ilo ihi bs bs2 = (\<lambda>(a4, iacc, imins).
    (a4, iacc + (uint (sc ! (2 * c)) * ilo + uint (sc ! (2 * c + 1)) * ihi),
     imins + (uint (mn ! (2 * c)) * bs + uint (mn ! (2 * c + 1)) * bs2)))"

type_synonym mmla_cols = "nat \<Rightarrow> f32 list \<times> int \<times> int"

definition mmla_pair :: "bytes \<Rightarrow> bytes \<Rightarrow> (nat \<Rightarrow> q8K_vec) \<Rightarrow> (nat \<Rightarrow> int) \<Rightarrow> nat \<Rightarrow> nat \<Rightarrow> u8 list \<Rightarrow> u8 list \<Rightarrow> u8 list \<Rightarrow> u8 list
    \<Rightarrow> nat \<Rightarrow> nat \<Rightarrow> mmla_cols \<times> mmla_cols \<Rightarrow> mmla_cols \<times> mmla_cols" where
  "mmla_pair W0 W1 xk xi cols sb sc0 mn0 sc1 mn1 c cp = (\<lambda>(S0, S1).
    let b = cp * cols * 2 + sb * 512 + c * 128;
        lo = mmla_tile (q4_lo W0 c 0) (q4_lo W0 c 1) (q4_lo W1 c 0) (q4_lo W1 c 1) xi b;
        hi = mmla_tile (q4_hi W0 c 0) (q4_hi W0 c 1) (q4_hi W1 c 0) (q4_hi W1 c 1) xi (b + 64);
        pa = 2 * cp; pb = 2 * cp + 1;
        bs = (\<lambda>p g. qK_bsums (xk p sb) ! g);
        bsa = bs pa (4 * c) + bs pa (4 * c + 1); bsa2 = bs pa (4 * c + 2) + bs pa (4 * c + 3);
        bsb = bs pb (4 * c) + bs pb (4 * c + 1); bsb2 = bs pb (4 * c + 2) + bs pb (4 * c + 3)
    in (S0(pa := mmla_acc sc0 mn0 c (lo 0) (hi 0) bsa bsa2 (S0 pa), pb := mmla_acc sc0 mn0 c (lo 1) (hi 1) bsb bsb2 (S0 pb)),
        S1(pa := mmla_acc sc1 mn1 c (lo 2) (hi 2) bsa bsa2 (S1 pa), pb := mmla_acc sc1 mn1 c (lo 3) (hi 3) bsb bsb2 (S1 pb))))"

definition fold_col :: "f32 \<Rightarrow> f32 \<Rightarrow> nat \<Rightarrow> f32 \<Rightarrow> f32 list \<times> int \<times> int \<Rightarrow> f32 list \<times> int \<times> int" where
  "fold_col d dmin sb dk = (\<lambda>(a4, iacc, imins).
    let a4 = fma4 sb (f32_mul d dk) (f32_of_int iacc) a4
    in (fma4 sb (f32_neg (f32_mul dmin dk)) (f32_of_int imins) a4, iacc, imins))"

definition dot_i8k_q4_K_neon_mc_smmla ::
  "bytes \<Rightarrow> bytes \<Rightarrow> (nat \<Rightarrow> q8K_vec) \<Rightarrow> (nat \<Rightarrow> int) \<Rightarrow> nat \<Rightarrow> nat \<Rightarrow> f32 list \<times> f32 list" where
  "dot_i8k_q4_K_neon_mc_smmla row0 row1 xk xi nx cols =
    (let (S0, S1) = for_loop 0 (cols div 256) (\<lambda>sb (S0, S1).
       let W0 = (\<lambda>i. row0 (sb * 144 + i)); W1 = (\<lambda>i. row1 (sb * 144 + i));
           d0 = fl_half2float (rd16 W0 0); dmin0 = fl_half2float (rd16 W0 2);
           d1 = fl_half2float (rd16 W1 0); dmin1 = fl_half2float (rd16 W1 2);
           (sc0, mn0) = fl_q4k_scales_all (\<lambda>i. W0 (4 + i)); (sc1, mn1) = fl_q4k_scales_all (\<lambda>i. W1 (4 + i));
           reset = (\<lambda>p (a4, _, _). (a4, 0, 0));
           S = (for_cols nx reset S0, for_cols nx reset S1);
           S = for_loop 0 4 (\<lambda>c. for_loop 0 ((nx + 1) div 2) (mmla_pair W0 W1 xk xi cols sb sc0 mn0 sc1 mn1 c)) S
       in for_loop 0 nx (\<lambda>p (S0, S1). let dk = qK_d (xk p sb) in
            (S0(p := fold_col d0 dmin0 sb dk (S0 p)), S1(p := fold_col d1 dmin1 sb dk (S1 p)))) S)
       (\<lambda>p. (acc4, 0, 0), \<lambda>p. (acc4, 0, 0))
     in (map (\<lambda>p. fl_fold4 (fst (S0 p))) [0..<nx], map (\<lambda>p. fl_fold4 (fst (S1 p))) [0..<nx]))"

lemma sum32_by8: "(\<Sum>i<32. f i) = (\<Sum>k<8. f k) + (\<Sum>k<8. f (8 + k)) + (\<Sum>k<8. f (16 + k)) + (\<Sum>k<8. f (24 + k))"
  for f :: "nat \<Rightarrow> int"
proof -
  have "(\<Sum>i<8 + (8 + (8 + 8)). f i) = (\<Sum>k<8. f k) + ((\<Sum>k<8. f (8 + k)) + ((\<Sum>k<8. f (8 + (8 + k))) + (\<Sum>k<8. f (8 + (8 + (8 + k))))))"
    unfolding sum_lessThan_add ..
  then show ?thesis by (simp add: add.assoc)
qed

text \<open>Lane \<open>2 i + j\<close> of a tile is the dot of row \<open>i\<close> with column \<open>j\<close> of the plane.\<close>

lemma mmla_tile_lane:
  fixes r :: "nat \<Rightarrow> nat \<Rightarrow> nat \<Rightarrow> int"
  assumes x: "\<And>t k. t < 4 \<Longrightarrow> k < 8 \<Longrightarrow> xi (b + 16 * t + (8 * j + k)) = x (8 * t + k)" and i: "i < 2" and j: "j < 2"
  shows "mmla_tile (r 0 0) (r 0 1) (r 1 0) (r 1 1) xi b (2 * i + j) =
    (\<Sum>k<32. r i (k div 16) (k mod 16) * x k)"
proof -
  have v: "vcombine (vget_low u) (vget_low w) k = u k" "vcombine (vget_high u) (vget_high w) k = u (8 + k)"
      "vcombine (vget_low u) (vget_low w) (8 + k) = w k" "vcombine (vget_high u) (vget_high w) (8 + k) = w (8 + k)"
    if "k < 8" for u w :: s8x16 and k
    using that by (auto simp: vcombine_def vget_low_def vget_high_def)
  have m: "\<And>k. k < 8 \<Longrightarrow> (8 + k) div 16 = 0 \<and> (8 + k) mod 16 = 8 + (k :: nat)"
    "\<And>k. k < 8 \<Longrightarrow> (16 + k) div 16 = 1 \<and> (16 + k) mod 16 = (k :: nat)"
    "\<And>k. k < 8 \<Longrightarrow> (24 + k) div 16 = 1 \<and> (24 + k) mod 16 = 8 + (k :: nat)" by (simp_all, presburger+)
  have lane: "mmla_tile (r 0 0) (r 0 1) (r 1 0) (r 1 1) xi b (2 * i + j) =
      (\<Sum>k<8. vcombine (vget_low (r 0 0)) (vget_low (r 1 0)) (8 * i + k) * x k)
      + (\<Sum>k<8. vcombine (vget_high (r 0 0)) (vget_high (r 1 0)) (8 * i + k) * x (8 + k))
      + (\<Sum>k<8. vcombine (vget_low (r 0 1)) (vget_low (r 1 1)) (8 * i + k) * x (16 + k))
      + (\<Sum>k<8. vcombine (vget_high (r 0 1)) (vget_high (r 1 1)) (8 * i + k) * x (24 + k))"
    unfolding mmla_tile_def Let_def vmmlaq_lane [OF i j] vdupq_def vld1q_def
    using x [of 0] x [of 1] x [of 2] x [of 3] by (simp add: add.assoc)
  consider "i = 0" | "i = 1" using i by linarith
  then show ?thesis
    unfolding lane by cases (simp_all add: sum32_by8 v m)
qed

lemma plane_at:
  assumes "j < 2" "k < 8"
  shows "plane A B sb (16 * u + (8 * j + k)) = qK_qs ((if j = 0 then A else B) sb) ! (8 * u + k)"
proof -
  have j: "j = 0 \<or> j = 1" using assms by linarith
  have "(16 * u + (8 * j + k)) div 16 = u" "(16 * u + (8 * j + k)) mod 16 = 8 * j + k"
    using assms j by auto
  moreover have "(16 * u + (8 * j + k)) mod 8 = k"
    using mod_mult_self3 [of "2 * u + j" 8 k] assms(2) by (simp add: algebra_simps)
  ultimately show ?thesis using assms j by (auto simp: plane_def mult.commute)
qed

text \<open>The tile of a chunk: lane \<open>2 i + j\<close> is the integer dot of row \<open>i\<close> with column \<open>2 cp + j\<close>.\<close>

lemma mmla_chunk_lane:
  assumes xi: "interleaved xk nx cols xi" and cp: "cp < nx div 2" and sb: "sb < cols div 256" and c: "c < 4"
    and i: "i < 2" and j: "j < 2"
  defines "b \<equiv> cp * cols * 2 + sb * 512 + c * 128" and "x \<equiv> \<lambda>e. qK_qs (xk (2 * cp + j) sb) ! e"
  shows "mmla_tile (q4_lo W0 c 0) (q4_lo W0 c 1) (q4_lo W1 c 0) (q4_lo W1 c 1) xi b (2 * i + j)
      = q4_idot (if i = 0 then W0 else W1) (\<lambda>e. x (c * 64 + e)) (2 * c)"
    and "mmla_tile (q4_hi W0 c 0) (q4_hi W0 c 1) (q4_hi W1 c 0) (q4_hi W1 c 1) xi (b + 64) (2 * i + j)
      = q4_idot (if i = 0 then W0 else W1) (\<lambda>e. x (c * 64 + 32 + e)) (2 * c + 1)"
proof -
  have col: "(if j = 0 then xk (2 * cp) else xk (2 * cp + 1)) = xk (2 * cp + j)" using j by (auto simp: less_2_cases_iff)
  have at: "xi (cp * cols * 2 + sb * 512 + (16 * u + (8 * j + k))) = x (8 * u + k)" if "u < 32" "k < 8" for u k
  proof -
    have "16 * u + (8 * j + k) < 512" using that j by linarith
    then show ?thesis using xi cp sb plane_at [OF j \<open>k < 8\<close>, of "xk (2 * cp)" "xk (2 * cp + 1)" sb u]
      unfolding interleaved_def x_def by (simp only: col)
  qed
  have lo: "xi (b + 16 * t + (8 * j + k)) = x (c * 64 + (8 * t + k))" if "t < 4" "k < 8" for t k
    using at [of "c * 8 + t" k] that c by (simp add: b_def algebra_simps)
  have hi: "xi (b + 64 + 16 * t + (8 * j + k)) = x (c * 64 + 32 + (8 * t + k))" if "t < 4" "k < 8" for t k
    using at [of "c * 8 + 4 + t" k] that c by (simp add: b_def algebra_simps)
  have W: "(if i = 0 then f W0 else f W1) = f (if i = 0 then W0 else W1)" for f :: "bytes \<Rightarrow> 'z" by simp
  show "mmla_tile (q4_lo W0 c 0) (q4_lo W0 c 1) (q4_lo W1 c 0) (q4_lo W1 c 1) xi b (2 * i + j)
      = q4_idot (if i = 0 then W0 else W1) (\<lambda>e. x (c * 64 + e)) (2 * c)"
    using mmla_tile_lane [where r = "\<lambda>i half. q4_lo (if i = 0 then W0 else W1) c half" and b = b
        and x = "\<lambda>e. x (c * 64 + e)" and xi = xi, OF lo i j]
    unfolding q4_idot_sum by (simp add: q4_lo_bits)
  show "mmla_tile (q4_hi W0 c 0) (q4_hi W0 c 1) (q4_hi W1 c 0) (q4_hi W1 c 1) xi (b + 64) (2 * i + j)
      = q4_idot (if i = 0 then W0 else W1) (\<lambda>e. x (c * 64 + 32 + e)) (2 * c + 1)"
    using mmla_tile_lane [where r = "\<lambda>i half. q4_hi (if i = 0 then W0 else W1) c half" and b = "b + 64"
        and x = "\<lambda>e. x (c * 64 + 32 + e)" and xi = xi, OF hi i j]
    unfolding q4_idot_sum by (simp add: q4_hi_bits)
qed

lemma q4k_chunk_idot:
  "q4k_chunk W X sc mn c = (\<lambda>(iacc, imins).
    (iacc + (uint (sc ! (2 * c)) * q4_idot W (\<lambda>e. qK_qs X ! (c * 64 + e)) (2 * c)
           + uint (sc ! (2 * c + 1)) * q4_idot W (\<lambda>e. qK_qs X ! (c * 64 + 32 + e)) (2 * c + 1)),
     imins + (uint (mn ! (2 * c)) * (qK_bsums X ! (4 * c) + qK_bsums X ! (4 * c + 1))
           + uint (mn ! (2 * c + 1)) * (qK_bsums X ! (4 * c + 2) + qK_bsums X ! (4 * c + 3)))))"
proof -
  have "vdot32 (q4_hi W c 0) (vld1q x (c * 64 + 32)) (q4_hi W c 1) (vld1q x (c * 64 + 48))
      = q4_idot W (\<lambda>e. x (c * 64 + 32 + e)) (2 * c + 1)" for x
    using q4_hi_dot [of W c x "c * 64 + 32"] by (simp add: add.assoc)
  then show ?thesis using q4_lo_dot [of W c _ "c * 64"] by (simp add: q4k_chunk_def Let_def)
qed

definition pair_upd :: "(nat \<Rightarrow> 's \<Rightarrow> 's) \<Rightarrow> nat \<Rightarrow> (nat \<Rightarrow> 's) \<Rightarrow> nat \<Rightarrow> 's" where
  "pair_upd g cp S = S(2 * cp := g (2 * cp) (S (2 * cp)), 2 * cp + 1 := g (2 * cp + 1) (S (2 * cp + 1)))"

lemma pair_upd_loop: "for_loop 0 n (pair_upd g) S = for_cols (2 * n) g S"
  by (induction n) (simp_all add: for_cols_def for_loop_last pair_upd_def)

lemma loop_both: "for_loop lo hi (\<lambda>i (x, y). (f i x, g i y)) (x, y) = (for_loop lo hi f x, for_loop lo hi g y)"
  by (induction hi) (auto simp: for_loop_def)

lemma loop_both_fun: "for_loop lo hi (\<lambda>i (x, y). (f i x, g i y)) = (\<lambda>(x, y). (for_loop lo hi f x, for_loop lo hi g y))"
  by (intro ext) (auto simp: loop_both)

lemma mmla_pair_upd:
  assumes "interleaved xk nx cols xi" "cp < nx div 2" "sb < cols div 256" "c < 4"
  shows "mmla_pair W0 W1 xk xi cols sb sc0 mn0 sc1 mn1 c cp (S0, S1) =
    (pair_upd (\<lambda>p (a4, ii). (a4, q4k_chunk W0 (xk p sb) sc0 mn0 c ii)) cp S0,
     pair_upd (\<lambda>p (a4, ii). (a4, q4k_chunk W1 (xk p sb) sc1 mn1 c ii)) cp S1)"
  using mmla_chunk_lane [OF assms, of 0 0 W0 W1] mmla_chunk_lane [OF assms, of 0 1 W0 W1]
    mmla_chunk_lane [OF assms, of 1 0 W0 W1] mmla_chunk_lane [OF assms, of 1 1 W0 W1]
  by (simp add: mmla_pair_def pair_upd_def mmla_acc_def q4k_chunk_idot Let_def case_prod_beta)

text \<open>The loop over column pairs does chunk \<open>c\<close> of every column of both rows.\<close>

lemma mmla_pairs:
  assumes xi: "interleaved xk nx cols xi" and nx: "even nx" and sb: "sb < cols div 256" and c: "c < 4"
  shows "for_loop 0 (nx div 2) (mmla_pair W0 W1 xk xi cols sb sc0 mn0 sc1 mn1 c) P =
    (\<lambda>(x, y). (for_cols nx (\<lambda>p (a4, ii). (a4, q4k_chunk W0 (xk p sb) sc0 mn0 c ii)) x,
              for_cols nx (\<lambda>p (a4, ii). (a4, q4k_chunk W1 (xk p sb) sc1 mn1 c ii)) y)) P"
proof -
  define f where "f = (\<lambda>p (a4 :: f32 list, ii). (a4, q4k_chunk W0 (xk p sb) sc0 mn0 c ii))"
  define g where "g = (\<lambda>p (a4 :: f32 list, ii). (a4, q4k_chunk W1 (xk p sb) sc1 mn1 c ii))"
  have "for_loop 0 (nx div 2) (mmla_pair W0 W1 xk xi cols sb sc0 mn0 sc1 mn1 c) P
      = for_loop 0 (nx div 2) (\<lambda>cp (x, y). (pair_upd f cp x, pair_upd g cp y)) P"
  proof (rule for_loop_cong)
    fix cp and s :: "mmla_cols \<times> mmla_cols" assume "cp < nx div 2"
    then show "mmla_pair W0 W1 xk xi cols sb sc0 mn0 sc1 mn1 c cp s = (\<lambda>(x, y). (pair_upd f cp x, pair_upd g cp y)) s"
      unfolding f_def g_def by (cases s) (simp only: mmla_pair_upd [OF xi _ sb c] prod.case)
  qed
  also have "\<dots> = (\<lambda>(x, y). (for_cols nx f x, for_cols nx g y)) P"
    unfolding loop_both_fun pair_upd_loop using nx by simp
  finally show ?thesis unfolding f_def g_def .
qed

text \<open>With an even number of columns the kernel is the unpack-sharing kernel on each of its rows.\<close>

lemma smmla_is_mc:
  assumes nx: "even nx" and xi: "interleaved xk nx cols xi"
  shows "dot_i8k_q4_K_neon_mc_smmla row0 row1 xk xi nx cols =
    (dot_i8k_q4_K_neon_mc row0 xk nx cols, dot_i8k_q4_K_neon_mc row1 xk nx cols)"
proof -
  define W where "W row sb = (\<lambda>i. row (sb * 144 + i))" for row :: bytes and sb
  define sc where "sc row sb = fst (fl_q4k_scales_all (\<lambda>i. W row sb (4 + i)))" for row sb
  define mn where "mn row sb = snd (fl_q4k_scales_all (\<lambda>i. W row sb (4 + i)))" for row sb
  define reset where "reset = (\<lambda>(p :: nat) (a4 :: f32 list, u :: int, v :: int). (a4, 0 :: int, 0 :: int))"
  define chunk where "chunk row sb c = (\<lambda>p (a4 :: f32 list, ii). (a4, q4k_chunk (W row sb) (xk p sb) (sc row sb) (mn row sb) c ii))" for row sb c
  define fin where "fin row sb = (\<lambda>p. fold_col (fl_half2float (rd16 (W row sb) 0)) (fl_half2float (rd16 (W row sb) 2)) sb (qK_d (xk p sb)))" for row sb
  define step where "step row sb S = for_cols nx (fin row sb) (for_loop 0 4 (\<lambda>c. for_cols nx (chunk row sb c)) (for_cols nx reset S))"
    for row sb S
  define S0 :: mmla_cols where "S0 = (\<lambda>p. (acc4, 0, 0))"
  define out where "out S = map (\<lambda>p. fl_fold4 (fst (S p))) [0..<nx]" for S :: mmla_cols
  have mc: "dot_i8k_q4_K_neon_mc row xk nx cols = out (for_loop 0 (cols div 256) (step row) S0)" for row
    unfolding dot_i8k_q4_K_neon_mc_def step_def [abs_def] fin_def fold_col_def chunk_def reset_def sc_def mn_def W_def S0_def
      Let_def case_prod_beta out_def ..
  have nx2: "(nx + 1) div 2 = nx div 2" using nx by simp
  define blk where "blk sb = (\<lambda>(S0, S1).
    for_loop 0 nx (\<lambda>p (S0, S1). (S0(p := fin row0 sb p (S0 p)), S1(p := fin row1 sb p (S1 p))))
      (for_loop 0 4 (\<lambda>c. for_loop 0 (nx div 2)
        (mmla_pair (W row0 sb) (W row1 sb) xk xi cols sb (sc row0 sb) (mn row0 sb) (sc row1 sb) (mn row1 sb) c))
        (for_cols nx reset S0, for_cols nx reset S1)))" for sb
  have kernel: "dot_i8k_q4_K_neon_mc_smmla row0 row1 xk xi nx cols =
      (let (S0, S1) = for_loop 0 (cols div 256) blk (S0, S0) in (out S0, out S1))"
    unfolding dot_i8k_q4_K_neon_mc_smmla_def blk_def [abs_def] fin_def sc_def mn_def W_def reset_def Let_def case_prod_beta
      S0_def nx2 out_def ..
  have "for_loop 0 (cols div 256) blk P = for_loop 0 (cols div 256) (\<lambda>sb (x, y). (step row0 sb x, step row1 sb y)) P" for P
  proof (rule for_loop_cong)
    fix sb and s :: "mmla_cols \<times> mmla_cols" assume sb: "sb < cols div 256"
    have "for_loop 0 4 (\<lambda>c. for_loop 0 (nx div 2)
          (mmla_pair (W row0 sb) (W row1 sb) xk xi cols sb (sc row0 sb) (mn row0 sb) (sc row1 sb) (mn row1 sb) c)) P
        = for_loop 0 4 (\<lambda>c (x, y). (for_cols nx (chunk row0 sb c) x, for_cols nx (chunk row1 sb c) y)) P" for P
      unfolding chunk_def by (rule for_loop_cong) (rule mmla_pairs [OF xi nx sb])
    then show "blk sb s = (\<lambda>(x, y). (step row0 sb x, step row1 sb y)) s"
      unfolding blk_def step_def for_cols_def [of nx "fin _ _"] by (cases s) (simp only: prod.case loop_both)
  qed
  then show ?thesis unfolding kernel mc by (simp add: loop_both)
qed

end
