(* ===== verification/FL_Shadow.thy ===== *)
theory FL_Shadow
  imports FL_Simd_Mc
begin

text \<open>
  The int8 shadows of \<open>src/runtime/shadow.h\<close> and \<open>src/runtime/shadow.cpp\<close>: the builders that
  unpack rows once, the layouts they write (plain and interleaved by row pairs), and the kernels of
  \<open>src/runtime/kernels.h\<close> that read a shadow in place of the packed row. Memory is the function
  from byte addresses to bytes. What a builder writes is stated byte by byte, and each shadow kernel
  is proved to give on it what the packed kernel gives on the row.
\<close>

section \<open>Builders\<close>

definition put_u32 :: "bytes \<Rightarrow> nat \<Rightarrow> u32 \<Rightarrow> bytes" where
  "put_u32 m a v = memcpy_to m a (\<lambda>i. ucast (drop_bit (8 * i) v)) 4"

definition put_list :: "bytes \<Rightarrow> nat \<Rightarrow> u8 list \<Rightarrow> bytes" where
  "put_list m a xs = memcpy_to m a (\<lambda>i. xs ! i) (length xs)"

text \<open>The 24 bytes of scales, and the 256 nibbles in element order.\<close>

definition q4k_header :: "bytes \<Rightarrow> nat \<Rightarrow> bytes \<Rightarrow> bytes" where
  "q4k_header W a m =
    (let m = put_u32 m a (fl_half2float (rd16 W 0)); m = put_u32 m (a + 4) (fl_half2float (rd16 W 2));
         (sc, mn) = fl_q4k_scales_all (\<lambda>i. W (4 + i))
     in put_list (put_list m (a + 8) sc) (a + 16) mn)"

definition q4k_nibbles :: "bytes \<Rightarrow> nat \<Rightarrow> bytes \<Rightarrow> bytes" where
  "q4k_nibbles W a =
    for_loop 0 4 (\<lambda>c. for_loop 0 32 (\<lambda>i m.
      m(a + c * 64 + i := W (16 + 32 * c + i) AND 0x0F, a + c * 64 + 32 + i := drop_bit 4 (W (16 + 32 * c + i)))))"

definition fl_shadow_build_rows_q4k :: "bytes \<Rightarrow> nat \<Rightarrow> nat \<Rightarrow> nat \<Rightarrow> bytes \<Rightarrow> bytes" where
  "fl_shadow_build_rows_q4k packed rows cols out =
    (let nsb = cols div 256; prb = nsb * 144; srb = nsb * 280
     in for_loop 0 rows (\<lambda>r. let srow = out + r * srb in for_loop 0 nsb (\<lambda>sb m.
          let W = (\<lambda>i. packed (r * prb + sb * 144 + i)); a = srow + sb * 280
          in q4k_nibbles W (a + 24) (q4k_header W a m))))"

definition fl_shadow_build_rows_q4k_smmla :: "bytes \<Rightarrow> nat \<Rightarrow> nat \<Rightarrow> nat \<Rightarrow> bytes \<Rightarrow> bytes" where
  "fl_shadow_build_rows_q4k_smmla packed rows cols out =
    (let nsb = cols div 256; prb = nsb * 144; pairb = nsb * 560
     in for_loop 0 ((rows + 1) div 2) (\<lambda>rp. let pbase = out + rp * pairb in for_loop 0 nsb (\<lambda>sb m.
          let a = pbase + sb * 560; W = (\<lambda>h i. packed ((rp * 2 + h) * prb + sb * 144 + i));
              m = for_loop 0 2 (\<lambda>h. q4k_header (W h) (a + h * 24)) m;
              tmp = (\<lambda>h. q4k_nibbles (W h) 0 (\<lambda>_. 0))
          in for_loop 0 32 (\<lambda>c8 m. memcpy_to (memcpy_to m (a + 48 + c8 * 16) (\<lambda>i. tmp 0 (c8 * 8 + i)) 8)
               (a + 48 + c8 * 16 + 8) (\<lambda>i. tmp 1 (c8 * 8 + i)) 8) m)))"

definition fl_shadow_build_rows_q50 :: "bytes \<Rightarrow> nat \<Rightarrow> nat \<Rightarrow> nat \<Rightarrow> bytes \<Rightarrow> bytes" where
  "fl_shadow_build_rows_q50 packed rows cols out =
    (let nb = cols div 32; prb = nb * 22; srb = nb * 40
     in for_loop 0 rows (\<lambda>r. let srow = out + r * srb in for_loop 0 nb (\<lambda>b m.
          let W = (\<lambda>i. packed (r * prb + b * 22 + i)); a = srow + b * 40; qh = rd32 W 2;
              m = put_u32 m a (fl_half2float (rd16 W 0));
              m = for_loop 0 16 (\<lambda>j m.
                m(a + 4 + j := ucast ((ucast (W (6 + j) AND 0x0F) :: u32) OR (push_bit 4 (drop_bit j qh) AND 0x10)),
                  a + 4 + (16 + j) := ucast ((ucast (drop_bit 4 (W (6 + j))) :: u32) OR (drop_bit (j + 12) qh AND 0x10)))) m
          in memcpy_to m (a + 36) (\<lambda>_. 0) 4)))"

section \<open>Shadow kernels\<close>

definition shadow_chunk :: "(nat \<Rightarrow> int) \<Rightarrow> (nat \<Rightarrow> u8) \<Rightarrow> (nat \<Rightarrow> u8) \<Rightarrow> blk_q8_K \<Rightarrow> nat \<Rightarrow> int \<times> int \<Rightarrow> int \<times> int" where
  "shadow_chunk qs sc8 mn8 xk c = (\<lambda>(iacc, imins).
    let xs = (\<lambda>i. qK_qs xk ! i); bs = (\<lambda>g. qK_bsums xk ! g);
        ilo = vdot32 (vld1q qs (c * 64)) (vld1q xs (c * 64)) (vld1q qs (c * 64 + 16)) (vld1q xs (c * 64 + 16));
        ihi = vdot32 (vld1q qs (c * 64 + 32)) (vld1q xs (c * 64 + 32)) (vld1q qs (c * 64 + 48)) (vld1q xs (c * 64 + 48))
    in (iacc + (uint (sc8 (2 * c)) * ilo + uint (sc8 (2 * c + 1)) * ihi),
        imins + (uint (mn8 (2 * c)) * (bs (4 * c) + bs (4 * c + 1))
               + uint (mn8 (2 * c + 1)) * (bs (4 * c + 2) + bs (4 * c + 3)))))"

definition dot_i8k_q4_K_shadow :: "bytes \<Rightarrow> q8K_vec \<Rightarrow> nat \<Rightarrow> f32" where
  "dot_i8k_q4_K_shadow srow xk cols =
    fl_fold4 (for_loop 0 (cols div 256) (\<lambda>sb a4.
      let b = (\<lambda>i. srow (sb * 280 + i)); d = rd32 b 0; dmin = rd32 b 4;
          sc8 = (\<lambda>i. b (8 + i)); mn8 = (\<lambda>i. b (16 + i)); qs = (\<lambda>i. sint (b (24 + i)));
          (iacc, imins) = for_loop 0 4 (shadow_chunk qs sc8 mn8 (xk sb)) (0, 0);
          dk = qK_d (xk sb); a4 = fma4 sb (f32_mul d dk) (f32_of_int iacc) a4
      in fma4 sb (f32_neg (f32_mul dmin dk)) (f32_of_int imins) a4) acc4)"

text \<open>One group of 32 elements of a row pair: lanes 0 and 2 of the tile are the two rows.\<close>

definition pair_group :: "bytes \<Rightarrow> blk_q8_K \<Rightarrow> nat \<Rightarrow> (int \<times> int) \<times> (int \<times> int) \<Rightarrow> (int \<times> int) \<times> (int \<times> int)" where
  "pair_group b xk g = (\<lambda>((iacc0, imins0), (iacc1, imins1)).
    let qi = (\<lambda>i. sint (b (48 + i))); xs = (\<lambda>i. qK_qs xk ! i);
        acc = for_loop 0 4 (\<lambda>c8 acc. let x = vld1q xs (g * 32 + c8 * 8)
          in vmmlaq acc (vld1q qi ((g * 4 + c8) * 16)) (vcombine x x)) (vdupq 0);
        bs = qK_bsums xk ! (2 * g) + qK_bsums xk ! (2 * g + 1)
    in ((iacc0 + uint (b (8 + g)) * acc 0, imins0 + uint (b (16 + g)) * bs),
        (iacc1 + uint (b (32 + g)) * acc 2, imins1 + uint (b (40 + g)) * bs)))"

definition dot2_i8k_q4_K_shadow_smmla :: "bytes \<Rightarrow> q8K_vec \<Rightarrow> nat \<Rightarrow> f32 \<times> f32" where
  "dot2_i8k_q4_K_shadow_smmla pbase xk cols =
    (let (a0, a1) = for_loop 0 (cols div 256) (\<lambda>sb (a0, a1).
       let b = (\<lambda>i. pbase (sb * 560 + i));
           ((iacc0, imins0), (iacc1, imins1)) = for_loop 0 8 (pair_group b (xk sb)) ((0, 0), (0, 0));
           dk = qK_d (xk sb);
           a0 = fma4 sb (f32_mul (rd32 b 0) dk) (f32_of_int iacc0) a0;
           a0 = fma4 sb (f32_neg (f32_mul (rd32 b 4) dk)) (f32_of_int imins0) a0;
           a1 = fma4 sb (f32_mul (rd32 b 24) dk) (f32_of_int iacc1) a1;
           a1 = fma4 sb (f32_neg (f32_mul (rd32 b 28) dk)) (f32_of_int imins1) a1
       in (a0, a1)) (acc4, acc4)
     in (fl_fold4 a0, fl_fold4 a1))"

definition dot_i8_q5_0_shadow :: "bytes \<Rightarrow> q81_vec \<Rightarrow> nat \<Rightarrow> f32" where
  "dot_i8_q5_0_shadow srow xq cols =
    fl_fold4 (for_loop 0 (cols div 32) (\<lambda>b a4.
      let o' = (\<lambda>i. srow (b * 40 + i)); w = (\<lambda>i. sint (o' (4 + i))); x = (\<lambda>i. q1_qs (xq b) ! i); ones = vdupq 1;
          idot = vdot32 (vld1q w 0) (vld1q x 0) (vld1q w 16) (vld1q x 16);
          isum = vdot32 ones (vld1q x 0) ones (vld1q x 16)
      in fma4 b (f32_mul (rd32 o' 0) (fl_half2float (q1_d (xq b)))) (f32_of_int (idot - 16 * isum)) a4) acc4)"

section \<open>What the builders write\<close>

definition f32_byte :: "f32 \<Rightarrow> nat \<Rightarrow> u8" where "f32_byte v i = ucast (drop_bit (8 * i) v)"

lemma rd32_bytes: "(\<And>i. i < 4 \<Longrightarrow> b (a + i) = f32_byte v i) \<Longrightarrow> rd32 b a = v"
proof -
  assume b: "\<And>i. i < 4 \<Longrightarrow> b (a + i) = f32_byte v i"
  have "rd32 b a = (ucast (ucast v :: u8) :: u32) OR push_bit 8 (ucast (ucast (drop_bit 8 v) :: u8))
      OR push_bit 16 (ucast (ucast (drop_bit 16 v) :: u8)) OR push_bit 24 (ucast (ucast (drop_bit 24 v) :: u8))"
    using b [of 0] b [of 1] b [of 2] b [of 3] by (simp add: rd32_def f32_byte_def)
  also have "\<dots> = v"
  proof (rule bit_eqI)
    fix n assume "possible_bit TYPE(f32) n"
    then have n: "n < 32" by simp
    then consider "n < 8" | "8 \<le> n" "n < 16" | "16 \<le> n" "n < 24" | "24 \<le> n" by linarith
    then show "bit ((ucast (ucast v :: u8) :: u32) OR push_bit 8 (ucast (ucast (drop_bit 8 v) :: u8))
      OR push_bit 16 (ucast (ucast (drop_bit 16 v) :: u8)) OR push_bit 24 (ucast (ucast (drop_bit 24 v) :: u8))) n = bit v n"
      by cases (use n in \<open>auto simp: bit_or_iff bit_push_bit_iff bit_ucast_iff bit_drop_bit_eq\<close>)
  qed
  finally show ?thesis .
qed

lemma put_u32_at: "i < 4 \<Longrightarrow> put_u32 m a v (a + i) = f32_byte v i"
  by (simp add: put_u32_def memcpy_to_def f32_byte_def)

lemma put_u32_other: "b < a \<or> a + 4 \<le> b \<Longrightarrow> put_u32 m a v b = m b"
  by (auto simp: put_u32_def memcpy_to_def)

lemma put_list_at: "i < length xs \<Longrightarrow> put_list m a xs (a + i) = xs ! i"
  by (simp add: put_list_def memcpy_to_def)

lemma put_list_other: "b < a \<or> a + length xs \<le> b \<Longrightarrow> put_list m a xs b = m b"
  by (auto simp: put_list_def memcpy_to_def)

text \<open>The 24 header bytes and the 256 nibble bytes of a block.\<close>

definition q4k_head_byte :: "bytes \<Rightarrow> nat \<Rightarrow> u8" where
  "q4k_head_byte W k =
    (if k < 4 then f32_byte (fl_half2float (rd16 W 0)) k
     else if k < 8 then f32_byte (fl_half2float (rd16 W 2)) (k - 4)
     else if k < 16 then fst (fl_q4k_scales_all (\<lambda>i. W (4 + i))) ! (k - 8)
     else snd (fl_q4k_scales_all (\<lambda>i. W (4 + i))) ! (k - 16))"

definition q4k_nib :: "bytes \<Rightarrow> nat \<Rightarrow> u8" where
  "q4k_nib W e = (let c = e div 64; k = e mod 64
     in if k < 32 then W (16 + 32 * c + k) AND 0x0F else drop_bit 4 (W (16 + 32 * c + (k - 32))))"

lemma scales_all_length: "length (fst (fl_q4k_scales_all S)) = 8" "length (snd (fl_q4k_scales_all S)) = 8"
  by (simp_all add: q4k_scales_all_eq)

lemma q4k_header_at: "k < 24 \<Longrightarrow> q4k_header W a m (a + k) = q4k_head_byte W k"
  by (simp add: q4k_header_def put_list_def put_u32_def memcpy_to_def q4k_head_byte_def f32_byte_def Let_def
    case_prod_beta scales_all_length)

lemma q4k_header_other: "b < a \<or> a + 24 \<le> b \<Longrightarrow> q4k_header W a m b = m b"
  by (auto simp: q4k_header_def put_list_def put_u32_def memcpy_to_def Let_def case_prod_beta scales_all_length)

lemma q4k_nib_loop:
  "n \<le> 32 \<Longrightarrow> for_loop 0 n (\<lambda>i m. m(a + i := f i, a + 32 + i := g i)) m =
    (\<lambda>b. if a \<le> b \<and> b < a + n then f (b - a) else if a + 32 \<le> b \<and> b < a + 32 + n then g (b - a - 32) else m b)"
proof (induction n)
  case (Suc n)
  then show ?case by (auto simp: for_loop_last fun_eq_iff)
qed (auto simp: fun_eq_iff)

lemma q4k_nibbles_writer:
  "block_writer 4 a 64 64 (\<lambda>c. for_loop 0 32 (\<lambda>i m.
      m(a + c * 64 + i := W (16 + 32 * c + i) AND 0x0F, a + c * 64 + 32 + i := drop_bit 4 (W (16 + 32 * c + i)))))
    (\<lambda>c k. if k < 32 then W (16 + 32 * c + k) AND 0x0F else drop_bit 4 (W (16 + 32 * c + (k - 32))))"
  unfolding block_writer_def q4k_nib_loop [OF order_refl]
  by (auto simp: not_less)

lemma q4k_nibbles_at: "e < 256 \<Longrightarrow> q4k_nibbles W a m (a + e) = q4k_nib W e"
  using block_writer_own [OF q4k_nibbles_writer, of "e div 64" "e mod 64" a W m]
  by (simp add: q4k_nibbles_def q4k_nib_def Let_def add.assoc)

lemma q4k_nibbles_other: "b < a \<or> a + 256 \<le> b \<Longrightarrow> q4k_nibbles W a m b = m b"
  unfolding q4k_nibbles_def by (rule block_writer_other [OF q4k_nibbles_writer]) simp

text \<open>A plain shadow block of 280 bytes, and the writers of a row of them and of all rows.\<close>

definition q4k_shadow_byte :: "bytes \<Rightarrow> nat \<Rightarrow> u8" where
  "q4k_shadow_byte W k = (if k < 24 then q4k_head_byte W k else q4k_nib W (k - 24))"

lemma q4k_block_at: "k < 280 \<Longrightarrow> q4k_nibbles W (a + 24) (q4k_header W a m) (a + k) = q4k_shadow_byte W k"
  using q4k_nibbles_at [of "k - 24" W "a + 24" "q4k_header W a m"]
  by (auto simp: q4k_shadow_byte_def q4k_nibbles_other q4k_header_at not_less)

lemma q4k_block_other: "b < a \<or> a + 280 \<le> b \<Longrightarrow> q4k_nibbles W (a + 24) (q4k_header W a m) b = m b"
  by (auto simp: q4k_nibbles_other q4k_header_other)

lemma q4k_row_writer:
  "block_writer nsb base 280 280 (\<lambda>sb m. q4k_nibbles (W sb) (base + sb * 280 + 24) (q4k_header (W sb) (base + sb * 280) m))
     (\<lambda>sb. q4k_shadow_byte (W sb))"
  unfolding block_writer_def by (simp add: q4k_block_at q4k_block_other)

definition shadow_row_q4k :: "bytes \<Rightarrow> nat \<Rightarrow> nat \<Rightarrow> u8" where
  "shadow_row_q4k row cols k = q4k_shadow_byte (\<lambda>i. row (k div 280 * 144 + i)) (k mod 280)"

lemma build_rows_q4k_writer:
  fixes cols :: nat
  defines "nsb \<equiv> cols div 256"
  shows "block_writer rows out (nsb * 280) (nsb * 280)
    (\<lambda>r. for_loop 0 nsb (\<lambda>sb m. let W = (\<lambda>i. packed (r * (nsb * 144) + sb * 144 + i)); a = out + r * (nsb * 280) + sb * 280
       in q4k_nibbles W (a + 24) (q4k_header W a m)))
    (\<lambda>r. shadow_row_q4k (\<lambda>i. packed (r * (nsb * 144) + i)) cols)"
  unfolding shadow_row_q4k_def [abs_def] Let_def
  using block_writer_nest [of rows nsb out "nsb * 280" 280, OF q4k_row_writer le_refl,
      of "\<lambda>r sb i. packed (r * (nsb * 144) + sb * 144 + i)"]
  by (simp only: add.assoc)

lemma build_rows_q4k_at:
  assumes "r < rows" "k < cols div 256 * 280"
  shows "fl_shadow_build_rows_q4k packed rows cols out m (out + r * (cols div 256 * 280) + k)
    = shadow_row_q4k (\<lambda>i. packed (r * (cols div 256 * 144) + i)) cols k"
  using block_writer_own [OF build_rows_q4k_writer assms]
  by (simp only: fl_shadow_build_rows_q4k_def Let_def)

lemma build_rows_q4k_other:
  assumes "a < out \<or> out + rows * (cols div 256 * 280) \<le> a"
  shows "fl_shadow_build_rows_q4k packed rows cols out m a = m a"
  using block_writer_other [OF build_rows_q4k_writer assms]
  by (simp only: fl_shadow_build_rows_q4k_def Let_def)

section \<open>The plain kernel\<close>

lemma vdot32_loads:
  "vdot32 (vld1q w a) (vld1q x b) (vld1q w (a + 16)) (vld1q x (b + 16)) = (\<Sum>i<32. w (a + i) * x (b + i))"
  using vdot32_sum [of "\<lambda>i. w (a + i)" x b] by (simp add: vld1q_def add.assoc)

lemma q4k_nib_sint:
  "i < 32 \<Longrightarrow> sint (q4k_nib W (c * 64 + i)) = q4_bits W (2 * c) i"
  "i < 32 \<Longrightarrow> sint (q4k_nib W (c * 64 + 32 + i)) = q4_bits W (2 * c + 1) i"
  by (simp_all add: q4k_nib_def q4_bits_def nibble_sint Let_def mult.commute add.assoc)

text \<open>The fields of a shadow block.\<close>

definition q4k_block_of :: "bytes \<Rightarrow> bytes \<Rightarrow> bool" where
  "q4k_block_of b W \<longleftrightarrow> (\<forall>k < 280. b k = q4k_shadow_byte W k)"

lemma q4k_block_fields:
  assumes "q4k_block_of b W"
  shows "rd32 b 0 = fl_half2float (rd16 W 0)" "rd32 b 4 = fl_half2float (rd16 W 2)"
    "g < 8 \<Longrightarrow> b (8 + g) = fst (fl_q4k_scales_all (\<lambda>i. W (4 + i))) ! g"
    "g < 8 \<Longrightarrow> b (16 + g) = snd (fl_q4k_scales_all (\<lambda>i. W (4 + i))) ! g"
    "e < 256 \<Longrightarrow> b (24 + e) = q4k_nib W e"
  using assms unfolding q4k_block_of_def
  by (auto intro!: rd32_bytes simp: q4k_shadow_byte_def q4k_head_byte_def)

lemma shadow_chunk_eq:
  assumes b: "q4k_block_of b W" and c: "c < 4"
  shows "shadow_chunk (\<lambda>i. sint (b (24 + i))) (\<lambda>i. b (8 + i)) (\<lambda>i. b (16 + i)) xk c s
    = q4k_chunk W xk (fst (fl_q4k_scales_all (\<lambda>i. W (4 + i)))) (snd (fl_q4k_scales_all (\<lambda>i. W (4 + i)))) c s"
proof -
  let ?qs = "\<lambda>i. sint (b (24 + i))"
  have lo: "?qs (c * 64 + i) = q4_bits W (2 * c) i" and hi: "?qs (c * 64 + 32 + i) = q4_bits W (2 * c + 1) i" if "i < 32" for i
    using q4k_block_fields(5) [OF b, of "c * 64 + i"] q4k_block_fields(5) [OF b, of "c * 64 + 32 + i"] q4k_nib_sint [OF that] c that
    by simp_all
  have "vdot32 (vld1q ?qs (c * 64)) (vld1q x (c * 64)) (vld1q ?qs (c * 64 + 16)) (vld1q x (c * 64 + 16))
      = q4_idot W (\<lambda>e. x (c * 64 + e)) (2 * c)" for x
    unfolding vdot32_loads q4_idot_sum by (rule sum.cong) (simp_all add: lo)
  moreover have e: "c * 64 + 48 = c * 64 + 32 + 16" by simp
  have "vdot32 (vld1q ?qs (c * 64 + 32)) (vld1q x (c * 64 + 32)) (vld1q ?qs (c * 64 + 48)) (vld1q x (c * 64 + 48))
      = q4_idot W (\<lambda>e. x (c * 64 + 32 + e)) (2 * c + 1)" for x
    unfolding e vdot32_loads q4_idot_sum by (rule sum.cong) (simp_all only: hi lessThan_iff refl)
  moreover have "2 * c < 8" "2 * c + 1 < 8" using c by simp_all
  note sc = q4k_block_fields(3,4) [OF b this(1)] q4k_block_fields(3,4) [OF b this(2)]
  ultimately show ?thesis unfolding q4k_chunk_idot shadow_chunk_def Let_def by (simp only: sc)
qed

lemma shadow_row_block:
  assumes "\<And>k. k < cols div 256 * 280 \<Longrightarrow> srow k = shadow_row_q4k row cols k" "sb < cols div 256"
  shows "q4k_block_of (\<lambda>i. srow (sb * 280 + i)) (\<lambda>i. row (sb * 144 + i))"
  unfolding q4k_block_of_def
proof (intro allI impI)
  fix k :: nat assume k: "k < 280"
  then have "sb * 280 + k < cols div 256 * 280" using block_before [OF assms(2), of 280] by linarith
  then show "srow (sb * 280 + k) = q4k_shadow_byte (\<lambda>i. row (sb * 144 + i)) k"
    using k assms(1) by (simp add: shadow_row_q4k_def)
qed

lemma q4_K_shadow:
  assumes "\<And>k. k < cols div 256 * 280 \<Longrightarrow> srow k = shadow_row_q4k row cols k"
  shows "dot_i8k_q4_K_shadow srow xk cols = dot_i8k_q4_K_neon row xk cols"
  unfolding dot_i8k_q4_K_shadow_def dot_i8k_q4_K_neon_def
proof (intro arg_cong [where f = fl_fold4] for_loop_cong)
  fix sb a4 assume "sb < cols div 256"
  from shadow_row_block [OF assms this] have b: "q4k_block_of (\<lambda>i. srow (sb * 280 + i)) (\<lambda>i. row (sb * 144 + i))" .
  have "for_loop 0 4 (shadow_chunk (\<lambda>i. sint (srow (sb * 280 + (24 + i)))) (\<lambda>i. srow (sb * 280 + (8 + i))) (\<lambda>i. srow (sb * 280 + (16 + i))) (xk sb)) (0, 0)
    = for_loop 0 4 (q4k_chunk (\<lambda>i. row (sb * 144 + i)) (xk sb) (fst (fl_q4k_scales_all (\<lambda>i. row (sb * 144 + (4 + i)))))
        (snd (fl_q4k_scales_all (\<lambda>i. row (sb * 144 + (4 + i)))))) (0, 0)"
    by (rule for_loop_cong) (rule shadow_chunk_eq [OF b])
  then show "(let b = (\<lambda>i. srow (sb * 280 + i)); d = rd32 b 0; dmin = rd32 b 4;
          sc8 = (\<lambda>i. b (8 + i)); mn8 = (\<lambda>i. b (16 + i)); qs = (\<lambda>i. sint (b (24 + i)));
          (iacc, imins) = for_loop 0 4 (shadow_chunk qs sc8 mn8 (xk sb)) (0, 0);
          dk = qK_d (xk sb); a4 = fma4 sb (f32_mul d dk) (f32_of_int iacc) a4
      in fma4 sb (f32_neg (f32_mul dmin dk)) (f32_of_int imins) a4) =
     (let W = (\<lambda>i. row (sb * 144 + i)); d = fl_half2float (rd16 W 0); dmin = fl_half2float (rd16 W 2);
          dk = qK_d (xk sb); (sc8, mn8) = fl_q4k_scales_all (\<lambda>i. W (4 + i));
          (iacc, imins) = for_loop 0 4 (q4k_chunk W (xk sb) sc8 mn8) (0, 0);
          a4 = fma4 sb (f32_mul d dk) (f32_of_int iacc) a4
      in fma4 sb (f32_neg (f32_mul dmin dk)) (f32_of_int imins) a4)"
    by (simp only: Let_def case_prod_beta q4k_block_fields(1,2) [OF b])
qed

section \<open>The row-pair layout\<close>

definition q4k_pair_byte :: "bytes \<Rightarrow> bytes \<Rightarrow> nat \<Rightarrow> u8" where
  "q4k_pair_byte W0 W1 k =
    (if k < 24 then q4k_head_byte W0 k else if k < 48 then q4k_head_byte W1 (k - 24)
     else let e = k - 48; c8 = e div 16; i = e mod 16
          in if i < 8 then q4k_nib W0 (c8 * 8 + i) else q4k_nib W1 (c8 * 8 + (i - 8)))"

definition pair_body :: "(nat \<Rightarrow> bytes) \<Rightarrow> nat \<Rightarrow> nat \<Rightarrow> bytes \<Rightarrow> bytes" where
  "pair_body W a = (\<lambda>c8 m. memcpy_to (memcpy_to m (a + c8 * 16) (\<lambda>i. q4k_nibbles (W 0) 0 (\<lambda>_. 0) (c8 * 8 + i)) 8)
     (a + c8 * 16 + 8) (\<lambda>i. q4k_nibbles (W 1) 0 (\<lambda>_. 0) (c8 * 8 + i)) 8)"

lemma pair_body_writer:
  "block_writer 32 a 16 16 (pair_body W a)
     (\<lambda>c8 i. if i < 8 then q4k_nib (W 0) (c8 * 8 + i) else q4k_nib (W 1) (c8 * 8 + (i - 8)))"
  unfolding block_writer_def
proof (intro conjI allI impI, rule order_refl)
  fix c8 m b assume "b < a + c8 * 16 \<or> a + c8 * 16 + 16 \<le> b"
  then show "pair_body W a c8 m b = m b" by (auto simp: pair_body_def memcpy_to_def)
next
  fix c8 i :: nat and m assume c8: "c8 < 32" and i: "i < 16"
  have "e < 256 \<Longrightarrow> q4k_nibbles (W h) 0 (\<lambda>_. 0) e = q4k_nib (W h) e" for h e
    using q4k_nibbles_at [of e "W h" 0] by simp
  then show "pair_body W a c8 m (a + c8 * 16 + i) = (if i < 8 then q4k_nib (W 0) (c8 * 8 + i) else q4k_nib (W 1) (c8 * 8 + (i - 8)))"
    using c8 i by (simp add: pair_body_def memcpy_to_def)
qed

definition pair_block :: "(nat \<Rightarrow> bytes) \<Rightarrow> nat \<Rightarrow> bytes \<Rightarrow> bytes" where
  "pair_block W a m = for_loop 0 32 (pair_body W (a + 48)) (for_loop 0 2 (\<lambda>h. q4k_header (W h) (a + h * 24)) m)"

lemma pair_block_at:
  assumes "k < 560"
  shows "pair_block W a m (a + k) = q4k_pair_byte (W 0) (W 1) k"
proof -
  consider "k < 24" | "24 \<le> k" "k < 48" | "48 \<le> k" by linarith
  then show ?thesis
  proof cases
    case 3
    then have e: "(k - 48) div 16 < 32" "(k - 48) mod 16 < 16" using assms by (simp_all add: less_mult_imp_div_less)
    have k: "a + 48 + (k - 48) div 16 * 16 + (k - 48) mod 16 = a + k" using 3 by (simp add: add.assoc)
    show ?thesis
      using block_writer_own [OF pair_body_writer [where W = W and a = "a + 48"] e, unfolded k] 3
      by (simp add: pair_block_def q4k_pair_byte_def Let_def)
  next
    case 2
    then have "q4k_header (W 1) (a + 24) (q4k_header (W 0) a m) (a + k) = q4k_head_byte (W 1) (k - 24)"
      using q4k_header_at [of "k - 24" "W 1" "a + 24"] by simp
    then show ?thesis
      using 2 by (simp add: pair_block_def q4k_pair_byte_def for_loop_two block_writer_other [OF pair_body_writer])
  qed (simp add: pair_block_def q4k_pair_byte_def for_loop_two q4k_header_at q4k_header_other block_writer_other [OF pair_body_writer])
qed

lemma pair_block_other: "b < a \<or> a + 560 \<le> b \<Longrightarrow> pair_block W a m b = m b"
  by (auto simp: pair_block_def for_loop_two q4k_header_other block_writer_other [OF pair_body_writer])

definition shadow_pair_q4k :: "bytes \<Rightarrow> bytes \<Rightarrow> nat \<Rightarrow> u8" where
  "shadow_pair_q4k row0 row1 k =
    q4k_pair_byte (\<lambda>i. row0 (k div 560 * 144 + i)) (\<lambda>i. row1 (k div 560 * 144 + i)) (k mod 560)"

lemma build_rows_smmla_writer:
  fixes cols :: nat
  defines "nsb \<equiv> cols div 256"
  shows "block_writer n out (nsb * 560) (nsb * 560)
    (\<lambda>rp. for_loop 0 nsb (\<lambda>sb. pair_block (\<lambda>h i. packed ((rp * 2 + h) * (nsb * 144) + sb * 144 + i))
       (out + rp * (nsb * 560) + sb * 560)))
    (\<lambda>rp. shadow_pair_q4k (\<lambda>i. packed ((rp * 2) * (nsb * 144) + i)) (\<lambda>i. packed ((rp * 2 + 1) * (nsb * 144) + i)))"
proof -
  have "block_writer nsb base 560 560 (\<lambda>sb. pair_block (W sb) (base + sb * 560)) (\<lambda>sb. q4k_pair_byte (W sb 0) (W sb 1))" for base W
    unfolding block_writer_def by (simp add: pair_block_at pair_block_other)
  from block_writer_nest [of n nsb out "nsb * 560" 560, OF this le_refl,
      of "\<lambda>rp sb h i. packed ((rp * 2 + h) * (nsb * 144) + sb * 144 + i)"]
  show ?thesis unfolding shadow_pair_q4k_def [abs_def] by (simp only: add.assoc add_0_right)
qed

lemma build_rows_smmla_unfold:
  "fl_shadow_build_rows_q4k_smmla packed rows cols out =
    for_loop 0 ((rows + 1) div 2) (\<lambda>rp. for_loop 0 (cols div 256)
      (\<lambda>sb. pair_block (\<lambda>h i. packed ((rp * 2 + h) * (cols div 256 * 144) + sb * 144 + i))
        (out + rp * (cols div 256 * 560) + sb * 560)))"
  unfolding fl_shadow_build_rows_q4k_smmla_def pair_block_def [abs_def] pair_body_def Let_def ..

lemma build_rows_smmla_at:
  assumes "rp < (rows + 1) div 2" "k < cols div 256 * 560"
  shows "fl_shadow_build_rows_q4k_smmla packed rows cols out m (out + rp * (cols div 256 * 560) + k)
    = shadow_pair_q4k (\<lambda>i. packed ((rp * 2) * (cols div 256 * 144) + i)) (\<lambda>i. packed ((rp * 2 + 1) * (cols div 256 * 144) + i)) k"
  unfolding build_rows_smmla_unfold by (rule block_writer_own [OF build_rows_smmla_writer assms])

lemma build_rows_smmla_other:
  assumes "a < out \<or> out + (rows + 1) div 2 * (cols div 256 * 560) \<le> a"
  shows "fl_shadow_build_rows_q4k_smmla packed rows cols out m a = m a"
  unfolding build_rows_smmla_unfold by (rule block_writer_other [OF build_rows_smmla_writer assms])

lemma q4k_nib_group: "e < 32 \<Longrightarrow> sint (q4k_nib W (g * 32 + e)) = q4_bits W g e"
proof -
  assume e: "e < 32"
  consider c where "g = 2 * c" | c where "g = 2 * c + 1" by (metis evenE oddE)
  then show ?thesis
  proof cases
    case 1 then show ?thesis using q4k_nib_sint(1) [OF e, of W c] by (simp add: mult.commute mult.assoc)
  next
    case (2 c)
    then have "g * 32 + e = c * 64 + 32 + e" by simp
    then show ?thesis by (simp only: 2 q4k_nib_sint(2) [OF e])
  qed
qed

definition q4k_pair_of :: "bytes \<Rightarrow> bytes \<Rightarrow> bytes \<Rightarrow> bool" where
  "q4k_pair_of b W0 W1 \<longleftrightarrow> (\<forall>k < 560. b k = q4k_pair_byte W0 W1 k)"

lemma q4k_pair_byte_at:
  assumes "k < 8"
  shows "q4k_pair_byte W0 W1 (48 + (c * 16 + k)) = q4k_nib W0 (c * 8 + k)"
    "q4k_pair_byte W0 W1 (48 + (c * 16 + (8 + k))) = q4k_nib W1 (c * 8 + k)"
proof -
  have "(c * 16 + r) div 16 = c" "(c * 16 + r) mod 16 = r" if "r < 16" for r using that by simp_all
  from this [of k] this [of "8 + k"] show "q4k_pair_byte W0 W1 (48 + (c * 16 + k)) = q4k_nib W0 (c * 8 + k)"
    "q4k_pair_byte W0 W1 (48 + (c * 16 + (8 + k))) = q4k_nib W1 (c * 8 + k)"
    using assms by (simp_all only: q4k_pair_byte_def Let_def diff_add_inverse) simp_all
qed

lemma q4k_pair_fields:
  assumes "q4k_pair_of b W0 W1"
  shows "rd32 b 0 = fl_half2float (rd16 W0 0)" "rd32 b 4 = fl_half2float (rd16 W0 2)"
    "rd32 b 24 = fl_half2float (rd16 W1 0)" "rd32 b 28 = fl_half2float (rd16 W1 2)"
    "g < 8 \<Longrightarrow> b (8 + g) = fst (fl_q4k_scales_all (\<lambda>i. W0 (4 + i))) ! g"
    "g < 8 \<Longrightarrow> b (16 + g) = snd (fl_q4k_scales_all (\<lambda>i. W0 (4 + i))) ! g"
    "g < 8 \<Longrightarrow> b (32 + g) = fst (fl_q4k_scales_all (\<lambda>i. W1 (4 + i))) ! g"
    "g < 8 \<Longrightarrow> b (40 + g) = snd (fl_q4k_scales_all (\<lambda>i. W1 (4 + i))) ! g"
    "c < 32 \<Longrightarrow> k < 8 \<Longrightarrow> b (48 + (c * 16 + k)) = q4k_nib W0 (c * 8 + k)"
    "c < 32 \<Longrightarrow> k < 8 \<Longrightarrow> b (48 + (c * 16 + (8 + k))) = q4k_nib W1 (c * 8 + k)"
proof -
  have b: "b k = q4k_pair_byte W0 W1 k" if "k < 560" for k using assms that by (simp add: q4k_pair_of_def)
  show "rd32 b 0 = fl_half2float (rd16 W0 0)" "rd32 b 4 = fl_half2float (rd16 W0 2)"
    "rd32 b 24 = fl_half2float (rd16 W1 0)" "rd32 b 28 = fl_half2float (rd16 W1 2)"
    by (auto intro!: rd32_bytes simp: b q4k_pair_byte_def q4k_head_byte_def)
  show "g < 8 \<Longrightarrow> b (8 + g) = fst (fl_q4k_scales_all (\<lambda>i. W0 (4 + i))) ! g"
    "g < 8 \<Longrightarrow> b (16 + g) = snd (fl_q4k_scales_all (\<lambda>i. W0 (4 + i))) ! g"
    "g < 8 \<Longrightarrow> b (32 + g) = fst (fl_q4k_scales_all (\<lambda>i. W1 (4 + i))) ! g"
    "g < 8 \<Longrightarrow> b (40 + g) = snd (fl_q4k_scales_all (\<lambda>i. W1 (4 + i))) ! g"
    by (simp_all add: b q4k_pair_byte_def q4k_head_byte_def)
  show "c < 32 \<Longrightarrow> k < 8 \<Longrightarrow> b (48 + (c * 16 + k)) = q4k_nib W0 (c * 8 + k)"
    "c < 32 \<Longrightarrow> k < 8 \<Longrightarrow> b (48 + (c * 16 + (8 + k))) = q4k_nib W1 (c * 8 + k)"
    using q4k_pair_byte_at [of k W0 W1 c] by (simp_all add: b)
qed

text \<open>Four tiles against a duplicated column: lanes 0 and 2 hold the dots of the two rows.\<close>

lemma pair_tile_lane:
  fixes xs :: "nat \<Rightarrow> int"
  assumes b: "q4k_pair_of b W0 W1" and g: "g < 8"
  defines "acc \<equiv> for_loop 0 4 (\<lambda>c8 acc. let x = vld1q xs (g * 32 + c8 * 8)
          in vmmlaq acc (vld1q (\<lambda>i. sint (b (48 + i))) ((g * 4 + c8) * 16)) (vcombine x x)) (vdupq 0)"
  shows "acc 0 = q4_idot W0 (\<lambda>e. xs (g * 32 + e)) g" "acc 2 = q4_idot W1 (\<lambda>e. xs (g * 32 + e)) g"
proof -
  define t where "t i c8 = (\<Sum>k<8. sint (b (48 + ((g * 4 + c8) * 16 + (8 * i + k)))) * xs (g * 32 + (c8 * 8 + k)))" for i c8
  have vc: "k < 8 \<Longrightarrow> vcombine x y (8 * 0 + k) = x k" for x y :: s8x16 and k by (simp add: vcombine_def)
  have acc: "acc (2 * i + 0) = t i 0 + t i 1 + t i 2 + t i 3" if "i < 2" for i
    unfolding acc_def for_loop_four Let_def vmmlaq_lane [OF that zero_less_numeral] t_def
    by (simp add: vc [simplified] vdupq_def vld1q_def add.assoc)
  have t: "t 0 c8 = (\<Sum>k<8. q4_bits W0 g (c8 * 8 + k) * xs (g * 32 + (c8 * 8 + k)))"
    "t 1 c8 = (\<Sum>k<8. q4_bits W1 g (c8 * 8 + k) * xs (g * 32 + (c8 * 8 + k)))" if "c8 < 4" for c8
  proof -
    have c: "g * 4 + c8 < 32" using g that by linarith
    have "sint (b (48 + ((g * 4 + c8) * 16 + k))) = q4_bits W0 g (c8 * 8 + k)"
      "sint (b (48 + ((g * 4 + c8) * 16 + (8 + k)))) = q4_bits W1 g (c8 * 8 + k)" if k: "k < 8" for k
    proof -
      have e: "(g * 4 + c8) * 8 + k = g * 32 + (c8 * 8 + k)" by simp
      have "c8 * 8 + k < 32" using \<open>c8 < 4\<close> k by linarith
      note n = q4k_nib_group [OF this]
      show "sint (b (48 + ((g * 4 + c8) * 16 + k))) = q4_bits W0 g (c8 * 8 + k)"
        unfolding q4k_pair_fields(9) [OF b c k] e by (rule n)
      show "sint (b (48 + ((g * 4 + c8) * 16 + (8 + k)))) = q4_bits W1 g (c8 * 8 + k)"
        unfolding q4k_pair_fields(10) [OF b c k] e by (rule n)
    qed
    then show "t 0 c8 = (\<Sum>k<8. q4_bits W0 g (c8 * 8 + k) * xs (g * 32 + (c8 * 8 + k)))"
      "t 1 c8 = (\<Sum>k<8. q4_bits W1 g (c8 * 8 + k) * xs (g * 32 + (c8 * 8 + k)))"
      unfolding t_def mult_0_right add_0 mult_1_right by (intro sum.cong refl; simp only: lessThan_iff)+
  qed
  show "acc 0 = q4_idot W0 (\<lambda>e. xs (g * 32 + e)) g"
    using acc [of 0] unfolding q4_idot_sum sum32_by8 by (simp add: t)
  show "acc 2 = q4_idot W1 (\<lambda>e. xs (g * 32 + e)) g"
    using acc [of 1] t(2) [of 0] t(2) [of 1] t(2) [of 2] t(2) [of 3] unfolding q4_idot_sum sum32_by8 by simp
qed

lemma shadow_pair_block:
  assumes "\<And>k. k < cols div 256 * 560 \<Longrightarrow> pbase k = shadow_pair_q4k row0 row1 k" "sb < cols div 256"
  shows "q4k_pair_of (\<lambda>i. pbase (sb * 560 + i)) (\<lambda>i. row0 (sb * 144 + i)) (\<lambda>i. row1 (sb * 144 + i))"
  unfolding q4k_pair_of_def
proof (intro allI impI)
  fix k :: nat assume k: "k < 560"
  then have "sb * 560 + k < cols div 256 * 560" using block_before [OF assms(2), of 560] by linarith
  then show "pbase (sb * 560 + k) = q4k_pair_byte (\<lambda>i. row0 (sb * 144 + i)) (\<lambda>i. row1 (sb * 144 + i)) k"
    using k assms(1) by (simp add: shadow_pair_q4k_def)
qed

lemma pair_groups:
  assumes b: "q4k_pair_of b W0 W1"
  shows "for_loop 0 8 (pair_group b xk) ((0, 0), (0, 0)) = (q4k_iacc W0 xk 8, q4k_iacc W1 xk 8)"
proof -
  define body where "body W = (\<lambda>g (iacc :: int, imins :: int).
      let (sc, mn) = fl_q4k_scale_min g (\<lambda>i. W (4 + i));
          idot = q4_idot W (\<lambda>i. qK_qs xk ! (g * 32 + i)) g
      in (iacc + uint sc * idot, imins + uint mn * (qK_bsums xk ! (2 * g) + qK_bsums xk ! (2 * g + 1))))" for W :: bytes
  have "for_loop 0 8 (pair_group b xk) ((0, 0), (0, 0)) = for_loop 0 8 (\<lambda>g (x, y). (body W0 g x, body W1 g y)) ((0, 0), (0, 0))"
  proof (rule for_loop_cong)
    fix g :: nat and s :: "(int \<times> int) \<times> (int \<times> int)" assume g: "g < 8"
    obtain i0 m0 i1 m1 where s: "s = ((i0, m0), (i1, m1))" by (metis surj_pair)
    show "pair_group b xk g s = (\<lambda>(x, y). (body W0 g x, body W1 g y)) s"
      using pair_tile_lane [OF b g, of "\<lambda>i. qK_qs xk ! i"] q4k_pair_fields(5-8) [OF b g]
        q4k_scales_nth [OF g, of "\<lambda>i. W0 (4 + i)"] q4k_scales_nth [OF g, of "\<lambda>i. W1 (4 + i)"]
      by (simp add: s pair_group_def body_def Let_def)
  qed
  then show ?thesis by (simp add: loop_both q4k_iacc_def body_def)
qed

text \<open>The kernel over a row pair gives the reference dot of each of the two rows.\<close>

lemma q4_K_shadow_pair:
  assumes "\<And>k. k < cols div 256 * 560 \<Longrightarrow> pbase k = shadow_pair_q4k row0 row1 k"
  shows "dot2_i8k_q4_K_shadow_smmla pbase xk cols = (fl_dot_i8k_q4_K row0 xk cols, fl_dot_i8k_q4_K row1 xk cols)"
proof -
  define step where "step row sb a4 =
    (let W = (\<lambda>i. row (sb * 144 + i)); d = fl_half2float (rd16 W 0); dmin = fl_half2float (rd16 W 2);
          dk = qK_d (xk sb); (iacc, imins) = q4k_iacc W (xk sb) 8;
          a4 = fma4 sb (f32_mul d dk) (f32_of_int iacc) a4
      in fma4 sb (f32_neg (f32_mul dmin dk)) (f32_of_int imins) a4)" for row :: bytes and sb a4
  have "for_loop 0 (cols div 256) (\<lambda>sb (a0, a1).
       let b = (\<lambda>i. pbase (sb * 560 + i));
           ((iacc0, imins0), (iacc1, imins1)) = for_loop 0 8 (pair_group b (xk sb)) ((0, 0), (0, 0));
           dk = qK_d (xk sb);
           a0 = fma4 sb (f32_mul (rd32 b 0) dk) (f32_of_int iacc0) a0;
           a0 = fma4 sb (f32_neg (f32_mul (rd32 b 4) dk)) (f32_of_int imins0) a0;
           a1 = fma4 sb (f32_mul (rd32 b 24) dk) (f32_of_int iacc1) a1;
           a1 = fma4 sb (f32_neg (f32_mul (rd32 b 28) dk)) (f32_of_int imins1) a1
       in (a0, a1)) (acc4, acc4) = for_loop 0 (cols div 256) (\<lambda>sb (x, y). (step row0 sb x, step row1 sb y)) (acc4, acc4)"
    (is "for_loop 0 _ ?f _ = _")
  proof (rule for_loop_cong)
    fix sb s assume "sb < cols div 256"
    from shadow_pair_block [OF assms this] have b: "q4k_pair_of (\<lambda>i. pbase (sb * 560 + i))
      (\<lambda>i. row0 (sb * 144 + i)) (\<lambda>i. row1 (sb * 144 + i))" .
    show "?f sb s = (\<lambda>(x, y). (step row0 sb x, step row1 sb y)) s"
      by (cases s) (simp add: pair_groups [OF b] q4k_pair_fields(1-4) [OF b] step_def Let_def case_prod_beta)
  qed
  then show ?thesis
    unfolding dot2_i8k_q4_K_shadow_smmla_def loop_both fl_dot_i8k_q4_K_def step_def by simp
qed

section \<open>Q5\_0\<close>

definition q5_shadow_byte :: "bytes \<Rightarrow> nat \<Rightarrow> u8" where
  "q5_shadow_byte W k =
    (if k < 4 then f32_byte (fl_half2float (rd16 W 0)) k
     else if k < 20 then let j = k - 4 in ucast ((ucast (W (6 + j) AND 0x0F) :: u32) OR (push_bit 4 (drop_bit j (rd32 W 2)) AND 0x10))
     else if k < 36 then let j = k - 20 in ucast ((ucast (drop_bit 4 (W (6 + j))) :: u32) OR (drop_bit (j + 12) (rd32 W 2) AND 0x10))
     else 0)"

definition q5_block :: "bytes \<Rightarrow> nat \<Rightarrow> bytes \<Rightarrow> bytes" where
  "q5_block W a m =
    (let qh = rd32 W 2; m = put_u32 m a (fl_half2float (rd16 W 0));
         m = for_loop 0 16 (\<lambda>j m.
           m(a + 4 + j := ucast ((ucast (W (6 + j) AND 0x0F) :: u32) OR (push_bit 4 (drop_bit j qh) AND 0x10)),
             a + 4 + (16 + j) := ucast ((ucast (drop_bit 4 (W (6 + j))) :: u32) OR (drop_bit (j + 12) qh AND 0x10)))) m
     in memcpy_to m (a + 36) (\<lambda>_. 0) 4)"

lemma q5_loop:
  "n \<le> 16 \<Longrightarrow> for_loop 0 n (\<lambda>j m. m(a + j := f j, a + (16 + j) := g j)) m =
    (\<lambda>b. if a \<le> b \<and> b < a + n then f (b - a) else if a + 16 \<le> b \<and> b < a + 16 + n then g (b - a - 16) else m b)"
proof (induction n)
  case (Suc n)
  then show ?case by (auto simp: for_loop_last fun_eq_iff)
qed (auto simp: fun_eq_iff)

lemma q5_block_at: "k < 40 \<Longrightarrow> q5_block W a m (a + k) = q5_shadow_byte W k"
  unfolding q5_block_def Let_def q5_loop [OF order_refl]
  by (auto simp: memcpy_to_def q5_shadow_byte_def put_u32_at Let_def)

lemma q5_block_other: "b < a \<or> a + 40 \<le> b \<Longrightarrow> q5_block W a m b = m b"
  unfolding q5_block_def Let_def q5_loop [OF order_refl]
  by (auto simp: memcpy_to_def put_u32_other)

definition shadow_row_q50 :: "bytes \<Rightarrow> nat \<Rightarrow> nat \<Rightarrow> u8" where
  "shadow_row_q50 row cols k = q5_shadow_byte (\<lambda>i. row (k div 40 * 22 + i)) (k mod 40)"

lemma build_rows_q50_writer:
  fixes cols :: nat
  defines "nb \<equiv> cols div 32"
  shows "block_writer rows out (nb * 40) (nb * 40)
    (\<lambda>r. for_loop 0 nb (\<lambda>b. q5_block (\<lambda>i. packed (r * (nb * 22) + b * 22 + i)) (out + r * (nb * 40) + b * 40)))
    (\<lambda>r. shadow_row_q50 (\<lambda>i. packed (r * (nb * 22) + i)) cols)"
proof -
  have "block_writer nb base 40 40 (\<lambda>b. q5_block (W b) (base + b * 40)) (\<lambda>b. q5_shadow_byte (W b))" for base W
    unfolding block_writer_def by (simp add: q5_block_at q5_block_other)
  from block_writer_nest [of rows nb out "nb * 40" 40, OF this le_refl, of "\<lambda>r b i. packed (r * (nb * 22) + b * 22 + i)"]
  show ?thesis unfolding shadow_row_q50_def [abs_def] by (simp only: add.assoc)
qed

lemma build_rows_q50_unfold:
  "fl_shadow_build_rows_q50 packed rows cols out =
    for_loop 0 rows (\<lambda>r. for_loop 0 (cols div 32)
      (\<lambda>b. q5_block (\<lambda>i. packed (r * (cols div 32 * 22) + b * 22 + i)) (out + r * (cols div 32 * 40) + b * 40)))"
  unfolding fl_shadow_build_rows_q50_def q5_block_def [abs_def] Let_def ..

lemma build_rows_q50_at:
  assumes "r < rows" "k < cols div 32 * 40"
  shows "fl_shadow_build_rows_q50 packed rows cols out m (out + r * (cols div 32 * 40) + k)
    = shadow_row_q50 (\<lambda>i. packed (r * (cols div 32 * 22) + i)) cols k"
  unfolding build_rows_q50_unfold by (rule block_writer_own [OF build_rows_q50_writer assms])

lemma build_rows_q50_other:
  assumes "a < out \<or> out + rows * (cols div 32 * 40) \<le> a"
  shows "fl_shadow_build_rows_q50 packed rows cols out m a = m a"
  unfolding build_rows_q50_unfold by (rule block_writer_other [OF build_rows_q50_writer assms])

text \<open>A five-bit value survives the signed byte.\<close>

lemma q5_byte_sint:
  fixes v :: u32
  assumes "\<And>n. 5 \<le> n \<Longrightarrow> \<not> bit v n"
  shows "sint (ucast v :: u8) = uint v"
proof -
  have "v = take_bit 5 v" using assms by (intro bit_eqI) (metis bit_take_bit_iff not_le)
  then have v: "uint v < 32" using uint_take_bit_less [of 5 v] by simp
  then have "uint (ucast v :: u8) = uint v" by (simp add: unsigned_ucast_eq take_bit_int_eq_self)
  then show ?thesis using sint_small [of "ucast v"] v by simp
qed

lemma q5_bits_sint:
  "sint (ucast ((ucast (b AND 0x0F) :: u32) OR (x AND 0x10)) :: u8) = uint ((ucast (b AND 0x0F) :: u32) OR (x AND 0x10))"
  "sint (ucast ((ucast (drop_bit 4 b) :: u32) OR (x AND 0x10)) :: u8) = uint ((ucast (drop_bit 4 b) :: u32) OR (x AND 0x10))"
  for b :: u8 and x :: u32
proof -
  have bits: "(0x0F :: u8) = mask 4" "(0x10 :: u32) = 2 ^ 4" by (simp_all add: mask_eq_exp_minus_1)
  have "\<not> bit (0x0F :: u8) n" "\<not> bit (0x10 :: u32) n" if "5 \<le> n" for n
    unfolding bits bit_mask_iff bit_exp_iff using that by auto
  then show "sint (ucast ((ucast (b AND 0x0F) :: u32) OR (x AND 0x10)) :: u8) = uint ((ucast (b AND 0x0F) :: u32) OR (x AND 0x10))"
    "sint (ucast ((ucast (drop_bit 4 b) :: u32) OR (x AND 0x10)) :: u8) = uint ((ucast (drop_bit 4 b) :: u32) OR (x AND 0x10))"
    by (intro q5_byte_sint; auto simp: bit_or_iff bit_and_iff bit_ucast_iff bit_drop_bit_eq u8_high_bits)+
qed

lemma q5_0_shadow:
  assumes "\<And>k. k < cols div 32 * 40 \<Longrightarrow> srow k = shadow_row_q50 row cols k"
  shows "dot_i8_q5_0_shadow srow xq cols = fl_dot_i8_q5_0 row xq cols"
  unfolding dot_i8_q5_0_shadow_def fl_dot_i8_q5_0_def
proof (intro arg_cong [where f = fl_fold4] for_loop_cong)
  fix b a4 assume b: "b < cols div 32"
  define o' where "o' = (\<lambda>i. srow (b * 40 + i))"
  define W where "W = (\<lambda>i. row (b * 22 + i))"
  define x where "x = (\<lambda>i. q1_qs (xq b) ! i)"
  have o': "o' k = q5_shadow_byte W k" if "k < 40" for k
  proof -
    have "b * 40 + k < cols div 32 * 40" using block_before [OF b, of 40] that by linarith
    then show ?thesis using that assms by (simp add: o'_def W_def shadow_row_q50_def)
  qed
  have d: "rd32 o' 0 = fl_half2float (rd16 W 0)" by (rule rd32_bytes) (simp add: o' q5_shadow_byte_def)
  have w: "sint (o' (4 + j)) = q5_bits_lo W j" "sint (o' (4 + (16 + j))) = q5_bits_hi W j" if "j < 16" for j
    using that by (simp_all add: o' q5_shadow_byte_def q5_bits_lo_def q5_bits_hi_def q5_bits_sint)
  have "vdot32 (vld1q (\<lambda>i. sint (o' (4 + i))) 0) (vld1q x 0) (vld1q (\<lambda>i. sint (o' (4 + i))) 16) (vld1q x 16)
      = (\<Sum>i<16 + 16. sint (o' (4 + i)) * x i)"
    using vdot32_loads [of "\<lambda>i. sint (o' (4 + i))" 0 x 0] by simp
  also have "\<dots> = for_loop 0 16 (\<lambda>j s. s + (q5_bits_lo W j * x j + q5_bits_hi W j * x (16 + j))) 0"
    unfolding sum_lessThan_add for_loop_sum by (simp add: w(1) w(2) [simplified] sum.distrib)
  finally show "(let o' = (\<lambda>i. srow (b * 40 + i)); w = (\<lambda>i. sint (o' (4 + i))); x = (\<lambda>i. q1_qs (xq b) ! i); ones = vdupq 1;
          idot = vdot32 (vld1q w 0) (vld1q x 0) (vld1q w 16) (vld1q x 16);
          isum = vdot32 ones (vld1q x 0) ones (vld1q x 16)
      in fma4 b (f32_mul (rd32 o' 0) (fl_half2float (q1_d (xq b)))) (f32_of_int (idot - 16 * isum)) a4) =
     (let W = (\<lambda>i. row (b * 22 + i))
      in fma4 b (f32_mul (fl_half2float (rd16 W 0)) (fl_half2float (q1_d (xq b))))
           (f32_of_int (q5_int W (\<lambda>i. q1_qs (xq b) ! i))) a4)"
    unfolding Let_def o'_def [symmetric] x_def [symmetric] W_def [symmetric] ones_dot d q5_int_def by (simp only:)
qed

end
