(* ===== verification/FL_Shadow_Init.thy ===== *)
theory FL_Shadow_Init
  imports FL_Shadow
begin

text \<open>
  Building, registering and caching shadows: \<open>fl_shadow_init\<close> of \<open>src/runtime/shadow.cpp\<close> with
  the parallel build, the span registry and the cache file. Packed weights are the read-only memory
  \<open>wm\<close>; the shadow payload is a memory of its own, addressed from 0, and a span's shadow pointer is
  an offset into it. Byte counts are natural numbers.
\<close>

section \<open>Layouts\<close>

record shadow_tensor =
  st_name :: string
  st_p :: nat
  st_fmt :: fmt
  st_cols :: u32
  st_rows :: nat

record shadow_span =
  sp_base :: nat
  sp_end :: nat
  sp_shadow :: nat
  sp_prb :: nat
  sp_srb :: nat
  sp_fmt :: fmt
  sp_smmla :: bool

definition fl_shadow_row_bytes :: "fmt \<Rightarrow> u32 \<Rightarrow> u64" where
  "fl_shadow_row_bytes f cols =
    (if f = Q4_K then ucast (cols div 256) * 280 else if f = Q5_0 then ucast (cols div 32) * 40 else 0)"

definition row_bytes :: "fmt \<Rightarrow> u32 \<Rightarrow> nat" where "row_bytes f cols = unat (fl_row_bytes f cols)"
definition shadow_bytes :: "fmt \<Rightarrow> u32 \<Rightarrow> nat" where "shadow_bytes f cols = unat (fl_shadow_row_bytes f cols)"

lemma shadow_bytes_eq:
  "shadow_bytes Q4_K cols = unat cols div 256 * 280" "shadow_bytes Q5_0 cols = unat cols div 32 * 40"
proof -
  have "unat cols div 256 < 2 ^ 32" "unat cols div 32 < 2 ^ 32"
    using unat_u32_lt [of cols] by (simp_all add: less_mult_imp_div_less)
  then show "shadow_bytes Q4_K cols = unat cols div 256 * 280" "shadow_bytes Q5_0 cols = unat cols div 32 * 40"
    by (simp_all add: shadow_bytes_def fl_shadow_row_bytes_def unat_mult_exact unat_div)
qed

lemma row_bytes_eq:
  "row_bytes Q4_K cols = unat cols div 256 * 144" "row_bytes Q5_0 cols = unat cols div 32 * 22"
  by (simp_all add: row_bytes_def unat_fl_row_bytes)

section \<open>Registry\<close>

definition fl_shadow_row_index :: "shadow_span \<Rightarrow> nat \<Rightarrow> nat" where
  "fl_shadow_row_index s w = (w - sp_base s) div sp_prb s"

definition fl_shadow_pair :: "shadow_span \<Rightarrow> nat \<Rightarrow> nat" where
  "fl_shadow_pair s r = sp_shadow s + r div 2 * (sp_srb s * 2)"

definition fl_shadow_row :: "shadow_span \<Rightarrow> nat \<Rightarrow> nat" where
  "fl_shadow_row s w = (let r = (w - sp_base s) div sp_prb s in sp_shadow s + r * sp_srb s)"

text \<open>\<open>std::upper_bound\<close> on spans sorted by base, one step back, and the range test.\<close>

definition fl_shadow_find :: "shadow_span list \<Rightarrow> nat \<Rightarrow> shadow_span option" where
  "fl_shadow_find spans w =
    (let pre = takeWhile (\<lambda>s. \<not> w < sp_base s) spans
     in if pre = [] then None
        else let s = last pre in if sp_base s \<le> w \<and> w < sp_end s then Some s else None)"

section \<open>Building\<close>

definition build_rows :: "fmt \<Rightarrow> bool \<Rightarrow> bytes \<Rightarrow> nat \<Rightarrow> nat \<Rightarrow> nat \<Rightarrow> bytes \<Rightarrow> bytes" where
  "build_rows f smmla =
    (if f = Q4_K then if smmla then fl_shadow_build_rows_q4k_smmla else fl_shadow_build_rows_q4k
     else fl_shadow_build_rows_q50)"

text \<open>The row ranges of the threads, and what one thread does.\<close>

definition build_chunks :: "nat \<Rightarrow> nat \<Rightarrow> (nat \<times> nat) list" where
  "build_chunks hc rows =
    (let nt = max 2 hc - 1; chunk = (rows + nt - 1) div nt; chunk = chunk + chunk mod 2
     in map (\<lambda>i. (i * chunk, min chunk (rows - i * chunk))) (takeWhile (\<lambda>i. i * chunk < rows) [0..<nt]))"

definition build_thread :: "bytes \<Rightarrow> shadow_tensor \<Rightarrow> nat \<Rightarrow> bool \<Rightarrow> nat \<times> nat \<Rightarrow> bytes \<Rightarrow> bytes" where
  "build_thread wm t out smmla = (\<lambda>(r0, n).
    let prb = row_bytes (st_fmt t) (st_cols t); srb = shadow_bytes (st_fmt t) (st_cols t)
    in build_rows (st_fmt t) smmla (\<lambda>i. wm (st_p t + r0 * prb + i)) n (unat (st_cols t)) (out + r0 * srb))"

text \<open>The threads in some order; \<open>build_parallel\<close> runs them in the order they are started.\<close>

definition build_in_order :: "(nat \<times> nat) list \<Rightarrow> bytes \<Rightarrow> shadow_tensor \<Rightarrow> nat \<Rightarrow> bool \<Rightarrow> bytes \<Rightarrow> bytes" where
  "build_in_order cs wm t out smmla m = fold (build_thread wm t out smmla) cs m"

definition build_parallel :: "nat \<Rightarrow> bytes \<Rightarrow> shadow_tensor \<Rightarrow> nat \<Rightarrow> bool \<Rightarrow> bytes \<Rightarrow> bytes" where
  "build_parallel hc wm t out smmla m = build_in_order (build_chunks hc (st_rows t)) wm t out smmla m"

section \<open>What a build writes\<close>

text \<open>Byte \<open>a\<close> of the shadow of a tensor.\<close>

definition shadow_payload :: "bytes \<Rightarrow> shadow_tensor \<Rightarrow> bool \<Rightarrow> nat \<Rightarrow> u8" where
  "shadow_payload wm t smmla a =
    (let prb = row_bytes (st_fmt t) (st_cols t); srb = shadow_bytes (st_fmt t) (st_cols t); cols = unat (st_cols t);
         row = (\<lambda>r i. wm (st_p t + (r * prb + i)))
     in if st_fmt t = Q4_K
        then if smmla then let rp = a div (srb * 2) in shadow_pair_q4k (row (rp * 2)) (row (rp * 2 + 1)) (a mod (srb * 2))
             else shadow_row_q4k (row (a div srb)) cols (a mod srb)
        else shadow_row_q50 (row (a div srb)) cols (a mod srb))"

definition shadowable :: "shadow_tensor \<Rightarrow> bool" where
  "shadowable t \<longleftrightarrow> st_fmt t = Q4_K \<or> st_fmt t = Q5_0"

lemma fill_units:
  fixes out q w n :: nat
  assumes at: "\<And>r k. r < n \<Longrightarrow> k < w \<Longrightarrow> f (out + q * w + r * w + k) = (G (q + r) k :: 'a)"
    and other: "\<And>a. a < out + q * w \<or> out + q * w + n * w \<le> a \<Longrightarrow> f a = m a"
  shows "f = (\<lambda>a. if out + q * w \<le> a \<and> a < out + q * w + n * w then G ((a - out) div w) ((a - out) mod w) else m a)"
proof
  fix a
  show "f a = (if out + q * w \<le> a \<and> a < out + q * w + n * w then G ((a - out) div w) ((a - out) mod w) else m a)"
  proof (cases "out + q * w \<le> a \<and> a < out + q * w + n * w")
    case True
    then have lo: "out + q * w \<le> a" and "a < out + q * w + n * w" by auto
    from le_Suc_ex [OF lo] obtain b where a: "a = out + q * w + b" by (elim exE)
    have b: "b < n * w" using \<open>a < out + q * w + n * w\<close> unfolding a by (rule add_less_imp_less_left)
    from b have w: "0 < w" by (cases w) auto
    have r: "b div w < n" "b mod w < w" using b w by (simp_all add: less_mult_imp_div_less)
    have "(a - out) div w = q + b div w" "(a - out) mod w = b mod w" using w by (simp_all add: a)
    moreover have "out + q * w + b div w * w + b mod w = a" by (simp add: a add.assoc)
    ultimately show ?thesis using at [OF r] True by simp
  next
    case False
    then show ?thesis using other [of a] by auto
  qed
qed

text \<open>What a thread writes: its rows' share of the payload, and nothing else.\<close>

lemma build_rows_closed:
  fixes t wm
  defines "prb \<equiv> row_bytes (st_fmt t) (st_cols t)" and "srb \<equiv> shadow_bytes (st_fmt t) (st_cols t)"
  assumes t: "shadowable t" and even: "smmla \<and> st_fmt t = Q4_K \<Longrightarrow> even n \<and> even r0"
  shows "build_rows (st_fmt t) smmla (\<lambda>i. wm (st_p t + r0 * prb + i)) n (unat (st_cols t)) (out + r0 * srb) m =
    (\<lambda>a. if out + r0 * srb \<le> a \<and> a < out + r0 * srb + n * srb then shadow_payload wm t smmla (a - out) else m a)"
proof -
  let ?p = "\<lambda>i. wm (st_p t + r0 * prb + i)"
  have row: "?p ((r * prb) + i) = wm (st_p t + ((r0 + r) * prb + i))" for r i by (simp add: algebra_simps)
  consider "st_fmt t = Q4_K" "\<not> smmla" | "st_fmt t = Q4_K" "smmla" | "st_fmt t = Q5_0"
    using t by (auto simp: shadowable_def)
  then show ?thesis
  proof cases
    case 1
    have s: "unat (st_cols t) div 256 * 280 = srb" and p: "unat (st_cols t) div 256 * 144 = prb"
      by (simp_all add: srb_def prb_def 1 shadow_bytes_eq row_bytes_eq)
    have pay: "shadow_payload wm t smmla = (\<lambda>a. shadow_row_q4k (\<lambda>i. wm (st_p t + ((a div srb) * prb + i))) (unat (st_cols t)) (a mod srb))"
      by (simp add: shadow_payload_def fun_eq_iff Let_def srb_def prb_def 1)
    have br: "build_rows (st_fmt t) smmla = fl_shadow_build_rows_q4k" using 1 by (simp add: build_rows_def)
    show ?thesis
      unfolding pay br
    proof (rule fill_units [where G = "\<lambda>r. shadow_row_q4k (\<lambda>i. wm (st_p t + (r * prb + i))) (unat (st_cols t))"], goal_cases)
      case (1 r k) then show ?case by (intro build_rows_q4k_at [of _ n _ "unat (st_cols t)" ?p, unfolded s p row])
    next
      case (2 a) then show ?case by (intro build_rows_q4k_other [of _ _ n "unat (st_cols t)", unfolded s])
    qed
  next
    case 2
    have s: "unat (st_cols t) div 256 * 560 = srb * 2" and p: "unat (st_cols t) div 256 * 144 = prb"
      by (simp_all add: srb_def prb_def 2 shadow_bytes_eq row_bytes_eq)
    obtain n' q where n: "n = n' * 2" and q: "r0 = q * 2" using even 2 by (metis evenE mult.commute)
    have "(n' * 2 + 1) div 2 = n'" by simp
    note s = s this
    have pay: "shadow_payload wm t smmla = (\<lambda>a. shadow_pair_q4k (\<lambda>i. wm (st_p t + (((a div (srb * 2)) * 2) * prb + i)))
        (\<lambda>i. wm (st_p t + (((a div (srb * 2)) * 2 + 1) * prb + i))) (a mod (srb * 2)))"
      using 2 by (simp add: shadow_payload_def fun_eq_iff Let_def srb_def prb_def)
    have q2: "r0 * srb = q * (srb * 2)" "n * srb = n' * (srb * 2)" by (simp_all add: n q)
    have row2: "?p (((r * 2) * prb) + i) = wm (st_p t + (((q + r) * 2) * prb + i))"
      "?p (((r * 2 + 1) * prb) + i) = wm (st_p t + (((q + r) * 2 + 1) * prb + i))" for r i
      by (simp_all add: q algebra_simps)
    have br: "build_rows (st_fmt t) smmla = fl_shadow_build_rows_q4k_smmla" using 2 by (simp add: build_rows_def)
    show ?thesis
      unfolding pay br q2
    proof (rule fill_units [where G = "\<lambda>r. shadow_pair_q4k (\<lambda>i. wm (st_p t + ((r * 2) * prb + i))) (\<lambda>i. wm (st_p t + ((r * 2 + 1) * prb + i)))"], goal_cases)
      case (1 r k) then show ?case unfolding n by (intro build_rows_smmla_at [of _ n _ "unat (st_cols t)" ?p, unfolded n s p row2])
    next
      case (2 a) then show ?case unfolding n by (intro build_rows_smmla_other [of _ _ n "unat (st_cols t)", unfolded n s])
    qed
  next
    case 3
    have s: "unat (st_cols t) div 32 * 40 = srb" and p: "unat (st_cols t) div 32 * 22 = prb"
      by (simp_all add: srb_def prb_def 3 shadow_bytes_eq row_bytes_eq)
    have pay: "shadow_payload wm t smmla = (\<lambda>a. shadow_row_q50 (\<lambda>i. wm (st_p t + ((a div srb) * prb + i))) (unat (st_cols t)) (a mod srb))"
      by (simp add: shadow_payload_def fun_eq_iff Let_def srb_def prb_def 3)
    have br: "build_rows (st_fmt t) smmla = fl_shadow_build_rows_q50" using 3 by (simp add: build_rows_def)
    show ?thesis
      unfolding pay br
    proof (rule fill_units [where G = "\<lambda>r. shadow_row_q50 (\<lambda>i. wm (st_p t + (r * prb + i))) (unat (st_cols t))"], goal_cases)
      case (1 r k) then show ?case by (intro build_rows_q50_at [of _ n _ "unat (st_cols t)" ?p, unfolded s p row])
    next
      case (2 a) then show ?case by (intro build_rows_q50_other [of _ _ n "unat (st_cols t)", unfolded s])
    qed
  qed
qed

section \<open>The parallel build\<close>

lemma build_thread_closed:
  assumes t: "shadowable t" and even: "smmla \<and> st_fmt t = Q4_K \<Longrightarrow> even n \<and> even r0"
  shows "build_thread wm t out smmla (r0, n) m =
    (\<lambda>a. if out + r0 * shadow_bytes (st_fmt t) (st_cols t) \<le> a
           \<and> a < out + (r0 + n) * shadow_bytes (st_fmt t) (st_cols t)
         then shadow_payload wm t smmla (a - out) else m a)"
  using build_rows_closed [OF assms, where wm = wm and m = m and out = out]
  by (simp add: build_thread_def Let_def add_mult_distrib add.assoc)

text \<open>Writers that agree on a payload may run in any order.\<close>

lemma fold_fill:
  assumes "\<And>c m. c \<in> set cs \<Longrightarrow> f c m = (\<lambda>a. if R c a then v a else m a)"
  shows "fold f cs m = (\<lambda>a. if \<exists>c \<in> set cs. R c a then v a else m a)"
  using assms
proof (induction cs arbitrary: m)
  case (Cons c cs)
  then show ?case by (auto simp: fun_eq_iff)
qed simp

lemma set_takeWhile_upt:
  "(\<And>i j :: nat. i \<le> j \<Longrightarrow> P j \<Longrightarrow> P i) \<Longrightarrow> set (takeWhile P [0..<n]) = {i. i < n \<and> P i}"
proof (induction n)
  case (Suc n)
  show ?case
  proof (cases "\<forall>i \<in> set [0..<n]. P i")
    case True
    then have "takeWhile P ([0..<n] @ [n]) = [0..<n] @ takeWhile P [n]" by (intro takeWhile_append2) auto
    then show ?thesis using True by (auto simp: less_Suc_eq)
  next
    case False
    then obtain x where "x < n" "\<not> P x" by auto
    then have "\<not> P n" using Suc.prems [of x n] by auto
    then show ?thesis using Suc False by (auto simp: takeWhile_append less_Suc_eq)
  qed
qed simp

lemma build_chunks_set:
  fixes hc rows :: nat
  defines "nt \<equiv> max 2 hc - 1"
  defines "ch \<equiv> (rows + nt - 1) div nt"
  defines "chunk \<equiv> ch + ch mod 2"
  shows "set (build_chunks hc rows) = {(i * chunk, min chunk (rows - i * chunk)) |i. i < nt \<and> i * chunk < rows}"
proof -
  have "set (takeWhile (\<lambda>i. i * chunk < rows) [0..<nt]) = {i. i < nt \<and> i * chunk < rows}"
    by (rule set_takeWhile_upt) (use mult_le_mono1 le_less_trans in blast)
  then show ?thesis
    unfolding build_chunks_def Let_def nt_def [symmetric] ch_def [symmetric] chunk_def [symmetric] by auto
qed

lemma build_chunks_cover:
  assumes "r < rows"
  shows "\<exists>(r0, n) \<in> set (build_chunks hc rows). r0 \<le> r \<and> r < r0 + n"
proof -
  define nt where "nt = max 2 hc - 1"
  define ch where "ch = (rows + nt - 1) div nt"
  define chunk where "chunk = ch + ch mod 2"
  have nt: "0 < nt" by (simp add: nt_def)
  have "rows \<le> nt * ch"
  proof -
    have "nt * ch + (rows + nt - 1) mod nt = rows + nt - 1" unfolding ch_def by simp
    moreover have "(rows + nt - 1) mod nt < nt" using nt by simp
    ultimately show ?thesis by linarith
  qed
  also have "\<dots> \<le> nt * chunk" by (simp add: chunk_def)
  finally have le: "rows \<le> nt * chunk" .
  with assms have "0 < chunk" by (cases chunk) auto
  define i where "i = r div chunk"
  have i: "i < nt" using le assms unfolding i_def by (simp add: less_mult_imp_div_less order_less_le_trans mult.commute)
  have r: "i * chunk \<le> r" "r < i * chunk + chunk"
    using \<open>0 < chunk\<close> mod_less_divisor [of chunk r] div_mult_mod_eq [of r chunk] unfolding i_def by linarith+
  have "(i * chunk, min chunk (rows - i * chunk)) \<in> set (build_chunks hc rows)"
    unfolding build_chunks_set nt_def [symmetric] ch_def [symmetric] chunk_def [symmetric]
    using i le_less_trans [OF r(1) assms] by blast
  moreover have "r < i * chunk + min chunk (rows - i * chunk)" using r assms by simp
  ultimately show ?thesis using r by blast
qed

lemma build_chunks_bounds:
  assumes "(r0, n) \<in> set (build_chunks hc rows)"
  shows "even r0" "r0 + n \<le> rows" "even rows \<Longrightarrow> even n"
proof -
  define nt where "nt = max 2 hc - 1"
  define ch where "ch = (rows + nt - 1) div nt"
  define chunk where "chunk = ch + ch mod 2"
  have e: "even chunk" by (simp add: chunk_def)
  from assms obtain i where i: "r0 = i * chunk" "n = min chunk (rows - i * chunk)" "i * chunk < rows"
    unfolding build_chunks_set nt_def [symmetric] ch_def [symmetric] chunk_def [symmetric] by blast
  show "even r0" "r0 + n \<le> rows" using e i by simp_all
  show "even n" if "even rows" using that e i by (simp add: min_def)
qed

lemma div_less_block: "a < n * w \<Longrightarrow> 0 < w \<and> a div w < (n :: nat)"
  by (cases w) (auto simp: less_mult_imp_div_less)

lemma build_in_order_closed:
  assumes t: "shadowable t" and even: "smmla \<and> st_fmt t = Q4_K \<Longrightarrow> even (st_rows t)"
    and cs: "set cs = set (build_chunks hc (st_rows t))"
  shows "build_in_order cs wm t out smmla m =
    (\<lambda>a. if out \<le> a \<and> a < out + st_rows t * shadow_bytes (st_fmt t) (st_cols t)
         then shadow_payload wm t smmla (a - out) else m a)"
proof -
  define w where "w = shadow_bytes (st_fmt t) (st_cols t)"
  define R where "R = (\<lambda>(r0 :: nat, n) a. out + r0 * w \<le> a \<and> a < out + (r0 + n) * w)"
  have step: "build_thread wm t out smmla c m = (\<lambda>a. if R c a then shadow_payload wm t smmla (a - out) else m a)"
    if "c \<in> set cs" for c m
  proof -
    obtain r0 n where c: "c = (r0, n)" by (cases c)
    then have "even r0" "even (st_rows t) \<Longrightarrow> even n" using that cs build_chunks_bounds by auto
    then show ?thesis
      unfolding c R_def w_def prod.case using even by (intro build_thread_closed [OF t]) auto
  qed
  have cover: "(\<exists>c \<in> set cs. R c a) \<longleftrightarrow> out \<le> a \<and> a < out + st_rows t * w" for a
  proof
    assume "\<exists>c \<in> set cs. R c a"
    then obtain r0 n where c: "(r0, n) \<in> set (build_chunks hc (st_rows t))" "out + r0 * w \<le> a" "a < out + (r0 + n) * w"
      using cs by (auto simp: R_def)
    have "(r0 + n) * w \<le> st_rows t * w" by (rule mult_le_mono1 [OF build_chunks_bounds(2) [OF c(1)]])
    then show "out \<le> a \<and> a < out + st_rows t * w" using c(2,3) by linarith
  next
    assume a: "out \<le> a \<and> a < out + st_rows t * w"
    define b where "b = a - out"
    have b: "b < st_rows t * w" "a = out + b" using a by (auto simp: b_def)
    from div_less_block [OF b(1)] have w: "0 < w" "b div w < st_rows t" by auto
    from build_chunks_cover [OF w(2)] obtain r0 n where c: "(r0, n) \<in> set cs" "r0 \<le> b div w" "b div w < r0 + n"
      using cs by blast
    have "r0 * w \<le> b" using mult_le_mono1 [OF c(2), of w] div_mult_mod_eq [of b w] by linarith
    moreover have "b < (r0 + n) * w"
    proof -
      have "Suc (b div w) * w \<le> (r0 + n) * w" by (rule mult_le_mono1) (use c(3) in simp)
      then have "w + b div w * w \<le> (r0 + n) * w" by simp
      then show ?thesis using div_mult_mod_eq [of b w] mod_less_divisor [OF w(1), of b] by linarith
    qed
    ultimately have "R (r0, n) a" by (simp add: R_def b(2))
    then show "\<exists>c \<in> set cs. R c a" using c(1) by blast
  qed
  show ?thesis
    unfolding build_in_order_def w_def [symmetric]
    using fold_fill [where f = "build_thread wm t out smmla" and cs = cs and R = R, OF step, of m]
    by (simp only: cover)
qed

section \<open>Initialisation and the cache file\<close>

datatype shadow_mode = SHADOW_OFF | SHADOW_BUILD | SHADOW_CACHE

text \<open>The environment of a call: mode, layout, hardware threads, and which system calls succeed.\<close>

record shadow_env =
  se_mode :: shadow_mode
  se_smmla :: bool
  se_hc :: nat
  se_malloc :: bool
  se_mmap :: bool
  se_fopen :: bool

text \<open>The switches read from the environment; an unset variable is \<open>None\<close>.\<close>

definition mode_from_env :: "string option \<Rightarrow> shadow_mode" where
  "mode_from_env e = (case e of None \<Rightarrow> SHADOW_OFF
    | Some v \<Rightarrow> if v = [] \<or> v = ''off'' \<or> v = ''0'' then SHADOW_OFF else if v = ''cache'' then SHADOW_CACHE else SHADOW_BUILD)"

definition cache_path :: "string option \<Rightarrow> string option \<Rightarrow> string" where
  "cache_path file_var home =
    (case file_var of Some (c # cs) \<Rightarrow> c # cs
     | _ \<Rightarrow> (case home of Some h \<Rightarrow> h | None \<Rightarrow> ''.'') @ ''/.fastllm-shadow.bin'')"

definition fl_shadow_layout_smmla :: "bool \<Rightarrow> string option \<Rightarrow> bool" where
  "fl_shadow_layout_smmla i8mm e = (i8mm \<and> e = Some ''smmla'')"

definition starts_with_1 :: "string option \<Rightarrow> bool" where
  "starts_with_1 e = (case e of Some (c # _) \<Rightarrow> c = CHR ''1'' | _ \<Rightarrow> False)"

definition fl_mc_legacy :: "string option \<Rightarrow> bool" where "fl_mc_legacy e = starts_with_1 e"
definition fl_smmla_on :: "string option \<Rightarrow> bool" where "fl_smmla_on e = starts_with_1 e"

record cache_ent =
  ce_name :: string
  ce_fmt :: nat
  ce_cols :: u32
  ce_rows :: nat
  ce_bytes :: nat

record cache_file =
  cf_magic :: string
  cf_version :: nat
  cf_n :: nat
  cf_layout :: nat
  cf_ents :: "cache_ent list"
  cf_payload :: bytes
  cf_size :: nat

record shadow_state =
  sh_spans :: "shadow_span list"
  sh_enabled :: bool

definition tensor_bytes :: "shadow_tensor \<Rightarrow> nat" where
  "tensor_bytes t = st_rows t * shadow_bytes (st_fmt t) (st_cols t)"

definition select_step :: "bool \<times> shadow_tensor list \<Rightarrow> shadow_tensor \<Rightarrow> bool \<times> shadow_tensor list" where
  "select_step = (\<lambda>(smmla, want) t.
    if st_fmt t \<noteq> Q4_K \<and> st_fmt t \<noteq> Q5_0 then (smmla, want)
    else (if smmla \<and> st_fmt t = Q4_K \<and> odd (st_rows t) then False else smmla, want @ [t]))"

definition select_tensors :: "bool \<Rightarrow> shadow_tensor list \<Rightarrow> bool \<times> shadow_tensor list" where
  "select_tensors smmla tensors = foldl select_step (smmla, []) tensors"

definition cache_need :: "shadow_tensor list \<Rightarrow> nat" where
  "cache_need want = 16 + length want * 88 + sum_list (map tensor_bytes want)"

definition cache_layout :: "bool \<Rightarrow> nat" where "cache_layout smmla = (if smmla then 1 else 0)"

definition cache_valid :: "bool \<Rightarrow> shadow_tensor list \<Rightarrow> cache_file \<Rightarrow> bool" where
  "cache_valid smmla want f \<longleftrightarrow>
    cf_size f = cache_need want \<and> take 4 (cf_magic f) = ''FLSH'' \<and> cf_version f = 2
    \<and> cf_n f = length want \<and> cf_layout f = cache_layout smmla
    \<and> list_all (\<lambda>i. let e = cf_ents f ! i; t = want ! i
         in take 63 (ce_name e) = take 63 (st_name t) \<and> ce_fmt e = fmt_code (st_fmt t)
            \<and> ce_cols e = st_cols t \<and> ce_rows e = st_rows t) [0..<cf_n f]"

definition cache_write :: "bool \<Rightarrow> shadow_tensor list \<Rightarrow> bytes \<Rightarrow> cache_file" where
  "cache_write smmla want payload =
    \<lparr>cf_magic = ''FLSH'', cf_version = 2, cf_n = length want, cf_layout = cache_layout smmla,
     cf_ents = map (\<lambda>t. \<lparr>ce_name = take 63 (st_name t), ce_fmt = fmt_code (st_fmt t), ce_cols = st_cols t,
       ce_rows = st_rows t, ce_bytes = tensor_bytes t\<rparr>) want,
     cf_payload = payload, cf_size = cache_need want\<rparr>"

text \<open>The payload of all wanted tensors, and their spans, at consecutive offsets.\<close>

definition build_all :: "nat \<Rightarrow> bytes \<Rightarrow> bool \<Rightarrow> shadow_tensor list \<Rightarrow> bytes \<Rightarrow> bytes" where
  "build_all hc wm smmla want m =
    fst (foldl (\<lambda>(m, off) t. (build_parallel hc wm t off smmla m, off + tensor_bytes t)) (m, 0) want)"

definition span_of :: "bool \<Rightarrow> shadow_tensor \<Rightarrow> nat \<Rightarrow> shadow_span" where
  "span_of smmla t off =
    (let prb = row_bytes (st_fmt t) (st_cols t)
     in \<lparr>sp_base = st_p t, sp_end = st_p t + st_rows t * prb, sp_shadow = off, sp_prb = prb,
         sp_srb = shadow_bytes (st_fmt t) (st_cols t), sp_fmt = st_fmt t, sp_smmla = (smmla \<and> st_fmt t = Q4_K)\<rparr>)"

definition add_spans :: "bool \<Rightarrow> shadow_tensor list \<Rightarrow> shadow_span list \<Rightarrow> shadow_span list" where
  "add_spans smmla want spans =
    fst (foldl (\<lambda>(spans, off) t. (spans @ [span_of smmla t off], off + tensor_bytes t)) (spans, 0) want)"

text \<open>
  The call: the registry, the payload memory and the cache file after it. \<open>m\<close> is the contents of
  the memory \<open>malloc\<close> returns.
\<close>

definition fl_shadow_init ::
  "shadow_env \<Rightarrow> bytes \<Rightarrow> bytes \<Rightarrow> shadow_tensor list \<Rightarrow> shadow_state \<times> cache_file option
    \<Rightarrow> (shadow_state \<times> cache_file option) \<times> bytes" where
  "fl_shadow_init env wm m tensors = (\<lambda>(st, file).
    if sh_enabled st \<or> se_mode env = SHADOW_OFF then ((st, file), m)
    else let (smmla, want) = select_tensors (se_smmla env) tensors
      in if want = [] then ((st, file), m)
         else let cached = (case file of
                  Some f \<Rightarrow> if se_mode env = SHADOW_CACHE \<and> se_mmap env \<and> cache_valid smmla want f then Some (cf_payload f) else None
                | None \<Rightarrow> None)
           in case cached of
                Some payload \<Rightarrow>
                  ((\<lparr>sh_spans = sort_key sp_base (add_spans smmla want (sh_spans st)), sh_enabled = True\<rparr>, file), payload)
              | None \<Rightarrow>
                  if \<not> se_malloc env then ((st, file), m)
                  else let payload = build_all (se_hc env) wm smmla want m;
                           file = (if se_mode env = SHADOW_CACHE \<and> se_fopen env
                                   then Some (cache_write smmla want payload) else file)
                    in ((\<lparr>sh_spans = sort_key sp_base (add_spans smmla want (sh_spans st)), sh_enabled = True\<rparr>, file), payload))"

text \<open>The registry operations of the tests.\<close>

definition fl_shadow_register_for_test :: "shadow_span \<Rightarrow> shadow_state \<Rightarrow> shadow_state" where
  "fl_shadow_register_for_test s st = st\<lparr>sh_spans := sort_key sp_base (sh_spans st @ [s]), sh_enabled := True\<rparr>"

definition fl_shadow_clear_for_test :: "shadow_state \<Rightarrow> shadow_state" where
  "fl_shadow_clear_for_test st = st\<lparr>sh_spans := [], sh_enabled := False\<rparr>"

lemma select_tensors_eq:
  "select_tensors s tensors = (s \<and> (\<forall>t \<in> set tensors. st_fmt t = Q4_K \<longrightarrow> even (st_rows t)), filter shadowable tensors)"
proof -
  have step: "select_step (s, w) t = (s \<and> (st_fmt t = Q4_K \<longrightarrow> even (st_rows t)), w @ filter shadowable [t])" for s w t
    by (auto simp: select_step_def shadowable_def)
  have "foldl select_step (s, w) ts =
      (s \<and> (\<forall>t \<in> set ts. st_fmt t = Q4_K \<longrightarrow> even (st_rows t)), w @ filter shadowable ts)" for s w ts
    by (induction ts arbitrary: s w) (auto simp: step)
  then show ?thesis by (simp add: select_tensors_def)
qed

section \<open>Offsets, payload and spans\<close>

definition tensor_off :: "shadow_tensor list \<Rightarrow> nat \<Rightarrow> nat" where
  "tensor_off want i = sum_list (map tensor_bytes (take i want))"

definition smmla_ok :: "bool \<Rightarrow> shadow_tensor \<Rightarrow> bool" where
  "smmla_ok smmla t \<longleftrightarrow> shadowable t \<and> (smmla \<and> st_fmt t = Q4_K \<longrightarrow> even (st_rows t))"

lemma build_parallel_closed:
  assumes "smmla_ok smmla t"
  shows "build_parallel hc wm t out smmla m =
    (\<lambda>a. if out \<le> a \<and> a < out + tensor_bytes t then shadow_payload wm t smmla (a - out) else m a)"
  using assms unfolding build_parallel_def tensor_bytes_def
  by (intro build_in_order_closed [where hc = hc]) (auto simp: smmla_ok_def)

lemma build_fold:
  assumes "\<forall>t \<in> set want. smmla_ok smmla t" "i < length want" "a < tensor_bytes (want ! i)"
  shows "fst (foldl (\<lambda>(m, off) t. (build_parallel hc wm t off smmla m, off + tensor_bytes t)) (m, off) want)
      (off + tensor_off want i + a) = shadow_payload wm (want ! i) smmla a"
    and "b < off \<Longrightarrow> fst (foldl (\<lambda>(m, off) t. (build_parallel hc wm t off smmla m, off + tensor_bytes t)) (m, off) want) b = m b"
proof -
  let ?f = "\<lambda>(m, off) t. (build_parallel hc wm t off smmla m, off + tensor_bytes t)"
  have low: "fst (foldl ?f (m, off) ts) b = m b" if "\<forall>t \<in> set ts. smmla_ok smmla t" "b < off" for ts m off b
    using that
  proof (induction ts arbitrary: m off)
    case (Cons t ts)
    then show ?case by (simp add: build_parallel_closed)
  qed simp
  show "b < off \<Longrightarrow> fst (foldl ?f (m, off) want) b = m b" using low assms(1) by blast
  show "fst (foldl ?f (m, off) want) (off + tensor_off want i + a) = shadow_payload wm (want ! i) smmla a"
    using assms
  proof (induction want arbitrary: m off i)
    case (Cons t ts)
    then have ok: "smmla_ok smmla t" "\<forall>t \<in> set ts. smmla_ok smmla t" by auto
    show ?case
    proof (cases i)
      case 0
      then have "a < tensor_bytes t" using Cons.prems by simp
      then show ?thesis using 0 low [OF ok(2)] by (simp add: tensor_off_def build_parallel_closed [OF ok(1)])
    next
      case (Suc j)
      then show ?thesis
        using Cons.IH [OF ok(2), of j "build_parallel hc wm t off smmla m" "off + tensor_bytes t"] Cons.prems
        by (simp add: tensor_off_def add.assoc)
    qed
  qed simp
qed

lemma build_all_at:
  assumes "\<forall>t \<in> set want. smmla_ok smmla t" "i < length want" "a < tensor_bytes (want ! i)"
  shows "build_all hc wm smmla want m (tensor_off want i + a) = shadow_payload wm (want ! i) smmla a"
  using build_fold(1) [OF assms, where off = 0] by (simp add: build_all_def)

lemma add_spans_eq:
  "add_spans smmla want spans = spans @ map (\<lambda>i. span_of smmla (want ! i) (tensor_off want i)) [0..<length want]"
proof -
  have "fst (foldl (\<lambda>(spans, off) t. (spans @ [span_of smmla t off], off + tensor_bytes t)) (spans, off) want)
      = spans @ map (\<lambda>i. span_of smmla (want ! i) (off + tensor_off want i)) [0..<length want]" for off
  proof (induction want arbitrary: spans off)
    case (Cons t ts)
    have "[0..<length (t # ts)] = 0 # map Suc [0..<length ts]" by (simp add: upt_conv_Cons map_Suc_upt del: upt_Suc)
    then show ?case by (simp add: Cons tensor_off_def add.assoc comp_def del: upt_Suc)
  qed simp
  then show ?thesis by (simp add: add_spans_def)
qed

section \<open>Finding a span\<close>

definition span_disjoint :: "shadow_span list \<Rightarrow> bool" where
  "span_disjoint spans \<longleftrightarrow> distinct spans \<and> (\<forall>s \<in> set spans. sp_base s < sp_end s) \<and>
    (\<forall>s \<in> set spans. \<forall>s' \<in> set spans. s \<noteq> s' \<longrightarrow> sp_end s \<le> sp_base s' \<or> sp_end s' \<le> sp_base s)"

lemma shadow_find_iff:
  assumes sorted: "sorted (map sp_base spans)" and d: "span_disjoint spans"
  shows "fl_shadow_find spans w = Some s \<longleftrightarrow> s \<in> set spans \<and> sp_base s \<le> w \<and> w < sp_end s"
proof
  assume "fl_shadow_find spans w = Some s"
  then show "s \<in> set spans \<and> sp_base s \<le> w \<and> w < sp_end s"
    unfolding fl_shadow_find_def Let_def
    by (auto split: if_splits dest: last_in_set [THEN set_takeWhileD])
next
  assume s: "s \<in> set spans \<and> sp_base s \<le> w \<and> w < sp_end s"
  then obtain xs ys where sp: "spans = xs @ s # ys" by (meson split_list)
  have "\<not> w < sp_base x" if "x \<in> set xs" for x
    using sorted that s unfolding sp by (auto simp: sorted_append)
  moreover have "w < sp_base y" if y: "y \<in> set ys" for y
  proof -
    have "sp_base s \<le> sp_base y" "s \<noteq> y" using sorted d y unfolding sp by (auto simp: sorted_append span_disjoint_def)
    moreover have "sp_end s \<le> sp_base y \<or> sp_end y \<le> sp_base s" "sp_base y < sp_end y"
      using d y \<open>s \<noteq> y\<close> unfolding sp span_disjoint_def by auto
    ultimately show ?thesis using s by linarith
  qed
  ultimately have "takeWhile (\<lambda>s. \<not> w < sp_base s) spans = xs @ [s]"
    unfolding sp using s by (cases ys) (auto simp: takeWhile_append2)
  then show "fl_shadow_find spans w = Some s" using s by (simp add: fl_shadow_find_def)
qed

definition packed_end :: "shadow_tensor \<Rightarrow> nat" where
  "packed_end t = st_p t + st_rows t * row_bytes (st_fmt t) (st_cols t)"

text \<open>The packed ranges of the tensors do not overlap, and those to shadow are not empty.\<close>

definition tensors_apart :: "shadow_tensor list \<Rightarrow> bool" where
  "tensors_apart ts \<longleftrightarrow> distinct ts \<and> (\<forall>t \<in> set ts. shadowable t \<longrightarrow> st_p t < packed_end t) \<and>
    (\<forall>t \<in> set ts. \<forall>u \<in> set ts. t \<noteq> u \<longrightarrow> packed_end t \<le> st_p u \<or> packed_end u \<le> st_p t)"

definition new_spans :: "bool \<Rightarrow> shadow_tensor list \<Rightarrow> shadow_span list" where
  "new_spans smmla want = sort_key sp_base (add_spans smmla want [])"

lemma span_of_fields [simp]:
  "sp_base (span_of smmla t off) = st_p t" "sp_end (span_of smmla t off) = packed_end t"
  "sp_shadow (span_of smmla t off) = off" "sp_prb (span_of smmla t off) = row_bytes (st_fmt t) (st_cols t)"
  "sp_srb (span_of smmla t off) = shadow_bytes (st_fmt t) (st_cols t)" "sp_fmt (span_of smmla t off) = st_fmt t"
  "sp_smmla (span_of smmla t off) = (smmla \<and> st_fmt t = Q4_K)"
  by (simp_all add: span_of_def packed_end_def Let_def)

lemma new_spans_disjoint:
  assumes want: "distinct want" "\<forall>t \<in> set want. st_p t < packed_end t"
    "\<forall>t \<in> set want. \<forall>u \<in> set want. t \<noteq> u \<longrightarrow> packed_end t \<le> st_p u \<or> packed_end u \<le> st_p t"
  shows "span_disjoint (new_spans smmla want)" "sorted (map sp_base (new_spans smmla want))"
    "set (new_spans smmla want) = {span_of smmla (want ! i) (tensor_off want i) |i. i < length want}"
proof -
  show set: "set (new_spans smmla want) = {span_of smmla (want ! i) (tensor_off want i) |i. i < length want}"
    by (auto simp: new_spans_def add_spans_eq)
  have base: "st_p (want ! i) \<noteq> st_p (want ! j)" if "i < length want" "j < length want" "i \<noteq> j" for i j
  proof -
    have "want ! i \<noteq> want ! j" using that want(1) by (simp add: nth_eq_iff_index_eq)
    then show ?thesis using want(2,3) nth_mem [OF that(1)] nth_mem [OF that(2)] by (metis leD)
  qed
  have "distinct (map (\<lambda>i. span_of smmla (want ! i) (tensor_off want i)) [0..<length want])"
    unfolding distinct_map
  proof (intro conjI distinct_upt inj_onI)
    fix i j assume ij: "i \<in> set [0..<length want]" "j \<in> set [0..<length want]"
      and eq: "span_of smmla (want ! i) (tensor_off want i) = span_of smmla (want ! j) (tensor_off want j)"
    have "st_p (want ! i) = st_p (want ! j)" using arg_cong [OF eq, of sp_base] by simp
    then show "i = j" using base ij by auto
  qed
  then have "distinct (new_spans smmla want)" by (simp add: new_spans_def add_spans_eq)
  moreover have "sp_end s \<le> sp_base s' \<or> sp_end s' \<le> sp_base s"
    if sn: "s \<in> set (new_spans smmla want)" "s' \<in> set (new_spans smmla want)" and ne: "s \<noteq> s'" for s s'
  proof -
    obtain i j where ij: "i < length want" "s = span_of smmla (want ! i) (tensor_off want i)"
        "j < length want" "s' = span_of smmla (want ! j) (tensor_off want j)"
      using sn unfolding set by blast
    then have "want ! i \<noteq> want ! j" using ne want(1) by (auto simp: nth_eq_iff_index_eq)
    then show ?thesis using want(3) ij nth_mem by simp
  qed
  moreover have "sp_base s < sp_end s" if "s \<in> set (new_spans smmla want)" for s
    using that want(2) unfolding set by auto
  ultimately show "span_disjoint (new_spans smmla want)" by (simp add: span_disjoint_def)
  show "sorted (map sp_base (new_spans smmla want))" by (simp add: new_spans_def)
qed

text \<open>The payload holds the shadow of every wanted tensor.\<close>

definition payload_ok :: "bytes \<Rightarrow> bool \<Rightarrow> shadow_tensor list \<Rightarrow> bytes \<Rightarrow> bool" where
  "payload_ok wm smmla want pm \<longleftrightarrow>
    (\<forall>i < length want. \<forall>a < tensor_bytes (want ! i). pm (tensor_off want i + a) = shadow_payload wm (want ! i) smmla a)"

definition fresh_shadow :: shadow_state where "fresh_shadow = \<lparr>sh_spans = [], sh_enabled = False\<rparr>"

lemma init_build:
  assumes "se_mode env \<noteq> SHADOW_OFF" "se_malloc env" "\<exists>t \<in> set tensors. shadowable t"
    "\<And>f. cf = Some f \<Longrightarrow> se_mode env = SHADOW_CACHE \<Longrightarrow> \<not> cache_valid (fst (select_tensors (se_smmla env) tensors)) (filter shadowable tensors) f"
  shows "fl_shadow_init env wm m tensors (fresh_shadow, cf) =
    (let smmla = fst (select_tensors (se_smmla env) tensors); want = filter shadowable tensors;
         pm = build_all (se_hc env) wm smmla want m
     in ((\<lparr>sh_spans = new_spans smmla want, sh_enabled = True\<rparr>,
          if se_mode env = SHADOW_CACHE \<and> se_fopen env then Some (cache_write smmla want pm) else cf), pm))"
proof -
  have "filter shadowable tensors \<noteq> []" using assms(3) by (auto simp: filter_empty_conv)
  then show ?thesis
    using assms by (cases cf) (auto simp: fl_shadow_init_def fresh_shadow_def select_tensors_eq Let_def new_spans_def)
qed

lemma built_payload_ok:
  "payload_ok wm (fst (select_tensors s tensors)) (filter shadowable tensors)
     (build_all hc wm (fst (select_tensors s tensors)) (filter shadowable tensors) m)"
  unfolding payload_ok_def by (intro allI impI build_all_at) (auto simp: select_tensors_eq smmla_ok_def)

text \<open>A row of a wanted tensor, through the registry.\<close>

lemma find_row:
  assumes apart: "tensors_apart tensors" and t: "t \<in> set tensors" "shadowable t" and r: "r < st_rows t"
  defines "want \<equiv> filter shadowable tensors" and "w \<equiv> st_p t + r * row_bytes (st_fmt t) (st_cols t)"
  shows "\<exists>i < length want. want ! i = t \<and> fl_shadow_find (new_spans smmla want) w = Some (span_of smmla t (tensor_off want i))"
proof -
  have tw: "t \<in> set want" using t by (simp add: want_def)
  then obtain i where i: "i < length want" "want ! i = t" by (auto simp: in_set_conv_nth)
  have d: "distinct want" "\<forall>t \<in> set want. st_p t < packed_end t"
    "\<forall>t \<in> set want. \<forall>u \<in> set want. t \<noteq> u \<longrightarrow> packed_end t \<le> st_p u \<or> packed_end u \<le> st_p t"
    using apart by (auto simp: want_def tensors_apart_def)
  have "0 < row_bytes (st_fmt t) (st_cols t)" using d(2) tw by (cases "row_bytes (st_fmt t) (st_cols t)") (auto simp: packed_end_def)
  then have "w < packed_end t"
    using block_before [OF r, of "row_bytes (st_fmt t) (st_cols t)"] unfolding w_def packed_end_def by linarith
  moreover have "span_of smmla t (tensor_off want i) \<in> set (new_spans smmla want)"
    unfolding new_spans_disjoint(3) [OF d] using i by blast
  ultimately have "fl_shadow_find (new_spans smmla want) w = Some (span_of smmla t (tensor_off want i))"
    unfolding shadow_find_iff [OF new_spans_disjoint(2) [OF d] new_spans_disjoint(1) [OF d]] by (simp add: w_def)
  then show ?thesis using i by blast
qed

lemma payload_rows:
  assumes pm: "payload_ok wm smmla want pm" and i: "i < length want" "want ! i = t" and ok: "smmla_ok smmla t" and r: "r < st_rows t"
  defines "prb \<equiv> row_bytes (st_fmt t) (st_cols t)" and "srb \<equiv> shadow_bytes (st_fmt t) (st_cols t)" and "cols \<equiv> unat (st_cols t)"
  shows "st_fmt t = Q4_K \<Longrightarrow> \<not> smmla \<Longrightarrow> dot_i8k_q4_K_shadow (\<lambda>k. pm (tensor_off want i + r * srb + k)) xk cols
      = fl_dot_i8k_q4_K (\<lambda>k. wm (st_p t + r * prb + k)) xk cols"
    and "st_fmt t = Q4_K \<Longrightarrow> smmla \<Longrightarrow> even r \<Longrightarrow> dot2_i8k_q4_K_shadow_smmla (\<lambda>k. pm (tensor_off want i + r div 2 * (srb * 2) + k)) xk cols
      = (fl_dot_i8k_q4_K (\<lambda>k. wm (st_p t + r * prb + k)) xk cols, fl_dot_i8k_q4_K (\<lambda>k. wm (st_p t + (r + 1) * prb + k)) xk cols)"
    and "st_fmt t = Q5_0 \<Longrightarrow> dot_i8_q5_0_shadow (\<lambda>k. pm (tensor_off want i + r * srb + k)) xq cols
      = fl_dot_i8_q5_0 (\<lambda>k. wm (st_p t + r * prb + k)) xq cols"
proof -
  note pay = shadow_payload_def [of wm t, folded srb_def prb_def cols_def, unfolded Let_def]
  have row: "pm (tensor_off want i + r * srb + k) = shadow_payload wm t smmla (r * srb + k)" if "k < srb" for k
    using pm i block_before [OF r, of srb] that unfolding payload_ok_def tensor_bytes_def srb_def by (simp add: add.assoc)
  show "dot_i8k_q4_K_shadow (\<lambda>k. pm (tensor_off want i + r * srb + k)) xk cols
      = fl_dot_i8k_q4_K (\<lambda>k. wm (st_p t + r * prb + k)) xk cols" if f: "st_fmt t = Q4_K" "\<not> smmla"
  proof -
    have "pm (tensor_off want i + r * srb + k) = shadow_row_q4k (\<lambda>k. wm (st_p t + r * prb + k)) cols k" if "k < cols div 256 * 280" for k
    proof -
      have k: "k < srb" using that f by (simp add: srb_def cols_def shadow_bytes_eq)
      then show ?thesis
        unfolding row [OF k] pay using f k by (simp add: add.assoc)
    qed
    then show ?thesis using q4_K_shadow q4_K_i8k_neon by metis
  qed
  show "dot_i8_q5_0_shadow (\<lambda>k. pm (tensor_off want i + r * srb + k)) xq cols
      = fl_dot_i8_q5_0 (\<lambda>k. wm (st_p t + r * prb + k)) xq cols" if f: "st_fmt t = Q5_0"
  proof (rule q5_0_shadow)
    fix k assume "k < cols div 32 * 40"
    then have k: "k < srb" using f by (simp add: srb_def cols_def shadow_bytes_eq)
    then show "pm (tensor_off want i + r * srb + k) = shadow_row_q50 (\<lambda>k. wm (st_p t + r * prb + k)) cols k"
      unfolding row [OF k] pay using f k by (simp add: add.assoc)
  qed
  show "dot2_i8k_q4_K_shadow_smmla (\<lambda>k. pm (tensor_off want i + r div 2 * (srb * 2) + k)) xk cols
      = (fl_dot_i8k_q4_K (\<lambda>k. wm (st_p t + r * prb + k)) xk cols, fl_dot_i8k_q4_K (\<lambda>k. wm (st_p t + (r + 1) * prb + k)) xk cols)"
    if f: "st_fmt t = Q4_K" "smmla" and e: "even r"
  proof (rule q4_K_shadow_pair)
    fix k assume "k < cols div 256 * 560"
    then have k: "k < srb * 2" using f by (simp add: srb_def cols_def shadow_bytes_eq)
    obtain q where q: "r = q * 2" using e by (metis evenE mult.commute)
    have "even (st_rows t)" using ok f by (simp add: smmla_ok_def)
    then obtain n where n: "st_rows t = n * 2" by (metis evenE mult.commute)
    have "q * (srb * 2) + k < tensor_bytes t"
      using block_before [of q n "srb * 2"] k r by (simp add: tensor_bytes_def n q srb_def)
    then have "pm (tensor_off want i + (q * (srb * 2) + k)) = shadow_payload wm t smmla (q * (srb * 2) + k)"
      using pm i by (simp add: payload_ok_def)
    also have "\<dots> = shadow_pair_q4k (\<lambda>k. wm (st_p t + r * prb + k)) (\<lambda>k. wm (st_p t + (r + 1) * prb + k)) k"
      unfolding pay using f k by (simp add: q add.assoc)
    finally show "pm (tensor_off want i + r div 2 * (srb * 2) + k)
        = shadow_pair_q4k (\<lambda>k. wm (st_p t + r * prb + k)) (\<lambda>k. wm (st_p t + (r + 1) * prb + k)) k"
      by (simp add: q add.assoc)
  qed
qed

section \<open>Properties\<close>

text \<open>Whatever the number of threads and the order in which they run, the parallel build of a
  tensor's shadow writes exactly the payload of the tensor and no byte outside it; with row pairs
  no pair is split between threads.\<close>

theorem shadow_build_any_order:
  assumes "shadowable t" "smmla \<and> st_fmt t = Q4_K \<longrightarrow> even (st_rows t)" "mset cs = mset (build_chunks hc (st_rows t))"
  shows "build_in_order cs wm t out smmla m =
    (\<lambda>a. if out \<le> a \<and> a < out + tensor_bytes t then shadow_payload wm t smmla (a - out) else m a)"
  using build_in_order_closed [OF assms(1) _ mset_eq_setD [OF assms(3)], of smmla wm out m] assms(2)
  by (simp add: tensor_bytes_def)

text \<open>C24: After the shadows of tensors in disjoint memory are built, every packed row of a Q4\_K or
  Q5\_0 tensor is found in the registry, its row index is right, and the shadow kernel at the
  address the registry gives returns bit for bit the reference dot of the packed row; with the
  row-pair layout, the pair kernel returns the dots of both rows.\<close>

theorem shadow_rows_bitwise:
  assumes env: "se_mode env = SHADOW_BUILD" "se_malloc env" and apart: "tensors_apart tensors"
    and t: "t \<in> set tensors" "shadowable t" and r: "r < st_rows t"
    and init: "fl_shadow_init env wm m tensors (fresh_shadow, None) = ((st, cf), pm)"
  defines "w \<equiv> st_p t + r * row_bytes (st_fmt t) (st_cols t)"
  shows "\<exists>s. fl_shadow_find (sh_spans st) w = Some s \<and> sp_fmt s = st_fmt t \<and> fl_shadow_row_index s w = r
    \<and> (st_fmt t = Q4_K \<and> \<not> sp_smmla s \<longrightarrow> dot_i8k_q4_K_shadow (\<lambda>k. pm (fl_shadow_row s w + k)) xk (unat (st_cols t))
         = fl_dot_i8k_q4_K (\<lambda>k. wm (w + k)) xk (unat (st_cols t)))
    \<and> (sp_smmla s \<and> even r \<longrightarrow> dot2_i8k_q4_K_shadow_smmla (\<lambda>k. pm (fl_shadow_pair s r + k)) xk (unat (st_cols t))
         = (fl_dot_i8k_q4_K (\<lambda>k. wm (w + k)) xk (unat (st_cols t)),
            fl_dot_i8k_q4_K (\<lambda>k. wm (w + sp_prb s + k)) xk (unat (st_cols t))))
    \<and> (st_fmt t = Q5_0 \<longrightarrow> dot_i8_q5_0_shadow (\<lambda>k. pm (fl_shadow_row s w + k)) xq (unat (st_cols t))
         = fl_dot_i8_q5_0 (\<lambda>k. wm (w + k)) xq (unat (st_cols t)))"
proof -
  define smmla where "smmla = fst (select_tensors (se_smmla env) tensors)"
  define want where "want = filter shadowable tensors"
  have "((st, cf), pm) = fl_shadow_init env wm m tensors (fresh_shadow, None)" using init ..
  also have "\<dots> = ((\<lparr>sh_spans = new_spans smmla want, sh_enabled = True\<rparr>, None), build_all (se_hc env) wm smmla want m)"
    using env t by (subst init_build) (auto simp: smmla_def want_def Let_def)
  finally have st: "sh_spans st = new_spans smmla want" and "pm = build_all (se_hc env) wm smmla want m" by simp_all
  then have pm: "payload_ok wm smmla want pm" by (simp add: smmla_def want_def built_payload_ok)
  obtain i where i: "i < length want" "want ! i = t"
    and find: "fl_shadow_find (new_spans smmla want) w = Some (span_of smmla t (tensor_off want i))"
    using find_row [OF apart t r] unfolding w_def want_def by blast
  have ok: "smmla_ok smmla t" using t by (auto simp: smmla_ok_def smmla_def select_tensors_eq)
  have "0 < row_bytes (st_fmt t) (st_cols t)"
    using apart t by (cases "row_bytes (st_fmt t) (st_cols t)") (auto simp: tensors_apart_def packed_end_def)
  then have ix: "(w - st_p t) div row_bytes (st_fmt t) (st_cols t) = r" by (simp add: w_def)
  define s where "s = span_of smmla t (tensor_off want i)"
  note rows = payload_rows [OF pm i ok r]
  have row: "fl_shadow_row s w = tensor_off want i + r * shadow_bytes (st_fmt t) (st_cols t)"
    by (simp add: fl_shadow_row_def s_def ix)
  have pair: "fl_shadow_pair s r = tensor_off want i + r div 2 * (shadow_bytes (st_fmt t) (st_cols t) * 2)"
    by (simp add: fl_shadow_pair_def s_def)
  have nxt: "w + sp_prb s = st_p t + (r + 1) * row_bytes (st_fmt t) (st_cols t)" by (simp add: w_def s_def)
  show ?thesis
  proof (intro exI [of _ s] conjI impI)
    show "fl_shadow_find (sh_spans st) w = Some s" unfolding st s_def by (rule find)
    show "sp_fmt s = st_fmt t" "fl_shadow_row_index s w = r" by (simp_all add: s_def fl_shadow_row_index_def ix)
  next
    assume "st_fmt t = Q4_K \<and> \<not> sp_smmla s"
    then show "dot_i8k_q4_K_shadow (\<lambda>k. pm (fl_shadow_row s w + k)) xk (unat (st_cols t))
        = fl_dot_i8k_q4_K (\<lambda>k. wm (w + k)) xk (unat (st_cols t))"
      unfolding row unfolding w_def by (intro rows(1)) (auto simp: s_def)
  next
    assume "sp_smmla s \<and> even r"
    then show "dot2_i8k_q4_K_shadow_smmla (\<lambda>k. pm (fl_shadow_pair s r + k)) xk (unat (st_cols t))
        = (fl_dot_i8k_q4_K (\<lambda>k. wm (w + k)) xk (unat (st_cols t)),
           fl_dot_i8k_q4_K (\<lambda>k. wm (w + sp_prb s + k)) xk (unat (st_cols t)))"
      unfolding pair nxt unfolding w_def by (intro rows(2)) (simp_all add: s_def)
  next
    assume "st_fmt t = Q5_0"
    then show "dot_i8_q5_0_shadow (\<lambda>k. pm (fl_shadow_row s w + k)) xq (unat (st_cols t))
        = fl_dot_i8_q5_0 (\<lambda>k. wm (w + k)) xq (unat (st_cols t))"
      unfolding row unfolding w_def by (rule rows(3))
  qed
qed

text \<open>C25: A cache file written by one run is accepted by a later run over tensors of the same names,
  formats and shapes with the same layout, and gives it the same spans and the payload the first
  run built. The weights of the second run play no part: they may differ.\<close>

theorem shadow_cache_roundtrip:
  assumes "se_mode env = SHADOW_CACHE" "se_malloc env" "se_fopen env" "\<exists>t \<in> set tensors. shadowable t"
    and "fl_shadow_init env wm m tensors (fresh_shadow, None) = ((st, cf), pm)"
    and "se_mode env' = SHADOW_CACHE" "se_mmap env'" "se_smmla env' = se_smmla env"
  shows "fl_shadow_init env' wm' m' tensors (fresh_shadow, cf) = ((st, cf), pm)"
proof -
  define smmla where "smmla = fst (select_tensors (se_smmla env) tensors)"
  define want where "want = filter shadowable tensors"
  have sel: "select_tensors (se_smmla env) tensors = (smmla, want)" by (simp add: smmla_def want_def select_tensors_eq)
  have "((st, cf), pm) = fl_shadow_init env wm m tensors (fresh_shadow, None)" using assms(5) ..
  also have "\<dots> = ((\<lparr>sh_spans = new_spans smmla want, sh_enabled = True\<rparr>,
      Some (cache_write smmla want (build_all (se_hc env) wm smmla want m))), build_all (se_hc env) wm smmla want m)"
    using assms(1-4) by (subst init_build) (auto simp: smmla_def want_def Let_def)
  finally have st: "st = \<lparr>sh_spans = new_spans smmla want, sh_enabled = True\<rparr>" "cf = Some (cache_write smmla want pm)" by simp_all
  have "cache_valid smmla want (cache_write smmla want pm)"
    by (simp add: cache_valid_def cache_write_def list_all_iff Let_def)
  moreover have "want \<noteq> []" using assms(4) by (auto simp: want_def filter_empty_conv)
  ultimately show ?thesis
    using assms(6-8) by (simp add: fl_shadow_init_def fresh_shadow_def sel st new_spans_def Let_def cache_write_def)
qed

subsection \<open>Witnesses\<close>

definition demo_tensor :: shadow_tensor where
  "demo_tensor = \<lparr>st_name = ''blk.1.ffn_down_exps.weight'', st_p = 4096, st_fmt = Q5_0, st_cols = 64, st_rows = 3\<rparr>"

definition demo_env :: "shadow_mode \<Rightarrow> shadow_env" where
  "demo_env md = \<lparr>se_mode = md, se_smmla = True, se_hc = 3, se_malloc = True, se_mmap = True, se_fopen = True\<rparr>"

lemma demo_tensor_ok: "shadowable demo_tensor" "tensors_apart [demo_tensor]"
  by (simp_all add: demo_tensor_def shadowable_def tensors_apart_def packed_end_def row_bytes_eq)

theorem shadow_build_any_order_witness:
  "\<forall>wm m. build_in_order [(2, 1), (0, 2)] wm demo_tensor 0 False m 0 = shadow_payload wm demo_tensor False 0"
proof -
  have c: "mset [(2, 1), (0, 2)] = mset (build_chunks 3 (st_rows demo_tensor))"
  proof -
    have "build_chunks 3 (st_rows demo_tensor) = [(0, 2), (2, 1)]" by code_simp
    then show ?thesis by simp
  qed
  show ?thesis
    using shadow_build_any_order [OF demo_tensor_ok(1) _ c, of False _ 0]
    by (simp add: tensor_bytes_def demo_tensor_def shadow_bytes_eq)
qed

theorem shadow_rows_bitwise_witness:
  "\<forall>wm m xq. \<exists>st cf pm. fl_shadow_init (demo_env SHADOW_BUILD) wm m [demo_tensor] (fresh_shadow, None) = ((st, cf), pm)
    \<and> (\<exists>s. fl_shadow_find (sh_spans st) 4140 = Some s \<and> fl_shadow_row_index s 4140 = 1
       \<and> dot_i8_q5_0_shadow (\<lambda>k. pm (fl_shadow_row s 4140 + k)) xq 64 = fl_dot_i8_q5_0 (\<lambda>k. wm (4140 + k)) xq 64)"
proof (intro allI)
  fix wm m xq
  obtain st cf pm where i: "fl_shadow_init (demo_env SHADOW_BUILD) wm m [demo_tensor] (fresh_shadow, None) = ((st, cf), pm)"
    by (metis surj_pair)
  have f: "st_fmt demo_tensor = Q5_0" "1 < st_rows demo_tensor"
      "st_p demo_tensor + 1 * row_bytes (st_fmt demo_tensor) (st_cols demo_tensor) = 4140" "unat (st_cols demo_tensor) = 64"
    by (simp_all add: demo_tensor_def row_bytes_eq)
  have e: "se_mode (demo_env SHADOW_BUILD) = SHADOW_BUILD" "se_malloc (demo_env SHADOW_BUILD)" by (simp_all add: demo_env_def)
  from shadow_rows_bitwise [OF e demo_tensor_ok(2) _ demo_tensor_ok(1) f(2) i, unfolded f(3,4), of undefined xq] f(1)
  show "\<exists>st cf pm. fl_shadow_init (demo_env SHADOW_BUILD) wm m [demo_tensor] (fresh_shadow, None) = ((st, cf), pm)
    \<and> (\<exists>s. fl_shadow_find (sh_spans st) 4140 = Some s \<and> fl_shadow_row_index s 4140 = 1
       \<and> dot_i8_q5_0_shadow (\<lambda>k. pm (fl_shadow_row s 4140 + k)) xq 64 = fl_dot_i8_q5_0 (\<lambda>k. wm (4140 + k)) xq 64)"
    using i by (metis list.set_intros(1))
qed

theorem shadow_cache_roundtrip_witness:
  "\<forall>wm m wm' m'. \<exists>st cf pm. fl_shadow_init (demo_env SHADOW_CACHE) wm m [demo_tensor] (fresh_shadow, None) = ((st, cf), pm)
    \<and> fl_shadow_init (demo_env SHADOW_CACHE) wm' m' [demo_tensor] (fresh_shadow, cf) = ((st, cf), pm)"
proof (intro allI)
  fix wm m wm' m'
  obtain st cf pm where i: "fl_shadow_init (demo_env SHADOW_CACHE) wm m [demo_tensor] (fresh_shadow, None) = ((st, cf), pm)"
    by (metis surj_pair)
  moreover have "fl_shadow_init (demo_env SHADOW_CACHE) wm' m' [demo_tensor] (fresh_shadow, cf) = ((st, cf), pm)"
    by (rule shadow_cache_roundtrip [OF _ _ _ _ i]) (simp_all add: demo_env_def demo_tensor_ok)
  ultimately show "\<exists>st cf pm. fl_shadow_init (demo_env SHADOW_CACHE) wm m [demo_tensor] (fresh_shadow, None) = ((st, cf), pm)
    \<and> fl_shadow_init (demo_env SHADOW_CACHE) wm' m' [demo_tensor] (fresh_shadow, cf) = ((st, cf), pm)" by blast
qed

end
