(* ===== verification/FL_Metrics.thy ===== *)
theory FL_Metrics
  imports FL_Progress FL_Shadow_Init
begin

text \<open>
  The metrics of a run: the counters the workers and the GPU blocks keep while they execute
  (\<open>exec_and_publish\<close> of \<open>src/src/runtime/runtime.cpp\<close>, the leader's part of \<open>gpu_exec.cu\<close>), the
  snapshot \<open>run\<close> takes before it publishes, and the differences it returns. The counters are never
  reset and wrap at their width. The theorem: what \<open>run\<close> reports is what \<open>run_serial\<close> reports on the
  same graph, however the tasks were spread over the executors and whatever the counters held.
  Times are inputs; the percentiles of the handoff samples are not modelled.
\<close>

section \<open>Counters\<close>

record engine_metrics =
  em_tiles :: u64
  em_bytes :: u64
  em_busy_ns :: u64
  em_stolen :: u64

record worker_metrics =
  wm_m :: engine_metrics
  wm_kind_ns :: "u64 list"
  wm_kind_n :: "u64 list"

record block_metrics =
  bm_m :: engine_metrics
  bm_claim_ns :: u64
  bm_sleep_ns :: u64
  bm_exec_ns :: u64
  bm_epi_ns :: u64
  bm_polls :: u64
  bm_empty :: u64
  bm_retry :: u64
  bm_kind_ns :: "u64 list"   \<comment> \<open>row of \<open>gpu_kind_ns\<close>\<close>
  bm_kind_n :: "u32 list"    \<comment> \<open>row of \<open>gpu_kind_n\<close>\<close>

definition add_at :: "'a::len word list \<Rightarrow> nat \<Rightarrow> 'a word \<Rightarrow> 'a word list" where
  "add_at xs k v = xs[k := xs ! k + v]"

text \<open>The weight bytes a task streams on a worker; a tile served from the shadow is charged its share of
  the shadow rows.\<close>

definition streamed_bytes :: "bool \<Rightarrow> shadow_span list \<Rightarrow> task \<Rightarrow> u64" where
  "streamed_bytes shadow_on spans t =
    (if is_dot (t_kind t)
     then if shadow_on \<and> (t_fmt t = Q4_K \<or> t_fmt t = Q5_0)
          then (case fl_shadow_find spans (unat (t_w t)) of
                  Some sp \<Rightarrow> t_w_bytes t * of_nat (sp_srb sp) div of_nat (sp_prb sp)
                | None \<Rightarrow> t_w_bytes t)
          else t_w_bytes t
     else 0)"

text \<open>One task executed by a worker between the clock readings \<open>ev_claim\<close> and \<open>ev_end\<close>.\<close>

record exec_event =
  ev_task :: nat
  ev_claim :: u64
  ev_end :: u64
  ev_stolen :: bool

definition account_task :: "graph \<Rightarrow> bool \<Rightarrow> shadow_span list \<Rightarrow> exec_event \<Rightarrow> worker_metrics \<Rightarrow> worker_metrics" where
  "account_task g shadow_on spans e wm =
    (let t = g_tasks g ! ev_task e; k = kind_code (t_kind t); dt = ev_end e - ev_claim e; lm = wm_m wm in
     \<lparr>wm_m = \<lparr>em_tiles = em_tiles lm + 1, em_bytes = em_bytes lm + streamed_bytes shadow_on spans t,
        em_busy_ns = em_busy_ns lm + dt, em_stolen = em_stolen lm + (if ev_stolen e then 1 else 0)\<rparr>,
      wm_kind_ns = add_at (wm_kind_ns wm) k dt, wm_kind_n = add_at (wm_kind_n wm) k 1\<rparr>)"

text \<open>One batch executed by a GPU block: its tasks with the leader's time in each, the time of the batch and
  the number of stolen tasks. Kinds are stamped for the decode operations, and for all under profiling.\<close>

record gpu_batch =
  gb_tasks :: "(nat \<times> u64) list"
  gb_busy :: u64
  gb_stolen :: u64

definition stamped :: "bool \<Rightarrow> task \<Rightarrow> bool" where
  "stamped prof t \<longleftrightarrow> kind_code RMSNORM \<le> kind_code (t_kind t) \<or> prof"

definition stamp_task :: "graph \<Rightarrow> bool \<Rightarrow> nat \<times> u64 \<Rightarrow> block_metrics \<Rightarrow> block_metrics" where
  "stamp_task g prof = (\<lambda>(i, ns) bm. let t = g_tasks g ! i; k = kind_code (t_kind t) in
     if stamped prof t
     then bm\<lparr>bm_kind_ns := add_at (bm_kind_ns bm) k ns, bm_kind_n := add_at (bm_kind_n bm) k 1\<rparr> else bm)"

definition account_batch :: "graph \<Rightarrow> bool \<Rightarrow> gpu_batch \<Rightarrow> block_metrics \<Rightarrow> block_metrics" where
  "account_batch g prof b bm =
    (let bm = fold (stamp_task g prof) (gb_tasks b) bm; m = bm_m bm in
     bm\<lparr>bm_m := \<lparr>em_tiles = em_tiles m + of_nat (length (gb_tasks b)),
       em_bytes = em_bytes m + fold (\<lambda>(i, ns) bytes. let t = g_tasks g ! i in
         if is_dot (t_kind t) then bytes + t_w_bytes t else bytes) (gb_tasks b) 0,
       em_busy_ns = em_busy_ns m + gb_busy b, em_stolen = em_stolen m + gb_stolen b\<rparr>\<rparr>)"

section \<open>Collection\<close>

record run_metrics =
  rm_gpu :: engine_metrics
  rm_cpu :: engine_metrics
  rm_wall_ns :: u64
  rm_reset_ns :: u64
  rm_kind_ns :: "u64 list"
  rm_kind_n :: "u64 list"
  rm_gpu_kind_ns :: "u64 list"
  rm_gpu_kind_n :: "u64 list"
  rm_gpu_claim_ns :: u64
  rm_gpu_sleep_ns :: u64
  rm_gpu_exec_ns :: u64
  rm_gpu_epi_ns :: u64
  rm_gpu_polls :: u64
  rm_gpu_empty :: u64
  rm_gpu_retry :: u64
  rm_gpu_blocks_active :: u32

definition engine_metrics0 :: engine_metrics where
  "engine_metrics0 = \<lparr>em_tiles = 0, em_bytes = 0, em_busy_ns = 0, em_stolen = 0\<rparr>"

definition run_metrics0 :: run_metrics where
  "run_metrics0 = (let z = replicate kNumTaskKinds 0 in
    \<lparr>rm_gpu = engine_metrics0, rm_cpu = engine_metrics0, rm_wall_ns = 0, rm_reset_ns = 0,
     rm_kind_ns = z, rm_kind_n = z, rm_gpu_kind_ns = z, rm_gpu_kind_n = z, rm_gpu_claim_ns = 0, rm_gpu_sleep_ns = 0,
     rm_gpu_exec_ns = 0, rm_gpu_epi_ns = 0, rm_gpu_polls = 0, rm_gpu_empty = 0, rm_gpu_retry = 0,
     rm_gpu_blocks_active = 0\<rparr>)"

text \<open>\<open>acc += now - then\<close> on the engine fields, and on the kinds.\<close>

definition add_engine_diff :: "engine_metrics \<Rightarrow> engine_metrics \<Rightarrow> engine_metrics \<Rightarrow> engine_metrics" where
  "add_engine_diff acc now old =
    \<lparr>em_tiles = em_tiles acc + (em_tiles now - em_tiles old), em_bytes = em_bytes acc + (em_bytes now - em_bytes old),
     em_busy_ns = em_busy_ns acc + (em_busy_ns now - em_busy_ns old),
     em_stolen = em_stolen acc + (em_stolen now - em_stolen old)\<rparr>"

definition add_kind_diff :: "u64 list \<Rightarrow> 'a::len word list \<Rightarrow> 'a word list \<Rightarrow> u64 list" where
  "add_kind_diff acc now old = map (\<lambda>k. acc ! k + ucast (now ! k - old ! k)) [0..<kNumTaskKinds]"

definition collect_worker :: "worker_metrics \<times> worker_metrics \<Rightarrow> run_metrics \<Rightarrow> run_metrics" where
  "collect_worker = (\<lambda>(now, old) m. m\<lparr>rm_cpu := add_engine_diff (rm_cpu m) (wm_m now) (wm_m old),
     rm_kind_ns := add_kind_diff (rm_kind_ns m) (wm_kind_ns now) (wm_kind_ns old),
     rm_kind_n := add_kind_diff (rm_kind_n m) (wm_kind_n now) (wm_kind_n old)\<rparr>)"

definition collect_block :: "block_metrics \<times> block_metrics \<Rightarrow> run_metrics \<Rightarrow> run_metrics" where
  "collect_block = (\<lambda>(now, old) m. let dp = bm_polls now - bm_polls old in
    m\<lparr>rm_gpu := add_engine_diff (rm_gpu m) (bm_m now) (bm_m old),
      rm_gpu_claim_ns := rm_gpu_claim_ns m + (bm_claim_ns now - bm_claim_ns old),
      rm_gpu_sleep_ns := rm_gpu_sleep_ns m + (bm_sleep_ns now - bm_sleep_ns old),
      rm_gpu_exec_ns := rm_gpu_exec_ns m + (bm_exec_ns now - bm_exec_ns old),
      rm_gpu_epi_ns := rm_gpu_epi_ns m + (bm_epi_ns now - bm_epi_ns old),
      rm_gpu_polls := rm_gpu_polls m + dp,
      rm_gpu_empty := rm_gpu_empty m + (bm_empty now - bm_empty old),
      rm_gpu_retry := rm_gpu_retry m + (bm_retry now - bm_retry old),
      rm_gpu_blocks_active := (if dp \<noteq> 0 then rm_gpu_blocks_active m + 1 else rm_gpu_blocks_active m),
      rm_gpu_kind_ns := add_kind_diff (rm_gpu_kind_ns m) (bm_kind_ns now) (bm_kind_ns old),
      rm_gpu_kind_n := add_kind_diff (rm_gpu_kind_n m) (bm_kind_n now) (bm_kind_n old)\<rparr>)"

definition collect :: "u64 \<Rightarrow> u64 \<Rightarrow> worker_metrics list \<Rightarrow> worker_metrics list \<Rightarrow> block_metrics list \<Rightarrow> block_metrics list
    \<Rightarrow> run_metrics" where
  "collect wall reset wnow wsnap gnow gsnap =
    fold collect_block (zip gnow gsnap)
      (fold collect_worker (zip wnow wsnap) (run_metrics0\<lparr>rm_wall_ns := wall, rm_reset_ns := reset\<rparr>))"

text \<open>The counters after worker \<open>w\<close> executed the events \<open>es w\<close> and block \<open>b\<close> the batches \<open>bs b\<close>.\<close>

definition workers_after :: "graph \<Rightarrow> bool \<Rightarrow> shadow_span list \<Rightarrow> (nat \<Rightarrow> exec_event list) \<Rightarrow> worker_metrics list \<Rightarrow> worker_metrics list" where
  "workers_after g shadow_on spans es snap =
     map (\<lambda>w. fold (account_task g shadow_on spans) (es w) (snap ! w)) [0..<length snap]"

definition blocks_after :: "graph \<Rightarrow> bool \<Rightarrow> (nat \<Rightarrow> gpu_batch list) \<Rightarrow> block_metrics list \<Rightarrow> block_metrics list" where
  "blocks_after g prof bs snap = map (\<lambda>b. fold (account_batch g prof) (bs b) (snap ! b)) [0..<length snap]"

section \<open>What is counted\<close>

abbreviation task_kind_code :: "graph \<Rightarrow> nat \<Rightarrow> nat" where
  "task_kind_code g i \<equiv> kind_code (t_kind (g_tasks g ! i))"

definition dot_bytes :: "graph \<Rightarrow> nat \<Rightarrow> u64" where
  "dot_bytes g i = (if is_dot (t_kind (g_tasks g ! i)) then t_w_bytes (g_tasks g ! i) else 0)"

definition has_kind :: "graph \<Rightarrow> nat \<Rightarrow> nat \<Rightarrow> u64" where
  "has_kind g k i = of_bool (task_kind_code g i = k)"

lemma add_at_nth [simp]: "length (add_at xs j v) = length xs"
  "k < length xs \<Longrightarrow> add_at xs j v ! k = xs ! k + (if k = j then v else 0)"
  by (auto simp: add_at_def nth_list_update)

lemma streamed_no_shadow [simp]: "streamed_bytes False spans (g_tasks g ! i) = dot_bytes g i"
  by (simp add: streamed_bytes_def dot_bytes_def)

lemma workers_count:
  "em_tiles (wm_m (fold (account_task g False spans) es wm)) = em_tiles (wm_m wm) + (\<Sum>i\<leftarrow>map ev_task es. 1)"
  "em_bytes (wm_m (fold (account_task g False spans) es wm)) = em_bytes (wm_m wm) + (\<Sum>i\<leftarrow>map ev_task es. dot_bytes g i)"
  "length (wm_kind_n wm) = kNumTaskKinds \<Longrightarrow> k < kNumTaskKinds \<Longrightarrow>
    wm_kind_n (fold (account_task g False spans) es wm) ! k = wm_kind_n wm ! k + (\<Sum>i\<leftarrow>map ev_task es. has_kind g k i)"
  by (induction es arbitrary: wm) (auto simp: account_task_def Let_def has_kind_def add.assoc)

lemma serial_count:
  "length (m_kind_n m) = kNumTaskKinds \<Longrightarrow> k < kNumTaskKinds \<Longrightarrow>
    m_kind_n (fold (\<lambda>n. count_task (g_tasks g ! n)) xs m) ! k = m_kind_n m ! k + (\<Sum>i\<leftarrow>xs. has_kind g k i)"
  by (induction xs arbitrary: m)
    (auto simp: count_task_def Let_def has_kind_def add.assoc nth_list_update)

lemma stamp_task_m [simp]: "bm_m (fold (stamp_task g prof) xs bm) = bm_m bm"
  by (induction xs arbitrary: bm) (auto simp: stamp_task_def Let_def)

lemma stamp_count:
  assumes "\<And>t. kind_code (t_kind t) = k \<Longrightarrow> stamped prof t" and "k < kNumTaskKinds"
  shows "length (bm_kind_n bm) = kNumTaskKinds \<Longrightarrow>
    length (bm_kind_n (fold (stamp_task g prof) xs bm)) = kNumTaskKinds \<and>
    bm_kind_n (fold (stamp_task g prof) xs bm) ! k =
      bm_kind_n bm ! k + of_nat (length (filter (\<lambda>i. task_kind_code g i = k) (map fst xs)))"
proof (induction xs arbitrary: bm)
  case (Cons x xs)
  obtain i ns where x: "x = (i, ns)" by (cases x)
  have "length (bm_kind_n (stamp_task g prof x bm)) = kNumTaskKinds \<and>
      bm_kind_n (stamp_task g prof x bm) ! k = bm_kind_n bm ! k + of_bool (task_kind_code g i = k)"
    using Cons.prems assms by (auto simp: x stamp_task_def Let_def)
  then show ?case using Cons.IH [of "stamp_task g prof x bm"] by (simp add: x)
qed simp

lemma batch_bytes:
  "fold (\<lambda>(i, ns) bytes. let t = g_tasks g ! i in if is_dot (t_kind t) then bytes + t_w_bytes t else bytes) xs c
     = c + (\<Sum>i\<leftarrow>map fst xs. dot_bytes g i)"
  by (induction xs arbitrary: c) (auto simp: dot_bytes_def Let_def add.assoc)

definition batch_tasks :: "gpu_batch list \<Rightarrow> nat list" where
  "batch_tasks bs = concat (map (\<lambda>b. map fst (gb_tasks b)) bs)"

lemma batch_tasks_simps [simp]:
  "batch_tasks [] = []" "batch_tasks (b # bs) = map fst (gb_tasks b) @ batch_tasks bs"
  by (simp_all add: batch_tasks_def)

lemma length_sum: "of_nat (length xs) = (\<Sum>i\<leftarrow>xs. 1 :: u64)"
  by (induction xs) auto

lemma account_batch_m:
  "em_tiles (bm_m (account_batch g prof b bm)) = em_tiles (bm_m bm) + (\<Sum>i\<leftarrow>map fst (gb_tasks b). 1)"
  "em_bytes (bm_m (account_batch g prof b bm)) = em_bytes (bm_m bm) + (\<Sum>i\<leftarrow>map fst (gb_tasks b). dot_bytes g i)"
  unfolding account_batch_def Let_def [where 'a = block_metrics] Let_def [where 'a = engine_metrics] batch_bytes
  by (simp_all add: length_sum comp_def)

lemma blocks_count:
  "em_tiles (bm_m (fold (account_batch g prof) bs bm)) = em_tiles (bm_m bm) + (\<Sum>i\<leftarrow>batch_tasks bs. 1)"
  "em_bytes (bm_m (fold (account_batch g prof) bs bm)) = em_bytes (bm_m bm) + (\<Sum>i\<leftarrow>batch_tasks bs. dot_bytes g i)"
proof (induction bs arbitrary: bm)
  case (Cons b bs)
  { case 1
    show ?case unfolding fold_Cons o_apply Cons.IH(1) account_batch_m batch_tasks_simps map_append sum_list_append
      by (simp only: add.assoc) }
  { case 2
    show ?case unfolding fold_Cons o_apply Cons.IH(2) account_batch_m batch_tasks_simps map_append sum_list_append
      by (simp only: add.assoc) }
qed simp_all

lemma blocks_kind_count:
  assumes "\<And>t. kind_code (t_kind t) = k \<Longrightarrow> stamped prof t" and "k < kNumTaskKinds"
  shows "length (bm_kind_n bm) = kNumTaskKinds \<Longrightarrow>
    bm_kind_n (fold (account_batch g prof) bs bm) ! k =
      bm_kind_n bm ! k + of_nat (length (filter (\<lambda>i. task_kind_code g i = k) (batch_tasks bs)))"
proof (induction bs arbitrary: bm)
  case (Cons b bs)
  have s: "bm_kind_n (account_batch g prof b bm) = bm_kind_n (fold (stamp_task g prof) (gb_tasks b) bm)"
    by (simp add: account_batch_def Let_def)
  note c = stamp_count [OF assms Cons.prems, of g "gb_tasks b"]
  from Cons.IH [of "account_batch g prof b bm"] c show ?case by (simp add: s add.assoc)
qed simp

section \<open>What is collected\<close>

lemma collect_cpu:
  "em_tiles (rm_cpu (collect wall reset wnow wsnap gnow gsnap)) =
    (\<Sum>(now, old)\<leftarrow>zip wnow wsnap. em_tiles (wm_m now) - em_tiles (wm_m old))"
  "em_bytes (rm_cpu (collect wall reset wnow wsnap gnow gsnap)) =
    (\<Sum>(now, old)\<leftarrow>zip wnow wsnap. em_bytes (wm_m now) - em_bytes (wm_m old))"
  "k < kNumTaskKinds \<Longrightarrow> rm_kind_n (collect wall reset wnow wsnap gnow gsnap) ! k =
    (\<Sum>(now, old)\<leftarrow>zip wnow wsnap. wm_kind_n now ! k - wm_kind_n old ! k)"
proof -
  have b: "rm_cpu (fold collect_block xs m) = rm_cpu m" "rm_kind_n (fold collect_block xs m) = rm_kind_n m" for xs m
    by (induction xs arbitrary: m) (auto simp: collect_block_def Let_def)
  have w: "em_tiles (rm_cpu (fold collect_worker xs m)) =
        em_tiles (rm_cpu m) + (\<Sum>(now, old)\<leftarrow>xs. em_tiles (wm_m now) - em_tiles (wm_m old))"
      "em_bytes (rm_cpu (fold collect_worker xs m)) =
        em_bytes (rm_cpu m) + (\<Sum>(now, old)\<leftarrow>xs. em_bytes (wm_m now) - em_bytes (wm_m old))" for xs m
    by (induction xs arbitrary: m) (auto simp: collect_worker_def add_engine_diff_def)
  have k: "rm_kind_n (fold collect_worker xs m) ! k =
        rm_kind_n m ! k + (\<Sum>(now, old)\<leftarrow>xs. wm_kind_n now ! k - wm_kind_n old ! k)" if "k < kNumTaskKinds" for xs m
    using that by (induction xs arbitrary: m) (auto simp: collect_worker_def add_kind_diff_def)
  show "em_tiles (rm_cpu (collect wall reset wnow wsnap gnow gsnap)) =
      (\<Sum>(now, old)\<leftarrow>zip wnow wsnap. em_tiles (wm_m now) - em_tiles (wm_m old))"
    "em_bytes (rm_cpu (collect wall reset wnow wsnap gnow gsnap)) =
      (\<Sum>(now, old)\<leftarrow>zip wnow wsnap. em_bytes (wm_m now) - em_bytes (wm_m old))"
    by (simp_all add: collect_def b w run_metrics0_def engine_metrics0_def Let_def)
  show "k < kNumTaskKinds \<Longrightarrow> rm_kind_n (collect wall reset wnow wsnap gnow gsnap) ! k =
      (\<Sum>(now, old)\<leftarrow>zip wnow wsnap. wm_kind_n now ! k - wm_kind_n old ! k)"
    by (simp add: collect_def b k run_metrics0_def Let_def)
qed

lemma collect_gpu:
  "em_tiles (rm_gpu (collect wall reset wnow wsnap gnow gsnap)) =
    (\<Sum>(now, old)\<leftarrow>zip gnow gsnap. em_tiles (bm_m now) - em_tiles (bm_m old))"
  "em_bytes (rm_gpu (collect wall reset wnow wsnap gnow gsnap)) =
    (\<Sum>(now, old)\<leftarrow>zip gnow gsnap. em_bytes (bm_m now) - em_bytes (bm_m old))"
  "k < kNumTaskKinds \<Longrightarrow> rm_gpu_kind_n (collect wall reset wnow wsnap gnow gsnap) ! k =
    (\<Sum>(now, old)\<leftarrow>zip gnow gsnap. ucast (bm_kind_n now ! k - bm_kind_n old ! k))"
proof -
  have w: "rm_gpu (fold collect_worker xs m) = rm_gpu m" "rm_gpu_kind_n (fold collect_worker xs m) = rm_gpu_kind_n m" for xs m
    by (induction xs arbitrary: m) (auto simp: collect_worker_def)
  have b: "em_tiles (rm_gpu (fold collect_block xs m)) =
        em_tiles (rm_gpu m) + (\<Sum>(now, old)\<leftarrow>xs. em_tiles (bm_m now) - em_tiles (bm_m old))"
      "em_bytes (rm_gpu (fold collect_block xs m)) =
        em_bytes (rm_gpu m) + (\<Sum>(now, old)\<leftarrow>xs. em_bytes (bm_m now) - em_bytes (bm_m old))" for xs m
    by (induction xs arbitrary: m) (auto simp: collect_block_def add_engine_diff_def Let_def)
  have k: "rm_gpu_kind_n (fold collect_block xs m) ! k =
        rm_gpu_kind_n m ! k + (\<Sum>(now, old)\<leftarrow>xs. ucast (bm_kind_n now ! k - bm_kind_n old ! k))"
    if "k < kNumTaskKinds" for xs m
    using that by (induction xs arbitrary: m) (auto simp: collect_block_def add_kind_diff_def Let_def)
  show "em_tiles (rm_gpu (collect wall reset wnow wsnap gnow gsnap)) =
      (\<Sum>(now, old)\<leftarrow>zip gnow gsnap. em_tiles (bm_m now) - em_tiles (bm_m old))"
    "em_bytes (rm_gpu (collect wall reset wnow wsnap gnow gsnap)) =
      (\<Sum>(now, old)\<leftarrow>zip gnow gsnap. em_bytes (bm_m now) - em_bytes (bm_m old))"
    by (simp_all add: collect_def b w run_metrics0_def engine_metrics0_def Let_def)
  show "k < kNumTaskKinds \<Longrightarrow> rm_gpu_kind_n (collect wall reset wnow wsnap gnow gsnap) ! k =
      (\<Sum>(now, old)\<leftarrow>zip gnow gsnap. ucast (bm_kind_n now ! k - bm_kind_n old ! k))"
    by (simp add: collect_def w k run_metrics0_def Let_def)
qed

lemma sum_zip_snap:
  "(\<Sum>(now, old)\<leftarrow>zip (map (\<lambda>w. f w (snap ! w)) [0..<length snap]) snap. d now old) =
    (\<Sum>w<length snap. d (f w (snap ! w)) (snap ! w))"
proof -
  have "zip (map (\<lambda>w. f w (snap ! w)) [0..<length snap]) snap = map (\<lambda>w. (f w (snap ! w), snap ! w)) [0..<length snap]"
    by (rule nth_equalityI) auto
  then show ?thesis by (simp add: comp_def interv_sum_list_conv_sum_set_nat atLeast0LessThan)
qed

text \<open>A sum over the log is the sum over the executors of what each executed.\<close>

lemma filter_sum:
  fixes h :: "nat \<Rightarrow> u64"
  shows "(\<Sum>i\<leftarrow>filter P (x # xs). h i) = (if P x then h x else 0) + (\<Sum>i\<leftarrow>filter P xs. h i)"
  by simp

lemma executors_partition:
  fixes h :: "nat \<Rightarrow> u64"
  assumes "\<forall>i \<in> set xs. who i \<in> Cpu ` {..<nc} \<union> Gpu ` {..<nb}"
  shows "(\<Sum>w<nc. \<Sum>i\<leftarrow>filter (\<lambda>i. who i = Cpu w) xs. h i) + (\<Sum>b<nb. \<Sum>i\<leftarrow>filter (\<lambda>i. who i = Gpu b) xs. h i)
    = (\<Sum>i\<leftarrow>xs. h i)"
  using assms
proof (induction xs)
  case (Cons x xs)
  have x: "(\<Sum>w<nc. if who x = Cpu w then h x else 0) + (\<Sum>b<nb. if who x = Gpu b then h x else 0) = h x"
    using Cons.prems by (cases "who x") auto
  have IH: "(\<Sum>w<nc. \<Sum>i\<leftarrow>filter (\<lambda>i. who i = Cpu w) xs. h i) + (\<Sum>b<nb. \<Sum>i\<leftarrow>filter (\<lambda>i. who i = Gpu b) xs. h i)
      = (\<Sum>i\<leftarrow>xs. h i)" using Cons by simp
  show ?case
    unfolding filter_sum sum.distrib list.map sum_list.Cons using x IH by (metis (no_types, lifting) add.assoc add.left_commute)
qed simp

lemma narrow_count: "c < 2 ^ 32 \<Longrightarrow> (ucast (of_nat c :: u32) :: u64) = of_nat c"
  by (rule word_unat_eq_iff [THEN iffD2]) (simp add: unat_of_nat unat_ucast_u32_u64 take_bit_nat_eq_self)

lemma kind_length: "of_nat (length (filter (\<lambda>i. task_kind_code g i = k) xs)) = (\<Sum>i\<leftarrow>xs. has_kind g k i)"
  by (induction xs) (auto simp: has_kind_def)

lemma log_serial_sum:
  fixes h :: "nat \<Rightarrow> u64"
  assumes inv: "rt_inv sc exec g mem0 s" and g: "frozen_graph g" and r: "r_host s = HRet"
  shows "(\<Sum>i\<leftarrow>r_log s. h i) = (\<Sum>i\<leftarrow>gr.order g. h i)"
  using sum_list_distinct_conv_sum_set [OF rt_log_distinct [OF inv], of h]
    sum_list_distinct_conv_sum_set [OF frozen_order(1) [OF g], of h]
    returned_complete(1) [OF inv g r] frozen_order(2) [OF g] by simp

definition kinds_sized :: "worker_metrics list \<Rightarrow> block_metrics list \<Rightarrow> bool" where
  "kinds_sized ws bs \<longleftrightarrow> (\<forall>w \<in> set ws. length (wm_kind_n w) = kNumTaskKinds) \<and>
     (\<forall>b \<in> set bs. length (bm_kind_n b) = kNumTaskKinds)"

text \<open>
  \<open>es w\<close> and \<open>bs b\<close> are what the executors did when \<open>who\<close> executed the tasks of the log.
\<close>

definition executed_by :: "(nat \<Rightarrow> agent) \<Rightarrow> nat list \<Rightarrow> (nat \<Rightarrow> exec_event list) \<Rightarrow> (nat \<Rightarrow> gpu_batch list) \<Rightarrow> bool" where
  "executed_by who log es bs \<longleftrightarrow> (\<forall>w. map ev_task (es w) = filter (\<lambda>i. who i = Cpu w) log) \<and>
     (\<forall>b. batch_tasks (bs b) = filter (\<lambda>i. who i = Gpu b) log)"

lemma collect_sum:
  fixes h :: "nat \<Rightarrow> u64"
  assumes ex: "executed_by who log es bs" and who: "\<forall>i \<in> set log. who i \<in> Cpu ` {..<nc} \<union> Gpu ` {..<nb}"
    and cpu: "\<And>w. w < nc \<Longrightarrow> c w = (\<Sum>i\<leftarrow>map ev_task (es w). h i)"
    and gpu: "\<And>b. b < nb \<Longrightarrow> u b = (\<Sum>i\<leftarrow>batch_tasks (bs b). h i)"
  shows "(\<Sum>w<nc. c w) + (\<Sum>b<nb. u b) = (\<Sum>i\<leftarrow>log. h i)"
proof -
  have "(\<Sum>w<nc. c w) = (\<Sum>w<nc. \<Sum>i\<leftarrow>filter (\<lambda>i. who i = Cpu w) log. h i)"
    by (rule sum.cong [OF refl]) (simp only: lessThan_iff cpu ex [unfolded executed_by_def, THEN conjunct1, rule_format])
  moreover have "(\<Sum>b<nb. u b) = (\<Sum>b<nb. \<Sum>i\<leftarrow>filter (\<lambda>i. who i = Gpu b) log. h i)"
    by (rule sum.cong [OF refl]) (simp only: lessThan_iff gpu ex [unfolded executed_by_def, THEN conjunct2, rule_format])
  ultimately show ?thesis using executors_partition [OF who, of h] by simp
qed

lemma collect_counts:
  fixes h :: "nat \<Rightarrow> u64"
  assumes ex: "executed_by who log es bs"
    and who: "\<forall>i \<in> set log. who i \<in> Cpu ` {..<length wsnap} \<union> Gpu ` {..<length gsnap}"
    and sized: "kinds_sized wsnap gsnap" and small: "length log < 2 ^ 32"
    and m: "m = collect wall reset (workers_after g False spans es wsnap) wsnap (blocks_after g prof bs gsnap) gsnap"
  shows "em_tiles (rm_cpu m) + em_tiles (rm_gpu m) = (\<Sum>i\<leftarrow>log. 1)"
    and "em_bytes (rm_cpu m) + em_bytes (rm_gpu m) = (\<Sum>i\<leftarrow>log. dot_bytes g i)"
    and "k < kNumTaskKinds \<Longrightarrow> (\<And>t. kind_code (t_kind t) = k \<Longrightarrow> stamped prof t) \<Longrightarrow>
      rm_kind_n m ! k + rm_gpu_kind_n m ! k = (\<Sum>i\<leftarrow>log. has_kind g k i)"
proof -
  note z = m collect_cpu collect_gpu workers_after_def blocks_after_def
    sum_zip_snap [where f = "\<lambda>w. fold (account_task g False spans) (es w)"]
    sum_zip_snap [where f = "\<lambda>b. fold (account_batch g prof) (bs b)"]
  show "em_tiles (rm_cpu m) + em_tiles (rm_gpu m) = (\<Sum>i\<leftarrow>log. 1)"
    unfolding z by (rule collect_sum [OF ex who]) (simp_all only: workers_count blocks_count add_diff_cancel_left')
  show "em_bytes (rm_cpu m) + em_bytes (rm_gpu m) = (\<Sum>i\<leftarrow>log. dot_bytes g i)"
    unfolding z by (rule collect_sum [OF ex who]) (simp_all only: workers_count blocks_count add_diff_cancel_left')
  assume k: "k < kNumTaskKinds" and st: "\<And>t. kind_code (t_kind t) = k \<Longrightarrow> stamped prof t"
  show "rm_kind_n m ! k + rm_gpu_kind_n m ! k = (\<Sum>i\<leftarrow>log. has_kind g k i)"
    unfolding m collect_cpu(3) [OF k] collect_gpu(3) [OF k] workers_after_def blocks_after_def
      sum_zip_snap [where f = "\<lambda>w. fold (account_task g False spans) (es w)"]
      sum_zip_snap [where f = "\<lambda>b. fold (account_batch g prof) (bs b)"]
  proof (rule collect_sum [OF ex who])
    fix w assume "w < length wsnap"
    then have "length (wm_kind_n (wsnap ! w)) = kNumTaskKinds" using sized by (simp add: kinds_sized_def)
    from workers_count(3) [OF this k]
    show "wm_kind_n (fold (account_task g False spans) (es w) (wsnap ! w)) ! k - wm_kind_n (wsnap ! w) ! k =
        (\<Sum>i\<leftarrow>map ev_task (es w). has_kind g k i)" by simp
  next
    fix b assume "b < length gsnap"
    then have l: "length (bm_kind_n (gsnap ! b)) = kNumTaskKinds" using sized by (simp add: kinds_sized_def)
    have "length (filter (\<lambda>i. task_kind_code g i = k) (batch_tasks (bs b))) \<le> length log"
      unfolding ex [unfolded executed_by_def, THEN conjunct2, rule_format]
      by (rule le_trans [OF length_filter_le length_filter_le])
    then have "length (filter (\<lambda>i. task_kind_code g i = k) (batch_tasks (bs b))) < 2 ^ 32"
      using small by (rule le_less_trans)
    note narrow = narrow_count [OF this, unfolded kind_length]
    have "bm_kind_n (fold (account_batch g prof) (bs b) (gsnap ! b)) ! k = bm_kind_n (gsnap ! b) ! k +
        of_nat (length (filter (\<lambda>i. task_kind_code g i = k) (batch_tasks (bs b))))"
      by (rule blocks_kind_count [OF _ k l]) (rule st)
    with narrow
    show "ucast (bm_kind_n (fold (account_batch g prof) (bs b) (gsnap ! b)) ! k - bm_kind_n (gsnap ! b) ! k) =
        (\<Sum>i\<leftarrow>batch_tasks (bs b). has_kind g k i)"
      by (simp only: add_diff_cancel_left')
  qed
qed

lemma idle_blocks: "batch_tasks bs = [] \<Longrightarrow>
    fold (account_batch g prof) bs bm = fold (account_batch g True) bs bm"
  by (induction bs arbitrary: bm) (simp_all add: account_batch_def)

section \<open>The report of a run\<close>

text \<open>What \<open>run\<close> reports is what \<open>run_serial\<close> reports. Take a run that returned, any attribution of the
  executed tasks to workers and GPU blocks, any times, and any values of the counters before the run,
  wrapped or not. The tiles and the weight bytes of the two engines add up to those \<open>run_serial\<close> counts
  on the same graph (the bytes when no shadow is on), and so do the counts of every task kind the GPU
  stamps: the decode operations always, all kinds under profiling or without a GPU.\<close>

theorem run_metrics_agree_with_serial:
  assumes g: "frozen_graph g" and reach: "rt_reach sc exec g (rt_start g mem0 rr) s" and r: "r_host s = HRet"
    and who: "\<forall>i < graph_size g. who i \<in> executors sc" and ex: "executed_by who (r_log s) es bs"
    and sizes: "length wsnap = sc_cpu_threads sc" "length gsnap = kMaxGpuBlocks" "kinds_sized wsnap gsnap"
    and limits: "sc_gpu_blocks sc \<le> kMaxGpuBlocks" "graph_size g < 2 ^ 32"
    and m: "m = collect wall reset (workers_after g False spans es wsnap) wsnap (blocks_after g prof bs gsnap) gsnap"
    and serial: "sm = snd (run_serial exec g mem0)"
  shows "em_tiles (rm_cpu m) + em_tiles (rm_gpu m) = m_tiles sm
    \<and> em_bytes (rm_cpu m) + em_bytes (rm_gpu m) = m_bytes sm
    \<and> (\<forall>k < kNumTaskKinds. prof \<or> kind_code RMSNORM \<le> k \<or> \<not> sc_gpu_enabled sc \<longrightarrow>
         rm_kind_n m ! k + rm_gpu_kind_n m ! k = m_kind_n sm ! k)"
proof -
  note inv = rt_inv_reach [OF reach g]
  have all: "set (r_log s) = {..<graph_size g}" by (rule returned_complete(1) [OF inv g r])
  then have small: "length (r_log s) < 2 ^ 32"
    using distinct_card [OF rt_log_distinct [OF inv]] limits(2) by simp
  have ag: "\<forall>i \<in> set (r_log s). who i \<in> Cpu ` {..<length wsnap} \<union> Gpu ` {..<length gsnap}"
  proof
    fix i assume "i \<in> set (r_log s)"
    then have "who i \<in> executors sc" using all who by simp
    then show "who i \<in> Cpu ` {..<length wsnap} \<union> Gpu ` {..<length gsnap}"
      using limits(1) by (auto simp: executors_def sizes split: if_splits)
  qed
  have sm: "sm = fold (\<lambda>n. count_task (g_tasks g ! n)) (gr.order g) serial_metrics0"
    by (simp add: serial run_serial_fold fold_serial_visit)
  note c = collect_counts [OF ex ag sizes(3) small] and o' = log_serial_sum [OF inv g r]
  have "rm_kind_n m ! k + rm_gpu_kind_n m ! k = m_kind_n sm ! k"
    if k: "k < kNumTaskKinds" and st: "prof \<or> kind_code RMSNORM \<le> k \<or> \<not> sc_gpu_enabled sc" for k
  proof -
    have "m_kind_n sm ! k = (\<Sum>i\<leftarrow>r_log s. has_kind g k i)"
      unfolding sm o' using k by (subst serial_count) (simp_all add: serial_metrics0_def)
    moreover have "rm_kind_n m ! k + rm_gpu_kind_n m ! k = (\<Sum>i\<leftarrow>r_log s. has_kind g k i)"
    proof (cases "prof \<or> kind_code RMSNORM \<le> k")
      case True
      then show ?thesis by (intro c(3) [OF m k]) (auto simp: stamped_def)
    next
      case False
      with st who have "filter (\<lambda>i. who i = Gpu b) (r_log s) = []" for b
        unfolding filter_empty_conv all by (auto simp: executors_def)
      then have "batch_tasks (bs b) = []" for b using ex by (simp add: executed_by_def)
      then have "blocks_after g prof bs gsnap = blocks_after g True bs gsnap"
        unfolding blocks_after_def by (intro map_cong refl idle_blocks)
      then show ?thesis by (intro c(3) [OF m [unfolded \<open>blocks_after g prof bs gsnap = _\<close>] k]) (simp add: stamped_def)
    qed
    ultimately show ?thesis by simp
  qed
  moreover have "em_tiles (rm_cpu m) + em_tiles (rm_gpu m) = m_tiles sm"
    unfolding c(1) [OF m] sm m_tiles_fold length_sum o' by (simp add: serial_metrics0_def)
  moreover have "em_bytes (rm_cpu m) + em_bytes (rm_gpu m) = m_bytes sm"
    unfolding c(2) [OF m] sm m_bytes_fold o' dot_bytes_def by (simp add: serial_metrics0_def)
  ultimately show ?thesis by blast
qed

definition demo_worker :: worker_metrics where
  "demo_worker = \<lparr>wm_m = \<lparr>em_tiles = - 1, em_bytes = - 1, em_busy_ns = 7, em_stolen = 0\<rparr>,
     wm_kind_ns = replicate kNumTaskKinds 0, wm_kind_n = replicate kNumTaskKinds (- 1)\<rparr>"

definition demo_block :: block_metrics where
  "demo_block = \<lparr>bm_m = engine_metrics0, bm_claim_ns = 0, bm_sleep_ns = 0, bm_exec_ns = 0, bm_epi_ns = 0, bm_polls = 0,
     bm_empty = 0, bm_retry = 0, bm_kind_ns = replicate kNumTaskKinds 0, bm_kind_n = replicate kNumTaskKinds 0\<rparr>"

text \<open>One worker executes the whole log, its counters about to wrap.\<close>

definition demo_events :: "nat list \<Rightarrow> nat \<Rightarrow> exec_event list" where
  "demo_events log w = (if w = 0 then map (\<lambda>i. \<lparr>ev_task = i, ev_claim = 10, ev_end = 25, ev_stolen = False\<rparr>) log else [])"

theorem run_metrics_agree_with_serial_witness:
  "\<exists>s m. rt_reach cpu_only add_id demo_frozen (rt_start demo_frozen 0 (\<lambda>_. 0)) s \<and> r_host s = HRet \<and>
     m = collect 0 0 (workers_after demo_frozen False [] (demo_events (r_log s)) (replicate (sc_cpu_threads cpu_only) demo_worker))
       (replicate (sc_cpu_threads cpu_only) demo_worker)
       (blocks_after demo_frozen False (\<lambda>_. []) (replicate kMaxGpuBlocks demo_block)) (replicate kMaxGpuBlocks demo_block) \<and>
     em_tiles (rm_cpu m) + em_tiles (rm_gpu m) = m_tiles (snd (run_serial add_id demo_frozen 0))"
proof -
  obtain s where s: "rt_reach cpu_only add_id demo_frozen (rt_start demo_frozen 0 (\<lambda>_. 0)) s" "r_host s = HRet"
    using demo_returns by blast
  have t: "0 < sc_cpu_threads cpu_only" "sc_gpu_blocks cpu_only \<le> kMaxGpuBlocks" by code_simp+
  have who: "\<forall>i < graph_size demo_frozen. (\<lambda>_. Cpu 0) i \<in> executors cpu_only"
    using t(1) by (simp add: executors_def)
  have ex: "executed_by (\<lambda>_. Cpu 0) (r_log s) (demo_events (r_log s)) (\<lambda>_. [])"
    by (simp add: executed_by_def demo_events_def comp_def)
  have l: "length (replicate (sc_cpu_threads cpu_only) demo_worker) = sc_cpu_threads cpu_only"
    "length (replicate kMaxGpuBlocks demo_block) = kMaxGpuBlocks" by simp_all
  have z: "kinds_sized (replicate (sc_cpu_threads cpu_only) demo_worker) (replicate kMaxGpuBlocks demo_block)"
    by (simp add: kinds_sized_def demo_worker_def demo_block_def)
  have n: "graph_size demo_frozen < 2 ^ 32" by (simp add: demo_frozen_size)
  from run_metrics_agree_with_serial [OF demo_frozen_ok s who ex l z t(2) n refl refl] s
  show ?thesis by blast
qed

end
