(* ===== verification/FL_Suffix.thy ===== *)
theory FL_Suffix
  imports FL_Prelude
begin

text \<open>
  The draft source \<open>SuffixIndex\<close> of \<open>src/spec/suffix_index.h\<close>: hash chains over the token stream,
  the walk that keeps the longest suffix match, and the proof that the chains enumerate exactly
  the earlier positions with the same hash, so that the draft is the continuation of the longest
  (on ties the most recent) earlier occurrence of the current tail.
\<close>

unbundle bit_operations_syntax

section \<open>State and operations\<close>

type_synonym tok = u32

record suffix_index =
  sx_cap :: nat
  sx_min :: nat
  sx_toks :: "tok list"
  sx_prev :: "int list"
  sx_head :: "u64 \<rightharpoonup> int"

definition gram_h :: nat where "gram_h = 3"

definition suffix_new :: "nat \<Rightarrow> nat \<Rightarrow> suffix_index" where
  "suffix_new cap mn = \<lparr>sx_cap = cap, sx_min = mn, sx_toks = [], sx_prev = [], sx_head = Map.empty\<rparr>"

definition suffix_reset :: "suffix_index \<Rightarrow> suffix_index" where
  "suffix_reset x = x\<lparr>sx_toks := [], sx_prev := [], sx_head := Map.empty\<rparr>"

definition hash_mix :: "u64 \<Rightarrow> tok \<Rightarrow> u64" where
  "hash_mix x t = x XOR (ucast t + 0x9e3779b97f4a7c15 + push_bit 6 x + drop_bit 2 x)"

definition gram_hash :: "tok list \<Rightarrow> nat \<Rightarrow> u64" where
  "gram_hash ts start = fold (\<lambda>i x. hash_mix x (ts ! (start + i))) [0..<gram_h] 0x9e3779b97f4a7c15"

definition gram_eq :: "tok list \<Rightarrow> nat \<Rightarrow> nat \<Rightarrow> bool" where
  "gram_eq ts a b \<longleftrightarrow> (\<forall>i < gram_h. ts ! (a + i) = ts ! (b + i))"

definition suffix_push :: "tok \<Rightarrow> suffix_index \<Rightarrow> suffix_index" where
  "suffix_push t x =
    (let ts = sx_toks x @ [t]; pv = sx_prev x @ [-1]; n = length ts in
     if n < gram_h then x\<lparr>sx_toks := ts, sx_prev := pv\<rparr>
     else let h = gram_hash ts (n - gram_h);
              pv' = (case sx_head x h of None \<Rightarrow> pv | Some e \<Rightarrow> pv[n - 1 := e])
          in x\<lparr>sx_toks := ts, sx_prev := pv', sx_head := (sx_head x)(h \<mapsto> int (n - 1))\<rparr>)"

text \<open>\<open>while (len < e + 1 && len < n - 1 && toks[e - len] == toks[n - 1 - len]) ++len;\<close>\<close>

function match_len :: "tok list \<Rightarrow> nat \<Rightarrow> nat \<Rightarrow> nat" where
  "match_len ts e len =
    (if len < e + 1 \<and> len < length ts - 1 \<and> ts ! (e - len) = ts ! (length ts - 1 - len)
     then match_len ts e (Suc len) else len)"
  by pat_completeness auto
termination by (relation "measure (\<lambda>(ts, e, len). Suc e - len)") auto

declare match_len.simps [simp del]

text \<open>What a draft can be asked to report (\<open>Diag\<close>).\<close>

record draft_diag =
  dg_gram_seen :: nat
  dg_cands :: nat
  dg_best_len :: nat
  dg_walked :: nat

record draft_best =
  db_end :: int
  db_len :: nat
  db_cands :: nat

text \<open>One candidate of the walk.\<close>

definition draft_visit :: "tok list \<Rightarrow> nat \<Rightarrow> draft_best \<Rightarrow> draft_best" where
  "draft_visit ts e b =
    (let n = length ts in
     if e = n - 1 then b
     else if \<not> gram_eq ts (e + 1 - gram_h) (n - gram_h) then b
     else let len = match_len ts e gram_h; b' = b\<lparr>db_cands := db_cands b + 1\<rparr> in
          if db_len b < len then b'\<lparr>db_end := int e, db_len := len\<rparr> else b')"

text \<open>The chain walk; \<open>left\<close> is \<open>chain_cap - walked\<close>.\<close>

fun draft_walk :: "suffix_index \<Rightarrow> nat \<Rightarrow> int \<Rightarrow> nat \<Rightarrow> draft_best \<Rightarrow> draft_best \<times> nat" where
  "draft_walk x 0 e walked b = (b, walked)"
| "draft_walk x (Suc left) e walked b =
     (if e < 0 then (b, walked)
      else draft_walk x left (sx_prev x ! nat e) (Suc walked) (draft_visit (sx_toks x) (nat e) b))"

definition no_diag :: draft_diag where
  "no_diag = \<lparr>dg_gram_seen = 0, dg_cands = 0, dg_best_len = 0, dg_walked = 0\<rparr>"

definition suffix_draft :: "suffix_index \<Rightarrow> int \<Rightarrow> tok list \<times> draft_diag" where
  "suffix_draft x n_max =
    (let ts = sx_toks x; n = length ts in
     if n < gram_h \<or> n_max \<le> 0 then ([], no_diag)
     else case sx_head x (gram_hash ts (n - gram_h)) of
       None \<Rightarrow> ([], no_diag)
     | Some e0 \<Rightarrow>
       (let (b, walked) = draft_walk x (sx_cap x) e0 0 \<lparr>db_end = -1, db_len = 0, db_cands = 0\<rparr>;
            dg = \<lparr>dg_gram_seen = 1, dg_cands = db_cands b, dg_best_len = db_len b, dg_walked = walked\<rparr>
        in if db_end b < 0 \<or> db_len b < sx_min x then ([], dg)
           else (take (nat n_max) (drop (nat (db_end b) + 1) ts), dg)))"

section \<open>The chains\<close>

definition end_hash :: "tok list \<Rightarrow> nat \<Rightarrow> u64" where
  "end_hash ts e = gram_hash ts (e + 1 - gram_h)"

text \<open>The end positions below \<open>n\<close> whose gram has hash \<open>h\<close>, latest first.\<close>

definition chain :: "tok list \<Rightarrow> u64 \<Rightarrow> nat \<Rightarrow> nat list" where
  "chain ts h n = filter (\<lambda>e. end_hash ts e = h) (rev [gram_h - 1..<n])"

definition first_or :: "nat list \<Rightarrow> int" where
  "first_or xs = (case xs of [] \<Rightarrow> -1 | e # _ \<Rightarrow> int e)"

definition suffix_inv :: "suffix_index \<Rightarrow> bool" where
  "suffix_inv x \<longleftrightarrow> (let ts = sx_toks x; n = length ts in
     length (sx_prev x) = n
     \<and> (\<forall>h. sx_head x h = (case chain ts h n of [] \<Rightarrow> None | e # _ \<Rightarrow> Some (int e)))
     \<and> (\<forall>e < n. gram_h - 1 \<le> e \<longrightarrow> sx_prev x ! e = first_or (chain ts (end_hash ts e) e)))"

lemma suffix_new_inv: "suffix_inv (suffix_new cap mn)"
  by (simp add: suffix_inv_def suffix_new_def chain_def Let_def)

lemma suffix_reset_inv: "suffix_inv (suffix_reset x)"
  by (simp add: suffix_inv_def suffix_reset_def chain_def Let_def)

lemma gram_hash_append: "start + gram_h \<le> length ts \<Longrightarrow> gram_hash (ts @ us) start = gram_hash ts start"
  unfolding gram_hash_def by (rule fold_cong) (auto simp: nth_append gram_h_def)

lemma end_hash_append: "e < length ts \<Longrightarrow> gram_h - 1 \<le> e \<Longrightarrow> end_hash (ts @ us) e = end_hash ts e"
  unfolding end_hash_def by (rule gram_hash_append) (simp add: gram_h_def)

lemma chain_append: "n \<le> length ts \<Longrightarrow> chain (ts @ us) h n = chain ts h n"
  unfolding chain_def by (rule filter_cong) (auto simp: end_hash_append)

lemma chain_Suc:
  "gram_h - 1 \<le> n \<Longrightarrow> chain ts h (Suc n) = (if end_hash ts n = h then n # chain ts h n else chain ts h n)"
  by (simp add: chain_def)

lemma chain_short: "n < gram_h \<Longrightarrow> chain ts h n = []"
  by (simp add: chain_def)

lemma chain_Cons: "chain ts h n = e # es \<Longrightarrow> es = chain ts h e \<and> e < n \<and> gram_h - 1 \<le> e \<and> end_hash ts e = h"
proof (induction n)
  case 0
  then show ?case by (simp add: chain_def)
next
  case (Suc n)
  show ?case
  proof (cases "gram_h - 1 \<le> n")
    case True
    then show ?thesis using Suc by (auto simp: chain_Suc split: if_splits)
  next
    case False
    then show ?thesis using Suc.prems by (simp add: chain_def)
  qed
qed

lemma suffix_push_toks [simp]: "sx_toks (suffix_push t x) = sx_toks x @ [t]"
  by (simp add: suffix_push_def Let_def)

lemma suffix_push_params [simp]: "sx_cap (suffix_push t x) = sx_cap x" "sx_min (suffix_push t x) = sx_min x"
  by (simp_all add: suffix_push_def Let_def)

lemma suffix_push_inv:
  assumes "suffix_inv x"
  shows "suffix_inv (suffix_push t x)"
proof -
  let ?ts = "sx_toks x" and ?us = "sx_toks x @ [t]" and ?y = "suffix_push t x"
  let ?n = "length ?ts"
  have I: "length (sx_prev x) = ?n"
    "\<And>h. sx_head x h = (case chain ?ts h ?n of [] \<Rightarrow> None | e # _ \<Rightarrow> Some (int e))"
    "\<And>e. e < ?n \<Longrightarrow> gram_h - 1 \<le> e \<Longrightarrow> sx_prev x ! e = first_or (chain ?ts (end_hash ?ts e) e)"
    using assms by (auto simp: suffix_inv_def Let_def)
  have ch: "chain ?us h m = chain ?ts h m" if "m \<le> ?n" for h m using chain_append [OF that] .
  show ?thesis
  proof (cases "Suc ?n < gram_h")
    case True
    then have y: "sx_prev ?y = sx_prev x @ [-1]" "sx_head ?y = sx_head x" by (simp_all add: suffix_push_def Let_def)
    have "chain ?ts h ?n = []" "chain ?us h (Suc ?n) = []" for h using True by (simp_all add: chain_short)
    moreover have "\<not> gram_h - 1 \<le> e" if "e < Suc ?n" for e using that True by simp
    ultimately show ?thesis using I(1,2) by (auto simp: suffix_inv_def Let_def y)
  next
    case False
    let ?h = "gram_hash ?us (Suc ?n - gram_h)"
    have eh: "end_hash ?us ?n = ?h" by (simp add: end_hash_def)
    have ge: "gram_h - 1 \<le> ?n" using False by (simp add: gram_h_def)
    have y: "sx_prev ?y = sx_prev x @ [first_or (chain ?ts ?h ?n)]"
      "sx_head ?y = (sx_head x)(?h \<mapsto> int ?n)"
      using False I(1,2) by (auto simp: suffix_push_def Let_def first_or_def list_update_append split: list.splits option.splits)
    show ?thesis
      unfolding suffix_inv_def Let_def suffix_push_toks
    proof (intro conjI allI impI)
      show "length (sx_prev ?y) = length ?us" using I(1) y by simp
      show "sx_head ?y h = (case chain ?us h (length ?us) of [] \<Rightarrow> None | e # _ \<Rightarrow> Some (int e))" for h
        using I(2) [of h] by (simp add: y chain_Suc [OF ge] eh ch)
      show "sx_prev ?y ! e = first_or (chain ?us (end_hash ?us e) e)" if "e < length ?us" "gram_h - 1 \<le> e" for e
      proof (cases "e < ?n")
        case True
        then show ?thesis using I(1) I(3) [OF True that(2)] that(2)
          by (simp add: y nth_append end_hash_append ch)
      next
        case False
        then have "e = ?n" using that(1) by simp
        then show ?thesis using I(1) by (simp add: y nth_append eh ch)
      qed
    qed
  qed
qed

text \<open>The walk visits the chain, latest first, as far as the cap allows.\<close>

lemma draft_walk_chain:
  assumes "suffix_inv x"
  shows "m \<le> length (sx_toks x) \<Longrightarrow>
    fst (draft_walk x left (first_or (chain (sx_toks x) h m)) walked b) =
      fold (draft_visit (sx_toks x)) (take left (chain (sx_toks x) h m)) b"
proof (induction left arbitrary: m walked b)
  case 0
  then show ?case by simp
next
  case (Suc left)
  show ?case
  proof (cases "chain (sx_toks x) h m")
    case Nil
    then show ?thesis by (simp add: first_or_def)
  next
    case (Cons e es)
    from chain_Cons [OF Cons] have e: "es = chain (sx_toks x) h e" "e < m" "gram_h - 1 \<le> e"
      "end_hash (sx_toks x) e = h" by auto
    then have "sx_prev x ! e = first_or es" using assms Suc.prems by (simp add: suffix_inv_def Let_def)
    then show ?thesis using Suc.IH [of e "Suc walked"] e Suc.prems Cons by (simp add: first_or_def)
  qed
qed

text \<open>The index after a stream of tokens.\<close>

definition suffix_of :: "nat \<Rightarrow> nat \<Rightarrow> tok list \<Rightarrow> suffix_index" where
  "suffix_of cap mn ts = fold suffix_push ts (suffix_new cap mn)"

lemma suffix_of_facts:
  "suffix_inv (suffix_of cap mn ts)" "sx_toks (suffix_of cap mn ts) = ts"
  "sx_cap (suffix_of cap mn ts) = cap" "sx_min (suffix_of cap mn ts) = mn"
proof -
  have "suffix_inv x \<Longrightarrow> suffix_inv (fold suffix_push ts x) \<and> sx_toks (fold suffix_push ts x) = sx_toks x @ ts
    \<and> sx_cap (fold suffix_push ts x) = sx_cap x \<and> sx_min (fold suffix_push ts x) = sx_min x" for x
  proof (induction ts arbitrary: x)
    case (Cons t ts)
    show ?case using Cons.IH [OF suffix_push_inv [OF Cons.prems]] by simp
  qed simp
  from this [OF suffix_new_inv [of cap mn]]
  show "suffix_inv (suffix_of cap mn ts)" "sx_toks (suffix_of cap mn ts) = ts"
    "sx_cap (suffix_of cap mn ts) = cap" "sx_min (suffix_of cap mn ts) = mn"
    by (simp_all add: suffix_of_def) (simp_all add: suffix_new_def)
qed

section \<open>The longest earlier occurrence\<close>

text \<open>The last \<open>L\<close> tokens are also the \<open>L\<close> tokens ending at position \<open>e\<close>.\<close>

definition suffix_match :: "tok list \<Rightarrow> nat \<Rightarrow> nat \<Rightarrow> bool" where
  "suffix_match ts e L \<longleftrightarrow> L \<le> e + 1 \<and> L \<le> length ts - 1 \<and> (\<forall>i < L. ts ! (e - i) = ts ! (length ts - 1 - i))"

lemma suffix_match_mono: "suffix_match ts e L \<Longrightarrow> K \<le> L \<Longrightarrow> suffix_match ts e K"
  by (auto simp: suffix_match_def)

lemma match_len_match: "suffix_match ts e l \<Longrightarrow> l \<le> match_len ts e l \<and> suffix_match ts e (match_len ts e l)
    \<and> \<not> suffix_match ts e (Suc (match_len ts e l))"
proof (induction ts e l rule: match_len.induct)
  case (1 ts e len)
  let ?c = "len < e + 1 \<and> len < length ts - 1 \<and> ts ! (e - len) = ts ! (length ts - 1 - len)"
  have step: "suffix_match ts e (Suc len) \<longleftrightarrow> ?c"
    using 1(2) by (auto simp: suffix_match_def less_Suc_eq)
  show ?case
  proof (cases ?c)
    case True
    have "match_len ts e len = match_len ts e (Suc len)" using True by (subst match_len.simps) simp
    then show ?thesis using 1(1) [OF True] step True by auto
  next
    case False
    then have "match_len ts e len = len" by (subst match_len.simps) auto
    then show ?thesis using 1(2) step False by simp
  qed
qed

lemma match_len_iff:
  assumes "suffix_match ts e gram_h"
  shows "suffix_match ts e L \<longleftrightarrow> L \<le> match_len ts e gram_h"
  using match_len_match [OF assms] suffix_match_mono by (metis not_less_eq_eq)

lemma gram_eq_match:
  assumes "e + 1 < length ts" "gram_h - 1 \<le> e"
  shows "gram_eq ts (e + 1 - gram_h) (length ts - gram_h) \<longleftrightarrow> suffix_match ts e gram_h"
proof -
  have three: "(\<forall>i < 3. P i) \<longleftrightarrow> P 0 \<and> P 1 \<and> P 2" for P :: "nat \<Rightarrow> bool"
    by (auto simp: numeral_eq_Suc less_Suc_eq)
  have "2 \<le> e" "4 \<le> length ts" using assms by (simp_all add: gram_h_def)
  then obtain k m where k: "e = k + 2" and m: "length ts = m + 4" by (metis le_add_diff_inverse2)
  show ?thesis
    unfolding gram_eq_def suffix_match_def gram_h_def three k m by (auto simp: numeral_eq_Suc)
qed

text \<open>\<open>e\<close> is an earlier position where a full gram of the tail ends.\<close>

definition candidate :: "tok list \<Rightarrow> nat \<Rightarrow> bool" where
  "candidate ts e \<longleftrightarrow> e + 1 < length ts \<and> suffix_match ts e gram_h"

definition best_of :: "tok list \<Rightarrow> nat set \<Rightarrow> draft_best \<Rightarrow> bool" where
  "best_of ts A b \<longleftrightarrow>
     (if \<forall>e \<in> A. \<not> candidate ts e then db_end b = -1 \<and> db_len b = 0
      else \<exists>e \<in> A. candidate ts e \<and> db_end b = int e \<and> db_len b = match_len ts e gram_h
        \<and> (\<forall>d \<in> A. candidate ts d \<longrightarrow> match_len ts d gram_h < match_len ts e gram_h
             \<or> match_len ts d gram_h = match_len ts e gram_h \<and> d \<le> e))"

lemma candidate_len: "candidate ts e \<Longrightarrow> gram_h \<le> match_len ts e gram_h"
  using match_len_match by (auto simp: candidate_def)

lemma draft_visit_best:
  assumes b: "best_of ts A b" and e: "e < length ts" "gram_h - 1 \<le> e" and lt: "\<forall>d \<in> A. e < d"
  shows "best_of ts (insert e A) (draft_visit ts e b)"
proof -
  have c: "candidate ts e \<longleftrightarrow> e \<noteq> length ts - 1 \<and> gram_eq ts (e + 1 - gram_h) (length ts - gram_h)"
    using gram_eq_match [of e ts] e by (auto simp: candidate_def)
  show ?thesis
  proof (cases "candidate ts e")
    case False
    then have v: "draft_visit ts e b = b" using c by (auto simp: draft_visit_def Let_def)
    have x: "(\<forall>d \<in> insert e A. \<not> candidate ts d) \<longleftrightarrow> (\<forall>d \<in> A. \<not> candidate ts d)" using False by blast
    show ?thesis using b unfolding v best_of_def x using False by (auto split: if_splits)
  next
    case True
    let ?L = "match_len ts e gram_h"
    have v: "draft_visit ts e b = (if db_len b < ?L then b\<lparr>db_cands := db_cands b + 1, db_end := int e, db_len := ?L\<rparr>
        else b\<lparr>db_cands := db_cands b + 1\<rparr>)"
      using True c by (simp add: draft_visit_def Let_def)
    show ?thesis
    proof (cases "\<forall>d \<in> A. \<not> candidate ts d")
      case none: True
      then have "db_len b = 0" using b by (simp add: best_of_def)
      moreover have "0 < ?L" using candidate_len [OF True] by (simp add: gram_h_def)
      ultimately show ?thesis using True none v by (auto simp: best_of_def)
    next
      case False
      then obtain d where d: "d \<in> A" "candidate ts d" "db_end b = int d" "db_len b = match_len ts d gram_h"
        "\<forall>d' \<in> A. candidate ts d' \<longrightarrow> match_len ts d' gram_h < match_len ts d gram_h
             \<or> match_len ts d' gram_h = match_len ts d gram_h \<and> d' \<le> d"
        using b unfolding best_of_def if_not_P [OF False] by blast
      have nx: "\<not> (\<forall>d \<in> insert e A. \<not> candidate ts d)" using True by blast
      show ?thesis
      proof (cases "db_len b < ?L")
        case True
        then have "\<forall>d' \<in> insert e A. candidate ts d' \<longrightarrow> match_len ts d' gram_h < ?L \<or> match_len ts d' gram_h = ?L \<and> d' \<le> e"
          using d by fastforce
        then show ?thesis unfolding best_of_def using nx \<open>candidate ts e\<close> v True by auto
      next
        case False
        then have "\<forall>d' \<in> insert e A. candidate ts d' \<longrightarrow> match_len ts d' gram_h < match_len ts d gram_h
             \<or> match_len ts d' gram_h = match_len ts d gram_h \<and> d' \<le> d"
          using d lt by (auto simp: not_less le_less dest: bspec [of A _ d])
        then show ?thesis unfolding best_of_def using nx v False d by auto
      qed
    qed
  qed
qed

lemma fold_draft_visit:
  assumes "sorted_wrt (>) xs" "\<forall>e \<in> set xs. e < length ts \<and> gram_h - 1 \<le> e"
  shows "best_of ts (set xs) (fold (draft_visit ts) xs \<lparr>db_end = -1, db_len = 0, db_cands = 0\<rparr>)"
  using assms
proof (induction xs rule: rev_induct)
  case Nil
  then show ?case by (simp add: best_of_def)
next
  case (snoc e xs)
  then have "best_of ts (set xs) (fold (draft_visit ts) xs \<lparr>db_end = -1, db_len = 0, db_cands = 0\<rparr>)"
    by (simp add: sorted_wrt_append)
  from draft_visit_best [OF this, of e] snoc.prems show ?case by (simp add: sorted_wrt_append)
qed

lemma chain_sorted: "sorted_wrt (>) (chain ts h n)"
  unfolding chain_def by (rule sorted_wrt_filter) (simp add: sorted_wrt_rev)

lemma chain_mem: "e \<in> set (chain ts h n) \<longleftrightarrow> gram_h - 1 \<le> e \<and> e < n \<and> end_hash ts e = h"
  by (auto simp: chain_def)

lemma chain_length: "length (chain ts h n) \<le> n"
  unfolding chain_def by (rule le_trans [OF length_filter_le]) simp

text \<open>What a draft does, from the candidates the cap lets it see.\<close>

definition seen_ends :: "nat \<Rightarrow> tok list \<Rightarrow> nat set" where
  "seen_ends cap ts = set (take cap (chain ts (gram_hash ts (length ts - gram_h)) (length ts)))"

lemma suffix_draft_best:
  fixes ts cap mn n_max
  defines "x \<equiv> suffix_of cap mn ts"
  assumes n: "gram_h \<le> length ts" "0 < n_max"
  shows "\<exists>b. best_of ts (seen_ends cap ts) b \<and> fst (suffix_draft x n_max) =
    (if db_end b < 0 \<or> db_len b < mn then [] else take (nat n_max) (drop (nat (db_end b) + 1) ts))"
proof -
  let ?n = "length ts" and ?h = "gram_hash ts (length ts - gram_h)"
  let ?b0 = "\<lparr>db_end = -1, db_len = 0, db_cands = 0\<rparr> :: draft_best"
  note F = suffix_of_facts [of cap mn ts, folded x_def]
  have hd: "sx_head x ?h = (case chain ts ?h ?n of [] \<Rightarrow> None | e # _ \<Rightarrow> Some (int e))"
    using F(1,2) by (simp add: suffix_inv_def Let_def)
  have sorted: "sorted_wrt (>) (take cap (chain ts ?h ?n))"
    using chain_sorted by (rule sorted_wrt_take)
  have "\<forall>e \<in> set (take cap (chain ts ?h ?n)). e < ?n \<and> gram_h - 1 \<le> e"
    using chain_mem in_set_takeD by metis
  from fold_draft_visit [OF sorted this]
  have best: "best_of ts (seen_ends cap ts) (fold (draft_visit ts) (take cap (chain ts ?h ?n)) ?b0)"
    by (simp add: seen_ends_def)
  have w: "fst (draft_walk x cap (first_or (chain ts ?h ?n)) 0 ?b0) = fold (draft_visit ts) (take cap (chain ts ?h ?n)) ?b0"
    using draft_walk_chain [OF F(1), of ?n cap ?h 0 ?b0] F(2) by simp
  show ?thesis
  proof (cases "chain ts ?h ?n")
    case Nil
    then have "fst (suffix_draft x n_max) = []" using n hd F(2) by (simp add: suffix_draft_def Let_def)
    moreover have "db_end (fold (draft_visit ts) (take cap (chain ts ?h ?n)) ?b0) < 0" using Nil by simp
    ultimately show ?thesis using best by auto
  next
    case (Cons e es)
    then have hd': "sx_head x ?h = Some (first_or (chain ts ?h ?n))" using hd by (simp add: first_or_def)
    have "fst (suffix_draft x n_max) = (let b = fst (draft_walk x cap (first_or (chain ts ?h ?n)) 0 ?b0) in
      if db_end b < 0 \<or> db_len b < mn then [] else take (nat n_max) (drop (nat (db_end b) + 1) ts))"
      using n hd' F(2,3,4) by (simp add: suffix_draft_def Let_def split_beta)
    then show ?thesis unfolding w using best by (auto simp: Let_def)
  qed
qed

section \<open>Properties\<close>

text \<open>Whatever the cap, a nonempty draft is the continuation, up to \<open>n\_max\<close> tokens, of an
  earlier occurrence of the last \<open>L\<close> tokens of the stream, with \<open>L\<close> at least three and at least
  \<open>min\_match\<close>.\<close>

theorem suffix_draft_sound:
  assumes "fst (suffix_draft (suffix_of cap mn ts) n_max) = ds" "ds \<noteq> []"
  shows "\<exists>e L. e + 1 < length ts \<and> gram_h \<le> L \<and> mn \<le> L \<and> suffix_match ts e L
    \<and> ds = take (nat n_max) (drop (e + 1) ts)"
proof -
  have n: "gram_h \<le> length ts" "0 < n_max"
    using assms suffix_of_facts(2) [of cap mn ts] by (auto simp: suffix_draft_def Let_def split: if_splits)
  from suffix_draft_best [OF n, of cap mn] assms obtain b where b: "best_of ts (seen_ends cap ts) b"
    "0 \<le> db_end b" "mn \<le> db_len b" "ds = take (nat n_max) (drop (nat (db_end b) + 1) ts)"
    by (auto simp: not_less split: if_splits)
  have ne: "\<not> (\<forall>e \<in> seen_ends cap ts. \<not> candidate ts e)"
  proof
    assume "\<forall>e \<in> seen_ends cap ts. \<not> candidate ts e"
    then have "db_end b = -1" using b(1) by (simp add: best_of_def)
    then show False using b(2) by simp
  qed
  obtain e where e: "candidate ts e" "db_end b = int e" "db_len b = match_len ts e gram_h"
    using b(1) unfolding best_of_def if_not_P [OF ne] by blast
  have "suffix_match ts e (match_len ts e gram_h)" using e(1) match_len_match by (simp add: candidate_def)
  then show ?thesis using b e candidate_len [OF e(1)] by (intro exI [of _ e] exI [of _ "db_len b"]) (auto simp: candidate_def)
qed

text \<open>C13: With a chain cap no smaller than the stream, the draft is empty exactly when no earlier
  position matches at least \<open>max 3 min\_match\<close> tail tokens, and otherwise continues the longest
  match, the most recent one on ties.\<close>

theorem suffix_draft_longest:
  assumes "gram_h \<le> length ts" "0 < n_max" "length ts \<le> cap"
  shows "(fst (suffix_draft (suffix_of cap mn ts) n_max) = []) =
      (\<nexists>e. e + 1 < length ts \<and> suffix_match ts e (max gram_h mn))
    \<and> (fst (suffix_draft (suffix_of cap mn ts) n_max) \<noteq> [] \<longrightarrow>
      (\<exists>e L. e + 1 < length ts \<and> suffix_match ts e L
        \<and> fst (suffix_draft (suffix_of cap mn ts) n_max) = take (nat n_max) (drop (e + 1) ts)
        \<and> (\<forall>d K. d + 1 < length ts \<longrightarrow> suffix_match ts d K \<longrightarrow> K < L \<or> K = L \<and> d \<le> e \<or> K < max gram_h mn)))"
proof -
  let ?S = "seen_ends cap ts" and ?ds = "fst (suffix_draft (suffix_of cap mn ts) n_max)"
  from suffix_draft_best [OF assms(1,2), of cap mn] obtain b where b: "best_of ts ?S b"
    "?ds = (if db_end b < 0 \<or> db_len b < mn then [] else take (nat n_max) (drop (nat (db_end b) + 1) ts))" by blast
  have "length (chain ts (gram_hash ts (length ts - gram_h)) (length ts)) \<le> cap"
    using chain_length assms(3) order_trans by blast
  then have S: "e \<in> ?S \<longleftrightarrow> gram_h - 1 \<le> e \<and> e < length ts \<and> end_hash ts e = gram_hash ts (length ts - gram_h)" for e
    by (simp add: seen_ends_def chain_mem)
  have cS: "e \<in> ?S" if "candidate ts e" for e
  proof -
    have e: "gram_h - 1 \<le> e" "e + 1 < length ts" using that by (auto simp: candidate_def suffix_match_def)
    then have "gram_eq ts (e + 1 - gram_h) (length ts - gram_h)" using that gram_eq_match [OF e(2,1)] by (simp add: candidate_def)
    then have "end_hash ts e = gram_hash ts (length ts - gram_h)"
      unfolding end_hash_def gram_hash_def by (intro fold_cong) (auto simp: gram_eq_def)
    then show ?thesis using e S by simp
  qed
  have cand: "candidate ts e" if "e + 1 < length ts" "suffix_match ts e K" "gram_h \<le> K" for e K
    using that suffix_match_mono by (auto simp: candidate_def)
  show ?thesis
  proof (cases "\<forall>e \<in> ?S. \<not> candidate ts e")
    case True
    then have "?ds = []" using b by (simp add: best_of_def)
    moreover have "\<nexists>e. e + 1 < length ts \<and> suffix_match ts e (max gram_h mn)"
      using True cS cand by (metis max.cobounded1)
    ultimately show ?thesis by simp
  next
    case False
    then obtain e where e: "candidate ts e" "db_end b = int e" "db_len b = match_len ts e gram_h"
      "\<forall>d \<in> ?S. candidate ts d \<longrightarrow> match_len ts d gram_h < match_len ts e gram_h
             \<or> match_len ts d gram_h = match_len ts e gram_h \<and> d \<le> e"
      using b(1) unfolding best_of_def if_not_P [OF False] by blast
    have e1: "e + 1 < length ts" "suffix_match ts e gram_h" using e(1) by (auto simp: candidate_def)
    have L: "suffix_match ts e K \<longleftrightarrow> K \<le> db_len b" for K using match_len_iff [OF e1(2)] e(3) by simp
    have others: "K < db_len b \<or> K = db_len b \<and> d \<le> e \<or> K < max gram_h mn"
      if "d + 1 < length ts" "suffix_match ts d K" for d K
    proof (cases "gram_h \<le> K")
      case True
      then have c: "candidate ts d" using cand that by blast
      then have "suffix_match ts d gram_h" by (simp add: candidate_def)
      then have "K \<le> match_len ts d gram_h" using match_len_iff that(2) by blast
      moreover have "match_len ts d gram_h < db_len b \<or> match_len ts d gram_h = db_len b \<and> d \<le> e"
        using e(3,4) cS [OF c] c by metis
      ultimately show ?thesis by linarith
    qed (simp add: not_le less_max_iff_disj)
    show ?thesis
    proof (cases "db_len b < mn")
      case True
      then have "?ds = []" using b(2) by simp
      moreover have "\<not> suffix_match ts d (max gram_h mn)" if "d + 1 < length ts" for d
        using others [OF that, of "max gram_h mn"] True candidate_len [OF e(1)] e(3) by auto
      ultimately show ?thesis by blast
    next
      case False
      then have ds: "?ds = take (nat n_max) (drop (e + 1) ts)" using b(2) e(2) by simp
      then have "?ds \<noteq> []" using assms(2) e1(1) by simp
      moreover have "suffix_match ts e (max gram_h mn)" using L False candidate_len [OF e(1)] e(3) by simp
      ultimately show ?thesis using e1 ds others L by blast
    qed
  qed
qed

section \<open>Witnesses\<close>

definition demo_stream :: "tok list" where
  "demo_stream = [5, 1, 2, 3, 9, 7, 1, 2, 3, 8, 5, 1, 2, 3]"

lemma demo_draft: "fst (suffix_draft (suffix_of 64 3 demo_stream) 2) = [9, 7]"
  unfolding demo_stream_def by code_simp

lemma suffix_draft_sound_witness:
  "\<exists>e L. e + 1 < length demo_stream \<and> gram_h \<le> L \<and> suffix_match demo_stream e L
    \<and> [9, 7] = take 2 (drop (e + 1) demo_stream)"
  using suffix_draft_sound [OF demo_draft] by auto

lemma suffix_draft_longest_witness:
  "\<exists>e L. e + 1 < length demo_stream \<and> suffix_match demo_stream e L
    \<and> [9, 7] = take 2 (drop (e + 1) demo_stream)"
proof -
  have "gram_h \<le> length demo_stream" "length demo_stream \<le> 64" by (simp_all add: demo_stream_def gram_h_def)
  from suffix_draft_longest [OF this(1) _ this(2), of 2 3] demo_draft show ?thesis by fastforce
qed

end
