(* ===== verification/FL_Iq3_Order.thy ===== *)
theory FL_Iq3_Order
  imports FL_Quants
begin

text \<open>
  The accumulation order of the IQ3\_XXS dot of \<open>src/runtime/quants.h\<close> evaluated on a concrete
  row: it is not the ascending order.
\<close>

unbundle bit_operations_syntax

text \<open>A row of IQ3\_XXS weights of value one and a vector for which the two orders differ.\<close>

definition iq3_demo_row :: bytes where "iq3_demo_row = (\<lambda>i. if i = 1 then 0x3C else 0)"
definition iq3_demo_x :: fvec where
  "iq3_demo_x = (\<lambda>i. if i = 0 then 0x3F800000 else if i = 1 then 0x4B800000 else if i = 4 then 0xCB800000 else 0)"

lemma iq3_demo_weight:
  assumes "c < 256"
  shows "dq_elem IQ3_XXS iq3_demo_row c = 0x3F800000"
proof -
  have r: "2 \<le> i \<Longrightarrow> iq3_demo_row i = 0" for i
    by (simp add: iq3_demo_row_def)
  have d: "rd16 iq3_demo_row 0 = 0x3C00" by code_simp
  have w1: "for_loop 0 4 (\<lambda>b w. w OR push_bit (8 * b) (ucast (0 :: u8))) (0 :: u32) = 0" by code_simp
  have k: "iq_scale (fl_half2float 0x3C00) fl_half_const 0 = 0x3E800000" by code_simp
  have sb: "iq_sign_byte 0 l = 0" for l
    by (simp add: iq_sign_byte_def fl_kIqSigns_def kIqSignsH_def)
  have g: "fl_kIq3xxsGrid (unat (0 :: u8)) = 0x04040404" by code_simp
  have v: "ucast (drop_bit (8 * (j mod 4)) (0x04040404 :: u32)) = (4 :: u8)" for j
  proof -
    have "j mod 4 = 0 \<or> j mod 4 = 1 \<or> j mod 4 = 2 \<or> j mod 4 = (3 :: nat)" by arith
    then show ?thesis by (elim disjE) simp_all
  qed
  have p: "f32_mul 0x3E800000 (fl_of_u8 4) = 0x3F800000" by code_simp
  have c: "c div 256 = 0" "c mod 256 = c" using assms by simp_all
  show ?thesis
    unfolding dq_elem_def Let_def fl_blk_elems.simps fl_blk_bytes.simps dq_block.simps dq_iq3_xxs_def
    by (simp add: c r d w1 [simplified] k sb g [simplified] v p iq_signed_def)
qed

lemma dot_order_cong: "(\<And>c. c \<in> set cs \<Longrightarrow> w c = w' c) \<Longrightarrow> dot_order cs w x acc = dot_order cs w' x acc"
  unfolding dot_order_def by (rule fold_cong) simp_all

lemma dot_order_append: "dot_order (xs @ ys) w x acc = dot_order ys w x (dot_order xs w x acc)"
  by (simp add: dot_order_def)

lemma dot_order_zeros:
  assumes "\<And>c. c \<in> set cs \<Longrightarrow> x c = 0" "f32_add acc (f32_mul w 0) = acc"
  shows "dot_order cs (\<lambda>_. w) x acc = acc"
  using assms(1) unfolding dot_order_def by (induction cs) (simp_all add: assms(2))

lemma demo_tail:
  assumes "\<And>c. c \<in> set ys \<Longrightarrow> 8 \<le> c"
    and "f32_add (dot_order xs (\<lambda>_. 0x3F800000) iq3_demo_x 0) (f32_mul 0x3F800000 0)
      = dot_order xs (\<lambda>_. 0x3F800000) iq3_demo_x 0"
  shows "dot_order (xs @ ys) (\<lambda>_. 0x3F800000) iq3_demo_x 0 = dot_order xs (\<lambda>_. 0x3F800000) iq3_demo_x 0"
proof -
  have "iq3_demo_x c = 0" if "c \<in> set ys" for c using assms(1) [OF that] by (simp add: iq3_demo_x_def)
  then show ?thesis unfolding dot_order_append by (rule dot_order_zeros) (use assms(2) in simp_all)
qed

text \<open>The IQ3\_XXS dot is not the ascending dot of the dequantised row, which the file
  states as the contract of all canonical dots: on this row and vector the code returns 1 and
  the ascending dot 0.\<close>

theorem iq3_dot_not_ascending:
  "fl_dot_row_any IQ3_XXS iq3_demo_row iq3_demo_x 256 = 0x3F800000
   \<and> dot_asc (dq_elem IQ3_XXS iq3_demo_row) iq3_demo_x 256 = 0"
proof
  let ?w = "\<lambda>_. 0x3F800000 :: f32"
  have s: "set (iq3_order 256) = {..<256}"
    using arg_cong [OF iq3_order_mset [of 32], of set_mset] by (simp add: atLeast0LessThan)
  have "fl_dot_row_any IQ3_XXS iq3_demo_row iq3_demo_x 256 = dot_order (iq3_order 256) ?w iq3_demo_x 0"
    unfolding dot_row_any_order row_order_def row_elems_def
    by (simp, rule dot_order_cong) (simp add: s iq3_demo_weight)
  also have "iq3_order 256 = [0, 4, 1, 5, 2, 6, 3, 7] @ concat (map (\<lambda>c. map ((+) (8 * c)) [0, 4, 1, 5, 2, 6, 3, 7]) [1..<32])"
    unfolding iq3_order_def by (simp add: upt_conv_Cons [of 0 32])
  also have "dot_order \<dots> ?w iq3_demo_x 0 = dot_order [0, 4, 1, 5, 2, 6, 3, 7] ?w iq3_demo_x 0"
    by (rule demo_tail) (auto, code_simp)
  also have "\<dots> = 0x3F800000" by code_simp
  finally show "fl_dot_row_any IQ3_XXS iq3_demo_row iq3_demo_x 256 = 0x3F800000" .
  have "dot_asc (dq_elem IQ3_XXS iq3_demo_row) iq3_demo_x 256 = dot_order [0..<256] ?w iq3_demo_x 0"
    unfolding dot_asc_def by (rule dot_order_cong) (simp add: iq3_demo_weight)
  also have "[0..<256] = [0..<8] @ [8..<256]" using upt_add_eq_append [of 0 8 248] by simp
  also have "dot_order \<dots> ?w iq3_demo_x 0 = dot_order [0..<8] ?w iq3_demo_x 0"
    by (rule demo_tail) (auto, code_simp)
  also have "\<dots> = 0" by code_simp
  finally show "dot_asc (dq_elem IQ3_XXS iq3_demo_row) iq3_demo_x 256 = 0" .
qed

end
