(* ===== verification/FL_Decode_Ops.thy ===== *)
theory FL_Decode_Ops
  imports FL_Quants
begin

text \<open>
  The decode operations of \<open>src/runtime/decode_params.h\<close>: one parameter record and one
  implementation per operation. Memory is the function from 4-byte word addresses to words
  (floats, positions and expert ids are all 4 bytes wide), pointers are word addresses, and
  \<open>0\<close> is \<open>nullptr\<close>; so operands may alias as in the code. The transcendental functions of the C
  library are the fields of \<open>libm\<close>, a parameter; everything else is computed.
\<close>

section \<open>Parameters\<close>

type_synonym wmem = "nat \<Rightarrow> u32"

record libm =
  expf :: "f32 \<Rightarrow> f32"
  logf :: "f32 \<Rightarrow> f32"
  cosf :: "f32 \<Rightarrow> f32"
  sinf :: "f32 \<Rightarrow> f32"
  powf :: "f32 \<Rightarrow> f32 \<Rightarrow> f32"
  sqrtf :: "f32 \<Rightarrow> f32"

record rms_norm_p =
  rn_wnorm :: nat
  rn_x :: nat
  rn_y :: nat
  rn_eps :: f32
  rn_n :: nat

record add2_p =
  a2_a :: nat
  a2_b :: nat
  a2_y :: nat
  a2_n :: nat

record rope_p =
  rp_buf :: nat
  rp_pos :: nat
  rp_n_head :: nat
  rp_head_stride :: nat
  rp_rot_off :: nat
  rp_n_rot :: nat
  rp_freq_base :: f32
  rp_freq_scale :: f32
  rp_ext_factor :: f32
  rp_attn_factor :: f32
  rp_beta_fast :: f32
  rp_beta_slow :: f32
  rp_n_ctx_orig :: nat

record kv_append_p =
  ka_kvb :: nat
  ka_kpe :: nat
  ka_kcache :: nat
  ka_vcache :: nat
  ka_pos :: nat
  ka_n_head :: nat
  ka_d_nope :: nat
  ka_d_rope :: nat
  ka_d_v :: nat
  ka_max_kv :: nat

record attn_head_p =
  ah_q :: nat
  ah_kcache :: nat
  ah_vcache :: nat
  ah_scratch :: nat
  ah_out :: nat
  ah_pos :: nat
  ah_scale :: f32
  ah_head :: nat
  ah_n_head :: nat
  ah_dk :: nat
  ah_dv :: nat
  ah_max_kv :: nat

record router_p =
  ro_logits :: nat
  ro_ids :: nat
  ro_gates :: nat
  ro_n_expert :: nat
  ro_top_k :: nat
  ro_norm :: nat
  ro_scale :: f32

record silu_mul_p =
  sm_gate :: nat
  sm_up :: nat
  sm_h :: nat
  sm_n :: nat

record wmerge_p =
  wm_parts :: nat
  wm_gates :: nat
  wm_add1 :: nat
  wm_add2 :: nat
  wm_y :: nat
  wm_scale :: f32
  wm_n_parts :: nat
  wm_n :: nat
  wm_n_full :: nat

section \<open>Constants and library functions\<close>

definition c_1 :: f32 where "c_1 = 0x3F800000"
definition c_2 :: f32 where "c_2 = 0x40000000"
definition c_m1 :: f32 where "c_m1 = 0xBF800000"
definition c_tenth :: f32 where "c_tenth = 0x3DCCCCCD" \<comment> \<open>\<open>0.1f\<close>\<close>
definition c_milli :: f32 where "c_milli = 0x3A83126F" \<comment> \<open>\<open>0.001f\<close>\<close>
definition c_pi :: f32 where "c_pi = 0x40490FDB"
definition c_lowest :: f32 where "c_lowest = 0xF149F2CA" \<comment> \<open>\<open>-1e30f\<close>\<close>

definition fl_max :: "f32 \<Rightarrow> f32 \<Rightarrow> f32" where
  "fl_max a b = (if f32_dec a = FNan then b else if f32_dec b = FNan then a else if f32_lt a b then b else a)"
definition fl_min :: "f32 \<Rightarrow> f32 \<Rightarrow> f32" where
  "fl_min a b = (if f32_dec a = FNan then b else if f32_dec b = FNan then a else if f32_lt b a then b else a)"

definition fl_floorf :: "f32 \<Rightarrow> f32" where
  "fl_floorf a = (case f32_dec a of
     FNum s m e \<Rightarrow> if 0 \<le> e \<or> m = 0 then a
       else let v = (if s then - m else m) div 2 ^ nat (- e) in if v = 0 then f32_sign_bit s else f32_enc (v < 0) \<bar>v\<bar> 0
   | _ \<Rightarrow> a)"

definition fl_ceilf :: "f32 \<Rightarrow> f32" where
  "fl_ceilf a = f32_neg (fl_floorf (f32_neg a))"

text \<open>\<open>(float)*p.pos\<close> for the \<open>int32_t\<close> position.\<close>

definition rd_pos_f :: "wmem \<Rightarrow> nat \<Rightarrow> f32" where
  "rd_pos_f m p = f32_of_int (sint (m p))"

section \<open>Operations\<close>

definition fl_op_rmsnorm :: "libm \<Rightarrow> rms_norm_p \<Rightarrow> wmem \<Rightarrow> wmem" where
  "fl_op_rmsnorm lm p m =
    (let ss = for_loop 0 (rn_n p) (\<lambda>i ss. f32_add ss (f32_mul (m (rn_x p + i)) (m (rn_x p + i)))) 0;
         s = f32_div c_1 (sqrtf lm (f32_add (f32_div ss (f32_of_int (int (rn_n p)))) (rn_eps p)))
     in for_loop 0 (rn_n p) (\<lambda>i m. m(rn_y p + i := f32_mul (f32_mul (m (rn_x p + i)) s) (m (rn_wnorm p + i)))) m)"

definition fl_op_add2 :: "add2_p \<Rightarrow> wmem \<Rightarrow> wmem" where
  "fl_op_add2 p m = for_loop 0 (a2_n p) (\<lambda>i m. m(a2_y p + i := f32_add (m (a2_a p + i)) (m (a2_b p + i)))) m"

definition fl_rope_corr_dim :: "libm \<Rightarrow> f32 \<Rightarrow> f32 \<Rightarrow> f32 \<Rightarrow> f32 \<Rightarrow> f32" where
  "fl_rope_corr_dim lm n_dims n_ctx_orig beta base =
    f32_div (f32_mul n_dims (logf lm (f32_div n_ctx_orig (f32_mul (f32_mul beta c_2) c_pi))))
      (f32_mul c_2 (logf lm base))"

text \<open>The angle and the magnitude scale of pair \<open>i0\<close>.\<close>

definition rope_angle :: "libm \<Rightarrow> rope_p \<Rightarrow> f32 \<Rightarrow> f32 \<Rightarrow> nat \<Rightarrow> f32 \<Rightarrow> f32 \<times> f32" where
  "rope_angle lm p corr_lo corr_hi i0 theta =
    (let theta_interp = f32_mul (rp_freq_scale p) theta
     in if f32_lt (rp_ext_factor p) 0 \<or> f32_lt 0 (rp_ext_factor p) \<or> f32_dec (rp_ext_factor p) = FNan
        then let ramp_y = f32_div (f32_sub (f32_of_int (int (i0 div 2))) corr_lo)
                            (fl_max c_milli (f32_sub corr_hi corr_lo));
                 ramp_y = f32_sub c_1 (fl_min c_1 (fl_max 0 ramp_y));
                 ramp_mix = f32_mul ramp_y (rp_ext_factor p)
             in (f32_add (f32_mul theta_interp (f32_sub c_1 ramp_mix)) (f32_mul theta ramp_mix),
                 f32_mul (rp_attn_factor p)
                   (f32_add c_1 (f32_mul c_tenth (logf lm (f32_div c_1 (rp_freq_scale p))))))
        else (theta_interp, rp_attn_factor p))"

definition fl_op_rope_ds2 :: "libm \<Rightarrow> rope_p \<Rightarrow> wmem \<Rightarrow> wmem" where
  "fl_op_rope_ds2 lm p m =
    (let n_rot = f32_of_int (int (rp_n_rot p)); n_ctx = f32_of_int (int (rp_n_ctx_orig p));
         theta_scale = powf lm (rp_freq_base p) (f32_div (f32_neg c_2) n_rot);
         corr_lo = fl_floorf (fl_rope_corr_dim lm n_rot n_ctx (rp_beta_fast p) (rp_freq_base p));
         corr_hi = fl_ceilf (fl_rope_corr_dim lm n_rot n_ctx (rp_beta_slow p) (rp_freq_base p));
         corr_lo = (if f32_lt corr_lo 0 then 0 else corr_lo);
         last = f32_of_int (int ((rp_n_rot p + (2 ^ 32 - 1)) mod 2 ^ 32));
         corr_hi = (if f32_lt last corr_hi then last else corr_hi);
         pos = rd_pos_f m (rp_pos p)
     in for_loop 0 (rp_n_head p) (\<lambda>h m.
          let v = rp_buf p + h * rp_head_stride p + rp_rot_off p
          in snd (for_loop 0 ((rp_n_rot p + 1) div 2) (\<lambda>k (theta, m).
               let i0 = 2 * k; (th, mscale) = rope_angle lm p corr_lo corr_hi i0 theta;
                   c = f32_mul (cosf lm th) mscale; s = f32_mul (sinf lm th) mscale;
                   x0 = m (v + i0); x1 = m (v + i0 + 1);
                   m = m(v + i0 := f32_sub (f32_mul x0 c) (f32_mul x1 s));
                   m = m(v + i0 + 1 := f32_add (f32_mul x0 s) (f32_mul x1 c))
               in (f32_mul theta theta_scale, m)) (pos, m))) m)"

text \<open>\<open>for (d = 0; d < n; ++d) dst[d] = src[d];\<close>\<close>

definition copy_words :: "nat \<Rightarrow> nat \<Rightarrow> nat \<Rightarrow> wmem \<Rightarrow> wmem" where
  "copy_words dst src n m = for_loop 0 n (\<lambda>d m. m(dst + d := m (src + d))) m"

definition fl_op_kv_append :: "kv_append_p \<Rightarrow> wmem \<Rightarrow> wmem" where
  "fl_op_kv_append p m =
    (let pos = unat (m (ka_pos p)); dk = ka_d_nope p + ka_d_rope p;
         krow = ka_kcache p + pos * ka_n_head p * dk; vrow = ka_vcache p + pos * ka_n_head p * ka_d_v p
     in for_loop 0 (ka_n_head p) (\<lambda>h m.
          let src = ka_kvb p + h * (ka_d_nope p + ka_d_v p);
              m = copy_words (krow + h * dk) src (ka_d_nope p) m;
              m = copy_words (krow + h * dk + ka_d_nope p) (ka_kpe p) (ka_d_rope p) m
          in copy_words (vrow + h * ka_d_v p) (src + ka_d_nope p) (ka_d_v p) m) m)"

text \<open>The eight striped accumulators of a score, and their fold.\<close>

definition stripe_add :: "(nat \<Rightarrow> f32) \<Rightarrow> (nat \<Rightarrow> f32) \<Rightarrow> nat \<Rightarrow> f32 list \<Rightarrow> f32 list" where
  "stripe_add q k d s = map (\<lambda>l. f32_fma (q (d + l)) (k (d + l)) (s ! l)) [0..<8]"

definition fold8 :: "f32 list \<Rightarrow> f32" where
  "fold8 s = f32_add (f32_add (f32_add (f32_add (f32_add (f32_add (f32_add (s ! 0) (s ! 1)) (s ! 2)) (s ! 3)) (s ! 4)) (s ! 5)) (s ! 6)) (s ! 7)"

definition attn_score :: "bool \<Rightarrow> nat \<Rightarrow> (nat \<Rightarrow> f32) \<Rightarrow> (nat \<Rightarrow> f32) \<Rightarrow> f32" where
  "attn_score striped dk q k =
    (if striped then fold8 (for_loop 0 ((dk + 7) div 8) (\<lambda>b. stripe_add q k (8 * b)) (replicate 8 0))
     else for_loop 0 dk (\<lambda>d acc. f32_add acc (f32_mul (q d) (k d))) 0)"

definition attn_striped :: "attn_head_p \<Rightarrow> bool" where
  "attn_striped p \<longleftrightarrow> ah_dk p mod 8 = 0 \<and> ah_dv p mod 4 = 0"

definition attn_scores :: "attn_head_p \<Rightarrow> wmem \<Rightarrow> f32 \<times> wmem" where
  "attn_scores p m =
    for_loop 0 (unat (m (ah_pos p) + 1)) (\<lambda>j (mx, m).
      let q = (\<lambda>d. m (ah_q p + ah_head p * ah_dk p + d));
          k = (\<lambda>d. m (ah_kcache p + (j * ah_n_head p + ah_head p) * ah_dk p + d));
          acc = f32_mul (attn_score (attn_striped p) (ah_dk p) q k) (ah_scale p)
      in (if f32_lt mx acc then acc else mx, m(ah_scratch p + j := acc))) (c_lowest, m)"

definition attn_exps :: "libm \<Rightarrow> nat \<Rightarrow> nat \<Rightarrow> f32 \<Rightarrow> wmem \<Rightarrow> f32 \<times> wmem" where
  "attn_exps lm scratch n mx m =
    for_loop 0 n (\<lambda>j (sm, m).
      let e = expf lm (f32_sub (m (scratch + j)) mx) in (f32_add sm e, m(scratch + j := e))) (0, m)"

definition attn_context :: "attn_head_p \<Rightarrow> nat \<Rightarrow> f32 \<Rightarrow> wmem \<Rightarrow> wmem" where
  "attn_context p n iv m =
    (let o' = ah_out p + ah_head p * ah_dv p;
         m = for_loop 0 (ah_dv p) (\<lambda>d m. m(o' + d := 0)) m
     in for_loop 0 n (\<lambda>j m.
          let w = f32_mul (m (ah_scratch p + j)) iv; v = ah_vcache p + (j * ah_n_head p + ah_head p) * ah_dv p
          in if attn_striped p
             then for_loop 0 (ah_dv p) (\<lambda>d m. m(o' + d := f32_fma w (m (v + d)) (m (o' + d)))) m
             else for_loop 0 (ah_dv p) (\<lambda>d m. m(o' + d := f32_add (m (o' + d)) (f32_mul w (m (v + d))))) m) m)"

definition fl_op_attn_head :: "libm \<Rightarrow> attn_head_p \<Rightarrow> wmem \<Rightarrow> wmem" where
  "fl_op_attn_head lm p m =
    (let n = unat (m (ah_pos p) + 1);
         (mx, m) = attn_scores p m;
         (sm, m) = attn_exps lm (ah_scratch p) n mx m
     in attn_context p n (f32_div c_1 sm) m)"

text \<open>The softmax weights, the array \<open>w\<close> of the code.\<close>

definition router_weights :: "libm \<Rightarrow> nat \<Rightarrow> (nat \<Rightarrow> f32) \<Rightarrow> f32 list" where
  "router_weights lm n logits =
    (let mx = for_loop 0 n (\<lambda>i mx. if f32_lt mx (logits i) then logits i else mx) c_lowest;
         (sm, w) = for_loop 0 n (\<lambda>i (sm, w). let e = expf lm (f32_sub (logits i) mx) in (f32_add sm e, w @ [e])) (0, [])
     in map (\<lambda>x. f32_div x sm) w)"

text \<open>One selection: the first expert, not yet taken, of largest weight.\<close>

definition router_best :: "f32 list \<Rightarrow> nat list \<Rightarrow> nat \<times> f32" where
  "router_best w taken =
    for_loop 0 (length w) (\<lambda>i (best, bw).
      if i \<notin> set taken \<and> f32_lt bw (w ! i) then (i, w ! i) else (best, bw)) (0, c_m1)"

definition router_select :: "f32 list \<Rightarrow> nat \<Rightarrow> (nat \<times> f32) list \<times> f32" where
  "router_select w top_k =
    for_loop 0 top_k (\<lambda>k (sel, tsum).
      let (best, bw) = router_best w (map fst sel) in (sel @ [(best, bw)], f32_add tsum bw)) ([], 0)"

definition fl_op_router_sel :: "libm \<Rightarrow> router_p \<Rightarrow> wmem \<Rightarrow> wmem" where
  "fl_op_router_sel lm p m =
    (let w = router_weights lm (ro_n_expert p) (\<lambda>i. m (ro_logits p + i));
         (sel, tsum) = router_select w (ro_top_k p);
         m = for_loop 0 (ro_top_k p) (\<lambda>k m. m(ro_ids p + k := of_nat (fst (sel ! k)), ro_gates p + k := snd (sel ! k))) m
     in for_loop 0 (ro_top_k p) (\<lambda>k m.
          let g = m (ro_gates p + k); g = (if ro_norm p \<noteq> 0 then f32_div g tsum else g)
          in m(ro_gates p + k := f32_mul g (ro_scale p))) m)"

definition fl_op_silu_mul :: "libm \<Rightarrow> silu_mul_p \<Rightarrow> wmem \<Rightarrow> wmem" where
  "fl_op_silu_mul lm p m =
    for_loop 0 (sm_n p) (\<lambda>i m.
      let g = m (sm_gate p + i)
      in m(sm_h p + i := f32_mul (f32_div g (f32_add c_1 (expf lm (f32_neg g)))) (m (sm_up p + i)))) m"

definition wmerge_gsc :: "wmerge_p \<Rightarrow> wmem \<Rightarrow> f32" where
  "wmerge_gsc p m =
    (if wm_gates p \<noteq> 0 \<and> wm_n_parts p < wm_n_full p then
       let s = for_loop 0 (wm_n_parts p) (\<lambda>q s. f32_add s (m (wm_gates p + q))) 0;
           sf = for_loop 0 (wm_n_full p) (\<lambda>q s. f32_add s (m (wm_gates p + q))) 0
       in if f32_lt 0 s then f32_div sf s else c_1
     else c_1)"

text \<open>One merged element, with what a gate weight contributes.\<close>

definition wmerge_elem :: "(f32 \<Rightarrow> f32) \<Rightarrow> wmerge_p \<Rightarrow> nat \<Rightarrow> wmem \<Rightarrow> f32" where
  "wmerge_elem gw p i m =
    (let acc = for_loop 0 (wm_n_parts p) (\<lambda>q acc.
           f32_add acc (f32_mul (if wm_gates p \<noteq> 0 then gw (m (wm_gates p + q)) else c_1)
             (m (wm_parts p + q * wm_n p + i)))) 0;
         acc = f32_mul acc (wm_scale p);
         acc = (if wm_add1 p \<noteq> 0 then f32_add acc (m (wm_add1 p + i)) else acc)
     in if wm_add2 p \<noteq> 0 then f32_add acc (m (wm_add2 p + i)) else acc)"

definition fl_op_wmerge :: "wmerge_p \<Rightarrow> wmem \<Rightarrow> wmem" where
  "fl_op_wmerge p m =
    (let gsc = wmerge_gsc p m
     in for_loop 0 (wm_n p) (\<lambda>i m. m(wm_y p + i := wmerge_elem (f32_mul gsc) p i m)) m)"

section \<open>Expert selection\<close>

text \<open>Expert \<open>i\<close> comes before \<open>j\<close>: a larger weight, or the same weight and a lower index.\<close>

definition ranks_before :: "f32 list \<Rightarrow> nat \<Rightarrow> nat \<Rightarrow> bool" where
  "ranks_before w i j \<longleftrightarrow> f32_key (w ! j) < f32_key (w ! i) \<or> f32_key (w ! j) = f32_key (w ! i) \<and> i < j"

definition best_upto :: "f32 list \<Rightarrow> nat list \<Rightarrow> nat \<Rightarrow> nat \<times> f32 \<Rightarrow> bool" where
  "best_upto w taken n r \<longleftrightarrow>
    (if \<exists>i<n. i \<notin> set taken
     then fst r < n \<and> fst r \<notin> set taken \<and> snd r = w ! fst r
       \<and> (\<forall>j<n. j \<notin> set taken \<longrightarrow> j \<noteq> fst r \<longrightarrow> ranks_before w (fst r) j)
     else r = (0, c_m1))"

lemma ranks_before_trans: "ranks_before w i j \<Longrightarrow> ranks_before w j k \<Longrightarrow> ranks_before w i k"
  unfolding ranks_before_def by linarith

lemma router_best_step:
  assumes w: "\<And>i. i \<le> n \<Longrightarrow> f32_lt c_m1 (w ! i)" and inv: "best_upto w taken n (b, bw)"
  shows "best_upto w taken (Suc n) (if n \<notin> set taken \<and> f32_lt bw (w ! n) then (n, w ! n) else (b, bw))"
proof (cases "\<exists>i<n. i \<notin> set taken")
  case True
  then have B: "b < n" "b \<notin> set taken" "bw = w ! b" and R: "\<And>j. j < n \<Longrightarrow> j \<notin> set taken \<Longrightarrow> j \<noteq> b \<Longrightarrow> ranks_before w b j"
    using inv by (auto simp: best_upto_def)
  have k: "f32_lt bw (w ! n) \<longleftrightarrow> f32_key (w ! b) < f32_key (w ! n)"
    unfolding B(3) using w [of n] w [of b] B(1) by (intro f32_lt_key) (auto dest: f32_lt_ok)
  show ?thesis
  proof (cases "n \<notin> set taken \<and> f32_lt bw (w ! n)")
    case True
    then have nb: "ranks_before w n b" using k by (simp add: ranks_before_def)
    have "ranks_before w n j" if "j < Suc n" "j \<notin> set taken" "j \<noteq> n" for j
      using that nb ranks_before_trans [OF nb R [of j]] by (cases "j = b") auto
    then show ?thesis using True by (auto simp: best_upto_def)
  next
    case False
    have "ranks_before w b j" if "j < Suc n" "j \<notin> set taken" "j \<noteq> b" for j
    proof (cases "j = n")
      case True
      then show ?thesis using False that k B(1) by (auto simp: ranks_before_def)
    qed (use that R in auto)
    then show ?thesis unfolding if_not_P [OF False] using B \<open>\<exists>i<n. i \<notin> set taken\<close>
      by (auto simp: best_upto_def less_Suc_eq)
  qed
next
  case False
  then have "b = 0 \<and> bw = c_m1" using inv unfolding best_upto_def if_not_P [OF False] by simp
  then show ?thesis using False w [of n] by (auto simp: best_upto_def less_Suc_eq)
qed

lemma router_best_spec:
  assumes "\<And>i. i < length w \<Longrightarrow> f32_lt c_m1 (w ! i)"
  shows "n \<le> length w \<Longrightarrow> best_upto w taken n (for_loop 0 n (\<lambda>i (best, bw).
      if i \<notin> set taken \<and> f32_lt bw (w ! i) then (i, w ! i) else (best, bw)) (0, c_m1))"
proof (induction n)
  case (Suc n)
  obtain b bw where r: "for_loop 0 n (\<lambda>i (best, bw).
      if i \<notin> set taken \<and> f32_lt bw (w ! i) then (i, w ! i) else (best, bw)) (0, c_m1) = (b, bw)" by fastforce
  have "best_upto w taken n (b, bw)" using Suc r by simp
  then show ?case using router_best_step [of n w taken b bw] assms Suc.prems by (simp add: for_loop_last r)
qed (simp add: best_upto_def)

text \<open>The selection so far is the head of the stable descending ranking.\<close>

definition selection_ok :: "f32 list \<Rightarrow> (nat \<times> f32) list \<Rightarrow> bool" where
  "selection_ok w sel \<longleftrightarrow> distinct (map fst sel) \<and> (\<forall>(i, g) \<in> set sel. i < length w \<and> g = w ! i)
    \<and> (\<forall>k<length sel. \<forall>j<length w. j \<notin> set (take (Suc k) (map fst sel)) \<longrightarrow> ranks_before w (map fst sel ! k) j)"

lemma router_select_ok:
  assumes w: "\<And>i. i < length w \<Longrightarrow> f32_lt c_m1 (w ! i)"
  shows "k \<le> length w \<Longrightarrow> length (fst (router_select w k)) = k \<and> selection_ok w (fst (router_select w k))"
proof (induction k)
  case (Suc k)
  obtain sel t where s: "router_select w k = (sel, t)" by fastforce
  then have sel: "length sel = k" "selection_ok w sel" using Suc by simp_all
  obtain b bw where r: "router_best w (map fst sel) = (b, bw)" by fastforce
  have "card (set (map fst sel)) \<le> k" using card_length [of "map fst sel"] sel(1) by simp
  then have "card (set (map fst sel)) < card {..<length w}" using Suc.prems by simp
  then have "\<exists>i<length w. i \<notin> set (map fst sel)"
    by (metis card_mono finite_set lessThan_iff not_le subsetI)
  then have B: "b < length w" "b \<notin> set (map fst sel)" "bw = w ! b"
    "\<And>j. j < length w \<Longrightarrow> j \<notin> set (map fst sel) \<Longrightarrow> j \<noteq> b \<Longrightarrow> ranks_before w b j"
    using router_best_spec [OF w order.refl, of "map fst sel"] r unfolding router_best_def best_upto_def by auto
  have n: "router_select w (Suc k) = (sel @ [(b, bw)], f32_add t bw)"
    using s r unfolding router_select_def by (simp add: for_loop_last)
  have "selection_ok w (sel @ [(b, bw)])"
    unfolding selection_ok_def
  proof (intro conjI allI impI)
    fix i j assume ij: "i < length (sel @ [(b, bw)])" "j < length w"
      "j \<notin> set (take (Suc i) (map fst (sel @ [(b, bw)])))"
    show "ranks_before w (map fst (sel @ [(b, bw)]) ! i) j"
    proof (cases "i < length sel")
      case True
      then show ?thesis using sel(2) ij by (simp add: selection_ok_def nth_append)
    next
      case False
      then show ?thesis using ij B(4) [of j] by (auto simp: nth_append less_Suc_eq)
    qed
  qed (use sel(2) B in \<open>auto simp: selection_ok_def\<close>)
  then show ?case using n sel(1) by simp
qed (simp add: router_select_def selection_ok_def)

lemma router_weights_length: "length (router_weights lm n logits) = n"
proof -
  have "length (snd (for_loop 0 n (\<lambda>i (sm, w). let e = expf lm (f32_sub (logits i) mx) in (f32_add sm e, w @ [e])) (0, []))) = n" for mx
    by (induction n) (simp_all add: for_loop_last split_def Let_def)
  then show ?thesis by (simp add: router_weights_def Let_def split_def)
qed

text \<open>A loop that writes cells of its own index only.\<close>

lemma write_loop_other:
  "(\<And>i m. i < n \<Longrightarrow> body i m a = m a) \<Longrightarrow> for_loop 0 n body m a = (m a :: u32)"
  by (induction n) (simp_all add: for_loop_last)

lemma write_loop_at:
  assumes "k < n" "\<And>i m. i < n \<Longrightarrow> i \<noteq> k \<Longrightarrow> body i m a = m a" "\<And>m. body k m a = v"
  shows "for_loop 0 n body m a = (v :: u32)"
  using assms(1,2)
proof (induction n)
  case (Suc n)
  then show ?case using assms(3) by (cases "k = n") (simp_all add: for_loop_last)
qed simp

lemma router_sel_ids:
  assumes dis: "ro_ids p + ro_top_k p \<le> ro_gates p \<or> ro_gates p + ro_top_k p \<le> ro_ids p" and k: "k < ro_top_k p"
  shows "fl_op_router_sel lm p m (ro_ids p + k) =
    of_nat (fst (fst (router_select (router_weights lm (ro_n_expert p) (\<lambda>i. m (ro_logits p + i))) (ro_top_k p)) ! k))"
proof -
  obtain sel tsum where s: "router_select (router_weights lm (ro_n_expert p) (\<lambda>i. m (ro_logits p + i))) (ro_top_k p) = (sel, tsum)"
    by fastforce
  have g: "ro_gates p + i \<noteq> ro_ids p + k" "ro_ids p + k \<noteq> ro_gates p + i" if "i < ro_top_k p" for i
    using dis k that by linarith+
  show ?thesis
    unfolding fl_op_router_sel_def Let_def s split fst_conv
    by (subst write_loop_other, simp add: g Let_def, rule write_loop_at [OF k])
      (use g g(2) [OF k] in simp_all)
qed

section \<open>Appending to the cache\<close>

definition in_range :: "nat \<Rightarrow> nat \<Rightarrow> nat \<Rightarrow> bool" where
  "in_range lo n a \<longleftrightarrow> lo \<le> a \<and> a < lo + n"

lemma copy_words_eq:
  assumes "dst + n \<le> src \<or> src + n \<le> dst"
  shows "copy_words dst src n m a = (if in_range dst n a then m (src + (a - dst)) else m a)"
proof -
  have "k \<le> n \<Longrightarrow> for_loop 0 k (\<lambda>d m. m(dst + d := m (src + d))) m = (\<lambda>a. if in_range dst k a then m (src + (a - dst)) else m a)" for k
  proof (induction k)
    case (Suc k)
    have "\<not> in_range dst k (src + k)" using assms Suc.prems by (auto simp: in_range_def)
    then show ?case using Suc by (auto simp: for_loop_last in_range_def fun_eq_iff less_Suc_eq)
  qed (auto simp: in_range_def fun_eq_iff)
  then show ?thesis by (simp add: copy_words_def)
qed

definition apart :: "nat \<Rightarrow> nat \<Rightarrow> nat \<Rightarrow> nat \<Rightarrow> bool" where
  "apart a n b k \<longleftrightarrow> a + n \<le> b \<or> b + k \<le> a"

text \<open>The rows the append writes do not overlap each other or what it reads.\<close>

definition kv_ok :: "kv_append_p \<Rightarrow> wmem \<Rightarrow> bool" where
  "kv_ok p m \<longleftrightarrow>
    (let pos = unat (m (ka_pos p)); dk = ka_d_nope p + ka_d_rope p; nh = ka_n_head p;
         K = ka_kcache p + pos * nh * dk; V = ka_vcache p + pos * nh * ka_d_v p
     in apart K (nh * dk) V (nh * ka_d_v p)
      \<and> apart K (nh * dk) (ka_kvb p) (nh * (ka_d_nope p + ka_d_v p)) \<and> apart K (nh * dk) (ka_kpe p) (ka_d_rope p)
      \<and> apart V (nh * ka_d_v p) (ka_kvb p) (nh * (ka_d_nope p + ka_d_v p)) \<and> apart V (nh * ka_d_v p) (ka_kpe p) (ka_d_rope p))"

text \<open>What one head writes.\<close>

definition head_append :: "nat \<Rightarrow> nat \<Rightarrow> nat \<Rightarrow> nat \<Rightarrow> nat \<Rightarrow> nat \<Rightarrow> nat \<Rightarrow> wmem \<Rightarrow> wmem" where
  "head_append K V src kpe dn dr dv m a =
    (if in_range K dn a then m (src + (a - K))
     else if in_range (K + dn) dr a then m (kpe + (a - (K + dn)))
     else if in_range V dv a then m (src + dn + (a - V))
     else m a)"

lemma head_append_cong:
  assumes s: "\<And>i. i < dn + dv \<Longrightarrow> M (src + i) = m (src + i)" and k: "\<And>i. i < dr \<Longrightarrow> M (kpe + i) = m (kpe + i)"
    and a: "in_range K dn a \<or> in_range (K + dn) dr a \<or> in_range V dv a"
  shows "head_append K V src kpe dn dr dv M a = head_append K V src kpe dn dr dv m a"
proof -
  have "in_range K dn a \<Longrightarrow> a - K < dn + dv" "in_range (K + dn) dr a \<Longrightarrow> a - (K + dn) < dr"
    "in_range V dv a \<Longrightarrow> dn + (a - V) < dn + dv"
    by (auto simp: in_range_def)
  then show ?thesis using s [of "a - K"] s [of "dn + (a - V)"] k [of "a - (K + dn)"] a
    unfolding head_append_def by (auto simp: add.assoc)
qed

lemma copy_words_other: "\<not> in_range dst n a \<Longrightarrow> copy_words dst src n m a = m a"
  unfolding copy_words_def by (rule write_loop_other) (auto simp: in_range_def)

lemma copy_words_at:
  "dst + n \<le> src \<or> src + n \<le> dst \<Longrightarrow> in_range dst n a \<Longrightarrow> copy_words dst src n m a = m (src + (a - dst))"
  by (simp add: copy_words_eq)

lemma head_append_eq:
  assumes A: "apart K (dn + dr) V dv" "apart K (dn + dr) src (dn + dv)" "apart K (dn + dr) kpe dr"
    "apart V dv src (dn + dv)" "apart V dv kpe dr"
  shows "copy_words V (src + dn) dv (copy_words (K + dn) kpe dr (copy_words K src dn m)) a = head_append K V src kpe dn dr dv m a"
proof -
  have c: "K + dn \<le> src \<or> src + dn \<le> K" "K + dn + dr \<le> kpe \<or> kpe + dr \<le> K + dn" "V + dv \<le> src + dn \<or> src + dn + dv \<le> V"
    using A by (auto simp: apart_def)
  have offK: "\<not> in_range K dn x \<and> \<not> in_range (K + dn) dr x" if "\<not> in_range K (dn + dr) x" for x
    using that by (auto simp: in_range_def)
  have clash: "in_range y n x \<Longrightarrow> apart z k y n \<Longrightarrow> \<not> in_range z k x" for x y z n k
    by (auto simp: in_range_def apart_def)
  consider (v) "in_range V dv a" | (r) "\<not> in_range V dv a" "in_range (K + dn) dr a"
    | (n) "\<not> in_range V dv a" "\<not> in_range (K + dn) dr a" "in_range K dn a"
    | (o') "\<not> in_range V dv a" "\<not> in_range (K + dn) dr a" "\<not> in_range K dn a" by blast
  then show ?thesis
  proof cases
    case v
    have "in_range src (dn + dv) (src + dn + (a - V))" using v by (auto simp: in_range_def)
    then have 1: "\<not> in_range K (dn + dr) (src + dn + (a - V))" by (rule clash [OF _ A(2)])
    have 2: "\<not> in_range K (dn + dr) a" by (rule clash [OF v A(1)])
    show ?thesis using offK [OF 1] offK [OF 2] v by (simp add: copy_words_at [OF c(3) v] copy_words_other head_append_def)
  next
    case r
    have "in_range kpe dr (kpe + (a - (K + dn)))" using r by (auto simp: in_range_def)
    then have 1: "\<not> in_range K (dn + dr) (kpe + (a - (K + dn)))" by (rule clash [OF _ A(3)])
    have "\<not> in_range K dn a" using r(2) by (auto simp: in_range_def)
    then show ?thesis using offK [OF 1] r
      by (simp add: copy_words_at [OF c(2) r(2)] copy_words_other head_append_def)
  next
    case n
    then show ?thesis by (simp add: copy_words_at [OF c(1) n(3)] copy_words_other head_append_def)
  next
    case o'
    then show ?thesis by (simp add: copy_words_other head_append_def)
  qed
qed

lemma row_end: "h < nh \<Longrightarrow> h * x + x \<le> nh * (x :: nat)"
  using mult_le_mono1 [of "Suc h" nh x] by simp

lemma kv_append_rows:
  fixes p m
  defines "pos \<equiv> unat (m (ka_pos p))" and "dk \<equiv> ka_d_nope p + ka_d_rope p"
  defines "K \<equiv> ka_kcache p + pos * ka_n_head p * dk" and "V \<equiv> ka_vcache p + pos * ka_n_head p * ka_d_v p"
  assumes ok: "kv_ok p m"
  shows "h < ka_n_head p \<Longrightarrow> d < ka_d_nope p \<Longrightarrow> fl_op_kv_append p m (K + h * dk + d) = m (ka_kvb p + h * (ka_d_nope p + ka_d_v p) + d)"
    and "h < ka_n_head p \<Longrightarrow> d < ka_d_rope p \<Longrightarrow> fl_op_kv_append p m (K + h * dk + ka_d_nope p + d) = m (ka_kpe p + d)"
    and "h < ka_n_head p \<Longrightarrow> d < ka_d_v p \<Longrightarrow> fl_op_kv_append p m (V + h * ka_d_v p + d)
      = m (ka_kvb p + h * (ka_d_nope p + ka_d_v p) + ka_d_nope p + d)"
    and "\<not> in_range K (ka_n_head p * dk) a \<Longrightarrow> \<not> in_range V (ka_n_head p * ka_d_v p) a \<Longrightarrow> fl_op_kv_append p m a = m a"
proof -
  define dn dr dv nh S where "dn = ka_d_nope p" and "dr = ka_d_rope p" and "dv = ka_d_v p" and "nh = ka_n_head p"
    and "S = ka_kvb p"
  note defs = dn_def dr_def dv_def nh_def S_def
  define body where "body = (\<lambda>h m. let src = S + h * (dn + dv); m = copy_words (K + h * dk) src dn m;
      m = copy_words (K + h * dk + dn) (ka_kpe p) dr m in copy_words (V + h * dv) (src + dn) dv m)"
  have op: "fl_op_kv_append p m = for_loop 0 nh body m"
    unfolding fl_op_kv_append_def body_def Let_def K_def V_def pos_def dk_def defs ..
  have dkd: "dk = dn + dr" by (simp add: dk_def defs)
  have ap: "apart K (nh * dk) V (nh * dv)" "apart K (nh * dk) S (nh * (dn + dv))" "apart K (nh * dk) (ka_kpe p) dr"
    "apart V (nh * dv) S (nh * (dn + dv))" "apart V (nh * dv) (ka_kpe p) dr"
    using ok by (simp_all add: kv_ok_def Let_def K_def V_def pos_def dk_def defs)
  have sub: "apart a (nh * x) b z \<Longrightarrow> h < nh \<Longrightarrow> apart (a + h * x) x b z" for a x b z h
  proof -
    assume "apart a (nh * x) b z" "h < nh"
    moreover have "h * x + x \<le> nh * x" by (rule row_end) fact
    ultimately show ?thesis by (auto simp: apart_def)
  qed
  have sym: "apart a x b y \<longleftrightarrow> apart b y a x" for a x b y by (auto simp: apart_def)
  have sub2: "apart a z b (nh * x) \<Longrightarrow> h < nh \<Longrightarrow> apart a z (b + h * x) x" for a x b z h
    using sub [of b x a z h] sym by blast
  have step: "body h M a = head_append (K + h * dk) (V + h * dv) (S + h * (dn + dv)) (ka_kpe p) dn dr dv M a"
    if "h < nh" for h M a
    unfolding body_def Let_def
    by (rule head_append_eq) (use ap sub sub2 that in \<open>simp_all add: dkd\<close>)
  have inK: "in_range (K + h * dk) dn a \<or> in_range (K + h * dk + dn) dr a \<Longrightarrow> h < nh \<Longrightarrow> in_range K (nh * dk) a"
    and inV: "in_range (V + h * dv) dv a \<Longrightarrow> h < nh \<Longrightarrow> in_range V (nh * dv) a" for h a
    using row_end [of h nh dk] row_end [of h nh dv] by (auto simp: in_range_def dkd)
  have frame: "for_loop 0 n body m a = m a"
    if n: "n \<le> nh" and a: "\<not> in_range K (nh * dk) a" "\<not> in_range V (nh * dv) a" for n a
  proof (rule write_loop_other)
    fix i M assume "i < n"
    then have i: "i < nh" using n by simp
    have "\<not> in_range (K + i * dk) dn a \<and> \<not> in_range (K + i * dk + dn) dr a" "\<not> in_range (V + i * dv) dv a"
      using inK [OF _ i] inV [OF _ i] a by blast+
    then show "body i M a = M a" by (simp add: step [OF i] head_append_def)
  qed
  show "\<not> in_range K (ka_n_head p * dk) a \<Longrightarrow> \<not> in_range V (ka_n_head p * ka_d_v p) a \<Longrightarrow> fl_op_kv_append p m a = m a"
    unfolding op using frame [of nh a] by (simp add: defs)
  define mine where "mine = (\<lambda>h a. in_range (K + h * dk) dn a \<or> in_range (K + h * dk + dn) dr a \<or> in_range (V + h * dv) dv a)"
  have outside: "\<not> in_range K (nh * dk) x \<and> \<not> in_range V (nh * dv) x"
    if "in_range S (nh * (dn + dv)) x \<or> in_range (ka_kpe p) dr x" for x
    using that ap by (auto simp: in_range_def apart_def)
  have inS: "in_range S (nh * (dn + dv)) (S + h * (dn + dv) + i)" if "h < nh" "i < dn + dv" for h i
    using row_end [OF that(1), of "dn + dv"] that(2) by (auto simp: in_range_def)
  have head: "for_loop 0 n body m a = head_append (K + h * dk) (V + h * dv) (S + h * (dn + dv)) (ka_kpe p) dn dr dv m a"
    if "n \<le> nh" "h < n" "mine h a" for n h a
    using that
  proof (induction n)
    case (Suc n)
    show ?case
    proof (cases "n = h")
      case True
      have f: "for_loop 0 h body m x = m x" if "in_range S (nh * (dn + dv)) x \<or> in_range (ka_kpe p) dr x" for x
        using frame [of h x] outside [OF that] Suc.prems True by simp
      have 1: "for_loop 0 h body m (S + h * (dn + dv) + i) = m (S + h * (dn + dv) + i)" if "i < dn + dv" for i
        using f inS [of h i] that Suc.prems True by simp
      have 2: "for_loop 0 h body m (ka_kpe p + i) = m (ka_kpe p + i)" if "i < dr" for i
        using f [of "ka_kpe p + i"] that by (simp add: in_range_def)
      have h: "h < nh" using Suc.prems by simp
      have "for_loop 0 (Suc n) body m a = body h (for_loop 0 h body m) a" using True by (simp add: for_loop_last)
      also have "\<dots> = head_append (K + h * dk) (V + h * dv) (S + h * (dn + dv)) (ka_kpe p) dn dr dv (for_loop 0 h body m) a"
        by (rule step [OF h])
      also have "\<dots> = head_append (K + h * dk) (V + h * dv) (S + h * (dn + dv)) (ka_kpe p) dn dr dv m a"
        using Suc.prems(3) by (intro head_append_cong 1 2) (simp_all add: mine_def)
      finally show ?thesis .
    next
      case False
      then have "h < n" using Suc.prems by simp
      have 1: "h * dk + dk \<le> n * dk" "h * dv + dv \<le> n * dv" using \<open>h < n\<close> by (rule row_end)+
      have "n * dk + dk \<le> nh * dk" "n * dv + dv \<le> nh * dv" using Suc.prems by (intro row_end; simp)+
      then have "\<not> mine n a" using 1 ap(1) Suc.prems(3) by (auto simp: mine_def in_range_def apart_def dkd)
      then have "body n M a = M a" for M using step [of n M a] Suc.prems by (simp add: head_append_def mine_def)
      then show ?thesis using Suc \<open>h < n\<close> by (simp add: for_loop_last)
    qed
  qed simp
  have VK: "\<not> in_range (K + h * dk) dn (V + h * dv + d) \<and> \<not> in_range (K + h * dk + dn) dr (V + h * dv + d)"
    if "h < nh" "d < dv" for h d
    using row_end [OF that(1), of dk] row_end [OF that(1), of dv] ap(1) that(2) by (auto simp: in_range_def apart_def dkd)
  show "h < ka_n_head p \<Longrightarrow> d < ka_d_nope p \<Longrightarrow> fl_op_kv_append p m (K + h * dk + d) = m (ka_kvb p + h * (ka_d_nope p + ka_d_v p) + d)"
    using head [of nh h "K + h * dk + d"] unfolding op by (simp add: mine_def in_range_def head_append_def flip: defs)
  show "h < ka_n_head p \<Longrightarrow> d < ka_d_rope p \<Longrightarrow> fl_op_kv_append p m (K + h * dk + ka_d_nope p + d) = m (ka_kpe p + d)"
    using head [of nh h "K + h * dk + dn + d"] unfolding op by (simp add: mine_def in_range_def head_append_def flip: defs)
  show "h < ka_n_head p \<Longrightarrow> d < ka_d_v p \<Longrightarrow> fl_op_kv_append p m (V + h * ka_d_v p + d)
      = m (ka_kvb p + h * (ka_d_nope p + ka_d_v p) + ka_d_nope p + d)"
  proof -
    assume "h < ka_n_head p" "d < ka_d_v p"
    then have hd: "h < nh" "d < dv" by (simp_all add: defs)
    have v: "in_range (V + h * dv) dv (V + h * dv + d)" using hd by (simp add: in_range_def)
    then have "for_loop 0 nh body m (V + h * dv + d) = m (S + h * (dn + dv) + dn + d)"
      using head [of nh h "V + h * dv + d"] hd(1) VK [OF hd] by (simp add: mine_def head_append_def)
    then show ?thesis unfolding op by (simp add: defs)
  qed
qed

text \<open>The exact merge, without a rescaling factor.\<close>

definition plain_wmerge :: "wmerge_p \<Rightarrow> wmem \<Rightarrow> wmem" where
  "plain_wmerge p m = for_loop 0 (wm_n p) (\<lambda>i m. m(wm_y p + i := wmerge_elem (\<lambda>g. g) p i m)) m"

lemma wmerge_elem_cong:
  assumes "\<And>q. q < wm_n_parts p \<Longrightarrow> gw (m (wm_gates p + q)) = gw' (m (wm_gates p + q))"
  shows "wmerge_elem gw p i m = wmerge_elem gw' p i m"
proof -
  have "for_loop 0 (wm_n_parts p) (\<lambda>q acc. f32_add acc (f32_mul (if wm_gates p \<noteq> 0 then gw (m (wm_gates p + q)) else c_1) (m (wm_parts p + q * wm_n p + i)))) 0
    = for_loop 0 (wm_n_parts p) (\<lambda>q acc. f32_add acc (f32_mul (if wm_gates p \<noteq> 0 then gw' (m (wm_gates p + q)) else c_1) (m (wm_parts p + q * wm_n p + i)))) 0"
    by (rule for_loop_cong) (simp add: assms)
  then show ?thesis by (simp only: wmerge_elem_def)
qed

lemma wmerge_exact:
  assumes full: "wm_n_full p \<le> wm_n_parts p" and g: "\<And>q. q < wm_n_parts p \<Longrightarrow> f32_ok (m (wm_gates p + q))"
    and ap: "apart (wm_y p) (wm_n p) (wm_gates p) (wm_n_parts p)"
  shows "fl_op_wmerge p m = plain_wmerge p m"
proof -
  have gsc: "wmerge_gsc p m = 0x3F800000" using full by (simp add: wmerge_gsc_def c_1_def)
  define step where "step = (\<lambda>gw i (m :: wmem). m(wm_y p + i := wmerge_elem gw p i m))"
  have eq: "for_loop 0 n (step (f32_mul 0x3F800000)) m = for_loop 0 n (step (\<lambda>g. g)) m
    \<and> (\<forall>q<wm_n_parts p. for_loop 0 n (step (\<lambda>g. g)) m (wm_gates p + q) = m (wm_gates p + q))" if "n \<le> wm_n p" for n
    using that
  proof (induction n)
    case (Suc n)
    let ?M = "for_loop 0 n (step (\<lambda>g. g)) m"
    have IH: "for_loop 0 n (step (f32_mul 0x3F800000)) m = ?M" and M: "\<forall>q<wm_n_parts p. ?M (wm_gates p + q) = m (wm_gates p + q)"
      using Suc by simp_all
    have "wm_gates p + q \<noteq> wm_y p + n" if "q < wm_n_parts p" for q
      using ap Suc.prems that by (auto simp: apart_def)
    then have "\<forall>q<wm_n_parts p. step (\<lambda>g. g) n ?M (wm_gates p + q) = m (wm_gates p + q)" using M by (simp add: step_def)
    moreover have "wmerge_elem (f32_mul 0x3F800000) p n ?M = wmerge_elem (\<lambda>g. g) p n ?M"
      by (rule wmerge_elem_cong) (simp add: M g f32_mul_one)
    then have "step (f32_mul 0x3F800000) n ?M = step (\<lambda>g. g) n ?M" by (simp only: step_def)
    ultimately show ?case by (simp add: for_loop_last IH)
  qed simp
  show ?thesis
    unfolding fl_op_wmerge_def plain_wmerge_def Let_def gsc
    using conjunct1 [OF eq [OF order.refl]] by (simp only: step_def)
qed

section \<open>The operations, as properties\<close>

text \<open>C17: The router writes the ids of the stable descending ranking of the softmax weights: distinct,
  each of the weight recorded for it, every expert left out ranked after every one selected
  before it, ties to the lower index.\<close>

theorem router_selects_top_k:
  assumes "list_all (f32_lt c_m1) w" "w = router_weights lm (ro_n_expert p) (\<lambda>i. m (ro_logits p + i))"
    and "ro_top_k p \<le> ro_n_expert p" "apart (ro_ids p) (ro_top_k p) (ro_gates p) (ro_top_k p)"
  shows "\<exists>sel. length sel = ro_top_k p \<and> selection_ok w sel
    \<and> (\<forall>k<ro_top_k p. fl_op_router_sel lm p m (ro_ids p + k) = of_nat (fst (sel ! k)))"
proof -
  let ?sel = "fst (router_select w (ro_top_k p))"
  have "length w = ro_n_expert p" by (simp add: assms(2) router_weights_length)
  then have "length ?sel = ro_top_k p \<and> selection_ok w ?sel"
    using assms(1,3) by (intro router_select_ok) (simp_all add: list_all_length)
  moreover have "fl_op_router_sel lm p m (ro_ids p + k) = of_nat (fst (?sel ! k))" if "k < ro_top_k p" for k
    using router_sel_ids [OF _ that, of lm m] assms(4) by (simp add: assms(2) apart_def)
  ultimately show ?thesis by blast
qed

text \<open>Appending at the current position stores each head's key (its own part, then the shared
  rotary part) and value at their rows of the caches, and changes nothing else.\<close>

theorem kv_append_stores_rows:
  fixes p m
  defines "pos \<equiv> unat (m (ka_pos p))" and "dk \<equiv> ka_d_nope p + ka_d_rope p"
  defines "K \<equiv> ka_kcache p + pos * ka_n_head p * dk" and "V \<equiv> ka_vcache p + pos * ka_n_head p * ka_d_v p"
  assumes "kv_ok p m" "h < ka_n_head p"
  shows "(\<forall>d<ka_d_nope p. fl_op_kv_append p m (K + h * dk + d) = m (ka_kvb p + h * (ka_d_nope p + ka_d_v p) + d))
    \<and> (\<forall>d<ka_d_rope p. fl_op_kv_append p m (K + h * dk + ka_d_nope p + d) = m (ka_kpe p + d))
    \<and> (\<forall>d<ka_d_v p. fl_op_kv_append p m (V + h * ka_d_v p + d)
        = m (ka_kvb p + h * (ka_d_nope p + ka_d_v p) + ka_d_nope p + d))
    \<and> (\<forall>a. \<not> in_range K (ka_n_head p * dk) a \<longrightarrow> \<not> in_range V (ka_n_head p * ka_d_v p) a \<longrightarrow> fl_op_kv_append p m a = m a)"
  unfolding K_def V_def pos_def dk_def using kv_append_rows [OF assms(5)] assms(6) by blast

text \<open>With no truncation (\<open>n_full\<close> at most \<open>n_parts\<close>) the rescaling factor is one and the merge
  is bitwise the merge without it, for gates that are not NaN.\<close>

theorem wmerge_untruncated_exact:
  assumes "wm_n_full p \<le> wm_n_parts p" "list_all (\<lambda>q. f32_ok (m (wm_gates p + q))) [0..<wm_n_parts p]"
    and "apart (wm_y p) (wm_n p) (wm_gates p) (wm_n_parts p)"
  shows "fl_op_wmerge p m = plain_wmerge p m"
  by (rule wmerge_exact) (use assms in \<open>simp_all add: list_all_iff\<close>)

definition demo_libm :: libm where
  "demo_libm = \<lparr>expf = (\<lambda>x. c_1), logf = (\<lambda>x. 0), cosf = (\<lambda>x. c_1), sinf = (\<lambda>x. 0), powf = (\<lambda>x y. c_1), sqrtf = (\<lambda>x. c_1)\<rparr>"

definition demo_router :: router_p where
  "demo_router = \<lparr>ro_logits = 0, ro_ids = 10, ro_gates = 20, ro_n_expert = 2, ro_top_k = 1, ro_norm = 0, ro_scale = c_1\<rparr>"

theorem router_selects_top_k_witness:
  "\<exists>sel. length sel = 1 \<and> selection_ok [0x3F000000, 0x3F000000] sel
    \<and> (\<forall>k<1. fl_op_router_sel demo_libm demo_router (\<lambda>_. 0) (10 + k) = of_nat (fst (sel ! k)))"
proof -
  have w: "[0x3F000000, 0x3F000000] = router_weights demo_libm (ro_n_expert demo_router) (\<lambda>i. (\<lambda>_. 0) (ro_logits demo_router + i))"
    by code_simp
  have "list_all (f32_lt c_m1) [0x3F000000, 0x3F000000]" by code_simp
  from router_selects_top_k [OF this w] show ?thesis by (simp add: demo_router_def apart_def)
qed

definition demo_kv :: kv_append_p where
  "demo_kv = \<lparr>ka_kvb = 1, ka_kpe = 20, ka_kcache = 100, ka_vcache = 200, ka_pos = 0, ka_n_head = 2, ka_d_nope = 2,
    ka_d_rope = 1, ka_d_v = 2, ka_max_kv = 8\<rparr>"

theorem kv_append_stores_rows_witness:
  "fl_op_kv_append demo_kv (\<lambda>a. of_nat a) 105 = 20"
  using kv_append_stores_rows [of demo_kv "\<lambda>a. of_nat a" 1]
  by (simp add: demo_kv_def kv_ok_def apart_def)

definition demo_wm :: wmerge_p where
  "demo_wm = \<lparr>wm_parts = 10, wm_gates = 20, wm_add1 = 0, wm_add2 = 0, wm_y = 30, wm_scale = c_1, wm_n_parts = 2, wm_n = 3, wm_n_full = 2\<rparr>"

theorem wmerge_untruncated_exact_witness:
  "fl_op_wmerge demo_wm (\<lambda>_. c_1) = plain_wmerge demo_wm (\<lambda>_. c_1)"
proof (rule wmerge_untruncated_exact)
  have "f32_ok c_1" by code_simp
  then show "list_all (\<lambda>q. f32_ok ((\<lambda>_. c_1) (wm_gates demo_wm + q))) [0..<wm_n_parts demo_wm]" by (simp add: list_all_iff)
qed (simp_all add: demo_wm_def apart_def)

end
