(* ===== verification/FL_Kernels_F32.thy ===== *)
theory FL_Kernels_F32
  imports FL_Decode_Ops FL_Shadow_Init
begin

text \<open>
  The float kernels of \<open>src/runtime/kernels.h\<close> in their NEON form: the 16-lane dot of two float
  rows, the fused Q8\_0 dot, the chunked dequantisation with the dot over the chunk, and the
  attention head. Vectors are functions from lanes; every lane operation rounds as the scalar one.
\<close>

section \<open>Float vectors\<close>

type_synonym f32x4 = "nat \<Rightarrow> f32"

definition vfmaq :: "f32x4 \<Rightarrow> f32x4 \<Rightarrow> f32x4 \<Rightarrow> f32x4" where "vfmaq a b c = (\<lambda>l. f32_fma (b l) (c l) (a l))"
definition vaddq :: "f32x4 \<Rightarrow> f32x4 \<Rightarrow> f32x4" where "vaddq a b = (\<lambda>l. f32_add (a l) (b l))"
definition vmulq :: "f32x4 \<Rightarrow> f32x4 \<Rightarrow> f32x4" where "vmulq a b = (\<lambda>l. f32_mul (a l) (b l))"
definition vcvtq :: "(nat \<Rightarrow> int) \<Rightarrow> f32x4" where "vcvtq a = (\<lambda>l. f32_of_int (a l))"

type_synonym acc16 = "f32x4 \<times> f32x4 \<times> f32x4 \<times> f32x4"

definition vzero4 :: acc16 where "vzero4 = (vdupq 0, vdupq 0, vdupq 0, vdupq 0)"

text \<open>The final tree: \<open>(a0 + a1) + (a2 + a3)\<close> lane by lane, then the lanes.\<close>

definition vtree :: "acc16 \<Rightarrow> f32" where
  "vtree = (\<lambda>(a0, a1, a2, a3). let s = vaddq (vaddq a0 a1) (vaddq a2 a3)
     in f32_add (f32_add (s 0) (s 1)) (f32_add (s 2) (s 3)))"

definition dot_row_fast :: "fvec \<Rightarrow> fvec \<Rightarrow> nat \<Rightarrow> f32" where
  "dot_row_fast row x cols =
    (let n16 = cols div 16 * 16;
         acc = for_loop 0 (cols div 16) (\<lambda>kb (a0, a1, a2, a3). let k = kb * 16 in
           (vfmaq a0 (vld1q row k) (vld1q x k), vfmaq a1 (vld1q row (k + 4)) (vld1q x (k + 4)),
            vfmaq a2 (vld1q row (k + 8)) (vld1q x (k + 8)), vfmaq a3 (vld1q row (k + 12)) (vld1q x (k + 12)))) vzero4;
         head = vtree acc;
         tail = for_loop n16 cols (\<lambda>k t. f32_add t (f32_mul (row k) (x k))) 0
     in f32_add head tail)"

definition dot_row_fast_q8_0 :: "bytes \<Rightarrow> fvec \<Rightarrow> nat \<Rightarrow> f32" where
  "dot_row_fast_q8_0 row x cols =
    vtree (for_loop 0 (cols div 32) (\<lambda>b (a0, a1, a2, a3).
      let B = (\<lambda>i. row (b * 34 + i)); dv = vdupq (fl_half2float (rd16 B 0));
          qs = (\<lambda>i. sint (B (2 + i))); xb = (\<lambda>i. x (b * 32 + i));
          w = (\<lambda>g. vmulq (vcvtq (vld1q qs (4 * g))) dv);
          a0 = vfmaq a0 (w 0) (vld1q xb 0); a1 = vfmaq a1 (w 1) (vld1q xb 4);
          a2 = vfmaq a2 (w 2) (vld1q xb 8); a3 = vfmaq a3 (w 3) (vld1q xb 12);
          a0 = vfmaq a0 (w 4) (vld1q xb 16); a1 = vfmaq a1 (w 5) (vld1q xb 20);
          a2 = vfmaq a2 (w 6) (vld1q xb 24); a3 = vfmaq a3 (w 7) (vld1q xb 28)
      in (a0, a1, a2, a3)) vzero4)"

section \<open>Dequantising a chunk\<close>

definition dequant_q5_0 :: "bytes \<Rightarrow> nat \<Rightarrow> fvec \<Rightarrow> fvec" where
  "dequant_q5_0 bp n = for_loop 0 (n div 32) (\<lambda>b.
     let B = (\<lambda>i. bp (b * 22 + i)); d = fl_half2float (rd16 B 0)
     in for_loop 0 16 (\<lambda>j m. m(b * 32 + j := f32_mul d (f32_of_int (q5_lo B j)),
          b * 32 + (16 + j) := f32_mul d (f32_of_int (q5_hi B j)))))"

definition dequant_q4_K :: "bytes \<Rightarrow> nat \<Rightarrow> fvec \<Rightarrow> fvec" where
  "dequant_q4_K bp n = for_loop 0 (n div 256) (\<lambda>sb.
     let B = (\<lambda>i. bp (sb * 144 + i)); d = fl_half2float (rd16 B 0); dmin = fl_half2float (rd16 B 2);
         scales = (\<lambda>i. B (4 + i)); o' = sb * 256
     in for_loop 0 4 (\<lambda>jj m.
          let q = (\<lambda>l. B (16 + 32 * jj + l)); is = 2 * jj;
              (sc, mn) = fl_q4k_scale_min is scales; d1 = f32_mul d (fl_of_u8 sc); m1 = f32_mul dmin (fl_of_u8 mn);
              (sc, mn) = fl_q4k_scale_min (is + 1) scales; d2 = f32_mul d (fl_of_u8 sc); m2 = f32_mul dmin (fl_of_u8 mn);
              m = for_loop 0 32 (\<lambda>l m. m(o' + jj * 64 + l := f32_sub (f32_mul d1 (fl_of_u8 (q l AND 0xF))) m1)) m
          in for_loop 0 32 (\<lambda>l m. m(o' + jj * 64 + 32 + l := f32_sub (f32_mul d2 (fl_of_u8 (drop_bit 4 (q l)))) m2)) m))"

definition dequant_q8_0 :: "bytes \<Rightarrow> nat \<Rightarrow> fvec \<Rightarrow> fvec" where
  "dequant_q8_0 bp n = for_loop 0 (n div 32) (\<lambda>b.
     let B = (\<lambda>i. bp (b * 34 + i)); d = fl_half2float (rd16 B 0)
     in for_loop 0 32 (\<lambda>j m. m(b * 32 + j := f32_mul d (fl_of_i8 (B (2 + j))))))"

definition dequant_q6_K :: "bytes \<Rightarrow> nat \<Rightarrow> fvec \<Rightarrow> fvec" where
  "dequant_q6_K bp n = for_loop 0 (n div 256) (\<lambda>sb.
     let B = (\<lambda>i. bp (sb * 210 + i)); d = fl_half2float (rd16 B 208); o' = sb * 256
     in for_loop 0 2 (\<lambda>h.
          let ql = (\<lambda>i. B (64 * h + i)); qh = (\<lambda>i. B (128 + 32 * h + i)); sc = (\<lambda>i. B (192 + 8 * h + i));
              v = (\<lambda>s l. f32_mul (f32_mul d (fl_of_i8 (sc (l div 16 + 2 * s)))) (f32_of_int (q6_bits ql qh s l - 32)))
          in for_loop 0 32 (\<lambda>l m. m(o' + h * 128 + l := v 0 l, o' + h * 128 + (l + 32) := v 1 l,
               o' + h * 128 + (l + 64) := v 2 l, o' + h * 128 + (l + 96) := v 3 l))))"

definition dequant_chunk :: "fmt \<Rightarrow> bytes \<Rightarrow> nat \<Rightarrow> nat \<Rightarrow> fvec \<Rightarrow> fvec" where
  "dequant_chunk f row elem0 n out =
    (let be = unat (fl_blk_elems f); bp = (\<lambda>i. row (elem0 div be * unat (fl_blk_bytes f) + i))
     in if f = Q5_0 then dequant_q5_0 bp n out
        else if f = Q4_K then dequant_q4_K bp n out
        else if f = F32 then memcpy_to out 0 (\<lambda>i. rd32 row (4 * (elem0 + i))) n
        else if f = Q8_0 then dequant_q8_0 bp n out
        else if f = IQ2_XXS \<or> f = IQ3_XXS then memcpy_to out 0 (\<lambda>_. 0) n
        else dequant_q6_K bp n out)"

definition dot_row_fast_dequant :: "fvec \<Rightarrow> fmt \<Rightarrow> bytes \<Rightarrow> fvec \<Rightarrow> nat \<Rightarrow> f32" where
  "dot_row_fast_dequant buf f row x cols =
    snd (for_loop 0 ((cols + 255) div 256) (\<lambda>c (buf, acc).
      let e = c * 256; n = (if cols - e < 256 then cols - e else 256); buf = dequant_chunk f row e n buf
      in (buf, f32_add acc (dot_row_fast buf (\<lambda>i. x (e + i)) n))) (buf, 0))"

section \<open>What a chunk holds\<close>

lemma fill_loop:
  "for_loop 0 k (\<lambda>j m. m(a + j := f j)) m = (\<lambda>b. if a \<le> b \<and> b < a + k then f (b - a) else m b)"
  for a :: nat
proof (induction k)
  case (Suc k)
  then show ?case by (auto simp: for_loop_last fun_eq_iff)
qed (auto simp: fun_eq_iff)

lemma q8_0_writer:
  "block_writer nb 0 32 32 (\<lambda>b. let B = (\<lambda>i. bp (b * 34 + i)); d = fl_half2float (rd16 B 0)
     in for_loop 0 32 (\<lambda>j m. m(b * 32 + j := f32_mul d (fl_of_i8 (B (2 + j)))))) (\<lambda>b. dq_q8_0 (\<lambda>i. bp (b * 34 + i)))"
  unfolding block_writer_def Let_def fill_loop by (simp add: dq_q8_0_def)

lemma q5_0_writer:
  "block_writer nb 0 32 32 (\<lambda>b. let B = (\<lambda>i. bp (b * 22 + i)); d = fl_half2float (rd16 B 0)
     in for_loop 0 16 (\<lambda>j m. m(b * 32 + j := f32_mul d (f32_of_int (q5_lo B j)),
          b * 32 + (16 + j) := f32_mul d (f32_of_int (q5_hi B j))))) (\<lambda>b. dq_q5_0 (\<lambda>i. bp (b * 22 + i)))"
  unfolding block_writer_def Let_def q5_loop [OF order_refl] by (auto simp: dq_q5_0_def)

definition q4_span :: "bytes \<Rightarrow> nat \<Rightarrow> nat \<Rightarrow> fvec \<Rightarrow> fvec" where
  "q4_span B o' jj m =
    (let q = (\<lambda>l. B (16 + 32 * jj + l)); d = fl_half2float (rd16 B 0); dmin = fl_half2float (rd16 B 2);
         scales = (\<lambda>i. B (4 + i)); is = 2 * jj;
         (sc, mn) = fl_q4k_scale_min is scales; d1 = f32_mul d (fl_of_u8 sc); m1 = f32_mul dmin (fl_of_u8 mn);
         (sc, mn) = fl_q4k_scale_min (is + 1) scales; d2 = f32_mul d (fl_of_u8 sc); m2 = f32_mul dmin (fl_of_u8 mn);
         m = for_loop 0 32 (\<lambda>l m. m(o' + jj * 64 + l := f32_sub (f32_mul d1 (fl_of_u8 (q l AND 0xF))) m1)) m
     in for_loop 0 32 (\<lambda>l m. m(o' + jj * 64 + 32 + l := f32_sub (f32_mul d2 (fl_of_u8 (drop_bit 4 (q l)))) m2)) m)"

lemma q4_span_writer: "block_writer 4 o' 64 64 (q4_span B o') (\<lambda>jj k. dq_q4_K B (jj * 64 + k))"
  unfolding block_writer_def q4_span_def Let_def fill_loop case_prod_beta
proof (intro conjI allI impI, rule order_refl, auto simp: not_less, goal_cases)
  case (1 jj k)
  then show ?case
  proof (cases "k < 32")
    case False
    then obtain l where k: "k = 32 + l" using le_Suc_ex not_less by blast
    then show ?thesis using 1 dq_q4_K_odd [of l B jj] by (simp add: add.assoc)
  qed (use dq_q4_K_even [of k B jj] in \<open>simp add: add.assoc\<close>)
next
  case (2 jj k)
  then show ?case
  proof (cases "k < 32")
    case False
    then obtain l where k: "k = 32 + l" using le_Suc_ex not_less by blast
    then show ?thesis using 2 dq_q4_K_odd [of l B jj] by (simp add: add.assoc)
  qed (use dq_q4_K_even [of k B jj] in \<open>simp add: add.assoc\<close>)
qed

lemma q4_K_writer:
  "block_writer nb 0 256 256 (\<lambda>sb. for_loop 0 4 (q4_span (\<lambda>i. bp (sb * 144 + i)) (sb * 256)))
     (\<lambda>sb. dq_q4_K (\<lambda>i. bp (sb * 144 + i)))"
proof -
  have "block_writer nb 0 256 (4 * 64) (\<lambda>sb. for_loop 0 4 (q4_span (\<lambda>i. bp (sb * 144 + i)) (sb * 256)))
     (\<lambda>sb k. dq_q4_K (\<lambda>i. bp (sb * 144 + i)) (k div 64 * 64 + k mod 64))"
    by (rule block_writer_nest [where v = "\<lambda>sb jj k. dq_q4_K (\<lambda>i. bp (sb * 144 + i)) (jj * 64 + k)"])
      (use q4_span_writer in simp_all)
  then show ?thesis by simp
qed

lemma loop_four_spans:
  "n \<le> 32 \<Longrightarrow> for_loop 0 n (\<lambda>l m. m(a + l := f0 l, a + (l + 32) := f1 l, a + (l + 64) := f2 l, a + (l + 96) := f3 l)) m =
    (\<lambda>b. if a \<le> b \<and> b < a + n then f0 (b - a)
         else if a + 32 \<le> b \<and> b < a + 32 + n then f1 (b - a - 32)
         else if a + 64 \<le> b \<and> b < a + 64 + n then f2 (b - a - 64)
         else if a + 96 \<le> b \<and> b < a + 96 + n then f3 (b - a - 96) else m b)"
proof (induction n)
  case (Suc n)
  then show ?case by (auto simp: for_loop_last fun_eq_iff)
qed (auto simp: fun_eq_iff)

definition q6_half :: "bytes \<Rightarrow> nat \<Rightarrow> nat \<Rightarrow> fvec \<Rightarrow> fvec" where
  "q6_half B o' h =
    (let d = fl_half2float (rd16 B 208); ql = (\<lambda>i. B (64 * h + i)); qh = (\<lambda>i. B (128 + 32 * h + i));
         sc = (\<lambda>i. B (192 + 8 * h + i));
         v = (\<lambda>s l. f32_mul (f32_mul d (fl_of_i8 (sc (l div 16 + 2 * s)))) (f32_of_int (q6_bits ql qh s l - 32)))
     in for_loop 0 32 (\<lambda>l m. m(o' + h * 128 + l := v 0 l, o' + h * 128 + (l + 32) := v 1 l,
          o' + h * 128 + (l + 64) := v 2 l, o' + h * 128 + (l + 96) := v 3 l)))"

lemma q6_half_writer: "block_writer 2 o' 128 128 (q6_half B o') (\<lambda>h k. dq_q6_K B (h * 128 + k))"
  unfolding block_writer_def q6_half_def Let_def loop_four_spans [OF order_refl]
proof (intro conjI allI impI, rule order_refl, auto simp: not_less, goal_cases)
  case (1 h k)
  then show ?case using dq_q6_K_at [of 0 k B h] by simp
next
  case (2 h k)
  then obtain l where "k = 32 + l" "l < 32" using le_Suc_ex by force
  then show ?case using dq_q6_K_at [of 1 l B h] by simp
next
  case (3 h k)
  then obtain l where "k = 64 + l" "l < 32" using le_Suc_ex by force
  then show ?case using dq_q6_K_at [of 2 l B h] by simp
next
  case (4 h k)
  then obtain l where "k = 96 + l" "l < 32" using le_Suc_ex by force
  then show ?case using dq_q6_K_at [of 3 l B h] by simp
qed

lemma q6_K_writer:
  "block_writer nb 0 256 256 (\<lambda>sb. for_loop 0 2 (q6_half (\<lambda>i. bp (sb * 210 + i)) (sb * 256)))
     (\<lambda>sb. dq_q6_K (\<lambda>i. bp (sb * 210 + i)))"
proof -
  have "block_writer nb 0 256 (2 * 128) (\<lambda>sb. for_loop 0 2 (q6_half (\<lambda>i. bp (sb * 210 + i)) (sb * 256)))
     (\<lambda>sb k. dq_q6_K (\<lambda>i. bp (sb * 210 + i)) (k div 128 * 128 + k mod 128))"
    by (rule block_writer_nest [where v = "\<lambda>sb h k. dq_q6_K (\<lambda>i. bp (sb * 210 + i)) (h * 128 + k)"])
      (use q6_half_writer in simp_all)
  then show ?thesis by simp
qed

definition dq_capable :: "fmt \<Rightarrow> bool" where "dq_capable f \<longleftrightarrow> \<not> fl_fmt_is_codebook f"

lemma dequant_fill:
  assumes w: "block_writer (n div be) 0 be be body (\<lambda>b. v b)" and n: "n mod be = 0" and e: "at mod be = 0" and i: "i < n"
    and v: "\<And>b k. k < be \<Longrightarrow> v b k = dq (at div be + b) k"
  shows "for_loop 0 (n div be) body m i = (dq ((at + i) div be) ((at + i) mod be) :: f32)"
proof -
  have be: "0 < be" using n i by (cases be) auto
  have "n div be * be = n" using n by (simp add: mod_eq_0_iff_dvd)
  then have "i div be < n div be" using i by (simp add: less_mult_imp_div_less)
  then have "for_loop 0 (n div be) body m (0 + i div be * be + i mod be) = v (i div be) (i mod be)"
    using be by (intro block_writer_own [OF w]) simp_all
  moreover have "(at + i) div be = at div be + i div be" "(at + i) mod be = i mod be"
  proof -
    obtain q where "at = be * q" using e by (auto simp: mod_eq_0_iff_dvd)
    then show "(at + i) div be = at div be + i div be" "(at + i) mod be = i mod be" using be by simp_all
  qed
  ultimately show ?thesis using v [of "i mod be" "i div be"] be by simp
qed

lemma dequant_unfold:
  "dequant_q4_K bp n = for_loop 0 (n div 256) (\<lambda>sb. for_loop 0 4 (q4_span (\<lambda>i. bp (sb * 144 + i)) (sb * 256)))"
  "dequant_q6_K bp n = for_loop 0 (n div 256) (\<lambda>sb. for_loop 0 2 (q6_half (\<lambda>i. bp (sb * 210 + i)) (sb * 256)))"
  unfolding dequant_q4_K_def dequant_q6_K_def q4_span_def [abs_def] q6_half_def [abs_def] Let_def by (rule refl)+

text \<open>A chunk of complete blocks holds the dequantised elements of the row, whatever it held before.\<close>

lemma dequant_chunk_elem:
  assumes f: "dq_capable f" and n: "n mod unat (fl_blk_elems f) = 0" and e: "elem0 mod unat (fl_blk_elems f) = 0" and i: "i < n"
  shows "dequant_chunk f row elem0 n out i = dq_elem f row (elem0 + i)"
proof -
  note d = dequant_chunk_def dq_elem_def Let_def
  have at: "bb * (q + b) + k = bb * q + (bb * b + k)" for bb q b k :: nat by (simp add: algebra_simps)
  consider "f = F32" | "f = Q8_0" | "f = Q5_0" | "f = Q4_K" | "f = Q6_K"
    using f by (cases f) (auto simp: dq_capable_def)
  then show ?thesis
  proof cases
    case 1 then show ?thesis using i by (simp add: d memcpy_to_def rd32_def add.assoc mult.commute [of 4])
  next
    case 2
    then show ?thesis
      using dequant_fill [OF q8_0_writer [of "n div 32" "\<lambda>i. row (elem0 div 32 * 34 + i)"], of elem0 i "\<lambda>b. dq_q8_0 (\<lambda>i. row (b * 34 + i))"] n e i
      by (simp add: d dequant_q8_0_def add_mult_distrib add.assoc)
  next
    case 3
    then show ?thesis
      using dequant_fill [OF q5_0_writer [of "n div 32" "\<lambda>i. row (elem0 div 32 * 22 + i)"], of elem0 i "\<lambda>b. dq_q5_0 (\<lambda>i. row (b * 22 + i))"] n e i
      by (simp add: d dequant_q5_0_def add_mult_distrib add.assoc)
  next
    case 4
    then show ?thesis
      using dequant_fill [OF q4_K_writer [of "n div 256" "\<lambda>i. row (elem0 div 256 * 144 + i)"], of elem0 i "\<lambda>b. dq_q4_K (\<lambda>i. row (b * 144 + i))"] n e i
      by (simp add: d dequant_unfold add_mult_distrib add.assoc)
  next
    case 5
    then show ?thesis
      using dequant_fill [OF q6_K_writer [of "n div 256" "\<lambda>i. row (elem0 div 256 * 210 + i)"], of elem0 i "\<lambda>b. dq_q6_K (\<lambda>i. row (b * 210 + i))"] n e i
      by (simp add: d dequant_unfold add_mult_distrib add.assoc)
  qed
qed

text \<open>The dot over chunks does not depend on the buffer: each chunk is the float dot with the
  dequantised elements.\<close>

definition dot_dequant_ref :: "fmt \<Rightarrow> bytes \<Rightarrow> fvec \<Rightarrow> nat \<Rightarrow> f32" where
  "dot_dequant_ref f row x cols =
    for_loop 0 ((cols + 255) div 256) (\<lambda>c acc.
      let e = c * 256; n = min 256 (cols - e) in f32_add acc (dot_row_fast (\<lambda>i. dq_elem f row (e + i)) (\<lambda>i. x (e + i)) n)) 0"

lemma for_loop_rel:
  assumes "R s t" "\<And>i s t. lo \<le> i \<Longrightarrow> i < hi \<Longrightarrow> R s t \<Longrightarrow> R (f i s) (g i t)"
  shows "R (for_loop lo hi f s) (for_loop lo hi g t)"
proof (cases "lo \<le> hi")
  case True
  then show ?thesis
    using assms(2)
  proof (induction hi rule: dec_induct)
    case base then show ?case using assms(1) by simp
  next
    case (step n)
    then show ?case by (simp add: for_loop_last)
  qed
qed (use assms(1) in simp)

text \<open>Accumulators that agree on their four lanes.\<close>

definition lanes_eq :: "acc16 \<Rightarrow> acc16 \<Rightarrow> bool" where
  "lanes_eq = (\<lambda>(a0, a1, a2, a3) (b0, b1, b2, b3). \<forall>l < 4. a0 l = b0 l \<and> a1 l = b1 l \<and> a2 l = b2 l \<and> a3 l = b3 l)"

lemma vtree_lanes: "lanes_eq a b \<Longrightarrow> vtree a = vtree b"
  by (cases a; cases b) (auto simp: lanes_eq_def vtree_def vaddq_def)

lemma dot_row_fast_cong:
  assumes w: "\<And>i. i < n \<Longrightarrow> w i = w' i"
  shows "dot_row_fast w x n = dot_row_fast w' x n"
proof -
  let ?f = "\<lambda>w kb (a0, a1, a2, a3). let k = kb * 16 in
           (vfmaq a0 (vld1q w k) (vld1q x k), vfmaq a1 (vld1q w (k + 4)) (vld1q x (k + 4)),
            vfmaq a2 (vld1q w (k + 8)) (vld1q x (k + 8)), vfmaq a3 (vld1q w (k + 12)) (vld1q x (k + 12)))"
  have "lanes_eq (for_loop 0 (n div 16) (?f w) vzero4) (for_loop 0 (n div 16) (?f w') vzero4)"
  proof (rule for_loop_rel)
    fix kb s t assume kb: "kb < n div 16" and st: "lanes_eq s t"
    have "kb * 16 + 16 \<le> n" using block_before [OF kb, of 16] div_times_less_eq_dividend [of n 16] by linarith
    then have e: "w (kb * 16 + j) = w' (kb * 16 + j)" if "j < 16" for j using that w by simp
    have "w (kb * 16 + l) = w' (kb * 16 + l)" "w (kb * 16 + 4 + l) = w' (kb * 16 + 4 + l)"
      "w (kb * 16 + 8 + l) = w' (kb * 16 + 8 + l)" "w (kb * 16 + 12 + l) = w' (kb * 16 + 12 + l)" if "l < 4" for l
      using e [of l] e [of "4 + l"] e [of "8 + l"] e [of "12 + l"] that by (simp_all add: add.assoc)
    then show "lanes_eq (?f w kb s) (?f w' kb t)"
      using st by (cases s; cases t) (simp add: lanes_eq_def vfmaq_def vld1q_def Let_def)
  qed (simp add: lanes_eq_def vzero4_def)
  note head = vtree_lanes [OF this]
  have "for_loop (n div 16 * 16) n (\<lambda>k t. f32_add t (f32_mul (w k) (x k))) 0
      = for_loop (n div 16 * 16) n (\<lambda>k t. f32_add t (f32_mul (w' k) (x k))) 0"
    by (rule for_loop_cong) (simp add: w)
  with head show ?thesis unfolding dot_row_fast_def Let_def by simp
qed

lemma blk_dvd_256: "unat (fl_blk_elems f) dvd 256"
  by (cases f) simp_all

lemma dot_fast_dequant:
  assumes f: "dq_capable f" and cols: "cols mod unat (fl_blk_elems f) = 0"
  shows "dot_row_fast_dequant buf f row x cols = dot_dequant_ref f row x cols"
proof -
  let ?f = "\<lambda>c (buf, acc). let e = c * 256; n = (if cols - e < 256 then cols - e else 256); buf = dequant_chunk f row e n buf
      in (buf, f32_add acc (dot_row_fast buf (\<lambda>i. x (e + i)) n))"
  let ?g = "\<lambda>c acc. let e = c * 256; n = min 256 (cols - e) in f32_add acc (dot_row_fast (\<lambda>i. dq_elem f row (e + i)) (\<lambda>i. x (e + i)) n)"
  have "snd (for_loop 0 ((cols + 255) div 256) ?f (buf, 0)) = for_loop 0 ((cols + 255) div 256) ?g 0"
  proof (rule for_loop_rel [where R = "\<lambda>s t. snd s = t"])
    fix c t and s :: "fvec \<times> f32" assume "snd s = t"
    moreover have e: "c * 256 mod unat (fl_blk_elems f) = 0"
      using blk_dvd_256 [of f] by (simp add: mod_eq_0_iff_dvd)
    have n: "min 256 (cols - c * 256) mod unat (fl_blk_elems f) = 0"
      using cols e blk_dvd_256 [of f] by (simp add: min_def mod_eq_0_iff_dvd)
    have "dot_row_fast (dequant_chunk f row (c * 256) (min 256 (cols - c * 256)) (fst s)) y (min 256 (cols - c * 256))
        = dot_row_fast (\<lambda>i. dq_elem f row (c * 256 + i)) y (min 256 (cols - c * 256))" for y
      by (rule dot_row_fast_cong) (rule dequant_chunk_elem [OF f n e])
    moreover have "(if cols - c * 256 < 256 then cols - c * 256 else 256) = min 256 (cols - c * 256)" by simp
    ultimately show "snd (?f c s) = ?g c t" by (cases s) (simp add: Let_def)
  qed simp
  then show ?thesis unfolding dot_row_fast_dequant_def dot_dequant_ref_def .
qed

section \<open>The attention head\<close>

definition attn_score_neon :: "nat \<Rightarrow> (nat \<Rightarrow> f32) \<Rightarrow> (nat \<Rightarrow> f32) \<Rightarrow> f32" where
  "attn_score_neon dk q k =
    (let (a, b) = for_loop 0 ((dk + 7) div 8) (\<lambda>db (a, b). let d = 8 * db in
           (vfmaq a (vld1q q d) (vld1q k d), vfmaq b (vld1q q (d + 4)) (vld1q k (d + 4)))) (vdupq 0, vdupq 0)
     in f32_add (f32_add (f32_add (f32_add (f32_add (f32_add (f32_add (a 0) (a 1)) (a 2)) (a 3)) (b 0)) (b 1)) (b 2)) (b 3))"

definition attn_context_neon :: "attn_head_p \<Rightarrow> nat \<Rightarrow> f32 \<Rightarrow> wmem \<Rightarrow> wmem" where
  "attn_context_neon p n iv m =
    (let o' = ah_out p + ah_head p * ah_dv p; nd = (ah_dv p + 3) div 4;
         m = for_loop 0 nd (\<lambda>d m. memcpy_to m (o' + 4 * d) (vdupq 0) 4) m
     in for_loop 0 n (\<lambda>j m.
          let w = f32_mul (m (ah_scratch p + j)) iv; wv = vdupq w; v = ah_vcache p + (j * ah_n_head p + ah_head p) * ah_dv p
          in for_loop 0 nd (\<lambda>d m. let ov = vld1q m (o' + 4 * d); ov = vfmaq ov wv (vld1q m (v + 4 * d))
               in memcpy_to m (o' + 4 * d) ov 4) m) m)"

definition attn_scores_neon :: "attn_head_p \<Rightarrow> wmem \<Rightarrow> f32 \<times> wmem" where
  "attn_scores_neon p m =
    for_loop 0 (unat (m (ah_pos p) + 1)) (\<lambda>j (mx, m).
      let q = (\<lambda>d. m (ah_q p + ah_head p * ah_dk p + d));
          k = (\<lambda>d. m (ah_kcache p + (j * ah_n_head p + ah_head p) * ah_dk p + d));
          acc = f32_mul (attn_score_neon (ah_dk p) q k) (ah_scale p)
      in (if f32_lt mx acc then acc else mx, m(ah_scratch p + j := acc))) (c_lowest, m)"

definition fl_op_attn_head_neon :: "libm \<Rightarrow> attn_head_p \<Rightarrow> wmem \<Rightarrow> wmem" where
  "fl_op_attn_head_neon lm p m =
    (let n = unat (m (ah_pos p) + 1);
         (mx, m) = attn_scores_neon p m;
         (sm, m) = attn_exps lm (ah_scratch p) n mx m
     in attn_context_neon p n (f32_div c_1 sm) m)"

lemma attn_score_lanes: "attn_score_neon dk q k = attn_score True dk q k"
proof -
  let ?f = "\<lambda>db (a, b). let d = 8 * db in
           (vfmaq a (vld1q q d) (vld1q k d), vfmaq b (vld1q q (d + 4)) (vld1q k (d + 4)))"
  let ?R = "\<lambda>(a :: f32x4, b :: f32x4) s. length s = 8 \<and> (\<forall>l < 4. s ! l = a l \<and> s ! (4 + l) = b l)"
  define S where "S = for_loop 0 ((dk + 7) div 8) (\<lambda>b. stripe_add q k (8 * b)) (replicate 8 0)"
  obtain a b where ab: "for_loop 0 ((dk + 7) div 8) ?f (vdupq 0, vdupq 0) = (a, b)" by (cases "for_loop 0 ((dk + 7) div 8) ?f (vdupq 0, vdupq 0)")
  have "?R (for_loop 0 ((dk + 7) div 8) ?f (vdupq 0, vdupq 0)) S"
    unfolding S_def by (rule for_loop_rel) (auto simp: vdupq_def vfmaq_def vld1q_def stripe_add_def Let_def add.assoc)
  then have l: "l < 4 \<Longrightarrow> S ! l = a l" "l < 4 \<Longrightarrow> S ! (4 + l) = b l" for l by (simp_all add: ab)
  have "attn_score True dk q k = fold8 S" by (simp add: attn_score_def S_def)
  also have "\<dots> = attn_score_neon dk q k"
    using l(1) [of 0] l(1) [of 1] l(1) [of 2] l(1) [of 3] l(2) [of 0] l(2) [of 1] l(2) [of 2] l(2) [of 3]
    unfolding attn_score_neon_def ab by (simp add: fold8_def)
  finally show ?thesis ..
qed

text \<open>An element-wise loop over a block the reads do not overlap is one vector store.\<close>

lemma store_loop:
  fixes a v :: nat
  assumes "a + k \<le> v \<or> v + k \<le> a"
  shows "for_loop 0 k (\<lambda>i m. m(a + i := g (m (v + i)) (m (a + i)))) m = memcpy_to m a (\<lambda>i. g (m (v + i)) (m (a + i))) k"
proof -
  define body where "body = (\<lambda>i m. m(a + i := g (m (v + i)) (m (a + i))))"
  have "for_loop 0 j body m = memcpy_to m a (\<lambda>i. g (m (v + i)) (m (a + i))) j" if "j \<le> k" for j
    using that
  proof (induction j)
    case (Suc j)
    let ?m = "memcpy_to m a (\<lambda>i. g (m (v + i)) (m (a + i))) j"
    have "v + j < a \<or> a + j \<le> v + j" using assms Suc.prems by linarith
    then have r: "?m (v + j) = m (v + j)" "?m (a + j) = m (a + j)" using assms Suc.prems by (auto simp: memcpy_to_def)
    have "for_loop 0 (Suc j) body m = body j ?m" using Suc by (simp add: for_loop_last)
    also have "\<dots> = ?m(a + j := g (m (v + j)) (m (a + j)))" unfolding body_def r ..
    also have "\<dots> = memcpy_to m a (\<lambda>i. g (m (v + i)) (m (a + i))) (Suc j)"
      by (rule ext) (simp add: memcpy_to_def less_Suc_eq)
    finally show ?case .
  qed (auto simp: memcpy_to_def fun_eq_iff)
  then show ?thesis unfolding body_def by simp
qed

lemma zero_groups: "for_loop 0 nd (\<lambda>d m. memcpy_to m (a + 4 * d) (vdupq 0) 4) m = for_loop 0 (nd * 4) (\<lambda>d m. m(a + d := 0 :: f32)) m"
proof -
  define body where "body = (\<lambda>d m. m(a + d := 0 :: f32))"
  have "for_loop 0 nd (\<lambda>d m. memcpy_to m (a + 4 * d) (vdupq 0) 4) m = for_loop 0 nd (\<lambda>d. for_loop 0 4 (\<lambda>i. body (d * 4 + i))) m"
  proof (rule for_loop_cong)
    fix d m
    show "memcpy_to m (a + 4 * d) (vdupq 0) 4 = for_loop 0 4 (\<lambda>i. body (d * 4 + i)) m"
      using fill_loop [of 4 "a + d * 4" "\<lambda>_. 0" m] by (simp add: body_def memcpy_to_def vdupq_def add.assoc mult.commute)
  qed
  also have "\<dots> = for_loop 0 (nd * 4) body m" by (rule for_loop_blocks)
  finally show ?thesis unfolding body_def .
qed

lemma fma_groups:
  fixes a v :: nat
  assumes "a + nd * 4 \<le> v \<or> v + nd * 4 \<le> a"
  shows "for_loop 0 nd (\<lambda>d m. memcpy_to m (a + 4 * d) (vfmaq (vld1q m (a + 4 * d)) (vdupq w) (vld1q m (v + 4 * d))) 4) m
    = for_loop 0 (nd * 4) (\<lambda>d m. m(a + d := f32_fma w (m (v + d)) (m (a + d)))) m"
proof -
  define body where "body = (\<lambda>d m. m(a + d := f32_fma w (m (v + d)) (m (a + d))))"
  have "for_loop 0 nd (\<lambda>d m. memcpy_to m (a + 4 * d) (vfmaq (vld1q m (a + 4 * d)) (vdupq w) (vld1q m (v + 4 * d))) 4) m
      = for_loop 0 nd (\<lambda>d. for_loop 0 4 (\<lambda>i. body (d * 4 + i))) m"
  proof (rule for_loop_cong)
    fix d m assume "d < nd"
    then have "d * 4 + 4 \<le> nd * 4" by simp
    then have "a + d * 4 + 4 \<le> v + d * 4 \<or> v + d * 4 + 4 \<le> a + d * 4" using assms by linarith
    from store_loop [OF this, of "f32_fma w" m]
    show "memcpy_to m (a + 4 * d) (vfmaq (vld1q m (a + 4 * d)) (vdupq w) (vld1q m (v + 4 * d))) 4
      = for_loop 0 4 (\<lambda>i. body (d * 4 + i)) m"
      by (simp add: body_def vfmaq_def vld1q_def vdupq_def add.assoc mult.commute)
  qed
  also have "\<dots> = for_loop 0 (nd * 4) body m" by (rule for_loop_blocks)
  finally show ?thesis unfolding body_def .
qed

text \<open>The output row of the head is apart from the value rows it reads.\<close>

definition attn_out_apart :: "attn_head_p \<Rightarrow> nat \<Rightarrow> bool" where
  "attn_out_apart p n \<longleftrightarrow> (\<forall>j < n. let o' = ah_out p + ah_head p * ah_dv p;
     v = ah_vcache p + (j * ah_n_head p + ah_head p) * ah_dv p in o' + ah_dv p \<le> v \<or> v + ah_dv p \<le> o')"

lemma attn_context_groups:
  assumes s: "attn_striped p" and ap: "attn_out_apart p n"
  shows "attn_context_neon p n iv m = attn_context p n iv m"
proof -
  have nd: "(ah_dv p + 3) div 4 * 4 = ah_dv p" using s by (simp add: attn_striped_def) presburger
  have "for_loop 0 n (\<lambda>j m.
          let w = f32_mul (m (ah_scratch p + j)) iv; wv = vdupq w; v = ah_vcache p + (j * ah_n_head p + ah_head p) * ah_dv p
          in for_loop 0 ((ah_dv p + 3) div 4) (\<lambda>d m.
               let ov = vld1q m (ah_out p + ah_head p * ah_dv p + 4 * d); ov = vfmaq ov wv (vld1q m (v + 4 * d))
               in memcpy_to m (ah_out p + ah_head p * ah_dv p + 4 * d) ov 4) m) m =
      for_loop 0 n (\<lambda>j m.
          let w = f32_mul (m (ah_scratch p + j)) iv; v = ah_vcache p + (j * ah_n_head p + ah_head p) * ah_dv p
          in for_loop 0 (ah_dv p) (\<lambda>d m. m(ah_out p + ah_head p * ah_dv p + d :=
               f32_fma w (m (v + d)) (m (ah_out p + ah_head p * ah_dv p + d)))) m) m" for m
  proof (rule for_loop_cong)
    fix j m assume "j < n"
    then have "ah_out p + ah_head p * ah_dv p + (ah_dv p + 3) div 4 * 4 \<le> ah_vcache p + (j * ah_n_head p + ah_head p) * ah_dv p
      \<or> ah_vcache p + (j * ah_n_head p + ah_head p) * ah_dv p + (ah_dv p + 3) div 4 * 4 \<le> ah_out p + ah_head p * ah_dv p"
      using ap unfolding nd attn_out_apart_def Let_def by blast
    from fma_groups [OF this, unfolded nd]
    show "(let w = f32_mul (m (ah_scratch p + j)) iv; wv = vdupq w; v = ah_vcache p + (j * ah_n_head p + ah_head p) * ah_dv p
          in for_loop 0 ((ah_dv p + 3) div 4) (\<lambda>d m.
               let ov = vld1q m (ah_out p + ah_head p * ah_dv p + 4 * d); ov = vfmaq ov wv (vld1q m (v + 4 * d))
               in memcpy_to m (ah_out p + ah_head p * ah_dv p + 4 * d) ov 4) m) =
        (let w = f32_mul (m (ah_scratch p + j)) iv; v = ah_vcache p + (j * ah_n_head p + ah_head p) * ah_dv p
          in for_loop 0 (ah_dv p) (\<lambda>d m. m(ah_out p + ah_head p * ah_dv p + d :=
               f32_fma w (m (v + d)) (m (ah_out p + ah_head p * ah_dv p + d)))) m)"
      unfolding Let_def .
  qed
  then show ?thesis
    unfolding attn_context_neon_def attn_context_def Let_def zero_groups nd if_P [OF s] by simp
qed

lemma attn_scores_lanes: "attn_striped p \<Longrightarrow> attn_scores_neon p m = attn_scores p m"
  unfolding attn_scores_neon_def attn_scores_def attn_score_lanes by (rule for_loop_cong) simp

text \<open>C26: When the head dimensions are lane multiples and the output row does not overlap the value
  rows, the vectorised attention head leaves the same memory, bit for bit, as the canonical one:
  scores, softmax and context, with the two accumulators holding exactly the eight stripes.\<close>

theorem attn_neon_is_canonical:
  assumes s: "attn_striped p" and ap: "attn_out_apart p (unat (m (ah_pos p) + 1))"
  shows "fl_op_attn_head_neon lm p m = fl_op_attn_head lm p m"
  unfolding fl_op_attn_head_neon_def fl_op_attn_head_def Let_def attn_scores_lanes [OF s]
    attn_context_groups [OF s ap] ..

definition demo_head :: attn_head_p where
  "demo_head = \<lparr>ah_q = 0, ah_kcache = 100, ah_vcache = 200, ah_scratch = 400, ah_out = 300, ah_pos = 500,
     ah_scale = 0x3F800000, ah_head = 1, ah_n_head = 2, ah_dk = 8, ah_dv = 4, ah_max_kv = 16\<rparr>"

theorem attn_neon_is_canonical_witness:
  "\<forall>lm. fl_op_attn_head_neon lm demo_head (\<lambda>_. 2) = fl_op_attn_head lm demo_head (\<lambda>_. 2)"
proof
  fix lm
  have "j < 3 \<Longrightarrow> 304 \<le> 200 + (j * 2 + 1) * 4 \<or> 200 + (j * 2 + 1) * 4 + 4 \<le> (304 :: nat)" for j by arith
  then have "attn_out_apart demo_head (unat ((2 :: u32) + 1))"
    by (simp add: attn_out_apart_def demo_head_def)
  moreover have "attn_striped demo_head" by (simp add: attn_striped_def demo_head_def)
  ultimately show "fl_op_attn_head_neon lm demo_head (\<lambda>_. 2) = fl_op_attn_head lm demo_head (\<lambda>_. 2)"
    by (intro attn_neon_is_canonical) simp_all
qed

end
