(* ===== verification/FL_Exec_Cpu.thy ===== *)
theory FL_Exec_Cpu
  imports FL_Kernels_F32
begin

text \<open>
  \<open>exec_task_cpu\<close> of \<open>src/runtime/kernels.h\<close> on streaming dots: the choice among the packed,
  multi-column, matrix-multiply, shadow and dequantising kernels, each adding its dots to the
  output columns. A tile names its rows by their address in the weight memory \<open>wm\<close> and carries,
  for every column, the floats and the two quantised appendices its activation pointer leads to.
\<close>

section \<open>Tiles and configuration\<close>

record dot_tile =
  dt_fmt :: fmt
  dt_rows :: nat
  dt_cols :: u32
  dt_nx :: nat
  dt_w :: nat
  dt_ystride :: nat
  dt_x :: "nat \<Rightarrow> fvec"
  dt_xq :: "nat \<Rightarrow> q81_vec"
  dt_xk :: "nat \<Rightarrow> q8K_vec"

text \<open>The switches of the executor, the shadow registry with its payload, and scratch memory.\<close>

record cpu_config =
  cc_fast :: bool
  cc_i8_mask :: u32
  cc_i8k_mask :: u32
  cc_mc_legacy :: bool
  cc_smmla :: bool
  cc_shadow :: shadow_state
  cc_payload :: bytes
  cc_buf :: fvec
  cc_xi :: "nat \<Rightarrow> int"

definition tile_nx :: "dot_tile \<Rightarrow> nat" where "tile_nx t = (if dt_nx t = 0 then 1 else dt_nx t)"
definition tile_rb :: "dot_tile \<Rightarrow> nat" where "tile_rb t = row_bytes (dt_fmt t) (dt_cols t)"
definition tile_row :: "bytes \<Rightarrow> dot_tile \<Rightarrow> nat \<Rightarrow> bytes" where "tile_row wm t r = (\<lambda>i. wm (dt_w t + r * tile_rb t + i))"
definition tile_cols :: "dot_tile \<Rightarrow> nat" where "tile_cols t = unat (dt_cols t)"

definition mask_bit :: "u32 \<Rightarrow> fmt \<Rightarrow> bool" where "mask_bit m f \<longleftrightarrow> drop_bit (fmt_code f) m AND 1 \<noteq> 0"

text \<open>\<open>y[p * ys + r] += v\<close>\<close>

definition acc_y :: "nat \<Rightarrow> nat \<Rightarrow> nat \<Rightarrow> f32 \<Rightarrow> fvec \<Rightarrow> fvec" where
  "acc_y ys r p v y = y(p * ys + r := f32_add (y (p * ys + r)) v)"

section \<open>The int8 paths\<close>

definition i8k_smmla :: "bytes \<Rightarrow> dot_tile \<Rightarrow> (nat \<Rightarrow> int) \<Rightarrow> fvec \<Rightarrow> fvec" where
  "i8k_smmla wm t xi0 y =
    (let nx = tile_nx t; cols = tile_cols t; ys = dt_ystride t; row = tile_row wm t; xk = dt_xk t;
         xi = fl_interleave_act_q8k xk nx cols xi0;
         y = for_loop 0 (dt_rows t div 2) (\<lambda>i y. let r = 2 * i;
               (v0, v1) = dot_i8k_q4_K_neon_mc_smmla (row r) (row (r + 1)) xk xi nx cols
             in for_loop 0 nx (\<lambda>p y. acc_y ys (r + 1) p (v1 ! p) (acc_y ys r p (v0 ! p) y)) y) y
     in for_loop (dt_rows t div 2 * 2) (dt_rows t) (\<lambda>r y. let vals = dot_i8k_q4_K_neon_mc (row r) xk nx cols
          in for_loop 0 nx (\<lambda>p. acc_y ys r p (vals ! p)) y) y)"

definition i8k_mc :: "bytes \<Rightarrow> dot_tile \<Rightarrow> fvec \<Rightarrow> fvec" where
  "i8k_mc wm t y =
    (let nx = tile_nx t; cols = tile_cols t; ys = dt_ystride t; xk = dt_xk t
     in for_loop 0 (dt_rows t) (\<lambda>r y. let row = tile_row wm t r;
          vals = (if dt_fmt t = Q4_K then dot_i8k_q4_K_neon_mc row xk nx cols else dot_i8k_q6_K_neon_mc row xk nx cols)
        in for_loop 0 nx (\<lambda>p. acc_y ys r p (vals ! p)) y) y)"

definition i8k_rows :: "bytes \<Rightarrow> dot_tile \<Rightarrow> nat \<Rightarrow> nat \<Rightarrow> fvec \<Rightarrow> fvec" where
  "i8k_rows wm t lo hi = for_loop lo hi (\<lambda>r. for_loop 0 (tile_nx t) (\<lambda>p.
     acc_y (dt_ystride t) r p (dot_row_i8k (dt_fmt t) (tile_row wm t r) (dt_xk t p) (tile_cols t))))"

definition i8k_shadow :: "cpu_config \<Rightarrow> shadow_span \<Rightarrow> bytes \<Rightarrow> dot_tile \<Rightarrow> fvec \<Rightarrow> fvec" where
  "i8k_shadow cc sp wm t y =
    (let nx = tile_nx t; cols = tile_cols t; ys = dt_ystride t; pm = cc_payload cc; r0i = fl_shadow_row_index sp (dt_w t)
     in if sp_smmla sp \<and> even r0i
        then let prb2 = sp_srb sp * 2;
               y = for_loop 0 (dt_rows t div 2) (\<lambda>i. let r = 2 * i; pb = sp_shadow sp + (r0i + r) div 2 * prb2
                     in for_loop 0 nx (\<lambda>p y. let (v0, v1) = dot2_i8k_q4_K_shadow_smmla (\<lambda>k. pm (pb + k)) (dt_xk t p) cols
                          in acc_y ys (r + 1) p v1 (acc_y ys r p v0 y))) y
             in i8k_rows wm t (dt_rows t div 2 * 2) (dt_rows t) y
        else if sp_smmla sp then i8k_rows wm t 0 (dt_rows t) y
        else let s0 = fl_shadow_row sp (dt_w t)
             in for_loop 0 (dt_rows t) (\<lambda>r. for_loop 0 nx (\<lambda>p.
                  acc_y ys r p (dot_i8k_q4_K_shadow (\<lambda>k. pm (s0 + r * sp_srb sp + k)) (dt_xk t p) cols))) y)"

definition find_span :: "cpu_config \<Rightarrow> dot_tile \<Rightarrow> shadow_span option" where
  "find_span cc t = (if sh_enabled (cc_shadow cc) then fl_shadow_find (sh_spans (cc_shadow cc)) (dt_w t) else None)"

definition exec_i8k :: "cpu_config \<Rightarrow> bytes \<Rightarrow> dot_tile \<Rightarrow> fvec \<Rightarrow> fvec" where
  "exec_i8k cc wm t y =
    (let nx = tile_nx t; cols = tile_cols t
     in if 1 < nx \<and> \<not> cc_mc_legacy cc
        then if dt_fmt t = Q4_K \<and> cc_smmla cc \<and> 2 \<le> nx \<and> even nx \<and> 2 \<le> dt_rows t \<and> cols mod 256 = 0 \<and> nx * cols \<le> 32 * 1024
             then i8k_smmla wm t (cc_xi cc) y else i8k_mc wm t y
        else case (if dt_fmt t = Q4_K then find_span cc t else None) of
               Some sp \<Rightarrow> i8k_shadow cc sp wm t y
             | None \<Rightarrow> i8k_rows wm t 0 (dt_rows t) y)"

text \<open>The block sums and scales of a column, computed once per tile.\<close>

definition i8_v2 :: "bytes \<Rightarrow> dot_tile \<Rightarrow> fvec \<Rightarrow> fvec" where
  "i8_v2 wm t y =
    (let cols = tile_cols t; xsum = (\<lambda>p b. act_xsum (dt_xq t p) b); xd = (\<lambda>p b. fl_half2float (q1_d (dt_xq t p b)))
     in for_loop 0 (dt_rows t) (\<lambda>r. for_loop 0 (tile_nx t) (\<lambda>p.
          acc_y (dt_ystride t) r p (dot_i8_q4_K_neon_v2 (tile_row wm t r) (dt_xq t p) (xsum p) (xd p) cols))) y)"

definition exec_i8 :: "cpu_config \<Rightarrow> bytes \<Rightarrow> dot_tile \<Rightarrow> fvec \<Rightarrow> fvec" where
  "exec_i8 cc wm t y =
    (let nx = tile_nx t; cols = tile_cols t; ys = dt_ystride t
     in if dt_fmt t = Q4_K \<and> cols div 32 \<le> 128 then i8_v2 wm t y
        else if 1 < nx \<and> \<not> cc_mc_legacy cc \<and> dt_fmt t = Q8_0
        then for_loop 0 (dt_rows t) (\<lambda>r y. let vals = dot_i8_q8_0_neon_mc (tile_row wm t r) (dt_xq t) nx cols
               in for_loop 0 nx (\<lambda>p. acc_y ys r p (vals ! p)) y) y
        else case (if dt_fmt t = Q5_0 then find_span cc t else None) of
               Some sp \<Rightarrow> let s0 = fl_shadow_row sp (dt_w t)
                 in for_loop 0 (dt_rows t) (\<lambda>r. for_loop 0 nx (\<lambda>p.
                      acc_y ys r p (dot_i8_q5_0_shadow (\<lambda>k. cc_payload cc (s0 + r * sp_srb sp + k)) (dt_xq t p) cols))) y
             | None \<Rightarrow> for_loop 0 (dt_rows t) (\<lambda>r. for_loop 0 nx (\<lambda>p.
                 acc_y ys r p (dot_row_i8 (dt_fmt t) (tile_row wm t r) (dt_xq t p) cols))) y)"

section \<open>The float paths\<close>

definition dequant_mc_row :: "fvec \<Rightarrow> fmt \<Rightarrow> bytes \<Rightarrow> (nat \<Rightarrow> fvec) \<Rightarrow> nat \<Rightarrow> nat \<Rightarrow> (nat \<Rightarrow> f32)" where
  "dequant_mc_row buf f row x nx cols =
    snd (for_loop 0 ((cols + 255) div 256) (\<lambda>c (buf, acc).
      let e = c * 256; n = (if cols - e < 256 then cols - e else 256); buf = dequant_chunk f row e n buf
      in (buf, for_cols nx (\<lambda>p a. f32_add a (dot_row_fast buf (\<lambda>i. x p (e + i)) n)) acc)) (buf, \<lambda>_. 0))"

fun float_dot :: "fvec \<Rightarrow> fmt \<Rightarrow> bytes \<Rightarrow> fvec \<Rightarrow> nat \<Rightarrow> f32" where
  "float_dot buf F32 row x cols = dot_row_fast (\<lambda>i. rd32 row (4 * i)) x cols"
| "float_dot buf Q8_0 row x cols = dot_row_fast_q8_0 row x cols"
| "float_dot buf f row x cols = dot_row_fast_dequant buf f row x cols"

definition exec_float :: "cpu_config \<Rightarrow> bytes \<Rightarrow> dot_tile \<Rightarrow> fvec \<Rightarrow> fvec" where
  "exec_float cc wm t y =
    (let nx = tile_nx t; cols = tile_cols t; ys = dt_ystride t
     in if 1 < nx \<and> \<not> cc_mc_legacy cc \<and> dt_fmt t \<noteq> F32 \<and> dt_fmt t \<noteq> Q8_0
        then for_loop 0 (dt_rows t) (\<lambda>r y. let acc = dequant_mc_row (cc_buf cc) (dt_fmt t) (tile_row wm t r) (dt_x t) nx cols
               in for_loop 0 nx (\<lambda>p. acc_y ys r p (acc p)) y) y
        else for_loop 0 (dt_rows t) (\<lambda>r. for_loop 0 nx (\<lambda>p.
               acc_y ys r p (float_dot (cc_buf cc) (dt_fmt t) (tile_row wm t r) (dt_x t p) cols))) y)"

text \<open>The canonical executor, and the choice of path.\<close>

definition exec_scalar_dot :: "bytes \<Rightarrow> dot_tile \<Rightarrow> fvec \<Rightarrow> fvec" where
  "exec_scalar_dot wm t = for_loop 0 (dt_rows t) (\<lambda>r. for_loop 0 (tile_nx t) (\<lambda>p.
     acc_y (dt_ystride t) r p (fl_dot_row_any (dt_fmt t) (tile_row wm t r) (dt_x t p) (tile_cols t))))"

definition exec_stream_dot :: "cpu_config \<Rightarrow> bytes \<Rightarrow> dot_tile \<Rightarrow> fvec \<Rightarrow> fvec" where
  "exec_stream_dot cc wm t y =
    (if \<not> cc_fast cc then exec_scalar_dot wm t y
     else if (dt_fmt t = Q4_K \<or> dt_fmt t = Q6_K) \<and> mask_bit (cc_i8k_mask cc) (dt_fmt t) then exec_i8k cc wm t y
     else if dt_fmt t \<noteq> F32 \<and> mask_bit (cc_i8_mask cc) (dt_fmt t) then exec_i8 cc wm t y
     else exec_float cc wm t y)"

text \<open>Expert indirection: the tile of \<open>STREAM_DOT_IDX\<close> starts at expert \<open>id\<close>'s rows.\<close>

definition fl_idx_w :: "dot_tile \<Rightarrow> nat \<Rightarrow> nat \<Rightarrow> nat" where "fl_idx_w t id' stride = dt_w t + id' * stride"

definition exec_stream_dot_idx :: "cpu_config \<Rightarrow> bytes \<Rightarrow> dot_tile \<Rightarrow> nat \<Rightarrow> nat \<Rightarrow> fvec \<Rightarrow> fvec" where
  "exec_stream_dot_idx cc wm t id' stride = exec_stream_dot cc wm (t\<lparr>dt_w := fl_idx_w t id' stride\<rparr>)"

section \<open>Accumulating a tile\<close>

text \<open>Output cell \<open>(r, p)\<close> of a tile, and an update of a set of cells by their dots.\<close>

definition cell :: "nat \<Rightarrow> nat \<times> nat \<Rightarrow> nat" where "cell ys = (\<lambda>(r, p). p * ys + r)"

definition added :: "nat \<Rightarrow> (nat \<Rightarrow> nat \<Rightarrow> f32) \<Rightarrow> (nat \<times> nat) set \<Rightarrow> fvec \<Rightarrow> fvec \<Rightarrow> bool" where
  "added ys D A y y' \<longleftrightarrow> (\<forall>(r, p) \<in> A. y' (cell ys (r, p)) = f32_add (y (cell ys (r, p))) (D r p))
     \<and> (\<forall>a. a \<notin> cell ys ` A \<longrightarrow> y' a = y a)"

lemma added_acc: "D r p = v \<Longrightarrow> added ys D {(r, p)} y (acc_y ys r p v y)"
  by (simp add: added_def acc_y_def cell_def)

lemma added_empty: "added ys D {} y y"
  by (simp add: added_def)

lemma added_union:
  assumes "added ys D A y y'" "added ys D B y' y''" and d: "cell ys ` A \<inter> cell ys ` B = {}"
  shows "added ys D (A \<union> B) y y''"
  unfolding added_def
proof (intro conjI ballI allI impI)
  fix c assume c: "c \<in> A \<union> B"
  obtain r p where rp: "c = (r, p)" by (cases c)
  show "case c of (r, p) \<Rightarrow> y'' (cell ys (r, p)) = f32_add (y (cell ys (r, p))) (D r p)"
  proof (cases "c \<in> A")
    case True
    then have "cell ys c \<notin> cell ys ` B" using d by blast
    then show ?thesis using assms(1,2) True rp by (auto simp: added_def)
  next
    case False
    then have "c \<in> B" using c by blast
    then have "cell ys c \<notin> cell ys ` A" using d by blast
    then show ?thesis using assms(1,2) \<open>c \<in> B\<close> rp by (auto simp: added_def)
  qed
next
  fix a assume "a \<notin> cell ys ` (A \<union> B)"
  then show "y'' a = y a" using assms(1,2) by (auto simp: added_def image_Un)
qed

lemma added_loop:
  assumes step: "\<And>i y. lo \<le> i \<Longrightarrow> i < hi \<Longrightarrow> added ys D (A i) y (f i y)"
    and d: "\<And>i j. lo \<le> i \<Longrightarrow> i < j \<Longrightarrow> j < hi \<Longrightarrow> cell ys ` A i \<inter> cell ys ` A j = {}"
  shows "added ys D (\<Union>i \<in> {lo..<hi}. A i) y (for_loop lo hi f y)"
  using assms
proof (induction hi)
  case (Suc n)
  show ?case
  proof (cases "lo \<le> n")
    case True
    have "{lo..<Suc n} = insert n {lo..<n}" using True by auto
    then have u: "(\<Union>i \<in> {lo..<Suc n}. A i) = (\<Union>i \<in> {lo..<n}. A i) \<union> A n" by auto
    have "added ys D (\<Union>i \<in> {lo..<n}. A i) y (for_loop lo n f y)" using Suc by simp
    moreover have "added ys D (A n) (for_loop lo n f y) (f n (for_loop lo n f y))" using Suc.prems(1) True by simp
    moreover have "cell ys ` (\<Union>i \<in> {lo..<n}. A i) \<inter> cell ys ` A n = {}" using Suc.prems(2) [of _ n] by fastforce
    ultimately show ?thesis unfolding u by (simp add: for_loop_last True added_union)
  qed (simp add: added_empty)
qed (simp add: added_empty)

text \<open>The cells of a tile are distinct when its columns do not overlap in the output.\<close>

definition cells :: "nat \<Rightarrow> nat \<Rightarrow> (nat \<times> nat) set" where "cells R nx = {0..<R} \<times> {0..<nx}"

definition out_ok :: "dot_tile \<Rightarrow> bool" where "out_ok t \<longleftrightarrow> dt_rows t \<le> dt_ystride t \<or> tile_nx t \<le> 1"

lemma cells_inj:
  assumes "R \<le> ys \<or> nx \<le> 1"
  shows "inj_on (cell ys) (cells R nx)"
proof (rule inj_onI)
  fix a b assume ab: "a \<in> cells R nx" "b \<in> cells R nx" and eq: "cell ys a = cell ys b"
  obtain r p r' p' where rp: "a = (r, p)" "b = (r', p')" by (cases a, cases b)
  have bounds: "r < R" "p < nx" "r' < R" "p' < nx" using ab by (auto simp: rp cells_def)
  have e: "p * ys + r = p' * ys + r'" using eq by (simp add: rp cell_def)
  show "a = b"
  proof (cases "nx \<le> 1")
    case True
    then have "p = 0" "p' = 0" using bounds by simp_all
    then show ?thesis using e by (simp add: rp)
  next
    case False
    then have "r < ys" "r' < ys" using assms bounds by simp_all
    then have "p = p'" "r = r'" using arg_cong [OF e, of "\<lambda>x. x div ys"] arg_cong [OF e, of "\<lambda>x. x mod ys"] by simp_all
    then show ?thesis by (simp add: rp)
  qed
qed

lemma cell_images_apart:
  assumes "inj_on (cell ys) C" "A \<subseteq> C" "B \<subseteq> C" "A \<inter> B = {}"
  shows "cell ys ` A \<inter> cell ys ` B = {}"
  using inj_on_image_Int [OF assms(1-3)] assms(4) by simp

lemma added_loop_in:
  assumes inj: "inj_on (cell ys) C" and sub: "\<And>i. lo \<le> i \<Longrightarrow> i < hi \<Longrightarrow> A i \<subseteq> C"
    and d: "\<And>i j. lo \<le> i \<Longrightarrow> i < j \<Longrightarrow> j < hi \<Longrightarrow> A i \<inter> A j = {}"
    and step: "\<And>i y. lo \<le> i \<Longrightarrow> i < hi \<Longrightarrow> added ys D (A i) y (f i y)"
  shows "added ys D (\<Union>i \<in> {lo..<hi}. A i) y (for_loop lo hi f y)"
proof (rule added_loop [OF step])
  fix i j assume ij: "lo \<le> i" "i < j" "j < hi"
  then show "cell ys ` A i \<inter> cell ys ` A j = {}" by (intro cell_images_apart [OF inj] sub d) auto
qed

lemma added_cols:
  assumes inj: "inj_on (cell ys) (cells R nx)"
    and r: "r < R" and v: "\<And>p. p < nx \<Longrightarrow> v p = D r p"
  shows "added ys D ({r} \<times> {0..<nx}) y (for_loop 0 nx (\<lambda>p. acc_y ys r p (v p)) y)"
proof -
  have "{r} \<times> {0..<nx} = (\<Union>p \<in> {0..<nx}. {(r, p)})" by auto
  moreover have "added ys D (\<Union>p \<in> {0..<nx}. {(r, p)}) y (for_loop 0 nx (\<lambda>p. acc_y ys r p (v p)) y)"
    by (rule added_loop_in [OF inj]) (use r v in \<open>auto simp: cells_def intro!: added_acc\<close>)
  ultimately show ?thesis by simp
qed

lemma added_rows:
  assumes inj: "inj_on (cell ys) (cells R nx)"
    and hi: "hi \<le> R" and st: "\<And>r y. lo \<le> r \<Longrightarrow> r < hi \<Longrightarrow> added ys D ({r} \<times> {0..<nx}) y (f r y)"
  shows "added ys D ({lo..<hi} \<times> {0..<nx}) y (for_loop lo hi f y)"
proof -
  have "{lo..<hi} \<times> {0..<nx} = (\<Union>r \<in> {lo..<hi}. {r} \<times> {0..<nx})" by auto
  moreover have "added ys D (\<Union>r \<in> {lo..<hi}. {r} \<times> {0..<nx}) y (for_loop lo hi f y)"
    by (rule added_loop_in [OF inj]) (use hi st in \<open>auto simp: cells_def\<close>)
  ultimately show ?thesis by simp
qed

lemma added_table:
  assumes inj: "inj_on (cell ys) (cells R nx)"
    and "hi \<le> R" and "\<And>r p. lo \<le> r \<Longrightarrow> r < hi \<Longrightarrow> p < nx \<Longrightarrow> v r p = D r p"
  shows "added ys D ({lo..<hi} \<times> {0..<nx}) y (for_loop lo hi (\<lambda>r. for_loop 0 nx (\<lambda>p. acc_y ys r p (v r p))) y)"
  using assms by (intro added_rows [OF inj] added_cols [OF inj]) auto

lemma added_two:
  assumes inj: "inj_on (cell ys) (cells R nx)"
    and r: "r + 1 < R" and v: "\<And>p. p < nx \<Longrightarrow> v0 p = D r p" "\<And>p. p < nx \<Longrightarrow> v1 p = D (r + 1) p"
  shows "added ys D ({r, r + 1} \<times> {0..<nx}) y
    (for_loop 0 nx (\<lambda>p y. acc_y ys (r + 1) p (v1 p) (acc_y ys r p (v0 p) y)) y)"
proof -
  have e: "{r, r + 1} \<times> {0..<nx} = (\<Union>p \<in> {0..<nx}. {(r, p)} \<union> {(r + 1, p)})" by auto
  have "added ys D ({(r, p)} \<union> {(r + 1, p)}) y (acc_y ys (r + 1) p (v1 p) (acc_y ys r p (v0 p) y))" if "p < nx" for p y
  proof (rule added_union)
    show "added ys D {(r, p)} y (acc_y ys r p (v0 p) y)" using v(1) that by (intro added_acc) simp
    show "added ys D {(r + 1, p)} (acc_y ys r p (v0 p) y) (acc_y ys (r + 1) p (v1 p) (acc_y ys r p (v0 p) y))"
      using v(2) that by (intro added_acc) simp
    show "cell ys ` {(r, p)} \<inter> cell ys ` {(r + 1, p)} = {}"
      by (rule cell_images_apart [OF inj]) (use that r in \<open>auto simp: cells_def\<close>)
  qed
  then show ?thesis
    unfolding e by (intro added_loop_in [OF inj]) (use r in \<open>auto simp: cells_def\<close>)
qed

lemma added_pairs:
  assumes inj: "inj_on (cell ys) (cells R nx)"
    and n: "2 * n \<le> R" and step: "\<And>i y. i < n \<Longrightarrow> added ys D ({2 * i, 2 * i + 1} \<times> {0..<nx}) y (f i y)"
  shows "added ys D ({0..<n * 2} \<times> {0..<nx}) y (for_loop 0 n f y)"
proof -
  have "r \<in> {2 * (r div 2), 2 * (r div 2) + 1} \<and> r div 2 \<in> {0..<n}" if "r < n * 2" for r
    using that by (auto simp: less_mult_imp_div_less)
  then have "{0..<n * 2} = (\<Union>i \<in> {0..<n}. {2 * i, 2 * i + 1})"
    by (intro equalityI subsetI) (force, auto)
  then have e: "{0..<n * 2} \<times> {0..<nx} = (\<Union>i \<in> {0..<n}. {2 * i, 2 * i + 1} \<times> {0..<nx})" by auto
  show ?thesis
    unfolding e
  proof (rule added_loop_in [OF inj])
    fix i j :: nat assume "i < j"
    then have "{2 * i, 2 * i + 1} \<inter> {2 * j, 2 * j + 1} = {}" by auto
    then show "({2 * i, 2 * i + 1} \<times> {0..<nx}) \<inter> ({2 * j, 2 * j + 1} \<times> {0..<nx}) = {}" by blast
  qed (use n step in \<open>auto simp: cells_def\<close>)
qed

lemma added_split:
  assumes inj: "inj_on (cell ys) (cells R nx)"
    and n: "n \<le> R" "added ys D ({0..<n} \<times> {0..<nx}) y y'" "added ys D ({n..<R} \<times> {0..<nx}) y' y''"
  shows "added ys D (cells R nx) y y''"
proof -
  have "cells R nx = ({0..<n} \<times> {0..<nx}) \<union> ({n..<R} \<times> {0..<nx})" using n by (auto simp: cells_def)
  moreover have "cell ys ` ({0..<n} \<times> {0..<nx}) \<inter> cell ys ` ({n..<R} \<times> {0..<nx}) = {}"
    by (rule cell_images_apart [OF inj]) (use n in \<open>auto simp: cells_def\<close>)
  ultimately show ?thesis using added_union [OF assms(3,4)] by simp
qed

section \<open>Every int8 path adds the reference dots\<close>

text \<open>The rows of a tile that lies in a tensor, and the tiles a registry serves.\<close>

definition tile_in :: "shadow_tensor \<Rightarrow> nat \<Rightarrow> dot_tile \<Rightarrow> bool" where
  "tile_in T r0 t \<longleftrightarrow> dt_fmt t = st_fmt T \<and> dt_cols t = st_cols T \<and> dt_w t = st_p T + r0 * row_bytes (st_fmt T) (st_cols T)
     \<and> r0 + dt_rows t \<le> st_rows T \<and> r0 < st_rows T"

definition tile_placed :: "shadow_tensor list \<Rightarrow> dot_tile \<Rightarrow> bool" where
  "tile_placed tensors t \<longleftrightarrow> (\<exists>T \<in> set tensors. shadowable T \<and> (\<exists>r0. tile_in T r0 t))
     \<or> (\<forall>T \<in> set tensors. shadowable T \<longrightarrow> dt_w t < st_p T \<or> packed_end T \<le> dt_w t)"

text \<open>What the executor needs of a span it finds: its shadows are those of the tile's rows.\<close>

definition span_serves :: "bytes \<Rightarrow> bytes \<Rightarrow> dot_tile \<Rightarrow> shadow_span \<Rightarrow> bool" where
  "span_serves wm pm t s \<longleftrightarrow>
    (let cols = tile_cols t; r0 = fl_shadow_row_index s (dt_w t) in
      (dt_fmt t = Q4_K \<longrightarrow> \<not> sp_smmla s \<longrightarrow> (\<forall>r < dt_rows t. \<forall>xk.
         dot_i8k_q4_K_shadow (\<lambda>k. pm (fl_shadow_row s (dt_w t) + r * sp_srb s + k)) xk cols = fl_dot_i8k_q4_K (tile_row wm t r) xk cols))
      \<and> (dt_fmt t = Q4_K \<longrightarrow> sp_smmla s \<longrightarrow> even r0 \<longrightarrow> (\<forall>i < dt_rows t div 2. \<forall>xk.
         dot2_i8k_q4_K_shadow_smmla (\<lambda>k. pm (sp_shadow s + (r0 + 2 * i) div 2 * (sp_srb s * 2) + k)) xk cols
         = (fl_dot_i8k_q4_K (tile_row wm t (2 * i)) xk cols, fl_dot_i8k_q4_K (tile_row wm t (2 * i + 1)) xk cols)))
      \<and> (dt_fmt t = Q5_0 \<longrightarrow> (\<forall>r < dt_rows t. \<forall>xq.
         dot_i8_q5_0_shadow (\<lambda>k. pm (fl_shadow_row s (dt_w t) + r * sp_srb s + k)) xq cols = fl_dot_i8_q5_0 (tile_row wm t r) xq cols)))"

lemma dot_row_i8k_any: "dot_row_i8k f = fl_dot_i8k_any f"
  by (cases f) (simp_all add: q4_K_i8k_neon q6_K_i8k_neon)

lemma dot_row_i8_any: "dot_row_i8 f = fl_dot_i8_any f"
  by (cases f) (simp_all add: q8_0_neon q4_K_neon_v1 q6_K_neon)

definition i8k_ref :: "bytes \<Rightarrow> dot_tile \<Rightarrow> nat \<Rightarrow> nat \<Rightarrow> f32" where
  "i8k_ref wm t r p = fl_dot_i8k_any (dt_fmt t) (tile_row wm t r) (dt_xk t p) (tile_cols t)"

definition i8_ref :: "bytes \<Rightarrow> dot_tile \<Rightarrow> nat \<Rightarrow> nat \<Rightarrow> f32" where
  "i8_ref wm t r p = fl_dot_i8_any (dt_fmt t) (tile_row wm t r) (dt_xq t p) (tile_cols t)"

lemma i8k_rows_added:
  assumes inj: "inj_on (cell (dt_ystride t)) (cells (dt_rows t) (tile_nx t))" and "hi \<le> dt_rows t"
  shows "added (dt_ystride t) (i8k_ref wm t) ({lo..<hi} \<times> {0..<tile_nx t}) y (i8k_rows wm t lo hi y)"
  unfolding i8k_rows_def by (rule added_table [OF inj assms(2)]) (simp add: i8k_ref_def dot_row_i8k_any)

lemma i8k_mc_added:
  assumes inj: "inj_on (cell (dt_ystride t)) (cells (dt_rows t) (tile_nx t))" and f: "dt_fmt t = Q4_K \<or> dt_fmt t = Q6_K"
  shows "added (dt_ystride t) (i8k_ref wm t) (cells (dt_rows t) (tile_nx t)) y (i8k_mc wm t y)"
  unfolding i8k_mc_def Let_def cells_def
  by (rule added_table [OF inj order_refl])
    (use f in \<open>auto simp: i8k_ref_def q4_K_neon_mc q6_K_neon_mc q4_K_i8k_neon q6_K_i8k_neon\<close>)

lemma i8k_smmla_added:
  assumes inj: "inj_on (cell (dt_ystride t)) (cells (dt_rows t) (tile_nx t))" and f: "dt_fmt t = Q4_K" and nx: "even (tile_nx t)"
  shows "added (dt_ystride t) (i8k_ref wm t) (cells (dt_rows t) (tile_nx t)) y (i8k_smmla wm t xi y)"
  unfolding i8k_smmla_def Let_def smmla_is_mc [OF nx interleave_act] prod.case
proof (rule added_split [OF inj, of "dt_rows t div 2 * 2"])
  show "added (dt_ystride t) (i8k_ref wm t) ({0..<dt_rows t div 2 * 2} \<times> {0..<tile_nx t}) y
    (for_loop 0 (dt_rows t div 2) (\<lambda>i. for_loop 0 (tile_nx t) (\<lambda>p y.
      acc_y (dt_ystride t) (2 * i + 1) p (dot_i8k_q4_K_neon_mc (tile_row wm t (2 * i + 1)) (dt_xk t) (tile_nx t) (tile_cols t) ! p)
       (acc_y (dt_ystride t) (2 * i) p (dot_i8k_q4_K_neon_mc (tile_row wm t (2 * i)) (dt_xk t) (tile_nx t) (tile_cols t) ! p) y))) y)"
    by (intro added_pairs [OF inj] added_two [OF inj]) (auto simp: i8k_ref_def f q4_K_neon_mc q4_K_i8k_neon)
next
  fix y'
  show "added (dt_ystride t) (i8k_ref wm t) ({dt_rows t div 2 * 2..<dt_rows t} \<times> {0..<tile_nx t}) y'
    (for_loop (dt_rows t div 2 * 2) (dt_rows t) (\<lambda>r. for_loop 0 (tile_nx t) (\<lambda>p.
      acc_y (dt_ystride t) r p (dot_i8k_q4_K_neon_mc (tile_row wm t r) (dt_xk t) (tile_nx t) (tile_cols t) ! p))) y')"
    by (rule added_table [OF inj order_refl]) (auto simp: i8k_ref_def f q4_K_neon_mc q4_K_i8k_neon)
qed simp

lemma i8k_shadow_added:
  assumes inj: "inj_on (cell (dt_ystride t)) (cells (dt_rows t) (tile_nx t))" and f: "dt_fmt t = Q4_K"
    and sp: "span_serves wm (cc_payload cc) t s"
  shows "added (dt_ystride t) (i8k_ref wm t) (cells (dt_rows t) (tile_nx t)) y (i8k_shadow cc s wm t y)"
proof -
  define r0 where "r0 = fl_shadow_row_index s (dt_w t)"
  consider "sp_smmla s" "even r0" | "sp_smmla s" "odd r0" | "\<not> sp_smmla s" by blast
  then show ?thesis
  proof cases
    case 1
    have e: "i8k_shadow cc s wm t y = i8k_rows wm t (dt_rows t div 2 * 2) (dt_rows t)
        (for_loop 0 (dt_rows t div 2) (\<lambda>i. for_loop 0 (tile_nx t) (\<lambda>p y.
          let (v0, v1) = dot2_i8k_q4_K_shadow_smmla (\<lambda>k. cc_payload cc (sp_shadow s + (r0 + 2 * i) div 2 * (sp_srb s * 2) + k)) (dt_xk t p) (tile_cols t)
          in acc_y (dt_ystride t) (2 * i + 1) p v1 (acc_y (dt_ystride t) (2 * i) p v0 y))) y)"
      unfolding i8k_shadow_def Let_def r0_def [symmetric] using 1 by simp
    show ?thesis
      unfolding e
    proof (rule added_split [OF inj, of "dt_rows t div 2 * 2"])
      show "added (dt_ystride t) (i8k_ref wm t) ({0..<dt_rows t div 2 * 2} \<times> {0..<tile_nx t}) y
        (for_loop 0 (dt_rows t div 2) (\<lambda>i. for_loop 0 (tile_nx t) (\<lambda>p y.
          let (v0, v1) = dot2_i8k_q4_K_shadow_smmla (\<lambda>k. cc_payload cc (sp_shadow s + (r0 + 2 * i) div 2 * (sp_srb s * 2) + k)) (dt_xk t p) (tile_cols t)
          in acc_y (dt_ystride t) (2 * i + 1) p v1 (acc_y (dt_ystride t) (2 * i) p v0 y))) y)"
      proof (rule added_pairs [OF inj])
        fix i y assume i: "i < dt_rows t div 2"
        have d: "dot2_i8k_q4_K_shadow_smmla (\<lambda>k. cc_payload cc (sp_shadow s + (r0 + 2 * i) div 2 * (sp_srb s * 2) + k)) xk (tile_cols t)
            = (fl_dot_i8k_q4_K (tile_row wm t (2 * i)) xk (tile_cols t), fl_dot_i8k_q4_K (tile_row wm t (2 * i + 1)) xk (tile_cols t))" for xk
          using sp f 1 i unfolding span_serves_def Let_def r0_def by blast
        show "added (dt_ystride t) (i8k_ref wm t) ({2 * i, 2 * i + 1} \<times> {0..<tile_nx t}) y
          (for_loop 0 (tile_nx t) (\<lambda>p y.
            let (v0, v1) = dot2_i8k_q4_K_shadow_smmla (\<lambda>k. cc_payload cc (sp_shadow s + (r0 + 2 * i) div 2 * (sp_srb s * 2) + k)) (dt_xk t p) (tile_cols t)
            in acc_y (dt_ystride t) (2 * i + 1) p v1 (acc_y (dt_ystride t) (2 * i) p v0 y)) y)"
          unfolding d Let_def prod.case by (rule added_two [OF inj]) (use i in \<open>auto simp: i8k_ref_def f\<close>)
      qed simp
    qed (simp_all add: i8k_rows_added [OF inj])
  next
    case 2
    then have "i8k_shadow cc s wm t y = i8k_rows wm t 0 (dt_rows t) y" by (simp add: i8k_shadow_def Let_def r0_def)
    then show ?thesis using i8k_rows_added [OF inj order_refl, of wm 0 y] by (simp add: cells_def)
  next
    case 3
    have d: "dot_i8k_q4_K_shadow (\<lambda>k. cc_payload cc (fl_shadow_row s (dt_w t) + r * sp_srb s + k)) xk (tile_cols t)
        = fl_dot_i8k_q4_K (tile_row wm t r) xk (tile_cols t)" if "r < dt_rows t" for r xk
      using sp f 3 that unfolding span_serves_def Let_def by blast
    from 3 have "i8k_shadow cc s wm t y = for_loop 0 (dt_rows t) (\<lambda>r. for_loop 0 (tile_nx t) (\<lambda>p. acc_y (dt_ystride t) r p
        (dot_i8k_q4_K_shadow (\<lambda>k. cc_payload cc (fl_shadow_row s (dt_w t) + r * sp_srb s + k)) (dt_xk t p) (tile_cols t)))) y"
      by (simp add: i8k_shadow_def Let_def)
    then show ?thesis
      unfolding cells_def by (simp only:) (rule added_table [OF inj order_refl], simp add: d i8k_ref_def f)
  qed
qed

lemma exec_i8k_added:
  assumes inj: "inj_on (cell (dt_ystride t)) (cells (dt_rows t) (tile_nx t))" and f: "dt_fmt t = Q4_K \<or> dt_fmt t = Q6_K"
    and sp: "\<And>s. find_span cc t = Some s \<Longrightarrow> span_serves wm (cc_payload cc) t s"
  shows "added (dt_ystride t) (i8k_ref wm t) (cells (dt_rows t) (tile_nx t)) y (exec_i8k cc wm t y)"
proof -
  note rows = i8k_rows_added [OF inj order_refl, of wm 0 y, folded cells_def]
  show ?thesis
    unfolding exec_i8k_def Let_def
    by (auto intro: i8k_smmla_added [OF inj] i8k_mc_added [OF inj f] rows i8k_shadow_added [OF inj] sp split: option.split)
qed

lemma i8_v2_added:
  assumes inj: "inj_on (cell (dt_ystride t)) (cells (dt_rows t) (tile_nx t))" and f: "dt_fmt t = Q4_K"
  shows "added (dt_ystride t) (i8_ref wm t) (cells (dt_rows t) (tile_nx t)) y (i8_v2 wm t y)"
  unfolding i8_v2_def Let_def cells_def
  by (rule added_table [OF inj order_refl]) (simp add: i8_ref_def f q4_K_neon_v2)

lemma exec_i8_added:
  assumes inj: "inj_on (cell (dt_ystride t)) (cells (dt_rows t) (tile_nx t))"
    and sp: "\<And>s. find_span cc t = Some s \<Longrightarrow> span_serves wm (cc_payload cc) t s"
  shows "added (dt_ystride t) (i8_ref wm t) (cells (dt_rows t) (tile_nx t)) y (exec_i8 cc wm t y)"
proof -
  note table = added_table [OF inj order_refl, of 0, folded cells_def]
  have sh: "dot_i8_q5_0_shadow (\<lambda>k. cc_payload cc (fl_shadow_row s (dt_w t) + r * sp_srb s + k)) xq (tile_cols t)
      = fl_dot_i8_q5_0 (tile_row wm t r) xq (tile_cols t)"
    if "find_span cc t = Some s" "dt_fmt t = Q5_0" "r < dt_rows t" for s r xq
    using sp [OF that(1)] that(2,3) unfolding span_serves_def Let_def by blast
  show ?thesis
    unfolding exec_i8_def Let_def
    by (auto intro!: i8_v2_added [OF inj] table simp: i8_ref_def dot_row_i8_any q8_0_neon_mc q8_0_neon sh split: option.split)
qed

section \<open>The registry serves the tiles of its tensors\<close>

lemma new_span_serves:
  assumes pm: "payload_ok wm smmla want pm" and i: "i < length want" "want ! i = T" and ok: "smmla_ok smmla T"
    and t: "tile_in T r0 t" and pos: "0 < row_bytes (st_fmt T) (st_cols T)"
  shows "span_serves wm pm t (span_of smmla T (tensor_off want i))"
proof -
  define s where "s = span_of smmla T (tensor_off want i)"
  note tile = t [unfolded tile_in_def]
  have fmt: "dt_fmt t = st_fmt T" and cols: "tile_cols t = unat (st_cols T)" using tile by (simp_all add: tile_cols_def)
  have w: "dt_w t = st_p T + r0 * row_bytes (st_fmt T) (st_cols T)" using tile by blast
  have lt: "r0 + r < st_rows T" if "r < dt_rows t" for r using tile that by linarith
  have row: "tile_row wm t r = (\<lambda>k. wm (st_p T + (r0 + r) * row_bytes (st_fmt T) (st_cols T) + k))" for r
    using tile by (simp add: tile_row_def tile_rb_def w algebra_simps)
  have ix: "(dt_w t - st_p T) div row_bytes (st_fmt T) (st_cols T) = r0" using pos by (simp add: w)
  have srow: "fl_shadow_row s (dt_w t) + r * sp_srb s = tensor_off want i + (r0 + r) * shadow_bytes (st_fmt T) (st_cols T)" for r
    by (simp add: fl_shadow_row_def s_def ix algebra_simps)
  have pix: "fl_shadow_row_index s (dt_w t) = r0" by (simp add: fl_shadow_row_index_def s_def ix)
  have sf: "sp_shadow s = tensor_off want i" "sp_srb s = shadow_bytes (st_fmt T) (st_cols T)" "sp_smmla s = (smmla \<and> st_fmt T = Q4_K)"
    by (simp_all add: s_def)
  note rows = payload_rows [OF pm i ok]
  show ?thesis
    unfolding s_def [symmetric] span_serves_def Let_def srow pix cols fmt
  proof (intro conjI impI allI)
    fix r xk assume "st_fmt T = Q4_K" "\<not> sp_smmla s" "r < dt_rows t"
    then show "dot_i8k_q4_K_shadow (\<lambda>k. pm (tensor_off want i + (r0 + r) * shadow_bytes (st_fmt T) (st_cols T) + k)) xk (unat (st_cols T))
        = fl_dot_i8k_q4_K (tile_row wm t r) xk (unat (st_cols T))"
      unfolding row by (intro rows(1) lt) (auto simp: sf)
  next
    fix k xk assume "st_fmt T = Q4_K" "sp_smmla s" "even r0" and k: "k < dt_rows t div 2"
    then show "dot2_i8k_q4_K_shadow_smmla (\<lambda>j. pm (sp_shadow s + (r0 + 2 * k) div 2 * (sp_srb s * 2) + j)) xk (unat (st_cols T))
        = (fl_dot_i8k_q4_K (tile_row wm t (2 * k)) xk (unat (st_cols T)), fl_dot_i8k_q4_K (tile_row wm t (2 * k + 1)) xk (unat (st_cols T)))"
      using rows(2) [of "r0 + 2 * k" xk] lt [of "2 * k"] by (simp add: row sf)
  next
    fix r xq assume "st_fmt T = Q5_0" "r < dt_rows t"
    then show "dot_i8_q5_0_shadow (\<lambda>k. pm (tensor_off want i + (r0 + r) * shadow_bytes (st_fmt T) (st_cols T) + k)) xq (unat (st_cols T))
        = fl_dot_i8_q5_0 (tile_row wm t r) xq (unat (st_cols T))"
      unfolding row by (intro rows(3) lt)
  qed
qed

lemma init_outcome:
  assumes "fl_shadow_init env wm m tensors (fresh_shadow, None) = ((st, cf), pm)"
  shows "st = fresh_shadow \<or> (let smmla = fst (select_tensors (se_smmla env) tensors); want = filter shadowable tensors
      in sh_spans st = new_spans smmla want \<and> payload_ok wm smmla want pm)"
proof (cases "se_mode env \<noteq> SHADOW_OFF \<and> se_malloc env \<and> (\<exists>t \<in> set tensors. shadowable t)")
  case True
  then show ?thesis
    using assms by (subst (asm) init_build) (auto simp: Let_def built_payload_ok)
next
  case False
  then have "st = fresh_shadow"
    using assms by (auto simp: fl_shadow_init_def select_tensors_eq Let_def fresh_shadow_def filter_empty_conv split: if_splits)
  then show ?thesis ..
qed

lemma registry_serves:
  assumes init: "fl_shadow_init env wm m tensors (fresh_shadow, None) = ((cc_shadow cc, cf), cc_payload cc)"
    and apart: "tensors_apart tensors" and placed: "tile_placed tensors t" and find: "find_span cc t = Some s"
  shows "span_serves wm (cc_payload cc) t s"
proof -
  define smmla where "smmla = fst (select_tensors (se_smmla env) tensors)"
  define want where "want = filter shadowable tensors"
  have "sh_enabled (cc_shadow cc)" using find by (simp add: find_span_def split: if_splits)
  then have sp: "sh_spans (cc_shadow cc) = new_spans smmla want" and pm: "payload_ok wm smmla want (cc_payload cc)"
    using init_outcome [OF init] by (auto simp: smmla_def want_def Let_def fresh_shadow_def)
  have fnd: "fl_shadow_find (new_spans smmla want) (dt_w t) = Some s" using find sp by (simp add: find_span_def split: if_splits)
  have d: "distinct want" "\<forall>t \<in> set want. st_p t < packed_end t"
    "\<forall>t \<in> set want. \<forall>u \<in> set want. t \<noteq> u \<longrightarrow> packed_end t \<le> st_p u \<or> packed_end u \<le> st_p t"
    using apart by (auto simp: want_def tensors_apart_def)
  have rng: "s \<in> set (new_spans smmla want)" "sp_base s \<le> dt_w t" "dt_w t < sp_end s"
    using fnd unfolding shadow_find_iff [OF new_spans_disjoint(2) [OF d] new_spans_disjoint(1) [OF d]] by auto
  from placed show ?thesis
    unfolding tile_placed_def
  proof (elim disjE bexE conjE exE)
    fix T r0 assume T: "T \<in> set tensors" "shadowable T" and t: "tile_in T r0 t"
    have r0: "r0 < st_rows T" and w: "dt_w t = st_p T + r0 * row_bytes (st_fmt T) (st_cols T)" using t by (auto simp: tile_in_def)
    obtain i where i: "i < length want" "want ! i = T"
      and f: "fl_shadow_find (new_spans smmla want) (dt_w t) = Some (span_of smmla T (tensor_off want i))"
      using find_row [OF apart T r0, of smmla] unfolding w want_def by blast
    have "0 < row_bytes (st_fmt T) (st_cols T)"
      using apart T by (cases "row_bytes (st_fmt T) (st_cols T)") (auto simp: tensors_apart_def packed_end_def)
    moreover have "smmla_ok smmla T" using T by (auto simp: smmla_ok_def smmla_def select_tensors_eq)
    ultimately have "span_serves wm (cc_payload cc) t (span_of smmla T (tensor_off want i))"
      using new_span_serves [OF pm i _ t] by blast
    then show ?thesis using f fnd by simp
  next
    assume a: "\<forall>T \<in> set tensors. shadowable T \<longrightarrow> dt_w t < st_p T \<or> packed_end T \<le> dt_w t"
    obtain i where i: "i < length want" "s = span_of smmla (want ! i) (tensor_off want i)"
      using rng(1) unfolding new_spans_disjoint(3) [OF d] by blast
    then have "want ! i \<in> set want" by simp
    then have "dt_w t < st_p (want ! i) \<or> packed_end (want ! i) \<le> dt_w t" using a by (simp add: want_def)
    then show ?thesis using rng(2,3) by (simp add: i(2))
  qed
qed

section \<open>The float paths\<close>

lemma dequant_mc_row_col:
  assumes "p < nx"
  shows "dequant_mc_row buf f row x nx cols p = dot_row_fast_dequant buf f row (x p) cols"
  unfolding dequant_mc_row_def dot_row_fast_dequant_def
  by (rule for_loop_rel [where R = "\<lambda>s t. fst s = fst t \<and> snd s p = snd t", THEN conjunct2])
    (use assms in \<open>auto simp: Let_def for_cols_at\<close>)

definition whole_blocks :: "dot_tile \<Rightarrow> bool" where
  "whole_blocks t \<longleftrightarrow> dq_capable (dt_fmt t) \<and> tile_cols t mod unat (fl_blk_elems (dt_fmt t)) = 0"

lemma float_dot_ref:
  assumes "whole_blocks t" "dt_fmt t \<noteq> F32" "dt_fmt t \<noteq> Q8_0"
  shows "float_dot buf (dt_fmt t) row x (tile_cols t) = dot_dequant_ref (dt_fmt t) row x (tile_cols t)"
proof -
  have "float_dot buf (dt_fmt t) row x (tile_cols t) = dot_row_fast_dequant buf (dt_fmt t) row x (tile_cols t)"
    using assms(2,3) by (cases "dt_fmt t") simp_all
  then show ?thesis using assms(1) by (simp add: whole_blocks_def dot_fast_dequant)
qed

fun float_ref :: "fmt \<Rightarrow> bytes \<Rightarrow> fvec \<Rightarrow> nat \<Rightarrow> f32" where
  "float_ref F32 row x cols = dot_row_fast (\<lambda>i. rd32 row (4 * i)) x cols"
| "float_ref Q8_0 row x cols = dot_row_fast_q8_0 row x cols"
| "float_ref f row x cols = dot_dequant_ref f row x cols"

lemma float_dot_float_ref:
  assumes "whole_blocks t"
  shows "float_dot buf (dt_fmt t) row x (tile_cols t) = float_ref (dt_fmt t) row x (tile_cols t)"
  using float_dot_ref [OF assms, of buf row x] by (cases "dt_fmt t") simp_all

lemma exec_float_added:
  assumes inj: "inj_on (cell (dt_ystride t)) (cells (dt_rows t) (tile_nx t))" and b: "whole_blocks t"
  shows "added (dt_ystride t) (\<lambda>r p. float_ref (dt_fmt t) (tile_row wm t r) (dt_x t p) (tile_cols t))
    (cells (dt_rows t) (tile_nx t)) y (exec_float cc wm t y)"
proof -
  note table = added_table [OF inj order_refl, of 0, folded cells_def]
  have mc: "dequant_mc_row buf (dt_fmt t) row x nx (tile_cols t) p = float_ref (dt_fmt t) row (x p) (tile_cols t)"
    if "dt_fmt t \<noteq> F32" "dt_fmt t \<noteq> Q8_0" "p < nx" for buf row x nx p
  proof -
    have "float_ref (dt_fmt t) row (x p) (tile_cols t) = dot_dequant_ref (dt_fmt t) row (x p) (tile_cols t)"
      using that(1,2) by (cases "dt_fmt t") simp_all
    then show ?thesis using b that(3) by (simp add: dequant_mc_row_col dot_fast_dequant whole_blocks_def)
  qed
  show ?thesis
    unfolding exec_float_def Let_def
    by (auto intro!: table simp: mc float_dot_float_ref [OF b])
qed

section \<open>Properties\<close>

text \<open>C18: With the shadow registry that initialisation leaves, every int8 path of the executor
  (packed rows, shared multi-column unpacking, row-pair matrix multiply, plain and paired shadows,
  hoisted block sums), whatever the switches, adds to each output cell of a streaming dot exactly
  the reference integer dot of its row and column, bit for bit, and changes no other output.\<close>

theorem int8_dispatch_exact:
  assumes init: "fl_shadow_init env wm m tensors (fresh_shadow, None) = ((cc_shadow cc, cf), cc_payload cc)"
    and apart: "tensors_apart tensors" and placed: "tile_placed tensors t" and out: "out_ok t"
    and fast: "cc_fast cc"
  shows "((dt_fmt t = Q4_K \<or> dt_fmt t = Q6_K) \<and> mask_bit (cc_i8k_mask cc) (dt_fmt t) \<longrightarrow>
      added (dt_ystride t) (\<lambda>r p. fl_dot_i8k_any (dt_fmt t) (tile_row wm t r) (dt_xk t p) (tile_cols t))
        (cells (dt_rows t) (tile_nx t)) y (exec_stream_dot cc wm t y))
    \<and> (\<not> ((dt_fmt t = Q4_K \<or> dt_fmt t = Q6_K) \<and> mask_bit (cc_i8k_mask cc) (dt_fmt t))
        \<and> dt_fmt t \<noteq> F32 \<and> mask_bit (cc_i8_mask cc) (dt_fmt t) \<longrightarrow>
      added (dt_ystride t) (\<lambda>r p. fl_dot_i8_any (dt_fmt t) (tile_row wm t r) (dt_xq t p) (tile_cols t))
        (cells (dt_rows t) (tile_nx t)) y (exec_stream_dot cc wm t y))"
proof -
  have inj: "inj_on (cell (dt_ystride t)) (cells (dt_rows t) (tile_nx t))"
    using out by (intro cells_inj) (simp add: out_ok_def)
  note sp = registry_serves [OF init apart placed]
  have k: "i8k_ref wm t = (\<lambda>r p. fl_dot_i8k_any (dt_fmt t) (tile_row wm t r) (dt_xk t p) (tile_cols t))"
    and q: "i8_ref wm t = (\<lambda>r p. fl_dot_i8_any (dt_fmt t) (tile_row wm t r) (dt_xq t p) (tile_cols t))"
    by (simp_all add: i8k_ref_def i8_ref_def fun_eq_iff)
  show ?thesis
    unfolding exec_stream_dot_def k [symmetric] q [symmetric]
    using exec_i8k_added [OF inj _ sp] exec_i8_added [OF inj sp] fast by auto
qed

definition demo_tile :: dot_tile where
  "demo_tile = \<lparr>dt_fmt = Q5_0, dt_rows = 2, dt_cols = 64, dt_nx = 2, dt_w = 4140, dt_ystride = 8,
     dt_x = \<lambda>_ _. 0, dt_xq = \<lambda>_ _. \<lparr>q1_d = 0x3C00, q1_s = 0, q1_qs = replicate 32 1\<rparr>,
     dt_xk = \<lambda>_ _. \<lparr>qK_d = 0, qK_bsums = replicate 16 0, qK_qs = replicate 256 0\<rparr>\<rparr>"

definition demo_wmem :: bytes where "demo_wmem = of_nat"

definition demo_cc :: cpu_config where
  "demo_cc = (let ((st, _), pm) = fl_shadow_init (demo_env SHADOW_BUILD) demo_wmem (\<lambda>_. 0) [demo_tensor] (fresh_shadow, None)
    in \<lparr>cc_fast = True, cc_i8_mask = -1, cc_i8k_mask = 0, cc_mc_legacy = False, cc_smmla = True, cc_shadow = st,
        cc_payload = pm, cc_buf = \<lambda>_. 0, cc_xi = \<lambda>_. 0\<rparr>)"

theorem int8_dispatch_exact_witness:
  "exec_stream_dot demo_cc demo_wmem demo_tile (\<lambda>_. 0) 9
    = f32_add 0 (fl_dot_i8_any Q5_0 (tile_row demo_wmem demo_tile 1) (dt_xq demo_tile 1) 64)"
proof -
  obtain st cf pm where i: "fl_shadow_init (demo_env SHADOW_BUILD) demo_wmem (\<lambda>_. 0) [demo_tensor] (fresh_shadow, None) = ((st, cf), pm)"
    by (metis surj_pair)
  then have i': "fl_shadow_init (demo_env SHADOW_BUILD) demo_wmem (\<lambda>_. 0) [demo_tensor] (fresh_shadow, None) = ((cc_shadow demo_cc, cf), cc_payload demo_cc)"
    by (simp add: demo_cc_def)
  have "tile_in demo_tensor 1 demo_tile" by (simp add: tile_in_def demo_tile_def demo_tensor_def row_bytes_eq)
  then have pl: "tile_placed [demo_tensor] demo_tile" using demo_tensor_ok(1) by (auto simp: tile_placed_def)
  have f: "cc_fast demo_cc" "cc_i8_mask demo_cc = -1" "cc_i8k_mask demo_cc = 0" by (simp_all add: demo_cc_def i)
  have d: "dt_fmt demo_tile = Q5_0" "tile_nx demo_tile = 2" "dt_rows demo_tile = 2" "dt_ystride demo_tile = 8" "tile_cols demo_tile = 64"
    "out_ok demo_tile" by (simp_all add: demo_tile_def tile_nx_def tile_cols_def out_ok_def)
  have m: "mask_bit (-1) Q5_0" by code_simp
  have "added 8 (\<lambda>r p. fl_dot_i8_any Q5_0 (tile_row demo_wmem demo_tile r) (dt_xq demo_tile p) 64) (cells 2 2) (\<lambda>_. 0) (exec_stream_dot demo_cc demo_wmem demo_tile (\<lambda>_. 0))"
    using int8_dispatch_exact [OF i' demo_tensor_ok(2) pl d(6) f(1), of "\<lambda>_. 0"] m by (simp add: d f)
  moreover have "(1, 1) \<in> cells 2 2" by (simp add: cells_def)
  ultimately have "exec_stream_dot demo_cc demo_wmem demo_tile (\<lambda>_. 0) (cell 8 (1, 1))
      = f32_add 0 (fl_dot_i8_any Q5_0 (tile_row demo_wmem demo_tile 1) (dt_xq demo_tile 1) 64)"
    unfolding added_def by blast
  then show ?thesis by (simp add: cell_def)
qed


definition demo_off :: cpu_config where "demo_off = demo_cc\<lparr>cc_i8_mask := 0, cc_i8k_mask := 0\<rparr>"


text \<open>C27: A codebook dot that the CPU executes with the fast kernels, its format absent from the int8
  mask as the runtime setup ensures, does not depend on the weights at all: the dequantisation of
  codebook rows fills zeros, so a run without the GPU computes with zero weights.\<close>

theorem codebook_cpu_ignores_weights:
  assumes "cc_fast cc" "fl_fmt_is_codebook (dt_fmt t)" "\<not> mask_bit (cc_i8_mask cc) (dt_fmt t)"
  shows "exec_stream_dot cc wm t y = exec_stream_dot cc wm' t y"
proof -
  have f: "dt_fmt t = IQ2_XXS \<or> dt_fmt t = IQ3_XXS" using assms(2) by simp
  then have d: "dequant_chunk (dt_fmt t) row e n = (\<lambda>out. memcpy_to out 0 (\<lambda>_. 0) n)" for row e n
    by (auto simp: dequant_chunk_def fun_eq_iff)
  have "float_dot buf (dt_fmt t) row = dot_row_fast_dequant buf (dt_fmt t) row" for buf row
    using f by (auto simp: fun_eq_iff)
  then have fd: "float_dot buf (dt_fmt t) row = float_dot buf (dt_fmt t) row'" for buf row row'
    by (simp add: dot_row_fast_dequant_def d fun_eq_iff)
  have mc: "dequant_mc_row buf (dt_fmt t) row = dequant_mc_row buf (dt_fmt t) row'" for buf row row'
    by (simp add: dequant_mc_row_def d fun_eq_iff)
  have fd': "float_dot buf (dt_fmt t) (tile_row wm t r) = float_dot buf (dt_fmt t) (tile_row wm' t r)"
    and mc': "dequant_mc_row buf (dt_fmt t) (tile_row wm t r) = dequant_mc_row buf (dt_fmt t) (tile_row wm' t r)" for buf r
    by (rule fd, rule mc)
  have "exec_float cc wm t y = exec_float cc wm' t y"
    unfolding exec_float_def Let_def
    by (simp only: fd' mc')
  then show ?thesis using assms f by (auto simp: exec_stream_dot_def)
qed

definition demo_iq2 :: dot_tile where "demo_iq2 = demo_tile\<lparr>dt_fmt := IQ2_XXS, dt_cols := 256\<rparr>"

theorem codebook_cpu_ignores_weights_witness:
  "exec_stream_dot demo_off (\<lambda>_. 0) demo_iq2 (\<lambda>_. 0) = exec_stream_dot demo_off (\<lambda>_. 255) demo_iq2 (\<lambda>_. 0)"
  by (rule codebook_cpu_ignores_weights)
    (simp_all add: demo_off_def demo_cc_def demo_iq2_def mask_bit_def case_prod_beta Let_def)

end
