(* ===== verification/FL_Gpu_Warp.thy ===== *)
theory FL_Gpu_Warp
  imports FL_Exec_Cpu
begin

text \<open>
  The building blocks of the CUDA kernels of \<open>src/runtime/kernels_gpu.h\<close>. A warp is 32 lanes in lock
  step, a value it holds a function from lanes. The arithmetic of the kernels is a parameter: with
  \<open>f32_arith\<close> it is that of the compiled code (the build passes \<open>--fmad=false\<close>, so only the written
  \<open>fmaf\<close> is fused), with \<open>ring_arith\<close> it is exact, which is how the kernels' use of lanes, quads and
  accumulators is compared with the plain sum over the columns. Four bytes held in an \<open>int\<close> are a
  32-bit word; sums of byte products are integers, far inside the range of \<open>int\<close>.
\<close>

section \<open>Arithmetic\<close>

record 'a arith =
  ar_zero :: 'a
  ar_add :: "'a \<Rightarrow> 'a \<Rightarrow> 'a"
  ar_sub :: "'a \<Rightarrow> 'a \<Rightarrow> 'a"
  ar_neg :: "'a \<Rightarrow> 'a"
  ar_mul :: "'a \<Rightarrow> 'a \<Rightarrow> 'a"
  ar_fma :: "'a \<Rightarrow> 'a \<Rightarrow> 'a \<Rightarrow> 'a"
  ar_int :: "int \<Rightarrow> 'a"
  ar_half :: "f16 \<Rightarrow> 'a"
  ar_f32 :: "f32 \<Rightarrow> 'a"

definition f32_arith :: "f32 arith" where
  "f32_arith = \<lparr>ar_zero = 0, ar_add = f32_add, ar_sub = f32_sub, ar_neg = f32_neg, ar_mul = f32_mul, ar_fma = f32_fma,
     ar_int = f32_of_int, ar_half = fl_half2float, ar_f32 = (\<lambda>v. v)\<rparr>"

definition ring_arith :: "(f16 \<Rightarrow> 'a) \<Rightarrow> (f32 \<Rightarrow> 'a) \<Rightarrow> 'a::comm_ring_1 arith" where
  "ring_arith h g = \<lparr>ar_zero = 0, ar_add = (+), ar_sub = (-), ar_neg = uminus, ar_mul = (*),
     ar_fma = (\<lambda>a b c. a * b + c), ar_int = of_int, ar_half = h, ar_f32 = g\<rparr>"

lemma ring_arith_sel [simp]:
  "ar_zero (ring_arith h g) = 0" "ar_add (ring_arith h g) = (+)" "ar_sub (ring_arith h g) = (-)"
  "ar_neg (ring_arith h g) = uminus" "ar_mul (ring_arith h g) = (*)" "ar_fma (ring_arith h g) = (\<lambda>a b c. a * b + c)"
  "ar_int (ring_arith h g) = of_int" "ar_half (ring_arith h g) = h" "ar_f32 (ring_arith h g) = g"
  by (simp_all add: ring_arith_def)

lemma f32_arith_sel [simp]:
  "ar_zero f32_arith = 0" "ar_add f32_arith = f32_add" "ar_sub f32_arith = f32_sub"
  "ar_neg f32_arith = f32_neg" "ar_mul f32_arith = f32_mul" "ar_fma f32_arith = f32_fma"
  "ar_int f32_arith = f32_of_int" "ar_half f32_arith = fl_half2float" "ar_f32 f32_arith = (\<lambda>v. v)"
  by (simp_all add: f32_arith_def)

section \<open>Lanes\<close>

text \<open>\<open>__shfl_sync\<close> from a lane of the warp, and from a lane of each group of eight.\<close>

definition shfl :: "nat \<Rightarrow> (nat \<Rightarrow> 'b) \<Rightarrow> nat \<Rightarrow> 'b" where "shfl src v lane = v src"
definition shfl8 :: "nat \<Rightarrow> (nat \<Rightarrow> 'b) \<Rightarrow> nat \<Rightarrow> 'b" where "shfl8 src v lane = v (lane div 8 * 8 + src)"

text \<open>\<open>__shfl_down_sync\<close>: the lanes whose source is beyond the warp keep their own value.\<close>

definition shfl_down :: "nat \<Rightarrow> (nat \<Rightarrow> 'b) \<Rightarrow> nat \<Rightarrow> 'b" where
  "shfl_down off v lane = (if lane + off < 32 then v (lane + off) else v lane)"

definition warp_reduce_add :: "'a arith \<Rightarrow> (nat \<Rightarrow> 'a) \<Rightarrow> nat \<Rightarrow> 'a" where
  "warp_reduce_add A acc = fold (\<lambda>off acc lane. ar_add A (acc lane) (shfl_down off acc lane)) [16, 8, 4, 2, 1] acc"

text \<open>\<open>for (i = lo; i < hi; i += st)\<close>\<close>

definition strided :: "nat \<Rightarrow> nat \<Rightarrow> nat \<Rightarrow> nat list" where
  "strided lo st hi = map (\<lambda>k. lo + k * st) [0..<(hi - lo + st - 1) div st]"

section \<open>Packed bytes\<close>

definition byte_of :: "u32 \<Rightarrow> nat \<Rightarrow> u8" where "byte_of w i = ucast (drop_bit (8 * i) w)"

definition ld_i32_u16al :: "bytes \<Rightarrow> nat \<Rightarrow> u32" where
  "ld_i32_u16al p o' = ucast (rd16 p o') OR push_bit 16 (ucast (rd16 p (o' + 2)))"

text \<open>\<open>((const int *)qs)[k]\<close> on signed bytes.\<close>

definition ld_quad :: "int list \<Rightarrow> nat \<Rightarrow> u32" where
  "ld_quad qs k = rd32 (\<lambda>i. word_of_int (qs ! i)) (4 * k)"

definition spread4_hi :: "u32 \<Rightarrow> u32" where
  "spread4_hi v = push_bit 4 (((v AND 0xF) * 0x00204081) AND 0x01010101)"

definition sign_mask4 :: "u32 \<Rightarrow> nat \<Rightarrow> u32" where
  "sign_mask4 signs shift = (let b = drop_bit shift signs AND 0xF in ((b * 0x00204081) AND 0x01010101) * 0xFF)"

definition dp4a :: "u32 \<Rightarrow> u32 \<Rightarrow> int \<Rightarrow> int" where
  "dp4a a b c = for_loop 0 4 (\<lambda>i c. c + sint (byte_of a i) * sint (byte_of b i)) c"

lemma bit_byte_of: "bit (byte_of w i) n \<longleftrightarrow> n < 8 \<and> bit w (8 * i + n)"
  unfolding byte_of_def by (auto simp: bit_ucast_iff bit_drop_bit_eq)

lemma byte_of_eqI: "(\<And>n. n < 8 \<Longrightarrow> bit w (8 * i + n) \<longleftrightarrow> bit b n) \<Longrightarrow> byte_of w i = b" for b :: u8
  by (rule bit_word_eqI) (simp add: bit_byte_of)

lemma four_cases: "i < 4 \<Longrightarrow> i = 0 \<or> i = 1 \<or> i = 2 \<or> i = (3 :: nat)"
  by arith

lemma eight_cases: "n < 8 \<Longrightarrow> n = 0 \<or> n = 1 \<or> n = 2 \<or> n = 3 \<or> n = 4 \<or> n = 5 \<or> n = 6 \<or> n = (7 :: nat)"
  by arith

lemma bit_rd32:
  "bit (rd32 p o') n \<longleftrightarrow> bit (p o') n \<or> 8 \<le> n \<and> bit (p (o' + 1)) (n - 8)
     \<or> 16 \<le> n \<and> bit (p (o' + 2)) (n - 16) \<or> 24 \<le> n \<and> n < 32 \<and> bit (p (o' + 3)) (n - 24)"
proof -
  have "\<not> bit (b :: u8) k" if "32 \<le> n" "n - 24 \<le> k" for b k by (rule u8_high_bits) (use that in simp)
  then have "\<not> bit (p o') n" "\<not> bit (p (o' + 1)) (n - 8)" "\<not> bit (p (o' + 2)) (n - 16)" if "32 \<le> n" using that by simp_all
  moreover have "n - 8 < 32" "n - 16 < 32" "n - 24 < 32" if "n < 32" using that by simp_all
  ultimately show ?thesis
    unfolding rd32_def by (cases "n < 32") (simp_all add: bit_or_iff bit_push_bit_iff bit_ucast_iff)
qed

lemma bit_rd16:
  "bit (rd16 p o') n \<longleftrightarrow> bit (p o') n \<or> 8 \<le> n \<and> bit (p (o' + 1)) (n - 8)"
proof -
  have "\<not> bit (b :: u8) k" if "16 \<le> n" "n - 8 \<le> k" for b k by (rule u8_high_bits) (use that in simp)
  then have "\<not> bit (p o') n" "\<not> bit (p (o' + 1)) (n - 8)" if "16 \<le> n" using that by simp_all
  moreover have "n - 8 < 16" if "n < 16" using that by simp_all
  ultimately show ?thesis
    unfolding rd16_def by (cases "n < 16") (simp_all add: bit_or_iff bit_push_bit_iff bit_ucast_iff)
qed

lemma byte_of_rd32 [simp]:
  assumes i: "i < 4"
  shows "byte_of (rd32 p o') i = p (o' + i)"
proof (rule byte_of_eqI)
  fix n :: nat assume n: "n < 8"
  have h: "8 \<le> k \<Longrightarrow> \<not> bit (b :: u8) k" for b k by (rule u8_high_bits)
  from four_cases [OF i] show "bit (rd32 p o') (8 * i + n) = bit (p (o' + i)) n"
    by (elim disjE) (use n in \<open>simp_all add: bit_rd32 h\<close>)
qed

lemma ld_i32_rd32: "ld_i32_u16al p o' = rd32 p o'"
proof (rule bit_word_eqI)
  fix n assume n: "n < LENGTH(32)"
  have h: "8 \<le> k \<Longrightarrow> \<not> bit (b :: u8) k" for b k by (rule u8_high_bits)
  consider "n < 8" | "8 \<le> n" "n < 16" | "16 \<le> n" "n < 24" | "24 \<le> n" "n < 32" using n by fastforce
  moreover have "n - 16 < 32" "n < 24 \<Longrightarrow> \<not> 8 \<le> n - 16" "24 \<le> n \<Longrightarrow> 8 \<le> n - 16" using n by simp_all
  ultimately show "bit (ld_i32_u16al p o') n = bit (rd32 p o') n"
    by cases (simp_all add: ld_i32_u16al_def bit_or_iff bit_push_bit_iff bit_ucast_iff bit_rd16 bit_rd32 h numeral_3_eq_3)
qed

lemma byte_of_ld_quad:
  assumes "i < 4"
  shows "byte_of (ld_quad qs k) i = word_of_int (qs ! (4 * k + i))"
  unfolding ld_quad_def using assms by simp

lemma sint_byte_quad:
  assumes "i < 4" "\<bar>qs ! (4 * k + i)\<bar> \<le> 127"
  shows "sint (byte_of (ld_quad qs k) i) = qs ! (4 * k + i)"
  unfolding byte_of_ld_quad [OF assms(1)] using assms(2)
  by (simp add: signed_of_int signed_take_bit_int_eq_self)

lemma byte_of_and: "byte_of (a AND b) i = byte_of a i AND byte_of b i"
  by (rule bit_word_eqI) (auto simp: bit_byte_of bit_and_iff)

lemma byte_of_or: "byte_of (a OR b) i = byte_of a i OR byte_of b i"
  by (rule bit_word_eqI) (auto simp: bit_byte_of bit_or_iff)

lemma byte_of_xor: "byte_of (a XOR b) i = byte_of a i XOR byte_of b i"
  by (rule bit_word_eqI) (auto simp: bit_byte_of bit_xor_iff)

lemma byte_masks:
  assumes "i < 4"
  shows "byte_of 0x0F0F0F0F i = 0x0F" "byte_of 0x01010101 i = 1" "byte_of 0x03030303 i = 3"
  using four_cases [OF assms] by (auto simp: byte_of_def)

lemma byte_of_lo_nib: "i < 4 \<Longrightarrow> byte_of (w AND 0x0F0F0F0F) i = byte_of w i AND 0x0F"
  by (simp add: byte_of_and byte_masks)

lemma bit_nib_mask: "bit (0x0F :: u8) n \<longleftrightarrow> n < 4"
proof -
  have m: "(0x0F :: u8) = mask 4" by (simp add: mask_eq_exp_minus_1)
  show ?thesis unfolding m by (simp only: bit_mask_iff) auto
qed

lemma byte_of_hi_nib:
  assumes i: "i < 4"
  shows "byte_of (signed_drop_bit 4 w AND 0x0F0F0F0F) i = drop_bit 4 (byte_of w i)"
proof (rule byte_of_eqI)
  fix n :: nat assume n: "n < 8"
  have "bit (0x0F0F0F0F :: u32) (8 * i + n) = bit (byte_of 0x0F0F0F0F i) n" using n by (simp only: bit_byte_of simp_thms)
  also have "\<dots> \<longleftrightarrow> n < 4" by (simp only: byte_masks [OF i] bit_nib_mask)
  finally have "bit (0x0F0F0F0F :: u32) (8 * i + n) \<longleftrightarrow> n < 4" .
  moreover have "n < 4 \<Longrightarrow> min (8 * i + n + 4) 31 = 8 * i + n + 4" using i by simp
  ultimately show "bit (signed_drop_bit 4 w AND 0x0F0F0F0F) (8 * i + n) = bit (drop_bit 4 (byte_of w i)) n"
    using i n by (auto simp: bit_and_iff bit_signed_drop_bit_iff bit_drop_bit_eq bit_byte_of ac_simps)
qed

text \<open>The two bits of every byte a span of a Q6\_K block adds above its nibbles.\<close>

lemma byte_of_hi_pair:
  assumes i: "i < 4" and s: "s < 4"
  shows "byte_of (signed_drop_bit (2 * s) w AND 0x03030303) i = drop_bit (2 * s) (byte_of w i) AND 3"
proof (rule byte_of_eqI)
  fix n :: nat assume n: "n < 8"
  have m: "(3 :: u8) = mask 2" by (simp add: mask_eq_exp_minus_1)
  have "bit (0x03030303 :: u32) (8 * i + n) = bit (byte_of 0x03030303 i) n" using n by (simp add: bit_byte_of)
  then have "bit (0x03030303 :: u32) (8 * i + n) \<longleftrightarrow> n < 2"
    using n unfolding byte_masks(3) [OF i] m by (simp add: bit_mask_iff)
  moreover have "n < 2 \<Longrightarrow> 2 * s + n < 8" using s by simp
  ultimately show "bit (signed_drop_bit (2 * s) w AND 0x03030303) (8 * i + n) = bit (drop_bit (2 * s) (byte_of w i) AND 3) n"
    using i n unfolding m by (auto simp: bit_and_iff bit_mask_iff bit_signed_drop_bit_iff bit_drop_bit_eq bit_byte_of ac_simps)
qed

lemma byte_of_push4:
  assumes i: "i < 4" and small: "\<And>j. j < 4 \<Longrightarrow> byte_of w j AND 0xF0 = 0"
  shows "byte_of (push_bit 4 w) i = push_bit 4 (byte_of w i)"
proof (rule byte_of_eqI)
  fix n :: nat assume n: "n < 8"
  have m: "(0xF0 :: u8) = push_bit 4 (mask 4)" by (simp add: mask_eq_exp_minus_1)
  have z: "\<not> bit (byte_of w j) k" if j: "j < 4" and k: "4 \<le> k" "k < 8" for j k
  proof
    assume "bit (byte_of w j) k"
    then have "bit (byte_of w j AND 0xF0) k" using k unfolding m by (simp add: bit_and_iff bit_push_bit_iff bit_mask_iff, arith)
    then show False using small [OF j] by simp
  qed
  show "bit (push_bit 4 w) (8 * i + n) = bit (push_bit 4 (byte_of w i)) n"
  proof (cases "4 \<le> n")
    case True
    then have "n - 4 < 8" using n by simp
    then show ?thesis using True i n by (simp add: bit_push_bit_iff bit_byte_of)
  next
    case False
    then have "\<not> bit (push_bit 4 w) (8 * i + n)"
    proof (cases i)
      case (Suc j)
      have "8 * i + n - 4 = 8 * j + (n + 4)" using False Suc by simp
      moreover have "\<not> bit (byte_of w j) (n + 4)" using z [of j "n + 4"] False Suc i by simp
      ultimately show ?thesis using False by (simp add: bit_push_bit_iff bit_byte_of)
    qed (use False in \<open>simp add: bit_push_bit_iff\<close>)
    then show ?thesis using False by (simp add: bit_push_bit_iff)
  qed
qed

text \<open>Bits spread to bytes: sixteen values of the low nibble, four bytes each.\<close>

lemma nibble_cases:
  "n < 16 \<Longrightarrow> n = 0 \<or> n = 1 \<or> n = 2 \<or> n = 3 \<or> n = 4 \<or> n = 5 \<or> n = 6 \<or> n = 7 \<or> n = 8 \<or> n = 9
     \<or> n = 10 \<or> n = 11 \<or> n = 12 \<or> n = 13 \<or> n = 14 \<or> n = (15 :: nat)"
  by arith

lemma nibble_spread:
  assumes "n < 16" and i: "i < 4"
  shows "byte_of (push_bit 4 ((of_nat n * 0x00204081) AND 0x01010101)) i = (if bit n i then 0x10 else 0)"
  using nibble_cases [OF assms(1)] four_cases [OF i]
  by (elim disjE) (simp_all add: byte_of_def bit_iff_odd)

lemma nibble_signs:
  assumes "n < 16" and i: "i < 4"
  shows "byte_of (((of_nat n * 0x00204081) AND 0x01010101) * 0xFF) i = (if bit n i then 0xFF else 0)"
  using nibble_cases [OF assms(1)] four_cases [OF i]
  by (elim disjE) (simp_all add: byte_of_def bit_iff_odd)

lemma low_nibble:
  fixes v :: u32
  assumes "i < 4"
  shows "v AND 0xF = of_nat (unat (v AND 0xF))" "unat (v AND 0xF) < 16" "bit (unat (v AND 0xF)) i = bit v i"
proof -
  have m: "(0xF :: u32) = mask 4" by (simp add: mask_eq_exp_minus_1)
  have u: "unat (v AND 0xF) = take_bit 4 (unat v)"
    unfolding m take_bit_eq_mask [symmetric] by (simp add: unsigned_take_bit_eq)
  show "v AND 0xF = of_nat (unat (v AND 0xF))" by simp
  show "unat (v AND 0xF) < 16" unfolding u using take_bit_nat_less_exp [of 4 "unat v"] by simp
  show "bit (unat (v AND 0xF)) i = bit v i" unfolding u using assms by (auto simp: bit_take_bit_iff bit_unsigned_iff dest: bit_imp_le_length)
qed

lemma byte_of_spread:
  assumes i: "i < 4"
  shows "byte_of (spread4_hi v) i = (if bit v i then 0x10 else 0)"
proof -
  have "byte_of (spread4_hi v) i = byte_of (push_bit 4 ((of_nat (unat (v AND 0xF)) * 0x00204081) AND 0x01010101)) i"
    unfolding spread4_hi_def low_nibble(1) [OF i, symmetric] ..
  also have "\<dots> = (if bit (unat (v AND 0xF)) i then 0x10 else 0)" by (rule nibble_spread [OF low_nibble(2) [OF i] i])
  finally show ?thesis by (simp only: low_nibble(3) [OF i])
qed

lemma byte_of_sign_mask:
  assumes i: "i < 4"
  shows "byte_of (sign_mask4 s k) i = (if bit s (k + i) then 0xFF else 0)"
proof -
  have "byte_of (sign_mask4 s k) i = byte_of (((of_nat (unat (drop_bit k s AND 0xF)) * 0x00204081) AND 0x01010101) * 0xFF) i"
    unfolding sign_mask4_def Let_def low_nibble(1) [OF i, symmetric] ..
  also have "\<dots> = (if bit (unat (drop_bit k s AND 0xF)) i then 0xFF else 0)" by (rule nibble_signs [OF low_nibble(2) [OF i] i])
  finally show ?thesis by (simp only: low_nibble(3) [OF i] bit_drop_bit_eq comp_def)
qed

text \<open>Addition without carries between the bytes.\<close>

lemma uint_byte_of: "uint (byte_of w i) = uint w div 256 ^ i mod 256"
proof -
  have p: "(2 :: int) ^ (8 * i) = 256 ^ i" by (simp add: power_mult)
  have "uint (drop_bit (8 * i) w) = drop_bit (8 * i) (uint w)"
    by (rule bit_eqI) (auto simp: bit_unsigned_iff bit_drop_bit_eq dest: bit_imp_le_length)
  then have d: "uint (drop_bit (8 * i) w) = uint w div 256 ^ i" by (simp only: drop_bit_eq_div p)
  have "uint (byte_of w i) = take_bit 8 (uint (drop_bit (8 * i) w))" by (simp add: byte_of_def unsigned_ucast_eq)
  then show ?thesis unfolding d take_bit_eq_mod by simp
qed

definition of_digits :: "(nat \<Rightarrow> int) \<Rightarrow> int" where
  "of_digits c = c 0 + 256 * (c 1 + 256 * (c 2 + 256 * c 3))"

lemma of_digits_bytes: "of_digits (\<lambda>i. uint (byte_of w i)) = uint w"
proof -
  have lt: "uint w < 256 * (256 * (256 * 256))" using uint_lt2p [of w] by simp
  have split: "x = x mod 256 + 256 * (x div 256)" for x :: int by simp
  have d: "uint w div 256 div 256 = uint w div 65536" "uint w div 256 div 256 div 256 = uint w div 16777216"
    by (simp_all add: zdiv_zmult2_eq)
  have top: "uint w div 16777216 mod 256 = uint w div 16777216" by (rule mod_pos_pos_trivial) (use lt in \<open>simp_all add: pos_imp_zdiv_nonneg_iff\<close>)
  have pw: "(256 :: int) ^ 0 = 1" "(256 :: int) ^ 1 = 256" "(256 :: int) ^ 2 = 65536" "(256 :: int) ^ 3 = 16777216" by simp_all
  have key: "x = a + 256 * y \<Longrightarrow> y = b + 256 * z \<Longrightarrow> z = c + 256 * t \<Longrightarrow> a + 256 * (b + 256 * (c + 256 * t)) = x"
    for x y z t a b c :: int by simp
  have "uint w div 256 = uint w div 256 mod 256 + 256 * (uint w div 65536)"
    using split [of "uint w div 256"] unfolding d(1) .
  moreover have "uint w div 65536 = uint w div 65536 mod 256 + 256 * (uint w div 16777216)"
    using split [of "uint w div 65536"] unfolding d(1) [symmetric] d(2) .
  ultimately show ?thesis
    unfolding of_digits_def uint_byte_of pw div_by_1 top by (rule key [OF split])
qed

lemma digit_of_digits:
  assumes c: "\<And>i. i < 4 \<Longrightarrow> 0 \<le> c i \<and> c i < 256" and i: "i < 4"
  shows "of_digits c div 256 ^ i mod 256 = c i"
proof -
  have step: "(a + 256 * b) div 256 = b" "(a + 256 * b) mod 256 = a" if "0 \<le> a" "a < 256" for a b :: int
    using that by simp_all
  have p: "x div 65536 = x div 256 div 256" "x div 16777216 = x div 256 div 256 div 256" for x :: int
    by (simp_all add: zdiv_zmult2_eq)
  have d1: "of_digits c div 256 = c 1 + 256 * (c 2 + 256 * c 3)"
    unfolding of_digits_def by (rule step) (use c in simp_all)
  have d2: "(c 1 + 256 * (c 2 + 256 * c 3)) div 256 = c 2 + 256 * c 3" by (rule step) (use c in simp_all)
  have d3: "(c 2 + 256 * c 3) div 256 = c 3" by (rule step) (use c in simp_all)
  have m: "of_digits c mod 256 = c 0" "(c 1 + 256 * (c 2 + 256 * c 3)) mod 256 = c 1" "(c 2 + 256 * c 3) mod 256 = c 2"
    unfolding of_digits_def by (rule step; use c in simp)+
  have m3: "c 3 mod 256 = c 3" using c [of 3] by simp
  have pw: "(256 :: int) ^ 0 = 1" "(256 :: int) ^ 1 = 256" "(256 :: int) ^ 2 = 65536" "(256 :: int) ^ 3 = 16777216" by simp_all
  from four_cases [OF i] show ?thesis
    by (elim disjE) (simp_all only: pw p d1 d2 d3 m m3 div_by_1)
qed

lemma of_digits_bounds:
  assumes c: "\<And>i. i < 4 \<Longrightarrow> 0 \<le> c i \<and> c i < 256"
  shows "0 \<le> of_digits c" "of_digits c < 2 ^ 32"
  using c [of 0] c [of 1] c [of 2] c [of 3] by (simp_all add: of_digits_def)

lemma byte_of_add:
  assumes no: "\<And>i. i < 4 \<Longrightarrow> uint (byte_of a i) + uint (byte_of b i) < 256" and i: "i < 4"
  shows "byte_of (a + b) i = byte_of a i + byte_of b i"
proof -
  let ?c = "\<lambda>i. uint (byte_of a i) + uint (byte_of b i)"
  have c: "\<And>i. i < 4 \<Longrightarrow> 0 \<le> ?c i \<and> ?c i < 256" using no by simp
  have "uint a + uint b = of_digits ?c"
    using of_digits_bytes [of a] of_digits_bytes [of b] by (simp add: of_digits_def)
  then have "uint (a + b) = of_digits ?c"
    using of_digits_bounds [OF c] by (simp add: uint_word_ariths)
  then have "uint (byte_of (a + b) i) = ?c i"
    by (simp only: uint_byte_of [of "a + b"] digit_of_digits [OF c i])
  moreover have "uint (byte_of a i + byte_of b i) = ?c i" using no [OF i] by (simp add: uint_word_ariths)
  ultimately show ?thesis by (simp only: word_uint_eq_iff)
qed

text \<open>Negating the bytes a sign mask selects: a grid byte is never zero, so no carry leaves it.\<close>

lemma byte_neg: "(b XOR 0xFF) + 1 = - b" for b :: u8
proof -
  have "b XOR 0xFF = NOT b"
  proof (rule bit_word_eqI)
    fix n assume n: "n < LENGTH(8)"
    have m: "(0xFF :: u8) = mask 8" by (simp add: mask_eq_exp_minus_1)
    show "bit (b XOR 0xFF) n = bit (NOT b) n"
      unfolding m using n by (simp add: bit_xor_iff bit_not_iff bit_mask_iff)
  qed
  then show ?thesis by (simp add: not_eq_complement)
qed

lemma byte_of_signed:
  assumes pos: "\<And>i. i < 4 \<Longrightarrow> byte_of v i \<noteq> 0" and i: "i < 4"
  shows "byte_of ((v XOR sign_mask4 s k) + (sign_mask4 s k AND 0x01010101)) i
    = (if bit s (k + i) then - byte_of v i else byte_of v i)"
proof -
  let ?m = "sign_mask4 s k"
  have b: "byte_of (v XOR ?m) j = (if bit s (k + j) then byte_of v j XOR 0xFF else byte_of v j)"
    "byte_of (?m AND 0x01010101) j = (if bit s (k + j) then 1 else 0)" if "j < 4" for j
    using that by (simp_all add: byte_of_xor byte_of_and byte_of_sign_mask byte_masks)
  have "uint (byte_of (v XOR ?m) j) + uint (byte_of (?m AND 0x01010101) j) < 256" if j: "j < 4" for j
  proof (cases "bit s (k + j)")
    case True
    have "byte_of v j XOR 0xFF \<noteq> 0xFF"
    proof
      assume "byte_of v j XOR 0xFF = 0xFF"
      then have "- byte_of v j = 0xFF + 1" using byte_neg [of "byte_of v j"] by (simp only:)
      also have "(0xFF + 1 :: u8) = 0" by code_simp
      finally show False using pos [OF j] by simp
    qed
    then have "uint (byte_of v j XOR 0xFF) \<noteq> uint (0xFF :: u8)" by (simp only: word_uint_eq_iff not_False_eq_True)
    then show ?thesis using True b [OF j] uint_lt2p [of "byte_of v j XOR 0xFF"] by simp
  next
    case False
    then show ?thesis using b [OF j] uint_lt2p [of "byte_of v j"] by simp
  qed
  then have "byte_of ((v XOR ?m) + (?m AND 0x01010101)) i = byte_of (v XOR ?m) i + byte_of (?m AND 0x01010101) i"
    using i by (rule byte_of_add)
  then show ?thesis using b [OF i] byte_neg by simp
qed

section \<open>Sums\<close>

lemma dp4a_sum: "dp4a a b c = c + (\<Sum>i<4. sint (byte_of a i) * sint (byte_of b i))"
  unfolding dp4a_def by (simp add: for_loop_def upt_conv_Cons eval_nat_numeral)

text \<open>Lane 0 of the shuffle tree adds every lane once.\<close>

lemma warp_reduce_ring: "warp_reduce_add (ring_arith h g) acc 0 = (\<Sum>lane<32. acc lane)"
  unfolding warp_reduce_add_def by (simp add: shfl_down_def eval_nat_numeral algebra_simps)

lemma warp_reduce_cong:
  assumes "\<And>lane. lane < 32 \<Longrightarrow> v lane = v' lane"
  shows "warp_reduce_add A v 0 = warp_reduce_add A v' 0"
proof -
  have step: "(\<lambda>lane. ar_add A (v lane) (shfl_down off v lane)) lane = (\<lambda>lane. ar_add A (v' lane) (shfl_down off v' lane)) lane"
    if "\<And>lane. lane < 32 \<Longrightarrow> v lane = v' lane" "lane < 32" for v v' :: "nat \<Rightarrow> 'a" and off lane
    using that by (simp add: shfl_down_def)
  have "\<forall>lane < 32. fold (\<lambda>off acc lane. ar_add A (acc lane) (shfl_down off acc lane)) offs v lane
      = fold (\<lambda>off acc lane. ar_add A (acc lane) (shfl_down off acc lane)) offs v' lane" for offs
    using assms
  proof (induction offs arbitrary: v v')
    case (Cons off offs)
    show ?case unfolding fold_simps comp_def
      by (rule Cons.IH) (rule step [OF Cons.prems])
  qed simp
  with zero_less_numeral show ?thesis unfolding warp_reduce_add_def by blast
qed

end
