(* ===== verification/FL_Gpu_Dots.thy ===== *)
theory FL_Gpu_Dots
  imports FL_Gpu_Warp
begin

text \<open>
  The dequantising kernels of \<open>src/runtime/kernels_gpu.h\<close>: the value a warp adds to an output row.
  Every lane folds the columns congruent to it modulo 32 (F32: the groups of four congruent to it)
  and the shuffle tree adds the lanes. The definitions take the arithmetic as an argument.
\<close>

section \<open>The kernels\<close>

definition gdot_f32 :: "'a arith \<Rightarrow> bytes \<Rightarrow> fvec \<Rightarrow> nat \<Rightarrow> 'a" where
  "gdot_f32 A row x cols =
    (let n4 = cols div 4
     in warp_reduce_add A (\<lambda>lane. fold (\<lambda>c acc.
          let a = (\<lambda>i. ar_f32 A (rd32 row (4 * (4 * c + i)))); b = (\<lambda>i. ar_f32 A (x (4 * c + i)));
              acc = ar_fma A (a 0) (b 0) acc; acc = ar_fma A (a 1) (b 1) acc; acc = ar_fma A (a 2) (b 2) acc
          in ar_fma A (a 3) (b 3) acc) (strided lane 32 n4) (ar_zero A)) 0)"

definition gdot_q8_0 :: "'a arith \<Rightarrow> bytes \<Rightarrow> fvec \<Rightarrow> nat \<Rightarrow> 'a" where
  "gdot_q8_0 A row x cols =
    warp_reduce_add A (\<lambda>lane. for_loop 0 (cols div 32) (\<lambda>b acc.
      let bp = (\<lambda>i. row (b * 34 + i));
          d = shfl 0 (\<lambda>l. if l = 0 then ar_half A (rd16 bp 0) else ar_zero A) lane;
          q = sint (bp (2 + lane))
      in ar_fma A (ar_mul A d (ar_int A q)) (ar_f32 A (x (b * 32 + lane))) acc) (ar_zero A)) 0"

definition gdot_q5_0 :: "'a arith \<Rightarrow> bytes \<Rightarrow> fvec \<Rightarrow> nat \<Rightarrow> 'a" where
  "gdot_q5_0 A row x cols =
    warp_reduce_add A (\<lambda>lane. for_loop 0 (cols div 32) (\<lambda>b acc.
      let bp = (\<lambda>i. row (b * 22 + i));
          d = shfl 0 (\<lambda>l. if l = 0 then ar_half A (rd16 bp 0) else ar_zero A) lane;
          qh = shfl 0 (\<lambda>l. if l = 0 then ucast (rd16 bp 2) OR push_bit 16 (ucast (rd16 bp 4)) else (0 :: u32)) lane;
          j = lane mod 16; qb = bp (6 + j);
          (v, xi) = (if lane < 16
            then (uint ((ucast (qb AND 0x0F) :: u32) OR (push_bit 4 (drop_bit j qh) AND 0x10)) - 16, b * 32 + j)
            else (uint ((ucast (drop_bit 4 qb) :: u32) OR (drop_bit (j + 12) qh AND 0x10)) - 16, b * 32 + 16 + j))
      in ar_fma A (ar_mul A d (ar_int A v)) (ar_f32 A (x xi)) acc) (ar_zero A)) 0"

definition gdot_q4_K :: "'a arith \<Rightarrow> bytes \<Rightarrow> fvec \<Rightarrow> nat \<Rightarrow> 'a" where
  "gdot_q4_K A row x cols =
    warp_reduce_add A (\<lambda>lane. for_loop 0 (cols div 256) (\<lambda>sb acc.
      let bp = (\<lambda>i. row (sb * 144 + i)); d = ar_half A (rd16 bp 0); dmin = ar_half A (rd16 bp 2);
          scales = (\<lambda>i. bp (4 + i)); qs = (\<lambda>i. bp (16 + i)); xb = (\<lambda>i. ar_f32 A (x (sb * 256 + i)))
      in for_loop 0 4 (\<lambda>c acc.
           let (sc, mn) = fl_q4k_scale_min (2 * c + 0) scales;
               d1 = ar_mul A d (ar_int A (uint sc)); m1 = ar_mul A dmin (ar_int A (uint mn));
               (sc, mn) = fl_q4k_scale_min (2 * c + 1) scales;
               d2 = ar_mul A d (ar_int A (uint sc)); m2 = ar_mul A dmin (ar_int A (uint mn));
               q = qs (c * 32 + lane);
               acc = ar_fma A (ar_sub A (ar_mul A d1 (ar_int A (uint (q AND 0xF)))) m1) (xb (c * 64 + lane)) acc
           in ar_fma A (ar_sub A (ar_mul A d2 (ar_int A (uint (drop_bit 4 q)))) m2) (xb (c * 64 + 32 + lane)) acc)
         acc) (ar_zero A)) 0"

definition gdot_q6_K :: "'a arith \<Rightarrow> bytes \<Rightarrow> fvec \<Rightarrow> nat \<Rightarrow> 'a" where
  "gdot_q6_K A row x cols =
    warp_reduce_add A (\<lambda>lane. for_loop 0 (cols div 256) (\<lambda>sb acc.
      let bp = (\<lambda>i. row (sb * 210 + i)); d = ar_half A (rd16 bp 208); xb = (\<lambda>i. ar_f32 A (x (sb * 256 + i)))
      in for_loop 0 2 (\<lambda>h acc.
           let ql = (\<lambda>i. bp (h * 64 + i)); qh = (\<lambda>i. bp (128 + h * 32 + i));
               sc = (\<lambda>i. ar_int A (sint (bp (192 + h * 8 + i)))); is = lane div 16;
               l0 = ql lane; l32 = ql (lane + 32); hh = qh lane; xh = (\<lambda>i. xb (h * 128 + i));
               acc = ar_fma A (ar_mul A (ar_mul A d (sc (is + 0)))
                 (ar_int A (uint ((l0 AND 0xF) OR push_bit 4 (drop_bit 0 hh AND 3)) - 32))) (xh lane) acc;
               acc = ar_fma A (ar_mul A (ar_mul A d (sc (is + 2)))
                 (ar_int A (uint ((l32 AND 0xF) OR push_bit 4 (drop_bit 2 hh AND 3)) - 32))) (xh (lane + 32)) acc;
               acc = ar_fma A (ar_mul A (ar_mul A d (sc (is + 4)))
                 (ar_int A (uint (drop_bit 4 l0 OR push_bit 4 (drop_bit 4 hh AND 3)) - 32))) (xh (lane + 64)) acc
           in ar_fma A (ar_mul A (ar_mul A d (sc (is + 6)))
                 (ar_int A (uint (drop_bit 4 l32 OR push_bit 4 (drop_bit 6 hh AND 3)) - 32))) (xh (lane + 96)) acc)
         acc) (ar_zero A)) 0"

definition gdot_iq2_xxs :: "'a arith \<Rightarrow> bytes \<Rightarrow> fvec \<Rightarrow> nat \<Rightarrow> 'a" where
  "gdot_iq2_xxs A row x cols =
    warp_reduce_add A (\<lambda>lane. let l = lane div 8; jj = lane mod 8 in for_loop 0 (cols div 256) (\<lambda>sb acc.
      let bp = (\<lambda>i. row (sb * 66 + i)); d = ar_half A (rd16 bp 0)
      in for_loop 0 8 (\<lambda>ib32 acc.
           let q = 2 + 8 * ib32; w0 = ld_i32_u16al bp q; w1 = ld_i32_u16al bp (q + 4);
               g = fl_kIq2xxsGrid (unat (drop_bit (8 * l) w0 AND 0xFF));
               s = (ucast (fl_kIqSigns (unat (drop_bit (7 * l) w1 AND 127))) :: u32);
               v = ar_int A (uint (ucast (drop_bit (8 * jj) g) :: u8));
               db = ar_mul A (ar_mul A d (ar_add A (ar_f32 A fl_half_const) (ar_int A (uint (drop_bit 28 w1)))))
                      (ar_f32 A fl_quarter_const)
           in ar_fma A (ar_mul A db (if drop_bit jj s AND 1 \<noteq> 0 then ar_neg A v else v))
                (ar_f32 A (x (sb * 256 + ib32 * 32 + lane))) acc)
         acc) (ar_zero A)) 0"

definition gdot_iq3_xxs :: "'a arith \<Rightarrow> bytes \<Rightarrow> fvec \<Rightarrow> nat \<Rightarrow> 'a" where
  "gdot_iq3_xxs A row x cols =
    warp_reduce_add A (\<lambda>lane. let quad = lane div 4; jj = lane mod 4 in for_loop 0 (cols div 256) (\<lambda>sb acc.
      let bp = (\<lambda>i. row (sb * 98 + i)); d = ar_half A (rd16 bp 0)
      in for_loop 0 8 (\<lambda>ib32 acc.
           let w1 = ld_i32_u16al bp (2 + 64 + 4 * ib32); g = fl_kIq3xxsGrid (unat (bp (2 + 8 * ib32 + quad)));
               s = (ucast (fl_kIqSigns (unat (drop_bit (7 * (quad div 2)) w1 AND 127))) :: u32);
               bit' = 4 * (quad mod 2) + jj;
               v = ar_int A (uint (ucast (drop_bit (8 * jj) g) :: u8));
               db = ar_mul A (ar_mul A d (ar_add A (ar_f32 A fl_half_const) (ar_int A (uint (drop_bit 28 w1)))))
                      (ar_f32 A fl_half_const)
           in ar_fma A (ar_mul A db (if drop_bit bit' s AND 1 \<noteq> 0 then ar_neg A v else v))
                (ar_f32 A (x (sb * 256 + ib32 * 32 + lane))) acc)
         acc) (ar_zero A)) 0"

fun gdot_fast :: "'a arith \<Rightarrow> fmt \<Rightarrow> bytes \<Rightarrow> fvec \<Rightarrow> nat \<Rightarrow> 'a" where
  "gdot_fast A F32 = gdot_f32 A"
| "gdot_fast A Q8_0 = gdot_q8_0 A"
| "gdot_fast A Q5_0 = gdot_q5_0 A"
| "gdot_fast A Q4_K = gdot_q4_K A"
| "gdot_fast A Q6_K = gdot_q6_K A"
| "gdot_fast A IQ2_XXS = gdot_iq2_xxs A"
| "gdot_fast A IQ3_XXS = gdot_iq3_xxs A"

section \<open>Elements\<close>

text \<open>Dequantisation in any arithmetic; in that of floats it is the one of \<open>FL_Quants\<close>.\<close>

definition iq_signed_val :: "'a arith \<Rightarrow> u8 \<Rightarrow> nat \<Rightarrow> 'a \<Rightarrow> 'a" where
  "iq_signed_val A s j v = (if s AND fl_kIqSignMask j \<noteq> 0 then ar_neg A v else v)"

definition iq_scale_val :: "'a arith \<Rightarrow> 'a \<Rightarrow> f32 \<Rightarrow> u32 \<Rightarrow> 'a" where
  "iq_scale_val A d k w1 =
    ar_mul A (ar_mul A d (ar_add A (ar_f32 A fl_half_const) (ar_int A (uint (drop_bit 28 w1))))) (ar_f32 A k)"

fun val_block :: "'a arith \<Rightarrow> fmt \<Rightarrow> bytes \<Rightarrow> nat \<Rightarrow> 'a" where
  "val_block A F32 B i = ar_f32 A (rd32 B 0)"
| "val_block A Q8_0 B i = ar_mul A (ar_half A (rd16 B 0)) (ar_int A (sint (B (2 + i))))"
| "val_block A Q5_0 B i = ar_mul A (ar_half A (rd16 B 0)) (ar_int A (if i < 16 then q5_lo B i else q5_hi B (i - 16)))"
| "val_block A Q4_K B i =
    (let g = i div 32; (sc, mn) = fl_q4k_scale_min g (\<lambda>k. B (4 + k)); b = B (16 + 32 * (g div 2) + i mod 32);
         q = (if even g then b AND 0xF else drop_bit 4 b)
     in ar_sub A (ar_mul A (ar_mul A (ar_half A (rd16 B 0)) (ar_int A (uint sc))) (ar_int A (uint q)))
          (ar_mul A (ar_half A (rd16 B 2)) (ar_int A (uint mn))))"
| "val_block A Q6_K B i =
    (let h = i div 128; s = i mod 128 div 32; l = i mod 32
     in ar_mul A (ar_mul A (ar_half A (rd16 B 208)) (ar_int A (sint (B (192 + 8 * h + (l div 16 + 2 * s))))))
          (ar_int A (q6_bits (\<lambda>k. B (64 * h + k)) (\<lambda>k. B (128 + 32 * h + k)) s l - 32)))"
| "val_block A IQ2_XXS B i =
    (let ib32 = i div 32; l = i mod 32 div 8; j = i mod 8; w0 = rd32 B (2 + 8 * ib32); w1 = rd32 B (2 + 8 * ib32 + 4);
         g = fl_kIq2xxsGrid (unat (drop_bit (8 * l) w0 AND 0xFF))
     in ar_mul A (iq_scale_val A (ar_half A (rd16 B 0)) fl_quarter_const w1)
          (iq_signed_val A (iq_sign_byte w1 l) j (ar_int A (uint (ucast (drop_bit (8 * j) g) :: u8)))))"
| "val_block A IQ3_XXS B i =
    (let ib32 = i div 32; l = i mod 32 div 8; j = i mod 8; w1 = rd32 B (2 + 64 + 4 * ib32);
         g = fl_kIq3xxsGrid (unat (B (2 + 8 * ib32 + (2 * l + j div 4))))
     in ar_mul A (iq_scale_val A (ar_half A (rd16 B 0)) fl_half_const w1)
          (iq_signed_val A (iq_sign_byte w1 l) j (ar_int A (uint (ucast (drop_bit (8 * (j mod 4)) g) :: u8)))))"

declare val_block.simps [simp del]

definition val_elem :: "'a arith \<Rightarrow> fmt \<Rightarrow> bytes \<Rightarrow> nat \<Rightarrow> 'a" where
  "val_elem A f row c =
    (let n = unat (fl_blk_elems f)
     in val_block A f (\<lambda>i. row (c div n * unat (fl_blk_bytes f) + i)) (c mod n))"

lemma fl_of_eq: "fl_of_u8 b = f32_of_int (uint b)" "fl_of_i8 b = f32_of_int (sint b)"
  by (simp_all add: fl_of_u8_def fl_of_i8_def)

lemma val_block_f32: "val_block f32_arith f B i = dq_block f B i"
proof (cases f)
  case IQ2_XXS
  have i: "2 + 2 * (4 * k + 0) = 2 + 8 * k" "2 + 2 * (4 * k + 1) = 2 + 8 * k + 2" "2 + 2 * (4 * k + 2) = 2 + 8 * k + 4"
    "2 + 2 * (4 * k + 3) = 2 + 8 * k + 4 + (2 :: nat)" for k by simp_all
  have w: "ucast (rd16 B (2 + 2 * (4 * k + 0))) OR push_bit 16 (ucast (rd16 B (2 + 2 * (4 * k + 1)))) = rd32 B (2 + 8 * k)"
    "ucast (rd16 B (2 + 2 * (4 * k + 2))) OR push_bit 16 (ucast (rd16 B (2 + 2 * (4 * k + 3)))) = rd32 B (2 + 8 * k + 4)" for k
    unfolding ld_i32_rd32 [symmetric] ld_i32_u16al_def i by (rule refl)+
  show ?thesis
    unfolding IQ2_XXS val_block.simps dq_block.simps dq_iq2_xxs_def Let_def w
    by (simp add: iq_scale_val_def iq_scale_def iq_signed_val_def iq_signed_def fl_of_eq)
next
  case IQ3_XXS
  have w: "for_loop 0 4 (\<lambda>b w. w OR push_bit (8 * b) (ucast (B (2 + (64 + (4 * k + b)))))) (0 :: u32) = rd32 B (2 + 64 + 4 * k)" for k
    unfolding for_loop_four rd32_def by (simp add: ac_simps)
  show ?thesis
    unfolding IQ3_XXS val_block.simps dq_block.simps dq_iq3_xxs_def Let_def w
    by (simp add: iq_scale_val_def iq_scale_def iq_signed_val_def iq_signed_def fl_of_eq add.assoc)
qed (simp_all add: val_block.simps dq_q8_0_def dq_q5_0_def dq_q4_K_def dq_q6_K_def fl_of_eq Let_def split_def if_distrib)

lemma val_elem_f32: "val_elem f32_arith f row c = dq_elem f row c"
  unfolding val_elem_def dq_elem_def Let_def val_block_f32 ..

section \<open>What a lane folds\<close>

definition lane_dot :: "'a arith \<Rightarrow> fmt \<Rightarrow> bytes \<Rightarrow> fvec \<Rightarrow> nat \<Rightarrow> nat \<Rightarrow> 'a" where
  "lane_dot A f row x m lane =
    for_loop 0 m (\<lambda>k acc. ar_fma A (val_elem A f row (32 * k + lane)) (ar_f32 A (x (32 * k + lane))) acc) (ar_zero A)"

lemma val_elem_at:
  assumes n: "unat (fl_blk_elems f) = 32 * g" and k: "k < g" and lane: "lane < 32"
  shows "val_elem A f row (32 * (b * g + k) + lane) = val_block A f (\<lambda>i. row (b * unat (fl_blk_bytes f) + i)) (32 * k + lane)"
proof -
  have e: "32 * (b * g + k) + lane = b * (32 * g) + (32 * k + lane)" by (simp add: algebra_simps)
  have "32 * k + lane < 32 * Suc k" using lane by simp
  also have "\<dots> \<le> 32 * g" using k by (intro mult_le_mono2) simp
  finally have r: "32 * k + lane < 32 * g" .
  show ?thesis unfolding val_elem_def Let_def n e block_div_mod [OF r] ..
qed

lemma fma_congs:
  "w = w' \<Longrightarrow> v = v' \<Longrightarrow> a = a' \<Longrightarrow> ar_fma A w v a = ar_fma A w' v' a'"
  by simp

text \<open>A loop over blocks whose bodies fold the columns of a lane.\<close>

lemma lane_dot_blocks:
  assumes n: "unat (fl_blk_elems f) = 32 * g" and lane: "lane < 32"
    and body: "\<And>b acc. body b acc = for_loop 0 g (\<lambda>k acc.
      ar_fma A (val_block A f (\<lambda>i. row (b * unat (fl_blk_bytes f) + i)) (32 * k + lane)) (ar_f32 A (x (32 * (b * g + k) + lane))) acc) acc"
  shows "for_loop 0 nb body (ar_zero A) = lane_dot A f row x (nb * g) lane"
  unfolding lane_dot_def for_loop_blocks [symmetric, of nb g] for_loop_split_blocks [OF refl, of nb g]
  by (intro for_loop_cong) (simp only: body, intro for_loop_cong fma_congs refl, simp only: val_elem_at [OF n _ lane])

text \<open>Each kernel, block by block.\<close>

lemma uint_narrow: "(\<And>n. 8 \<le> n \<Longrightarrow> \<not> bit v n) \<Longrightarrow> uint (ucast v :: u8) = uint v" for v :: u32
  by (rule bit_eqI) (auto simp: bit_unsigned_iff bit_ucast_iff not_less intro: leI)

lemma q5_narrow:
  assumes "5 \<le> n"
  shows "\<not> bit (x AND 0x10 :: u32) n"
proof -
  have m: "(0x10 :: u32) = 2 ^ 4" by simp
  show ?thesis unfolding m bit_and_iff bit_exp_iff using assms by auto
qed

lemma ucast_or_u8: "ucast (ucast b OR v) = b OR (ucast v :: u8)" for b :: u8 and v :: u32
  by (rule bit_word_eqI) (auto simp: bit_or_iff bit_ucast_iff)

lemma q5_wide:
  "uint ((ucast b :: u32) OR (v AND 0x10)) = uint (b OR (ucast (v AND 0x10) :: u8))" for b :: u8 and v :: u32
  unfolding ucast_or_u8 [symmetric]
  by (rule uint_narrow [symmetric]) (auto simp: bit_or_iff bit_ucast_iff q5_narrow u8_high_bits)

lemma q5_fields:
  "uint ((ucast (B (6 + j) AND 0x0F) :: u32) OR (push_bit 4 (drop_bit j (rd32 B 2)) AND 0x10)) - 16 = q5_lo B j"
  "uint ((ucast (drop_bit 4 (B (6 + j))) :: u32) OR (drop_bit (j + 12) (rd32 B 2) AND 0x10)) - 16 = q5_hi B j"
  by (simp_all only: q5_wide q5_lo_def q5_hi_def Let_def)

lemma one_loop: "for_loop 0 1 f s = f 0 s"
  by (simp add: for_loop_def)

lemma gdot_q8_0_lanes: "gdot_q8_0 A row x cols = warp_reduce_add A (lane_dot A Q8_0 row x (cols div 32 * 1)) 0"
  unfolding gdot_q8_0_def
proof (rule warp_reduce_cong, rule lane_dot_blocks, goal_cases)
  case (3 lane b acc)
  show ?case unfolding one_loop Let_def shfl_def by (intro fma_congs) (simp_all add: val_block.simps mult.commute)
qed simp_all

lemma gdot_q5_0_lanes: "gdot_q5_0 A row x cols = warp_reduce_add A (lane_dot A Q5_0 row x (cols div 32 * 1)) 0"
  unfolding gdot_q5_0_def
proof (rule warp_reduce_cong, rule lane_dot_blocks, goal_cases)
  case (3 lane b acc)
  have qh: "ucast (rd16 B 2) OR push_bit 16 (ucast (rd16 B 4)) = rd32 B 2" for B
    using ld_i32_rd32 [of B 2] unfolding ld_i32_u16al_def by simp
  show ?case
  proof (cases "lane < 16")
    case True
    then have m: "lane mod 16 = lane" by simp
    show ?thesis unfolding one_loop Let_def shfl_def qh if_P [OF refl] if_P [OF True] prod.case m
        q5_fields [where B = "\<lambda>i. row (b * 22 + i)"]
      by (simp add: val_block.simps True mult.commute [of b])
  next
    case False
    then have m: "lane mod 16 = lane - 16" "b * 32 + 16 + (lane - 16) = b * 32 + lane" using 3(1) by (simp_all add: mod_if)
    show ?thesis unfolding one_loop Let_def shfl_def qh if_P [OF refl] if_not_P [OF False] prod.case m
        q5_fields [where B = "\<lambda>i. row (b * 22 + i)"]
      using False by (simp add: val_block.simps mult.commute [of b])
  qed
qed simp_all

lemma col_div_mod: "lane < 32 \<Longrightarrow> (32 * k + lane) div 32 = k" "lane < 32 \<Longrightarrow> (32 * k + lane) mod 32 = (lane :: nat)"
  by simp_all

lemma val_q4_K_at:
  assumes "lane < 32"
  shows "val_block A Q4_K B (32 * (c * 2 + 0) + lane) =
     ar_sub A (ar_mul A (ar_mul A (ar_half A (rd16 B 0)) (ar_int A (uint (fst (fl_q4k_scale_min (2 * c + 0) (\<lambda>k. B (4 + k)))))))
                (ar_int A (uint (B (16 + (c * 32 + lane)) AND 0xF))))
       (ar_mul A (ar_half A (rd16 B 2)) (ar_int A (uint (snd (fl_q4k_scale_min (2 * c + 0) (\<lambda>k. B (4 + k)))))))"
    "val_block A Q4_K B (32 * (c * 2 + 1) + lane) =
     ar_sub A (ar_mul A (ar_mul A (ar_half A (rd16 B 0)) (ar_int A (uint (fst (fl_q4k_scale_min (2 * c + 1) (\<lambda>k. B (4 + k)))))))
                (ar_int A (uint (drop_bit 4 (B (16 + (c * 32 + lane)))))))
       (ar_mul A (ar_half A (rd16 B 2)) (ar_int A (uint (snd (fl_q4k_scale_min (2 * c + 1) (\<lambda>k. B (4 + k)))))))"
proof -
  have e: "c * 2 + 0 = 2 * c + 0" "c * 2 + 1 = 2 * c + 1" "even (2 * c + 0)" "odd (2 * c + 1)"
    "(2 * c + 0) div 2 = c" "(2 * c + 1) div 2 = c" "16 + 32 * c + lane = 16 + (c * 32 + lane)" by simp_all
  show "val_block A Q4_K B (32 * (c * 2 + 0) + lane) =
     ar_sub A (ar_mul A (ar_mul A (ar_half A (rd16 B 0)) (ar_int A (uint (fst (fl_q4k_scale_min (2 * c + 0) (\<lambda>k. B (4 + k)))))))
                (ar_int A (uint (B (16 + (c * 32 + lane)) AND 0xF))))
       (ar_mul A (ar_half A (rd16 B 2)) (ar_int A (uint (snd (fl_q4k_scale_min (2 * c + 0) (\<lambda>k. B (4 + k)))))))"
    unfolding val_block.simps Let_def split_def col_div_mod [OF assms] e(1) e(5,7) if_P [OF e(3)] ..
  show "val_block A Q4_K B (32 * (c * 2 + 1) + lane) =
     ar_sub A (ar_mul A (ar_mul A (ar_half A (rd16 B 0)) (ar_int A (uint (fst (fl_q4k_scale_min (2 * c + 1) (\<lambda>k. B (4 + k)))))))
                (ar_int A (uint (drop_bit 4 (B (16 + (c * 32 + lane)))))))
       (ar_mul A (ar_half A (rd16 B 2)) (ar_int A (uint (snd (fl_q4k_scale_min (2 * c + 1) (\<lambda>k. B (4 + k)))))))"
    unfolding val_block.simps Let_def split_def col_div_mod [OF assms] e(2) e(6,7) if_not_P [OF e(4)] ..
qed

lemma gdot_q4_K_lanes: "gdot_q4_K A row x cols = warp_reduce_add A (lane_dot A Q4_K row x (cols div 256 * 8)) 0"
  unfolding gdot_q4_K_def
proof (rule warp_reduce_cong, rule lane_dot_blocks, goal_cases)
  case (3 lane b acc)
  show ?case
    unfolding for_loop_split_blocks [of 8 4 2, simplified] for_loop_two Let_def split_def fl_blk_bytes.simps
  proof (intro for_loop_cong fma_congs refl)
    fix c :: nat
    have x: "b * 256 + (c * 64 + lane) = 32 * (b * 8 + (c * 2 + 0)) + lane"
      "b * 256 + (c * 64 + 32 + lane) = 32 * (b * 8 + (c * 2 + 1)) + lane" by simp_all
    show "ar_f32 A (x (b * 256 + (c * 64 + lane))) = ar_f32 A (x (32 * (b * 8 + (c * 2 + 0)) + lane))"
      "ar_f32 A (x (b * 256 + (c * 64 + 32 + lane))) = ar_f32 A (x (32 * (b * 8 + (c * 2 + 1)) + lane))"
      unfolding x by (rule refl)+
  qed (simp_all only: val_q4_K_at [OF 3(1)], simp_all)
qed simp_all

lemma val_q6_K_at:
  assumes s: "s < 4" and lane: "lane < 32"
  shows "val_block A Q6_K B (32 * (h * 4 + s) + lane) =
    ar_mul A (ar_mul A (ar_half A (rd16 B 208)) (ar_int A (sint (B (192 + 8 * h + (lane div 16 + 2 * s))))))
          (ar_int A (q6_bits (\<lambda>k. B (64 * h + k)) (\<lambda>k. B (128 + 32 * h + k)) s lane - 32))"
proof -
  have r: "s * 32 + lane < 128" using s lane by simp
  have e: "32 * (h * 4 + s) + lane = h * 128 + (s * 32 + lane)" by simp
  have "(h * 128 + (s * 32 + lane)) div 128 = h" "(h * 128 + (s * 32 + lane)) mod 128 = s * 32 + lane"
    by (rule block_div_mod [OF r])+
  moreover have "(s * 32 + lane) div 32 = s" by (rule block_div_mod [OF lane])
  moreover have "(h * 128 + (s * 32 + lane)) mod 32 = lane"
    using block_div_mod(2) [OF lane, of "4 * h + s"] by (simp add: algebra_simps)
  ultimately show ?thesis by (simp only: val_block.simps Let_def e)
qed

lemma val_q6_K_lane:
  assumes "lane < 32"
  shows "val_block A Q6_K B (32 * (h * 4 + 0) + lane) =
      ar_mul A (ar_mul A (ar_half A (rd16 B 208)) (ar_int A (sint (B (192 + h * 8 + (lane div 16 + 0))))))
        (ar_int A (uint ((B (h * 64 + lane) AND 0xF) OR push_bit 4 (drop_bit 0 (B (128 + h * 32 + lane)) AND 3)) - 32))" (is ?a)
    "val_block A Q6_K B (32 * (h * 4 + 1) + lane) =
      ar_mul A (ar_mul A (ar_half A (rd16 B 208)) (ar_int A (sint (B (192 + h * 8 + (lane div 16 + 2))))))
        (ar_int A (uint ((B (h * 64 + (lane + 32)) AND 0xF) OR push_bit 4 (drop_bit 2 (B (128 + h * 32 + lane)) AND 3)) - 32))" (is ?b)
    "val_block A Q6_K B (32 * (h * 4 + 2) + lane) =
      ar_mul A (ar_mul A (ar_half A (rd16 B 208)) (ar_int A (sint (B (192 + h * 8 + (lane div 16 + 4))))))
        (ar_int A (uint (drop_bit 4 (B (h * 64 + lane)) OR push_bit 4 (drop_bit 4 (B (128 + h * 32 + lane)) AND 3)) - 32))" (is ?c)
    "val_block A Q6_K B (32 * (h * 4 + 3) + lane) =
      ar_mul A (ar_mul A (ar_half A (rd16 B 208)) (ar_int A (sint (B (192 + h * 8 + (lane div 16 + 6))))))
        (ar_int A (uint (drop_bit 4 (B (h * 64 + (lane + 32))) OR push_bit 4 (drop_bit 6 (B (128 + h * 32 + lane)) AND 3)) - 32))" (is ?d)
proof -
  have s: "0 < (4 :: nat)" "1 < (4 :: nat)" "2 < (4 :: nat)" "3 < (4 :: nat)" by simp_all
  note at = s [THEN val_q6_K_at [OF _ assms]]
  show ?a ?b ?c ?d
    unfolding at q6_bits_def Let_def nat_mult_1_right mult_0_right by (simp_all add: ac_simps)
qed

lemma gdot_q6_K_lanes: "gdot_q6_K A row x cols = warp_reduce_add A (lane_dot A Q6_K row x (cols div 256 * 8)) 0"
  unfolding gdot_q6_K_def
proof (rule warp_reduce_cong, rule lane_dot_blocks, goal_cases)
  case (3 lane b acc)
  have u: "unat (fl_blk_bytes Q6_K) = 210" by simp
  show ?case
    unfolding for_loop_split_blocks [of 8 2 4, simplified] for_loop_four Let_def u
    by (intro for_loop_cong fma_congs refl) (simp_all only: val_q6_K_lane [OF 3(1)], simp_all add: ac_simps)
qed simp_all

lemma bit_test: "drop_bit j w AND 1 \<noteq> 0 \<longleftrightarrow> bit w j" for w :: "'a::len word"
  by (simp add: bit_iff_odd_drop_bit and_one_eq mod2_eq_if)

lemma sign_mask_bit:
  assumes "j < 8"
  shows "s AND fl_kIqSignMask j \<noteq> 0 \<longleftrightarrow> bit s j"
proof -
  have m: "fl_kIqSignMask j = 2 ^ j"
    using eight_cases [OF assms] by (elim disjE) (simp_all add: fl_kIqSignMask_def kIqSignMaskH_def)
  show ?thesis unfolding m and_exp_eq_0_iff_not_bit by simp
qed

lemma lane_sign:
  assumes "j < 8"
  shows "(if drop_bit j (ucast (fl_kIqSigns n) :: u32) AND 1 \<noteq> 0 then ar_neg A v else v) = iq_signed_val A (fl_kIqSigns n) j v"
  unfolding bit_test iq_signed_val_def sign_mask_bit [OF assms] using assms by (simp add: bit_ucast_iff)

lemma col_oct: "lane < 32 \<Longrightarrow> (32 * k + lane) mod 32 div 8 = lane div 8" "(32 * k + lane) mod 8 = lane mod (8 :: nat)"
proof -
  have e: "32 * k + lane = lane + 8 * (4 * k)" by simp
  show "(32 * k + lane) mod 8 = lane mod (8 :: nat)" unfolding e by (rule mod_mult_self2)
qed simp_all

lemma val_iq2_lane:
  assumes "lane < 32"
  shows "val_block A IQ2_XXS B (32 * k + lane) =
    ar_mul A (iq_scale_val A (ar_half A (rd16 B 0)) fl_quarter_const (rd32 B (2 + 8 * k + 4)))
      (iq_signed_val A (fl_kIqSigns (unat (drop_bit (7 * (lane div 8)) (rd32 B (2 + 8 * k + 4)) AND 127))) (lane mod 8)
        (ar_int A (uint (ucast (drop_bit (8 * (lane mod 8))
          (fl_kIq2xxsGrid (unat (drop_bit (8 * (lane div 8)) (rd32 B (2 + 8 * k)) AND 0xFF)))) :: u8))))"
  unfolding val_block.simps Let_def col_div_mod [OF assms] col_oct(2) iq_sign_byte_def ..

lemma gdot_iq2_xxs_lanes: "gdot_iq2_xxs A row x cols = warp_reduce_add A (lane_dot A IQ2_XXS row x (cols div 256 * 8)) 0"
  unfolding gdot_iq2_xxs_def Let_def
proof (rule warp_reduce_cong, rule lane_dot_blocks, goal_cases)
  case (3 lane b acc)
  have j: "lane mod 8 < 8" and u: "unat (fl_blk_bytes IQ2_XXS) = 66" by simp_all
  show ?case
    unfolding u lane_sign [OF j] ld_i32_rd32 val_iq2_lane [OF 3(1)] iq_scale_val_def
  proof (intro for_loop_cong fma_congs refl)
    fix k :: nat
    have x: "b * 256 + k * 32 + lane = 32 * (b * 8 + k) + lane" by simp
    show "ar_f32 A (x (b * 256 + k * 32 + lane)) = ar_f32 A (x (32 * (b * 8 + k) + lane))" unfolding x ..
  qed
qed simp_all

lemma val_iq3_lane:
  assumes "lane < 32"
  shows "val_block A IQ3_XXS B (32 * k + lane) =
    ar_mul A (iq_scale_val A (ar_half A (rd16 B 0)) fl_half_const (rd32 B (2 + 64 + 4 * k)))
      (iq_signed_val A (fl_kIqSigns (unat (drop_bit (7 * (lane div 4 div 2)) (rd32 B (2 + 64 + 4 * k)) AND 127)))
        (4 * (lane div 4 mod 2) + lane mod 4)
        (ar_int A (uint (ucast (drop_bit (8 * (lane mod 4)) (fl_kIq3xxsGrid (unat (B (2 + 8 * k + lane div 4))))) :: u8))))"
proof -
  have "lane mod 8 = lane mod (4 * 2)" by simp
  also have "\<dots> = 4 * (lane div 4 mod 2) + lane mod 4" by (rule mod_mult2_eq)
  finally have m: "lane mod 8 = 4 * (lane div 4 mod 2) + lane mod 4" .
  have d: "lane div 8 = lane div 4 div 2" by (simp add: div_mult2_eq [symmetric])
  have q: "lane mod 8 div 4 = lane div 4 mod 2" "lane mod 8 mod 4 = lane mod 4" unfolding m by simp_all
  have "2 * (lane div 8) + lane mod 8 div 4 = lane div 4" unfolding d q by (rule mult_div_mod_eq)
  then show ?thesis
    unfolding val_block.simps Let_def col_div_mod [OF assms] col_oct(2) iq_sign_byte_def q(2) by (simp only: d m)
qed

lemma gdot_iq3_xxs_lanes: "gdot_iq3_xxs A row x cols = warp_reduce_add A (lane_dot A IQ3_XXS row x (cols div 256 * 8)) 0"
  unfolding gdot_iq3_xxs_def Let_def
proof (rule warp_reduce_cong, rule lane_dot_blocks, goal_cases)
  case (3 lane b acc)
  have "lane div 4 mod 2 < 2" "lane mod 4 < 4" by simp_all
  then have j: "4 * (lane div 4 mod 2) + lane mod 4 < 8" by linarith
  have u: "unat (fl_blk_bytes IQ3_XXS) = 98" by simp
  show ?case
    unfolding u lane_sign [OF j] ld_i32_rd32 val_iq3_lane [OF 3(1)] iq_scale_val_def
  proof (intro for_loop_cong fma_congs refl)
    fix k :: nat
    have x: "b * 256 + k * 32 + lane = 32 * (b * 8 + k) + lane" by simp
    show "ar_f32 A (x (b * 256 + k * 32 + lane)) = ar_f32 A (x (32 * (b * 8 + k) + lane))" unfolding x ..
  qed
qed simp_all

text \<open>All quantised formats at once.\<close>

lemma gdot_quant_lanes:
  assumes "f \<noteq> F32"
  shows "gdot_fast A f row x cols = warp_reduce_add A (lane_dot A f row x
    (cols div unat (fl_blk_elems f) * (unat (fl_blk_elems f) div 32))) 0"
  using assms
  by (cases f) (simp_all add: gdot_q8_0_lanes gdot_q5_0_lanes gdot_q4_K_lanes gdot_q6_K_lanes gdot_iq2_xxs_lanes gdot_iq3_xxs_lanes)

section \<open>Strides\<close>

lemma strided_lt:
  fixes k :: nat
  assumes "0 < st"
  shows "k < (hi - lo + st - 1) div st \<longleftrightarrow> lo + k * st < hi"
proof -
  have "k < (hi - lo + st - 1) div st \<longleftrightarrow> Suc k \<le> (hi - lo + st - 1) div st" by (simp only: Suc_le_eq)
  also have "\<dots> \<longleftrightarrow> Suc k * st \<le> hi - lo + st - 1" by (rule less_eq_div_iff_mult_less_eq [OF assms])
  also have "\<dots> \<longleftrightarrow> lo + k * st < hi" using assms by auto
  finally show ?thesis .
qed

lemma strided_set:
  assumes st: "0 < st"
  shows "set (strided lo st hi) = {c. lo \<le> c \<and> c < hi \<and> c mod st = lo mod st}"
proof (intro equalityI subsetI)
  fix c assume "c \<in> set (strided lo st hi)"
  then have "c \<in> (\<lambda>k. lo + k * st) ` {0..<(hi - lo + st - 1) div st}" unfolding strided_def by simp
  then obtain k where "c = lo + k * st" "k < (hi - lo + st - 1) div st" by fastforce
  then show "c \<in> {c. lo \<le> c \<and> c < hi \<and> c mod st = lo mod st}" using strided_lt [OF st] by auto
next
  fix c assume "c \<in> {c. lo \<le> c \<and> c < hi \<and> c mod st = lo mod st}"
  then have c: "lo \<le> c" "c < hi" "c mod st = lo mod st" by simp_all
  then have "st dvd c - lo" by (metis mod_eq_dvd_iff_nat)
  then obtain k where k: "c - lo = st * k" by (rule dvdE)
  then have "c = lo + k * st" using c(1) by (simp add: mult.commute)
  moreover from this have "k < (hi - lo + st - 1) div st" using c(2) by (simp only: strided_lt [OF st])
  ultimately show "c \<in> set (strided lo st hi)" by (auto simp: strided_def)
qed

lemma strided_sorted:
  assumes "0 < st"
  shows "sorted_wrt (<) (strided lo st hi)"
  unfolding strided_def sorted_wrt_map using assms by (simp add: sorted_wrt_iff_nth_less)

lemma strided_distinct: "0 < st \<Longrightarrow> distinct (strided lo st hi)"
  using strided_sorted by (metis strict_sorted_iff)

lemma strided_disjoint:
  "0 < st \<Longrightarrow> l < st \<Longrightarrow> l' < st \<Longrightarrow> l \<noteq> l' \<Longrightarrow> set (strided l st hi) \<inter> set (strided l' st hi) = {}"
  by (auto simp: strided_set)

lemma strided_cover: "0 < st \<Longrightarrow> (\<Union>l\<in>{..<st}. set (strided l st hi)) = {..<hi}"
  by (auto simp: strided_set intro: mod_less_divisor mod_less_eq_dividend)

lemma strided_sum:
  fixes F :: "nat \<Rightarrow> 'a::comm_monoid_add"
  assumes st: "0 < st"
  shows "(\<Sum>l\<in>{..<st}. sum_list (map F (strided l st hi))) = (\<Sum>c<hi. F c)"
proof -
  have "(\<Sum>l\<in>{..<st}. sum_list (map F (strided l st hi))) = (\<Sum>l\<in>{..<st}. \<Sum>c\<in>set (strided l st hi). F c)"
    by (simp add: sum_list_distinct_conv_sum_set strided_distinct [OF st])
  also have "\<dots> = (\<Sum>c\<in>(\<Union>l\<in>{..<st}. set (strided l st hi)). F c)"
    by (rule sum.UNION_disjoint [symmetric]) (use strided_disjoint [OF st] in auto)
  finally show ?thesis by (simp only: strided_cover [OF st])
qed

lemma strided_full: "lane < 32 \<Longrightarrow> strided lane 32 (m * 32) = map (\<lambda>k. 32 * k + lane) [0..<m]"
proof -
  assume lane: "lane < 32"
  have "(m * 32 - lane + 32 - 1) div 32 = m"
  proof (cases m)
    case (Suc k)
    then have "m * 32 - lane + 32 - 1 = m * 32 + (31 - lane)" using lane by simp
    then show ?thesis using lane by simp
  qed (use lane in simp)
  then show ?thesis unfolding strided_def by (simp add: add.commute mult.commute)
qed

section \<open>The columns of a lane\<close>

lemma fold_concat_map: "fold f (concat (map g cs)) a = fold (\<lambda>c. fold f (g c)) cs a"
  by (induction cs arbitrary: a) simp_all

definition dot_grain :: "fmt \<Rightarrow> nat" where "dot_grain f = (if f = F32 then 4 else unat (fl_blk_elems f))"

definition warp_cols :: "fmt \<Rightarrow> nat \<Rightarrow> nat \<Rightarrow> nat list" where
  "warp_cols f cols lane =
    (if f = F32 then concat (map (\<lambda>c. [4 * c..<4 * c + 4]) (strided lane 32 (cols div 4)))
     else strided lane 32 (cols div dot_grain f * dot_grain f))"

lemma grain_32: "f \<noteq> F32 \<Longrightarrow> unat (fl_blk_elems f) div 32 * 32 = dot_grain f"
  by (cases f) (simp_all add: dot_grain_def)

lemma gdot_f32_cols:
  "gdot_f32 A row x cols = warp_reduce_add A (\<lambda>lane. fold (\<lambda>c acc. ar_fma A (val_elem A F32 row c) (ar_f32 A (x c)) acc)
     (warp_cols F32 cols lane) (ar_zero A)) 0"
proof -
  have v: "val_elem A F32 row c = ar_f32 A (rd32 row (4 * c))" for c
    by (simp add: val_elem_def val_block.simps rd32_def mult.commute [of c])
  have four: "fold f [4 * c..<4 * c + 4] = (\<lambda>a. f (4 * c + 3) (f (4 * c + 2) (f (4 * c + 1) (f (4 * c + 0) a))))"
    for f :: "nat \<Rightarrow> 'a \<Rightarrow> 'a" and c
    by (rule ext) (simp add: upt_rec eval_nat_numeral)
  show ?thesis
    unfolding gdot_f32_def Let_def warp_cols_def if_P [OF refl] v
    by (simp only: fold_concat_map four)
qed

lemma gdot_fast_cols:
  "gdot_fast A f row x cols = warp_reduce_add A (\<lambda>lane. fold (\<lambda>c acc. ar_fma A (val_elem A f row c) (ar_f32 A (x c)) acc)
     (warp_cols f cols lane) (ar_zero A)) 0"
proof (cases "f = F32")
  case True
  then show ?thesis by (simp add: gdot_f32_cols)
next
  case False
  have m: "cols div dot_grain f * dot_grain f = cols div unat (fl_blk_elems f) * (unat (fl_blk_elems f) div 32) * 32"
    using grain_32 [OF False] False by (simp add: dot_grain_def mult.assoc)
  show ?thesis
    unfolding gdot_quant_lanes [OF False] lane_dot_def [abs_def] for_loop_def warp_cols_def if_not_P [OF False] m
    by (rule warp_reduce_cong) (simp add: strided_full fold_map comp_def)
qed

lemma strided_mset:
  assumes "0 < st"
  shows "mset (concat (map (\<lambda>l. strided l st hi) [0..<st])) = mset [0..<hi]"
proof -
  have "distinct (concat (map (\<lambda>l. strided l st hi) [0..<n]))" if "n \<le> st" for n
    using that
  proof (induction n)
    case (Suc n)
    have "c \<notin> set (strided n st hi)" if "c \<in> set (strided l st hi)" "l < n" for c l
      using Suc.prems that by (simp add: strided_set [OF assms])
    then have "set (concat (map (\<lambda>l. strided l st hi) [0..<n])) \<inter> set (strided n st hi) = {}" by auto
    then show ?case using Suc strided_distinct [OF assms] by simp
  qed simp
  then have "distinct (concat (map (\<lambda>l. strided l st hi) [0..<st]))" by simp
  moreover have "set (concat (map (\<lambda>l. strided l st hi) [0..<st])) = set [0..<hi]"
    unfolding set_concat set_map set_upt image_image atLeast0LessThan by (rule strided_cover [OF assms])
  ultimately show ?thesis by (simp only: set_eq_iff_mset_eq_distinct [symmetric] distinct_upt)
qed

lemma mset_concat_map: "mset (concat (map g xs)) = \<Sum>\<^sub># (image_mset (\<lambda>c. mset (g c)) (mset xs))"
  by (induction xs) simp_all

lemma mset_concat_cong: "mset xs = mset ys \<Longrightarrow> mset (concat (map g xs)) = mset (concat (map g ys))"
  by (simp add: mset_concat_map)

lemma concat_fours: "concat (map (\<lambda>c. [4 * c..<4 * c + 4]) [0..<n]) = [0..<4 * n]"
proof (induction n)
  case (Suc n)
  have "[0..<4 * n + 4] = [0..<4 * n] @ [4 * n..<4 * n + 4]" by (rule upt_add_eq_append) simp
  then show ?case using Suc by (simp add: add.commute)
qed simp

text \<open>Every column below the last whole block belongs to one lane.\<close>

lemma warp_cols_cover:
  "mset (concat (map (warp_cols f cols) [0..<32])) = mset [0..<cols div dot_grain f * dot_grain f]"
proof (cases "f = F32")
  case True
  have e: "concat (map (\<lambda>l. concat (map g (s l))) ls) = concat (map g (concat (map s ls)))"
    for g :: "nat \<Rightarrow> nat list" and s :: "nat \<Rightarrow> nat list" and ls by (induction ls) simp_all
  have "mset (concat (map (warp_cols f cols) [0..<32])) = mset (concat (map (\<lambda>c. [4 * c..<4 * c + 4]) [0..<cols div 4]))"
    unfolding warp_cols_def [abs_def] if_P [OF True] e by (rule mset_concat_cong, rule strided_mset) simp
  then show ?thesis unfolding concat_fours using True by (simp add: dot_grain_def mult.commute)
next
  case False
  show ?thesis unfolding warp_cols_def [abs_def] if_not_P [OF False] by (rule strided_mset) simp
qed

lemma fold_fma_ring:
  "fold (\<lambda>c acc. w c * v c + acc) cs a = a + sum_list (map (\<lambda>c. w c * v c) cs)" for w v :: "nat \<Rightarrow> 'a::comm_ring_1"
  by (induction cs arbitrary: a) (simp_all add: algebra_simps)

lemma lanes_sum_list: "(\<Sum>lane<n. sum_list (map F (cs lane))) = sum_list (map F (concat (map cs [0..<n])))"
  for F :: "nat \<Rightarrow> 'a::comm_ring_1"
  by (induction n) simp_all

lemma sum_list_mset_cong: "mset xs = mset ys \<Longrightarrow> sum_list (map F xs) = sum_list (map F ys)"
  for F :: "nat \<Rightarrow> 'a::comm_ring_1"
  by (metis mset_map sum_mset_sum_list)

text \<open>C22: the dequantising GPU kernels compute the dot of the dequantised row. In float arithmetic a
  kernel's value is the shuffle tree over the lanes' chains of fused multiply-adds of exactly the
  elements the canonical dot uses, each column of every whole block in exactly one chain; in exact
  arithmetic it is the sum of element times activation over those columns, for every format.\<close>

theorem gpu_float_dots:
  "gdot_fast f32_arith f row x cols = warp_reduce_add f32_arith (\<lambda>lane.
     fold (\<lambda>c acc. f32_fma (dq_elem f row c) (x c) acc) (warp_cols f cols lane) 0) 0
   \<and> mset (concat (map (warp_cols f cols) [0..<32])) = mset [0..<cols div dot_grain f * dot_grain f]
   \<and> gdot_fast (ring_arith h g) f row x cols
      = (\<Sum>c<cols div dot_grain f * dot_grain f. val_elem (ring_arith h g) f row c * (g (x c) :: 'a::comm_ring_1))"
proof (intro conjI)
  show "gdot_fast f32_arith f row x cols = warp_reduce_add f32_arith (\<lambda>lane.
     fold (\<lambda>c acc. f32_fma (dq_elem f row c) (x c) acc) (warp_cols f cols lane) 0) 0"
    unfolding gdot_fast_cols val_elem_f32 by simp
  show cover: "mset (concat (map (warp_cols f cols) [0..<32])) = mset [0..<cols div dot_grain f * dot_grain f]"
    by (rule warp_cols_cover)
  let ?F = "\<lambda>c. val_elem (ring_arith h g) f row c * g (x c)"
  have "gdot_fast (ring_arith h g) f row x cols = (\<Sum>lane<32. sum_list (map ?F (warp_cols f cols lane)))"
    unfolding gdot_fast_cols warp_reduce_ring by (simp add: fold_fma_ring)
  also have "\<dots> = sum_list (map ?F [0..<cols div dot_grain f * dot_grain f])"
    unfolding lanes_sum_list by (rule sum_list_mset_cong [OF cover])
  finally show "gdot_fast (ring_arith h g) f row x cols = (\<Sum>c<cols div dot_grain f * dot_grain f. ?F c)"
    by (simp only: interv_sum_list_conv_sum_set_nat atLeast0LessThan set_upt)
qed

end
