(* ===== verification/FL_Gpu_I8.thy ===== *)
theory FL_Gpu_I8
  imports FL_Gpu_Dots
begin

text \<open>
  The int8 kernels of \<open>src/runtime/kernels_gpu.h\<close>: a lane multiplies quads of four weights with four
  activations in one \<open>__dp4a\<close> and folds them with the scales of their blocks. The register
  accumulators \<open>a0 \<dots> a3\<close> of a lane are a function from their number.
\<close>

section \<open>Kernels over Q8\_1 activations\<close>

definition gsum2 :: "'a arith \<Rightarrow> (nat \<Rightarrow> 'a) \<Rightarrow> 'a" where "gsum2 A a = ar_add A (a 0) (a 1)"
definition gsum4 :: "'a arith \<Rightarrow> (nat \<Rightarrow> 'a) \<Rightarrow> 'a" where
  "gsum4 A a = ar_add A (ar_add A (a 0) (a 1)) (ar_add A (a 2) (a 3))"

text \<open>\<open>a_k = fmaf(p, v, a_k)\<close>\<close>

definition fma_at :: "'a arith \<Rightarrow> nat \<Rightarrow> 'a \<Rightarrow> 'a \<Rightarrow> (nat \<Rightarrow> 'a) \<Rightarrow> nat \<Rightarrow> 'a" where
  "fma_at A k p v a = a(k := ar_fma A p v (a k))"

definition gdot_i8_q8_0 :: "'a arith \<Rightarrow> bytes \<Rightarrow> q81_vec \<Rightarrow> nat \<Rightarrow> 'a" where
  "gdot_i8_q8_0 A row xq cols =
    (let nb = cols div 32
     in warp_reduce_add A (\<lambda>lane. let bg = lane div 8; k = lane mod 8
          in gsum4 A (for_loop 0 ((nb + 3) div 4) (\<lambda>it a. let b = it * 4 + bg
               in if b < nb
                  then let bp = (\<lambda>i. row (b * 34 + i)); wq = ld_i32_u16al bp (2 + 4 * k); xv = ld_quad (q1_qs (xq b)) k;
                           dw = ar_half A (rd16 bp 0); dx = ar_half A (q1_d (xq b));
                           p = ar_mul A dw dx; v = ar_int A (dp4a wq xv 0)
                       in fma_at A (it mod 4) p v a
                  else a) (\<lambda>_. ar_zero A))) 0)"

definition gdot_i8_q5_0 :: "'a arith \<Rightarrow> bytes \<Rightarrow> q81_vec \<Rightarrow> nat \<Rightarrow> 'a" where
  "gdot_i8_q5_0 A row xq cols =
    (let nb = cols div 32
     in warp_reduce_add A (\<lambda>lane. let bg = lane div 4; k = lane mod 4
          in gsum2 A (for_loop 0 ((nb + 7) div 8) (\<lambda>it a. let b = it * 8 + bg
               in if b < nb
                  then let bp = (\<lambda>i. row (b * 22 + i)); qsv = ld_i32_u16al bp (6 + 4 * k); qh = ld_i32_u16al bp 2;
                           wlo = (qsv AND 0x0F0F0F0F) OR spread4_hi (drop_bit (4 * k) qh);
                           whi = (signed_drop_bit 4 qsv AND 0x0F0F0F0F) OR spread4_hi (drop_bit (16 + 4 * k) qh);
                           xlo = ld_quad (q1_qs (xq b)) k; xhi = ld_quad (q1_qs (xq b)) (4 + k);
                           idot = dp4a wlo xlo (dp4a whi xhi 0);
                           isum = dp4a 0x01010101 xlo (dp4a 0x01010101 xhi 0);
                           dw = ar_half A (rd16 bp 0); dx = ar_half A (q1_d (xq b));
                           p = ar_mul A dw dx; v = ar_int A (idot - 16 * isum)
                       in fma_at A (it mod 2) p v a
                  else a) (\<lambda>_. ar_zero A))) 0)"

definition gdot_i8_q4_K_v1 :: "'a arith \<Rightarrow> bytes \<Rightarrow> q81_vec \<Rightarrow> nat \<Rightarrow> 'a" where
  "gdot_i8_q4_K_v1 A row xq cols =
    warp_reduce_add A (\<lambda>lane. let c = lane div 8; k = lane mod 8
      in gsum4 A (for_loop 0 (cols div 256) (\<lambda>sb a.
           let bp = (\<lambda>i. row (sb * 144 + i)); d = ar_half A (rd16 bp 0); dmin = ar_half A (rd16 bp 2);
               (sc1, mn1) = fl_q4k_scale_min (2 * c + 0) (\<lambda>i. bp (4 + i));
               (sc2, mn2) = fl_q4k_scale_min (2 * c + 1) (\<lambda>i. bp (4 + i));
               wq = rd32 bp (16 + 4 * (c * 8 + k));
               lo = wq AND 0x0F0F0F0F; hi = signed_drop_bit 4 wq AND 0x0F0F0F0F;
               xlo_b = xq (sb * 8 + 2 * c); xhi_b = xq (sb * 8 + 2 * c + 1);
               xlo = ld_quad (q1_qs xlo_b) k; xhi = ld_quad (q1_qs xhi_b) k;
               dxl = ar_half A (q1_d xlo_b); dxh = ar_half A (q1_d xhi_b);
               a = fma_at A 0 (ar_mul A (ar_mul A d (ar_int A (uint sc1))) dxl) (ar_int A (dp4a lo xlo 0)) a;
               a = fma_at A 1 (ar_mul A (ar_neg A (ar_mul A dmin (ar_int A (uint mn1)))) dxl)
                     (ar_int A (dp4a 0x01010101 xlo 0)) a;
               a = fma_at A 2 (ar_mul A (ar_mul A d (ar_int A (uint sc2))) dxh) (ar_int A (dp4a hi xhi 0)) a
           in fma_at A 3 (ar_mul A (ar_neg A (ar_mul A dmin (ar_int A (uint mn2)))) dxh)
                (ar_int A (dp4a 0x01010101 xhi 0)) a) (\<lambda>_. ar_zero A))) 0"

text \<open>The kernel whose scales the leader of each group of eight lanes decodes and broadcasts.\<close>

definition gdot_i8_q4_K :: "'a arith \<Rightarrow> bytes \<Rightarrow> q81_vec \<Rightarrow> nat \<Rightarrow> 'a" where
  "gdot_i8_q4_K A row xq cols =
    warp_reduce_add A (\<lambda>lane. let c = lane div 8; k = lane mod 8
      in for_loop 0 (cols div 256) (\<lambda>sb acc.
           let bp = (\<lambda>i. row (sb * 144 + i)); d = ar_half A (rd16 bp 0); dmin = ar_half A (rd16 bp 2);
               packed = shfl8 0 (\<lambda>l. if l mod 8 = 0
                 then let (sc1, mn1) = fl_q4k_scale_min (2 * (l div 8) + 0) (\<lambda>i. bp (4 + i));
                          (sc2, mn2) = fl_q4k_scale_min (2 * (l div 8) + 1) (\<lambda>i. bp (4 + i))
                      in ucast sc1 OR push_bit 8 (ucast mn1) OR push_bit 16 (ucast sc2) OR push_bit 24 (ucast mn2)
                 else (0 :: u32)) lane;
               sc1 = ar_int A (uint (packed AND 0xFF)); mn1 = ar_int A (uint (drop_bit 8 packed AND 0xFF));
               sc2 = ar_int A (uint (drop_bit 16 packed AND 0xFF)); mn2 = ar_int A (uint (drop_bit 24 packed));
               wq = rd32 bp (16 + 4 * (c * 8 + k));
               lo = wq AND 0x0F0F0F0F; hi = signed_drop_bit 4 wq AND 0x0F0F0F0F;
               xlo_b = xq (sb * 8 + 2 * c); xhi_b = xq (sb * 8 + 2 * c + 1);
               xlo = ld_quad (q1_qs xlo_b) k; xhi = ld_quad (q1_qs xhi_b) k;
               acc = ar_fma A (ar_mul A (ar_mul A d sc1) (ar_half A (q1_d xlo_b))) (ar_int A (dp4a lo xlo 0)) acc;
               acc = ar_fma A (ar_mul A (ar_mul A d sc2) (ar_half A (q1_d xhi_b))) (ar_int A (dp4a hi xhi 0)) acc
           in if k = 0
              then let acc = ar_fma A (ar_neg A (ar_mul A dmin mn1)) (ar_half A (q1_s xlo_b)) acc
                   in ar_fma A (ar_neg A (ar_mul A dmin mn2)) (ar_half A (q1_s xhi_b)) acc
              else acc) (ar_zero A)) 0"

text \<open>The quad of 6-bit weights a lane of span \<open>s\<close> composes from nibbles and high bits.\<close>

definition q6_quad :: "bytes \<Rightarrow> nat \<Rightarrow> nat \<Rightarrow> nat \<Rightarrow> u32" where
  "q6_quad bp h s k =
    (let qlv = ld_i32_u16al bp (h * 64 + (s mod 2) * 32 + 4 * k); qhv = ld_i32_u16al bp (128 + h * 32 + 4 * k);
         nib = (if s < 2 then qlv AND 0x0F0F0F0F else signed_drop_bit 4 qlv AND 0x0F0F0F0F);
         hb = signed_drop_bit (2 * s) qhv AND 0x03030303
     in nib OR push_bit 4 hb)"

definition gdot_i8_q6_K :: "'a arith \<Rightarrow> bytes \<Rightarrow> q81_vec \<Rightarrow> nat \<Rightarrow> 'a" where
  "gdot_i8_q6_K A row xq cols =
    warp_reduce_add A (\<lambda>lane. let s = lane div 8; k = lane mod 8
      in gsum4 A (for_loop 0 (cols div 256) (\<lambda>sb a.
           let bp = (\<lambda>i. row (sb * 210 + i)); dw = ar_half A (rd16 bp 208)
           in for_loop 0 2 (\<lambda>h a.
                let wq = q6_quad bp h s k; xb = xq (sb * 8 + h * 4 + s); xv = ld_quad (q1_qs xb) k;
                    idot = dp4a wq xv 0; isum = dp4a 0x01010101 xv 0;
                    sc = sint (bp (192 + (h * 8 + 2 * s + (if 4 \<le> k then 1 else 0))));
                    p = ar_mul A dw (ar_half A (q1_d xb)); v = ar_int A (sc * (idot - 32 * isum))
                in fma_at A ((2 * sb + h) mod 4) p v a) a) (\<lambda>_. ar_zero A))) 0"

definition gdot_i8_iq2_xxs :: "'a arith \<Rightarrow> bytes \<Rightarrow> q81_vec \<Rightarrow> nat \<Rightarrow> 'a" where
  "gdot_i8_iq2_xxs A row xq cols =
    warp_reduce_add A (\<lambda>lane. let ib = lane div 8; k = lane mod 8
      in gsum2 A (for_loop 0 (cols div 256) (\<lambda>sb a.
           let bp = (\<lambda>i. row (sb * 66 + i)); d = ar_half A (rd16 bp 0)
           in for_loop 0 2 (\<lambda>half a.
                let ib32 = half * 4 + ib; q = 2 + 8 * ib32; w0 = ld_i32_u16al bp q; w1 = ld_i32_u16al bp (q + 4);
                    l = k div 2; sel = k mod 2;
                    g = fl_kIq2xxsGrid (unat (drop_bit (8 * l) w0 AND 0xFF));
                    vq = (ucast (if sel \<noteq> 0 then drop_bit 32 g else g) :: u32);
                    sg = (ucast (fl_kIqSigns (unat (drop_bit (7 * l) w1 AND 127))) :: u32);
                    neg = sign_mask4 sg (4 * sel); wq = (vq XOR neg) + (neg AND 0x01010101);
                    b = sb * 8 + ib32; xv = ld_quad (q1_qs (xq b)) k;
                    db = ar_mul A (ar_mul A d (ar_add A (ar_f32 A fl_half_const) (ar_int A (uint (drop_bit 28 w1)))))
                           (ar_f32 A fl_quarter_const);
                    p = ar_mul A db (ar_half A (q1_d (xq b))); v = ar_int A (dp4a wq xv 0)
                in fma_at A half p v a) a) (\<lambda>_. ar_zero A))) 0"

definition gdot_i8_iq3_xxs :: "'a arith \<Rightarrow> bytes \<Rightarrow> q81_vec \<Rightarrow> nat \<Rightarrow> 'a" where
  "gdot_i8_iq3_xxs A row xq cols =
    warp_reduce_add A (\<lambda>lane. let ib = lane div 8; k = lane mod 8
      in gsum2 A (for_loop 0 (cols div 256) (\<lambda>sb a.
           let bp = (\<lambda>i. row (sb * 98 + i)); d = ar_half A (rd16 bp 0)
           in for_loop 0 2 (\<lambda>half a.
                let ib32 = half * 4 + ib; w1 = ld_i32_u16al bp (2 + 64 + 4 * ib32);
                    vq = fl_kIq3xxsGrid (unat (bp (2 + 8 * ib32 + k)));
                    sg = (ucast (fl_kIqSigns (unat (drop_bit (7 * (k div 2)) w1 AND 127))) :: u32);
                    neg = sign_mask4 sg (4 * (k mod 2)); wq = (vq XOR neg) + (neg AND 0x01010101);
                    b = sb * 8 + ib32; xv = ld_quad (q1_qs (xq b)) k;
                    db = ar_mul A (ar_mul A d (ar_add A (ar_f32 A fl_half_const) (ar_int A (uint (drop_bit 28 w1)))))
                           (ar_f32 A fl_half_const);
                    p = ar_mul A db (ar_half A (q1_d (xq b))); v = ar_int A (dp4a wq xv 0)
                in fma_at A half p v a) a) (\<lambda>_. ar_zero A))) 0"

section \<open>Kernels over Q8\_K activations\<close>

text \<open>The payload loads of a superblock, and the fold that consumes them.\<close>

definition q4k_load :: "bytes \<Rightarrow> q8K_vec \<Rightarrow> nat \<Rightarrow> nat \<Rightarrow> nat \<Rightarrow> u32 \<times> u32 \<times> u32" where
  "q4k_load row xk c k sb =
    (rd32 (\<lambda>i. row (sb * 144 + i)) (16 + 4 * (c * 8 + k)),
     ld_quad (drop (2 * c * 32) (qK_qs (xk sb))) k, ld_quad (drop ((2 * c + 1) * 32) (qK_qs (xk sb))) k)"

definition q4k_iacc_lane :: "bytes \<Rightarrow> nat \<Rightarrow> u32 \<times> u32 \<times> u32 \<Rightarrow> int" where
  "q4k_iacc_lane bp c = (\<lambda>(wq, xlo, xhi).
    let (sc1, mn1) = fl_q4k_scale_min (2 * c + 0) (\<lambda>i. bp (4 + i));
        (sc2, mn2) = fl_q4k_scale_min (2 * c + 1) (\<lambda>i. bp (4 + i));
        lo = wq AND 0x0F0F0F0F; hi = signed_drop_bit 4 wq AND 0x0F0F0F0F
    in uint sc1 * dp4a lo xlo 0 + uint sc2 * dp4a hi xhi 0)"

definition q4k_imins_lane :: "bytes \<Rightarrow> nat \<Rightarrow> blk_q8_K \<Rightarrow> int" where
  "q4k_imins_lane bp c xb =
    (let (sc1, mn1) = fl_q4k_scale_min (2 * c + 0) (\<lambda>i. bp (4 + i));
         (sc2, mn2) = fl_q4k_scale_min (2 * c + 1) (\<lambda>i. bp (4 + i))
     in uint mn1 * (qK_bsums xb ! (4 * c) + qK_bsums xb ! (4 * c + 1))
        + uint mn2 * (qK_bsums xb ! (4 * c + 2) + qK_bsums xb ! (4 * c + 3)))"

definition q4k_fold :: "'a arith \<Rightarrow> bytes \<Rightarrow> q8K_vec \<Rightarrow> nat \<Rightarrow> nat \<Rightarrow> nat \<Rightarrow> u32 \<times> u32 \<times> u32 \<Rightarrow> 'a \<times> 'a \<Rightarrow> 'a \<times> 'a" where
  "q4k_fold A row xk c k sb ld = (\<lambda>(a0, a1).
    let bp = (\<lambda>i. row (sb * 144 + i)); d = ar_half A (rd16 bp 0); dmin = ar_half A (rd16 bp 2); dk = ar_f32 A (qK_d (xk sb));
        a0 = ar_fma A (ar_mul A d dk) (ar_int A (q4k_iacc_lane bp c ld)) a0
    in if k = 0 then (a0, ar_fma A (ar_neg A (ar_mul A dmin dk)) (ar_int A (q4k_imins_lane bp c (xk sb))) a1)
       else (a0, a1))"

text \<open>\<open>U\<close> is \<open>FASTLLM_Q4K_UNROLL\<close>: above one, the loads of \<open>U\<close> superblocks precede their folds.\<close>

definition gdot_i8k_q4_K :: "'a arith \<Rightarrow> nat \<Rightarrow> bytes \<Rightarrow> q8K_vec \<Rightarrow> nat \<Rightarrow> 'a" where
  "gdot_i8k_q4_K A U row xk cols =
    (let nsb = cols div 256
     in warp_reduce_add A (\<lambda>lane. let c = lane div 8; k = lane mod 8;
            n = (if 1 < U then nsb div U else 0);
            s = for_loop 0 n (\<lambda>i s. let lds = map (\<lambda>u. q4k_load row xk c k (i * U + u)) [0..<U]
                  in for_loop 0 U (\<lambda>u. q4k_fold A row xk c k (i * U + u) (lds ! u)) s) (ar_zero A, ar_zero A);
            (a0, a1) = for_loop (n * U) nsb (\<lambda>sb. q4k_fold A row xk c k sb (q4k_load row xk c k sb)) s
          in ar_add A a0 a1) 0)"

definition gdot_i8k_q6_K :: "'a arith \<Rightarrow> bytes \<Rightarrow> q8K_vec \<Rightarrow> nat \<Rightarrow> 'a" where
  "gdot_i8k_q6_K A row xk cols =
    warp_reduce_add A (\<lambda>lane. let s = lane div 8; k = lane mod 8
      in for_loop 0 (cols div 256) (\<lambda>sb acc.
           let bp = (\<lambda>i. row (sb * 210 + i)); dw = ar_half A (rd16 bp 208); dk = ar_f32 A (qK_d (xk sb));
               isb = for_loop 0 2 (\<lambda>h isb.
                 let wq = q6_quad bp h s k; g16 = (if 4 \<le> k then 1 else 0);
                     sc = sint (bp (192 + (h * 8 + 2 * s + g16)));
                     xv = ld_quad (drop ((h * 4 + s) * 32) (qK_qs (xk sb))) k;
                     tpart = sc * dp4a wq xv 0;
                     tpart = (if k mod 4 = 0 then tpart - sc * 32 * (qK_bsums (xk sb) ! (2 * (h * 4 + s) + g16)) else tpart)
                 in isb + tpart) 0
           in ar_fma A (ar_mul A dw dk) (ar_int A isb) acc) (ar_zero A)) 0"

text \<open>Several columns: the weights are decoded once per superblock for up to four columns.\<close>

definition gdot_i8k_q4_K_mc :: "'a arith \<Rightarrow> bytes \<Rightarrow> (nat \<Rightarrow> q8K_vec) \<Rightarrow> nat \<Rightarrow> nat \<Rightarrow> nat \<Rightarrow> 'a" where
  "gdot_i8k_q4_K_mc A row xk nx cols =
    for_loop 0 ((nx + 3) div 4) (\<lambda>i out.
      let p0 = i * 4; pc = (if nx - p0 < 4 then nx - p0 else 4);
          acc = (\<lambda>lane. let c = lane div 8; k = lane mod 8
            in for_loop 0 (cols div 256) (\<lambda>sb st.
              let bp = (\<lambda>i. row (sb * 144 + i)); d = ar_half A (rd16 bp 0); dmin = ar_half A (rd16 bp 2);
                  (sc1, mn1) = fl_q4k_scale_min (2 * c + 0) (\<lambda>i. bp (4 + i));
                  (sc2, mn2) = fl_q4k_scale_min (2 * c + 1) (\<lambda>i. bp (4 + i));
                  wq = rd32 bp (16 + 4 * (c * 8 + k)); lo = wq AND 0x0F0F0F0F; hi = signed_drop_bit 4 wq AND 0x0F0F0F0F
              in for_loop 0 pc (\<lambda>pp (a0, a1).
                   let xb = xk (p0 + pp) sb; dk = ar_f32 A (qK_d xb);
                       xlo = ld_quad (drop (2 * c * 32) (qK_qs xb)) k; xhi = ld_quad (drop ((2 * c + 1) * 32) (qK_qs xb)) k;
                       iacc = uint sc1 * dp4a lo xlo 0 + uint sc2 * dp4a hi xhi 0;
                       a0 = a0(pp := ar_fma A (ar_mul A d dk) (ar_int A iacc) (a0 pp))
                   in if k = 0
                      then let imins = uint mn1 * (qK_bsums xb ! (4 * c) + qK_bsums xb ! (4 * c + 1))
                                 + uint mn2 * (qK_bsums xb ! (4 * c + 2) + qK_bsums xb ! (4 * c + 3))
                           in (a0, a1(pp := ar_fma A (ar_neg A (ar_mul A dmin dk)) (ar_int A imins) (a1 pp)))
                      else (a0, a1)) st) (\<lambda>_. ar_zero A, \<lambda>_. ar_zero A))
      in for_loop 0 pc (\<lambda>pp out. out(p0 + pp := warp_reduce_add A (\<lambda>lane. ar_add A (fst (acc lane) pp) (snd (acc lane) pp)) 0)) out)
      (\<lambda>_. ar_zero A)"

section \<open>Dispatch\<close>

definition gdot_i8 :: "'a arith \<Rightarrow> nat \<Rightarrow> u32 \<Rightarrow> fmt \<Rightarrow> bytes \<Rightarrow> fvec \<Rightarrow> q81_vec \<Rightarrow> q8K_vec \<Rightarrow> nat \<Rightarrow> 'a" where
  "gdot_i8 A U i8k_mask f row x xq xk cols =
    (if (f = Q4_K \<or> f = Q6_K) \<and> mask_bit i8k_mask f
     then if f = Q4_K then gdot_i8k_q4_K A U row xk cols else gdot_i8k_q6_K A row xk cols
     else case f of
       Q8_0 \<Rightarrow> gdot_i8_q8_0 A row xq cols
     | Q5_0 \<Rightarrow> gdot_i8_q5_0 A row xq cols
     | Q4_K \<Rightarrow> gdot_i8_q4_K_v1 A row xq cols
     | Q6_K \<Rightarrow> gdot_i8_q6_K A row xq cols
     | IQ2_XXS \<Rightarrow> gdot_i8_iq2_xxs A row xq cols
     | IQ3_XXS \<Rightarrow> gdot_i8_iq3_xxs A row xq cols
     | F32 \<Rightarrow> gdot_f32 A row x cols)"

section \<open>Sums over lanes, quads and blocks\<close>

lemma sum_upto_add: "(\<Sum>i<m + n. f i) = (\<Sum>i<m. f i) + (\<Sum>i<n. f (m + i))" for f :: "nat \<Rightarrow> 'a::comm_monoid_add"
  by (induction n) (simp_all add: add.assoc)

lemma sum_blocks: "(\<Sum>i<n * m. f i) = (\<Sum>b<n. \<Sum>k<m. f (b * m + k))" for f :: "nat \<Rightarrow> 'a::comm_monoid_add"
proof (induction n)
  case (Suc n)
  have "Suc n * m = n * m + m" by simp
  then show ?case using Suc by (simp only: sum_upto_add sum.lessThan_Suc)
qed simp

lemma sum_lanes: "(\<Sum>lane<n * m. F (lane div m) (lane mod m)) = (\<Sum>b<n. \<Sum>k<m. F b k)" for F :: "nat \<Rightarrow> nat \<Rightarrow> 'a::comm_monoid_add"
  unfolding sum_blocks by (intro sum.cong refl) simp

lemma sum_quads: "(\<Sum>k<8. \<Sum>i<4. f (4 * k + i)) = (\<Sum>i<32. f i)" for f :: "nat \<Rightarrow> 'a::comm_monoid_add"
  using sum_blocks [of f 8 4] by (simp add: mult.commute)

lemma warp_lanes:
  "(\<Sum>lane<32. \<Sum>sb<n. F sb (lane div 8) (lane mod 8)) = (\<Sum>sb<n. \<Sum>c<4. \<Sum>k<8. F sb c k)" for F :: "nat \<Rightarrow> nat \<Rightarrow> nat \<Rightarrow> 'a::comm_monoid_add"
proof -
  have "(\<Sum>lane<4 * 8. \<Sum>sb<n. F sb (lane div 8) (lane mod 8)) = (\<Sum>sb<n. \<Sum>lane<4 * 8. F sb (lane div 8) (lane mod 8))"
    by (rule sum.swap)
  also have "\<dots> = (\<Sum>sb<n. \<Sum>c<4. \<Sum>k<8. F sb c k)" by (rule sum.cong [OF refl], rule sum_lanes)
  finally show ?thesis by simp
qed

text \<open>Blocks dealt to groups of lanes, the last round possibly partial.\<close>

lemma warp_blocks:
  fixes T :: "nat \<Rightarrow> nat \<Rightarrow> 'a::comm_monoid_add"
  assumes B: "0 < B"
  shows "(\<Sum>lane<B * K. \<Sum>it<(nb + (B - 1)) div B. if it * B + lane div K < nb then T (it * B + lane div K) (lane mod K) else 0)
    = (\<Sum>b<nb. \<Sum>k<K. T b k)"
proof -
  let ?n = "(nb + (B - 1)) div B" and ?U = "\<lambda>b. if b < nb then \<Sum>k<K. T b k else 0"
  have "(\<Sum>lane<B * K. \<Sum>it<?n. if it * B + lane div K < nb then T (it * B + lane div K) (lane mod K) else 0)
      = (\<Sum>it<?n. \<Sum>lane<B * K. (\<lambda>g k. if it * B + g < nb then T (it * B + g) k else 0) (lane div K) (lane mod K))"
    by (rule sum.swap)
  also have "\<dots> = (\<Sum>it<?n. \<Sum>g<B. \<Sum>k<K. if it * B + g < nb then T (it * B + g) k else 0)"
    by (rule sum.cong [OF refl], rule sum_lanes)
  also have "\<dots> = (\<Sum>it<?n. \<Sum>g<B. ?U (it * B + g))" by (intro sum.cong refl) simp
  also have "\<dots> = (\<Sum>b<?n * B. ?U b)" by (rule sum_blocks [symmetric])
  also have "\<dots> = (\<Sum>b<nb. ?U b)"
  proof (rule sum.mono_neutral_right)
    have "nb \<le> ?n * B"
    proof -
      have "nb + (B - 1) = ?n * B + (nb + (B - 1)) mod B" by simp
      moreover have "(nb + (B - 1)) mod B \<le> B - 1" using mod_less_divisor [OF B, of "nb + (B - 1)"] by linarith
      ultimately show ?thesis by linarith
    qed
    then show "{..<nb} \<subseteq> {..<?n * B}" by auto
  qed simp_all
  also have "\<dots> = (\<Sum>b<nb. \<Sum>k<K. T b k)" by (intro sum.cong refl) simp
  finally show ?thesis .
qed

lemmas warp_blocks_4_8 = warp_blocks [of 4 8, simplified]
lemmas warp_blocks_8_4 = warp_blocks [of 8 4, simplified]

lemma for_loop_measure:
  fixes m :: "'s \<Rightarrow> 'a::comm_monoid_add"
  assumes "\<And>i s. i < n \<Longrightarrow> m (body i s) = m s + t i"
  shows "m (for_loop 0 n body s) = m s + (\<Sum>i<n. t i)"
  using assms by (induction n) (simp_all add: for_loop_last add.assoc)

lemma gsum4_fma: "k < 4 \<Longrightarrow> gsum4 (ring_arith h g) (fma_at (ring_arith h g) k p v a) = gsum4 (ring_arith h g) a + p * v"
  using four_cases [of k] by (auto simp: gsum4_def fma_at_def algebra_simps)

lemma gsum2_fma: "k < 2 \<Longrightarrow> gsum2 (ring_arith h g) (fma_at (ring_arith h g) k p v a) = gsum2 (ring_arith h g) a + p * v"
  by (cases "k = 0") (auto simp: gsum2_def fma_at_def algebra_simps less_2_cases_iff)

lemma gsum_zero: "gsum4 (ring_arith h g) (\<lambda>_. 0) = 0" "gsum2 (ring_arith h g) (\<lambda>_. 0) = 0"
  by (simp_all add: gsum4_def gsum2_def)

lemma gsum4_loop:
  assumes "\<And>i a. i < n \<Longrightarrow> gsum4 (ring_arith h g) (body i a) = gsum4 (ring_arith h g) a + t i"
  shows "gsum4 (ring_arith h g) (for_loop 0 n body (\<lambda>_. ar_zero (ring_arith h g))) = (\<Sum>i<n. t i)"
  using for_loop_measure [of n "gsum4 (ring_arith h g)" body t, OF assms] by (simp add: gsum_zero)

lemma gsum2_loop:
  assumes "\<And>i a. i < n \<Longrightarrow> gsum2 (ring_arith h g) (body i a) = gsum2 (ring_arith h g) a + t i"
  shows "gsum2 (ring_arith h g) (for_loop 0 n body (\<lambda>_. ar_zero (ring_arith h g))) = (\<Sum>i<n. t i)"
  using for_loop_measure [of n "gsum2 (ring_arith h g)" body t, OF assms] by (simp add: gsum_zero)

section \<open>Quads\<close>

definition quad_ok :: "int list \<Rightarrow> nat \<Rightarrow> bool" where
  "quad_ok qs k \<longleftrightarrow> (\<forall>i<4. \<bar>qs ! (4 * k + i)\<bar> \<le> 127)"

lemma dp4a_quad:
  assumes "quad_ok qs k" and "\<And>i. i < 4 \<Longrightarrow> sint (byte_of w i) = f i"
  shows "dp4a w (ld_quad qs k) c = c + (\<Sum>i<4. f i * qs ! (4 * k + i))"
  unfolding dp4a_sum using assms by (simp add: quad_ok_def sint_byte_quad cong: sum.cong_simp)

lemma dp4a_ones:
  assumes "quad_ok qs k"
  shows "dp4a 0x01010101 (ld_quad qs k) c = c + (\<Sum>i<4. qs ! (4 * k + i))"
  using dp4a_quad [OF assms, of "0x01010101" "\<lambda>_. 1" c] by (simp add: byte_masks)

lemma quad_ok_32: "qs_ok 32 qs \<Longrightarrow> k < 8 \<Longrightarrow> quad_ok qs k"
  unfolding quad_ok_def using qs_ok_nth [of 32 qs] by simp

lemma quad_ok_256:
  assumes "qs_ok 256 qs" "k < 8" "g < 8"
  shows "quad_ok (drop (g * 32) qs) k"
  unfolding quad_ok_def using assms qs_ok_nth [of 256 qs] by (simp add: qs_ok_def)

text \<open>The value of an activation.\<close>

definition xval8 :: "(f16 \<Rightarrow> 'a) \<Rightarrow> q81_vec \<Rightarrow> nat \<Rightarrow> 'a::comm_ring_1" where
  "xval8 h xq c = h (q1_d (xq (c div 32))) * of_int (q1_qs (xq (c div 32)) ! (c mod 32))"

definition xvalK :: "(f32 \<Rightarrow> 'a) \<Rightarrow> q8K_vec \<Rightarrow> nat \<Rightarrow> 'a::comm_ring_1" where
  "xvalK g xk c = g (qK_d (xk (c div 256))) * of_int (qK_qs (xk (c div 256)) ! (c mod 256))"

lemma xval8_at: "i < 32 \<Longrightarrow> xval8 h xq (32 * b + i) = h (q1_d (xq b)) * of_int (q1_qs (xq b) ! i)"
  by (simp add: xval8_def)

section \<open>Exactness\<close>

text \<open>Both sides of an exact dot, block by block.\<close>

lemma exact_block_sum:
  "(\<Sum>c<nb * 32. f c) = (\<Sum>b<nb. \<Sum>i<32. f (32 * b + i))" for f :: "nat \<Rightarrow> 'a::comm_ring_1"
  unfolding sum_blocks by (simp add: mult.commute)

lemma i8_q8_0_exact:
  assumes q: "\<And>b. b < cols div 32 \<Longrightarrow> qs_ok 32 (q1_qs (xq b))"
  shows "gdot_i8_q8_0 (ring_arith h g) row xq cols
    = (\<Sum>c<cols div 32 * 32. val_elem (ring_arith h g) Q8_0 row c * xval8 h xq c :: 'a::comm_ring_1)"
proof -
  let ?R = "ring_arith h g" and ?nb = "cols div 32"
  define T where "T b k = h (rd16 (\<lambda>i. row (b * 34 + i)) 0) * h (q1_d (xq b))
    * of_int (dp4a (ld_i32_u16al (\<lambda>i. row (b * 34 + i)) (2 + 4 * k)) (ld_quad (q1_qs (xq b)) k) 0)" for b k
  have "gdot_i8_q8_0 ?R row xq cols
      = (\<Sum>lane<32. \<Sum>it<(?nb + 3) div 4. if it * 4 + lane div 8 < ?nb then T (it * 4 + lane div 8) (lane mod 8) else 0)"
    unfolding gdot_i8_q8_0_def Let_def [of "cols div 32"] warp_reduce_ring Let_def [of "_ div 8"] Let_def [of "_ mod 8"]
    by (rule sum.cong [OF refl], rule gsum4_loop) (simp add: Let_def gsum4_fma T_def)
  also have "\<dots> = (\<Sum>b<?nb. \<Sum>k<8. T b k)" by (rule warp_blocks_4_8)
  also have "\<dots> = (\<Sum>b<?nb. \<Sum>i<32. val_elem ?R Q8_0 row (32 * b + i) * xval8 h xq (32 * b + i))"
  proof (rule sum.cong [OF refl])
    fix b assume b: "b \<in> {..<?nb}"
    define W where "W = (\<lambda>i. row (b * 34 + i))"
    let ?F = "\<lambda>i. sint (W (2 + i)) * q1_qs (xq b) ! i"
    have "T b k = h (rd16 W 0) * h (q1_d (xq b)) * of_int (\<Sum>i<4. ?F (4 * k + i))" if k: "k < 8" for k
      unfolding T_def W_def [symmetric] ld_i32_rd32
      using dp4a_quad [OF quad_ok_32 [OF q k], of b "rd32 W (2 + 4 * k)" "\<lambda>i. sint (W (2 + (4 * k + i)))" 0] b
      by (simp add: add.assoc)
    then have "(\<Sum>k<8. T b k) = (\<Sum>k<8. h (rd16 W 0) * h (q1_d (xq b)) * of_int (\<Sum>i<4. ?F (4 * k + i)))" by simp
    also have "\<dots> = h (rd16 W 0) * h (q1_d (xq b)) * of_int (\<Sum>i<32. ?F i)"
      unfolding sum_quads [symmetric] by (simp add: sum_distrib_left)
    also have "\<dots> = (\<Sum>i<32. h (rd16 W 0) * of_int (sint (W (2 + i))) * (h (q1_d (xq b)) * of_int (q1_qs (xq b) ! i)))"
      by (simp add: sum_distrib_left algebra_simps)
    also have "\<dots> = (\<Sum>i<32. val_elem ?R Q8_0 row (32 * b + i) * xval8 h xq (32 * b + i))"
      using val_elem_at [of Q8_0 1 0 _ ?R row b]
      by (intro sum.cong refl) (simp add: xval8_at val_block.simps W_def)
    finally show "(\<Sum>k<8. T b k) = (\<Sum>i<32. val_elem ?R Q8_0 row (32 * b + i) * xval8 h xq (32 * b + i))" .
  qed
  finally show ?thesis unfolding exact_block_sum .
qed

lemma scaled_quads:
  fixes T :: "nat \<Rightarrow> 'a::comm_ring_1" and F :: "nat \<Rightarrow> int"
  assumes "\<And>k. k < 8 \<Longrightarrow> T k = p * of_int (\<Sum>i<4. F (4 * k + i))"
  shows "(\<Sum>k<8. T k) = p * of_int (\<Sum>i<32. F i)"
proof -
  have "(\<Sum>k<8. T k) = (\<Sum>k<8. p * of_int (\<Sum>i<4. F (4 * k + i)))" using assms by simp
  then show ?thesis unfolding sum_quads [symmetric] by (simp add: sum_distrib_left)
qed

lemma and_single_bit: "x AND 2 ^ n = (if bit x n then 2 ^ n else 0)" for x :: "'a::len word"
  by (rule bit_word_eqI) (auto simp: bit_and_iff bit_exp_iff)

lemma and_16: "x AND 0x10 = (if bit x 4 then 0x10 else 0)" for x :: u32
  using and_single_bit [of x 4] by simp

lemma fifth_bit:
  "(if bit qh j then 0x10 else 0) = (ucast (push_bit 4 (drop_bit j qh) AND 0x10) :: u8)"
  "(if bit qh (16 + j) then 0x10 else 0) = (ucast (drop_bit (j + 12) qh AND 0x10) :: u8)" for qh :: u32
proof -
  have "bit (push_bit 4 (drop_bit j qh)) 4 = bit qh j" by (simp add: bit_push_bit_iff bit_drop_bit_eq)
  then show "(if bit qh j then 0x10 else 0) = (ucast (push_bit 4 (drop_bit j qh) AND 0x10) :: u8)" unfolding and_16 by simp
  have "j + 12 + 4 = 16 + j" by simp
  then have "bit (drop_bit (j + 12) qh) 4 = bit qh (16 + j)" by (simp only: bit_drop_bit_eq comp_def)
  then show "(if bit qh (16 + j) then 0x10 else 0) = (ucast (drop_bit (j + 12) qh AND 0x10) :: u8)" unfolding and_16 by simp
qed

lemma q5_lane_sint:
  "sint ((B (6 + j) AND 0x0F) OR (if bit (rd32 B 2) j then 0x10 else 0)) = q5_lo B j + 16"
  "sint (drop_bit 4 (B (6 + j)) OR (if bit (rd32 B 2) (16 + j) then 0x10 else 0)) = q5_hi B j + 16"
proof -
  show "sint ((B (6 + j) AND 0x0F) OR (if bit (rd32 B 2) j then 0x10 else 0)) = q5_lo B j + 16"
    unfolding fifth_bit(1) q5_bits_sint(1) [unfolded ucast_or_u8 q5_wide] by (simp add: q5_lo_def Let_def)
  show "sint (drop_bit 4 (B (6 + j)) OR (if bit (rd32 B 2) (16 + j) then 0x10 else 0)) = q5_hi B j + 16"
    unfolding fifth_bit(2) q5_bits_sint(2) [unfolded ucast_or_u8 q5_wide] by (simp add: q5_hi_def Let_def)
qed

definition q5_word :: "bytes \<Rightarrow> nat \<Rightarrow> int" where "q5_word B i = (if i < 16 then q5_lo B i else q5_hi B (i - 16))"

lemma q5_lane_bytes:
  assumes i: "i < 4"
  shows "sint (byte_of ((rd32 B (6 + 4 * k) AND 0x0F0F0F0F) OR spread4_hi (drop_bit (4 * k) (rd32 B 2))) i) = q5_lo B (4 * k + i) + 16"
    "sint (byte_of ((signed_drop_bit 4 (rd32 B (6 + 4 * k)) AND 0x0F0F0F0F) OR spread4_hi (drop_bit (16 + 4 * k) (rd32 B 2))) i)
      = q5_hi B (4 * k + i) + 16"
proof -
  have a: "6 + 4 * k + i = 6 + (4 * k + i)" by simp
  show "sint (byte_of ((rd32 B (6 + 4 * k) AND 0x0F0F0F0F) OR spread4_hi (drop_bit (4 * k) (rd32 B 2))) i) = q5_lo B (4 * k + i) + 16"
    unfolding byte_of_or byte_of_lo_nib [OF i] byte_of_spread [OF i] byte_of_rd32 [OF i] bit_drop_bit_eq comp_def a
    by (rule q5_lane_sint)
  show "sint (byte_of ((signed_drop_bit 4 (rd32 B (6 + 4 * k)) AND 0x0F0F0F0F) OR spread4_hi (drop_bit (16 + 4 * k) (rd32 B 2))) i)
      = q5_hi B (4 * k + i) + 16"
    unfolding byte_of_or byte_of_hi_nib [OF i] byte_of_spread [OF i] byte_of_rd32 [OF i] bit_drop_bit_eq comp_def a add.assoc [of 16]
    by (rule q5_lane_sint)
qed

lemma q5_lane_int:
  assumes q: "qs_ok 32 qs" and k: "k < 4"
  shows "dp4a ((rd32 B (6 + 4 * k) AND 0x0F0F0F0F) OR spread4_hi (drop_bit (4 * k) (rd32 B 2))) (ld_quad qs k)
      (dp4a ((signed_drop_bit 4 (rd32 B (6 + 4 * k)) AND 0x0F0F0F0F) OR spread4_hi (drop_bit (16 + 4 * k) (rd32 B 2))) (ld_quad qs (4 + k)) 0)
      - 16 * dp4a 0x01010101 (ld_quad qs k) (dp4a 0x01010101 (ld_quad qs (4 + k)) 0)
    = (\<Sum>i<4. q5_lo B (4 * k + i) * qs ! (4 * k + i)) + (\<Sum>i<4. q5_hi B (4 * k + i) * qs ! (16 + (4 * k + i)))"
proof -
  have ok: "quad_ok qs k" "quad_ok qs (4 + k)" using k by (simp_all add: quad_ok_32 [OF q])
  have e: "qs ! (4 * (4 + k) + i) = qs ! (16 + (4 * k + i))" for i by (simp add: add.assoc)
  have lo: "dp4a ((rd32 B (6 + 4 * k) AND 0x0F0F0F0F) OR spread4_hi (drop_bit (4 * k) (rd32 B 2))) (ld_quad qs k) c
      = c + (\<Sum>i<4. (q5_lo B (4 * k + i) + 16) * qs ! (4 * k + i))" for c
    by (rule dp4a_quad [OF ok(1) q5_lane_bytes(1)])
  have hi: "dp4a ((signed_drop_bit 4 (rd32 B (6 + 4 * k)) AND 0x0F0F0F0F) OR spread4_hi (drop_bit (16 + 4 * k) (rd32 B 2)))
        (ld_quad qs (4 + k)) c
      = c + (\<Sum>i<4. (q5_hi B (4 * k + i) + 16) * qs ! (16 + (4 * k + i)))" for c
    using dp4a_quad [OF ok(2) q5_lane_bytes(2)] unfolding e .
  show ?thesis
    unfolding lo hi dp4a_ones [OF ok(1)] dp4a_ones [OF ok(2)] e
    by (simp add: distrib_right sum.distrib sum_distrib_left)
qed

lemma i8_q5_0_exact:
  assumes q: "\<And>b. b < cols div 32 \<Longrightarrow> qs_ok 32 (q1_qs (xq b))"
  shows "gdot_i8_q5_0 (ring_arith h g) row xq cols
    = (\<Sum>c<cols div 32 * 32. val_elem (ring_arith h g) Q5_0 row c * xval8 h xq c :: 'a::comm_ring_1)"
proof -
  let ?R = "ring_arith h g" and ?nb = "cols div 32"
  define W where "W b = (\<lambda>i. row (b * 22 + i))" for b
  define T where "T b k = h (rd16 (W b) 0) * h (q1_d (xq b)) * of_int
     (dp4a ((rd32 (W b) (6 + 4 * k) AND 0x0F0F0F0F) OR spread4_hi (drop_bit (4 * k) (rd32 (W b) 2))) (ld_quad (q1_qs (xq b)) k)
      (dp4a ((signed_drop_bit 4 (rd32 (W b) (6 + 4 * k)) AND 0x0F0F0F0F) OR spread4_hi (drop_bit (16 + 4 * k) (rd32 (W b) 2)))
         (ld_quad (q1_qs (xq b)) (4 + k)) 0)
      - 16 * dp4a 0x01010101 (ld_quad (q1_qs (xq b)) k) (dp4a 0x01010101 (ld_quad (q1_qs (xq b)) (4 + k)) 0))" for b k
  have "gdot_i8_q5_0 ?R row xq cols
      = (\<Sum>lane<32. \<Sum>it<(?nb + 7) div 8. if it * 8 + lane div 4 < ?nb then T (it * 8 + lane div 4) (lane mod 4) else 0)"
    unfolding gdot_i8_q5_0_def Let_def [of "cols div 32"] warp_reduce_ring Let_def [of "_ div 4"] Let_def [of "_ mod 4"]
    by (rule sum.cong [OF refl], rule gsum2_loop)
      (unfold Let_def ld_i32_rd32 W_def [symmetric], simp add: gsum2_fma T_def)
  also have "\<dots> = (\<Sum>b<?nb. \<Sum>k<4. T b k)" by (rule warp_blocks_8_4)
  also have "\<dots> = (\<Sum>b<?nb. \<Sum>i<32. val_elem ?R Q5_0 row (32 * b + i) * xval8 h xq (32 * b + i))"
  proof (rule sum.cong [OF refl])
    fix b assume b: "b \<in> {..<?nb}"
    then have qb: "qs_ok 32 (q1_qs (xq b))" using q by simp
    let ?p = "h (rd16 (W b) 0) * h (q1_d (xq b))" and ?q = "\<lambda>i. q1_qs (xq b) ! i"
    have T: "T b k = ?p * of_int ((\<Sum>i<4. q5_lo (W b) (4 * k + i) * ?q (4 * k + i)) + (\<Sum>i<4. q5_hi (W b) (4 * k + i) * ?q (16 + (4 * k + i))))"
      if "k < 4" for k
      unfolding T_def q5_lane_int [OF qb that] ..
    have four: "(\<Sum>k<4. \<Sum>i<4. f (4 * k + i)) = (\<Sum>i<16. f i)" for f :: "nat \<Rightarrow> int"
      using sum_blocks [of f 4 4] by (simp add: mult.commute)
    have "(\<Sum>k<4. T b k) = (\<Sum>k<4. ?p * of_int ((\<Sum>i<4. q5_lo (W b) (4 * k + i) * ?q (4 * k + i)) + (\<Sum>i<4. q5_hi (W b) (4 * k + i) * ?q (16 + (4 * k + i)))))"
      by (rule sum.cong [OF refl]) (rule T, simp)
    also have "\<dots> = ?p * of_int (\<Sum>k<4. (\<Sum>i<4. q5_lo (W b) (4 * k + i) * ?q (4 * k + i)) + (\<Sum>i<4. q5_hi (W b) (4 * k + i) * ?q (16 + (4 * k + i))))"
      by (simp only: of_int_sum sum_distrib_left)
    also have "\<dots> = ?p * of_int (\<Sum>i<16 + 16. q5_word (W b) i * ?q i)"
      unfolding sum_upto_add sum.distrib four [of "\<lambda>i. q5_lo (W b) i * ?q i"] four [of "\<lambda>i. q5_hi (W b) i * ?q (16 + i)"]
      by (simp add: q5_word_def)
    also have "\<dots> = (\<Sum>i<32. val_elem ?R Q5_0 row (32 * b + i) * xval8 h xq (32 * b + i))"
      unfolding of_int_sum sum_distrib_left
    proof (rule sum.cong)
      fix i :: nat assume "i \<in> {..<32}"
      then show "?p * of_int (q5_word (W b) i * ?q i) = val_elem ?R Q5_0 row (32 * b + i) * xval8 h xq (32 * b + i)"
        using val_elem_at [of Q5_0 1 0 i ?R row b] by (simp add: xval8_at val_block.simps W_def q5_word_def)
    qed simp
    finally show "(\<Sum>k<4. T b k) = (\<Sum>i<32. val_elem ?R Q5_0 row (32 * b + i) * xval8 h xq (32 * b + i))" .
  qed
  finally show ?thesis unfolding exact_block_sum .
qed

text \<open>The formats of 256 elements: lane \<open>8 c + k\<close> takes quad \<open>k\<close> of some of the eight groups of 32.\<close>

lemma exact_super_sum:
  "(\<Sum>c<nsb * 256. f c) = (\<Sum>sb<nsb. \<Sum>G<8. \<Sum>i<32. f (32 * (sb * 8 + G) + i))" for f :: "nat \<Rightarrow> 'a::comm_ring_1"
proof -
  have "nsb * 256 = nsb * 8 * 32" by simp
  then have "(\<Sum>c<nsb * 256. f c) = (\<Sum>b<nsb * 8. \<Sum>i<32. f (32 * b + i))" by (simp only: exact_block_sum)
  then show ?thesis by (simp only: sum_blocks [of _ nsb 8])
qed

text \<open>Groups taken in pairs, and in two halves of four.\<close>

lemma group_pairs:
  fixes S :: "nat \<Rightarrow> nat \<Rightarrow> 'a::comm_ring_1"
  assumes "\<And>c k. c < 4 \<Longrightarrow> k < 8 \<Longrightarrow> T c k = (\<Sum>i<4. S (2 * c) (4 * k + i)) + (\<Sum>i<4. S (2 * c + 1) (4 * k + i))"
  shows "(\<Sum>c<4. \<Sum>k<8. T c k) = (\<Sum>G<8. \<Sum>i<32. S G i)"
proof -
  have "(\<Sum>c<4. \<Sum>k<8. T c k) = (\<Sum>c<4. \<Sum>k<8. (\<Sum>i<4. S (2 * c) (4 * k + i)) + (\<Sum>i<4. S (2 * c + 1) (4 * k + i)))"
    using assms by (intro sum.cong refl) simp
  also have "\<dots> = (\<Sum>c<4. \<Sum>e<2. \<Sum>i<32. S (c * 2 + e) i)"
  proof (rule sum.cong [OF refl])
    fix c :: nat
    have "(\<Sum>k<8. (\<Sum>i<4. S (2 * c) (4 * k + i)) + (\<Sum>i<4. S (2 * c + 1) (4 * k + i)))
        = (\<Sum>i<32. S (2 * c) i) + (\<Sum>i<32. S (2 * c + 1) i)" by (simp only: sum.distrib sum_quads)
    also have "\<dots> = (\<Sum>e<2. \<Sum>i<32. S (c * 2 + e) i)" by (simp add: numeral_2_eq_2 mult.commute)
    finally show "(\<Sum>k<8. (\<Sum>i<4. S (2 * c) (4 * k + i)) + (\<Sum>i<4. S (2 * c + 1) (4 * k + i))) = (\<Sum>e<2. \<Sum>i<32. S (c * 2 + e) i)" .
  qed
  also have "\<dots> = (\<Sum>G<4 * 2. \<Sum>i<32. S G i)" by (rule sum_blocks [symmetric])
  finally show ?thesis by simp
qed

lemma group_halves:
  fixes S :: "nat \<Rightarrow> nat \<Rightarrow> 'a::comm_ring_1"
  assumes "\<And>c k. c < 4 \<Longrightarrow> k < 8 \<Longrightarrow> T c k = (\<Sum>h<2. \<Sum>i<4. S (h * 4 + c) (4 * k + i))"
  shows "(\<Sum>c<4. \<Sum>k<8. T c k) = (\<Sum>G<8. \<Sum>i<32. S G i)"
proof -
  have "(\<Sum>c<4. \<Sum>k<8. T c k) = (\<Sum>c<4. \<Sum>k<8. \<Sum>h<2. \<Sum>i<4. S (h * 4 + c) (4 * k + i))"
    using assms by (intro sum.cong refl) simp
  also have "\<dots> = (\<Sum>c<4. \<Sum>h<2. \<Sum>i<32. S (h * 4 + c) i)"
    unfolding sum_quads [symmetric] by (rule sum.cong [OF refl]) (rule sum.swap)
  also have "\<dots> = (\<Sum>h<2. \<Sum>c<4. \<Sum>i<32. S (h * 4 + c) i)" by (rule sum.swap)
  also have "\<dots> = (\<Sum>G<2 * 4. \<Sum>i<32. S G i)" by (rule sum_blocks [symmetric])
  finally show ?thesis by simp
qed

lemma affine_quad:
  "a * dx * of_int (\<Sum>i<4. n i * q i) + (- m) * dx * of_int (\<Sum>i<4. q i) = (\<Sum>i<4. (a * of_int (n i) - m) * (dx * of_int (q i)))"
  for a dx m :: "'a::comm_ring_1" and n q :: "nat \<Rightarrow> int"
  unfolding of_int_sum sum_distrib_left sum.distrib [symmetric] by (simp add: algebra_simps)

lemma q4_lane_bytes:
  assumes i: "i < 4"
  shows "sint (byte_of (rd32 B (16 + 4 * (c * 8 + k)) AND 0x0F0F0F0F) i) = uint (B (16 + (c * 32 + (4 * k + i))) AND 0xF)"
    "sint (byte_of (signed_drop_bit 4 (rd32 B (16 + 4 * (c * 8 + k))) AND 0x0F0F0F0F) i) = uint (drop_bit 4 (B (16 + (c * 32 + (4 * k + i)))))"
proof -
  have a: "16 + 4 * (c * 8 + k) + i = 16 + (c * 32 + (4 * k + i))" by simp
  show "sint (byte_of (rd32 B (16 + 4 * (c * 8 + k)) AND 0x0F0F0F0F) i) = uint (B (16 + (c * 32 + (4 * k + i))) AND 0xF)"
    unfolding byte_of_lo_nib [OF i] byte_of_rd32 [OF i] a nibble_sint ..
  show "sint (byte_of (signed_drop_bit 4 (rd32 B (16 + 4 * (c * 8 + k))) AND 0x0F0F0F0F) i) = uint (drop_bit 4 (B (16 + (c * 32 + (4 * k + i)))))"
    unfolding byte_of_hi_nib [OF i] byte_of_rd32 [OF i] a nibble_sint ..
qed

lemma val_elem_q4_K:
  assumes "c < 4" "i < 32"
  shows "val_elem (ring_arith h g) Q4_K row (32 * (sb * 8 + 2 * c) + i) =
      h (rd16 (\<lambda>i. row (sb * 144 + i)) 0) * of_int (uint (fst (fl_q4k_scale_min (2 * c + 0) (\<lambda>k. row (sb * 144 + (4 + k))))))
        * of_int (uint (row (sb * 144 + (16 + (c * 32 + i))) AND 0xF))
      - h (rd16 (\<lambda>i. row (sb * 144 + i)) 2) * of_int (uint (snd (fl_q4k_scale_min (2 * c + 0) (\<lambda>k. row (sb * 144 + (4 + k))))))"
    "val_elem (ring_arith h g) Q4_K row (32 * (sb * 8 + (2 * c + 1)) + i) =
      h (rd16 (\<lambda>i. row (sb * 144 + i)) 0) * of_int (uint (fst (fl_q4k_scale_min (2 * c + 1) (\<lambda>k. row (sb * 144 + (4 + k))))))
        * of_int (uint (drop_bit 4 (row (sb * 144 + (16 + (c * 32 + i))))))
      - h (rd16 (\<lambda>i. row (sb * 144 + i)) 2) * of_int (uint (snd (fl_q4k_scale_min (2 * c + 1) (\<lambda>k. row (sb * 144 + (4 + k))))))"
proof -
  have n: "unat (fl_blk_elems Q4_K) = 32 * 8" "unat (fl_blk_bytes Q4_K) = 144" by simp_all
  have k: "2 * c < 8" "2 * c + 1 < 8" using assms by simp_all
  have e: "2 * c = c * 2 + 0" "2 * c + 1 = c * 2 + 1" by simp_all
  note at = val_q4_K_at [OF assms(2), of "ring_arith h g" "\<lambda>i. row (sb * 144 + i)" c, unfolded ring_arith_sel]
  show "val_elem (ring_arith h g) Q4_K row (32 * (sb * 8 + 2 * c) + i) =
      h (rd16 (\<lambda>i. row (sb * 144 + i)) 0) * of_int (uint (fst (fl_q4k_scale_min (2 * c + 0) (\<lambda>k. row (sb * 144 + (4 + k))))))
        * of_int (uint (row (sb * 144 + (16 + (c * 32 + i))) AND 0xF))
      - h (rd16 (\<lambda>i. row (sb * 144 + i)) 2) * of_int (uint (snd (fl_q4k_scale_min (2 * c + 0) (\<lambda>k. row (sb * 144 + (4 + k))))))"
    unfolding val_elem_at [OF n(1) k(1) assms(2)] n(2) at(1) [symmetric] by (simp only: e(1))
  show "val_elem (ring_arith h g) Q4_K row (32 * (sb * 8 + (2 * c + 1)) + i) =
      h (rd16 (\<lambda>i. row (sb * 144 + i)) 0) * of_int (uint (fst (fl_q4k_scale_min (2 * c + 1) (\<lambda>k. row (sb * 144 + (4 + k))))))
        * of_int (uint (drop_bit 4 (row (sb * 144 + (16 + (c * 32 + i))))))
      - h (rd16 (\<lambda>i. row (sb * 144 + i)) 2) * of_int (uint (snd (fl_q4k_scale_min (2 * c + 1) (\<lambda>k. row (sb * 144 + (4 + k))))))"
    unfolding val_elem_at [OF n(1) k(2) assms(2)] n(2) at(2) [symmetric] by (simp only: e(2))
qed

lemma i8_q4_K_exact:
  assumes q: "\<And>b. b < cols div 256 * 8 \<Longrightarrow> qs_ok 32 (q1_qs (xq b))"
  shows "gdot_i8_q4_K_v1 (ring_arith h g) row xq cols
    = (\<Sum>c<cols div 256 * 256. val_elem (ring_arith h g) Q4_K row c * xval8 h xq c :: 'a::comm_ring_1)"
proof -
  let ?R = "ring_arith h g" and ?nsb = "cols div 256"
  define W where "W sb = (\<lambda>i. row (sb * 144 + i))" for sb
  define sc mn where "sc sb G = uint (fst (fl_q4k_scale_min G (\<lambda>i. W sb (4 + i))))"
    and "mn sb G = uint (snd (fl_q4k_scale_min G (\<lambda>i. W sb (4 + i))))" for sb G
  define dx where "dx sb G = h (q1_d (xq (sb * 8 + G)))" for sb G
  define X where "X sb G k = ld_quad (q1_qs (xq (sb * 8 + G))) k" for sb G k
  define wq where "wq sb c k = rd32 (W sb) (16 + 4 * (c * 8 + k))" for sb c k
  define T where "T sb c k = h (rd16 (W sb) 0) * of_int (sc sb (2 * c + 0)) * dx sb (2 * c) * of_int (dp4a (wq sb c k AND 0x0F0F0F0F) (X sb (2 * c) k) 0)
     + (- (h (rd16 (W sb) 2) * of_int (mn sb (2 * c + 0)))) * dx sb (2 * c) * of_int (dp4a 0x01010101 (X sb (2 * c) k) 0)
     + (h (rd16 (W sb) 0) * of_int (sc sb (2 * c + 1)) * dx sb (2 * c + 1) * of_int (dp4a (signed_drop_bit 4 (wq sb c k) AND 0x0F0F0F0F) (X sb (2 * c + 1) k) 0)
     + (- (h (rd16 (W sb) 2) * of_int (mn sb (2 * c + 1)))) * dx sb (2 * c + 1) * of_int (dp4a 0x01010101 (X sb (2 * c + 1) k) 0))" for sb c k
  have "gdot_i8_q4_K_v1 ?R row xq cols = (\<Sum>lane<32. \<Sum>sb<?nsb. T sb (lane div 8) (lane mod 8))"
    unfolding gdot_i8_q4_K_v1_def warp_reduce_ring Let_def [of "_ div 8"] Let_def [of "_ mod 8"]
    by (rule sum.cong [OF refl], rule gsum4_loop)
      (simp only: Let_def split_def gsum4_fma ring_arith_sel T_def sc_def mn_def dx_def X_def wq_def W_def add.assoc
        zero_less_numeral one_less_numeral_iff numeral_less_iff semiring_norm)
  also have "\<dots> = (\<Sum>sb<?nsb. \<Sum>c<4. \<Sum>k<8. T sb c k)" by (rule warp_lanes)
  also have "\<dots> = (\<Sum>sb<?nsb. \<Sum>G<8. \<Sum>i<32. val_elem ?R Q4_K row (32 * (sb * 8 + G) + i) * xval8 h xq (32 * (sb * 8 + G) + i))"
  proof (rule sum.cong [OF refl], rule group_pairs)
    fix sb c k :: nat assume sb: "sb \<in> {..<?nsb}" and c: "c < 4" and k: "k < 8"
    have "sb * 8 + 8 \<le> ?nsb * 8" using sb mult_le_mono1 [of "Suc sb" ?nsb 8] by simp
    then have "sb * 8 + 2 * c < ?nsb * 8" "sb * 8 + (2 * c + 1) < ?nsb * 8" using c by simp_all
    then have ok: "quad_ok (q1_qs (xq (sb * 8 + 2 * c))) k" "quad_ok (q1_qs (xq (sb * 8 + (2 * c + 1)))) k"
      using quad_ok_32 [OF q k] by blast+
    note v = val_elem_q4_K [OF c, of _ h g row sb]
    have lo: "dp4a (wq sb c k AND 0x0F0F0F0F) (X sb (2 * c) k) 0
        = (\<Sum>i<4. uint (W sb (16 + (c * 32 + (4 * k + i))) AND 0xF) * q1_qs (xq (sb * 8 + 2 * c)) ! (4 * k + i))"
      using dp4a_quad [OF ok(1) q4_lane_bytes(1), of "W sb" c k 0] unfolding wq_def X_def by simp
    have hi: "dp4a (signed_drop_bit 4 (wq sb c k) AND 0x0F0F0F0F) (X sb (2 * c + 1) k) 0
        = (\<Sum>i<4. uint (drop_bit 4 (W sb (16 + (c * 32 + (4 * k + i))))) * q1_qs (xq (sb * 8 + (2 * c + 1))) ! (4 * k + i))"
      using dp4a_quad [OF ok(2) q4_lane_bytes(2), of "W sb" c k 0] unfolding wq_def X_def by simp
    have ones: "dp4a 0x01010101 (X sb (2 * c) k) 0 = (\<Sum>i<4. q1_qs (xq (sb * 8 + 2 * c)) ! (4 * k + i))"
      "dp4a 0x01010101 (X sb (2 * c + 1) k) 0 = (\<Sum>i<4. q1_qs (xq (sb * 8 + (2 * c + 1))) ! (4 * k + i))"
      using dp4a_ones [OF ok(1), of 0] dp4a_ones [OF ok(2), of 0] unfolding X_def by simp_all
    have e: "(\<Sum>i<4. val_elem ?R Q4_K row (32 * (sb * 8 + 2 * c) + (4 * k + i)) * xval8 h xq (32 * (sb * 8 + 2 * c) + (4 * k + i)))
        = (\<Sum>i<4. (h (rd16 (W sb) 0) * of_int (sc sb (2 * c + 0)) * of_int (uint (W sb (16 + (c * 32 + (4 * k + i))) AND 0xF))
            - h (rd16 (W sb) 2) * of_int (mn sb (2 * c + 0))) * (dx sb (2 * c) * of_int (q1_qs (xq (sb * 8 + 2 * c)) ! (4 * k + i))))"
      "(\<Sum>i<4. val_elem ?R Q4_K row (32 * (sb * 8 + (2 * c + 1)) + (4 * k + i)) * xval8 h xq (32 * (sb * 8 + (2 * c + 1)) + (4 * k + i)))
        = (\<Sum>i<4. (h (rd16 (W sb) 0) * of_int (sc sb (2 * c + 1)) * of_int (uint (drop_bit 4 (W sb (16 + (c * 32 + (4 * k + i))))))
            - h (rd16 (W sb) 2) * of_int (mn sb (2 * c + 1))) * (dx sb (2 * c + 1) * of_int (q1_qs (xq (sb * 8 + (2 * c + 1))) ! (4 * k + i))))"
    proof (rule sum.cong [OF refl], goal_cases)
      case (1 i)
      then have i: "4 * k + i < 32" using k by simp
      show ?case unfolding v(1) [OF i] xval8_at [OF i] dx_def sc_def mn_def W_def ..
    next
      case 2
      show ?case
      proof (rule sum.cong [OF refl])
        fix i :: nat assume "i \<in> {..<4}"
        then have i: "4 * k + i < 32" using k by simp
        show "val_elem ?R Q4_K row (32 * (sb * 8 + (2 * c + 1)) + (4 * k + i)) * xval8 h xq (32 * (sb * 8 + (2 * c + 1)) + (4 * k + i))
          = (h (rd16 (W sb) 0) * of_int (sc sb (2 * c + 1)) * of_int (uint (drop_bit 4 (W sb (16 + (c * 32 + (4 * k + i))))))
            - h (rd16 (W sb) 2) * of_int (mn sb (2 * c + 1))) * (dx sb (2 * c + 1) * of_int (q1_qs (xq (sb * 8 + (2 * c + 1))) ! (4 * k + i)))"
          unfolding v(2) [OF i] xval8_at [OF i] dx_def sc_def mn_def W_def ..
      qed
    qed
    show "T sb c k
        = (\<Sum>i<4. val_elem ?R Q4_K row (32 * (sb * 8 + 2 * c) + (4 * k + i)) * xval8 h xq (32 * (sb * 8 + 2 * c) + (4 * k + i)))
        + (\<Sum>i<4. val_elem ?R Q4_K row (32 * (sb * 8 + (2 * c + 1)) + (4 * k + i)) * xval8 h xq (32 * (sb * 8 + (2 * c + 1)) + (4 * k + i)))"
      unfolding e affine_quad [symmetric] T_def lo hi ones ..
  qed
  finally show ?thesis unfolding exact_super_sum .
qed

end
