(* ===== verification/FL_Gpu_I8_Super.thy ===== *)
theory FL_Gpu_I8_Super
  imports FL_Gpu_I8
begin

text \<open>
  Exactness of the int8 kernels of the remaining superblock formats, over Q8\_1 and Q8\_K activations.
\<close>

lemma q6_lane_sint:
  "sint ((if s < 2 then lb AND 0xF else drop_bit 4 lb) OR push_bit 4 (drop_bit k hb AND 3))
    = uint ((if s < 2 then lb AND 0xF else drop_bit 4 lb) OR push_bit 4 (drop_bit k hb AND 3))" for s k :: nat and lb hb :: u8
  by (rule q6_sint [of _ lb]) (simp split: if_split)

lemma q6_lane_bytes:
  assumes s: "s < 4" and i: "i < 4"
  shows "sint (byte_of (q6_quad B hf s k) i) = q6_bits (\<lambda>j. B (64 * hf + j)) (\<lambda>j. B (128 + 32 * hf + j)) s (4 * k + i)"
proof -
  define hb where "hb = signed_drop_bit (2 * s) (rd32 B (128 + hf * 32 + 4 * k)) AND 0x03030303"
  have h: "byte_of hb j = drop_bit (2 * s) (B (128 + hf * 32 + 4 * k + j)) AND 3" if "j < 4" for j
    unfolding hb_def byte_of_hi_pair [OF that s] byte_of_rd32 [OF that] ..
  have "byte_of hb j AND 0xF0 = 0" if "j < 4" for j
    unfolding h [OF that] and.assoc by simp
  then have p: "byte_of (push_bit 4 hb) i = push_bit 4 (drop_bit (2 * s) (B (128 + hf * 32 + 4 * k + i)) AND 3)"
    using byte_of_push4 [OF i, of hb] h [OF i] by simp
  have a: "hf * 64 + s mod 2 * 32 + 4 * k + i = 64 * hf + (s mod 2 * 32 + (4 * k + i))" "128 + hf * 32 + 4 * k + i = 128 + 32 * hf + (4 * k + i)"
    by simp_all
  have "byte_of (q6_quad B hf s k) i = (if s < 2 then B (64 * hf + (s mod 2 * 32 + (4 * k + i))) AND 0xF
        else drop_bit 4 (B (64 * hf + (s mod 2 * 32 + (4 * k + i)))))
      OR push_bit 4 (drop_bit (2 * s) (B (128 + 32 * hf + (4 * k + i))) AND 3)"
    unfolding q6_quad_def Let_def ld_i32_rd32 hb_def [symmetric] byte_of_or p
      if_distrib [of "\<lambda>w. byte_of w i"] byte_of_hi_nib [OF i] byte_of_rd32 [OF i] a
    unfolding byte_of_lo_nib [OF i] byte_of_rd32 [OF i] a ..
  then show ?thesis unfolding q6_bits_def Let_def by (simp only: q6_lane_sint)
qed

lemma val_elem_q6_K:
  assumes hf: "hf < 2" and s: "s < 4" and l: "l < 32"
  shows "val_elem (ring_arith h g) Q6_K row (32 * (sb * 8 + (hf * 4 + s)) + l) =
    h (rd16 (\<lambda>i. row (sb * 210 + i)) 208) * of_int (sint (row (sb * 210 + (192 + 8 * hf + (l div 16 + 2 * s)))))
      * of_int (q6_bits (\<lambda>j. row (sb * 210 + (64 * hf + j))) (\<lambda>j. row (sb * 210 + (128 + 32 * hf + j))) s l - 32)"
proof -
  have n: "unat (fl_blk_elems Q6_K) = 32 * 8" "unat (fl_blk_bytes Q6_K) = 210" by simp_all
  have k: "hf * 4 + s < 8" using hf s by simp
  show ?thesis unfolding val_elem_at [OF n(1) k l] n(2) val_q6_K_at [OF s l] ring_arith_sel ..
qed

lemma quad_half: "k < 8 \<Longrightarrow> i < 4 \<Longrightarrow> (4 * k + i) div 16 = (if 4 \<le> k then 1 else 0 :: nat)"
  by (auto simp: div_nat_eqI)

lemma scaled_quad:
  "a * dx * of_int (sc * ((\<Sum>i<4. w i * q i) - 32 * (\<Sum>i<4. q i))) = (\<Sum>i<4. a * of_int sc * of_int (w i - 32) * (dx * of_int (q i)))"
  for a dx :: "'a::comm_ring_1" and w q :: "nat \<Rightarrow> int"
proof -
  have "sc * ((\<Sum>i<4. w i * q i) - 32 * (\<Sum>i<4. q i)) = (\<Sum>i<4. sc * (w i - 32) * q i)"
    by (simp only: sum_distrib_left sum_subtractf [symmetric]) (simp add: algebra_simps)
  then show ?thesis by (simp only: of_int_sum sum_distrib_left) (simp add: algebra_simps)
qed

lemma i8_q6_K_exact:
  assumes q: "\<And>b. b < cols div 256 * 8 \<Longrightarrow> qs_ok 32 (q1_qs (xq b))"
  shows "gdot_i8_q6_K (ring_arith h g) row xq cols
    = (\<Sum>c<cols div 256 * 256. val_elem (ring_arith h g) Q6_K row c * xval8 h xq c :: 'a::comm_ring_1)"
proof -
  let ?R = "ring_arith h g" and ?nsb = "cols div 256"
  define W where "W sb = (\<lambda>i. row (sb * 210 + i))" for sb
  define sc where "sc sb hf s k = sint (W sb (192 + (hf * 8 + 2 * s + (if 4 \<le> k then 1 else 0))))" for sb hf s k :: nat
  define T where "T sb s k = (\<Sum>hf<2. h (rd16 (W sb) 208) * h (q1_d (xq (sb * 8 + hf * 4 + s)))
     * of_int (sc sb hf s k * (dp4a (q6_quad (W sb) hf s k) (ld_quad (q1_qs (xq (sb * 8 + hf * 4 + s))) k) 0
         - 32 * dp4a 0x01010101 (ld_quad (q1_qs (xq (sb * 8 + hf * 4 + s))) k) 0)))" for sb s k :: nat
  have "gdot_i8_q6_K ?R row xq cols = (\<Sum>lane<32. \<Sum>sb<?nsb. T sb (lane div 8) (lane mod 8))"
    unfolding gdot_i8_q6_K_def warp_reduce_ring Let_def [of "_ div 8"] Let_def [of "_ mod 8"]
    unfolding Let_def
  proof (rule sum.cong [OF refl], rule gsum4_loop)
    fix lane sb a
    show "gsum4 ?R (for_loop 0 2 (\<lambda>hf. fma_at ?R ((2 * sb + hf) mod 4)
          (ar_mul ?R (ar_half ?R (rd16 (\<lambda>i. row (sb * 210 + i)) 208)) (ar_half ?R (q1_d (xq (sb * 8 + hf * 4 + lane div 8)))))
          (ar_int ?R (sint (row (sb * 210 + (192 + (hf * 8 + 2 * (lane div 8) + (if 4 \<le> lane mod 8 then 1 else 0)))))
            * (dp4a (q6_quad (\<lambda>i. row (sb * 210 + i)) hf (lane div 8) (lane mod 8))
                 (ld_quad (q1_qs (xq (sb * 8 + hf * 4 + lane div 8))) (lane mod 8)) 0
               - 32 * dp4a 0x01010101 (ld_quad (q1_qs (xq (sb * 8 + hf * 4 + lane div 8))) (lane mod 8)) 0)))) a)
        = gsum4 ?R a + T sb (lane div 8) (lane mod 8)"
      unfolding T_def by (rule for_loop_measure [where m = "gsum4 ?R"]) (simp add: gsum4_fma sc_def W_def)
  qed
  also have "\<dots> = (\<Sum>sb<?nsb. \<Sum>s<4. \<Sum>k<8. T sb s k)" by (rule warp_lanes)
  also have "\<dots> = (\<Sum>sb<?nsb. \<Sum>G<8. \<Sum>i<32. val_elem ?R Q6_K row (32 * (sb * 8 + G) + i) * xval8 h xq (32 * (sb * 8 + G) + i))"
  proof (rule sum.cong [OF refl], rule group_halves)
    fix sb s k :: nat assume sb: "sb \<in> {..<?nsb}" and s: "s < 4" and k: "k < 8"
    show "T sb s k = (\<Sum>hf<2. \<Sum>i<4. val_elem ?R Q6_K row (32 * (sb * 8 + (hf * 4 + s)) + (4 * k + i))
        * xval8 h xq (32 * (sb * 8 + (hf * 4 + s)) + (4 * k + i)))"
      unfolding T_def
    proof (rule sum.cong [OF refl])
      fix hf :: nat assume "hf \<in> {..<2}"
      then have hf: "hf < 2" by simp
      let ?b = "sb * 8 + hf * 4 + s"
      have "sb * 8 + 8 \<le> ?nsb * 8" using sb mult_le_mono1 [of "Suc sb" ?nsb 8] by simp
      then have ok: "quad_ok (q1_qs (xq ?b)) k" using hf s quad_ok_32 [OF q k] by simp
      have b: "sb * 8 + (hf * 4 + s) = ?b" by simp
      have vals: "(\<Sum>i<4. val_elem ?R Q6_K row (32 * (sb * 8 + (hf * 4 + s)) + (4 * k + i)) * xval8 h xq (32 * (sb * 8 + (hf * 4 + s)) + (4 * k + i)))
          = (\<Sum>i<4. h (rd16 (W sb) 208) * of_int (sc sb hf s k)
              * of_int (q6_bits (\<lambda>j. W sb (64 * hf + j)) (\<lambda>j. W sb (128 + 32 * hf + j)) s (4 * k + i) - 32)
              * (h (q1_d (xq ?b)) * of_int (q1_qs (xq ?b) ! (4 * k + i))))"
      proof (rule sum.cong [OF refl])
        fix i :: nat assume "i \<in> {..<4}"
        then have i: "i < 4" "4 * k + i < 32" using k by simp_all
        have e: "192 + 8 * hf + ((4 * k + i) div 16 + 2 * s) = 192 + (hf * 8 + 2 * s + (if 4 \<le> k then 1 else 0))"
          unfolding quad_half [OF k i(1)] by simp
        show "val_elem ?R Q6_K row (32 * (sb * 8 + (hf * 4 + s)) + (4 * k + i)) * xval8 h xq (32 * (sb * 8 + (hf * 4 + s)) + (4 * k + i))
          = h (rd16 (W sb) 208) * of_int (sc sb hf s k)
              * of_int (q6_bits (\<lambda>j. W sb (64 * hf + j)) (\<lambda>j. W sb (128 + 32 * hf + j)) s (4 * k + i) - 32)
              * (h (q1_d (xq ?b)) * of_int (q1_qs (xq ?b) ! (4 * k + i)))"
          unfolding val_elem_q6_K [OF hf s i(2)] xval8_at [OF i(2)] e unfolding sc_def W_def b ..
      qed
      have dot: "dp4a (q6_quad (W sb) hf s k) (ld_quad (q1_qs (xq ?b)) k) 0
          = 0 + (\<Sum>i<4. q6_bits (\<lambda>j. W sb (64 * hf + j)) (\<lambda>j. W sb (128 + 32 * hf + j)) s (4 * k + i) * q1_qs (xq ?b) ! (4 * k + i))"
        by (rule dp4a_quad [OF ok]) (rule q6_lane_bytes [OF s])
      show "h (rd16 (W sb) 208) * h (q1_d (xq ?b)) * of_int (sc sb hf s k * (dp4a (q6_quad (W sb) hf s k) (ld_quad (q1_qs (xq ?b)) k) 0
         - 32 * dp4a 0x01010101 (ld_quad (q1_qs (xq ?b)) k) 0))
        = (\<Sum>i<4. val_elem ?R Q6_K row (32 * (sb * 8 + (hf * 4 + s)) + (4 * k + i)) * xval8 h xq (32 * (sb * 8 + (hf * 4 + s)) + (4 * k + i)))"
        unfolding dot dp4a_ones [OF ok] add_0_left scaled_quad by (rule vals [symmetric])
    qed
  qed
  finally show ?thesis unfolding exact_super_sum .
qed

section \<open>Codebook formats\<close>

text \<open>Every byte of a grid point lies between 1 and 127: bit 3 (bit 2 for IQ3) is set and bit 7 clear.\<close>

lemma grid_tables:
  "list_all (\<lambda>g. g AND 0x8888888888888888 = 0x0808080808080808) kIq2xxsGridH \<and> length kIq2xxsGridH = 256"
  "list_all (\<lambda>g. g AND 0x84848484 = 0x04040404) kIq3xxsGridH \<and> length kIq3xxsGridH = 256"
  by (simp_all add: kIq2xxsGridH_def kIq3xxsGridH_def)

lemma small_byte:
  fixes b :: u8
  assumes "bit b n" "\<not> bit b 7"
  shows "b \<noteq> 0" "sint b = uint b" "sint (- b) = - uint b"
proof -
  show nz: "b \<noteq> 0" using assms(1) by auto
  have seven: "7 \<le> k \<Longrightarrow> k < 8 \<Longrightarrow> k = 7" for k :: nat by arith
  have "0 \<le> uint b \<and> uint b < 2 ^ 7" by (rule u8_bits_less) (metis assms(2) seven)
  then have u: "uint b < 128" by simp
  then show s: "sint b = uint b" by (intro sint_small) simp
  have "- b = word_of_int (- uint b)" by simp
  then have "sint (- b) = signed_take_bit 7 (- uint b)" by (simp only: signed_of_int) simp
  also have "\<dots> = - uint b"
  proof (rule signed_take_bit_int_eq_self)
    have "- uint b \<le> 0" by simp
    then show "- uint b < 2 ^ 7" by (rule le_less_trans) simp
  qed (use u in simp)
  finally show "sint (- b) = - uint b" .
qed

lemma grid2_byte:
  assumes "m < 256" "j < 8"
  shows "bit (ucast (drop_bit (8 * j) (fl_kIq2xxsGrid m)) :: u8) 3 \<and> \<not> bit (ucast (drop_bit (8 * j) (fl_kIq2xxsGrid m)) :: u8) 7"
proof -
  have g: "fl_kIq2xxsGrid m AND 0x8888888888888888 = 0x0808080808080808"
    using grid_tables(1) assms(1) unfolding fl_kIq2xxsGrid_def list_all_length by simp
  have b: "bit (0x8888888888888888 :: u64) (8 * j + 3) \<and> bit (0x8888888888888888 :: u64) (8 * j + 7)
      \<and> bit (0x0808080808080808 :: u64) (8 * j + 3) \<and> \<not> bit (0x0808080808080808 :: u64) (8 * j + 7)"
    using eight_cases [OF assms(2)] by (elim disjE) simp_all
  have "bit (fl_kIq2xxsGrid m AND 0x8888888888888888) n = bit (0x0808080808080808 :: u64) n" for n unfolding g ..
  then have "bit (fl_kIq2xxsGrid m) (8 * j + 3) \<and> \<not> bit (fl_kIq2xxsGrid m) (8 * j + 7)"
    using b unfolding bit_and_iff by blast
  then show ?thesis by (simp add: bit_ucast_iff bit_drop_bit_eq)
qed

lemma grid3_byte:
  assumes "m < 256" "j < 4"
  shows "bit (byte_of (fl_kIq3xxsGrid m) j) 2 \<and> \<not> bit (byte_of (fl_kIq3xxsGrid m) j) 7"
proof -
  have g: "fl_kIq3xxsGrid m AND 0x84848484 = 0x04040404"
    using grid_tables(2) assms(1) unfolding fl_kIq3xxsGrid_def list_all_length by simp
  have b: "bit (0x84848484 :: u32) (8 * j + 2) \<and> bit (0x84848484 :: u32) (8 * j + 7)
      \<and> bit (0x04040404 :: u32) (8 * j + 2) \<and> \<not> bit (0x04040404 :: u32) (8 * j + 7)"
    using four_cases [OF assms(2)] by (elim disjE) simp_all
  have "bit (fl_kIq3xxsGrid m AND 0x84848484) n = bit (0x04040404 :: u32) n" for n unfolding g ..
  then have "bit (fl_kIq3xxsGrid m) (8 * j + 2) \<and> \<not> bit (fl_kIq3xxsGrid m) (8 * j + 7)"
    using b unfolding bit_and_iff by blast
  then show ?thesis unfolding bit_byte_of by simp
qed

text \<open>The quad of signed grid bytes a lane composes.\<close>

definition signed_quad :: "u32 \<Rightarrow> u8 \<Rightarrow> nat \<Rightarrow> u32" where
  "signed_quad vq s sel = (let neg = sign_mask4 (ucast s) (4 * sel) in (vq XOR neg) + (neg AND 0x01010101))"

lemma signed_quad_byte:
  assumes grid: "\<And>i. i < 4 \<Longrightarrow> bit (byte_of vq i) n \<and> \<not> bit (byte_of vq i) 7" and i: "i < 4" and sel: "sel < 2"
  shows "sint (byte_of (signed_quad vq s sel) i) = (if bit s (4 * sel + i) then - uint (byte_of vq i) else uint (byte_of vq i))"
proof -
  have nz: "byte_of vq i \<noteq> 0" if "i < 4" for i using small_byte(1) grid [OF that] by blast
  have "bit (ucast s :: u32) (4 * sel + i) = bit s (4 * sel + i)" using i sel by (simp add: bit_ucast_iff)
  moreover have "byte_of (signed_quad vq s sel) i = (if bit (ucast s :: u32) (4 * sel + i) then - byte_of vq i else byte_of vq i)"
    unfolding signed_quad_def Let_def by (rule byte_of_signed [OF nz i])
  moreover have "sint (byte_of vq i) = uint (byte_of vq i)" "sint (- byte_of vq i) = - uint (byte_of vq i)"
    using small_byte(2,3) grid [OF i] by blast+
  ultimately show ?thesis by simp
qed

text \<open>One quad of a codebook block against four activations.\<close>

lemma signed_quad_exact:
  fixes db dx :: "'a::comm_ring_1"
  assumes ok: "quad_ok qs k" and sel: "sel < 2"
    and grid: "\<And>i. i < 4 \<Longrightarrow> bit (byte_of vq i) n \<and> \<not> bit (byte_of vq i) 7"
    and V: "\<And>i. i < 4 \<Longrightarrow> V i = db * iq_signed_val (ring_arith h g) s (4 * sel + i) (of_int (uint (byte_of vq i)))"
    and X: "\<And>i. i < 4 \<Longrightarrow> X i = dx * of_int (qs ! (4 * k + i))"
  shows "db * dx * of_int (dp4a (signed_quad vq s sel) (ld_quad qs k) 0) = (\<Sum>i<4. V i * X i)"
proof -
  let ?f = "\<lambda>i. if bit s (4 * sel + i) then - uint (byte_of vq i) else uint (byte_of vq i)"
  have d: "dp4a (signed_quad vq s sel) (ld_quad qs k) 0 = 0 + (\<Sum>i<4. ?f i * qs ! (4 * k + i))"
    by (rule dp4a_quad [OF ok]) (rule signed_quad_byte [OF grid _ sel])
  have "V i * X i = db * dx * of_int (?f i * qs ! (4 * k + i))" if i: "i < 4" for i
  proof -
    have j: "4 * sel + i < 8" using sel i by linarith
    show ?thesis unfolding V [OF i] X [OF i] iq_signed_val_def sign_mask_bit [OF j] by simp
  qed
  then show ?thesis unfolding d add_0_left of_int_sum sum_distrib_left by (intro sum.cong refl) simp
qed

lemma quad_lane:
  fixes i k :: nat
  assumes "i < 4"
  shows "(4 * k + i) div 8 = k div 2" "(4 * k + i) mod 8 = 4 * (k mod 2) + i" "(4 * k + i) div 4 = k" "(4 * k + i) mod 4 = i"
proof -
  show d: "(4 * k + i) div 4 = k" and m: "(4 * k + i) mod 4 = i" using assms by simp_all
  have "(4 * k + i) div (4 * 2) = k div 2" unfolding div_mult2_eq d ..
  then show "(4 * k + i) div 8 = k div 2" by simp
  have "(4 * k + i) mod (4 * 2) = 4 * (k mod 2) + i" unfolding mod_mult2_eq d m ..
  then show "(4 * k + i) mod 8 = 4 * (k mod 2) + i" by simp
qed

lemma byte_of_half:
  assumes "i < 4"
  shows "byte_of (ucast (if sel mod 2 \<noteq> 0 then drop_bit 32 gd else gd)) i = ucast (drop_bit (8 * (4 * (sel mod 2) + i)) (gd :: u64))"
proof -
  have "byte_of (ucast v) i = ucast (drop_bit (8 * i) (v :: u64))" for v
    unfolding byte_of_def by (rule bit_word_eqI) (use assms in \<open>auto simp: bit_ucast_iff bit_drop_bit_eq\<close>)
  then show ?thesis by (cases "even sel") (simp_all add: odd_iff_mod_2_eq_one drop_bit_drop_bit algebra_simps)
qed

text \<open>A lane whose loop adds two products to its accumulators in every superblock.\<close>

lemma halves_exact:
  assumes body: "\<And>sb a. body sb a = for_loop 0 2 (\<lambda>hf. fma_at (ring_arith h g) hf (P sb hf) (V sb hf)) a"
  shows "gsum2 (ring_arith h g) (for_loop 0 n body (\<lambda>_. ar_zero (ring_arith h g))) = (\<Sum>sb<n. \<Sum>hf<2. P sb hf * V sb hf)"
  unfolding body [abs_def]
  by (rule gsum2_loop, rule for_loop_measure [where m = "gsum2 (ring_arith h g)"]) (simp add: gsum2_fma)

lemma val_elem_iq:
  assumes G: "G < 8" and k: "k < 8" and i: "i < 4"
  shows "val_elem (ring_arith h g) IQ2_XXS row (32 * (sb * 8 + G) + (4 * k + i)) =
      (let W = (\<lambda>i. row (sb * 66 + i)); w1 = rd32 W (2 + 8 * G + 4)
       in iq_scale_val (ring_arith h g) (h (rd16 W 0)) fl_quarter_const w1
         * iq_signed_val (ring_arith h g) (fl_kIqSigns (unat (drop_bit (7 * (k div 2)) w1 AND 127))) (4 * (k mod 2) + i)
            (of_int (uint (ucast (drop_bit (8 * (4 * (k mod 2) + i))
              (fl_kIq2xxsGrid (unat (drop_bit (8 * (k div 2)) (rd32 W (2 + 8 * G)) AND 0xFF)))) :: u8))))"
    "val_elem (ring_arith h g) IQ3_XXS row (32 * (sb * 8 + G) + (4 * k + i)) =
      (let W = (\<lambda>i. row (sb * 98 + i)); w1 = rd32 W (2 + 64 + 4 * G)
       in iq_scale_val (ring_arith h g) (h (rd16 W 0)) fl_half_const w1
         * iq_signed_val (ring_arith h g) (fl_kIqSigns (unat (drop_bit (7 * (k div 2)) w1 AND 127))) (4 * (k mod 2) + i)
            (of_int (uint (byte_of (fl_kIq3xxsGrid (unat (W (2 + 8 * G + k)))) i))))"
proof -
  have n: "unat (fl_blk_elems IQ2_XXS) = 32 * 8" "unat (fl_blk_bytes IQ2_XXS) = 66"
    "unat (fl_blk_elems IQ3_XXS) = 32 * 8" "unat (fl_blk_bytes IQ3_XXS) = 98" by simp_all
  have l: "4 * k + i < 32" using k i by linarith
  show "val_elem (ring_arith h g) IQ2_XXS row (32 * (sb * 8 + G) + (4 * k + i)) =
      (let W = (\<lambda>i. row (sb * 66 + i)); w1 = rd32 W (2 + 8 * G + 4)
       in iq_scale_val (ring_arith h g) (h (rd16 W 0)) fl_quarter_const w1
         * iq_signed_val (ring_arith h g) (fl_kIqSigns (unat (drop_bit (7 * (k div 2)) w1 AND 127))) (4 * (k mod 2) + i)
            (of_int (uint (ucast (drop_bit (8 * (4 * (k mod 2) + i))
              (fl_kIq2xxsGrid (unat (drop_bit (8 * (k div 2)) (rd32 W (2 + 8 * G)) AND 0xFF)))) :: u8))))"
    unfolding val_elem_at [OF n(1) G l] n(2) val_iq2_lane [OF l] quad_lane [OF i] Let_def ring_arith_sel ..
  show "val_elem (ring_arith h g) IQ3_XXS row (32 * (sb * 8 + G) + (4 * k + i)) =
      (let W = (\<lambda>i. row (sb * 98 + i)); w1 = rd32 W (2 + 64 + 4 * G)
       in iq_scale_val (ring_arith h g) (h (rd16 W 0)) fl_half_const w1
         * iq_signed_val (ring_arith h g) (fl_kIqSigns (unat (drop_bit (7 * (k div 2)) w1 AND 127))) (4 * (k mod 2) + i)
            (of_int (uint (byte_of (fl_kIq3xxsGrid (unat (W (2 + 8 * G + k)))) i))))"
    unfolding val_elem_at [OF n(3) G l] n(4) val_iq3_lane [OF l] quad_lane [OF i] Let_def ring_arith_sel byte_of_def ..
qed

lemma low_byte_less: "unat (v AND 0xFF) < 256" for v :: u32
proof -
  have m: "(0xFF :: u32) = mask 8" by (simp add: mask_eq_exp_minus_1)
  have "unat (v AND 0xFF) = take_bit 8 (unat v)"
    unfolding m take_bit_eq_mask [symmetric] by (simp only: unsigned_take_bit_eq)
  then show ?thesis using take_bit_nat_less_exp [of 8 "unat v"] by simp
qed

lemma unat_u8_less: "unat b < 256" for b :: u8
  using unsigned_less [of b, where ?'a = nat] by simp

lemma super_quads_ok:
  fixes sb nsb G k :: nat
  assumes q: "\<And>b. b < nsb * 8 \<Longrightarrow> qs_ok 32 (q1_qs (xq b))" and sb: "sb < nsb" and G: "G < 8" and k: "k < 8"
  shows "quad_ok (q1_qs (xq (sb * 8 + G))) k"
proof -
  have "sb * 8 + 8 \<le> nsb * 8" using sb mult_le_mono1 [of "Suc sb" nsb 8] by simp
  then show ?thesis using G by (intro quad_ok_32 [OF q k]) simp
qed

lemma i8_iq2_xxs_exact:
  assumes q: "\<And>b. b < cols div 256 * 8 \<Longrightarrow> qs_ok 32 (q1_qs (xq b))"
  shows "gdot_i8_iq2_xxs (ring_arith h g) row xq cols
    = (\<Sum>c<cols div 256 * 256. val_elem (ring_arith h g) IQ2_XXS row c * xval8 h xq c :: 'a::comm_ring_1)"
proof -
  let ?R = "ring_arith h g" and ?nsb = "cols div 256"
  define W where "W sb = (\<lambda>i. row (sb * 66 + i))" for sb
  define gd where "gd sb G k = fl_kIq2xxsGrid (unat (drop_bit (8 * (k div 2)) (rd32 (W sb) (2 + 8 * G)) AND 0xFF))" for sb G k
  define vq where "vq sb G k = (ucast (if k mod 2 \<noteq> 0 then drop_bit 32 (gd sb G k) else gd sb G k) :: u32)" for sb G k
  define sg where "sg sb G k = fl_kIqSigns (unat (drop_bit (7 * (k div 2)) (rd32 (W sb) (2 + 8 * G + 4)) AND 127))" for sb G k
  define db where "db sb G = iq_scale_val ?R (h (rd16 (W sb) 0)) fl_quarter_const (rd32 (W sb) (2 + 8 * G + 4))" for sb G
  define T where "T sb s k = (\<Sum>hf<2. db sb (hf * 4 + s) * h (q1_d (xq (sb * 8 + (hf * 4 + s))))
     * of_int (dp4a (signed_quad (vq sb (hf * 4 + s) k) (sg sb (hf * 4 + s) k) (k mod 2)) (ld_quad (q1_qs (xq (sb * 8 + (hf * 4 + s)))) k) 0))"
    for sb s k :: nat
  have "gdot_i8_iq2_xxs ?R row xq cols = (\<Sum>lane<32. \<Sum>sb<?nsb. T sb (lane div 8) (lane mod 8))"
    unfolding gdot_i8_iq2_xxs_def warp_reduce_ring Let_def T_def
    by (rule sum.cong [OF refl], rule halves_exact)
      (simp only: ld_i32_rd32 signed_quad_def iq_scale_val_def db_def vq_def sg_def gd_def W_def ring_arith_sel Let_def)
  also have "\<dots> = (\<Sum>sb<?nsb. \<Sum>s<4. \<Sum>k<8. T sb s k)" by (rule warp_lanes)
  also have "\<dots> = (\<Sum>sb<?nsb. \<Sum>G<8. \<Sum>i<32. val_elem ?R IQ2_XXS row (32 * (sb * 8 + G) + i) * xval8 h xq (32 * (sb * 8 + G) + i))"
  proof (rule sum.cong [OF refl], rule group_halves, unfold T_def, rule sum.cong [OF refl])
    fix sb s k hf :: nat assume sb: "sb \<in> {..<?nsb}" and s: "s < 4" and k: "k < 8" and hf: "hf \<in> {..<2}"
    let ?G = "hf * 4 + s"
    have G: "?G < 8" using hf s by simp
    have m: "unat (drop_bit (8 * (k div 2)) (rd32 (W sb) (2 + 8 * ?G)) AND 0xFF) < 256"
      by (rule low_byte_less)
    have byte: "byte_of (vq sb ?G k) i = ucast (drop_bit (8 * (4 * (k mod 2) + i)) (gd sb ?G k))" if "i < 4" for i
      unfolding vq_def by (rule byte_of_half [OF that])
    show "db sb ?G * h (q1_d (xq (sb * 8 + ?G)))
       * of_int (dp4a (signed_quad (vq sb ?G k) (sg sb ?G k) (k mod 2)) (ld_quad (q1_qs (xq (sb * 8 + ?G))) k) 0)
      = (\<Sum>i<4. val_elem ?R IQ2_XXS row (32 * (sb * 8 + ?G) + (4 * k + i)) * xval8 h xq (32 * (sb * 8 + ?G) + (4 * k + i)))"
    proof (rule signed_quad_exact)
      show "quad_ok (q1_qs (xq (sb * 8 + ?G))) k" by (rule super_quads_ok [OF q _ G k]) (use sb in simp_all)
    next
      fix i :: nat assume i: "i < 4"
      then have j: "4 * (k mod 2) + i < 8" by linarith
      show "bit (byte_of (vq sb ?G k) i) 3 \<and> \<not> bit (byte_of (vq sb ?G k) i) 7"
        unfolding byte [OF i] gd_def by (rule grid2_byte [OF m j])
      show "val_elem ?R IQ2_XXS row (32 * (sb * 8 + ?G) + (4 * k + i))
          = db sb ?G * iq_signed_val ?R (sg sb ?G k) (4 * (k mod 2) + i) (of_int (uint (byte_of (vq sb ?G k) i)))"
        unfolding val_elem_iq(1) [OF G k i] byte [OF i] Let_def unfolding db_def sg_def gd_def W_def ..
      show "xval8 h xq (32 * (sb * 8 + ?G) + (4 * k + i)) = h (q1_d (xq (sb * 8 + ?G))) * of_int (q1_qs (xq (sb * 8 + ?G)) ! (4 * k + i))"
        by (rule xval8_at) (use k i in linarith)
    qed simp
  qed
  finally show ?thesis unfolding exact_super_sum .
qed

lemma i8_iq3_xxs_exact:
  assumes q: "\<And>b. b < cols div 256 * 8 \<Longrightarrow> qs_ok 32 (q1_qs (xq b))"
  shows "gdot_i8_iq3_xxs (ring_arith h g) row xq cols
    = (\<Sum>c<cols div 256 * 256. val_elem (ring_arith h g) IQ3_XXS row c * xval8 h xq c :: 'a::comm_ring_1)"
proof -
  let ?R = "ring_arith h g" and ?nsb = "cols div 256"
  define W where "W sb = (\<lambda>i. row (sb * 98 + i))" for sb
  define vq where "vq sb G k = fl_kIq3xxsGrid (unat (W sb (2 + 8 * G + k)))" for sb G k
  define sg where "sg sb G k = fl_kIqSigns (unat (drop_bit (7 * (k div 2)) (rd32 (W sb) (2 + 64 + 4 * G)) AND 127))" for sb G k
  define db where "db sb G = iq_scale_val ?R (h (rd16 (W sb) 0)) fl_half_const (rd32 (W sb) (2 + 64 + 4 * G))" for sb G
  define T where "T sb s k = (\<Sum>hf<2. db sb (hf * 4 + s) * h (q1_d (xq (sb * 8 + (hf * 4 + s))))
     * of_int (dp4a (signed_quad (vq sb (hf * 4 + s) k) (sg sb (hf * 4 + s) k) (k mod 2)) (ld_quad (q1_qs (xq (sb * 8 + (hf * 4 + s)))) k) 0))"
    for sb s k :: nat
  have "gdot_i8_iq3_xxs ?R row xq cols = (\<Sum>lane<32. \<Sum>sb<?nsb. T sb (lane div 8) (lane mod 8))"
    unfolding gdot_i8_iq3_xxs_def warp_reduce_ring Let_def T_def
    by (rule sum.cong [OF refl], rule halves_exact)
      (simp only: ld_i32_rd32 signed_quad_def iq_scale_val_def db_def vq_def sg_def W_def ring_arith_sel Let_def)
  also have "\<dots> = (\<Sum>sb<?nsb. \<Sum>s<4. \<Sum>k<8. T sb s k)" by (rule warp_lanes)
  also have "\<dots> = (\<Sum>sb<?nsb. \<Sum>G<8. \<Sum>i<32. val_elem ?R IQ3_XXS row (32 * (sb * 8 + G) + i) * xval8 h xq (32 * (sb * 8 + G) + i))"
  proof (rule sum.cong [OF refl], rule group_halves, unfold T_def, rule sum.cong [OF refl])
    fix sb s k hf :: nat assume sb: "sb \<in> {..<?nsb}" and s: "s < 4" and k: "k < 8" and hf: "hf \<in> {..<2}"
    let ?G = "hf * 4 + s"
    have G: "?G < 8" using hf s by simp
    have m: "unat (W sb (2 + 8 * ?G + k)) < 256" by (rule unat_u8_less)
    show "db sb ?G * h (q1_d (xq (sb * 8 + ?G)))
       * of_int (dp4a (signed_quad (vq sb ?G k) (sg sb ?G k) (k mod 2)) (ld_quad (q1_qs (xq (sb * 8 + ?G))) k) 0)
      = (\<Sum>i<4. val_elem ?R IQ3_XXS row (32 * (sb * 8 + ?G) + (4 * k + i)) * xval8 h xq (32 * (sb * 8 + ?G) + (4 * k + i)))"
    proof (rule signed_quad_exact)
      show "quad_ok (q1_qs (xq (sb * 8 + ?G))) k" by (rule super_quads_ok [OF q _ G k]) (use sb in simp_all)
    next
      fix i :: nat assume i: "i < 4"
      show "bit (byte_of (vq sb ?G k) i) 2 \<and> \<not> bit (byte_of (vq sb ?G k) i) 7"
        unfolding vq_def by (rule grid3_byte [OF m i])
      show "val_elem ?R IQ3_XXS row (32 * (sb * 8 + ?G) + (4 * k + i))
          = db sb ?G * iq_signed_val ?R (sg sb ?G k) (4 * (k mod 2) + i) (of_int (uint (byte_of (vq sb ?G k) i)))"
        unfolding val_elem_iq(2) [OF G k i] Let_def unfolding db_def sg_def vq_def W_def ..
      show "xval8 h xq (32 * (sb * 8 + ?G) + (4 * k + i)) = h (q1_d (xq (sb * 8 + ?G))) * of_int (q1_qs (xq (sb * 8 + ?G)) ! (4 * k + i))"
        by (rule xval8_at) (use k i in linarith)
    qed simp
  qed
  finally show ?thesis unfolding exact_super_sum .
qed

section \<open>Q8\_K activations\<close>

lemma xvalK_at:
  assumes "G < 8" "i < 32"
  shows "xvalK g xk (32 * (sb * 8 + G) + i) = g (qK_d (xk sb)) * of_int (qK_qs (xk sb) ! (G * 32 + i))"
proof -
  have "32 * (sb * 8 + G) + i = sb * 256 + (G * 32 + i)" "G * 32 + i < 256" using assms by simp_all
  then show ?thesis unfolding xvalK_def by (simp only: block_div_mod)
qed

lemma q8K_quad:
  assumes "q8K_ok b" "G < 8" "k < 8"
  shows "quad_ok (drop (G * 32) (qK_qs b)) k"
  using assms by (intro quad_ok_256) (simp_all add: q8K_ok_def)

lemma drop_quad:
  assumes "q8K_ok b" "G < 8"
  shows "drop (G * 32) (qK_qs b) ! j = qK_qs b ! (G * 32 + j)"
  using assms by (intro nth_drop) (simp add: q8K_ok_def qs_ok_def)

text \<open>The group sums, quad by quad.\<close>

lemma bsum_quads:
  assumes b: "q8K_ok b" and g: "g < 16"
  shows "qK_bsums b ! g = (\<Sum>k<4. \<Sum>i<4. qK_qs b ! (16 * g + (4 * k + i)))"
  unfolding q8K_ok_nth(2) [OF b g] using sum_blocks [of "\<lambda>i. qK_qs b ! (16 * g + i)" 4 4] by (simp add: mult.commute)

lemma bsum_pair:
  assumes b: "q8K_ok b" and G: "G < 8"
  shows "qK_bsums b ! (2 * G) + qK_bsums b ! (2 * G + 1) = (\<Sum>k<8. \<Sum>i<4. qK_qs b ! (G * 32 + (4 * k + i)))"
proof -
  have g: "2 * G < 16" "2 * G + 1 < 16" using G by simp_all
  have "(\<Sum>i<16 + 16. qK_qs b ! (G * 32 + i)) = (\<Sum>i<16. qK_qs b ! (16 * (2 * G) + i)) + (\<Sum>i<16. qK_qs b ! (16 * (2 * G + 1) + i))"
    unfolding sum_upto_add by (simp add: algebra_simps)
  then have "qK_bsums b ! (2 * G) + qK_bsums b ! (2 * G + 1) = (\<Sum>i<32. qK_qs b ! (G * 32 + i))"
    unfolding q8K_ok_nth(2) [OF b g(1)] q8K_ok_nth(2) [OF b g(2)] by simp
  then show ?thesis by (simp only: sum_quads [of "\<lambda>i. qK_qs b ! (G * 32 + i)"])
qed

text \<open>The unrolled loop folds the same superblocks in the same order.\<close>

definition q4k_run :: "'a arith \<Rightarrow> bytes \<Rightarrow> q8K_vec \<Rightarrow> nat \<Rightarrow> nat \<Rightarrow> 'a" where
  "q4k_run A row xk cols lane =
    (let (a0, a1) = for_loop 0 (cols div 256) (\<lambda>sb. q4k_fold A row xk (lane div 8) (lane mod 8) sb
        (q4k_load row xk (lane div 8) (lane mod 8) sb)) (ar_zero A, ar_zero A)
     in ar_add A a0 a1)"

lemma unrolled_loop:
  fixes F :: "nat \<Rightarrow> 'x \<Rightarrow> 's \<Rightarrow> 's"
  assumes le: "n * U \<le> hi"
  shows "for_loop (n * U) hi (\<lambda>sb. F sb (L sb))
      (for_loop 0 n (\<lambda>i s. for_loop 0 U (\<lambda>u. F (i * U + u) (map (\<lambda>u. L (i * U + u)) [0..<U] ! u)) s) z)
    = for_loop 0 hi (\<lambda>sb. F sb (L sb)) z"
proof -
  have "for_loop 0 n (\<lambda>i s. for_loop 0 U (\<lambda>u. F (i * U + u) (map (\<lambda>u. L (i * U + u)) [0..<U] ! u)) s) z
      = for_loop 0 n (\<lambda>i. for_loop 0 U (\<lambda>u. F (i * U + u) (L (i * U + u)))) z"
    by (intro for_loop_cong) simp
  also have "\<dots> = for_loop 0 (n * U) (\<lambda>sb. F sb (L sb)) z" by (rule for_loop_blocks [of n U "\<lambda>sb. F sb (L sb)"])
  finally show ?thesis by (simp only: for_loop_append [OF le0 le])
qed

lemma gdot_i8k_q4_K_run: "gdot_i8k_q4_K A U row xk cols = warp_reduce_add A (q4k_run A row xk cols) 0"
proof -
  have le: "(if 1 < U then cols div 256 div U else 0) * U \<le> cols div 256" by simp
  show ?thesis
    unfolding gdot_i8k_q4_K_def q4k_run_def [abs_def] Let_def
      unrolled_loop [OF le, of "\<lambda>sb. q4k_fold A row xk (lane div 8) (lane mod 8) sb" "q4k_load row xk (lane div 8) (lane mod 8)" for lane] ..
qed

lemma q4k_fold_measure:
  "(case q4k_fold (ring_arith h g) row xk c k sb ld s of (a0, a1) \<Rightarrow> a0 + a1) = (case s of (a0, a1) \<Rightarrow> a0 + a1)
    + (h (rd16 (\<lambda>i. row (sb * 144 + i)) 0) * g (qK_d (xk sb)) * of_int (q4k_iacc_lane (\<lambda>i. row (sb * 144 + i)) c ld)
       + (if k = 0 then - (h (rd16 (\<lambda>i. row (sb * 144 + i)) 2) * g (qK_d (xk sb))) * of_int (q4k_imins_lane (\<lambda>i. row (sb * 144 + i)) c (xk sb)) else 0))"
  by (cases s) (simp add: q4k_fold_def Let_def algebra_simps)

lemma affine_K:
  "hd * gd * of_int (s * (\<Sum>i<4. n i * q i)) - hm * gd * of_int (m * (\<Sum>i<4. q i))
    = (\<Sum>i<4. (hd * of_int s * of_int (n i) - hm * of_int m) * (gd * of_int (q i)))"
  for hd hm gd :: "'a::comm_ring_1" and s m :: int and n q :: "nat \<Rightarrow> int"
  unfolding sum_distrib_left of_int_sum sum_subtractf [symmetric] by (simp add: algebra_simps)

lemma leader_term:
  fixes P :: "nat \<Rightarrow> 'a::comm_ring_1"
  assumes "n * of_int M = (\<Sum>k<8. n * of_int (m k))"
  shows "(\<Sum>k<8. P k + (if k = 0 then - n * of_int M else 0)) = (\<Sum>k<8. P k - n * of_int (m k))"
proof -
  have "(\<Sum>k<8. P k + (if k = 0 then - n * of_int M else 0)) = (\<Sum>k<8. P k) - n * of_int M"
    by (simp add: sum.distrib)
  then show ?thesis unfolding assms by (simp add: sum_subtractf)
qed

lemma i8k_q4_K_exact:
  assumes q: "\<And>sb. sb < cols div 256 \<Longrightarrow> q8K_ok (xk sb)"
  shows "gdot_i8k_q4_K (ring_arith h g) U row xk cols
    = (\<Sum>c<cols div 256 * 256. val_elem (ring_arith h g) Q4_K row c * xvalK g xk c :: 'a::comm_ring_1)"
proof -
  let ?R = "ring_arith h g" and ?nsb = "cols div 256"
  define W where "W sb = (\<lambda>i. row (sb * 144 + i))" for sb
  define sc mn where "sc sb G = uint (fst (fl_q4k_scale_min G (\<lambda>i. W sb (4 + i))))"
    and "mn sb G = uint (snd (fl_q4k_scale_min G (\<lambda>i. W sb (4 + i))))" for sb G
  define D M where "D sb = h (rd16 (W sb) 0) * g (qK_d (xk sb))" and "M sb = h (rd16 (W sb) 2) * g (qK_d (xk sb))" for sb
  define Q where "Q sb G i = qK_qs (xk sb) ! (G * 32 + i)" for sb G i
  define iacc where "iacc sb c k = q4k_iacc_lane (W sb) c (q4k_load row xk c k sb)" for sb c k
  define m where "m sb c k = mn sb (2 * c + 0) * (\<Sum>i<4. Q sb (2 * c) (4 * k + i)) + mn sb (2 * c + 1) * (\<Sum>i<4. Q sb (2 * c + 1) (4 * k + i))" for sb c k
  define T where "T sb c k = D sb * of_int (iacc sb c k) + (if k = 0 then - M sb * of_int (q4k_imins_lane (W sb) c (xk sb)) else 0)" for sb c k :: nat
  have "gdot_i8k_q4_K ?R U row xk cols = (\<Sum>lane<32. \<Sum>sb<?nsb. T sb (lane div 8) (lane mod 8))"
    unfolding gdot_i8k_q4_K_run warp_reduce_ring
  proof (rule sum.cong [OF refl])
    fix lane
    have "(\<lambda>(a0, a1). a0 + a1) (for_loop 0 ?nsb (\<lambda>sb. q4k_fold ?R row xk (lane div 8) (lane mod 8) sb (q4k_load row xk (lane div 8) (lane mod 8) sb)) (0, 0))
        = (\<lambda>(a0, a1). a0 + a1) (0, 0) + (\<Sum>sb<?nsb. T sb (lane div 8) (lane mod 8))"
      by (rule for_loop_measure [where m = "\<lambda>(a0, a1). a0 + a1"])
        (simp only: q4k_fold_measure T_def D_def M_def iacc_def W_def mult_minus_left)
    then show "q4k_run ?R row xk cols lane = (\<Sum>sb<?nsb. T sb (lane div 8) (lane mod 8))"
      unfolding q4k_run_def Let_def by (simp add: split_def)
  qed
  also have "\<dots> = (\<Sum>sb<?nsb. \<Sum>c<4. \<Sum>k<8. T sb c k)" by (rule warp_lanes)
  also have "\<dots> = (\<Sum>sb<?nsb. \<Sum>c<4. \<Sum>k<8. D sb * of_int (iacc sb c k) - M sb * of_int (m sb c k))"
    unfolding T_def
  proof (rule sum.cong [OF refl], rule sum.cong [OF refl], rule leader_term)
    fix sb c :: nat assume "sb \<in> {..<?nsb}" and "c \<in> {..<4}"
    then have ok: "q8K_ok (xk sb)" and G: "2 * c < 8" "2 * c + 1 < 8" using q by simp_all
    have ix: "4 * c + 2 + 1 = 4 * c + 3" "2 * (2 * c + 1) = 4 * c + 2" "2 * (2 * c) = 4 * c" by simp_all
    have "qK_bsums (xk sb) ! (4 * c) + qK_bsums (xk sb) ! (4 * c + 1) = (\<Sum>k<8. \<Sum>i<4. Q sb (2 * c) (4 * k + i))"
      "qK_bsums (xk sb) ! (4 * c + 2) + qK_bsums (xk sb) ! (4 * c + 3) = (\<Sum>k<8. \<Sum>i<4. Q sb (2 * c + 1) (4 * k + i))"
      using bsum_pair [OF ok G(1)] bsum_pair [OF ok G(2)] unfolding Q_def ix by (simp_all only:)
    then have "q4k_imins_lane (W sb) c (xk sb) = (\<Sum>k<8. m sb c k)"
      unfolding q4k_imins_lane_def m_def sum.distrib sum_distrib_left [symmetric] by (simp add: split_def mn_def)
    then show "M sb * of_int (q4k_imins_lane (W sb) c (xk sb)) = (\<Sum>k<8. M sb * of_int (m sb c k))"
      by (simp only: of_int_sum sum_distrib_left)
  qed
  also have "\<dots> = (\<Sum>sb<?nsb. \<Sum>G<8. \<Sum>i<32. val_elem ?R Q4_K row (32 * (sb * 8 + G) + i) * xvalK g xk (32 * (sb * 8 + G) + i))"
  proof (rule sum.cong [OF refl], rule group_pairs)
    fix sb c k :: nat assume sb: "sb \<in> {..<?nsb}" and c: "c < 4" and k: "k < 8"
    then have ok: "q8K_ok (xk sb)" and G: "2 * c < 8" "2 * c + 1 < 8" using q by simp_all
    define n1 n2 where "n1 i = uint (W sb (16 + (c * 32 + (4 * k + i))) AND 0xF)" and "n2 i = uint (drop_bit 4 (W sb (16 + (c * 32 + (4 * k + i)))))" for i
    have "dp4a (rd32 (W sb) (16 + 4 * (c * 8 + k)) AND 0x0F0F0F0F) (ld_quad (drop (2 * c * 32) (qK_qs (xk sb))) k) 0
          = 0 + (\<Sum>i<4. n1 i * drop (2 * c * 32) (qK_qs (xk sb)) ! (4 * k + i))"
      unfolding n1_def by (rule dp4a_quad [OF q8K_quad [OF ok G(1) k]]) (rule q4_lane_bytes)
    moreover have "dp4a (signed_drop_bit 4 (rd32 (W sb) (16 + 4 * (c * 8 + k))) AND 0x0F0F0F0F) (ld_quad (drop ((2 * c + 1) * 32) (qK_qs (xk sb))) k) 0
          = 0 + (\<Sum>i<4. n2 i * drop ((2 * c + 1) * 32) (qK_qs (xk sb)) ! (4 * k + i))"
      unfolding n2_def by (rule dp4a_quad [OF q8K_quad [OF ok G(2) k]]) (rule q4_lane_bytes)
    ultimately have "iacc sb c k = sc sb (2 * c + 0) * (\<Sum>i<4. n1 i * Q sb (2 * c) (4 * k + i)) + sc sb (2 * c + 1) * (\<Sum>i<4. n2 i * Q sb (2 * c + 1) (4 * k + i))"
      unfolding drop_quad [OF ok G(1)] drop_quad [OF ok G(2)] add_0_left iacc_def q4k_iacc_lane_def q4k_load_def W_def [symmetric]
      by (simp only: Let_def split_def fst_conv snd_conv prod.case Q_def sc_def)
    then have "D sb * of_int (iacc sb c k) - M sb * of_int (m sb c k)
        = (D sb * of_int (sc sb (2 * c + 0) * (\<Sum>i<4. n1 i * Q sb (2 * c) (4 * k + i))) - M sb * of_int (mn sb (2 * c + 0) * (\<Sum>i<4. Q sb (2 * c) (4 * k + i))))
        + (D sb * of_int (sc sb (2 * c + 1) * (\<Sum>i<4. n2 i * Q sb (2 * c + 1) (4 * k + i))) - M sb * of_int (mn sb (2 * c + 1) * (\<Sum>i<4. Q sb (2 * c + 1) (4 * k + i))))"
      unfolding m_def of_int_add distrib_left by (simp only:) (simp add: algebra_simps)
    also have "\<dots> = (\<Sum>i<4. val_elem ?R Q4_K row (32 * (sb * 8 + 2 * c) + (4 * k + i)) * xvalK g xk (32 * (sb * 8 + 2 * c) + (4 * k + i)))
        + (\<Sum>i<4. val_elem ?R Q4_K row (32 * (sb * 8 + (2 * c + 1)) + (4 * k + i)) * xvalK g xk (32 * (sb * 8 + (2 * c + 1)) + (4 * k + i)))"
      unfolding D_def M_def affine_K
    proof (intro arg_cong2 [where f = "(+)"])
      have i: "4 * k + i < 32" if "i \<in> {..<4}" for i using that k by simp
      note val = val_elem_q4_K [OF c i, of _ h g row sb]
      show "(\<Sum>i<4. (h (rd16 (W sb) 0) * of_int (sc sb (2 * c + 0)) * of_int (n1 i) - h (rd16 (W sb) 2) * of_int (mn sb (2 * c + 0)))
            * (g (qK_d (xk sb)) * of_int (Q sb (2 * c) (4 * k + i))))
          = (\<Sum>i<4. val_elem ?R Q4_K row (32 * (sb * 8 + 2 * c) + (4 * k + i)) * xvalK g xk (32 * (sb * 8 + 2 * c) + (4 * k + i)))"
        by (rule sum.cong [OF refl]) (simp only: val(1) xvalK_at [OF G(1) i] n1_def sc_def mn_def W_def Q_def)
      show "(\<Sum>i<4. (h (rd16 (W sb) 0) * of_int (sc sb (2 * c + 1)) * of_int (n2 i) - h (rd16 (W sb) 2) * of_int (mn sb (2 * c + 1)))
            * (g (qK_d (xk sb)) * of_int (Q sb (2 * c + 1) (4 * k + i))))
          = (\<Sum>i<4. val_elem ?R Q4_K row (32 * (sb * 8 + (2 * c + 1)) + (4 * k + i)) * xvalK g xk (32 * (sb * 8 + (2 * c + 1)) + (4 * k + i)))"
        by (rule sum.cong [OF refl]) (simp only: val(2) xvalK_at [OF G(2) i] n2_def sc_def mn_def W_def Q_def)
    qed
    finally show "D sb * of_int (iacc sb c k) - M sb * of_int (m sb c k)
        = (\<Sum>i<4. val_elem ?R Q4_K row (32 * (sb * 8 + 2 * c) + (4 * k + i)) * xvalK g xk (32 * (sb * 8 + 2 * c) + (4 * k + i)))
        + (\<Sum>i<4. val_elem ?R Q4_K row (32 * (sb * 8 + (2 * c + 1)) + (4 * k + i)) * xvalK g xk (32 * (sb * 8 + (2 * c + 1)) + (4 * k + i)))" .
  qed
  finally show ?thesis unfolding exact_super_sum .
qed

text \<open>Of the eight lanes of a span, lanes 0 and 4 subtract the sums of their groups of sixteen.\<close>

lemma leader_quads:
  fixes S B d Q :: "nat \<Rightarrow> int"
  assumes "\<And>e. e < 2 \<Longrightarrow> B e = (\<Sum>k<4. Q (4 * e + k))"
  shows "(\<Sum>k<8. S (if 4 \<le> k then 1 else 0) * d k - (if k mod 4 = 0 then S (if 4 \<le> k then 1 else 0) * 32 * B (if 4 \<le> k then 1 else 0) else 0))
    = (\<Sum>k<8. S (if 4 \<le> k then 1 else 0) * (d k - 32 * Q k))"
proof -
  have e8: "(\<Sum>k<8. f k) = f 0 + f 1 + f 2 + f 3 + f 4 + f 5 + f 6 + f 7" for f :: "nat \<Rightarrow> int"
    by (simp add: eval_nat_numeral)
  have e4: "(\<Sum>k<4. f k) = f 0 + f 1 + f 2 + f 3" for f :: "nat \<Rightarrow> int"
    by (simp add: eval_nat_numeral)
  have B: "B 0 = Q 0 + Q 1 + Q 2 + Q 3" "B 1 = Q 4 + Q 5 + Q 6 + Q 7"
    using assms [of 0] assms [of 1] unfolding e4 by (simp_all add: numeral_2_eq_2 numeral_3_eq_3)
  show ?thesis unfolding e8 by (simp add: B distrib_left right_diff_distrib del: One_nat_def)
qed


lemma for_loop_add: "for_loop 0 n (\<lambda>i a. f i + a) 0 = (\<Sum>i<n. f i)" for f :: "nat \<Rightarrow> 'a::comm_ring_1"
  by (induction n) (simp_all add: for_loop_last add.commute)

lemma i8k_q6_K_exact:
  assumes q: "\<And>sb. sb < cols div 256 \<Longrightarrow> q8K_ok (xk sb)"
  shows "gdot_i8k_q6_K (ring_arith h g) row xk cols
    = (\<Sum>c<cols div 256 * 256. val_elem (ring_arith h g) Q6_K row c * xvalK g xk c :: 'a::comm_ring_1)"
proof -
  let ?R = "ring_arith h g" and ?nsb = "cols div 256"
  define W where "W sb = (\<lambda>i. row (sb * 210 + i))" for sb
  define sc where "sc sb hf s e = sint (W sb (192 + (hf * 8 + 2 * s + e)))" for sb hf s e :: nat
  define B where "B sb hf s e = qK_bsums (xk sb) ! (2 * (hf * 4 + s) + e)" for sb hf s e
  define D where "D sb = h (rd16 (W sb) 208) * g (qK_d (xk sb))" for sb
  define dot where "dot sb hf s k = dp4a (q6_quad (W sb) hf s k) (ld_quad (drop ((hf * 4 + s) * 32) (qK_qs (xk sb))) k) 0" for sb hf s k
  define Q where "Q sb hf s k = (\<Sum>i<4. qK_qs (xk sb) ! ((hf * 4 + s) * 32 + (4 * k + i)))" for sb hf s k
  define T where "T sb s k = D sb * of_int (\<Sum>hf<2. sc sb hf s (if 4 \<le> k then 1 else 0) * dot sb hf s k
      - (if k mod 4 = 0 then sc sb hf s (if 4 \<le> k then 1 else 0) * 32 * B sb hf s (if 4 \<le> k then 1 else 0) else 0))" for sb s k :: nat
  define T' where "T' sb s k = D sb * of_int (\<Sum>hf<2. sc sb hf s (if 4 \<le> k then 1 else 0) * (dot sb hf s k - 32 * Q sb hf s k))" for sb s k :: nat
  have "gdot_i8k_q6_K ?R row xk cols = (\<Sum>lane<32. \<Sum>sb<?nsb. T sb (lane div 8) (lane mod 8))"
    unfolding gdot_i8k_q6_K_def warp_reduce_ring Let_def [of "_ div 8"] Let_def [of "_ mod 8"]
  proof (rule sum.cong [OF refl])
    fix lane :: nat
    let ?s = "lane div 8" and ?k = "lane mod 8"
    have isb: "for_loop 0 2 (\<lambda>hf isb. isb + (if ?k mod 4 = 0 then F hf - G hf else F hf)) 0 = (\<Sum>hf<2. F hf - (if ?k mod 4 = 0 then G hf else 0))"
      for F G :: "nat \<Rightarrow> int"
      unfolding for_loop_sum by (cases "?k mod 4 = 0") simp_all
    show "for_loop 0 ?nsb (\<lambda>sb acc.
        let bp = (\<lambda>i. row (sb * 210 + i)); dw = ar_half ?R (rd16 bp 208); dk = ar_f32 ?R (qK_d (xk sb));
            isb = for_loop 0 2 (\<lambda>h isb.
              let wq = q6_quad bp h ?s ?k; g16 = (if 4 \<le> ?k then 1 else 0);
                  sc = sint (bp (192 + (h * 8 + 2 * ?s + g16)));
                  xv = ld_quad (drop ((h * 4 + ?s) * 32) (qK_qs (xk sb))) ?k;
                  tpart = sc * dp4a wq xv 0;
                  tpart = (if ?k mod 4 = 0 then tpart - sc * 32 * (qK_bsums (xk sb) ! (2 * (h * 4 + ?s) + g16)) else tpart)
              in isb + tpart) 0
        in ar_fma ?R (ar_mul ?R dw dk) (ar_int ?R isb) acc) (ar_zero ?R) = (\<Sum>sb<?nsb. T sb ?s ?k)"
      unfolding Let_def isb ring_arith_sel T_def D_def sc_def dot_def B_def W_def by (rule for_loop_add)
  qed
  also have "\<dots> = (\<Sum>sb<?nsb. \<Sum>s<4. \<Sum>k<8. T sb s k)" by (rule warp_lanes)
  also have "\<dots> = (\<Sum>sb<?nsb. \<Sum>s<4. \<Sum>k<8. T' sb s k)"
  proof (rule sum.cong [OF refl], rule sum.cong [OF refl])
    fix sb s :: nat assume sb: "sb \<in> {..<?nsb}" and s: "s \<in> {..<4}"
    have "(\<Sum>k<8. \<Sum>hf<2. sc sb hf s (if 4 \<le> k then 1 else 0) * dot sb hf s k
        - (if k mod 4 = 0 then sc sb hf s (if 4 \<le> k then 1 else 0) * 32 * B sb hf s (if 4 \<le> k then 1 else 0) else 0))
      = (\<Sum>k<8. \<Sum>hf<2. sc sb hf s (if 4 \<le> k then 1 else 0) * (dot sb hf s k - 32 * Q sb hf s k))"
      unfolding sum.swap [of _ "{..<2}"]
    proof (rule sum.cong [OF refl], rule leader_quads)
      fix hf e :: nat assume "hf \<in> {..<2}" and e: "e < 2"
      then have g: "2 * (hf * 4 + s) + e < 16" using s by simp
      have ix: "16 * (2 * (hf * 4 + s) + e) + (4 * k + i) = (hf * 4 + s) * 32 + (4 * (4 * e + k) + i)" for k i by simp
      show "B sb hf s e = (\<Sum>k<4. Q sb hf s (4 * e + k))"
        unfolding B_def Q_def using bsum_quads [OF q g] sb unfolding ix by simp
    qed
    then show "(\<Sum>k<8. T sb s k) = (\<Sum>k<8. T' sb s k)"
      unfolding T_def T'_def by (simp only: sum_distrib_left [symmetric] of_int_sum [symmetric])
  qed
  also have "\<dots> = (\<Sum>sb<?nsb. \<Sum>G<8. \<Sum>i<32. val_elem ?R Q6_K row (32 * (sb * 8 + G) + i) * xvalK g xk (32 * (sb * 8 + G) + i))"
  proof (rule sum.cong [OF refl], rule group_halves)
    fix sb s k :: nat assume sb: "sb \<in> {..<?nsb}" and s: "s < 4" and k: "k < 8"
    show "T' sb s k = (\<Sum>hf<2. \<Sum>i<4. val_elem ?R Q6_K row (32 * (sb * 8 + (hf * 4 + s)) + (4 * k + i))
        * xvalK g xk (32 * (sb * 8 + (hf * 4 + s)) + (4 * k + i)))"
      unfolding T'_def of_int_sum sum_distrib_left
    proof (rule sum.cong [OF refl])
      fix hf :: nat assume "hf \<in> {..<2}"
      then have hf: "hf < 2" and G: "hf * 4 + s < 8" using s by simp_all
      have ok: "q8K_ok (xk sb)" using q sb by simp
      define w where "w i = q6_bits (\<lambda>j. W sb (64 * hf + j)) (\<lambda>j. W sb (128 + 32 * hf + j)) s (4 * k + i)" for i
      have dot: "dot sb hf s k = 0 + (\<Sum>i<4. w i * drop ((hf * 4 + s) * 32) (qK_qs (xk sb)) ! (4 * k + i))"
        unfolding dot_def w_def by (rule dp4a_quad [OF q8K_quad [OF ok G k]]) (rule q6_lane_bytes [OF s])
      show "D sb * of_int (sc sb hf s (if 4 \<le> k then 1 else 0) * (dot sb hf s k - 32 * Q sb hf s k))
        = (\<Sum>i<4. val_elem ?R Q6_K row (32 * (sb * 8 + (hf * 4 + s)) + (4 * k + i)) * xvalK g xk (32 * (sb * 8 + (hf * 4 + s)) + (4 * k + i)))"
        unfolding dot drop_quad [OF ok G] add_0_left Q_def D_def scaled_quad
      proof (rule sum.cong [OF refl])
        fix i :: nat assume "i \<in> {..<4}"
        then have i: "i < 4" "4 * k + i < 32" using k by simp_all
        have e: "192 + 8 * hf + ((4 * k + i) div 16 + 2 * s) = 192 + (hf * 8 + 2 * s + (if 4 \<le> k then 1 else 0))"
          unfolding quad_half [OF k i(1)] by simp
        show "h (rd16 (W sb) 208) * of_int (sc sb hf s (if 4 \<le> k then 1 else 0)) * of_int (w i - 32)
            * (g (qK_d (xk sb)) * of_int (qK_qs (xk sb) ! ((hf * 4 + s) * 32 + (4 * k + i))))
          = val_elem ?R Q6_K row (32 * (sb * 8 + (hf * 4 + s)) + (4 * k + i)) * xvalK g xk (32 * (sb * 8 + (hf * 4 + s)) + (4 * k + i))"
          unfolding val_elem_q6_K [OF hf s i(2)] xvalK_at [OF G i(2)] e unfolding w_def sc_def W_def ..
      qed
    qed
  qed
  finally show ?thesis unfolding exact_super_sum .
qed

section \<open>Several columns\<close>

text \<open>A loop seen through a projection its body respects.\<close>

lemma for_loop_view:
  assumes "\<And>i s. v (body i s) = body' i (v s)"
  shows "v (for_loop lo hi body s) = for_loop lo hi body' (v s)"
proof (cases "lo \<le> hi")
  case True
  then show ?thesis by (induction hi rule: nat_induct_at_least) (simp_all add: for_loop_last assms)
qed simp

lemma column_loop:
  assumes body: "\<And>p st. body p st = ((fst st)(p := fst (F p (fst st p, snd st p))), (snd st)(p := snd (F p (fst st p, snd st p))))"
    and p: "p < pc"
  shows "(\<lambda>st. (fst st p, snd st p)) (for_loop 0 pc body st) = F p (fst st p, snd st p)"
proof -
  have "(\<lambda>st. (fst st p, snd st p)) (for_loop 0 n body st) = (if p < n then F p (fst st p, snd st p) else (fst st p, snd st p))" for n
    by (induction n) (auto simp: for_loop_last body)
  then show ?thesis using p by simp
qed

lemma chunk_store_loop:
  "for_loop 0 pc (\<lambda>pp out. out(p0 + pp := R (p0 + pp))) out = (\<lambda>p. if p0 \<le> p \<and> p < p0 + pc then R p else out p)"
  by (induction pc) (auto simp: for_loop_last fun_eq_iff)

lemma chunk_loop:
  assumes p: "p < nx"
  shows "for_loop 0 ((nx + 3) div 4) (\<lambda>i out. for_loop 0 (if nx - i * 4 < 4 then nx - i * 4 else 4)
      (\<lambda>pp out. out(i * 4 + pp := R i pp)) out) z p = R (p div 4) (p mod 4)"
proof -
  let ?S = "\<lambda>p. R (p div 4) (p mod 4)"
  have S: "for_loop 0 (if nx - i * 4 < 4 then nx - i * 4 else 4) (\<lambda>pp out. out(i * 4 + pp := R i pp)) out
      = (\<lambda>p. if i * 4 \<le> p \<and> p < i * 4 + (if nx - i * 4 < 4 then nx - i * 4 else 4) then ?S p else out p)" for i out
    unfolding chunk_store_loop [symmetric] by (rule for_loop_cong) (auto split: if_splits)
  have "for_loop 0 n (\<lambda>i out. for_loop 0 (if nx - i * 4 < 4 then nx - i * 4 else 4) (\<lambda>pp out. out(i * 4 + pp := R i pp)) out) z p
      = (if p < n * 4 then ?S p else z p)" for n
    unfolding S by (induction n) (use p in \<open>auto simp: for_loop_last split: if_splits\<close>)
  moreover have "p < (nx + 3) div 4 * 4" using p by linarith
  ultimately show ?thesis by simp
qed

lemma mc_superblock:
  "(let bp = (\<lambda>i. row (sb * 144 + i)); d = ar_half A (rd16 bp 0); dmin = ar_half A (rd16 bp 2);
        (sc1, mn1) = fl_q4k_scale_min (2 * c + 0) (\<lambda>i. bp (4 + i));
        (sc2, mn2) = fl_q4k_scale_min (2 * c + 1) (\<lambda>i. bp (4 + i));
        wq = rd32 bp (16 + 4 * (c * 8 + k)); lo = wq AND 0x0F0F0F0F; hi = signed_drop_bit 4 wq AND 0x0F0F0F0F
    in for_loop 0 pc (\<lambda>pp (a0, a1).
         let xb = xk (p0 + pp) sb; dk = ar_f32 A (qK_d xb);
             xlo = ld_quad (drop (2 * c * 32) (qK_qs xb)) k; xhi = ld_quad (drop ((2 * c + 1) * 32) (qK_qs xb)) k;
             iacc = uint sc1 * dp4a lo xlo 0 + uint sc2 * dp4a hi xhi 0;
             a0 = a0(pp := ar_fma A (ar_mul A d dk) (ar_int A iacc) (a0 pp))
         in if k = 0
            then let imins = uint mn1 * (qK_bsums xb ! (4 * c) + qK_bsums xb ! (4 * c + 1))
                       + uint mn2 * (qK_bsums xb ! (4 * c + 2) + qK_bsums xb ! (4 * c + 3))
                 in (a0, a1(pp := ar_fma A (ar_neg A (ar_mul A dmin dk)) (ar_int A imins) (a1 pp)))
            else (a0, a1)) st)
    = for_loop 0 pc (\<lambda>pp st. let v = q4k_fold A row (xk (p0 + pp)) c k sb (q4k_load row (xk (p0 + pp)) c k sb) (fst st pp, snd st pp)
        in ((fst st)(pp := fst v), (snd st)(pp := snd v))) st"
  unfolding q4k_fold_def q4k_load_def q4k_iacc_lane_def q4k_imins_lane_def Let_def split_def fst_conv snd_conv
  by (intro for_loop_cong) simp

lemma q4k_mc_column:
  assumes p: "p < nx"
  shows "gdot_i8k_q4_K_mc A row xk nx cols p = gdot_i8k_q4_K A U row (xk p) cols"
proof -
  let ?pc = "if nx - p div 4 * 4 < 4 then nx - p div 4 * 4 else 4" and ?pp = "p mod 4"
  have col: "p div 4 * 4 + ?pp = p" by simp
  have "a + b = p \<Longrightarrow> b < nx - a" for a b :: nat using p by linarith
  from this [OF col] have pc: "?pp < ?pc" by simp
  define F where "F c k sb pp = q4k_fold A row (xk (p div 4 * 4 + pp)) c k sb (q4k_load row (xk (p div 4 * 4 + pp)) c k sb)" for c k sb pp
  define ACC where "ACC c k = for_loop 0 (cols div 256) (\<lambda>sb. for_loop 0 ?pc (\<lambda>pp st. let v = F c k sb pp (fst st pp, snd st pp)
        in ((fst st)(pp := fst v), (snd st)(pp := snd v)))) (\<lambda>_. ar_zero A, \<lambda>_. ar_zero A)" for c k
  define V where "V st = (fst st ?pp, snd st ?pp)" for st :: "(nat \<Rightarrow> 'a) \<times> (nat \<Rightarrow> 'a)"
  have step: "V (for_loop 0 ?pc (\<lambda>pp st. let v = F c k sb pp (fst st pp, snd st pp)
        in ((fst st)(pp := fst v), (snd st)(pp := snd v))) st) = F c k sb ?pp (V st)" for c k sb st
    unfolding V_def by (rule column_loop [OF _ pc, where F = "F c k sb"]) (simp only: Let_def)
  have "V (ACC c k) = for_loop 0 (cols div 256) (\<lambda>sb. F c k sb ?pp) (V (\<lambda>_. ar_zero A, \<lambda>_. ar_zero A))" for c k
    unfolding ACC_def by (rule for_loop_view) (rule step)
  then have "(fst (ACC c k) ?pp, snd (ACC c k) ?pp)
      = for_loop 0 (cols div 256) (\<lambda>sb. q4k_fold A row (xk p) c k sb (q4k_load row (xk p) c k sb)) (ar_zero A, ar_zero A)" for c k
    unfolding V_def F_def col by simp
  then have "ar_add A (fst (ACC (lane div 8) (lane mod 8)) ?pp) (snd (ACC (lane div 8) (lane mod 8)) ?pp) = q4k_run A row (xk p) cols lane" for lane
    unfolding q4k_run_def Let_def split_def by (metis fst_conv snd_conv)
  moreover have "gdot_i8k_q4_K_mc A row xk nx cols p
      = warp_reduce_add A (\<lambda>lane. ar_add A (fst (ACC (lane div 8) (lane mod 8)) ?pp) (snd (ACC (lane div 8) (lane mod 8)) ?pp)) 0"
    unfolding gdot_i8k_q4_K_mc_def mc_superblock unfolding ACC_def F_def Let_def by (rule chunk_loop [OF p])
  ultimately show ?thesis unfolding gdot_i8k_q4_K_run by simp
qed

section \<open>The leader's broadcast\<close>

text \<open>The kernel kept beside the dispatched one broadcasts packed scales and takes the sums the
  quantiser stored; when those are the sums of the block it computes the same value.\<close>

lemma byte_field:
  "i < 4 \<Longrightarrow> uint (drop_bit (8 * i) (rd32 B 0) AND 0xFF) = uint (B i)"
proof -
  assume i: "i < 4"
  have m: "(0xFF :: u32) = mask 8" by (simp add: mask_eq_exp_minus_1)
  have "uint (drop_bit (8 * i) (rd32 B 0) AND 0xFF) = uint (byte_of (rd32 B 0) i)"
    unfolding m take_bit_eq_mask [symmetric] byte_of_def by (simp add: unsigned_take_bit_eq unsigned_ucast_eq)
  then show ?thesis using i by simp
qed

lemma packed_fields:
  fixes a b c d :: u8
  defines "P \<equiv> ucast a OR push_bit 8 (ucast b) OR push_bit 16 (ucast c) OR push_bit 24 (ucast d) :: u32"
  shows "uint (P AND 0xFF) = uint a" "uint (drop_bit 8 P AND 0xFF) = uint b" "uint (drop_bit 16 P AND 0xFF) = uint c"
    "uint (drop_bit 24 P) = uint d"
proof -
  have P: "P = rd32 (\<lambda>i. [a, b, c, d] ! i) 0" unfolding P_def rd32_def by (simp add: ac_simps)
  show "uint (P AND 0xFF) = uint a" "uint (drop_bit 8 P AND 0xFF) = uint b" "uint (drop_bit 16 P AND 0xFF) = uint c"
    using byte_field [of 0 "\<lambda>i. [a, b, c, d] ! i"] byte_field [of 1 "\<lambda>i. [a, b, c, d] ! i"] byte_field [of 2 "\<lambda>i. [a, b, c, d] ! i"]
    unfolding P by simp_all
  have m: "(0xFF :: u32) = mask 8" by (simp add: mask_eq_exp_minus_1)
  have "drop_bit 24 P AND 0xFF = drop_bit 24 P"
    unfolding m by (rule bit_word_eqI) (auto simp: bit_and_iff bit_mask_iff bit_drop_bit_eq dest: bit_imp_le_length)
  then show "uint (drop_bit 24 P) = uint d"
    using byte_field [of 3 "\<lambda>i. [a, b, c, d] ! i"] unfolding P by simp
qed

lemma leader_lane: "(lane div 8 * 8 + 0) mod 8 = (0 :: nat)" "(lane div 8 * 8 + 0) div 8 = (lane div 8 :: nat)"
  by simp_all

lemma leader_case:
  "(c \<Longrightarrow> x = a + p - l) \<Longrightarrow> (\<not> c \<Longrightarrow> y = a + p) \<Longrightarrow> (if c then x else y) = a + (p + (if c then - l else 0))"
  for x y a p l :: "'a::comm_ring_1"
  by simp

lemma for_loop_plus:
  assumes "\<And>i a. i < n \<Longrightarrow> body i a = a + t i"
  shows "for_loop 0 n body 0 = (\<Sum>i<n. t i :: 'a::comm_ring_1)"
  using for_loop_measure [where m = "\<lambda>a. a" and body = body and t = t and s = 0, OF assms] by simp

lemma i8_q4_K_leader:
  assumes q: "\<And>b. b < cols div 256 * 8 \<Longrightarrow> qs_ok 32 (q1_qs (xq b))"
    and s: "\<And>b. b < cols div 256 * 8 \<Longrightarrow> h (q1_s (xq b)) = h (q1_d (xq b)) * of_int (\<Sum>i<32. q1_qs (xq b) ! i)"
  shows "gdot_i8_q4_K (ring_arith h g) row xq cols = (gdot_i8_q4_K_v1 (ring_arith h g) row xq cols :: 'a::comm_ring_1)"
proof -
  let ?R = "ring_arith h g" and ?nsb = "cols div 256"
  define W where "W sb = (\<lambda>i. row (sb * 144 + i))" for sb
  define sc mn where "sc sb G = uint (fst (fl_q4k_scale_min G (\<lambda>i. W sb (4 + i))))"
    and "mn sb G = uint (snd (fl_q4k_scale_min G (\<lambda>i. W sb (4 + i))))" for sb G
  define dx where "dx sb G = h (q1_d (xq (sb * 8 + G)))" for sb G
  define X where "X sb G k = ld_quad (q1_qs (xq (sb * 8 + G))) k" for sb G k
  define wq where "wq sb c k = rd32 (W sb) (16 + 4 * (c * 8 + k))" for sb c k
  define P where "P sb c k = h (rd16 (W sb) 0) * of_int (sc sb (2 * c + 0)) * dx sb (2 * c) * of_int (dp4a (wq sb c k AND 0x0F0F0F0F) (X sb (2 * c) k) 0)
     + h (rd16 (W sb) 0) * of_int (sc sb (2 * c + 1)) * dx sb (2 * c + 1) * of_int (dp4a (signed_drop_bit 4 (wq sb c k) AND 0x0F0F0F0F) (X sb (2 * c + 1) k) 0)" for sb c k
  define Z where "Z sb c k = h (rd16 (W sb) 2) * of_int (mn sb (2 * c + 0)) * dx sb (2 * c) * of_int (dp4a 0x01010101 (X sb (2 * c) k) 0)
     + h (rd16 (W sb) 2) * of_int (mn sb (2 * c + 1)) * dx sb (2 * c + 1) * of_int (dp4a 0x01010101 (X sb (2 * c + 1) k) 0)" for sb c k
  define L where "L sb c = h (rd16 (W sb) 2) * of_int (mn sb (2 * c + 0)) * h (q1_s (xq (sb * 8 + 2 * c)))
     + h (rd16 (W sb) 2) * of_int (mn sb (2 * c + 1)) * h (q1_s (xq (sb * 8 + (2 * c + 1))))" for sb c
  have v1: "gdot_i8_q4_K_v1 ?R row xq cols = (\<Sum>lane<32. \<Sum>sb<?nsb. P sb (lane div 8) (lane mod 8) - Z sb (lane div 8) (lane mod 8))"
    unfolding gdot_i8_q4_K_v1_def warp_reduce_ring Let_def [of "_ div 8"] Let_def [of "_ mod 8"]
    by (rule sum.cong [OF refl], rule gsum4_loop)
      (simp only: Let_def split_def gsum4_fma ring_arith_sel zero_less_numeral one_less_numeral_iff numeral_less_iff semiring_norm,
       simp add: P_def Z_def sc_def mn_def dx_def X_def wq_def W_def algebra_simps)
  have v2: "gdot_i8_q4_K ?R row xq cols = (\<Sum>lane<32. \<Sum>sb<?nsb. P sb (lane div 8) (lane mod 8) + (if lane mod 8 = 0 then - L sb (lane div 8) else 0))"
    unfolding gdot_i8_q4_K_def warp_reduce_ring Let_def [of "_ div 8"] Let_def [of "_ mod 8"]
    by (rule sum.cong [OF refl], unfold ring_arith_sel(1), rule for_loop_plus)
      (simp only: Let_def split_def shfl8_def leader_lane refl if_True packed_fields ring_arith_sel
         P_def L_def sc_def mn_def dx_def X_def wq_def W_def,
       intro leader_case, simp_all only: algebra_simps mult_minus_right mult_minus_left diff_conv_add_uminus minus_add_distrib minus_minus)
  have "(\<Sum>k<8. P sb c k + (if k = 0 then - L sb c else 0)) = (\<Sum>k<8. P sb c k - Z sb c k)" if sb: "sb < ?nsb" and c: "c < 4" for sb c
  proof -
    have G: "2 * c < 8" "2 * c + 1 < 8" using c by simp_all
    have b: "sb * 8 + 2 * c < ?nsb * 8" "sb * 8 + (2 * c + 1) < ?nsb * 8"
      using c sb mult_le_mono1 [of "Suc sb" ?nsb 8] by simp_all
    have ones: "(\<Sum>k<8. dp4a 0x01010101 (X sb G k) 0) = (\<Sum>i<32. q1_qs (xq (sb * 8 + G)) ! i)" if "G < 8" for G
      unfolding X_def sum_quads [symmetric]
    proof (rule sum.cong [OF refl])
      fix k :: nat assume "k \<in> {..<8}"
      then have "quad_ok (q1_qs (xq (sb * 8 + G))) k" by (intro super_quads_ok [of ?nsb xq, OF q sb that]) simp_all
      from dp4a_ones [OF this] show "dp4a 0x01010101 (ld_quad (q1_qs (xq (sb * 8 + G))) k) 0 = (\<Sum>i<4. q1_qs (xq (sb * 8 + G)) ! (4 * k + i))"
        by (simp only: add_0_left)
    qed
    have "(\<Sum>k<8. Z sb c k) = L sb c"
      unfolding Z_def L_def sum.distrib s [OF b(1)] s [OF b(2)] ones [OF G(1), symmetric] ones [OF G(2), symmetric]
      by (simp add: sum_distrib_left dx_def mult.assoc)
    then show ?thesis by (simp add: sum.distrib sum_subtractf)
  qed
  then show ?thesis unfolding v1 v2 warp_lanes [where F = "\<lambda>sb c k. P sb c k - Z sb c k"]
      warp_lanes [where F = "\<lambda>sb c k. P sb c k + (if k = 0 then - L sb c else 0)"] by simp
qed

section \<open>Properties\<close>

definition int8_K :: "u32 \<Rightarrow> fmt \<Rightarrow> bool" where "int8_K m f \<longleftrightarrow> (f = Q4_K \<or> f = Q6_K) \<and> mask_bit m f"

text \<open>C21: The int8 kernels the GPU dispatches compute, in exact arithmetic, the dot of the dequantised
  row with the dequantised activations over every whole block: no quad, lane, accumulator, sign or
  offset trick of any format adds or loses a term, with quantised activations of either layout and
  with any unrolling.\<close>

theorem gpu_int8_dots:
  assumes "f \<noteq> F32"
    and "int8_K i8k_mask f \<Longrightarrow> \<forall>sb < cols div 256. q8K_ok (xk sb)"
    and "\<not> int8_K i8k_mask f \<Longrightarrow> \<forall>b < cols div dot_grain f * (dot_grain f div 32). qs_ok 32 (q1_qs (xq b))"
  shows "gdot_i8 (ring_arith h g) U i8k_mask f row x xq xk cols
    = (\<Sum>c<cols div dot_grain f * dot_grain f. val_elem (ring_arith h g) f row c
        * (if int8_K i8k_mask f then xvalK g xk c else xval8 h xq c) :: 'a::comm_ring_1)"
proof (cases "int8_K i8k_mask f")
  case True
  then have "f = Q4_K \<or> f = Q6_K" by (simp add: int8_K_def)
  then show ?thesis
    using True assms(2) by (auto simp: int8_K_def gdot_i8_def dot_grain_def i8k_q4_K_exact i8k_q6_K_exact)
next
  case False
  then have d: "gdot_i8 (ring_arith h g) U i8k_mask f row x xq xk cols = (case f of
       Q8_0 \<Rightarrow> gdot_i8_q8_0 (ring_arith h g) row xq cols
     | Q5_0 \<Rightarrow> gdot_i8_q5_0 (ring_arith h g) row xq cols
     | Q4_K \<Rightarrow> gdot_i8_q4_K_v1 (ring_arith h g) row xq cols
     | Q6_K \<Rightarrow> gdot_i8_q6_K (ring_arith h g) row xq cols
     | IQ2_XXS \<Rightarrow> gdot_i8_iq2_xxs (ring_arith h g) row xq cols
     | IQ3_XXS \<Rightarrow> gdot_i8_iq3_xxs (ring_arith h g) row xq cols
     | F32 \<Rightarrow> gdot_f32 (ring_arith h g) row x cols)"
    unfolding gdot_i8_def int8_K_def by (rule if_not_P)
  have q: "\<forall>b < cols div dot_grain f * (dot_grain f div 32). qs_ok 32 (q1_qs (xq b))" using assms(3) False by blast
  show ?thesis
    unfolding d if_not_P [OF False] using q assms(1)
    by (cases f) (simp_all add: dot_grain_def i8_q8_0_exact i8_q5_0_exact i8_q4_K_exact i8_q6_K_exact i8_iq2_xxs_exact i8_iq3_xxs_exact)
qed

theorem gpu_int8_dots_witness:
  "gdot_i8 (ring_arith (\<lambda>_. 2) (\<lambda>_. 3)) 1 0 Q8_0 (\<lambda>_. 1) (\<lambda>_. 0)
     (\<lambda>_. \<lparr>q1_d = 0x3C00, q1_s = 0, q1_qs = replicate 32 5\<rparr>) (\<lambda>_. \<lparr>qK_d = 0, qK_bsums = [], qK_qs = []\<rparr>) 32 = (640 :: int)"
proof -
  let ?xq = "\<lambda>_. \<lparr>q1_d = 0x3C00, q1_s = 0, q1_qs = replicate 32 5\<rparr>"
  have v: "val_elem (ring_arith (\<lambda>_. 2) (\<lambda>_. 3)) Q8_0 (\<lambda>_. 1) c * xval8 (\<lambda>_. 2) ?xq c = (20 :: int)" for c
    by (simp add: val_elem_def val_block.simps xval8_def)
  have "\<not> int8_K 0 Q8_0" by (simp add: int8_K_def)
  then show ?thesis
    using gpu_int8_dots [of Q8_0 0 32 "\<lambda>_. \<lparr>qK_d = 0, qK_bsums = [], qK_qs = []\<rparr>" ?xq "\<lambda>_. 2 :: int" "\<lambda>_. 3" 1 "\<lambda>_. 1" "\<lambda>_. 0"]
    by (simp add: dot_grain_def qs_ok_def v list_all_iff)
qed

text \<open>C23: In any arithmetic, floats included, the rewritten Q4\_K kernels change no bit: the unrolled
  loop of any depth computes what the plain loop does, and every column of the kernel that unpacks
  the weights once per four columns is the column computed alone.\<close>

theorem gpu_kernel_rewrites:
  "gdot_i8k_q4_K A U row xk cols = gdot_i8k_q4_K A 1 row xk cols
   \<and> map (gdot_i8k_q4_K_mc A row xs nx cols) [0..<nx] = map (\<lambda>p. gdot_i8k_q4_K A U row (xs p) cols) [0..<nx]"
proof (intro conjI)
  show "gdot_i8k_q4_K A U row xk cols = gdot_i8k_q4_K A 1 row xk cols" by (simp only: gdot_i8k_q4_K_run)
  show "map (gdot_i8k_q4_K_mc A row xs nx cols) [0..<nx] = map (\<lambda>p. gdot_i8k_q4_K A U row (xs p) cols) [0..<nx]"
    by (rule map_cong [OF refl]) (simp add: q4k_mc_column)
qed

end
