(* ===== verification/FL_Gpu_Exec.thy ===== *)
theory FL_Gpu_Exec
  imports FL_Gpu_I8_Super
begin

text \<open>
  \<open>exec_task_block\<close> of \<open>src/runtime/gpu_exec.cu\<close>: a thread block executes a task. The block's warps
  (or threads) each walk a strided share of the rows; between barriers nothing orders them, so a
  schedule, a list naming which of them moves next, is an argument of every block operation and the
  properties hold for every schedule that lets them all finish. Widths are multiples of the warp.
\<close>

section \<open>Concurrent loops\<close>

text \<open>The state is what every agent has left to do and the shared memory; a move of an agent
  performs its next action.\<close>

definition par_step :: "('i \<Rightarrow> 's \<Rightarrow> 's) \<Rightarrow> nat \<Rightarrow> (nat \<Rightarrow> 'i list) \<times> 's \<Rightarrow> (nat \<Rightarrow> 'i list) \<times> 's" where
  "par_step body w = (\<lambda>(prog, s). case prog w of [] \<Rightarrow> (prog, s) | a # as \<Rightarrow> (prog(w := as), body a s))"

definition par_run :: "('i \<Rightarrow> 's \<Rightarrow> 's) \<Rightarrow> (nat \<Rightarrow> 'i list) \<Rightarrow> nat list \<Rightarrow> 's \<Rightarrow> 's" where
  "par_run body prog sched s = snd (fold (par_step body) sched (prog, s))"

text \<open>Every agent below \<open>n\<close> gets its turns.\<close>

definition fair :: "nat \<Rightarrow> (nat \<Rightarrow> 'i list) \<Rightarrow> nat list \<Rightarrow> bool" where
  "fair n prog sched \<longleftrightarrow> list_all (\<lambda>w. w < n) sched \<and> list_all (\<lambda>w. length (prog w) \<le> count_list sched w) [0..<n]"

lemma sum_insert_one:
  fixes F G :: "nat \<Rightarrow> 'i multiset"
  assumes w: "w < n" and "F w = add_mset a (G w)" and "\<And>v. v \<noteq> w \<Longrightarrow> F v = G v"
  shows "(\<Sum>v<n. F v) = add_mset a (\<Sum>v<n. G v)"
proof -
  have "(\<Sum>v\<in>{..<n} - {w}. F v) = (\<Sum>v\<in>{..<n} - {w}. G v)" using assms(3) by (intro sum.cong) auto
  then show ?thesis
    using w assms(2) sum.remove [of "{..<n}" w F] sum.remove [of "{..<n}" w G] by simp
qed

lemma par_run_log:
  assumes "list_all (\<lambda>w. w < n) sched"
  shows "\<exists>L. par_run body prog sched s = fold body L s
    \<and> mset L = (\<Sum>w<n. mset (take (count_list sched w) (prog w)))"
  using assms
proof (induction sched arbitrary: prog s)
  case (Cons v sched)
  then have v: "v < n" by simp
  show ?case
  proof (cases "prog v")
    case Nil
    have step: "par_run body prog (v # sched) s = par_run body prog sched s"
      by (simp add: par_run_def par_step_def Nil)
    obtain L where L: "par_run body prog sched s = fold body L s"
      "mset L = (\<Sum>w<n. mset (take (count_list sched w) (prog w)))"
      using Cons.IH Cons.prems by fastforce
    have "mset (take (count_list (v # sched) w) (prog w)) = mset (take (count_list sched w) (prog w))" for w
      using Nil by (cases "w = v") simp_all
    then show ?thesis using L step by (intro exI [of _ L]) simp
  next
    case (Cons a as)
    have step: "par_run body prog (v # sched) s = par_run body (prog(v := as)) sched (body a s)"
      by (simp add: par_run_def par_step_def Cons)
    obtain L where L: "par_run body (prog(v := as)) sched (body a s) = fold body L (body a s)"
      "mset L = (\<Sum>w<n. mset (take (count_list sched w) ((prog(v := as)) w)))"
      using Cons.IH Cons.prems by fastforce
    have "(\<Sum>w<n. mset (take (count_list (v # sched) w) (prog w)))
        = add_mset a (\<Sum>w<n. mset (take (count_list sched w) ((prog(v := as)) w)))"
      by (rule sum_insert_one [OF v]) (simp_all add: Cons)
    then show ?thesis using L step by (intro exI [of _ "a # L"]) simp
  qed
qed (simp add: par_run_def)

lemma par_run_fold:
  assumes fair: "fair n prog sched" and xs: "mset xs = (\<Sum>w<n. mset (prog w))"
    and commute: "\<And>a b. a \<in> set xs \<Longrightarrow> b \<in> set xs \<Longrightarrow> body a \<circ> body b = body b \<circ> body a"
  shows "par_run body prog sched s = fold body xs s"
proof -
  have "list_all (\<lambda>w. w < n) sched" using fair by (simp add: fair_def)
  from par_run_log [OF this, of body prog s] obtain L where L: "par_run body prog sched s = fold body L s"
    "mset L = (\<Sum>w<n. mset (take (count_list sched w) (prog w)))" by (elim exE conjE)
  have "take (count_list sched w) (prog w) = prog w" if "w < n" for w
    using fair that by (simp add: fair_def list_all_iff)
  then have "(\<Sum>w<n. mset (take (count_list sched w) (prog w))) = (\<Sum>w<n. mset (prog w))" by (intro sum.cong) simp_all
  then have m: "mset xs = mset L" by (simp only: L(2) xs)
  have "fold body xs = fold body L"
    by (rule fold_multiset_equiv [OF commute m])
  then show ?thesis using L(1) by simp
qed

section \<open>Column split\<close>

text \<open>\<open>31 - __clz(n)\<close>\<close>

fun msb :: "nat \<Rightarrow> nat" where "msb n = (if n < 2 then 0 else Suc (msb (n div 2)))"
declare msb.simps [simp del]

text \<open>\<open>for (s = n >> 1; s > 0; s >>= 1)\<close>\<close>

fun halvings :: "nat \<Rightarrow> nat list" where "halvings n = (if n < 2 then [] else n div 2 # halvings (n div 2))"
declare halvings.simps [simp del]

definition colsplit_tpr :: "nat \<Rightarrow> nat \<Rightarrow> nat" where "colsplit_tpr bd rows = 2 ^ msb (bd div rows)"

text \<open>The shared array after every thread stored its column stripe, and after the tree.\<close>

definition colsplit_acc :: "'a arith \<Rightarrow> nat \<Rightarrow> nat \<Rightarrow> (nat \<Rightarrow> bytes) \<Rightarrow> fvec \<Rightarrow> nat \<Rightarrow> nat \<Rightarrow> 'a" where
  "colsplit_acc A tpr rows row x cols thread =
    (let g = thread div tpr; lane = thread mod tpr
     in if g < rows
        then fold (\<lambda>c acc. ar_fma A (ar_f32 A (rd32 (row g) (4 * c))) (ar_f32 A (x c)) acc) (strided lane tpr cols) (ar_zero A)
        else ar_zero A)"

definition colsplit_tree :: "'a arith \<Rightarrow> nat \<Rightarrow> nat \<Rightarrow> (nat \<Rightarrow> 'a) \<Rightarrow> nat \<Rightarrow> 'a" where
  "colsplit_tree A tpr rows = fold (\<lambda>s red thread.
     if thread mod tpr < s \<and> thread div tpr < rows then ar_add A (red thread) (red (thread + s)) else red thread) (halvings tpr)"

definition colsplit_val :: "'a arith \<Rightarrow> nat \<Rightarrow> nat \<Rightarrow> (nat \<Rightarrow> bytes) \<Rightarrow> fvec \<Rightarrow> nat \<Rightarrow> nat \<Rightarrow> 'a" where
  "colsplit_val A bd rows row x cols g =
    (let tpr = colsplit_tpr bd rows in colsplit_tree A tpr rows (colsplit_acc A tpr rows row x cols) (g * tpr))"

section \<open>Streaming dots\<close>

record gpu_config =
  gc_fast :: bool
  gc_i8_mask :: u32
  gc_i8k_mask :: u32
  gc_mc_legacy :: bool
  gc_unroll :: nat
  gc_threads :: nat

datatype gpu_path = Columns_Q4K | Int8 | Col_Split | Dequant | Canonical

definition gpu_path :: "gpu_config \<Rightarrow> dot_tile \<Rightarrow> gpu_path" where
  "gpu_path gc t =
    (if 1 < tile_nx t \<and> gc_fast gc \<and> \<not> gc_mc_legacy gc \<and> dt_fmt t = Q4_K \<and> mask_bit (gc_i8k_mask gc) Q4_K then Columns_Q4K
     else if gc_fast gc \<and> dt_fmt t \<noteq> F32 \<and> mask_bit (gc_i8_mask gc OR gc_i8k_mask gc) (dt_fmt t) then Int8
     else if gc_fast gc \<and> dt_fmt t = F32 \<and> dt_rows t \<le> 64 \<and> 2 \<le> gc_threads gc div dt_rows t then Col_Split
     else if gc_fast gc \<and> (dt_fmt t \<noteq> F32 \<or> dt_cols t AND 3 = 0) then Dequant
     else Canonical)"

text \<open>The value a path adds to the cell of a row and a column.\<close>

definition gpu_val :: "gpu_config \<Rightarrow> bytes \<Rightarrow> dot_tile \<Rightarrow> nat \<Rightarrow> nat \<Rightarrow> f32" where
  "gpu_val gc wm t p r =
    (let row = tile_row wm t r; cols = tile_cols t
     in case gpu_path gc t of
          Columns_Q4K \<Rightarrow> gdot_i8k_q4_K_mc f32_arith row (dt_xk t) (tile_nx t) cols p
        | Int8 \<Rightarrow> gdot_i8 f32_arith (gc_unroll gc) (gc_i8k_mask gc) (dt_fmt t) row (dt_x t p) (dt_xq t p) (dt_xk t p) cols
        | Col_Split \<Rightarrow> colsplit_val f32_arith (gc_threads gc) (dt_rows t) (tile_row wm t) (dt_x t p) cols r
        | Dequant \<Rightarrow> gdot_fast f32_arith (dt_fmt t) row (dt_x t p) cols
        | Canonical \<Rightarrow> fl_dot_row_any (dt_fmt t) row (dt_x t p) cols)"

text \<open>The rows of an agent: a warp, the leader of a row group, or a thread; and the order in which it
  takes columns and rows.\<close>

definition gpu_agents :: "gpu_config \<Rightarrow> gpu_path \<Rightarrow> nat" where
  "gpu_agents gc path = (if path = Col_Split \<or> path = Canonical then gc_threads gc else gc_threads gc div 32)"

definition gpu_rows :: "gpu_config \<Rightarrow> gpu_path \<Rightarrow> nat \<Rightarrow> nat \<Rightarrow> nat list" where
  "gpu_rows gc path rows w =
    (if path = Col_Split
     then let tpr = colsplit_tpr (gc_threads gc) rows in if w mod tpr = 0 \<and> w div tpr < rows then [w div tpr] else []
     else strided w (gpu_agents gc path) rows)"

definition gpu_prog :: "gpu_config \<Rightarrow> dot_tile \<Rightarrow> nat \<Rightarrow> (nat \<times> nat) list" where
  "gpu_prog gc t w =
    (let path = gpu_path gc t; rows = gpu_rows gc path (dt_rows t) w; ps = [0..<tile_nx t]
     in if path = Columns_Q4K then concat (map (\<lambda>r. map (\<lambda>p. (p, r)) ps) rows)
        else concat (map (\<lambda>p. map (\<lambda>r. (p, r)) rows) ps))"

definition exec_dot_block :: "gpu_config \<Rightarrow> nat list \<Rightarrow> bytes \<Rightarrow> dot_tile \<Rightarrow> fvec \<Rightarrow> fvec" where
  "exec_dot_block gc sched wm t y =
    par_run (\<lambda>(p, r). acc_y (dt_ystride t) r p (gpu_val gc wm t p r)) (gpu_prog gc t) sched y"

definition exec_dot_idx_block :: "gpu_config \<Rightarrow> nat list \<Rightarrow> bytes \<Rightarrow> dot_tile \<Rightarrow> nat \<Rightarrow> nat \<Rightarrow> fvec \<Rightarrow> fvec" where
  "exec_dot_idx_block gc sched wm t id' stride = exec_dot_block gc sched wm (t\<lparr>dt_w := fl_idx_w t id' stride\<rparr>)"

section \<open>Merging and quantising\<close>

definition merge_elem :: "fvec \<Rightarrow> nat \<Rightarrow> nat \<Rightarrow> nat \<Rightarrow> f32" where
  "merge_elem x rows cols i = for_loop 0 cols (\<lambda>p acc. f32_add acc (x (p * rows + i))) 0"

definition exec_merge :: "nat \<Rightarrow> nat \<Rightarrow> fvec \<Rightarrow> fvec \<Rightarrow> fvec" where
  "exec_merge rows cols x = for_loop 0 rows (\<lambda>i y. y(i := merge_elem x rows cols i))"

definition exec_merge_block :: "nat \<Rightarrow> nat list \<Rightarrow> nat \<Rightarrow> nat \<Rightarrow> fvec \<Rightarrow> fvec \<Rightarrow> fvec" where
  "exec_merge_block bd sched rows cols x =
    par_run (\<lambda>i y. y(i := merge_elem x rows cols i)) (\<lambda>w. strided w bd rows) sched"

text \<open>The quantiser writes two arrays of blocks.\<close>

datatype act_block = Blk32 nat | Blk256 nat

type_synonym act_out = "(nat \<Rightarrow> blk_q8_1 option) \<times> (nat \<Rightarrow> blk_q8_K option)"

definition gact_body :: "fvec \<Rightarrow> act_block \<Rightarrow> act_out \<Rightarrow> act_out" where
  "gact_body x a = (\<lambda>(o1, oK). case a of
       Blk32 b \<Rightarrow> (o1(b := fl_quantize_q8_1_block (\<lambda>i. x (b * 32 + i))), oK)
     | Blk256 sb \<Rightarrow> (o1, oK(sb := fl_quantize_q8_K_block (\<lambda>i. x (sb * 256 + i)))))"

definition gact_prog :: "nat \<Rightarrow> nat \<Rightarrow> nat \<Rightarrow> act_block list" where
  "gact_prog bd cols w = map Blk32 (strided w bd (cols div 32)) @ map Blk256 (strided w bd (cols div 256))"

definition gact_q8 :: "nat \<Rightarrow> nat list \<Rightarrow> nat \<Rightarrow> fvec \<Rightarrow> act_out \<Rightarrow> act_out" where
  "gact_q8 bd sched cols x = par_run (gact_body x) (gact_prog bd cols) sched"

section \<open>The tree\<close>

lemma msb_le: "0 < n \<Longrightarrow> 2 ^ msb n \<le> n"
proof (induction n rule: msb.induct)
  case (1 n)
  show ?case
  proof (cases "n < 2")
    case False
    then have "2 ^ msb (n div 2) \<le> n div 2" by (intro "1.IH") simp_all
    then show ?thesis using False by (subst msb.simps) simp
  qed (use 1 in \<open>simp add: msb.simps\<close>)
qed

lemma halvings_pow: "halvings (2 ^ Suc k) = 2 ^ k # halvings (2 ^ k)"
proof -
  have "\<not> 2 ^ Suc k < (2 :: nat)" by simp
  then show ?thesis by (subst halvings.simps) simp
qed

lemma colsplit_tree_sum:
  assumes "g < rows" and "2 ^ k \<le> T"
  shows "fold (\<lambda>s red thread. if thread mod T < s \<and> thread div T < rows then red thread + red (thread + s) else red thread)
      (halvings (2 ^ k)) red (g * T) = (\<Sum>l<2 ^ k. red (g * T + l) :: 'a::comm_ring_1)"
  using assms(2)
proof (induction k arbitrary: red)
  case 0
  then show ?case by (simp add: halvings.simps)
next
  case (Suc k)
  let ?red = "\<lambda>thread. if thread mod T < 2 ^ k \<and> thread div T < rows then red thread + red (thread + 2 ^ k) else red thread"
  have "(\<Sum>l<2 ^ k. ?red (g * T + l)) = (\<Sum>l<2 ^ k. red (g * T + l) + red (g * T + (2 ^ k + l)))"
  proof (rule sum.cong [OF refl])
    fix l :: nat assume "l \<in> {..<2 ^ k}"
    then have l: "l < 2 ^ k" "l < T" using Suc.prems by simp_all
    then have "(g * T + l) mod T = l" "(g * T + l) div T = g" by simp_all
    then show "?red (g * T + l) = red (g * T + l) + red (g * T + (2 ^ k + l))" using l assms(1) by (simp add: ac_simps)
  qed
  also have "\<dots> = (\<Sum>l<2 ^ k + 2 ^ k. red (g * T + l))" by (simp only: sum_upto_add sum.distrib)
  finally show ?case using Suc.IH [of ?red] Suc.prems unfolding halvings_pow fold_simps comp_def by (simp add: mult_2)
qed

lemma strided_fma:
  "fold (\<lambda>c acc. w c * v c + acc) (strided l st hi) 0 = sum_list (map (\<lambda>c. w c * v c) (strided l st hi))"
  for w v :: "nat \<Rightarrow> 'a::comm_ring_1"
  using fold_fma_ring [of w v _ 0] by simp

text \<open>Every column of a row reaches the sum once, whatever the widths.\<close>

lemma colsplit_exact:
  assumes "g < rows"
  shows "colsplit_val (ring_arith h e) bd rows row x cols g = (\<Sum>c<cols. e (rd32 (row g) (4 * c)) * (e (x c) :: 'a::comm_ring_1))"
proof -
  define T where "T = colsplit_tpr bd rows"
  have T: "T = 2 ^ msb (bd div rows)" "0 < T" by (simp_all add: T_def colsplit_tpr_def)
  have acc: "colsplit_acc (ring_arith h e) T rows row x cols (g * T + l)
      = sum_list (map (\<lambda>c. e (rd32 (row g) (4 * c)) * e (x c)) (strided l T cols))" if "l < T" for l
  proof -
    have "(g * T + l) mod T = l" "(g * T + l) div T = g" using that by simp_all
    then show ?thesis using assms by (simp add: colsplit_acc_def Let_def strided_fma)
  qed
  have "colsplit_val (ring_arith h e) bd rows row x cols g = (\<Sum>l<T. colsplit_acc (ring_arith h e) T rows row x cols (g * T + l))"
    unfolding colsplit_val_def Let_def T_def [symmetric] colsplit_tree_def ring_arith_sel
    using colsplit_tree_sum [OF assms, of "msb (bd div rows)" T] unfolding T(1) [symmetric] by simp
  also have "\<dots> = (\<Sum>l\<in>{..<T}. sum_list (map (\<lambda>c. e (rd32 (row g) (4 * c)) * e (x c)) (strided l T cols)))"
    by (rule sum.cong [OF refl], rule acc) simp
  also have "\<dots> = (\<Sum>c<cols. e (rd32 (row g) (4 * c)) * e (x c))" by (rule strided_sum [OF T(2)])
  finally show ?thesis .
qed

section \<open>Every cell once\<close>

lemma sum_mset_concat: "(\<Sum>w<n. mset (f w)) = mset (concat (map f [0..<n]))"
  by (induction n) simp_all

lemma strided_msets: "0 < st \<Longrightarrow> (\<Sum>w\<in>{..<st}. mset (strided w st hi)) = mset [0..<hi]"
  unfolding sum_mset_concat by (rule strided_mset)

lemma sum_image_mset: "(\<Sum>w<n. image_mset f (M w)) = image_mset f (\<Sum>w<n. M w)" for n :: nat
  by (induction n) simp_all

lemma leader_rows:
  assumes "0 < T" and "rows * T \<le> bd"
  shows "(\<Sum>w<bd. mset (if w mod T = 0 \<and> w div T < rows then [w div T] else [])) = mset [0..<rows]"
proof -
  let ?f = "\<lambda>w. mset (if w mod T = 0 \<and> w div T < rows then [w div T] else [])"
  have "(\<Sum>w<bd. ?f w) = (\<Sum>w<rows * T. ?f w)"
  proof (rule sum.mono_neutral_right)
    have "rows \<le> w div T" if "\<not> w < rows * T" for w using that assms(1) by (simp add: less_eq_div_iff_mult_less_eq)
    then show "\<forall>w \<in> {..<bd} - {..<rows * T}. ?f w = {#}" by (auto simp: not_less)
  qed (use assms(2) in auto)
  also have "\<dots> = (\<Sum>g<rows. \<Sum>l<T. if l = 0 then {#g#} else {#})"
    unfolding sum_blocks by (intro sum.cong refl) (use assms(1) in auto)
  also have "\<dots> = (\<Sum>g<rows. {#g#})" using assms(1) by simp
  also have "\<dots> = mset [0..<rows]" using sum_mset_concat [of "\<lambda>g. [g]" rows] by simp
  finally show ?thesis .
qed

text \<open>The cells a tile's agents visit, in the order of the scalar executor.\<close>

definition cell_list :: "nat \<Rightarrow> nat \<Rightarrow> (nat \<times> nat) list" where
  "cell_list rows nx = concat (map (\<lambda>r. map (\<lambda>p. (p, r)) [0..<nx]) [0..<rows])"

lemma gpu_rows_cover:
  assumes "32 \<le> gc_threads gc" and "path = Col_Split \<Longrightarrow> 0 < rows \<and> 2 \<le> gc_threads gc div rows"
  shows "(\<Sum>w<gpu_agents gc path. mset (gpu_rows gc path rows w)) = mset [0..<rows]"
proof (cases "path = Col_Split")
  case True
  let ?T = "colsplit_tpr (gc_threads gc) rows"
  have "0 < rows" "0 < gc_threads gc div rows" using assms(2) [OF True] by linarith+
  then have "rows * 2 ^ msb (gc_threads gc div rows) \<le> rows * (gc_threads gc div rows)" by (intro mult_le_mono2 msb_le)
  also have "\<dots> \<le> gc_threads gc" by (rule times_div_less_eq_dividend)
  finally have le: "rows * ?T \<le> gc_threads gc" by (simp add: colsplit_tpr_def)
  have pos: "0 < ?T" by (simp add: colsplit_tpr_def)
  have a: "gpu_agents gc path = gc_threads gc" using True by (simp add: gpu_agents_def)
  show ?thesis
    unfolding a gpu_rows_def if_P [OF True] Let_def by (rule leader_rows [OF pos le])
next
  case False
  have "0 < gpu_agents gc path" using assms(1) by (simp add: gpu_agents_def) linarith
  then show ?thesis using False by (simp add: gpu_rows_def strided_msets)
qed

lemma mset_swap_loops:
  "mset (concat (map (\<lambda>a. map (\<lambda>b. f a b) bs) as)) = mset (concat (map (\<lambda>b. map (\<lambda>a. f a b) as) bs))"
proof (induction as)
  case (Cons a as)
  have "mset (concat (map (\<lambda>b. f a b # map (\<lambda>a. f a b) as) bs)) = mset (map (f a) bs) + mset (concat (map (\<lambda>b. map (\<lambda>a. f a b) as) bs))" for bs
    by (induction bs) simp_all
  then show ?case using Cons.IH by simp
qed (induction bs; simp)

lemma gpu_prog_cover:
  assumes rows: "(\<Sum>w<n. mset (gpu_rows gc (gpu_path gc t) (dt_rows t) w)) = mset [0..<dt_rows t]"
  shows "mset (cell_list (dt_rows t) (tile_nx t)) = (\<Sum>w<n. mset (gpu_prog gc t w))"
proof (cases "gpu_path gc t = Columns_Q4K")
  case True
  let ?g = "\<lambda>r. map (\<lambda>p. (p, r)) [0..<tile_nx t]" and ?rows = "gpu_rows gc (gpu_path gc t) (dt_rows t)"
  have e: "concat (map (\<lambda>w. concat (map ?g (?rows w))) ws) = concat (map ?g (concat (map ?rows ws)))" for ws
    by (induction ws) simp_all
  have "(\<Sum>w<n. mset (gpu_prog gc t w)) = mset (concat (map ?g (concat (map ?rows [0..<n]))))"
    unfolding gpu_prog_def Let_def if_P [OF True] sum_mset_concat e ..
  also have "\<dots> = mset (cell_list (dt_rows t) (tile_nx t))"
    unfolding cell_list_def by (rule mset_concat_cong) (use rows in \<open>simp only: sum_mset_concat\<close>)
  finally show ?thesis ..
next
  case False
  let ?rows = "gpu_rows gc (gpu_path gc t) (dt_rows t)"
  have "(\<Sum>w<n. mset (concat (map (\<lambda>p. map (\<lambda>r. (p, r)) (?rows w)) ps))) = mset (concat (map (\<lambda>p. map (\<lambda>r. (p, r)) [0..<dt_rows t]) ps))" for ps :: "nat list"
    by (induction ps) (simp_all only: list.map concat.simps mset_append sum.distrib sum_image_mset rows mset_map mset.simps sum.neutral_const)
  then show ?thesis
    unfolding gpu_prog_def Let_def if_not_P [OF False] cell_list_def mset_swap_loops [where f = "\<lambda>r p. (p, r)"] by (rule sym)
qed

lemma acc_y_commute:
  assumes "p * ys + r \<noteq> p' * ys + r'"
  shows "acc_y ys r p v \<circ> acc_y ys r' p' v' = acc_y ys r' p' v' \<circ> acc_y ys r p v"
  using assms by (auto simp: acc_y_def fun_eq_iff)

lemma fold_cell_list:
  "fold (\<lambda>(p, r). f p r) (cell_list rows nx) y = for_loop 0 rows (\<lambda>r. for_loop 0 nx (\<lambda>p. f p r)) y"
  unfolding cell_list_def fold_concat_map for_loop_def fold_map comp_def by simp

text \<open>Whatever the schedule, a block adds its values as the scalar loops would.\<close>

lemma gpu_path_split: "gpu_path gc t = Col_Split \<Longrightarrow> 0 < dt_rows t \<and> 2 \<le> gc_threads gc div dt_rows t"
  unfolding gpu_path_def by (cases "dt_rows t = 0") (auto split: if_splits)

lemma exec_dot_block_loops:
  assumes out: "out_ok t" and n: "32 \<le> gc_threads gc"
    and fair: "fair (gpu_agents gc (gpu_path gc t)) (gpu_prog gc t) sched"
  shows "exec_dot_block gc sched wm t y
    = for_loop 0 (dt_rows t) (\<lambda>r. for_loop 0 (tile_nx t) (\<lambda>p. acc_y (dt_ystride t) r p (gpu_val gc wm t p r))) y"
proof -
  let ?f = "\<lambda>p r. acc_y (dt_ystride t) r p (gpu_val gc wm t p r)"
  have inj: "inj_on (cell (dt_ystride t)) (cells (dt_rows t) (tile_nx t))"
    using out by (intro cells_inj) (simp add: out_ok_def)
  have "exec_dot_block gc sched wm t y = fold (\<lambda>(p, r). ?f p r) (cell_list (dt_rows t) (tile_nx t)) y"
    unfolding exec_dot_block_def
  proof (rule par_run_fold [OF fair gpu_prog_cover [OF gpu_rows_cover [OF n gpu_path_split]]])
    fix a b assume ab: "a \<in> set (cell_list (dt_rows t) (tile_nx t))" "b \<in> set (cell_list (dt_rows t) (tile_nx t))"
    obtain p r p' r' where pr: "a = (p, r)" "b = (p', r')" by (cases a, cases b)
    have c: "(r, p) \<in> cells (dt_rows t) (tile_nx t)" "(r', p') \<in> cells (dt_rows t) (tile_nx t)"
      using ab by (auto simp: pr cell_list_def cells_def)
    have "a = b \<or> p * dt_ystride t + r \<noteq> p' * dt_ystride t + r'"
      using inj_onD [OF inj _ c] by (auto simp: pr cell_def)
    then show "(case a of (p, r) \<Rightarrow> ?f p r) \<circ> (case b of (p, r) \<Rightarrow> ?f p r) = (case b of (p, r) \<Rightarrow> ?f p r) \<circ> (case a of (p, r) \<Rightarrow> ?f p r)"
      using acc_y_commute unfolding pr by auto
  qed simp_all
  then show ?thesis unfolding fold_cell_list .
qed

lemma upd_commute: "i \<noteq> j \<Longrightarrow> (\<lambda>y. y(i := a)) \<circ> (\<lambda>y. y(j := b)) = (\<lambda>y. y(j := b)) \<circ> (\<lambda>y. y(i := a))"
  by (auto simp: fun_eq_iff)

lemma merge_block_loops:
  assumes "0 < bd" and "fair bd (\<lambda>w. strided w bd rows) sched"
  shows "exec_merge_block bd sched rows cols x y = exec_merge rows cols x y"
proof -
  have "par_run (\<lambda>i y. y(i := merge_elem x rows cols i)) (\<lambda>w. strided w bd rows) sched y
      = fold (\<lambda>i y. y(i := merge_elem x rows cols i)) [0..<rows] y"
  proof (rule par_run_fold [OF assms(2)])
    fix i j show "(\<lambda>y. y(i := merge_elem x rows cols i)) \<circ> (\<lambda>y. y(j := merge_elem x rows cols j))
      = (\<lambda>y. y(j := merge_elem x rows cols j)) \<circ> (\<lambda>y. y(i := merge_elem x rows cols i))"
      by (cases "i = j") (simp_all add: upd_commute)
  qed (use strided_msets [OF assms(1)] in simp)
  then show ?thesis unfolding exec_merge_block_def exec_merge_def for_loop_def .
qed

lemma blocks_of_nth:
  "blocks_of quant m x n = Some bs \<Longrightarrow> length bs = n \<and> (\<forall>b<n. quant (\<lambda>i. x (b * m + i)) = Some (bs ! b))"
proof (induction n arbitrary: bs)
  case (Suc n)
  have "blocks_of quant m x (Suc n) = (case blocks_of quant m x n of None \<Rightarrow> None
      | Some bs \<Rightarrow> (case quant (\<lambda>i. x (n * m + i)) of None \<Rightarrow> None | Some v \<Rightarrow> Some (bs @ [v])))"
    by (simp add: blocks_of_def for_loop_last)
  then obtain cs v where "blocks_of quant m x n = Some cs" "quant (\<lambda>i. x (n * m + i)) = Some v" "bs = cs @ [v]"
    using Suc.prems by (auto split: option.splits)
  then show ?case using Suc.IH [of cs] by (auto simp: nth_append less_Suc_eq)
qed (simp add: blocks_of_def)

lemma gact_fold_fst:
  "fst (fold (gact_body x) as st) b = (if Blk32 b \<in> set as then fl_quantize_q8_1_block (\<lambda>i. x (b * 32 + i)) else fst st b)"
  by (induction as arbitrary: st) (auto simp: gact_body_def split: act_block.splits)

lemma gact_fold_snd:
  "snd (fold (gact_body x) as st) b = (if Blk256 b \<in> set as then fl_quantize_q8_K_block (\<lambda>i. x (b * 256 + i)) else snd st b)"
  by (induction as arbitrary: st) (auto simp: gact_body_def split: act_block.splits)

lemma gact_loops:
  assumes "0 < bd" and "fair bd (gact_prog bd cols) sched"
  shows "gact_q8 bd sched cols x st = fold (gact_body x) (map Blk32 [0..<cols div 32] @ map Blk256 [0..<cols div 256]) st"
  unfolding gact_q8_def
proof (rule par_run_fold [OF assms(2)])
  show "mset (map Blk32 [0..<cols div 32] @ map Blk256 [0..<cols div 256]) = (\<Sum>w<bd. mset (gact_prog bd cols w))"
    unfolding gact_prog_def mset_append sum.distrib mset_map sum_image_mset strided_msets [OF assms(1)] ..
  fix a b show "gact_body x a \<circ> gact_body x b = gact_body x b \<circ> gact_body x a"
    by (auto simp: gact_body_def fun_eq_iff split: act_block.splits)
qed

section \<open>Properties\<close>


definition demo_gc :: gpu_config where
  "demo_gc = \<lparr>gc_fast = False, gc_i8_mask = -1, gc_i8k_mask = -1, gc_mc_legacy = False, gc_unroll = 4, gc_threads = 32\<rparr>"


text \<open>Whatever the order in which its threads advance, a block merges the partial sums as the scalar
  executor does and, quantising an activation, leaves exactly the blocks of the scalar quantiser in
  both layouts and writes no block beyond them, at any width.\<close>

theorem gpu_act_merge_any_schedule:
  assumes "0 < bd" and "fair bd (\<lambda>w. strided w bd rows) s1" and "fair bd (gact_prog bd (unat (t_cols t))) s2"
    and "fl_exec_act_q8 t x = Some ((a1, o1), (aK, oK))"
  shows "exec_merge_block bd s1 rows cols xm y = exec_merge rows cols xm y
    \<and> length o1 = unat (t_cols t) div 32 \<and> length oK = unat (t_cols t) div 256
    \<and> fst (gact_q8 bd s2 (unat (t_cols t)) x st) = (\<lambda>b. if b < length o1 then Some (o1 ! b) else fst st b)
    \<and> snd (gact_q8 bd s2 (unat (t_cols t)) x st) = (\<lambda>b. if b < length oK then Some (oK ! b) else snd st b)"
proof -
  have "blocks_of fl_quantize_q8_1_block 32 x (unat (t_cols t) div 32) = Some o1"
    "blocks_of fl_quantize_q8_K_block 256 x (unat (t_cols t) div 256) = Some oK"
    using assms(4) by (auto simp: fl_exec_act_q8_def split: option.splits)
  note bs = this [THEN blocks_of_nth]
  have "fst (gact_q8 bd s2 (unat (t_cols t)) x st) = (\<lambda>b. if b < length o1 then Some (o1 ! b) else fst st b)"
    unfolding gact_loops [OF assms(1,3)] by (rule ext) (use bs(1) in \<open>auto simp: gact_fold_fst\<close>)
  moreover have "snd (gact_q8 bd s2 (unat (t_cols t)) x st) = (\<lambda>b. if b < length oK then Some (oK ! b) else snd st b)"
    unfolding gact_loops [OF assms(1,3)] by (rule ext) (use bs(2) in \<open>auto simp: gact_fold_snd\<close>)
  ultimately show ?thesis using merge_block_loops [OF assms(1,2)] bs by blast
qed

definition demo_act :: task where "demo_act = task0\<lparr>t_kind := ACT_Q8, t_cols := 32\<rparr>"

theorem gpu_act_merge_any_schedule_witness:
  "exec_merge_block 2 [1, 0, 0] 3 1 (\<lambda>_. 0) y = exec_merge 3 1 (\<lambda>_. 0) y
    \<and> fst (gact_q8 2 [0] 32 (\<lambda>_. 0x3F800000) (\<lambda>_. None, \<lambda>_. None)) 0 = fl_quantize_q8_1_block (\<lambda>_. 0x3F800000)
    \<and> fl_quantize_q8_1_block (\<lambda>_. 0x3F800000) \<noteq> None"
proof -
  let ?x = "\<lambda>_. 0x3F800000 :: f32"
  obtain b where b: "fl_quantize_q8_1_block ?x = Some b" using quantize_q8_1_ok [OF ones_fin(1)] by blast
  have c: "unat (t_cols demo_act) = 32" by (simp add: demo_act_def)
  have d: "(32 :: nat) div 32 = 1" "(32 :: nat) div 256 = 0" by simp_all
  have bs: "blocks_of fl_quantize_q8_1_block 32 ?x 1 = Some [b]" "blocks_of fl_quantize_q8_K_block 256 ?x 0 = Some []"
    unfolding blocks_of_def one_loop by (simp_all add: b)
  have e: "fl_exec_act_q8 demo_act ?x = Some ((t_y demo_act, [b]), (fl_xqk_of (t_x demo_act) (t_cols demo_act), []))"
    unfolding fl_exec_act_q8_def c d bs by simp
  have "fair 2 (\<lambda>w. strided w 2 3) [1, 0, 0]" "fair 2 (gact_prog 2 32) [0]"
    by (simp_all add: fair_def strided_def gact_prog_def upt_rec)
  then show ?thesis
    using gpu_act_merge_any_schedule [of 2 3 "[1, 0, 0]" demo_act "[0]" ?x _ "[b]" _ "[]" 1 "\<lambda>_. 0" y "(\<lambda>_. None, \<lambda>_. None)"] e
    unfolding c by (simp add: b)
qed

end
