(* ===== verification/FL_Build.thy ===== *)
theory FL_Build
  imports FL_Graph
begin

text \<open>
  The graph helpers of \<open>src/model/decoder.cpp\<close> over \<open>Graph::add\<close> and \<open>Graph::edge\<close>: ported edges with
  their relay trees, fan-in signals, operations, and the row tiles of a dot. A builder is the graph
  under construction and the table of ports. The lemmas show that a dependency asked for becomes a
  path, that no task exceeds its fan-out, and that a graph built from earlier to later operations
  has no cycle; the only way a helper dies is the capacity of the task table.
\<close>

section \<open>Builders\<close>

record port =
  pt_trunk :: nat
  pt_trunk_used :: nat
  pt_leaf :: nat
  pt_leaf_used :: nat

record builder =
  bd_graph :: graph
  bd_ports :: "nat \<rightharpoonup> port"

definition builder_create :: "nat \<Rightarrow> builder" where
  "builder_create n = \<lparr>bd_graph = graph_create n, bd_ports = Map.empty\<rparr>"

definition signal_task :: task where
  "signal_task = task0\<lparr>t_kind := SIGNAL, t_affinity := CPU\<rparr>"

definition add_task :: "task \<Rightarrow> builder \<Rightarrow> graph_error + builder \<times> nat" where
  "add_task t b = bind_e (graph_add (bd_graph b) t) (\<lambda>(g, n). Inr (b\<lparr>bd_graph := g\<rparr>, n))"

definition add_edge :: "nat \<Rightarrow> nat \<Rightarrow> builder \<Rightarrow> graph_error + builder" where
  "add_edge p c b = bind_e (graph_edge (bd_graph b) p c) (\<lambda>g. Inr (b\<lparr>bd_graph := g\<rparr>))"

definition raw_signal :: "builder \<Rightarrow> graph_error + builder \<times> nat" where
  "raw_signal b = add_task signal_task b"

section \<open>Ported edges\<close>

text \<open>A signal behind \<open>u\<close>.\<close>

definition signal_after :: "nat \<Rightarrow> builder \<Rightarrow> graph_error + builder \<times> nat" where
  "signal_after u b = bind_e (raw_signal b) (\<lambda>(b, n). bind_e (add_edge u n b) (\<lambda>b. Inr (b, n)))"

definition port_open :: "nat \<Rightarrow> builder \<Rightarrow> graph_error + builder \<times> port" where
  "port_open p b =
    (case bd_ports b p of
       Some po \<Rightarrow> Inr (b, po)
     | None \<Rightarrow> bind_e (signal_after p b) (\<lambda>(b, trunk). bind_e (signal_after trunk b) (\<lambda>(b, leaf).
         Inr (b, \<lparr>pt_trunk = trunk, pt_trunk_used = 1, pt_leaf = leaf, pt_leaf_used = 0\<rparr>))))"

definition port_grow :: "builder \<Rightarrow> port \<Rightarrow> graph_error + builder \<times> port" where
  "port_grow b po =
    (if kMaxConsumers \<le> pt_leaf_used po
     then bind_e (if kMaxConsumers - 1 \<le> pt_trunk_used po
         then bind_e (signal_after (pt_trunk po) b) (\<lambda>(b, nt). Inr (b, po\<lparr>pt_trunk := nt, pt_trunk_used := 0\<rparr>))
         else Inr (b, po))
       (\<lambda>(b, po). bind_e (signal_after (pt_trunk po) b) (\<lambda>(b, leaf).
          Inr (b, po\<lparr>pt_leaf := leaf, pt_trunk_used := pt_trunk_used po + 1, pt_leaf_used := 0\<rparr>)))
     else Inr (b, po))"

definition dep_edge :: "nat \<Rightarrow> nat \<Rightarrow> builder \<Rightarrow> graph_error + builder" where
  "dep_edge p c b =
    (if length (graph_consumers (bd_graph b) p) < kMaxConsumers - 1 then add_edge p c b
     else bind_e (port_open p b) (\<lambda>(b, po). bind_e (port_grow b po) (\<lambda>(b, po).
       bind_e (add_edge (pt_leaf po) c b) (\<lambda>b.
         Inr (b\<lparr>bd_ports := (bd_ports b)(p \<mapsto> po\<lparr>pt_leaf_used := pt_leaf_used po + 1\<rparr>)\<rparr>)))))"

fun dep_edges :: "nat list \<Rightarrow> nat \<Rightarrow> builder \<Rightarrow> graph_error + builder" where
  "dep_edges [] c b = Inr b"
| "dep_edges (p # ps) c b = bind_e (dep_edge p c b) (dep_edges ps c)"

section \<open>Operations\<close>

definition fan_in :: "nat list \<Rightarrow> builder \<Rightarrow> graph_error + builder \<times> nat" where
  "fan_in ps b = bind_e (raw_signal b) (\<lambda>(b, s). bind_e (dep_edges ps s b) (\<lambda>b. Inr (b, s)))"

text \<open>A task with its dependencies: \<open>add_op\<close>, and the body of a tile loop.\<close>

definition task_after :: "task \<Rightarrow> nat list \<Rightarrow> builder \<Rightarrow> graph_error + builder \<times> nat" where
  "task_after t deps b = bind_e (add_task t b) (\<lambda>(b, n). bind_e (dep_edges deps n b) (\<lambda>b. Inr (b, n)))"

definition add_op :: "task_kind \<Rightarrow> addr \<Rightarrow> nat list \<Rightarrow> engine \<Rightarrow> builder \<Rightarrow> graph_error + builder \<times> nat" where
  "add_op k aux deps aff b = task_after (task0\<lparr>t_kind := k, t_affinity := aff, t_aux := aux\<rparr>) deps b"

fun add_tiles :: "task list \<Rightarrow> nat list \<Rightarrow> builder \<Rightarrow> graph_error + builder \<times> nat list" where
  "add_tiles [] deps b = Inr (b, [])"
| "add_tiles (t # ts) deps b =
    bind_e (task_after t deps b) (\<lambda>(b, n). bind_e (add_tiles ts deps b) (\<lambda>(b, ns). Inr (b, n # ns)))"

text \<open>\<open>if (tiles.size() == 1) return tiles[0]; return fan_in(tiles);\<close>\<close>

definition cover_tiles :: "nat list \<Rightarrow> builder \<Rightarrow> graph_error + builder \<times> nat" where
  "cover_tiles ns b = (if length ns = 1 then Inr (b, ns ! 0) else fan_in ns b)"

definition tiled :: "task list \<Rightarrow> nat list \<Rightarrow> builder \<Rightarrow> graph_error + builder \<times> nat" where
  "tiled ts deps b = bind_e (add_tiles ts deps b) (\<lambda>(b, ns). cover_tiles ns b)"

section \<open>Relays and their owners\<close>

text \<open>
  The nodes of a graph under construction are operations and relays. \<open>own\<close> sends a relay to the
  operation whose consumers it serves and an operation to itself. Along every edge the pair of
  owner and id grows, so the edges have no cycle.
\<close>

definition grows_along :: "(nat \<Rightarrow> nat) \<Rightarrow> nat \<Rightarrow> nat \<Rightarrow> bool" where
  "grows_along own u v \<longleftrightarrow> own u < own v \<or> own u = own v \<and> u < v"

definition owned :: "(nat \<Rightarrow> nat) \<Rightarrow> graph \<Rightarrow> bool" where
  "owned own g \<longleftrightarrow> graph_inv g \<and> \<not> g_frozen g
     \<and> (\<forall>n < graph_size g. own n \<le> n \<and> own (own n) = own n \<and> (own n \<noteq> n \<longrightarrow> t_kind (g_tasks g ! n) = SIGNAL))
     \<and> (\<forall>(u, v) \<in> graph_edges g. grows_along own u v)"

lemma grows_acyclic: "\<forall>(u, v) \<in> E. grows_along own u v \<Longrightarrow> acyclic E"
proof -
  assume a: "\<forall>(u, v) \<in> E. grows_along own u v"
  have "(u, v) \<in> E\<^sup>+ \<Longrightarrow> grows_along own u v" for u v
    by (induction rule: trancl.induct) (use a in \<open>auto simp: grows_along_def\<close>)
  then show "acyclic E" by (auto simp: acyclic_def grows_along_def)
qed

lemma owned_acyclic: "owned own g \<Longrightarrow> acyclic (graph_edges g)"
  by (rule grows_acyclic) (auto simp: owned_def)

lemma graph_edges_in: "graph_inv g \<Longrightarrow> (u, v) \<in> graph_edges g \<Longrightarrow> u < graph_size g \<and> v < graph_size g"
  by (fastforce simp: graph_edges_def edges_of_def graph_inv_def)

lemma has_consumer_iff: "n < graph_size g \<Longrightarrow> graph_consumers g n \<noteq> [] \<longleftrightarrow> (\<exists>v. (n, v) \<in> graph_edges g)"
  by (cases "graph_consumers g n") (auto simp: graph_edges_def edges_of_def)

text \<open>A task without what the builder accumulates in it.\<close>

definition core :: "task \<Rightarrow> task" where
  "core t = t\<lparr>t_id := 0, t_consumers := [], t_dep_init := 0, t_dep_count := 0, t_epoch := 0, t_handoff_ts := 0\<rparr>"

lemma core_kind: "core t = core t' \<Longrightarrow> t_kind t = t_kind t' \<and> task_check t = task_check t'"
  by (cases t; cases t') (simp add: core_def task_check_def)

definition extends :: "graph \<Rightarrow> graph \<Rightarrow> bool" where
  "extends g g' \<longleftrightarrow> graph_size g \<le> graph_size g' \<and> graph_edges g \<subseteq> graph_edges g'
     \<and> (\<forall>q < graph_size g. core (g_tasks g' ! q) = core (g_tasks g ! q))"

lemma extends_refl [simp]: "extends g g"
  by (simp add: extends_def)

lemma extends_trans: "extends g1 g2 \<Longrightarrow> extends g2 g3 \<Longrightarrow> extends g1 g3"
  by (auto simp: extends_def)

lemma extends_path: "extends g g' \<Longrightarrow> (a, b) \<in> (graph_edges g)\<^sup>+ \<Longrightarrow> (a, b) \<in> (graph_edges g')\<^sup>+"
  by (auto simp: extends_def intro: trancl_mono)

lemma graph_add_owned:
  assumes g: "owned own g" and a: "graph_add g t = Inr (g', n)"
    and p: "p = n \<or> p < graph_size g \<and> own p = p \<and> t_kind t = SIGNAL"
  shows "n = graph_size g" "graph_size g' = Suc (graph_size g)" "owned (own(n := p)) g'"
    "graph_edges g' = graph_edges g" "extends g g'" "graph_consumers g' n = []"
    "\<And>q. q < graph_size g \<Longrightarrow> graph_consumers g' q = graph_consumers g q" "core (g_tasks g' ! n) = core t"
proof -
  have gi: "graph_inv g" and nf: "\<not> g_frozen g" using g by (auto simp: owned_def)
  from graph_add_inv [OF gi a] show n: "n = graph_size g" and sz: "graph_size g' = Suc (graph_size g)" by auto
  from graph_add_inv [OF gi a] have gi': "graph_inv g'" by simp
  have g': "g' = g\<lparr>g_tasks := g_tasks g @ [t\<lparr>t_id := n, t_consumers := [], t_dep_init := 0, t_dep_count := 0, t_epoch := 0, t_handoff_ts := 0\<rparr>]\<rparr>"
    using a n by (auto simp: graph_add_def Let_def split: if_splits)
  show old: "graph_consumers g' q = graph_consumers g q" if "q < graph_size g" for q
    using that by (simp add: g' graph_consumers_def graph_size_def nth_append)
  have oldt: "g_tasks g' ! q = g_tasks g ! q" if "q < graph_size g" for q
    using that by (simp add: g' graph_size_def nth_append)
  show new: "graph_consumers g' n = []" by (simp add: g' n graph_consumers_def graph_size_def)
  show c: "core (g_tasks g' ! n) = core t" by (simp add: g' n graph_size_def core_def)
  show E: "graph_edges g' = graph_edges g"
    using old new n by (auto simp: graph_edges_def edges_of_def sz less_Suc_eq)
  show "extends g g'" using E oldt by (simp add: extends_def sz)
  have k: "t_kind (g_tasks g' ! n) = t_kind t" using core_kind [OF c] by simp
  have "grows_along (own(n := p)) u v" if "(u, v) \<in> graph_edges g" for u v
    using that g graph_edges_in [OF gi that] n by (auto simp: owned_def grows_along_def)
  then show "owned (own(n := p)) g'"
    using g p k n oldt unfolding owned_def E sz
    by (intro conjI gi' allI impI) (auto simp: g' less_Suc_eq)
qed

lemma graph_edge_owned:
  assumes g: "owned own g" and uv: "u < graph_size g" "v < graph_size g" "grows_along own u v"
    and f: "length (graph_consumers g u) < kMaxConsumers"
  shows "\<exists>g'. graph_edge g u v = Inr g' \<and> owned own g' \<and> graph_edges g' = insert (u, v) (graph_edges g)
    \<and> graph_size g' = graph_size g \<and> extends g g'
    \<and> graph_consumers g' = (\<lambda>q. if q = u then graph_consumers g u @ [v] else graph_consumers g q)"
proof -
  have gi: "graph_inv g" and nf: "\<not> g_frozen g" using g by (auto simp: owned_def)
  have "u \<noteq> v" using uv(3) by (auto simp: grows_along_def)
  then obtain g' where e: "graph_edge g u v = Inr g'"
    using uv f nf by (auto simp: graph_edge_def graph_consumers_def Let_def)
  note P = graph_edge_parts [OF e] and E = graph_edge_edges [OF e]
  have g': "g' = g\<lparr>g_tasks := ((g_tasks g)[u := push_consumer v (g_tasks g ! u)])
      [v := inc_dep_init ((g_tasks g)[u := push_consumer v (g_tasks g ! u)] ! v)]\<rparr>"
    using e by (auto simp: graph_edge_def Let_def split: if_splits)
  have c: "core (g_tasks g' ! q) = core (g_tasks g ! q)" if "q < graph_size g" for q
    using uv \<open>u \<noteq> v\<close> that unfolding g' by (cases "q = v"; cases "q = u")
      (auto simp: graph_size_def push_consumer_def inc_dep_init_def core_def)
  have "owned own g'"
    using g graph_edge_inv [OF gi e] uv(3) core_kind [OF c] P(11) unfolding owned_def P(4) E
    by (intro conjI allI impI) (auto split: prod.splits)
  moreover have "extends g g'" using c E by (auto simp: extends_def P(4))
  ultimately show ?thesis using e E P(4,7) by blast
qed

section \<open>Ported edges keep the discipline\<close>

text \<open>What a call on behalf of \<open>p\<close> may do: only relays of \<open>p\<close> are new, and only \<open>p\<close> and its relays
  get consumers.\<close>

definition relayed :: "nat \<Rightarrow> (nat \<Rightarrow> nat) \<Rightarrow> graph \<Rightarrow> (nat \<Rightarrow> nat) \<Rightarrow> graph \<Rightarrow> bool" where
  "relayed p own g own' g' \<longleftrightarrow> owned own' g' \<and> extends g g' \<and> g_max g' = g_max g
     \<and> (\<forall>q < graph_size g. own' q = own q \<and> (own q \<noteq> p \<longrightarrow> graph_consumers g' q = graph_consumers g q))
     \<and> (\<forall>q. graph_size g \<le> q \<and> q < graph_size g' \<longrightarrow> own' q = p \<and> p < q)"

lemma relayed_refl: "owned own g \<Longrightarrow> relayed p own g own g"
  by (simp add: relayed_def)

lemma relayed_trans:
  assumes 1: "relayed p own1 g1 own2 g2" and 2: "relayed p own2 g2 own3 g3"
  shows "relayed p own1 g1 own3 g3"
proof -
  have e: "extends g1 g2" "extends g2 g3" using 1 2 by (auto simp: relayed_def)
  have s: "graph_size g1 \<le> graph_size g2" using e by (simp add: extends_def)
  have old: "own3 q = own1 q \<and> (own1 q \<noteq> p \<longrightarrow> graph_consumers g3 q = graph_consumers g1 q)" if "q < graph_size g1" for q
    using 1 2 that s by (simp add: relayed_def)
  have new: "own3 q = p \<and> p < q" if "graph_size g1 \<le> q" "q < graph_size g3" for q
    using 1 2 that by (cases "q < graph_size g2") (auto simp: relayed_def)
  show ?thesis
    using 1 2 old new extends_trans [OF e] by (simp add: relayed_def)
qed

definition task_added :: "(nat \<Rightarrow> nat) \<Rightarrow> task \<Rightarrow> nat \<Rightarrow> builder \<Rightarrow> builder \<Rightarrow> bool" where
  "task_added own t p b b' \<longleftrightarrow> (let g = bd_graph b; g' = bd_graph b'; n = graph_size g in
     bd_ports b' = bd_ports b \<and> graph_size g' = Suc n \<and> owned (own(n := p)) g' \<and> graph_edges g' = graph_edges g \<and> extends g g'
     \<and> graph_consumers g' n = [] \<and> g_max g' = g_max g \<and> (\<forall>q < n. graph_consumers g' q = graph_consumers g q)
     \<and> core (g_tasks g' ! n) = core t)"

lemma add_task_cases:
  assumes g: "owned own (bd_graph b)" and p: "p = graph_size (bd_graph b) \<or> p < graph_size (bd_graph b) \<and> own p = p \<and> t_kind t = SIGNAL"
  shows "add_task t b = Inl CapacityExceeded \<or> (\<exists>b'. add_task t b = Inr (b', graph_size (bd_graph b)) \<and> task_added own t p b b')"
proof (cases "graph_add (bd_graph b) t")
  case (Inl e)
  then have "e = CapacityExceeded" using g by (auto simp: graph_add_def owned_def Let_def split: if_splits)
  then show ?thesis using Inl by (simp add: add_task_def)
next
  case (Inr r)
  obtain g' n where r: "r = (g', n)" by (cases r)
  with Inr have a: "graph_add (bd_graph b) t = Inr (g', n)" by simp
  have n: "n = graph_size (bd_graph b)" using a by (auto simp: graph_add_def Let_def split: if_splits)
  have mx: "g_max g' = g_max (bd_graph b)" using a by (auto simp: graph_add_def Let_def split: if_splits)
  have "p = n \<or> p < graph_size (bd_graph b) \<and> own p = p \<and> t_kind t = SIGNAL" using p n by simp
  note A = graph_add_owned [OF g a this]
  show ?thesis
    by (intro disjI2 exI [of _ "b\<lparr>bd_graph := g'\<rparr>"])
      (use A a mx in \<open>simp add: add_task_def task_added_def Let_def n [symmetric]\<close>)
qed

lemma add_edge_ok:
  assumes "owned own (bd_graph b)" "u < graph_size (bd_graph b)" "v < graph_size (bd_graph b)" "grows_along own u v"
    "length (graph_consumers (bd_graph b) u) < kMaxConsumers"
  shows "\<exists>b'. add_edge u v b = Inr b' \<and> bd_ports b' = bd_ports b \<and> owned own (bd_graph b')
    \<and> graph_edges (bd_graph b') = insert (u, v) (graph_edges (bd_graph b))
    \<and> graph_size (bd_graph b') = graph_size (bd_graph b) \<and> extends (bd_graph b) (bd_graph b') \<and> g_max (bd_graph b') = g_max (bd_graph b)
    \<and> graph_consumers (bd_graph b') = (\<lambda>q. if q = u then graph_consumers (bd_graph b) u @ [v] else graph_consumers (bd_graph b) q)
    \<and> relayed (own u) own (bd_graph b) own (bd_graph b')"
proof -
  from graph_edge_owned [OF assms] obtain g' where g': "graph_edge (bd_graph b) u v = Inr g'" "owned own g'"
    "graph_edges g' = insert (u, v) (graph_edges (bd_graph b))" "graph_size g' = graph_size (bd_graph b)" "extends (bd_graph b) g'"
    "graph_consumers g' = (\<lambda>q. if q = u then graph_consumers (bd_graph b) u @ [v] else graph_consumers (bd_graph b) q)" by blast
  have mx: "g_max g' = g_max (bd_graph b)" by (rule graph_edge_parts(6) [OF g'(1)])
  show ?thesis
    by (intro exI [of _ "b\<lparr>bd_graph := g'\<rparr>"]) (use g' mx in \<open>auto simp: add_edge_def relayed_def\<close>)
qed

lemma signal_after_cases:
  assumes g: "owned own (bd_graph b)" and u: "u < graph_size (bd_graph b)" and f: "length (graph_consumers (bd_graph b) u) < kMaxConsumers"
  shows "signal_after u b = Inl CapacityExceeded \<or>
    (\<exists>b' n own'. signal_after u b = Inr (b', n) \<and> bd_ports b' = bd_ports b \<and> u < n \<and> n < graph_size (bd_graph b') \<and> own' n = own u
      \<and> graph_size (bd_graph b) \<le> n \<and> graph_size (bd_graph b') = Suc (graph_size (bd_graph b))
      \<and> relayed (own u) own (bd_graph b) own' (bd_graph b') \<and> (u, n) \<in> graph_edges (bd_graph b')
      \<and> graph_consumers (bd_graph b') n = []
      \<and> (\<forall>q < graph_size (bd_graph b). graph_consumers (bd_graph b') q =
          (if q = u then graph_consumers (bd_graph b) u @ [n] else graph_consumers (bd_graph b) q)))"
proof -
  define n where "n = graph_size (bd_graph b)"
  define p where "p = own u"
  have p: "p < n" "own p = p" "p \<le> u" using g u by (auto simp: owned_def p_def n_def intro: le_less_trans)
  have k: "p = n \<or> p < n \<and> own p = p \<and> t_kind signal_task = SIGNAL" using p by (simp add: signal_task_def)
  from add_task_cases [OF g k [unfolded n_def]] show ?thesis
  proof
    assume "add_task signal_task b = Inl CapacityExceeded"
    then show ?thesis by (simp add: signal_after_def raw_signal_def)
  next
    assume "\<exists>b'. add_task signal_task b = Inr (b', graph_size (bd_graph b)) \<and> task_added own signal_task p b b'"
    then obtain b1 where b1: "add_task signal_task b = Inr (b1, n)" "bd_ports b1 = bd_ports b" "graph_size (bd_graph b1) = Suc n"
      "owned (own(n := p)) (bd_graph b1)" "extends (bd_graph b) (bd_graph b1)" "graph_consumers (bd_graph b1) n = []"
      "g_max (bd_graph b1) = g_max (bd_graph b)"
      "\<And>q. q < n \<Longrightarrow> graph_consumers (bd_graph b1) q = graph_consumers (bd_graph b) q"
      unfolding task_added_def Let_def n_def [symmetric] by blast
    have un: "u < n" using u by (simp add: n_def)
    have gr: "grows_along (own(n := p)) u n" using un by (auto simp: grows_along_def p_def)
    have "u < graph_size (bd_graph b1)" "n < graph_size (bd_graph b1)" "length (graph_consumers (bd_graph b1) u) < kMaxConsumers"
      using b1(3,8) un f by auto
    from add_edge_ok [OF b1(4) this(1,2) gr this(3)] obtain b2 where b2: "add_edge u n b1 = Inr b2" "bd_ports b2 = bd_ports b1"
      "owned (own(n := p)) (bd_graph b2)" "graph_edges (bd_graph b2) = insert (u, n) (graph_edges (bd_graph b1))"
      "graph_size (bd_graph b2) = graph_size (bd_graph b1)" "extends (bd_graph b1) (bd_graph b2)" "g_max (bd_graph b2) = g_max (bd_graph b1)"
      "graph_consumers (bd_graph b2) = (\<lambda>q. if q = u then graph_consumers (bd_graph b1) u @ [n] else graph_consumers (bd_graph b1) q)" by blast
    have s: "signal_after u b = Inr (b2, n)" using b1(1) b2(1) by (simp add: signal_after_def raw_signal_def)
    have r: "relayed p own (bd_graph b) (own(n := p)) (bd_graph b2)"
      using b1 b2 p extends_trans [OF b1(5) b2(6)] by (auto simp: relayed_def n_def [symmetric] p_def)
    show ?thesis
      by (intro disjI2 exI [of _ b2] exI [of _ n] exI [of _ "own(n := p)"])
        (use s r b1 b2 un in \<open>simp add: p_def [symmetric] n_def [symmetric]\<close>)
  qed
qed

text \<open>A port serves its operation; between calls every relay has a consumer.\<close>

definition port_ok :: "(nat \<Rightarrow> nat) \<Rightarrow> graph \<Rightarrow> nat \<Rightarrow> port \<Rightarrow> bool" where
  "port_ok own g p po \<longleftrightarrow> p < pt_trunk po \<and> pt_trunk po < pt_leaf po \<and> pt_leaf po < graph_size g
     \<and> own (pt_trunk po) = p \<and> own (pt_leaf po) = p
     \<and> (p, pt_trunk po) \<in> (graph_edges g)\<^sup>+ \<and> (p, pt_leaf po) \<in> (graph_edges g)\<^sup>+
     \<and> length (graph_consumers g (pt_trunk po)) = pt_trunk_used po \<and> pt_trunk_used po \<le> kMaxConsumers - 1
     \<and> length (graph_consumers g (pt_leaf po)) = pt_leaf_used po \<and> pt_leaf_used po \<le> kMaxConsumers"

definition served_but :: "nat set \<Rightarrow> (nat \<Rightarrow> nat) \<Rightarrow> graph \<Rightarrow> bool" where
  "served_but X own g \<longleftrightarrow> (\<forall>n < graph_size g. own n \<noteq> n \<and> n \<notin> X \<longrightarrow> graph_consumers g n \<noteq> [])"

definition builder_ok :: "(nat \<Rightarrow> nat) \<Rightarrow> builder \<Rightarrow> bool" where
  "builder_ok own b \<longleftrightarrow> owned own (bd_graph b) \<and> served_but {} own (bd_graph b)
     \<and> (\<forall>p. case bd_ports b p of
          Some po \<Rightarrow> p < graph_size (bd_graph b) \<and> own p = p \<and> port_ok own (bd_graph b) p po
        | None \<Rightarrow> p < graph_size (bd_graph b) \<longrightarrow> own p = p \<longrightarrow> length (graph_consumers (bd_graph b) p) \<le> kMaxConsumers - 1)"

lemma port_ok_relayed:
  assumes r: "relayed p own g own' g'" and o: "port_ok own g q po" and q: "q \<noteq> p"
  shows "port_ok own' g' q po"
proof -
  have e: "extends g g'" and s: "graph_size g \<le> graph_size g'" using r by (auto simp: relayed_def extends_def)
  have l: "pt_trunk po < graph_size g" "pt_leaf po < graph_size g" using o by (auto simp: port_ok_def)
  have "graph_consumers g' (pt_trunk po) = graph_consumers g (pt_trunk po)" "own' (pt_trunk po) = own (pt_trunk po)"
    "graph_consumers g' (pt_leaf po) = graph_consumers g (pt_leaf po)" "own' (pt_leaf po) = own (pt_leaf po)"
    using r o q l by (auto simp: relayed_def port_ok_def)
  then show ?thesis using o s extends_path [OF e] by (auto simp: port_ok_def)
qed

lemma served_relayed:
  assumes "relayed p own g own' g'" "served_but X own g" "\<And>q. q \<in> X \<or> graph_size g \<le> q \<Longrightarrow> q < graph_size g' \<Longrightarrow> q \<notin> Y \<Longrightarrow> graph_consumers g' q \<noteq> []"
  shows "served_but Y own' g'"
  unfolding served_but_def
proof (intro allI impI)
  fix n assume n: "n < graph_size g'" "own' n \<noteq> n \<and> n \<notin> Y"
  show "graph_consumers g' n \<noteq> []"
  proof (cases "n \<in> X \<or> graph_size g \<le> n")
    case True then show ?thesis using assms(3) [of n] n by auto
  next
    case False
    then have l: "n < graph_size g" and "n \<notin> X" by auto
    have "own' n = own n" using assms(1) l by (simp add: relayed_def)
    then have "graph_consumers g n \<noteq> []" using assms(2) l n \<open>n \<notin> X\<close> by (auto simp: served_but_def)
    then obtain v where "(n, v) \<in> graph_edges g" using has_consumer_iff [OF l] by blast
    then have "(n, v) \<in> graph_edges g'" using assms(1) by (auto simp: relayed_def extends_def)
    then show ?thesis using has_consumer_iff [OF n(1)] by blast
  qed
qed

lemma port_open_cases:
  assumes b: "builder_ok own b" and p: "p < graph_size (bd_graph b)" "own p = p"
  shows "port_open p b = Inl CapacityExceeded \<or>
    (\<exists>b' po own'. port_open p b = Inr (b', po) \<and> bd_ports b' = bd_ports b \<and> relayed p own (bd_graph b) own' (bd_graph b')
      \<and> port_ok own' (bd_graph b') p po \<and> served_but {pt_leaf po} own' (bd_graph b'))"
proof (cases "bd_ports b p")
  case (Some po)
  then have "port_ok own (bd_graph b) p po" "owned own (bd_graph b)" "served_but {} own (bd_graph b)"
    using b by (auto simp: builder_ok_def dest: spec [of _ p])
  then have "port_open p b = Inr (b, po)" "relayed p own (bd_graph b) own (bd_graph b)"
    "port_ok own (bd_graph b) p po" "served_but {pt_leaf po} own (bd_graph b)"
    using Some by (auto simp: port_open_def relayed_refl served_but_def)
  then show ?thesis by blast
next
  case None
  have g: "owned own (bd_graph b)" and sv: "served_but {} own (bd_graph b)" using b by (auto simp: builder_ok_def)
  have "length (graph_consumers (bd_graph b) p) \<le> kMaxConsumers - 1"
    using b p None by (auto simp: builder_ok_def dest: spec [of _ p])
  then have f: "length (graph_consumers (bd_graph b) p) < kMaxConsumers" by (simp add: kMaxConsumers_def)
  show ?thesis
  proof (cases "signal_after p b")
    case (Inl e)
    then show ?thesis using signal_after_cases [OF g p(1) f] None by (auto simp: port_open_def)
  next
    case (Inr r1)
    from signal_after_cases [OF g p(1) f] Inr obtain b1 t own1 where 1: "signal_after p b = Inr (b1, t)" "bd_ports b1 = bd_ports b"
      "p < t" "t < graph_size (bd_graph b1)" "own1 t = p" "graph_size (bd_graph b) \<le> t"
      "relayed p own (bd_graph b) own1 (bd_graph b1)" "(p, t) \<in> graph_edges (bd_graph b1)" "graph_consumers (bd_graph b1) t = []"
      "graph_size (bd_graph b1) = Suc (graph_size (bd_graph b))"
      unfolding p(2) by (elim disjE) (simp, blast)
    have g1: "owned own1 (bd_graph b1)" using 1(7) by (simp add: relayed_def)
    have f1: "length (graph_consumers (bd_graph b1) t) < kMaxConsumers" by (simp add: 1(9) kMaxConsumers_def)
    show ?thesis
    proof (cases "signal_after t b1")
      case (Inl e)
      then show ?thesis using signal_after_cases [OF g1 1(4) f1] None 1(1) by (auto simp: port_open_def)
    next
      case (Inr r2)
      from signal_after_cases [OF g1 1(4) f1] Inr obtain b2 l own2 where 2: "signal_after t b1 = Inr (b2, l)" "bd_ports b2 = bd_ports b1"
        "t < l" "l < graph_size (bd_graph b2)" "own2 l = p" "graph_size (bd_graph b1) \<le> l"
        "graph_size (bd_graph b2) = Suc (graph_size (bd_graph b1))"
        "relayed p own1 (bd_graph b1) own2 (bd_graph b2)" "(t, l) \<in> graph_edges (bd_graph b2)" "graph_consumers (bd_graph b2) l = []"
        "\<forall>q < graph_size (bd_graph b1). graph_consumers (bd_graph b2) q = (if q = t then graph_consumers (bd_graph b1) t @ [l] else graph_consumers (bd_graph b1) q)"
        unfolding 1(5) by (elim disjE) (simp, blast)
      define po where "po = \<lparr>pt_trunk = t, pt_trunk_used = 1, pt_leaf = l, pt_leaf_used = 0\<rparr>"
      have r: "relayed p own (bd_graph b) own2 (bd_graph b2)" by (rule relayed_trans [OF 1(7) 2(8)])
      have pt: "(p, t) \<in> graph_edges (bd_graph b2)" using 1(8) 2(8) by (auto simp: relayed_def extends_def)
      have "own2 t = p" using 2(8) 1(4,5) by (simp add: relayed_def)
      moreover have "graph_consumers (bd_graph b2) t = [l]" using 2(11) 1(4,9) by simp
      ultimately have k: "port_ok own2 (bd_graph b2) p po"
        using 1(3) 2 pt by (auto simp: port_ok_def po_def kMaxConsumers_def intro: trancl_into_trancl)
      have "served_but {pt_leaf po} own2 (bd_graph b2)"
      proof (rule served_relayed [OF r sv])
        fix q assume "q \<in> {} \<or> graph_size (bd_graph b) \<le> q" "q < graph_size (bd_graph b2)" "q \<notin> {pt_leaf po}"
        then have "q = t" using 1(4,6,10) 2(4,6,7) by (auto simp: po_def)
        then show "graph_consumers (bd_graph b2) q \<noteq> []" using 2(11) 1(4) by simp
      qed
      moreover have "port_open p b = Inr (b2, po)" using None 1(1) 2(1) by (simp add: port_open_def po_def)
      ultimately show ?thesis using r k 1(2) 2(2) by (intro disjI2 exI [of _ b2] exI [of _ po] exI [of _ own2]) simp
    qed
  qed
qed

text \<open>A relay behind a relay of \<open>p\<close>.\<close>

lemma signal_after_relay:
  assumes g: "owned own (bd_graph b)" and u: "u < graph_size (bd_graph b)" "own u = p"
    and f: "length (graph_consumers (bd_graph b) u) < kMaxConsumers" and pu: "(p, u) \<in> (graph_edges (bd_graph b))\<^sup>+"
  shows "signal_after u b = Inl CapacityExceeded \<or>
    (\<exists>b' n own'. signal_after u b = Inr (b', n) \<and> bd_ports b' = bd_ports b \<and> u < n \<and> n < graph_size (bd_graph b') \<and> own' n = p
      \<and> n = graph_size (bd_graph b) \<and> graph_size (bd_graph b') = Suc n \<and> own' u = p
      \<and> relayed p own (bd_graph b) own' (bd_graph b') \<and> (p, u) \<in> (graph_edges (bd_graph b'))\<^sup>+ \<and> (p, n) \<in> (graph_edges (bd_graph b'))\<^sup>+
      \<and> graph_consumers (bd_graph b') n = [] \<and> graph_consumers (bd_graph b') u = graph_consumers (bd_graph b) u @ [n]
      \<and> (\<forall>q < graph_size (bd_graph b). q \<noteq> u \<longrightarrow> graph_consumers (bd_graph b') q = graph_consumers (bd_graph b) q))"
  using signal_after_cases [OF g u(1) f, unfolded u(2)]
proof
  assume "\<exists>b' n own'. signal_after u b = Inr (b', n) \<and> bd_ports b' = bd_ports b \<and> u < n \<and> n < graph_size (bd_graph b') \<and> own' n = p
      \<and> graph_size (bd_graph b) \<le> n \<and> graph_size (bd_graph b') = Suc (graph_size (bd_graph b))
      \<and> relayed p own (bd_graph b) own' (bd_graph b') \<and> (u, n) \<in> graph_edges (bd_graph b')
      \<and> graph_consumers (bd_graph b') n = []
      \<and> (\<forall>q < graph_size (bd_graph b). graph_consumers (bd_graph b') q =
          (if q = u then graph_consumers (bd_graph b) u @ [n] else graph_consumers (bd_graph b) q))"
  then obtain b' n own' where 1: "signal_after u b = Inr (b', n)" "bd_ports b' = bd_ports b" "u < n" "n < graph_size (bd_graph b')"
      "own' n = p" "graph_size (bd_graph b) \<le> n" "graph_size (bd_graph b') = Suc (graph_size (bd_graph b))"
      "relayed p own (bd_graph b) own' (bd_graph b')" "(u, n) \<in> graph_edges (bd_graph b')" "graph_consumers (bd_graph b') n = []"
      "\<forall>q < graph_size (bd_graph b). graph_consumers (bd_graph b') q =
          (if q = u then graph_consumers (bd_graph b) u @ [n] else graph_consumers (bd_graph b) q)" by blast
  have e: "extends (bd_graph b) (bd_graph b')" using 1(8) by (simp add: relayed_def)
  note pu' = extends_path [OF e pu]
  have "own' u = p" using 1(8) u by (simp add: relayed_def)
  moreover have "(p, n) \<in> (graph_edges (bd_graph b'))\<^sup>+" using pu' 1(9) by (rule trancl_into_trancl)
  moreover have "n = graph_size (bd_graph b)" using 1(4,6,7) by simp
  ultimately show ?thesis
    using 1 pu' u by (intro disjI2 exI [of _ b'] exI [of _ n] exI [of _ own']) simp
qed simp

lemma port_grow_cases:
  assumes g: "owned own (bd_graph b)" and k: "port_ok own (bd_graph b) p po" and sv: "served_but {pt_leaf po} own (bd_graph b)"
  shows "port_grow b po = Inl CapacityExceeded \<or>
    (\<exists>b' po' own'. port_grow b po = Inr (b', po') \<and> bd_ports b' = bd_ports b \<and> relayed p own (bd_graph b) own' (bd_graph b')
      \<and> port_ok own' (bd_graph b') p po' \<and> served_but {pt_leaf po'} own' (bd_graph b') \<and> pt_leaf_used po' < kMaxConsumers)"
proof (cases "kMaxConsumers \<le> pt_leaf_used po")
  case False
  then show ?thesis using k sv relayed_refl [OF g, of p] by (auto simp: port_grow_def)
next
  case True
  have lf: "graph_consumers (bd_graph b) (pt_leaf po) \<noteq> []" using True k by (auto simp: port_ok_def kMaxConsumers_def)
  then have sv0: "served_but {} own (bd_graph b)" using sv by (auto simp: served_but_def)
  define step where "step = (if kMaxConsumers - 1 \<le> pt_trunk_used po
         then bind_e (signal_after (pt_trunk po) b) (\<lambda>(b, nt). Inr (b, po\<lparr>pt_trunk := nt, pt_trunk_used := 0\<rparr>))
         else Inr (b, po))"
  have tr: "pt_trunk po < graph_size (bd_graph b)" "own (pt_trunk po) = p" "(p, pt_trunk po) \<in> (graph_edges (bd_graph b))\<^sup>+"
    "length (graph_consumers (bd_graph b) (pt_trunk po)) < kMaxConsumers" "p < pt_trunk po"
    using k by (auto simp: port_ok_def kMaxConsumers_def)
  text \<open>First a trunk with room.\<close>
  have A: "step = Inl CapacityExceeded \<or> (\<exists>b1 po1 own1. step = Inr (b1, po1) \<and> bd_ports b1 = bd_ports b
      \<and> relayed p own (bd_graph b) own1 (bd_graph b1) \<and> p < pt_trunk po1 \<and> pt_trunk po1 < graph_size (bd_graph b1) \<and> own1 (pt_trunk po1) = p
      \<and> (p, pt_trunk po1) \<in> (graph_edges (bd_graph b1))\<^sup>+ \<and> length (graph_consumers (bd_graph b1) (pt_trunk po1)) = pt_trunk_used po1
      \<and> pt_trunk_used po1 < kMaxConsumers - 1 \<and> served_but {pt_trunk po1} own1 (bd_graph b1))"
  proof (cases "kMaxConsumers - 1 \<le> pt_trunk_used po")
    case False
    then have "step = Inr (b, po)" by (simp add: step_def)
    moreover have "served_but {pt_trunk po} own (bd_graph b)" using sv0 by (auto simp: served_but_def)
    ultimately show ?thesis
      using False k tr relayed_refl [OF g, of p] by (intro disjI2 exI [of _ b] exI [of _ po] exI [of _ own]) (simp add: port_ok_def)
  next
    case T: True
    from signal_after_relay [OF g tr(1,2,4,3)] show ?thesis
    proof (elim disjE exE conjE)
      assume "signal_after (pt_trunk po) b = Inl CapacityExceeded"
      then show ?thesis using T by (simp add: step_def)
    next
      fix b1 n own1
      assume 1: "signal_after (pt_trunk po) b = Inr (b1, n)" "bd_ports b1 = bd_ports b" "pt_trunk po < n" "n < graph_size (bd_graph b1)"
        "own1 n = p" "n = graph_size (bd_graph b)" "graph_size (bd_graph b1) = Suc n" "relayed p own (bd_graph b) own1 (bd_graph b1)"
        "(p, n) \<in> (graph_edges (bd_graph b1))\<^sup>+" "graph_consumers (bd_graph b1) n = []"
      define po1 where "po1 = po\<lparr>pt_trunk := n, pt_trunk_used := 0\<rparr>"
      have "served_but {pt_trunk po1} own1 (bd_graph b1)"
        by (rule served_relayed [OF 1(8) sv0]) (use 1(6,7) in \<open>auto simp: po1_def\<close>)
      moreover have "step = Inr (b1, po1)" using T 1(1) by (simp add: step_def po1_def)
      ultimately show ?thesis
        using 1 tr(5) by (intro disjI2 exI [of _ b1] exI [of _ po1] exI [of _ own1]) (simp add: po1_def kMaxConsumers_def)
    qed
  qed
  have un: "port_grow b po = bind_e step (\<lambda>(b, po). bind_e (signal_after (pt_trunk po) b) (\<lambda>(b, leaf).
          Inr (b, po\<lparr>pt_leaf := leaf, pt_trunk_used := pt_trunk_used po + 1, pt_leaf_used := 0\<rparr>)))"
    using True by (simp add: port_grow_def step_def)
  from A show ?thesis
  proof (elim disjE exE conjE)
    assume "step = Inl CapacityExceeded"
    then show ?thesis by (simp add: un)
  next
    fix b1 po1 own1
    assume 1: "step = Inr (b1, po1)" "bd_ports b1 = bd_ports b" "relayed p own (bd_graph b) own1 (bd_graph b1)" "p < pt_trunk po1"
      "pt_trunk po1 < graph_size (bd_graph b1)" "own1 (pt_trunk po1) = p" "(p, pt_trunk po1) \<in> (graph_edges (bd_graph b1))\<^sup>+"
      "length (graph_consumers (bd_graph b1) (pt_trunk po1)) = pt_trunk_used po1" "pt_trunk_used po1 < kMaxConsumers - 1"
      "served_but {pt_trunk po1} own1 (bd_graph b1)"
    have g1: "owned own1 (bd_graph b1)" using 1(3) by (simp add: relayed_def)
    have "length (graph_consumers (bd_graph b1) (pt_trunk po1)) < kMaxConsumers" using 1(8,9) by simp
    from signal_after_relay [OF g1 1(5,6) this 1(7)] show ?thesis
    proof (elim disjE exE conjE)
      assume "signal_after (pt_trunk po1) b1 = Inl CapacityExceeded"
      then show ?thesis by (simp add: un 1(1))
    next
      fix b2 n own2
      assume 2: "signal_after (pt_trunk po1) b1 = Inr (b2, n)" "bd_ports b2 = bd_ports b1" "pt_trunk po1 < n" "n < graph_size (bd_graph b2)"
        "own2 n = p" "n = graph_size (bd_graph b1)" "graph_size (bd_graph b2) = Suc n" "relayed p own1 (bd_graph b1) own2 (bd_graph b2)"
        "own2 (pt_trunk po1) = p"
        "(p, pt_trunk po1) \<in> (graph_edges (bd_graph b2))\<^sup>+" "(p, n) \<in> (graph_edges (bd_graph b2))\<^sup>+" "graph_consumers (bd_graph b2) n = []"
        "graph_consumers (bd_graph b2) (pt_trunk po1) = graph_consumers (bd_graph b1) (pt_trunk po1) @ [n]"
      define po2 where "po2 = po1\<lparr>pt_leaf := n, pt_trunk_used := pt_trunk_used po1 + 1, pt_leaf_used := 0\<rparr>"
      have "served_but {pt_leaf po2} own2 (bd_graph b2)"
        by (rule served_relayed [OF 2(8) 1(10)]) (use 2(6,7,13) in \<open>auto simp: po2_def\<close>)
      moreover have "port_ok own2 (bd_graph b2) p po2"
        using 1(4,8,9) 2 by (simp add: port_ok_def po2_def)
      moreover have "port_grow b po = Inr (b2, po2)" by (simp add: un 1(1) 2(1) po2_def)
      moreover have "relayed p own (bd_graph b) own2 (bd_graph b2)" by (rule relayed_trans [OF 1(3) 2(8)])
      ultimately show ?thesis
        using 1(2) 2(2) by (intro disjI2 exI [of _ b2] exI [of _ po2] exI [of _ own2]) (simp add: po2_def kMaxConsumers_def)
    qed
  qed
qed

lemma builder_ok_relayed:
  assumes b: "builder_ok own b" and r: "relayed p own (bd_graph b) own' (bd_graph b')" and p: "p < graph_size (bd_graph b)" "own p = p"
    and ps: "\<And>q. q \<noteq> p \<Longrightarrow> bd_ports b' q = bd_ports b q" and sv: "served_but {} own' (bd_graph b')"
    and pp: "case bd_ports b' p of Some po \<Rightarrow> port_ok own' (bd_graph b') p po
        | None \<Rightarrow> length (graph_consumers (bd_graph b') p) \<le> kMaxConsumers - 1"
  shows "builder_ok own' b'"
proof -
  have s: "graph_size (bd_graph b) \<le> graph_size (bd_graph b')" using r by (auto simp: relayed_def extends_def)
  have "case bd_ports b' q of Some po \<Rightarrow> q < graph_size (bd_graph b') \<and> own' q = q \<and> port_ok own' (bd_graph b') q po
      | None \<Rightarrow> q < graph_size (bd_graph b') \<longrightarrow> own' q = q \<longrightarrow> length (graph_consumers (bd_graph b') q) \<le> kMaxConsumers - 1" for q
  proof (cases "q = p")
    case True
    have "own' p = p" using r p by (simp add: relayed_def)
    then show ?thesis using True pp p s by (auto split: option.splits)
  next
    case False
    show ?thesis
    proof (cases "bd_ports b q")
      case (Some po)
      then have o: "q < graph_size (bd_graph b)" "own q = q" "port_ok own (bd_graph b) q po"
        using b by (auto simp: builder_ok_def dest: spec [of _ q])
      have "own' q = q" using r o by (simp add: relayed_def)
      then show ?thesis using Some ps [OF False] o s port_ok_relayed [OF r o(3) False] by simp
    next
      case None
      have "length (graph_consumers (bd_graph b') q) \<le> kMaxConsumers - 1" if q: "q < graph_size (bd_graph b')" "own' q = q"
      proof (cases "q < graph_size (bd_graph b)")
        case True
        have "own q = q" "graph_consumers (bd_graph b') q = graph_consumers (bd_graph b) q"
          using r True q(2) False by (auto simp: relayed_def)
        then show ?thesis using b None True by (auto simp: builder_ok_def dest: spec [of _ q])
      next
        case new: False
        then show ?thesis using r q False by (simp add: relayed_def)
      qed
      then show ?thesis using None ps [OF False] by simp
    qed
  qed
  then show ?thesis using r sv by (simp add: builder_ok_def relayed_def)
qed

lemma dep_edge_cases:
  assumes b: "builder_ok own b" and pc: "p < c" "c < graph_size (bd_graph b)" "own p = p" "own c = c"
  shows "dep_edge p c b = Inl CapacityExceeded \<or>
    (\<exists>b' own'. dep_edge p c b = Inr b' \<and> builder_ok own' b' \<and> relayed p own (bd_graph b) own' (bd_graph b')
      \<and> (p, c) \<in> (graph_edges (bd_graph b'))\<^sup>+)"
proof -
  have p: "p < graph_size (bd_graph b)" using pc by simp
  have g: "owned own (bd_graph b)" and sv: "served_but {} own (bd_graph b)" using b by (auto simp: builder_ok_def)
  show ?thesis
  proof (cases "length (graph_consumers (bd_graph b) p) < kMaxConsumers - 1")
    case True
    have gr: "grows_along own p c" using pc by (simp add: grows_along_def)
    have "length (graph_consumers (bd_graph b) p) < kMaxConsumers" using True by simp
    from add_edge_ok [OF g p pc(2) gr this, unfolded pc(3)] obtain b' where b': "add_edge p c b = Inr b'" "bd_ports b' = bd_ports b"
      "graph_edges (bd_graph b') = insert (p, c) (graph_edges (bd_graph b))" "graph_size (bd_graph b') = graph_size (bd_graph b)"
      "extends (bd_graph b) (bd_graph b')"
      "graph_consumers (bd_graph b') = (\<lambda>q. if q = p then graph_consumers (bd_graph b) p @ [c] else graph_consumers (bd_graph b) q)"
      "relayed p own (bd_graph b) own (bd_graph b')" by blast
    have sv': "served_but {} own (bd_graph b')" by (rule served_relayed [OF b'(7) sv]) (use b'(4) in auto)
    have "port_ok own (bd_graph b') p po" if "bd_ports b p = Some po" for po
    proof -
      have "port_ok own (bd_graph b) p po" using b that by (auto simp: builder_ok_def dest: spec [of _ p])
      then show ?thesis using extends_path [OF b'(5)] by (auto simp: port_ok_def b'(4,6))
    qed
    then have "builder_ok own b'"
      using True b'(2,6) by (intro builder_ok_relayed [OF b b'(7) p pc(3) _ sv']) (auto split: option.splits)
    then show ?thesis using True b' by (intro disjI2 exI [of _ b'] exI [of _ own]) (auto simp: dep_edge_def)
  next
    case False
    from port_open_cases [OF b p pc(3)] show ?thesis
    proof (elim disjE exE conjE)
      assume "port_open p b = Inl CapacityExceeded"
      then show ?thesis using False by (simp add: dep_edge_def)
    next
      fix b1 po1 own1
      assume 1: "port_open p b = Inr (b1, po1)" "bd_ports b1 = bd_ports b" "relayed p own (bd_graph b) own1 (bd_graph b1)"
        "port_ok own1 (bd_graph b1) p po1" "served_but {pt_leaf po1} own1 (bd_graph b1)"
      have g1: "owned own1 (bd_graph b1)" using 1(3) by (simp add: relayed_def)
      from port_grow_cases [OF g1 1(4,5)] show ?thesis
      proof (elim disjE exE conjE)
        assume "port_grow b1 po1 = Inl CapacityExceeded"
        then show ?thesis using False 1(1) by (simp add: dep_edge_def)
      next
        fix b2 po2 own2
        assume 2: "port_grow b1 po1 = Inr (b2, po2)" "bd_ports b2 = bd_ports b1" "relayed p own1 (bd_graph b1) own2 (bd_graph b2)"
          "port_ok own2 (bd_graph b2) p po2" "served_but {pt_leaf po2} own2 (bd_graph b2)" "pt_leaf_used po2 < kMaxConsumers"
        have r2: "relayed p own (bd_graph b) own2 (bd_graph b2)" by (rule relayed_trans [OF 1(3) 2(3)])
        have g2: "owned own2 (bd_graph b2)" using r2 by (simp add: relayed_def)
        have sz: "graph_size (bd_graph b) \<le> graph_size (bd_graph b2)" using r2 by (auto simp: relayed_def extends_def)
        have c: "c < graph_size (bd_graph b2)" "own2 c = c" "own2 p = p" using r2 pc sz p by (auto simp: relayed_def)
        have lf: "pt_leaf po2 < graph_size (bd_graph b2)" "own2 (pt_leaf po2) = p" "p < pt_leaf po2" "p < pt_trunk po2" "pt_trunk po2 < pt_leaf po2"
          "(p, pt_leaf po2) \<in> (graph_edges (bd_graph b2))\<^sup>+" "length (graph_consumers (bd_graph b2) (pt_leaf po2)) = pt_leaf_used po2"
          using 2(4) by (auto simp: port_ok_def)
        have gr: "grows_along own2 (pt_leaf po2) c" using lf c pc(1) by (simp add: grows_along_def)
        have "length (graph_consumers (bd_graph b2) (pt_leaf po2)) < kMaxConsumers" using lf 2(6) by simp
        from add_edge_ok [OF g2 lf(1) c(1) gr this, unfolded lf(2)] obtain b3 where b3: "add_edge (pt_leaf po2) c b2 = Inr b3" "bd_ports b3 = bd_ports b2"
          "graph_edges (bd_graph b3) = insert (pt_leaf po2, c) (graph_edges (bd_graph b2))" "graph_size (bd_graph b3) = graph_size (bd_graph b2)"
          "extends (bd_graph b2) (bd_graph b3)"
          "graph_consumers (bd_graph b3) = (\<lambda>q. if q = pt_leaf po2 then graph_consumers (bd_graph b2) (pt_leaf po2) @ [c] else graph_consumers (bd_graph b2) q)"
          "relayed p own2 (bd_graph b2) own2 (bd_graph b3)" by blast
        define po3 where "po3 = po2\<lparr>pt_leaf_used := pt_leaf_used po2 + 1\<rparr>"
        define b4 where "b4 = b3\<lparr>bd_ports := (bd_ports b3)(p \<mapsto> po3)\<rparr>"
        have r: "relayed p own (bd_graph b) own2 (bd_graph b4)" using relayed_trans [OF r2 b3(7)] by (simp add: b4_def)
        have k: "port_ok own2 (bd_graph b4) p po3"
          using 2(4,6) lf extends_path [OF b3(5)] by (auto simp: port_ok_def po3_def b4_def b3(4,6))
        have "served_but {} own2 (bd_graph b3)"
          by (rule served_relayed [OF b3(7) 2(5)]) (use b3(4,6) in auto)
        then have sv3: "served_but {} own2 (bd_graph b4)" by (simp add: b4_def)
        have "builder_ok own2 b4"
          by (rule builder_ok_relayed [OF b r p pc(3) _ sv3]) (use k in \<open>simp_all add: b4_def b3(2) 2(2) 1(2)\<close>)
        moreover have "(p, c) \<in> (graph_edges (bd_graph b4))\<^sup>+"
          using extends_path [OF b3(5) lf(6)] b3(3) by (auto simp: b4_def intro: trancl_into_trancl)
        moreover have "dep_edge p c b = Inr b4" using False 1(1) 2(1) b3(1) by (simp add: dep_edge_def b4_def po3_def)
        ultimately show ?thesis using r by blast
      qed
    qed
  qed
qed

section \<open>Triples for builder calls\<close>

text \<open>
  A call starts from a good builder and either dies on the capacity or returns a good builder that
  extends it. \<open>open_ops\<close> are the operations no one consumes yet, the sinks of the graph.
\<close>

definition good :: "(nat \<Rightarrow> nat) \<Rightarrow> builder \<Rightarrow> bool" where
  "good own b \<longleftrightarrow> builder_ok own b \<and> (\<forall>n < graph_size (bd_graph b). task_check (g_tasks (bd_graph b) ! n) = None)"

definition later :: "(nat \<Rightarrow> nat) \<Rightarrow> builder \<Rightarrow> (nat \<Rightarrow> nat) \<Rightarrow> builder \<Rightarrow> bool" where
  "later own b own' b' \<longleftrightarrow> extends (bd_graph b) (bd_graph b') \<and> (\<forall>q < graph_size (bd_graph b). own' q = own q)"

definition op_id :: "(nat \<Rightarrow> nat) \<Rightarrow> builder \<Rightarrow> nat \<Rightarrow> bool" where
  "op_id own b n \<longleftrightarrow> n < graph_size (bd_graph b) \<and> own n = n"

definition open_ops :: "(nat \<Rightarrow> nat) \<Rightarrow> builder \<Rightarrow> nat set" where
  "open_ops own b = {n. op_id own b n \<and> graph_consumers (bd_graph b) n = []}"

definition before :: "builder \<Rightarrow> nat \<Rightarrow> nat \<Rightarrow> bool" where
  "before b u v \<longleftrightarrow> (u, v) \<in> (graph_edges (bd_graph b))\<^sup>+"

definition runs :: "(nat \<Rightarrow> nat) \<Rightarrow> builder \<Rightarrow> graph_error + builder \<times> 'a \<Rightarrow> ((nat \<Rightarrow> nat) \<Rightarrow> builder \<Rightarrow> 'a \<Rightarrow> bool) \<Rightarrow> bool" where
  "runs own b r Q \<longleftrightarrow> r = Inl CapacityExceeded \<or>
    (\<exists>b' x own'. r = Inr (b', x) \<and> good own' b' \<and> later own b own' b' \<and> Q own' b' x)"

lemma later_refl: "later own b own b"
  by (simp add: later_def)

lemma later_trans: "later own1 b1 own2 b2 \<Longrightarrow> later own2 b2 own3 b3 \<Longrightarrow> later own1 b1 own3 b3"
  by (auto simp: later_def extends_def)

lemma later_op_id: "later own b own' b' \<Longrightarrow> op_id own b n \<Longrightarrow> op_id own' b' n"
  by (auto simp: later_def extends_def op_id_def)

lemma later_before: "later own b own' b' \<Longrightarrow> before b u v \<Longrightarrow> before b' u v"
  by (auto simp: later_def before_def intro: extends_path)

lemma before_trans: "before b u v \<Longrightarrow> before b v w \<Longrightarrow> before b u w"
  unfolding before_def by (rule trancl_trans)

lemma before_consumed: "before b u v \<Longrightarrow> u < graph_size (bd_graph b) \<Longrightarrow> graph_consumers (bd_graph b) u \<noteq> []"
  unfolding before_def using has_consumer_iff by (blast dest: tranclD)

text \<open>Operations without consumers stay what they are or get one; new relays are never open.\<close>

lemma open_later:
  assumes l: "later own b own' b'" and n: "n \<in> open_ops own' b'" "n < graph_size (bd_graph b)"
  shows "n \<in> open_ops own b"
proof -
  have "own n = n" using l n by (auto simp: later_def open_ops_def op_id_def)
  moreover have "graph_consumers (bd_graph b) n = []"
  proof (rule ccontr)
    assume "graph_consumers (bd_graph b) n \<noteq> []"
    then obtain v where "(n, v) \<in> graph_edges (bd_graph b)" using has_consumer_iff [OF n(2)] by blast
    then have "(n, v) \<in> graph_edges (bd_graph b')" using l by (auto simp: later_def extends_def)
    then show False using n has_consumer_iff [of n "bd_graph b'"] by (auto simp: open_ops_def op_id_def)
  qed
  ultimately show ?thesis using n(2) by (simp add: open_ops_def op_id_def)
qed

lemma good_relayed:
  assumes g: "good own b" and r: "relayed p own (bd_graph b) own' (bd_graph b')" and k: "builder_ok own' b'"
  shows "good own' b' \<and> later own b own' b' \<and> (\<forall>q. graph_size (bd_graph b) \<le> q \<and> q < graph_size (bd_graph b') \<longrightarrow> own' q \<noteq> q)"
proof -
  have new: "own' q \<noteq> q" if "graph_size (bd_graph b) \<le> q" "q < graph_size (bd_graph b')" for q
    using r that by (auto simp: relayed_def)
  have "task_check (g_tasks (bd_graph b') ! n) = None" if n: "n < graph_size (bd_graph b')" for n
  proof (cases "n < graph_size (bd_graph b)")
    case True
    then have "core (g_tasks (bd_graph b') ! n) = core (g_tasks (bd_graph b) ! n)" using r by (auto simp: relayed_def extends_def)
    from core_kind [OF this] have "task_check (g_tasks (bd_graph b') ! n) = task_check (g_tasks (bd_graph b) ! n)" by blast
    then show ?thesis using g True by (simp add: good_def)
  next
    case False
    then have "t_kind (g_tasks (bd_graph b') ! n) = SIGNAL" using r n new [of n] by (auto simp: relayed_def owned_def)
    then show ?thesis by (simp add: task_check_def kNumTaskKinds_def is_decode_op_def)
  qed
  then show ?thesis using k r new by (auto simp: good_def later_def relayed_def)
qed

lemma runs_return: "good own b \<Longrightarrow> Q own b x \<Longrightarrow> runs own b (Inr (b, x)) Q"
  by (auto simp: runs_def later_refl)

lemma runs_bind:
  assumes r: "runs own b r Q"
    and f: "\<And>own' b' x. good own' b' \<Longrightarrow> later own b own' b' \<Longrightarrow> Q own' b' x \<Longrightarrow> runs own' b' (f (b', x)) R"
  shows "runs own b (bind_e r f) R"
proof (cases "r = Inl CapacityExceeded")
  case True then show ?thesis by (simp add: runs_def)
next
  case False
  then obtain b' x own' where 1: "r = Inr (b', x)" "good own' b'" "later own b own' b'" "Q own' b' x"
    using r by (auto simp: runs_def)
  show ?thesis using f [OF 1(2-4)] later_trans [OF 1(3)] unfolding runs_def 1(1) bind_e.simps by blast
qed

lemma runs_mono:
  assumes "runs own b r Q" "\<And>own' b' x. good own' b' \<Longrightarrow> later own b own' b' \<Longrightarrow> Q own' b' x \<Longrightarrow> R own' b' x"
  shows "runs own b r R"
  using assms unfolding runs_def by blast

text \<open>The edges of one call: all into \<open>c\<close>.\<close>

lemma dep_edges_runs:
  assumes "good own b" "op_id own b c" "\<forall>p \<in> set ps. p < c \<and> op_id own b p" "open_ops own b \<subseteq> S"
  shows "runs own b (bind_e (dep_edges ps c b) (\<lambda>b. Inr (b, c)))
    (\<lambda>own' b' n. n = c \<and> (\<forall>p \<in> set ps. before b' p c) \<and> open_ops own' b' \<subseteq> S - set ps
      \<and> graph_consumers (bd_graph b') c = graph_consumers (bd_graph b) c)"
  using assms
proof (induction ps arbitrary: own b S)
  case Nil then show ?case by (simp add: runs_return)
next
  case (Cons p ps)
  have p: "p < c" "own p = p" and c: "c < graph_size (bd_graph b)" "own c = c"
    using Cons.prems by (auto simp: op_id_def)
  have "builder_ok own b" using Cons.prems(1) by (simp add: good_def)
  from dep_edge_cases [OF this p(1) c(1) p(2) c(2)] show ?case
  proof (elim disjE exE conjE)
    assume "dep_edge p c b = Inl CapacityExceeded"
    then show ?thesis by (simp add: runs_def)
  next
    fix b1 own1
    assume 1: "dep_edge p c b = Inr b1" "builder_ok own1 b1" "relayed p own (bd_graph b) own1 (bd_graph b1)" "(p, c) \<in> (graph_edges (bd_graph b1))\<^sup>+"
    note G = good_relayed [OF Cons.prems(1) 1(3,2)]
    have l: "later own b own1 b1" and g1: "good own1 b1" using G by auto
    have pc: "before b1 p c" using 1(4) by (simp add: before_def)
    have S: "open_ops own1 b1 \<subseteq> S - {p}"
    proof
      fix n assume n: "n \<in> open_ops own1 b1"
      have "n < graph_size (bd_graph b)"
      proof (rule ccontr)
        assume "\<not> n < graph_size (bd_graph b)"
        then show False using G n by (auto simp: open_ops_def op_id_def)
      qed
      moreover have "n \<noteq> p" using before_consumed [OF pc] n by (auto simp: open_ops_def op_id_def)
      ultimately show "n \<in> S - {p}" using open_later [OF l n] Cons.prems(4) by auto
    qed
    have "\<forall>q \<in> set ps. q < c \<and> op_id own1 b1 q" using Cons.prems(3) later_op_id [OF l] by auto
    from Cons.IH [OF g1 later_op_id [OF l Cons.prems(2)] this S]
    have r: "runs own1 b1 (bind_e (dep_edges ps c b1) (\<lambda>b. Inr (b, c)))
      (\<lambda>own' b' n. n = c \<and> (\<forall>p \<in> set ps. before b' p c) \<and> open_ops own' b' \<subseteq> S - {p} - set ps
        \<and> graph_consumers (bd_graph b') c = graph_consumers (bd_graph b1) c)" .
    have cc: "graph_consumers (bd_graph b1) c = graph_consumers (bd_graph b) c"
      using 1(3) c p(1) by (simp add: relayed_def)
    have "runs own1 b1 (bind_e (dep_edges ps c b1) (\<lambda>b. Inr (b, c)))
      (\<lambda>own' b' n. n = c \<and> (\<forall>q \<in> set (p # ps). before b' q c) \<and> open_ops own' b' \<subseteq> S - set (p # ps)
        \<and> graph_consumers (bd_graph b') c = graph_consumers (bd_graph b) c)"
      by (rule runs_mono [OF r]) (use later_before pc cc in auto)
    then show ?thesis using later_trans [OF l] unfolding runs_def dep_edges.simps 1(1) bind_e.simps by blast
  qed
qed

lemma task_after_runs:
  assumes g: "good own b" and d: "\<forall>p \<in> set deps. op_id own b p" and S: "open_ops own b \<subseteq> S" and t: "task_check t = None"
  shows "runs own b (task_after t deps b)
    (\<lambda>own' b' n. op_id own' b' n \<and> (\<forall>p \<in> set deps. before b' p n) \<and> open_ops own' b' \<subseteq> (S - set deps) \<union> {n}
      \<and> graph_consumers (bd_graph b') n = [])"
proof -
  define n where "n = graph_size (bd_graph b)"
  have o: "owned own (bd_graph b)" using g by (simp add: good_def builder_ok_def)
  from add_task_cases [OF o disjI1 [OF refl], of t] show ?thesis
  proof (elim disjE exE conjE)
    assume "add_task t b = Inl CapacityExceeded"
    then show ?thesis by (simp add: task_after_def runs_def)
  next
    fix b1 assume a: "add_task t b = Inr (b1, graph_size (bd_graph b))" "task_added own t (graph_size (bd_graph b)) b b1"
    have A: "bd_ports b1 = bd_ports b" "graph_size (bd_graph b1) = Suc n" "owned (own(n := n)) (bd_graph b1)"
      "graph_edges (bd_graph b1) = graph_edges (bd_graph b)" "extends (bd_graph b) (bd_graph b1)" "graph_consumers (bd_graph b1) n = []"
      "\<And>q. q < n \<Longrightarrow> graph_consumers (bd_graph b1) q = graph_consumers (bd_graph b) q" "core (g_tasks (bd_graph b1) ! n) = core t"
      using a(2) by (auto simp: task_added_def Let_def n_def)
    define own1 where "own1 = own(n := n)"
    have l: "later own b own1 b1" using A(5) by (simp add: later_def own1_def n_def)
    have sv: "served_but {} own1 (bd_graph b1)"
      using g A(2,7) by (auto simp: good_def builder_ok_def served_but_def own1_def n_def less_Suc_eq)
    have pt: "case bd_ports b1 p of Some po \<Rightarrow> p < graph_size (bd_graph b1) \<and> own1 p = p \<and> port_ok own1 (bd_graph b1) p po
        | None \<Rightarrow> p < graph_size (bd_graph b1) \<longrightarrow> own1 p = p \<longrightarrow> length (graph_consumers (bd_graph b1) p) \<le> kMaxConsumers - 1" for p
    proof (cases "bd_ports b p")
      case (Some po)
      then have "p < n" "own p = p" "port_ok own (bd_graph b) p po"
        using g by (auto simp: good_def builder_ok_def n_def dest: spec [of _ p])
      moreover from this have "port_ok own1 (bd_graph b1) p po"
        using A(2,4,7) by (auto simp: port_ok_def own1_def n_def)
      ultimately show ?thesis using Some A(1,2) by (simp add: own1_def)
    next
      case None
      have "length (graph_consumers (bd_graph b1) p) \<le> kMaxConsumers - 1" if "p < Suc n" "own1 p = p"
      proof (cases "p = n")
        case True then show ?thesis by (simp add: A(6))
      next
        case False
        then have "p < n" "own p = p" using that by (auto simp: own1_def)
        then show ?thesis using g None A(7) by (auto simp: good_def builder_ok_def n_def dest: spec [of _ p])
      qed
      then show ?thesis using None A(1,2) by simp
    qed
    have ck: "task_check (g_tasks (bd_graph b1) ! q) = None" if "q < graph_size (bd_graph b1)" for q
    proof (cases "q = n")
      case True then show ?thesis using core_kind [OF A(8)] t by simp
    next
      case False
      then have q: "q < graph_size (bd_graph b)" using that A(2) by (simp add: n_def)
      then have "core (g_tasks (bd_graph b1) ! q) = core (g_tasks (bd_graph b) ! q)" using A(5) by (simp add: extends_def)
      from core_kind [OF this] g q show ?thesis by (simp add: good_def)
    qed
    have g1: "good own1 b1" using A(3) sv pt ck by (auto simp: good_def builder_ok_def own1_def [symmetric])
    have nn: "op_id own1 b1 n" by (simp add: op_id_def A(2) own1_def)
    have S1: "open_ops own1 b1 \<subseteq> S \<union> {n}"
    proof
      fix q assume q: "q \<in> open_ops own1 b1"
      show "q \<in> S \<union> {n}"
      proof (cases "q = n")
        case False
        then have "q < graph_size (bd_graph b)" using q A(2) by (auto simp: open_ops_def op_id_def n_def)
        from open_later [OF l q this] S show ?thesis by auto
      qed simp
    qed
    have nd: "n \<notin> set deps" using d by (auto simp: op_id_def n_def)
    have "\<forall>p \<in> set deps. p < n \<and> op_id own1 b1 p" using d later_op_id [OF l] by (auto simp: op_id_def n_def)
    from dep_edges_runs [OF g1 nn this S1]
    have r: "runs own1 b1 (bind_e (dep_edges deps n b1) (\<lambda>b. Inr (b, n)))
      (\<lambda>own' b' k. k = n \<and> (\<forall>p \<in> set deps. before b' p n) \<and> open_ops own' b' \<subseteq> (S \<union> {n}) - set deps
        \<and> graph_consumers (bd_graph b') n = graph_consumers (bd_graph b1) n)" .
    have "runs own1 b1 (bind_e (dep_edges deps n b1) (\<lambda>b. Inr (b, n)))
      (\<lambda>own' b' n. op_id own' b' n \<and> (\<forall>p \<in> set deps. before b' p n) \<and> open_ops own' b' \<subseteq> (S - set deps) \<union> {n}
        \<and> graph_consumers (bd_graph b') n = [])"
      by (rule runs_mono [OF r]) (use later_op_id nn nd A(6) in auto)
    then show ?thesis
      using later_trans [OF l] a(1) unfolding runs_def task_after_def n_def [symmetric] by auto
  qed
qed

text \<open>The result of a call with dependencies \<open>deps\<close>: an operation behind all of them.\<close>

definition made :: "nat set \<Rightarrow> nat list \<Rightarrow> (nat \<Rightarrow> nat) \<Rightarrow> builder \<Rightarrow> nat \<Rightarrow> bool" where
  "made S deps own b n \<longleftrightarrow> op_id own b n \<and> (\<forall>p \<in> set deps. before b p n) \<and> open_ops own b \<subseteq> (S - set deps) \<union> {n}
     \<and> graph_consumers (bd_graph b) n = []"

lemma task_after_made:
  "good own b \<Longrightarrow> \<forall>p \<in> set deps. op_id own b p \<Longrightarrow> open_ops own b \<subseteq> S \<Longrightarrow> task_check t = None
    \<Longrightarrow> runs own b (task_after t deps b) (made S deps)"
  using task_after_runs [of own b deps S t] by (simp add: made_def [abs_def])

lemma fan_in_task_after: "fan_in ps b = task_after signal_task ps b"
  by (simp add: fan_in_def task_after_def raw_signal_def)

lemma signal_check [simp]: "task_check signal_task = None"
  by (simp add: task_check_def signal_task_def kNumTaskKinds_def is_decode_op_def)

lemma fan_in_made:
  "good own b \<Longrightarrow> \<forall>p \<in> set ps. op_id own b p \<Longrightarrow> open_ops own b \<subseteq> S \<Longrightarrow> runs own b (fan_in ps b) (made S ps)"
  unfolding fan_in_task_after by (rule task_after_made) simp_all

lemma add_op_made:
  "good own b \<Longrightarrow> \<forall>p \<in> set deps. op_id own b p \<Longrightarrow> open_ops own b \<subseteq> S \<Longrightarrow> is_decode_op k \<Longrightarrow> kind_code k < kNumTaskKinds
    \<Longrightarrow> aux \<noteq> 0 \<Longrightarrow> runs own b (add_op k aux deps aff b) (made S deps)"
  unfolding add_op_def by (rule task_after_made) (auto simp: task_check_def is_decode_op_iff)

lemma add_tiles_runs:
  assumes "good own b" "\<forall>p \<in> set deps. op_id own b p" "open_ops own b \<subseteq> S" "\<forall>t \<in> set ts. task_check t = None"
  shows "runs own b (add_tiles ts deps b) (\<lambda>own' b' ns. length ns = length ts
    \<and> (\<forall>n \<in> set ns. op_id own' b' n \<and> (\<forall>p \<in> set deps. before b' p n))
    \<and> open_ops own' b' \<subseteq> (if ts = [] then S else S - set deps) \<union> set ns
    \<and> (length ns = 1 \<longrightarrow> graph_consumers (bd_graph b') (ns ! 0) = []))"
  using assms
proof (induction ts arbitrary: own b S)
  case Nil then show ?case by (simp add: runs_return)
next
  case (Cons t ts)
  have "task_check t = None" using Cons.prems(4) by simp
  note h = task_after_made [OF Cons.prems(1-3) this]
  show ?case unfolding add_tiles.simps
  proof (rule runs_bind [OF h], unfold prod.case)
    fix own1 b1 n assume 1: "good own1 b1" "later own b own1 b1" "made S deps own1 b1 n"
    have d1: "\<forall>p \<in> set deps. op_id own1 b1 p" using Cons.prems(2) later_op_id [OF 1(2)] by blast
    have S1: "open_ops own1 b1 \<subseteq> (S - set deps) \<union> {n}" and n: "op_id own1 b1 n" "\<forall>p \<in> set deps. before b1 p n"
      "graph_consumers (bd_graph b1) n = []"
      using 1(3) by (auto simp: made_def)
    have "\<forall>t \<in> set ts. task_check t = None" using Cons.prems(4) by simp
    note ih = Cons.IH [OF 1(1) d1 S1 this]
    show "runs own1 b1 (bind_e (add_tiles ts deps b1) (\<lambda>(b, ns). Inr (b, n # ns))) (\<lambda>own' b' ns. length ns = length (t # ts)
      \<and> (\<forall>n \<in> set ns. op_id own' b' n \<and> (\<forall>p \<in> set deps. before b' p n))
      \<and> open_ops own' b' \<subseteq> (if t # ts = [] then S else S - set deps) \<union> set ns
      \<and> (length ns = 1 \<longrightarrow> graph_consumers (bd_graph b') (ns ! 0) = []))"
    proof (cases ts)
      case Nil
      then show ?thesis using 1(1) S1 n by (simp add: runs_return)
    next
      case (Cons t' ts')
      show ?thesis
      proof (rule runs_bind [OF ih], unfold prod.case, rule runs_return)
        fix own2 b2 ns
        assume 2: "good own2 b2" "later own1 b1 own2 b2" "length ns = length ts
          \<and> (\<forall>n \<in> set ns. op_id own2 b2 n \<and> (\<forall>p \<in> set deps. before b2 p n))
          \<and> open_ops own2 b2 \<subseteq> (if ts = [] then S - set deps \<union> {n} else S - set deps \<union> {n} - set deps) \<union> set ns
          \<and> (length ns = 1 \<longrightarrow> graph_consumers (bd_graph b2) (ns ! 0) = [])"
        show "good own2 b2" by (rule 2(1))
        have "op_id own2 b2 n" "\<forall>p \<in> set deps. before b2 p n" using n later_op_id [OF 2(2)] later_before [OF 2(2)] by auto
        then show "length (n # ns) = length (t # ts) \<and> (\<forall>n \<in> set (n # ns). op_id own2 b2 n \<and> (\<forall>p \<in> set deps. before b2 p n))
          \<and> open_ops own2 b2 \<subseteq> (if t # ts = [] then S else S - set deps) \<union> set (n # ns)
          \<and> (length (n # ns) = 1 \<longrightarrow> graph_consumers (bd_graph b2) ((n # ns) ! 0) = [])"
          using 2(3) Cons by auto
      qed
    qed
  qed
qed

lemma tiled_made:
  assumes g: "good own b" and d: "\<forall>p \<in> set deps. op_id own b p" and S: "open_ops own b \<subseteq> S"
    and ts: "ts \<noteq> []" "\<forall>t \<in> set ts. task_check t = None"
  shows "runs own b (tiled ts deps b) (made S deps)"
  unfolding tiled_def
proof (rule runs_bind [OF add_tiles_runs [OF g d S ts(2)]], unfold prod.case)
  fix own1 b1 ns
  assume 1: "good own1 b1" "later own b own1 b1" "length ns = length ts
    \<and> (\<forall>n \<in> set ns. op_id own1 b1 n \<and> (\<forall>p \<in> set deps. before b1 p n))
    \<and> open_ops own1 b1 \<subseteq> (if ts = [] then S else S - set deps) \<union> set ns
    \<and> (length ns = 1 \<longrightarrow> graph_consumers (bd_graph b1) (ns ! 0) = [])"
  have S1: "open_ops own1 b1 \<subseteq> (S - set deps) \<union> set ns" and n: "\<forall>n \<in> set ns. op_id own1 b1 n" using 1(3) ts(1) by auto
  have "ns \<noteq> []" using 1(3) ts(1) by auto
  then obtain n0 where n0: "n0 \<in> set ns" by (cases ns) auto
  show "runs own1 b1 (cover_tiles ns b1) (made S deps)"
  proof (cases "length ns = 1")
    case True
    then obtain k where "ns = [k]" by (cases ns) auto
    then show ?thesis using 1 S1 by (simp add: cover_tiles_def runs_return made_def)
  next
    case False
    have "runs own1 b1 (fan_in ns b1) (made S deps)"
    proof (rule runs_mono [OF fan_in_made [OF 1(1) n S1]])
      fix own2 b2 s assume 2: "good own2 b2" "later own1 b1 own2 b2" "made (S - set deps \<union> set ns) ns own2 b2 s"
      have "before b2 p s" if "p \<in> set deps" for p
      proof (rule before_trans)
        show "before b2 p n0" using 1(3) that n0 later_before [OF 2(2)] by blast
        show "before b2 n0 s" using 2(3) n0 by (simp add: made_def)
      qed
      then show "made S deps own2 b2 s" using 2(3) by (auto simp: made_def)
    qed
    then show ?thesis using False by (simp add: cover_tiles_def)
  qed
qed

section \<open>Loops over positions\<close>

text \<open>\<open>for (...) xs[i] = f(i);\<close>\<close>

fun each :: "nat list \<Rightarrow> (nat \<Rightarrow> builder \<Rightarrow> graph_error + builder \<times> 'a) \<Rightarrow> builder \<Rightarrow> graph_error + builder \<times> 'a list" where
  "each [] f b = Inr (b, [])"
| "each (p # ps) f b = bind_e (f p b) (\<lambda>(b, x). bind_e (each ps f b) (\<lambda>(b, xs). Inr (b, x # xs)))"

lemma each_runs:
  assumes body: "\<And>own' b' p S'. good own' b' \<Longrightarrow> later own b own' b' \<Longrightarrow> p \<in> set ps \<Longrightarrow> open_ops own' b' \<subseteq> S'
      \<Longrightarrow> runs own' b' (f p b') (\<lambda>o' b x. P o' b p x \<and> open_ops o' b \<subseteq> (S' - D p) \<union> I x)"
    and stable: "\<And>own1 b1 own2 b2 p x. later own1 b1 own2 b2 \<Longrightarrow> P own1 b1 p x \<Longrightarrow> P own2 b2 p x"
    and "good own b" "open_ops own b \<subseteq> S"
  shows "runs own b (each ps f b) (\<lambda>o' b xs. length xs = length ps \<and> (\<forall>i < length ps. P o' b (ps ! i) (xs ! i))
    \<and> open_ops o' b \<subseteq> (S - (\<Union>p \<in> set ps. D p)) \<union> (\<Union>x \<in> set xs. I x))"
  using assms(1,3,4)
proof (induction ps arbitrary: own b S)
  case Nil then show ?case by (simp add: runs_return)
next
  case (Cons p ps)
  have h: "runs own b (f p b) (\<lambda>o' b x. P o' b p x \<and> open_ops o' b \<subseteq> (S - D p) \<union> I x)"
    by (rule Cons.prems(1) [OF Cons.prems(2) later_refl _ Cons.prems(3)]) simp
  show ?case unfolding each.simps
  proof (rule runs_bind [OF h], unfold prod.case)
    fix own1 b1 x assume 1: "good own1 b1" "later own b own1 b1" "P own1 b1 p x \<and> open_ops own1 b1 \<subseteq> (S - D p) \<union> I x"
    have S1: "open_ops own1 b1 \<subseteq> (S - D p) \<union> I x" using 1(3) by simp
    have bd: "runs own' b' (f q b') (\<lambda>o' b x. P o' b q x \<and> open_ops o' b \<subseteq> (S' - D q) \<union> I x)"
      if "good own' b'" "later own1 b1 own' b'" "q \<in> set ps" "open_ops own' b' \<subseteq> S'" for own' b' q S'
      by (rule Cons.prems(1) [OF that(1) later_trans [OF 1(2) that(2)] _ that(4)]) (use that(3) in simp)
    note ih = Cons.IH [OF bd 1(1) S1]
    show "runs own1 b1 (bind_e (each ps f b1) (\<lambda>(b, xs). Inr (b, x # xs)))
      (\<lambda>o' b xs. length xs = length (p # ps) \<and> (\<forall>i < length (p # ps). P o' b ((p # ps) ! i) (xs ! i))
        \<and> open_ops o' b \<subseteq> (S - (\<Union>p \<in> set (p # ps). D p)) \<union> (\<Union>x \<in> set xs. I x))"
    proof (rule runs_bind [OF ih], assumption+, unfold prod.case, rule runs_return)
      fix own2 b2 xs
      assume 2: "good own2 b2" "later own1 b1 own2 b2" "length xs = length ps \<and> (\<forall>i < length ps. P own2 b2 (ps ! i) (xs ! i))
        \<and> open_ops own2 b2 \<subseteq> (S - D p \<union> I x - (\<Union>p \<in> set ps. D p)) \<union> (\<Union>x \<in> set xs. I x)"
      show "good own2 b2" by (rule 2(1))
      have "P own2 b2 p x" using stable [OF 2(2)] 1(3) by blast
      then have "\<forall>i < length (p # ps). P own2 b2 ((p # ps) ! i) ((x # xs) ! i)" using 2(3) by (simp add: nth_Cons' )
      then show "length (x # xs) = length (p # ps) \<and> (\<forall>i < length (p # ps). P own2 b2 ((p # ps) ! i) ((x # xs) ! i))
        \<and> open_ops own2 b2 \<subseteq> (S - (\<Union>p \<in> set (p # ps). D p)) \<union> (\<Union>x \<in> set (x # xs). I x)"
        using 2(3) by auto
    qed
  qed
qed

end
