(* ===== verification/FL_Pass.thy ===== *)
theory FL_Pass
  imports FL_Exec_Cpu
begin

text \<open>
  One pass of the decoder, \<open>build_graph_m\<close> and \<open>step_batch\<close> of \<open>src/model/decoder.cpp\<close>: the stages
  of every layer over the \<open>m\<close> columns of a verify batch, the KV cache, the head and the greedy
  argmax. Every buffer the builder allocates is an object of its own: an operation of
  \<open>FL_Decode_Ops\<close> runs on a memory that holds exactly its operands, laid out one after the other.
  A dot over an output buffer that was zeroed for the run is the list of its rows' values.
\<close>

section \<open>Model constants\<close>

record hparams =
  hp_n_embd :: nat
  hp_n_layer :: nat
  hp_n_head :: nat
  hp_n_vocab :: nat
  hp_n_dense_lead :: nat
  hp_n_ff_dense :: nat
  hp_n_ff_exp :: nat
  hp_n_expert :: nat
  hp_n_used :: nat
  hp_kv_lora :: nat
  hp_dk :: nat
  hp_dv :: nat
  hp_d_rope :: nat
  hp_d_nope :: nat
  hp_rms_eps :: f32
  hp_expert_scale :: f32
  hp_expert_norm :: nat
  hp_freq_base :: f32
  hp_freq_scale :: f32
  hp_ext_factor :: f32
  hp_attn_factor :: f32
  hp_beta_fast :: f32
  hp_beta_slow :: f32
  hp_n_ctx_orig :: nat
  hp_kq_scale :: f32

record wtensor =
  wt_p :: nat
  wt_fmt :: fmt
  wt_rows :: nat
  wt_cols :: u32
  wt_row_bytes :: nat
  wt_estride :: nat
  wt_nexp :: nat

text \<open>
  What a decoder is configured with: the C library, the weights in memory, the kernel switches, the
  expert truncation of intermediate positions, the size of the KV cache and the number of graphs.
  \<open>dc_ub\<close> is what the quantisation of a column leaves where its float conversions are undefined.
\<close>

record decoder_cfg =
  dc_lm :: libm
  dc_hp :: hparams
  dc_wm :: bytes
  dc_w :: "string \<Rightarrow> wtensor"
  dc_fast :: bool
  dc_i8_mask :: u32
  dc_i8k_mask :: u32
  dc_ub :: "f32 list \<Rightarrow> blk_q8_1 list \<times> blk_q8_K list"
  dc_approx_k :: nat
  dc_approx_renorm :: bool
  dc_max_kv :: nat
  dc_max_batch :: nat

text \<open>\<open>blk.%u.<c>.weight\<close>\<close>

definition blk_name :: "nat \<Rightarrow> string \<Rightarrow> string" where
  "blk_name l c = ''blk.'' @ dec_digits l @ ''.'' @ c @ ''.weight''"

definition Wl :: "decoder_cfg \<Rightarrow> nat \<Rightarrow> string \<Rightarrow> wtensor" where
  "Wl c l nm = dc_w c (blk_name l nm)"

section \<open>Operations on their operands\<close>

text \<open>A memory that holds the words \<open>xs\<close> from address 1 on; 0 is \<open>nullptr\<close>.\<close>

definition place :: "u32 list \<Rightarrow> wmem" where
  "place xs = (\<lambda>a. if 1 \<le> a \<and> a \<le> length xs then xs ! (a - 1) else 0)"

definition read_out :: "wmem \<Rightarrow> nat \<Rightarrow> nat \<Rightarrow> u32 list" where
  "read_out m a n = map (\<lambda>i. m (a + i)) [0..<n]"

definition zeros :: "nat \<Rightarrow> u32 list" where "zeros n = replicate n 0"

text \<open>An \<open>F32\<close> weight read as floats.\<close>

definition f32_weights :: "decoder_cfg \<Rightarrow> wtensor \<Rightarrow> nat \<Rightarrow> f32 list" where
  "f32_weights c w n = map (\<lambda>i. rd32 (\<lambda>k. dc_wm c (wt_p w + k)) (4 * i)) [0..<n]"

definition op_rmsnorm :: "decoder_cfg \<Rightarrow> wtensor \<Rightarrow> nat \<Rightarrow> f32 list \<Rightarrow> f32 list" where
  "op_rmsnorm c w n xs =
    read_out (fl_op_rmsnorm (dc_lm c)
        \<lparr>rn_wnorm = 1, rn_x = 1 + n, rn_y = 1 + 2 * n, rn_eps = hp_rms_eps (dc_hp c), rn_n = n\<rparr>
        (place (f32_weights c w n @ take n xs @ zeros n)))
      (1 + 2 * n) n"

definition op_add2 :: "nat \<Rightarrow> f32 list \<Rightarrow> f32 list \<Rightarrow> f32 list" where
  "op_add2 n a b =
    read_out (fl_op_add2 \<lparr>a2_a = 1, a2_b = 1 + n, a2_y = 1 + 2 * n, a2_n = n\<rparr> (place (take n a @ take n b @ zeros n)))
      (1 + 2 * n) n"

definition op_rope :: "decoder_cfg \<Rightarrow> nat \<Rightarrow> nat \<Rightarrow> nat \<Rightarrow> nat \<Rightarrow> f32 list \<Rightarrow> f32 list" where
  "op_rope c n_head stride off pos xs =
    (let h = dc_hp c
     in read_out (fl_op_rope_ds2 (dc_lm c)
          \<lparr>rp_buf = 1, rp_pos = 1 + length xs, rp_n_head = n_head, rp_head_stride = stride, rp_rot_off = off,
           rp_n_rot = hp_d_rope h, rp_freq_base = hp_freq_base h, rp_freq_scale = hp_freq_scale h,
           rp_ext_factor = hp_ext_factor h, rp_attn_factor = hp_attn_factor h, rp_beta_fast = hp_beta_fast h,
           rp_beta_slow = hp_beta_slow h, rp_n_ctx_orig = hp_n_ctx_orig h\<rparr>
          (place (xs @ [of_nat pos]))) 1 (length xs))"

text \<open>The key and value row an append writes; the caches are the row of the position.\<close>

type_synonym kv_row = "f32 list \<times> f32 list"

definition op_kv_append :: "decoder_cfg \<Rightarrow> f32 list \<Rightarrow> f32 list \<Rightarrow> kv_row" where
  "op_kv_append c kvb kpe =
    (let h = dc_hp c; nk = hp_n_head h * hp_dk h; nv = hp_n_head h * hp_dv h;
         a_kpe = 1 + length kvb; a_k = a_kpe + length kpe; a_v = a_k + nk;
         m = fl_op_kv_append
           \<lparr>ka_kvb = 1, ka_kpe = a_kpe, ka_kcache = a_k, ka_vcache = a_v, ka_pos = a_v + nv, ka_n_head = hp_n_head h,
            ka_d_nope = hp_d_nope h, ka_d_rope = hp_d_rope h, ka_d_v = hp_dv h, ka_max_kv = 1\<rparr>
           (place (kvb @ kpe @ zeros nk @ zeros nv @ [0]))
     in (read_out m a_k nk, read_out m a_v nv))"

definition op_attn_head :: "decoder_cfg \<Rightarrow> f32 list \<Rightarrow> kv_row list \<Rightarrow> nat \<Rightarrow> nat \<Rightarrow> f32 list" where
  "op_attn_head c q rows pos hh =
    (let h = dc_hp c; ks = concat (map fst rows); vs = concat (map snd rows); nc = hp_n_head h * hp_dv h;
         a_k = 1 + length q; a_v = a_k + length ks; a_s = a_v + length vs; a_o = a_s + length rows
     in read_out (fl_op_attn_head (dc_lm c)
          \<lparr>ah_q = 1, ah_kcache = a_k, ah_vcache = a_v, ah_scratch = a_s, ah_out = a_o, ah_pos = a_o + nc,
           ah_scale = hp_kq_scale h, ah_head = hh, ah_n_head = hp_n_head h, ah_dk = hp_dk h, ah_dv = hp_dv h,
           ah_max_kv = dc_max_kv c\<rparr>
          (place (q @ ks @ vs @ zeros (length rows) @ zeros nc @ [of_nat pos])))
        (a_o + hh * hp_dv h) (hp_dv h))"

text \<open>The router: the selected expert ids and their gates.\<close>

definition op_router_sel :: "decoder_cfg \<Rightarrow> f32 list \<Rightarrow> nat list \<times> f32 list" where
  "op_router_sel c logits =
    (let h = dc_hp c; ne = hp_n_expert h; k = hp_n_used h;
         m = fl_op_router_sel (dc_lm c)
           \<lparr>ro_logits = 1, ro_ids = 1 + ne, ro_gates = 1 + ne + k, ro_n_expert = ne, ro_top_k = k,
            ro_norm = hp_expert_norm h, ro_scale = hp_expert_scale h\<rparr>
           (place (take ne logits @ zeros k @ zeros k))
     in (map unat (read_out m (1 + ne) k), read_out m (1 + ne + k) k))"

definition op_silu_mul :: "decoder_cfg \<Rightarrow> nat \<Rightarrow> f32 list \<Rightarrow> f32 list \<Rightarrow> f32 list" where
  "op_silu_mul c n g u =
    read_out (fl_op_silu_mul (dc_lm c) \<lparr>sm_gate = 1, sm_up = 1 + n, sm_h = 1 + 2 * n, sm_n = n\<rparr>
        (place (take n g @ take n u @ zeros n))) (1 + 2 * n) n"

text \<open>A merge; the gates and the second addend may be \<open>nullptr\<close>.\<close>

definition op_wmerge :: "nat \<Rightarrow> f32 list \<Rightarrow> f32 list option \<Rightarrow> f32 list \<Rightarrow> f32 list option \<Rightarrow> nat \<Rightarrow> nat \<Rightarrow> f32 list" where
  "op_wmerge n parts gates add1 add2 n_parts n_full =
    (let gs = (case gates of Some g \<Rightarrow> g | None \<Rightarrow> []); a2 = (case add2 of Some a \<Rightarrow> a | None \<Rightarrow> []);
         a_g = 1 + length parts; a_1 = a_g + length gs; a_2 = a_1 + length add1; a_y = a_2 + length a2
     in read_out (fl_op_wmerge
          \<lparr>wm_parts = 1, wm_gates = (if gates = None then 0 else a_g), wm_add1 = a_1,
           wm_add2 = (if add2 = None then 0 else a_2), wm_y = a_y, wm_scale = c_1, wm_n_parts = n_parts, wm_n = n,
           wm_n_full = n_full\<rparr>
          (place (parts @ gs @ add1 @ a2 @ zeros n))) a_y n)"

section \<open>Activation columns and dots\<close>

record column =
  cl_x :: fvec
  cl_q :: q81_vec
  cl_k :: q8K_vec

text \<open>\<open>ACT_Q8\<close>: the column with both of its appendices.\<close>

definition act_q8 :: "decoder_cfg \<Rightarrow> f32 list \<Rightarrow> column" where
  "act_q8 c xs =
    (let x = (\<lambda>i. xs ! i); n = length xs;
         (q, k) = (case (blocks_of fl_quantize_q8_1_block 32 x (n div 32), blocks_of fl_quantize_q8_K_block 256 x (n div 256)) of
                     (Some q, Some k) \<Rightarrow> (q, k)
                   | _ \<Rightarrow> dc_ub c xs)
     in \<lparr>cl_x = x, cl_q = (\<lambda>b. q ! b), cl_k = (\<lambda>b. k ! b)\<rparr>)"

text \<open>The value a streaming dot adds for one row and column, by the switches of the executor.\<close>

definition dot_value :: "bool \<Rightarrow> u32 \<Rightarrow> u32 \<Rightarrow> fmt \<Rightarrow> bytes \<Rightarrow> column \<Rightarrow> nat \<Rightarrow> f32" where
  "dot_value fast i8_mask i8k_mask f row cl cols =
    (if \<not> fast then fl_dot_row_any f row (cl_x cl) cols
     else if (f = Q4_K \<or> f = Q6_K) \<and> mask_bit i8k_mask f then fl_dot_i8k_any f row (cl_k cl) cols
     else if f \<noteq> F32 \<and> mask_bit i8_mask f then fl_dot_i8_any f row (cl_q cl) cols
     else float_ref f row (cl_x cl) cols)"

text \<open>All rows of expert \<open>e\<close> of a weight, into an output that was zeroed.\<close>

definition weight_row :: "decoder_cfg \<Rightarrow> wtensor \<Rightarrow> nat \<Rightarrow> nat \<Rightarrow> bytes" where
  "weight_row c w e r = (\<lambda>i. dc_wm c (wt_p w + e * wt_estride w + r * wt_row_bytes w + i))"

definition dot_rows :: "decoder_cfg \<Rightarrow> wtensor \<Rightarrow> nat \<Rightarrow> column \<Rightarrow> f32 list" where
  "dot_rows c w e cl =
    map (\<lambda>r. f32_add 0 (dot_value (dc_fast c) (dc_i8_mask c) (dc_i8k_mask c) (wt_fmt w) (weight_row c w e r) cl (unat (wt_cols w))))
      [0..<wt_rows w]"

section \<open>Stages of a layer\<close>

text \<open>Stages A to D of a column: norm, query, latent, and the expansion of keys and values.\<close>

definition attn_in :: "decoder_cfg \<Rightarrow> nat \<Rightarrow> f32 list \<Rightarrow> column" where
  "attn_in c l x = act_q8 c (op_rmsnorm c (Wl c l ''attn_norm'') (hp_n_embd (dc_hp c)) x)"

definition kv_latent :: "decoder_cfg \<Rightarrow> nat \<Rightarrow> f32 list \<Rightarrow> column" where
  "kv_latent c l kva = act_q8 c (op_rmsnorm c (Wl c l ''attn_kv_a_norm'') (hp_kv_lora (dc_hp c)) kva)"

text \<open>Stage E: rotate query and positional key, the row to append, and the heads.\<close>

definition rope_q :: "decoder_cfg \<Rightarrow> nat \<Rightarrow> f32 list \<Rightarrow> f32 list" where
  "rope_q c pos q = op_rope c (hp_n_head (dc_hp c)) (hp_dk (dc_hp c)) (hp_d_nope (dc_hp c)) pos q"

definition rope_k :: "decoder_cfg \<Rightarrow> nat \<Rightarrow> f32 list \<Rightarrow> f32 list" where
  "rope_k c pos kva = op_rope c 1 (hp_d_rope (dc_hp c)) 0 pos (drop (hp_kv_lora (dc_hp c)) kva)"

definition attn_heads :: "decoder_cfg \<Rightarrow> f32 list \<Rightarrow> kv_row list \<Rightarrow> nat \<Rightarrow> f32 list" where
  "attn_heads c q rows pos = concat (map (op_attn_head c q rows pos) [0..<hp_n_head (dc_hp c)])"

text \<open>Stage G, and the feed-forward network of stage H: dense, or routed and shared experts. Position \<open>p\<close> of a
  batch of \<open>m\<close> runs \<open>ku\<close> of its experts.\<close>

definition ffn_in :: "decoder_cfg \<Rightarrow> nat \<Rightarrow> f32 list \<Rightarrow> f32 list" where
  "ffn_in c l x2 = op_rmsnorm c (Wl c l ''ffn_norm'') (hp_n_embd (dc_hp c)) x2"

definition gated :: "decoder_cfg \<Rightarrow> wtensor \<Rightarrow> wtensor \<Rightarrow> nat \<Rightarrow> nat \<Rightarrow> column \<Rightarrow> column" where
  "gated c wg wu e n cl = act_q8 c (op_silu_mul c n (dot_rows c wg e cl) (dot_rows c wu e cl))"

definition ffn_dense :: "decoder_cfg \<Rightarrow> nat \<Rightarrow> column \<Rightarrow> f32 list \<Rightarrow> f32 list" where
  "ffn_dense c l fq x2 =
    (let h = dc_hp c; hq = gated c (Wl c l ''ffn_gate'') (Wl c l ''ffn_up'') 0 (hp_n_ff_dense h) fq;
         dd = dot_rows c (Wl c l ''ffn_down'') 0 hq
     in op_wmerge (hp_n_embd h) dd None x2 None 1 0)"

definition approx_ku :: "decoder_cfg \<Rightarrow> nat \<Rightarrow> nat \<Rightarrow> nat" where
  "approx_ku c m p =
    (if dc_approx_k c \<noteq> 0 \<and> 2 < m \<and> 1 \<le> p \<and> p < m - 1 \<and> dc_approx_k c < hp_n_used (dc_hp c)
     then dc_approx_k c else hp_n_used (dc_hp c))"

definition router_out :: "decoder_cfg \<Rightarrow> nat \<Rightarrow> column \<Rightarrow> nat list \<times> f32 list" where
  "router_out c l fq = op_router_sel c (dot_rows c (Wl c l ''ffn_gate_inp'') 0 fq)"

definition expert_out :: "decoder_cfg \<Rightarrow> nat \<Rightarrow> nat \<Rightarrow> column \<Rightarrow> f32 list" where
  "expert_out c l e fq =
    dot_rows c (Wl c l ''ffn_down_exps'') e
      (gated c (Wl c l ''ffn_gate_exps'') (Wl c l ''ffn_up_exps'') e (hp_n_ff_exp (dc_hp c)) fq)"

definition ffn_moe :: "decoder_cfg \<Rightarrow> nat \<Rightarrow> nat \<Rightarrow> column \<Rightarrow> f32 list \<Rightarrow> f32 list" where
  "ffn_moe c l ku fq x2 =
    (let h = dc_hp c; ne = hp_n_embd h; (ids, gates) = router_out c l fq;
         de = concat (map (\<lambda>s. expert_out c l (ids ! s) fq) [0..<ku]) @ zeros ((hp_n_used h - ku) * ne);
         hs = gated c (Wl c l ''ffn_gate_shexp'') (Wl c l ''ffn_up_shexp'') 0 (wt_rows (Wl c l ''ffn_gate_shexp'')) fq;
         ds = dot_rows c (Wl c l ''ffn_down_shexp'') 0 hs;
         nfull = (if dc_approx_renorm c \<and> ku < hp_n_used h then hp_n_used h else 0)
     in op_wmerge ne de (Some gates) x2 (Some ds) ku nfull)"

section \<open>The layer and the pass\<close>

text \<open>
  A layer over the columns \<open>0..<m\<close>, stage after stage as the builder emits them. The columns meet
  only in the KV cache: in position order, each appends its row and attends to the rows up to it.
\<close>

definition kv_stage ::
  "decoder_cfg \<Rightarrow> nat \<Rightarrow> nat \<Rightarrow> (nat \<Rightarrow> f32 list) \<Rightarrow> (nat \<Rightarrow> f32 list) \<Rightarrow> (nat \<Rightarrow> f32 list)
    \<Rightarrow> (nat \<Rightarrow> kv_row) \<Rightarrow> (nat \<Rightarrow> kv_row) \<times> (nat \<Rightarrow> f32 list)" where
  "kv_stage c n_past m q kva kvb kv =
    for_loop 0 m (\<lambda>p (kv, ctx).
      let pos = n_past + p; kv = kv(pos := op_kv_append c (kvb p) (rope_k c pos (kva p)))
      in (kv, ctx(p := attn_heads c (rope_q c pos (q p)) (map kv [0..<pos + 1]) pos))) (kv, \<lambda>_. [])"

definition layer_batch ::
  "decoder_cfg \<Rightarrow> nat \<Rightarrow> nat \<Rightarrow> nat \<Rightarrow> (nat \<Rightarrow> f32 list) \<Rightarrow> (nat \<Rightarrow> kv_row) \<Rightarrow> (nat \<Rightarrow> f32 list) \<times> (nat \<Rightarrow> kv_row)" where
  "layer_batch c l n_past m xs kv =
    (let ne = hp_n_embd (dc_hp c);
         aq = (\<lambda>p. attn_in c l (xs p));
         q = (\<lambda>p. dot_rows c (Wl c l ''attn_q'') 0 (aq p));
         kva = (\<lambda>p. dot_rows c (Wl c l ''attn_kv_a_mqa'') 0 (aq p));
         kq8 = (\<lambda>p. kv_latent c l (kva p));
         kvb = (\<lambda>p. dot_rows c (Wl c l ''attn_kv_b'') 0 (kq8 p));
         (kv, ctx) = kv_stage c n_past m q kva kvb kv;
         cq8 = (\<lambda>p. act_q8 c (ctx p));
         ao = (\<lambda>p. dot_rows c (Wl c l ''attn_output'') 0 (cq8 p));
         x2 = (\<lambda>p. op_add2 ne (xs p) (ao p));
         fq8 = (\<lambda>p. act_q8 c (ffn_in c l (x2 p)));
         xo = (if l < hp_n_dense_lead (dc_hp c) then (\<lambda>p. ffn_dense c l (fq8 p) (x2 p))
               else (\<lambda>p. ffn_moe c l (approx_ku c m p) (fq8 p) (x2 p)))
     in (xo, kv))"

text \<open>The embedding row of a token; the part of the buffer no block reaches stays zero.\<close>

definition embed :: "decoder_cfg \<Rightarrow> u32 \<Rightarrow> f32 list" where
  "embed c tok =
    (let w = dc_w c ''token_embd.weight''; n = hp_n_embd (dc_hp c);
         row = (\<lambda>i. dc_wm c (wt_p w + unat tok * wt_row_bytes w + i))
     in if wt_fmt w = F32 then map (\<lambda>i. rd32 row (4 * i)) [0..<n]
        else map (dequant_chunk (wt_fmt w) row 0 n (\<lambda>_. 0)) [0..<n])"

definition head_logits :: "decoder_cfg \<Rightarrow> f32 list \<Rightarrow> f32 list" where
  "head_logits c x =
    dot_rows c (dc_w c ''output.weight'') 0
      (act_q8 c (op_rmsnorm c (dc_w c ''output_norm.weight'') (hp_n_embd (dc_hp c)) x))"

text \<open>The greedy choice and its margin over the runner-up, in one scan.\<close>

definition argmax_scan :: "nat \<Rightarrow> f32 list \<Rightarrow> nat \<times> f32 \<times> f32" where
  "argmax_scan n lg =
    for_loop 1 n (\<lambda>i (best, bv, sv).
      if f32_lt bv (lg ! i) then (i, lg ! i, bv) else if f32_lt sv (lg ! i) then (best, bv, lg ! i) else (best, bv, sv))
      (0, lg ! 0, c_lowest)"

definition greedy :: "decoder_cfg \<Rightarrow> f32 list \<Rightarrow> u32" where
  "greedy c x = of_nat (fst (argmax_scan (hp_n_vocab (dc_hp c)) (head_logits c x)))"

definition margin_of :: "decoder_cfg \<Rightarrow> f32 list \<Rightarrow> f32" where
  "margin_of c x = (let (_, bv, sv) = argmax_scan (hp_n_vocab (dc_hp c)) (head_logits c x) in f32_sub bv sv)"

text \<open>The decoder's state across passes, and its operations; an abort is an error value.\<close>

record decoder =
  de_n_past :: nat
  de_kv :: "nat \<Rightarrow> nat \<Rightarrow> kv_row"
  de_margins :: "f32 list"

datatype dec_error = BadBatch | KvFull | BadRewind

definition run_layers ::
  "decoder_cfg \<Rightarrow> nat \<Rightarrow> nat \<Rightarrow> nat \<Rightarrow> (nat \<Rightarrow> f32 list) \<Rightarrow> (nat \<Rightarrow> nat \<Rightarrow> kv_row)
    \<Rightarrow> (nat \<Rightarrow> f32 list) \<times> (nat \<Rightarrow> nat \<Rightarrow> kv_row)" where
  "run_layers c n_past m L xs kv =
    for_loop 0 L (\<lambda>l (xs, kv). let (xs, kl) = layer_batch c l n_past m xs (kv l) in (xs, kv(l := kl))) (xs, kv)"

definition step_batch :: "decoder_cfg \<Rightarrow> u32 list \<Rightarrow> decoder \<Rightarrow> dec_error + decoder \<times> u32 list" where
  "step_batch c toks d =
    (let m = length toks
     in if m < 1 \<or> dc_max_batch c < m then Inl BadBatch
        else if dc_max_kv c < de_n_past d + m then Inl KvFull
        else let (xs, kv) = run_layers c (de_n_past d) m (hp_n_layer (dc_hp c)) (\<lambda>p. embed c (toks ! p)) (de_kv d)
          in Inr (\<lparr>de_n_past = de_n_past d + m, de_kv = kv, de_margins = map (\<lambda>p. margin_of c (xs p)) [0..<m]\<rparr>,
                  map (\<lambda>p. greedy c (xs p)) [0..<m]))"

definition rewind_to :: "nat \<Rightarrow> decoder \<Rightarrow> dec_error + decoder" where
  "rewind_to pos d = (if de_n_past d < pos then Inl BadRewind else Inr (d\<lparr>de_n_past := pos\<rparr>))"

definition decoder_reset :: "decoder \<Rightarrow> decoder" where
  "decoder_reset d = d\<lparr>de_n_past := 0\<rparr>"

section \<open>The sequential meaning of a context\<close>

text \<open>
  The residual of position \<open>i\<close> of the context \<open>ts\<close> entering layer \<open>l\<close>, with every position computed
  by itself: its row of the cache, and the layer on the rows up to it.
\<close>

definition kv_of :: "decoder_cfg \<Rightarrow> nat \<Rightarrow> nat \<Rightarrow> f32 list \<Rightarrow> kv_row" where
  "kv_of c l i x =
    (let kva = dot_rows c (Wl c l ''attn_kv_a_mqa'') 0 (attn_in c l x);
         kvb = dot_rows c (Wl c l ''attn_kv_b'') 0 (kv_latent c l kva)
     in op_kv_append c kvb (rope_k c i kva))"

definition layer_at :: "decoder_cfg \<Rightarrow> nat \<Rightarrow> nat \<Rightarrow> f32 list \<Rightarrow> kv_row list \<Rightarrow> f32 list" where
  "layer_at c l i x rows =
    (let ne = hp_n_embd (dc_hp c);
         q = dot_rows c (Wl c l ''attn_q'') 0 (attn_in c l x);
         ctx = attn_heads c (rope_q c i q) rows i;
         x2 = op_add2 ne x (dot_rows c (Wl c l ''attn_output'') 0 (act_q8 c ctx));
         fq = act_q8 c (ffn_in c l x2)
     in if l < hp_n_dense_lead (dc_hp c) then ffn_dense c l fq x2
        else ffn_moe c l (hp_n_used (dc_hp c)) fq x2)"

fun residual :: "decoder_cfg \<Rightarrow> u32 list \<Rightarrow> nat \<Rightarrow> nat \<Rightarrow> f32 list" where
  "residual c ts 0 i = embed c (ts ! i)"
| "residual c ts (Suc l) i = layer_at c l i (residual c ts l i) (map (\<lambda>j. kv_of c l j (residual c ts l j)) [0..<i + 1])"

definition kv_at :: "decoder_cfg \<Rightarrow> u32 list \<Rightarrow> nat \<Rightarrow> nat \<Rightarrow> kv_row" where
  "kv_at c ts l j = kv_of c l j (residual c ts l j)"

definition next_tok :: "decoder_cfg \<Rightarrow> u32 list \<Rightarrow> u32" where
  "next_tok c ts = greedy c (residual c ts (hp_n_layer (dc_hp c)) (length ts - 1))"

text \<open>A decoder holds a context when its cache has the context's rows; rows beyond are stale.\<close>

definition holds_ctx :: "decoder_cfg \<Rightarrow> decoder \<Rightarrow> u32 list \<Rightarrow> bool" where
  "holds_ctx c d ts \<longleftrightarrow> de_n_past d = length ts \<and> (\<forall>l < hp_n_layer (dc_hp c). \<forall>j < length ts. de_kv d l j = kv_at c ts l j)"

lemma residual_prefix: "i < length ts \<Longrightarrow> residual c (ts @ us) l i = residual c ts l i"
proof (induction l arbitrary: i)
  case (Suc l)
  have "map (\<lambda>j. kv_of c l j (residual c (ts @ us) l j)) [0..<i + 1] = map (\<lambda>j. kv_of c l j (residual c ts l j)) [0..<i + 1]"
    using Suc by (intro map_cong refl) (auto simp: less_Suc_eq)
  then show ?case unfolding residual.simps Suc.IH [OF Suc.prems] by (simp only:)
qed (simp add: nth_append)

lemma kv_at_prefix: "j < length ts \<Longrightarrow> kv_at c (ts @ us) l j = kv_at c ts l j"
  by (simp add: kv_at_def residual_prefix)

section \<open>A batch is the sequence of its positions\<close>

lemma kv_stage_at:
  assumes old: "\<And>j. j < n \<Longrightarrow> kv j = row j"
    and new: "\<And>p. p < m \<Longrightarrow> op_kv_append c (kvb p) (rope_k c (n + p) (kva p)) = row (n + p)"
    and st: "kv_stage c n m q kva kvb kv = (kv', ctx)"
  shows "(\<forall>j < n + m. kv' j = row j) \<and> (\<forall>p < m. ctx p = attn_heads c (rope_q c (n + p) (q p)) (map row [0..<n + p + 1]) (n + p))"
proof -
  define body where "body = (\<lambda>p (kv :: nat \<Rightarrow> kv_row, ctx :: nat \<Rightarrow> f32 list).
      let pos = n + p; kv = kv(pos := op_kv_append c (kvb p) (rope_k c pos (kva p)))
      in (kv, ctx(p := attn_heads c (rope_q c pos (q p)) (map kv [0..<pos + 1]) pos)))"
  have "(\<forall>j < n + k. fst (for_loop 0 k body (kv, \<lambda>_. [])) j = row j) \<and>
      (\<forall>p < k. snd (for_loop 0 k body (kv, \<lambda>_. [])) p = attn_heads c (rope_q c (n + p) (q p)) (map row [0..<n + p + 1]) (n + p))"
    if "k \<le> m" for k
    using that
  proof (induction k)
    case (Suc k)
    obtain kv1 ctx1 where s: "for_loop 0 k body (kv, \<lambda>_. []) = (kv1, ctx1)" by (cases "for_loop 0 k body (kv, \<lambda>_. [])")
    have ih: "\<And>j. j < n + k \<Longrightarrow> kv1 j = row j"
      "\<And>p. p < k \<Longrightarrow> ctx1 p = attn_heads c (rope_q c (n + p) (q p)) (map row [0..<n + p + 1]) (n + p)"
      using Suc s by auto
    have r: "op_kv_append c (kvb k) (rope_k c (n + k) (kva k)) = row (n + k)" using new Suc.prems by simp
    have rows: "map (kv1(n + k := row (n + k))) [0..<n + k + 1] = map row [0..<n + k + 1]"
      using ih(1) by (intro map_cong refl) auto
    have "body k (kv1, ctx1)
        = (kv1(n + k := row (n + k)), ctx1(k := attn_heads c (rope_q c (n + k) (q k)) (map row [0..<n + k + 1]) (n + k)))"
      unfolding body_def prod.case Let_def r rows ..
    then have "for_loop 0 (Suc k) body (kv, \<lambda>_. [])
        = (kv1(n + k := row (n + k)), ctx1(k := attn_heads c (rope_q c (n + k) (q k)) (map row [0..<n + k + 1]) (n + k)))"
      by (simp only: for_loop_last [OF le0] s)
    then show ?case using ih by (auto simp: less_Suc_eq)
  qed (use old in simp)
  from this [OF order_refl] show ?thesis using st unfolding kv_stage_def body_def [symmetric] by simp
qed

lemma approx_ku_exact: "dc_approx_k c = 0 \<Longrightarrow> approx_ku c m p = hp_n_used (dc_hp c)"
  by (simp add: approx_ku_def)

lemma layer_batch_at:
  assumes ex: "dc_approx_k c = 0" and xs: "\<And>p. p < m \<Longrightarrow> xs p = residual c ts l (n + p)"
    and kv: "\<And>j. j < n \<Longrightarrow> kv j = kv_at c ts l j" and lb: "layer_batch c l n m xs kv = (xs', kv')"
  shows "(\<forall>p < m. xs' p = residual c ts (Suc l) (n + p)) \<and> (\<forall>j < n + m. kv' j = kv_at c ts l j)"
proof -
  define q where "q = (\<lambda>p. dot_rows c (Wl c l ''attn_q'') 0 (attn_in c l (xs p)))"
  define kva where "kva = (\<lambda>p. dot_rows c (Wl c l ''attn_kv_a_mqa'') 0 (attn_in c l (xs p)))"
  define kvb where "kvb = (\<lambda>p. dot_rows c (Wl c l ''attn_kv_b'') 0 (kv_latent c l (dot_rows c (Wl c l ''attn_kv_a_mqa'') 0 (attn_in c l (xs p)))))"
  obtain kv1 ctx where st: "kv_stage c n m q kva kvb kv = (kv1, ctx)" by (cases "kv_stage c n m q kva kvb kv")
  have new: "op_kv_append c (kvb p) (rope_k c (n + p) (kva p)) = kv_at c ts l (n + p)" if "p < m" for p
    by (simp add: kvb_def kva_def kv_at_def kv_of_def xs [OF that] Let_def)
  from kv_stage_at [OF kv new st] have
    rows: "\<And>j. j < n + m \<Longrightarrow> kv1 j = kv_at c ts l j" and
    ctx: "\<And>p. p < m \<Longrightarrow> ctx p = attn_heads c (rope_q c (n + p) (q p)) (map (kv_at c ts l) [0..<n + p + 1]) (n + p)"
    by blast+
  from lb have kv': "kv' = kv1" and xs': "xs' = (if l < hp_n_dense_lead (dc_hp c)
      then (\<lambda>p. let x2 = op_add2 (hp_n_embd (dc_hp c)) (xs p) (dot_rows c (Wl c l ''attn_output'') 0 (act_q8 c (ctx p)))
                in ffn_dense c l (act_q8 c (ffn_in c l x2)) x2)
      else (\<lambda>p. let x2 = op_add2 (hp_n_embd (dc_hp c)) (xs p) (dot_rows c (Wl c l ''attn_output'') 0 (act_q8 c (ctx p)))
                in ffn_moe c l (approx_ku c m p) (act_q8 c (ffn_in c l x2)) x2))"
    unfolding layer_batch_def Let_def q_def [symmetric] kva_def [symmetric] kvb_def [symmetric] st prod.case by auto
  have "xs' p = residual c ts (Suc l) (n + p)" if p: "p < m" for p
  proof -
    have cp: "ctx p = attn_heads c (rope_q c (n + p) (dot_rows c (Wl c l ''attn_q'') 0 (attn_in c l (residual c ts l (n + p)))))
        (map (\<lambda>j. kv_of c l j (residual c ts l j)) [0..<n + p + 1]) (n + p)"
      unfolding ctx [OF p] q_def xs [OF p] kv_at_def ..
    show ?thesis
      by (cases "l < hp_n_dense_lead (dc_hp c)")
        (simp_all only: xs' if_True if_False residual.simps layer_at_def Let_def approx_ku_exact [OF ex] cp xs [OF p])
  qed
  then show ?thesis using rows kv' by simp
qed

lemma run_layers_at:
  assumes ex: "dc_approx_k c = 0" and xs: "\<And>p. p < m \<Longrightarrow> xs p = embed c (ts ! (n + p))"
    and kv: "\<And>l j. l < L \<Longrightarrow> j < n \<Longrightarrow> kv l j = kv_at c ts l j" and rl: "run_layers c n m L xs kv = (xs', kv')"
  shows "(\<forall>p < m. xs' p = residual c ts L (n + p)) \<and> (\<forall>l < L. \<forall>j < n + m. kv' l j = kv_at c ts l j)"
proof -
  define body where "body = (\<lambda>l (xs :: nat \<Rightarrow> f32 list, kv :: nat \<Rightarrow> nat \<Rightarrow> kv_row).
      let (xs, kl) = layer_batch c l n m xs (kv l) in (xs, kv(l := kl)))"
  have "(\<forall>p < m. fst (for_loop 0 K body (xs, kv)) p = residual c ts K (n + p)) \<and>
      (\<forall>l < K. \<forall>j < n + m. snd (for_loop 0 K body (xs, kv)) l j = kv_at c ts l j) \<and>
      (\<forall>l \<ge> K. snd (for_loop 0 K body (xs, kv)) l = kv l)" if "K \<le> L" for K
    using that
  proof (induction K)
    case (Suc K)
    obtain xs1 kv1 where s: "for_loop 0 K body (xs, kv) = (xs1, kv1)" by (cases "for_loop 0 K body (xs, kv)")
    have ih: "\<And>p. p < m \<Longrightarrow> xs1 p = residual c ts K (n + p)" "\<And>l j. l < K \<Longrightarrow> j < n + m \<Longrightarrow> kv1 l j = kv_at c ts l j"
      "\<And>l. K \<le> l \<Longrightarrow> kv1 l = kv l" using Suc s by auto
    obtain xs2 kl where lb: "layer_batch c K n m xs1 (kv1 K) = (xs2, kl)" by (cases "layer_batch c K n m xs1 (kv1 K)")
    have "\<And>j. j < n \<Longrightarrow> kv1 K j = kv_at c ts K j" using ih(3) kv Suc.prems by simp
    from layer_batch_at [OF ex ih(1) this lb]
    have "\<And>p. p < m \<Longrightarrow> xs2 p = residual c ts (Suc K) (n + p)" "\<And>j. j < n + m \<Longrightarrow> kl j = kv_at c ts K j" by auto
    moreover have "body K (xs1, kv1) = (xs2, kv1(K := kl))" unfolding body_def prod.case lb Let_def ..
    then have "for_loop 0 (Suc K) body (xs, kv) = (xs2, kv1(K := kl))" by (simp only: for_loop_last [OF le0] s)
    ultimately show ?case using ih by (auto simp: less_Suc_eq)
  qed (use xs in simp)
  from this [OF order_refl] show ?thesis using rl unfolding run_layers_def body_def [symmetric] by simp
qed

lemma step_batch_holds:
  assumes ex: "dc_approx_k c = 0" and h: "holds_ctx c d ts" and m: "toks \<noteq> []" "length toks \<le> dc_max_batch c"
    and room: "length ts + length toks \<le> dc_max_kv c"
  shows "\<exists>d'. step_batch c toks d = Inr (d', map (\<lambda>p. next_tok c (ts @ take (Suc p) toks)) [0..<length toks])
    \<and> holds_ctx c d' (ts @ toks)"
proof -
  define L where "L = hp_n_layer (dc_hp c)"
  define n where "n = length ts"
  have np: "de_n_past d = n" and kv: "\<And>l j. l < L \<Longrightarrow> j < n \<Longrightarrow> de_kv d l j = kv_at c (ts @ toks) l j"
    using h by (auto simp: holds_ctx_def L_def n_def kv_at_prefix)
  obtain xs kv' where rl: "run_layers c n (length toks) L (\<lambda>p. embed c (toks ! p)) (de_kv d) = (xs, kv')"
    by (cases "run_layers c n (length toks) L (\<lambda>p. embed c (toks ! p)) (de_kv d)")
  have "\<And>p. p < length toks \<Longrightarrow> embed c (toks ! p) = embed c ((ts @ toks) ! (n + p))" by (simp add: n_def)
  from run_layers_at [OF ex this kv rl]
  have xs: "\<And>p. p < length toks \<Longrightarrow> xs p = residual c (ts @ toks) L (n + p)"
    and kv': "\<And>l j. l < L \<Longrightarrow> j < n + length toks \<Longrightarrow> kv' l j = kv_at c (ts @ toks) l j" by auto
  have out: "greedy c (xs p) = next_tok c (ts @ take (Suc p) toks)" if p: "p < length toks" for p
  proof -
    have "residual c ((ts @ take (Suc p) toks) @ drop (Suc p) toks) L (n + p) = residual c (ts @ take (Suc p) toks) L (n + p)"
      by (rule residual_prefix) (use p in \<open>simp add: n_def\<close>)
    then show ?thesis using p xs [OF p] by (simp add: next_tok_def L_def n_def)
  qed
  have "step_batch c toks d = Inr (\<lparr>de_n_past = n + length toks, de_kv = kv', de_margins = map (\<lambda>p. margin_of c (xs p)) [0..<length toks]\<rparr>,
      map (\<lambda>p. next_tok c (ts @ take (Suc p) toks)) [0..<length toks])"
    using m room unfolding step_batch_def Let_def np L_def [symmetric] rl prod.case
    by (cases toks) (auto simp: n_def out)
  moreover have "holds_ctx c \<lparr>de_n_past = n + length toks, de_kv = kv', de_margins = map (\<lambda>p. margin_of c (xs p)) [0..<length toks]\<rparr> (ts @ toks)"
    using kv' by (simp add: holds_ctx_def n_def L_def)
  ultimately show ?thesis by blast
qed

lemma step_batch_full:
  assumes "holds_ctx c d ts" "toks \<noteq> []" "length toks \<le> dc_max_batch c" "dc_max_kv c < length ts + length toks"
  shows "step_batch c toks d = Inl KvFull"
  using assms by (cases toks) (auto simp: step_batch_def holds_ctx_def Let_def)

lemma rewind_holds:
  assumes h: "holds_ctx c d ts" and k: "k \<le> length ts"
  shows "\<exists>d'. rewind_to k d = Inr d' \<and> holds_ctx c d' (take k ts)"
proof -
  have "kv_at c ts l j = kv_at c (take k ts) l j" if "j < k" for l j
    using kv_at_prefix [of j "take k ts" c "drop k ts" l] that k by simp
  then show ?thesis using h k by (auto simp: rewind_to_def holds_ctx_def)
qed

lemma reset_holds: "holds_ctx c (decoder_reset d) []"
  by (simp add: holds_ctx_def decoder_reset_def)

end
