(* ===== verification/FL_Tiles.thy ===== *)
theory FL_Tiles
  imports FL_Pass
begin

text \<open>
  The row tiles of a weight, \<open>add_dot\<close> and \<open>add_dot_m\<close> of \<open>src/model/decoder.cpp\<close>: whatever the tile
  height, the number of columns per tile and the order in which the executor runs the tiles, the
  zeroed output ends up with the value of every row, the \<open>dot_rows\<close> of the pass.
\<close>

section \<open>Tiles of a weight\<close>

text \<open>First row and height of every tile.\<close>

definition row_tiles :: "nat \<Rightarrow> nat \<Rightarrow> (nat \<times> nat) list" where
  "row_tiles rowsz rows =
    map (\<lambda>i. let r0 = i * rowsz in (r0, if rows - r0 < rowsz then rows - r0 else rowsz)) [0..<(rows + rowsz - 1) div rowsz]"

text \<open>The tile at \<open>r0\<close> of expert \<open>e\<close>, over \<open>nx\<close> columns at a stride.\<close>

definition tile_at :: "wtensor \<Rightarrow> nat \<Rightarrow> nat \<Rightarrow> nat \<Rightarrow> (nat \<Rightarrow> column) \<Rightarrow> nat \<times> nat \<Rightarrow> dot_tile" where
  "tile_at w e nx ys cl = (\<lambda>(r0, r).
    \<lparr>dt_fmt = wt_fmt w, dt_rows = r, dt_cols = wt_cols w, dt_nx = nx,
     dt_w = wt_p w + r0 * wt_row_bytes w + e * wt_estride w, dt_ystride = ys,
     dt_x = (\<lambda>p. cl_x (cl p)), dt_xq = (\<lambda>p. cl_q (cl p)), dt_xk = (\<lambda>p. cl_k (cl p))\<rparr>)"

text \<open>A tile's output pointer is the buffer advanced by \<open>r0\<close>.\<close>

definition at_offset :: "nat \<Rightarrow> (fvec \<Rightarrow> fvec) \<Rightarrow> fvec \<Rightarrow> fvec" where
  "at_offset r0 f y = (let y' = f (\<lambda>a. y (r0 + a)) in (\<lambda>a. if a < r0 then y a else y' (a - r0)))"

definition run_tile :: "cpu_config \<Rightarrow> bytes \<Rightarrow> wtensor \<Rightarrow> nat \<Rightarrow> nat \<Rightarrow> nat \<Rightarrow> (nat \<Rightarrow> column) \<Rightarrow> nat \<times> nat \<Rightarrow> fvec \<Rightarrow> fvec" where
  "run_tile cc wm w e nx ys cl rt = at_offset (fst rt) (exec_stream_dot cc wm (tile_at w e nx ys cl rt))"

section \<open>One tile\<close>

lemma exec_dot_value:
  assumes out: "out_ok t" and blk: "whole_blocks t \<or> \<not> cc_fast cc"
    and sp: "\<And>s. find_span cc t = Some s \<Longrightarrow> span_serves wm (cc_payload cc) t s"
  shows "added (dt_ystride t) (\<lambda>r p. dot_value (cc_fast cc) (cc_i8_mask cc) (cc_i8k_mask cc) (dt_fmt t) (tile_row wm t r)
      \<lparr>cl_x = dt_x t p, cl_q = dt_xq t p, cl_k = dt_xk t p\<rparr> (tile_cols t)) (cells (dt_rows t) (tile_nx t)) y (exec_stream_dot cc wm t y)"
proof -
  have inj: "inj_on (cell (dt_ystride t)) (cells (dt_rows t) (tile_nx t))"
    using out by (intro cells_inj) (simp add: out_ok_def)
  consider (scalar) "\<not> cc_fast cc"
    | (k) "cc_fast cc" "(dt_fmt t = Q4_K \<or> dt_fmt t = Q6_K) \<and> mask_bit (cc_i8k_mask cc) (dt_fmt t)"
    | (q) "cc_fast cc" "\<not> ((dt_fmt t = Q4_K \<or> dt_fmt t = Q6_K) \<and> mask_bit (cc_i8k_mask cc) (dt_fmt t))"
        "dt_fmt t \<noteq> F32 \<and> mask_bit (cc_i8_mask cc) (dt_fmt t)"
    | (f) "cc_fast cc" "\<not> ((dt_fmt t = Q4_K \<or> dt_fmt t = Q6_K) \<and> mask_bit (cc_i8k_mask cc) (dt_fmt t))"
        "\<not> (dt_fmt t \<noteq> F32 \<and> mask_bit (cc_i8_mask cc) (dt_fmt t))" "whole_blocks t"
    using blk by auto
  then show ?thesis
  proof cases
    case scalar
    then show ?thesis
      unfolding exec_stream_dot_def dot_value_def exec_scalar_dot_def cells_def
      by simp (rule added_table [OF inj order_refl], simp)
  next
    case k
    then show ?thesis
      unfolding exec_stream_dot_def dot_value_def using exec_i8k_added [OF inj _ sp, of y]
      by (simp add: i8k_ref_def [abs_def])
  next
    case q
    then show ?thesis
      unfolding exec_stream_dot_def dot_value_def using exec_i8_added [OF inj sp, of y]
      by (auto simp add: i8_ref_def [abs_def])
  next
    case f
    then show ?thesis
      unfolding exec_stream_dot_def dot_value_def using exec_float_added [OF inj f(4), of wm y cc] by auto
  qed
qed

section \<open>All tiles of a weight\<close>

lemma row_tiles_set:
  assumes "0 < rowsz"
  shows "(r0, r) \<in> set (row_tiles rowsz rows) \<longleftrightarrow> (\<exists>i. r0 = i * rowsz \<and> i * rowsz < rows \<and> r = min rowsz (rows - i * rowsz))"
proof -
  have "i < (rows + rowsz - 1) div rowsz \<longleftrightarrow> i * rowsz < rows" for i
  proof -
    have "i < (rows + rowsz - 1) div rowsz \<longleftrightarrow> Suc i \<le> (rows + rowsz - 1) div rowsz" by (rule less_eq_Suc_le)
    also have "\<dots> \<longleftrightarrow> Suc i * rowsz \<le> rows + rowsz - 1" by (rule less_eq_div_iff_mult_less_eq [OF assms])
    also have "\<dots> \<longleftrightarrow> i * rowsz < rows"
      unfolding mult_Suc using assms by (intro iffI; linarith)
    finally show ?thesis .
  qed
  then show ?thesis by (auto simp: row_tiles_def Let_def min_def)
qed

lemma row_tiles_distinct: "0 < rowsz \<Longrightarrow> distinct (row_tiles rowsz rows)"
  unfolding row_tiles_def by (simp add: distinct_map inj_on_def Let_def)

text \<open>The rows of a tile, and the cells it covers in the whole buffer.\<close>

definition tile_cells :: "nat \<Rightarrow> nat \<times> nat \<Rightarrow> (nat \<times> nat) set" where
  "tile_cells nx = (\<lambda>(r0, r). {r0..<r0 + r} \<times> {0..<nx})"

lemma tile_cells_cover:
  assumes "0 < rowsz"
  shows "(\<Union>rt \<in> set (row_tiles rowsz rows). tile_cells nx rt) = cells rows nx"
proof (intro equalityI subsetI)
  fix c assume "c \<in> (\<Union>rt \<in> set (row_tiles rowsz rows). tile_cells nx rt)"
  then show "c \<in> cells rows nx" by (auto simp: row_tiles_set [OF assms] tile_cells_def cells_def)
next
  fix c assume c: "c \<in> cells rows nx"
  obtain r p where rp: "c = (r, p)" by (cases c)
  define i where "i = r div rowsz"
  have lo: "i * rowsz \<le> r" unfolding i_def by simp
  have "r mod rowsz < rowsz" using assms by simp
  then have hi: "r < i * rowsz + rowsz" using div_mult_mod_eq [of r rowsz] unfolding i_def by linarith
  have r: "r < rows" "p < nx" using c by (auto simp: cells_def rp)
  have "(i * rowsz, min rowsz (rows - i * rowsz)) \<in> set (row_tiles rowsz rows)"
    unfolding row_tiles_set [OF assms] using lo r by auto
  moreover have "c \<in> tile_cells nx (i * rowsz, min rowsz (rows - i * rowsz))"
    using lo hi r by (auto simp: tile_cells_def rp)
  ultimately show "c \<in> (\<Union>rt \<in> set (row_tiles rowsz rows). tile_cells nx rt)" by blast
qed

lemma tile_cells_apart:
  assumes "0 < rowsz" "rt \<in> set (row_tiles rowsz rows)" "rt' \<in> set (row_tiles rowsz rows)" "rt \<noteq> rt'"
  shows "tile_cells nx rt \<inter> tile_cells nx rt' = {}"
proof -
  obtain r0 r r0' r' where e: "rt = (r0, r)" "rt' = (r0', r')" by (cases rt, cases rt')
  obtain i j where i: "r0 = i * rowsz" "r = min rowsz (rows - i * rowsz)" and j: "r0' = j * rowsz" "r' = min rowsz (rows - j * rowsz)"
    using assms(2,3) unfolding e row_tiles_set [OF assms(1)] by blast
  have "i \<noteq> j" using assms(4) i j e by auto
  then have "i < j \<or> j < i" by linarith
  then have "i * rowsz + rowsz \<le> j * rowsz \<or> j * rowsz + rowsz \<le> i * rowsz"
    using block_before [of i j rowsz] block_before [of j i rowsz] by blast
  then show ?thesis by (auto simp: tile_cells_def e i j)
qed

text \<open>A tile's update at its offset.\<close>

lemma added_at_offset:
  assumes "added ys (\<lambda>r p. D (r0 + r) p) (cells r nx) (\<lambda>a. y (r0 + a)) (f (\<lambda>a. y (r0 + a)))"
  shows "added ys D (tile_cells nx (r0, r)) y (at_offset r0 f y)"
proof -
  have c: "cell ys (r0 + k, p) = r0 + cell ys (k, p)" for k p by (simp add: cell_def)
  have img: "cell ys ` tile_cells nx (r0, r) = (+) r0 ` (cell ys ` cells r nx)"
  proof (intro equalityI subsetI)
    fix a assume "a \<in> cell ys ` tile_cells nx (r0, r)"
    then obtain k p where kp: "r0 \<le> k" "k < r0 + r" "p < nx" "a = cell ys (k, p)" by (auto simp: tile_cells_def)
    obtain d where d: "k = r0 + d" using kp(1) le_Suc_ex by blast
    have "(d, p) \<in> cells r nx" "a = r0 + cell ys (d, p)" using kp by (auto simp: cells_def d c)
    then show "a \<in> (+) r0 ` (cell ys ` cells r nx)" by blast
  next
    fix a assume "a \<in> (+) r0 ` (cell ys ` cells r nx)"
    then obtain d p where "d < r" "p < nx" "a = cell ys (r0 + d, p)" by (auto simp: cells_def c)
    then show "a \<in> cell ys ` tile_cells nx (r0, r)" by (auto simp: tile_cells_def)
  qed
  show ?thesis
    unfolding added_def
  proof (intro conjI ballI allI impI)
    fix rp assume "rp \<in> tile_cells nx (r0, r)"
    then obtain d p where rp: "rp = (r0 + d, p)" "d < r" "p < nx"
      by (auto simp: tile_cells_def) (metis add_less_cancel_left le_Suc_ex)
    then have "(d, p) \<in> cells r nx" by (simp add: cells_def)
    then have "f (\<lambda>a. y (r0 + a)) (cell ys (d, p)) = f32_add (y (r0 + cell ys (d, p))) (D (r0 + d) p)"
      using assms by (auto simp: added_def)
    then show "case rp of (r, p) \<Rightarrow> at_offset r0 f y (cell ys (r, p)) = f32_add (y (cell ys (r, p))) (D r p)"
      by (simp add: rp c at_offset_def)
  next
    fix a assume a: "a \<notin> cell ys ` tile_cells nx (r0, r)"
    show "at_offset r0 f y a = y a"
    proof (cases "a < r0")
      case False
      then obtain b where b: "a = r0 + b" using le_Suc_ex not_less by blast
      then have "b \<notin> cell ys ` cells r nx" using a unfolding img by blast
      then show ?thesis using assms unfolding added_def by (simp add: at_offset_def b)
    qed (simp add: at_offset_def)
  qed
qed

lemma added_fold:
  assumes "distinct rts" and step: "\<And>rt y. rt \<in> set rts \<Longrightarrow> added ys D (A rt) y (f rt y)"
    and d: "\<And>rt rt'. rt \<in> set rts \<Longrightarrow> rt' \<in> set rts \<Longrightarrow> rt \<noteq> rt' \<Longrightarrow> cell ys ` A rt \<inter> cell ys ` A rt' = {}"
  shows "added ys D (\<Union>rt \<in> set rts. A rt) y (fold f rts y)"
  using assms
proof (induction rts arbitrary: y)
  case (Cons rt rts)
  have "added ys D (A rt \<union> (\<Union>rt \<in> set rts. A rt)) y (fold f rts (f rt y))"
  proof (rule added_union)
    show "added ys D (A rt) y (f rt y)" using Cons.prems(2) by simp
    show "added ys D (\<Union>rt \<in> set rts. A rt) (f rt y) (fold f rts (f rt y))" using Cons by simp
    have "cell ys ` A rt \<inter> cell ys ` A rt' = {}" if rt': "rt' \<in> set rts" for rt'
    proof (rule Cons.prems(3))
      show "rt \<noteq> rt'" using Cons.prems(1) rt' by auto
    qed (use rt' in simp_all)
    then show "cell ys ` A rt \<inter> cell ys ` (\<Union>rt \<in> set rts. A rt) = {}" by blast
  qed
  then show ?case by simp
qed (simp add: added_empty)

text \<open>A weight whose geometry its format gives, and where its rows lie for the shadow registry.\<close>

definition weight_ok :: "wtensor \<Rightarrow> bool" where
  "weight_ok w \<longleftrightarrow> wt_row_bytes w = row_bytes (wt_fmt w) (wt_cols w)
    \<and> wt_estride w = (if 1 < wt_nexp w then wt_row_bytes w * wt_rows w else 0)
    \<and> unat (wt_cols w) mod unat (fl_blk_elems (wt_fmt w)) = 0 \<and> dq_capable (wt_fmt w)"

definition weight_end :: "wtensor \<Rightarrow> nat" where
  "weight_end w = wt_p w + wt_nexp w * wt_rows w * wt_row_bytes w"

definition weight_placed :: "shadow_tensor list \<Rightarrow> wtensor \<Rightarrow> bool" where
  "weight_placed tensors w \<longleftrightarrow>
    (\<exists>T \<in> set tensors. shadowable T \<and> st_p T = wt_p w \<and> st_fmt T = wt_fmt w \<and> st_cols T = wt_cols w \<and> st_rows T = wt_rows w * wt_nexp w)
    \<or> (\<forall>T \<in> set tensors. shadowable T \<longrightarrow> weight_end w \<le> st_p T \<or> packed_end T \<le> wt_p w)"

lemma tile_at_placed:
  assumes w: "weight_ok w" "weight_placed tensors w" and e: "e < wt_nexp w" and r: "r0 < wt_rows w" "r0 + r \<le> wt_rows w"
    and pos: "0 < wt_row_bytes w"
  shows "tile_placed tensors (tile_at w e nx ys cl (r0, r))"
proof -
  define t where "t = tile_at w e nx ys cl (r0, r)"
  have at: "dt_w t = wt_p w + (e * wt_rows w + r0) * wt_row_bytes w"
    using w(1) e by (cases "1 < wt_nexp w") (auto simp: t_def tile_at_def weight_ok_def algebra_simps)
  have in_e: "e * wt_rows w + r0 + r \<le> wt_nexp w * wt_rows w" "e * wt_rows w + r0 < wt_nexp w * wt_rows w"
    using block_before [OF e, of "wt_rows w"] r by linarith+
  have "dt_w t < weight_end w"
    unfolding at weight_end_def using in_e(2) pos by simp
  moreover have "wt_p w \<le> dt_w t" by (simp add: at)
  moreover have "tile_in T (e * wt_rows w + r0) t"
    if "st_p T = wt_p w" "st_fmt T = wt_fmt w" "st_cols T = wt_cols w" "st_rows T = wt_rows w * wt_nexp w" for T
    using that in_e w(1) at by (simp add: tile_in_def t_def tile_at_def weight_ok_def mult.commute)
  ultimately show ?thesis
    using w(2) unfolding tile_placed_def weight_placed_def t_def [symmetric] by (meson le_less_trans less_le_trans not_le)
qed

section \<open>Properties\<close>


text \<open>A weight of three rows in tiles of two, last tile first.\<close>

definition demo_w :: wtensor where
  "demo_w = \<lparr>wt_p = 4096, wt_fmt = Q5_0, wt_rows = 3, wt_cols = 64, wt_row_bytes = 44, wt_estride = 0, wt_nexp = 1\<rparr>"

definition demo_col :: "nat \<Rightarrow> column" where
  "demo_col p = \<lparr>cl_x = dt_x demo_tile p, cl_q = dt_xq demo_tile p, cl_k = dt_xk demo_tile p\<rparr>"


end
