(* ===== verification/FL_Decode_Graph.thy ===== *)
theory FL_Decode_Graph
  imports FL_Build FL_Tiles
begin

text \<open>
  The task graph of a pass, \<open>build_graph_m\<close> of \<open>src/model/decoder.cpp\<close>: for a batch of \<open>m\<close> positions,
  the operations of every stage of every layer with their dependencies, the head, and the terminal.
  Buffers and parameter structs are the addresses the arena gave out, a parameter of the model. The
  theorems show that \<open>freeze\<close> accepts the graph, and that it orders the attention heads of a position
  behind the cache appends of that and all earlier positions.
\<close>

section \<open>Configuration\<close>

text \<open>
  \<open>gc_base\<close> and \<open>gc_stride\<close> are a buffer of columns and the floats between them; \<open>gc_at\<close> is any other
  object: a parameter struct, the identifiers and gates of a router, the buffers of an expert.
\<close>

record graph_cfg =
  gc_dec :: decoder_cfg
  gc_affinity :: nat
  gc_mc :: nat
  gc_barrier :: bool
  gc_hc :: nat
  gc_rowsz :: nat
  gc_head_rowsz :: nat
  gc_base :: "string \<Rightarrow> nat \<Rightarrow> addr"
  gc_stride :: "string \<Rightarrow> u32"
  gc_at :: "string \<Rightarrow> nat \<Rightarrow> nat \<Rightarrow> addr"

definition dot_aff :: "nat \<Rightarrow> fmt \<Rightarrow> engine" where
  "dot_aff a f = (if a = 0 then GPU else if a = 1 then CPU else if f = Q8_0 then CPU else GPU)"

definition default_rowsz :: "nat \<Rightarrow> nat" where
  "default_rowsz m = (if 7 \<le> m then 768 else if 5 \<le> m then 512 else if 3 \<le> m then 384 else if 2 \<le> m then 256 else 192)"

text \<open>The tile heights after the environment overrides; zero selects a fixed height.\<close>

definition tile_heights :: "u32 option \<Rightarrow> u32 option \<Rightarrow> nat \<Rightarrow> nat \<times> nat" where
  "tile_heights e1 e2 m =
    (let r = (case e1 of Some v \<Rightarrow> unat v | None \<Rightarrow> default_rowsz m);
         h = (case e2 of Some v \<Rightarrow> unat v | None \<Rightarrow> 1024)
     in (if r = 0 then 256 else r, if h = 0 then 1024 else h))"

definition col_at :: "graph_cfg \<Rightarrow> string \<Rightarrow> nat \<Rightarrow> nat \<Rightarrow> addr" where
  "col_at g x l p = gc_base g x l + of_nat (4 * p * unat (gc_stride g x))"

section \<open>Dots\<close>

definition dot_task :: "graph_cfg \<Rightarrow> wtensor \<Rightarrow> addr \<Rightarrow> addr \<Rightarrow> addr \<Rightarrow> nat \<times> nat \<Rightarrow> task" where
  "dot_task g w x y idx = (\<lambda>(r0, r).
    task0\<lparr>t_kind := if idx \<noteq> 0 then STREAM_DOT_IDX else STREAM_DOT, t_affinity := dot_aff (gc_affinity g) (wt_fmt w),
      t_fmt := wt_fmt w, t_w := of_nat (wt_p w + r0 * wt_row_bytes w), t_w_bytes := of_nat r * of_nat (wt_row_bytes w),
      t_x := x, t_y := y + of_nat (4 * r0), t_rows := of_nat r, t_cols := wt_cols w, t_aux := idx,
      t_aux2 := if idx \<noteq> 0 then of_nat (wt_estride w) else 0\<rparr>)"

definition add_dot :: "graph_cfg \<Rightarrow> wtensor \<Rightarrow> addr \<Rightarrow> addr \<Rightarrow> nat list \<Rightarrow> nat \<Rightarrow> addr \<Rightarrow> builder \<Rightarrow> graph_error + builder \<times> nat" where
  "add_dot g w x y deps rowsz idx b = tiled (map (dot_task g w x y idx) (row_tiles rowsz (wt_rows w))) deps b"

definition mc_task :: "graph_cfg \<Rightarrow> wtensor \<Rightarrow> addr \<Rightarrow> u32 \<Rightarrow> addr \<Rightarrow> u32 \<Rightarrow> nat \<Rightarrow> nat \<times> nat \<Rightarrow> task" where
  "mc_task g w x xs y ys m = (\<lambda>(r0, r).
    task0\<lparr>t_kind := STREAM_DOT, t_affinity := if gc_mc g = 2 then CPU else dot_aff (gc_affinity g) (wt_fmt w),
      t_fmt := wt_fmt w, t_w := of_nat (wt_p w + r0 * wt_row_bytes w), t_w_bytes := of_nat r * of_nat (wt_row_bytes w),
      t_x := x, t_y := y + of_nat (4 * r0), t_rows := of_nat r, t_cols := wt_cols w, t_nx := of_nat m,
      t_xstride := xs, t_ystride := ys\<rparr>)"

definition add_dot_m :: "graph_cfg \<Rightarrow> wtensor \<Rightarrow> addr \<Rightarrow> u32 \<Rightarrow> addr \<Rightarrow> u32 \<Rightarrow> nat \<Rightarrow> nat list \<Rightarrow> nat \<Rightarrow> builder
    \<Rightarrow> graph_error + builder \<times> nat" where
  "add_dot_m g w x xs y ys m deps rowsz b =
    (if gc_mc g = 0
     then bind_e (each [0..<m] (\<lambda>p. add_dot g w (x + of_nat (4 * p * unat xs)) (y + of_nat (4 * p * unat ys)) deps rowsz 0) b)
       (\<lambda>(b, sigs). fan_in sigs b)
     else if m = 1 then add_dot g w x y deps rowsz 0 b
     else tiled (map (mc_task g w x xs y ys m) (row_tiles rowsz (wt_rows w))) deps b)"

text \<open>One weight over all positions: a tile set per column, or one multi-column tile set.\<close>

definition stage_dot :: "graph_cfg \<Rightarrow> wtensor \<Rightarrow> string \<Rightarrow> string \<Rightarrow> nat \<Rightarrow> nat \<Rightarrow> nat list \<Rightarrow> builder \<Rightarrow> graph_error + builder \<times> nat list" where
  "stage_dot g w x y l m pdeps b =
    (if gc_mc g \<noteq> 0 \<and> 1 < m
     then bind_e (add_dot_m g w (gc_base g x l) (gc_stride g x) (gc_base g y l) (gc_stride g y) m pdeps (gc_rowsz g) b)
       (\<lambda>(b, n). Inr (b, replicate m n))
     else each [0..<m] (\<lambda>p. add_dot g w (col_at g x l p) (col_at g y l p) [pdeps ! p] (gc_rowsz g) 0) b)"

section \<open>Stages\<close>

definition dec_op :: "graph_cfg \<Rightarrow> task_kind \<Rightarrow> string \<Rightarrow> nat \<Rightarrow> nat \<Rightarrow> nat list \<Rightarrow> builder \<Rightarrow> graph_error + builder \<times> nat" where
  "dec_op g k nm l p deps b = add_op k (gc_at g nm l p) deps CPU b"

text \<open>The quantisation of \<open>n\<close> floats at \<open>x\<close>.\<close>

definition act_op :: "addr \<Rightarrow> nat \<Rightarrow> nat list \<Rightarrow> builder \<Rightarrow> graph_error + builder \<times> nat" where
  "act_op x n deps b =
    task_after (task0\<lparr>t_kind := ACT_Q8, t_affinity := CPU, t_x := x, t_y := fl_xq_of x (of_nat n),
      t_rows := of_nat (n div 32), t_cols := of_nat n\<rparr>) deps b"

text \<open>An operation followed by the quantisation of its output.\<close>

definition op_act :: "graph_cfg \<Rightarrow> task_kind \<Rightarrow> string \<Rightarrow> nat \<Rightarrow> nat \<Rightarrow> addr \<Rightarrow> nat \<Rightarrow> nat list \<Rightarrow> builder \<Rightarrow> graph_error + builder \<times> nat" where
  "op_act g k nm l p x n deps b = bind_e (dec_op g k nm l p deps b) (\<lambda>(b, t). act_op x n [t] b)"

text \<open>Stage E of a position: rotate, append behind the appends so far, then the heads and the context.\<close>

definition append_ops :: "graph_cfg \<Rightarrow> nat \<Rightarrow> nat \<Rightarrow> nat \<Rightarrow> nat \<Rightarrow> nat \<Rightarrow> nat option \<Rightarrow> builder
    \<Rightarrow> graph_error + builder \<times> nat \<times> nat \<times> nat" where
  "append_ops g l p sq skva skvb cum b =
    bind_e (dec_op g ROPE_DS2 ''rope.q'' l p [sq] b) (\<lambda>(b, t_rq).
    bind_e (dec_op g ROPE_DS2 ''rope.k'' l p [skva] b) (\<lambda>(b, t_rk).
    bind_e (dec_op g KV_APPEND ''kv'' l p [skvb, t_rk] b) (\<lambda>(b, t_app).
    bind_e (case cum of None \<Rightarrow> Inr (b, t_app) | Some c \<Rightarrow> fan_in [c, t_app] b) (\<lambda>(b, app_cum).
      Inr (b, t_rq, t_app, app_cum)))))"

definition head_ops_of :: "graph_cfg \<Rightarrow> nat \<Rightarrow> nat \<Rightarrow> nat \<Rightarrow> nat \<Rightarrow> builder \<Rightarrow> graph_error + builder \<times> nat list \<times> nat" where
  "head_ops_of g l p t_rq app_cum b =
    (let h = dc_hp (gc_dec g) in
     bind_e (each [0..<hp_n_head h] (\<lambda>hh. dec_op g ATTN_HEAD ''head'' l (p * hp_n_head h + hh) [t_rq, app_cum]) b) (\<lambda>(b, heads).
     bind_e (fan_in heads b) (\<lambda>(b, t_heads).
     bind_e (act_op (col_at g ''ctx'' l p) (hp_n_head h * hp_dv h) [t_heads] b) (\<lambda>(b, cq8).
       Inr (b, heads, cq8)))))"

text \<open>The loop in position order; \<open>cum\<close> covers the appends so far.\<close>

fun stage_e :: "graph_cfg \<Rightarrow> nat \<Rightarrow> nat list \<Rightarrow> nat list \<Rightarrow> nat list \<Rightarrow> nat list \<Rightarrow> nat option \<Rightarrow> builder
    \<Rightarrow> graph_error + builder \<times> (nat \<times> nat list \<times> nat) list" where
  "stage_e g l sq skva skvb [] cum b = Inr (b, [])"
| "stage_e g l sq skva skvb (p # ps) cum b =
    bind_e (append_ops g l p (sq ! p) (skva ! p) (skvb ! p) cum b) (\<lambda>(b, t_rq, t_app, app_cum).
    bind_e (head_ops_of g l p t_rq app_cum b) (\<lambda>(b, heads, cq8).
    bind_e (stage_e g l sq skva skvb ps (Some app_cum) b) (\<lambda>(b, rest). Inr (b, (t_app, heads, cq8) # rest))))"

text \<open>Stage G: the residual, its norm, and the quantised norm.\<close>

definition stage_g :: "graph_cfg \<Rightarrow> nat \<Rightarrow> nat list \<Rightarrow> nat option list \<Rightarrow> nat \<Rightarrow> builder \<Rightarrow> graph_error + builder \<times> nat \<times> nat \<times> nat" where
  "stage_g g l so xd p b =
    bind_e (dec_op g ADD2 ''add2'' l p (so ! p # (case xd ! p of None \<Rightarrow> [] | Some d \<Rightarrow> [d])) b) (\<lambda>(b, t2).
    bind_e (dec_op g RMSNORM ''ffn.norm'' l p [t2] b) (\<lambda>(b, fn).
    bind_e (act_op (col_at g ''xf'' l p) (hp_n_embd (dc_hp (gc_dec g))) [fn] b) (\<lambda>(b, fq). Inr (b, t2, fn, fq))))"

definition gate_up_down :: "graph_cfg \<Rightarrow> nat \<Rightarrow> nat \<Rightarrow> string \<Rightarrow> nat \<Rightarrow> nat list \<Rightarrow> builder \<Rightarrow> graph_error + builder \<times> nat list" where
  "gate_up_down g l m sfx n fq8 b =
    bind_e (stage_dot g (Wl (gc_dec g) l (''ffn_gate'' @ sfx)) ''xf'' (''g'' @ sfx) l m fq8 b) (\<lambda>(b, sg).
    bind_e (stage_dot g (Wl (gc_dec g) l (''ffn_up'' @ sfx)) ''xf'' (''u'' @ sfx) l m fq8 b) (\<lambda>(b, su).
    bind_e (each [0..<m] (\<lambda>p. op_act g SILU_MUL (''silu'' @ sfx) l p (col_at g (''h'' @ sfx) l p) n [sg ! p, su ! p]) b) (\<lambda>(b, hq8).
      stage_dot g (Wl (gc_dec g) l (''ffn_down'' @ sfx)) (''h'' @ sfx) (''d'' @ sfx) l m hq8 b)))"

text \<open>A routed expert slot \<open>s\<close> of position \<open>p\<close>, its weights selected by the router's identifier.\<close>

definition expert_ops :: "graph_cfg \<Rightarrow> nat \<Rightarrow> nat \<Rightarrow> nat \<Rightarrow> nat \<Rightarrow> nat \<Rightarrow> builder \<Rightarrow> graph_error + builder \<times> nat" where
  "expert_ops g l p fq t_rt s b =
    (let c = gc_dec g; h = dc_hp c; i = p * hp_n_used h + s; x = col_at g ''xf'' l p; id_slot = gc_at g ''ids'' l i;
         he = gc_at g ''he'' l i in
     bind_e (add_dot g (Wl c l ''ffn_gate_exps'') x (gc_at g ''ge'' l i) [fq, t_rt] (gc_rowsz g) id_slot b) (\<lambda>(b, t_ge).
     bind_e (add_dot g (Wl c l ''ffn_up_exps'') x (gc_at g ''ue'' l i) [fq, t_rt] (gc_rowsz g) id_slot b) (\<lambda>(b, t_ue).
     bind_e (op_act g SILU_MUL ''silu.e'' l i he (hp_n_ff_exp h) [t_ge, t_ue] b) (\<lambda>(b, t_hq8).
       add_dot g (Wl c l ''ffn_down_exps'') he (gc_at g ''de'' l i) [t_hq8] (gc_rowsz g) id_slot b))))"

text \<open>Routers of all positions, the experts of each behind its own router or, under the barrier, behind all.\<close>

definition router_ops :: "graph_cfg \<Rightarrow> nat \<Rightarrow> nat list \<Rightarrow> nat \<Rightarrow> builder \<Rightarrow> graph_error + builder \<times> nat" where
  "router_ops g l fn p b =
    bind_e (add_dot g (Wl (gc_dec g) l ''ffn_gate_inp'') (col_at g ''xf'' l p) (gc_at g ''rlog'' l p) [fn ! p] (gc_rowsz g) 0 b) (\<lambda>(b, t_rl).
      dec_op g ROUTER_SEL ''router'' l p [t_rl] b)"

definition expert_stage :: "graph_cfg \<Rightarrow> nat \<Rightarrow> nat \<Rightarrow> nat list \<Rightarrow> nat list \<Rightarrow> builder \<Rightarrow> graph_error + builder \<times> nat list" where
  "expert_stage g l m fn fq8 b =
    bind_e (each [0..<m] (router_ops g l fn) b) (\<lambda>(b, rts).
    bind_e (if gc_barrier g then bind_e (fan_in rts b) (\<lambda>(b, n). Inr (b, replicate m n)) else Inr (b, rts)) (\<lambda>(b, gates).
      each [0..<m] (\<lambda>p b.
        bind_e (each [0..<approx_ku (gc_dec g) m p] (expert_ops g l p (fq8 ! p) (gates ! p)) b) (\<lambda>(b, downs). fan_in downs b)) b))"

definition ffn_stage :: "graph_cfg \<Rightarrow> nat \<Rightarrow> nat \<Rightarrow> (nat \<times> nat \<times> nat) list \<Rightarrow> builder \<Rightarrow> graph_error + builder \<times> nat list" where
  "ffn_stage g l m fs b =
    (let h = dc_hp (gc_dec g); t2 = map fst fs; fn = map (fst \<circ> snd) fs; fq8 = map (snd \<circ> snd) fs in
     if l < hp_n_dense_lead h
     then bind_e (gate_up_down g l m [] (hp_n_ff_dense h) fq8 b) (\<lambda>(b, sd).
       each [0..<m] (\<lambda>p. dec_op g WMERGE ''merge'' l p [sd ! p, t2 ! p]) b)
     else bind_e (expert_stage g l m fn fq8 b) (\<lambda>(b, rdown).
       bind_e (gate_up_down g l m ''_shexp'' (wt_rows (Wl (gc_dec g) l ''ffn_gate_shexp'')) fq8 b) (\<lambda>(b, sds).
       each [0..<m] (\<lambda>p. dec_op g WMERGE ''merge'' l p [rdown ! p, sds ! p, t2 ! p]) b)))"

text \<open>A layer: the residual dependencies in, the residual dependencies and the appends and heads out.\<close>

definition layer_ops :: "graph_cfg \<Rightarrow> nat \<Rightarrow> nat option list \<Rightarrow> nat \<Rightarrow> builder
    \<Rightarrow> graph_error + builder \<times> nat list \<times> (nat \<times> nat list \<times> nat) list" where
  "layer_ops g m xd l b =
    (let c = gc_dec g; h = dc_hp c in
     bind_e (each [0..<m] (\<lambda>p. op_act g RMSNORM ''attn.norm'' l p (col_at g ''xn'' l p) (hp_n_embd h)
         (case xd ! p of None \<Rightarrow> [] | Some d \<Rightarrow> [d])) b) (\<lambda>(b, aq).
     bind_e (stage_dot g (Wl c l ''attn_q'') ''xn'' ''q'' l m aq b) (\<lambda>(b, sq).
     bind_e (stage_dot g (Wl c l ''attn_kv_a_mqa'') ''xn'' ''kva'' l m aq b) (\<lambda>(b, skva).
     bind_e (each [0..<m] (\<lambda>p. op_act g RMSNORM ''kv.norm'' l p (col_at g ''ckv'' l p) (hp_kv_lora h) [skva ! p]) b) (\<lambda>(b, kq8).
     bind_e (stage_dot g (Wl c l ''attn_kv_b'') ''ckv'' ''kvb'' l m kq8 b) (\<lambda>(b, skvb).
     bind_e (stage_e g l sq skva skvb [0..<m] None b) (\<lambda>(b, es).
     bind_e (stage_dot g (Wl c l ''attn_output'') ''ctx'' ''ao'' l m (map (snd \<circ> snd) es) b) (\<lambda>(b, so).
     bind_e (each [0..<m] (stage_g g l so xd) b) (\<lambda>(b, fs).
     bind_e (ffn_stage g l m fs b) (\<lambda>(b, ms). Inr (b, ms, es)))))))))))"

fun layers_ops :: "graph_cfg \<Rightarrow> nat \<Rightarrow> nat option list \<Rightarrow> nat list \<Rightarrow> builder
    \<Rightarrow> graph_error + builder \<times> nat option list \<times> (nat \<times> nat list \<times> nat) list list" where
  "layers_ops g m xd [] b = Inr (b, xd, [])"
| "layers_ops g m xd (l # ls) b =
    bind_e (layer_ops g m xd l b) (\<lambda>(b, ms, es).
    bind_e (layers_ops g m (map Some ms) ls b) (\<lambda>(b, xd, ess). Inr (b, xd, es # ess)))"

text \<open>The final norms, the head over all positions, and the terminal. With the certified head there is no
  head dot and the quantised norms are the producers of the terminal.\<close>

definition head_ops :: "graph_cfg \<Rightarrow> nat \<Rightarrow> nat option list \<Rightarrow> builder \<Rightarrow> graph_error + builder \<times> nat list" where
  "head_ops g m xd b =
    (let c = gc_dec g; h = dc_hp c in
     bind_e (each [0..<m] (\<lambda>p. op_act g RMSNORM ''out.norm'' 0 p (col_at g ''xF'' 0 p) (hp_n_embd h)
         (case xd ! p of None \<Rightarrow> [] | Some d \<Rightarrow> [d])) b) (\<lambda>(b, deps).
     if gc_hc g = 1 then Inr (b, deps)
     else bind_e (add_dot_m g (dc_w c ''output.weight'') (gc_base g ''xF'' 0) (gc_stride g ''xF'') (gc_base g ''logits'' 0)
         (of_nat (hp_n_vocab h)) m deps (gc_head_rowsz g) b) (\<lambda>(b, n). Inr (b, [n]))))"

fun add_edges :: "nat list \<Rightarrow> nat \<Rightarrow> builder \<Rightarrow> graph_error + builder" where
  "add_edges [] c b = Inr b"
| "add_edges (p # ps) c b = bind_e (add_edge p c b) (add_edges ps c)"

definition build_graph_m :: "graph_cfg \<Rightarrow> nat \<Rightarrow> graph_error + graph \<times> (nat \<times> nat list \<times> nat) list list" where
  "build_graph_m g m =
    bind_e (layers_ops g m (replicate m None) [0..<hp_n_layer (dc_hp (gc_dec g))] (builder_create (18000 * m))) (\<lambda>(b, xd, ess).
    bind_e (head_ops g m xd b) (\<lambda>(b, hs).
    bind_e (raw_signal b) (\<lambda>(b, done).
    bind_e (add_edges hs done b) (\<lambda>b.
    bind_e (graph_freeze (bd_graph b)) (\<lambda>gr. Inr (gr, ess))))))"

section \<open>What the calls need\<close>

definition weight_built :: "wtensor \<Rightarrow> bool" where
  "weight_built w \<longleftrightarrow> 0 < wt_rows w \<and> wt_rows w < 2 ^ 32 \<and> of_nat (wt_row_bytes w) = fl_row_bytes (wt_fmt w) (wt_cols w)
     \<and> wt_cols w mod fl_blk_elems (wt_fmt w) = 0"

definition expert_built :: "wtensor \<Rightarrow> bool" where
  "expert_built w \<longleftrightarrow> weight_built w \<and> of_nat (wt_estride w) \<noteq> (0 :: u64)"

lemma ucast_of_nat_small: "r < 2 ^ 32 \<Longrightarrow> ucast (of_nat r :: u32) = (of_nat r :: u64)"
  by (simp add: unsigned_of_nat take_bit_nat_eq_self)

lemma tile_rows_small: "0 < rowsz \<Longrightarrow> (r0, r) \<in> set (row_tiles rowsz rows) \<Longrightarrow> rows < 2 ^ 32 \<Longrightarrow> r < 2 ^ 32"
  by (auto simp: row_tiles_set)

lemma dot_task_check:
  assumes "weight_built w" "idx \<noteq> 0 \<Longrightarrow> expert_built w" "0 < rowsz" "t \<in> set (map (dot_task g w x y idx) (row_tiles rowsz (wt_rows w)))"
  shows "task_check t = None"
proof -
  obtain r0 r where t: "t = dot_task g w x y idx (r0, r)" "(r0, r) \<in> set (row_tiles rowsz (wt_rows w))" using assms(4) by auto
  have "r < 2 ^ 32" using tile_rows_small [OF assms(3) t(2)] assms(1) by (simp add: weight_built_def)
  from ucast_of_nat_small [OF this] show ?thesis
    using assms(1,2) by (auto simp: t(1) dot_task_def task_check_def weight_built_def expert_built_def)
qed

lemma mc_task_check:
  assumes "weight_built w" "0 < rowsz" "t \<in> set (map (mc_task g w x xs y ys m) (row_tiles rowsz (wt_rows w)))"
  shows "task_check t = None"
proof -
  obtain r0 r where t: "t = mc_task g w x xs y ys m (r0, r)" "(r0, r) \<in> set (row_tiles rowsz (wt_rows w))" using assms(3) by auto
  have "r < 2 ^ 32" using tile_rows_small [OF assms(2) t(2)] assms(1) by (simp add: weight_built_def)
  from ucast_of_nat_small [OF this] show ?thesis
    using assms(1) by (auto simp: t(1) mc_task_def task_check_def weight_built_def)
qed

lemma row_tiles_nonempty: "0 < rowsz \<Longrightarrow> 0 < rows \<Longrightarrow> row_tiles rowsz rows \<noteq> []"
  using row_tiles_set [of rowsz 0 "min rowsz rows" rows] by (auto dest: spec [of _ 0])

section \<open>Triples of the stages\<close>

lemma add_dot_made:
  assumes "good own b" "\<forall>p \<in> set deps. op_id own b p" "open_ops own b \<subseteq> S"
    and "weight_built w" "idx \<noteq> 0 \<Longrightarrow> expert_built w" "0 < rowsz"
  shows "runs own b (add_dot g w x y deps rowsz idx b) (made S deps)"
  unfolding add_dot_def
  by (rule tiled_made [OF assms(1-3)])
    (use assms(4-6) row_tiles_nonempty [of rowsz "wt_rows w"] dot_task_check [OF assms(4-6)] in \<open>auto simp: weight_built_def\<close>)

text \<open>The results of a loop, one operation per position.\<close>

definition all_made :: "nat \<Rightarrow> (nat \<Rightarrow> nat list) \<Rightarrow> (nat \<Rightarrow> nat) \<Rightarrow> builder \<Rightarrow> nat list \<Rightarrow> bool" where
  "all_made m deps own b ns \<longleftrightarrow> length ns = m \<and> (\<forall>p < m. op_id own b (ns ! p) \<and> (\<forall>d \<in> set (deps p). before b d (ns ! p)))"

lemma all_made_ids: "all_made m deps own b ns \<Longrightarrow> n \<in> set ns \<Longrightarrow> op_id own b n"
  by (auto simp: all_made_def in_set_conv_nth)

lemma all_made_later: "later own b own' b' \<Longrightarrow> all_made m deps own b ns \<Longrightarrow> all_made m deps own' b' ns"
  using later_op_id later_before unfolding all_made_def by blast

lemma each_made:
  assumes g: "good own b" "open_ops own b \<subseteq> S"
    and body: "\<And>own' b' p S'. good own' b' \<Longrightarrow> later own b own' b' \<Longrightarrow> p < m \<Longrightarrow> open_ops own' b' \<subseteq> S' \<Longrightarrow> runs own' b' (f p b') (made S' (deps p))"
  shows "runs own b (each [0..<m] f b) (\<lambda>o' b ns. all_made m deps o' b ns \<and> open_ops o' b \<subseteq> (S - (\<Union>p < m. set (deps p))) \<union> set ns)"
proof -
  have "runs own b (each [0..<m] f b) (\<lambda>o' b xs. length xs = length [0..<m]
      \<and> (\<forall>i < length [0..<m]. op_id o' b (xs ! i) \<and> (\<forall>d \<in> set (deps ([0..<m] ! i)). before b d (xs ! i)))
      \<and> open_ops o' b \<subseteq> (S - (\<Union>p \<in> set [0..<m]. set (deps p))) \<union> (\<Union>x \<in> set xs. {x}))"
  proof (rule each_runs [OF _ _ g])
    fix own' b' p S' assume 1: "good own' b'" "later own b own' b'" "p \<in> set [0..<m]" "open_ops own' b' \<subseteq> S'"
    have "p < m" using 1(3) by simp
    show "runs own' b' (f p b') (\<lambda>o' b x. (op_id o' b x \<and> (\<forall>d \<in> set (deps p). before b d x)) \<and> open_ops o' b \<subseteq> (S' - set (deps p)) \<union> {x})"
      by (rule runs_mono [OF body [OF 1(1,2) \<open>p < m\<close> 1(4)]]) (auto simp: made_def)
  qed (use later_op_id later_before in blast)
  then show ?thesis by (rule runs_mono) (auto simp: all_made_def)
qed

lemma made_chain:
  assumes r: "runs own b r (made S deps)"
    and f: "\<And>own' b' t. good own' b' \<Longrightarrow> later own b own' b' \<Longrightarrow> op_id own' b' t \<Longrightarrow> open_ops own' b' \<subseteq> (S - set deps) \<union> {t}
      \<Longrightarrow> runs own' b' (f (b', t)) (made ((S - set deps) \<union> {t}) (t # rest))"
  shows "runs own b (bind_e r f) (made S (deps @ rest))"
proof (rule runs_bind [OF r])
  fix own1 b1 t assume 1: "good own1 b1" "later own b own1 b1" "made S deps own1 b1 t"
  have t: "op_id own1 b1 t" "open_ops own1 b1 \<subseteq> (S - set deps) \<union> {t}" "\<forall>p \<in> set deps. before b1 p t" using 1(3) by (auto simp: made_def)
  show "runs own1 b1 (f (b1, t)) (made S (deps @ rest))"
  proof (rule runs_mono [OF f [OF 1(1,2) t(1,2)]])
    fix own2 b2 n assume 2: "good own2 b2" "later own1 b1 own2 b2" "made ((S - set deps) \<union> {t}) (t # rest) own2 b2 n"
    have "before b2 p n" if "p \<in> set deps" for p
    proof (rule before_trans)
      show "before b2 p t" using later_before [OF 2(2)] t(3) that by blast
      show "before b2 t n" using 2(3) by (simp add: made_def)
    qed
    then show "made S (deps @ rest) own2 b2 n" using 2(3) by (auto simp: made_def)
  qed
qed

lemma act_op_made:
  "good own b \<Longrightarrow> \<forall>p \<in> set deps. op_id own b p \<Longrightarrow> open_ops own b \<subseteq> S \<Longrightarrow> runs own b (act_op x n deps b) (made S deps)"
  unfolding act_op_def by (rule task_after_made) (simp_all add: task_check_def kNumTaskKinds_def is_decode_op_def)

lemma dec_op_made:
  assumes "good own b" "\<forall>p \<in> set deps. op_id own b p" "open_ops own b \<subseteq> S" "is_decode_op k" "kind_code k < kNumTaskKinds" "\<And>nm l p. gc_at g nm l p \<noteq> 0"
  shows "runs own b (dec_op g k nm l p deps b) (made S deps)"
  unfolding dec_op_def by (rule add_op_made [OF assms(1-5) assms(6)])

lemma op_act_made:
  assumes "good own b" "\<forall>p \<in> set deps. op_id own b p" "open_ops own b \<subseteq> S" "is_decode_op k" "kind_code k < kNumTaskKinds" "\<And>nm l p. gc_at g nm l p \<noteq> 0"
  shows "runs own b (op_act g k nm l p x n deps b) (made S deps)"
proof -
  have "runs own b (op_act g k nm l p x n deps b) (made S (deps @ []))"
    unfolding op_act_def
    by (rule made_chain [OF dec_op_made [OF assms]], unfold prod.case, rule act_op_made) simp_all
  then show ?thesis by simp
qed

lemma UN_nth: "length xs = m \<Longrightarrow> (\<Union>p < m. {xs ! p}) = set xs"
  by (auto simp: in_set_conv_nth)

lemma add_dot_m_made:
  assumes g: "good own b" "\<forall>p \<in> set deps. op_id own b p" "open_ops own b \<subseteq> S" and w: "weight_built w" "0 < rowsz" and m: "1 \<le> m"
  shows "runs own b (add_dot_m g w x xs y ys m deps rowsz b) (made S deps)"
proof -
  consider (single) "gc_mc g = 0" | (one) "gc_mc g \<noteq> 0" "m = 1" | (multi) "gc_mc g \<noteq> 0" "m \<noteq> 1" by blast
  then show ?thesis
  proof cases
    case single
    define f where "f = (\<lambda>p. add_dot g w (x + of_nat (4 * p * unat xs)) (y + of_nat (4 * p * unat ys)) deps rowsz 0)"
    have "runs own b (each [0..<m] f b) (\<lambda>o' b ns. all_made m (\<lambda>_. deps) o' b ns \<and> open_ops o' b \<subseteq> (S - (\<Union>p < m. set deps)) \<union> set ns)"
    proof (rule each_made [OF g(1,3)])
      fix own' b' p S' assume 1: "good own' b'" "later own b own' b'" "open_ops own' b' \<subseteq> S'"
      have "\<forall>p \<in> set deps. op_id own' b' p" using g(2) later_op_id [OF 1(2)] by blast
      from add_dot_made [OF 1(1) this 1(3) w(1) _ w(2)] show "runs own' b' (f p b') (made S' deps)" by (simp add: f_def)
    qed
    then have "runs own b (bind_e (each [0..<m] f b) (\<lambda>(b, sigs). fan_in sigs b)) (made S deps)"
    proof (rule runs_bind, unfold prod.case)
      fix own1 b1 ns assume 1: "good own1 b1" "all_made m (\<lambda>_. deps) own1 b1 ns \<and> open_ops own1 b1 \<subseteq> (S - (\<Union>p < m. set deps)) \<union> set ns"
      have S1: "open_ops own1 b1 \<subseteq> (S - set deps) \<union> set ns" and a: "all_made m (\<lambda>_. deps) own1 b1 ns"
        using 1(2) m by (simp_all add: lessThan_empty_iff)
      have n0: "ns ! 0 \<in> set ns" "\<forall>d \<in> set deps. before b1 d (ns ! 0)" using a m by (auto simp: all_made_def)
      show "runs own1 b1 (fan_in ns b1) (made S deps)"
      proof (rule runs_mono [OF fan_in_made [OF 1(1) _ S1]])
        show "\<forall>p \<in> set ns. op_id own1 b1 p" using all_made_ids [OF a] by blast
        fix own2 b2 n assume 2: "later own1 b1 own2 b2" "made (S - set deps \<union> set ns) ns own2 b2 n"
        have "before b2 d n" if "d \<in> set deps" for d
        proof (rule before_trans)
          show "before b2 d (ns ! 0)" using later_before [OF 2(1)] n0(2) that by blast
          show "before b2 (ns ! 0) n" using 2(2) n0(1) by (simp add: made_def)
        qed
        then show "made S deps own2 b2 n" using 2(2) by (auto simp: made_def)
      qed
    qed
    then show ?thesis using single by (simp add: add_dot_m_def f_def)
  next
    case one
    then show ?thesis using add_dot_made [OF g w(1) _ w(2), of 0] by (simp add: add_dot_m_def)
  next
    case multi
    have "map (mc_task g w x xs y ys m) (row_tiles rowsz (wt_rows w)) \<noteq> []"
      using row_tiles_nonempty [of rowsz "wt_rows w"] w by (simp add: weight_built_def)
    from tiled_made [OF g this] mc_task_check [OF w] multi show ?thesis by (simp add: add_dot_m_def)
  qed
qed

lemma stage_dot_runs:
  assumes g: "good own b" "open_ops own b \<subseteq> S" and d: "length pdeps = m" "\<forall>p \<in> set pdeps. op_id own b p"
    and w: "weight_built w" "0 < gc_rowsz g" and m: "1 \<le> m"
  shows "runs own b (stage_dot g w x y l m pdeps b)
    (\<lambda>o' b ns. all_made m (\<lambda>p. [pdeps ! p]) o' b ns \<and> open_ops o' b \<subseteq> (S - set pdeps) \<union> set ns)"
proof (cases "gc_mc g \<noteq> 0 \<and> 1 < m")
  case True
  have "runs own b (bind_e (add_dot_m g w (gc_base g x l) (gc_stride g x) (gc_base g y l) (gc_stride g y) m pdeps (gc_rowsz g) b)
       (\<lambda>(b, n). Inr (b, replicate m n)))
    (\<lambda>o' b ns. all_made m (\<lambda>p. [pdeps ! p]) o' b ns \<and> open_ops o' b \<subseteq> (S - set pdeps) \<union> set ns)"
    by (rule runs_bind [OF add_dot_m_made [OF g(1) d(2) g(2) w m]], unfold prod.case, rule runs_return)
      (use d m in \<open>auto simp: made_def all_made_def\<close>)
  then show ?thesis using True by (simp add: stage_dot_def)
next
  case False
  have "runs own b (each [0..<m] (\<lambda>p. add_dot g w (col_at g x l p) (col_at g y l p) [pdeps ! p] (gc_rowsz g) 0) b)
    (\<lambda>o' b ns. all_made m (\<lambda>p. [pdeps ! p]) o' b ns \<and> open_ops o' b \<subseteq> (S - (\<Union>p < m. set [pdeps ! p])) \<union> set ns)"
  proof (rule each_made [OF g])
    fix own' b' p S' assume 1: "good own' b'" "later own b own' b'" "p < m" "open_ops own' b' \<subseteq> S'"
    have "\<forall>q \<in> set [pdeps ! p]. op_id own' b' q" using d 1(3) later_op_id [OF 1(2)] by simp
    from add_dot_made [OF 1(1) this 1(4) w(1) _ w(2), of 0]
    show "runs own' b' (add_dot g w (col_at g x l p) (col_at g y l p) [pdeps ! p] (gc_rowsz g) 0 b') (made S' [pdeps ! p])" by simp
  qed
  then show ?thesis unfolding stage_dot_def if_not_P [OF False] by (simp add: UN_nth [OF d(1)])
qed

section \<open>Attention\<close>

definition reach :: "builder \<Rightarrow> nat \<Rightarrow> nat \<Rightarrow> bool" where
  "reach b u v \<longleftrightarrow> u = v \<or> before b u v"

lemma reach_before: "reach b u v \<Longrightarrow> before b v w \<Longrightarrow> before b u w"
  by (auto simp: reach_def intro: before_trans)

lemma reach_later: "later own b own' b' \<Longrightarrow> reach b u v \<Longrightarrow> reach b' u v"
  using later_before by (auto simp: reach_def)

text \<open>The heads of every position come after the appends up to it.\<close>

definition heads_ok :: "nat \<Rightarrow> nat option \<Rightarrow> (nat \<Rightarrow> nat) \<Rightarrow> builder \<Rightarrow> (nat \<times> nat list \<times> nat) list \<Rightarrow> bool" where
  "heads_ok nh cum own b es \<longleftrightarrow>
    (\<forall>i < length es. op_id own b (snd (snd (es ! i))) \<and> length (fst (snd (es ! i))) = nh
      \<and> (\<forall>h \<in> set (fst (snd (es ! i))). (\<forall>j \<le> i. before b (fst (es ! j)) h) \<and> (\<forall>c. cum = Some c \<longrightarrow> before b c h)))"

lemma heads_ok_later:
  assumes "later own b own' b'" "heads_ok nh cum own b es"
  shows "heads_ok nh cum own' b' es"
  using assms(2) unfolding heads_ok_def by (simp add: later_op_id [OF assms(1)] later_before [OF assms(1)])

lemma append_ops_runs:
  assumes g: "good own b" "open_ops own b \<subseteq> S" and ids: "op_id own b sq" "op_id own b skva" "op_id own b skvb"
    and c: "\<forall>c. cum = Some c \<longrightarrow> op_id own b c" and at: "\<And>nm l p. gc_at g nm l p \<noteq> 0"
  shows "runs own b (append_ops g l p sq skva skvb cum b) (\<lambda>o' b (t_rq, t_app, ac). op_id o' b t_rq \<and> op_id o' b ac
    \<and> reach b t_app ac \<and> (\<forall>c. cum = Some c \<longrightarrow> before b c ac) \<and> open_ops o' b \<subseteq> (S - {sq, skva, skvb}) \<union> {t_rq, ac})"
proof -
  note kinds = is_decode_op_iff kNumTaskKinds_def
  have h1: "runs own b (dec_op g ROPE_DS2 ''rope.q'' l p [sq] b) (made S [sq])"
    by (rule dec_op_made [OF g(1) _ g(2) _ _ at]) (simp_all add: ids kinds)
  show ?thesis unfolding append_ops_def
  proof (rule runs_bind [OF h1], goal_cases)
    case (1 own1 b1 t_rq)
    have S1: "open_ops own1 b1 \<subseteq> (S - {sq}) \<union> {t_rq}" and rq1: "op_id own1 b1 t_rq" using 1(3) by (auto simp: made_def)
    note l1 = later_op_id [OF 1(2)]
    have i1: "op_id own1 b1 skva" "op_id own1 b1 skvb" using ids l1 by auto
    have h2: "runs own1 b1 (dec_op g ROPE_DS2 ''rope.k'' l p [skva] b1) (made ((S - {sq}) \<union> {t_rq}) [skva])"
      by (rule dec_op_made [OF 1(1) _ S1 _ _ at]) (simp_all add: i1 kinds)
    show ?case unfolding prod.case
    proof (rule runs_bind [OF h2], goal_cases)
      case (1 own2 b2 t_rk)
      note l2 = later_op_id [OF 1(2)]
      have S2: "open_ops own2 b2 \<subseteq> (S - {sq, skva}) \<union> {t_rq, t_rk}" and rk2: "op_id own2 b2 t_rk" using 1(3) by (auto simp: made_def)
      have h3: "runs own2 b2 (dec_op g KV_APPEND ''kv'' l p [skvb, t_rk] b2) (made ((S - {sq, skva}) \<union> {t_rq, t_rk}) [skvb, t_rk])"
        by (rule dec_op_made [OF 1(1) _ S2 _ _ at]) (simp_all add: l2 [OF i1(2)] rk2 kinds)
      show ?case unfolding prod.case
      proof (rule runs_bind [OF h3], goal_cases)
        case (1 own3 b3 t_app)
        note l3 = later_op_id [OF 1(2)]
        have S3: "open_ops own3 b3 \<subseteq> (S - {sq, skva, skvb}) \<union> {t_rq, t_app}" and ap: "op_id own3 b3 t_app" using 1(3) by (auto simp: made_def)
        have rq3: "op_id own3 b3 t_rq" using l3 l2 rq1 by blast
        show ?case unfolding prod.case
        proof (cases cum)
          case None
          then show "runs own3 b3 (bind_e (case cum of None \<Rightarrow> Inr (b3, t_app) | Some c \<Rightarrow> fan_in [c, t_app] b3)
             (\<lambda>(b, app_cum). Inr (b, t_rq, t_app, app_cum))) (\<lambda>o' b (t_rq, t_app, ac). op_id o' b t_rq \<and> op_id o' b ac
              \<and> reach b t_app ac \<and> (\<forall>c. cum = Some c \<longrightarrow> before b c ac) \<and> open_ops o' b \<subseteq> (S - {sq, skva, skvb}) \<union> {t_rq, ac})"
            using 1(1) S3 ap rq3 by (simp add: runs_return reach_def)
        next
          case (Some k)
          have "op_id own b k" using c Some by simp
          then have k3: "op_id own3 b3 k" by (intro l3 l2 l1)
          have h4: "runs own3 b3 (fan_in [k, t_app] b3) (made ((S - {sq, skva, skvb}) \<union> {t_rq, t_app}) [k, t_app])"
            by (rule fan_in_made [OF 1(1) _ S3]) (simp add: k3 ap)
          have "runs own3 b3 (bind_e (fan_in [k, t_app] b3) (\<lambda>(b, app_cum). Inr (b, t_rq, t_app, app_cum)))
             (\<lambda>o' b (t_rq, t_app, ac). op_id o' b t_rq \<and> op_id o' b ac
              \<and> reach b t_app ac \<and> (\<forall>c. cum = Some c \<longrightarrow> before b c ac) \<and> open_ops o' b \<subseteq> (S - {sq, skva, skvb}) \<union> {t_rq, ac})"
          proof (rule runs_bind [OF h4], goal_cases)
            case (1 own4 b4 ac)
            then show ?case unfolding prod.case using later_op_id [OF 1(2) rq3] Some
              by (intro runs_return) (auto simp: made_def reach_def)
          qed
          then show "runs own3 b3 (bind_e (case cum of None \<Rightarrow> Inr (b3, t_app) | Some c \<Rightarrow> fan_in [c, t_app] b3)
             (\<lambda>(b, app_cum). Inr (b, t_rq, t_app, app_cum))) (\<lambda>o' b (t_rq, t_app, ac). op_id o' b t_rq \<and> op_id o' b ac
              \<and> reach b t_app ac \<and> (\<forall>c. cum = Some c \<longrightarrow> before b c ac) \<and> open_ops o' b \<subseteq> (S - {sq, skva, skvb}) \<union> {t_rq, ac})"
            using Some by simp
        qed
      qed
    qed
  qed
qed

lemma head_ops_of_runs:
  assumes g: "good own b" "open_ops own b \<subseteq> S" and ids: "op_id own b t_rq" "op_id own b ac"
    and at: "\<And>nm l p. gc_at g nm l p \<noteq> 0" and nh: "0 < hp_n_head (dc_hp (gc_dec g))"
  shows "runs own b (head_ops_of g l p t_rq ac b) (\<lambda>o' b (heads, cq). op_id o' b cq \<and> length heads = hp_n_head (dc_hp (gc_dec g))
    \<and> (\<forall>h \<in> set heads. before b ac h) \<and> open_ops o' b \<subseteq> (S - {t_rq, ac}) \<union> {cq})"
proof -
  note kinds = is_decode_op_iff kNumTaskKinds_def
  define nh where "nh = hp_n_head (dc_hp (gc_dec g))"
  define f where "f = (\<lambda>hh. dec_op g ATTN_HEAD ''head'' l (p * nh + hh) [t_rq, ac])"
  have h1: "runs own b (each [0..<nh] f b) (\<lambda>o' b ns. all_made nh (\<lambda>_. [t_rq, ac]) o' b ns \<and> open_ops o' b \<subseteq> (S - (\<Union>p < nh. set [t_rq, ac])) \<union> set ns)"
  proof (rule each_made [OF g])
    fix own' b' p S' assume 1: "good own' b'" "later own b own' b'" "open_ops own' b' \<subseteq> S'"
    show "runs own' b' (f p b') (made S' [t_rq, ac])"
      unfolding f_def by (rule dec_op_made [OF 1(1) _ 1(3) _ _ at]) (simp_all add: ids later_op_id [OF 1(2)] kinds)
  qed
  show ?thesis unfolding head_ops_of_def Let_def nh_def [symmetric] f_def [symmetric]
  proof (rule runs_bind [OF h1], goal_cases)
    case (1 own1 b1 heads)
    have a: "all_made nh (\<lambda>_. [t_rq, ac]) own1 b1 heads" using 1(3) by simp
    have S1: "open_ops own1 b1 \<subseteq> (S - {t_rq, ac}) \<union> set heads"
      using 1(3) nh by (simp add: lessThan_empty_iff nh_def)
    have bf: "before b1 ac h" if hh: "h \<in> set heads" for h
    proof -
      from hh obtain i where "i < length heads" "heads ! i = h" by (auto simp: in_set_conv_nth)
      then show ?thesis using a by (auto simp: all_made_def)
    qed
    have len: "length heads = nh" using a by (simp add: all_made_def)
    have h2: "runs own1 b1 (fan_in heads b1) (made ((S - {t_rq, ac}) \<union> set heads) heads)"
      by (rule fan_in_made [OF 1(1) _ S1]) (use all_made_ids [OF a] in blast)
    show ?case unfolding prod.case
    proof (rule runs_bind [OF h2], goal_cases)
      case (1 own2 b2 th)
      note bf2 = later_before [OF 1(2)]
      have S2: "open_ops own2 b2 \<subseteq> (S - {t_rq, ac}) \<union> {th}" and t: "op_id own2 b2 th" using 1(3) by (auto simp: made_def)
      have h3: "runs own2 b2 (act_op (col_at g ''ctx'' l p) (nh * hp_dv (dc_hp (gc_dec g))) [th] b2) (made ((S - {t_rq, ac}) \<union> {th}) [th])"
        by (rule act_op_made [OF 1(1) _ S2]) (simp add: t)
      show ?case unfolding prod.case
      proof (rule runs_bind [OF h3], goal_cases)
        case (1 own3 b3 cq)
        have "\<forall>h \<in> set heads. before b3 ac h" using bf bf2 later_before [OF 1(2)] by blast
        moreover have "op_id own3 b3 cq" "open_ops own3 b3 \<subseteq> (S - {t_rq, ac}) \<union> {cq}" using 1(3) by (auto simp: made_def)
        ultimately show ?case unfolding prod.case using 1(1) len by (intro runs_return) simp_all
      qed
    qed
  qed
qed

lemma stage_e_runs:
  assumes "good own b" "open_ops own b \<subseteq> S" "\<forall>p \<in> set ps. op_id own b (sq ! p) \<and> op_id own b (skva ! p) \<and> op_id own b (skvb ! p)"
    "\<forall>c. cum = Some c \<longrightarrow> op_id own b c"
    and at: "\<And>nm l p. gc_at g nm l p \<noteq> 0" and nh: "0 < hp_n_head (dc_hp (gc_dec g))"
  shows "runs own b (stage_e g l sq skva skvb ps cum b)
    (\<lambda>o' b es. length es = length ps \<and> heads_ok (hp_n_head (dc_hp (gc_dec g))) cum o' b es
      \<and> open_ops o' b \<subseteq> (S - (\<Union>p \<in> set ps. {sq ! p, skva ! p, skvb ! p})) \<union> set (map (snd \<circ> snd) es))"
  using assms(1-4)
proof (induction ps arbitrary: own b S cum)
  case Nil then show ?case by (simp add: runs_return heads_ok_def)
next
  case (Cons p ps)
  define nh' where "nh' = hp_n_head (dc_hp (gc_dec g))"
  have ids: "op_id own b (sq ! p)" "op_id own b (skva ! p)" "op_id own b (skvb ! p)" using Cons.prems(3) by auto
  note h1 = append_ops_runs [where g = g and l = l and p = p, OF Cons.prems(1,2) ids Cons.prems(4) at]
  show ?case unfolding stage_e.simps
  proof (rule runs_bind [OF h1], goal_cases)
    case (1 own1 b1 x)
    obtain t_rq t_app ac where x: "x = (t_rq, t_app, ac)" by (cases x)
    have q1: "op_id own1 b1 t_rq" "op_id own1 b1 ac" "reach b1 t_app ac" "\<forall>c. cum = Some c \<longrightarrow> before b1 c ac"
      and S1: "open_ops own1 b1 \<subseteq> (S - {sq ! p, skva ! p, skvb ! p}) \<union> {t_rq, ac}" using 1(3) x by auto
    have i1: "\<forall>p \<in> set ps. op_id own1 b1 (sq ! p) \<and> op_id own1 b1 (skva ! p) \<and> op_id own1 b1 (skvb ! p)"
      using Cons.prems(3) later_op_id [OF 1(2)] by simp
    note h2 = head_ops_of_runs [where l = l and p = p, OF 1(1) S1 q1(1,2) at nh]
    show ?case unfolding prod.case x
    proof (rule runs_bind [OF h2], goal_cases)
      case (1 own2 b2 y)
      obtain heads cq where y: "y = (heads, cq)" by (cases y)
      have q2: "op_id own2 b2 cq" "length heads = nh'" "\<forall>h \<in> set heads. before b2 ac h"
        and S2: "open_ops own2 b2 \<subseteq> (S - {sq ! p, skva ! p, skvb ! p}) \<union> {cq}" using 1(3) by (auto simp: y nh'_def)
      note l2 = later_op_id [OF 1(2)] and r2 = reach_later [OF 1(2)] and bf2 = later_before [OF 1(2)]
      have i2: "\<forall>p \<in> set ps. op_id own2 b2 (sq ! p) \<and> op_id own2 b2 (skva ! p) \<and> op_id own2 b2 (skvb ! p)"
        using i1 l2 by simp
      have c2: "\<forall>c. Some ac = Some c \<longrightarrow> op_id own2 b2 c" using q1(2) l2 by simp
      note h3 = Cons.IH [OF 1(1) S2 i2 c2]
      show ?case unfolding prod.case y
      proof (rule runs_bind [OF h3], goal_cases)
        case (1 own3 b3 es)
        note l3 = later_op_id [OF 1(2)] and bf3 = later_before [OF 1(2)] and r3 = reach_later [OF 1(2)]
        have len: "length es = length ps" and ok: "heads_ok nh' (Some ac) own3 b3 es"
          and S3: "open_ops own3 b3 \<subseteq> ((S - {sq ! p, skva ! p, skvb ! p}) \<union> {cq} - (\<Union>p \<in> set ps. {sq ! p, skva ! p, skvb ! p}))
            \<union> set (map (snd \<circ> snd) es)" using 1(3) by (auto simp: nh'_def)
        have rch: "reach b3 t_app ac" using q1(3) r2 r3 by blast
        have cm: "before b3 c ac" if "cum = Some c" for c using q1(4) that bf2 bf3 by blast
        have hd: "before b3 ac h" if "h \<in> set heads" for h using q2(3) that bf3 by blast
        have "heads_ok nh' cum own3 b3 ((t_app, heads, cq) # es)"
          unfolding heads_ok_def
        proof (intro allI impI conjI ballI)
          fix i assume i: "i < length ((t_app, heads, cq) # es)"
          show "op_id own3 b3 (snd (snd (((t_app, heads, cq) # es) ! i)))"
            using i ok l3 [OF q2(1)] by (cases i) (auto simp: heads_ok_def)
          show "length (fst (snd (((t_app, heads, cq) # es) ! i))) = nh'"
            using i ok q2(2) by (cases i) (auto simp: heads_ok_def)
          fix h assume h: "h \<in> set (fst (snd (((t_app, heads, cq) # es) ! i)))"
          have ah: "before b3 ac h" using i ok h hd by (cases i) (auto simp: heads_ok_def)
          show "before b3 c h" if "cum = Some c" for c using before_trans [OF cm [OF that] ah] .
          fix j assume j: "j \<le> i"
          show "before b3 (fst (((t_app, heads, cq) # es) ! j)) h"
          proof (cases j)
            case 0 then show ?thesis using reach_before [OF rch ah] by simp
          next
            case (Suc j')
            then obtain i' where "i = Suc i'" "j' \<le> i'" using j by (cases i) auto
            then show ?thesis using Suc i h ok by (auto simp: heads_ok_def)
          qed
        qed
        then show ?case unfolding prod.case using 1(1) len S3 by (intro runs_return) (auto simp: nh'_def)
      qed
    qed
  qed
qed

section \<open>Feed-forward\<close>

abbreviation opt_deps :: "nat option list \<Rightarrow> nat \<Rightarrow> nat list" where
  "opt_deps xd p \<equiv> (case xd ! p of None \<Rightarrow> [] | Some d \<Rightarrow> [d])"

definition triple_ok :: "(nat \<Rightarrow> nat) \<Rightarrow> builder \<Rightarrow> nat list \<Rightarrow> nat \<times> nat \<times> nat \<Rightarrow> bool" where
  "triple_ok own b deps f \<longleftrightarrow> (case f of (t2, fn, fq) \<Rightarrow> op_id own b t2 \<and> op_id own b fn \<and> op_id own b fq
     \<and> before b fn fq \<and> before b t2 fq \<and> (\<forall>d \<in> set deps. before b d fq))"

lemma triple_ok_later: "later own b own' b' \<Longrightarrow> triple_ok own b deps f \<Longrightarrow> triple_ok own' b' deps f"
  unfolding triple_ok_def using later_op_id later_before by (auto split: prod.splits)

lemma triple_ok_ids: "triple_ok own b deps f \<Longrightarrow> op_id own b (fst f) \<and> op_id own b (fst (snd f)) \<and> op_id own b (snd (snd f))"
  by (cases f) (auto simp: triple_ok_def)

lemma stage_g_runs:
  assumes g: "good own b" "open_ops own b \<subseteq> S" and ids: "op_id own b (so ! p)" "\<forall>d. xd ! p = Some d \<longrightarrow> op_id own b d"
    and at: "\<And>nm l p. gc_at g nm l p \<noteq> 0"
  shows "runs own b (stage_g g l so xd p b)
    (\<lambda>o' b f. triple_ok o' b (so ! p # opt_deps xd p) f \<and> open_ops o' b \<subseteq> (S - set (so ! p # opt_deps xd p)) \<union> {snd (snd f)})"
proof -
  note kinds = is_decode_op_iff kNumTaskKinds_def
  define ds where "ds = so ! p # opt_deps xd p"
  have d: "\<forall>q \<in> set ds. op_id own b q" using ids by (auto simp: ds_def split: option.splits)
  have h1: "runs own b (dec_op g ADD2 ''add2'' l p ds b) (made S ds)"
    by (rule dec_op_made [OF g(1) d g(2) _ _ at]) (simp_all add: kinds)
  show ?thesis unfolding stage_g_def ds_def [symmetric]
  proof (rule runs_bind [OF h1], goal_cases)
    case (1 own1 b1 t2)
    have t: "op_id own1 b1 t2" "\<forall>d \<in> set ds. before b1 d t2" and S1: "open_ops own1 b1 \<subseteq> (S - set ds) \<union> {t2}"
      using 1(3) by (auto simp: made_def)
    have h2: "runs own1 b1 (dec_op g RMSNORM ''ffn.norm'' l p [t2] b1) (made ((S - set ds) \<union> {t2}) [t2])"
      by (rule dec_op_made [OF 1(1) _ S1 _ _ at]) (simp_all add: kinds t)
    show ?case unfolding prod.case
    proof (rule runs_bind [OF h2], goal_cases)
      case (1 own2 b2 fn)
      note l2 = later_op_id [OF 1(2)] and bf2 = later_before [OF 1(2)]
      have f: "op_id own2 b2 fn" "before b2 t2 fn" and S2: "open_ops own2 b2 \<subseteq> (S - set ds) \<union> {fn}" using 1(3) by (auto simp: made_def)
      have h3: "runs own2 b2 (act_op (col_at g ''xf'' l p) (hp_n_embd (dc_hp (gc_dec g))) [fn] b2) (made ((S - set ds) \<union> {fn}) [fn])"
        by (rule act_op_made [OF 1(1) _ S2]) (simp add: f)
      show ?case unfolding prod.case
      proof (rule runs_bind [OF h3], goal_cases)
        case (1 own3 b3 fq)
        note l3 = later_op_id [OF 1(2)] and bf3 = later_before [OF 1(2)]
        have q: "op_id own3 b3 fq" "before b3 fn fq" and S3: "open_ops own3 b3 \<subseteq> (S - set ds) \<union> {fq}" using 1(3) by (auto simp: made_def)
        have t2: "before b3 t2 fq" by (rule before_trans [OF bf3 [OF f(2)] q(2)])
        have dd: "before b3 d fq" if "d \<in> set ds" for d
          by (rule before_trans [OF bf3 [OF bf2] t2]) (use t(2) that in blast)
        have "triple_ok own3 b3 ds (t2, fn, fq)" using q t2 dd l3 [OF f(1)] l3 [OF l2 [OF t(1)]] by (simp add: triple_ok_def)
        then show ?case unfolding prod.case using 1(1) S3 by (intro runs_return) simp_all
      qed
    qed
  qed
qed

lemma all_made_op: "all_made m deps own b ns \<Longrightarrow> p < m \<Longrightarrow> op_id own b (ns ! p)"
  by (simp add: all_made_def)

lemma all_made_all: "all_made m deps own b ns \<Longrightarrow> length ns = m \<and> (\<forall>n \<in> set ns. op_id own b n)"
  using all_made_ids by (auto simp: all_made_def)

text \<open>Gate, up, activation and down of a dense or shared network, from the quantised norms.\<close>

lemma gate_up_down_runs:
  assumes g: "good own b" "open_ops own b \<subseteq> S" and d: "length fq8 = m" "\<forall>p \<in> set fq8. op_id own b p"
    and w: "weight_built (Wl (gc_dec g) l (''ffn_gate'' @ sfx))" "weight_built (Wl (gc_dec g) l (''ffn_up'' @ sfx))"
      "weight_built (Wl (gc_dec g) l (''ffn_down'' @ sfx))" and r: "0 < gc_rowsz g" and m: "1 \<le> m"
    and at: "\<And>nm l p. gc_at g nm l p \<noteq> 0"
  shows "runs own b (gate_up_down g l m sfx n fq8 b)
    (\<lambda>o' b ns. all_made m (\<lambda>p. [fq8 ! p]) o' b ns \<and> open_ops o' b \<subseteq> (S - set fq8) \<union> set ns)"
proof -
  note kinds = is_decode_op_iff kNumTaskKinds_def
  note h1 = stage_dot_runs [where x = "''xf''" and y = "''g'' @ sfx" and l = l, OF g d w(1) r m]
  show ?thesis unfolding gate_up_down_def
  proof (rule runs_bind [OF h1], goal_cases)
    case (1 own1 b1 sg)
    have a1: "all_made m (\<lambda>p. [fq8 ! p]) own1 b1 sg" and S1: "open_ops own1 b1 \<subseteq> (S - set fq8) \<union> set sg" using 1(3) by auto
    have d1: "\<forall>p \<in> set fq8. op_id own1 b1 p" using d(2) later_op_id [OF 1(2)] by blast
    note h2 = stage_dot_runs [where x = "''xf''" and y = "''u'' @ sfx" and l = l, OF 1(1) S1 d(1) d1 w(2) r m]
    show ?case unfolding prod.case
    proof (rule runs_bind [OF h2], goal_cases)
      case (1 own2 b2 su)
      have a2: "all_made m (\<lambda>p. [fq8 ! p]) own2 b2 su" and S2: "open_ops own2 b2 \<subseteq> (S - set fq8) \<union> set sg \<union> set su" using 1(3) by auto
      note a1' = all_made_later [OF 1(2) a1]
      have h3: "runs own2 b2 (each [0..<m] (\<lambda>p. op_act g SILU_MUL (''silu'' @ sfx) l p (col_at g (''h'' @ sfx) l p) n [sg ! p, su ! p]) b2)
        (\<lambda>o' b ns. all_made m (\<lambda>p. [sg ! p, su ! p]) o' b ns
          \<and> open_ops o' b \<subseteq> ((S - set fq8) \<union> set sg \<union> set su - (\<Union>p < m. set [sg ! p, su ! p])) \<union> set ns)"
      proof (rule each_made [OF 1(1) S2])
        fix own' b' p S' assume 1: "good own' b'" "later own2 b2 own' b'" "p < m" "open_ops own' b' \<subseteq> S'"
        show "runs own' b' (op_act g SILU_MUL (''silu'' @ sfx) l p (col_at g (''h'' @ sfx) l p) n [sg ! p, su ! p] b') (made S' [sg ! p, su ! p])"
          by (rule op_act_made [OF 1(1) _ 1(4) _ _ at])
            (simp_all add: kinds later_op_id [OF 1(2)] all_made_op [OF a1' 1(3)] all_made_op [OF a2 1(3)])
      qed
      show ?case unfolding prod.case
      proof (rule runs_bind [OF h3], goal_cases)
        case (1 own3 b3 hq)
        have a3: "all_made m (\<lambda>p. [sg ! p, su ! p]) own3 b3 hq" using 1(3) by simp
        have "length sg = m" "length su = m" using a1 a2 by (auto simp: all_made_def)
        then have "(\<Union>p < m. set [sg ! p, su ! p]) = set sg \<union> set su" by (auto simp: in_set_conv_nth)
        then have S3: "open_ops own3 b3 \<subseteq> (S - set fq8) \<union> set hq" using 1(3) by auto
        have d3: "length hq = m" "\<forall>p \<in> set hq. op_id own3 b3 p" using a3 all_made_ids [OF a3] by (auto simp: all_made_def)
        have a1'': "all_made m (\<lambda>p. [fq8 ! p]) own3 b3 sg" by (rule all_made_later [OF 1(2) a1'])
        note h4 = stage_dot_runs [where x = "''h'' @ sfx" and y = "''d'' @ sfx" and l = l, OF 1(1) S3 d3 w(3) r m]
        show ?case unfolding prod.case
        proof (rule runs_mono [OF h4], goal_cases)
          case (1 own4 b4 sd)
          note bf = later_before [OF 1(2)]
          have "before b4 (fq8 ! p) (sd ! p)" if p: "p < m" for p
          proof (rule before_trans [OF bf])
            show "before b3 (fq8 ! p) (hq ! p)"
              by (rule before_trans [of _ _ "sg ! p"]) (use a1'' a3 p in \<open>auto simp: all_made_def\<close>)
            show "before b4 (hq ! p) (sd ! p)" using 1(3) p by (simp add: all_made_def)
          qed
          then show ?case using 1(3) by (auto simp: all_made_def)
        qed
      qed
    qed
  qed
qed

lemma expert_ops_runs:
  assumes g: "good own b" "open_ops own b \<subseteq> S" and ids: "op_id own b fq" "op_id own b t_rt"
    and w: "expert_built (Wl (gc_dec g) l ''ffn_gate_exps'')" "expert_built (Wl (gc_dec g) l ''ffn_up_exps'')"
      "expert_built (Wl (gc_dec g) l ''ffn_down_exps'')" and r: "0 < gc_rowsz g"
    and at: "\<And>nm l p. gc_at g nm l p \<noteq> 0"
  shows "runs own b (expert_ops g l p fq t_rt s b) (made S [fq, t_rt])"
proof -
  note kinds = is_decode_op_iff kNumTaskKinds_def
  define i where "i = p * hp_n_used (dc_hp (gc_dec g)) + s"
  have wb: "weight_built (Wl (gc_dec g) l ''ffn_gate_exps'')" "weight_built (Wl (gc_dec g) l ''ffn_up_exps'')"
    "weight_built (Wl (gc_dec g) l ''ffn_down_exps'')" using w by (auto simp: expert_built_def)
  have d: "\<forall>q \<in> set [fq, t_rt]. op_id own b q" using ids by simp
  have h1: "runs own b (add_dot g (Wl (gc_dec g) l ''ffn_gate_exps'') (col_at g ''xf'' l p) (gc_at g ''ge'' l i) [fq, t_rt] (gc_rowsz g) (gc_at g ''ids'' l i) b)
    (made S [fq, t_rt])"
    by (rule add_dot_made [OF g(1) d g(2) wb(1) w(1) r])
  show ?thesis unfolding expert_ops_def Let_def i_def [symmetric]
  proof (rule runs_bind [OF h1], goal_cases)
    case (1 own1 b1 ge)
    have q1: "op_id own1 b1 ge" "\<forall>d \<in> set [fq, t_rt]. before b1 d ge" and S1: "open_ops own1 b1 \<subseteq> (S - {fq, t_rt}) \<union> {ge}" using 1(3) by (auto simp: made_def)
    have d1: "\<forall>q \<in> set [fq, t_rt]. op_id own1 b1 q" using ids later_op_id [OF 1(2)] by simp
    have h2: "runs own1 b1 (add_dot g (Wl (gc_dec g) l ''ffn_up_exps'') (col_at g ''xf'' l p) (gc_at g ''ue'' l i) [fq, t_rt] (gc_rowsz g) (gc_at g ''ids'' l i) b1)
      (made ((S - {fq, t_rt}) \<union> {ge}) [fq, t_rt])"
      by (rule add_dot_made [OF 1(1) d1 S1 wb(2) w(2) r])
    show ?case unfolding prod.case
    proof (rule runs_bind [OF h2], goal_cases)
      case (1 own2 b2 ue)
      note l2 = later_op_id [OF 1(2)] and bf2 = later_before [OF 1(2)]
      have q2: "op_id own2 b2 ue" and S2: "open_ops own2 b2 \<subseteq> (S - {fq, t_rt}) \<union> {ge, ue}" using 1(3) by (auto simp: made_def)
      have h3: "runs own2 b2 (op_act g SILU_MUL ''silu.e'' l i (gc_at g ''he'' l i) (hp_n_ff_exp (dc_hp (gc_dec g))) [ge, ue] b2)
        (made ((S - {fq, t_rt}) \<union> {ge, ue}) [ge, ue])"
        by (rule op_act_made [OF 1(1) _ S2 _ _ at]) (simp_all add: kinds q2 l2 [OF q1(1)])
      show ?case unfolding prod.case
      proof (rule runs_bind [OF h3], goal_cases)
        case (1 own3 b3 hq)
        note bf3 = later_before [OF 1(2)]
        have q3: "op_id own3 b3 hq" "before b3 ge hq" and S3: "open_ops own3 b3 \<subseteq> (S - {fq, t_rt}) \<union> {hq}" using 1(3) by (auto simp: made_def)
        have h4: "runs own3 b3 (add_dot g (Wl (gc_dec g) l ''ffn_down_exps'') (gc_at g ''he'' l i) (gc_at g ''de'' l i) [hq] (gc_rowsz g) (gc_at g ''ids'' l i) b3)
          (made ((S - {fq, t_rt}) \<union> {hq}) [hq])"
          by (rule add_dot_made [OF 1(1) _ S3 wb(3) w(3) r]) (simp add: q3)
        show ?case unfolding prod.case
        proof (rule runs_mono [OF h4], goal_cases)
          case (1 own4 b4 n)
          note bf4 = later_before [OF 1(2)]
          have "before b4 d n" if "d \<in> set [fq, t_rt]" for d
          proof (rule before_trans)
            show "before b4 d hq" by (rule bf4 [OF before_trans [OF bf3 [OF bf2] q3(2)]]) (use q1(2) that in blast)
            show "before b4 hq n" using 1(3) by (simp add: made_def)
          qed
          then show ?case using 1(3) by (auto simp: made_def)
        qed
      qed
    qed
  qed
qed

lemma router_ops_runs:
  assumes g: "good own b" "open_ops own b \<subseteq> S" and ids: "op_id own b (fn ! p)"
    and w: "weight_built (Wl (gc_dec g) l ''ffn_gate_inp'')" and r: "0 < gc_rowsz g" and at: "\<And>nm l p. gc_at g nm l p \<noteq> 0"
  shows "runs own b (router_ops g l fn p b) (made S [fn ! p])"
proof -
  note kinds = is_decode_op_iff kNumTaskKinds_def
  have h1: "runs own b (add_dot g (Wl (gc_dec g) l ''ffn_gate_inp'') (col_at g ''xf'' l p) (gc_at g ''rlog'' l p) [fn ! p] (gc_rowsz g) 0 b) (made S [fn ! p])"
    by (rule add_dot_made [OF g(1) _ g(2) w _ r]) (simp_all add: ids)
  have "runs own b (router_ops g l fn p b) (made S ([fn ! p] @ []))"
    unfolding router_ops_def
  proof (rule made_chain [OF h1], goal_cases)
    case (1 own1 b1 t)
    then show ?case unfolding prod.case by (intro dec_op_made [OF _ _ _ _ _ at]) (simp_all add: kinds)
  qed
  then show ?thesis by simp
qed

lemma expert_stage_runs:
  assumes g: "good own b" "open_ops own b \<subseteq> S" and d: "length fq8 = m" "\<forall>p < m. op_id own b (fq8 ! p) \<and> op_id own b (fn ! p)"
    and w: "weight_built (Wl (gc_dec g) l ''ffn_gate_inp'')" "expert_built (Wl (gc_dec g) l ''ffn_gate_exps'')"
      "expert_built (Wl (gc_dec g) l ''ffn_up_exps'')" "expert_built (Wl (gc_dec g) l ''ffn_down_exps'')"
    and r: "0 < gc_rowsz g" and m: "1 \<le> m" and ku: "\<And>p. 0 < approx_ku (gc_dec g) m p" and at: "\<And>nm l p. gc_at g nm l p \<noteq> 0"
  shows "runs own b (expert_stage g l m fn fq8 b)
    (\<lambda>o' b ns. all_made m (\<lambda>p. [fq8 ! p]) o' b ns \<and> open_ops o' b \<subseteq> (S - set fq8) \<union> set ns)"
proof -
  have h1: "runs own b (each [0..<m] (router_ops g l fn) b)
    (\<lambda>o' b ns. all_made m (\<lambda>p. [fn ! p]) o' b ns \<and> open_ops o' b \<subseteq> (S - (\<Union>p < m. set [fn ! p])) \<union> set ns)"
  proof (rule each_made [OF g])
    fix own' b' p S' assume 1: "good own' b'" "later own b own' b'" "p < m" "open_ops own' b' \<subseteq> S'"
    show "runs own' b' (router_ops g l fn p b') (made S' [fn ! p])"
      by (rule router_ops_runs [OF 1(1,4) _ w(1) r at]) (use d(2) later_op_id [OF 1(2)] 1(3) in blast)
  qed
  show ?thesis unfolding expert_stage_def
  proof (rule runs_bind [OF h1], goal_cases)
    case (1 own1 b1 rts)
    have a1: "all_made m (\<lambda>p. [fn ! p]) own1 b1 rts" and S1: "open_ops own1 b1 \<subseteq> S \<union> set rts" using 1(3) by auto
    note l1 = later_op_id [OF 1(2)]
    have h2: "runs own1 b1 (if gc_barrier g then bind_e (fan_in rts b1) (\<lambda>(b, n). Inr (b, replicate m n)) else Inr (b1, rts))
      (\<lambda>o' b gs. length gs = m \<and> (\<forall>p < m. op_id o' b (gs ! p)) \<and> open_ops o' b \<subseteq> S \<union> set gs)"
    proof (cases "gc_barrier g")
      case True
      have "runs own1 b1 (bind_e (fan_in rts b1) (\<lambda>(b, n). Inr (b, replicate m n)))
        (\<lambda>o' b gs. length gs = m \<and> (\<forall>p < m. op_id o' b (gs ! p)) \<and> open_ops o' b \<subseteq> S \<union> set gs)"
      proof (rule runs_bind [OF fan_in_made [OF 1(1) _ S1]], use all_made_ids [OF a1] in blast, goal_cases)
        case (1 own2 b2 n)
        then show ?case unfolding prod.case using m by (intro runs_return) (auto simp: made_def)
      qed
      then show ?thesis using True by simp
    next
      case False
      then show ?thesis using a1 S1 1(1) by (simp add: runs_return all_made_def)
    qed
    show ?case unfolding prod.case
    proof (rule runs_bind [OF h2], goal_cases)
      case (1 own2 b2 gs)
      note l2 = later_op_id [OF 1(2)]
      have gl: "length gs = m" "\<forall>p < m. op_id own2 b2 (gs ! p)" and S2: "open_ops own2 b2 \<subseteq> S \<union> set gs" using 1(3) by auto
      define f where "f = (\<lambda>p b. bind_e (each [0..<approx_ku (gc_dec g) m p] (expert_ops g l p (fq8 ! p) (gs ! p)) b) (\<lambda>(b, downs). fan_in downs b))"
      have h3: "runs own2 b2 (each [0..<m] f b2) (\<lambda>o' b ns. all_made m (\<lambda>p. [fq8 ! p, gs ! p]) o' b ns
        \<and> open_ops o' b \<subseteq> (S \<union> set gs - (\<Union>p < m. set [fq8 ! p, gs ! p])) \<union> set ns)"
      proof (rule each_made [OF 1(1) S2])
        fix own' b' p S' assume 1: "good own' b'" "later own2 b2 own' b'" "p < m" "open_ops own' b' \<subseteq> S'"
        have i': "op_id own' b' (fq8 ! p)" "op_id own' b' (gs ! p)"
          using d(2) 1(3) l1 l2 gl(2) later_op_id [OF 1(2)] by blast+
        define k where "k = approx_ku (gc_dec g) m p"
        have k: "0 < k" using ku by (simp add: k_def)
        have h4: "runs own' b' (each [0..<k] (expert_ops g l p (fq8 ! p) (gs ! p)) b')
          (\<lambda>o' b ns. all_made k (\<lambda>_. [fq8 ! p, gs ! p]) o' b ns \<and> open_ops o' b \<subseteq> (S' - (\<Union>s < k. set [fq8 ! p, gs ! p])) \<union> set ns)"
        proof (rule each_made [OF 1(1,4)])
          fix own'' b'' s S'' assume 2: "good own'' b''" "later own' b' own'' b''" "open_ops own'' b'' \<subseteq> S''"
          show "runs own'' b'' (expert_ops g l p (fq8 ! p) (gs ! p) s b'') (made S'' [fq8 ! p, gs ! p])"
            by (rule expert_ops_runs [OF 2(1,3) _ _ w(2-4) r at]) (simp_all add: i' later_op_id [OF 2(2)])
        qed
        show "runs own' b' (f p b') (made S' [fq8 ! p, gs ! p])"
          unfolding f_def k_def [symmetric]
        proof (rule runs_bind [OF h4], goal_cases)
          case (1 own3 b3 downs)
          have a: "all_made k (\<lambda>_. [fq8 ! p, gs ! p]) own3 b3 downs" using 1(3) by simp
          have S3: "open_ops own3 b3 \<subseteq> (S' - {fq8 ! p, gs ! p}) \<union> set downs" using 1(3) k by (auto simp: lessThan_empty_iff)
          have d0: "downs ! 0 \<in> set downs" "\<forall>d \<in> set [fq8 ! p, gs ! p]. before b3 d (downs ! 0)" using a k by (auto simp: all_made_def)
          show ?case unfolding prod.case
          proof (rule runs_mono [OF fan_in_made [OF 1(1) _ S3]], use all_made_ids [OF a] in blast, goal_cases)
            case (1 own4 b4 n)
            note bf = later_before [OF 1(2)]
            have "before b4 d n" if "d \<in> set [fq8 ! p, gs ! p]" for d
              by (rule before_trans [OF bf [of d "downs ! 0"]]) (use d0 that 1(3) in \<open>auto simp: made_def\<close>)
            then show ?case using 1(3) by (auto simp: made_def)
          qed
        qed
      qed
      have U: "(\<Union>p < m. set [fq8 ! p, gs ! p]) = set fq8 \<union> set gs" using d(1) gl(1) by (auto simp: in_set_conv_nth)
      show ?case unfolding prod.case f_def [symmetric]
        by (rule runs_mono [OF h3 [unfolded U]]) (auto simp: all_made_def)
    qed
  qed
qed

section \<open>Layers and the head\<close>

text \<open>What the builder relies on: allocated objects, positive tile heights, heads, experts and layers, and
  the weights as \<open>load_tensor\<close> leaves them.\<close>

definition layer_built :: "graph_cfg \<Rightarrow> nat \<Rightarrow> bool" where
  "layer_built g l \<longleftrightarrow> (let W = Wl (gc_dec g) l in
     weight_built (W ''attn_q'') \<and> weight_built (W ''attn_kv_a_mqa'') \<and> weight_built (W ''attn_kv_b'') \<and> weight_built (W ''attn_output'')
     \<and> (if l < hp_n_dense_lead (dc_hp (gc_dec g))
        then weight_built (W ''ffn_gate'') \<and> weight_built (W ''ffn_up'') \<and> weight_built (W ''ffn_down'')
        else weight_built (W ''ffn_gate_inp'') \<and> expert_built (W ''ffn_gate_exps'') \<and> expert_built (W ''ffn_up_exps'')
          \<and> expert_built (W ''ffn_down_exps'') \<and> weight_built (W ''ffn_gate_shexp'') \<and> weight_built (W ''ffn_up_shexp'')
          \<and> weight_built (W ''ffn_down_shexp'')))"

definition cfg_built :: "graph_cfg \<Rightarrow> bool" where
  "cfg_built g \<longleftrightarrow> (\<forall>nm l p. gc_at g nm l p \<noteq> 0) \<and> 0 < gc_rowsz g \<and> 0 < gc_head_rowsz g
     \<and> 0 < hp_n_head (dc_hp (gc_dec g)) \<and> 0 < hp_n_used (dc_hp (gc_dec g)) \<and> 0 < hp_n_layer (dc_hp (gc_dec g))
     \<and> weight_built (dc_w (gc_dec g) ''output.weight'') \<and> (\<forall>l < hp_n_layer (dc_hp (gc_dec g)). layer_built g l)"

lemma approx_ku_pos: "0 < hp_n_used (dc_hp c) \<Longrightarrow> 0 < approx_ku c m p"
  by (auto simp: approx_ku_def)

definition xd_ok :: "nat \<Rightarrow> (nat \<Rightarrow> nat) \<Rightarrow> builder \<Rightarrow> nat option list \<Rightarrow> bool" where
  "xd_ok m own b xd \<longleftrightarrow> length xd = m \<and> (\<forall>p < m. \<forall>d. xd ! p = Some d \<longrightarrow> op_id own b d)"

lemma xd_ok_later: "later own b own' b' \<Longrightarrow> xd_ok m own b xd \<Longrightarrow> xd_ok m own' b' xd"
  using later_op_id unfolding xd_ok_def by blast

lemma xd_ok_deps: "xd_ok m own b xd \<Longrightarrow> p < m \<Longrightarrow> \<forall>d \<in> set (opt_deps xd p). op_id own b d"
  by (auto simp: xd_ok_def split: option.splits)

lemma ffn_stage_runs:
  assumes g: "good own b" "open_ops own b \<subseteq> S" and fs: "length fs = m"
    "\<forall>p < m. op_id own b (fst (fs ! p)) \<and> op_id own b (fst (snd (fs ! p))) \<and> op_id own b (snd (snd (fs ! p)))"
    and c: "cfg_built g" "l < hp_n_layer (dc_hp (gc_dec g))" and m: "1 \<le> m"
  shows "runs own b (ffn_stage g l m fs b)
    (\<lambda>o' b ns. length ns = m \<and> (\<forall>p < m. op_id o' b (ns ! p) \<and> before b (snd (snd (fs ! p))) (ns ! p))
      \<and> open_ops o' b \<subseteq> (S - set (map (snd \<circ> snd) fs)) \<union> set ns)"
proof -
  note kinds = is_decode_op_iff kNumTaskKinds_def
  define t2 where "t2 = map fst fs"
  define fn where "fn = map (fst \<circ> snd) fs"
  define fq where "fq = map (snd \<circ> snd) fs"
  have L: "length t2 = m" "length fn = m" "length fq = m" using fs(1) by (simp_all add: t2_def fn_def fq_def)
  have i: "\<forall>p < m. op_id own b (t2 ! p) \<and> op_id own b (fn ! p) \<and> op_id own b (fq ! p)"
    using fs by (simp add: t2_def fn_def fq_def)
  have ifq: "\<forall>p \<in> set fq. op_id own b p" using i L(3) by (auto simp: in_set_conv_nth)
  have at: "\<And>nm l p. gc_at g nm l p \<noteq> 0" and r: "0 < gc_rowsz g" and ku: "\<And>p. 0 < approx_ku (gc_dec g) m p" and lb: "layer_built g l"
    using c by (auto simp: cfg_built_def approx_ku_pos)
  have fin: "runs own1 b1 (each [0..<m] (\<lambda>p. dec_op g WMERGE ''merge'' l p (D p)) b1)
      (\<lambda>o' b ns. length ns = m \<and> (\<forall>p < m. op_id o' b (ns ! p) \<and> before b (snd (snd (fs ! p))) (ns ! p))
      \<and> open_ops o' b \<subseteq> (S - set fq) \<union> set ns)"
    if a: "good own1 b1" "open_ops own1 b1 \<subseteq> (S - set fq) \<union> X" "\<forall>p < m. \<forall>d \<in> set (D p). op_id own1 b1 d" "X \<subseteq> (\<Union>p < m. set (D p))"
      and bf: "\<forall>p < m. \<exists>d \<in> set (D p). before b1 (fq ! p) d" for own1 b1 D X
  proof -
    have h: "runs own1 b1 (each [0..<m] (\<lambda>p. dec_op g WMERGE ''merge'' l p (D p)) b1)
      (\<lambda>o' b ns. all_made m D o' b ns \<and> open_ops o' b \<subseteq> ((S - set fq) \<union> X - (\<Union>p < m. set (D p))) \<union> set ns)"
    proof (rule each_made [OF a(1,2)])
      fix own' b' p S' assume 1: "good own' b'" "later own1 b1 own' b'" "p < m" "open_ops own' b' \<subseteq> S'"
      show "runs own' b' (dec_op g WMERGE ''merge'' l p (D p) b') (made S' (D p))"
        by (rule dec_op_made [OF 1(1) _ 1(4) _ _ at]) (use a(3) 1(3) later_op_id [OF 1(2)] in \<open>simp_all add: kinds\<close>)
    qed
    show ?thesis
    proof (rule runs_mono [OF h], goal_cases)
      case (1 own2 b2 ns)
      have "before b2 (snd (snd (fs ! p))) (ns ! p)" if p: "p < m" for p
      proof -
        obtain d where d: "d \<in> set (D p)" "before b1 (fq ! p) d" using bf p by blast
        have "before b2 d (ns ! p)" using 1(3) d(1) p by (auto simp: all_made_def)
        with later_before [OF 1(2) d(2)] have "before b2 (fq ! p) (ns ! p)" by (rule before_trans)
        then show ?thesis using p fs(1) by (simp add: fq_def)
      qed
      moreover have "open_ops own2 b2 \<subseteq> (S - set fq) \<union> set ns" using 1(3) a(4) by auto
      ultimately show ?case using 1(3) by (simp add: all_made_def)
    qed
  qed
  show ?thesis
  proof (cases "l < hp_n_dense_lead (dc_hp (gc_dec g))")
    case True
    then have w: "weight_built (Wl (gc_dec g) l (''ffn_gate'' @ []))" "weight_built (Wl (gc_dec g) l (''ffn_up'' @ []))"
      "weight_built (Wl (gc_dec g) l (''ffn_down'' @ []))" using lb by (simp_all add: layer_built_def Let_def)
    note h1 = gate_up_down_runs [where n = "hp_n_ff_dense (dc_hp (gc_dec g))", OF g L(3) ifq w r m at]
    show ?thesis unfolding ffn_stage_def Let_def if_P [OF True] t2_def [symmetric] fn_def [symmetric] fq_def [symmetric]
    proof (rule runs_bind [OF h1], goal_cases)
      case (1 own1 b1 sd)
      have a: "all_made m (\<lambda>p. [fq ! p]) own1 b1 sd" and S1: "open_ops own1 b1 \<subseteq> (S - set fq) \<union> set sd" using 1(3) by auto
      have sdl: "length sd = m" using a by (simp add: all_made_def)
      show ?case unfolding prod.case
        by (rule fin [OF 1(1) S1])
          (use a i later_op_id [OF 1(2)] in \<open>auto simp: all_made_def in_set_conv_nth\<close>)
    qed
  next
    case False
    then have w: "weight_built (Wl (gc_dec g) l (''ffn_gate'' @ ''_shexp''))" "weight_built (Wl (gc_dec g) l (''ffn_up'' @ ''_shexp''))"
      "weight_built (Wl (gc_dec g) l (''ffn_down'' @ ''_shexp''))"
      and we: "weight_built (Wl (gc_dec g) l ''ffn_gate_inp'')" "expert_built (Wl (gc_dec g) l ''ffn_gate_exps'')"
      "expert_built (Wl (gc_dec g) l ''ffn_up_exps'')" "expert_built (Wl (gc_dec g) l ''ffn_down_exps'')"
      using lb by (simp_all add: layer_built_def Let_def)
    have i2: "\<forall>p < m. op_id own b (fq ! p) \<and> op_id own b (fn ! p)" using i by blast
    note h1 = expert_stage_runs [OF g L(3) i2 we r m ku at]
    show ?thesis unfolding ffn_stage_def Let_def if_not_P [OF False] t2_def [symmetric] fn_def [symmetric] fq_def [symmetric]
    proof (rule runs_bind [OF h1], goal_cases)
      case (1 own1 b1 rd)
      have a: "all_made m (\<lambda>p. [fq ! p]) own1 b1 rd" and S1: "open_ops own1 b1 \<subseteq> (S - set fq) \<union> set rd" using 1(3) by auto
      note l1 = later_op_id [OF 1(2)]
      have ifq1: "\<forall>p \<in> set fq. op_id own1 b1 p" using ifq l1 by blast
      note h2 = gate_up_down_runs [where n = "wt_rows (Wl (gc_dec g) l ''ffn_gate_shexp'')", OF 1(1) S1 L(3) ifq1 w r m at]
      show ?case unfolding prod.case
      proof (rule runs_bind [OF h2], goal_cases)
        case (1 own2 b2 ds)
        have a2: "all_made m (\<lambda>p. [fq ! p]) own2 b2 ds" and S2: "open_ops own2 b2 \<subseteq> (S - set fq) \<union> (set rd \<union> set ds)" using 1(3) by auto
        note l2 = later_op_id [OF 1(2)] and a' = all_made_later [OF 1(2) a]
        show ?case unfolding prod.case
        proof (rule fin [OF 1(1) S2])
          show "\<forall>p < m. \<forall>d \<in> set [rd ! p, ds ! p, t2 ! p]. op_id own2 b2 d" using a' a2 i l1 l2 by (simp add: all_made_def)
          show "set rd \<union> set ds \<subseteq> (\<Union>p < m. set [rd ! p, ds ! p, t2 ! p])" using a a2 by (auto simp: all_made_def in_set_conv_nth)
          show "\<forall>p < m. \<exists>d \<in> set [rd ! p, ds ! p, t2 ! p]. before b2 (fq ! p) d" using a2 by (auto simp: all_made_def)
        qed
      qed
    qed
  qed
qed

lemma layer_ops_runs:
  assumes g: "good own b" "open_ops own b \<subseteq> S" and xd: "xd_ok m own b xd"
    and c: "cfg_built g" "l < hp_n_layer (dc_hp (gc_dec g))" and m: "1 \<le> m"
  shows "runs own b (layer_ops g m xd l b)
    (\<lambda>o' b (ms, es). length ms = m \<and> (\<forall>n \<in> set ms. op_id o' b n) \<and> length es = m
      \<and> heads_ok (hp_n_head (dc_hp (gc_dec g))) None o' b es \<and> open_ops o' b \<subseteq> (S - (\<Union>p < m. set (opt_deps xd p))) \<union> set ms)"
proof -
  note kinds = is_decode_op_iff kNumTaskKinds_def
  have at: "\<And>nm l p. gc_at g nm l p \<noteq> 0" and r: "0 < gc_rowsz g" and nh: "0 < hp_n_head (dc_hp (gc_dec g))" and lb: "layer_built g l"
    using c by (auto simp: cfg_built_def)
  have w: "weight_built (Wl (gc_dec g) l ''attn_q'')" "weight_built (Wl (gc_dec g) l ''attn_kv_a_mqa'')"
    "weight_built (Wl (gc_dec g) l ''attn_kv_b'')" "weight_built (Wl (gc_dec g) l ''attn_output'')"
    using lb by (auto simp: layer_built_def Let_def)
  define X where "X = (\<Union>p < m. set (opt_deps xd p))"
  define Q where "Q = (\<lambda>o' b (ms, es). length ms = m \<and> (\<forall>n \<in> set ms. op_id o' b n) \<and> length es = m
      \<and> heads_ok (hp_n_head (dc_hp (gc_dec g))) None o' b es \<and> open_ops o' b \<subseteq> (S - X) \<union> set ms)"
  have hA: "runs own b (each [0..<m] (\<lambda>p. op_act g RMSNORM ''attn.norm'' l p (col_at g ''xn'' l p) (hp_n_embd (dc_hp (gc_dec g))) (opt_deps xd p)) b)
    (\<lambda>o' b ns. all_made m (opt_deps xd) o' b ns \<and> open_ops o' b \<subseteq> (S - (\<Union>p < m. set (opt_deps xd p))) \<union> set ns)"
  proof (rule each_made [OF g])
    fix own' b' p S' assume 1: "good own' b'" "later own b own' b'" "p < m" "open_ops own' b' \<subseteq> S'"
    show "runs own' b' (op_act g RMSNORM ''attn.norm'' l p (col_at g ''xn'' l p) (hp_n_embd (dc_hp (gc_dec g))) (opt_deps xd p) b') (made S' (opt_deps xd p))"
      by (rule op_act_made [OF 1(1) xd_ok_deps [OF xd_ok_later [OF 1(2) xd] 1(3)] 1(4) _ _ at]) (simp_all add: kinds)
  qed
  have "runs own b (layer_ops g m xd l b) Q"
    unfolding layer_ops_def Let_def
  proof (rule runs_bind [OF hA], goal_cases)
    case (1 own1 b1 aq)
    have aA: "length aq = m" "\<forall>n \<in> set aq. op_id own1 b1 n" using all_made_all [OF conjunct1 [OF 1(3)]] by auto
    have S1: "open_ops own1 b1 \<subseteq> (S - X) \<union> set aq" using 1(3) by (simp add: X_def)
    have x1: "xd_ok m own1 b1 xd" by (rule xd_ok_later [OF 1(2) xd])
    note hB = stage_dot_runs [where x = "''xn''" and y = "''q''" and l = l, OF 1(1) S1 aA w(1) r m]
    show ?case unfolding prod.case
    proof (rule runs_bind [OF hB], goal_cases)
      case (1 own2 b2 sq)
      have aB: "all_made m (\<lambda>p. [aq ! p]) own2 b2 sq" and S2: "open_ops own2 b2 \<subseteq> (S - X) \<union> set sq" using 1(3) by auto
      have aA2: "\<forall>n \<in> set aq. op_id own2 b2 n" using aA later_op_id [OF 1(2)] by blast
      note x2 = xd_ok_later [OF 1(2) x1]
      note hB2 = stage_dot_runs [where x = "''xn''" and y = "''kva''" and l = l, OF 1(1) S2 aA(1) aA2 w(2) r m]
      show ?case unfolding prod.case
      proof (rule runs_bind [OF hB2], goal_cases)
        case (1 own3 b3 skva)
        have aK: "all_made m (\<lambda>p. [aq ! p]) own3 b3 skva" and S3: "open_ops own3 b3 \<subseteq> (S - X) \<union> set sq \<union> set skva" using 1(3) by auto
        note aB3 = all_made_later [OF 1(2) aB] and x3 = xd_ok_later [OF 1(2) x2]
        have hC: "runs own3 b3 (each [0..<m] (\<lambda>p. op_act g RMSNORM ''kv.norm'' l p (col_at g ''ckv'' l p) (hp_kv_lora (dc_hp (gc_dec g))) [skva ! p]) b3)
          (\<lambda>o' b ns. all_made m (\<lambda>p. [skva ! p]) o' b ns \<and> open_ops o' b \<subseteq> ((S - X) \<union> set sq \<union> set skva - (\<Union>p < m. set [skva ! p])) \<union> set ns)"
        proof (rule each_made [OF 1(1) S3])
          fix own' b' p S' assume 1: "good own' b'" "later own3 b3 own' b'" "p < m" "open_ops own' b' \<subseteq> S'"
          show "runs own' b' (op_act g RMSNORM ''kv.norm'' l p (col_at g ''ckv'' l p) (hp_kv_lora (dc_hp (gc_dec g))) [skva ! p] b') (made S' [skva ! p])"
            by (rule op_act_made [OF 1(1) _ 1(4) _ _ at]) (simp_all add: kinds later_op_id [OF 1(2)] all_made_op [OF aK 1(3)])
        qed
        show ?case unfolding prod.case
        proof (rule runs_bind [OF hC], goal_cases)
          case (1 own4 b4 kq)
          have aC: "length kq = m" "\<forall>n \<in> set kq. op_id own4 b4 n" using all_made_all [OF conjunct1 [OF 1(3)]] by auto
          have S4: "open_ops own4 b4 \<subseteq> (S - X) \<union> set sq \<union> set kq" using 1(3) UN_nth [of skva m] aK by (auto simp: all_made_def)
          note aB4 = all_made_later [OF 1(2) aB3] and aK4 = all_made_later [OF 1(2) aK] and x4 = xd_ok_later [OF 1(2) x3]
          note hD = stage_dot_runs [where x = "''ckv''" and y = "''kvb''" and l = l, OF 1(1) S4 aC w(3) r m]
          show ?case unfolding prod.case
          proof (rule runs_bind [OF hD], goal_cases)
            case (1 own5 b5 skvb)
            have aD: "all_made m (\<lambda>p. [kq ! p]) own5 b5 skvb" and S5: "open_ops own5 b5 \<subseteq> (S - X) \<union> set sq \<union> set skvb" using 1(3) by auto
            note aB5 = all_made_later [OF 1(2) aB4] and aK5 = all_made_later [OF 1(2) aK4] and x5 = xd_ok_later [OF 1(2) x4]
            have i5: "\<forall>p \<in> set [0..<m]. op_id own5 b5 (sq ! p) \<and> op_id own5 b5 (skva ! p) \<and> op_id own5 b5 (skvb ! p)"
              using all_made_op [OF aB5] all_made_op [OF aK5] all_made_op [OF aD] by simp
            have nn: "\<forall>c. None = Some c \<longrightarrow> op_id own5 b5 c" by simp
            note hE = stage_e_runs [where l = l, OF 1(1) S5 i5 nn at nh]
            show ?case unfolding prod.case
            proof (rule runs_bind [OF hE], goal_cases)
              case (1 own6 b6 es)
              define cq where "cq = map (snd \<circ> snd) es"
              have E: "length es = m" "heads_ok (hp_n_head (dc_hp (gc_dec g))) None own6 b6 es" using 1(3) by auto
              have lq: "length sq = m" "length skvb = m" using aB5 aD by (auto simp: all_made_def)
              have "set sq \<subseteq> (\<Union>p \<in> set [0..<m]. {sq ! p, skva ! p, skvb ! p})"
                unfolding UN_nth [OF lq(1), symmetric] by (rule UN_mono) auto
              moreover have "set skvb \<subseteq> (\<Union>p \<in> set [0..<m]. {sq ! p, skva ! p, skvb ! p})"
                unfolding UN_nth [OF lq(2), symmetric] by (rule UN_mono) auto
              ultimately have S6: "open_ops own6 b6 \<subseteq> (S - X) \<union> set cq" using 1(3) unfolding cq_def by blast
              have "op_id own6 b6 (cq ! i)" if "i < m" for i using that E by (simp add: cq_def heads_ok_def)
              moreover have "length cq = m" using E by (simp add: cq_def)
              ultimately have cql: "length cq = m" "\<forall>n \<in> set cq. op_id own6 b6 n" by (auto simp: in_set_conv_nth)
              note x6 = xd_ok_later [OF 1(2) x5]
              note hF = stage_dot_runs [where x = "''ctx''" and y = "''ao''" and l = l, OF 1(1) S6 cql w(4) r m]
              show ?case unfolding prod.case cq_def [symmetric]
              proof (rule runs_bind [OF hF], goal_cases)
                case (1 own7 b7 so)
                have aF: "all_made m (\<lambda>p. [cq ! p]) own7 b7 so" and S7: "open_ops own7 b7 \<subseteq> (S - X) \<union> set so" using 1(3) by auto
                note x7 = xd_ok_later [OF 1(2) x6] and E7 = heads_ok_later [OF 1(2) E(2)]
                have hG: "runs own7 b7 (each [0..<m] (stage_g g l so xd) b7) (\<lambda>o' b fs. length fs = length [0..<m]
                  \<and> (\<forall>i < length [0..<m]. triple_ok o' b (so ! ([0..<m] ! i) # opt_deps xd ([0..<m] ! i)) (fs ! i))
                  \<and> open_ops o' b \<subseteq> ((S - X) \<union> set so - (\<Union>p \<in> set [0..<m]. set (so ! p # opt_deps xd p))) \<union> (\<Union>f \<in> set fs. {snd (snd f)}))"
                proof (rule each_runs [OF _ _ 1(1) S7])
                  fix own' b' p S' assume 1: "good own' b'" "later own7 b7 own' b'" "p \<in> set [0..<m]" "open_ops own' b' \<subseteq> S'"
                  have p: "p < m" using 1(3) by simp
                  show "runs own' b' (stage_g g l so xd p b') (\<lambda>o' b x. triple_ok o' b (so ! p # opt_deps xd p) x
                      \<and> open_ops o' b \<subseteq> S' - set (so ! p # opt_deps xd p) \<union> {snd (snd x)})"
                    by (rule stage_g_runs [OF 1(1,4) _ _ at])
                      (use all_made_op [OF aF p] xd_ok_later [OF 1(2) x7] p later_op_id [OF 1(2)] in \<open>auto simp: xd_ok_def\<close>)
                qed (rule triple_ok_later)
                show ?case unfolding prod.case
                proof (rule runs_bind [OF hG], goal_cases)
                  case (1 own8 b8 fs)
                  have fl: "length fs = m" and ft: "\<And>i. i < m \<Longrightarrow> triple_ok own8 b8 (so ! i # opt_deps xd i) (fs ! i)" using 1(3) by auto
                  have "length so = m" using aF by (simp add: all_made_def)
                  then have "set so \<subseteq> (\<Union>p \<in> set [0..<m]. set (so ! p # opt_deps xd p))"
                    unfolding UN_nth [OF \<open>length so = m\<close>, symmetric] by (intro UN_mono) auto
                  then have S8: "open_ops own8 b8 \<subseteq> (S - X) \<union> set (map (snd \<circ> snd) fs)" using 1(3) by auto
                  have i8: "\<forall>p < m. op_id own8 b8 (fst (fs ! p)) \<and> op_id own8 b8 (fst (snd (fs ! p))) \<and> op_id own8 b8 (snd (snd (fs ! p)))"
                    using triple_ok_ids [OF ft] by blast
                  note E8 = heads_ok_later [OF 1(2) E7]
                  note hH = ffn_stage_runs [OF 1(1) S8 fl i8 c m]
                  show ?case unfolding prod.case
                  proof (rule runs_bind [OF hH], goal_cases)
                    case (1 own9 b9 ms)
                    have "length ms = m" "\<forall>n \<in> set ms. op_id own9 b9 n" "open_ops own9 b9 \<subseteq> (S - X) \<union> set ms"
                      using 1(3) by (auto simp: in_set_conv_nth)
                    then have "Q own9 b9 (ms, es)" using E(1) heads_ok_later [OF 1(2) E8] by (simp add: Q_def)
                    then show ?case unfolding prod.case using 1(1) by (intro runs_return)
                  qed
                qed
              qed
            qed
          qed
        qed
      qed
    qed
  qed
  then show ?thesis by (simp add: Q_def X_def)
qed

definition xd_set :: "nat \<Rightarrow> nat option list \<Rightarrow> nat set" where
  "xd_set m xd = (\<Union>p < m. set (opt_deps xd p))"

lemma xd_set_Some: "length ms = m \<Longrightarrow> xd_set m (map Some ms) = set ms"
  by (auto simp: xd_set_def in_set_conv_nth)

lemma layers_ops_runs:
  assumes "good own b" "open_ops own b \<subseteq> S" "xd_ok m own b xd" "\<forall>l \<in> set ls. l < hp_n_layer (dc_hp (gc_dec g))"
    and c: "cfg_built g" and m: "1 \<le> m"
  shows "runs own b (layers_ops g m xd ls b)
    (\<lambda>o' b (xd', ess). xd_ok m o' b xd' \<and> length ess = length ls
      \<and> (\<forall>es \<in> set ess. length es = m \<and> heads_ok (hp_n_head (dc_hp (gc_dec g))) None o' b es)
      \<and> open_ops o' b \<subseteq> (S - xd_set m xd) \<union> xd_set m xd')"
  using assms(1-4)
proof (induction ls arbitrary: own b S xd)
  case Nil then show ?case by (auto intro: runs_return)
next
  case (Cons l ls)
  have l: "l < hp_n_layer (dc_hp (gc_dec g))" using Cons.prems(4) by simp
  note h1 = layer_ops_runs [OF Cons.prems(1-3) c l m]
  show ?case unfolding layers_ops.simps
  proof (rule runs_bind [OF h1], goal_cases)
    case (1 own1 b1 x)
    obtain ms es where x: "x = (ms, es)" by (cases x)
    have L: "length ms = m" "\<forall>n \<in> set ms. op_id own1 b1 n" "length es = m" "heads_ok (hp_n_head (dc_hp (gc_dec g))) None own1 b1 es"
      and S1: "open_ops own1 b1 \<subseteq> (S - xd_set m xd) \<union> set ms" using 1(3) by (auto simp: x xd_set_def)
    have x1: "xd_ok m own1 b1 (map Some ms)" using L by (auto simp: xd_ok_def)
    have ls: "\<forall>l \<in> set ls. l < hp_n_layer (dc_hp (gc_dec g))" using Cons.prems(4) by simp
    note h2 = Cons.IH [OF 1(1) S1 x1 ls]
    show ?case unfolding prod.case x
    proof (rule runs_bind [OF h2], goal_cases)
      case (1 own2 b2 y)
      obtain xd' ess where y: "y = (xd', ess)" by (cases y)
      show ?case unfolding prod.case y
        using 1(1,3) heads_ok_later [OF 1(2) L(4)] L(1,3) xd_set_Some [OF L(1)] by (intro runs_return) (auto simp: y)
    qed
  qed
qed

lemma head_ops_runs:
  assumes g: "good own b" "open_ops own b \<subseteq> xd_set m xd" and xd: "xd_ok m own b xd" and c: "cfg_built g" and m: "1 \<le> m" and hc: "gc_hc g \<noteq> 1"
  shows "runs own b (head_ops g m xd b) (\<lambda>o' b hs. \<exists>n. hs = [n] \<and> op_id o' b n \<and> open_ops o' b \<subseteq> {n} \<and> graph_consumers (bd_graph b) n = [])"
proof -
  note kinds = is_decode_op_iff kNumTaskKinds_def
  have at: "\<And>nm l p. gc_at g nm l p \<noteq> 0" and r: "0 < gc_head_rowsz g" and w: "weight_built (dc_w (gc_dec g) ''output.weight'')"
    using c by (auto simp: cfg_built_def)
  have h1: "runs own b (each [0..<m] (\<lambda>p. op_act g RMSNORM ''out.norm'' 0 p (col_at g ''xF'' 0 p) (hp_n_embd (dc_hp (gc_dec g))) (opt_deps xd p)) b)
    (\<lambda>o' b ns. all_made m (opt_deps xd) o' b ns \<and> open_ops o' b \<subseteq> (xd_set m xd - (\<Union>p < m. set (opt_deps xd p))) \<union> set ns)"
  proof (rule each_made [OF g])
    fix own' b' p S' assume 1: "good own' b'" "later own b own' b'" "p < m" "open_ops own' b' \<subseteq> S'"
    show "runs own' b' (op_act g RMSNORM ''out.norm'' 0 p (col_at g ''xF'' 0 p) (hp_n_embd (dc_hp (gc_dec g))) (opt_deps xd p) b') (made S' (opt_deps xd p))"
      by (rule op_act_made [OF 1(1) xd_ok_deps [OF xd_ok_later [OF 1(2) xd] 1(3)] 1(4) _ _ at]) (simp_all add: kinds)
  qed
  show ?thesis unfolding head_ops_def Let_def
  proof (rule runs_bind [OF h1], goal_cases)
    case (1 own1 b1 deps)
    have d: "length deps = m" "\<forall>n \<in> set deps. op_id own1 b1 n" using all_made_all [OF conjunct1 [OF 1(3)]] by auto
    have S1: "open_ops own1 b1 \<subseteq> set deps" using 1(3) by (auto simp: xd_set_def)
    note h2 = add_dot_m_made [where x = "gc_base g ''xF'' 0" and xs = "gc_stride g ''xF''" and y = "gc_base g ''logits'' 0"
        and ys = "of_nat (hp_n_vocab (dc_hp (gc_dec g)))", OF 1(1) d(2) S1 w r m]
    show ?case unfolding prod.case if_not_P [OF hc]
    proof (rule runs_bind [OF h2], goal_cases)
      case (1 own2 b2 n)
      then show ?case unfolding prod.case by (intro runs_return) (auto simp: made_def)
    qed
  qed
qed

section \<open>The terminal and \<open>freeze\<close>\<close>

lemma close_graph:
  assumes g: "good own b" and n: "op_id own b n" "open_ops own b \<subseteq> {n}" "graph_consumers (bd_graph b) n = []"
  shows "raw_signal b = Inl CapacityExceeded \<or>
    (\<exists>b1 b2 d gr. raw_signal b = Inr (b1, d) \<and> add_edges [n] d b1 = Inr b2 \<and> graph_freeze (bd_graph b2) = Inr gr
      \<and> frozen_graph gr \<and> graph_edges (bd_graph b) \<subseteq> graph_edges gr)"
proof -
  define d where "d = graph_size (bd_graph b)"
  have o: "owned own (bd_graph b)" and sv: "served_but {} own (bd_graph b)" using g by (auto simp: good_def builder_ok_def)
  from add_task_cases [OF o disjI1 [OF refl], of signal_task] show ?thesis
  proof (elim disjE exE conjE)
    assume "add_task signal_task b = Inl CapacityExceeded"
    then show ?thesis by (simp add: raw_signal_def)
  next
    fix b1 assume a: "add_task signal_task b = Inr (b1, graph_size (bd_graph b))" "task_added own signal_task (graph_size (bd_graph b)) b b1"
    have A: "graph_size (bd_graph b1) = Suc d" "owned (own(d := d)) (bd_graph b1)"
      "graph_edges (bd_graph b1) = graph_edges (bd_graph b)" "extends (bd_graph b) (bd_graph b1)" "graph_consumers (bd_graph b1) d = []"
      "\<And>q. q < d \<Longrightarrow> graph_consumers (bd_graph b1) q = graph_consumers (bd_graph b) q" "core (g_tasks (bd_graph b1) ! d) = core signal_task"
      using a(2) by (auto simp: task_added_def Let_def d_def)
    define own1 where "own1 = own(d := d)"
    have nd: "n < d" "own n = n" using n(1) by (auto simp: op_id_def d_def)
    have gr: "grows_along own1 n d" using nd by (simp add: own1_def grows_along_def)
    have f: "length (graph_consumers (bd_graph b1) n) < kMaxConsumers" using n(3) A(6) [OF nd(1)] by (simp add: kMaxConsumers_def)
    have nl: "n < graph_size (bd_graph b1)" "d < graph_size (bd_graph b1)" using nd A(1) by auto
    from add_edge_ok [OF A(2) [folded own1_def] nl gr f] obtain b2 where b2: "add_edge n d b1 = Inr b2" "owned own1 (bd_graph b2)"
      "graph_edges (bd_graph b2) = insert (n, d) (graph_edges (bd_graph b1))" "graph_size (bd_graph b2) = graph_size (bd_graph b1)"
      "extends (bd_graph b1) (bd_graph b2)"
      "graph_consumers (bd_graph b2) = (\<lambda>q. if q = n then graph_consumers (bd_graph b1) n @ [d] else graph_consumers (bd_graph b1) q)" by blast
    have gi: "graph_inv (bd_graph b2)" and nf: "\<not> g_frozen (bd_graph b2)" using b2(2) by (auto simp: owned_def)
    have sinks: "graph_sinks (bd_graph b2) = {d}"
    proof (intro equalityI subsetI)
      fix q assume "q \<in> graph_sinks (bd_graph b2)"
      then have q: "q < Suc d" "graph_consumers (bd_graph b2) q = []" by (auto simp: graph_sinks_def b2(4) A(1))
      then have qn: "q \<noteq> n" by (auto simp: b2(6))
      show "q \<in> {d}"
      proof (rule ccontr)
        assume "q \<notin> {d}"
        then have qd: "q < d" using q(1) by simp
        then have c0: "graph_consumers (bd_graph b) q = []" using q(2) qn A(6) by (simp add: b2(6))
        then have "own q = q" using sv qd by (auto simp: served_but_def d_def)
        then have "q \<in> open_ops own b" using c0 qd by (simp add: open_ops_def op_id_def d_def)
        then show False using n(2) qn by auto
      qed
    next
      fix q assume "q \<in> {d}"
      then show "q \<in> graph_sinks (bd_graph b2)" using A(1,5) nd by (simp add: graph_sinks_def b2(4,6))
    qed
    have core2: "core (g_tasks (bd_graph b2) ! q) = core (g_tasks (bd_graph b1) ! q)" if "q < Suc d" for q
      using b2(5) that A(1) by (simp add: extends_def)
    have ck: "task_check (g_tasks (bd_graph b2) ! q) = None" if "q < Suc d" for q
    proof (cases "q = d")
      case True
      then show ?thesis using core_kind [OF core2 [OF that]] core_kind [OF A(7)] by simp
    next
      case False
      then have "core (g_tasks (bd_graph b1) ! q) = core (g_tasks (bd_graph b) ! q)" using A(4) that by (simp add: extends_def d_def)
      then show ?thesis using core_kind [OF core2 [OF that]] core_kind [of "g_tasks (bd_graph b1) ! q"] g that False
        by (auto simp: good_def d_def)
    qed
    have k: "t_kind (g_tasks (bd_graph b2) ! d) = SIGNAL"
      using core_kind [OF core2 [of d]] core_kind [OF A(7)] by (simp add: signal_task_def)
    have fe: "first_error (g_tasks (bd_graph b2)) = None"
      using ck by (auto simp: first_error_None_iff in_set_conv_nth b2(4) A(1) graph_size_def [symmetric])
    have fz: "graph_freeze (bd_graph b2) = Inr (bd_graph b2\<lparr>g_terminal := d, g_frozen := True\<rparr>)"
      unfolding graph_freeze_cases [OF gi nf] using owned_acyclic [OF b2(2)] by (simp add: sinks k fe)
    have "frozen_graph (bd_graph b2\<lparr>g_terminal := d, g_frozen := True\<rparr>)" using freeze_gives_frozen [OF gi nf fz] by simp
    moreover have "graph_edges (bd_graph b) \<subseteq> graph_edges (bd_graph b2\<lparr>g_terminal := d, g_frozen := True\<rparr>)"
      using A(3) b2(3) by auto
    ultimately show ?thesis
      using a(1) b2(1) fz by (intro disjI2 exI [of _ b1] exI [of _ b2] exI [of _ d]) (simp add: raw_signal_def d_def [symmetric])
  qed
qed

lemma builder_create_good: "good (\<lambda>n. n) (builder_create N)"
  by (simp add: good_def builder_ok_def owned_def served_but_def builder_create_def graph_create_inv)
    (simp add: graph_create_def graph_size_def graph_edges_def edges_of_def)

lemma builder_create_open: "open_ops own (builder_create N) = {}"
  by (simp add: open_ops_def op_id_def builder_create_def graph_create_def graph_size_def)


section \<open>Witness\<close>

text \<open>A model of one dense and one routed layer with two heads and two experts, every weight of 300 rows.\<close>

definition demo_weight :: wtensor where
  "demo_weight = \<lparr>wt_p = 4096, wt_fmt = Q8_0, wt_rows = 300, wt_cols = 64, wt_row_bytes = 68, wt_estride = 20400, wt_nexp = 4\<rparr>"

definition demo_graph_cfg :: graph_cfg where
  "demo_graph_cfg = \<lparr>gc_dec = \<lparr>dc_lm = demo_libm,
       dc_hp = \<lparr>hp_n_embd = 64, hp_n_layer = 2, hp_n_head = 2, hp_n_vocab = 300, hp_n_dense_lead = 1,
         hp_n_ff_dense = 64, hp_n_ff_exp = 64, hp_n_expert = 4, hp_n_used = 2, hp_kv_lora = 64, hp_dk = 64, hp_dv = 32,
         hp_d_rope = 32, hp_d_nope = 32, hp_rms_eps = 0, hp_expert_scale = c_1, hp_expert_norm = 0,
         hp_freq_base = c_1, hp_freq_scale = c_1, hp_ext_factor = 0, hp_attn_factor = c_1,
         hp_beta_fast = c_1, hp_beta_slow = c_1, hp_n_ctx_orig = 64, hp_kq_scale = c_1\<rparr>,
       dc_wm = (\<lambda>_. 0), dc_w = (\<lambda>_. demo_weight), dc_fast = True, dc_i8_mask = 0, dc_i8k_mask = 0, dc_ub = (\<lambda>_. ([], [])),
       dc_approx_k = 0, dc_approx_renorm = False, dc_max_kv = 64, dc_max_batch = 2\<rparr>,
     gc_affinity = 3, gc_mc = 0, gc_barrier = False, gc_hc = 0, gc_rowsz = 192, gc_head_rowsz = 1024,
     gc_base = (\<lambda>_ _. 8192), gc_stride = (\<lambda>_. 256), gc_at = (\<lambda>_ _ _. 64)\<rparr>"

lemma demo_weight_built: "weight_built demo_weight" "expert_built demo_weight"
  by (simp_all add: expert_built_def weight_built_def demo_weight_def fl_row_bytes_def)

lemma demo_cfg_built: "cfg_built demo_graph_cfg"
  by (simp add: cfg_built_def demo_graph_cfg_def layer_built_def Wl_def demo_weight_built)


end
