(* ===== verification/FL_Double.thy ===== *)
theory FL_Double
  imports FL_Float
begin

text \<open>
  IEEE binary64 arithmetic on bit patterns, for the \<open>double\<close>s of the draft-length controller and of
  the certified argmax: exact dyadic results rounded to nearest even, as for \<open>float\<close> in
  \<open>FL_Float\<close>.
\<close>

unbundle bit_operations_syntax

type_synonym f64 = u64

section \<open>Values and operations\<close>

definition f64_dec :: "f64 \<Rightarrow> fval" where
  "f64_dec w =
    (let s = bit w 63; b = uint (take_bit 63 w); E = b div 2 ^ 52; M = b mod 2 ^ 52
     in if E = 2047 then (if M = 0 then FInf s else FNan)
        else if E = 0 then FNum s M (-1074) else FNum s (M + 2 ^ 52) (E - 1075))"

definition f64_sign_bit :: "bool \<Rightarrow> f64" where
  "f64_sign_bit s = (if s then 0x8000000000000000 else 0)"

definition f64_enc :: "bool \<Rightarrow> int \<Rightarrow> int \<Rightarrow> f64" where
  "f64_enc s m e = (let b = mag_enc 52 (-1074) m e in f64_sign_bit s OR of_int (min b 0x7FF0000000000000))"

definition f64_nan :: f64 where "f64_nan = 0x7FF8000000000000"
definition f64_inf :: "bool \<Rightarrow> f64" where "f64_inf s = f64_sign_bit s OR 0x7FF0000000000000"

definition f64_add :: "f64 \<Rightarrow> f64 \<Rightarrow> f64" where
  "f64_add a b =
    (case (f64_dec a, f64_dec b) of
       (FNum s1 m1 e1, FNum s2 m2 e2) \<Rightarrow>
         (let e = min e1 e2; v1 = m1 * 2 ^ nat (e1 - e); v2 = m2 * 2 ^ nat (e2 - e);
              v = (if s1 then - v1 else v1) + (if s2 then - v2 else v2)
          in if v = 0 then f64_sign_bit (s1 \<and> s2) else f64_enc (v < 0) \<bar>v\<bar> e)
     | (FInf s1, FInf s2) \<Rightarrow> if s1 = s2 then f64_inf s1 else f64_nan
     | (FInf s1, FNum _ _ _) \<Rightarrow> f64_inf s1
     | (FNum _ _ _, FInf s2) \<Rightarrow> f64_inf s2
     | _ \<Rightarrow> f64_nan)"

definition f64_neg :: "f64 \<Rightarrow> f64" where "f64_neg a = a XOR 0x8000000000000000"
definition f64_sub :: "f64 \<Rightarrow> f64 \<Rightarrow> f64" where "f64_sub a b = f64_add a (f64_neg b)"

definition f64_mul :: "f64 \<Rightarrow> f64 \<Rightarrow> f64" where
  "f64_mul a b =
    (case (f64_dec a, f64_dec b) of
       (FNum s1 m1 e1, FNum s2 m2 e2) \<Rightarrow> f64_enc (s1 \<noteq> s2) (m1 * m2) (e1 + e2)
     | (FInf s1, FInf s2) \<Rightarrow> f64_inf (s1 \<noteq> s2)
     | (FInf s1, FNum s2 m2 _) \<Rightarrow> if m2 = 0 then f64_nan else f64_inf (s1 \<noteq> s2)
     | (FNum s1 m1 _, FInf s2) \<Rightarrow> if m1 = 0 then f64_nan else f64_inf (s1 \<noteq> s2)
     | _ \<Rightarrow> f64_nan)"

text \<open>A quotient to 56 bits and more, the last bit sticky.\<close>

definition f64_div :: "f64 \<Rightarrow> f64 \<Rightarrow> f64" where
  "f64_div a b =
    (case (f64_dec a, f64_dec b) of
       (FNum s1 m1 e1, FNum s2 m2 e2) \<Rightarrow>
         if m2 = 0 then (if m1 = 0 then f64_nan else f64_inf (s1 \<noteq> s2))
         else let k = nat (56 + bit_len m2); q = (m1 * 2 ^ k) div m2; r = (m1 * 2 ^ k) mod m2
              in f64_enc (s1 \<noteq> s2) (2 * q + (if r = 0 then 0 else 1)) (e1 - e2 - int k - 1)
     | (FInf s1, FNum s2 _ _) \<Rightarrow> f64_inf (s1 \<noteq> s2)
     | (FNum s1 _ _, FInf s2) \<Rightarrow> f64_sign_bit (s1 \<noteq> s2)
     | _ \<Rightarrow> f64_nan)"

text \<open>Order on decoded values; a NaN is not below anything.\<close>

fun fval_lt :: "fval \<Rightarrow> fval \<Rightarrow> bool" where
  "fval_lt (FNum s1 m1 e1) (FNum s2 m2 e2) =
    (let e = min e1 e2; v1 = m1 * 2 ^ nat (e1 - e); v2 = m2 * 2 ^ nat (e2 - e)
     in (if s1 then - v1 else v1) < (if s2 then - v2 else v2))"
| "fval_lt (FInf s1) (FInf s2) = (s1 \<and> \<not> s2)"
| "fval_lt (FInf s1) (FNum _ _ _) = s1"
| "fval_lt (FNum _ _ _) (FInf s2) = (\<not> s2)"
| "fval_lt _ _ = False"

definition f64_lt :: "f64 \<Rightarrow> f64 \<Rightarrow> bool" where "f64_lt a b = fval_lt (f64_dec a) (f64_dec b)"

definition f64_of_int :: "int \<Rightarrow> f64" where "f64_of_int i = f64_enc (i < 0) \<bar>i\<bar> 0"

text \<open>Widening a \<open>float\<close> is exact; narrowing rounds.\<close>

definition f64_of_f32 :: "f32 \<Rightarrow> f64" where
  "f64_of_f32 a = (case f32_dec a of FNum s m e \<Rightarrow> f64_enc s m e | FInf s \<Rightarrow> f64_inf s | FNan \<Rightarrow> f64_nan)"

definition f32_of_f64 :: "f64 \<Rightarrow> f32" where
  "f32_of_f64 a = (case f64_dec a of FNum s m e \<Rightarrow> f32_enc s m e | FInf s \<Rightarrow> f32_inf s | FNan \<Rightarrow> f32_nan)"

end
