(* ===== verification/FL_Spec_Control.thy ===== *)
theory FL_Spec_Control
  imports FL_Double
begin

text \<open>
  The draft-length controller \<open>SpecController\<close> of \<open>src/spec/spec_controller.h\<close>, its doubles as bit
  patterns. The wall time of a pass is an input of \<open>observe\<close>.
\<close>

section \<open>State\<close>

definition d_0 :: f64 where "d_0 = 0"
definition d_1 :: f64 where "d_1 = 0x3FF0000000000000"
definition d_m1 :: f64 where "d_m1 = 0xBFF0000000000000"
definition d_alpha_min :: f64 where "d_alpha_min = 0x3F947AE147AE147B" \<comment> \<open>\<open>0.02\<close>\<close>
definition d_alpha_max :: f64 where "d_alpha_max = 0x3FEF5C28F5C28F5C" \<comment> \<open>\<open>0.98\<close>\<close>

record spec_cfg =
  sc_n_max :: int
  sc_alpha0 :: f64
  sc_alpha_decay :: f64
  sc_lat_decay :: f64
  sc_probe_iv :: int
  sc_probe_n :: int
  sc_seed_slope :: f64

text \<open>Defaults \<open>0.75\<close>, \<open>0.90\<close>, \<open>0.80\<close> and \<open>0.15\<close>.\<close>

definition spec_cfg0 :: spec_cfg where
  "spec_cfg0 = \<lparr>sc_n_max = 7, sc_alpha0 = 0x3FE8000000000000, sc_alpha_decay = 0x3FECCCCCCCCCCCCD,
     sc_lat_decay = 0x3FE999999999999A, sc_probe_iv = 16, sc_probe_n = 2, sc_seed_slope = 0x3FC3333333333333\<rparr>"

text \<open>The environment overrides, as parsed numbers.\<close>

definition cfg_from_env :: "f64 option \<Rightarrow> f64 option \<Rightarrow> f64 option \<Rightarrow> int option \<Rightarrow> spec_cfg" where
  "cfg_from_env a0 ad ld iv =
    (let c = spec_cfg0;
         c = (case a0 of Some v \<Rightarrow> c\<lparr>sc_alpha0 := v\<rparr> | None \<Rightarrow> c);
         c = (case ad of Some v \<Rightarrow> c\<lparr>sc_alpha_decay := v\<rparr> | None \<Rightarrow> c);
         c = (case ld of Some v \<Rightarrow> c\<lparr>sc_lat_decay := v\<rparr> | None \<Rightarrow> c)
     in (case iv of Some v \<Rightarrow> c\<lparr>sc_probe_iv := v\<rparr> | None \<Rightarrow> c))"

definition kMaxN :: nat where "kMaxN = 15"

record spec_ctl =
  ct_cfg :: spec_cfg
  ct_alpha :: f64
  ct_lat :: "f64 list"
  ct_zero_streak :: int

definition spec_init :: "spec_cfg \<Rightarrow> spec_ctl" where
  "spec_init c = \<lparr>ct_cfg = c, ct_alpha = sc_alpha0 c, ct_lat = replicate (kMaxN + 1) d_m1, ct_zero_streak = 0\<rparr>"

section \<open>Operations\<close>

definition bucket :: "int \<Rightarrow> nat" where
  "bucket n = (if n < 0 then 0 else if int kMaxN < n then kMaxN else nat n)"

text \<open>The seed of an unseen bucket: the nearest measured one, the lower first.\<close>

fun lat_seed :: "spec_ctl \<Rightarrow> nat \<Rightarrow> nat list \<Rightarrow> f64" where
  "lat_seed x b [] = d_1"
| "lat_seed x b (d # ds) =
    (let f = f64_add d_1 (f64_mul (sc_seed_slope (ct_cfg x)) (f64_of_int (int d)))
     in if d \<le> b \<and> \<not> f64_lt (ct_lat x ! (b - d)) d_0 \<and> f64_dec (ct_lat x ! (b - d)) \<noteq> FNan then f64_mul (ct_lat x ! (b - d)) f
        else if b + d \<le> kMaxN \<and> \<not> f64_lt (ct_lat x ! (b + d)) d_0 \<and> f64_dec (ct_lat x ! (b + d)) \<noteq> FNan
        then f64_div (ct_lat x ! (b + d)) f
        else lat_seed x b ds)"

definition lat_est :: "spec_ctl \<Rightarrow> int \<Rightarrow> f64" where
  "lat_est x n =
    (let b = bucket n
     in if \<not> f64_lt (ct_lat x ! b) d_0 \<and> f64_dec (ct_lat x ! b) \<noteq> FNan then ct_lat x ! b
        else lat_seed x b [1..<kMaxN + 1])"

definition expected_emitted :: "spec_ctl \<Rightarrow> nat \<Rightarrow> f64" where
  "expected_emitted x n =
    fst (for_loop 0 (n + 1) (\<lambda>_ (e, p). (f64_add e p, f64_mul p (ct_alpha x))) (d_0, d_1))"

definition best_draft :: "spec_ctl \<Rightarrow> int \<times> f64" where
  "best_draft x =
    for_loop 1 (nat (sc_n_max (ct_cfg x)) + 1) (\<lambda>n (best_n, best_rate).
      let r = f64_div (expected_emitted x n) (lat_est x (int n))
      in if f64_lt best_rate r then (int n, r) else (best_n, best_rate))
      (0, f64_div d_1 (lat_est x 0))"

definition spec_choose :: "spec_ctl \<Rightarrow> int \<times> spec_ctl" where
  "spec_choose x =
    (if f64_lt (ct_lat x ! 0) d_0 then (sc_n_max (ct_cfg x), x)
     else let (best_n, _) = best_draft x
       in if best_n = 0
          then (let z = ct_zero_streak x + 1
            in if sc_probe_iv (ct_cfg x) \<le> z then (sc_probe_n (ct_cfg x), x\<lparr>ct_zero_streak := 0\<rparr>)
               else (0, x\<lparr>ct_zero_streak := z\<rparr>))
          else (best_n, x\<lparr>ct_zero_streak := 0\<rparr>))"

definition observe :: "int \<Rightarrow> int \<Rightarrow> f64 \<Rightarrow> spec_ctl \<Rightarrow> spec_ctl" where
  "observe n_drafted n_accepted pass_ms x =
    (let b = bucket n_drafted; c = ct_cfg x; old = ct_lat x ! b;
         new = (if f64_lt old d_0 then pass_ms
                else f64_add (f64_mul (sc_lat_decay c) old) (f64_mul (f64_sub d_1 (sc_lat_decay c)) pass_ms));
         x = x\<lparr>ct_lat := (ct_lat x)[b := new]\<rparr>
     in if 0 < n_drafted
        then let frac = f64_div (f64_of_int n_accepted) (f64_of_int n_drafted);
                 a = f64_add (f64_mul (sc_alpha_decay c) (ct_alpha x)) (f64_mul (f64_sub d_1 (sc_alpha_decay c)) frac);
                 a = (if f64_lt a d_alpha_min then d_alpha_min else a);
                 a = (if f64_lt d_alpha_max a then d_alpha_max else a)
             in x\<lparr>ct_alpha := a\<rparr>
        else x)"

section \<open>Bounds\<close>

text \<open>A controller that has its sixteen buckets, and the range of its choices.\<close>

definition ctl_ok :: "spec_ctl \<Rightarrow> bool" where
  "ctl_ok x \<longleftrightarrow> length (ct_lat x) = kMaxN + 1"

lemma spec_init_ok: "ctl_ok (spec_init c)"
  by (simp add: ctl_ok_def spec_init_def)

lemma observe_ok: "ctl_ok x \<Longrightarrow> ctl_ok (observe d a ms x) \<and> ct_cfg (observe d a ms x) = ct_cfg x"
  by (simp add: ctl_ok_def observe_def Let_def)

lemma spec_choose_ok: "ctl_ok x \<Longrightarrow> ctl_ok (snd (spec_choose x)) \<and> ct_cfg (snd (spec_choose x)) = ct_cfg x"
  by (simp add: ctl_ok_def spec_choose_def Let_def case_prod_beta)

lemma bucket_range: "bucket n \<le> kMaxN"
  by (auto simp: bucket_def kMaxN_def)

lemma best_draft_range: "0 \<le> fst (best_draft x) \<and> fst (best_draft x) \<le> max 0 (sc_n_max (ct_cfg x))"
proof -
  define body where "body = (\<lambda>n (best_n :: int, best_rate). let r = f64_div (expected_emitted x n) (lat_est x (int n))
      in if f64_lt best_rate r then (int n, r) else (best_n, best_rate))"
  have "0 \<le> fst (for_loop 1 (k + 1) body (0, f64_div d_1 (lat_est x 0)))
      \<and> fst (for_loop 1 (k + 1) body (0, f64_div d_1 (lat_est x 0))) \<le> int k" for k
  proof (induction k)
    case (Suc k)
    obtain bn br where s: "for_loop 1 (k + 1) body (0, f64_div d_1 (lat_est x 0)) = (bn, br)"
      by (cases "for_loop 1 (k + 1) body (0, f64_div d_1 (lat_est x 0))")
    have "fst (body (k + 1) (bn, br)) \<in> {bn, int (k + 1)}" by (simp add: body_def Let_def)
    moreover have "for_loop 1 (Suc k + 1) body (0, f64_div d_1 (lat_est x 0)) = body (k + 1) (bn, br)"
      using for_loop_last [of 1 "k + 1" body] s by simp
    ultimately show ?case using Suc s by auto
  qed simp
  from this [of "nat (sc_n_max (ct_cfg x))"] show ?thesis
    unfolding best_draft_def body_def [symmetric] by (auto simp: max_def)
qed

text \<open>Whatever it has observed, a controller asks for at most \<open>n_max\<close> drafts or for a probe.\<close>

lemma spec_choose_range:
  "fst (spec_choose x) = sc_probe_n (ct_cfg x) \<or> fst (spec_choose x) \<le> max 0 (sc_n_max (ct_cfg x))"
  using best_draft_range [of x] by (auto simp: spec_choose_def Let_def case_prod_beta)

end
