(* ===== verification/FL_Spec_Decode.thy ===== *)
theory FL_Spec_Decode
  imports FL_Pass FL_Suffix FL_Spec_Control
begin

text \<open>
  The decoder interface of \<open>src/model/decoder.h\<close> and the generation loops of
  \<open>src/tools/decode_main.cpp\<close> over it: prefill, the plain greedy loop, and the speculative loop with
  suffix-match drafts, verification batches, acceptance, the margin gate and the rewind. The
  contract of the interface is a locale, in which the loops are proved, and the decoder of
  \<open>FL_Pass\<close> is its interpretation.
\<close>

section \<open>The interface\<close>

text \<open>The virtual methods of \<open>Decoder\<close> as a record of functions on its state.\<close>

record 'd decoder_ops =
  op_step_batch :: "tok list \<Rightarrow> 'd \<Rightarrow> dec_error + 'd \<times> tok list"
  op_rewind_to :: "nat \<Rightarrow> 'd \<Rightarrow> dec_error + 'd"
  op_reset :: "'d \<Rightarrow> 'd"
  op_n_past :: "'d \<Rightarrow> nat"
  op_last_margins :: "'d \<Rightarrow> f32 list"
  op_max_batch :: nat

definition decoder_impl :: "decoder_cfg \<Rightarrow> decoder decoder_ops" where
  "decoder_impl c = \<lparr>op_step_batch = step_batch c, op_rewind_to = rewind_to, op_reset = decoder_reset,
     op_n_past = de_n_past, op_last_margins = de_margins, op_max_batch = dc_max_batch c\<rparr>"

definition op_step :: "'d decoder_ops \<Rightarrow> tok \<Rightarrow> 'd \<Rightarrow> dec_error + 'd \<times> tok" where
  "op_step ops t d = (case op_step_batch ops [t] d of Inl e \<Rightarrow> Inl e | Inr (d', outs) \<Rightarrow> Inr (d', outs ! 0))"

section \<open>Plain generation\<close>

fun feed :: "'d decoder_ops \<Rightarrow> tok list \<Rightarrow> 'd \<Rightarrow> tok \<Rightarrow> dec_error + 'd \<times> tok" where
  "feed ops [] d nx = Inr (d, nx)"
| "feed ops (t # ts) d nx = (case op_step ops t d of Inl e \<Rightarrow> Inl e | Inr (d', nx') \<Rightarrow> feed ops ts d' nx')"

fun plain_loop :: "'d decoder_ops \<Rightarrow> nat \<Rightarrow> 'd \<Rightarrow> tok \<Rightarrow> tok list \<Rightarrow> dec_error + tok list" where
  "plain_loop ops 0 d nx out = Inr out"
| "plain_loop ops (Suc n) d nx out =
    (case op_step ops nx d of Inl e \<Rightarrow> Inl e | Inr (d', nx') \<Rightarrow> plain_loop ops n d' nx' (out @ [nx]))"

definition plain_decode :: "'d decoder_ops \<Rightarrow> tok list \<Rightarrow> nat \<Rightarrow> 'd \<Rightarrow> dec_error + tok list" where
  "plain_decode ops ids n_gen d =
    (case feed ops ids (op_reset ops d) 0 of Inl e \<Rightarrow> Inl e | Inr (d', nx) \<Rightarrow> plain_loop ops n_gen d' nx [])"

section \<open>Speculative generation\<close>

text \<open>The prompt in chunks of the largest batch.\<close>

function prefill :: "'d decoder_ops \<Rightarrow> tok list \<Rightarrow> 'd \<Rightarrow> tok \<Rightarrow> dec_error + 'd \<times> tok" where
  "prefill ops ids d nx =
    (if ids = [] then Inr (d, nx)
     else let m = min (length ids) (op_max_batch ops)
       in if m = 0 then Inl BadBatch
          else case op_step_batch ops (take m ids) d of Inl e \<Rightarrow> Inl e
            | Inr (d', outs) \<Rightarrow> prefill ops (drop m ids) d' (outs ! (m - 1)))"
  by pat_completeness auto
termination by (relation "measure (\<lambda>(ops, ids, d, nx). length ids)") auto

declare prefill.simps [simp del]

record spec_opts =
  so_max :: nat
  so_fixed :: int
  so_tau :: f32

record 'd spec_state =
  ss_dec :: 'd
  ss_out :: "tok list"
  ss_next :: tok
  ss_idx :: suffix_index
  ss_ctl :: spec_ctl

text \<open>The draft length of a round, clamped to \<open>spec_max\<close>.\<close>

definition wanted :: "spec_opts \<Rightarrow> spec_ctl \<Rightarrow> int \<times> spec_ctl" where
  "wanted o' ctl =
    (let (want, ctl) = (if 0 \<le> so_fixed o' then (so_fixed o', ctl) else spec_choose ctl)
     in (if int (so_max o') < want then int (so_max o') else want, ctl))"

text \<open>\<open>while (a < nd && outs[a] == draft[a]) a++;\<close>\<close>

fun accept_len :: "tok list \<Rightarrow> tok list \<Rightarrow> nat" where
  "accept_len (d # ds) (o' # os) = (if o' = d then Suc (accept_len ds os) else 0)"
| "accept_len _ _ = 0"

text \<open>The margin gate: the first accepted position, after position 0, whose margin is at most tau.\<close>

definition gated_accept :: "f32 \<Rightarrow> f32 list \<Rightarrow> nat \<Rightarrow> nat \<times> bool" where
  "gated_accept tau mg a =
    (if f32_lt 0 tau \<and> 0 < a
     then case filter (\<lambda>p. f32_lt (mg ! p) tau \<or> f32_key (mg ! p) = f32_key tau \<and> f32_ok (mg ! p) \<and> f32_ok tau) [1..<a] of
            [] \<Rightarrow> (a, False) | p # _ \<Rightarrow> (p, True)
     else (a, False))"

text \<open>
  The end of a round, after the pass returned \<open>outs\<close> for the pending token and the draft: accept,
  gate, emit, choose the next pending token, rewind. \<open>ms\<close> is the wall time of the pass.
\<close>

definition settle :: "'d decoder_ops \<Rightarrow> spec_opts \<Rightarrow> nat \<Rightarrow> f64 \<Rightarrow> nat \<Rightarrow> tok list \<Rightarrow> tok list \<Rightarrow> 'd spec_state
    \<Rightarrow> dec_error + 'd spec_state" where
  "settle ops o' n_gen ms base draft outs s =
    (let (a, trunc) = gated_accept (so_tau o') (op_last_margins ops (ss_dec s)) (accept_len draft outs);
         emitted = take (min a (n_gen - length (ss_out s))) draft;
         next = (if trunc then draft ! (a - 1) else outs ! a)
     in (case op_rewind_to ops (if trunc then base + a else base + a + 1) (ss_dec s) of
           Inl e \<Rightarrow> Inl e
         | Inr d \<Rightarrow> Inr \<lparr>ss_dec = d, ss_out = ss_out s @ emitted, ss_next = next, ss_idx = fold suffix_push emitted (ss_idx s),
             ss_ctl = (if so_fixed o' < 0 then observe (int (length draft)) (int a) ms (ss_ctl s) else ss_ctl s)\<rparr>))"

text \<open>One round: emit the pending token, draft, verify in one pass, settle.\<close>

definition spec_round :: "'d decoder_ops \<Rightarrow> spec_opts \<Rightarrow> nat \<Rightarrow> f64 \<Rightarrow> 'd spec_state \<Rightarrow> dec_error + 'd spec_state" where
  "spec_round ops o' n_gen ms s =
    (let out = ss_out s @ [ss_next s]
     in if n_gen \<le> length out then Inr (s\<lparr>ss_out := out\<rparr>)
        else
          let idx = suffix_push (ss_next s) (ss_idx s);
              (want, ctl) = wanted o' (ss_ctl s);
              draft = (if 0 < want then fst (suffix_draft idx want) else []);
              base = op_n_past ops (ss_dec s)
          in case op_step_batch ops (ss_next s # draft) (ss_dec s) of
               Inl e \<Rightarrow> Inl e
             | Inr (d, outs) \<Rightarrow>
                 settle ops o' n_gen ms base draft outs
                   \<lparr>ss_dec = d, ss_out = out, ss_next = ss_next s, ss_idx = idx, ss_ctl = ctl\<rparr>)"

lemma settle_grows: "settle ops o' n_gen ms base draft outs s = Inr s' \<Longrightarrow> length (ss_out s) \<le> length (ss_out s')"
  by (auto simp: settle_def Let_def split: sum.splits prod.splits)

lemma spec_round_grows:
  "spec_round ops o' n_gen ms s = Inr s' \<Longrightarrow> length (ss_out s) < length (ss_out s')"
  by (auto simp: spec_round_def Let_def dest!: settle_grows split: if_splits sum.splits prod.splits)

text \<open>The loop; \<open>ms r\<close> is the wall time of round \<open>r\<close>.\<close>

function spec_loop :: "'d decoder_ops \<Rightarrow> spec_opts \<Rightarrow> nat \<Rightarrow> (nat \<Rightarrow> f64) \<Rightarrow> nat \<Rightarrow> 'd spec_state \<Rightarrow> dec_error + 'd spec_state" where
  "spec_loop ops o' n_gen ms r s =
    (if n_gen \<le> length (ss_out s) then Inr s
     else case spec_round ops o' n_gen (ms r) s of Inl e \<Rightarrow> Inl e | Inr s' \<Rightarrow> spec_loop ops o' n_gen ms (Suc r) s')"
  by pat_completeness auto
termination
  by (relation "measure (\<lambda>(ops, o', n_gen, ms, r, s). n_gen - length (ss_out s))")
    (auto dest!: spec_round_grows intro: diff_less_mono2)

declare spec_loop.simps [simp del]

definition spec_decode :: "'d decoder_ops \<Rightarrow> spec_opts \<Rightarrow> suffix_index \<Rightarrow> spec_ctl \<Rightarrow> (nat \<Rightarrow> f64) \<Rightarrow> tok list \<Rightarrow> nat \<Rightarrow> 'd
    \<Rightarrow> dec_error + tok list" where
  "spec_decode ops o' idx ctl ms ids n_gen d =
    (case prefill ops ids (op_reset ops d) 0 of Inl e \<Rightarrow> Inl e
     | Inr (d', nx) \<Rightarrow>
         (case spec_loop ops o' n_gen ms 0
             \<lparr>ss_dec = d', ss_out = [], ss_next = nx, ss_idx = fold suffix_push ids idx, ss_ctl = ctl\<rparr> of
            Inl e \<Rightarrow> Inl e | Inr s \<Rightarrow> Inr (ss_out s)))"

text \<open>
  The calibration run: the continuation is read from a file and fed in passes of \<open>mw\<close> tokens; a row
  of the result is a position, whether it is intermediate, its argmax and its margin. \<open>mw\<close> is at
  least two when the run is meant to advance.
\<close>

type_synonym cal_row = "nat \<times> bool \<times> tok \<times> f32"

function forced_loop :: "'d decoder_ops \<Rightarrow> nat \<Rightarrow> tok list \<Rightarrow> nat \<Rightarrow> tok \<Rightarrow> 'd \<Rightarrow> cal_row list \<Rightarrow> dec_error + 'd \<times> cal_row list" where
  "forced_loop ops mw forced fi cur d rows =
    (if length forced \<le> fi then Inr (d, rows)
     else let m = min mw (length forced - fi + 1);
              toks = cur # take (m - 1) (drop fi forced);
              base = op_n_past ops d
          in case op_step_batch ops toks d of Inl e \<Rightarrow> Inl e
           | Inr (d, outs) \<Rightarrow>
               (let rows = rows @ map (\<lambda>p. (base + p, p < m - 1, outs ! p, op_last_margins ops d ! p)) [0..<m]
                in if m - 1 = 0 then Inr (d, rows)
                   else (case op_rewind_to ops (base + m) d of Inl e \<Rightarrow> Inl e
                     | Inr d \<Rightarrow> forced_loop ops mw forced (fi + (m - 1)) (forced ! (fi + (m - 1) - 1)) d rows)))"
  by pat_completeness auto
termination by (relation "measure (\<lambda>(ops, mw, forced, fi, cur, d, rows). length forced - fi)") auto

declare forced_loop.simps [simp del]

text \<open>The clamps of \<open>main\<close> on the draft length, and the batch the decoder is created with.\<close>

definition clamp_spec :: "int \<Rightarrow> int \<Rightarrow> nat" where
  "clamp_spec spec_max spec_fixed =
    (let s = (if 0 \<le> spec_fixed \<and> spec_max < spec_fixed then spec_fixed else spec_max);
         s = (if s < 1 then 1 else s)
     in nat (if 15 < s then 15 else s))"

lemma wanted_le: "fst (wanted o' ctl) \<le> int (so_max o')"
  by (auto simp: wanted_def Let_def split: prod.splits)

lemma suffix_draft_length: "length (fst (suffix_draft x n)) \<le> nat n"
  by (auto simp: suffix_draft_def Let_def split: option.splits prod.splits)

lemma accept_len_le: "accept_len ds os \<le> length ds"
  by (induction ds os rule: accept_len.induct) auto

lemma accept_len_nth: "i < accept_len ds os \<Longrightarrow> ds ! i = os ! i"
proof (induction ds os arbitrary: i rule: accept_len.induct)
  case (1 d ds q os) then show ?case by (cases i) (auto split: if_splits)
qed auto

section \<open>The contract of a decoder\<close>

text \<open>The greedy continuation of a context.\<close>

fun greedy_toks :: "(tok list \<Rightarrow> tok) \<Rightarrow> tok list \<Rightarrow> nat \<Rightarrow> tok list" where
  "greedy_toks nxt ids 0 = []"
| "greedy_toks nxt ids (Suc n) = greedy_toks nxt ids n @ [nxt (ids @ greedy_toks nxt ids n)]"

lemma greedy_toks_length [simp]: "length (greedy_toks nxt ids n) = n"
  by (induction n) auto

lemma greedy_toks_take: "k \<le> n \<Longrightarrow> take k (greedy_toks nxt ids n) = greedy_toks nxt ids k"
  by (induction n) (auto simp: le_Suc_eq)

locale decoder_contract =
  fixes ops :: "'d decoder_ops" and holds :: "'d \<Rightarrow> tok list \<Rightarrow> bool" and nxt :: "tok list \<Rightarrow> tok" and cap :: nat
  assumes reset: "holds (op_reset ops d) []"
    and step: "holds d ts \<Longrightarrow> toks \<noteq> [] \<Longrightarrow> length toks \<le> op_max_batch ops \<Longrightarrow> length ts + length toks \<le> cap \<Longrightarrow>
      \<exists>d'. op_step_batch ops toks d = Inr (d', map (\<lambda>p. nxt (ts @ take (Suc p) toks)) [0..<length toks]) \<and> holds d' (ts @ toks)"
    and full: "holds d ts \<Longrightarrow> toks \<noteq> [] \<Longrightarrow> length toks \<le> op_max_batch ops \<Longrightarrow> cap < length ts + length toks \<Longrightarrow>
      op_step_batch ops toks d = Inl KvFull"
    and rewind: "holds d ts \<Longrightarrow> k \<le> length ts \<Longrightarrow> \<exists>d'. op_rewind_to ops k d = Inr d' \<and> holds d' (take k ts)"
    and n_past: "holds d ts \<Longrightarrow> op_n_past ops d = length ts"
    and bounded: "holds d ts \<Longrightarrow> length ts \<le> cap"
    and batch: "0 < op_max_batch ops"

begin

lemma op_step_holds:
  assumes "holds d ts" "length ts < cap"
  shows "\<exists>d'. op_step ops t d = Inr (d', nxt (ts @ [t])) \<and> holds d' (ts @ [t])"
proof -
  have "[t] \<noteq> []" "length [t] \<le> op_max_batch ops" "length ts + length [t] \<le> cap" using assms(2) batch by auto
  from step [OF assms(1) this] show ?thesis by (auto simp: op_step_def)
qed

lemma op_step_full: "holds d ts \<Longrightarrow> length ts = cap \<Longrightarrow> op_step ops t d = Inl KvFull"
  using full [of d ts "[t]"] batch by (auto simp: op_step_def)

lemma feed_holds:
  assumes "holds d ts" "length ts + length us \<le> cap"
  shows "\<exists>d'. feed ops us d nx = Inr (d', if us = [] then nx else nxt (ts @ us)) \<and> holds d' (ts @ us)"
  using assms
proof (induction us arbitrary: d ts nx)
  case (Cons u us)
  from op_step_holds [OF Cons.prems(1), of u] Cons.prems(2) obtain d1 where
    1: "op_step ops u d = Inr (d1, nxt (ts @ [u]))" "holds d1 (ts @ [u])" by auto
  from Cons.IH [OF 1(2), of "nxt (ts @ [u])"] Cons.prems(2) 1(1) show ?case by auto
qed simp

lemma plain_loop_greedy:
  assumes "holds d (ids @ greedy_toks nxt ids k)" "nx = nxt (ids @ greedy_toks nxt ids k)" "out = greedy_toks nxt ids k"
    "length ids + k + n \<le> cap"
  shows "plain_loop ops n d nx out = Inr (greedy_toks nxt ids (k + n))"
  using assms
proof (induction n arbitrary: d k nx out)
  case (Suc n)
  from op_step_holds [OF Suc.prems(1), of nx] Suc.prems(4) obtain d' where
    d': "op_step ops nx d = Inr (d', nxt ((ids @ greedy_toks nxt ids k) @ [nx]))" "holds d' ((ids @ greedy_toks nxt ids k) @ [nx])"
    by auto
  have e: "(ids @ greedy_toks nxt ids k) @ [nx] = ids @ greedy_toks nxt ids (Suc k)" using Suc.prems(2) by simp
  have "plain_loop ops n d' (nxt (ids @ greedy_toks nxt ids (Suc k))) (out @ [nx]) = Inr (greedy_toks nxt ids (Suc k + n))"
    by (rule Suc.IH) (use d'(2) Suc.prems e in auto)
  then show ?case using d'(1) e by simp
qed simp

lemma plain_loop_full:
  assumes "holds d ts" "cap < length ts + n"
  shows "plain_loop ops n d nx out = Inl KvFull"
  using assms
proof (induction n arbitrary: d ts nx out)
  case 0 then show ?case using bounded [of d ts] by simp
next
  case (Suc n)
  show ?case
  proof (cases "length ts < cap")
    case True
    from op_step_holds [OF Suc.prems(1) True, of nx] obtain d' where
      d': "op_step ops nx d = Inr (d', nxt (ts @ [nx]))" "holds d' (ts @ [nx])" by auto
    from Suc.IH [OF d'(2)] Suc.prems(2) d'(1) show ?thesis by simp
  next
    case False
    with op_step_full [OF Suc.prems(1)] bounded [OF Suc.prems(1)] show ?thesis by simp
  qed
qed

lemma plain_decode_greedy:
  assumes "ids \<noteq> []" "length ids + n_gen \<le> cap"
  shows "plain_decode ops ids n_gen d = Inr (greedy_toks nxt ids n_gen)"
proof -
  from feed_holds [OF reset [of d], of ids 0] assms obtain d' where
    d': "feed ops ids (op_reset ops d) 0 = Inr (d', nxt ids)" "holds d' ids" by auto
  from plain_loop_greedy [of d' ids 0 "nxt ids" "[]" n_gen] d'(2) assms(2) have
    "plain_loop ops n_gen d' (nxt ids) [] = Inr (greedy_toks nxt ids n_gen)" by simp
  then show ?thesis using d'(1) by (simp add: plain_decode_def)
qed

lemma prefill_holds:
  assumes "holds d ts" "length ts + length us \<le> cap"
  shows "\<exists>d'. prefill ops us d nx = Inr (d', if us = [] then nx else nxt (ts @ us)) \<and> holds d' (ts @ us)"
  using assms
proof (induction "length us" arbitrary: us d ts nx rule: less_induct)
  case less
  show ?case
  proof (cases "us = []")
    case True then show ?thesis using less.prems by (simp add: prefill.simps)
  next
    case False
    define m where "m = min (length us) (op_max_batch ops)"
    have m: "0 < m" "m \<le> length us" "length (take m us) = m" using False batch by (auto simp: m_def)
    have t: "take m us \<noteq> []" "length (take m us) \<le> op_max_batch ops" "length ts + length (take m us) \<le> cap"
      using m less.prems(2) False by (auto simp: m_def)
    from step [OF less.prems(1) t] m obtain d1 where
      d1: "op_step_batch ops (take m us) d = Inr (d1, map (\<lambda>p. nxt (ts @ take (Suc p) (take m us))) [0..<m])"
        "holds d1 (ts @ take m us)" by auto
    have nx: "map (\<lambda>p. nxt (ts @ take (Suc p) (take m us))) [0..<m] ! (m - 1) = nxt (ts @ take m us)"
      using m by simp
    have un: "prefill ops us d nx = prefill ops (drop m us) d1 (nxt (ts @ take m us))"
      using False m d1(1) nx by (subst prefill.simps) (simp add: Let_def m_def [symmetric])
    have "length (drop m us) < length us" "length (ts @ take m us) + length (drop m us) \<le> cap"
      using m less.prems(2) by auto
    from less.hyps [OF this(1) d1(2) this(2), of "nxt (ts @ take m us)"] obtain d2 where
      d2: "prefill ops (drop m us) d1 (nxt (ts @ take m us)) = Inr (d2, if drop m us = [] then nxt (ts @ take m us) else nxt ((ts @ take m us) @ drop m us))"
        "holds d2 ((ts @ take m us) @ drop m us)" by auto
    show ?thesis using un d2 False m by (cases "drop m us = []") auto
  qed
qed

lemma accept_len_greedy:
  assumes t: "t = nxt (ids @ greedy_toks nxt ids k)"
    and outs: "outs = map (\<lambda>p. nxt ((ids @ greedy_toks nxt ids k) @ take (Suc p) (t # draft))) [0..<Suc (length draft)]"
    and a: "a \<le> accept_len draft outs"
  shows "(ids @ greedy_toks nxt ids k) @ t # take a draft = ids @ greedy_toks nxt ids (Suc k + a)"
    "outs ! a = nxt (ids @ greedy_toks nxt ids (Suc k + a))"
proof -
  have "(ids @ greedy_toks nxt ids k) @ t # take a draft = ids @ greedy_toks nxt ids (Suc k + a)
    \<and> outs ! a = nxt (ids @ greedy_toks nxt ids (Suc k + a))" using a
  proof (induction a)
    case 0 then show ?case using t by (simp add: outs nth_append del: upt_Suc)
  next
    case (Suc a)
    then have IH: "(ids @ greedy_toks nxt ids k) @ t # take a draft = ids @ greedy_toks nxt ids (Suc k + a)"
      "outs ! a = nxt (ids @ greedy_toks nxt ids (Suc k + a))" by auto
    have l: "a < length draft" using Suc.prems accept_len_le [of draft outs] by simp
    have da: "draft ! a = nxt (ids @ greedy_toks nxt ids (Suc k + a))" using accept_len_nth [of a draft outs] Suc.prems IH(2) by simp
    have "(ids @ greedy_toks nxt ids k) @ t # take (Suc a) draft = ((ids @ greedy_toks nxt ids k) @ t # take a draft) @ [draft ! a]"
      using l by (simp add: take_Suc_conv_app_nth)
    also have "\<dots> = ids @ greedy_toks nxt ids (Suc k + Suc a)" unfolding IH(1) da by simp
    finally have e: "(ids @ greedy_toks nxt ids k) @ t # take (Suc a) draft = ids @ greedy_toks nxt ids (Suc k + Suc a)" .
    have "outs ! Suc a = nxt ((ids @ greedy_toks nxt ids k) @ take (Suc (Suc a)) (t # draft))"
      unfolding outs using l by (subst nth_map) (simp_all del: upt_Suc take_Suc_Cons)
    with e show ?case by simp
  qed
  then show "(ids @ greedy_toks nxt ids k) @ t # take a draft = ids @ greedy_toks nxt ids (Suc k + a)"
    "outs ! a = nxt (ids @ greedy_toks nxt ids (Suc k + a))" by auto
qed

text \<open>What a round leaves: a longer greedy prefix, and unless it is complete, the context it stands for.\<close>

definition at_prefix :: "tok list \<Rightarrow> nat \<Rightarrow> nat \<Rightarrow> 'd spec_state \<Rightarrow> bool" where
  "at_prefix ids n k s \<longleftrightarrow> ss_out s = greedy_toks nxt ids k \<and> k \<le> n
    \<and> (k < n \<longrightarrow> ss_next s = nxt (ids @ greedy_toks nxt ids k) \<and> holds (ss_dec s) (ids @ greedy_toks nxt ids k))"

lemma spec_round_greedy:
  assumes tau: "\<not> f32_lt 0 (so_tau o')" and mx: "so_max o' < op_max_batch ops"
    and s: "at_prefix ids n k s" and k: "k < n"
  shows "(spec_round ops o' n ms s = Inl KvFull \<and> cap + 1 < length ids + n + so_max o')
    \<or> (\<exists>s' k'. spec_round ops o' n ms s = Inr s' \<and> k < k' \<and> at_prefix ids n k' s')"
proof -
  define t where "t = ss_next s"
  define ctx where "ctx = ids @ greedy_toks nxt ids k"
  have t: "t = nxt ctx" and h: "holds (ss_dec s) ctx" and o: "ss_out s = greedy_toks nxt ids k"
    using s k by (auto simp: at_prefix_def t_def ctx_def)
  have out: "ss_out s @ [t] = greedy_toks nxt ids (Suc k)" using o t by (simp add: ctx_def)
  show ?thesis
  proof (cases "n \<le> Suc k")
    case True
    have "spec_round ops o' n ms s = Inr (s\<lparr>ss_out := greedy_toks nxt ids (Suc k)\<rparr>)"
      using True out by (simp add: spec_round_def t_def [symmetric])
    moreover have "at_prefix ids n (Suc k) (s\<lparr>ss_out := greedy_toks nxt ids (Suc k)\<rparr>)" using True k by (simp add: at_prefix_def)
    ultimately show ?thesis by (metis lessI)
  next
    case False
    define ix where "ix = suffix_push t (ss_idx s)"
    obtain want ctl where w: "wanted o' (ss_ctl s) = (want, ctl)" by fastforce
    define draft where "draft = (if 0 < want then fst (suffix_draft ix want) else [])"
    define nd where "nd = length draft"
    have "want \<le> int (so_max o')" using wanted_le [of o' "ss_ctl s"] w by simp
    then have nd: "nd \<le> so_max o'" using suffix_draft_length [of ix want] by (auto simp: nd_def draft_def)
    have base: "op_n_past ops (ss_dec s) = length ctx" using n_past [OF h] .
    have lctx: "length ctx = length ids + k" by (simp add: ctx_def)
    have nn: "t # draft \<noteq> []" "length (t # draft) \<le> op_max_batch ops" using nd mx by (auto simp: nd_def)
    have rd: "spec_round ops o' n ms s = (case op_step_batch ops (t # draft) (ss_dec s) of Inl e \<Rightarrow> Inl e
      | Inr (d, outs) \<Rightarrow> settle ops o' n ms (length ctx) draft outs
          \<lparr>ss_dec = d, ss_out = greedy_toks nxt ids (Suc k), ss_next = t, ss_idx = ix, ss_ctl = ctl\<rparr>)"
      unfolding spec_round_def Let_def t_def [symmetric] out ix_def [symmetric] w prod.case draft_def [symmetric] base
      using False by simp
    show ?thesis
    proof (cases "length ctx + length (t # draft) \<le> cap")
      case False
      then have "op_step_batch ops (t # draft) (ss_dec s) = Inl KvFull" by (intro full [OF h nn]) simp
      then have "spec_round ops o' n ms s = Inl KvFull" by (simp add: rd)
      moreover have "cap + 1 < length ids + n + so_max o'" using False \<open>\<not> n \<le> Suc k\<close> nd by (simp add: lctx nd_def)
      ultimately show ?thesis by blast
    next
      case True
      define outs where "outs = map (\<lambda>p. nxt (ctx @ take (Suc p) (t # draft))) [0..<Suc nd]"
      define a where "a = accept_len draft outs"
      define em where "em = take (min a (n - Suc k)) draft"
      from step [OF h nn True] obtain d1 where d1: "op_step_batch ops (t # draft) (ss_dec s) = Inr (d1, outs)"
        "holds d1 (ctx @ t # draft)" by (auto simp: outs_def nd_def)
      have a: "a \<le> nd" using accept_len_le [of draft outs] by (simp add: a_def nd_def)
      have acc: "ctx @ t # take b draft = ids @ greedy_toks nxt ids (Suc k + b)"
        "outs ! b = nxt (ids @ greedy_toks nxt ids (Suc k + b))" if "b \<le> a" for b
        using accept_len_greedy [of t ids k outs draft b] that t by (simp_all add: ctx_def outs_def nd_def a_def)
      have "length ctx + a + 1 \<le> length (ctx @ t # draft)" using a by (simp add: nd_def)
      from rewind [OF d1(2) this] obtain d2 where d2: "op_rewind_to ops (length ctx + a + 1) d1 = Inr d2"
        "holds d2 (ctx @ t # take a draft)" by auto
      define s' where "s' = \<lparr>ss_dec = d2, ss_out = greedy_toks nxt ids (Suc k) @ em, ss_next = outs ! a, ss_idx = fold suffix_push em ix,
               ss_ctl = if so_fixed o' < 0 then observe (int nd) (int a) ms ctl else ctl\<rparr>"
      have r: "spec_round ops o' n ms s = Inr s'"
        unfolding rd d1(1) sum.case prod.case settle_def Let_def spec_state.simps gated_accept_def
        using tau d2(1) by (simp add: a_def [symmetric] em_def s'_def nd_def del: greedy_toks.simps)
      define b where "b = min a (n - Suc k)"
      have "ids @ greedy_toks nxt ids (Suc k) @ take b draft = ids @ greedy_toks nxt ids (Suc k + b)"
      proof -
        have "b \<le> a" by (simp add: b_def)
        have "ctx @ t # take b draft = (ctx @ [t]) @ take b draft" by simp
        also have "ctx @ [t] = ids @ greedy_toks nxt ids (Suc k)" using acc(1) [of 0] by simp
        finally show ?thesis using acc(1) [OF \<open>b \<le> a\<close>] by (metis append_assoc)
      qed
      then have os: "ss_out s' = greedy_toks nxt ids (Suc k + b)" by (simp add: s'_def em_def b_def)
      have "at_prefix ids n (Suc k + b) s'"
        unfolding at_prefix_def
      proof (intro conjI impI)
        show "ss_out s' = greedy_toks nxt ids (Suc k + b)" by (rule os)
        show "Suc k + b \<le> n" using k by (simp add: b_def)
        assume "Suc k + b < n"
        then have ba: "b = a" by (auto simp: b_def)
        show "ss_next s' = nxt (ids @ greedy_toks nxt ids (Suc k + b))" using acc(2) [of a] by (simp add: s'_def ba)
        show "holds (ss_dec s') (ids @ greedy_toks nxt ids (Suc k + b))" using d2(2) acc(1) [of a] by (simp add: s'_def ba)
      qed
      with r show ?thesis by (intro disjI2 exI [of _ s'] exI [of _ "Suc k + b"]) simp
    qed
  qed
qed

lemma spec_loop_greedy:
  assumes tau: "\<not> f32_lt 0 (so_tau o')" and mx: "so_max o' < op_max_batch ops" and s: "at_prefix ids n k s"
  shows "(spec_loop ops o' n ms r s = Inl KvFull \<and> cap + 1 < length ids + n + so_max o')
    \<or> (\<exists>s'. spec_loop ops o' n ms r s = Inr s' \<and> ss_out s' = greedy_toks nxt ids n)"
  using s
proof (induction "n - k" arbitrary: k s r rule: less_induct)
  case less
  have l: "length (ss_out s) = k" "k \<le> n" using less.prems by (auto simp: at_prefix_def)
  show ?case
  proof (cases "k = n")
    case True then show ?thesis using l less.prems by (subst (1 2) spec_loop.simps) (simp add: at_prefix_def)
  next
    case False
    then have kn: "k < n" using l by simp
    have un: "spec_loop ops o' n ms r s = (case spec_round ops o' n (ms r) s of Inl e \<Rightarrow> Inl e | Inr s' \<Rightarrow> spec_loop ops o' n ms (Suc r) s')"
      using kn l by (subst spec_loop.simps) simp
    from spec_round_greedy [OF tau mx less.prems kn, of "ms r"] show ?thesis
    proof
      assume "spec_round ops o' n (ms r) s = Inl KvFull \<and> cap + 1 < length ids + n + so_max o'"
      then show ?thesis by (simp add: un)
    next
      assume "\<exists>s' k'. spec_round ops o' n (ms r) s = Inr s' \<and> k < k' \<and> at_prefix ids n k' s'"
      then obtain s' k' where s': "spec_round ops o' n (ms r) s = Inr s'" "k < k'" "at_prefix ids n k' s'" by blast
      have "n - k' < n - k" using s'(2) kn by simp
      from less.hyps [OF this s'(3), of "Suc r"] show ?thesis by (simp add: un s'(1))
    qed
  qed
qed

text \<open>The speculative generation is the plain one, or dies on a full cache near its end.\<close>

lemma spec_decode_greedy:
  assumes tau: "\<not> f32_lt 0 (so_tau o')" and mx: "so_max o' < op_max_batch ops"
    and ids: "ids \<noteq> []" "length ids + n \<le> cap"
  shows "spec_decode ops o' idx ctl ms ids n d = Inr (greedy_toks nxt ids n)
    \<or> (spec_decode ops o' idx ctl ms ids n d = Inl KvFull \<and> cap + 1 < length ids + n + so_max o')"
proof -
  from prefill_holds [OF reset [of d], of ids 0] ids obtain d' where
    d': "prefill ops ids (op_reset ops d) 0 = Inr (d', nxt ids)" "holds d' ids" by auto
  define s where "s = \<lparr>ss_dec = d', ss_out = [], ss_next = nxt ids, ss_idx = fold suffix_push ids idx, ss_ctl = ctl\<rparr>"
  have "at_prefix ids n 0 s" using d'(2) by (simp add: at_prefix_def s_def)
  from spec_loop_greedy [OF tau mx this, of ms 0] d'(1) show ?thesis by (auto simp: spec_decode_def s_def)
qed

end

section \<open>The decoder keeps the contract\<close>

text \<open>The configuration without expert truncation, and with the at least one graph \<open>load\<close> builds.\<close>

definition exact_cfg :: "decoder_cfg \<Rightarrow> decoder_cfg" where
  "exact_cfg c = c\<lparr>dc_approx_k := 0, dc_max_batch := max 1 (dc_max_batch c)\<rparr>"

lemma exact_cfg_id: "dc_approx_k c = 0 \<Longrightarrow> 0 < dc_max_batch c \<Longrightarrow> exact_cfg c = c"
  by (cases c) (simp add: exact_cfg_def)

definition holds_within :: "decoder_cfg \<Rightarrow> decoder \<Rightarrow> tok list \<Rightarrow> bool" where
  "holds_within c d ts \<longleftrightarrow> holds_ctx c d ts \<and> length ts \<le> dc_max_kv c"

lemmas decoder_impl_simps = decoder_impl_def decoder_ops.simps

interpretation dec: decoder_contract "decoder_impl (exact_cfg c)" "holds_within (exact_cfg c)" "next_tok (exact_cfg c)"
  "dc_max_kv (exact_cfg c)" for c
proof
  have ex: "dc_approx_k (exact_cfg c) = 0" by (simp add: exact_cfg_def)
  show "holds_within (exact_cfg c) (op_reset (decoder_impl (exact_cfg c)) d) []" for d
    by (simp add: holds_within_def decoder_impl_simps reset_holds)
  show "\<exists>d'. op_step_batch (decoder_impl (exact_cfg c)) toks d
        = Inr (d', map (\<lambda>p. next_tok (exact_cfg c) (ts @ take (Suc p) toks)) [0..<length toks])
      \<and> holds_within (exact_cfg c) d' (ts @ toks)"
    if "holds_within (exact_cfg c) d ts" "toks \<noteq> []" "length toks \<le> op_max_batch (decoder_impl (exact_cfg c))"
      "length ts + length toks \<le> dc_max_kv (exact_cfg c)" for d ts toks
    using step_batch_holds [OF ex _ that(2) _ that(4), of d] that by (auto simp: holds_within_def decoder_impl_simps)
  show "op_step_batch (decoder_impl (exact_cfg c)) toks d = Inl KvFull"
    if "holds_within (exact_cfg c) d ts" "toks \<noteq> []" "length toks \<le> op_max_batch (decoder_impl (exact_cfg c))"
      "dc_max_kv (exact_cfg c) < length ts + length toks" for d ts toks
    using step_batch_full [OF _ that(2) _ that(4), of d] that by (auto simp: holds_within_def decoder_impl_simps)
  show "\<exists>d'. op_rewind_to (decoder_impl (exact_cfg c)) k d = Inr d' \<and> holds_within (exact_cfg c) d' (take k ts)"
    if "holds_within (exact_cfg c) d ts" "k \<le> length ts" for d ts k
    using rewind_holds [OF _ that(2), of "exact_cfg c" d] that by (auto simp: holds_within_def decoder_impl_simps)
  show "op_n_past (decoder_impl (exact_cfg c)) d = length ts" if "holds_within (exact_cfg c) d ts" for d ts
    using that by (simp add: holds_within_def decoder_impl_simps holds_ctx_def)
  show "length ts \<le> dc_max_kv (exact_cfg c)" if "holds_within (exact_cfg c) d ts" for d ts
    using that by (simp add: holds_within_def)
  show "0 < op_max_batch (decoder_impl (exact_cfg c))" by (simp add: decoder_impl_simps exact_cfg_def)
qed

section \<open>Properties\<close>

text \<open>The positions of a batch fed one by one.\<close>

fun one_by_one :: "'d decoder_ops \<Rightarrow> tok list \<Rightarrow> 'd \<Rightarrow> dec_error + 'd \<times> tok list" where
  "one_by_one ops [] d = Inr (d, [])"
| "one_by_one ops (t # ts) d = (case op_step ops t d of Inl e \<Rightarrow> Inl e
    | Inr (d', nx) \<Rightarrow> (case one_by_one ops ts d' of Inl e \<Rightarrow> Inl e | Inr (d'', outs) \<Rightarrow> Inr (d'', nx # outs)))"

context decoder_contract
begin

lemma one_by_one_holds:
  assumes "holds d ts" "length ts + length us \<le> cap"
  shows "\<exists>d'. one_by_one ops us d = Inr (d', map (\<lambda>p. nxt (ts @ take (Suc p) us)) [0..<length us]) \<and> holds d' (ts @ us)"
  using assms
proof (induction us arbitrary: d ts)
  case (Cons u us)
  from op_step_holds [OF Cons.prems(1), of u] Cons.prems(2) obtain d1 where
    1: "op_step ops u d = Inr (d1, nxt (ts @ [u]))" "holds d1 (ts @ [u])" by auto
  from Cons.IH [OF 1(2)] Cons.prems(2) obtain d2 where
    2: "one_by_one ops us d1 = Inr (d2, map (\<lambda>p. nxt ((ts @ [u]) @ take (Suc p) us)) [0..<length us])" "holds d2 ((ts @ [u]) @ us)"
    by auto
  have "map (\<lambda>p. nxt (ts @ take (Suc p) (u # us))) [0..<length (u # us)]
    = nxt (ts @ [u]) # map (\<lambda>p. nxt ((ts @ [u]) @ take (Suc p) us)) [0..<length us]"
    by (simp add: upt_conv_Cons map_Suc_upt [symmetric] del: upt_Suc)
  then show ?case using 1(1) 2 by simp
qed simp

lemma forced_loop_holds:
  assumes mw: "2 \<le> mw" "mw \<le> op_max_batch ops" and h: "holds d ts" and room: "length ts + 2 * (length F - fi) \<le> cap"
  shows "\<exists>d' rows' us. forced_loop ops mw F fi cur d rows = Inr (d', rows') \<and> holds d' (ts @ us)
    \<and> (fi < length F \<longrightarrow> (\<exists>vs. us = cur # take (min mw (length F - fi + 1) - 1) (drop fi F) @ vs))"
  using h room
proof (induction "length F - fi" arbitrary: fi cur d ts rows rule: less_induct)
  case less
  show ?case
  proof (cases "length F \<le> fi")
    case True
    then show ?thesis using less.prems by (intro exI [of _ d] exI [of _ rows] exI [of _ "[]"]) (simp add: forced_loop.simps)
  next
    case False
    define m where "m = min mw (length F - fi + 1)"
    define toks where "toks = cur # take (m - 1) (drop fi F)"
    have m: "2 \<le> m" "m \<le> mw" "m \<le> length F - fi + 1" using mw False by (auto simp: m_def)
    then have l: "length toks = m" using False by (simp add: toks_def)
    have "toks \<noteq> []" "length toks \<le> op_max_batch ops" "length ts + length toks \<le> cap"
      using m mw l less.prems(2) by (auto simp: toks_def)
    from step [OF less.prems(1) this] obtain d1 outs where
      d1: "op_step_batch ops toks d = Inr (d1, outs)" "holds d1 (ts @ toks)" by blast
    have bp: "op_n_past ops d = length ts" using n_past [OF less.prems(1)] .
    have "length ts + m \<le> length (ts @ toks)" using l by simp
    from rewind [OF d1(2) this] obtain d2 where
      d2: "op_rewind_to ops (length ts + m) d1 = Inr d2" "holds d2 (ts @ toks)" using l by auto
    define rows1 where "rows1 = rows @ map (\<lambda>p. (length ts + p, p < m - 1, outs ! p, op_last_margins ops d1 ! p)) [0..<m]"
    have "m - 1 \<noteq> 0" using m(1) by simp
    then have un: "forced_loop ops mw F fi cur d rows = forced_loop ops mw F (fi + (m - 1)) (F ! (fi + (m - 1) - 1)) d2 rows1"
      using False by (subst forced_loop.simps)
        (simp only: Let_def m_def [symmetric] toks_def [symmetric] d1(1) bp d2(1) rows1_def if_False sum.case prod.case)
    have "length F - (fi + (m - 1)) < length F - fi" "length (ts @ toks) + 2 * (length F - (fi + (m - 1))) \<le> cap"
      using m l less.prems(2) False by auto
    from less.hyps [OF this(1) d2(2) this(2), of "F ! (fi + (m - 1) - 1)" rows1] obtain d' rows' us where
      r: "forced_loop ops mw F (fi + (m - 1)) (F ! (fi + (m - 1) - 1)) d2 rows1 = Inr (d', rows')" "holds d' ((ts @ toks) @ us)"
      by blast
    have "toks @ us = cur # take (min mw (length F - fi + 1) - 1) (drop fi F) @ us" by (simp only: toks_def m_def append_Cons)
    then show ?thesis using un r by (metis append_assoc)
  qed
qed

text \<open>Two passes of the calibration: the last token of the first is the first of the second.\<close>

lemma forced_refeed:
  assumes mw: "2 \<le> mw" "mw \<le> op_max_batch ops" "mw \<le> length F" and h: "holds d ts" and room: "length ts + 2 * length F \<le> cap"
  shows "\<exists>d' rows' vs. forced_loop ops mw F 0 cur d [] = Inr (d', rows')
    \<and> holds d' (ts @ cur # take (mw - 1) F @ F ! (mw - 2) # vs)"
proof -
  define toks where "toks = cur # take (mw - 1) F"
  have l: "length toks = mw" using mw by (simp add: toks_def)
  have "toks \<noteq> []" "length toks \<le> op_max_batch ops" "length ts + length toks \<le> cap"
    using mw l room by (auto simp: toks_def)
  from step [OF h this] obtain d1 outs where
    d1: "op_step_batch ops toks d = Inr (d1, outs)" "holds d1 (ts @ toks)" by blast
  have "length ts + mw \<le> length (ts @ toks)" using l by simp
  from rewind [OF d1(2) this] obtain d2 where
    d2: "op_rewind_to ops (length ts + mw) d1 = Inr d2" "holds d2 (ts @ toks)" using l by auto
  have m: "min mw (length F - 0 + 1) = mw" using mw by simp
  define rows1 where "rows1 = [] @ map (\<lambda>p. (length ts + p, p < mw - 1, outs ! p, op_last_margins ops d1 ! p)) [0..<mw]"
  have c: "mw - 1 \<noteq> 0" "\<not> length F \<le> 0" using mw by auto
  have un: "forced_loop ops mw F 0 cur d [] = forced_loop ops mw F (0 + (mw - 1)) (F ! (0 + (mw - 1) - 1)) d2 rows1"
    using c by (subst forced_loop.simps)
      (simp only: Let_def m drop_0 toks_def [symmetric] d1(1) n_past [OF h] d2(1) rows1_def if_False sum.case prod.case)
  have "length (ts @ toks) + 2 * (length F - (0 + (mw - 1))) \<le> cap" using mw l room by simp
  from forced_loop_holds [OF mw(1,2) d2(2) this, of "F ! (0 + (mw - 1) - 1)" rows1] obtain d' rows' us where
    r: "forced_loop ops mw F (0 + (mw - 1)) (F ! (0 + (mw - 1) - 1)) d2 rows1 = Inr (d', rows')" "holds d' ((ts @ toks) @ us)"
    and us: "0 + (mw - 1) < length F \<Longrightarrow> \<exists>vs. us = F ! (0 + (mw - 1) - 1) # take (min mw (length F - (0 + (mw - 1)) + 1) - 1) (drop (0 + (mw - 1)) F) @ vs"
    by blast
  have "0 + (mw - 1) < length F" using mw by simp
  from us [OF this] obtain vs where vs: "us = F ! (0 + (mw - 1) - 1) # vs" by blast
  have "0 + (mw - 1) - 1 = mw - 2" by simp
  then show ?thesis using un r vs by (auto simp: toks_def)
qed

lemma plain_loop_runs:
  assumes "holds d ts" "length ts + n \<le> cap"
  shows "\<exists>us. plain_loop ops n d nx out = Inr us"
  using assms
proof (induction n arbitrary: d ts nx out)
  case (Suc n)
  from op_step_holds [OF Suc.prems(1), of nx] Suc.prems(2) obtain d' where
    d': "op_step ops nx d = Inr (d', nxt (ts @ [nx]))" "holds d' (ts @ [nx])" by auto
  from Suc.IH [OF d'(2)] Suc.prems(2) d'(1) show ?case by simp
qed simp

end



text \<open>The speculative loop does not look at the room in the cache. A round whose draft does not fit
  aborts the program with a full cache, although the plain loop completes from the same state.\<close>

theorem spec_round_dies_near_full:
  assumes "dc_approx_k c = 0" "holds_ctx c (ss_dec s) ctx" "length (ss_out s) + 1 < n"
    "wanted o' (ss_ctl s) = (want, ctl)" "0 < want" "fst (suffix_draft (suffix_push (ss_next s) (ss_idx s)) want) = draft"
    "length draft < dc_max_batch c" "dc_max_kv c \<le> length ctx + length draft"
    "length ctx + (n - length (ss_out s)) \<le> dc_max_kv c"
  shows "spec_round (decoder_impl c) o' n ms s = Inl KvFull
    \<and> (\<exists>ts. plain_loop (decoder_impl c) (n - length (ss_out s)) (ss_dec s) (ss_next s) (ss_out s) = Inr ts)"
proof -
  have "0 < dc_max_batch c" using assms(7) by simp
  note e = exact_cfg_id [OF assms(1) this]
  have h: "holds_within c (ss_dec s) ctx" using assms(2,9) by (simp add: holds_within_def)
  have "step_batch c (ss_next s # draft) (ss_dec s) = Inl KvFull"
    by (rule step_batch_full [OF assms(2)]) (use assms in auto)
  then have "spec_round (decoder_impl c) o' n ms s = Inl KvFull"
    using assms(3-6) by (simp add: spec_round_def decoder_impl_simps Let_def)
  moreover have "\<exists>ts. plain_loop (decoder_impl c) (n - length (ss_out s)) (ss_dec s) (ss_next s) (ss_out s) = Inr ts"
    by (rule dec.plain_loop_runs [where c = c, unfolded e, OF h assms(9)])
  ultimately show ?thesis by blast
qed

lemma gated_pos: "gated_accept tau mg a = (b, True) \<Longrightarrow> 0 < b \<and> b < a"
proof -
  assume g: "gated_accept tau mg a = (b, True)"
  define P where "P = (\<lambda>p. f32_lt (mg ! p) tau \<or> f32_key (mg ! p) = f32_key tau \<and> f32_ok (mg ! p) \<and> f32_ok tau)"
  from g obtain ps where "filter P [1..<a] = b # ps"
    unfolding P_def by (auto simp: gated_accept_def split: if_splits list.splits)
  then have "b \<in> set (filter P [1..<a])" by simp
  then show "0 < b \<and> b < a" by auto
qed

text \<open>C31: A margin-gate truncation repeats a token. When the gate fires at position \<open>b\<close>, the \<open>b\<close> accepted
  drafts are emitted and the last of them becomes the pending token, which the next round emits again
  before anything else.\<close>

theorem truncated_round_repeats:
  assumes "gated_accept (so_tau o') (op_last_margins ops (ss_dec s)) (accept_len draft outs) = (b, True)"
    and "length (ss_out s) + b \<le> n" and "settle ops o' n ms base draft outs s = Inr s'"
    and "spec_round ops o' n ms' s' = Inr s''"
  shows "ss_out s' = ss_out s @ take b draft
    \<and> take (length (ss_out s') + 1) (ss_out s'') = ss_out s @ take b draft @ [last (take b draft)]"
proof -
  have b: "0 < b" "b < accept_len draft outs" using gated_pos [OF assms(1)] by auto
  then have bl: "b \<le> length draft" using accept_len_le [of draft outs] by simp
  have m: "min b (n - length (ss_out s)) = b" using assms(2) by simp
  have o1: "ss_out s' = ss_out s @ take b draft" and nx: "ss_next s' = draft ! (b - 1)"
    using assms(3) by (auto simp: settle_def Let_def assms(1) m split: sum.splits)
  have "take b draft \<noteq> []" using b bl by (cases draft) auto
  then have "last (take b draft) = draft ! (b - 1)" using b bl by (simp add: last_conv_nth min_def)
  moreover have "take (length (ss_out s') + 1) (ss_out s'') = ss_out s' @ [ss_next s']"
  proof -
    have st: "take (length (ss_out t)) (ss_out t') = ss_out t" if "settle ops o' n x base draft outs t = Inr t'" for t t' base draft outs x
      using that by (auto simp: settle_def Let_def split: sum.splits prod.splits)
    show ?thesis using assms(4)
      by (auto simp: spec_round_def Let_def dest!: st split: if_splits sum.splits prod.splits)
  qed
  ultimately show ?thesis using o1 nx by simp
qed

text \<open>The calibration run feeds a token twice at every pass boundary. With at least two passes, the
  context the decoder ends with has the last forced token of the first pass once at the end of that
  pass and again at the start of the next, so it is not the prompt followed by the forced stream.\<close>

theorem forced_run_refeeds:
  assumes "dc_approx_k c = 0" "2 \<le> mw" "mw \<le> dc_max_batch c" "mw \<le> length F" "holds_ctx c d ts"
    "length ts + 2 * length F \<le> dc_max_kv c"
  shows "\<exists>d' rows vs. forced_loop (decoder_impl c) mw F 0 cur d [] = Inr (d', rows)
    \<and> holds_ctx c d' (ts @ cur # take (mw - 1) F @ F ! (mw - 2) # vs)"
proof -
  have "0 < dc_max_batch c" using assms(2,3) by simp
  note e = exact_cfg_id [OF assms(1) this]
  have h: "holds_within c d ts" using assms(5,6) by (simp add: holds_within_def)
  have m: "mw \<le> op_max_batch (decoder_impl c)" using assms(3) by (simp add: decoder_impl_simps)
  from dec.forced_refeed [where c = c, unfolded e, OF assms(2) m assms(4) h assms(6), of cur] show ?thesis
    by (auto simp: holds_within_def)
qed

section \<open>Witnesses\<close>

text \<open>The shape of a DeepSeek-V2-Lite decoder with eight graphs and a cache of 4096 positions.\<close>

definition demo_hp :: hparams where
  "demo_hp = \<lparr>hp_n_embd = 2048, hp_n_layer = 27, hp_n_head = 16, hp_n_vocab = 102400, hp_n_dense_lead = 1,
     hp_n_ff_dense = 10944, hp_n_ff_exp = 1408, hp_n_expert = 64, hp_n_used = 6, hp_kv_lora = 512, hp_dk = 192, hp_dv = 128,
     hp_d_rope = 64, hp_d_nope = 128, hp_rms_eps = 0x358637BD, hp_expert_scale = c_1, hp_expert_norm = 0,
     hp_freq_base = 0x461C4000, hp_freq_scale = 0x3CCCCCCD, hp_ext_factor = c_1, hp_attn_factor = c_1,
     hp_beta_fast = 0x42000000, hp_beta_slow = c_1, hp_n_ctx_orig = 4096, hp_kq_scale = 0x3D93CD3A\<rparr>"

definition demo_cfg :: "nat \<Rightarrow> decoder_cfg" where
  "demo_cfg kv = \<lparr>dc_lm = demo_libm, dc_hp = demo_hp, dc_wm = (\<lambda>_. 0),
     dc_w = (\<lambda>_. \<lparr>wt_p = 0, wt_fmt = F32, wt_rows = 1, wt_cols = 1, wt_row_bytes = 4, wt_estride = 0, wt_nexp = 1\<rparr>),
     dc_fast = True, dc_i8_mask = 0, dc_i8k_mask = 0, dc_ub = (\<lambda>_. ([], [])), dc_approx_k = 0, dc_approx_renorm = False,
     dc_max_kv = kv, dc_max_batch = 8\<rparr>"

text \<open>A decoder that holds a given context.\<close>

definition demo_dec :: "decoder_cfg \<Rightarrow> tok list \<Rightarrow> decoder" where
  "demo_dec c ts = \<lparr>de_n_past = length ts, de_kv = (\<lambda>l j. kv_at c ts l j), de_margins = []\<rparr>"

lemma demo_holds: "holds_ctx c (demo_dec c ts) ts"
  by (simp add: holds_ctx_def demo_dec_def)

definition demo_opts :: spec_opts where
  "demo_opts = \<lparr>so_max = 7, so_fixed = 2, so_tau = 0\<rparr>"

lemma demo_gate_off: "\<not> f32_lt 0 (so_tau demo_opts)"
  unfolding demo_opts_def by code_simp



text \<open>A cache of 16 positions holds 13 and two more are generated; the draft has two tokens.\<close>

definition demo_state :: "decoder spec_state" where
  "demo_state = \<lparr>ss_dec = demo_dec (demo_cfg 16) (butlast demo_stream @ [0]), ss_out = [], ss_next = 3,
     ss_idx = suffix_of 64 3 (butlast demo_stream), ss_ctl = spec_init spec_cfg0\<rparr>"

lemma demo_push: "suffix_push 3 (suffix_of 64 3 (butlast demo_stream)) = suffix_of 64 3 demo_stream"
proof -
  have "demo_stream = butlast demo_stream @ [3]" by (simp add: demo_stream_def)
  then show ?thesis by (metis suffix_of_def fold_append fold_simps comp_apply)
qed

theorem spec_round_dies_near_full_witness:
  "spec_round (decoder_impl (demo_cfg 16)) demo_opts 2 0 demo_state = Inl KvFull
    \<and> (\<exists>ts. plain_loop (decoder_impl (demo_cfg 16)) (2 - length (ss_out demo_state)) (ss_dec demo_state)
        (ss_next demo_state) (ss_out demo_state) = Inr ts)"
proof (rule spec_round_dies_near_full)
  show "dc_approx_k (demo_cfg 16) = 0" by (simp add: demo_cfg_def)
  show "holds_ctx (demo_cfg 16) (ss_dec demo_state) (butlast demo_stream @ [0])" by (simp add: demo_state_def demo_holds)
  show "wanted demo_opts (ss_ctl demo_state) = (2, spec_init spec_cfg0)" by (simp add: demo_state_def wanted_def demo_opts_def)
  show "fst (suffix_draft (suffix_push (ss_next demo_state) (ss_idx demo_state)) 2) = [9, 7]"
    by (simp add: demo_state_def demo_push demo_draft)
qed (simp_all add: demo_state_def demo_cfg_def demo_stream_def)

text \<open>A decoder that agrees with every draft, the second time with a small margin.\<close>

definition agree_ops :: "nat decoder_ops" where
  "agree_ops = \<lparr>op_step_batch = (\<lambda>ts d. Inr (d + length ts, tl ts @ [5])), op_rewind_to = (\<lambda>k d. Inr k), op_reset = (\<lambda>d. 0),
     op_n_past = (\<lambda>d. d), op_last_margins = (\<lambda>d. [c_1, c_1, 0, c_1]), op_max_batch = 8\<rparr>"

definition gate_opts :: spec_opts where
  "gate_opts = \<lparr>so_max = 7, so_fixed = 3, so_tau = c_milli\<rparr>"

definition gate_state :: "nat spec_state" where
  "gate_state = \<lparr>ss_dec = 14, ss_out = [3], ss_next = 3, ss_idx = suffix_of 64 3 demo_stream, ss_ctl = spec_init spec_cfg0\<rparr>"

lemma demo_gate: "gated_accept (so_tau gate_opts) (op_last_margins agree_ops (ss_dec gate_state)) (accept_len [9, 7, 1] [9, 7, 1, 5]) = (2, True)"
  unfolding gate_opts_def agree_ops_def gate_state_def by code_simp

theorem truncated_round_repeats_witness:
  "\<exists>s' s''. settle agree_ops gate_opts 8 0 10 [9, 7, 1] [9, 7, 1, 5] gate_state = Inr s' \<and> spec_round agree_ops gate_opts 8 0 s' = Inr s''
    \<and> take 4 (ss_out s'') = [3, 9, 7, 7]"
proof -
  have t: "\<exists>t'. settle agree_ops gate_opts 8 0 base draft outs t = Inr t'" for base draft outs t
    by (simp add: settle_def agree_ops_def Let_def split: prod.splits)
  from t obtain s' where s': "settle agree_ops gate_opts 8 0 10 [9, 7, 1] [9, 7, 1, 5] gate_state = Inr s'" by blast
  have "\<exists>s''. spec_round agree_ops gate_opts 8 0 s' = Inr s''"
    using t by (simp add: spec_round_def Let_def split: sum.splits prod.splits) (simp add: agree_ops_def)
  then obtain s'' where s'': "spec_round agree_ops gate_opts 8 0 s' = Inr s''" by blast
  have "length (ss_out gate_state) + 2 \<le> 8" by (simp add: gate_state_def)
  note r = truncated_round_repeats [OF demo_gate this s' s'']
  have e: "ss_out gate_state @ take 2 [9, 7, 1] @ [last (take 2 [9, 7, 1])] = [3, 9, 7, 7]" by (simp add: gate_state_def)
  have four: "length (ss_out s') + 1 = 4" using conjunct1 [OF r] by (simp add: gate_state_def)
  have "take 4 (ss_out s'') = [3, 9, 7, 7]" using conjunct2 [OF r] unfolding four e .
  with s' s'' show ?thesis by blast
qed

theorem forced_run_refeeds_witness:
  "\<exists>d' rows vs. forced_loop (decoder_impl (demo_cfg 4096)) 4 demo_stream 0 9 (demo_dec (demo_cfg 4096) []) [] = Inr (d', rows)
    \<and> holds_ctx (demo_cfg 4096) d' ([] @ 9 # take (4 - 1) demo_stream @ demo_stream ! (4 - 2) # vs)"
  by (rule forced_run_refeeds [OF _ _ _ _ demo_holds]) (simp_all add: demo_cfg_def demo_stream_def)

end
