(* ===== verification/FL_Double_Order.thy ===== *)
theory FL_Double_Order
  imports FL_Double
begin

text \<open>
  The order of \<open>double\<close>s: every one that is not a NaN has a key, a multiple of the least subnormal,
  with an infinity one step beyond the largest finite magnitude. Comparison is that of the keys, and
  rounding, widening a \<open>float\<close> and subtracting a finite number are monotone in them.
\<close>

unbundle bit_operations_syntax

section \<open>Rounding is monotone\<close>

lemma rne_shift_mono:
  assumes "m \<le> m'"
  shows "rne_shift m k \<le> rne_shift m' k"
proof -
  have q: "m div 2 ^ k \<le> m' div 2 ^ k" using assms by (intro zdiv_mono1) simp_all
  have up: "rne_shift m k \<le> m div 2 ^ k + 1" "m div 2 ^ k \<le> rne_shift m k"
    "m' div 2 ^ k \<le> rne_shift m' k" by (simp_all add: rne_shift_def Let_def)
  show ?thesis
  proof (cases "m div 2 ^ k = m' div 2 ^ k")
    case True
    have "m mod 2 ^ k \<le> m' mod 2 ^ k"
      using assms True by (metis add_le_cancel_left div_mult_mod_eq)
    then show ?thesis using True by (auto simp: rne_shift_def Let_def)
  next
    case False
    then show ?thesis using q up by linarith
  qed
qed

lemma bit_len_mono:
  assumes "m \<le> m'" "0 \<le> m'"
  shows "bit_len m \<le> bit_len m'"
  using assms
proof (induction m arbitrary: m' rule: bit_len.induct)
  case (1 n)
  show ?case
  proof (cases "n \<le> 0")
    case True
    then show ?thesis using bit_len_nonneg [of m'] by (subst bit_len.simps) simp
  next
    case False
    have "n div 2 \<le> m' div 2" using 1(2) by (intro zdiv_mono1) simp_all
    then show ?thesis using 1 False by (subst (1 2) bit_len.simps) simp
  qed
qed

lemma bit_len_pow: "0 < m \<Longrightarrow> 2 ^ nat (bit_len m - 1) \<le> m" "0 \<le> m \<Longrightarrow> m < 2 ^ nat (bit_len m)"
proof (induction m rule: bit_len.induct)
  case (1 n)
  {
    case 1
    show ?case
    proof (cases "n = 1")
      case False
      then have n: "0 < n div 2" using 1 by simp
      then have "0 < bit_len (n div 2)" using bit_len_ge [of 0 "n div 2"] by simp
      then have "(2 :: int) ^ nat (bit_len n - 1) = 2 * 2 ^ nat (bit_len (n div 2) - 1)"
        using 1 by (subst bit_len.simps) (simp flip: power_Suc add: Suc_nat_eq_nat_zadd1)
      also have "\<dots> \<le> 2 * (n div 2)" using "1.IH"(1) n 1 by simp
      finally show ?thesis by simp
    qed (simp add: bit_len.simps)
  next
    case 2
    show ?case
    proof (cases "n = 0")
      case False
      have "n < 2 * (n div 2) + 2" by simp
      also have "n div 2 < 2 ^ nat (bit_len (n div 2))" using "1.IH"(2) 2 False by simp
      then have "2 * (n div 2) + 2 \<le> 2 * 2 ^ nat (bit_len (n div 2))" by simp
      also have "\<dots> = 2 ^ nat (bit_len n)"
        using 2 False bit_len_nonneg [of "n div 2"] by (subst (2) bit_len.simps) (simp flip: power_Suc add: Suc_nat_eq_nat_zadd1 add.commute)
      finally show ?thesis .
    qed (simp add: bit_len.simps)
  }
qed

text \<open>The mantissa of an encoding and its exponent.\<close>

definition enc_q :: "nat \<Rightarrow> int \<Rightarrow> int \<Rightarrow> int \<Rightarrow> int" where
  "enc_q mb qmin m e = max (e + bit_len m - int (Suc mb)) qmin"

definition enc_n :: "int \<Rightarrow> int \<Rightarrow> int \<Rightarrow> int" where
  "enc_n q m e = (if q \<le> e then m * 2 ^ nat (e - q) else rne_shift m (nat (q - e)))"

lemma mag_enc_alt:
  "m \<noteq> 0 \<Longrightarrow> mag_enc mb qmin m e = (enc_q mb qmin m e - qmin) * 2 ^ mb + enc_n (enc_q mb qmin m e) m e"
  by (simp add: mag_enc_def enc_q_def enc_n_def Let_def)

lemma enc_n_mono: "m \<le> m' \<Longrightarrow> enc_n q m e \<le> enc_n q m' e"
  by (simp add: enc_n_def rne_shift_mono mult_right_mono)

lemma enc_n_upper:
  assumes "0 < m"
  shows "enc_n (enc_q mb qmin m e) m e \<le> 2 ^ Suc mb"
proof -
  let ?q = "enc_q mb qmin m e"
  have q: "e + bit_len m - int (Suc mb) \<le> ?q" by (simp add: enc_q_def)
  have m: "m < 2 ^ nat (bit_len m)" using bit_len_pow(2) [of m] assms by simp
  have b: "0 < bit_len m" using bit_len_ge [of 0 m] assms by simp
  show ?thesis
  proof (cases "?q \<le> e")
    case True
    have "m * 2 ^ nat (e - ?q) \<le> 2 ^ nat (bit_len m) * 2 ^ nat (e - ?q)" using m by simp
    also have "\<dots> = 2 ^ (nat (bit_len m) + nat (e - ?q))" by (simp add: power_add)
    also have "\<dots> \<le> 2 ^ Suc mb" using q True b by (intro power_increasing) simp_all
    finally show ?thesis using True by (simp add: enc_n_def)
  next
    case False
    have "nat (bit_len m) \<le> Suc mb + nat (?q - e)" using q False by simp
    then have "(2 :: int) ^ nat (bit_len m) \<le> 2 ^ (Suc mb + nat (?q - e))" by (intro power_increasing) simp_all
    then have "m < 2 ^ Suc mb * 2 ^ nat (?q - e)" using m by (simp only: power_add)
    then show ?thesis using False rne_shift_le [of m "2 ^ Suc mb"] assms by (simp add: enc_n_def)
  qed
qed

lemma enc_n_lower:
  assumes "0 < m" "qmin < enc_q mb qmin m e"
  shows "2 ^ mb \<le> enc_n (enc_q mb qmin m e) m e"
proof -
  let ?q = "enc_q mb qmin m e"
  have q: "?q = e + bit_len m - int (Suc mb)" using assms(2) by (simp add: enc_q_def max_def split: if_splits)
  have m: "2 ^ nat (bit_len m - 1) \<le> m" using bit_len_pow(1) assms(1) .
  have b: "0 < bit_len m" using bit_len_ge [of 0 m] assms(1) by simp
  show ?thesis
  proof (cases "?q \<le> e")
    case True
    have "(2 :: int) ^ mb = 2 ^ (nat (bit_len m - 1) + nat (e - ?q))" using q True b by (intro arg_cong [where f = "(^) 2"]) simp
    also have "\<dots> = 2 ^ nat (bit_len m - 1) * 2 ^ nat (e - ?q)" by (simp add: power_add)
    also have "\<dots> \<le> m * 2 ^ nat (e - ?q)" using m by simp
    finally show ?thesis using True by (simp add: enc_n_def)
  next
    case False
    have "(2 :: int) ^ mb = 2 ^ nat (bit_len m - 1) div 2 ^ nat (?q - e)"
    proof -
      have "nat (bit_len m - 1) = mb + nat (?q - e)" using q False b by simp
      then show ?thesis by (simp add: power_add)
    qed
    also have "\<dots> \<le> m div 2 ^ nat (?q - e)" using m by (intro zdiv_mono1) simp_all
    also have "\<dots> \<le> rne_shift m (nat (?q - e))" by (rule rne_shift_ge)
    finally show ?thesis using False by (simp add: enc_n_def)
  qed
qed

lemma mag_enc_sign:
  assumes "0 \<le> m"
  shows "0 \<le> mag_enc mb qmin m e"
proof (cases "m = 0")
  case False
  have "rne_shift 0 k = 0" for k by (simp add: rne_shift_def Let_def)
  then have "0 \<le> enc_n (enc_q mb qmin m e) m e"
    using enc_n_mono [OF assms, of "enc_q mb qmin m e" e] by (simp add: enc_n_def split: if_splits)
  moreover have "0 \<le> (enc_q mb qmin m e - qmin) * 2 ^ mb" by (simp add: enc_q_def)
  ultimately show ?thesis using False by (simp add: mag_enc_alt)
qed (simp add: mag_enc_def)

lemma mag_enc_mono:
  assumes "0 \<le> m" "m \<le> m'"
  shows "mag_enc mb qmin m e \<le> mag_enc mb qmin m' e"
proof (cases "m = 0")
  case True
  then show ?thesis using mag_enc_sign [of m'] assms by (simp add: mag_enc_def [of mb qmin 0])
next
  case False
  then have pos: "0 < m" "0 < m'" using assms by simp_all
  let ?q = "enc_q mb qmin m e" and ?q' = "enc_q mb qmin m' e"
  have qq: "?q \<le> ?q'" using bit_len_mono [OF assms(2)] pos by (simp add: enc_q_def max_def)
  show ?thesis
  proof (cases "?q = ?q'")
    case True
    then show ?thesis using enc_n_mono [OF assms(2), of ?q e] pos by (simp add: mag_enc_alt)
  next
    case False
    then have lt: "?q + 1 \<le> ?q'" "qmin < ?q'" using qq by (simp_all add: enc_q_def max_def split: if_splits)
    have "(?q - qmin) * 2 ^ mb + enc_n ?q m e \<le> (?q - qmin) * 2 ^ mb + 2 * 2 ^ mb"
      using enc_n_upper [OF pos(1), of mb qmin e] by simp
    also have "\<dots> = (?q + 1 - qmin) * 2 ^ mb + 2 ^ mb" by (simp add: algebra_simps)
    also have "\<dots> \<le> (?q' - qmin) * 2 ^ mb + enc_n ?q' m' e"
      using lt(1) enc_n_lower [OF pos(2) lt(2)] by (intro add_mono mult_right_mono) simp_all
    finally show ?thesis using pos by (simp add: mag_enc_alt)
  qed
qed

section \<open>Keys\<close>

definition dval :: "int \<Rightarrow> int" where
  "dval b = (if b div 2 ^ 52 = 0 then b mod 2 ^ 52 else (b mod 2 ^ 52 + 2 ^ 52) * 2 ^ nat (b div 2 ^ 52 - 1))"

definition f64_key :: "f64 \<Rightarrow> int" where
  "f64_key w = (if bit w 63 then - dval (uint (take_bit 63 w)) else dval (uint (take_bit 63 w)))"

definition f64_ok :: "f64 \<Rightarrow> bool" where "f64_ok a \<longleftrightarrow> f64_dec a \<noteq> FNan"

abbreviation inf_bits :: int where "inf_bits \<equiv> 0x7FF0000000000000"

lemma dval_step:
  assumes "0 \<le> b"
  shows "dval b < dval (b + 1)"
proof -
  define E where "E = b div 2 ^ 52"
  define M where "M = b mod 2 ^ 52"
  have b: "b = E * 2 ^ 52 + M" by (simp add: E_def M_def)
  have M: "0 \<le> M" "M < 2 ^ 52" by (simp_all add: M_def)
  have E: "0 \<le> E" using assms by (simp add: E_def pos_imp_zdiv_nonneg_iff)
  show ?thesis
  proof (cases "M + 1 < 2 ^ 52")
    case True
    have "b + 1 = (M + 1) + E * 2 ^ 52" by (simp add: b)
    then have "(b + 1) div 2 ^ 52 = E" "(b + 1) mod 2 ^ 52 = M + 1"
      using M True by (simp_all only: div_mult_self1 mod_mult_self1) simp_all
    moreover have "b div 2 ^ 52 = E" "b mod 2 ^ 52 = M" by (simp_all add: E_def M_def)
    ultimately show ?thesis unfolding dval_def by (simp add: mult_strict_right_mono)
  next
    case False
    then have m: "M = 2 ^ 52 - 1" using M by simp
    have "b + 1 = (E + 1) * 2 ^ 52" by (simp add: b m algebra_simps)
    then have "(b + 1) div 2 ^ 52 = E + 1" "(b + 1) mod 2 ^ 52 = 0" by simp_all
    moreover have "b div 2 ^ 52 = E" "b mod 2 ^ 52 = M" by (simp_all add: E_def M_def)
    moreover have "(M + 2 ^ 52) * 2 ^ nat (E - 1) < 2 ^ 52 * 2 ^ nat E" if "E \<noteq> 0"
    proof -
      have "nat E = Suc (nat (E - 1))" using E that by simp
      then show ?thesis by (simp add: m)
    qed
    ultimately show ?thesis using E by (simp add: dval_def m)
  qed
qed

lemma dval_less: "0 \<le> b \<Longrightarrow> b < c \<Longrightarrow> dval b < dval c"
proof -
  assume h: "0 \<le> b" "b < c"
  have "strict_mono (\<lambda>n. dval (int n))"
    unfolding strict_mono_Suc_iff using dval_step [of "int n" for n] by (simp add: add.commute)
  then have "dval (int (nat b)) < dval (int (nat c))" by (rule strict_monoD) (use h in simp)
  then show ?thesis using h by simp
qed

lemma dval_le: "0 \<le> b \<Longrightarrow> b \<le> c \<Longrightarrow> dval b \<le> dval c"
  using dval_less [of b c] by (cases "b = c") simp_all

lemma dval_0 [simp]: "dval 0 = 0"
  by (simp add: dval_def)

lemma f64_dec_num:
  assumes "f64_dec w = FNum s m e"
  shows "f64_key w = (if s then - m else m) * 2 ^ nat (e + 1074)" "-1074 \<le> e" "0 \<le> m"
    "\<bar>f64_key w\<bar> < dval inf_bits"
proof -
  let ?b = "uint (take_bit 63 w)"
  let ?E = "?b div 2 ^ 52" and ?M = "?b mod 2 ^ 52"
  have b: "0 \<le> ?b" "?b < 2 ^ 63" using uint_take_bit_less [of 63 w] by simp_all
  have E0: "0 \<le> ?E" using b(1) by (simp add: pos_imp_zdiv_nonneg_iff)
  have E: "?E \<noteq> 2047" "s = bit w 63" "(m, e) = (if ?E = 0 then (?M, -1074) else (?M + 2 ^ 52, ?E - 1075))"
    using assms by (auto simp: f64_dec_def Let_def split: if_splits)
  have "?E < 2048" using b(2) by (simp add: div_less_iff_less_mult)
  then have "?b div 2 ^ 52 < 2047" using E(1) by linarith
  then have lt: "?b < inf_bits" by (simp add: div_less_iff_less_mult)
  have d: "dval ?b = m * 2 ^ nat (e + 1074)" using E(3) E0 by (auto simp: dval_def split: if_splits)
  then show "f64_key w = (if s then - m else m) * 2 ^ nat (e + 1074)" by (simp add: f64_key_def E(2))
  show "-1074 \<le> e" "0 \<le> m" using E(3) E0 by (auto split: if_splits)
  have "0 \<le> dval ?b" using dval_le [OF order_refl b(1)] by simp
  then show "\<bar>f64_key w\<bar> < dval inf_bits" using dval_less [OF b(1) lt] by (simp add: f64_key_def)
qed

lemma f64_dec_inf:
  assumes "f64_dec w = FInf s"
  shows "f64_key w = (if s then - dval inf_bits else dval inf_bits)"
proof -
  let ?b = "uint (take_bit 63 w)"
  have "?b div 2 ^ 52 = 2047" "?b mod 2 ^ 52 = 0" "s = bit w 63"
    using assms by (auto simp: f64_dec_def Let_def split: if_splits)
  moreover then have "?b = 2047 * 2 ^ 52" using div_mult_mod_eq [of ?b "2 ^ 52"] by simp
  ultimately show ?thesis by (simp add: f64_key_def)
qed

lemma f64_lt_key:
  assumes "f64_ok a" "f64_ok b"
  shows "f64_lt a b \<longleftrightarrow> f64_key a < f64_key b"
proof (cases "f64_dec a")
  case a: (FNum s1 m1 e1)
  note ka = f64_dec_num [OF a]
  show ?thesis
  proof (cases "f64_dec b")
    case b: (FNum s2 m2 e2)
    note kb = f64_dec_num [OF b]
    define e where "e = min e1 e2"
    have e: "-1074 \<le> e" "e \<le> e1" "e \<le> e2" using ka kb by (simp_all add: e_def)
    have sp: "(2 :: int) ^ nat (e' + 1074) = 2 ^ nat (e' - e) * 2 ^ nat (e + 1074)" if "e \<le> e'" for e'
      using that e(1) by (simp flip: power_add nat_add_distrib)
    define v1 where "v1 = (if s1 then - (m1 * 2 ^ nat (e1 - e)) else m1 * 2 ^ nat (e1 - e))"
    define v2 where "v2 = (if s2 then - (m2 * 2 ^ nat (e2 - e)) else m2 * 2 ^ nat (e2 - e))"
    have "f64_key a = v1 * 2 ^ nat (e + 1074)" "f64_key b = v2 * 2 ^ nat (e + 1074)"
      by (simp_all add: ka(1) kb(1) v1_def v2_def sp [OF e(2)] sp [OF e(3)])
    moreover have "f64_lt a b \<longleftrightarrow> v1 < v2" by (simp add: f64_lt_def a b Let_def e_def v1_def v2_def)
    ultimately show ?thesis by simp
  next
    case (FInf s)
    then show ?thesis using f64_dec_inf [of b s] ka(4) by (cases s) (simp_all add: f64_lt_def a)
  qed (use assms in \<open>simp add: f64_ok_def\<close>)
next
  case a: (FInf s)
  note ka = f64_dec_inf [OF a]
  show ?thesis
  proof (cases "f64_dec b")
    case b: (FNum s2 m2 e2)
    then show ?thesis using f64_dec_num(4) [OF b] ka by (cases s) (simp_all add: f64_lt_def a)
  next
    case b: (FInf s')
    have "0 < dval inf_bits" using dval_less [of 0 inf_bits] by simp
    then show ?thesis using f64_dec_inf [OF b] ka by (cases s; cases s') (simp_all add: f64_lt_def a b)
  qed (use assms in \<open>simp add: f64_ok_def\<close>)
qed (use assms in \<open>simp add: f64_ok_def\<close>)

lemma f64_lt_ok: "f64_lt a b \<Longrightarrow> f64_ok a \<and> f64_ok b"
  by (cases "f64_dec a"; cases "f64_dec b") (auto simp: f64_lt_def f64_ok_def)

section \<open>Encodings and conversions\<close>

lemma f64_sign_bit_push: "f64_sign_bit s = push_bit 63 (of_bool s)"
  by (simp add: f64_sign_bit_def)

lemma take_bit_sign64:
  assumes "0 \<le> b" "b < 2 ^ 63"
  shows "uint (take_bit 63 (f64_sign_bit s OR of_int b)) = b"
    and "bit (f64_sign_bit s OR of_int b :: u64) 63 = s"
proof -
  have tb: "take_bit 63 b = b" using assms by (simp add: take_bit_int_eq_self)
  have nb: "bit b n \<Longrightarrow> n < 63" for n using bit_take_bit_iff [of 63 b n] by (simp add: tb)
  have "take_bit 63 (f64_sign_bit s OR of_int b) = (of_int b :: u64)"
  proof (rule bit_word_eqI)
    fix n assume "n < LENGTH(64)"
    then show "bit (take_bit 63 (f64_sign_bit s OR of_int b) :: u64) n = bit (of_int b :: u64) n"
      using nb [of n] by (cases "n = 63") (auto simp: f64_sign_bit_push bit_simps)
  qed
  then show "uint (take_bit 63 (f64_sign_bit s OR of_int b)) = b"
    using assms by (simp add: uint_of_int_small)
  show "bit (f64_sign_bit s OR of_int b :: u64) 63 = s"
    using nb [of 63] by (auto simp: f64_sign_bit_push bit_simps)
qed

lemma key_bits:
  assumes "0 \<le> b" "b \<le> inf_bits"
  shows "f64_key (f64_sign_bit s OR of_int b) = (if s then - dval b else dval b)"
    and "f64_ok (f64_sign_bit s OR of_int b)"
    and "b < inf_bits \<Longrightarrow> \<exists>m e. f64_dec (f64_sign_bit s OR of_int b) = FNum s m e"
proof -
  have b: "b < 2 ^ 63" using assms(2) by simp
  note t = take_bit_sign64 [OF assms(1) b, of s]
  show "f64_key (f64_sign_bit s OR of_int b) = (if s then - dval b else dval b)"
    unfolding f64_key_def t ..
  have "b div 2 ^ 52 = 2047 \<Longrightarrow> b mod 2 ^ 52 = 0"
    using assms(2) div_mult_mod_eq [of b "2 ^ 52"] pos_mod_sign [of "2 ^ 52" b] by simp
  then show "f64_ok (f64_sign_bit s OR of_int b)" unfolding f64_ok_def f64_dec_def Let_def t by simp
  show "\<exists>m e. f64_dec (f64_sign_bit s OR of_int b) = FNum s m e" if "b < inf_bits"
  proof -
    have "b div 2 ^ 52 < 2047" using that by (simp add: div_less_iff_less_mult)
    then show ?thesis unfolding f64_dec_def Let_def t by simp
  qed
qed

definition enc_val :: "int \<Rightarrow> int \<Rightarrow> int" where
  "enc_val m e = dval (min (mag_enc 52 (-1074) m e) inf_bits)"

definition rkey :: "int \<Rightarrow> int \<Rightarrow> int" where
  "rkey v e = (if v < 0 then - enc_val (- v) e else enc_val v e)"

lemma enc_val_mono: "0 \<le> m \<Longrightarrow> m \<le> m' \<Longrightarrow> enc_val m e \<le> enc_val m' e"
  unfolding enc_val_def using mag_enc_sign [of m 52 "-1074" e] mag_enc_mono [of m m' 52 "-1074" e]
  by (intro dval_le) (simp_all add: min_def)

lemma enc_val_nonneg: "0 \<le> m \<Longrightarrow> 0 \<le> enc_val m e"
  using enc_val_mono [of 0 m e] by (simp add: enc_val_def mag_enc_def)

lemma enc_val_0 [simp]: "enc_val 0 e = 0"
  by (simp add: enc_val_def mag_enc_def)

lemma rkey_mono:
  assumes "v \<le> v'"
  shows "rkey v e \<le> rkey v' e"
proof -
  consider "0 \<le> v" | "v < 0" "0 \<le> v'" | "v' < 0" using assms by linarith
  then show ?thesis
  proof cases
    case 1
    then show ?thesis using assms enc_val_mono [of v v' e] by (simp add: rkey_def)
  next
    case 2
    then show ?thesis using enc_val_nonneg [of "- v" e] enc_val_nonneg [of v' e] by (simp add: rkey_def)
  next
    case 3
    then show ?thesis using assms enc_val_mono [of "- v'" "- v" e] by (simp add: rkey_def)
  qed
qed

lemma enc_val_scale: "0 \<le> m \<Longrightarrow> enc_val (m * 2 ^ k) (e - int k) = enc_val m e"
  by (simp add: enc_val_def mag_enc_scale)

lemma rkey_scale: "rkey (v * 2 ^ k) (e - int k) = rkey v e"
proof -
  have "v * 2 ^ k < 0 \<longleftrightarrow> v < 0" by (simp add: mult_less_0_iff)
  moreover have "- (v * 2 ^ k) = (- v) * 2 ^ k" by simp
  ultimately show ?thesis using enc_val_scale [of v k e] enc_val_scale [of "- v" k e] by (simp add: rkey_def)
qed

lemma f64_enc_key:
  assumes "0 \<le> m"
  shows "f64_key (f64_enc s m e) = (if s then - enc_val m e else enc_val m e)" "f64_ok (f64_enc s m e)"
  using key_bits [of "min (mag_enc 52 (-1074) m e) inf_bits" s] mag_enc_sign [OF assms, of 52 "-1074" e]
  by (simp_all add: f64_enc_def enc_val_def Let_def)

lemma f64_inf_key: "f64_key (f64_inf s) = (if s then - dval inf_bits else dval inf_bits)" "f64_ok (f64_inf s)"
  using key_bits [of inf_bits s] by (simp_all add: f64_inf_def)

lemma f64_zero_key: "f64_key (f64_sign_bit s) = 0" "f64_ok (f64_sign_bit s)"
  using key_bits [of 0 s] by simp_all

lemma f64_key_bounds:
  assumes "f64_ok a"
  shows "- dval inf_bits \<le> f64_key a" "f64_key a \<le> dval inf_bits"
proof -
  have "\<bar>f64_key a\<bar> \<le> dval inf_bits"
  proof (cases "f64_dec a")
    case (FNum s m e)
    then show ?thesis using f64_dec_num(4) [of a] by simp
  next
    case (FInf s)
    then show ?thesis using f64_dec_inf [of a] dval_le [of 0 inf_bits] by simp
  qed (use assms in \<open>simp add: f64_ok_def\<close>)
  then show "- dval inf_bits \<le> f64_key a" "f64_key a \<le> dval inf_bits" by simp_all
qed

lemma f64_add_0:
  assumes "f64_dec b = FNum False m e" "0 < m"
  shows "f64_add 0 b = f64_enc False m e"
proof -
  have z: "f64_dec 0 = FNum False 0 (-1074)" by (simp add: f64_dec_def)
  have e: "-1074 \<le> e" using f64_dec_num(2) [OF assms(1)] .
  have "e - int (nat (e + 1074)) = -1074" using e by simp
  then have "mag_enc 52 (-1074) (m * 2 ^ nat (e + 1074)) (-1074) = mag_enc 52 (-1074) m e"
    using mag_enc_scale [of m 52 "-1074" "nat (e + 1074)" e] assms(2) by simp
  moreover have "0 < m * 2 ^ nat (e + 1074)" using assms(2) by simp
  ultimately show ?thesis using e assms(2) by (auto simp: f64_add_def z assms(1) f64_enc_def Let_def min_def mult_less_0_iff)
qed

text \<open>Adding finite numbers rounds the sum of their keys.\<close>

lemma f64_add_key:
  assumes "f64_dec a = FNum s1 m1 e1" "f64_dec b = FNum s2 m2 e2"
  shows "f64_key (f64_add a b) = rkey (f64_key a + f64_key b) (-1074)" "f64_ok (f64_add a b)"
proof -
  note ka = f64_dec_num [OF assms(1)] and kb = f64_dec_num [OF assms(2)]
  define e where "e = min e1 e2"
  have e: "-1074 \<le> e" "e \<le> e1" "e \<le> e2" using ka kb by (simp_all add: e_def)
  have sp: "(2 :: int) ^ nat (e' + 1074) = 2 ^ nat (e' - e) * 2 ^ nat (e + 1074)" if "e \<le> e'" for e'
    using that e(1) by (simp flip: power_add nat_add_distrib)
  define v where "v = (if s1 then - (m1 * 2 ^ nat (e1 - e)) else m1 * 2 ^ nat (e1 - e)) +
    (if s2 then - (m2 * 2 ^ nat (e2 - e)) else m2 * 2 ^ nat (e2 - e))"
  have k: "f64_key a + f64_key b = v * 2 ^ nat (e + 1074)"
    unfolding ka(1) kb(1) v_def sp [OF e(2)] sp [OF e(3)] by (simp add: distrib_right)
  have "e - int (nat (e + 1074)) = -1074" using e(1) by simp
  then have r: "rkey (f64_key a + f64_key b) (-1074) = rkey v e"
    using rkey_scale [of v "nat (e + 1074)" e] k by simp
  have f: "f64_add a b = (if v = 0 then f64_sign_bit (s1 \<and> s2) else f64_enc (v < 0) \<bar>v\<bar> e)"
    unfolding f64_add_def assms prod.case fval.case Let_def e_def [symmetric] v_def [symmetric] ..
  show "f64_key (f64_add a b) = rkey (f64_key a + f64_key b) (-1074)"
    unfolding r f by (simp add: f64_zero_key f64_enc_key rkey_def)
  show "f64_ok (f64_add a b)" unfolding f by (simp add: f64_zero_key f64_enc_key)
qed

lemma f64_add_mono:
  assumes "f64_ok a" "f64_ok b" "f64_key a \<le> f64_key b" "f64_dec c = FNum s m e"
  shows "f64_key (f64_add a c) \<le> f64_key (f64_add b c)" "f64_ok (f64_add a c)"
proof -
  have ok: "f64_ok (f64_add x c)" if "f64_ok x" for x
    using that f64_add_key(2) [OF _ assms(4), of x] f64_inf_key(2)
    by (cases "f64_dec x") (simp_all add: f64_ok_def [of x] f64_add_def assms(4))
  then show "f64_ok (f64_add a c)" using assms(1) .
  show "f64_key (f64_add a c) \<le> f64_key (f64_add b c)"
  proof (cases "f64_dec a")
    case a: (FNum s1 m1 e1)
    show ?thesis
    proof (cases "f64_dec b")
      case b: (FNum s2 m2 e2)
      show ?thesis unfolding f64_add_key(1) [OF a assms(4)] f64_add_key(1) [OF b assms(4)]
        by (rule rkey_mono) (use assms(3) in simp)
    next
      case b: (FInf t)
      have "\<not> t" using f64_dec_inf [OF b] f64_dec_num(4) [OF a] assms(3) by (cases t) auto
      then have "f64_key (f64_add b c) = dval inf_bits" by (simp add: f64_add_def b assms(4) f64_inf_key)
      then show ?thesis using f64_key_bounds(2) [OF ok [OF assms(1)]] by simp
    qed (use assms(2) in \<open>simp add: f64_ok_def\<close>)
  next
    case a: (FInf t)
    show ?thesis
    proof (cases t)
      case True
      then have "f64_key (f64_add a c) = - dval inf_bits" by (simp add: f64_add_def a assms(4) f64_inf_key)
      then show ?thesis using f64_key_bounds(1) [OF ok [OF assms(2)]] by simp
    next
      case False
      have "f64_key b = dval inf_bits"
        using f64_dec_inf [OF a] False assms(3) f64_key_bounds(2) [OF assms(2)] by simp
      then have "f64_dec b = FInf False"
        using assms(2) f64_dec_num(4) [of b] f64_dec_inf [of b] dval_less [of 0 inf_bits]
        by (cases "f64_dec b") (auto simp: f64_ok_def)
      then show ?thesis using a False by (simp add: f64_add_def assms(4))
    qed
  qed (use assms(1) in \<open>simp add: f64_ok_def\<close>)
qed

lemma f64_neg_num:
  assumes "f64_dec c = FNum s m e"
  shows "f64_dec (f64_neg c) = FNum (\<not> s) m e"
proof -
  have sb: "(0x8000000000000000 :: u64) = push_bit 63 (of_bool True)" using f64_sign_bit_push [of True] by (simp add: f64_sign_bit_def)
  have "take_bit 63 (c XOR push_bit 63 (of_bool True)) = take_bit 63 c"
    by (rule bit_word_eqI) (auto simp: bit_simps)
  moreover have "bit (c XOR push_bit 63 (of_bool True)) 63 = (\<not> bit c 63)"
    by (auto simp: bit_simps)
  ultimately show ?thesis using assms unfolding f64_neg_def sb f64_dec_def Let_def by (simp split: if_splits)
qed

lemma f64_sub_mono:
  assumes "f64_ok a" "f64_ok b" "f64_key a \<le> f64_key b" "f64_dec c = FNum s m e"
  shows "f64_key (f64_sub a c) \<le> f64_key (f64_sub b c)" "f64_ok (f64_sub a c)"
  using f64_add_mono [OF assms(1-3) f64_neg_num [OF assms(4)]] by (simp_all add: f64_sub_def)

lemma widen_num:
  assumes "f32_dec a = FNum s m e"
  shows "f64_key (f64_of_f32 a) = rkey (f32_key a) (-149)" "f64_ok (f64_of_f32 a)"
    "\<exists>s m e. f64_dec (f64_of_f32 a) = FNum s m e"
proof -
  note r = f32_dec_range [OF assms]
  have w: "f64_of_f32 a = f64_enc s m e" by (simp add: f64_of_f32_def assms)
  have "e - int (nat (e + 149)) = -149" using r by simp
  then have v: "enc_val (m * 2 ^ nat (e + 149)) (-149) = enc_val m e"
    using enc_val_scale [OF r(1), of "nat (e + 149)" e] by simp
  have "0 \<le> m * 2 ^ nat (e + 149)" using r(1) by simp
  then have "rkey (f32_key a) (-149) = (if s then - enc_val m e else enc_val m e)"
    using v by (auto simp: rkey_def f32_key_def assms)
  then show "f64_key (f64_of_f32 a) = rkey (f32_key a) (-149)" using f64_enc_key(1) [OF r(1)] by (simp add: w)
  show "f64_ok (f64_of_f32 a)" using f64_enc_key(2) [OF r(1)] by (simp add: w)
  have p: "nat (e + 149) + nat (104 - e) = 253" using r by simp
  have "m * 2 ^ nat (e + 149) \<le> 2 ^ 24 * 2 ^ 253"
  proof -
    have "(2 :: int) ^ nat (e + 149) \<le> 2 ^ 253" using r by (intro power_increasing) simp_all
    then show ?thesis using r by (intro mult_mono) simp_all
  qed
  then have "mag_enc 52 (-1074) (m * 2 ^ nat (e + 149)) (-149) \<le> mag_enc 52 (-1074) (2 ^ 24 * 2 ^ 253) (-149)"
    using r(1) by (intro mag_enc_mono) simp_all
  also have "\<dots> = mag_enc 52 (-1074) 1 128"
    using mag_enc_scale [of 1 52 "-1074" 277 128] by (simp flip: power_add)
  also have "\<dots> < inf_bits" by code_simp
  finally have lt: "mag_enc 52 (-1074) m e < inf_bits"
    using mag_enc_scale [OF r(1), of 52 "-1074" "nat (e + 149)" e] r(3) by simp
  then show "\<exists>s m e. f64_dec (f64_of_f32 a) = FNum s m e"
    using key_bits(3) [of "mag_enc 52 (-1074) m e" s] mag_enc_sign [OF r(1), of 52 "-1074" e]
    unfolding w f64_enc_def Let_def by (simp add: min_def) blast
qed

lemma widen_ok: "f32_ok a \<Longrightarrow> f64_ok (f64_of_f32 a)"
  using widen_num(2) [of a] f64_inf_key(2) by (cases "f32_dec a") (simp_all add: f32_ok_def f64_of_f32_def)

lemma widen_mono:
  assumes "f32_ok a" "f32_ok b" "f32_key a \<le> f32_key b"
  shows "f64_key (f64_of_f32 a) \<le> f64_key (f64_of_f32 b)"
proof (cases "f32_dec a")
  case a: (FNum s1 m1 e1)
  show ?thesis
  proof (cases "f32_dec b")
    case b: (FNum s2 m2 e2)
    show ?thesis unfolding widen_num(1) [OF a] widen_num(1) [OF b] by (rule rkey_mono) (rule assms(3))
  next
    case b: (FInf t)
    have "\<not> t" using key_abs_less [OF a] assms(3) by (cases t) (auto simp: f32_key_def [of b] b)
    then show ?thesis using f64_key_bounds(2) [OF widen_ok [OF assms(1)]]
      by (simp add: f64_of_f32_def [of b] b f64_inf_key)
  qed (use assms(2) in \<open>simp add: f32_ok_def\<close>)
next
  case a: (FInf t)
  show ?thesis
  proof (cases t)
    case True
    then show ?thesis using f64_key_bounds(1) [OF widen_ok [OF assms(2)]]
      by (simp add: f64_of_f32_def [of a] a f64_inf_key)
  next
    case False
    then have k: "2 ^ 400 \<le> f32_key b" using assms(3) by (simp add: f32_key_def [of a] a)
    have "f32_dec b = FInf False"
    proof (cases "f32_dec b")
      case (FNum s m e)
      then show ?thesis using key_abs_less [of b] k by auto
    next
      case (FInf u)
      then show ?thesis using k by (cases u) (simp_all add: f32_key_def)
    qed (use assms(2) in \<open>simp add: f32_ok_def\<close>)
    then show ?thesis using a False by (simp add: f64_of_f32_def)
  qed
qed (use assms(1) in \<open>simp add: f32_ok_def\<close>)

text \<open>Subtracting a finite \<open>float\<close> from widened \<open>float\<close>s keeps their order.\<close>

lemma widen_sub_mono:
  assumes "f32_ok a" "f32_ok b" "\<not> f32_lt b a" "f32_dec c = FNum s m e"
  shows "f64_key (f64_sub (f64_of_f32 a) (f64_of_f32 c)) \<le> f64_key (f64_sub (f64_of_f32 b) (f64_of_f32 c))"
    "f64_ok (f64_sub (f64_of_f32 a) (f64_of_f32 c))"
proof -
  obtain s' m' e' where c: "f64_dec (f64_of_f32 c) = FNum s' m' e'" using widen_num(3) [OF assms(4)] by blast
  have "f32_key a \<le> f32_key b" using assms(3) f32_lt_key [OF assms(2,1)] by simp
  note w = widen_mono [OF assms(1,2) this]
  show "f64_key (f64_sub (f64_of_f32 a) (f64_of_f32 c)) \<le> f64_key (f64_sub (f64_of_f32 b) (f64_of_f32 c))"
    "f64_ok (f64_sub (f64_of_f32 a) (f64_of_f32 c))"
    using f64_sub_mono [OF widen_ok [OF assms(1)] widen_ok [OF assms(2)] w c] .
qed

end
