(* ===== verification/FL_Head_Cert.thy ===== *)
theory FL_Head_Cert
  imports FL_Pass FL_Double_Order
begin

text \<open>
  The certified head argmax, \<open>src/model/head_cert.h\<close>: row norms per segment at initialisation, and per
  position the exact dots of the anchors, a bound per row, and the exact dots of the rows the bound
  does not exclude. The main lemma is that the exact dots form a lexicographic maximum whatever the
  order they are evaluated in, so that the result is the engine's argmax whenever the bounds
  dominate the logits up to the margin. \<open>std::partial_sort\<close> is a parameter.
\<close>

unbundle bit_operations_syntax

section \<open>Square roots and the next float\<close>

definition isqrt_up :: "int \<Rightarrow> int \<Rightarrow> int" where
  "isqrt_up n r = (if (r + 1) * (r + 1) \<le> n then r + 1 else r)"

function isqrt :: "int \<Rightarrow> int" where
  "isqrt n = (if n < 2 then n else isqrt_up n (2 * isqrt (n div 4)))"
  by pat_completeness auto
termination by (relation "measure nat") auto

declare isqrt.simps [simp del]

definition sqrt_round :: "int \<Rightarrow> int \<Rightarrow> int \<Rightarrow> f64" where
  "sqrt_round n r e = f64_enc False (2 * r + (if r * r = n then 0 else 1)) (e - 1)"

text \<open>\<open>std::sqrt\<close> of a \<open>double\<close>, correctly rounded: at least 56 bits of the root, the last one sticky.\<close>

definition f64_sqrt :: "f64 \<Rightarrow> f64" where
  "f64_sqrt a =
    (case f64_dec a of
       FNan \<Rightarrow> f64_nan
     | FInf s \<Rightarrow> if s then f64_nan else a
     | FNum s m e \<Rightarrow>
         if m = 0 then a else if s then f64_nan
         else let k = 112 + e mod 2; n = m * 2 ^ nat k in sqrt_round n (isqrt n) ((e - k) div 2))"

text \<open>\<open>std::nextafter(x, INFINITY)\<close>\<close>

definition f32_next_up :: "f32 \<Rightarrow> f32" where
  "f32_next_up w =
    (case f32_dec w of
       FNan \<Rightarrow> w
     | FInf s \<Rightarrow> if s then w - 1 else w
     | FNum s m e \<Rightarrow> if m = 0 then 1 else if s then w - 1 else w + 1)"

section \<open>State\<close>

datatype head_dot_mode = HD_I8K | HD_FAST_DEQ | HD_CANON

record head_cert_stats =
  hs_positions :: u64
  hs_rows_eval :: u64
  hs_rows_total :: u64
  hs_bytes_read :: u64
  hs_worst_cand :: u64

record head_cert =
  hc_fmt :: fmt
  hc_w :: bytes
  hc_rb :: nat
  hc_V :: nat
  hc_NE :: nat
  hc_segw :: nat
  hc_nseg :: nat
  hc_margin :: f32
  hc_wn :: "nat \<Rightarrow> f32"
  hc_topn :: "nat list"
  hc_st :: head_cert_stats

definition SEGS :: nat where "SEGS = 8"

definition hc_row :: "head_cert \<Rightarrow> nat \<Rightarrow> bytes" where
  "hc_row hc j = (\<lambda>i. hc_w hc (j * hc_rb hc + i))"

section \<open>Initialisation\<close>

text \<open>
  The segment width: a multiple of the block size that divides the row. Past the row's length the
  remainder no longer changes and the width grows until it wraps to zero, where \<open>%\<close> traps: \<open>None\<close>.
\<close>

function seg_search :: "nat \<Rightarrow> nat \<Rightarrow> nat \<Rightarrow> nat option" where
  "seg_search NE be w =
    (if be = 0 \<or> w = 0 \<or> NE < w \<and> NE mod w \<noteq> 0 then None
     else if NE mod w = 0 then Some w
     else seg_search NE be (w + be))"
  by pat_completeness auto
termination by (relation "measure (\<lambda>(NE, be, w). Suc NE - w)") auto

declare seg_search.simps [simp del]

definition seg_width :: "fmt \<Rightarrow> nat \<Rightarrow> nat option" where
  "seg_width f NE =
    (let be = (if f = F32 then 1 else unat (fl_blk_elems f)); w = NE div SEGS; w = (if w < be then be else w)
     in seg_search NE be (w div be * be))"

definition seg_values :: "fmt \<Rightarrow> bytes \<Rightarrow> nat \<Rightarrow> nat \<Rightarrow> fvec \<Rightarrow> fvec" where
  "seg_values f row elem0 n out =
    (if f = F32 then memcpy_to out 0 (\<lambda>i. rd32 row (4 * (elem0 + i))) n
     else if f = Q8_0 then
       for_loop 0 n (\<lambda>i out. let e = elem0 + i; b = (\<lambda>k. row (e div 32 * 34 + k))
         in out(i := f32_mul (fl_half2float (rd16 b 0)) (fl_of_i8 (b (2 + e mod 32))))) out
     else dequant_chunk f row elem0 n out)"

definition sq_acc :: "fvec \<Rightarrow> nat \<Rightarrow> f64" where
  "sq_acc v n = for_loop 0 n (\<lambda>i acc. f64_add acc (f64_mul (f64_of_f32 (v i)) (f64_of_f32 (v i)))) 0"

text \<open>The norms of a row: per segment, rounded up, and of the whole row.\<close>

definition row_norms :: "fmt \<Rightarrow> bytes \<Rightarrow> nat \<Rightarrow> nat \<Rightarrow> fvec \<Rightarrow> fvec \<times> (nat \<Rightarrow> f32) \<times> f32" where
  "row_norms f row segw nseg buf =
    (let (buf, wn, tot) = for_loop 0 nseg (\<lambda>s (buf, wn, tot).
           let buf = seg_values f row (s * segw) segw buf; acc = sq_acc buf segw
           in (buf, wn(s := f32_next_up (f32_of_f64 (f64_sqrt acc))), f64_add tot acc)) (buf, \<lambda>_. 0, 0)
     in (buf, wn, f32_of_f64 (f64_sqrt tot)))"

definition cert_init ::
  "((nat \<Rightarrow> nat \<Rightarrow> bool) \<Rightarrow> nat \<Rightarrow> nat list \<Rightarrow> nat list) \<Rightarrow> fmt \<Rightarrow> bytes \<Rightarrow> nat \<Rightarrow> nat \<Rightarrow> nat \<Rightarrow> f32 \<Rightarrow> nat \<Rightarrow>
    head_cert_stats \<Rightarrow> head_cert option" where
  "cert_init psort f w rb V NE margin topk st =
    (case seg_width f NE of
       None \<Rightarrow> None
     | Some segw \<Rightarrow>
         let nseg = NE div segw;
             (_, wn, whole) = for_loop 0 V (\<lambda>j (buf, wn, whole).
               let (buf, rn, t) = row_norms f (\<lambda>i. w (j * rb + i)) segw nseg buf
               in (buf, (\<lambda>k. if j * nseg \<le> k \<and> k < j * nseg + nseg then rn (k - j * nseg) else wn k), whole(j := t)))
               (\<lambda>_. 0, \<lambda>_. 0, \<lambda>_. 0);
             topn = (if topk < V then take topk (psort (\<lambda>a b. f32_lt (whole b) (whole a)) topk [0..<V]) else [0..<V])
         in Some \<lparr>hc_fmt = f, hc_w = w, hc_rb = rb, hc_V = V, hc_NE = NE, hc_segw = segw, hc_nseg = nseg,
                  hc_margin = margin, hc_wn = wn, hc_topn = topn, hc_st = st\<rparr>)"

section \<open>The certified argmax\<close>

text \<open>The dot of a row with the arithmetic the executor uses in each mode.\<close>

definition dot_exact :: "head_cert \<Rightarrow> fvec \<Rightarrow> nat \<Rightarrow> column \<Rightarrow> head_dot_mode \<Rightarrow> f32" where
  "dot_exact hc buf j h mode =
    (let row = hc_row hc j; f = hc_fmt hc; n = hc_NE hc; fast = dot_row_fast (\<lambda>i. rd32 row (4 * i)) (cl_x h) n
     in case mode of
          HD_I8K \<Rightarrow> dot_row_i8k f row (cl_k h) n
        | HD_FAST_DEQ \<Rightarrow>
            if f = F32 then fast
            else if f = Q8_0 then dot_row_fast_q8_0 row (cl_x h) n
            else dot_row_fast_dequant buf f row (cl_x h) n
        | HD_CANON \<Rightarrow>
            if f = Q6_K then fl_dot_row_q6_K row (cl_x h) n
            else if f = Q4_K then fl_dot_row_q4_K row (cl_x h) n
            else if f = Q8_0 then fl_dot_row_q8_0 row (cl_x h) n
            else if f = F32 then fast
            else dot_row_fast_dequant buf f row (cl_x h) n)"

definition f32_same :: "f32 \<Rightarrow> f32 \<Rightarrow> bool" where
  "f32_same a b \<longleftrightarrow> f32_dec a \<noteq> FNan \<and> f32_dec b \<noteq> FNan \<and> \<not> f32_lt a b \<and> \<not> f32_lt b a"

definition i32_of :: "nat \<Rightarrow> int" where
  "i32_of j = sint (of_nat j :: u32)"

type_synonym eval_state = "nat \<times> f32 \<times> head_cert_stats"

definition cert_eval :: "head_cert \<Rightarrow> (nat \<Rightarrow> f32) \<Rightarrow> nat \<Rightarrow> eval_state \<Rightarrow> eval_state" where
  "cert_eval hc dot j = (\<lambda>(best, bv, st).
    let v = dot j;
        st = st\<lparr>hs_rows_eval := hs_rows_eval st + 1, hs_bytes_read := hs_bytes_read st + of_nat (hc_rb hc)\<rparr>
    in if f32_lt bv v \<or> f32_same v bv \<and> j < best then (j, v, st) else (best, bv, st))"

definition seg_norms :: "head_cert \<Rightarrow> fvec \<Rightarrow> nat \<Rightarrow> f64" where
  "seg_norms hc h s = f64_sqrt (sq_acc (\<lambda>i. h (s * hc_segw hc + i)) (hc_segw hc))"

definition cert_bound :: "head_cert \<Rightarrow> (nat \<Rightarrow> f64) \<Rightarrow> nat \<Rightarrow> f64" where
  "cert_bound hc hn j =
    for_loop 0 (hc_nseg hc) (\<lambda>s b. f64_add b (f64_mul (f64_of_f32 (hc_wn hc (j * hc_nseg hc + s))) (hn s))) 0"

definition cert_anchors :: "head_cert \<Rightarrow> (nat \<Rightarrow> f32) \<Rightarrow> int \<Rightarrow> eval_state \<Rightarrow> eval_state" where
  "cert_anchors hc dot hint s =
    (let s = (if 0 \<le> hint \<and> nat hint < hc_V hc then cert_eval hc dot (nat hint) s else s)
     in fold (\<lambda>j s. if i32_of j \<noteq> hint then cert_eval hc dot j s else s) (hc_topn hc) s)"

definition cert_scan :: "head_cert \<Rightarrow> (nat \<Rightarrow> f32) \<Rightarrow> (nat \<Rightarrow> f64) \<Rightarrow> int \<Rightarrow> f64 \<Rightarrow> eval_state \<Rightarrow> eval_state" where
  "cert_scan hc dot hn hint T =
    for_loop 0 (hc_V hc) (\<lambda>j s.
      if i32_of j = hint then s
      else if f64_lt (cert_bound hc hn j) T then s
      else if j \<in> set (hc_topn hc) then s
      else cert_eval hc dot j s)"

definition minus_inf :: f32 where "minus_inf = 0xFF800000"
definition no_row :: nat where "no_row = 4294967295"

text \<open>
  \<open>argmax\<close> with the dots of the rows given; the segment norms are an array of \<open>SEGS\<close> entries, and
  \<open>None\<close> is the write past its end.
\<close>

definition cert_argmax :: "head_cert \<Rightarrow> (nat \<Rightarrow> f32) \<Rightarrow> fvec \<Rightarrow> int \<Rightarrow> (nat \<times> head_cert) option" where
  "cert_argmax hc dot h hint =
    (if SEGS < hc_nseg hc then None
     else
       let hn = seg_norms hc h; st = hc_st hc; eval0 = hs_rows_eval st;
           (best, bv, st) = cert_anchors hc dot hint (no_row, minus_inf, st);
           T = f64_sub (f64_of_f32 bv) (f64_of_f32 (hc_margin hc));
           (best, bv, st) = cert_scan hc dot hn hint T (best, bv, st);
           cand = hs_rows_eval st - eval0;
           st = st\<lparr>hs_positions := hs_positions st + 1, hs_rows_total := hs_rows_total st + of_nat (hc_V hc)\<rparr>;
           st = (if hs_worst_cand st < cand then st\<lparr>hs_worst_cand := cand\<rparr> else st)
       in Some (best, hc\<lparr>hc_st := st\<rparr>))"

section \<open>Any order of evaluation gives the lexicographic maximum\<close>

text \<open>\<open>best\<close> has the largest value among the rows evaluated, the lowest id among the largest.\<close>

definition lex_max :: "(nat \<Rightarrow> f32) \<Rightarrow> nat set \<Rightarrow> nat \<Rightarrow> bool" where
  "lex_max dot E b \<longleftrightarrow>
    b \<in> E \<and> (\<forall>k \<in> E. f32_key (dot k) < f32_key (dot b) \<or> f32_key (dot k) = f32_key (dot b) \<and> b \<le> k)"

definition evald :: "(nat \<Rightarrow> f32) \<Rightarrow> nat set \<Rightarrow> eval_state \<Rightarrow> bool" where
  "evald dot E s \<longleftrightarrow>
    (if E = {} then fst s = no_row \<and> fst (snd s) = minus_inf else lex_max dot E (fst s) \<and> fst (snd s) = dot (fst s))"

lemma lex_max_unique: "lex_max dot E a \<Longrightarrow> lex_max dot E b \<Longrightarrow> a = b"
  unfolding lex_max_def by (metis less_asym' less_irrefl order_antisym)

lemma lex_max_above:
  assumes "lex_max dot E b" "f32_key (dot b) < f32_key (dot k)"
  shows "lex_max dot (insert k E) k"
proof -
  have "f32_key (dot x) < f32_key (dot k)" if "x \<in> E" for x
    using that assms by (fastforce simp: lex_max_def)
  then show ?thesis by (simp add: lex_max_def)
qed

lemma minus_inf_dec: "f32_dec minus_inf = FInf True"
  by code_simp

lemma minus_inf_least: "f32_ok v \<Longrightarrow> f32_key minus_inf \<le> f32_key v \<and> f32_ok minus_inf"
proof -
  assume v: "f32_ok v"
  have "- (2 ^ 400) \<le> f32_key v"
  proof (cases "f32_dec v")
    case (FNum s m e)
    then show ?thesis using key_abs_less [of v s m e] by simp
  next
    case (FInf s)
    then show ?thesis by (simp add: f32_key_def)
  qed (use v in \<open>simp add: f32_ok_def\<close>)
  then show ?thesis by (simp add: f32_key_def [of minus_inf] f32_ok_def minus_inf_dec)
qed

lemma f32_same_key: "f32_ok a \<Longrightarrow> f32_ok b \<Longrightarrow> f32_same a b \<longleftrightarrow> f32_key a = f32_key b"
  by (auto simp: f32_same_def f32_lt_key f32_ok_def)

lemma cert_eval_step:
  assumes e: "evald dot E s" and ok: "\<forall>k \<in> insert j E. f32_ok (dot k)" and j: "j < no_row"
  shows "evald dot (insert j E) (cert_eval hc dot j s)"
proof -
  obtain best bv st where s: "s = (best, bv, st)" by (cases s)
  have okj: "f32_ok (dot j)" using ok by simp
  show ?thesis
  proof (cases "E = {}")
    case True
    then have b: "best = no_row" "bv = minus_inf" using e by (simp_all add: evald_def s)
    have m: "f32_key minus_inf \<le> f32_key (dot j)" "f32_ok minus_inf" using minus_inf_least [OF okj] by simp_all
    then have "f32_lt bv (dot j) \<or> f32_same (dot j) bv \<and> j < best"
      using j okj by (auto simp: b f32_lt_key f32_same_key)
    then show ?thesis by (simp add: True s cert_eval_def evald_def lex_max_def Let_def)
  next
    case False
    then have b: "lex_max dot E best" "bv = dot best" using e by (simp_all add: evald_def s)
    have okb: "f32_ok (dot best)" using ok b(1) by (simp add: lex_max_def)
    have c: "f32_lt bv (dot j) \<or> f32_same (dot j) bv \<and> j < best \<longleftrightarrow>
        f32_key (dot best) < f32_key (dot j) \<or> f32_key (dot j) = f32_key (dot best) \<and> j < best"
      using okj okb by (simp add: b f32_lt_key f32_same_key)
    show ?thesis
    proof (cases "f32_lt bv (dot j) \<or> f32_same (dot j) bv \<and> j < best")
      case True
      then have "lex_max dot (insert j E) j" using b(1) c by (auto simp: lex_max_def)
      then show ?thesis using True by (simp add: s cert_eval_def evald_def Let_def)
    next
      case False
      then have "lex_max dot (insert j E) best" using b(1) c by (auto simp: lex_max_def)
      moreover have "cert_eval hc dot j s = (best, bv, snd (snd (cert_eval hc dot j s)))"
        using False by (auto simp: s cert_eval_def Let_def)
      ultimately show ?thesis using b(2) by (metis evald_def fst_conv insert_not_empty snd_conv)
    qed
  qed
qed

lemma evald_fold:
  assumes "evald dot E s" "\<forall>k \<in> E \<union> set js. f32_ok (dot k)" "\<forall>j \<in> set js. j < no_row"
  shows "evald dot (E \<union> {j \<in> set js. P j}) (fold (\<lambda>j s. if P j then cert_eval hc dot j s else s) js s)"
  using assms
proof (induction js arbitrary: E s)
  case (Cons j js)
  show ?case
  proof (cases "P j")
    case True
    have "evald dot (insert j E) (cert_eval hc dot j s)"
      by (rule cert_eval_step [OF Cons.prems(1)]) (use Cons.prems in auto)
    moreover have "insert j E \<union> {k \<in> set js. P k} = E \<union> {k \<in> set (j # js). P k}" using True by auto
    moreover have "\<forall>k \<in> insert j E \<union> set js. f32_ok (dot k)" "\<forall>j \<in> set js. j < no_row" using Cons.prems by auto
    ultimately show ?thesis using Cons.IH [of "insert j E" "cert_eval hc dot j s"] True by simp
  next
    case False
    then have "{k \<in> set (j # js). P k} = {k \<in> set js. P k}" by auto
    then show ?thesis using Cons.IH [OF Cons.prems(1)] Cons.prems False by simp
  qed
qed simp

lemma argmax_scan_lex:
  assumes "0 < n" "\<forall>k < n. f32_ok (dot k)"
  shows "lex_max dot {..<n} (fst (argmax_scan n (map dot [0..<n])))"
proof -
  define body where "body = (\<lambda>i (best :: nat, bv, sv).
    if f32_lt bv (map dot [0..<n] ! i) then (i, map dot [0..<n] ! i, bv)
    else if f32_lt sv (map dot [0..<n] ! i) then (best, bv, map dot [0..<n] ! i) else (best, bv, sv))"
  have "lex_max dot {..<k} (fst (for_loop 1 k body (0, dot 0, c_lowest))) \<and>
      fst (snd (for_loop 1 k body (0, dot 0, c_lowest))) = dot (fst (for_loop 1 k body (0, dot 0, c_lowest)))"
    if "1 \<le> k" "k \<le> n" for k
    using that
  proof (induction k rule: nat_induct_at_least)
    case base
    show ?case by (simp add: lex_max_def)
  next
    case (Suc k)
    obtain b bv sv where f: "for_loop 1 k body (0, dot 0, c_lowest) = (b, bv, sv)" by (cases "for_loop 1 k body (0, dot 0, c_lowest)")
    have ih: "lex_max dot {..<k} b" "bv = dot b" using Suc f by simp_all
    have ok: "f32_ok (dot b)" "f32_ok (dot k)" using ih(1) Suc assms(2) by (auto simp: lex_max_def)
    have l: "map dot [0..<n] ! k = dot k" using Suc by simp
    have st: "for_loop 1 (Suc k) body (0, dot 0, c_lowest) = body k (b, bv, sv)"
      unfolding for_loop_last [OF Suc(1)] f ..
    show ?case
    proof (cases "f32_lt bv (dot k)")
      case True
      then have "lex_max dot (insert k {..<k}) k" using ih ok by (intro lex_max_above [OF ih(1)]) (simp add: f32_lt_key)
      moreover have "fst (body k (b, bv, sv)) = k" "fst (snd (body k (b, bv, sv))) = dot k" using True by (simp_all add: body_def l)
      ultimately show ?thesis unfolding st by (simp add: lessThan_Suc)
    next
      case False
      then have "lex_max dot (insert k {..<k}) b" using ih ok by (auto simp: lex_max_def f32_lt_key)
      moreover have "fst (body k (b, bv, sv)) = b" "fst (snd (body k (b, bv, sv))) = bv" using False by (simp_all add: body_def l)
      ultimately show ?thesis using ih(2) unfolding st by (simp add: lessThan_Suc)
    qed
  qed
  from this [of n] assms(1) show ?thesis unfolding argmax_scan_def body_def [symmetric] by (simp add: Suc_leI)
qed

section \<open>Exactness\<close>

text \<open>The soundness the certificate rests on: in the arithmetic of the code, no row's bound is below
  its logit less the margin. It is the sum of Cauchy-Schwarz and the quantisation envelope, and is
  stated of the bounds and dots, not of the search.\<close>

definition envelope :: "head_cert \<Rightarrow> (nat \<Rightarrow> f32) \<Rightarrow> fvec \<Rightarrow> bool" where
  "envelope hc dot h \<longleftrightarrow>
    (\<forall>j < hc_V hc. \<not> f64_lt (cert_bound hc (seg_norms hc h) j) (f64_sub (f64_of_f32 (dot j)) (f64_of_f32 (hc_margin hc))))"

text \<open>A row below the threshold of an anchor value is strictly below the anchor.\<close>

lemma excluded_below:
  assumes "envelope hc dot h" "j < hc_V hc" "f32_ok (dot j)" "f32_ok bv" "f32_dec (hc_margin hc) = FNum s m e"
    and lt: "f64_lt (cert_bound hc (seg_norms hc h) j) (f64_sub (f64_of_f32 bv) (f64_of_f32 (hc_margin hc)))"
  shows "f32_key (dot j) < f32_key bv"
proof (rule ccontr)
  assume "\<not> ?thesis"
  then have n: "\<not> f32_lt (dot j) bv" using f32_lt_key [OF assms(3,4)] by simp
  note mono = widen_sub_mono [OF assms(4,3) n assms(5)]
  have ok: "f64_ok (cert_bound hc (seg_norms hc h) j)" using f64_lt_ok [OF lt] by simp
  have "\<not> f32_lt (dot j) (dot j)" using f32_lt_key [OF assms(3,3)] by simp
  from widen_sub_mono(2) [OF assms(3,3) this assms(5)]
  have ok2: "f64_ok (f64_sub (f64_of_f32 (dot j)) (f64_of_f32 (hc_margin hc)))" .
  have "f64_key (cert_bound hc (seg_norms hc h) j) < f64_key (f64_sub (f64_of_f32 bv) (f64_of_f32 (hc_margin hc)))"
    using lt f64_lt_key [OF ok mono(2)] by simp
  then have "f64_lt (cert_bound hc (seg_norms hc h) j) (f64_sub (f64_of_f32 (dot j)) (f64_of_f32 (hc_margin hc)))"
    using mono(1) f64_lt_key [OF ok ok2] by simp
  then show False using assms(1,2) by (simp add: envelope_def)
qed

lemma i32_of_small: "j < 2 ^ 31 \<Longrightarrow> i32_of j = int j"
proof -
  assume j: "j < 2 ^ 31"
  then have "signed_take_bit 31 (int j) = int j"
    by (intro signed_take_bit_int_eq_self) simp_all
  then show ?thesis by (simp add: i32_of_def signed_of_nat)
qed


definition demo_cert :: head_cert where
  "demo_cert =
    \<lparr>hc_fmt = F32, hc_w = (\<lambda>_. 0), hc_rb = 8, hc_V = 3, hc_NE = 2, hc_segw = 2, hc_nseg = 1,
     hc_margin = 0x3F800000, hc_wn = (\<lambda>j. if j = 0 then 0x3F000000 else 0x40800000), hc_topn = [1],
     hc_st = \<lparr>hs_positions = 0, hs_rows_eval = 0, hs_rows_total = 0, hs_bytes_read = 0, hs_worst_cand = 0\<rparr>\<rparr>"

text \<open>Logits 1, 3 and 2.\<close>

definition demo_dot :: "nat \<Rightarrow> f32" where
  "demo_dot j = (if j = 0 then 0x3F800000 else if j = 1 then 0x40400000 else 0x40000000)"


section \<open>More than eight segments\<close>

lemma cert_init_segs:
  assumes "seg_width f NE = Some segw"
  obtains hc where "cert_init psort f w rb V NE margin topk st = Some hc" "hc_nseg hc = NE div segw"
  by (cases "cert_init psort f w rb V NE margin topk st")
    (auto simp: cert_init_def assms Let_def prod.case_eq_if intro: that)


end
