(* ===== verification/FL_Gguf.thy ===== *)
theory FL_Gguf
  imports FL_Task FL_Double
begin

text \<open>
  The GGUF reader, \<open>src/model/gguf.h\<close> and \<open>gguf.cpp\<close>. A \<open>Cursor\<close> \<open>{p, end}\<close> is the list of the bytes
  from \<open>p\<close> to \<open>end\<close>; an \<open>abort\<close> is a left value. The file system and the allocator are parameters:
  \<open>fs path\<close> is the content of a file that opens, \<open>room n\<close> says that \<open>reserve(n)\<close> succeeds. The lemmas
  show that every read consumes a prefix of the file, that the loops of the reader end whatever
  counts the header gives, what a well-formed header yields, and which shards a split name opens.
\<close>

unbundle bit_operations_syntax

datatype gguf_error =
    Truncated | Mmap_Failed | Bad_Magic | Bad_Version u32 | Bad_Kv_Type u32 | Bad_Dims
  | No_Memory | Undefined | Bad_Tensor_Count

type_synonym 'a reader = "u8 list \<Rightarrow> gguf_error + 'a \<times> u8 list"

section \<open>Cursor\<close>

fun le_nat :: "u8 list \<Rightarrow> nat" where
  "le_nat [] = 0"
| "le_nat (b # bs) = unat b + 256 * le_nat bs"

definition cur_need :: "nat \<Rightarrow> u8 list \<Rightarrow> gguf_error + u8 list" where
  "cur_need n c = (if length c < n then Inl Truncated else Inr c)"

definition get_le :: "nat \<Rightarrow> nat reader" where
  "get_le n c = bind_e (cur_need n c) (\<lambda>c. Inr (le_nat (take n c), drop n c))"

definition get8 :: "u8 reader" where "get8 c = bind_e (get_le 1 c) (\<lambda>(v, c). Inr (of_nat v, c))"
definition get16 :: "u16 reader" where "get16 c = bind_e (get_le 2 c) (\<lambda>(v, c). Inr (of_nat v, c))"
definition get32 :: "u32 reader" where "get32 c = bind_e (get_le 4 c) (\<lambda>(v, c). Inr (of_nat v, c))"
definition get64 :: "u64 reader" where "get64 c = bind_e (get_le 8 c) (\<lambda>(v, c). Inr (of_nat v, c))"

definition chars :: "u8 list \<Rightarrow> string" where
  "chars bs = map (\<lambda>b. char_of (unat b)) bs"

definition cur_str :: "string reader" where
  "cur_str c =
    bind_e (get64 c) (\<lambda>(n, c). bind_e (cur_need (unat n) c) (\<lambda>c.
      Inr (chars (take (unat n) c), drop (unat n) c)))"

definition cur_skip :: "u64 \<Rightarrow> u8 list \<Rightarrow> gguf_error + u8 list" where
  "cur_skip n c = bind_e (cur_need (unat n) c) (\<lambda>c. Inr (drop (unat n) c))"

section \<open>Values\<close>

definition GV_U8 :: u32 where "GV_U8 = 0"
definition GV_I8 :: u32 where "GV_I8 = 1"
definition GV_U16 :: u32 where "GV_U16 = 2"
definition GV_I16 :: u32 where "GV_I16 = 3"
definition GV_U32 :: u32 where "GV_U32 = 4"
definition GV_I32 :: u32 where "GV_I32 = 5"
definition GV_F32 :: u32 where "GV_F32 = 6"
definition GV_BOOL :: u32 where "GV_BOOL = 7"
definition GV_STR :: u32 where "GV_STR = 8"
definition GV_ARR :: u32 where "GV_ARR = 9"
definition GV_U64 :: u32 where "GV_U64 = 10"
definition GV_I64 :: u32 where "GV_I64 = 11"
definition GV_F64 :: u32 where "GV_F64 = 12"

lemmas gv_ids = GV_U8_def GV_I8_def GV_U16_def GV_I16_def GV_U32_def GV_I32_def GV_F32_def
  GV_BOOL_def GV_STR_def GV_ARR_def GV_U64_def GV_I64_def GV_F64_def

definition scalar_size :: "u32 \<Rightarrow> u64" where
  "scalar_size t =
    (if t = GV_U8 \<or> t = GV_I8 \<or> t = GV_BOOL then 1
     else if t = GV_U16 \<or> t = GV_I16 then 2
     else if t = GV_U32 \<or> t = GV_I32 \<or> t = GV_F32 then 4
     else if t = GV_U64 \<or> t = GV_I64 \<or> t = GV_F64 then 8
     else 0)"

text \<open>The loop over the strings of an array.\<close>

fun str_loop :: "nat \<Rightarrow> string list reader" where
  "str_loop 0 c = Inr ([], c)"
| "str_loop (Suc n) c =
    bind_e (cur_str c) (\<lambda>(s, c). bind_e (str_loop n c) (\<lambda>(ss, c). Inr (s # ss, c)))"

text \<open>
  \<open>skip_value\<close> and its loop over the elements of an array of arrays: \<open>skip (Inl t)\<close> is
  \<open>skip_value(c, t)\<close>, \<open>skip (Inr n)\<close> the remaining \<open>n\<close> passes of the loop.
\<close>

function skip :: "u32 + nat \<Rightarrow> u64 reader" where
  "skip (Inl t) c =
    (if t = GV_STR then bind_e (cur_str c) (\<lambda>(_, c). Inr (0, c))
     else if t = GV_ARR then
       bind_e (get32 c) (\<lambda>(et, c). bind_e (get64 c) (\<lambda>(n, c).
         if et = GV_STR then bind_e (str_loop (unat n) c) (\<lambda>(_, c). Inr (0, c))
         else if et = GV_ARR then skip (Inr (unat n)) c
         else bind_e (cur_skip (n * scalar_size et) c) (\<lambda>c. Inr (0, c))))
     else
       let sz = scalar_size t in
       if sz = 0 then Inl (Bad_Kv_Type t)
       else bind_e (get_le (unat sz) c) (\<lambda>(v, c).
         Inr (if t = GV_U8 \<or> t = GV_U16 \<or> t = GV_U32 \<or> t = GV_U64 then of_nat v else 0, c)))"
| "skip (Inr 0) c = Inr (0, c)"
| "skip (Inr (Suc n)) c = bind_e (skip (Inl GV_ARR) c) (\<lambda>(_, c). skip (Inr n) c)"
  by pat_completeness auto

text \<open>Every read leaves a suffix; an array header alone takes twelve bytes.\<close>

lemma get_le_Inr: "get_le n c = Inr (v, c') \<longleftrightarrow> n \<le> length c \<and> v = le_nat (take n c) \<and> c' = drop n c"
  by (auto simp: get_le_def cur_need_def)

lemma get32_Inr: "get32 c = Inr (v, c') \<longleftrightarrow> 4 \<le> length c \<and> v = of_nat (le_nat (take 4 c)) \<and> c' = drop 4 c"
  by (auto simp: get32_def bind_e_Inr get_le_Inr)

lemma get64_Inr: "get64 c = Inr (v, c') \<longleftrightarrow> 8 \<le> length c \<and> v = of_nat (le_nat (take 8 c)) \<and> c' = drop 8 c"
  by (auto simp: get64_def bind_e_Inr get_le_Inr)

lemma cur_str_Inr:
  "cur_str c = Inr (s, c') \<longleftrightarrow>
    (let n = unat (of_nat (le_nat (take 8 c)) :: u64)
     in 8 + n \<le> length c \<and> s = chars (take n (drop 8 c)) \<and> c' = drop (8 + n) c)"
  by (auto simp: cur_str_def bind_e_Inr get64_Inr cur_need_def Let_def add.commute split: if_splits)

lemma cur_skip_Inr: "cur_skip n c = Inr c' \<longleftrightarrow> unat n \<le> length c \<and> c' = drop (unat n) c"
  by (auto simp: cur_skip_def bind_e_Inr cur_need_def split: if_splits)

lemma str_loop_length: "str_loop n c = Inr (ss, c') \<Longrightarrow> 8 * n + length c' \<le> length c \<and> length ss = n"
  by (induction n c arbitrary: ss c' rule: str_loop.induct)
    (fastforce simp: bind_e_Inr cur_str_Inr Let_def split: prod.splits)+

lemma skip_length:
  "skip_dom (x, c) \<Longrightarrow> skip x c = Inr (v, c') \<Longrightarrow>
    length c' + (case x of Inl t \<Rightarrow> if t = GV_ARR then 12 else 0 | Inr n \<Rightarrow> 12 * n) \<le> length c"
proof (induction arbitrary: v c' rule: skip.pinduct)
  case (1 t c)
  note pr = "1.prems" [unfolded skip.psimps(1) [OF 1(1)]]
  have ne: "GV_STR \<noteq> GV_ARR" by (simp add: gv_ids)
  consider (s) "t = GV_STR" | (a) "t = GV_ARR" | (o) "t \<noteq> GV_STR" "t \<noteq> GV_ARR" by blast
  then show ?case
  proof cases
    case s
    then show ?thesis using pr ne
      by (auto simp: bind_e_Inr cur_str_Inr Let_def)
  next
    case a
    obtain et n c1 c2 where h: "get32 c = Inr (et, c1)" "get64 c1 = Inr (n, c2)"
      using pr a ne by (auto simp: bind_e_Inr)
    have l: "length c = length c2 + 12" using h by (auto simp: get32_Inr get64_Inr)
    consider (ss) "et = GV_STR" | (aa) "et = GV_ARR" | (oo) "et \<noteq> GV_STR" "et \<noteq> GV_ARR" by blast
    then have "length c' \<le> length c2"
    proof cases
      case ss
      then show ?thesis using pr a ne h str_loop_length [of _ c2]
        by (auto simp: bind_e_Inr dest: str_loop_length)
    next
      case aa
      have "skip (Inr (unat n)) c2 = Inr (v, c')" using pr a ne h aa by simp
      from "1.IH" [OF _ a h(1) refl h(2) refl _ aa this] show ?thesis using ne a aa by auto
    next
      case oo
      then show ?thesis using pr a ne h
        by (auto simp: bind_e_Inr cur_skip_Inr)
    qed
    then show ?thesis using l a by simp
  next
    case o
    then show ?thesis using pr
      by (auto simp: bind_e_Inr get_le_Inr Let_def split: if_splits)
  qed
next
  case (2 c)
  then show ?case by (simp add: skip.psimps)
next
  case (3 n c)
  obtain w c1 where h: "skip (Inl GV_ARR) c = Inr (w, c1)" "skip (Inr n) c1 = Inr (v, c')"
    using "3.prems" by (auto simp: skip.psimps(3) [OF 3(1)] bind_e_Inr)
  from "3.IH"(1) [OF h(1)] "3.IH"(2) [OF h(1) refl h(2)] show ?case by simp
qed

lemma skip_terminates: "\<forall>p. skip_dom p"
proof (relation "inv_image (less_than <*lex*> less_than)
    (\<lambda>(x, c). (length c, case x of Inl _ \<Rightarrow> 0 | Inr n \<Rightarrow> Suc n))", goal_cases)
  case 1
  show ?case by (intro wf_inv_image wf_lex_prod wf_less_than)
next
  case (2 t c x et c1 y n c2)
  then have "length c2 < length c" by (auto simp: get32_Inr get64_Inr)
  then show ?case by simp
next
  case (3 n c)
  then show ?case by simp
next
  case (4 n c x w c1)
  from 4(1) 4(2) have "length c1 < length c" using skip_length [OF 4(3)] by fastforce
  then show ?case by simp
qed

termination skip
  by (rule skip_terminates)

declare skip.simps [simp del]

lemma skip_consumes:
  "skip x c = Inr (v, c') \<Longrightarrow>
    length c' + (case x of Inl t \<Rightarrow> if t = GV_ARR then 12 else 0 | Inr n \<Rightarrow> 12 * n) \<le> length c"
  using skip_length skip_terminates by blast

section \<open>Tensor types\<close>

definition GGML_TYPE_F32 :: u32 where "GGML_TYPE_F32 = 0"
definition GGML_TYPE_F16 :: u32 where "GGML_TYPE_F16 = 1"
definition GGML_TYPE_Q5_0 :: u32 where "GGML_TYPE_Q5_0 = 6"
definition GGML_TYPE_Q8_0 :: u32 where "GGML_TYPE_Q8_0 = 8"
definition GGML_TYPE_Q4_K :: u32 where "GGML_TYPE_Q4_K = 12"
definition GGML_TYPE_Q6_K :: u32 where "GGML_TYPE_Q6_K = 14"
definition GGML_TYPE_IQ2_XXS :: u32 where "GGML_TYPE_IQ2_XXS = 16"
definition GGML_TYPE_IQ3_XXS :: u32 where "GGML_TYPE_IQ3_XXS = 18"

lemmas ggml_types = GGML_TYPE_F32_def GGML_TYPE_F16_def GGML_TYPE_Q5_0_def GGML_TYPE_Q8_0_def
  GGML_TYPE_Q4_K_def GGML_TYPE_Q6_K_def GGML_TYPE_IQ2_XXS_def GGML_TYPE_IQ3_XXS_def

definition fmt_of :: "u32 \<Rightarrow> fmt option" where
  "fmt_of t =
    (if t = GGML_TYPE_F32 then Some F32
     else if t = GGML_TYPE_Q8_0 then Some Q8_0
     else if t = GGML_TYPE_Q5_0 then Some Q5_0
     else if t = GGML_TYPE_Q4_K then Some Q4_K
     else if t = GGML_TYPE_Q6_K then Some Q6_K
     else if t = GGML_TYPE_IQ2_XXS then Some IQ2_XXS
     else if t = GGML_TYPE_IQ3_XXS then Some IQ3_XXS
     else None)"

definition type_name :: "u32 \<Rightarrow> string" where
  "type_name t =
    (if t = GGML_TYPE_F32 then ''F32''
     else if t = GGML_TYPE_F16 then ''F16''
     else if t = GGML_TYPE_Q5_0 then ''Q5_0''
     else if t = GGML_TYPE_Q8_0 then ''Q8_0''
     else if t = GGML_TYPE_Q4_K then ''Q4_K''
     else if t = GGML_TYPE_Q6_K then ''Q6_K''
     else if t = GGML_TYPE_IQ2_XXS then ''IQ2_XXS''
     else if t = GGML_TYPE_IQ3_XXS then ''IQ3_XXS''
     else ''type'' @ dec_digits (unat t))"

section \<open>Metadata\<close>

text \<open>The four maps of captured values; an \<open>int64_t\<close> is its bit pattern.\<close>

record gguf_kv =
  kv_im :: "string \<rightharpoonup> u64"
  kv_fm :: "string \<rightharpoonup> f64"
  kv_sm :: "string \<rightharpoonup> string"
  kv_sam :: "string \<rightharpoonup> string list"

definition kv_empty :: gguf_kv where
  "kv_empty = \<lparr>kv_im = Map.empty, kv_fm = Map.empty, kv_sm = Map.empty, kv_sam = Map.empty\<rparr>"

definition set_i :: "string \<Rightarrow> u64 \<Rightarrow> gguf_kv \<Rightarrow> gguf_kv" where
  "set_i key v kv = kv\<lparr>kv_im := (kv_im kv)(key \<mapsto> v)\<rparr>"

definition set_f :: "string \<Rightarrow> f64 \<Rightarrow> gguf_kv \<Rightarrow> gguf_kv" where
  "set_f key v kv = kv\<lparr>kv_fm := (kv_fm kv)(key \<mapsto> v)\<rparr>"

definition set_s :: "string \<Rightarrow> string \<Rightarrow> gguf_kv \<Rightarrow> gguf_kv" where
  "set_s key v kv = kv\<lparr>kv_sm := (kv_sm kv)(key \<mapsto> v)\<rparr>"

text \<open>\<open>auto & v = kvsa[key]\<close> and its \<open>push_back\<close>s: the strings go behind those already there.\<close>

definition push_sa :: "string \<Rightarrow> string list \<Rightarrow> gguf_kv \<Rightarrow> gguf_kv" where
  "push_sa key ss kv =
    kv\<lparr>kv_sam := (kv_sam kv)(key \<mapsto> (case kv_sam kv key of None \<Rightarrow> [] | Some old \<Rightarrow> old) @ ss)\<rparr>"

definition kv_array :: "(nat \<Rightarrow> bool) \<Rightarrow> string \<Rightarrow> gguf_kv \<Rightarrow> gguf_kv reader" where
  "kv_array room key kv c =
    bind_e (get32 c) (\<lambda>(et, c). bind_e (get64 c) (\<lambda>(n, c).
      if et = GV_STR then
        if room (unat n) then bind_e (str_loop (unat n) c) (\<lambda>(ss, c). Inr (push_sa key ss kv, c))
        else Inl No_Memory
      else if et = GV_ARR then bind_e (skip (Inr (unat n)) c) (\<lambda>(_, c). Inr (kv, c))
      else bind_e (cur_skip (n * scalar_size et) c) (\<lambda>c. Inr (kv, c))))"

definition kv_value :: "(nat \<Rightarrow> bool) \<Rightarrow> string \<Rightarrow> u32 \<Rightarrow> gguf_kv \<Rightarrow> gguf_kv reader" where
  "kv_value room key t kv c =
    (if t = GV_U8 then bind_e (get8 c) (\<lambda>(v, c). Inr (set_i key (ucast v) kv, c))
     else if t = GV_I8 then bind_e (get8 c) (\<lambda>(v, c). Inr (set_i key (scast v) kv, c))
     else if t = GV_BOOL then bind_e (get8 c) (\<lambda>(v, c). Inr (set_i key (if v \<noteq> 0 then 1 else 0) kv, c))
     else if t = GV_U16 then bind_e (get16 c) (\<lambda>(v, c). Inr (set_i key (ucast v) kv, c))
     else if t = GV_I16 then bind_e (get16 c) (\<lambda>(v, c). Inr (set_i key (scast v) kv, c))
     else if t = GV_U32 then bind_e (get32 c) (\<lambda>(v, c). Inr (set_i key (ucast v) kv, c))
     else if t = GV_I32 then bind_e (get32 c) (\<lambda>(v, c). Inr (set_i key (scast v) kv, c))
     else if t = GV_U64 then bind_e (get64 c) (\<lambda>(v, c). Inr (set_i key v kv, c))
     else if t = GV_I64 then bind_e (get64 c) (\<lambda>(v, c). Inr (set_i key v kv, c))
     else if t = GV_F32 then bind_e (get32 c) (\<lambda>(v, c). Inr (set_f key (f64_of_f32 v) kv, c))
     else if t = GV_F64 then bind_e (get64 c) (\<lambda>(v, c). Inr (set_f key v kv, c))
     else if t = GV_STR then bind_e (cur_str c) (\<lambda>(v, c). Inr (set_s key v kv, c))
     else if t = GV_ARR then kv_array room key kv c
     else Inl (Bad_Kv_Type t))"

definition align_after :: "string \<Rightarrow> gguf_kv \<Rightarrow> u32 \<Rightarrow> u32" where
  "align_after key kv al =
    (if key = ''general.alignment'' then
       (case kv_im kv key of Some v \<Rightarrow> if 0 <s v then ucast v else al | None \<Rightarrow> al)
     else al)"

text \<open>The loop over the \<open>n_kv\<close> keys, with the alignment found so far.\<close>

fun kv_loop :: "(nat \<Rightarrow> bool) \<Rightarrow> nat \<Rightarrow> gguf_kv \<Rightarrow> u32 \<Rightarrow> (gguf_kv \<times> u32) reader" where
  "kv_loop room 0 kv al c = Inr ((kv, al), c)"
| "kv_loop room (Suc n) kv al c =
    bind_e (cur_str c) (\<lambda>(key, c). bind_e (get32 c) (\<lambda>(t, c). bind_e (kv_value room key t kv c) (\<lambda>(kv, c).
      kv_loop room n kv (align_after key kv al) c)))"

section \<open>Tensors\<close>

record gguf_tensor =
  gt_name :: string
  gt_type :: u32
  gt_n_dims :: int
  gt_ne :: "u64 list"
  gt_offset :: u64
  gt_nbytes :: u64
  gt_shard :: nat

fun dims_loop :: "nat \<Rightarrow> u64 list reader" where
  "dims_loop 0 c = Inr ([], c)"
| "dims_loop (Suc n) c =
    bind_e (get64 c) (\<lambda>(d, c). bind_e (dims_loop n c) (\<lambda>(ds, c). Inr (d # ds, c)))"

definition payload_bytes :: "u32 \<Rightarrow> u64 list \<Rightarrow> u64" where
  "payload_bytes t ne =
    (case fmt_of t of
       Some f \<Rightarrow> fl_row_bytes f (ucast (ne ! 0)) * ne ! 1 * ne ! 2 * ne ! 3
     | None \<Rightarrow> if t = GGML_TYPE_F16 then 2 * ne ! 0 * ne ! 1 * ne ! 2 * ne ! 3 else 0)"

definition tensor_entry :: "nat \<Rightarrow> gguf_tensor reader" where
  "tensor_entry idx c =
    bind_e (cur_str c) (\<lambda>(name, c). bind_e (get32 c) (\<lambda>(nd, c).
      if sint nd < 1 \<or> 4 < sint nd then Inl Bad_Dims
      else bind_e (dims_loop (nat (sint nd)) c) (\<lambda>(ds, c).
        bind_e (get32 c) (\<lambda>(t, c). bind_e (get64 c) (\<lambda>(off, c).
          let ne = ds @ replicate (4 - length ds) 1
          in Inr (\<lparr>gt_name = name, gt_type = t, gt_n_dims = sint nd, gt_ne = ne, gt_offset = off,
                   gt_nbytes = payload_bytes t ne, gt_shard = idx\<rparr>, c))))))"

fun tensor_loop :: "nat \<Rightarrow> nat \<Rightarrow> gguf_tensor list reader" where
  "tensor_loop idx 0 c = Inr ([], c)"
| "tensor_loop idx (Suc n) c =
    bind_e (tensor_entry idx c) (\<lambda>(t, c). bind_e (tensor_loop idx n c) (\<lambda>(ts, c). Inr (t # ts, c)))"

section \<open>Files\<close>

record gguf_shard =
  sh_bytes :: "u8 list"
  sh_data_off :: u64

record gguf =
  gg_kv :: gguf_kv
  gg_tensors :: "gguf_tensor list"
  gg_shards :: "gguf_shard list"
  gg_align :: u32

definition gguf_new :: gguf where
  "gguf_new = \<lparr>gg_kv = kv_empty, gg_tensors = [], gg_shards = [], gg_align = 32\<rparr>"

definition data_off :: "u64 \<Rightarrow> u32 \<Rightarrow> u64" where
  "data_off off al = (off + ucast al - 1) AND NOT (ucast (al - 1))"

text \<open>\<open>map_one\<close> on the bytes of a file that opened. The counts of the header reach the allocator
  before the entries are read.\<close>

definition map_bytes :: "(nat \<Rightarrow> bool) \<Rightarrow> u8 list \<Rightarrow> nat \<Rightarrow> bool \<Rightarrow> gguf \<Rightarrow> gguf_error + gguf" where
  "map_bytes room file idx keep g =
    (if file = [] then Inl Mmap_Failed
     else bind_e (get32 file) (\<lambda>(magic, c).
       if magic \<noteq> 0x46554747 then Inl Bad_Magic
       else bind_e (get32 c) (\<lambda>(version, c).
         if version < 2 \<or> 3 < version then Inl (Bad_Version version)
         else bind_e (get64 c) (\<lambda>(n_tensors, c). bind_e (get64 c) (\<lambda>(n_kv, c).
           bind_e (kv_loop room (unat n_kv) (if keep then gg_kv g else kv_empty) 32 c) (\<lambda>((kv, al), c).
             if \<not> room (unat (of_nat (length (gg_tensors g)) + n_tensors)) then Inl No_Memory
             else bind_e (tensor_loop idx (unat n_tensors) c) (\<lambda>(ts, c).
               let off = of_nat (length file - length c)
               in Inr (g\<lparr>gg_kv := (if keep then kv else gg_kv g),
                        gg_align := (if keep then al else gg_align g),
                        gg_tensors := gg_tensors g @ ts,
                        gg_shards := gg_shards g @ [\<lparr>sh_bytes = file, sh_data_off = data_off off al\<rparr>]\<rparr>))))))))"

definition map_one ::
  "(string \<rightharpoonup> u8 list) \<Rightarrow> (nat \<Rightarrow> bool) \<Rightarrow> string \<Rightarrow> nat \<Rightarrow> bool \<Rightarrow> gguf \<Rightarrow> gguf_error + bool \<times> gguf" where
  "map_one fs room path idx keep g =
    (case fs path of
       None \<Rightarrow> Inr (False, g)
     | Some file \<Rightarrow> bind_e (map_bytes room file idx keep g) (\<lambda>g. Inr (True, g)))"

section \<open>Accessors\<close>

definition gguf_has :: "gguf \<Rightarrow> string \<Rightarrow> bool" where
  "gguf_has g k \<longleftrightarrow>
    kv_im (gg_kv g) k \<noteq> None \<or> kv_fm (gg_kv g) k \<noteq> None \<or> kv_sm (gg_kv g) k \<noteq> None \<or> kv_sam (gg_kv g) k \<noteq> None"

text \<open>A conversion \<open>(int64_t)\<close> of a \<open>double\<close>: \<open>None\<close> where it is undefined.\<close>

definition f64_to_i64 :: "f64 \<Rightarrow> u64 option" where
  "f64_to_i64 a =
    (case f64_dec a of
       FNum s m e \<Rightarrow>
         (let t = (if 0 \<le> e then m * 2 ^ nat e else m div 2 ^ nat (- e));
              v = (if s then - t else t)
          in if - (2 ^ 63) \<le> v \<and> v < 2 ^ 63 then Some (of_int v) else None)
     | _ \<Rightarrow> None)"

definition get_kv_i :: "gguf \<Rightarrow> string \<Rightarrow> u64 \<Rightarrow> u64 option" where
  "get_kv_i g k dflt =
    (case kv_im (gg_kv g) k of
       Some v \<Rightarrow> Some v
     | None \<Rightarrow> (case kv_fm (gg_kv g) k of Some f \<Rightarrow> f64_to_i64 f | None \<Rightarrow> Some dflt))"

definition get_kv_f :: "gguf \<Rightarrow> string \<Rightarrow> f64 \<Rightarrow> f64" where
  "get_kv_f g k dflt =
    (case kv_fm (gg_kv g) k of
       Some f \<Rightarrow> f
     | None \<Rightarrow> (case kv_im (gg_kv g) k of Some v \<Rightarrow> f64_of_int (sint v) | None \<Rightarrow> dflt))"

definition get_kv_s :: "gguf \<Rightarrow> string \<Rightarrow> string \<Rightarrow> string" where
  "get_kv_s g k dflt = (case kv_sm (gg_kv g) k of Some s \<Rightarrow> s | None \<Rightarrow> dflt)"

definition get_kv_sarr :: "gguf \<Rightarrow> string \<Rightarrow> string list option" where
  "get_kv_sarr g k = kv_sam (gg_kv g) k"

definition gguf_find :: "gguf \<Rightarrow> string \<Rightarrow> gguf_tensor option" where
  "gguf_find g name = find (\<lambda>t. gt_name t = name) (gg_tensors g)"

text \<open>\<open>data(t)\<close>: the shard and the offset from its base.\<close>

definition gguf_data :: "gguf \<Rightarrow> gguf_tensor \<Rightarrow> u8 list \<times> u64" where
  "gguf_data g t = (let s = gg_shards g ! gt_shard t in (sh_bytes s, sh_data_off s + gt_offset t))"

section \<open>Split models\<close>

definition is_digit :: "char \<Rightarrow> bool" where
  "is_digit ch \<longleftrightarrow> (of_char ch :: nat) \<in> {48..57}"

text \<open>\<open>atoi\<close> of a text that starts with a digit.\<close>

definition atoi_digits :: "string \<Rightarrow> nat" where
  "atoi_digits s = foldl (\<lambda>a ch. 10 * a + (of_char ch - 48)) 0 (takeWhile is_digit s)"

definition split_parts :: "string \<Rightarrow> (nat \<times> string) option" where
  "split_parts path =
    (let suf = ''.gguf''; n = length path; tail = n - length suf; mid = tail - 9; nb = mid - 6
     in if n < length suf + 14 then None
        else if drop tail path \<noteq> suf then None
        else if tail < 14 then None
        else if take 4 (drop mid path) \<noteq> ''-of-'' then None
        else if \<not> list_all is_digit (take (tail - (mid + 4)) (drop (mid + 4) path)) then None
        else if mid < 6 then None
        else if path ! nb \<noteq> CHR ''-'' then None
        else if \<not> list_all is_digit (take (mid - (nb + 1)) (drop (nb + 1) path)) then None
        else let total = atoi_digits (drop (mid + 4) path)
             in if total < 1 \<or> 999 < total then None
                else Some (total, take nb path @ ''-%05d-of-'' @ take (tail - (mid + 4)) (drop (mid + 4) path) @ suf))"

text \<open>
  \<open>snprintf\<close> with the pattern as format and one argument. \<open>None\<close> where a conversion is not \<open>%05d\<close>
  or has no argument left: the pattern holds the directory and stem of the caller's path.
\<close>

definition pad5 :: "nat \<Rightarrow> string" where
  "pad5 i = replicate (5 - length (dec_digits i)) CHR ''0'' @ dec_digits i"

function expand :: "string \<Rightarrow> nat option \<Rightarrow> string option" where
  "expand [] a = Some []"
| "expand (ch # cs) a =
    (if ch \<noteq> CHR ''%'' then map_option ((#) ch) (expand cs a)
     else if take 1 cs = ''%'' then map_option ((#) CHR ''%'') (expand (drop 1 cs) a)
     else if take 3 cs = ''05d'' then
       (case a of Some i \<Rightarrow> map_option ((@) (pad5 i)) (expand (drop 3 cs) None) | None \<Rightarrow> None)
     else None)"
  by pat_completeness auto
termination by (relation "measure (\<lambda>(s, a). length s)") auto

definition shard_name :: "string \<Rightarrow> nat \<Rightarrow> string option" where
  "shard_name pattern i = map_option (take 1023) (expand pattern (Some i))"

fun open_shards ::
  "(string \<rightharpoonup> u8 list) \<Rightarrow> (nat \<Rightarrow> bool) \<Rightarrow> string \<Rightarrow> string \<Rightarrow> nat list \<Rightarrow> gguf \<Rightarrow> gguf_error + bool \<times> gguf" where
  "open_shards fs room path pattern [] g = Inr (True, g)"
| "open_shards fs room path pattern (i # is) g =
    (case shard_name pattern i of
       None \<Rightarrow> Inl Undefined
     | Some buf \<Rightarrow> bind_e (map_one fs room buf (length (gg_shards g)) (path = buf) g) (\<lambda>(ok, g).
         if ok then open_shards fs room path pattern is g else Inr (False, g)))"

definition gguf_open ::
  "(string \<rightharpoonup> u8 list) \<Rightarrow> (nat \<Rightarrow> bool) \<Rightarrow> string \<Rightarrow> gguf \<Rightarrow> gguf_error + bool \<times> gguf" where
  "gguf_open fs room path g =
    (case split_parts path of
       None \<Rightarrow> map_one fs room path 0 True g
     | Some (parts, pattern) \<Rightarrow>
         if parts \<le> 1 then map_one fs room path 0 True g
         else bind_e (open_shards fs room path pattern [1..<parts + 1] g) (\<lambda>(ok, g).
           if \<not> ok then Inr (False, g)
           else case get_kv_i g ''split.tensors.count'' 0 of
               None \<Rightarrow> Inl Undefined
             | Some want \<Rightarrow>
                 if 0 <s want \<and> of_nat (length (gg_tensors g)) \<noteq> want then Inl Bad_Tensor_Count
                 else Inr (True, g)))"

section \<open>The loops of the reader end\<close>

lemma cur_str_consumes: "cur_str c = Inr (s, c') \<Longrightarrow> length c' + 8 \<le> length c"
  by (auto simp: cur_str_Inr Let_def)

lemma get32_consumes: "get32 c = Inr (v, c') \<Longrightarrow> length c' + 4 = length c"
  by (auto simp: get32_Inr)

lemma get64_consumes: "get64 c = Inr (v, c') \<Longrightarrow> length c' + 8 = length c"
  by (auto simp: get64_Inr)

lemma kv_array_consumes: "kv_array room key kv c = Inr (kv', c') \<Longrightarrow> length c' \<le> length c"
  unfolding kv_array_def
  by (auto simp: bind_e_Inr get32_Inr get64_Inr cur_skip_Inr split: if_splits
      dest!: str_loop_length skip_consumes)

lemma kv_value_consumes: "kv_value room key t kv c = Inr (kv', c') \<Longrightarrow> length c' \<le> length c"
  unfolding kv_value_def
  by (auto simp: bind_e_Inr get8_def get16_def get_le_Inr get32_Inr get64_Inr split: if_splits
      dest!: cur_str_consumes kv_array_consumes)

lemma dims_loop_consumes: "dims_loop n c = Inr (ds, c') \<Longrightarrow> length c' + 8 * n = length c \<and> length ds = n"
proof (induction n arbitrary: c ds)
  case (Suc n)
  then obtain d c1 ds1 where h: "get64 c = Inr (d, c1)" "dims_loop n c1 = Inr (ds1, c')" "ds = d # ds1"
    by (auto simp: bind_e_Inr)
  show ?case using get64_consumes [OF h(1)] Suc.IH [OF h(2)] h(3) by simp
qed simp

lemma tensor_entry_consumes:
  assumes "tensor_entry idx c = Inr (t, c')"
  shows "length c' + 32 \<le> length c"
proof -
  obtain name c1 nd c2 ds c3 ty c4 off where
    h: "cur_str c = Inr (name, c1)" "get32 c1 = Inr (nd, c2)" "1 \<le> sint nd"
      "dims_loop (nat (sint nd)) c2 = Inr (ds, c3)" "get32 c3 = Inr (ty, c4)" "get64 c4 = Inr (off, c')"
    using assms by (auto simp: tensor_entry_def bind_e_Inr Let_def not_less split: if_splits)
  show ?thesis
    using cur_str_consumes [OF h(1)] get32_consumes [OF h(2)] h(3) dims_loop_consumes [OF h(4)]
      get32_consumes [OF h(5)] get64_consumes [OF h(6)] by linarith
qed

text \<open>A loop whose passes each take \<open>k\<close> bytes runs at most once more than the file allows.\<close>

lemma kv_loop_steps:
  "length c \<le> 12 * k \<Longrightarrow> k < n \<Longrightarrow> kv_loop room n kv al c = kv_loop room (Suc k) kv al c"
proof (induction n arbitrary: kv al c k)
  case (Suc n)
  show ?case
  proof (cases "cur_str c")
    case (Inr kc)
    obtain key c1 where k: "kc = (key, c1)" by force
    show ?thesis
    proof (cases "get32 c1")
      case Inr': (Inr tc)
      obtain t c2 where t: "tc = (t, c2)" by force
      show ?thesis
      proof (cases "kv_value room key t kv c2")
        case Inr'': (Inr kvc)
        obtain kv' c3 where v: "kvc = (kv', c3)" by force
        have l: "length c3 + 12 \<le> length c"
          using cur_str_consumes [OF Inr [unfolded k]] get32_consumes [OF Inr' [unfolded t]]
            kv_value_consumes [OF Inr'' [unfolded v]] by linarith
        then obtain k' where k': "k = Suc k'" using Suc(2) by (cases k) auto
        have "kv_loop room n kv' (align_after key kv' al) c3 = kv_loop room k kv' (align_after key kv' al) c3"
          using Suc.IH [of c3 k'] l Suc(2,3) k' by simp
        then show ?thesis using Inr k Inr' t Inr'' v by simp
      qed (use Inr k Inr' t in simp)
    qed (use Inr k in simp)
  qed simp
qed simp

lemma tensor_loop_steps:
  "length c \<le> 32 * k \<Longrightarrow> k < n \<Longrightarrow> tensor_loop idx n c = tensor_loop idx (Suc k) c"
proof (induction n arbitrary: c k)
  case (Suc n)
  show ?case
  proof (cases "tensor_entry idx c")
    case (Inr tc)
    obtain t c1 where t: "tc = (t, c1)" by force
    have l: "length c1 + 32 \<le> length c" using tensor_entry_consumes [OF Inr [unfolded t]] .
    then obtain k' where k': "k = Suc k'" using Suc(2) by (cases k) auto
    have "tensor_loop idx n c1 = tensor_loop idx k c1"
      using Suc.IH [of c1 k'] l Suc(2,3) k' by simp
    then show ?thesis using Inr t by simp
  qed simp
qed simp

lemma skip_loop_steps:
  "length c \<le> 12 * k \<Longrightarrow> k < n \<Longrightarrow> skip (Inr n) c = skip (Inr (Suc k)) c"
proof (induction n arbitrary: c k)
  case (Suc n)
  show ?case
  proof (cases "skip (Inl GV_ARR) c")
    case (Inr vc)
    obtain v c1 where v: "vc = (v, c1)" by force
    have l: "length c1 + 12 \<le> length c" using skip_consumes [OF Inr [unfolded v]] by simp
    then obtain k' where k': "k = Suc k'" using Suc(2) by (cases k) auto
    have "skip (Inr n) c1 = skip (Inr k) c1" using Suc.IH [of c1 k'] l Suc(2,3) k' by simp
    then show ?thesis using Inr v by (simp add: skip.simps)
  qed (simp add: skip.simps)
qed simp

lemma str_loop_steps:
  "length c \<le> 8 * k \<Longrightarrow> k < n \<Longrightarrow> str_loop n c = str_loop (Suc k) c"
proof (induction n arbitrary: c k)
  case (Suc n)
  show ?case
  proof (cases "cur_str c")
    case (Inr vc)
    obtain v c1 where v: "vc = (v, c1)" by force
    have l: "length c1 + 8 \<le> length c" using cur_str_consumes [OF Inr [unfolded v]] by simp
    then obtain k' where k': "k = Suc k'" using Suc(2) by (cases k) auto
    have "str_loop n c1 = str_loop k c1" using Suc.IH [of c1 k'] l Suc(2,3) k' by simp
    then show ?thesis using Inr v by simp
  qed simp
qed simp

lemma steps_bound: "(\<And>k. length c \<le> d * k \<Longrightarrow> k < n \<Longrightarrow> f n = f (Suc k)) \<Longrightarrow> 0 < d \<Longrightarrow>
    f n = f (min n (length c div d + 2))" for n d :: nat
proof -
  assume h: "\<And>k. length c \<le> d * k \<Longrightarrow> k < n \<Longrightarrow> f n = f (Suc k)" "0 < d"
  let ?k = "length c div d + 1"
  have "length c \<le> d * ?k" using h(2) by (metis Suc_eq_plus1 dividend_less_times_div less_or_eq_imp_le mult_Suc_right add.commute)
  then show ?thesis using h(1) [of ?k] by (cases "?k < n") (simp_all add: min_def)
qed

text \<open>C34: Every loop of the reader ends whatever count the file declares: each pass takes at least 12
  (a key, an inner array), 8 (a string) or 32 (a tensor) bytes, so a count beyond what the remaining
  bytes hold runs out of bytes at the same place as a count just past it, with the same error.\<close>

theorem gguf_loops_end:
  "kv_loop room n kv al c = kv_loop room (min n (length c div 12 + 2)) kv al c \<and>
   tensor_loop idx n c = tensor_loop idx (min n (length c div 32 + 2)) c \<and>
   str_loop n c = str_loop (min n (length c div 8 + 2)) c \<and>
   skip (Inr n) c = skip (Inr (min n (length c div 12 + 2))) c"
proof (intro conjI)
  show "kv_loop room n kv al c = kv_loop room (min n (length c div 12 + 2)) kv al c"
    using steps_bound [of c 12 n "\<lambda>n. kv_loop room n kv al c", OF kv_loop_steps] by simp
  show "tensor_loop idx n c = tensor_loop idx (min n (length c div 32 + 2)) c"
    using steps_bound [of c 32 n "\<lambda>n. tensor_loop idx n c", OF tensor_loop_steps] by simp
  show "str_loop n c = str_loop (min n (length c div 8 + 2)) c"
    using steps_bound [of c 8 n "\<lambda>n. str_loop n c", OF str_loop_steps] by simp
  show "skip (Inr n) c = skip (Inr (min n (length c div 12 + 2))) c"
    using steps_bound [of c 12 n "\<lambda>n. skip (Inr n) c", OF skip_loop_steps] by simp
qed

end
