(* ===== verification/FL_Gguf_Files.thy ===== *)
theory FL_Gguf_Files
  imports FL_Gguf
begin

text \<open>
  Whole GGUF files: the layout of the format as a writer, the round trip of the reader over it, the
  well-formedness of what \<open>open\<close> returns, and the shards a split name opens.
\<close>

unbundle bit_operations_syntax

section \<open>The file format\<close>

fun le_bytes :: "nat \<Rightarrow> nat \<Rightarrow> u8 list" where
  "le_bytes 0 v = []"
| "le_bytes (Suc n) v = of_nat (v mod 256) # le_bytes n (v div 256)"

definition put_word :: "nat \<Rightarrow> 'a::len word \<Rightarrow> u8 list" where
  "put_word n w = le_bytes n (unat w)"

definition put_count :: "nat \<Rightarrow> u8 list" where "put_count n = le_bytes 8 n"

definition put_str :: "string \<Rightarrow> u8 list" where
  "put_str s = put_count (length s) @ map (\<lambda>ch. of_nat (of_char ch)) s"

text \<open>An array of strings, of arrays, or of scalars of a type id that is neither.\<close>

datatype garr = A_Strs "string list" | A_Arrs "garr list" | A_Raw u32 u64 "u8 list"

fun put_arr :: "garr \<Rightarrow> u8 list" where
  "put_arr (A_Strs ss) = put_word 4 GV_STR @ put_count (length ss) @ concat (map put_str ss)"
| "put_arr (A_Arrs as) = put_word 4 GV_ARR @ put_count (length as) @ concat (map put_arr as)"
| "put_arr (A_Raw et n bs) = put_word 4 et @ put_word 8 n @ bs"

fun arr_ok :: "garr \<Rightarrow> bool" where
  "arr_ok (A_Strs ss) \<longleftrightarrow> length ss < 2 ^ 64 \<and> list_all (\<lambda>s. length s < 2 ^ 64) ss"
| "arr_ok (A_Arrs as) \<longleftrightarrow> length as < 2 ^ 64 \<and> list_all arr_ok as"
| "arr_ok (A_Raw et n bs) \<longleftrightarrow> et \<noteq> GV_STR \<and> et \<noteq> GV_ARR \<and> length bs = unat (n * scalar_size et)"

datatype gval =
    V_U8 u8 | V_I8 u8 | V_Bool u8 | V_U16 u16 | V_I16 u16 | V_U32 u32 | V_I32 u32
  | V_U64 u64 | V_I64 u64 | V_F32 u32 | V_F64 u64 | V_Str string | V_Arr garr

fun val_id :: "gval \<Rightarrow> u32" where
  "val_id (V_U8 _) = GV_U8"
| "val_id (V_I8 _) = GV_I8"
| "val_id (V_Bool _) = GV_BOOL"
| "val_id (V_U16 _) = GV_U16"
| "val_id (V_I16 _) = GV_I16"
| "val_id (V_U32 _) = GV_U32"
| "val_id (V_I32 _) = GV_I32"
| "val_id (V_U64 _) = GV_U64"
| "val_id (V_I64 _) = GV_I64"
| "val_id (V_F32 _) = GV_F32"
| "val_id (V_F64 _) = GV_F64"
| "val_id (V_Str _) = GV_STR"
| "val_id (V_Arr _) = GV_ARR"

fun put_payload :: "gval \<Rightarrow> u8 list" where
  "put_payload (V_U8 v) = put_word 1 v"
| "put_payload (V_I8 v) = put_word 1 v"
| "put_payload (V_Bool v) = put_word 1 v"
| "put_payload (V_U16 v) = put_word 2 v"
| "put_payload (V_I16 v) = put_word 2 v"
| "put_payload (V_U32 v) = put_word 4 v"
| "put_payload (V_I32 v) = put_word 4 v"
| "put_payload (V_U64 v) = put_word 8 v"
| "put_payload (V_I64 v) = put_word 8 v"
| "put_payload (V_F32 v) = put_word 4 v"
| "put_payload (V_F64 v) = put_word 8 v"
| "put_payload (V_Str s) = put_str s"
| "put_payload (V_Arr a) = put_arr a"

definition put_val :: "gval \<Rightarrow> u8 list" where
  "put_val v = put_word 4 (val_id v) @ put_payload v"

fun val_ok :: "(nat \<Rightarrow> bool) \<Rightarrow> gval \<Rightarrow> bool" where
  "val_ok room (V_Str s) \<longleftrightarrow> length s < 2 ^ 64"
| "val_ok room (V_Arr a) \<longleftrightarrow> arr_ok a \<and> (case a of A_Strs ss \<Rightarrow> room (length ss) | _ \<Rightarrow> True)"
| "val_ok room _ \<longleftrightarrow> True"

text \<open>What a value adds to the maps: scalars widened to 64 bits, arrays of strings appended, other
  arrays not kept.\<close>

fun store_val :: "string \<Rightarrow> gval \<Rightarrow> gguf_kv \<Rightarrow> gguf_kv" where
  "store_val k (V_U8 v) kv = set_i k (ucast v) kv"
| "store_val k (V_I8 v) kv = set_i k (scast v) kv"
| "store_val k (V_Bool v) kv = set_i k (if v \<noteq> 0 then 1 else 0) kv"
| "store_val k (V_U16 v) kv = set_i k (ucast v) kv"
| "store_val k (V_I16 v) kv = set_i k (scast v) kv"
| "store_val k (V_U32 v) kv = set_i k (ucast v) kv"
| "store_val k (V_I32 v) kv = set_i k (scast v) kv"
| "store_val k (V_U64 v) kv = set_i k v kv"
| "store_val k (V_I64 v) kv = set_i k v kv"
| "store_val k (V_F32 v) kv = set_f k (f64_of_f32 v) kv"
| "store_val k (V_F64 v) kv = set_f k v kv"
| "store_val k (V_Str s) kv = set_s k s kv"
| "store_val k (V_Arr a) kv = (case a of A_Strs ss \<Rightarrow> push_sa k ss kv | _ \<Rightarrow> kv)"

fun kv_step :: "gguf_kv \<times> u32 \<Rightarrow> string \<times> gval \<Rightarrow> gguf_kv \<times> u32" where
  "kv_step (kv, al) (k, v) = (store_val k v kv, align_after k (store_val k v kv) al)"

record tensor_info =
  ti_name :: string
  ti_dims :: "u64 list"
  ti_type :: u32
  ti_offset :: u64

definition put_tensor :: "tensor_info \<Rightarrow> u8 list" where
  "put_tensor t =
    put_str (ti_name t) @ le_bytes 4 (length (ti_dims t)) @ concat (map (put_word 8) (ti_dims t)) @
    put_word 4 (ti_type t) @ put_word 8 (ti_offset t)"

definition tensor_ok :: "tensor_info \<Rightarrow> bool" where
  "tensor_ok t \<longleftrightarrow> length (ti_name t) < 2 ^ 64 \<and> ti_dims t \<noteq> [] \<and> length (ti_dims t) \<le> 4"

definition read_tensor :: "nat \<Rightarrow> tensor_info \<Rightarrow> gguf_tensor" where
  "read_tensor idx t =
    (let ne = ti_dims t @ replicate (4 - length (ti_dims t)) 1
     in \<lparr>gt_name = ti_name t, gt_type = ti_type t, gt_n_dims = int (length (ti_dims t)), gt_ne = ne,
         gt_offset = ti_offset t, gt_nbytes = payload_bytes (ti_type t) ne, gt_shard = idx\<rparr>)"

record gguf_file =
  gf_version :: u32
  gf_kv :: "(string \<times> gval) list"
  gf_tensors :: "tensor_info list"

definition put_header :: "gguf_file \<Rightarrow> u8 list" where
  "put_header f =
    put_word 4 (0x46554747 :: u32) @ put_word 4 (gf_version f) @
    put_count (length (gf_tensors f)) @ put_count (length (gf_kv f)) @
    concat (map (\<lambda>(k, v). put_str k @ put_val v) (gf_kv f)) @ concat (map put_tensor (gf_tensors f))"

definition file_ok :: "(nat \<Rightarrow> bool) \<Rightarrow> gguf_file \<Rightarrow> bool" where
  "file_ok room f \<longleftrightarrow>
    (gf_version f = 2 \<or> gf_version f = 3) \<and>
    length (gf_kv f) < 2 ^ 64 \<and> length (gf_tensors f) < 2 ^ 64 \<and>
    list_all (\<lambda>(k, v). length k < 2 ^ 64 \<and> val_ok room v) (gf_kv f) \<and> list_all tensor_ok (gf_tensors f)"

section \<open>Reading back\<close>

lemma length_le_bytes [simp]: "length (le_bytes n v) = n"
  by (induction n arbitrary: v) simp_all

lemma le_nat_le_bytes: "le_nat (le_bytes n v) = v mod 256 ^ n"
proof (induction n arbitrary: v)
  case (Suc n)
  have "unat (of_nat (v mod 256) :: u8) = v mod 256" by (simp add: unat_of_nat)
  then show ?case using Suc by (simp add: mod_mult2_eq mult.commute add.commute)
qed simp

lemma get_le_bytes: "get_le n (le_bytes n v @ c) = Inr (v mod 256 ^ n, c)"
  by (simp add: get_le_Inr le_nat_le_bytes)

lemma get8_put [simp]: "get8 (put_word 1 w @ c) = Inr (w, c)" for w :: u8
  using unat_lt_pow [of w] by (simp add: get8_def put_word_def get_le_bytes del: le_bytes.simps)

declare get8_put [unfolded One_nat_def, simp]

lemma get16_put [simp]: "get16 (put_word 2 w @ c) = Inr (w, c)" for w :: u16
  using unat_lt_pow [of w] by (simp add: get16_def put_word_def get_le_bytes del: le_bytes.simps)

lemma get32_bytes: "v < 2 ^ 32 \<Longrightarrow> get32 (le_bytes 4 v @ c) = Inr (of_nat v, c)"
  by (simp add: get32_def get_le_bytes del: le_bytes.simps)

lemma get64_bytes: "v < 2 ^ 64 \<Longrightarrow> get64 (le_bytes 8 v @ c) = Inr (of_nat v, c)"
  by (simp add: get64_def get_le_bytes del: le_bytes.simps)

lemma get32_put [simp]: "get32 (put_word 4 w @ c) = Inr (w, c)" for w :: u32
  using get32_bytes [of "unat w"] unat_lt_pow [of w] by (simp add: put_word_def)

lemma get64_put [simp]: "get64 (put_word 8 w @ c) = Inr (w, c)" for w :: u64
  using get64_bytes [of "unat w"] unat_lt_pow [of w] by (simp add: put_word_def)

lemma get64_count: "n < 2 ^ 64 \<Longrightarrow> get64 (put_count n @ c) = Inr (of_nat n, c)"
  by (simp add: put_count_def get64_bytes)

lemma unat_count: "n < 2 ^ 64 \<Longrightarrow> unat (of_nat n :: u64) = n"
  by (simp add: unat_of_nat)

lemma chars_of_chars: "chars (map (\<lambda>ch. of_nat (of_char ch)) s) = s"
proof -
  have "char_of (unat (of_nat (of_char ch) :: u8)) = ch" for ch
  proof -
    have "(of_char ch :: nat) < 256" by (rule nat_of_char_less_256)
    then have "unat (of_nat (of_char ch) :: u8) = (of_char ch :: nat)" by (simp add: unat_of_nat)
    then show ?thesis by simp
  qed
  then show ?thesis by (simp add: chars_def map_idI)
qed

lemma cur_str_put: "length s < 2 ^ 64 \<Longrightarrow> cur_str (put_str s @ c) = Inr (s, c)"
  by (simp add: cur_str_def put_str_def get64_count unat_count cur_need_def chars_of_chars)

lemma str_loop_put:
  "list_all (\<lambda>s. length s < 2 ^ 64) ss \<Longrightarrow> str_loop (length ss) (concat (map put_str ss) @ c) = Inr (ss, c)"
  by (induction ss) (simp_all add: cur_str_put)

lemma arr_ids: "GV_STR \<noteq> GV_ARR" "GV_ARR \<noteq> GV_STR"
  by (simp_all add: gv_ids)

lemma skip_put: "arr_ok a \<Longrightarrow> skip (Inl GV_ARR) (put_arr a @ c) = Inr (0, c)"
proof (induction a arbitrary: c)
  case (A_Strs ss)
  then show ?case
    by (simp add: skip.simps(1) arr_ids get64_count unat_count str_loop_put)
next
  case (A_Arrs as)
  have l: "skip (Inr (length bs)) (concat (map put_arr bs) @ c) = Inr (0, c)" if "set bs \<subseteq> set as" for bs
    using that
  proof (induction bs)
    case (Cons b bs)
    have "arr_ok b" using A_Arrs.prems Cons.prems by (simp add: list_all_iff subset_iff)
    then have "skip (Inl GV_ARR) (put_arr b @ (concat (map put_arr bs) @ c)) = Inr (0, concat (map put_arr bs) @ c)"
      using A_Arrs.IH [of b] Cons.prems by (simp del: put_arr.simps)
    then show ?case using Cons by (simp add: skip.simps(3) del: put_arr.simps)
  qed (simp add: skip.simps)
  show ?case using A_Arrs.prems l [of as] by (simp add: skip.simps(1) arr_ids get64_count unat_count)
next
  case (A_Raw et n bs)
  then show ?case by (simp add: skip.simps(1) arr_ids cur_skip_def cur_need_def)
qed

lemma skip_loop_put:
  "list_all arr_ok as \<Longrightarrow> skip (Inr (length as)) (concat (map put_arr as) @ c) = Inr (0, c)"
  by (induction as) (simp_all add: skip.simps(2,3) skip_put del: put_arr.simps)

lemma kv_array_put:
  assumes "val_ok room (V_Arr a)"
  shows "kv_array room k kv (put_arr a @ c) = Inr (store_val k (V_Arr a) kv, c)"
proof (cases a)
  case (A_Strs ss)
  then show ?thesis using assms
    by (simp add: kv_array_def get64_count unat_count str_loop_put)
next
  case (A_Arrs as)
  then show ?thesis using assms
    by (simp add: kv_array_def arr_ids get64_count unat_count skip_loop_put)
next
  case (A_Raw et n bs)
  then show ?thesis using assms by (simp add: kv_array_def cur_skip_def cur_need_def)
qed

lemma kv_value_put:
  assumes "val_ok room v"
  shows "kv_value room k (val_id v) kv (put_payload v @ c) = Inr (store_val k v kv, c)"
proof (cases v)
  case (V_Arr a)
  have "kv_value room k GV_ARR kv (put_arr a @ c) = kv_array room k kv (put_arr a @ c)"
    unfolding kv_value_def by (simp add: gv_ids del: put_arr.simps)
  then show ?thesis using V_Arr kv_array_put assms by simp
next
  case (V_Str s)
  have "kv_value room k GV_STR kv (put_str s @ c) = Inr (set_s k s kv, c)"
    unfolding kv_value_def using assms V_Str by (simp add: gv_ids cur_str_put)
  then show ?thesis using V_Str by simp
qed (simp_all add: kv_value_def, simp_all add: gv_ids)

lemma kv_loop_put:
  assumes "list_all (\<lambda>(k, v). length k < 2 ^ 64 \<and> val_ok room v) kvs"
  shows "kv_loop room (length kvs) kv al (concat (map (\<lambda>(k, v). put_str k @ put_val v) kvs) @ c) =
    Inr (foldl kv_step (kv, al) kvs, c)"
  using assms
proof (induction kvs arbitrary: kv al)
  case (Cons x kvs)
  obtain k v where x: "x = (k, v)" by force
  show ?case
    using Cons by (simp add: x put_val_def cur_str_put kv_value_put del: val_id.simps put_payload.simps store_val.simps)
qed simp

lemma dims_loop_put: "dims_loop (length ds) (concat (map (put_word 8) ds) @ c) = Inr (ds, c)"
  by (induction ds) simp_all

lemma tensor_entry_put:
  assumes "tensor_ok t"
  shows "tensor_entry idx (put_tensor t @ c) = Inr (read_tensor idx t, c)"
proof -
  let ?n = "length (ti_dims t)"
  have n: "1 \<le> ?n" "?n \<le> 4" using assms by (auto simp: tensor_ok_def Suc_le_eq)
  have s: "sint (of_nat ?n :: u32) = int ?n"
  proof -
    consider "?n = 1" | "?n = 2" | "?n = 3" | "?n = 4" using n by linarith
    then show ?thesis by cases simp_all
  qed
  show ?thesis using assms n
    by (simp add: tensor_entry_def put_tensor_def tensor_ok_def cur_str_put get32_bytes s dims_loop_put
        read_tensor_def Let_def)
qed

lemma tensor_loop_put:
  "list_all tensor_ok ts \<Longrightarrow>
    tensor_loop idx (length ts) (concat (map put_tensor ts) @ c) = Inr (map (read_tensor idx) ts, c)"
  by (induction ts) (simp_all add: tensor_entry_put)

text \<open>What reading a file adds to the state.\<close>

definition gguf_with :: "gguf_file \<Rightarrow> u8 list \<Rightarrow> nat \<Rightarrow> bool \<Rightarrow> gguf \<Rightarrow> gguf" where
  "gguf_with f rest idx keep g =
    (let (kv, al) = foldl kv_step (if keep then gg_kv g else kv_empty, 32) (gf_kv f)
     in g\<lparr>gg_kv := (if keep then kv else gg_kv g),
          gg_align := (if keep then al else gg_align g),
          gg_tensors := gg_tensors g @ map (read_tensor idx) (gf_tensors f),
          gg_shards := gg_shards g @
            [\<lparr>sh_bytes = put_header f @ rest, sh_data_off = data_off (of_nat (length (put_header f))) al\<rparr>]\<rparr>)"

lemma map_bytes_put:
  assumes "file_ok room f"
    and "room (unat (of_nat (length (gg_tensors g)) + of_nat (length (gf_tensors f)) :: u64))"
  shows "map_bytes room (put_header f @ rest) idx keep g = Inr (gguf_with f rest idx keep g)"
proof -
  have v: "\<not> gf_version f < 2" "\<not> 3 < gf_version f" using assms(1) by (auto simp: file_ok_def)
  have "0 < length (put_word 4 (0x46554747 :: u32))" by (simp add: put_word_def)
  then have ne: "put_word 4 (0x46554747 :: u32) \<noteq> []" by fastforce
  obtain kv al where k: "foldl kv_step (if keep then gg_kv g else kv_empty, 32) (gf_kv f) = (kv, al)" by force
  show ?thesis
    using assms ne v unfolding file_ok_def map_bytes_def
    by (simp add: put_header_def get64_count unat_count kv_loop_put k tensor_loop_put gguf_with_def Let_def)
qed


text \<open>A file whose header announces a tensor of 4096 bytes and which ends with its header.\<close>

definition demo_file :: gguf_file where
  "demo_file =
    \<lparr>gf_version = 3,
     gf_kv = [(''general.alignment'', V_U32 64), (''names'', V_Arr (A_Strs [''a'', ''bc'']))],
     gf_tensors = [\<lparr>ti_name = ''w'', ti_dims = [1024], ti_type = GGML_TYPE_F32, ti_offset = 0\<rparr>]\<rparr>"


section \<open>What open returns\<close>

definition tensor_typed :: "gguf \<Rightarrow> gguf_tensor \<Rightarrow> bool" where
  "tensor_typed g t \<longleftrightarrow>
    gt_n_dims t \<in> {1..4} \<and> length (gt_ne t) = 4 \<and> (\<forall>d < 4. gt_n_dims t \<le> int d \<longrightarrow> gt_ne t ! d = 1) \<and>
    gt_nbytes t = payload_bytes (gt_type t) (gt_ne t) \<and> gt_shard t < length (gg_shards g)"

definition shard_typed :: "gguf_shard \<Rightarrow> bool" where
  "shard_typed s \<longleftrightarrow> (\<exists>off al. 24 \<le> off \<and> off \<le> length (sh_bytes s) \<and> sh_data_off s = data_off (of_nat off) al)"

definition gguf_typed :: "gguf \<Rightarrow> bool" where
  "gguf_typed g \<longleftrightarrow> list_all (tensor_typed g) (gg_tensors g) \<and> list_all shard_typed (gg_shards g)"

lemma tensor_entry_typed:
  assumes "tensor_entry idx c = Inr (t, c')" "idx < length (gg_shards g)"
  shows "tensor_typed g t"
proof -
  obtain name c1 nd c2 ds c3 ty c4 off where
    h: "1 \<le> sint nd" "sint nd \<le> 4" "dims_loop (nat (sint nd)) c2 = Inr (ds, c3)"
      "t = \<lparr>gt_name = name, gt_type = ty, gt_n_dims = sint (nd :: u32), gt_ne = ds @ replicate (4 - length ds) 1,
        gt_offset = off, gt_nbytes = payload_bytes ty (ds @ replicate (4 - length ds) 1), gt_shard = idx\<rparr>"
    using assms(1) by (auto simp: tensor_entry_def bind_e_Inr Let_def not_less split: if_splits)
  have l: "length ds = nat (sint nd)" using dims_loop_consumes [OF h(3)] by simp
  have "(ds @ replicate (4 - length ds) 1) ! d = 1" if "d < 4" "sint nd \<le> int d" for d
  proof -
    have "\<not> d < length ds" using that l h(1) by linarith
    then show ?thesis using that by (simp add: nth_append)
  qed
  then show ?thesis using h l assms(2) by (simp add: tensor_typed_def)
qed

lemma tensor_loop_typed:
  "tensor_loop idx n c = Inr (ts, c') \<Longrightarrow> idx < length (gg_shards g) \<Longrightarrow>
    list_all (tensor_typed g) ts \<and> length c' \<le> length c"
proof (induction n arbitrary: c ts)
  case (Suc n)
  then obtain t c1 ts1 where h: "tensor_entry idx c = Inr (t, c1)" "tensor_loop idx n c1 = Inr (ts1, c')" "ts = t # ts1"
    by (auto simp: bind_e_Inr)
  show ?case
    using tensor_entry_typed [OF h(1) Suc.prems(2)] tensor_entry_consumes [OF h(1)] Suc.IH [OF h(2) Suc.prems(2)] h(3)
    by simp
qed simp

lemma kv_loop_consumes: "kv_loop room n kv al c = Inr (r, c') \<Longrightarrow> length c' \<le> length c"
proof (induction n arbitrary: kv al c)
  case (Suc n)
  then obtain key c1 t c2 kv2 c3 where h: "cur_str c = Inr (key, c1)" "get32 c1 = Inr (t, c2)"
    "kv_value room key t kv c2 = Inr (kv2, c3)" "kv_loop room n kv2 (align_after key kv2 al) c3 = Inr (r, c')"
    by (auto simp: bind_e_Inr)
  show ?case
    using cur_str_consumes [OF h(1)] get32_consumes [OF h(2)] kv_value_consumes [OF h(3)] Suc.IH [OF h(4)] by linarith
qed simp

lemma map_bytes_typed:
  assumes "map_bytes room file (length (gg_shards g)) keep g = Inr g'" "gguf_typed g"
  shows "gguf_typed g' \<and> length (gg_shards g') = Suc (length (gg_shards g))"
proof -
  obtain magic c1 version c2 nt c3 nk c4 kv al c5 ts c6 where
    h: "get32 file = Inr (magic, c1)" "get32 c1 = Inr (version, c2)" "get64 c2 = Inr (nt, c3)" "get64 c3 = Inr (nk, c4)"
      "kv_loop room (unat nk) (if keep then gg_kv g else kv_empty) 32 c4 = Inr ((kv, al), c5)"
      "tensor_loop (length (gg_shards g)) (unat nt) c5 = Inr (ts, c6)"
      "g' = g\<lparr>gg_kv := (if keep then kv else gg_kv g), gg_align := (if keep then al else gg_align g),
        gg_tensors := gg_tensors g @ ts,
        gg_shards := gg_shards g @ [\<lparr>sh_bytes = file, sh_data_off = data_off (of_nat (length file - length c6)) al\<rparr>]\<rparr>"
    using assms(1) unfolding map_bytes_def by (auto simp: bind_e_Inr Let_def split: if_splits)
  have len: "length (gg_shards g') = Suc (length (gg_shards g))" by (simp add: h(7))
  have "length c6 + 24 \<le> length file"
    using get32_consumes [OF h(1)] get32_consumes [OF h(2)] get64_consumes [OF h(3)] get64_consumes [OF h(4)]
      kv_loop_consumes [OF h(5)] tensor_loop_typed [OF h(6), of g'] len by simp
  then have s: "shard_typed \<lparr>sh_bytes = file, sh_data_off = data_off (of_nat (length file - length c6)) al\<rparr>"
    unfolding shard_typed_def by (intro exI [of _ "length file - length c6"] exI [of _ al]) simp
  have "list_all (tensor_typed g') (gg_tensors g)"
    using assms(2) len by (auto simp: gguf_typed_def list_all_iff tensor_typed_def)
  then show ?thesis
    using len s tensor_loop_typed [OF h(6), of g'] assms(2) by (simp add: gguf_typed_def h(7))
qed

lemma map_one_typed:
  assumes "map_one fs room path (length (gg_shards g)) keep g = Inr (ok, g')" "gguf_typed g"
  shows "gguf_typed g'"
  using assms map_bytes_typed [OF _ assms(2)] by (auto simp: map_one_def bind_e_Inr split: option.splits)

lemma open_shards_typed:
  "open_shards fs room path pattern is g = Inr (ok, g') \<Longrightarrow> gguf_typed g \<Longrightarrow> gguf_typed g'"
proof (induction "is" arbitrary: g)
  case (Cons i "is")
  then obtain buf ok1 g1 where h: "map_one fs room buf (length (gg_shards g)) (path = buf) g = Inr (ok1, g1)"
    "(if ok1 then open_shards fs room path pattern is g1 else Inr (False, g1)) = Inr (ok, g')"
    by (auto simp: bind_e_Inr split: option.splits)
  show ?case using map_one_typed [OF h(1) Cons.prems(2)] h(2) Cons.IH [of g1] by (auto split: if_splits)
qed simp

lemma open_keeps_typed:
  assumes "gguf_open fs room path gguf_new = Inr (ok, g)"
  shows "gguf_typed g"
proof -
  have n: "gguf_typed gguf_new" "length (gg_shards gguf_new) = 0" by (simp_all add: gguf_typed_def gguf_new_def)
  show ?thesis
  proof (cases "\<exists>parts pattern. split_parts path = Some (parts, pattern) \<and> 1 < parts")
    case True
    then obtain parts pattern where p: "split_parts path = Some (parts, pattern)" "\<not> parts \<le> 1" by auto
    obtain ok' g' where h: "open_shards fs room path pattern [1..<parts + 1] gguf_new = Inr (ok', g')"
      using assms p by (cases "open_shards fs room path pattern [1..<parts + 1] gguf_new")
        (auto simp: gguf_open_def simp del: upt_Suc)
    then have "g = g'"
      using assms p by (auto simp: gguf_open_def simp del: upt_Suc split: if_splits option.splits)
    then show ?thesis using open_shards_typed [OF h n(1)] by simp
  next
    case False
    then have "map_one fs room path 0 True gguf_new = Inr (ok, g)"
      using assms by (auto simp: gguf_open_def not_less split: option.splits if_splits)
    then show ?thesis using map_one_typed [of fs room path gguf_new True ok g] n by simp
  qed
qed

text \<open>C35: Whatever files it is given, a reader that returns holds only well-formed tables: every tensor has
  one to four dimensions padded with ones, the payload size of its type and shape, and a shard
  that exists; every shard's data section starts at the aligned end of a header within the file.\<close>

theorem gguf_open_typed:
  assumes "gguf_open fs room path gguf_new = Inr (ok, g)"
  shows "gguf_typed g"
  using open_keeps_typed [OF assms] .

lemma gguf_open_typed_witness:
  "\<exists>g. gguf_open (\<lambda>_. Some (put_header demo_file)) (\<lambda>n. n < 100) ''m.gguf'' gguf_new = Inr (True, g) \<and>
    gguf_typed g \<and> length (gg_tensors g) = 1"
proof -
  have "file_ok (\<lambda>n. n < 100) demo_file"
    by (simp add: file_ok_def demo_file_def tensor_ok_def)
  then have e: "map_bytes (\<lambda>n. n < 100) (put_header demo_file) 0 True gguf_new = Inr (gguf_with demo_file [] 0 True gguf_new)"
    using map_bytes_put [of _ demo_file gguf_new "[]" 0 True] by (simp add: gguf_new_def demo_file_def)
  have "split_parts ''m.gguf'' = None" by (simp add: split_parts_def)
  then have o: "gguf_open (\<lambda>_. Some (put_header demo_file)) (\<lambda>n. n < 100) ''m.gguf'' gguf_new =
      Inr (True, gguf_with demo_file [] 0 True gguf_new)"
    using e by (simp add: gguf_open_def map_one_def)
  show ?thesis
    by (rule exI, intro conjI, rule o, rule gguf_open_typed [OF o])
      (simp add: gguf_with_def demo_file_def gguf_new_def split: prod.splits)
qed

section \<open>Shard names\<close>

lemma digit_char: "d < 10 \<Longrightarrow> is_digit (char_of (48 + d)) \<and> of_char (char_of (48 + d) :: char) - 48 = d" for d :: nat
  by (simp add: is_digit_def)

lemma dec_digits_digits: "list_all is_digit (dec_digits n)"
proof (induction n rule: dec_digits.induct)
  case (1 n)
  then show ?case using digit_char [of n] digit_char [of "n mod 10"] by (subst dec_digits.simps) simp
qed

lemma dec_digits_value: "foldl (\<lambda>a ch. 10 * a + (of_char ch - 48)) 0 (dec_digits n) = n"
proof (induction n rule: dec_digits.induct)
  case (1 n)
  then show ?case using digit_char [of n] digit_char [of "n mod 10"] by (subst dec_digits.simps) simp
qed

lemma dec_digits_length: "n < 10 ^ Suc k \<Longrightarrow> length (dec_digits n) \<le> Suc k"
proof (induction k arbitrary: n)
  case 0
  then show ?case by (subst dec_digits.simps) simp
next
  case (Suc k)
  have "n div 10 < 10 ^ Suc k" using Suc.prems by (simp add: less_mult_imp_div_less)
  from Suc.IH [OF this] show ?case by (subst dec_digits.simps) simp
qed

lemma pad5_length: "i \<le> 99999 \<Longrightarrow> length (pad5 i) = 5"
  using dec_digits_length [of i 4] by (simp add: pad5_def)

lemma pad5_digits: "list_all is_digit (pad5 i)"
proof -
  have "is_digit CHR ''0''" by (simp add: is_digit_def)
  then show ?thesis using dec_digits_digits [of i] unfolding pad5_def list_all_iff by auto
qed

lemma atoi_pad5: "atoi_digits (pad5 i @ ''.gguf'') = i"
proof -
  have "takeWhile is_digit (pad5 i @ ''.gguf'') = pad5 i"
    using pad5_digits [of i] by (simp add: takeWhile_append list_all_iff is_digit_def)
  moreover have "foldl (\<lambda>a ch. 10 * a + (of_char ch - 48)) (0 :: nat) (replicate k CHR ''0'') = 0" for k
    by (induction k) simp_all
  ultimately show ?thesis by (simp add: atoi_digits_def pad5_def dec_digits_value)
qed

lemma expand_plain: "CHR ''%'' \<notin> set s \<Longrightarrow> expand (s @ t) a = map_option ((@) s) (expand t a)"
  by (induction s; cases "expand t a") auto

lemma expand_plain': "CHR ''%'' \<notin> set s \<Longrightarrow> expand s a = Some s"
  using expand_plain [of s "[]"] by simp

definition shard_path :: "string \<Rightarrow> nat \<Rightarrow> nat \<Rightarrow> string" where
  "shard_path stem i n = stem @ ''-'' @ pad5 i @ ''-of-'' @ pad5 n @ ''.gguf''"

text \<open>The path of shard \<open>k\<close> of \<open>n\<close> is recognised as a split of \<open>n\<close> files, the names formatted from it
  are those of the shards, and the caller's own name, whose metadata is kept, is that of shard \<open>k\<close>
  only; this for paths without a percent sign that fit the buffer.\<close>

theorem split_names:
  assumes "1 \<le> n" "n \<le> 999" "k \<le> 99999" "CHR ''%'' \<notin> set stem" "length stem < 1000"
  shows "\<exists>pattern. split_parts (shard_path stem k n) = Some (n, pattern) \<and>
    (\<forall>i \<le> 99999. shard_name pattern i = Some (shard_path stem i n) \<and>
      (shard_name pattern i = Some (shard_path stem k n) \<longleftrightarrow> i = k))"
proof -
  let ?p = "shard_path stem k n" and ?l = "length stem"
  let ?pat = "stem @ ''-%05d-of-'' @ pad5 n @ ''.gguf''"
  have l: "length (pad5 k) = 5" "length (pad5 n) = 5" using assms by (simp_all add: pad5_length)
  have pc: "CHR ''%'' \<notin> set (pad5 i)" for i
    using pad5_digits [of i] by (auto simp: list_all_iff is_digit_def)
  have len: "length ?p = ?l + 20" by (simp add: shard_path_def l)
  have d: "drop (?l + 15) ?p = ''.gguf''" "take 4 (drop (?l + 6) ?p) = ''-of-''"
    "take 5 (drop (?l + 10) ?p) = pad5 n" "drop (?l + 10) ?p = pad5 n @ ''.gguf''" "?p ! ?l = CHR ''-''"
    "take 5 (drop (?l + 1) ?p) = pad5 k" "take ?l ?p = stem"
    by (simp_all add: shard_path_def l nth_append)
  have s: "split_parts ?p = Some (n, ?pat)"
    using d assms(1,2) pad5_digits atoi_pad5 by (simp add: split_parts_def Let_def len numeral_eq_Suc)
  have nm: "shard_name ?pat i = Some (shard_path stem i n)" if "i \<le> 99999" for i
  proof -
    have t: "expand (''-of-'' @ pad5 n @ ''.gguf'') None = Some (''-of-'' @ pad5 n @ ''.gguf'')"
      by (rule expand_plain') (use pc in auto)
    have "expand (''-%05d'' @ (''-of-'' @ pad5 n @ ''.gguf'')) (Some i) = Some (''-'' @ pad5 i @ ''-of-'' @ pad5 n @ ''.gguf'')"
      using t by simp
    then have "expand ?pat (Some i) = Some (shard_path stem i n)"
      using expand_plain [OF assms(4)] by (simp add: shard_path_def)
    moreover have "length (shard_path stem i n) \<le> 1023"
      using assms(5) by (simp add: shard_path_def l pad5_length [OF that])
    ultimately show ?thesis by (simp add: shard_name_def)
  qed
  have inj: "shard_path stem i n = ?p \<longleftrightarrow> i = k" if "i \<le> 99999" for i
  proof
    assume "shard_path stem i n = ?p"
    then have "pad5 i = pad5 k" using l pad5_length [OF that] by (simp add: shard_path_def)
    then show "i = k" using atoi_pad5 by metis
  qed simp
  show ?thesis using s nm inj by auto
qed

lemma split_names_witness:
  "\<exists>pattern. split_parts (shard_path ''m/V4'' 1 3) = Some (3, pattern) \<and>
    shard_name pattern 2 = Some (shard_path ''m/V4'' 2 3)"
  using split_names [of 3 1 "''m/V4''"] by auto

end
