(* ===== verification/FL_Detok.thy ===== *)
theory FL_Detok
  imports FL_Prelude
begin

text \<open>
  The byte-level detokeniser, \<open>build_detok\<close> and \<open>detok\<close> of \<open>src/model/decoder.cpp\<close>: the inverse of the
  GPT-2 byte-to-unicode table over the UTF-8 of the vocabulary. A \<open>std::string\<close> is the list of its
  bytes as characters. The lemmas show that a token spelled with the table decodes to its bytes.
\<close>

unbundle bit_operations_syntax

section \<open>Tables\<close>

definition direct_byte :: "nat \<Rightarrow> bool" where
  "direct_byte b \<longleftrightarrow> 33 \<le> b \<and> b \<le> 126 \<or> 161 \<le> b \<and> b \<le> 172 \<or> 174 \<le> b \<and> b \<le> 255"

fun cp_table :: "nat list \<Rightarrow> nat \<Rightarrow> nat list" where
  "cp_table [] nxt = []"
| "cp_table (b # bs) nxt = (if direct_byte b then b # cp_table bs nxt else nxt # cp_table bs (nxt + 1))"

definition cp_of_byte :: "nat list" where
  "cp_of_byte = cp_table [0..<256] 256"

definition byte_of_cp :: "nat \<rightharpoonup> nat" where
  "byte_of_cp = fold (\<lambda>b m. m(cp_of_byte ! b \<mapsto> b)) [0..<256] Map.empty"

section \<open>Decoding\<close>

definition byte_at :: "string \<Rightarrow> nat \<Rightarrow> u8" where
  "byte_at s j = of_nat (of_char (s ! j))"

text \<open>One code point at the head of \<open>s\<close> and the bytes it takes; a byte that starts none is \<open>(0, 1)\<close>.\<close>

definition utf8_at :: "string \<Rightarrow> u32 \<times> nat" where
  "utf8_at s =
    (let c0 = byte_at s 0; x = (\<lambda>j. ucast (byte_at s j) AND 0x3F)
     in if c0 < 0x80 then (ucast c0, 1)
        else if drop_bit 5 c0 = 0x6 \<and> 1 < length s then (push_bit 6 (ucast (c0 AND 0x1F)) OR x 1, 2)
        else if drop_bit 4 c0 = 0xE \<and> 2 < length s then
          (push_bit 12 (ucast (c0 AND 0x0F)) OR push_bit 6 (x 1) OR x 2, 3)
        else if drop_bit 3 c0 = 0x1E \<and> 3 < length s then
          (push_bit 18 (ucast (c0 AND 0x07)) OR push_bit 12 (x 1) OR push_bit 6 (x 2) OR x 3, 4)
        else (0, 1))"

lemma utf8_at_pos: "0 < snd (utf8_at s)"
  by (simp add: utf8_at_def Let_def)

function detok_piece :: "string \<Rightarrow> string" where
  "detok_piece s =
    (if s = [] then []
     else let (cp, len) = utf8_at s
          in (case byte_of_cp (unat cp) of Some b \<Rightarrow> [char_of b] | None \<Rightarrow> take len s) @ detok_piece (drop len s))"
  by pat_completeness auto
termination
proof (relation "measure length", goal_cases)
  case (2 s x cp len)
  then have "len = snd (utf8_at s)" by (metis snd_conv)
  then have "0 < len" using utf8_at_pos [of s] by simp
  then show ?case using 2 by (simp add: Suc_leI diff_less)
qed simp

declare detok_piece.simps [simp del]

text \<open>\<open>None\<close> is a model without a token table: no pieces.\<close>

definition build_detok :: "string list option \<Rightarrow> string list" where
  "build_detok toks = (case toks of None \<Rightarrow> [] | Some ss \<Rightarrow> map detok_piece ss)"

definition detok :: "string list \<Rightarrow> int list \<Rightarrow> string" where
  "detok pieces ids = concat (map (\<lambda>i. if 0 \<le> i \<and> nat i < length pieces then pieces ! nat i else []) ids)"

section \<open>Round trip\<close>

text \<open>The spelling of a byte string in the vocabulary: each byte as the UTF-8 of its code point.\<close>

definition utf8_2 :: "nat \<Rightarrow> nat list" where
  "utf8_2 cp = (if cp < 128 then [cp] else [192 + cp div 64, 128 + cp mod 64])"

definition spell :: "nat \<Rightarrow> string" where
  "spell b = map char_of (utf8_2 (cp_of_byte ! b))"

definition spelled :: "string \<Rightarrow> string" where
  "spelled s = concat (map (\<lambda>ch. spell (of_char ch)) s)"

text \<open>The two bytes of a code point beyond ASCII decode to it.\<close>

definition two_ok :: "nat \<Rightarrow> bool" where
  "two_ok cp \<longleftrightarrow>
    (let c = (of_nat (192 + cp div 64) :: u8); d = (of_nat (128 + cp mod 64) :: u8)
     in \<not> c < 0x80 \<and> drop_bit 5 c = 0x6 \<and> unat (push_bit 6 (ucast (c AND 0x1F)) OR (ucast d AND 0x3F) :: u32) = cp)"

lemma cp_of_byte_eq: "cp_of_byte = [256..<289] @ [33..<127] @ [289..<323] @ [161..<173] @ [323] @ [174..<256]"
  by code_simp

lemma cp_distinct: "distinct cp_of_byte" "length cp_of_byte = 256"
  by (simp_all add: cp_of_byte_eq)

lemma two_ok_all: "list_all two_ok [128..<324]"
  by code_simp

lemma two_ok_at: "128 \<le> cp \<Longrightarrow> cp < 324 \<Longrightarrow> two_ok cp"
proof -
  assume "128 \<le> cp" "cp < 324"
  then have "cp \<in> set [128..<324]" unfolding set_upt by simp
  then show ?thesis using two_ok_all unfolding list_all_iff by blast
qed

lemma cp_bound: "b < 256 \<Longrightarrow> cp_of_byte ! b < 324"
proof -
  assume "b < 256"
  then have "cp_of_byte ! b \<in> set cp_of_byte" using cp_distinct(2) by simp
  then show ?thesis by (auto simp: cp_of_byte_eq)
qed

lemma byte_of_cp_nth: "b < 256 \<Longrightarrow> byte_of_cp (cp_of_byte ! b) = Some b"
proof -
  have "fold (\<lambda>b m. m(cp_of_byte ! b \<mapsto> b)) [0..<n] Map.empty (cp_of_byte ! b) = (if b < n then Some b else None)"
    if "n \<le> 256" "b < 256" for n b
    using that
  proof (induction n)
    case (Suc n)
    then show ?case using nth_eq_iff_index_eq [OF cp_distinct(1), of b n] by (auto simp: cp_distinct(2))
  qed simp
  then show "b < 256 \<Longrightarrow> byte_of_cp (cp_of_byte ! b) = Some b" by (simp add: byte_of_cp_def)
qed

lemma byte_at_char: "n < 256 \<Longrightarrow> byte_at (char_of n # s) 0 = of_nat n" "n < 256 \<Longrightarrow> byte_at (ch # char_of n # s) 1 = of_nat n"
  by (simp_all add: byte_at_def)

lemma utf8_spell:
  assumes "b < 256"
  shows "unat (fst (utf8_at (spell b @ s))) = cp_of_byte ! b \<and> snd (utf8_at (spell b @ s)) = length (spell b)"
proof (cases "cp_of_byte ! b < 128")
  case True
  let ?cp = "cp_of_byte ! b"
  have c: "byte_at (spell b @ s) 0 = of_nat ?cp" using True by (simp add: spell_def utf8_2_def byte_at_char)
  have u: "unat (of_nat ?cp :: u8) = ?cp" using True by (simp add: unat_of_nat)
  then have "(of_nat ?cp :: u8) < 0x80" using True by (simp add: word_less_nat_alt)
  then have "utf8_at (spell b @ s) = (ucast (of_nat ?cp :: u8), 1)"
    unfolding utf8_at_def Let_def c by (simp only: if_True)
  moreover have "unat (ucast (of_nat ?cp :: u8) :: u32) = ?cp" using True by (simp add: u unsigned_ucast_eq unsigned_take_bit_eq take_bit_nat_eq_self)
  ultimately show ?thesis using True by (simp add: spell_def utf8_2_def)
next
  case False
  let ?cp = "cp_of_byte ! b"
  have r: "128 \<le> ?cp" "?cp < 324" using False cp_bound [OF assms] by simp_all
  have l: "spell b = [char_of (192 + ?cp div 64), char_of (128 + ?cp mod 64)]" using False by (simp add: spell_def utf8_2_def)
  have n: "192 + ?cp div 64 < 256" "128 + ?cp mod 64 < 256" using r by simp_all
  have c: "byte_at (spell b @ s) 0 = of_nat (192 + ?cp div 64)" unfolding l append_Cons byte_at_char(1) [OF n(1)] ..
  have d: "byte_at (spell b @ s) 1 = of_nat (128 + ?cp mod 64)" unfolding l append_Cons byte_at_char(2) [OF n(2)] ..
  have t: "two_ok ?cp" using two_ok_at r by simp
  have len: "1 < length (spell b @ s)" by (simp add: l)
  have "utf8_at (spell b @ s) = (push_bit 6 (ucast ((of_nat (192 + ?cp div 64) :: u8) AND 0x1F)) OR (ucast (of_nat (128 + ?cp mod 64) :: u8) AND 0x3F), 2)"
    using t len unfolding utf8_at_def Let_def c d two_ok_def by (simp only: if_True if_False simp_thms)
  then show ?thesis using t unfolding two_ok_def Let_def by (simp add: l)
qed

lemma spell_ne: "spell b \<noteq> []"
  by (simp add: spell_def utf8_2_def)

text \<open>C38: A token spelled with the byte-to-unicode table, as every byte-level token of the vocabulary is,
  decodes to exactly its bytes; and decoding a sequence of such tokens is the concatenation of their
  bytes, ids outside the table adding nothing.\<close>

theorem detok_spelled:
  "detok_piece (spelled s) = s \<and>
   detok (build_detok (Some (map spelled ss))) ids =
     concat (map (\<lambda>i. if 0 \<le> i \<and> nat i < length ss then ss ! nat i else []) ids)"
proof -
  have p: "detok_piece (spelled s) = s" for s
  proof (induction s)
    case Nil
    show ?case by (simp add: spelled_def detok_piece.simps)
  next
    case (Cons ch s)
    have b: "(of_char ch :: nat) < 256" by (rule nat_of_char_less_256)
    let ?b = "of_char ch :: nat"
    have e: "spelled (ch # s) = spell ?b @ spelled s" by (simp add: spelled_def)
    obtain cp len where u: "utf8_at (spell ?b @ spelled s) = (cp, len)" by force
    have k: "unat cp = cp_of_byte ! ?b" "len = length (spell ?b)" using utf8_spell [OF b, of "spelled s"] by (simp_all add: u)
    show ?case
      unfolding e by (subst detok_piece.simps) (simp add: u k spell_ne byte_of_cp_nth [OF b] Cons.IH)
  qed
  then show ?thesis by (simp add: detok_def build_detok_def cong: map_cong if_cong)
qed

end
