(* ===== verification/FL_Loading.thy ===== *)
theory FL_Loading
  imports FL_Gguf_Files FL_Pass FL_Shadow_Init FL_Detok
begin

text \<open>
  Loading a model, \<open>DecoderImpl::load\<close> of \<open>src/model/decoder.cpp\<close> up to its graphs: the
  hyperparameters from the metadata, the weight table over the mapped tensors, the descriptors of
  the expert shadow, and the shape check. \<open>base i\<close> is the address shard \<open>i\<close> is mapped at; the C
  library's functions and the environment's \<open>FASTLLM_KQ_SCALE\<close> are parameters.
\<close>

unbundle bit_operations_syntax

datatype load_error = Gguf_Died gguf_error | Undefined_Conversion | Too_Many_Experts | Missing_Tensor

section \<open>Weights\<close>

definition load_tensor ::
  "(nat \<Rightarrow> nat) \<Rightarrow> gguf \<Rightarrow> string \<Rightarrow> (string \<rightharpoonup> wtensor) \<Rightarrow> (string \<rightharpoonup> wtensor) option" where
  "load_tensor base g name ws =
    (case gguf_find g name of
       None \<Rightarrow> None
     | Some gt \<Rightarrow>
         (case fmt_of (gt_type gt) of
            None \<Rightarrow> None
          | Some f \<Rightarrow>
              let cols = ucast (gt_ne gt ! 0); rows = (ucast (gt_ne gt ! 1) :: u32);
                  nexp = (if 3 \<le> gt_n_dims gt then ucast (gt_ne gt ! 2) else 1 :: u32);
                  rb = fl_row_bytes f cols;
                  s = gg_shards g ! gt_shard gt
              in Some (ws(name \<mapsto>
                   \<lparr>wt_p = base (gt_shard gt) + unat (sh_data_off s + gt_offset gt), wt_fmt = f, wt_rows = unat rows,
                    wt_cols = cols, wt_row_bytes = unat rb,
                    wt_estride = unat (if 1 < nexp then rb * ucast rows else 0), wt_nexp = unat nexp\<rparr>))))"

fun load_seq :: "(nat \<Rightarrow> nat) \<Rightarrow> gguf \<Rightarrow> string list \<Rightarrow> (string \<rightharpoonup> wtensor) \<Rightarrow> (string \<rightharpoonup> wtensor) option" where
  "load_seq base g [] ws = Some ws"
| "load_seq base g (n # ns) ws =
    (case load_tensor base g n ws of None \<Rightarrow> None | Some ws \<Rightarrow> load_seq base g ns ws)"

definition common_names :: "string list" where
  "common_names = [''attn_norm'', ''attn_q'', ''attn_kv_a_mqa'', ''attn_kv_a_norm'', ''attn_kv_b'', ''attn_output'', ''ffn_norm'']"

definition dense_names :: "string list" where
  "dense_names = [''ffn_gate'', ''ffn_up'', ''ffn_down'']"

definition moe_names :: "string list" where
  "moe_names = [''ffn_gate_inp'', ''ffn_gate_exps'', ''ffn_up_exps'', ''ffn_down_exps'', ''ffn_gate_shexp'', ''ffn_up_shexp'',
    ''ffn_down_shexp'']"

definition layer_names :: "hparams \<Rightarrow> nat \<Rightarrow> string list" where
  "layer_names hp l = map (blk_name l) (common_names @ (if l < hp_n_dense_lead hp then dense_names else moe_names))"

definition all_names :: "hparams \<Rightarrow> string list" where
  "all_names hp =
    [''token_embd.weight'', ''output_norm.weight'', ''output.weight''] @ concat (map (layer_names hp) [0..<hp_n_layer hp])"

section \<open>Hyperparameters\<close>

definition kv_int :: "gguf \<Rightarrow> string \<Rightarrow> u64 \<Rightarrow> load_error + u32" where
  "kv_int g k d =
    (case get_kv_i g (''deepseek2.'' @ k) d of None \<Rightarrow> Inl Undefined_Conversion | Some v \<Rightarrow> Inr (ucast v))"

definition kv_float :: "gguf \<Rightarrow> string \<Rightarrow> f64 \<Rightarrow> f32" where
  "kv_float g k d = f32_of_f64 (get_kv_f g (''deepseek2.'' @ k) d)"

definition yarn_scales :: "libm \<Rightarrow> gguf \<Rightarrow> f32 \<times> f32 \<times> f32" where
  "yarn_scales lm g =
    (let factor = kv_float g ''rope.scaling.factor'' 0x3FF0000000000000
     in if get_kv_s g ''deepseek2.rope.scaling.type'' ''none'' = ''yarn'' then
          let fs = f32_div c_1 factor
          in (fs, c_1, f32_div c_1 (f32_add c_1 (f32_mul c_tenth (logf lm (f32_div c_1 fs)))))
        else (c_1, 0, c_1))"

definition kq_scale_of :: "libm \<Rightarrow> f32 option \<Rightarrow> f32 \<Rightarrow> f32 \<Rightarrow> u32 \<Rightarrow> f32" where
  "kq_scale_of lm env yarn fs dk =
    (case env of
       Some v \<Rightarrow> v
     | None \<Rightarrow>
         let mscale = f32_add c_1 (f32_mul (f32_mul c_tenth yarn) (logf lm (f32_div c_1 fs)))
         in f32_div (f32_mul mscale mscale) (sqrtf lm (f32_of_int (uint dk))))"

definition n_vocab_of :: "gguf \<Rightarrow> nat" where
  "n_vocab_of g = (case gguf_find g ''token_embd.weight'' of Some t \<Rightarrow> unat (ucast (gt_ne t ! 1) :: u32) | None \<Rightarrow> 0)"

definition load_hparams :: "libm \<Rightarrow> f32 option \<Rightarrow> gguf \<Rightarrow> load_error + hparams \<times> f32 \<times> u32" where
  "load_hparams lm env g =
    bind_e (kv_int g ''embedding_length'' 2048) (\<lambda>n_embd.
    bind_e (kv_int g ''block_count'' 27) (\<lambda>n_layer.
    bind_e (kv_int g ''attention.head_count'' 16) (\<lambda>n_head.
    bind_e (kv_int g ''attention.kv_lora_rank'' 512) (\<lambda>kv_lora.
    bind_e (kv_int g ''attention.key_length'' 192) (\<lambda>dk.
    bind_e (kv_int g ''attention.value_length'' 128) (\<lambda>dv.
    bind_e (kv_int g ''rope.dimension_count'' 64) (\<lambda>d_rope.
    bind_e (kv_int g ''leading_dense_block_count'' 1) (\<lambda>n_dense_lead.
    bind_e (kv_int g ''feed_forward_length'' 10944) (\<lambda>n_ff_dense.
    bind_e (kv_int g ''expert_feed_forward_length'' 1408) (\<lambda>n_ff_exp.
    bind_e (kv_int g ''expert_count'' 64) (\<lambda>n_expert.
    if 256 < n_expert then Inl Too_Many_Experts
    else
    bind_e (kv_int g ''expert_used_count'' 6) (\<lambda>n_used.
    bind_e (kv_int g ''expert_weights_norm'' 0) (\<lambda>expert_norm.
    bind_e (kv_int g ''rope.scaling.original_context_length'' 4096) (\<lambda>n_ctx_orig.
      let (freq_scale, ext_factor, attn_factor) = yarn_scales lm g;
          yarn_log_mul = f32_div (kv_float g ''rope.scaling.yarn_log_multiplier'' 0) c_tenth
      in case get_kv_i g ''tokenizer.ggml.bos_token_id'' 100000 of
           None \<Rightarrow> Inl Undefined_Conversion
         | Some bos \<Rightarrow> Inr
            (\<lparr>hp_n_embd = unat n_embd, hp_n_layer = unat n_layer, hp_n_head = unat n_head, hp_n_vocab = n_vocab_of g,
              hp_n_dense_lead = unat n_dense_lead, hp_n_ff_dense = unat n_ff_dense, hp_n_ff_exp = unat n_ff_exp,
              hp_n_expert = unat n_expert, hp_n_used = unat n_used, hp_kv_lora = unat kv_lora, hp_dk = unat dk,
              hp_dv = unat dv, hp_d_rope = unat d_rope, hp_d_nope = unat (dk - d_rope),
              hp_rms_eps = kv_float g ''attention.layer_norm_rms_epsilon'' 0x3EB0C6F7A0B5ED8D,
              hp_expert_scale = kv_float g ''expert_weights_scale'' 0x3FF0000000000000, hp_expert_norm = unat expert_norm,
              hp_freq_base = kv_float g ''rope.freq_base'' 0x40C3880000000000, hp_freq_scale = freq_scale,
              hp_ext_factor = ext_factor, hp_attn_factor = attn_factor, hp_beta_fast = 0x42000000, hp_beta_slow = c_1,
              hp_n_ctx_orig = unat n_ctx_orig, hp_kq_scale = kq_scale_of lm env yarn_log_mul freq_scale dk\<rparr>,
             yarn_log_mul, ucast bos)))))))))))))))"

section \<open>The load\<close>

record loaded =
  ld_hp :: hparams
  ld_yarn_log_mul :: f32
  ld_bos :: u32
  ld_w :: "string \<rightharpoonup> wtensor"
  ld_shadow :: "shadow_tensor list"
  ld_pieces :: "string list"

definition wt_default :: wtensor where
  "wt_default = \<lparr>wt_p = 0, wt_fmt = F32, wt_rows = 0, wt_cols = 0, wt_row_bytes = 0, wt_estride = 0, wt_nexp = 1\<rparr>"

definition shadow_desc :: "(string \<rightharpoonup> wtensor) \<Rightarrow> string \<Rightarrow> shadow_tensor" where
  "shadow_desc ws nm =
    (let w = (case ws nm of Some w \<Rightarrow> w | None \<Rightarrow> wt_default)
     in \<lparr>st_name = nm, st_p = wt_p w, st_fmt = wt_fmt w, st_cols = wt_cols w, st_rows = wt_rows w * wt_nexp w\<rparr>)"

definition shadow_descs :: "hparams \<Rightarrow> (string \<rightharpoonup> wtensor) \<Rightarrow> shadow_tensor list" where
  "shadow_descs hp ws =
    concat (map (\<lambda>l. map (\<lambda>c. shadow_desc ws (blk_name l c)) [''ffn_gate_exps'', ''ffn_up_exps'', ''ffn_down_exps''])
      [hp_n_dense_lead hp..<hp_n_layer hp])"

text \<open>\<open>W(name)\<close>\<close>

definition W_at :: "(string \<rightharpoonup> wtensor) \<Rightarrow> string \<Rightarrow> load_error + wtensor" where
  "W_at ws name = (case ws name of None \<Rightarrow> Inl Missing_Tensor | Some w \<Rightarrow> Inr w)"

definition shapes_ok :: "hparams \<Rightarrow> (string \<rightharpoonup> wtensor) \<Rightarrow> load_error + bool" where
  "shapes_ok hp ws =
    bind_e (W_at ws ''blk.0.attn_q.weight'') (\<lambda>q.
      if of_nat (wt_rows q) \<noteq> (of_nat (hp_n_head hp) * of_nat (hp_dk hp) :: u32) then Inr False
      else bind_e (W_at ws ''blk.0.attn_kv_b.weight'') (\<lambda>kvb.
        Inr (of_nat (wt_rows kvb) = (of_nat (hp_n_head hp) * (of_nat (hp_d_nope hp) + of_nat (hp_dv hp)) :: u32))))"

text \<open>The result is \<open>None\<close> where \<open>load\<close> returns false.\<close>

definition load ::
  "libm \<Rightarrow> (string \<rightharpoonup> u8 list) \<Rightarrow> (nat \<Rightarrow> bool) \<Rightarrow> (nat \<Rightarrow> nat) \<Rightarrow> f32 option \<Rightarrow> string \<Rightarrow> load_error + loaded option" where
  "load lm fs room base env path =
    (case gguf_open fs room path gguf_new of
       Inl e \<Rightarrow> Inl (Gguf_Died e)
     | Inr (ok, g) \<Rightarrow>
         if \<not> ok then Inr None
         else if get_kv_s g ''general.architecture'' '''' \<noteq> ''deepseek2'' then Inr None
         else bind_e (load_hparams lm env g) (\<lambda>(hp, yarn, bos).
           case load_seq base g (all_names hp) Map.empty of
             None \<Rightarrow> Inr None
           | Some ws \<Rightarrow>
               bind_e (shapes_ok hp ws) (\<lambda>shapes.
                 if \<not> shapes then Inr None
                 else Inr (Some \<lparr>ld_hp = hp, ld_yarn_log_mul = yarn, ld_bos = bos, ld_w = ws,
                        ld_shadow = shadow_descs hp ws,
                        ld_pieces = build_detok (get_kv_sarr g ''tokenizer.ggml.tokens'')\<rparr>))))"

section \<open>A loaded model is complete\<close>

text \<open>A weight of the table is the tensor of its name in the file.\<close>

definition weight_of :: "(nat \<Rightarrow> nat) \<Rightarrow> gguf \<Rightarrow> string \<Rightarrow> wtensor \<Rightarrow> bool" where
  "weight_of base g name w \<longleftrightarrow>
    (\<exists>t. gguf_find g name = Some t \<and> gt_name t = name \<and> fmt_of (gt_type t) = Some (wt_fmt w) \<and>
      wt_p w = base (gt_shard t) + unat (snd (gguf_data g t)) \<and>
      wt_cols w = ucast (gt_ne t ! 0) \<and> wt_rows w = unat (ucast (gt_ne t ! 1) :: u32) \<and>
      wt_row_bytes w = unat (fl_row_bytes (wt_fmt w) (wt_cols w)) \<and>
      ((\<forall>d < 4. unat (gt_ne t ! d) < 2 ^ 32) \<and> gt_ne t ! 3 = 1 \<and> wt_row_bytes w * wt_rows w * wt_nexp w < 2 ^ 64 \<longrightarrow>
        unat (gt_nbytes t) = wt_row_bytes w * wt_rows w * wt_nexp w \<and>
        (1 < wt_nexp w \<longrightarrow> wt_estride w = wt_row_bytes w * wt_rows w)))"

lemma unat_u32_of: "unat (x :: u64) < 2 ^ 32 \<Longrightarrow> unat (ucast x :: u32) = unat x"
  by (simp add: unsigned_ucast_eq unsigned_take_bit_eq take_bit_nat_eq_self)

lemma gguf_find_Some: "gguf_find g name = Some t \<Longrightarrow> t \<in> set (gg_tensors g) \<and> gt_name t = name"
  by (auto simp: gguf_find_def find_Some_iff)

lemma load_tensor_weight:
  assumes "load_tensor base g name ws = Some ws'" "gguf_typed g"
  shows "\<exists>w. ws' = ws(name \<mapsto> w) \<and> weight_of base g name w"
proof -
  obtain t f where t: "gguf_find g name = Some t" and f: "fmt_of (gt_type t) = Some f"
    using assms(1) by (auto simp: load_tensor_def split: option.splits)
  define w where "w = the (ws' name)"
  have w: "ws' = ws(name \<mapsto> w)" "wt_fmt w = f" "wt_cols w = ucast (gt_ne t ! 0)" "wt_rows w = unat (ucast (gt_ne t ! 1) :: u32)"
    "wt_nexp w = unat (if 3 \<le> gt_n_dims t then ucast (gt_ne t ! 2) else 1 :: u32)" "wt_row_bytes w = unat (fl_row_bytes f (wt_cols w))"
    "wt_p w = base (gt_shard t) + unat (snd (gguf_data g t))"
    "wt_estride w = unat (if 1 < (if 3 \<le> gt_n_dims t then ucast (gt_ne t ! 2) else 1 :: u32)
      then fl_row_bytes f (wt_cols w) * ucast (ucast (gt_ne t ! 1) :: u32) else 0)"
    using assms(1) t f by (auto simp: w_def load_tensor_def Let_def gguf_data_def)
  have "tensor_typed g t" using gguf_find_Some [OF t] assms(2) by (simp add: gguf_typed_def list_all_iff)
  then have ty: "gt_nbytes t = payload_bytes (gt_type t) (gt_ne t)" "gt_n_dims t < 3 \<Longrightarrow> gt_ne t ! 2 = 1"
    by (auto simp: tensor_typed_def)
  have pay: "unat (gt_nbytes t) = wt_row_bytes w * wt_rows w * wt_nexp w \<and>
      (1 < wt_nexp w \<longrightarrow> wt_estride w = wt_row_bytes w * wt_rows w)"
    if h: "\<forall>d < 4. unat (gt_ne t ! d) < 2 ^ 32" "gt_ne t ! 3 = 1" "wt_row_bytes w * wt_rows w * wt_nexp w < 2 ^ 64"
  proof -
    have r: "wt_rows w = unat (gt_ne t ! 1)" using h(1) w(4) by (simp add: unat_u32_of)
    have n: "wt_nexp w = unat (gt_ne t ! 2)" using h(1) w(5) ty(2) by (auto simp: unat_u32_of not_le)
    show ?thesis
    proof (cases "wt_nexp w = 0")
      case True
      then have "gt_ne t ! 2 = 0" using n by (simp add: unat_eq_0)
      then show ?thesis using True by (simp add: ty(1) payload_bytes_def f h(2))
    next
      case False
      then have "wt_row_bytes w * wt_rows w \<le> wt_row_bytes w * wt_rows w * wt_nexp w" by simp
      then have rr: "wt_row_bytes w * wt_rows w < 2 ^ 64" using h(3) by linarith
      have a: "unat (fl_row_bytes f (wt_cols w) * gt_ne t ! 1) = wt_row_bytes w * wt_rows w"
        using rr by (simp add: unat_mult_exact w(6) r)
      have "unat (fl_row_bytes f (wt_cols w) * gt_ne t ! 1 * gt_ne t ! 2) = wt_row_bytes w * wt_rows w * wt_nexp w"
        using h(3) a by (subst unat_mult_exact) (simp_all add: n)
      then have "unat (gt_nbytes t) = wt_row_bytes w * wt_rows w * wt_nexp w"
        by (simp add: ty(1) payload_bytes_def f h(2) w(3))
      moreover have "wt_estride w = wt_row_bytes w * wt_rows w" if "1 < wt_nexp w"
      proof -
        have "1 < (if 3 \<le> gt_n_dims t then ucast (gt_ne t ! 2) else 1 :: u32)"
          using that by (simp add: w(5) word_less_nat_alt)
        moreover have "(ucast (ucast (gt_ne t ! 1) :: u32) :: u64) = gt_ne t ! 1"
          using r w(4) by (metis unat_ucast_u32_u64 word_unat_eq_iff)
        ultimately show ?thesis using a by (simp add: w(8))
      qed
      ultimately show ?thesis by blast
    qed
  qed
  show ?thesis
    by (rule exI [of _ w], intro conjI, rule w(1), unfold weight_of_def, rule exI [of _ t])
      (use t f w pay gguf_find_Some [OF t] in auto)
qed

lemma load_seq_weights:
  assumes "load_seq base g names ws = Some ws'" "gguf_typed g" "\<forall>n w. ws n = Some w \<longrightarrow> weight_of base g n w"
  shows "(\<forall>n \<in> set names. ws' n \<noteq> None) \<and> (\<forall>n. ws n \<noteq> None \<longrightarrow> ws' n \<noteq> None) \<and> (\<forall>n w. ws' n = Some w \<longrightarrow> weight_of base g n w)"
  using assms(1,3)
proof (induction names arbitrary: ws)
  case (Cons n names)
  then obtain ws1 where h: "load_tensor base g n ws = Some ws1" "load_seq base g names ws1 = Some ws'"
    by (auto split: option.splits)
  obtain w where w: "ws1 = ws(n \<mapsto> w)" "weight_of base g n w" using load_tensor_weight [OF h(1) assms(2)] by blast
  have "\<forall>k v. ws1 k = Some v \<longrightarrow> weight_of base g k v" using w Cons.prems(2) by (auto split: if_splits)
  from Cons.IH [OF h(2) this] show ?case unfolding w(1) by auto
qed auto

lemma load_hparams_experts:
  assumes "load_hparams lm env g = Inr (hp, r)"
  shows "\<exists>n. kv_int g ''expert_count'' 64 = Inr n \<and> n \<le> 256 \<and> hp_n_expert hp = unat n"
  using assms unfolding load_hparams_def Let_def prod.case_eq_if
  by (auto simp: bind_e_Inr split: if_splits option.splits)


text \<open>A file of one dense layer with the default attention shape.\<close>

definition demo_tensor :: "string \<times> u64 \<Rightarrow> tensor_info" where
  "demo_tensor = (\<lambda>(nm, rows). \<lparr>ti_name = nm, ti_dims = [32, rows], ti_type = GGML_TYPE_F32, ti_offset = 0\<rparr>)"

definition demo_model :: gguf_file where
  "demo_model =
    \<lparr>gf_version = 3,
     gf_kv = [(''general.architecture'', V_Str ''deepseek2''), (''deepseek2.block_count'', V_U32 1)],
     gf_tensors = map demo_tensor
       [(''token_embd.weight'', 4), (''output_norm.weight'', 1), (''output.weight'', 4),
        (''blk.0.attn_norm.weight'', 1), (''blk.0.attn_q.weight'', 3072), (''blk.0.attn_kv_a_mqa.weight'', 576),
        (''blk.0.attn_kv_a_norm.weight'', 1), (''blk.0.attn_kv_b.weight'', 4096), (''blk.0.attn_output.weight'', 32),
        (''blk.0.ffn_norm.weight'', 1), (''blk.0.ffn_gate.weight'', 32), (''blk.0.ffn_up.weight'', 32),
        (''blk.0.ffn_down.weight'', 32)]\<rparr>"

definition demo_gguf :: gguf where
  "demo_gguf = gguf_with demo_model [] 0 True gguf_new"

lemma demo_open: "gguf_open (\<lambda>_. Some (put_header demo_model)) (\<lambda>n. n < 100) ''m.gguf'' gguf_new = Inr (True, demo_gguf)"
proof -
  have ok: "file_ok (\<lambda>n. n < 100) demo_model"
    by (simp add: file_ok_def demo_model_def tensor_ok_def demo_tensor_def)
  have n: "length (gf_tensors demo_model) = 13" by (simp add: demo_model_def)
  have "map_bytes (\<lambda>n. n < 100) (put_header demo_model @ []) 0 True gguf_new = Inr demo_gguf"
    unfolding demo_gguf_def by (rule map_bytes_put [OF ok]) (simp add: n gguf_new_def)
  moreover have "split_parts ''m.gguf'' = None" by (simp add: split_parts_def)
  ultimately show ?thesis by (simp add: gguf_open_def map_one_def)
qed

lemma demo_kv:
  "kv_im (gg_kv demo_gguf) = [''deepseek2.block_count'' \<mapsto> 1]" "kv_fm (gg_kv demo_gguf) = Map.empty"
  "kv_sm (gg_kv demo_gguf) = [''general.architecture'' \<mapsto> ''deepseek2'']" "kv_sam (gg_kv demo_gguf) = Map.empty"
  by (simp_all add: demo_gguf_def gguf_with_def demo_model_def gguf_new_def kv_empty_def set_i_def set_s_def align_after_def)

lemma find_map: "find P (map f xs) = map_option f (find (P \<circ> f) xs)"
  by (induction xs) auto

lemma demo_find:
  "gguf_find demo_gguf nm = map_option (read_tensor 0) (find (\<lambda>t. ti_name t = nm) (gf_tensors demo_model))"
proof -
  have "gg_tensors demo_gguf = map (read_tensor 0) (gf_tensors demo_model)"
    by (simp add: demo_gguf_def gguf_with_def gguf_new_def split: prod.splits)
  then show ?thesis by (simp add: gguf_find_def find_map read_tensor_def Let_def o_def)
qed

lemma load_seq_Some:
  "(\<forall>n \<in> set names. \<exists>t f. gguf_find g n = Some t \<and> fmt_of (gt_type t) = Some f) \<Longrightarrow> \<exists>ws'. load_seq base g names ws = Some ws'"
proof (induction names arbitrary: ws)
  case (Cons n names)
  then obtain t f where t: "gguf_find g n = Some t" "fmt_of (gt_type t) = Some f" by auto
  then obtain ws1 where "load_tensor base g n ws = Some ws1" by (simp add: load_tensor_def Let_def)
  then show ?case using Cons by simp
qed simp

lemma demo_hparams:
  "\<exists>hp y b. load_hparams demo_libm None demo_gguf = Inr (hp, y, b) \<and> hp_n_layer hp = 1 \<and> hp_n_dense_lead hp = 1 \<and>
    hp_n_head hp = 16 \<and> hp_dk hp = 192 \<and> hp_dv hp = 128 \<and> hp_d_nope hp = 128"
  unfolding load_hparams_def Let_def prod.case_eq_if
  by (simp add: kv_int_def get_kv_i_def demo_kv)


end
