(* ===== verification/FL_Arena.thy ===== *)
theory FL_Arena
  imports FL_Quants_I8
begin

text \<open>
  The unified-memory arena, \<open>src/runtime/arena.cpp\<close>, and the allocators of \<open>src/model/decoder.cpp\<close> over
  it: the zeroed slots, the activation buffers with their appendices, and the caches. \<open>size_t\<close>
  arithmetic wraps; the lemmas show that regions are aligned, inside the arena and pairwise disjoint.
\<close>

unbundle bit_operations_syntax

section \<open>Bump allocation\<close>

record arena =
  ar_base :: addr
  ar_cap :: u64
  ar_used :: u64

definition arena_create :: "addr \<Rightarrow> u64 \<Rightarrow> arena" where
  "arena_create p bytes = \<lparr>ar_base = p, ar_cap = bytes, ar_used = 0\<rparr>"

definition align_up :: "u64 \<Rightarrow> u64 \<Rightarrow> u64" where
  "align_up n al = (n + al - 1) AND NOT (al - 1)"

text \<open>\<open>None\<close> is the abort of an exhausted arena.\<close>

definition arena_alloc :: "u64 \<Rightarrow> u64 \<Rightarrow> arena \<Rightarrow> (addr \<times> arena) option" where
  "arena_alloc bytes al a =
    (let off = align_up (ar_used a) al
     in if ar_cap a < off + bytes then None
        else Some (ar_base a + off, a\<lparr>ar_used := off + bytes\<rparr>))"

fun arena_run :: "(u64 \<times> u64) list \<Rightarrow> arena \<Rightarrow> (addr list \<times> arena) option" where
  "arena_run [] a = Some ([], a)"
| "arena_run ((n, al) # rs) a =
    (case arena_alloc n al a of
       None \<Rightarrow> None
     | Some (p, a) \<Rightarrow> (case arena_run rs a of None \<Rightarrow> None | Some (ps, a) \<Rightarrow> Some (p # ps, a)))"

section \<open>Slots and buffers\<close>

record slots =
  sl_base :: addr
  sl_floats :: u64
  sl_used :: u64

definition slot_alloc :: "u32 \<Rightarrow> slots \<Rightarrow> (addr \<times> slots) option" where
  "slot_alloc n s =
    (if sl_floats s < sl_used s + ucast n then None
     else Some (sl_base s + sl_used s * 4, s\<lparr>sl_used := sl_used s + ucast n\<rparr>))"

definition buf_alloc :: "u32 \<Rightarrow> arena \<Rightarrow> (addr \<times> arena) option" where
  "buf_alloc n a = arena_alloc (fl_x_alloc_bytes n) 128 a"

definition buf_per :: "u32 \<Rightarrow> u64" where
  "buf_per n = align_up (fl_x_alloc_bytes n) 128"

text \<open>The base and the distance of the columns in floats.\<close>

definition buf_alloc_cols :: "u32 \<Rightarrow> nat \<Rightarrow> arena \<Rightarrow> (addr \<times> u32 \<times> arena) option" where
  "buf_alloc_cols n m a =
    (case arena_alloc (buf_per n * of_nat m) 128 a of
       None \<Rightarrow> None | Some (p, a) \<Rightarrow> Some (p, ucast (buf_per n div 4), a))"

definition slot_per :: "u32 \<Rightarrow> u32" where
  "slot_per n = ucast (align_up (ucast n * 4) 128 div 4)"

definition slot_alloc_cols :: "u32 \<Rightarrow> nat \<Rightarrow> slots \<Rightarrow> (addr \<times> u32 \<times> slots) option" where
  "slot_alloc_cols n m s =
    (case slot_alloc (slot_per n * of_nat m) s of None \<Rightarrow> None | Some (p, s) \<Rightarrow> Some (p, slot_per n, s))"

section \<open>Alignment\<close>

lemma mask_down: "x AND NOT (mask k) = (x div 2 ^ k) * 2 ^ k" for x :: u64
proof -
  have "x AND NOT (mask k) = push_bit k (drop_bit k x)"
    by (rule bit_word_eqI) (auto simp: bit_and_iff bit_not_iff bit_mask_iff bit_push_bit_iff bit_drop_bit_eq)
  then show ?thesis by (simp add: push_bit_eq_mult drop_bit_eq_div mult.commute)
qed

lemma align_up_unat:
  assumes "al = 2 ^ k" "k < 64" "unat n + 2 ^ k \<le> 2 ^ 64"
  shows "unat (align_up n al) = (unat n + 2 ^ k - 1) div 2 ^ k * 2 ^ k"
proof -
  have "(2 :: nat) ^ k < 2 ^ 64" using assms(2) by (intro power_strict_increasing) simp_all
  then have "unat (of_nat (2 ^ k) :: u64) = 2 ^ k" by (simp add: unat_of_nat del: of_nat_power)
  then have pk: "unat (2 ^ k :: u64) = 2 ^ k" by simp
  have e: "n + al - 1 = n + (al - 1)" by simp
  have "al \<noteq> 0" using pk assms(1) by (metis power_eq_0_iff unat_0 zero_neq_numeral)
  then have a1: "unat (al - 1) = 2 ^ k - 1" using pk unat_minus_one [of al] assms(1) by simp
  have u: "unat (n + al - 1) = unat n + 2 ^ k - 1"
  proof -
    have "unat n + unat (al - 1) < 2 ^ 64" using assms(3) a1 by simp
    then have "unat (n + (al - 1)) = unat n + unat (al - 1)" by (simp add: unat_word_ariths)
    then show ?thesis using a1 by (simp add: e)
  qed
  have m: "al - 1 = mask k" by (simp add: assms(1) mask_eq_exp_minus_1)
  have d: "unat ((n + al - 1) div 2 ^ k) = (unat n + 2 ^ k - 1) div 2 ^ k" by (simp add: unat_div u pk)
  have "(unat n + 2 ^ k - 1) div 2 ^ k * 2 ^ k \<le> unat n + 2 ^ k - 1" by simp
  then have "unat ((n + al - 1) div 2 ^ k) * unat (2 ^ k :: u64) < 2 ^ 64" unfolding d pk
    using assms(3) zero_less_power [of "2 :: nat" k] by linarith
  then show ?thesis unfolding align_up_def m mask_down using d pk by (simp add: unat_mult_exact)
qed

lemma align_up_bounds:
  assumes "al = 2 ^ k" "k < 64" "unat n + 2 ^ k \<le> 2 ^ 64"
  shows "unat n \<le> unat (align_up n al)" "unat (align_up n al) < unat n + 2 ^ k" "2 ^ k dvd unat (align_up n al)"
proof -
  have "(unat n + 2 ^ k - 1) div 2 ^ k * 2 ^ k + (unat n + 2 ^ k - 1) mod 2 ^ k = unat n + 2 ^ k - 1"
    "(unat n + 2 ^ k - 1) mod 2 ^ k < 2 ^ k" by (rule div_mult_mod_eq) simp
  then show "unat n \<le> unat (align_up n al)" "unat (align_up n al) < unat n + 2 ^ k" "2 ^ k dvd unat (align_up n al)"
    unfolding align_up_unat [OF assms] by linarith+ simp
qed

section \<open>Regions\<close>

text \<open>Requests of a power-of-two alignment up to a page.\<close>

definition req_ok :: "u64 \<times> u64 \<Rightarrow> bool" where
  "req_ok r \<longleftrightarrow> (\<exists>k \<le> 12. snd r = 2 ^ k) \<and> unat (fst r) < 2 ^ 62"

definition arena_ok :: "arena \<Rightarrow> bool" where
  "arena_ok a \<longleftrightarrow> unat (ar_used a) \<le> unat (ar_cap a) \<and> unat (ar_cap a) < 2 ^ 62 \<and>
    4096 dvd unat (ar_base a) \<and> unat (ar_base a) + unat (ar_cap a) < 2 ^ 64"

text \<open>The offset of a pointer into the arena.\<close>

definition ar_off :: "arena \<Rightarrow> addr \<Rightarrow> nat" where
  "ar_off a p = unat p - unat (ar_base a)"

lemma arena_alloc_spec:
  assumes "arena_alloc n al a = Some (p, a')" "arena_ok a" "req_ok (n, al)"
  shows "arena_ok a'" "ar_base a' = ar_base a" "ar_cap a' = ar_cap a"
    "unat (ar_base a) + unat (ar_used a) \<le> unat p" "unat p + unat n = unat (ar_base a) + unat (ar_used a')"
    "unat (ar_used a') \<le> unat (ar_cap a)" "unat al dvd unat p"
proof -
  obtain k where k: "k \<le> 12" "al = 2 ^ k" using assms(3) by (auto simp: req_ok_def)
  have k2: "(2 :: nat) ^ k \<le> 2 ^ 12" using k(1) by (intro power_increasing) simp_all
  have u: "unat (ar_used a) < 2 ^ 62" "unat n < 2 ^ 62" using assms(2,3) by (simp_all add: arena_ok_def req_ok_def)
  note b = align_up_bounds [OF k(2), of "ar_used a"]
  have kk: "k < 64" "unat (ar_used a) + 2 ^ k \<le> 2 ^ 64" using k(1) k2 u by simp_all
  define off where "off = align_up (ar_used a) al"
  have o: "unat (ar_used a) \<le> unat off" "unat off < unat (ar_used a) + 2 ^ k" "2 ^ k dvd unat off"
    using b [OF kk] by (simp_all add: off_def)
  have on: "unat (off + n) = unat off + unat n" using o(2) k2 u by (simp add: unat_word_ariths)
  have h: "\<not> ar_cap a < off + n" "p = ar_base a + off" "a' = a\<lparr>ar_used := off + n\<rparr>"
    using assms(1) by (simp_all add: arena_alloc_def Let_def off_def split: if_splits)
  have le: "unat off + unat n \<le> unat (ar_cap a)" using h(1) by (simp add: on word_less_nat_alt not_less)
  have cap: "unat (ar_base a) + unat (ar_cap a) < 2 ^ 64" "4096 dvd unat (ar_base a)" using assms(2) by (simp_all add: arena_ok_def)
  have p: "unat p = unat (ar_base a) + unat off" using h(2) le cap(1) by (simp add: unat_word_ariths)
  show "arena_ok a'" using assms(2) le by (simp add: arena_ok_def h(3) on)
  show "ar_base a' = ar_base a" "ar_cap a' = ar_cap a" by (simp_all add: h(3))
  show "unat (ar_base a) + unat (ar_used a) \<le> unat p" using p o(1) by simp
  show "unat p + unat n = unat (ar_base a) + unat (ar_used a')" using p by (simp add: h(3) on)
  show "unat (ar_used a') \<le> unat (ar_cap a)" using le by (simp add: h(3) on)
  have "(2 :: nat) ^ k dvd 4096" using le_imp_power_dvd [OF k(1), of "2 :: nat"] by simp
  then have "2 ^ k dvd unat p" unfolding p using o(3) cap(2) by (meson dvd_add dvd_trans)
  moreover have "unat al = 2 ^ k"
  proof -
    have "(2 :: nat) ^ k < 2 ^ 64" using k2 by simp
    then have "unat (of_nat (2 ^ k) :: u64) = 2 ^ k" by (simp add: unat_of_nat del: of_nat_power)
    then show ?thesis by (simp add: k(2))
  qed
  ultimately show "unat al dvd unat p" by simp
qed

lemma arena_run_spec:
  assumes "arena_run rs a = Some (ps, a')" "arena_ok a" "\<forall>r \<in> set rs. req_ok r"
  shows "length ps = length rs \<and> arena_ok a' \<and> ar_base a' = ar_base a \<and> ar_cap a' = ar_cap a \<and> unat (ar_used a) \<le> unat (ar_used a') \<and>
    (\<forall>i < length rs. unat (ar_base a) + unat (ar_used a) \<le> unat (ps ! i) \<and>
      unat (ps ! i) + unat (fst (rs ! i)) \<le> unat (ar_base a) + unat (ar_used a') \<and> unat (snd (rs ! i)) dvd unat (ps ! i)) \<and>
    (\<forall>i j. i < j \<longrightarrow> j < length rs \<longrightarrow> unat (ps ! i) + unat (fst (rs ! i)) \<le> unat (ps ! j))"
  using assms
proof (induction rs arbitrary: a ps)
  case (Cons r rs)
  obtain n al where r: "r = (n, al)" by force
  obtain p a1 ps1 where h: "arena_alloc n al a = Some (p, a1)" "arena_run rs a1 = Some (ps1, a')" "ps = p # ps1"
    using Cons.prems(1) by (auto simp: r split: option.splits)
  have ok: "req_ok (n, al)" "\<forall>r \<in> set rs. req_ok r" using Cons.prems(3) by (simp_all add: r)
  note s = arena_alloc_spec [OF h(1) Cons.prems(2) ok(1)]
  note ih = Cons.IH [OF h(2) s(1) ok(2)]
  have u: "unat (ar_used a) \<le> unat (ar_used a1)" using s(4,5) by linarith
  show ?case
  proof (intro conjI allI impI)
    show "length ps = length (r # rs)" "arena_ok a'" "ar_base a' = ar_base a" "ar_cap a' = ar_cap a"
      "unat (ar_used a) \<le> unat (ar_used a')" using ih s(2,3) h(3) u by simp_all
  next
    fix i assume i: "i < length (r # rs)"
    show "unat (ar_base a) + unat (ar_used a) \<le> unat (ps ! i)"
      "unat (ps ! i) + unat (fst ((r # rs) ! i)) \<le> unat (ar_base a) + unat (ar_used a')"
      "unat (snd ((r # rs) ! i)) dvd unat (ps ! i)"
      using i ih s(2,4,5,7) u by (cases i; force simp: h(3) r)+
  next
    fix i j assume ij: "i < j" "j < length (r # rs)"
    then obtain j' where j: "j = Suc j'" "j' < length rs" by (cases j) auto
    show "unat (ps ! i) + unat (fst ((r # rs) ! i)) \<le> unat (ps ! j)"
    proof (cases i)
      case 0
      have "unat (ar_base a1) + unat (ar_used a1) \<le> unat (ps1 ! j')" using ih j(2) by blast
      then show ?thesis using s(2,5) 0 j by (simp add: h(3) r)
    next
      case (Suc i')
      then show ?thesis using ih ij j by (simp add: h(3))
    qed
  qed
qed simp



section \<open>Columns\<close>

text \<open>Every column of a buffer holds its floats and appendices, 128-byte aligned and apart from the next.\<close>

lemma buf_columns:
  assumes "unat (fl_x_alloc_bytes n) < 2 ^ 33"
  shows "unat (fl_x_alloc_bytes n) \<le> unat (buf_per n)" "128 dvd unat (buf_per n)"
    "4 * unat (ucast (buf_per n div 4) :: u32) = unat (buf_per n)"
proof -
  have k: "(128 :: u64) = 2 ^ 7" "(7 :: nat) < 64" "unat (fl_x_alloc_bytes n) + 2 ^ 7 \<le> 2 ^ 64" using assms by simp_all
  note b = align_up_bounds [OF k]
  show "unat (fl_x_alloc_bytes n) \<le> unat (buf_per n)" using b(1) by (simp add: buf_per_def)
  show d: "128 dvd unat (buf_per n)" using b(3) by (simp add: buf_per_def)
  obtain q where q: "unat (buf_per n) = 128 * q" using d by (rule dvdE)
  have s: "unat (buf_per n) < 2 ^ 34" using b(2) assms by (simp add: buf_per_def)
  have e: "unat (buf_per n div 4) = 32 * q" by (simp add: unat_div q)
  have "32 * q < 2 ^ 32" using s q by simp
  then have "unat (ucast (buf_per n div 4) :: u32) = 32 * q"
    using e by (simp add: unsigned_ucast_eq unsigned_take_bit_eq take_bit_nat_eq_self)
  then show "4 * unat (ucast (buf_per n div 4) :: u32) = unat (buf_per n)" using q by simp
qed

section \<open>The memory of a decoder\<close>

definition batch_clamp :: "int \<Rightarrow> int" where
  "batch_clamp mb = (if mb < 1 then 1 else if 16 < mb then 16 else mb)"

record graph_memory =
  gm_arena :: arena
  gm_slots :: slots
  gm_kcache :: addr
  gm_vcache :: addr
  gm_kstride :: u64
  gm_vstride :: u64
  gm_pos :: addr

text \<open>\<open>p\<close> is what the system allocator returns for the arena, \<open>task_size\<close> is \<open>sizeof(Task)\<close>,
  \<open>max_kv\<close> the \<open>int\<close> option converted to 64 bits.\<close>

definition cache_bytes :: "u32 \<Rightarrow> u64 \<Rightarrow> u32 \<Rightarrow> u32 \<Rightarrow> u64" where
  "cache_bytes n_layer max_kv NH d = ucast n_layer * max_kv * ucast NH * ucast d * 4"

definition slot_budget :: "u32 \<Rightarrow> u32 \<Rightarrow> u64 \<Rightarrow> u64" where
  "slot_budget n_layer n_vocab sum_m = (ucast n_layer * 80000 + ucast n_vocab + push_bit 20 1) * sum_m"

definition graphs_memory ::
  "addr \<Rightarrow> u64 \<Rightarrow> u32 \<Rightarrow> u32 \<Rightarrow> u32 \<Rightarrow> u32 \<Rightarrow> u32 \<Rightarrow> int \<Rightarrow> u64 \<Rightarrow> graph_memory option" where
  "graphs_memory p task_size n_layer n_vocab NH dk dv max_batch max_kv =
    (let MB = of_int (batch_clamp max_batch); sum_m = MB * (MB + 1) div 2;
         kc = cache_bytes n_layer max_kv NH dk; vc = cache_bytes n_layer max_kv NH dv;
         budget = slot_budget n_layer n_vocab sum_m;
         a = arena_create p (sum_m * 18000 * task_size + budget * 4 + kc + vc + push_bit 20 256 + sum_m * push_bit 20 48)
     in case arena_run [(budget * 4, 128), (kc, 128), (vc, 128), (64 * ((MB + 15) div 16), 64)] a of
          Some ([sl, k, v, po], a) \<Rightarrow>
            Some \<lparr>gm_arena = a, gm_slots = \<lparr>sl_base = sl, sl_floats = budget, sl_used = 0\<rparr>, gm_kcache = k, gm_vcache = v,
                  gm_kstride = max_kv * ucast NH * ucast dk, gm_vstride = max_kv * ucast NH * ucast dv, gm_pos = po\<rparr>
        | _ \<Rightarrow> None)"

text \<open>The layers of a cache tile it when its size fits in 64 bits.\<close>

lemma cache_layers:
  assumes "unat n_layer * (unat max_kv * unat NH * unat d) * 4 < 2 ^ 64" "n_layer \<noteq> 0"
  shows "unat (cache_bytes n_layer max_kv NH d) = unat n_layer * (4 * unat (max_kv * ucast NH * ucast d :: u64))"
proof -
  let ?x = "unat max_kv * unat NH * unat d"
  have l: "1 \<le> unat n_layer" using assms(2) by (simp add: Suc_le_eq unat_gt_0)
  have "?x \<le> unat n_layer * ?x" using l by simp
  then have x: "?x < 2 ^ 64" using assms(1) by linarith
  have b: "unat (max_kv * ucast NH * ucast d :: u64) = ?x"
  proof (cases "d = 0")
    case False
    then have "1 \<le> unat d" by (simp add: Suc_le_eq unat_gt_0)
    then have "unat max_kv * unat NH \<le> ?x" by simp
    then have "unat max_kv * unat NH < 2 ^ 64" using x by linarith
    then have a: "unat (max_kv * ucast NH :: u64) = unat max_kv * unat NH" by (simp add: unat_mult_exact)
    then show ?thesis using x by (subst unat_mult_exact) simp_all
  qed simp
  have e: "cache_bytes n_layer max_kv NH d = ucast n_layer * (max_kv * ucast NH * ucast d) * 4"
    by (simp add: cache_bytes_def mult.assoc)
  have c: "unat (ucast n_layer * (max_kv * ucast NH * ucast d) :: u64) = unat n_layer * ?x"
  proof -
    have "unat (ucast n_layer :: u64) * unat (max_kv * ucast NH * ucast d :: u64) < 2 ^ 64"
      unfolding b unat_ucast_u32_u64 using assms(1) by linarith
    then show ?thesis using unat_mult_exact [of "ucast n_layer :: u64" "max_kv * ucast NH * ucast d"] by (simp add: b)
  qed
  have "unat (ucast n_layer * (max_kv * ucast NH * ucast d) :: u64) * unat (4 :: u64) < 2 ^ 64"
    unfolding c using assms(1) by (simp add: mult.assoc)
  then have "unat (cache_bytes n_layer max_kv NH d) = unat n_layer * ?x * 4"
    unfolding e using unat_mult_exact [of "ucast n_layer * (max_kv * ucast NH * ucast d)" "4 :: u64"] by (simp add: c)
  then show ?thesis using b by simp
qed

end
